(* ===== verification/Prelude.thy ===== *)
theory Prelude
  imports Main "HOL-Library.Word" "HOL-Library.Monad_Syntax"
begin

text \<open>
  Shared vocabulary of the development.

  \<^item> Fixed-width integers of the source are words: \<open>u8\<close>, \<open>u16\<close>, \<open>u32\<close>, \<open>u64\<close>;
    the target is 64 bit, so \<open>usize\<close> is \<open>u64\<close> where its width matters.
  \<^item> A panic of the source (a failed \<^verbatim>\<open>assert!\<close>, an arithmetic overflow of an unchecked
    operator, an index out of bounds, \<^verbatim>\<open>unwrap\<close> of \<^verbatim>\<open>None\<close>) is the value \<open>None\<close> of an
    \<open>option\<close>; \<open>require\<close> is \<^verbatim>\<open>assert!\<close> and the \<open>do\<close> notation sequences.
  \<^item> \<open>bit_len\<close>, \<open>leading_zeros\<close>, \<open>trailing_zeros\<close> and \<open>trailing_ones\<close> are the bit scans of
    the standard library, defined by recursion so that they evaluate.
\<close>

unbundle bit_operations_syntax

type_synonym u8 = "8 word"
type_synonym u16 = "16 word"
type_synonym u32 = "32 word"
type_synonym u64 = "64 word"

named_theorems panic_simps \<open>elimination of the sequencing of operations that may panic\<close>
named_theorems code_consts \<open>definitions of the source's numeric constants\<close>

section \<open>Panics\<close>

definition require :: "bool \<Rightarrow> unit option" where
  "require b = (if b then Some () else None)"

definition checked_add :: "'a::len word \<Rightarrow> 'a word \<Rightarrow> 'a word option" where
  "checked_add a b = (if a \<le> a + b then Some (a + b) else None)"

definition checked_sub :: "'a::len word \<Rightarrow> 'a word \<Rightarrow> 'a word option" where
  "checked_sub a b = (if b \<le> a then Some (a - b) else None)"

definition nth_opt :: "'a list \<Rightarrow> nat \<Rightarrow> 'a option" where
  "nth_opt xs i = (if i < length xs then Some (xs ! i) else None)"

definition upd_opt :: "'a list \<Rightarrow> nat \<Rightarrow> 'a \<Rightarrow> 'a list option" where
  "upd_opt xs i v = (if i < length xs then Some (xs[i := v]) else None)"

section \<open>Bit scans\<close>

fun bit_len :: "nat \<Rightarrow> nat" where
  "bit_len n = (if n = 0 then 0 else Suc (bit_len (n div 2)))"

declare bit_len.simps [simp del]

definition leading_zeros :: "'a::len word \<Rightarrow> nat" where
  "leading_zeros w = LENGTH('a) - bit_len (unat w)"

fun low_zeros :: "nat \<Rightarrow> nat" where
  "low_zeros n = (if n = 0 \<or> odd n then 0 else Suc (low_zeros (n div 2)))"

declare low_zeros.simps [simp del]

definition trailing_zeros :: "'a::len word \<Rightarrow> nat" where
  "trailing_zeros w = (if w = 0 then LENGTH('a) else low_zeros (unat w))"

definition trailing_ones :: "'a::len word \<Rightarrow> nat" where
  "trailing_ones w = trailing_zeros (NOT w)"

section \<open>Lemmas on panics\<close>

lemma require_True [simp]: "require True = Some ()"
  by (simp add: require_def)

lemma require_False [simp]: "require False = None"
  by (simp add: require_def)

lemma require_eq_Some [simp, panic_simps]: "require b = Some u \<longleftrightarrow> b"
  by (simp add: require_def)

lemma require_bind_Some [simp, panic_simps]:
  "Option.bind (require b) f = Some y \<longleftrightarrow> b \<and> f () = Some y"
  by (simp add: require_def)

lemma require_bind_None [simp]:
  "Option.bind (require b) f = None \<longleftrightarrow> (b \<longrightarrow> f () = None)"
  by (simp add: require_def)

lemma checked_add_Some [panic_simps]:
  "checked_add a b = Some c \<longleftrightarrow> unat a + unat b < 2 ^ LENGTH('a) \<and> c = a + b"
  for a b c :: "'a::len word"
  by (auto simp: checked_add_def no_olen_add_nat)

lemma unat_checked_add:
  "checked_add a b = Some c \<Longrightarrow> unat c = unat a + unat b"
  for a b c :: "'a::len word"
  by (auto simp: checked_add_def no_olen_add_nat unat_word_ariths split: if_splits)

lemma checked_sub_Some [panic_simps]:
  "checked_sub a b = Some c \<longleftrightarrow> b \<le> a \<and> c = a - b"
  by (auto simp: checked_sub_def)

lemma unat_checked_sub:
  "checked_sub a b = Some c \<Longrightarrow> unat c = unat a - unat b"
  by (auto simp: checked_sub_def unat_sub split: if_splits)

lemma nth_opt_Some [simp, panic_simps]: "nth_opt xs i = Some x \<longleftrightarrow> i < length xs \<and> xs ! i = x"
  by (auto simp: nth_opt_def)

lemma nth_opt_in_range: "i < length xs \<Longrightarrow> nth_opt xs i = Some (xs ! i)"
  by (simp add: nth_opt_def)

lemma nth_opt_None: "nth_opt xs i = None \<longleftrightarrow> length xs \<le> i"
  by (auto simp: nth_opt_def)

lemma upd_opt_Some [simp, panic_simps]:
  "upd_opt xs i v = Some ys \<longleftrightarrow> i < length xs \<and> ys = xs[i := v]"
  by (auto simp: upd_opt_def)

lemma upd_opt_in_range: "i < length xs \<Longrightarrow> upd_opt xs i v = Some (xs[i := v])"
  by (simp add: upd_opt_def)

lemma nth_list_update_if: "xs[i := x] ! j = (if i = j \<and> i < length xs then x else xs ! j)"
  by (cases "i < length xs") (auto simp: list_update_beyond)

section \<open>Lemmas on bit scans\<close>

lemma bit_len_0 [simp]: "bit_len 0 = 0"
  by (simp add: bit_len.simps)

lemma bit_len_eq_0 [simp]: "bit_len n = 0 \<longleftrightarrow> n = 0"
  by (subst bit_len.simps) simp

lemma bit_len_le_iff: "bit_len n \<le> k \<longleftrightarrow> n < 2 ^ k"
proof (induction n arbitrary: k rule: bit_len.induct)
  case (1 n)
  show ?case
  proof (cases "n = 0")
    case False
    note IH = "1.IH"[OF this]
    show ?thesis
    proof (cases k)
      case 0
      with False show ?thesis by (simp add: bit_len.simps [of n])
    next
      case (Suc j)
      with False IH [of j] show ?thesis by (simp add: bit_len.simps [of n]) linarith
    qed
  qed simp
qed

lemma less_power_bit_len: "n < 2 ^ bit_len n"
  using bit_len_le_iff [of n "bit_len n"] by simp

lemma power_bit_len_le: "0 < n \<Longrightarrow> 2 ^ (bit_len n - 1) \<le> n"
  using bit_len_le_iff [of n "bit_len n - 1"] by (cases "bit_len n") auto

lemma bit_len_eqI:
  assumes "2 ^ k \<le> n" "n < 2 ^ Suc k"
  shows "bit_len n = Suc k"
  using bit_len_le_iff [of n k] bit_len_le_iff [of n "Suc k"] assms by simp

lemma bit_len_unat_le: "bit_len (unat (w :: 'a::len word)) \<le> LENGTH('a)"
  by (simp add: bit_len_le_iff)

lemma sub_leading_zeros: "LENGTH('a) - leading_zeros (w :: 'a::len word) = bit_len (unat w)"
  using bit_len_unat_le [of w] by (simp add: leading_zeros_def)

lemma low_zeros_mult_power: "odd m \<Longrightarrow> low_zeros (m * 2 ^ k) = k"
proof (induction k)
  case 0
  then show ?case by (simp add: low_zeros.simps)
next
  case (Suc k)
  have "m * 2 ^ Suc k \<noteq> 0" "even (m * 2 ^ Suc k)" "m * 2 ^ Suc k div 2 = m * 2 ^ k"
    using Suc.prems by (auto elim: oddE)
  then show ?case using Suc by (simp only: low_zeros.simps [of "m * 2 ^ Suc k"]) simp
qed

section \<open>Lemmas on words\<close>

lemma unat_ucast_up:
  "LENGTH('a) \<le> LENGTH('b) \<Longrightarrow> unat (ucast (x :: 'a::len word) :: 'b::len word) = unat x"
  by (simp add: unsigned_ucast_eq take_bit_nat_eq_self_iff order_less_le_trans [OF unsigned_less])

lemma ucast_down_up:
  "LENGTH('a) \<le> LENGTH('b) \<Longrightarrow> ucast (ucast (x :: 'a::len word) :: 'b::len word) = x"
  by (simp add: ucast_up_ucast_id is_up_def target_size_def source_size_def word_size)

lemma unat_of_nat_small: "n < 2 ^ LENGTH('a) \<Longrightarrow> unat (of_nat n :: 'a::len word) = n"
  by (simp add: unsigned_of_nat take_bit_nat_eq_self_iff)

lemma unat_pow2: "n < LENGTH('a) \<Longrightarrow> unat (2 ^ n :: 'a::len word) = 2 ^ n"
  using unat_of_nat_small [where 'a = 'a, of "2 ^ n"] by simp

lemma unat_minus1: "unat (- 1 :: 'a::len word) = 2 ^ LENGTH('a) - 1"
  by (simp add: unsigned_minus_1_eq_mask mask_eq_exp_minus_1)

lemma unat_mask_small:
  assumes "n \<le> LENGTH('a)"
  shows "unat (mask n :: 'a::len word) = 2 ^ n - 1"
proof (cases "n = LENGTH('a)")
  case True
  have "mask LENGTH('a) = (- 1 :: 'a word)" by (auto simp: bit_eq_iff bit_simps)
  with True show ?thesis by (simp add: unat_minus1)
next
  case False
  with assms have n: "unat (2 ^ n :: 'a word) = 2 ^ n" by (simp add: unat_pow2)
  then have "(1 :: 'a word) \<le> 2 ^ n" by (simp add: word_le_nat_alt)
  with n show ?thesis by (simp add: mask_eq_decr_exp unat_sub)
qed

section \<open>Transition systems\<close>

text \<open>The states a system reaches from its initial ones, and the rule that an invariant holds in them.\<close>

inductive reachable :: "('s \<Rightarrow> bool) \<Rightarrow> ('s \<Rightarrow> 's \<Rightarrow> bool) \<Rightarrow> 's \<Rightarrow> bool" for start step where
  reach_start: "start s \<Longrightarrow> reachable start step s"
| reach_step: "reachable start step s \<Longrightarrow> step s s' \<Longrightarrow> reachable start step s'"

locale invariant_system =
  fixes start :: "'s \<Rightarrow> bool" and step :: "'s \<Rightarrow> 's \<Rightarrow> bool" and inv :: "'s \<Rightarrow> bool"
  assumes start_inv: "start s \<Longrightarrow> inv s"
    and step_inv: "inv s \<Longrightarrow> step s s' \<Longrightarrow> inv s'"
begin

lemma reachable_inv: "reachable start step s \<Longrightarrow> inv s"
  by (induction rule: reachable.induct) (auto intro: start_inv step_inv)

lemma reachable_step_inv: "reachable start step s \<Longrightarrow> step s s' \<Longrightarrow> inv s \<and> inv s'"
  by (blast intro: reachable_inv step_inv)

end

end
