(* ===== verification/Bkey_Pos.thy ===== *)
theory Bkey_Pos
  imports Prelude
begin

text \<open>
  Positions in a btree and key versions: the part of \<^verbatim>\<open>btree/bkey.rs\<close> that compares,
  steps and bounds positions. A position is an inode, an offset and a snapshot id; the
  btree orders keys lexicographically in that order.
\<close>

section \<open>Data\<close>

text \<open>
  \<^verbatim>\<open>struct bpos\<close>: the constructor is the source's \<^verbatim>\<open>SPOS(inode, offset, snapshot)\<close>.
\<close>

datatype bpos = SPOS (inode: u64) (offset: u64) (snapshot: u32)

definition POS :: "u64 \<Rightarrow> u64 \<Rightarrow> bpos" where
  "POS i off = SPOS i off 0"

definition POS_MIN :: bpos where "POS_MIN = SPOS 0 0 0"
definition POS_MAX :: bpos where "POS_MAX = SPOS (- 1) (- 1) 0"
definition SPOS_MAX :: bpos where "SPOS_MAX = SPOS (- 1) (- 1) (- 1)"

text \<open>\<^verbatim>\<open>struct bversion\<close>.\<close>

datatype bversion = Bversion (v_hi: u32) (v_lo: u64)

definition ZERO_VERSION :: bversion where "ZERO_VERSION = Bversion 0 0"
definition MAX_VERSION :: bversion where "MAX_VERSION = Bversion (- 1) (- 1)"

section \<open>Comparisons\<close>

definition bpos_eq :: "bpos \<Rightarrow> bpos \<Rightarrow> bool" where
  "bpos_eq l r \<longleftrightarrow>
     (inode l XOR inode r) OR (offset l XOR offset r) OR ucast (snapshot l XOR snapshot r) = 0"

definition bpos_lt :: "bpos \<Rightarrow> bpos \<Rightarrow> bool" where
  "bpos_lt l r =
     (if inode l \<noteq> inode r then inode l < inode r
      else if offset l \<noteq> offset r then offset l < offset r
      else if snapshot l \<noteq> snapshot r then snapshot l < snapshot r
      else False)"

definition bpos_le :: "bpos \<Rightarrow> bpos \<Rightarrow> bool" where
  "bpos_le l r =
     (if inode l \<noteq> inode r then inode l < inode r
      else if offset l \<noteq> offset r then offset l < offset r
      else if snapshot l \<noteq> snapshot r then snapshot l < snapshot r
      else True)"

definition bpos_gt :: "bpos \<Rightarrow> bpos \<Rightarrow> bool" where
  "bpos_gt l r = bpos_lt r l"

definition bpos_ge :: "bpos \<Rightarrow> bpos \<Rightarrow> bool" where
  "bpos_ge l r = bpos_le r l"

definition bpos_cmp :: "bpos \<Rightarrow> bpos \<Rightarrow> int" where
  "bpos_cmp l r =
     (if inode l < inode r then - 1
      else if inode l > inode r then 1
      else if offset l < offset r then - 1
      else if offset l > offset r then 1
      else if snapshot l < snapshot r then - 1
      else if snapshot l > snapshot r then 1
      else 0)"

definition bpos_min :: "bpos \<Rightarrow> bpos \<Rightarrow> bpos" where
  "bpos_min l r = (if bpos_lt l r then l else r)"

definition bpos_max :: "bpos \<Rightarrow> bpos \<Rightarrow> bpos" where
  "bpos_max l r = (if bpos_gt l r then l else r)"

text \<open>The \<^verbatim>\<open>bkey_*\<close> comparisons ignore the snapshot.\<close>

definition bkey_eq :: "bpos \<Rightarrow> bpos \<Rightarrow> bool" where
  "bkey_eq l r \<longleftrightarrow> (inode l XOR inode r) OR (offset l XOR offset r) = 0"

definition bkey_lt :: "bpos \<Rightarrow> bpos \<Rightarrow> bool" where
  "bkey_lt l r = (if inode l \<noteq> inode r then inode l < inode r else offset l < offset r)"

definition bkey_le :: "bpos \<Rightarrow> bpos \<Rightarrow> bool" where
  "bkey_le l r = (if inode l \<noteq> inode r then inode l < inode r else offset l \<le> offset r)"

definition bkey_gt :: "bpos \<Rightarrow> bpos \<Rightarrow> bool" where
  "bkey_gt l r = bkey_lt r l"

definition bkey_ge :: "bpos \<Rightarrow> bpos \<Rightarrow> bool" where
  "bkey_ge l r = bkey_le r l"

definition bkey_cmp :: "bpos \<Rightarrow> bpos \<Rightarrow> int" where
  "bkey_cmp l r =
     (if inode l < inode r then - 1
      else if inode l > inode r then 1
      else if offset l < offset r then - 1
      else if offset l > offset r then 1
      else 0)"

definition bkey_min :: "bpos \<Rightarrow> bpos \<Rightarrow> bpos" where
  "bkey_min l r = (if bkey_lt l r then l else r)"

definition bkey_max :: "bpos \<Rightarrow> bpos \<Rightarrow> bpos" where
  "bkey_max l r = (if bkey_gt l r then l else r)"

definition bversion_cmp :: "bversion \<Rightarrow> bversion \<Rightarrow> int" where
  "bversion_cmp l r =
     (if v_hi l < v_hi r then - 1
      else if v_hi l > v_hi r then 1
      else if v_lo l < v_lo r then - 1
      else if v_lo l > v_lo r then 1
      else 0)"

definition bversion_eq :: "bversion \<Rightarrow> bversion \<Rightarrow> bool" where
  "bversion_eq l r \<longleftrightarrow> v_hi l = v_hi r \<and> v_lo l = v_lo r"

definition bversion_zero :: "bversion \<Rightarrow> bool" where
  "bversion_zero v \<longleftrightarrow> bversion_cmp v ZERO_VERSION = 0"

section \<open>Neighbours\<close>

text \<open>
  \<^verbatim>\<open>overflowing_add(1)\<close> overflows exactly when the sum is 0, \<^verbatim>\<open>overflowing_sub(1)\<close>
  exactly when the minuend is 0. The overflow of the inode is asserted away.
\<close>

definition bpos_successor :: "bpos \<Rightarrow> bpos option" where
  "bpos_successor p =
     (let s = snapshot p + 1 in
      if s \<noteq> 0 then Some (SPOS (inode p) (offset p) s)
      else let off = offset p + 1 in
      if off \<noteq> 0 then Some (SPOS (inode p) off s)
      else let i = inode p + 1 in
      do { require (i \<noteq> 0); Some (SPOS i off s) })"

definition bpos_predecessor :: "bpos \<Rightarrow> bpos option" where
  "bpos_predecessor p =
     (let s = snapshot p - 1 in
      if snapshot p \<noteq> 0 then Some (SPOS (inode p) (offset p) s)
      else let off = offset p - 1 in
      if offset p \<noteq> 0 then Some (SPOS (inode p) off s)
      else let i = inode p - 1 in
      do { require (inode p \<noteq> 0); Some (SPOS i off s) })"

definition bpos_nosnap_successor :: "bpos \<Rightarrow> bpos option" where
  "bpos_nosnap_successor p =
     (let off = offset p + 1 in
      if off \<noteq> 0 then Some (SPOS (inode p) off 0)
      else let i = inode p + 1 in
      do { require (i \<noteq> 0); Some (SPOS i off 0) })"

definition bpos_nosnap_predecessor :: "bpos \<Rightarrow> bpos option" where
  "bpos_nosnap_predecessor p =
     (let off = offset p - 1 in
      if offset p \<noteq> 0 then Some (SPOS (inode p) off 0)
      else let i = inode p - 1 in
      do { require (inode p \<noteq> 0); Some (SPOS i off 0) })"

definition bpos_with_snapshot :: "bpos \<Rightarrow> u32 \<Rightarrow> bpos" where
  "bpos_with_snapshot p s = SPOS (inode p) (offset p) s"

section \<open>The order of positions\<close>

text \<open>
  The abstract order is the lexicographic one on (inode, offset, snapshot); the
  comparison functions of the source are shown to compute it.
\<close>

instantiation bpos :: linorder
begin

definition less_bpos :: "bpos \<Rightarrow> bpos \<Rightarrow> bool" where
  "less_bpos l r \<longleftrightarrow>
     inode l < inode r \<or>
     inode l = inode r \<and> (offset l < offset r \<or>
       offset l = offset r \<and> snapshot l < snapshot r)"

definition less_eq_bpos :: "bpos \<Rightarrow> bpos \<Rightarrow> bool" where
  "less_eq_bpos l r \<longleftrightarrow> l < r \<or> l = (r :: bpos)"

instance
  by standard (auto simp: less_bpos_def less_eq_bpos_def bpos.expand not_less
      intro: bpos.expand dest: order.antisym)

end

lemma word_xor_eq_0 [simp]: "a XOR b = 0 \<longleftrightarrow> a = b" for a b :: "'a::len word"
  by (auto simp: bit_eq_iff bit_simps)

lemma word_or_eq_0 [simp]: "a OR b = 0 \<longleftrightarrow> a = 0 \<and> b = 0" for a b :: "'a::len word"
  by (auto simp: bit_eq_iff bit_simps)

named_theorems pos_order \<open>the comparison functions of the source as order relations\<close>

lemma ucast_u32_u64_eq_0 [simp]: "(ucast (x :: u32) :: u64) = 0 \<longleftrightarrow> x = 0"
  by (simp flip: unat_eq_0 add: unat_ucast_up)

lemma bpos_eq_iff [pos_order]: "bpos_eq l r \<longleftrightarrow> l = r"
  by (auto simp: bpos_eq_def intro: bpos.expand)

lemma bpos_lt_iff [pos_order]: "bpos_lt l r \<longleftrightarrow> l < r"
  by (auto simp: bpos_lt_def less_bpos_def)

lemma bpos_le_iff [pos_order]: "bpos_le l r \<longleftrightarrow> l \<le> r"
  by (auto simp: bpos_le_def less_bpos_def less_eq_bpos_def intro: bpos.expand)

lemma bpos_gt_iff [pos_order]: "bpos_gt l r \<longleftrightarrow> r < l"
  by (simp add: bpos_gt_def pos_order)

lemma bpos_ge_iff [pos_order]: "bpos_ge l r \<longleftrightarrow> r \<le> l"
  by (simp add: bpos_ge_def pos_order)

lemma bpos_min_eq [pos_order]: "bpos_min l r = min l r"
  by (auto simp: bpos_min_def pos_order min_def)

lemma bpos_max_eq [pos_order]: "bpos_max l r = max l r"
  by (auto simp: bpos_max_def pos_order max_def)

lemma bpos_cmp_lt [pos_order]: "bpos_cmp l r < 0 \<longleftrightarrow> l < r"
  by (auto simp: bpos_cmp_def less_bpos_def)

lemma bpos_cmp_gt [pos_order]: "bpos_cmp l r > 0 \<longleftrightarrow> r < l"
  by (auto simp: bpos_cmp_def less_bpos_def)

lemma bpos_cmp_eq [pos_order]: "bpos_cmp l r = 0 \<longleftrightarrow> l = r"
  by (auto simp: bpos_cmp_def not_less intro!: bpos.expand order.antisym split: if_splits)

lemma bpos_cmp_cases: "bpos_cmp l r \<in> {-1, 0, 1}"
  by (auto simp: bpos_cmp_def)

lemma bpos_cmp_le [pos_order]: "bpos_cmp l r \<le> 0 \<longleftrightarrow> l \<le> r"
  by (simp add: not_less [symmetric] pos_order)

lemma bpos_cmp_flip: "bpos_cmp r l = - bpos_cmp l r"
  by (auto simp: bpos_cmp_def)

lemma bkey_eq_iff: "bkey_eq l r \<longleftrightarrow> inode l = inode r \<and> offset l = offset r"
  by (simp add: bkey_eq_def)

lemma bkey_eq_with_snapshot:
  "bkey_eq l r \<longleftrightarrow> bpos_with_snapshot l s = bpos_with_snapshot r s"
  by (simp add: bkey_eq_iff bpos_with_snapshot_def)

lemma bkey_lt_with_snapshot:
  "bkey_lt l r \<longleftrightarrow> bpos_with_snapshot l s < bpos_with_snapshot r s"
  by (auto simp: bkey_lt_def bpos_with_snapshot_def less_bpos_def)

lemma bkey_le_with_snapshot:
  "bkey_le l r \<longleftrightarrow> bpos_with_snapshot l s \<le> bpos_with_snapshot r s"
  by (auto simp: bkey_le_def bpos_with_snapshot_def less_bpos_def less_eq_bpos_def)

lemma bversion_cmp_eq: "bversion_cmp l r = 0 \<longleftrightarrow> l = r"
  by (auto simp: bversion_cmp_def not_less intro!: bversion.expand order.antisym split: if_splits)

lemma word_plus1_0: "x + 1 = 0 \<longleftrightarrow> x = - 1" for x :: "'a::len word"
  by (metis add.left_inverse add_right_cancel)

lemma word_less_minus1: "x < - 1 \<longleftrightarrow> x \<noteq> - 1" for x :: "'a::len word"
  by (simp add: word_order.not_eq_extremum)

lemma word_less_plus1: "x \<noteq> - 1 \<Longrightarrow> y < x + 1 \<longleftrightarrow> y \<le> x" for x y :: "'a::len word"
proof -
  assume "x \<noteq> - 1"
  then have "unat (1 + x) = Suc (unat x)"
    by (intro unatSuc) (metis word_plus1_0 add.commute)
  then show ?thesis
    by (simp add: word_less_nat_alt word_le_nat_alt add.commute less_Suc_eq_le)
qed

lemma POS_MIN_least: "POS_MIN \<le> p"
  by (cases p) (auto simp: POS_MIN_def less_eq_bpos_def less_bpos_def word_gt_0)

lemma SPOS_MAX_greatest: "p \<le> SPOS_MAX"
  by (cases p) (auto simp: SPOS_MAX_def less_eq_bpos_def less_bpos_def word_less_minus1)

section \<open>Neighbours and the order\<close>

lemma bpos_successor_None: "bpos_successor p = None \<longleftrightarrow> p = SPOS_MAX"
  by (cases p) (auto simp: bpos_successor_def SPOS_MAX_def Let_def word_plus1_0)

lemma bpos_predecessor_None: "bpos_predecessor p = None \<longleftrightarrow> p = POS_MIN"
  by (cases p) (auto simp: bpos_predecessor_def POS_MIN_def Let_def)

lemma bpos_successor_less_iff:
  assumes "bpos_successor p = Some q"
  shows "r < q \<longleftrightarrow> r \<le> p"
  using assms
  by (cases p; cases r)
    (auto simp: bpos_successor_def Let_def word_plus1_0 less_bpos_def less_eq_bpos_def word_less_plus1
      word_less_minus1 word_le_less_eq split: if_splits)

lemma bpos_predecessor_successor:
  "bpos_predecessor q = Some p \<longleftrightarrow> bpos_successor p = Some q"
  by (cases p; cases q)
    (auto simp: bpos_predecessor_def bpos_successor_def Let_def word_plus1_0 split: if_splits)

section \<open>Properties\<close>

text \<open>
  The position comparison of the source is the lexicographic linear order on (inode, offset,
  snapshot): \<^verbatim>\<open>bpos_cmp\<close> is its three-way comparison, and \<^verbatim>\<open>bpos_lt\<close>, \<^verbatim>\<open>bpos_le\<close>, \<^verbatim>\<open>bpos_eq\<close>, \<^verbatim>\<open>bpos_min\<close> and
  \<^verbatim>\<open>bpos_max\<close> agree with it.
\<close>

lemma bpos_cmp_linear_order:
  "bpos_cmp l r = (if l < r then - 1 else if l = r then 0 else 1) \<and>
   (bpos_lt l r \<longleftrightarrow> l < r) \<and> (bpos_le l r \<longleftrightarrow> l \<le> r) \<and> (bpos_eq l r \<longleftrightarrow> l = r) \<and>
   bpos_min l r = min l r \<and> bpos_max l r = max l r"
proof -
  have "bpos_cmp l r = (if l < r then - 1 else if l = r then 0 else 1)"
    using bpos_cmp_cases [of l r] bpos_cmp_lt [of l r] bpos_cmp_eq [of l r] by auto
  then show ?thesis by (simp add: pos_order)
qed

text \<open>
  \<^verbatim>\<open>bpos_successor\<close> returns the least position above its argument and panics exactly at the greatest
  position; \<^verbatim>\<open>bpos_predecessor\<close> is its inverse and panics exactly at the least position.
\<close>

lemma bpos_successor_is_next:
  "(bpos_successor p = None \<longleftrightarrow> p = SPOS_MAX) \<and>
   (bpos_successor p = Some q \<longleftrightarrow> p < q \<and> (\<nexists>r. p < r \<and> r < q)) \<and>
   (bpos_predecessor p = None \<longleftrightarrow> p = POS_MIN) \<and>
   (bpos_predecessor q = Some p \<longleftrightarrow> bpos_successor p = Some q)"
proof -
  have "bpos_successor p = Some q" if "p < q" "\<nexists>r. p < r \<and> r < q"
  proof -
    have "p \<noteq> SPOS_MAX" using that(1) SPOS_MAX_greatest [of q] by auto
    then obtain q' where q': "bpos_successor p = Some q'" using bpos_successor_None by (cases "bpos_successor p") auto
    note lt = bpos_successor_less_iff [OF q']
    have "\<not> q < q'" using lt [of q] that(1) by simp
    moreover have "\<not> q' < q" using that(2) lt [of p] by auto
    ultimately show ?thesis using q' by simp
  qed
  moreover have "p < q \<and> (\<nexists>r. p < r \<and> r < q)" if "bpos_successor p = Some q"
    using bpos_successor_less_iff [OF that] by (auto simp: not_less)
  ultimately have "bpos_successor p = Some q \<longleftrightarrow> p < q \<and> (\<nexists>r. p < r \<and> r < q)" by blast
  then show ?thesis
    by (simp only: bpos_successor_None bpos_predecessor_None bpos_predecessor_successor)
qed

end
