(* ===== verification/Bkey.thy ===== *)
theory Bkey
  imports Bkey_Pos
begin

text \<open>
  The unpacked key header \<^verbatim>\<open>struct bkey\<close> of \<^verbatim>\<open>btree/bkey.rs\<close>, the packed representation
  as the machine words it occupies, key formats, and the small operations on them.

  A packed key is a run of \<open>u64\<close> words in little-endian order: the three header bytes
  \<^verbatim>\<open>u64s\<close>, \<^verbatim>\<open>format\<close> and \<^verbatim>\<open>type_\<close> of \<^verbatim>\<open>struct bkey_packed\<close> are the low 24 bits of word 0, the
  key fields follow, and the value starts at word \<^verbatim>\<open>key_u64s\<close>. Fixed-size arrays of the
  source (\<^verbatim>\<open>[u8; 6]\<close>, \<^verbatim>\<open>[u64; 6]\<close>) are lists of that length.
\<close>

section \<open>Data\<close>

record bkey =
  k_u64s :: u8
  k_format :: u8
  k_type :: u8
  k_pad :: u8
  k_bversion :: bversion
  k_size :: u32
  k_p :: bpos

record bkey_format =
  f_key_u64s :: u8
  f_nr_fields :: u8
  f_bits :: "u8 list"
  f_offset :: "u64 list"

type_synonym bkey_packed = "u64 list"

definition BKEY_U64S :: nat where [code_consts]: "BKEY_U64S = 5"
definition KEY_FORMAT_LOCAL_BTREE :: u8 where [code_consts]: "KEY_FORMAT_LOCAL_BTREE = 0"
definition KEY_FORMAT_CURRENT :: u8 where [code_consts]: "KEY_FORMAT_CURRENT = 1"
definition KEY_TYPE_deleted :: u8 where [code_consts]: "KEY_TYPE_deleted = 0"
definition KEY_PACKED_BITS_START :: nat where [code_consts]: "KEY_PACKED_BITS_START = 24"
definition BKEY_NR_FIELDS :: nat where [code_consts]: "BKEY_NR_FIELDS = 6"
definition BKEY_PACKED_WORDS :: nat where [code_consts]: "BKEY_PACKED_WORDS = 5"

definition BKEY_FORMAT_CURRENT :: bkey_format where
  "BKEY_FORMAT_CURRENT =
     \<lparr>f_key_u64s = 5, f_nr_fields = 6, f_bits = [64, 64, 32, 32, 32, 64],
      f_offset = [0, 0, 0, 0, 0, 0]\<rparr>"

section \<open>Header bytes of a packed key\<close>

definition pk_u64s :: "bkey_packed \<Rightarrow> u8" where
  "pk_u64s ws = ucast (ws ! 0)"

definition pk_format :: "bkey_packed \<Rightarrow> u8" where
  "pk_format ws = ucast (drop_bit 8 (ws ! 0))"

definition pk_type :: "bkey_packed \<Rightarrow> u8" where
  "pk_type ws = ucast (drop_bit 16 (ws ! 0))"

definition pk_set_header :: "bkey_packed \<Rightarrow> u8 \<Rightarrow> u8 \<Rightarrow> u8 \<Rightarrow> bkey_packed" where
  "pk_set_header ws n fmt ty =
     ws[0 := (ws ! 0 AND NOT (mask 24)) OR ucast n OR push_bit 8 (ucast fmt) OR push_bit 16 (ucast ty)]"

section \<open>Operations on keys\<close>

definition bkey_field_values :: "bkey \<Rightarrow> u64 list" where
  "bkey_field_values k =
     [inode (k_p k), offset (k_p k), ucast (snapshot (k_p k)), ucast (k_size k),
      ucast (v_hi (k_bversion k)), v_lo (k_bversion k)]"

definition bkey_is_packed :: "bkey_packed \<Rightarrow> bool" where
  "bkey_is_packed ws \<longleftrightarrow> pk_format ws AND 0x7f \<noteq> KEY_FORMAT_CURRENT"

definition bkey_deleted :: "bkey_packed \<Rightarrow> bool" where
  "bkey_deleted ws \<longleftrightarrow> pk_type ws = 0"

definition bch2_key_resize :: "bkey \<Rightarrow> u32 \<Rightarrow> bkey" where
  "bch2_key_resize k new_size =
     k\<lparr>k_p := SPOS (inode (k_p k)) (offset (k_p k) - ucast (k_size k) + ucast new_size) (snapshot (k_p k)),
       k_size := new_size\<rparr>"

definition bkey_start_offset :: "bkey \<Rightarrow> u64" where
  "bkey_start_offset k = offset (k_p k) - ucast (k_size k)"

definition bkey_start_pos :: "bkey \<Rightarrow> bpos" where
  "bkey_start_pos k = SPOS (inode (k_p k)) (bkey_start_offset k) (snapshot (k_p k))"

definition bkey_init :: bkey where
  "bkey_init = \<lparr>k_u64s = 5, k_format = KEY_FORMAT_CURRENT, k_type = 0, k_pad = 0,
     k_bversion = ZERO_VERSION, k_size = 0, k_p = POS 0 0\<rparr>"

definition bkey_fields_eq :: "bkey \<Rightarrow> bkey \<Rightarrow> bool" where
  "bkey_fields_eq l r \<longleftrightarrow>
     k_u64s l = k_u64s r \<and> k_type l = k_type r \<and> bpos_eq (k_p l) (k_p r) \<and>
     bversion_eq (k_bversion l) (k_bversion r) \<and> k_size l = k_size r"

definition bch2_bkey_maybe_mergable :: "bkey \<Rightarrow> bkey \<Rightarrow> bool" where
  "bch2_bkey_maybe_mergable l r \<longleftrightarrow>
     k_type l = k_type r \<and> bversion_cmp (k_bversion l) (k_bversion r) = 0 \<and>
     bkey_eq (k_p l) (bkey_start_pos r)"

definition bkey_format_key_bits :: "bkey_format \<Rightarrow> nat" where
  "bkey_format_key_bits f = unat (f_bits f ! 0) + unat (f_bits f ! 1) + unat (f_bits f ! 2)"

definition bkeyp_key_u64s :: "bkey_format \<Rightarrow> bkey_packed \<Rightarrow> u32" where
  "bkeyp_key_u64s f k = (if bkey_is_packed k then ucast (f_key_u64s f) else of_nat BKEY_U64S)"

definition bkeyp_u64s_valid :: "bkey_format \<Rightarrow> bkey_packed \<Rightarrow> bool" where
  "bkeyp_u64s_valid f k \<longleftrightarrow> ucast (pk_u64s k) - bkeyp_key_u64s f k \<le> 250"

definition bkeyp_key_bytes :: "bkey_format \<Rightarrow> bkey_packed \<Rightarrow> u32" where
  "bkeyp_key_bytes f k = bkeyp_key_u64s f k * 8"

definition bkeyp_val_u64s :: "bkey_format \<Rightarrow> bkey_packed \<Rightarrow> u32" where
  "bkeyp_val_u64s f k = ucast (pk_u64s k) - bkeyp_key_u64s f k"

definition bkeyp_val_bytes :: "bkey_format \<Rightarrow> bkey_packed \<Rightarrow> u64" where
  "bkeyp_val_bytes f k = ucast (bkeyp_val_u64s f k) * 8"

definition set_bkeyp_val_u64s :: "bkey_format \<Rightarrow> bkey_packed \<Rightarrow> u32 \<Rightarrow> bkey_packed" where
  "set_bkeyp_val_u64s f k val_u64s =
     pk_set_header k (ucast (bkeyp_key_u64s f k + val_u64s)) (pk_format k) (pk_type k)"

definition bkey_bytes :: "bkey \<Rightarrow> u64" where
  "bkey_bytes k = ucast (k_u64s k) * 8"

definition bkey_val_u64s :: "bkey \<Rightarrow> u32" where
  "bkey_val_u64s k = ucast (k_u64s k) - of_nat BKEY_U64S"

definition bkey_val_bytes :: "bkey \<Rightarrow> u64" where
  "bkey_val_bytes k = ucast (bkey_val_u64s k) * 8"

definition set_bkey_val_u64s :: "bkey \<Rightarrow> u32 \<Rightarrow> bkey option" where
  "set_bkey_val_u64s k val_u64s =
     do { n \<leftarrow> checked_add (of_nat BKEY_U64S) val_u64s;
          require (n \<le> 255);
          Some (k\<lparr>k_u64s := ucast n\<rparr>) }"

definition set_bkey_val_bytes :: "bkey \<Rightarrow> u32 \<Rightarrow> bkey option" where
  "set_bkey_val_bytes k bytes = set_bkey_val_u64s k (of_nat ((unat bytes + 7) div 8))"

section \<open>Lemmas\<close>

lemma bit_mask24: "bit (mask 24 :: u64) n \<longleftrightarrow> n < 24"
  by (auto simp: bit_mask_iff)

lemma length_pk_set_header [simp]: "length (pk_set_header ws n f t) = length ws"
  by (simp add: pk_set_header_def)

lemma pk_u64s_set_header [simp]: "ws \<noteq> [] \<Longrightarrow> pk_u64s (pk_set_header ws n f t) = n"
  by (auto simp: pk_set_header_def pk_u64s_def bit_eq_iff bit_simps bit_mask24)

lemma pk_format_set_header [simp]: "ws \<noteq> [] \<Longrightarrow> pk_format (pk_set_header ws n f t) = f"
  by (auto simp: pk_set_header_def pk_format_def bit_eq_iff bit_simps bit_mask24
      dest: bit_imp_le_length)

lemma pk_type_set_header [simp]: "ws \<noteq> [] \<Longrightarrow> pk_type (pk_set_header ws n f t) = t"
  by (auto simp: pk_set_header_def pk_type_def bit_eq_iff bit_simps bit_mask24
      dest: bit_imp_le_length)

lemma pk_set_header_nth [simp]: "0 < i \<Longrightarrow> pk_set_header ws n f t ! i = ws ! i"
  by (simp add: pk_set_header_def)

lemma bit_pk_set_header:
  "ws \<noteq> [] \<Longrightarrow> 24 \<le> j \<Longrightarrow> bit (pk_set_header ws n f t ! 0) j \<longleftrightarrow> bit (ws ! 0) j"
  by (auto simp: pk_set_header_def bit_simps bit_mask24 dest: bit_imp_le_length)

lemma bch2_key_resize_start: "bkey_start_pos (bch2_key_resize k n) = bkey_start_pos k"
  by (simp add: bch2_key_resize_def bkey_start_pos_def bkey_start_offset_def)

end
