(* ===== verification/Bkey_Pack.thy ===== *)
theory Bkey_Pack
  imports Bkey
begin

text \<open>
  Packing keys into a key format and unpacking them: \<^verbatim>\<open>pack_state\<close>, \<^verbatim>\<open>unpack_state\<close>,
  \<^verbatim>\<open>bch2_bkey_pack_key\<close>, \<^verbatim>\<open>bch2_bkey_transform\<close>, \<^verbatim>\<open>bch2_bkey_pack_pos\<close> (exact and lossy),
  \<^verbatim>\<open>__bch2_bkey_unpack_key\<close> and \<^verbatim>\<open>__bkey_unpack_pos\<close> of \<^verbatim>\<open>btree/bkey.rs\<close>. A leading double
  underscore of the source is the prefix \<open>raw_\<close> here.

  The six fields of a key are written most significant first, from the top of the last
  key word downwards; a field may straddle two words. Widths are \<open>nat\<close>, with every
  subtraction and shift amount that the source would panic on guarded.
\<close>

section \<open>Packing state\<close>

record pack_state =
  ps_bits :: nat
  ps_w :: u64
  ps_p :: int
  ps_words :: "u64 list"

record unpack_state =
  us_bits :: nat
  us_w :: u64
  us_p :: int
  us_words :: "u64 list"

definition shr :: "u64 \<Rightarrow> nat \<Rightarrow> u64 option" where
  "shr w n = (if n < 64 then Some (drop_bit n w) else None)"

definition shl :: "u64 \<Rightarrow> nat \<Rightarrow> u64 option" where
  "shl w n = (if n < 64 then Some (push_bit n w) else None)"

definition pack_state_init :: "bkey_format \<Rightarrow> bkey_packed \<Rightarrow> pack_state option" where
  "pack_state_init f out =
     do { require (f_key_u64s f \<noteq> 0);
          require (unat (f_key_u64s f) \<le> BKEY_PACKED_WORDS);
          Some \<lparr>ps_bits = 64, ps_w = 0, ps_p = int (unat (f_key_u64s f)) - 1, ps_words = out\<rparr> }"

definition zero_words :: "nat \<Rightarrow> u64 list \<Rightarrow> u64 list" where
  "zero_words n ws = replicate n 0 @ drop n ws"

definition pack_state_finish :: "bkey_format \<Rightarrow> pack_state \<Rightarrow> (u64 list) option" where
  "pack_state_finish f st =
     do { require (0 \<le> ps_p st);
          require (ps_p st < int (unat (f_key_u64s f)));
          upd_opt (ps_words st) (nat (ps_p st)) (ps_w st) }"

definition unpack_state_init :: "bkey_format \<Rightarrow> bkey_packed \<Rightarrow> unpack_state option" where
  "unpack_state_init f k =
     do { require (f_key_u64s f \<noteq> 0);
          require (unat (f_key_u64s f) \<le> BKEY_PACKED_WORDS);
          w \<leftarrow> nth_opt k (unat (f_key_u64s f) - 1);
          Some \<lparr>us_bits = 64, us_w = w, us_p = int (unat (f_key_u64s f)) - 1, us_words = k\<rparr> }"

definition get_inc_field :: "bkey_format \<Rightarrow> unpack_state \<Rightarrow> nat \<Rightarrow> (u64 \<times> unpack_state) option" where
  "get_inc_field f st field =
     (let bits = unat (f_bits f ! field); off = f_offset f ! field in
      do { (v, bits, st) \<leftarrow>
             (if us_bits st \<le> bits then
                do { require (bits \<le> 64);
                     v \<leftarrow> shr (us_w st) (64 - bits);
                     let bits = bits - us_bits st;
                     let p = us_p st - 1;
                     require (0 \<le> p \<or> bits = 0);
                     w \<leftarrow> (if 0 \<le> p then nth_opt (us_words st) (nat p) else Some 0);
                     Some (v, bits, st\<lparr>us_p := p, us_w := w, us_bits := 64\<rparr>) }
              else Some (0, bits, st));
           require (bits \<le> 63);
           let v = v OR drop_bit (63 - bits) (drop_bit 1 (us_w st));
           w \<leftarrow> shl (us_w st) bits;
           require (bits \<le> us_bits st);
           Some (v + off, st\<lparr>us_w := w, us_bits := us_bits st - bits\<rparr>) })"

definition raw_set_inc_field :: "bkey_format \<Rightarrow> pack_state \<Rightarrow> nat \<Rightarrow> u64 \<Rightarrow> pack_state option" where
  "raw_set_inc_field f st field v =
     (let bits = unat (f_bits f ! field) in
      if bits = 0 then Some st
      else do { (bits, st) \<leftarrow>
                  (if ps_bits st < bits then
                     do { let bits = bits - ps_bits st;
                          hi \<leftarrow> shr (drop_bit 1 v) (bits - 1);
                          ws \<leftarrow> upd_opt (ps_words st) (nat (ps_p st)) (ps_w st OR hi);
                          let p = ps_p st - 1;
                          require (0 \<le> p);
                          Some (bits, st\<lparr>ps_words := ws, ps_p := p, ps_w := 0, ps_bits := 64\<rparr>) }
                   else Some (bits, st));
                require (bits \<le> ps_bits st);
                let left = ps_bits st - bits;
                lo \<leftarrow> shl v left;
                Some (st\<lparr>ps_bits := left, ps_w := ps_w st OR lo\<rparr>) })"

definition set_inc_field :: "bkey_format \<Rightarrow> pack_state \<Rightarrow> nat \<Rightarrow> u64 \<Rightarrow> (bool \<times> pack_state) option" where
  "set_inc_field f st field v =
     (let bits = unat (f_bits f ! field); off = f_offset f ! field in
      if v < off then Some (False, st)
      else let v = v - off in
      if 64 - leading_zeros v > bits then Some (False, st)
      else map_option (Pair True) (raw_set_inc_field f st field v))"

definition set_inc_field_lossy :: "bkey_format \<Rightarrow> pack_state \<Rightarrow> nat \<Rightarrow> u64 \<Rightarrow> (bool \<times> pack_state) option" where
  "set_inc_field_lossy f st field v =
     (let bits = unat (f_bits f ! field); off = f_offset f ! field in
      do { require (off \<le> v);
           let v = v - off;
           (v, ret) \<leftarrow>
             (if 64 - leading_zeros v > bits
              then do { v \<leftarrow> (if bits = 64 then Some (- 1) else map_option (\<lambda>x. x - 1) (shl 1 bits));
                        Some (v, False) }
              else Some (v, True));
           map_option (Pair ret) (raw_set_inc_field f st field v) })"

fun set_inc_fields :: "bkey_format \<Rightarrow> pack_state \<Rightarrow> nat \<Rightarrow> u64 list \<Rightarrow> (bool \<times> pack_state) option" where
  "set_inc_fields f st i [] = Some (True, st)"
| "set_inc_fields f st i (v # vs) =
     do { (ok, st) \<leftarrow> set_inc_field f st i v;
          if ok then set_inc_fields f st (Suc i) vs else Some (False, st) }"

section \<open>Packing and unpacking keys\<close>

text \<open>
  A packing function returns whether it succeeded and the words of \<^verbatim>\<open>out\<close> it leaves behind;
  a key that does not fit the format is the result \<open>False\<close>, not a panic.
\<close>

definition bch2_bkey_pack_key :: "bkey_packed \<Rightarrow> bkey \<Rightarrow> bkey_format \<Rightarrow> (bool \<times> bkey_packed) option" where
  "bch2_bkey_pack_key out input f =
     do { require (unat (f_nr_fields f) = BKEY_NR_FIELDS);
          require (k_format input AND 0x7f = KEY_FORMAT_CURRENT);
          st \<leftarrow> pack_state_init f out;
          let st = st\<lparr>ps_words := zero_words (unat (f_key_u64s f)) (ps_words st)\<rparr>;
          (ok, st) \<leftarrow> set_inc_fields f st 0 (bkey_field_values input);
          if \<not> ok then Some (False, ps_words st)
          else do {
            ws \<leftarrow> pack_state_finish f st;
            require (BKEY_U64S \<le> unat (f_key_u64s f) + unat (k_u64s input));
            let out_u64s = unat (f_key_u64s f) + unat (k_u64s input) - BKEY_U64S;
            require (out_u64s \<le> 255);
            Some (True, pk_set_header ws (of_nat out_u64s) (k_format input AND 0x80) (k_type input)) } }"

fun transform_fields ::
    "bkey_format \<Rightarrow> pack_state \<Rightarrow> bkey_format \<Rightarrow> unpack_state \<Rightarrow> nat list \<Rightarrow> (bool \<times> pack_state) option" where
  "transform_fields out_f out_st in_f in_st [] = Some (True, out_st)"
| "transform_fields out_f out_st in_f in_st (i # is) =
     do { (v, in_st) \<leftarrow> get_inc_field in_f in_st i;
          (ok, out_st) \<leftarrow> set_inc_field out_f out_st i v;
          if ok then transform_fields out_f out_st in_f in_st is else Some (False, out_st) }"

definition copy_words :: "u64 list \<Rightarrow> nat \<Rightarrow> u64 list \<Rightarrow> nat \<Rightarrow> nat \<Rightarrow> (u64 list) option" where
  "copy_words src i dst j n =
     (if i + n \<le> length src \<and> j + n \<le> length dst
      then Some (take j dst @ take n (drop i src) @ drop (j + n) dst) else None)"

definition bch2_bkey_transform ::
    "bkey_format \<Rightarrow> bkey_packed \<Rightarrow> bkey_format \<Rightarrow> bkey_packed \<Rightarrow> (bool \<times> bkey_packed) option" where
  "bch2_bkey_transform out_f out in_f input =
     do { require (f_key_u64s in_f \<le> pk_u64s input);
          let val_u64s = unat (pk_u64s input) - unat (f_key_u64s in_f);
          let out_u64s = unat (f_key_u64s out_f) + val_u64s;
          require (out_u64s \<le> 255);
          out_st \<leftarrow> pack_state_init out_f out;
          let out_st = out_st\<lparr>ps_words := zero_words (unat (f_key_u64s out_f)) (ps_words out_st)\<rparr>;
          in_st \<leftarrow> unpack_state_init in_f input;
          (ok, out_st) \<leftarrow> transform_fields out_f out_st in_f in_st [0, 1, 2, 3, 4, 5];
          if \<not> ok then Some (False, ps_words out_st)
          else do {
            ws \<leftarrow> pack_state_finish out_f out_st;
            let ws = pk_set_header ws (of_nat out_u64s) (pk_format input AND 0x80) (pk_type input);
            ws \<leftarrow> copy_words input (unat (f_key_u64s in_f)) ws (unat (f_key_u64s out_f)) val_u64s;
            Some (True, ws) } }"

datatype bkey_pack_pos_ret = BKEY_PACK_POS_EXACT | BKEY_PACK_POS_SMALLER | BKEY_PACK_POS_FAIL

definition bch2_bkey_pack_pos :: "bkey_packed \<Rightarrow> bpos \<Rightarrow> bkey_format \<Rightarrow> (bool \<times> bkey_packed) option" where
  "bch2_bkey_pack_pos out input f =
     do { st \<leftarrow> pack_state_init f out;
          let st = st\<lparr>ps_words := zero_words (unat (f_key_u64s f)) (ps_words st)\<rparr>;
          if ucast (snapshot input) < f_offset f ! 2 \<or> offset input < f_offset f ! 1 \<or>
             inode input < f_offset f ! 0
          then Some (False, ps_words st)
          else do {
            (ok, st) \<leftarrow> set_inc_fields f st 0 [inode input, offset input, ucast (snapshot input)];
            if \<not> ok then Some (False, ps_words st)
            else do {
              ws \<leftarrow> pack_state_finish f st;
              Some (True, pk_set_header ws (f_key_u64s f) KEY_FORMAT_LOCAL_BTREE 0) } } }"

text \<open>
  The lossy variant first moves the position down to one whose fields are not below the
  format's offsets; \<open>None\<close> inside is the early return \<^verbatim>\<open>BKEY_PACK_POS_FAIL\<close>.
\<close>

definition clamp_snapshot :: "bkey_format \<Rightarrow> bpos \<Rightarrow> (bpos \<times> bool) option" where
  "clamp_snapshot f input =
     (if ucast (snapshot input) < f_offset f ! 2 then
        (if offset input = 0 then
           (if inode input = 0 then None
            else Some (SPOS (inode input - 1) (offset input - 1) (- 1), False))
         else Some (SPOS (inode input) (offset input - 1) (- 1), False))
      else Some (input, True))"

definition clamp_offset :: "bkey_format \<Rightarrow> bpos \<times> bool \<Rightarrow> (bpos \<times> bool) option" where
  "clamp_offset f = (\<lambda>(input, exact).
     (if offset input < f_offset f ! 1 then
        (if inode input = 0 then None
         else Some (SPOS (inode input - 1) (- 1) (- 1), False))
      else Some (input, exact)))"

definition pack_pos_clamp :: "bkey_format \<Rightarrow> bpos \<Rightarrow> (bpos \<times> bool) option" where
  "pack_pos_clamp f input =
     do { r \<leftarrow> clamp_snapshot f input;
          (input, exact) \<leftarrow> clamp_offset f r;
          (if inode input < f_offset f ! 0 then None else Some (input, exact)) }"

definition set_inc_pos_lossy :: "bkey_format \<Rightarrow> pack_state \<Rightarrow> bpos \<Rightarrow> bool \<Rightarrow> (bool \<times> pack_state) option" where
  "set_inc_pos_lossy f st input exact =
     do { (ok, st) \<leftarrow> set_inc_field_lossy f st 0 (inode input);
          let (input, exact) =
            (if ok then (input, exact) else (SPOS (inode input) (- 1) (- 1), False));
          (ok, st) \<leftarrow> set_inc_field_lossy f st 1 (offset input);
          let (input, exact) =
            (if ok then (input, exact) else (SPOS (inode input) (offset input) (- 1), False));
          (ok, st) \<leftarrow> set_inc_field_lossy f st 2 (ucast (snapshot input));
          Some (exact \<and> ok, st) }"

definition bch2_bkey_pack_pos_lossy ::
    "bkey_packed \<Rightarrow> bpos \<Rightarrow> bkey_format \<Rightarrow> (bkey_pack_pos_ret \<times> bkey_packed) option" where
  "bch2_bkey_pack_pos_lossy out input f =
     do { st \<leftarrow> pack_state_init f out;
          let st = st\<lparr>ps_words := zero_words (unat (f_key_u64s f)) (ps_words st)\<rparr>;
          case pack_pos_clamp f input of
            None \<Rightarrow> Some (BKEY_PACK_POS_FAIL, ps_words st)
          | Some (input, exact) \<Rightarrow>
              do { (exact, st) \<leftarrow> set_inc_pos_lossy f st input exact;
                   ws \<leftarrow> pack_state_finish f st;
                   Some (if exact then BKEY_PACK_POS_EXACT else BKEY_PACK_POS_SMALLER,
                         pk_set_header ws (f_key_u64s f) KEY_FORMAT_LOCAL_BTREE 0) } }"

definition raw_bch2_bkey_unpack_key :: "bkey_format \<Rightarrow> bkey_packed \<Rightarrow> bkey option" where
  "raw_bch2_bkey_unpack_key f input =
     do { require (unat (f_nr_fields f) = BKEY_NR_FIELDS);
          require (f_key_u64s f \<le> pk_u64s input);
          require (pk_format input AND 0x7f = KEY_FORMAT_LOCAL_BTREE);
          let out_u64s = unat (pk_u64s input) - unat (f_key_u64s f) + BKEY_U64S;
          require (out_u64s \<le> 255);
          st \<leftarrow> unpack_state_init f input;
          (ino, st) \<leftarrow> get_inc_field f st 0;
          (off, st) \<leftarrow> get_inc_field f st 1;
          (snap, st) \<leftarrow> get_inc_field f st 2;
          (sz, st) \<leftarrow> get_inc_field f st 3;
          (hi, st) \<leftarrow> get_inc_field f st 4;
          (lo, st) \<leftarrow> get_inc_field f st 5;
          Some \<lparr>k_u64s = of_nat out_u64s, k_format = KEY_FORMAT_CURRENT OR (pk_format input AND 0x80),
                k_type = pk_type input, k_pad = 0, k_bversion = Bversion (ucast hi) lo,
                k_size = ucast sz, k_p = SPOS ino off (ucast snap)\<rparr> }"

definition raw_bkey_unpack_pos :: "bkey_format \<Rightarrow> bkey_packed \<Rightarrow> bpos option" where
  "raw_bkey_unpack_pos f input =
     do { require (unat (f_nr_fields f) = BKEY_NR_FIELDS);
          require (f_key_u64s f \<le> pk_u64s input);
          require (pk_format input AND 0x7f = KEY_FORMAT_LOCAL_BTREE);
          st \<leftarrow> unpack_state_init f input;
          (ino, st) \<leftarrow> get_inc_field f st 0;
          (off, st) \<leftarrow> get_inc_field f st 1;
          (snap, st) \<leftarrow> get_inc_field f st 2;
          Some (SPOS ino off (ucast snap)) }"

section \<open>The packed key as one bit string\<close>

text \<open>
  Bit \<open>g\<close> of the key words, counted from the least significant bit of word 0. The packer
  fills the string downwards; \<open>R\<close> is the number of bits still free below it.
\<close>

definition gbit :: "u64 list \<Rightarrow> nat \<Rightarrow> bool" where
  "gbit ws g \<longleftrightarrow> bit (ws ! (g div 64)) (g mod 64)"

definition pack_view :: "pack_state \<Rightarrow> u64 list" where
  "pack_view st = (ps_words st)[nat (ps_p st) := ps_w st]"

definition pack_inv :: "nat \<Rightarrow> pack_state \<Rightarrow> nat \<Rightarrow> bool" where
  "pack_inv k st R \<longleftrightarrow>
     0 \<le> ps_p st \<and> ps_p st < int k \<and> k \<le> length (ps_words st) \<and> ps_bits st \<le> 64 \<and>
     R = 64 * nat (ps_p st) + ps_bits st \<and> (\<forall>g<R. \<not> gbit (pack_view st) g)"

definition unpack_inv :: "nat \<Rightarrow> unpack_state \<Rightarrow> nat \<Rightarrow> bool" where
  "unpack_inv k st R \<longleftrightarrow>
     - 1 \<le> us_p st \<and> us_p st < int k \<and> k \<le> length (us_words st) \<and>
     1 \<le> us_bits st \<and> us_bits st \<le> 64 \<and> int R = 64 * us_p st + int (us_bits st) \<and>
     (\<forall>j<64. bit (us_w st) j \<longleftrightarrow>
        64 - us_bits st \<le> j \<and> 64 \<le> R + j \<and> gbit (us_words st) (R + j - 64))"

text \<open>\<open>fields_at ws R fs\<close>: the bit string holds the fields \<open>fs\<close> (width and value), the first just below \<open>R\<close>.\<close>

fun fields_at :: "u64 list \<Rightarrow> nat \<Rightarrow> (nat \<times> u64) list \<Rightarrow> bool" where
  "fields_at ws R [] = True"
| "fields_at ws R ((b, v) # fs) \<longleftrightarrow>
     b \<le> R \<and> (\<forall>j<64. bit v j \<longleftrightarrow> j < b \<and> gbit ws (R - b + j)) \<and> fields_at ws (R - b) fs"

lemma gbit_word: "j < 64 \<Longrightarrow> gbit ws (64 * i + j) \<longleftrightarrow> bit (ws ! i) j"
  by (simp add: gbit_def)

lemma gbit_cases:
  fixes g :: nat
  obtains i j where "g = 64 * i + j" "j < 64"
  by (metis mod_less_divisor mult.commute mult_div_mod_eq zero_less_numeral)

lemma gbit_update:
  "i < length ws \<Longrightarrow>
   gbit (ws[i := w]) g \<longleftrightarrow> (if g div 64 = i then bit w (g mod 64) else gbit ws g)"
  by (auto simp: gbit_def)

lemma bit_u64_bound: "bit (w :: u64) n \<Longrightarrow> n < 64"
  using bit_imp_le_length [of w n] by simp

lemma bit_less_bit_len:
  assumes "bit_len (unat (v :: u64)) \<le> b" "bit v j"
  shows "j < b"
proof (rule ccontr)
  assume "\<not> j < b"
  then have "(2::nat) ^ b \<le> 2 ^ j" by (intro power_increasing) auto
  moreover have "unat v < 2 ^ b" using assms(1) by (simp add: bit_len_le_iff)
  ultimately have "unat v div 2 ^ j = 0" by (intro div_less) linarith
  moreover have "bit (unat v) j" using assms(2) by (simp add: bit_unsigned_iff bit_u64_bound)
  ultimately show False by (simp add: bit_iff_odd)
qed

lemma fields_at_cong:
  assumes "fields_at ws R fs" "\<And>g. R - sum_list (map fst fs) \<le> g \<Longrightarrow> g < R \<Longrightarrow> gbit ws' g = gbit ws g"
  shows "fields_at ws' R fs"
  using assms
proof (induction fs arbitrary: R)
  case (Cons f fs)
  obtain b v where f: "f = (b, v)" by force
  from Cons.prems(1) f have b: "b \<le> R" by simp
  have "fields_at ws' (R - b) fs"
  proof (rule Cons.IH)
    show "fields_at ws (R - b) fs" using Cons.prems(1) f by simp
    fix g assume "R - b - sum_list (map fst fs) \<le> g" "g < R - b"
    then show "gbit ws' g = gbit ws g" using Cons.prems(2) [of g] f b by simp
  qed
  moreover have "bit v j \<longleftrightarrow> j < b \<and> gbit ws' (R - b + j)" if "j < 64" for j
    using Cons.prems that f b by (auto simp: Cons.prems(2))
  ultimately show ?case using b f by simp
qed simp

lemma fields_at_append:
  "fields_at ws R (fs @ gs) \<longleftrightarrow>
     fields_at ws R fs \<and> fields_at ws (R - sum_list (map fst fs)) gs"
  by (induction fs arbitrary: R) (auto simp: algebra_simps)

section \<open>One field\<close>

lemma gbit_pack_view:
  assumes "j < 64" "nat (ps_p st) < length (ps_words st)"
  shows "gbit (pack_view st) (64 * i + j) \<longleftrightarrow>
     (if i = nat (ps_p st) then bit (ps_w st) j else bit (ps_words st ! i) j)"
  using assms by (simp add: gbit_word pack_view_def)

lemma pack_inv_low:
  assumes "pack_inv k st R" "j < 64"
  shows "j < ps_bits st \<Longrightarrow> \<not> bit (ps_w st) j"
    and "i < nat (ps_p st) \<Longrightarrow> \<not> bit (ps_words st ! i) j"
proof -
  have n: "nat (ps_p st) < length (ps_words st)" and R: "R = 64 * nat (ps_p st) + ps_bits st"
    using assms(1) by (auto simp: pack_inv_def)
  have z: "\<And>g. g < R \<Longrightarrow> \<not> gbit (pack_view st) g"
    using assms(1) by (auto simp: pack_inv_def)
  show "\<not> bit (ps_w st) j" if "j < ps_bits st"
    using z [of "64 * nat (ps_p st) + j"] that n R gbit_pack_view [OF assms(2) n] by auto
  show "\<not> bit (ps_words st ! i) j" if "i < nat (ps_p st)"
    using z [of "64 * i + j"] that n R gbit_pack_view [OF assms(2) n, of i] assms(2) by auto
qed

lemma raw_set_inc_field_ok:
  assumes inv: "pack_inv k st R" and b: "b = unat (f_bits f ! i)" "b \<le> 64" "b \<le> R"
    and v: "bit_len (unat v) \<le> b"
  shows "\<exists>st'. raw_set_inc_field f st i v = Some st' \<and> pack_inv k st' (R - b) \<and>
     length (ps_words st') = length (ps_words st) \<and>
     (\<forall>g. gbit (pack_view st') g \<longleftrightarrow>
        (if g < R - b then False else if g < R then bit v (g - (R - b)) else gbit (pack_view st) g))"
proof -
  define n where "n = nat (ps_p st)"
  have n: "n < length (ps_words st)" "int n = ps_p st" "n < k" "k \<le> length (ps_words st)"
    and bits: "ps_bits st \<le> 64" and R: "R = 64 * n + ps_bits st"
    using inv by (auto simp: pack_inv_def n_def)
  note low = pack_inv_low [OF inv, folded n_def]
  have vb: "bit v j \<Longrightarrow> j < b" for j using bit_less_bit_len [OF v] .
  consider "b = 0" | "0 < b" "b \<le> ps_bits st" | "ps_bits st < b" by linarith
  then show ?thesis
  proof cases
    case 1
    then show ?thesis using inv b by (auto simp: raw_set_inc_field_def Let_def pack_inv_def)
  next
    case 2
    define st' where "st' = st\<lparr>ps_bits := ps_bits st - b, ps_w := ps_w st OR push_bit (ps_bits st - b) v\<rparr>"
    have run: "raw_set_inc_field f st i v = Some st'"
      using 2 b bits by (simp add: raw_set_inc_field_def Let_def shl_def st'_def)
    have st': "ps_p st' = int n" "ps_words st' = ps_words st" "ps_w st' = ps_w st OR push_bit (ps_bits st - b) v"
        "ps_bits st' = ps_bits st - b"
      using n(2) by (simp_all add: st'_def)
    have view: "gbit (pack_view st') g \<longleftrightarrow>
        (if g < R - b then False else if g < R then bit v (g - (R - b)) else gbit (pack_view st) g)" for g
    proof (cases g rule: gbit_cases)
      case g: (1 m j)
      consider "m < n" | "m = n" | "n < m" by linarith
      then show ?thesis
      proof cases
        case 1
        then have "g < R - b" using g 2 R by linarith
        with 1 g low(2) [of j m] show ?thesis by (simp add: gbit_pack_view n(1) st')
      next
        case e: 2
        with g 2 R low(1) [of j] bits show ?thesis
          by (auto simp: gbit_pack_view n(1) st' n_def [symmetric] bit_simps dest: vb)
      next
        case 3
        then have "\<not> g < R" "\<not> g < R - b" using g R bits by linarith+
        with 3 g show ?thesis by (simp add: gbit_pack_view n(1) st' n_def [symmetric])
      qed
    qed
    have "pack_inv k st' (R - b)"
      using view n(1,3,4) bits R 2 by (auto simp: pack_inv_def st')
    with run view st' show ?thesis by auto
  next
    case 3
    define b1 where "b1 = b - ps_bits st"
    have b1: "0 < b1" "b1 \<le> 64" "b = ps_bits st + b1" using 3 b by (auto simp: b1_def)
    have n0: "0 < n" using b(3) R b1 by (cases n) auto
    define st' where "st' = st\<lparr>ps_words := (ps_words st)[n := ps_w st OR drop_bit b1 v],
        ps_p := ps_p st - 1, ps_w := push_bit (64 - b1) v, ps_bits := 64 - b1\<rparr>"
    have dd: "drop_bit (b1 - Suc 0) (drop_bit (Suc 0) v) = drop_bit b1 v"
      using b1 by (simp add: drop_bit_drop_bit)
    have e: "unat (f_bits f ! i) = ps_bits st + b1" "1 \<le> ps_p st" using b b1 n(2) n0 by auto
    have run: "raw_set_inc_field f st i v = Some st'"
      using e b1(1,2) n(1)
      by (simp add: raw_set_inc_field_def Let_def shl_def shr_def st'_def upd_opt_def n_def [symmetric] dd)
    have st': "nat (ps_p st') = n - 1" "0 \<le> ps_p st'" "ps_p st' < int k" "ps_words st' = (ps_words st)[n := ps_w st OR drop_bit b1 v]"
        "ps_w st' = push_bit (64 - b1) v" "ps_bits st' = 64 - b1"
      using n n0 by (auto simp: st'_def)
    have view: "gbit (pack_view st') g \<longleftrightarrow>
        (if g < R - b then False else if g < R then bit v (g - (R - b)) else gbit (pack_view st) g)" for g
    proof (cases g rule: gbit_cases)
      case g: (1 m j)
      consider "m < n - 1" | "m = n - 1" | "m = n" | "n < m" by linarith
      then show ?thesis
      proof cases
        case 1
        then have "g < R - b" using g b1 R by linarith
        with 1 g low(2) [of j m] n(1) show ?thesis by (simp add: gbit_pack_view st')
      next
        case 2
        then have "n = Suc m" using n0 by simp
        with g b1 R low(2) [of j m] n(1) show ?thesis
          by (auto simp: gbit_pack_view st' bit_simps dest: vb)
      next
        case e: 3
        with g b1 R n0 low(1) [of j] n(1) bits show ?thesis
          by (auto simp: gbit_pack_view st' n_def [symmetric] bit_simps add.commute [of b1] dest: vb)
      next
        case 4
        then have "\<not> g < R" "\<not> g < R - b" using g R bits by linarith+
        moreover have "m \<noteq> n - 1" using 4 by simp
        ultimately show ?thesis using 4 g n(1) by (simp add: gbit_pack_view st' n_def [symmetric])
      qed
    qed
    have "pack_inv k st' (R - b)"
      using view n(1,3,4) bits R 3 b1 n0 by (auto simp: pack_inv_def st' diff_mult_distrib2)
    with run view st' show ?thesis by auto
  qed
qed

lemma get_inc_field_ok:
  assumes inv: "unpack_inv k st R" and b: "b = unat (f_bits f ! i)" "b \<le> 64" "b \<le> R"
  shows "\<exists>v st'. get_inc_field f st i = Some (v + f_offset f ! i, st') \<and> unpack_inv k st' (R - b) \<and>
     us_words st' = us_words st \<and>
     (\<forall>j<64. bit v j \<longleftrightarrow> j < b \<and> gbit (us_words st) (R - b + j))"
proof (cases "b < us_bits st")
  case True
  define st' where "st' = st\<lparr>us_w := push_bit b (us_w st), us_bits := us_bits st - b\<rparr>"
  define v where "v = drop_bit (64 - b) (us_w st)"
  have w: "bit (us_w st) j \<longleftrightarrow>
        64 - us_bits st \<le> j \<and> 64 \<le> R + j \<and> gbit (us_words st) (R + j - 64)" if "j < 64" for j
    using inv that by (auto simp: unpack_inv_def)
  have bits: "us_bits st \<le> 64" "int R = 64 * us_p st + int (us_bits st)"
    using inv by (auto simp: unpack_inv_def)
  have d: "Suc (63 - b) = 64 - b" using True bits(1) by simp
  have run: "get_inc_field f st i = Some (v + f_offset f ! i, st')"
    using True bits(1)
    by (simp add: get_inc_field_def Let_def shl_def st'_def v_def b(1) [symmetric] d)
  have "\<forall>j<64. bit v j \<longleftrightarrow> j < b \<and> gbit (us_words st) (R - b + j)"
  proof (intro allI impI)
    fix j :: nat assume "j < 64"
    have "bit v j \<longleftrightarrow> bit (us_w st) (64 - b + j)" by (simp add: v_def bit_simps)
    also have "\<dots> \<longleftrightarrow> j < b \<and> gbit (us_words st) (R - b + j)"
      using w [of "64 - b + j"] True bits b(3) by (auto dest: bit_u64_bound)
    finally show "bit v j \<longleftrightarrow> j < b \<and> gbit (us_words st) (R - b + j)" .
  qed
  moreover have "unpack_inv k st' (R - b)"
    using inv True b(3) w by (auto simp: unpack_inv_def st'_def bit_simps)
  ultimately show ?thesis using run by (auto simp: st'_def)
next
  case False
  define b1 where "b1 = b - us_bits st"
  define n where "n = nat (us_p st)"
  have bits: "1 \<le> us_bits st" "us_bits st \<le> 64" "int R = 64 * us_p st + int (us_bits st)" "us_p st < int k"
      "k \<le> length (us_words st)"
    using inv by (auto simp: unpack_inv_def)
  have w: "bit (us_w st) j \<longleftrightarrow>
        64 - us_bits st \<le> j \<and> 64 \<le> R + j \<and> gbit (us_words st) (R + j - 64)" if "j < 64" for j
    using inv that by (auto simp: unpack_inv_def)
  have n: "us_p st = int n" using bits b(3) False by (simp add: n_def)
  have b1: "b = us_bits st + b1" "b1 < 64" using False b(2) bits(1) by (auto simp: b1_def)
  have R: "R = 64 * n + us_bits st" "R - b = 64 * n - b1" "b1 \<le> 64 * n" using bits(3) n b(3) b1 by auto
  define w1 where "w1 = (if n = 0 then 0 else us_words st ! (n - 1))"
  define st' where "st' = st\<lparr>us_p := us_p st - 1, us_w := push_bit b1 w1, us_bits := 64 - b1\<rparr>"
  define v where "v = drop_bit (64 - b) (us_w st) OR drop_bit (64 - b1) w1"
  have e: "unat (f_bits f ! i) = us_bits st + b1" "us_bits st + b1 \<le> 64" using b b1 by auto
  have d1: "Suc (63 - b1) = 64 - b1" using b1 by simp
  have r1: "0 < n \<Longrightarrow> nth_opt (us_words st) (nat (int n - 1)) = Some w1" "n = 0 \<Longrightarrow> w1 = 0"
    using bits n by (auto simp: w1_def nth_opt_def nat_diff_distrib)
  have run: "get_inc_field f st i = Some (v + f_offset f ! i, st')"
    using e b1(2) R(3) n bits(1)
    by (simp add: get_inc_field_def Let_def shl_def shr_def r1 st'_def v_def b1(1) d1)
  have w1: "bit w1 j \<longleftrightarrow> 0 < n \<and> gbit (us_words st) (64 * (n - 1) + j)" if "j < 64" for j
    using that by (simp add: w1_def gbit_word)
  have "\<forall>j<64. bit v j \<longleftrightarrow> j < b \<and> gbit (us_words st) (R - b + j)"
  proof (intro allI impI)
    fix j :: nat assume "j < 64"
    have "bit v j \<longleftrightarrow> bit (us_w st) (64 - b + j) \<or> bit w1 (64 - b1 + j)" by (simp add: v_def bit_simps)
    also have "bit (us_w st) (64 - b + j) \<longleftrightarrow> b1 \<le> j \<and> j < b \<and> gbit (us_words st) (R - b + j)"
    proof (cases "j < b")
      case True
      then have "64 - b + j < 64" using b(2) by linarith
      with w [OF this] True b1 R b(2) show ?thesis by auto
    next
      case False
      then show ?thesis using bit_u64_bound [of "us_w st" "64 - b + j"] b(2) by auto
    qed
    also have "bit w1 (64 - b1 + j) \<longleftrightarrow> j < b1 \<and> gbit (us_words st) (R - b + j)"
    proof (cases "j < b1")
      case True
      then have "64 - b1 + j < 64" using b1(2) by linarith
      with w1 [OF this] True b1 R show ?thesis by (cases n) (auto simp: ac_simps)
    next
      case False
      then show ?thesis using bit_u64_bound [of w1 "64 - b1 + j"] b1(2) by auto
    qed
    also have "(b1 \<le> j \<and> j < b \<and> gbit (us_words st) (R - b + j)) \<or> (j < b1 \<and> gbit (us_words st) (R - b + j))
        \<longleftrightarrow> j < b \<and> gbit (us_words st) (R - b + j)" using b1 by auto
    finally show "bit v j \<longleftrightarrow> j < b \<and> gbit (us_words st) (R - b + j)" .
  qed
  moreover have "unpack_inv k st' (R - b)"
    using R bits b1(2) n w1 by (cases n) (auto simp: unpack_inv_def st'_def bit_simps algebra_simps)
  ultimately show ?thesis using run by (auto simp: st'_def)
qed

section \<open>All fields\<close>

definition format_valid :: "bkey_format \<Rightarrow> bool" where
  "format_valid f \<longleftrightarrow>
     unat (f_nr_fields f) = BKEY_NR_FIELDS \<and> length (f_bits f) = BKEY_NR_FIELDS \<and>
     length (f_offset f) = BKEY_NR_FIELDS \<and> f_key_u64s f \<noteq> 0 \<and>
     unat (f_key_u64s f) \<le> BKEY_PACKED_WORDS \<and> list_all (\<lambda>b. b \<le> 64) (f_bits f) \<and>
     KEY_PACKED_BITS_START + sum_list (map unat (f_bits f)) \<le> 64 * unat (f_key_u64s f)"

definition field_fits :: "bkey_format \<Rightarrow> nat \<Rightarrow> u64 \<Rightarrow> bool" where
  "field_fits f i v \<longleftrightarrow>
     f_offset f ! i \<le> v \<and> bit_len (unat (v - f_offset f ! i)) \<le> unat (f_bits f ! i)"

fun fields_fit :: "bkey_format \<Rightarrow> nat \<Rightarrow> u64 list \<Rightarrow> bool" where
  "fields_fit f i [] = True"
| "fields_fit f i (v # vs) \<longleftrightarrow> field_fits f i v \<and> fields_fit f (Suc i) vs"

fun fields_of :: "bkey_format \<Rightarrow> nat \<Rightarrow> u64 list \<Rightarrow> (nat \<times> u64) list" where
  "fields_of f i [] = []"
| "fields_of f i (v # vs) = (unat (f_bits f ! i), v - f_offset f ! i) # fields_of f (Suc i) vs"

lemma set_inc_field_fits:
  "field_fits f i v \<Longrightarrow>
   set_inc_field f st i v = map_option (Pair True) (raw_set_inc_field f st i (v - f_offset f ! i))"
  by (simp add: set_inc_field_def field_fits_def Let_def sub_leading_zeros [where 'a = 64, simplified]
      flip: not_less)

lemma set_inc_field_not_fits: "\<not> field_fits f i v \<Longrightarrow> set_inc_field f st i v = Some (False, st)"
  by (auto simp: set_inc_field_def field_fits_def Let_def sub_leading_zeros [where 'a = 64, simplified]
      not_le)

lemma set_inc_fields_ok:
  assumes "pack_inv k st R" "list_all (\<lambda>p. fst p \<le> 64) (fields_of f i vs)"
    "sum_list (map fst (fields_of f i vs)) \<le> R"
  shows "\<exists>st'. set_inc_fields f st i vs = Some (fields_fit f i vs, st') \<and>
     length (ps_words st') = length (ps_words st) \<and>
     (fields_fit f i vs \<longrightarrow>
       pack_inv k st' (R - sum_list (map fst (fields_of f i vs))) \<and>
       fields_at (pack_view st') R (fields_of f i vs) \<and>
       (\<forall>g\<ge>R. gbit (pack_view st') g = gbit (pack_view st) g))"
  using assms
proof (induction vs arbitrary: st i R)
  case Nil
  then show ?case by simp
next
  case (Cons v vs)
  define b where "b = unat (f_bits f ! i)"
  define u where "u = v - f_offset f ! i"
  show ?case
  proof (cases "field_fits f i v")
    case False
    then show ?thesis by (simp add: set_inc_field_not_fits)
  next
    case True
    have b: "b \<le> 64" "b \<le> R" "bit_len (unat u) \<le> b"
      using Cons.prems True by (auto simp: b_def u_def field_fits_def)
    obtain st1 where st1: "raw_set_inc_field f st i u = Some st1" "pack_inv k st1 (R - b)"
        "length (ps_words st1) = length (ps_words st)"
      and view: "\<And>g. gbit (pack_view st1) g \<longleftrightarrow>
        (if g < R - b then False else if g < R then bit u (g - (R - b)) else gbit (pack_view st) g)"
      using raw_set_inc_field_ok [OF Cons.prems(1) b_def b] by auto
    have run: "set_inc_fields f st i (v # vs) = set_inc_fields f st1 (Suc i) vs"
      using True st1 by (simp add: set_inc_field_fits u_def)
    have le: "sum_list (map fst (fields_of f (Suc i) vs)) \<le> R - b"
      using Cons.prems(3) by (simp add: b_def)
    obtain st2 where st2: "set_inc_fields f st1 (Suc i) vs = Some (fields_fit f (Suc i) vs, st2)"
        "length (ps_words st2) = length (ps_words st1)"
      and fit: "fields_fit f (Suc i) vs \<longrightarrow>
        pack_inv k st2 (R - b - sum_list (map fst (fields_of f (Suc i) vs))) \<and>
        fields_at (pack_view st2) (R - b) (fields_of f (Suc i) vs) \<and>
        (\<forall>g\<ge>R - b. gbit (pack_view st2) g = gbit (pack_view st1) g)"
      using Cons.IH [OF st1(2) _ le] Cons.prems(2) by auto
    have "bit u j \<longleftrightarrow> j < b \<and> gbit (pack_view st2) (R - b + j)"
      if "fields_fit f (Suc i) vs" "j < 64" for j
      using fit that view [of "R - b + j"] b(2) bit_less_bit_len [OF b(3), of j] by auto
    moreover have "gbit (pack_view st2) g = gbit (pack_view st) g"
      if "fields_fit f (Suc i) vs" "R \<le> g" for g
      using fit that view [of g] by auto
    ultimately show ?thesis
      using True run st2 st1 fit b(2) by (auto simp: b_def [symmetric] u_def [symmetric])
  qed
qed

lemma get_inc_field_at:
  assumes "unpack_inv k st R" "fields_at (us_words st) R ((unat (f_bits f ! i), v) # fs)"
    "unat (f_bits f ! i) \<le> 64"
  shows "\<exists>st'. get_inc_field f st i = Some (v + f_offset f ! i, st') \<and>
     unpack_inv k st' (R - unat (f_bits f ! i)) \<and> us_words st' = us_words st \<and>
     fields_at (us_words st') (R - unat (f_bits f ! i)) fs"
proof -
  obtain v' st' where st': "get_inc_field f st i = Some (v' + f_offset f ! i, st')"
      "unpack_inv k st' (R - unat (f_bits f ! i))" "us_words st' = us_words st"
    and v': "\<And>j. j < 64 \<Longrightarrow> bit v' j \<longleftrightarrow>
      j < unat (f_bits f ! i) \<and> gbit (us_words st) (R - unat (f_bits f ! i) + j)"
    using get_inc_field_ok [OF assms(1) refl assms(3)] assms(2) by auto
  have "v' = v"
    by (rule bit_word_eqI) (use v' assms(2) in auto)
  with st' assms(2) show ?thesis by auto
qed

section \<open>Starting and finishing\<close>

lemma nth_zero_words: "i < n \<Longrightarrow> zero_words n ws ! i = 0"
  by (simp add: zero_words_def nth_append)

lemma pack_state_init_ok:
  assumes "f_key_u64s f \<noteq> 0" "unat (f_key_u64s f) \<le> BKEY_PACKED_WORDS" "unat (f_key_u64s f) \<le> length out"
  shows "\<exists>st. pack_state_init f out = Some st \<and>
     pack_inv (unat (f_key_u64s f)) (st\<lparr>ps_words := zero_words (unat (f_key_u64s f)) (ps_words st)\<rparr>)
       (64 * unat (f_key_u64s f)) \<and> ps_words st = out"
proof -
  define k where "k = unat (f_key_u64s f)"
  have k: "0 < k" using assms(1) by (simp add: k_def unat_gt_0)
  let ?st = "\<lparr>ps_bits = 64, ps_w = 0, ps_p = int k - 1, ps_words = out\<rparr>"
  have "pack_state_init f out = Some ?st"
    using assms by (simp add: pack_state_init_def k_def)
  moreover have "\<not> gbit (pack_view (?st\<lparr>ps_words := zero_words k out\<rparr>)) g" if "g < 64 * k" for g
  proof -
    have "g div 64 < k" using that by (simp add: less_mult_imp_div_less mult.commute)
    moreover have "k \<le> length (zero_words k out)" by (simp add: zero_words_def)
    ultimately show ?thesis
      by (auto simp: gbit_def pack_view_def nth_list_update nth_zero_words)
  qed
  ultimately show ?thesis
    using assms(3) k unfolding k_def [symmetric]
    by (auto simp: pack_inv_def zero_words_def nat_diff_distrib algebra_simps)
qed

lemma pack_state_finish_ok:
  assumes "pack_inv (unat (f_key_u64s f)) st R"
  shows "pack_state_finish f st = Some (pack_view st)"
proof -
  have "nat (ps_p st) < length (ps_words st)"
    using assms unfolding pack_inv_def by linarith
  with assms show ?thesis
    by (simp add: pack_state_finish_def pack_inv_def pack_view_def upd_opt_def)
qed

lemma length_pack_view [simp]: "length (pack_view st) = length (ps_words st)"
  by (simp add: pack_view_def)

lemma unpack_state_init_ok:
  assumes "f_key_u64s f \<noteq> 0" "unat (f_key_u64s f) \<le> BKEY_PACKED_WORDS" "unat (f_key_u64s f) \<le> length ws"
  shows "\<exists>st. unpack_state_init f ws = Some st \<and>
     unpack_inv (unat (f_key_u64s f)) st (64 * unat (f_key_u64s f)) \<and> us_words st = ws"
proof -
  define k where "k = unat (f_key_u64s f)"
  obtain m where k: "k = Suc m" using assms(1) by (cases k) (auto simp: k_def unat_eq_0)
  let ?st = "\<lparr>us_bits = 64, us_w = ws ! m, us_p = int m, us_words = ws\<rparr>"
  have "unpack_state_init f ws = Some ?st"
    using assms k by (simp add: unpack_state_init_def nth_opt_def k_def [symmetric])
  moreover have "unpack_inv k ?st (64 * k)"
    using assms(3) k by (auto simp: unpack_inv_def gbit_word k_def [symmetric])
  ultimately show ?thesis by (auto simp: k_def)
qed

lemma gbit_set_header:
  "ws \<noteq> [] \<Longrightarrow> 24 \<le> g \<Longrightarrow> gbit (pk_set_header ws n f t) g = gbit ws g"
  by (cases "g div 64 = 0") (auto simp: gbit_def bit_pk_set_header)

lemma fields_at_set_header:
  assumes "fields_at ws R fs" "ws \<noteq> []" "24 + sum_list (map fst fs) \<le> R"
  shows "fields_at (pk_set_header ws n f t) R fs"
  using assms(1) by (rule fields_at_cong) (use assms(2,3) in \<open>auto simp: gbit_set_header\<close>)

section \<open>Whole keys\<close>

definition bkey_header_ok :: "bkey_format \<Rightarrow> bkey \<Rightarrow> bool" where
  "bkey_header_ok f k \<longleftrightarrow>
     k_format k AND 0x7f = KEY_FORMAT_CURRENT \<and> BKEY_U64S \<le> unat (k_u64s k) \<and>
     unat (f_key_u64s f) + unat (k_u64s k) - BKEY_U64S \<le> 255"

lemma widths_fields_of:
  "map fst (fields_of f i vs) = map (\<lambda>j. unat (f_bits f ! j)) [i..<i + length vs]"
proof (induction vs arbitrary: i)
  case (Cons v vs)
  have "[i..<i + length (v # vs)] = i # [Suc i..<Suc i + length vs]"
    by (simp add: upt_conv_Cons del: upt_Suc)
  with Cons show ?case by (simp del: upt_Suc)
qed simp

lemma width_le: "format_valid f \<Longrightarrow> j < 6 \<Longrightarrow> unat (f_bits f ! j) \<le> 64"
  by (auto simp: format_valid_def list_all_length code_consts word_le_nat_alt)

lemma widths_le:
  assumes "format_valid f" "length vs \<le> 6"
  shows "list_all (\<lambda>p. fst p \<le> 64) (fields_of f 0 vs)"
    and "24 + sum_list (map fst (fields_of f 0 vs)) \<le> 64 * unat (f_key_u64s f)"
proof -
  let ?w = "\<lambda>j. unat (f_bits f ! j)"
  have "\<forall>w\<in>set (map fst (fields_of f 0 vs)). w \<le> 64"
    unfolding widths_fields_of using assms width_le by auto
  then show "list_all (\<lambda>p. fst p \<le> 64) (fields_of f 0 vs)"
    by (auto simp: list_all_iff)
  have "map unat (f_bits f) = map ?w [0..<6]"
    using assms(1) by (intro nth_equalityI) (auto simp: format_valid_def code_consts)
  also have "[0..<6] = [0..<length vs] @ [length vs..<6]"
    using assms(2) by (metis le0 le_add_diff_inverse upt_add_eq_append)
  finally have "sum_list (map fst (fields_of f 0 vs)) \<le> sum_list (map unat (f_bits f))"
    by (simp add: widths_fields_of)
  with assms(1) show "24 + sum_list (map fst (fields_of f 0 vs)) \<le> 64 * unat (f_key_u64s f)"
    by (simp add: format_valid_def code_consts)
qed

lemma pack_fields_ok:
  assumes f: "format_valid f" and out: "unat (f_key_u64s f) \<le> length out" and vs: "length vs \<le> 6"
  shows "\<exists>st0 st. pack_state_init f out = Some st0 \<and> ps_words st0 = out \<and>
     set_inc_fields f (st0\<lparr>ps_words := zero_words (unat (f_key_u64s f)) (ps_words st0)\<rparr>) 0 vs
       = Some (fields_fit f 0 vs, st) \<and> length (ps_words st) = length out \<and>
     (fields_fit f 0 vs \<longrightarrow> pack_state_finish f st = Some (pack_view st) \<and>
        fields_at (pack_view st) (64 * unat (f_key_u64s f)) (fields_of f 0 vs))"
proof -
  let ?k = "unat (f_key_u64s f)"
  have k: "f_key_u64s f \<noteq> 0" "?k \<le> BKEY_PACKED_WORDS" using f by (auto simp: format_valid_def)
  obtain st0 where st0: "pack_state_init f out = Some st0" "ps_words st0 = out"
      "pack_inv ?k (st0\<lparr>ps_words := zero_words ?k (ps_words st0)\<rparr>) (64 * ?k)"
    using pack_state_init_ok [OF k out] by auto
  have le: "sum_list (map fst (fields_of f 0 vs)) \<le> 64 * ?k" using widths_le(2) [OF f vs] by simp
  have len: "length (zero_words ?k out) = length out" using out by (simp add: zero_words_def)
  show ?thesis
    using set_inc_fields_ok [OF st0(3) widths_le(1) [OF f vs] le] st0(1,2) len
    by (auto simp: pack_state_finish_ok)
qed

lemma bch2_bkey_pack_key_cases:
  assumes f: "format_valid f" and out: "unat (f_key_u64s f) \<le> length out" and k: "bkey_header_ok f k"
  shows "\<exists>out'. bch2_bkey_pack_key out k f = Some (fields_fit f 0 (bkey_field_values k), out') \<and>
     length out' = length out \<and>
     (fields_fit f 0 (bkey_field_values k) \<longrightarrow>
        pk_u64s out' = of_nat (unat (f_key_u64s f) + unat (k_u64s k) - BKEY_U64S) \<and>
        pk_format out' = k_format k AND 0x80 \<and> pk_type out' = k_type k \<and>
        fields_at out' (64 * unat (f_key_u64s f)) (fields_of f 0 (bkey_field_values k)))"
proof -
  have vs: "length (bkey_field_values k) \<le> 6" by (simp add: bkey_field_values_def)
  obtain st0 st where run: "pack_state_init f out = Some st0" "ps_words st0 = out"
      "set_inc_fields f (st0\<lparr>ps_words := zero_words (unat (f_key_u64s f)) (ps_words st0)\<rparr>) 0 (bkey_field_values k)
       = Some (fields_fit f 0 (bkey_field_values k), st)" "length (ps_words st) = length out"
    and fit: "fields_fit f 0 (bkey_field_values k) \<longrightarrow> pack_state_finish f st = Some (pack_view st) \<and>
        fields_at (pack_view st) (64 * unat (f_key_u64s f)) (fields_of f 0 (bkey_field_values k))"
    using pack_fields_ok [OF f out vs] by blast
  have ne: "pack_view st \<noteq> []"
    using out run(4) f by (metis format_valid_def le_zero_eq length_0_conv length_pack_view unat_eq_0)
  note sum = widths_le(2) [OF f vs]
  show ?thesis
    using run fit f k ne sum
    by (auto simp: bch2_bkey_pack_key_def format_valid_def bkey_header_ok_def Let_def fields_at_set_header)
qed

lemma get_pos_fields:
  assumes f: "format_valid f" and ws: "unat (f_key_u64s f) \<le> length ws"
    and at: "fields_at ws (64 * unat (f_key_u64s f)) (fields_of f 0 (v0 # v1 # v2 # vs))"
  obtains s s0 s1 s2 R where "unpack_state_init f ws = Some s" "get_inc_field f s 0 = Some (v0, s0)"
    "get_inc_field f s0 (Suc 0) = Some (v1, s1)" "get_inc_field f s1 2 = Some (v2, s2)"
    "unpack_inv (unat (f_key_u64s f)) s2 R" "fields_at (us_words s2) R (fields_of f 3 vs)"
proof -
  let ?k = "unat (f_key_u64s f)" and ?b = "\<lambda>j. unat (f_bits f ! j)"
  have k: "f_key_u64s f \<noteq> 0" "?k \<le> BKEY_PACKED_WORDS" using f by (auto simp: format_valid_def)
  obtain st where st: "unpack_state_init f ws = Some st" "unpack_inv ?k st (64 * ?k)" "us_words st = ws"
    using unpack_state_init_ok [OF k ws] by blast
  have w: "?b 0 \<le> 64" "?b 1 \<le> 64" "?b 2 \<le> 64" using width_le [OF f] by auto
  note at' = at [folded st(3), unfolded fields_of.simps]
  obtain s0 where s0: "get_inc_field f st 0 = Some (v0, s0)" "unpack_inv ?k s0 (64 * ?k - ?b 0)"
      "fields_at (us_words s0) (64 * ?k - ?b 0) (fields_of f 1 (v1 # v2 # vs))"
    using get_inc_field_at [OF st(2) at' w(1)] by auto
  obtain s1 where s1: "get_inc_field f s0 1 = Some (v1, s1)" "unpack_inv ?k s1 (64 * ?k - ?b 0 - ?b 1)"
      "fields_at (us_words s1) (64 * ?k - ?b 0 - ?b 1) (fields_of f 2 (v2 # vs))"
    using get_inc_field_at [OF s0(2) s0(3) [unfolded fields_of.simps(2)] w(2)] by (auto simp: eval_nat_numeral)
  obtain s2 where s2: "get_inc_field f s1 2 = Some (v2, s2)" "unpack_inv ?k s2 (64 * ?k - ?b 0 - ?b 1 - ?b 2)"
      "fields_at (us_words s2) (64 * ?k - ?b 0 - ?b 1 - ?b 2) (fields_of f 3 vs)"
    using get_inc_field_at [OF s1(2) s1(3) [unfolded fields_of.simps(2)] w(3)] by (auto simp: eval_nat_numeral)
  show thesis using that st(1) s0(1) s1(1) s2 by simp
qed

lemma raw_bkey_unpack_pos_at:
  assumes f: "format_valid f" and ws: "unat (f_key_u64s f) \<le> length ws"
    and hdr: "f_key_u64s f \<le> pk_u64s ws" "pk_format ws AND 0x7f = KEY_FORMAT_LOCAL_BTREE"
    and at: "fields_at ws (64 * unat (f_key_u64s f)) (fields_of f 0 (v0 # v1 # v2 # vs))"
  shows "raw_bkey_unpack_pos f ws = Some (SPOS v0 v1 (ucast v2))"
  using hdr f by (rule_tac get_pos_fields [OF f ws at]) (simp add: raw_bkey_unpack_pos_def format_valid_def)

lemma raw_bch2_bkey_unpack_key_at:
  assumes f: "format_valid f" and ws: "unat (f_key_u64s f) \<le> length ws"
    and hdr: "f_key_u64s f \<le> pk_u64s ws" "pk_format ws AND 0x7f = KEY_FORMAT_LOCAL_BTREE"
      "unat (pk_u64s ws) - unat (f_key_u64s f) + BKEY_U64S \<le> 255"
    and at: "fields_at ws (64 * unat (f_key_u64s f)) (fields_of f 0 [v0, v1, v2, v3, v4, v5])"
  shows "raw_bch2_bkey_unpack_key f ws = Some
     \<lparr>k_u64s = of_nat (unat (pk_u64s ws) - unat (f_key_u64s f) + BKEY_U64S),
      k_format = KEY_FORMAT_CURRENT OR (pk_format ws AND 0x80), k_type = pk_type ws, k_pad = 0,
      k_bversion = Bversion (ucast v4) v5, k_size = ucast v3, k_p = SPOS v0 v1 (ucast v2)\<rparr>"
    and "raw_bkey_unpack_pos f ws = Some (SPOS v0 v1 (ucast v2))"
proof -
  let ?k = "unat (f_key_u64s f)" and ?b = "\<lambda>j. unat (f_bits f ! j)"
  obtain s s0 s1 s2 R where s: "unpack_state_init f ws = Some s" "get_inc_field f s 0 = Some (v0, s0)"
      "get_inc_field f s0 (Suc 0) = Some (v1, s1)" "get_inc_field f s1 2 = Some (v2, s2)"
    and s2: "unpack_inv ?k s2 R" "fields_at (us_words s2) R (fields_of f 3 [v3, v4, v5])"
    by (rule get_pos_fields [OF f ws at])
  have w: "?b 3 \<le> 64" "?b 4 \<le> 64" "?b 5 \<le> 64" using width_le [OF f] by auto
  obtain s3 where s3: "get_inc_field f s2 3 = Some (v3, s3)" "unpack_inv ?k s3 (R - ?b 3)"
      "fields_at (us_words s3) (R - ?b 3) (fields_of f 4 [v4, v5])"
    using get_inc_field_at [OF s2(1) s2(2) [unfolded fields_of.simps(2)] w(1)] by (auto simp: eval_nat_numeral)
  obtain s4 where s4: "get_inc_field f s3 4 = Some (v4, s4)" "unpack_inv ?k s4 (R - ?b 3 - ?b 4)"
      "fields_at (us_words s4) (R - ?b 3 - ?b 4) (fields_of f 5 [v5])"
    using get_inc_field_at [OF s3(2) s3(3) [unfolded fields_of.simps(2)] w(2)] by (auto simp: eval_nat_numeral)
  obtain s5 where s5: "get_inc_field f s4 5 = Some (v5, s5)"
    using get_inc_field_at [OF s4(2) s4(3) [unfolded fields_of.simps(2)] w(3)] by auto
  have nr: "unat (f_nr_fields f) = BKEY_NR_FIELDS" using f by (simp add: format_valid_def)
  show "raw_bch2_bkey_unpack_key f ws = Some
     \<lparr>k_u64s = of_nat (unat (pk_u64s ws) - unat (f_key_u64s f) + BKEY_U64S),
      k_format = KEY_FORMAT_CURRENT OR (pk_format ws AND 0x80), k_type = pk_type ws, k_pad = 0,
      k_bversion = Bversion (ucast v4) v5, k_size = ucast v3, k_p = SPOS v0 v1 (ucast v2)\<rparr>"
    using hdr nr by (simp add: raw_bch2_bkey_unpack_key_def s s3(1) s4(1) s5(1) Let_def)
  show "raw_bkey_unpack_pos f ws = Some (SPOS v0 v1 (ucast v2))"
    by (rule raw_bkey_unpack_pos_at [OF f ws hdr(1,2) at])
qed

lemma format_bits_split: "(x AND 0x7f) OR (x AND 0x80) = x" for x :: u8
proof -
  have "(0x7f :: u8) OR 0x80 = - 1" by simp
  then show ?thesis by (metis word_ao_dist2 word_and_max word_bw_comms(1))
qed

section \<open>What it means for words to hold a key\<close>

text \<open>\<open>packed_as f ws k\<close>: the words \<open>ws\<close> hold the key \<open>k\<close> packed in the format \<open>f\<close>.\<close>

definition packed_as :: "bkey_format \<Rightarrow> u64 list \<Rightarrow> bkey \<Rightarrow> bool" where
  "packed_as f ws k \<longleftrightarrow>
     unat (f_key_u64s f) \<le> length ws \<and>
     k_format k AND 0x7f = KEY_FORMAT_CURRENT \<and> BKEY_U64S \<le> unat (k_u64s k) \<and>
     unat (pk_u64s ws) = unat (f_key_u64s f) + (unat (k_u64s k) - BKEY_U64S) \<and>
     pk_format ws = k_format k AND 0x80 \<and> pk_type ws = k_type k \<and>
     fields_at ws (64 * unat (f_key_u64s f)) (fields_of f 0 (bkey_field_values k))"

lemma packed_as_format:
  "packed_as f ws k \<Longrightarrow> pk_format ws AND 0x7f = KEY_FORMAT_LOCAL_BTREE"
  by (simp add: packed_as_def KEY_FORMAT_LOCAL_BTREE_def word_bw_assocs)

lemma packed_as_unpack:
  assumes f: "format_valid f" and p: "packed_as f ws k"
  shows "raw_bch2_bkey_unpack_key f ws = Some (k\<lparr>k_pad := 0\<rparr>)"
    and "raw_bkey_unpack_pos f ws = Some (k_p k)"
proof -
  have n: "unat (pk_u64s ws) - unat (f_key_u64s f) + BKEY_U64S = unat (k_u64s k)"
    using p by (simp add: packed_as_def)
  have hdr: "f_key_u64s f \<le> pk_u64s ws" "unat (pk_u64s ws) - unat (f_key_u64s f) + BKEY_U64S \<le> 255"
      "unat (f_key_u64s f) \<le> length ws"
    using p unsigned_less [where 'a = nat, of "k_u64s k"] by (auto simp: packed_as_def word_le_nat_alt)
  have at: "fields_at ws (64 * unat (f_key_u64s f)) (fields_of f 0
      [inode (k_p k), offset (k_p k), ucast (snapshot (k_p k)), ucast (k_size k),
       ucast (v_hi (k_bversion k)), v_lo (k_bversion k)])"
    using p by (simp only: packed_as_def bkey_field_values_def)
  have fmt: "KEY_FORMAT_CURRENT OR (pk_format ws AND 0x80) = k_format k"
    using p format_bits_split [of "k_format k"] by (simp add: packed_as_def word_bw_assocs)
  have casts: "ucast (ucast (k_size k) :: u64) = k_size k"
      "ucast (ucast (snapshot (k_p k)) :: u64) = snapshot (k_p k)"
      "ucast (ucast (v_hi (k_bversion k)) :: u64) = v_hi (k_bversion k)"
    by (rule ucast_down_up, simp)+
  have ty: "pk_type ws = k_type k" using p by (simp add: packed_as_def)
  show "raw_bch2_bkey_unpack_key f ws = Some (k\<lparr>k_pad := 0\<rparr>)"
    using raw_bch2_bkey_unpack_key_at(1) [OF f hdr(3,1) packed_as_format [OF p] hdr(2) at]
    by (simp only: n fmt casts ty bpos.collapse bversion.collapse) simp
  show "raw_bkey_unpack_pos f ws = Some (k_p k)"
    using raw_bkey_unpack_pos_at [OF f hdr(3,1) packed_as_format [OF p] at]
    by (simp only: casts bpos.collapse)
qed

lemma pack_key_packed_as:
  assumes "format_valid f" "unat (f_key_u64s f) \<le> length out" "bkey_header_ok f k"
    "bch2_bkey_pack_key out k f = Some (True, ws)"
  shows "packed_as f ws k"
proof -
  have n: "unat (f_key_u64s f) + unat (k_u64s k) - BKEY_U64S \<le> 255" "BKEY_U64S \<le> unat (k_u64s k)"
    using assms(3) by (auto simp: bkey_header_ok_def)
  then have "unat (of_nat (unat (f_key_u64s f) + unat (k_u64s k) - BKEY_U64S) :: u8) =
      unat (f_key_u64s f) + (unat (k_u64s k) - BKEY_U64S)"
    by (subst unat_of_nat_small) simp_all
  then show ?thesis
    using bch2_bkey_pack_key_cases [OF assms(1-3)] assms(2,3,4)
    by (auto simp: packed_as_def bkey_header_ok_def)
qed

lemma pack_unpack_key:
  assumes "format_valid f" "unat (f_key_u64s f) \<le> length out" "bkey_header_ok f k"
    "bch2_bkey_pack_key out k f = Some (True, ws)"
  shows "raw_bch2_bkey_unpack_key f ws = Some (k\<lparr>k_pad := 0\<rparr>)"
    and "raw_bkey_unpack_pos f ws = Some (k_p k)"
  using packed_as_unpack [OF assms(1) pack_key_packed_as [OF assms]] by auto

text \<open>
  C2: packing a key into a valid format never panics; it succeeds exactly when every field fits
  the format, and then unpacking the words gives back the key (its padding byte cleared) and its position.
\<close>

theorem bkey_pack_unpack_roundtrip:
  assumes "format_valid f" "unat (f_key_u64s f) \<le> length out" "bkey_header_ok f k"
  shows "\<exists>ws. bch2_bkey_pack_key out k f = Some (fields_fit f 0 (bkey_field_values k), ws) \<and>
    (fields_fit f 0 (bkey_field_values k) \<longrightarrow>
       raw_bch2_bkey_unpack_key f ws = Some (k\<lparr>k_pad := 0\<rparr>) \<and> raw_bkey_unpack_pos f ws = Some (k_p k))"
  using bch2_bkey_pack_key_cases [OF assms] pack_unpack_key [OF assms] by fastforce

text \<open>A two-word format with 32-bit inode and offset, an 8-bit snapshot and no other field.\<close>

definition sample_format :: bkey_format where
  "sample_format = \<lparr>f_key_u64s = 2, f_nr_fields = 6, f_bits = [32, 32, 8, 0, 0, 0], f_offset = [0, 16, 0, 0, 0, 0]\<rparr>"

definition sample_key :: bkey where
  "sample_key = bkey_init\<lparr>k_type := 3, k_p := SPOS 4096 77 5\<rparr>"

lemma sample_format_valid: "format_valid sample_format"
  by (simp add: format_valid_def sample_format_def code_consts)

lemma sample_key_fits: "fields_fit sample_format 0 (bkey_field_values sample_key)"
  by (simp add: field_fits_def sample_format_def sample_key_def bkey_init_def bkey_field_values_def ZERO_VERSION_def
      bit_len_le_iff)

lemma sample_key_header: "bkey_header_ok sample_format sample_key"
  by (simp add: bkey_header_ok_def sample_format_def sample_key_def bkey_init_def code_consts)

theorem bkey_pack_unpack_roundtrip_witness:
  "\<exists>ws. bch2_bkey_pack_key (replicate 5 0) sample_key sample_format = Some (True, ws) \<and>
     raw_bch2_bkey_unpack_key sample_format ws = Some sample_key"
proof -
  have "unat (f_key_u64s sample_format) \<le> length (replicate 5 (0::u64))" "sample_key\<lparr>k_pad := 0\<rparr> = sample_key"
    by (simp_all add: sample_format_def sample_key_def bkey_init_def)
  then show ?thesis
    using bkey_pack_unpack_roundtrip [OF sample_format_valid _ sample_key_header, of "replicate 5 0"] sample_key_fits
    by auto
qed

end
