(* ===== verification/Bkey_Format.thy ===== *)
theory Bkey_Format
  imports Bkey_Pack
begin

text \<open>
  Choosing a key format for a set of keys: \<^verbatim>\<open>bch2_bkey_format_init\<close>, \<^verbatim>\<open>bch2_bkey_format_add_key\<close>,
  \<^verbatim>\<open>bch2_bkey_format_add_pos\<close>, \<^verbatim>\<open>set_format_field\<close> and \<^verbatim>\<open>bch2_bkey_format_done\<close> of
  \<^verbatim>\<open>btree/bkey.rs\<close>, the overflow test of a format field and the byte-alignment constants.
  The state records the least and greatest value seen of each of the six fields.
\<close>

section \<open>Operations\<close>

record bkey_format_state =
  fs_min :: "u64 list"
  fs_max :: "u64 list"

definition bch2_bkey_format_init :: bkey_format_state where
  "bch2_bkey_format_init = \<lparr>fs_min = (replicate 6 (- 1))[3 := 0], fs_max = replicate 6 0\<rparr>"

definition raw_bkey_format_add :: "bkey_format_state \<Rightarrow> nat \<Rightarrow> u64 \<Rightarrow> bkey_format_state" where
  "raw_bkey_format_add st field v =
     \<lparr>fs_min = (fs_min st)[field := min (fs_min st ! field) v],
      fs_max = (fs_max st)[field := max (fs_max st ! field) v]\<rparr>"

fun format_add_values :: "bkey_format_state \<Rightarrow> nat \<Rightarrow> u64 list \<Rightarrow> bkey_format_state" where
  "format_add_values st i [] = st"
| "format_add_values st i (v # vs) = format_add_values (raw_bkey_format_add st i v) (Suc i) vs"

definition bch2_bkey_format_add_key :: "bkey_format_state \<Rightarrow> bkey \<Rightarrow> bkey_format_state" where
  "bch2_bkey_format_add_key st k = format_add_values st 0 (bkey_field_values k)"

definition bch2_bkey_format_add_pos :: "bkey_format_state \<Rightarrow> bpos \<Rightarrow> bkey_format_state" where
  "bch2_bkey_format_add_pos st p =
     (let st = raw_bkey_format_add st 0 (inode p);
          st = raw_bkey_format_add st 1 (offset p)
      in raw_bkey_format_add st 2 (ucast (snapshot p)))"

definition unpacked_bits :: "nat \<Rightarrow> nat" where
  "unpacked_bits field = unat (f_bits BKEY_FORMAT_CURRENT ! field)"

definition unpacked_max :: "nat \<Rightarrow> u64" where
  "unpacked_max field =
     (if unpacked_bits field = 64 then - 1 else push_bit (unpacked_bits field) 1 - 1)"

definition set_format_field :: "bkey_format \<Rightarrow> nat \<Rightarrow> nat \<Rightarrow> u64 \<Rightarrow> bkey_format" where
  "set_format_field f field bits off =
     (let bits = min bits (unpacked_bits field);
          off = (if bits = unpacked_bits field then 0
                 else min off (unpacked_max field - (push_bit bits 1 - 1)))
      in f\<lparr>f_bits := (f_bits f)[field := of_nat bits], f_offset := (f_offset f)[field := off]\<rparr>)"

fun format_done_widths ::
    "nat list \<Rightarrow> bkey_format_state \<Rightarrow> bkey_format \<Rightarrow> nat \<Rightarrow> bkey_format_state \<times> bkey_format \<times> nat" where
  "format_done_widths [] st f bits = (st, f, bits)"
| "format_done_widths (i # is) st f bits =
     (let st = st\<lparr>fs_min := (fs_min st)[i := min (fs_min st ! i) (fs_max st ! i)]\<rparr>;
          f = set_format_field f i (64 - leading_zeros (fs_max st ! i - fs_min st ! i)) (fs_min st ! i)
      in format_done_widths is st f (bits + unat (f_bits f ! i)))"

fun format_done_align :: "nat list \<Rightarrow> bkey_format \<Rightarrow> nat \<Rightarrow> bkey_format" where
  "format_done_align [] f bits = f"
| "format_done_align (i # is) f bits =
     (let b = unat (f_bits f ! i);
          rounded = (b + 7) div 8 * 8;
          extra = rounded - b
      in if extra \<le> bits
         then format_done_align is (set_format_field f i (b + extra) (f_offset f ! i)) (bits - extra)
         else format_done_align is f bits)"

definition bch2_bkey_format_done :: "bkey_format_state \<Rightarrow> bkey_format_state \<times> bkey_format" where
  "bch2_bkey_format_done st =
     (let f = \<lparr>f_key_u64s = 0, f_nr_fields = 6, f_bits = replicate 6 0, f_offset = replicate 6 0\<rparr>;
          (st, f, bits) = format_done_widths [0, 1, 2, 3, 4, 5] st f KEY_PACKED_BITS_START;
          key_u64s = (bits + 63) div 64;
          f = f\<lparr>f_key_u64s := of_nat key_u64s\<rparr>;
          bits = unat (f_key_u64s f) * 64 - bits
      in (st, format_done_align [0, 1, 2, 3, 4, 5] f bits))"

definition bch2_bkey_format_field_overflows :: "bkey_format \<Rightarrow> nat \<Rightarrow> bool" where
  "bch2_bkey_format_field_overflows f i =
     (let format_bits = unat (f_bits f ! i);
          field_offset = f_offset f ! i
      in if format_bits > unpacked_bits i then True
         else if format_bits = unpacked_bits i \<and> field_offset \<noteq> 0 then True
         else let format_mask =
                (if format_bits = 0 then 0
                 else if format_bits = 64 then - 1 else push_bit format_bits 1 - 1)
              in (field_offset + format_mask) AND unpacked_max i < field_offset)"

text \<open>
  \<^verbatim>\<open>bch2_compute_bkey_unpack_consts\<close> on a little-endian target: per field the byte offset
  and right shift of an unaligned load, and whether every field is byte aligned. The
  fields after the first misaligned one keep their previous constants.
\<close>

record bkey_unpack_field =
  uf_byte_offset :: int
  uf_shift_right :: nat

fun unpack_consts_loop ::
    "bkey_format \<Rightarrow> nat list \<Rightarrow> nat \<Rightarrow> bkey_unpack_field list \<Rightarrow> (bool \<times> bkey_unpack_field list) option" where
  "unpack_consts_loop f [] bit_offset uf = Some (True, uf)"
| "unpack_consts_loop f (i # is) bit_offset uf =
     (let uf = uf[i := \<lparr>uf_byte_offset = 0, uf_shift_right = 64\<rparr>];
          bits = unat (f_bits f ! i)
      in if bits = 0 then unpack_consts_loop f is bit_offset uf
         else if bits > 64 then Some (False, uf)
         else do {
           require (bits \<le> bit_offset);
           let bit_offset = bit_offset - bits;
           let msb = bit_offset + bits - 1;
           if msb mod 8 \<noteq> 7 then Some (False, uf)
           else unpack_consts_loop f is bit_offset
                  (uf[i := \<lparr>uf_byte_offset = (int msb + 1) div 8 - 8, uf_shift_right = 64 - bits\<rparr>]) })"

definition bch2_compute_bkey_unpack_consts ::
    "bkey_format \<Rightarrow> bkey_unpack_field list \<Rightarrow> (bool \<times> bkey_unpack_field list) option" where
  "bch2_compute_bkey_unpack_consts f uf =
     unpack_consts_loop f [0, 1, 2, 3, 4, 5] (unat (f_key_u64s f) * 64) uf"

section \<open>One field of a format\<close>

lemma unpacked_bits_simps [simp]:
  "unpacked_bits 0 = 64" "unpacked_bits (Suc 0) = 64" "unpacked_bits 2 = 32" "unpacked_bits 3 = 32"
  "unpacked_bits 4 = 32" "unpacked_bits 5 = 64"
  by (simp_all add: unpacked_bits_def BKEY_FORMAT_CURRENT_def)

lemma less6_cases: "i < 6 \<Longrightarrow> i \<in> {0, Suc 0, 2, 3, 4, 5 :: nat}"
  by auto

lemma unpacked_bits_le: "i < 6 \<Longrightarrow> unpacked_bits i \<le> 64"
  using less6_cases [of i] by auto

lemma unat_pow2_minus1: "b < 64 \<Longrightarrow> unat (2 ^ b - 1 :: u64) = 2 ^ b - 1"
  using unat_mask_small [where 'a = 64, of b] by (simp add: mask_eq_decr_exp)

lemma unat_unpacked_max: "i < 6 \<Longrightarrow> unat (unpacked_max i) = 2 ^ unpacked_bits i - 1"
  using less6_cases [of i]
  by (auto simp: unpacked_max_def unat_pow2_minus1 unat_minus1)

lemma set_format_field_bits:
  assumes "i < 6" "length (f_bits f) = 6"
  shows "unat (f_bits (set_format_field f i b off) ! i) = min b (unpacked_bits i)"
  using assms unpacked_bits_le [OF assms(1)]
  by (simp add: set_format_field_def Let_def unat_of_nat_small)

lemma field_fits_nat:
  "field_fits f i v \<longleftrightarrow>
     unat (f_offset f ! i) \<le> unat v \<and> unat v < unat (f_offset f ! i) + 2 ^ unat (f_bits f ! i)"
  by (auto simp: field_fits_def bit_len_le_iff word_le_nat_alt unat_sub less_diff_conv2 add.commute)

lemma set_format_field_other:
  assumes "i \<noteq> j"
  shows "f_bits (set_format_field f i b off) ! j = f_bits f ! j"
    and "f_offset (set_format_field f i b off) ! j = f_offset f ! j"
  using assms by (simp_all add: set_format_field_def Let_def)

text \<open>A field is sound if every value it can hold is a value of the unpacked field.\<close>

definition field_sound :: "bkey_format \<Rightarrow> nat \<Rightarrow> bool" where
  "field_sound f i \<longleftrightarrow> unat (f_bits f ! i) \<le> unpacked_bits i \<and>
     unat (f_offset f ! i) + 2 ^ unat (f_bits f ! i) \<le> 2 ^ unpacked_bits i"

lemma unat_cap:
  assumes "i < 6" "b < unpacked_bits i"
  shows "unat (unpacked_max i - (2 ^ b - 1)) = 2 ^ unpacked_bits i - 2 ^ b"
proof -
  have b: "b < 64" using assms unpacked_bits_le [OF assms(1)] by simp
  have pw: "(2::nat) ^ b \<le> 2 ^ unpacked_bits i" using assms(2) by (intro power_increasing) auto
  have "2 ^ b - 1 \<le> unpacked_max i"
    using diff_le_mono [OF pw, of 1]
    by (simp add: word_le_nat_alt unat_pow2_minus1 [OF b] unat_unpacked_max [OF assms(1)])
  then show ?thesis
    using pw by (simp add: unat_sub unat_pow2_minus1 [OF b] unat_unpacked_max [OF assms(1)])
qed

lemma set_format_field_offset:
  assumes "i < 6" "length (f_offset f) = 6"
  shows "unat (f_offset (set_format_field f i b off) ! i) =
     (if unpacked_bits i \<le> b then 0 else min (unat off) (2 ^ unpacked_bits i - 2 ^ b))"
  using assms unat_cap [OF assms(1), of b]
  by (auto simp: set_format_field_def Let_def min_def word_le_nat_alt)

lemma set_format_field_fits:
  assumes i: "i < 6" and len: "length (f_bits f) = 6" "length (f_offset f) = 6"
    and v: "unat v < 2 ^ unpacked_bits i" "unat off \<le> unat v" "unat v < unat off + 2 ^ b"
  shows "field_fits (set_format_field f i b off) i v"
proof (cases "unpacked_bits i \<le> b")
  case True
  with v(1) i len show ?thesis
    by (simp add: field_fits_nat set_format_field_bits set_format_field_offset)
next
  case False
  then have "(2::nat) ^ b \<le> 2 ^ unpacked_bits i" by (intro power_increasing) auto
  with False v i len show ?thesis
    by (auto simp: field_fits_nat set_format_field_bits set_format_field_offset min_def)
qed

lemma set_format_field_sound:
  assumes "i < 6" "length (f_bits f) = 6" "length (f_offset f) = 6"
  shows "field_sound (set_format_field f i b off) i"
proof (cases "unpacked_bits i \<le> b")
  case True
  with assms show ?thesis by (simp add: field_sound_def set_format_field_bits set_format_field_offset)
next
  case False
  then have pw: "(2::nat) ^ b \<le> 2 ^ unpacked_bits i" by (intro power_increasing) auto
  with False assms show ?thesis
    by (auto simp: field_sound_def set_format_field_bits set_format_field_offset min_def
        le_diff_conv2 [OF pw])
qed

lemma set_format_field_frame [simp]:
  "length (f_bits (set_format_field f i b off)) = length (f_bits f)"
  "length (f_offset (set_format_field f i b off)) = length (f_offset f)"
  "f_key_u64s (set_format_field f i b off) = f_key_u64s f"
  "f_nr_fields (set_format_field f i b off) = f_nr_fields f"
  by (simp_all add: set_format_field_def Let_def)

section \<open>Collecting keys\<close>

text \<open>\<open>covers st vs\<close>: the recorded ranges contain the field values \<open>vs\<close>.\<close>

definition covers :: "bkey_format_state \<Rightarrow> u64 list \<Rightarrow> bool" where
  "covers st vs \<longleftrightarrow> (\<forall>i<6. fs_min st ! i \<le> vs ! i \<and> vs ! i \<le> fs_max st ! i)"

definition state_shape :: "bkey_format_state \<Rightarrow> bool" where
  "state_shape st \<longleftrightarrow> length (fs_min st) = 6 \<and> length (fs_max st) = 6"

lemma state_shape_init [simp]: "state_shape bch2_bkey_format_init"
  by (simp add: state_shape_def bch2_bkey_format_init_def)

lemma state_shape_add [simp]: "state_shape st \<Longrightarrow> state_shape (raw_bkey_format_add st i v)"
  by (simp add: state_shape_def raw_bkey_format_add_def)

lemma state_shape_add_values [simp]: "state_shape st \<Longrightarrow> state_shape (format_add_values st i vs)"
  by (induction vs arbitrary: st i) auto

lemma add_range_mono:
  "fs_min (raw_bkey_format_add st i v) ! j \<le> fs_min st ! j"
  "fs_max st ! j \<le> fs_max (raw_bkey_format_add st i v) ! j"
  by (simp_all add: raw_bkey_format_add_def nth_list_update_if)

lemma add_values_mono:
  "fs_min (format_add_values st i vs) ! j \<le> fs_min st ! j"
  "fs_max st ! j \<le> fs_max (format_add_values st i vs) ! j"
  by (induction vs arbitrary: st i) (simp_all, (meson add_range_mono order_trans)+)

lemma covers_add: "covers st vs \<Longrightarrow> covers (raw_bkey_format_add st i v) vs"
  by (auto simp: covers_def intro: order_trans add_range_mono)

lemma covers_add_values: "covers st vs \<Longrightarrow> covers (format_add_values st i ws) vs"
  by (induction ws arbitrary: st i) (auto simp: covers_add)

lemma add_values_range:
  assumes "state_shape st" "i + length vs = 6" "j < 6" "i \<le> j"
  shows "fs_min (format_add_values st i vs) ! j \<le> vs ! (j - i) \<and>
     vs ! (j - i) \<le> fs_max (format_add_values st i vs) ! j"
  using assms
proof (induction vs arbitrary: st i)
  case (Cons v vs)
  show ?case
  proof (cases "i = j")
    case True
    from Cons.prems True have
      "fs_min (raw_bkey_format_add st i v) ! j \<le> v" "v \<le> fs_max (raw_bkey_format_add st i v) ! j"
      by (simp_all add: raw_bkey_format_add_def state_shape_def)
    with True show ?thesis by (auto intro: order_trans add_values_mono)
  next
    case False
    with Cons.prems Cons.IH [of "raw_bkey_format_add st i v" "Suc i"] show ?thesis
      by (simp add: nth_Cons')
  qed
qed simp

lemma covers_add_key:
  "state_shape st \<Longrightarrow> covers (bch2_bkey_format_add_key st k) (bkey_field_values k)"
  using add_values_range [of st 0 "bkey_field_values k"]
  by (auto simp: covers_def bch2_bkey_format_add_key_def bkey_field_values_def)

lemma fold_add_key:
  assumes "state_shape st" "k \<in> set ks \<or> covers st (bkey_field_values k)"
  shows "state_shape (fold (\<lambda>k st. bch2_bkey_format_add_key st k) ks st) \<and>
     covers (fold (\<lambda>k st. bch2_bkey_format_add_key st k) ks st) (bkey_field_values k)"
  using assms
proof (induction ks arbitrary: st)
  case (Cons a ks)
  have "state_shape (bch2_bkey_format_add_key st a)"
    using Cons.prems(1) by (simp add: bch2_bkey_format_add_key_def)
  moreover have "k \<in> set ks \<or> covers (bch2_bkey_format_add_key st a) (bkey_field_values k)"
    using Cons.prems covers_add_key [of st a] covers_add_values [of st "bkey_field_values k"]
    by (auto simp: bch2_bkey_format_add_key_def)
  ultimately show ?case using Cons.IH by simp
qed simp

section \<open>Choosing the format\<close>

abbreviation width :: "bkey_format \<Rightarrow> nat \<Rightarrow> nat" where
  "width f i \<equiv> unat (f_bits f ! i)"

definition format_shape :: "bkey_format \<Rightarrow> bool" where
  "format_shape f \<longleftrightarrow> length (f_bits f) = 6 \<and> length (f_offset f) = 6"

lemma format_shape_set [simp]: "format_shape (set_format_field f i b off) = format_shape f"
  by (simp add: format_shape_def)

lemma format_done_widths_ok:
  assumes "distinct is" "set is \<subseteq> {..<6}" "state_shape st" "format_shape f"
    and "format_done_widths is st f bits = (st', f', bits')"
  shows "format_shape f' \<and> f_key_u64s f' = f_key_u64s f \<and> f_nr_fields f' = f_nr_fields f \<and>
     (\<forall>i. i \<notin> set is \<longrightarrow> f_bits f' ! i = f_bits f ! i \<and> f_offset f' ! i = f_offset f ! i) \<and>
     (\<forall>i\<in>set is. field_sound f' i \<and>
        (\<forall>v. fs_min st ! i \<le> v \<and> v \<le> fs_max st ! i \<and> unat v < 2 ^ unpacked_bits i \<longrightarrow> field_fits f' i v)) \<and>
     bits' = bits + sum_list (map (width f') is)"
  using assms
proof (induction "is" arbitrary: st f bits)
  case (Cons i js)
  define m where "m = min (fs_min st ! i) (fs_max st ! i)"
  define st1 where "st1 = st\<lparr>fs_min := (fs_min st)[i := m]\<rparr>"
  define b where "b = bit_len (unat (fs_max st ! i - m))"
  define f1 where "f1 = set_format_field f i b m"
  have i: "i < 6" "i \<notin> set js" and js: "distinct js" "set js \<subseteq> {..<6}" using Cons.prems by auto
  have run: "format_done_widths js st1 f1 (bits + width f1 i) = (st', f', bits')"
    using Cons.prems(5) Cons.prems(3) i(1)
    by (simp add: Let_def st1_def f1_def b_def m_def state_shape_def
        sub_leading_zeros [where 'a = 64, simplified])
  have sh: "state_shape st1" "format_shape f1" using Cons.prems by (simp_all add: st1_def state_shape_def f1_def)
  have len: "length (f_bits f) = 6" "length (f_offset f) = 6" using Cons.prems(4) by (simp_all add: format_shape_def)
  note IH = Cons.IH [OF js sh run]
  have w: "field_sound f1 i" using i len by (simp add: f1_def set_format_field_sound)
  have mx: "m \<le> fs_max st ! i" by (simp add: m_def)
  have fit: "field_fits f1 i v"
    if v: "fs_min st ! i \<le> v" "v \<le> fs_max st ! i" "unat v < 2 ^ unpacked_bits i" for v
    unfolding f1_def
  proof (rule set_format_field_fits [OF i(1) len v(3)])
    have "m \<le> v" using v(1) by (simp add: m_def min.coboundedI1)
    then show "unat m \<le> unat v" by (simp add: word_le_nat_alt)
    show "unat v < unat m + 2 ^ b"
      using less_power_bit_len [of "unat (fs_max st ! i - m)"] mx v(2) \<open>m \<le> v\<close>
      by (simp add: b_def unat_sub word_le_nat_alt)
  qed
  have other: "f_bits f1 ! j = f_bits f ! j \<and> f_offset f1 ! j = f_offset f ! j" if "j \<noteq> i" for j
    using that set_format_field_other [of i j f] by (simp add: f1_def)
  have same: "fs_min st1 ! j = fs_min st ! j \<and> fs_max st1 ! j = fs_max st ! j" if "j \<in> set js" for j
    using that i(2) by (auto simp: st1_def nth_list_update_if)
  have keys: "f_key_u64s f1 = f_key_u64s f" "f_nr_fields f1 = f_nr_fields f" by (simp_all add: f1_def)
  have here: "f_bits f' ! i = f_bits f1 ! i" "f_offset f' ! i = f_offset f1 ! i" using IH i(2) by auto
  then have "field_sound f' i" "\<And>v. field_fits f' i v = field_fits f1 i v"
    using w by (auto simp: field_sound_def field_fits_def)
  then show ?case using IH i fit other same keys here by (auto simp: Ball_def)
qed auto

lemma format_done_align_ok:
  assumes "distinct is" "set is \<subseteq> {..<6}" "format_shape f" "\<forall>i\<in>set is. field_sound f i"
    and "format_done_align is f bits = f'"
  shows "format_shape f' \<and> f_key_u64s f' = f_key_u64s f \<and> f_nr_fields f' = f_nr_fields f \<and>
     (\<forall>i. i \<notin> set is \<longrightarrow> f_bits f' ! i = f_bits f ! i \<and> f_offset f' ! i = f_offset f ! i) \<and>
     (\<forall>i v. field_fits f i v \<and> unat v < 2 ^ unpacked_bits i \<longrightarrow> field_fits f' i v) \<and>
     (\<forall>i\<in>set is. field_sound f' i) \<and>
     sum_list (map (width f') is) \<le> sum_list (map (width f) is) + bits"
  using assms
proof (induction "is" arbitrary: f bits)
  case (Cons i js)
  define b where "b = width f i"
  define x where "x = (b + 7) div 8 * 8 - b"
  have i: "i < 6" "i \<notin> set js" and js: "distinct js" "set js \<subseteq> {..<6}" using Cons.prems by auto
  have len: "length (f_bits f) = 6" "length (f_offset f) = 6" using Cons.prems(3) by (simp_all add: format_shape_def)
  show ?case
  proof (cases "x \<le> bits")
    case True
    define f1 where "f1 = set_format_field f i (b + x) (f_offset f ! i)"
    have run: "format_done_align js f1 (bits - x) = f'"
      using Cons.prems(5) True by (simp add: Let_def x_def b_def f1_def)
    have other: "\<And>j. j \<noteq> i \<Longrightarrow> f_bits f1 ! j = f_bits f ! j"
        "\<And>j. j \<noteq> i \<Longrightarrow> f_offset f1 ! j = f_offset f ! j"
      using set_format_field_other [of i _ f] by (auto simp: f1_def)
    have w1: "field_sound f1 i" "width f1 i \<le> b + x"
      using i len by (simp_all add: f1_def set_format_field_bits set_format_field_sound)
    have fit: "field_fits f1 i v" if "field_fits f i v" "unat v < 2 ^ unpacked_bits i" for v
    proof -
      have "(2::nat) ^ b \<le> 2 ^ (b + x)" by (intro power_increasing) auto
      with that(1) have "unat (f_offset f ! i) \<le> unat v" "unat v < unat (f_offset f ! i) + 2 ^ (b + x)"
        unfolding field_fits_nat b_def by linarith+
      then show ?thesis
        unfolding f1_def by (intro set_format_field_fits [OF i(1) len that(2)])
    qed
    have "field_sound f1 j" if "j \<in> set js" for j
      using that Cons.prems(4) i(2) by (cases "j = i") (auto simp: other field_sound_def)
    then have pre: "\<forall>j\<in>set js. field_sound f1 j" "format_shape f1" "f_key_u64s f1 = f_key_u64s f"
        "f_nr_fields f1 = f_nr_fields f"
      using Cons.prems(3) by (auto simp: f1_def)
    note IH = Cons.IH [OF js pre(2,1) run]
    have sums: "map (width f1) js = map (width f) js"
      using i(2) by (auto intro!: arg_cong [where f = unat] other(1))
    have wi: "f_bits f' ! i = f_bits f1 ! i" "f_offset f' ! i = f_offset f1 ! i" using IH i(2) by auto
    then have "field_sound f' i" using w1(1) by (simp add: field_sound_def)
    moreover have "field_fits f' j v" if "field_fits f j v" "unat v < 2 ^ unpacked_bits j" for j v
      using IH that fit other by (cases "j = i") (auto simp: field_fits_def)
    ultimately show ?thesis
      using IH other w1 wi pre(3,4) True sums b_def by auto
  next
    case False
    then have "format_done_align js f bits = f'" using Cons.prems(5) by (simp add: Let_def x_def b_def)
    with Cons.IH [OF js Cons.prems(3), of bits] Cons.prems(4) i show ?thesis
      by (auto simp: field_sound_def)
  qed
qed auto

lemma fields_fit_iff: "fields_fit f i vs \<longleftrightarrow> (\<forall>j<length vs. field_fits f (i + j) (vs ! j))"
proof (induction vs arbitrary: i)
  case (Cons v vs)
  show ?case
    unfolding fields_fit.simps Cons.IH by (auto simp: nth_Cons' less_Suc_eq_0_disj)
qed simp

lemma bkey_field_values_bounded: "i < 6 \<Longrightarrow> unat (bkey_field_values k ! i) < 2 ^ unpacked_bits i"
  using less6_cases [of i]
    unsigned_less [where 'a = nat, of "snapshot (k_p k)"] unsigned_less [where 'a = nat, of "k_size k"]
    unsigned_less [where 'a = nat, of "v_hi (k_bversion k)"] unsigned_less [where 'a = nat, of "inode (k_p k)"]
    unsigned_less [where 'a = nat, of "offset (k_p k)"] unsigned_less [where 'a = nat, of "v_lo (k_bversion k)"]
  by (auto simp: bkey_field_values_def unat_ucast_up)

lemma sum_widths: "format_shape f \<Longrightarrow> sum_list (map unat (f_bits f)) = sum_list (map (width f) [0, 1, 2, 3, 4, 5])"
proof -
  assume "format_shape f"
  then have "map unat (f_bits f) = map (width f) [0..<6]"
    by (intro nth_equalityI) (auto simp: format_shape_def)
  moreover have "[0..<6] = [0, 1, 2, 3, 4, 5 :: nat]" by (simp add: upt_rec)
  ultimately show ?thesis by (simp only:)
qed

lemma bch2_bkey_format_done_ok:
  assumes st: "state_shape st" and run: "bch2_bkey_format_done st = (st', f)"
  shows "format_valid f" "\<And>i. i < 6 \<Longrightarrow> field_sound f i"
    "\<And>i v. i < 6 \<Longrightarrow> fs_min st ! i \<le> v \<Longrightarrow> v \<le> fs_max st ! i \<Longrightarrow> unat v < 2 ^ unpacked_bits i \<Longrightarrow>
       field_fits f i v"
proof -
  note format_done_widths.simps [simp del] format_done_align.simps [simp del]
  let ?is = "[0, 1, 2, 3, 4, 5] :: nat list"
  define f0 where "f0 = \<lparr>f_key_u64s = 0, f_nr_fields = 6, f_bits = replicate 6 0, f_offset = replicate 6 0\<rparr>"
  obtain st1 f1 bits where w: "format_done_widths ?is st f0 24 = (st1, f1, bits)" by (metis prod_cases3)
  define k where "k = (bits + 63) div 64"
  define f2 where "f2 = f1\<lparr>f_key_u64s := of_nat k\<rparr>"
  have f: "f = format_done_align ?is f2 (unat (of_nat k :: u8) * 64 - bits)"
    using run w unfolding bch2_bkey_format_done_def
    by (simp add: KEY_PACKED_BITS_START_def f0_def Let_def f2_def k_def)
  have dist: "distinct ?is" "set ?is \<subseteq> {..<6}" by simp_all
  have is6: "i \<in> set ?is" if "i < 6" for i using less6_cases [OF that] by auto
  have f0: "format_shape f0" by (simp add: format_shape_def f0_def)
  note W = format_done_widths_ok [OF dist st f0 w]
  have le: "sum_list (map (width f1) ?is) \<le> 64 + 64 + 32 + 32 + 32 + 64"
    using W by (simp add: field_sound_def)
  have bits: "bits = 24 + sum_list (map (width f1) ?is)" using W by (elim conjE)
  have k: "0 < k" "k \<le> 5" "bits \<le> k * 64" using le unfolding bits k_def by linarith+
  then have uk: "unat (of_nat k :: u8) = k" by (simp add: unat_of_nat_small)
  have f2: "format_shape f2" "\<forall>i\<in>set ?is. field_sound f2 i" "f_nr_fields f2 = 6"
    using W by (auto simp: f2_def format_shape_def field_sound_def f0_def)
  note A = format_done_align_ok [OF dist f2(1,2) f [symmetric]]
  show sound: "field_sound f i" if "i < 6" for i using A is6 [OF that] by blast
  have "sum_list (map unat (f_bits f)) \<le> sum_list (map (width f2) ?is) + (unat (of_nat k :: u8) * 64 - bits)"
    using A sum_widths by metis
  also have "map (width f2) ?is = map (width f1) ?is" by (simp add: f2_def)
  finally have "24 + sum_list (map unat (f_bits f)) \<le> 64 * k" using bits k uk by linarith
  moreover have "list_all (\<lambda>b. b \<le> 64) (f_bits f)"
  proof (unfold list_all_length, intro allI impI)
    fix n assume "n < length (f_bits f)"
    then have "n < 6" using A by (simp add: format_shape_def)
    from sound [OF this] unpacked_bits_le [OF this] show "f_bits f ! n \<le> 64"
      by (simp add: field_sound_def word_le_nat_alt)
  qed
  moreover have "f_key_u64s f = of_nat k" "f_nr_fields f = 6" "format_shape f"
    using A f2(3) by (auto simp: f2_def)
  moreover have "(of_nat k :: u8) \<noteq> 0" using uk k(1) by (metis not_less_zero unat_0)
  ultimately show "format_valid f"
    using k uk by (simp add: format_valid_def code_consts format_shape_def)
  show "field_fits f i v" if "i < 6" "fs_min st ! i \<le> v" "v \<le> fs_max st ! i" "unat v < 2 ^ unpacked_bits i" for i v
  proof -
    have "field_fits f1 i v" using W is6 [OF that(1)] that by blast
    then have "field_fits f2 i v" by (simp add: f2_def field_fits_def)
    with A that(4) show ?thesis by blast
  qed
qed

lemma field_sound_no_overflow:
  assumes "i < 6" "field_sound f i"
  shows "\<not> bch2_bkey_format_field_overflows f i"
proof -
  let ?b = "unat (f_bits f ! i)" and ?o = "f_offset f ! i" and ?m = "if unat (f_bits f ! i) = 0 then 0
     else if unat (f_bits f ! i) = 64 then - 1 else push_bit (unat (f_bits f ! i)) (1 :: u64) - 1"
  have s: "?b \<le> unpacked_bits i" "unat ?o + 2 ^ ?b \<le> 2 ^ unpacked_bits i" "unpacked_bits i \<le> 64"
    using assms unpacked_bits_le by (auto simp: field_sound_def)
  have m: "unat ?m = 2 ^ ?b - 1"
    using s by (auto simp: unat_pow2_minus1 unat_minus1)
  have pw: "(2::nat) ^ unpacked_bits i \<le> 2 ^ 64" using s(3) by (intro power_increasing) auto
  have lt: "unat ?o + unat ?m < 2 ^ unpacked_bits i" 
  proof -
    have "0 < (2::nat) ^ ?b" by simp
    with s(2) m show ?thesis by linarith
  qed
  then have sum: "unat (?o + ?m) = unat ?o + unat ?m"
    using pw by (intro unat_add_lem [THEN iffD1]) simp
  have mask: "unpacked_max i = mask (unpacked_bits i)"
    using less6_cases [OF assms(1)] by (auto simp: unpacked_max_def mask_eq_decr_exp)
  have "(?o + ?m) AND unpacked_max i = ?o + ?m"
    unfolding mask take_bit_eq_mask [symmetric]
    by (simp only: word_unat_eq_iff unsigned_take_bit_eq sum take_bit_nat_eq_self [OF lt])
  moreover have "?b = unpacked_bits i \<Longrightarrow> ?o = 0" using s(2) by (simp add: unat_eq_zero [symmetric])
  moreover have "?o \<le> ?o + ?m" by (simp add: word_le_nat_alt sum)
  ultimately show ?thesis
    using s(1) by (auto simp: bch2_bkey_format_field_overflows_def Let_def)
qed

section \<open>The chosen format packs every collected key\<close>

text \<open>
  C26: the format computed by \<^verbatim>\<open>bch2_bkey_format_done\<close> from a state to which the keys \<open>ks\<close> were added
  is a valid packed format none of whose fields overflows the unpacked key, and every one of
  those keys packs in it and unpacks to itself.
\<close>

theorem bkey_format_done_packs_all:
  assumes "bch2_bkey_format_done (fold (\<lambda>k st. bch2_bkey_format_add_key st k) ks bch2_bkey_format_init) = (st, f)"
    and "k \<in> set ks" "k_format k AND 0x7f = KEY_FORMAT_CURRENT" "BKEY_U64S \<le> unat (k_u64s k)"
    and "length out = BKEY_PACKED_WORDS"
  shows "format_valid f \<and> (\<forall>i<6. \<not> bch2_bkey_format_field_overflows f i) \<and>
    (\<exists>ws. bch2_bkey_pack_key out k f = Some (True, ws) \<and>
       raw_bch2_bkey_unpack_key f ws = Some (k\<lparr>k_pad := 0\<rparr>))"
proof -
  let ?st = "fold (\<lambda>k st. bch2_bkey_format_add_key st k) ks bch2_bkey_format_init"
  have st: "state_shape ?st" "covers ?st (bkey_field_values k)"
    using fold_add_key [of bch2_bkey_format_init k ks] assms(2) by auto
  note fd = bch2_bkey_format_done_ok [OF st(1) assms(1)]
  have len: "unat (f_key_u64s f) \<le> BKEY_PACKED_WORDS" using fd(1) by (simp add: format_valid_def)
  have fit: "fields_fit f 0 (bkey_field_values k)"
    using st(2) fd(3) bkey_field_values_bounded [of _ k]
    by (simp add: fields_fit_iff covers_def) (simp add: bkey_field_values_def)
  have hdr: "bkey_header_ok f k"
    using assms(3,4) len unsigned_less [where 'a = nat, of "k_u64s k"]
    by (simp add: bkey_header_ok_def code_consts)
  obtain ws where "bch2_bkey_pack_key out k f = Some (True, ws)"
    using bch2_bkey_pack_key_cases [OF fd(1) _ hdr, of out] fit len assms(5) by auto
  with pack_unpack_key [OF fd(1) _ hdr this] fd field_sound_no_overflow len assms(5) show ?thesis
    by auto
qed

theorem bkey_format_done_packs_all_witness:
  "\<exists>st f ws. bch2_bkey_format_done (fold (\<lambda>k st. bch2_bkey_format_add_key st k) [sample_key, bkey_init]
       bch2_bkey_format_init) = (st, f) \<and>
     bch2_bkey_pack_key (replicate 5 0) sample_key f = Some (True, ws)"
proof -
  obtain st f where run: "bch2_bkey_format_done (fold (\<lambda>k st. bch2_bkey_format_add_key st k)
      [sample_key, bkey_init] bch2_bkey_format_init) = (st, f)" by fastforce
  from bkey_format_done_packs_all [OF run, of sample_key "replicate 5 0"] run show ?thesis
    by (auto simp: sample_key_def bkey_init_def code_consts)
qed

end
