(* ===== verification/Bkey_Lossy.thy ===== *)
theory Bkey_Lossy
  imports Bkey_Format
begin

text \<open>
  Packing search positions. \<^verbatim>\<open>bch2_bkey_pack_pos_lossy\<close> of \<^verbatim>\<open>btree/bkey.rs\<close> rounds a position down
  to one the node's format can represent. This theory shows that the rounding is exact: the
  packed position is the greatest representable one that is not above the input, and the
  function fails exactly when there is none.
\<close>

section \<open>One field\<close>

text \<open>The greatest value of a field that is not above \<open>v\<close>, for \<open>v\<close> not below the field's offset.\<close>

definition clamp_field :: "bkey_format \<Rightarrow> nat \<Rightarrow> u64 \<Rightarrow> u64" where
  "clamp_field f i v = (if field_fits f i v then v else f_offset f ! i + mask (unat (f_bits f ! i)))"

lemma clamp_field_overflow:
  assumes "f_offset f ! i \<le> v" "\<not> field_fits f i v"
  shows "unat (f_bits f ! i) < 64"
    and "Suc (unat (f_offset f ! i + mask (unat (f_bits f ! i)))) = unat (f_offset f ! i) + 2 ^ unat (f_bits f ! i)"
    and "unat (f_offset f ! i) + 2 ^ unat (f_bits f ! i) \<le> unat v"
proof -
  show le: "unat (f_offset f ! i) + 2 ^ unat (f_bits f ! i) \<le> unat v"
    using assms by (simp add: field_fits_nat word_le_nat_alt not_less)
  have v: "unat v < 2 ^ 64" using unsigned_less [where 'a = nat, of v] by simp
  with le have "(2::nat) ^ unat (f_bits f ! i) < 2 ^ 64" by linarith
  then show b: "unat (f_bits f ! i) < 64" by (simp only: power_strict_increasing_iff)
  show "Suc (unat (f_offset f ! i + mask (unat (f_bits f ! i)))) = unat (f_offset f ! i) + 2 ^ unat (f_bits f ! i)"
    using le v b by (subst unat_add_lem [THEN iffD1]) (simp_all add: unat_mask_small)
qed

lemma clamp_field_le: "f_offset f ! i \<le> v \<Longrightarrow> clamp_field f i v \<le> v"
  using clamp_field_overflow [of f i v] by (auto simp: clamp_field_def word_le_nat_alt)

lemma clamp_field_eq: "f_offset f ! i \<le> v \<Longrightarrow> clamp_field f i v = v \<longleftrightarrow> field_fits f i v"
  using clamp_field_overflow [of f i v] by (auto simp: clamp_field_def)

lemma clamp_field_fits: "f_offset f ! i \<le> v \<Longrightarrow> field_fits f i (clamp_field f i v)"
proof -
  assume le: "f_offset f ! i \<le> v"
  have pos: "0 < (2::nat) ^ unat (f_bits f ! i)" by simp
  show ?thesis
  proof (cases "field_fits f i v")
    case False
    show ?thesis
      unfolding clamp_field_def if_not_P [OF False] unfolding field_fits_nat
      using clamp_field_overflow(2) [OF le False] pos by linarith
  qed (simp add: clamp_field_def)
qed

lemma clamp_field_greatest: "f_offset f ! i \<le> v \<Longrightarrow> field_fits f i u \<Longrightarrow> u \<le> v \<Longrightarrow> u \<le> clamp_field f i v"
  using clamp_field_overflow(2) [of f i v]
  by (auto simp: clamp_field_def) (auto simp: field_fits_nat word_le_nat_alt)

lemma set_inc_field_lossy_eq:
  assumes "f_offset f ! i \<le> v" "unat (f_bits f ! i) \<le> 64"
  shows "set_inc_field_lossy f st i v =
     map_option (\<lambda>(_, st). (field_fits f i v, st)) (set_inc_field f st i (clamp_field f i v))"
proof (cases "field_fits f i v")
  case True
  then show ?thesis
    using assms by (simp add: set_inc_field_fits set_inc_field_lossy_def clamp_field_def Let_def
        sub_leading_zeros [where 'a = 64, simplified] option.map_comp comp_def)
      (auto simp: field_fits_def)
next
  case False
  have b: "unat (f_bits f ! i) < 64" using clamp_field_overflow(1) [OF assms(1) False] .
  then have *: "set_inc_field_lossy f st i v =
      map_option (Pair False) (raw_set_inc_field f st i (mask (unat (f_bits f ! i))))"
    using assms False by (simp add: set_inc_field_lossy_def Let_def field_fits_def shl_def
        sub_leading_zeros [where 'a = 64, simplified] mask_eq_decr_exp flip: not_le)
  show ?thesis
    using clamp_field_fits [OF assms(1)] False
    by (simp add: * set_inc_field_fits option.map_comp comp_def) (simp add: clamp_field_def)
qed

section \<open>The three fields of a position\<close>

definition pos_fits :: "bkey_format \<Rightarrow> bpos \<Rightarrow> bool" where
  "pos_fits f p \<longleftrightarrow> fields_fit f 0 [inode p, offset p, ucast (snapshot p)]"

definition pos_above :: "bkey_format \<Rightarrow> bpos \<Rightarrow> bool" where
  "pos_above f p \<longleftrightarrow> f_offset f ! 0 \<le> inode p \<and> f_offset f ! 1 \<le> offset p \<and> f_offset f ! 2 \<le> ucast (snapshot p)"

lemma pos_fits_iff:
  "pos_fits f p \<longleftrightarrow> field_fits f 0 (inode p) \<and> field_fits f 1 (offset p) \<and> field_fits f 2 (ucast (snapshot p))"
  by (simp add: pos_fits_def eval_nat_numeral)

lemma pos_fits_above: "pos_fits f p \<Longrightarrow> pos_above f p"
  by (simp add: pos_fits_iff pos_above_def field_fits_def)

lemma word_max_greatest [simp]: "x \<le> (- 1 :: 'a::len word)"
  by simp

lemma snapshot_offset_le:
  assumes "field_sound f 2"
  shows "f_offset f ! 2 \<le> ucast (- 1 :: u32)"
proof -
  have "unat (f_offset f ! 2) < 2 ^ 32"
  proof -
    have "0 < (2::nat) ^ unat (f_bits f ! 2)" by simp
    with assms show ?thesis unfolding field_sound_def unpacked_bits_simps by linarith
  qed
  moreover have "unat (ucast (- 1 :: u32) :: u64) = 2 ^ 32 - 1"
    by (subst unat_ucast_up) (simp_all add: unat_minus1)
  ultimately show ?thesis by (simp add: word_le_nat_alt)
qed

lemma word_le_minus1: "x \<noteq> 0 \<Longrightarrow> y \<le> x - 1 \<longleftrightarrow> \<not> x \<le> y" for x y :: "'a::len word"
proof -
  assume "x \<noteq> 0"
  then have "x - 1 \<noteq> - 1" by (metis diff_add_cancel word_plus1_0)
  from word_less_plus1 [OF this, of y] show ?thesis by (simp add: not_le)
qed

lemma ucast_snapshot_le: "(ucast (a :: u32) :: u64) \<le> ucast b \<longleftrightarrow> a \<le> b"
  by (simp add: word_le_nat_alt unat_ucast_up)

lemmas clamp_simps = pos_above_def less_eq_bpos_def less_bpos_def word_le_minus1
  ucast_snapshot_le [symmetric] not_le [symmetric]

lemma bpos_le_alt: "l \<le> r \<longleftrightarrow> inode l < inode r \<or>
    inode l = inode r \<and> (offset l < offset r \<or> offset l = offset r \<and> snapshot l \<le> snapshot r)"
  by (cases l; cases r) (auto simp: less_eq_bpos_def less_bpos_def)

lemma le_pred_inode: "x \<noteq> 0 \<Longrightarrow> r \<le> SPOS (x - 1) (- 1) (- 1) \<longleftrightarrow> inode r < x"
  using word_le_minus1 [of x "inode r"] word_less_minus1 [of "offset r"]
  by (auto simp: bpos_le_alt not_le less_le)

lemma le_pred_offset: "y \<noteq> 0 \<Longrightarrow> r \<le> SPOS x (y - 1) (- 1) \<longleftrightarrow> inode r < x \<or> inode r = x \<and> offset r < y"
  using word_le_minus1 [of y "offset r"] by (auto simp: bpos_le_alt not_le less_le)

lemma clamp_snapshot_None: "clamp_snapshot f p = None \<Longrightarrow> pos_above f r \<Longrightarrow> \<not> r \<le> p"
  by (cases p; cases r) (auto simp: clamp_snapshot_def clamp_simps split: if_splits)

lemma clamp_snapshot_Some:
  assumes "clamp_snapshot f p = Some (q, e)" "field_sound f 2"
  shows "f_offset f ! 2 \<le> ucast (snapshot q)" "q \<le> p" "e \<longleftrightarrow> q = p" "pos_above f r \<Longrightarrow> r \<le> p \<Longrightarrow> r \<le> q"
proof -
  show "f_offset f ! 2 \<le> ucast (snapshot q)"
    using assms(1) snapshot_offset_le [OF assms(2)] by (auto simp: clamp_snapshot_def split: if_splits)
  show "q \<le> p" "e \<longleftrightarrow> q = p"
    using assms(1) by (cases p; auto simp: clamp_snapshot_def clamp_simps split: if_splits)+
  show "r \<le> q" if "pos_above f r" "r \<le> p"
    using assms(1) that 
    by (auto simp: clamp_snapshot_def le_pred_inode le_pred_offset split: if_splits)
      (auto simp: bpos_le_alt pos_above_def ucast_snapshot_le [symmetric])
qed

lemma clamp_offset_None: "clamp_offset f (p, e) = None \<Longrightarrow> pos_above f r \<Longrightarrow> \<not> r \<le> p"
  by (cases p; cases r) (auto simp: clamp_offset_def clamp_simps split: if_splits)

lemma clamp_offset_Some:
  assumes "clamp_offset f (p, e) = Some (q, e')" "field_sound f 2" "f_offset f ! 2 \<le> ucast (snapshot p)"
  shows "f_offset f ! 2 \<le> ucast (snapshot q)" "f_offset f ! 1 \<le> offset q" "q \<le> p"
    "e' \<longleftrightarrow> e \<and> q = p" "pos_above f r \<Longrightarrow> r \<le> p \<Longrightarrow> r \<le> q"
proof -
  show "f_offset f ! 2 \<le> ucast (snapshot q)" "f_offset f ! 1 \<le> offset q"
    using assms(1,3) snapshot_offset_le [OF assms(2)] by (auto simp: clamp_offset_def split: if_splits)
  show "q \<le> p" "e' \<longleftrightarrow> e \<and> q = p"
    using assms(1) by (cases p; auto simp: clamp_offset_def clamp_simps split: if_splits)+
  show "r \<le> q" if "pos_above f r" "r \<le> p"
    using assms(1) that 
    by (auto simp: clamp_offset_def le_pred_inode split: if_splits) (auto simp: bpos_le_alt pos_above_def)
qed

lemma inode_below: "inode q < f_offset f ! 0 \<Longrightarrow> pos_above f r \<Longrightarrow> \<not> r \<le> q"
  by (cases q; cases r) (auto simp: clamp_simps)

lemma pack_pos_clamp_None:
  assumes "pack_pos_clamp f p = None" "field_sound f 2" "pos_fits f r"
  shows "\<not> r \<le> p"
proof
  assume r: "r \<le> p"
  note ab = pos_fits_above [OF assms(3)]
  obtain p1 e1 where 1: "clamp_snapshot f p = Some (p1, e1)"
    using clamp_snapshot_None ab r by (cases "clamp_snapshot f p") auto
  note s = clamp_snapshot_Some [OF 1 assms(2)]
  obtain p2 e2 where 2: "clamp_offset f (p1, e1) = Some (p2, e2)"
    using clamp_offset_None ab s(4) [OF ab r] by (cases "clamp_offset f (p1, e1)") auto
  show False
    using assms(1) 1 2 clamp_offset_Some(5) [OF 2 assms(2) s(1) ab] s(4) [OF ab r] inode_below [of p2 f r] ab
    by (simp add: pack_pos_clamp_def split: if_splits)
qed

lemma pack_pos_clamp_Some:
  assumes run: "pack_pos_clamp f p = Some (q, e)" and f: "field_sound f 2"
  shows "pos_above f q" "q \<le> p" "e \<longleftrightarrow> q = p" "pos_fits f r \<Longrightarrow> r \<le> p \<Longrightarrow> r \<le> q"
proof -
  from run obtain p1 e1 where 1: "clamp_snapshot f p = Some (p1, e1)"
    and 2: "clamp_offset f (p1, e1) = Some (q, e)" and i: "f_offset f ! 0 \<le> inode q"
    by (auto simp: pack_pos_clamp_def not_less split: if_splits bind_splits)
  note s = clamp_snapshot_Some [OF 1 f]
  note t = clamp_offset_Some [OF 2 f s(1)]
  show "pos_above f q" "q \<le> p" "e \<longleftrightarrow> q = p" using s(2,3) t(1-4) i by (auto simp: pos_above_def)
  show "r \<le> q" if "pos_fits f r" "r \<le> p" using pos_fits_above [OF that(1)] that(2) s(4) t(5) by blast
qed

text \<open>Rounding the three fields down, each later field reset to its greatest value once an
  earlier one was rounded.\<close>

definition round_inode :: "bkey_format \<Rightarrow> bpos \<Rightarrow> bpos" where
  "round_inode f p = (if field_fits f 0 (inode p) then p else SPOS (inode p) (- 1) (- 1))"

definition round_offset :: "bkey_format \<Rightarrow> bpos \<Rightarrow> bpos" where
  "round_offset f p = (if field_fits f 1 (offset p) then p else SPOS (inode p) (offset p) (- 1))"

definition round_pos :: "bkey_format \<Rightarrow> bpos \<Rightarrow> bpos" where
  "round_pos f p = (let q = round_offset f (round_inode f p) in
     SPOS (clamp_field f 0 (inode q)) (clamp_field f 1 (offset q)) (ucast (clamp_field f 2 (ucast (snapshot q)))))"

lemma round_above:
  assumes "pos_above f p" "field_sound f 2"
  shows "pos_above f (round_inode f p)" "pos_above f (round_offset f p)"
  using assms snapshot_offset_le [OF assms(2)] by (auto simp: pos_above_def round_inode_def round_offset_def)

lemma ucast_clamp_snapshot:
  assumes "f_offset f ! 2 \<le> ucast (s :: u32)"
  shows "ucast (ucast (clamp_field f 2 (ucast s)) :: u32) = clamp_field f 2 (ucast s)"
proof -
  have "unat (clamp_field f 2 (ucast s)) \<le> unat s"
    using clamp_field_le [OF assms] by (simp add: word_le_nat_alt unat_ucast_up)
  then have "unat (clamp_field f 2 (ucast s)) < 2 ^ 32"
    using unsigned_less [where 'a = nat, of s] by simp
  then show ?thesis
    by (simp add: word_unat_eq_iff unat_ucast_up unsigned_ucast_eq unsigned_take_bit_eq take_bit_nat_eq_self)
qed

lemma ucast_down_mono: "u \<le> ucast (s :: u32) \<Longrightarrow> ucast (u :: u64) \<le> s"
proof -
  assume le: "u \<le> ucast s"
  then have u: "unat u \<le> unat s" by (simp add: word_le_nat_alt unat_ucast_up)
  then have "unat u < 2 ^ 32" using unsigned_less [where 'a = nat, of s] by simp
  then have "unat (ucast u :: u32) = unat u"
    by (simp add: unsigned_ucast_eq unsigned_take_bit_eq take_bit_nat_eq_self)
  with u show ?thesis by (simp add: word_le_nat_alt)
qed

lemma bpos_leI:
  assumes "inode p \<le> i" "inode p = i \<Longrightarrow> offset p \<le> off"
    "inode p = i \<Longrightarrow> offset p = off \<Longrightarrow> snapshot p \<le> s"
  shows "p \<le> SPOS i off s"
  using assms by (auto simp: bpos_le_alt less_le)

lemma snapshot_le_clamp:
  assumes "f_offset f ! 2 \<le> ucast t" "field_fits f 2 (ucast s)" "s \<le> t"
  shows "s \<le> ucast (clamp_field f 2 (ucast (t :: u32)))"
proof -
  have "ucast s \<le> clamp_field f 2 (ucast t)"
    using clamp_field_greatest [OF assms(1,2)] assms(3) by (simp add: ucast_snapshot_le)
  then show ?thesis by (metis ucast_clamp_snapshot [OF assms(1)] ucast_snapshot_le)
qed

lemma round_pos_fits:
  assumes ab: "pos_above f p" and f: "field_sound f 2"
  shows "pos_fits f (round_pos f p)"
  using round_above(2) [OF round_above(1) [OF assms] f]
  by (auto simp: round_pos_def Let_def pos_fits_iff pos_above_def ucast_clamp_snapshot intro: clamp_field_fits)

lemma round_pos_greatest:
  assumes ab: "pos_above f p" and f: "field_sound f 2" and r: "pos_fits f r" "r \<le> p"
  shows "r \<le> round_pos f p"
proof -
  have off: "f_offset f ! 0 \<le> inode p" "f_offset f ! 1 \<le> offset p" "f_offset f ! 2 \<le> ucast (snapshot p)"
    using ab by (auto simp: pos_above_def)
  note snap = snapshot_offset_le [OF f]
  have rf: "field_fits f 0 (inode r)" "field_fits f 1 (offset r)" "field_fits f 2 (ucast (snapshot r))"
    using r(1) by (auto simp: pos_fits_iff)
  have le: "inode r \<le> inode p" "inode r = inode p \<Longrightarrow> offset r \<le> offset p"
      "inode r = inode p \<Longrightarrow> offset r = offset p \<Longrightarrow> snapshot r \<le> snapshot p"
    using r(2) by (auto simp: bpos_le_alt)
  show ?thesis
    unfolding round_pos_def Let_def
  proof (rule bpos_leI)
    show "inode r \<le> clamp_field f 0 (inode (round_offset f (round_inode f p)))"
      using clamp_field_greatest [OF off(1) rf(1) le(1)] by (simp add: round_inode_def round_offset_def)
  next
    assume i: "inode r = clamp_field f 0 (inode (round_offset f (round_inode f p)))"
    show "offset r \<le> clamp_field f 1 (offset (round_offset f (round_inode f p)))"
      using i le(2) off(2) by (intro clamp_field_greatest [OF _ rf(2)])
        (auto simp: round_inode_def round_offset_def clamp_field_def)
    assume o: "offset r = clamp_field f 1 (offset (round_offset f (round_inode f p)))"
    show "snapshot r \<le> ucast (clamp_field f 2 (ucast (snapshot (round_offset f (round_inode f p)))))"
      using i o le(3) off(3) snap by (intro snapshot_le_clamp [OF _ rf(3)])
        (auto simp: round_inode_def round_offset_def clamp_field_def)
  qed
qed

lemma round_pos_le:
  assumes ab: "pos_above f p" and f: "field_sound f 2"
  shows "round_pos f p \<le> p" "round_pos f p = p \<longleftrightarrow> pos_fits f p"
proof -
  have off: "f_offset f ! 0 \<le> inode p" "f_offset f ! 1 \<le> offset p" "f_offset f ! 2 \<le> ucast (snapshot p)"
    using ab by (auto simp: pos_above_def)
  note le = clamp_field_le [OF off(1)] clamp_field_le [OF off(2)] ucast_down_mono [OF clamp_field_le [OF off(3)]]
  note eq = clamp_field_eq [OF off(1)] clamp_field_eq [OF off(2)]
  show "round_pos f p \<le> p"
    using le eq by (cases p) (auto simp: round_pos_def Let_def round_inode_def round_offset_def bpos_le_alt less_le)
  show "round_pos f p = p \<longleftrightarrow> pos_fits f p"
    using round_pos_fits [OF assms] round_pos_greatest [OF assms, of p] \<open>round_pos f p \<le> p\<close> by (metis order.antisym order.refl)
qed

section \<open>Packing positions\<close>

lemma set_inc_pos_lossy_eq:
  assumes f: "format_valid f" "field_sound f 2" and ab: "pos_above f p"
    and run: "set_inc_fields f st 0 [inode (round_pos f p), offset (round_pos f p), ucast (snapshot (round_pos f p))]
      = Some (True, st')"
  shows "set_inc_pos_lossy f st p e = Some (e \<and> round_pos f p = p, st')"
proof -
  let ?p1 = "round_inode f p" and ?p2 = "round_offset f (round_inode f p)"
  let ?q = "round_pos f p"
  have ab1: "pos_above f ?p1" "pos_above f ?p2"
    using round_above [OF ab f(2)] round_above(2) [OF _ f(2)] by blast+
  have fq: "field_fits f 0 (inode ?q)" "field_fits f 1 (offset ?q)" "field_fits f 2 (ucast (snapshot ?q))"
    using round_pos_fits [OF ab f(2)] by (auto simp: pos_fits_iff)
  have q: "inode ?q = clamp_field f 0 (inode p)" "offset ?q = clamp_field f 1 (offset ?p1)"
      "ucast (snapshot ?q) = clamp_field f 2 (ucast (snapshot ?p2))"
    using ab1(2) by (auto simp: round_pos_def Let_def round_inode_def round_offset_def pos_above_def ucast_clamp_snapshot)
  have L0: "set_inc_field_lossy f st 0 (inode p) =
      map_option (\<lambda>(_, st). (field_fits f 0 (inode p), st)) (set_inc_field f st 0 (inode ?q))" for st
    unfolding q using ab width_le [OF f(1), of 0] by (intro set_inc_field_lossy_eq) (auto simp: pos_above_def)
  have L1: "set_inc_field_lossy f st 1 (offset ?p1) =
      map_option (\<lambda>(_, st). (field_fits f 1 (offset ?p1), st)) (set_inc_field f st 1 (offset ?q))" for st
    unfolding q using ab1(1) width_le [OF f(1), of 1] by (intro set_inc_field_lossy_eq) (auto simp: pos_above_def)
  have L2: "set_inc_field_lossy f st 2 (ucast (snapshot ?p2)) =
      map_option (\<lambda>(_, st). (field_fits f 2 (ucast (snapshot ?p2)), st)) (set_inc_field f st 2 (ucast (snapshot ?q)))" for st
    unfolding q using ab1(2) width_le [OF f(1), of 2] by (intro set_inc_field_lossy_eq) (auto simp: pos_above_def)
  have exact: "(e \<and> field_fits f 0 (inode p)) \<and> field_fits f 1 (offset ?p1) \<and> field_fits f 2 (ucast (snapshot ?p2))
      \<longleftrightarrow> e \<and> round_pos f p = p"
    unfolding round_pos_le(2) [OF ab f(2)] pos_fits_iff by (auto simp: round_inode_def round_offset_def)
  from run obtain s0 s1 where s: "set_inc_field f st 0 (inode ?q) = Some (True, s0)"
      "set_inc_field f s0 1 (offset ?q) = Some (True, s1)" "set_inc_field f s1 2 (ucast (snapshot ?q)) = Some (True, st')"
    using fq by (auto simp: set_inc_field_fits numeral_2_eq_2 split: if_splits bind_splits)
  have p1: "(if field_fits f 0 (inode p) then (p, e) else (SPOS (inode p) (- 1) (- 1), False)) =
      (?p1, e \<and> field_fits f 0 (inode p))" by (simp add: round_inode_def)
  have p2: "(if field_fits f 1 (offset ?p1) then (?p1, x) else (SPOS (inode ?p1) (offset ?p1) (- 1), False)) =
      (?p2, x \<and> field_fits f 1 (offset ?p1))" for x by (simp add: round_offset_def)
  show ?thesis
    unfolding set_inc_pos_lossy_def exact [symmetric]
    by (simp add: L0 L1 [unfolded One_nat_def] L2 s s(2) [unfolded One_nat_def] p1 p2 [unfolded One_nat_def])
qed

lemma unpack_packed_pos:
  assumes f: "format_valid f" and out: "length ws = length out" "unat (f_key_u64s f) \<le> length out"
    and at: "fields_at ws (64 * unat (f_key_u64s f)) (fields_of f 0 [inode q, offset q, ucast (snapshot q)])"
  shows "raw_bkey_unpack_pos f (pk_set_header ws (f_key_u64s f) KEY_FORMAT_LOCAL_BTREE 0) = Some q"
proof -
  have ne: "ws \<noteq> []" using f out by (auto simp: format_valid_def unat_eq_0)
  have w: "list_all (\<lambda>p. fst p \<le> 64) (fields_of f 0 [inode q, offset q, ucast (snapshot q)])"
      "24 + sum_list (map fst (fields_of f 0 [inode q, offset q, ucast (snapshot q)])) \<le> 64 * unat (f_key_u64s f)"
    using widths_le [OF f, of "[inode q, offset q, ucast (snapshot q)]"] by auto
  have "raw_bkey_unpack_pos f (pk_set_header ws (f_key_u64s f) KEY_FORMAT_LOCAL_BTREE 0) =
      Some (SPOS (inode q) (offset q) (ucast (ucast (snapshot q) :: u64)))"
  proof (rule raw_bkey_unpack_pos_at [OF f])
    show "fields_at (pk_set_header ws (f_key_u64s f) KEY_FORMAT_LOCAL_BTREE 0) (64 * unat (f_key_u64s f))
        (fields_of f 0 [inode q, offset q, ucast (snapshot q)])"
      by (rule fields_at_set_header [OF at ne w(2)])
  qed (use ne out in \<open>simp_all add: KEY_FORMAT_LOCAL_BTREE_def\<close>)
  moreover have "ucast (ucast (snapshot q) :: u64) = snapshot q" by (rule ucast_down_up) simp
  ultimately show ?thesis by simp
qed

lemma pack_pos_lossy_cases:
  assumes "format_valid f" "field_sound f 2" "unat (f_key_u64s f) \<le> length out"
  shows "\<exists>ret ws. bch2_bkey_pack_pos_lossy out p f = Some (ret, ws) \<and>
    (ret = BKEY_PACK_POS_FAIL \<longleftrightarrow> (\<nexists>r. pos_fits f r \<and> r \<le> p)) \<and>
    (ret \<noteq> BKEY_PACK_POS_FAIL \<longrightarrow>
      (\<exists>q. raw_bkey_unpack_pos f ws = Some q \<and> pos_fits f q \<and> q \<le> p \<and>
        (ret = BKEY_PACK_POS_EXACT \<longleftrightarrow> q = p) \<and> (\<forall>r. pos_fits f r \<and> r \<le> p \<longrightarrow> r \<le> q) \<and>
        length ws = length out \<and> pk_format ws = KEY_FORMAT_LOCAL_BTREE \<and> pk_u64s ws = f_key_u64s f \<and>
        fields_at ws (64 * unat (f_key_u64s f)) (fields_of f 0 [inode q, offset q, ucast (snapshot q)])))"
proof (cases "pack_pos_clamp f p")
  case None
  have k: "f_key_u64s f \<noteq> 0" "unat (f_key_u64s f) \<le> BKEY_PACKED_WORDS" using assms(1) by (auto simp: format_valid_def)
  obtain st where "pack_state_init f out = Some st" using pack_state_init_ok [OF k assms(3)] by blast
  with None pack_pos_clamp_None [OF None assms(2)] show ?thesis
    by (auto simp: bch2_bkey_pack_pos_lossy_def)
next
  case (Some c)
  then obtain p' e where c: "pack_pos_clamp f p = Some (p', e)" by (cases c) auto
  note C = pack_pos_clamp_Some [OF c assms(2)]
  let ?q = "round_pos f p'"
  have fq: "pos_fits f ?q" "?q \<le> p'" using round_pos_fits [OF C(1) assms(2)] round_pos_le(1) [OF C(1) assms(2)] by auto
  obtain st0 st where run: "pack_state_init f out = Some st0" "ps_words st0 = out"
      "set_inc_fields f (st0\<lparr>ps_words := zero_words (unat (f_key_u64s f)) (ps_words st0)\<rparr>) 0
         [inode ?q, offset ?q, ucast (snapshot ?q)] = Some (True, st)" "length (ps_words st) = length out"
      "pack_state_finish f st = Some (pack_view st)"
      "fields_at (pack_view st) (64 * unat (f_key_u64s f)) (fields_of f 0 [inode ?q, offset ?q, ucast (snapshot ?q)])"
    using pack_fields_ok [OF assms(1,3), of "[inode ?q, offset ?q, ucast (snapshot ?q)]"] fq(1)
    by (auto simp: pos_fits_def)
  have lossy: "bch2_bkey_pack_pos_lossy out p f =
      Some (if e \<and> ?q = p' then BKEY_PACK_POS_EXACT else BKEY_PACK_POS_SMALLER,
            pk_set_header (pack_view st) (f_key_u64s f) KEY_FORMAT_LOCAL_BTREE 0)"
    using set_inc_pos_lossy_eq [OF assms(1,2) C(1) run(3)] run(1,2,5) c
    by (simp add: bch2_bkey_pack_pos_lossy_def Let_def)
  have up: "raw_bkey_unpack_pos f (pk_set_header (pack_view st) (f_key_u64s f) KEY_FORMAT_LOCAL_BTREE 0) = Some ?q"
    by (rule unpack_packed_pos [OF assms(1) _ assms(3) run(6)]) (simp add: run(4))
  have ne: "pack_view st \<noteq> []" using assms(1,3) run(4) by (auto simp: format_valid_def unat_eq_0 pack_view_def)
  have hdr: "fields_at (pk_set_header (pack_view st) (f_key_u64s f) KEY_FORMAT_LOCAL_BTREE 0) (64 * unat (f_key_u64s f))
      (fields_of f 0 [inode ?q, offset ?q, ucast (snapshot ?q)])"
    using widths_le(2) [OF assms(1), of "[inode ?q, offset ?q, ucast (snapshot ?q)]"]
    by (intro fields_at_set_header [OF run(6) ne]) simp
  have "?q \<le> p" using fq(2) C(2) by simp
  moreover have "\<forall>r. pos_fits f r \<and> r \<le> p \<longrightarrow> r \<le> ?q"
    using round_pos_greatest [OF C(1) assms(2)] C(4) by blast
  moreover have exact: "e \<and> ?q = p' \<longleftrightarrow> ?q = p" using C(2,3) fq(2) by auto
  ultimately show ?thesis
    unfolding lossy using up fq(1) hdr ne run(4) by (cases "?q = p") (auto simp: exact)
qed

text \<open>
  C3: for a valid format and a sound snapshot field, \<^verbatim>\<open>bch2_bkey_pack_pos_lossy\<close> never panics; it
  fails exactly when no position representable in the format is at most the input, and
  otherwise packs the greatest such position, reporting an exact result exactly when that
  position is the input itself.
\<close>

theorem bkey_pack_pos_lossy_greatest:
  assumes "format_valid f" "field_sound f 2" "unat (f_key_u64s f) \<le> length out"
  shows "\<exists>ret ws. bch2_bkey_pack_pos_lossy out p f = Some (ret, ws) \<and>
    (ret = BKEY_PACK_POS_FAIL \<longleftrightarrow> (\<nexists>r. pos_fits f r \<and> r \<le> p)) \<and>
    (ret \<noteq> BKEY_PACK_POS_FAIL \<longrightarrow>
      (\<exists>q. raw_bkey_unpack_pos f ws = Some q \<and> pos_fits f q \<and> q \<le> p \<and>
        (ret = BKEY_PACK_POS_EXACT \<longleftrightarrow> q = p) \<and> (\<forall>r. pos_fits f r \<and> r \<le> p \<longrightarrow> r \<le> q)))"
  using pack_pos_lossy_cases [OF assms, of p] by metis

theorem bkey_pack_pos_lossy_greatest_witness:
  "\<exists>ret ws q. bch2_bkey_pack_pos_lossy (replicate 5 0) (SPOS 4096 3 9) sample_format = Some (ret, ws) \<and>
     ret = BKEY_PACK_POS_SMALLER \<and> raw_bkey_unpack_pos sample_format ws = Some q \<and> q < SPOS 4096 3 9"
proof -
  have snd: "field_sound sample_format 2" by (simp add: field_sound_def sample_format_def)
  have len: "unat (f_key_u64s sample_format) \<le> length (replicate 5 (0::u64))" by (simp add: sample_format_def)
  have below: "pos_fits sample_format (SPOS 4095 16 0)" "SPOS 4095 16 0 \<le> SPOS 4096 3 9"
    and no: "\<not> pos_fits sample_format (SPOS 4096 3 9)"
    by (simp_all add: pos_fits_iff field_fits_nat sample_format_def bpos_le_alt)
  obtain ret ws where run: "bch2_bkey_pack_pos_lossy (replicate 5 0) (SPOS 4096 3 9) sample_format = Some (ret, ws)"
    and fail: "ret = BKEY_PACK_POS_FAIL \<longleftrightarrow> (\<nexists>r. pos_fits sample_format r \<and> r \<le> SPOS 4096 3 9)"
    and ok: "ret \<noteq> BKEY_PACK_POS_FAIL \<longrightarrow> (\<exists>q. raw_bkey_unpack_pos sample_format ws = Some q \<and>
      pos_fits sample_format q \<and> q \<le> SPOS 4096 3 9 \<and> (ret = BKEY_PACK_POS_EXACT \<longleftrightarrow> q = SPOS 4096 3 9))"
    using bkey_pack_pos_lossy_greatest [OF sample_format_valid snd len, of "SPOS 4096 3 9"] by blast
  have "ret \<noteq> BKEY_PACK_POS_FAIL" using fail below by blast
  with ok no obtain q where q: "raw_bkey_unpack_pos sample_format ws = Some q" "q \<le> SPOS 4096 3 9"
      "q \<noteq> SPOS 4096 3 9" "ret \<noteq> BKEY_PACK_POS_EXACT" by metis
  with \<open>ret \<noteq> BKEY_PACK_POS_FAIL\<close> have "ret = BKEY_PACK_POS_SMALLER" by (cases ret) auto
  with run q show ?thesis by (auto simp: less_le)
qed

end
