(* ===== verification/Bkey_Cmp.thy ===== *)
theory Bkey_Cmp
  imports Bkey_Lossy
begin

unbundle bit_operations_syntax

text \<open>
  Comparing keys without unpacking them: \<^verbatim>\<open>__bkey_cmp_bits\<close> and \<^verbatim>\<open>bch2_bkey_cmp_packed\<close> of
  \<^verbatim>\<open>btree/node_iter.rs\<close>. The position fields of a packed key are the top bits of its words, most
  significant field first, so comparing the words from the top compares positions.
\<close>

section \<open>Definitions\<close>

text \<open>The position of an unpacked key in memory: the last 20 bytes of \<^verbatim>\<open>struct bkey\<close>.\<close>

definition unpacked_pos :: "u64 list \<Rightarrow> bpos option" where
  "unpacked_pos ws =
     do { ino \<leftarrow> nth_opt ws 4; off \<leftarrow> nth_opt ws 3; snap \<leftarrow> nth_opt ws 2;
          Some (SPOS ino off (ucast (drop_bit 32 snap))) }"

definition bkey_unpack_pos :: "bkey_format \<Rightarrow> bkey_packed \<Rightarrow> bpos option" where
  "bkey_unpack_pos f k = (if bkey_is_packed k then raw_bkey_unpack_pos f k else unpacked_pos k)"

definition bkey_cmp_left_packed :: "bkey_format \<Rightarrow> bkey_packed \<Rightarrow> bpos \<Rightarrow> int option" where
  "bkey_cmp_left_packed f l r =
     do { left_pos \<leftarrow> (if bkey_is_packed l then raw_bkey_unpack_pos f l else unpacked_pos l);
          Some (bpos_cmp left_pos r) }"

definition word_at :: "u64 list \<Rightarrow> int \<Rightarrow> u64 option" where
  "word_at ws i = (if 0 \<le> i then nth_opt ws (nat i) else None)"

text \<open>The pointers to the high words are an index that counts down.\<close>

fun raw_bkey_cmp_bits :: "u64 list \<Rightarrow> u64 list \<Rightarrow> int \<Rightarrow> nat \<Rightarrow> int option" where
  "raw_bkey_cmp_bits l r i nr_key_bits =
     (if nr_key_bits \<ge> 64 then
        do { l_v \<leftarrow> word_at l i;
             r_v \<leftarrow> word_at r i;
             if l_v \<noteq> r_v then Some (if l_v > r_v then 1 else - 1)
             else raw_bkey_cmp_bits l r (i - 1) (nr_key_bits - 64) }
      else if nr_key_bits = 0 then Some 0
      else do { l_w \<leftarrow> word_at l i;
                r_w \<leftarrow> word_at r i;
                let l_v = drop_bit (64 - nr_key_bits) l_w;
                let r_v = drop_bit (64 - nr_key_bits) r_w;
                Some (if l_v > r_v then 1 else if l_v < r_v then - 1 else 0) })"

declare raw_bkey_cmp_bits.simps [simp del]

text \<open>The node supplies its format and its cached number of key bits. The diagnostic message for a bad format
  byte has no effect on the result.\<close>

definition bch2_bkey_cmp_packed :: "bkey_format \<Rightarrow> nat \<Rightarrow> bkey_packed \<Rightarrow> bkey_packed \<Rightarrow> int option" where
  "bch2_bkey_cmp_packed f nr_key_bits l r =
     (if bkey_is_packed l \<and> bkey_is_packed r then
        do { require (nr_key_bits = bkey_format_key_bits f);
             raw_bkey_cmp_bits l r (int (unat (f_key_u64s f)) - 1) nr_key_bits }
      else do { l_p \<leftarrow> (if bkey_is_packed l then map_option k_p (raw_bch2_bkey_unpack_key f l) else unpacked_pos l);
                r_p \<leftarrow> (if \<not> bkey_is_packed l \<and> bkey_is_packed r
                       then map_option k_p (raw_bch2_bkey_unpack_key f r) else unpacked_pos r);
                Some (bpos_cmp l_p r_p) })"

section \<open>Order of bit strings\<close>

text \<open>\<open>bs_less l r lo hi\<close>: of the bits from \<open>lo\<close> up to \<open>hi\<close>, the highest one that differs is set in \<open>r\<close>.\<close>

definition bs_less :: "(nat \<Rightarrow> bool) \<Rightarrow> (nat \<Rightarrow> bool) \<Rightarrow> nat \<Rightarrow> nat \<Rightarrow> bool" where
  "bs_less l r lo hi \<longleftrightarrow> (\<exists>g. lo \<le> g \<and> g < hi \<and> \<not> l g \<and> r g \<and> (\<forall>h. g < h \<and> h < hi \<longrightarrow> l h = r h))"

definition bs_eq :: "(nat \<Rightarrow> bool) \<Rightarrow> (nat \<Rightarrow> bool) \<Rightarrow> nat \<Rightarrow> nat \<Rightarrow> bool" where
  "bs_eq l r lo hi \<longleftrightarrow> (\<forall>g. lo \<le> g \<and> g < hi \<longrightarrow> l g = r g)"

lemma bs_eq_split: "lo \<le> mid \<Longrightarrow> mid \<le> hi \<Longrightarrow> bs_eq l r lo hi \<longleftrightarrow> bs_eq l r mid hi \<and> bs_eq l r lo mid"
  unfolding bs_eq_def by (meson le_less_linear le_trans less_le_trans)

lemma bs_less_split:
  assumes "lo \<le> mid" "mid \<le> hi"
  shows "bs_less l r lo hi \<longleftrightarrow> bs_less l r mid hi \<or> bs_eq l r mid hi \<and> bs_less l r lo mid"
proof
  assume "bs_less l r lo hi"
  then obtain g where g: "lo \<le> g" "g < hi" "\<not> l g" "r g" "\<And>h. g < h \<Longrightarrow> h < hi \<Longrightarrow> l h = r h"
    by (auto simp: bs_less_def)
  show "bs_less l r mid hi \<or> bs_eq l r mid hi \<and> bs_less l r lo mid"
  proof (cases "mid \<le> g")
    case True
    with g show ?thesis unfolding bs_less_def by blast
  next
    case False
    then have "bs_eq l r mid hi" "bs_less l r lo mid"
      using g assms unfolding bs_less_def bs_eq_def by (auto intro!: exI [of _ g])
    then show ?thesis by blast
  qed
next
  assume "bs_less l r mid hi \<or> bs_eq l r mid hi \<and> bs_less l r lo mid"
  then show "bs_less l r lo hi"
  proof
    assume "bs_less l r mid hi"
    then show ?thesis using assms unfolding bs_less_def by (meson le_trans)
  next
    assume e: "bs_eq l r mid hi \<and> bs_less l r lo mid"
    then obtain g where g: "lo \<le> g" "g < mid" "\<not> l g" "r g" "\<And>h. g < h \<Longrightarrow> h < mid \<Longrightarrow> l h = r h"
      by (auto simp: bs_less_def)
    have "l h = r h" if "g < h" "h < hi" for h
      using e g(5) that unfolding bs_eq_def by (cases "h < mid") auto
    then show ?thesis using g assms unfolding bs_less_def by (intro exI [of _ g]) auto
  qed
qed

lemma bs_trichotomy: "\<not> bs_eq l r lo hi \<Longrightarrow> bs_less l r lo hi \<or> bs_less r l lo hi"
proof -
  assume "\<not> bs_eq l r lo hi"
  then have ex: "\<exists>g. lo \<le> g \<and> g < hi \<and> l g \<noteq> r g" by (auto simp: bs_eq_def)
  define g where "g = Greatest (\<lambda>g. lo \<le> g \<and> g < hi \<and> l g \<noteq> r g)"
  have g: "lo \<le> g \<and> g < hi \<and> l g \<noteq> r g" unfolding g_def
    by (rule GreatestI_ex_nat [OF ex, of hi]) auto
  have top: "l h = r h" if "g < h" "h < hi" for h
  proof (rule ccontr)
    assume "l h \<noteq> r h"
    then have "h \<le> g" unfolding g_def using that g by (intro Greatest_le_nat [of _ _ hi]) auto
    then show False using that by simp
  qed
  show ?thesis
  proof (cases "l g")
    case True
    then have "bs_less r l lo hi" unfolding bs_less_def using g top by (intro exI [of _ g]) auto
    then show ?thesis ..
  next
    case False
    then have "bs_less l r lo hi" unfolding bs_less_def using g top by (intro exI [of _ g]) auto
    then show ?thesis ..
  qed
qed

lemma bs_less_not_eq: "bs_less l r lo hi \<Longrightarrow> \<not> bs_eq l r lo hi"
  by (auto simp: bs_less_def bs_eq_def)

text \<open>Words are ordered as their bits.\<close>

lemma nat_less_bits: "m < n \<Longrightarrow> \<exists>g. \<not> bit m g \<and> bit n g \<and> (\<forall>h>g. bit m h = bit n h)" for m n :: nat
proof (induction m arbitrary: n rule: less_induct)
  case (less m)
  have parity: "bit k 0 = odd k" "bit k (Suc j) = bit (k div 2) j" for k j :: nat by (auto simp: bit_0 bit_Suc)
  show ?case
  proof (cases "m div 2 = n div 2")
    case True
    then have "even m" "odd n" using less.prems by presburger+
    moreover have "bit m h = bit n h" if "0 < h" for h
      using that True by (cases h) (auto simp: bit_Suc)
    ultimately show ?thesis by (intro exI [of _ 0]) (auto simp: bit_0)
  next
    case False
    then have lt: "m div 2 < n div 2" using less.prems by (simp add: div_le_mono order.not_eq_order_implies_strict)
    have "\<exists>g. \<not> bit (m div 2) g \<and> bit (n div 2) g \<and> (\<forall>h>g. bit (m div 2) h = bit (n div 2) h)"
    proof (cases "m = 0")
      case True
      define g where "g = bit_len (n div 2) - 1"
      have p: "0 < n div 2" using lt True by simp
      have l: "2 ^ g \<le> n div 2" "n div 2 < 2 ^ Suc g"
        using power_bit_len_le [OF p] less_power_bit_len [of "n div 2"] p
        by (auto simp: g_def gr0_conv_Suc power_eq_if)
      have "n div 2 div 2 ^ g = 1" using l by (simp add: div_nat_eqI)
      then have "bit (n div 2) g" by (simp add: bit_iff_odd)
      moreover have "\<not> bit (n div 2) h" if "g < h" for h
      proof -
        have "(2::nat) ^ Suc g \<le> 2 ^ h" using that by (intro power_increasing) auto
        then have "n div 2 < 2 ^ h" using l(2) by linarith
        then show ?thesis by (simp add: bit_iff_odd)
      qed
      ultimately show ?thesis using True by (intro exI [of _ g]) auto
    next
      case False
      then have "m div 2 < m" by simp
      from less.IH [OF this lt] show ?thesis .
    qed
    then obtain g where "\<not> bit (m div 2) g" "bit (n div 2) g" "\<forall>h>g. bit (m div 2) h = bit (n div 2) h" by blast
    moreover have "bit m h = bit n h" if "Suc g < h" for h
      using calculation that by (cases h) (auto simp: bit_Suc)
    ultimately show ?thesis by (intro exI [of _ "Suc g"]) (auto simp: bit_Suc)
  qed
qed

lemma bs_less_asym: "bs_less l r lo hi \<Longrightarrow> \<not> bs_less r l lo hi"
proof
  assume "bs_less l r lo hi" "bs_less r l lo hi"
  then obtain g h where "g < hi" "\<not> l g" "r g" "\<forall>x. g < x \<and> x < hi \<longrightarrow> l x = r x"
    "h < hi" "\<not> r h" "l h" "\<forall>x. h < x \<and> x < hi \<longrightarrow> r x = l x"
    unfolding bs_less_def by auto
  then show False by (metis linorder_neqE_nat)
qed

text \<open>A word that holds \<open>b\<close> bits of a bit string from \<open>lo\<close> on.\<close>

definition chunk :: "(nat \<Rightarrow> bool) \<Rightarrow> nat \<Rightarrow> nat \<Rightarrow> u64 \<Rightarrow> bool" where
  "chunk P lo b v \<longleftrightarrow> b \<le> 64 \<and> (\<forall>j<64. bit v j \<longleftrightarrow> j < b \<and> P (lo + j))"

lemma chunk_eq:
  assumes "chunk P lo b v" "chunk Q lo b w"
  shows "v = w \<longleftrightarrow> bs_eq P Q lo (lo + b)"
proof
  assume e: "v = w"
  show "bs_eq P Q lo (lo + b)" unfolding bs_eq_def
  proof (intro allI impI)
    fix g
    assume g: "lo \<le> g \<and> g < lo + b"
    then have "g - lo < b" "g - lo < 64" using assms(1) by (auto simp: chunk_def)
    then show "P g = Q g" using assms e g unfolding chunk_def by (metis le_add_diff_inverse)
  qed
next
  assume "bs_eq P Q lo (lo + b)"
  then show "v = w" using assms by (intro bit_word_eqI) (auto simp: chunk_def bs_eq_def)
qed

lemma chunk_less1:
  assumes c: "chunk P lo b v" "chunk Q lo b w" and lt: "v < w"
  shows "bs_less P Q lo (lo + b)"
proof -
  from lt have "unat v < unat w" by (simp add: word_less_nat_alt)
  from nat_less_bits [OF this] obtain g where g: "\<not> bit v g" "bit w g" "\<And>h. g < h \<Longrightarrow> bit v h = bit w h"
    by (auto simp: bit_unsigned_iff)
  have "g < 64" using g(2) by (rule bit_u64_bound)
  then have gb: "g < b" "Q (lo + g)" "\<not> P (lo + g)" using c g by (auto simp: chunk_def)
  have "P h = Q h" if h: "lo + g < h" "h < lo + b" for h
  proof -
    have "h - lo < b" "h - lo < 64" "g < h - lo" using h c(1) by (auto simp: chunk_def)
    then show ?thesis using c g(3) h unfolding chunk_def by (metis less_imp_le le_add_diff_inverse trans_less_add1 add_lessD1)
  qed
  then show ?thesis unfolding bs_less_def using gb by (intro exI [of _ "lo + g"]) auto
qed

lemma chunk_less:
  assumes "chunk P lo b v" "chunk Q lo b w"
  shows "v < w \<longleftrightarrow> bs_less P Q lo (lo + b)"
  using chunk_less1 [OF assms] chunk_less1 [OF assms(2,1)] chunk_eq [OF assms] bs_less_asym bs_less_not_eq
  by (metis linorder_neqE)

section \<open>Comparing words from the top\<close>

definition bs_cmp :: "(nat \<Rightarrow> bool) \<Rightarrow> (nat \<Rightarrow> bool) \<Rightarrow> nat \<Rightarrow> nat \<Rightarrow> int" where
  "bs_cmp l r lo hi = (if bs_less r l lo hi then 1 else if bs_less l r lo hi then - 1 else 0)"

lemma bs_cmp_split:
  assumes "lo \<le> mid" "mid \<le> hi"
  shows "bs_cmp l r lo hi = (if bs_cmp l r mid hi \<noteq> 0 then bs_cmp l r mid hi else bs_cmp l r lo mid)"
proof -
  have e: "bs_eq r l mid hi = bs_eq l r mid hi" by (auto simp: bs_eq_def)
  show ?thesis
    unfolding bs_cmp_def bs_less_split [OF assms] e
    using bs_trichotomy [of l r mid hi] bs_less_not_eq [of l r mid hi] bs_less_not_eq [of r l mid hi] e by auto
qed

lemma bs_cmp_empty [simp]: "bs_cmp l r lo lo = 0"
  by (simp add: bs_cmp_def bs_less_def)

lemma chunk_cmp:
  assumes "chunk P lo b v" "chunk Q lo b w"
  shows "bs_cmp P Q lo (lo + b) = (if v > w then 1 else if v < w then - 1 else 0)"
  using chunk_less [OF assms] chunk_less [OF assms(2,1)] by (simp add: bs_cmp_def)

lemma chunk_word: "chunk (gbit ws) (64 * i) 64 (ws ! i)"
  by (auto simp: chunk_def gbit_word)

lemma chunk_top: "0 < b \<Longrightarrow> b \<le> 64 \<Longrightarrow> chunk (gbit ws) (64 * i + (64 - b)) b (drop_bit (64 - b) (ws ! i))"
  unfolding chunk_def
proof (intro conjI allI impI)
  fix j :: nat
  assume "0 < b" "b \<le> 64" "j < 64"
  show "bit (drop_bit (64 - b) (ws ! i)) j \<longleftrightarrow> j < b \<and> gbit ws (64 * i + (64 - b) + j)"
  proof (cases "j < b")
    case True
    then have "64 - b + j < 64" using \<open>b \<le> 64\<close> by simp
    then show ?thesis using True gbit_word [of "64 - b + j" ws i] by (simp add: bit_drop_bit_eq add.assoc)
  next
    case False
    then have "64 \<le> 64 - b + j" using \<open>b \<le> 64\<close> by simp
    then show ?thesis using False bit_u64_bound by (auto simp: bit_drop_bit_eq) (meson leD)
  qed
qed

lemma raw_bkey_cmp_bits_ok:
  assumes "n \<le> 64 * k" "k \<le> length l" "k \<le> length r"
  shows "raw_bkey_cmp_bits l r (int k - 1) n = Some (bs_cmp (gbit l) (gbit r) (64 * k - n) (64 * k))"
  using assms
proof (induction k arbitrary: n)
  case 0
  then show ?case by (simp add: raw_bkey_cmp_bits.simps [of l r _ 0])
next
  case (Suc k)
  have w: "word_at l (int (Suc k) - 1) = Some (l ! k)" "word_at r (int (Suc k) - 1) = Some (r ! k)"
    using Suc.prems by (auto simp: word_at_def nth_opt_def)
  show ?case
  proof (cases "n \<ge> 64")
    case True
    have c: "bs_cmp (gbit l) (gbit r) (64 * k) (64 * k + 64) =
        (if l ! k > r ! k then 1 else if l ! k < r ! k then - 1 else 0)"
      by (rule chunk_cmp) (rule chunk_word)+
    have "bs_cmp (gbit l) (gbit r) (64 * Suc k - n) (64 * Suc k) =
        (if l ! k > r ! k then 1 else if l ! k < r ! k then - 1 else bs_cmp (gbit l) (gbit r) (64 * k - (n - 64)) (64 * k))"
      using bs_cmp_split [of "64 * Suc k - n" "64 * k" "64 * Suc k" "gbit l" "gbit r"] True c by (simp add: add.commute)
    moreover have "raw_bkey_cmp_bits l r (int k - 1) (n - 64) = Some (bs_cmp (gbit l) (gbit r) (64 * k - (n - 64)) (64 * k))"
      using Suc True by (intro Suc.IH) auto
    ultimately show ?thesis
      using True w by (subst raw_bkey_cmp_bits.simps) auto
  next
    case False
    show ?thesis
    proof (cases "n = 0")
      case True
      then show ?thesis by (simp add: raw_bkey_cmp_bits.simps [of l r _ 0])
    next
      case n: False
      have "bs_cmp (gbit l) (gbit r) (64 * k + (64 - n)) (64 * k + (64 - n) + n) =
        (if drop_bit (64 - n) (l ! k) > drop_bit (64 - n) (r ! k) then 1
         else if drop_bit (64 - n) (l ! k) < drop_bit (64 - n) (r ! k) then - 1 else 0)"
        by (rule chunk_cmp; rule chunk_top) (use n False in linarith)+
      moreover have "64 * k + (64 - n) = 64 * Suc k - n" "64 * k + (64 - n) + n = 64 * Suc k" using False by auto
      ultimately show ?thesis using False n w by (subst raw_bkey_cmp_bits.simps) (simp add: Let_def)
    qed
  qed
qed

section \<open>Comparing positions\<close>

text \<open>The words hold a packed key at a position that the format can represent.\<close>

definition pos_at :: "bkey_format \<Rightarrow> bkey_packed \<Rightarrow> bpos \<Rightarrow> bool" where
  "pos_at f ws p \<longleftrightarrow>
     unat (f_key_u64s f) \<le> length ws \<and> pos_fits f p \<and>
     fields_at ws (64 * unat (f_key_u64s f)) (fields_of f 0 [inode p, offset p, ucast (snapshot p)])"

lemma pos_at_packed_as:
  "packed_as f ws k \<Longrightarrow> fields_fit f 0 (bkey_field_values k) \<Longrightarrow> pos_at f ws (k_p k)"
  by (simp add: pos_at_def packed_as_def pos_fits_def bkey_field_values_def)

lemma field_chunk:
  assumes "fields_at ws R ((b, v) # fs)" "b \<le> 64"
  shows "chunk (gbit ws) (R - b) b v" "fields_at ws (R - b) fs" "b \<le> R"
  using assms by (auto simp: chunk_def)

lemma sub_less: "o' \<le> v \<Longrightarrow> o' \<le> w \<Longrightarrow> v - o' < w - o' \<longleftrightarrow> v < w" for v w o' :: u64
  by (simp add: word_less_nat_alt word_le_nat_alt unat_sub) linarith

lemma field_cmp:
  assumes "chunk P (R - b) b (v - o')" "chunk Q (R - b) b (w - o')" "b \<le> R" "o' \<le> v" "o' \<le> w"
  shows "bs_cmp P Q (R - b) R = (if v > w then 1 else if v < w then - 1 else 0)"
  using chunk_cmp [OF assms(1,2)] assms(3) sub_less [OF assms(4,5)] sub_less [OF assms(5,4)] by simp

lemma bpos_cmp_chain:
  "bpos_cmp p q =
     (if inode p > inode q then 1 else if inode p < inode q then - 1
      else if offset p > offset q then 1 else if offset p < offset q then - 1
      else if ucast (snapshot p) > (ucast (snapshot q) :: u64) then 1
      else if ucast (snapshot p) < (ucast (snapshot q) :: u64) then - 1 else 0)"
proof -
  have "ucast a < (ucast b :: u64) \<longleftrightarrow> a < b" for a b :: u32
    by (simp add: word_less_nat_alt unat_ucast_up)
  then show ?thesis by (auto simp: bpos_cmp_def)
qed

lemma cmp_bits_pos:
  assumes f: "format_valid f" and l: "pos_at f l p" and r: "pos_at f r q"
  shows "raw_bkey_cmp_bits l r (int (unat (f_key_u64s f)) - 1) (bkey_format_key_bits f) = Some (bpos_cmp p q)"
proof -
  define R where "R = 64 * unat (f_key_u64s f)"
  define b where "b = (\<lambda>i. unat (f_bits f ! i))"
  have bw: "b i \<le> 64" if "i < 3" for i using width_le [OF f] that by (simp add: b_def)
  have n: "bkey_format_key_bits f = b 0 + b 1 + b 2" by (simp add: bkey_format_key_bits_def b_def)
  have lf: "fields_at l R ((b 0, inode p - f_offset f ! 0) # (b 1, offset p - f_offset f ! 1) #
      [(b 2, ucast (snapshot p) - f_offset f ! 2)])"
    using l by (simp add: pos_at_def R_def b_def numeral_2_eq_2)
  have rf: "fields_at r R ((b 0, inode q - f_offset f ! 0) # (b 1, offset q - f_offset f ! 1) #
      [(b 2, ucast (snapshot q) - f_offset f ! 2)])"
    using r by (simp add: pos_at_def R_def b_def numeral_2_eq_2)
  note l0 = field_chunk [OF lf bw] and r0 = field_chunk [OF rf bw]
  note l1 = field_chunk [OF l0(2) bw] and r1 = field_chunk [OF r0(2) bw]
  note l2 = field_chunk [OF l1(2) bw] and r2 = field_chunk [OF r1(2) bw]
  have ge: "f_offset f ! 0 \<le> inode p" "f_offset f ! 1 \<le> offset p" "f_offset f ! 2 \<le> ucast (snapshot p)"
      "f_offset f ! 0 \<le> inode q" "f_offset f ! 1 \<le> offset q" "f_offset f ! 2 \<le> ucast (snapshot q)"
    using l r by (auto simp: pos_at_def pos_fits_iff field_fits_def)
  let ?c = "bs_cmp (gbit l) (gbit r)"
  have c0: "?c (R - b 0) R = (if inode p > inode q then 1 else if inode p < inode q then - 1 else 0)"
    by (rule field_cmp [OF l0(1) r0(1) l0(3)]) (use ge in auto)
  have c1: "?c (R - b 0 - b 1) (R - b 0) = (if offset p > offset q then 1 else if offset p < offset q then - 1 else 0)"
    by (rule field_cmp [OF l1(1) r1(1) l1(3)]) (use ge in auto)
  have c2: "?c (R - b 0 - b 1 - b 2) (R - b 0 - b 1) =
      (if ucast (snapshot p) > (ucast (snapshot q) :: u64) then 1
       else if ucast (snapshot p) < (ucast (snapshot q) :: u64) then - 1 else 0)"
    by (rule field_cmp [OF l2(1) r2(1) l2(3)]) (use ge in auto)
  have s0: "?c (R - b 0 - b 1 - b 2) R =
      (if ?c (R - b 0) R \<noteq> 0 then ?c (R - b 0) R else ?c (R - b 0 - b 1 - b 2) (R - b 0))"
    by (rule bs_cmp_split) simp_all
  have s1: "?c (R - b 0 - b 1 - b 2) (R - b 0) =
      (if ?c (R - b 0 - b 1) (R - b 0) \<noteq> 0 then ?c (R - b 0 - b 1) (R - b 0) else ?c (R - b 0 - b 1 - b 2) (R - b 0 - b 1))"
    by (rule bs_cmp_split) simp_all
  have "?c (R - b 0 - b 1 - b 2) R = bpos_cmp p q"
    unfolding s0 s1 c0 c1 c2 bpos_cmp_chain by simp
  then have "?c (R - (b 0 + b 1 + b 2)) R = bpos_cmp p q" by (simp only: diff_diff_left add.assoc)
  moreover have "b 0 + b 1 + b 2 \<le> R" using l0(3) l1(3) l2(3) by linarith
  ultimately show ?thesis
    using raw_bkey_cmp_bits_ok [of "b 0 + b 1 + b 2" "unat (f_key_u64s f)" l r] l r
    by (simp add: n R_def pos_at_def)
qed

section \<open>Keys in memory\<close>

text \<open>The words at a key hold a key at position \<open>p\<close>, packed in the format of the node or unpacked.\<close>

definition key_holds :: "bkey_format \<Rightarrow> bkey_packed \<Rightarrow> bpos \<Rightarrow> bool" where
  "key_holds f ws p \<longleftrightarrow>
     (if bkey_is_packed ws then
        pos_at f ws p \<and> pk_format ws AND 0x7f = KEY_FORMAT_LOCAL_BTREE \<and> f_key_u64s f \<le> pk_u64s ws \<and>
        unat (pk_u64s ws) - unat (f_key_u64s f) + BKEY_U64S \<le> 255
      else unpacked_pos ws = Some p)"

lemma word_of_bits: "\<exists>v :: u64. \<forall>j<64. bit v j \<longleftrightarrow> P j"
proof
  show "\<forall>j<64. bit (horner_sum of_bool 2 (map P [0..<64]) :: u64) j \<longleftrightarrow> P j"
    by (auto simp: bit_horner_sum_bit_iff)
qed

lemma fields_exist:
  "list_all (\<lambda>i. unat (f_bits f ! i) \<le> 64) [i..<i + n] \<Longrightarrow> sum_list (map (\<lambda>i. unat (f_bits f ! i)) [i..<i + n]) \<le> R \<Longrightarrow>
   \<exists>vs. length vs = n \<and> fields_at ws R (fields_of f i vs)"
proof (induction n arbitrary: i R)
  case (Suc n)
  let ?b = "unat (f_bits f ! i)"
  have u: "[i..<i + Suc n] = i # [Suc i..<Suc i + n]" by (simp add: upt_conv_Cons del: upt_Suc)
  obtain v :: u64 where v: "\<forall>j<64. bit v j \<longleftrightarrow> j < ?b \<and> gbit ws (R - ?b + j)"
    using word_of_bits [of "\<lambda>j. j < ?b \<and> gbit ws (R - ?b + j)"] by blast
  have w: "list_all (\<lambda>i. unat (f_bits f ! i) \<le> 64) [Suc i..<Suc i + n]"
    using Suc.prems(1) unfolding u by (simp only: list.pred_inject)
  have s: "sum_list (map (\<lambda>i. unat (f_bits f ! i)) [Suc i..<Suc i + n]) \<le> R - ?b"
    using Suc.prems(2) unfolding u list.map sum_list.Cons by linarith
  obtain vs where vs: "length vs = n" "fields_at ws (R - ?b) (fields_of f (Suc i) vs)"
    using Suc.IH [OF w s] by blast
  have "?b \<le> R" using Suc.prems(2) unfolding u list.map sum_list.Cons by linarith
  then have "fields_at ws R (fields_of f i ((v + f_offset f ! i) # vs))" using v vs(2) by simp
  then show ?case using vs(1) by (intro exI [of _ "(v + f_offset f ! i) # vs"]) simp
qed simp

lemma fields_of_append: "fields_of f i (vs @ ws) = fields_of f i vs @ fields_of f (i + length vs) ws"
  by (induction vs arbitrary: i) auto

lemma pos_at_all_fields:
  assumes f: "format_valid f" and p: "pos_at f ws p"
  obtains v3 v4 v5 where "fields_at ws (64 * unat (f_key_u64s f))
    (fields_of f 0 [inode p, offset p, ucast (snapshot p), v3, v4, v5])"
proof -
  let ?b = "\<lambda>i. unat (f_bits f ! i)" and ?R = "64 * unat (f_key_u64s f)"
  have "24 + sum_list (map ?b [0..<6]) \<le> ?R"
    using widths_le(2) [OF f, of "replicate 6 0"] by (simp add: widths_fields_of)
  then have "sum_list (map ?b [3..<3 + 3]) \<le> ?R - (?b 0 + ?b 1 + ?b 2)"
    by (simp add: upt_conv_Cons eval_nat_numeral)
  moreover have "list_all (\<lambda>i. ?b i \<le> 64) [3..<3 + 3]" using width_le [OF f] by (simp add: upt_conv_Cons)
  ultimately obtain vs where vs: "length vs = 3" "fields_at ws (?R - (?b 0 + ?b 1 + ?b 2)) (fields_of f 3 vs)"
    using fields_exist by blast
  then obtain v3 v4 v5 where "vs = [v3, v4, v5]" by (auto simp: length_Suc_conv numeral_3_eq_3)
  with vs p have "fields_at ws ?R (fields_of f 0 ([inode p, offset p, ucast (snapshot p)] @ [v3, v4, v5]))"
    unfolding fields_of_append fields_at_append by (simp add: pos_at_def eval_nat_numeral add.assoc)
  then have "fields_at ws ?R (fields_of f 0 [inode p, offset p, ucast (snapshot p), v3, v4, v5])"
    by (simp only: append.simps)
  then show ?thesis by (rule that)
qed

lemma key_holds_unpack:
  assumes f: "format_valid f" and k: "key_holds f ws p"
  shows "bkey_unpack_pos f ws = Some p"
    and "bkey_is_packed ws \<Longrightarrow> map_option k_p (raw_bch2_bkey_unpack_key f ws) = Some p"
proof -
  have "raw_bkey_unpack_pos f ws = Some p \<and> map_option k_p (raw_bch2_bkey_unpack_key f ws) = Some p" if "bkey_is_packed ws"
  proof -
    have p: "pos_at f ws p" "unat (f_key_u64s f) \<le> length ws" and h: "pk_format ws AND 0x7f = KEY_FORMAT_LOCAL_BTREE"
        "f_key_u64s f \<le> pk_u64s ws" "unat (pk_u64s ws) - unat (f_key_u64s f) + BKEY_U64S \<le> 255"
      using k that by (auto simp: key_holds_def pos_at_def)
    obtain v3 v4 v5 where at: "fields_at ws (64 * unat (f_key_u64s f))
        (fields_of f 0 [inode p, offset p, ucast (snapshot p), v3, v4, v5])"
      using pos_at_all_fields [OF f p(1)] .
    have c: "ucast (ucast (snapshot p) :: u64) = snapshot p" by (rule ucast_down_up) simp
    show ?thesis
      using raw_bkey_unpack_pos_at [OF f p(2) h(2,1) at] raw_bch2_bkey_unpack_key_at [OF f p(2) h(2,1,3) at]
      by (simp add: c)
  qed
  then show "bkey_unpack_pos f ws = Some p" "bkey_is_packed ws \<Longrightarrow> map_option k_p (raw_bch2_bkey_unpack_key f ws) = Some p"
    using k by (auto simp: bkey_unpack_pos_def key_holds_def)
qed

lemma cmp_left_holds:
  "format_valid f \<Longrightarrow> key_holds f l p \<Longrightarrow> bkey_cmp_left_packed f l q = Some (bpos_cmp p q)"
  using key_holds_unpack(1) by (simp add: bkey_cmp_left_packed_def bkey_unpack_pos_def)

lemma cmp_holds:
  assumes "format_valid f" "key_holds f l p" "key_holds f r q"
  shows "bch2_bkey_cmp_packed f (bkey_format_key_bits f) l r = Some (bpos_cmp p q)"
  using assms cmp_bits_pos [of f l p r q] key_holds_unpack(2) [OF assms(1,2)] key_holds_unpack(2) [OF assms(1,3)]
  by (auto simp: bch2_bkey_cmp_packed_def key_holds_def split: if_splits)

text \<open>
  C37: Comparing two keys of a node, each packed in the format of the node or unpacked, gives the order of their
  positions without a panic; two packed keys are compared by their words alone. Comparing a key with a position
  agrees.\<close>

theorem bkey_cmp_packed_order:
  assumes "format_valid f" "key_holds f l p" "key_holds f r q"
  shows "bch2_bkey_cmp_packed f (bkey_format_key_bits f) l r = Some (bpos_cmp p q) \<and>
    bkey_cmp_left_packed f l q = Some (bpos_cmp p q)"
  using cmp_holds [OF assms] cmp_left_holds [OF assms(1,2)] by blast

text \<open>A packed key and an unpacked one at neighbouring positions.\<close>

definition packed_sample :: bkey_packed where
  "packed_sample = snd (the (bch2_bkey_pack_key (replicate 5 0) sample_key sample_format))"

definition unpacked_sample :: bkey_packed where
  "unpacked_sample = [0x030105, 0, push_bit 32 6, 77, 4096]"

lemma sample_holds:
  "key_holds sample_format packed_sample (SPOS 4096 77 5)" "key_holds sample_format unpacked_sample (SPOS 4096 77 6)"
proof -
  have len: "unat (f_key_u64s sample_format) \<le> length (replicate 5 (0 :: u64))" by (simp add: sample_format_def)
  have run: "bch2_bkey_pack_key (replicate 5 0) sample_key sample_format = Some (True, packed_sample)"
    using bch2_bkey_pack_key_cases [OF sample_format_valid len sample_key_header] sample_key_fits
    by (auto simp: packed_sample_def)
  have p: "packed_as sample_format packed_sample sample_key"
    by (rule pack_key_packed_as [OF sample_format_valid len sample_key_header run])
  have "bkey_is_packed packed_sample" using packed_as_format [OF p] by (simp add: bkey_is_packed_def code_consts)
  moreover have "pos_at sample_format packed_sample (k_p sample_key)" by (rule pos_at_packed_as [OF p sample_key_fits])
  ultimately show "key_holds sample_format packed_sample (SPOS 4096 77 5)"
    using p packed_as_format [OF p] by (simp add: key_holds_def packed_as_def sample_key_def bkey_init_def sample_format_def
        word_le_nat_alt BKEY_U64S_def)
  show "key_holds sample_format unpacked_sample (SPOS 4096 77 6)"
    by (simp add: key_holds_def unpacked_sample_def bkey_is_packed_def pk_format_def unpacked_pos_def nth_opt_def code_consts)
qed

theorem bkey_cmp_packed_order_witness:
  "bch2_bkey_cmp_packed sample_format (bkey_format_key_bits sample_format) packed_sample unpacked_sample = Some (- 1)"
  using bkey_cmp_packed_order [OF sample_format_valid sample_holds(1) sample_holds(2)] by (simp add: bpos_cmp_def)

end
