(* ===== verification/Btree_Node.thy ===== *)
theory Btree_Node
  imports Bkey_Cmp "HOL-Library.Product_Lexorder"
begin

text \<open>
  A btree node in memory (\<^verbatim>\<open>btree/types.rs\<close>): the data of the node as 64-bit words, up to three sets of keys in it,
  and the key comparisons of \<^verbatim>\<open>btree/node_iter.rs\<close> on keys of a node. A pointer to a key of the node is its word
  offset; the source keeps these offsets in 16 bits, so they are naturals here and a result above \<open>2 ^ 16 - 1\<close> is
  a panic where the source computes one. Reading outside the data of the node is \<open>None\<close>.
\<close>

section \<open>Data\<close>

text \<open>The lookup tables of a set: a node of the read-only search tree, and an entry of the table of a set that is
  being written. The tables lie at \<^verbatim>\<open>aux_data_offset\<close> in the auxiliary data of the node; here the set carries them.\<close>

record bkey_float =
  bf_exponent :: nat
  bf_key_offset :: nat
  bf_mantissa :: u16

record rw_aux_tree =
  ra_offset :: nat
  ra_k :: bpos

record bset_tree =
  t_size :: nat
  t_extra :: nat
  t_data_offset :: nat
  t_aux_data_offset :: nat
  t_end_offset :: nat
  t_ro :: "bkey_float list"
  t_rw :: "rw_aux_tree list"

datatype bset_aux_tree_type = BSET_NO_AUX_TREE | BSET_RO_AUX_TREE | BSET_RW_AUX_TREE

definition MAX_BSETS :: nat where [code_consts]: "MAX_BSETS = 3"
definition BSET_NO_AUX_TREE_VAL :: nat where [code_consts]: "BSET_NO_AUX_TREE_VAL = 65535"
definition BSET_RW_AUX_TREE_VAL :: nat where [code_consts]: "BSET_RW_AUX_TREE_VAL = 65534"

record btree_node_iter_set =
  ni_k :: nat
  ni_end :: nat

type_synonym btree_node_iter = "btree_node_iter_set list"

text \<open>The accounting of the live keys of a node.\<close>

record btree_nr_keys =
  nr_live_u64s :: u16
  nr_bset_u64s :: "u16 list"
  nr_packed_keys :: u16
  nr_unpacked_keys :: u16

record btree =
  b_format :: bkey_format
  b_nr_key_bits :: nat
  b_level :: nat
  b_addr :: nat
  b_data :: "u64 list"
  b_sets :: "bset_tree list"
  b_nr :: btree_nr_keys
  b_byte_order :: nat
  b_min_key :: bpos
  b_max_key :: bpos
  b_whiteout_u64s :: nat
  b_written :: nat

section \<open>Keys and sets of a node\<close>

text \<open>The words from a key on.\<close>

definition key_at :: "btree \<Rightarrow> nat \<Rightarrow> bkey_packed option" where
  "key_at b k = (if k < length (b_data b) then Some (drop k (b_data b)) else None)"

definition bkey_p_next :: "btree \<Rightarrow> nat \<Rightarrow> nat option" where
  "bkey_p_next b k = do { ws \<leftarrow> key_at b k; Some (k + unat (pk_u64s ws)) }"

definition bset_tree_last :: "btree \<Rightarrow> bset_tree option" where
  "bset_tree_last b = do { require (b_sets b \<noteq> []); Some (last (b_sets b)) }"

definition btree_bkey_first_offset :: "bset_tree \<Rightarrow> nat" where
  "btree_bkey_first_offset t = t_data_offset t + 3"

definition btree_bkey_first :: "bset_tree \<Rightarrow> nat" where
  "btree_bkey_first t = btree_bkey_first_offset t"

definition btree_bkey_last :: "bset_tree \<Rightarrow> nat" where
  "btree_bkey_last t = t_end_offset t"

definition bset_u64s :: "bset_tree \<Rightarrow> nat option" where
  "bset_u64s t = do { require (t_data_offset t + 3 \<le> t_end_offset t); Some (t_end_offset t - t_data_offset t - 3) }"

fun bkey_to_bset_loop :: "bset_tree list \<Rightarrow> nat \<Rightarrow> bset_tree option" where
  "bkey_to_bset_loop [] off = None"
| "bkey_to_bset_loop (t # ts) off =
     (if off \<le> t_end_offset t then do { require (off \<ge> btree_bkey_first_offset t); Some t }
      else bkey_to_bset_loop ts off)"

definition bch2_bkey_to_bset_inlined :: "btree \<Rightarrow> nat \<Rightarrow> bset_tree option" where
  "bch2_bkey_to_bset_inlined b k = bkey_to_bset_loop (b_sets b) k"

definition bset_aux_tree_kind :: "bset_tree \<Rightarrow> bset_aux_tree_type option" where
  "bset_aux_tree_kind t =
     (if t_extra t = BSET_NO_AUX_TREE_VAL then do { require (t_size t = 0); Some BSET_NO_AUX_TREE }
      else if t_extra t = BSET_RW_AUX_TREE_VAL then do { require (t_size t \<noteq> 0); Some BSET_RW_AUX_TREE }
      else do { require (t_size t \<noteq> 0); Some BSET_RO_AUX_TREE })"

section \<open>Comparing keys of a node\<close>

definition bkey_cmp_packed_at :: "btree \<Rightarrow> nat \<Rightarrow> nat \<Rightarrow> int option" where
  "bkey_cmp_packed_at b l r =
     do { lw \<leftarrow> key_at b l; rw \<leftarrow> key_at b r; bch2_bkey_cmp_packed (b_format b) (b_nr_key_bits b) lw rw }"

definition bool_int :: "bool \<Rightarrow> int" where
  "bool_int x = (if x then 1 else 0)"

definition addr_cmp :: "nat \<Rightarrow> nat \<Rightarrow> int" where
  "addr_cmp l r = (if l < r then - 1 else if l > r then 1 else 0)"

definition bkey_iter_cmp :: "btree \<Rightarrow> nat \<Rightarrow> nat \<Rightarrow> int option" where
  "bkey_iter_cmp b l r =
     do { cmp \<leftarrow> bkey_cmp_packed_at b l r;
          if cmp \<noteq> 0 then Some cmp
          else do { lw \<leftarrow> key_at b l; rw \<leftarrow> key_at b r;
                    let deleted_cmp = bool_int (bkey_deleted rw) - bool_int (bkey_deleted lw);
                    Some (if deleted_cmp \<noteq> 0 then deleted_cmp else addr_cmp l r) } }"

definition bkey_iter_pos_cmp :: "btree \<Rightarrow> nat \<Rightarrow> bpos \<Rightarrow> int option" where
  "bkey_iter_pos_cmp b l r =
     do { lw \<leftarrow> key_at b l;
          cmp \<leftarrow> bkey_cmp_left_packed (b_format b) lw r;
          Some (if cmp \<noteq> 0 then cmp else - bool_int (bkey_deleted lw)) }"

section \<open>Well-formed nodes\<close>

text \<open>The offsets of the keys from \<open>k\<close> up to \<open>e\<close>, if the walk over their lengths ends exactly there.\<close>

function set_keys :: "btree \<Rightarrow> nat \<Rightarrow> nat \<Rightarrow> nat list option" where
  "set_keys b k e =
     (if k = e then Some []
      else do { ws \<leftarrow> key_at b k;
                if pk_u64s ws = 0 \<or> e < k + unat (pk_u64s ws) then None
                else map_option ((#) k) (set_keys b (k + unat (pk_u64s ws)) e) })"
  by pat_completeness auto

termination
proof (relation "measure (\<lambda>(b, k, e). e - k)", goal_cases)
  case (2 b k e ws)
  then have "unat (pk_u64s ws) \<noteq> 0" by (simp add: unat_eq_0)
  with 2 show ?case by auto
qed simp

declare set_keys.simps [simp del]

definition key_pos :: "btree \<Rightarrow> nat \<Rightarrow> bpos" where
  "key_pos b k = the (bkey_unpack_pos (b_format b) (drop k (b_data b)))"

definition key_deleted :: "btree \<Rightarrow> nat \<Rightarrow> bool" where
  "key_deleted b k = bkey_deleted (drop k (b_data b))"

text \<open>A key can be read and holds a position.\<close>

definition key_valid :: "btree \<Rightarrow> nat \<Rightarrow> bool" where
  "key_valid b k \<longleftrightarrow> k < length (b_data b) \<and> (\<exists>p. key_holds (b_format b) (drop k (b_data b)) p)"

definition node_format_ok :: "btree \<Rightarrow> bool" where
  "node_format_ok b \<longleftrightarrow> format_valid (b_format b) \<and> b_nr_key_bits b = bkey_format_key_bits (b_format b)"

text \<open>The order in which an iterator visits keys: by position, deleted keys first, then by address.\<close>

definition rank :: "btree \<Rightarrow> nat \<Rightarrow> bpos \<times> nat \<times> nat" where
  "rank b k = (key_pos b k, if key_deleted b k then 0 else 1, k)"

lemma rank_inj [simp]: "rank b l = rank b r \<longleftrightarrow> l = r"
  by (auto simp: rank_def)

lemma key_valid_pos:
  assumes "node_format_ok b" "key_valid b k"
  shows "key_holds (b_format b) (drop k (b_data b)) (key_pos b k)"
proof -
  from assms obtain p where p: "key_holds (b_format b) (drop k (b_data b)) p" by (auto simp: key_valid_def)
  with assms have "bkey_unpack_pos (b_format b) (drop k (b_data b)) = Some p"
    by (intro key_holds_unpack(1)) (auto simp: node_format_ok_def)
  then show ?thesis using p by (simp add: key_pos_def)
qed

lemma key_at_valid [simp]: "key_valid b k \<Longrightarrow> key_at b k = Some (drop k (b_data b))"
  by (simp add: key_at_def key_valid_def)

section \<open>Comparisons are the orders they implement\<close>

lemma cmp_packed_at:
  assumes "node_format_ok b" "key_valid b l" "key_valid b r"
  shows "bkey_cmp_packed_at b l r = Some (bpos_cmp (key_pos b l) (key_pos b r))"
  using cmp_holds [OF _ key_valid_pos key_valid_pos] assms by (simp add: bkey_cmp_packed_at_def node_format_ok_def)

lemma iter_cmp_rank:
  assumes "node_format_ok b" "key_valid b l" "key_valid b r"
  shows "\<exists>c. bkey_iter_cmp b l r = Some c \<and> (c < 0 \<longleftrightarrow> rank b l < rank b r) \<and> (c = 0 \<longleftrightarrow> l = r) \<and>
    (0 < c \<longleftrightarrow> rank b r < rank b l)"
proof -
  define cp where "cp = bpos_cmp (key_pos b l) (key_pos b r)"
  have sgn: "cp < 0 \<longleftrightarrow> key_pos b l < key_pos b r" "cp = 0 \<longleftrightarrow> key_pos b l = key_pos b r" "0 < cp \<longleftrightarrow> key_pos b r < key_pos b l"
    by (simp_all add: cp_def pos_order)
  have "bkey_iter_cmp b l r = Some (if cp \<noteq> 0 then cp
      else let d = bool_int (key_deleted b r) - bool_int (key_deleted b l) in if d \<noteq> 0 then d else addr_cmp l r)"
    using assms by (simp add: bkey_iter_cmp_def cmp_packed_at cp_def [symmetric] key_deleted_def Let_def)
  then show ?thesis
    using sgn by (cases "cp = 0") (auto simp: rank_def less_prod_def' bool_int_def addr_cmp_def Let_def)
qed

lemma iter_pos_cmp_at:
  assumes "node_format_ok b" "key_valid b l"
  shows "bkey_iter_pos_cmp b l p = Some (let c = bpos_cmp (key_pos b l) p in if c \<noteq> 0 then c else - bool_int (key_deleted b l))"
  using cmp_left_holds [OF _ key_valid_pos [OF assms]] assms
  by (simp add: bkey_iter_pos_cmp_def node_format_ok_def key_deleted_def Let_def)

section \<open>Walks over the keys of a set\<close>

lemma set_keys_refl [simp]: "set_keys b k k = Some []"
  by (simp add: set_keys.simps)

lemma set_keys_Cons:
  "set_keys b k e = Some (x # xs) \<longleftrightarrow>
     k \<noteq> e \<and> x = k \<and> (\<exists>ws. key_at b k = Some ws \<and> pk_u64s ws \<noteq> 0 \<and> k + unat (pk_u64s ws) \<le> e \<and>
       set_keys b (k + unat (pk_u64s ws)) e = Some xs)"
  by (subst set_keys.simps) (auto split: option.splits bind_splits)

lemma set_keys_Nil: "set_keys b k e = Some [] \<longleftrightarrow> k = e"
  by (subst set_keys.simps) (auto split: option.splits bind_splits)

lemma set_keys_bounds: "set_keys b k e = Some xs \<Longrightarrow> x \<in> set xs \<Longrightarrow> k \<le> x \<and> x < e"
proof (induction xs arbitrary: k)
  case (Cons y ys)
  then obtain ws where ws: "y = k" "pk_u64s ws \<noteq> 0" "k + unat (pk_u64s ws) \<le> e" "set_keys b (k + unat (pk_u64s ws)) e = Some ys"
    by (auto simp: set_keys_Cons)
  then have "0 < unat (pk_u64s ws)" by (simp add: unat_gt_0)
  then show ?case using Cons.IH [OF ws(4)] Cons.prems(2) ws by fastforce
qed simp

lemma set_keys_le: "set_keys b k e = Some xs \<Longrightarrow> k \<le> e"
proof (cases xs)
  case (Cons x ys)
  assume "set_keys b k e = Some xs"
  then show ?thesis using Cons by (auto simp: set_keys_Cons)
qed (auto simp: set_keys_Nil)

lemma set_keys_distinct: "set_keys b k e = Some xs \<Longrightarrow> sorted_wrt (<) xs"
proof (induction xs arbitrary: k)
  case (Cons y ys)
  then obtain ws where ws: "y = k" "pk_u64s ws \<noteq> 0" "set_keys b (k + unat (pk_u64s ws)) e = Some ys"
    by (auto simp: set_keys_Cons)
  then have "0 < unat (pk_u64s ws)" by (simp add: unat_gt_0)
  then have "\<forall>x\<in>set ys. k < x" using set_keys_bounds [OF ws(3)] by fastforce
  then show ?case using Cons.IH [OF ws(3)] ws(1) by simp
qed simp

lemma p_next_set_keys:
  "set_keys b k e = Some (x # xs) \<Longrightarrow> \<exists>k'. bkey_p_next b k = Some k' \<and> k < k' \<and> k' \<le> e \<and> set_keys b k' e = Some xs"
  by (auto simp: set_keys_Cons bkey_p_next_def unat_gt_0)

text \<open>A set of the node is in order: its walk ends at the end of the set, every key is valid, and the keys are sorted.\<close>

definition keys_sorted :: "btree \<Rightarrow> nat list \<Rightarrow> bool" where
  "keys_sorted b ks \<longleftrightarrow> sorted_wrt (\<lambda>l r. rank b l < rank b r) ks"

definition run_ok :: "btree \<Rightarrow> nat \<Rightarrow> nat \<Rightarrow> nat list \<Rightarrow> bool" where
  "run_ok b k e ks \<longleftrightarrow> set_keys b k e = Some ks \<and> (\<forall>x\<in>set ks. key_valid b x) \<and> keys_sorted b ks"

lemma run_ok_Nil [simp]: "run_ok b k e [] \<longleftrightarrow> k = e"
  by (simp add: run_ok_def set_keys_Nil keys_sorted_def)

lemma run_ok_Cons:
  "run_ok b k e (x # xs) \<Longrightarrow> x = k \<and> k \<noteq> e \<and> key_valid b k \<and> (\<forall>y\<in>set xs. rank b k < rank b y) \<and>
    (\<exists>k'. bkey_p_next b k = Some k' \<and> k < k' \<and> k' \<le> e \<and> run_ok b k' e xs)"
  using p_next_set_keys [of b k e x xs] by (auto simp: run_ok_def keys_sorted_def set_keys_Cons)

end
