(* ===== verification/Eytzinger.thy ===== *)
theory Eytzinger
  imports Prelude
begin

unbundle bit_operations_syntax

text \<open>
  One-based Eytzinger (breadth first) indices of a binary search tree, \<^verbatim>\<open>util/eytzinger.rs\<close>: children, inorder
  neighbours and the conversion between breadth first and inorder indices. Indices are 32 bit; a left shift
  drops bits silently, a sum or difference that leaves the range and a shift by 32 or more are panics.
\<close>

section \<open>Definitions\<close>

definition shl32 :: "u32 \<Rightarrow> nat \<Rightarrow> u32 option" where
  "shl32 i n = (if n < 32 then Some (push_bit n i) else None)"

definition shr32 :: "u32 \<Rightarrow> nat \<Rightarrow> u32 option" where
  "shr32 i n = (if n < 32 then Some (drop_bit n i) else None)"

text \<open>\<^verbatim>\<open>31 - x.leading_zeros()\<close>, the index of the highest set bit; it overflows for 0.\<close>

definition high_bit :: "u32 \<Rightarrow> nat option" where
  "high_bit x = do { require (leading_zeros x \<le> 31); Some (31 - leading_zeros x) }"

definition sub_nat :: "nat \<Rightarrow> nat \<Rightarrow> nat option" where
  "sub_nat a b = (if b \<le> a then Some (a - b) else None)"

definition eytzinger1_child :: "u32 \<Rightarrow> u32 \<Rightarrow> u32 option" where
  "eytzinger1_child i child = do { require (child \<le> 1); checked_add (push_bit 1 i) child }"

definition eytzinger1_left_child :: "u32 \<Rightarrow> u32 option" where
  "eytzinger1_left_child i = eytzinger1_child i 0"

definition eytzinger1_right_child :: "u32 \<Rightarrow> u32 option" where
  "eytzinger1_right_child i = eytzinger1_child i 1"

definition rounddown_pow_of_two :: "u32 \<Rightarrow> u32 option" where
  "rounddown_pow_of_two v = (if v = 0 then Some 0 else do { h \<leftarrow> high_bit v; shl32 1 h })"

definition eytzinger1_first :: "u32 \<Rightarrow> u32 option" where
  "eytzinger1_first n = rounddown_pow_of_two n"

definition eytzinger1_last :: "u32 \<Rightarrow> u32 option" where
  "eytzinger1_last n = do { m \<leftarrow> checked_add n 1; r \<leftarrow> rounddown_pow_of_two m; checked_sub r 1 }"

definition eytzinger1_next :: "u32 \<Rightarrow> u32 \<Rightarrow> u32 option" where
  "eytzinger1_next i n =
     do { require (i \<noteq> 0 \<and> i \<le> n);
          c \<leftarrow> eytzinger1_right_child i;
          if c \<le> n then
            do { hs \<leftarrow> high_bit n; hi \<leftarrow> high_bit c; s \<leftarrow> sub_nat hs hi;
                 i \<leftarrow> shl32 c s;
                 shr32 i (if i > n then 1 else 0) }
          else shr32 i (trailing_ones i + 1) }"

definition eytzinger1_prev :: "u32 \<Rightarrow> u32 \<Rightarrow> u32 option" where
  "eytzinger1_prev i n =
     do { require (i \<noteq> 0 \<and> i \<le> n);
          c \<leftarrow> eytzinger1_left_child i;
          if c \<le> n then
            do { i \<leftarrow> checked_add c 1;
                 hs \<leftarrow> high_bit n; hi \<leftarrow> high_bit i; s \<leftarrow> sub_nat hs hi;
                 i \<leftarrow> shl32 i s;
                 i \<leftarrow> checked_sub i 1;
                 shr32 i (if i > n then 1 else 0) }
          else shr32 i (trailing_zeros i + 1) }"

definition eytzinger1_extra :: "u32 \<Rightarrow> u32 option" where
  "eytzinger1_extra n =
     (if n \<noteq> 0 then do { m \<leftarrow> checked_add n 1; r \<leftarrow> rounddown_pow_of_two n; d \<leftarrow> checked_sub m r; Some (push_bit 1 d) }
      else Some 0)"

definition raw_eytzinger1_to_inorder :: "u32 \<Rightarrow> u32 \<Rightarrow> u32 \<Rightarrow> u32 option" where
  "raw_eytzinger1_to_inorder i n extra =
     do { require (i \<noteq> 0 \<and> i \<le> n);
          b \<leftarrow> high_bit i;
          hs \<leftarrow> high_bit n;
          shift \<leftarrow> sub_nat hs b;
          top \<leftarrow> shl32 1 b;
          i \<leftarrow> shl32 (push_bit 1 (i XOR top) OR 1) shift;
          if i > extra then checked_sub i (drop_bit 1 (i - extra)) else Some i }"

definition raw_inorder_to_eytzinger1 :: "u32 \<Rightarrow> u32 \<Rightarrow> u32 \<Rightarrow> u32 option" where
  "raw_inorder_to_eytzinger1 i n extra =
     do { require (i \<noteq> 0 \<and> i \<le> n);
          i \<leftarrow> (if i > extra then checked_add i (i - extra) else Some i);
          let shift = trailing_zeros i;
          i \<leftarrow> shr32 i (shift + 1);
          hs \<leftarrow> high_bit n;
          d \<leftarrow> sub_nat hs shift;
          top \<leftarrow> shl32 1 d;
          Some (i OR top) }"

definition eytzinger1_to_inorder :: "u32 \<Rightarrow> u32 \<Rightarrow> u32 option" where
  "eytzinger1_to_inorder i n = do { extra \<leftarrow> eytzinger1_extra n; raw_eytzinger1_to_inorder i n extra }"

definition inorder_to_eytzinger1 :: "u32 \<Rightarrow> u32 \<Rightarrow> u32 option" where
  "inorder_to_eytzinger1 i n = do { extra \<leftarrow> eytzinger1_extra n; raw_inorder_to_eytzinger1 i n extra }"

section \<open>Indices as natural numbers\<close>

lemma high_bit_eq: "x \<noteq> 0 \<Longrightarrow> high_bit x = Some (bit_len (unat x) - 1)"
proof -
  assume "x \<noteq> 0"
  then obtain m where "bit_len (unat x) = Suc m" by (cases "bit_len (unat x)") (auto simp: unat_eq_0)
  then show ?thesis using bit_len_unat_le [of x] by (simp add: high_bit_def leading_zeros_def)
qed

text \<open>\<open>lg n\<close> is the level of index \<open>n\<close>.\<close>

definition lg :: "nat \<Rightarrow> nat" where
  "lg n = bit_len n - 1"

lemma lg_bounds: "0 < n \<Longrightarrow> 2 ^ lg n \<le> n \<and> n < 2 * 2 ^ lg n"
  using power_bit_len_le [of n] less_power_bit_len [of n] by (cases "bit_len n") (auto simp: lg_def)

lemma lg_unique: "2 ^ k \<le> n \<Longrightarrow> n < 2 * 2 ^ k \<Longrightarrow> lg n = k"
  using bit_len_eqI [of k n] by (simp add: lg_def)

lemma lg_mono: "0 < m \<Longrightarrow> m \<le> n \<Longrightarrow> lg m \<le> lg n"
proof -
  assume m: "0 < m" "m \<le> n"
  then have "2 ^ lg m \<le> m" "n < 2 * 2 ^ lg n" using lg_bounds [of m] lg_bounds [of n] by auto
  then have "(2::nat) ^ lg m < 2 ^ Suc (lg n)" using m(2) unfolding power_Suc by linarith
  then have "lg m < Suc (lg n)" by (rule power_less_imp_less_exp [rotated]) simp
  then show ?thesis by simp
qed

lemma high_bit_lg: "x \<noteq> 0 \<Longrightarrow> high_bit x = Some (lg (unat x))"
  by (simp add: high_bit_eq lg_def)

text \<open>The inorder index in the full tree of \<open>k + 1\<close> levels, and the number of absent leaves before it.\<close>

definition full_index :: "nat \<Rightarrow> nat \<Rightarrow> nat" where
  "full_index k i = (2 * (i - 2 ^ lg i) + 1) * 2 ^ (k - lg i)"

definition extra_nat :: "nat \<Rightarrow> nat" where
  "extra_nat n = 2 * (n + 1 - 2 ^ lg n)"

definition inorder_nat :: "nat \<Rightarrow> nat \<Rightarrow> nat" where
  "inorder_nat n i = (let j = full_index (lg n) i in if j > extra_nat n then j - (j - extra_nat n) div 2 else j)"

definition uninorder_nat :: "nat \<Rightarrow> nat \<Rightarrow> nat" where
  "uninorder_nat n j =
     (let j = (if j > extra_nat n then j + (j - extra_nat n) else j); s = low_zeros j
      in j div 2 ^ (s + 1) + 2 ^ (lg n - s))"

lemma low_zeros_full: "lg i \<le> k \<Longrightarrow> low_zeros (full_index k i) = k - lg i"
  unfolding full_index_def by (rule low_zeros_mult_power) simp

lemma full_index_bounds:
  assumes "0 < i" "lg i \<le> k"
  shows "0 < full_index k i" "full_index k i < 2 ^ Suc k"
proof -
  have "i - 2 ^ lg i < 2 ^ lg i" using lg_bounds [OF assms(1)] by linarith
  then have "2 * (i - 2 ^ lg i) + 1 < 2 * 2 ^ lg i" by simp
  then have "full_index k i < 2 * 2 ^ lg i * 2 ^ (k - lg i)" unfolding full_index_def by (intro mult_strict_right_mono) auto
  also have "\<dots> = 2 ^ Suc k" using assms(2) by (simp flip: power_add)
  finally show "full_index k i < 2 ^ Suc k" .
  show "0 < full_index k i" by (simp add: full_index_def)
qed

lemma full_index_inv:
  assumes "0 < i" "lg i \<le> k"
  shows "full_index k i div 2 ^ (low_zeros (full_index k i) + 1) + 2 ^ (k - low_zeros (full_index k i)) = i"
proof -
  have "full_index k i div 2 ^ (k - lg i + 1) = (2 * (i - 2 ^ lg i) + 1) div 2"
    unfolding full_index_def power_add power_one_right div_mult2_eq by simp
  then show ?thesis using low_zeros_full [OF assms(2)] lg_bounds [OF assms(1)] assms(2) by simp
qed

text \<open>An index of the tree is absent from the full tree only at the leaves, past the extra ones.\<close>

lemma extra_bounds: "0 < n \<Longrightarrow> 2 \<le> extra_nat n \<and> extra_nat n \<le> 2 ^ Suc (lg n) \<and> even (extra_nat n)"
proof -
  assume "0 < n"
  then have "2 ^ lg n \<le> n" "n < 2 * 2 ^ lg n" using lg_bounds by auto
  then show ?thesis unfolding extra_nat_def power_Suc by (intro conjI; (simp; fail)?; linarith)
qed

lemma full_index_leaf:
  assumes "0 < i" "i \<le> n"
  shows "odd (full_index (lg n) i) \<Longrightarrow> full_index (lg n) i < extra_nat n"
proof -
  assume "odd (full_index (lg n) i)"
  then have "lg n - lg i = 0" by (auto simp: full_index_def)
  then have l: "lg i = lg n" using lg_mono [OF assms] by simp
  then have "i - 2 ^ lg n \<le> n - 2 ^ lg n" "2 ^ lg n \<le> n" using assms lg_bounds [of n] by auto
  then show ?thesis by (auto simp: full_index_def extra_nat_def l)
qed

lemma inorder_range:
  assumes "0 < i" "i \<le> n"
  shows "1 \<le> inorder_nat n i" "inorder_nat n i \<le> n"
proof -
  let ?j = "full_index (lg n) i" and ?e = "extra_nat n"
  have n: "0 < n" using assms by simp
  have j: "0 < ?j" "?j < 2 ^ Suc (lg n)" using full_index_bounds [OF assms(1) lg_mono [OF assms]] by auto
  have e: "2 \<le> ?e" "even ?e" "?e = 2 * (n + 1 - 2 ^ lg n)" "2 ^ lg n \<le> n"
    using extra_bounds [OF n] lg_bounds [OF n] by (auto simp: extra_nat_def)
  define P where "P = (2::nat) ^ lg n"
  have P: "?j < 2 * P" "P \<le> n" "?e = 2 * (n + 1 - P)" using j(2) e by (auto simp: P_def)
  show "1 \<le> inorder_nat n i" using j(1) e(1) by (auto simp: inorder_nat_def Let_def)
  show "inorder_nat n i \<le> n"
  proof (cases "?j > ?e")
    case True
    then have "even ?j" using full_index_leaf [OF assms] by (meson not_less_iff_gr_or_eq)
    then obtain h where h: "?j = 2 * h" by (elim evenE)
    have "?j - (?j - ?e) div 2 \<le> n" using True P unfolding h P(3) by simp
    then show ?thesis using True by (simp add: inorder_nat_def Let_def)
  next
    case False
    have "?j \<le> n"
    proof (cases "even ?j")
      case True
      then obtain h where h: "?j = 2 * h" by (elim evenE)
      then show ?thesis using False P unfolding h P(3) by linarith
    next
      case odd: False
      then have "?j < ?e" by (rule full_index_leaf [OF assms])
      then show ?thesis using P by linarith
    qed
    then show ?thesis using False by (simp add: inorder_nat_def Let_def)
  qed
qed

lemma uninorder_inorder:
  assumes "0 < i" "i \<le> n"
  shows "uninorder_nat n (inorder_nat n i) = i"
proof -
  let ?j = "full_index (lg n) i" and ?e = "extra_nat n"
  have e: "even ?e" using extra_bounds [of n] assms by auto
  have "(let x = inorder_nat n i in if x > ?e then x + (x - ?e) else x) = ?j"
  proof (cases "?j > ?e")
    case True
    then have "even ?j" using full_index_leaf [OF assms] by (meson not_less_iff_gr_or_eq)
    then show ?thesis using True e by (auto simp: inorder_nat_def Let_def elim!: evenE)
  qed (simp add: inorder_nat_def)
  then show ?thesis
    using full_index_inv [OF assms(1) lg_mono [OF assms]] by (simp add: uninorder_nat_def Let_def)
qed

section \<open>The conversions on words\<close>

lemma unat_push_small: "unat x * 2 ^ n < 2 ^ 32 \<Longrightarrow> unat (push_bit n x) = unat x * 2 ^ n" for x :: u32
  unfolding unsigned_push_bit_eq by (simp add: push_bit_eq_mult take_bit_nat_eq_self_iff)

lemma unat_drop: "unat (drop_bit n x) = unat x div 2 ^ n" for x :: u32
proof -
  have "take_bit 32 (unat x) = unat x" using unsigned_less [where 'a = nat, of x] by (simp add: take_bit_nat_eq_self_iff)
  then show ?thesis unfolding unsigned_drop_bit_eq by (simp add: drop_bit_eq_div)
qed

lemma top_bit_set: "0 < i \<Longrightarrow> bit i (lg i)"
proof -
  assume "0 < i"
  then have "i div 2 ^ lg i = 1" using lg_bounds [of i] by (simp add: div_nat_eqI)
  then show ?thesis by (simp add: bit_iff_odd)
qed

lemma lg_less_32: "0 < unat (i :: u32) \<Longrightarrow> lg (unat i) < 32"
proof -
  assume "0 < unat i"
  then have "(2::nat) ^ lg (unat i) < 2 ^ 32"
    using lg_bounds [of "unat i"] unsigned_less [where 'a = nat, of i] by (simp del: power_strict_increasing_iff)
  then show ?thesis by (rule power_less_imp_less_exp [rotated]) simp
qed

lemma clear_top:
  fixes i :: u32
  assumes "i \<noteq> 0"
  shows "unat (i XOR push_bit (lg (unat i)) 1) = unat i - 2 ^ lg (unat i)"
proof -
  let ?b = "lg (unat i)"
  have pos: "0 < unat i" using assms by (simp add: unat_gt_0)
  have b: "bit i ?b" using top_bit_set [OF pos] by (simp add: bit_unsigned_iff)
  have l: "?b < 32" using lg_less_32 [OF pos] .
  have "i XOR push_bit ?b 1 = unset_bit ?b i"
    unfolding flip_bit_eq_xor [symmetric] flip_bit_eq_if using b by simp
  also have "\<dots> = i - 2 ^ ?b" using b by (simp add: unset_bit_eq)
  finally have e: "i XOR push_bit ?b 1 = i - 2 ^ ?b" .
  have u: "unat (2 ^ ?b :: u32) = 2 ^ ?b" using l by (simp add: unat_pow2)
  have "(2 ^ ?b :: u32) \<le> i" using u lg_bounds [OF pos] by (simp add: word_le_nat_alt)
  then show ?thesis using e u by (simp add: unat_sub)
qed

lemma or_1: "unat x < 2 ^ 31 \<Longrightarrow> unat (push_bit 1 x OR 1) = 2 * unat x + 1" for x :: u32
proof -
  assume x: "unat x < 2 ^ 31"
  have "push_bit 1 x OR 1 = push_bit 1 x + 1" by (simp add: or_one_eq)
  moreover have "unat (push_bit 1 x) = 2 * unat x" using unat_push_small [of x 1] x by simp
  ultimately show ?thesis using x by (simp add: unat_word_ariths)
qed

lemma extra_word:
  assumes "0 < unat n" "unat n < 2 ^ 31"
  shows "\<exists>e. eytzinger1_extra n = Some e \<and> unat e = extra_nat (unat n)"
proof -
  let ?k = "lg (unat n)"
  have n0: "n \<noteq> 0" using assms by (auto simp: unat_gt_0)
  have k: "?k < 32" using lg_less_32 [OF assms(1)] .
  have r: "rounddown_pow_of_two n = Some (2 ^ ?k)" "unat (2 ^ ?k :: u32) = 2 ^ ?k"
    using n0 high_bit_eq [OF n0] k by (simp_all add: rounddown_pow_of_two_def shl32_def lg_def unat_pow2)
  have b: "2 ^ ?k \<le> unat n" "unat n < 2 * 2 ^ ?k" using lg_bounds [OF assms(1)] by auto
  have n1: "unat (n + 1) = unat n + 1" using assms by (simp add: unat_word_ariths)
  have d: "unat (n + 1 - 2 ^ ?k) = unat n + 1 - 2 ^ ?k" "2 ^ ?k \<le> n + 1"
    using b n1 r(2) by (auto simp: word_le_nat_alt unat_sub)
  have "unat (push_bit 1 (n + 1 - 2 ^ ?k)) = extra_nat (unat n)"
    using unat_push_small [of "n + 1 - 2 ^ ?k" 1] d b assms by (simp add: extra_nat_def)
  then show ?thesis
    using n0 r d n1 assms by (auto simp: eytzinger1_extra_def checked_add_Some checked_sub_Some checked_add_def checked_sub_def word_le_nat_alt)
qed

lemma to_inorder_word:
  assumes i: "0 < unat i" "unat i \<le> unat n" and n: "unat n < 2 ^ 31" and e: "unat e = extra_nat (unat n)"
  shows "\<exists>j. raw_eytzinger1_to_inorder i n e = Some j \<and> unat j = inorder_nat (unat n) (unat i)"
proof -
  let ?k = "lg (unat n)" and ?b = "lg (unat i)"
  have nz: "i \<noteq> 0" "n \<noteq> 0" "i \<le> n" using i by (auto simp: word_le_nat_alt)
  have b: "?b \<le> ?k" "?b < 32" "?k < 32" using lg_mono [OF i] lg_less_32 [of i] lg_less_32 [of n] i by auto
  have c: "unat (i XOR push_bit ?b 1) = unat i - 2 ^ ?b" using clear_top nz(1) .
  define w where "w = push_bit 1 (i XOR push_bit ?b 1) OR 1"
  have w: "unat w = 2 * (unat i - 2 ^ ?b) + 1" unfolding w_def using or_1 [of "i XOR push_bit ?b 1"] c n i by simp
  have f: "full_index ?k (unat i) < 2 ^ Suc ?k" using full_index_bounds [OF i(1) b(1)] by simp
  have "(2::nat) ^ ?k < 2 ^ 31" using lg_bounds [of "unat n"] n i by linarith
  then have "(2::nat) ^ Suc ?k < 2 ^ 32" by simp
  then have j: "unat (push_bit (?k - ?b) w) = full_index ?k (unat i)"
    using unat_push_small [of w "?k - ?b"] w f by (simp add: full_index_def)
  define j where "j = push_bit (?k - ?b) w"
  have h: "high_bit i = Some ?b" "high_bit n = Some ?k" using high_bit_lg nz by auto
  have s: "shl32 1 ?b = Some (push_bit ?b 1)" "sub_nat ?k ?b = Some (?k - ?b)" "shl32 w (?k - ?b) = Some j"
    using b by (auto simp: shl32_def sub_nat_def j_def)
  have run: "raw_eytzinger1_to_inorder i n e = (if j > e then checked_sub j (drop_bit 1 (j - e)) else Some j)"
    using nz by (simp only: raw_eytzinger1_to_inorder_def h s(1,2) s(3) [unfolded w_def] bind.bind_lunit
        require_True simp_thms)
  show ?thesis
  proof (cases "j > e")
    case True
    have u: "unat (drop_bit 1 (j - e)) = (unat j - unat e) div 2" using True by (simp add: unat_drop unat_sub)
    then have "drop_bit 1 (j - e) \<le> j" by (simp add: word_le_nat_alt)
    then show ?thesis
      using True run u j e by (auto simp: checked_sub_def unat_sub inorder_nat_def j_def [symmetric] word_less_nat_alt Let_def)
  next
    case False
    then show ?thesis using run j e by (simp add: inorder_nat_def j_def [symmetric] word_less_nat_alt)
  qed
qed

lemma trailing_zeros_unat: "x \<noteq> 0 \<Longrightarrow> trailing_zeros x = low_zeros (unat x)"
  by (simp add: trailing_zeros_def)

lemma low_zeros_decomp: "0 < j \<Longrightarrow> \<exists>m. odd m \<and> j = m * 2 ^ low_zeros j"
proof (induction j rule: less_induct)
  case (less j)
  show ?case
  proof (cases "odd j")
    case True
    then have "low_zeros j = 0" by (subst low_zeros.simps) simp
    then show ?thesis using True by (intro exI [of _ j]) simp
  next
    case False
    then have "0 < j div 2" "j div 2 < j" using less.prems by (auto elim!: evenE)
    then obtain m where "odd m" "j div 2 = m * 2 ^ low_zeros (j div 2)" using less.IH by blast
    moreover have "low_zeros j = Suc (low_zeros (j div 2))" using False less.prems by (subst low_zeros.simps) simp
    moreover have "j = 2 * (j div 2)" using False by simp
    ultimately show ?thesis by (intro exI [of _ m]) (simp add: mult.left_commute)
  qed
qed

lemma or_high:
  fixes x :: u32
  assumes "unat x < 2 ^ d" "d < 32"
  shows "unat (x OR push_bit d 1) = unat x + 2 ^ d"
proof -
  have "x AND push_bit d 1 = 0"
  proof (rule bit_word_eqI)
    fix m
    show "bit (x AND push_bit d 1) m = bit (0 :: u32) m"
    proof (cases "m = d")
      case True
      have "unat x div 2 ^ d = 0" using assms(1) by simp
      then have "\<not> bit (unat x) d" by (simp add: bit_iff_odd)
      then have "\<not> bit x d" using assms(2) by (simp add: bit_unsigned_iff)
      then show ?thesis using True by (simp add: bit_and_iff)
    qed (auto simp: bit_and_iff bit_exp_iff)
  qed
  then have e: "x OR push_bit d 1 = x + push_bit d 1" by (simp only: disjunctive_add_eq_or)
  have "(2::nat) ^ d \<le> 2 ^ 31" using assms(2) by (intro power_increasing) auto
  then have "unat x + 2 ^ d < 2 ^ 32" using assms(1) by simp
  moreover have "unat (push_bit d 1 :: u32) = 2 ^ d" using assms(2) by (simp add: unat_pow2)
  ultimately show ?thesis unfolding e by (simp add: unat_word_ariths)
qed

text \<open>The full index is recovered from the inorder index.\<close>

lemma inorder_full:
  assumes "0 < i" "i \<le> n"
  shows "(if extra_nat n < inorder_nat n i then inorder_nat n i + (inorder_nat n i - extra_nat n) else inorder_nat n i)
    = full_index (lg n) i"
proof (cases "full_index (lg n) i > extra_nat n")
  case True
  then have "even (full_index (lg n) i)" using full_index_leaf [OF assms] by (meson not_less_iff_gr_or_eq)
  moreover have "even (extra_nat n)" using extra_bounds [of n] assms by auto
  ultimately show ?thesis using True by (auto simp: inorder_nat_def Let_def elim!: evenE)
qed (simp add: inorder_nat_def)

lemma of_inorder_word:
  assumes i: "0 < i" "i \<le> unat n" and n: "unat n < 2 ^ 31" and e: "unat e = extra_nat (unat n)"
    and j: "unat j = inorder_nat (unat n) i"
  shows "\<exists>r. raw_inorder_to_eytzinger1 j n e = Some r \<and> unat r = i"
proof -
  let ?k = "lg (unat n)" and ?y = "full_index (lg (unat n)) i"
  have rng: "1 \<le> unat j" "unat j \<le> unat n" using inorder_range [OF i] j by auto
  have li: "lg i \<le> ?k" using lg_mono [OF i] .
  have k: "?k < 32" using lg_less_32 [of n] i by simp
  define x where "x = (if j > e then j + (j - e) else j)"
  have x: "(if j > e then checked_add j (j - e) else Some j) = Some x \<and> unat x = ?y"
  proof (cases "j > e")
    case True
    have "unat (j - e) = unat j - unat e" using True by (simp add: unat_sub)
    then have "unat j + unat (j - e) < 2 ^ LENGTH(32)" using rng n by simp
    then have a: "checked_add j (j - e) = Some (j + (j - e))" by (simp only: checked_add_Some simp_thms)
    have "unat e < unat j" using True by (simp add: word_less_nat_alt)
    then have "unat (j + (j - e)) = ?y"
      using unat_checked_add [OF a] inorder_full [OF i] j e \<open>unat (j - e) = unat j - unat e\<close> by simp
    then show ?thesis using True a by (simp only: x_def if_True simp_thms)
  next
    case False
    then show ?thesis using inorder_full [OF i] j e by (simp add: x_def word_less_nat_alt)
  qed
  have nz: "j \<noteq> 0" "n \<noteq> 0" "j \<le> n" using rng by (auto simp: word_le_nat_alt)
  have "x \<noteq> 0" using x full_index_bounds(1) [OF i(1) li] by auto
  then have tz: "trailing_zeros x = ?k - lg i" using x low_zeros_full [OF li] by (simp add: trailing_zeros_unat)
  have q: "?y div 2 ^ (?k - lg i + 1) = i - 2 ^ lg i"
    unfolding full_index_def power_add power_one_right div_mult2_eq by simp
  have small: "i - 2 ^ lg i < 2 ^ lg i" using lg_bounds [OF i(1)] by linarith
  have sft: "shr32 x (trailing_zeros x + 1) = Some (drop_bit (?k - lg i + 1) x) \<and> unat (drop_bit (?k - lg i + 1) x) = i - 2 ^ lg i"
    if "?k - lg i + 1 < 32"
    using that tz x q by (simp add: shr32_def unat_drop)
  have lt: "?k - lg i + 1 < 32"
  proof -
    have "(2::nat) ^ ?k < 2 ^ 31" using lg_bounds [of "unat n"] n i by linarith
    then have "?k < 31" by (rule power_less_imp_less_exp [rotated]) simp
    then show ?thesis by simp
  qed
  define q' where "q' = drop_bit (?k - lg i + 1) x"
  have q': "unat q' = i - 2 ^ lg i" using sft [OF lt] by (simp add: q'_def)
  have h: "high_bit n = Some ?k" "sub_nat ?k (?k - lg i) = Some (lg i)" "shl32 1 (lg i) = Some (push_bit (lg i) 1)"
    using high_bit_lg [OF nz(2)] li k by (auto simp: sub_nat_def shl32_def)
  have "raw_inorder_to_eytzinger1 j n e = Some (q' OR push_bit (lg i) 1)"
    using nz by (simp only: raw_inorder_to_eytzinger1_def Let_def x [THEN conjunct1] sft [OF lt, THEN conjunct1, unfolded tz] h tz
        q'_def bind.bind_lunit require_True simp_thms)
  moreover have "unat (q' OR push_bit (lg i) 1) = i"
    using or_high [of q' "lg i"] q' small li k lg_bounds [OF i(1)] by simp
  ultimately show ?thesis by blast
qed

text \<open>
  For a tree of at most \<open>2 ^ 31 - 1\<close> nodes the conversions between breadth first and inorder indices never
  panic, stay within the tree and are inverse to each other.\<close>

lemma eytzinger_inorder_roundtrip:
  assumes "0 < unat i" "unat i \<le> unat n" "unat n < 2 ^ 31"
  shows "\<exists>j. eytzinger1_to_inorder i n = Some j \<and> 0 < unat j \<and> unat j \<le> unat n \<and> inorder_to_eytzinger1 j n = Some i"
proof -
  obtain e where e: "eytzinger1_extra n = Some e" "unat e = extra_nat (unat n)" using extra_word assms by force
  obtain j where j: "raw_eytzinger1_to_inorder i n e = Some j" "unat j = inorder_nat (unat n) (unat i)"
    using to_inorder_word [OF assms e(2)] by blast
  obtain r where r: "raw_inorder_to_eytzinger1 j n e = Some r" "unat r = unat i"
    using of_inorder_word [OF assms e(2) j(2)] by blast
  have "r = i" using r(2) by (simp add: word_unat_eq_iff)
  then show ?thesis
    using e(1) j r(1) inorder_range [OF assms(1,2)] by (simp add: eytzinger1_to_inorder_def inorder_to_eytzinger1_def)
qed

end
