(* ===== verification/Bset_Search.thy ===== *)
theory Bset_Search
  imports Btree_Node Eytzinger
begin

unbundle bit_operations_syntax

text \<open>
  Searching a set of a btree node, \<^verbatim>\<open>btree/bset_search.rs\<close>: the lookup table of a set that is being written, the
  read-only search tree of a written set, the linear search that finishes a lookup, and stepping back to the
  previous key. The theorems are about sets without a table and sets with the table of a set being written.
\<close>

section \<open>Lookup tables\<close>

definition BSET_CACHELINE :: nat where [code_consts]: "BSET_CACHELINE = 256"
definition BFLOAT_FAILED :: nat where [code_consts]: "BFLOAT_FAILED = 255"

definition ro_aux_tree_base :: "bset_tree \<Rightarrow> bkey_float list option" where
  "ro_aux_tree_base t =
     do { k \<leftarrow> bset_aux_tree_kind t; require (k = BSET_RO_AUX_TREE); Some (t_ro t) }"

definition rw_aux_tree_base :: "bset_tree \<Rightarrow> rw_aux_tree list option" where
  "rw_aux_tree_base t =
     do { k \<leftarrow> bset_aux_tree_kind t; require (k = BSET_RW_AUX_TREE); Some (t_rw t) }"

definition rw_entry :: "bset_tree \<Rightarrow> nat \<Rightarrow> rw_aux_tree option" where
  "rw_entry t j = do { tree \<leftarrow> rw_aux_tree_base t; nth_opt tree j }"

text \<open>The byte address of a cache line of the set, and the key at a word of it.\<close>

definition bset_cacheline :: "btree \<Rightarrow> bset_tree \<Rightarrow> nat \<Rightarrow> nat" where
  "bset_cacheline b t cacheline =
     (let first = b_addr b + 8 * btree_bkey_first t in first div 64 * 64 + cacheline * BSET_CACHELINE)"

definition addr_to_key :: "btree \<Rightarrow> nat \<Rightarrow> nat option" where
  "addr_to_key b a =
     do { require (b_addr b \<le> a); require ((a - b_addr b) mod 8 = 0); Some ((a - b_addr b) div 8) }"

definition cacheline_to_bkey :: "btree \<Rightarrow> bset_tree \<Rightarrow> nat \<Rightarrow> nat \<Rightarrow> nat option" where
  "cacheline_to_bkey b t cacheline off = addr_to_key b (bset_cacheline b t cacheline + off * 8)"

definition bkey_to_cacheline :: "btree \<Rightarrow> bset_tree \<Rightarrow> nat \<Rightarrow> nat option" where
  "bkey_to_cacheline b t k =
     do { d \<leftarrow> sub_nat (b_addr b + 8 * k) (bset_cacheline b t 0); Some (d div BSET_CACHELINE) }"

definition tree_to_bkey :: "btree \<Rightarrow> bset_tree \<Rightarrow> u32 \<Rightarrow> nat option" where
  "tree_to_bkey b t j =
     do { base \<leftarrow> ro_aux_tree_base t;
          f \<leftarrow> nth_opt base (unat j);
          n \<leftarrow> checked_sub (of_nat (t_size t)) 1;
          i \<leftarrow> raw_eytzinger1_to_inorder j n (of_nat (t_extra t));
          cacheline_to_bkey b t (unat i) (bf_key_offset f) }"

definition rw_aux_to_bkey :: "bset_tree \<Rightarrow> nat \<Rightarrow> nat option" where
  "rw_aux_to_bkey t j = map_option ra_offset (rw_entry t j)"

text \<open>The two scans of \<^verbatim>\<open>rw_aux_tree_bsearch\<close> from the interpolated index.\<close>

function rw_scan_up :: "bset_tree \<Rightarrow> nat \<Rightarrow> nat \<Rightarrow> nat option" where
  "rw_scan_up t off idx =
     (if idx < t_size t then
        do { e \<leftarrow> rw_entry t idx;
             if ra_offset e < off then rw_scan_up t off (idx + 1) else Some idx }
      else Some idx)"
  by pat_completeness auto

termination by (relation "measure (\<lambda>(t, off, idx). t_size t - idx)") auto

declare rw_scan_up.simps [simp del]

fun rw_scan_down :: "bset_tree \<Rightarrow> nat \<Rightarrow> nat \<Rightarrow> nat option" where
  "rw_scan_down t off 0 = Some 0"
| "rw_scan_down t off (Suc idx) =
     do { e \<leftarrow> rw_entry t idx;
          if ra_offset e \<ge> off then rw_scan_down t off idx else Some (Suc idx) }"

definition rw_aux_tree_bsearch :: "bset_tree \<Rightarrow> nat \<Rightarrow> nat option" where
  "rw_aux_tree_bsearch t off =
     do { bset_offs \<leftarrow> sub_nat off (btree_bkey_first_offset t);
          bset_u64s \<leftarrow> sub_nat (t_end_offset t) (btree_bkey_first_offset t);
          let idx = (if bset_u64s \<noteq> 0 then bset_offs * t_size t div bset_u64s else 0);
          k \<leftarrow> bset_aux_tree_kind t;
          require (k = BSET_RW_AUX_TREE);
          require (t_size t \<noteq> 0);
          require (idx \<le> t_size t);
          idx \<leftarrow> rw_scan_up t off idx;
          rw_scan_down t off idx }"

section \<open>The read-only search tree\<close>

definition read_unaligned :: "u64 list \<Rightarrow> nat \<Rightarrow> u64 option" where
  "read_unaligned ws n =
     do { lo \<leftarrow> nth_opt ws (n div 8);
          if n mod 8 = 0 then Some lo
          else do { hi \<leftarrow> nth_opt ws (n div 8 + 1);
                    Some (drop_bit (8 * (n mod 8)) lo OR push_bit (64 - 8 * (n mod 8)) hi) } }"

definition bkey_mantissa :: "bkey_packed \<Rightarrow> bkey_float \<Rightarrow> u16 option" where
  "bkey_mantissa k f =
     do { require (bkey_is_packed k);
          w \<leftarrow> read_unaligned k (bf_exponent f div 8);
          Some (ucast (drop_bit (bf_exponent f mod 8) w)) }"

definition bkey_cmp_p_or_unp :: "btree \<Rightarrow> bkey_packed \<Rightarrow> bkey_packed option \<Rightarrow> bpos \<Rightarrow> int option" where
  "bkey_cmp_p_or_unp b l r_packed r =
     (if \<not> bkey_is_packed l then do { p \<leftarrow> unpacked_pos l; Some (bpos_cmp p r) }
      else case r_packed of
        Some rp \<Rightarrow> do { require (bkey_is_packed rp); bch2_bkey_cmp_packed (b_format b) (b_nr_key_bits b) l rp }
      | None \<Rightarrow> do { p \<leftarrow> bkey_unpack_pos (b_format b) l; Some (bpos_cmp p r) })"

definition bkey_iter_cmp_p_or_unp :: "btree \<Rightarrow> bkey_packed \<Rightarrow> bkey_packed option \<Rightarrow> bpos \<Rightarrow> int option" where
  "bkey_iter_cmp_p_or_unp b l r_packed r =
     do { ret \<leftarrow> bkey_cmp_p_or_unp b l r_packed r; Some (if ret \<noteq> 0 then ret else - bool_int (bkey_deleted l)) }"

definition search_iter_pos_cmp :: "btree \<Rightarrow> bkey_packed \<Rightarrow> bpos \<Rightarrow> int option" where
  "search_iter_pos_cmp b l r =
     do { p \<leftarrow> bkey_unpack_pos (b_format b) l;
          let ret = bpos_cmp p r;
          Some (if ret \<noteq> 0 then ret else - bool_int (bkey_deleted l)) }"

definition bkey_mantissa_bits_dropped :: "btree \<Rightarrow> bkey_float \<Rightarrow> bool option" where
  "bkey_mantissa_bits_dropped b f =
     do { key_bits_start \<leftarrow> sub_nat (unat (f_key_u64s (b_format b)) * 64) (b_nr_key_bits b);
          Some (bf_exponent f > key_bits_start) }"

text \<open>The descent: an exact match, or the index below the tree where the search ended, with the last node visited.\<close>

partial_function (option) search_tree_loop ::
    "btree \<Rightarrow> bset_tree \<Rightarrow> bkey_float list \<Rightarrow> bpos \<Rightarrow> bkey_packed \<Rightarrow> nat \<Rightarrow> (nat + nat) option" where
  "search_tree_loop b t base search packed n =
     Option.bind (nth_opt base n) (\<lambda>f.
       Option.bind
         (if bf_exponent f < BFLOAT_FAILED then
            Option.bind (bkey_mantissa packed f) (\<lambda>r.
              Option.bind (bkey_mantissa_bits_dropped b f) (\<lambda>dropped.
                Some (if bf_mantissa f \<noteq> r \<or> \<not> dropped then Some (bf_mantissa f < r) else None)))
          else Some None) (\<lambda>dir.
         case dir of
           Some right \<Rightarrow>
             (let n = n * 2 + (if right then 1 else 0)
              in if n < t_size t then search_tree_loop b t base search packed n else Some (Inr n))
         | None \<Rightarrow>
             Option.bind (tree_to_bkey b t (of_nat n)) (\<lambda>k.
               Option.bind (key_at b k) (\<lambda>kw.
                 Option.bind (bkey_cmp_p_or_unp b kw (Some packed) search) (\<lambda>cmp.
                   if cmp = 0 then Some (Inl k)
                   else let n = n * 2 + (if cmp < 0 then 1 else 0)
                        in if n \<ge> t_size t then Some (Inr n)
                           else search_tree_loop b t base search packed n)))))"

declare search_tree_loop.simps [code]

definition bset_search_tree :: "btree \<Rightarrow> bset_tree \<Rightarrow> bpos \<Rightarrow> bkey_packed \<Rightarrow> nat option" where
  "bset_search_tree b t search packed =
     do { base \<leftarrow> ro_aux_tree_base t;
          r \<leftarrow> search_tree_loop b t base search packed 1;
          case r of
            Inl k \<Rightarrow> Some k
          | Inr n \<Rightarrow>
              do { m \<leftarrow> checked_sub (of_nat (t_size t)) 1;
                   inorder \<leftarrow> raw_eytzinger1_to_inorder (of_nat (n div 2)) m (of_nat (t_extra t));
                   if even n then
                     do { inorder \<leftarrow> checked_sub inorder 1;
                          if inorder = 0 then Some (btree_bkey_first t)
                          else do { p \<leftarrow> eytzinger1_prev (of_nat (n div 2)) m;
                                    f \<leftarrow> nth_opt base (unat p);
                                    cacheline_to_bkey b t (unat inorder) (bf_key_offset f) } }
                   else do { f \<leftarrow> nth_opt base (n div 2);
                             cacheline_to_bkey b t (unat inorder) (bf_key_offset f) } } }"

section \<open>Searching a set\<close>

function write_set_loop :: "bset_tree \<Rightarrow> bpos \<Rightarrow> nat \<Rightarrow> nat \<Rightarrow> nat option" where
  "write_set_loop t search l r =
     (if l + 1 = r then Some l
      else if r \<le> l then None
      else let m = (l + r) div 2 in
        do { e \<leftarrow> rw_entry t m;
             if bpos_cmp (ra_k e) search < 0 then write_set_loop t search m r else write_set_loop t search l m })"
  by pat_completeness auto

termination by (relation "measure (\<lambda>(t, s, l, r). r - l)") auto

declare write_set_loop.simps [simp del]

definition bset_search_write_set :: "bset_tree \<Rightarrow> bpos \<Rightarrow> nat option" where
  "bset_search_write_set t search =
     do { l \<leftarrow> write_set_loop t search 0 (t_size t); rw_aux_to_bkey t l }"

definition raw_bch2_bset_search :: "btree \<Rightarrow> bset_tree \<Rightarrow> bpos \<Rightarrow> bkey_packed \<Rightarrow> nat option" where
  "raw_bch2_bset_search b t search lossy_packed_search =
     do { k \<leftarrow> bset_aux_tree_kind t;
          case k of
            BSET_NO_AUX_TREE \<Rightarrow> Some (btree_bkey_first t)
          | BSET_RW_AUX_TREE \<Rightarrow> bset_search_write_set t search
          | BSET_RO_AUX_TREE \<Rightarrow> bset_search_tree b t search lossy_packed_search }"

text \<open>The linear scans; a scan that leaves the set never reaches its end and is not defined.\<close>

partial_function (option) scan_while :: "btree \<Rightarrow> nat \<Rightarrow> (bkey_packed \<Rightarrow> int option) \<Rightarrow> nat \<Rightarrow> nat option" where
  "scan_while b e cmp m =
     (if m = e then Some m
      else Option.bind (key_at b m) (\<lambda>k.
        Option.bind (cmp k) (\<lambda>c.
          if c < 0 then Option.bind (bkey_p_next b m) (scan_while b e cmp) else Some m)))"

declare scan_while.simps [code]

definition bch2_bset_search_linear ::
    "btree \<Rightarrow> bset_tree \<Rightarrow> bpos \<Rightarrow> bkey_packed option \<Rightarrow> bkey_packed option \<Rightarrow> nat \<Rightarrow> nat option" where
  "bch2_bset_search_linear b t search packed_search lossy_packed_search m =
     do { let e = btree_bkey_last t;
          m \<leftarrow> (case lossy_packed_search of
                  Some lossy \<Rightarrow> scan_while b e (\<lambda>k. bkey_iter_cmp_p_or_unp b k (Some lossy) search) m
                | None \<Rightarrow> Some m);
          if packed_search = None then scan_while b e (\<lambda>k. search_iter_pos_cmp b k search) m else Some m }"

definition prepare_search_key :: "btree \<Rightarrow> bpos \<Rightarrow> (bkey_pack_pos_ret \<times> bkey_packed) option" where
  "prepare_search_key b search = bch2_bkey_pack_pos_lossy (replicate BKEY_PACKED_WORDS 0) search (b_format b)"

section \<open>Stepping back\<close>

fun prev_ro_loop :: "btree \<Rightarrow> bset_tree \<Rightarrow> nat \<Rightarrow> nat \<Rightarrow> nat option" where
  "prev_ro_loop b t k 0 = (let p = btree_bkey_first t in if p < k then Some p else None)"
| "prev_ro_loop b t k (Suc j) =
     do { n \<leftarrow> checked_sub (of_nat (t_size t)) 1;
          i \<leftarrow> raw_inorder_to_eytzinger1 (of_nat (Suc j)) n (of_nat (t_extra t));
          p \<leftarrow> tree_to_bkey b t i;
          if p < k then Some p else prev_ro_loop b t k j }"

definition raw_bkey_prev :: "btree \<Rightarrow> bset_tree \<Rightarrow> nat \<Rightarrow> nat option option" where
  "raw_bkey_prev b t k =
     do { let first = btree_bkey_first t;
          require (k \<ge> first \<and> k \<le> btree_bkey_last t);
          if k = first then Some None
          else do { kind \<leftarrow> bset_aux_tree_kind t;
            case kind of
              BSET_NO_AUX_TREE \<Rightarrow> Some (Some first)
            | BSET_RO_AUX_TREE \<Rightarrow>
                do { n \<leftarrow> sub_nat (t_size t) 1; c \<leftarrow> bkey_to_cacheline b t k; map_option Some (prev_ro_loop b t k (min n c)) }
            | BSET_RW_AUX_TREE \<Rightarrow>
                do { j \<leftarrow> rw_aux_tree_bsearch t k;
                     if j \<noteq> 0 then map_option Some (rw_aux_to_bkey t (j - 1)) else Some (Some first) } } }"

text \<open>The inner walk of \<^verbatim>\<open>bch2_bkey_prev_filter\<close> keeps the last key of a wanted type.\<close>

partial_function (option) prev_walk :: "btree \<Rightarrow> u8 \<Rightarrow> nat \<Rightarrow> nat option \<Rightarrow> nat \<Rightarrow> nat option option" where
  "prev_walk b min_key_type k ret i =
     (if i = k then Some ret
      else Option.bind (key_at b i) (\<lambda>w.
        Option.bind (bkey_p_next b i)
          (prev_walk b min_key_type k (if pk_type w \<ge> min_key_type then Some i else ret))))"

declare prev_walk.simps [code]

partial_function (option) prev_filter_loop :: "btree \<Rightarrow> bset_tree \<Rightarrow> u8 \<Rightarrow> nat option \<Rightarrow> nat \<Rightarrow> nat option option" where
  "prev_filter_loop b t min_key_type ret k =
     Option.bind (raw_bkey_prev b t k) (\<lambda>p.
       if p = None \<or> ret \<noteq> None then Some ret
       else Option.bind (prev_walk b min_key_type k ret (the p)) (\<lambda>ret.
         prev_filter_loop b t min_key_type ret (the p)))"

declare prev_filter_loop.simps [code]

definition bch2_bkey_prev_filter :: "btree \<Rightarrow> bset_tree \<Rightarrow> nat \<Rightarrow> u8 \<Rightarrow> nat option option" where
  "bch2_bkey_prev_filter b t k min_key_type = prev_filter_loop b t min_key_type None k"

definition bch2_bkey_prev_all :: "btree \<Rightarrow> bset_tree \<Rightarrow> nat \<Rightarrow> nat option option" where
  "bch2_bkey_prev_all b t k = bch2_bkey_prev_filter b t k 0"

section \<open>Walks and scans\<close>

lemma set_keys_split:
  "set_keys b p e = Some (xs @ ys) \<Longrightarrow> (case ys of [] \<Rightarrow> k = e | y # _ \<Rightarrow> k = y) \<Longrightarrow>
   set_keys b p k = Some xs \<and> set_keys b k e = Some ys"
proof (induction xs arbitrary: p)
  case Nil
  then show ?case by (cases ys) (auto simp: set_keys_Nil set_keys_Cons)
next
  case (Cons x xs)
  then obtain ws where ws: "x = p" "key_at b p = Some ws" "pk_u64s ws \<noteq> 0" "set_keys b (p + unat (pk_u64s ws)) e = Some (xs @ ys)"
    by (auto simp: set_keys_Cons)
  note r = Cons.IH [OF ws(4) Cons.prems(2)]
  have "p + unat (pk_u64s ws) \<le> k" using r set_keys_le by blast
  moreover have "0 < unat (pk_u64s ws)" using ws(3) by (simp add: unat_gt_0)
  ultimately show ?case using ws r by (auto simp: set_keys_Cons [of b p k])
qed

text \<open>The first key of a run that does not satisfy a predicate, or the end of the run.\<close>

definition first_not :: "(nat \<Rightarrow> bool) \<Rightarrow> nat list \<Rightarrow> nat \<Rightarrow> nat" where
  "first_not P ks e = (case dropWhile P ks of [] \<Rightarrow> e | x # _ \<Rightarrow> x)"

lemma first_not_Cons [simp]: "first_not P (x # xs) e = (if P x then first_not P xs e else x)"
  by (simp add: first_not_def)

lemma first_not_Nil [simp]: "first_not P [] e = e"
  by (simp add: first_not_def)

lemma first_not_append: "\<forall>x\<in>set xs. P x \<Longrightarrow> first_not P (xs @ ys) e = first_not P ys e"
  by (induction xs) auto

lemma key_at_drop: "key_at b k = Some ws \<Longrightarrow> ws = drop k (b_data b)"
  by (auto simp: key_at_def split: if_splits)

lemma scan_while_run:
  assumes "set_keys b m e = Some ks" "\<And>x. x \<in> set ks \<Longrightarrow> cmp (drop x (b_data b)) = Some (c x)"
  shows "scan_while b e cmp m = Some (first_not (\<lambda>x. c x < 0) ks e)"
  using assms
proof (induction ks arbitrary: m)
  case Nil
  then show ?case by (simp add: set_keys_Nil scan_while.simps [of b e cmp e])
next
  case (Cons x xs)
  then obtain ws where ws: "x = m" "m \<noteq> e" "key_at b m = Some ws" "set_keys b (m + unat (pk_u64s ws)) e = Some xs"
    by (auto simp: set_keys_Cons)
  have "cmp ws = Some (c m)" using Cons.prems(2) [of m] ws(1) key_at_drop [OF ws(3)] by simp
  then show ?case
    using Cons.IH [OF ws(4)] Cons.prems(2) ws by (subst scan_while.simps) (auto simp: bkey_p_next_def)
qed

section \<open>What a lookup finds\<close>

text \<open>A key comes before a search position when an iterator at the position has passed it.\<close>

definition before :: "btree \<Rightarrow> bpos \<Rightarrow> nat \<Rightarrow> bool" where
  "before b s x \<longleftrightarrow> key_pos b x < s \<or> key_pos b x = s \<and> key_deleted b x"

lemma before_down: "rank b x \<le> rank b y \<Longrightarrow> before b s y \<Longrightarrow> before b s x"
  by (auto simp: before_def rank_def less_eq_prod_def split: if_splits)

lemma less_before: "rank b x < rank b y \<Longrightarrow> key_pos b y < s \<Longrightarrow> before b s x"
  by (rule before_down [of b x y]) (auto simp: before_def)

lemma iter_val_before:
  "((let c = bpos_cmp (key_pos b x) s in if c \<noteq> 0 then c else - bool_int (key_deleted b x)) < 0) \<longleftrightarrow> before b s x"
  by (auto simp: before_def Let_def bool_int_def pos_order)

lemma search_iter_pos_cmp_at:
  assumes "node_format_ok b" "key_valid b x"
  shows "search_iter_pos_cmp b (drop x (b_data b)) s =
    Some (let c = bpos_cmp (key_pos b x) s in if c \<noteq> 0 then c else - bool_int (key_deleted b x))"
  using key_holds_unpack(1) [OF _ key_valid_pos [OF assms]] assms(1)
  by (simp add: search_iter_pos_cmp_def node_format_ok_def key_deleted_def Let_def)

text \<open>The packed search key holds a representable position at or below the search position.\<close>

definition search_key_ok :: "btree \<Rightarrow> bpos \<Rightarrow> bkey_packed \<Rightarrow> bpos \<Rightarrow> bool" where
  "search_key_ok b s lossy q \<longleftrightarrow>
     q \<le> s \<and> key_holds (b_format b) lossy q \<and> bkey_is_packed lossy"

lemma prepare_search_key_ok:
  assumes "node_format_ok b" "field_sound (b_format b) 2"
  shows "\<exists>ret lossy. prepare_search_key b s = Some (ret, lossy) \<and>
    (ret \<noteq> BKEY_PACK_POS_FAIL \<longrightarrow> (\<exists>q. search_key_ok b s lossy q \<and> (ret = BKEY_PACK_POS_EXACT \<longleftrightarrow> q = s)))"
proof -
  let ?f = "b_format b"
  have f: "format_valid ?f" using assms(1) by (simp add: node_format_ok_def)
  have len: "unat (f_key_u64s ?f) \<le> length (replicate BKEY_PACKED_WORDS (0 :: u64))" using f by (simp add: format_valid_def)
  obtain ret ws where r: "bch2_bkey_pack_pos_lossy (replicate BKEY_PACKED_WORDS 0) s ?f = Some (ret, ws)"
    and q: "ret \<noteq> BKEY_PACK_POS_FAIL \<longrightarrow> (\<exists>q. pos_fits ?f q \<and> q \<le> s \<and> (ret = BKEY_PACK_POS_EXACT \<longleftrightarrow> q = s) \<and>
        length ws = BKEY_PACKED_WORDS \<and> pk_format ws = KEY_FORMAT_LOCAL_BTREE \<and> pk_u64s ws = f_key_u64s ?f \<and>
        fields_at ws (64 * unat (f_key_u64s ?f)) (fields_of ?f 0 [inode q, offset q, ucast (snapshot q)]))"
    using pack_pos_lossy_cases [OF f assms(2) len, of s] by auto
  show ?thesis
  proof (cases "ret = BKEY_PACK_POS_FAIL")
    case False
    then obtain q where "pos_fits ?f q" "q \<le> s" "ret = BKEY_PACK_POS_EXACT \<longleftrightarrow> q = s" "length ws = BKEY_PACKED_WORDS"
        "pk_format ws = KEY_FORMAT_LOCAL_BTREE" "pk_u64s ws = f_key_u64s ?f"
        "fields_at ws (64 * unat (f_key_u64s ?f)) (fields_of ?f 0 [inode q, offset q, ucast (snapshot q)])"
      using q by blast
    then have "search_key_ok b s ws q" using f len
      by (simp add: search_key_ok_def key_holds_def pos_at_def bkey_is_packed_def code_consts format_valid_def)
    then show ?thesis using r \<open>ret = _ \<longleftrightarrow> _\<close> by (auto simp: prepare_search_key_def)
  qed (use r in \<open>simp add: prepare_search_key_def\<close>)
qed

lemma cmp_p_or_unp_at:
  assumes "node_format_ok b" "key_valid b x" "search_key_ok b s lossy q"
  shows "bkey_iter_cmp_p_or_unp b (drop x (b_data b)) (Some lossy) s =
    Some (let c = (if bkey_is_packed (drop x (b_data b)) then bpos_cmp (key_pos b x) q else bpos_cmp (key_pos b x) s)
          in if c \<noteq> 0 then c else - bool_int (key_deleted b x))"
  using cmp_holds [OF _ key_valid_pos [OF assms(1,2)], of lossy q] key_valid_pos [OF assms(1,2)] assms
  by (auto simp: bkey_iter_cmp_p_or_unp_def bkey_cmp_p_or_unp_def search_key_ok_def node_format_ok_def
      key_holds_def [of _ "drop x (b_data b)"] key_deleted_def Let_def)

lemma scan_lossy:
  assumes "node_format_ok b" "search_key_ok b s lossy q" "set_keys b m e = Some ks" "\<forall>x\<in>set ks. key_valid b x"
  shows "scan_while b e (\<lambda>k. bkey_iter_cmp_p_or_unp b k (Some lossy) s) m =
    Some (first_not (\<lambda>x. before b (if bkey_is_packed (drop x (b_data b)) then q else s) x) ks e)"
proof -
  have "scan_while b e (\<lambda>k. bkey_iter_cmp_p_or_unp b k (Some lossy) s) m = Some (first_not (\<lambda>x.
      (let c = bpos_cmp (key_pos b x) (if bkey_is_packed (drop x (b_data b)) then q else s)
       in if c \<noteq> 0 then c else - bool_int (key_deleted b x)) < 0) ks e)"
    by (rule scan_while_run [OF assms(3)]) (use cmp_p_or_unp_at [OF assms(1) _ assms(2)] assms(4) in \<open>auto simp: Let_def\<close>)
  then show ?thesis by (simp only: iter_val_before)
qed

lemma scan_exact:
  assumes "node_format_ok b" "set_keys b m e = Some ks" "\<forall>x\<in>set ks. key_valid b x"
  shows "scan_while b e (\<lambda>k. search_iter_pos_cmp b k s) m = Some (first_not (before b s) ks e)"
proof -
  have "scan_while b e (\<lambda>k. search_iter_pos_cmp b k s) m = Some (first_not (\<lambda>x.
      (let c = bpos_cmp (key_pos b x) s in if c \<noteq> 0 then c else - bool_int (key_deleted b x)) < 0) ks e)"
    by (rule scan_while_run [OF assms(2)]) (use search_iter_pos_cmp_at [OF assms(1)] assms(3) in auto)
  then show ?thesis by (simp only: iter_val_before)
qed

text \<open>Stopping early and scanning on finds the same key.\<close>

lemma first_not_again:
  assumes "set_keys b m e = Some ks" "\<And>x. P x \<Longrightarrow> Q x"
  obtains ks' where "set_keys b (first_not P ks e) e = Some ks'" "set ks' \<subseteq> set ks"
    "first_not Q ks' e = first_not Q ks e"
proof -
  let ?xs = "takeWhile P ks" and ?ys = "dropWhile P ks"
  have "set_keys b m e = Some (?xs @ ?ys)" using assms(1) by simp
  moreover have "case ?ys of [] \<Rightarrow> first_not P ks e = e | y # _ \<Rightarrow> first_not P ks e = y"
    by (cases ?ys) (simp_all only: first_not_def list.case)
  ultimately have "set_keys b (first_not P ks e) e = Some ?ys" using set_keys_split by blast
  moreover have "first_not Q ?ys e = first_not Q (?xs @ ?ys) e"
    by (rule first_not_append [symmetric]) (auto dest: set_takeWhileD intro: assms(2))
  ultimately show ?thesis using that set_dropWhileD by fastforce
qed

lemma before_mono: "q \<le> s \<Longrightarrow> before b q x \<Longrightarrow> before b s x"
  by (auto simp: before_def)

lemma search_linear_ok:
  assumes fmt: "node_format_ok b" and run: "set_keys b m (t_end_offset t) = Some ks" "\<forall>x\<in>set ks. key_valid b x"
    and q: "search_key_ok b s lossy q" and ps: "packed_search = (if q = s then Some lossy else None)"
  shows "bch2_bset_search_linear b t s packed_search (Some lossy) m = Some (first_not (before b s) ks (t_end_offset t))"
proof -
  let ?e = "t_end_offset t"
  define P where "P = (\<lambda>x. before b (if bkey_is_packed (drop x (b_data b)) then q else s) x)"
  have 1: "scan_while b ?e (\<lambda>k. bkey_iter_cmp_p_or_unp b k (Some lossy) s) m = Some (first_not P ks ?e)"
    unfolding P_def by (rule scan_lossy [OF fmt q run])
  show ?thesis
  proof (cases "q = s")
    case True
    then have "P = before b s" by (auto simp: P_def)
    then show ?thesis using 1 ps True by (simp add: bch2_bset_search_linear_def btree_bkey_last_def Let_def)
  next
    case False
    have "before b s x" if "P x" for x using that before_mono [of q s b x] q by (auto simp: P_def search_key_ok_def split: if_splits)
    then obtain ks' where ks': "set_keys b (first_not P ks ?e) ?e = Some ks'" "set ks' \<subseteq> set ks"
        "first_not (before b s) ks' ?e = first_not (before b s) ks ?e"
      using first_not_again [OF run(1)] by blast
    have "scan_while b ?e (\<lambda>k. search_iter_pos_cmp b k s) (first_not P ks ?e) = Some (first_not (before b s) ks' ?e)"
      by (rule scan_exact [OF fmt ks'(1)]) (use run(2) ks'(2) in auto)
    then show ?thesis using 1 ps False ks'(3) by (simp add: bch2_bset_search_linear_def btree_bkey_last_def Let_def)
  qed
qed

section \<open>The table of a set being written\<close>

text \<open>Entry 0 is the first key; every entry is a key of the set with its position.\<close>

definition rw_ok :: "btree \<Rightarrow> bset_tree \<Rightarrow> nat list \<Rightarrow> bool" where
  "rw_ok b t ks \<longleftrightarrow>
     t_extra t = BSET_RW_AUX_TREE_VAL \<and> 0 < t_size t \<and> t_size t \<le> length (t_rw t) \<and>
     ra_offset (t_rw t ! 0) = btree_bkey_first t \<and>
     (\<forall>j<t_size t. 0 < j \<longrightarrow> ra_offset (t_rw t ! j) \<in> set ks \<and> ra_k (t_rw t ! j) = key_pos b (ra_offset (t_rw t ! j)))"

definition aux_ok :: "btree \<Rightarrow> bset_tree \<Rightarrow> nat list \<Rightarrow> bool" where
  "aux_ok b t ks \<longleftrightarrow> t_extra t = BSET_NO_AUX_TREE_VAL \<and> t_size t = 0 \<or> rw_ok b t ks"

definition set_ok :: "btree \<Rightarrow> bset_tree \<Rightarrow> nat list \<Rightarrow> bool" where
  "set_ok b t ks \<longleftrightarrow> run_ok b (btree_bkey_first t) (t_end_offset t) ks \<and> aux_ok b t ks"

lemma rw_entry_ok: "rw_ok b t ks \<Longrightarrow> j < t_size t \<Longrightarrow> rw_entry t j = Some (t_rw t ! j)"
  by (simp add: rw_ok_def rw_entry_def rw_aux_tree_base_def bset_aux_tree_kind_def code_consts nth_opt_def)

lemma write_set_loop_ok:
  assumes ok: "rw_ok b t ks"
  shows "l < r \<Longrightarrow> r \<le> t_size t \<Longrightarrow>
    \<exists>i. write_set_loop t s l r = Some i \<and> l \<le> i \<and> i < r \<and> (i = l \<or> ra_k (t_rw t ! i) < s)"
proof (induction "r - l" arbitrary: l r rule: less_induct)
  case less
  let ?m = "(l + r) div 2"
  show ?case
  proof (cases "l + 1 = r")
    case True
    then show ?thesis by (simp add: write_set_loop.simps [of t s l r])
  next
    case False
    then have m: "l < ?m" "?m < r" using less.prems by auto
    have e: "rw_entry t ?m = Some (t_rw t ! ?m)" using rw_entry_ok [OF ok] m less.prems by simp
    have step: "write_set_loop t s l r = (if ra_k (t_rw t ! ?m) < s then write_set_loop t s ?m r else write_set_loop t s l ?m)"
      using False less.prems e by (subst write_set_loop.simps) (simp add: Let_def pos_order)
    show ?thesis
    proof (cases "ra_k (t_rw t ! ?m) < s")
      case True
      obtain i where "write_set_loop t s ?m r = Some i" "?m \<le> i" "i < r" "i = ?m \<or> ra_k (t_rw t ! i) < s"
        using less.hyps [of r ?m] m less.prems(2) diff_less_mono2 [OF m(1) less.prems(1)] by blast
      then show ?thesis using step True m by auto
    next
      case f: False
      obtain i where "write_set_loop t s l ?m = Some i" "l \<le> i" "i < ?m" "i = l \<or> ra_k (t_rw t ! i) < s"
        using less.hyps [of ?m l] m less.prems(2) diff_less_mono [OF m(2), of l] by auto
      then show ?thesis using step f m by auto
    qed
  qed
qed

lemma set_keys_from:
  assumes "set_keys b p e = Some ks" "m \<in> set ks"
  obtains xs ys where "ks = xs @ ys" "set_keys b m e = Some ys" "\<forall>x\<in>set xs. x < m" "ys \<noteq> []" "hd ys = m"
proof -
  from assms(2) obtain xs zs where s: "ks = xs @ m # zs" by (auto simp: in_set_conv_decomp)
  have "set_keys b m e = Some (m # zs)" using set_keys_split [of b p e xs "m # zs" m] assms(1) s by simp
  moreover have "\<forall>x\<in>set xs. x < m" using set_keys_distinct [OF assms(1)] by (simp add: s sorted_wrt_append)
  ultimately show ?thesis using that [of xs "m # zs"] s by simp
qed

lemma bset_search_ok:
  assumes "set_ok b t ks"
  shows "\<exists>m xs ys. raw_bch2_bset_search b t s lossy = Some m \<and> ks = xs @ ys \<and>
    set_keys b m (t_end_offset t) = Some ys \<and> (\<forall>x\<in>set xs. before b s x)"
proof -
  have run: "set_keys b (btree_bkey_first t) (t_end_offset t) = Some ks" and srt: "keys_sorted b ks"
    using assms by (auto simp: set_ok_def run_ok_def)
  from assms consider "t_extra t = BSET_NO_AUX_TREE_VAL" "t_size t = 0" | "rw_ok b t ks" by (auto simp: set_ok_def aux_ok_def)
  then show ?thesis
  proof cases
    case 1
    then have "raw_bch2_bset_search b t s lossy = Some (btree_bkey_first t)"
      by (simp add: raw_bch2_bset_search_def bset_aux_tree_kind_def)
    then show ?thesis using run by (intro exI [of _ "btree_bkey_first t"] exI [of _ "[]"] exI [of _ ks]) simp
  next
    case 2
    obtain i where i: "write_set_loop t s 0 (t_size t) = Some i" "i < t_size t" "i = 0 \<or> ra_k (t_rw t ! i) < s"
      using write_set_loop_ok [OF 2, of 0 "t_size t"] 2 by (auto simp: rw_ok_def)
    have "raw_bch2_bset_search b t s lossy = Some (ra_offset (t_rw t ! i))"
      using 2 i rw_entry_ok [OF 2 i(2)]
      by (simp add: raw_bch2_bset_search_def bset_aux_tree_kind_def bset_search_write_set_def rw_aux_to_bkey_def rw_ok_def code_consts)
    moreover have "\<exists>xs ys. ks = xs @ ys \<and> set_keys b (ra_offset (t_rw t ! i)) (t_end_offset t) = Some ys \<and> (\<forall>x\<in>set xs. before b s x)"
    proof (cases "i = 0")
      case True
      then have "ra_offset (t_rw t ! i) = btree_bkey_first t" using 2 by (simp add: rw_ok_def)
      then show ?thesis using run by (intro exI [of _ "[]"] exI [of _ ks]) simp
    next
      case False
      let ?m = "ra_offset (t_rw t ! i)"
      have m: "?m \<in> set ks" "key_pos b ?m < s" using 2 False i by (auto simp: rw_ok_def)
      obtain xs ys where s: "ks = xs @ ys" "set_keys b ?m (t_end_offset t) = Some ys" "ys \<noteq> []" "hd ys = ?m"
        using set_keys_from [OF run m(1)] by metis
      have "\<forall>x\<in>set xs. rank b x < rank b ?m"
        using srt s by (auto simp: keys_sorted_def sorted_wrt_append dest: hd_in_set)
      then have "\<forall>x\<in>set xs. before b s x" using less_before m(2) by blast
      then show ?thesis using s by blast
    qed
    ultimately show ?thesis by blast
  qed
qed

lemma bset_search_first:
  assumes "node_format_ok b" "field_sound (b_format b) 2" "set_ok b t ks"
    "prepare_search_key b s = Some (ret, lossy)" "ret \<noteq> BKEY_PACK_POS_FAIL"
  shows "\<exists>m. raw_bch2_bset_search b t s lossy = Some m \<and>
    bch2_bset_search_linear b t s (if ret = BKEY_PACK_POS_EXACT then Some lossy else None) (Some lossy) m =
      Some (first_not (before b s) ks (t_end_offset t))"
proof -
  obtain q where q: "search_key_ok b s lossy q" "ret = BKEY_PACK_POS_EXACT \<longleftrightarrow> q = s"
    using prepare_search_key_ok [OF assms(1,2), of s] assms(4,5) by auto
  obtain m xs ys where m: "raw_bch2_bset_search b t s lossy = Some m" "ks = xs @ ys"
      "set_keys b m (t_end_offset t) = Some ys" "\<forall>x\<in>set xs. before b s x"
    using bset_search_ok [OF assms(3)] by blast
  have "\<forall>x\<in>set ys. key_valid b x" using assms(3) m(2) by (auto simp: set_ok_def run_ok_def)
  from search_linear_ok [OF assms(1) m(3) this q(1) refl] m(1,2) first_not_append [OF m(4), of ys] q(2)
  show ?thesis by simp
qed


section \<open>The previous key\<close>

lemma rw_scan_up_ok:
  assumes "rw_ok b t ks"
  shows "idx \<le> t_size t \<Longrightarrow>
    \<exists>i. rw_scan_up t off idx = Some i \<and> i \<le> t_size t \<and> (i < t_size t \<longrightarrow> off \<le> ra_offset (t_rw t ! i))"
proof (induction "t_size t - idx" arbitrary: idx rule: less_induct)
  case less
  show ?case
  proof (cases "idx < t_size t")
    case True
    then show ?thesis
      using rw_entry_ok [OF assms True] less.hyps [of "idx + 1"] by (subst rw_scan_up.simps) auto
  qed (use less.prems in \<open>simp add: rw_scan_up.simps [of t off "t_size t"]\<close>)
qed

lemma rw_scan_down_ok:
  assumes "rw_ok b t ks"
  shows "idx \<le> t_size t \<Longrightarrow> (idx < t_size t \<longrightarrow> off \<le> ra_offset (t_rw t ! idx)) \<Longrightarrow>
    \<exists>i. rw_scan_down t off idx = Some i \<and> i \<le> idx \<and> (0 < i \<longrightarrow> ra_offset (t_rw t ! (i - 1)) < off) \<and>
      (i < t_size t \<longrightarrow> off \<le> ra_offset (t_rw t ! i))"
proof (induction idx)
  case (Suc idx)
  then show ?case using rw_entry_ok [OF assms, of idx] by (cases "ra_offset (t_rw t ! idx) \<ge> off") auto
qed simp

lemma rw_bsearch_ok:
  assumes ok: "rw_ok b t ks" and "btree_bkey_first t \<le> off" "off \<le> t_end_offset t"
  shows "\<exists>i. rw_aux_tree_bsearch t off = Some i \<and> i \<le> t_size t \<and> (0 < i \<longrightarrow> ra_offset (t_rw t ! (i - 1)) < off) \<and>
    (i < t_size t \<longrightarrow> off \<le> ra_offset (t_rw t ! i))"
proof -
  let ?f = "btree_bkey_first_offset t" and ?n = "t_size t"
  let ?i = "if t_end_offset t - ?f \<noteq> 0 then (off - ?f) * ?n div (t_end_offset t - ?f) else 0"
  have le: "?i \<le> ?n"
  proof (cases "t_end_offset t - ?f = 0")
    case False
    have "(off - ?f) * ?n \<le> (t_end_offset t - ?f) * ?n" using assms(3) by (intro mult_right_mono) auto
    then have "(off - ?f) * ?n div (t_end_offset t - ?f) \<le> (t_end_offset t - ?f) * ?n div (t_end_offset t - ?f)"
      by (rule div_le_mono)
    then show ?thesis using False by simp
  qed simp
  define i0 where "i0 = ?i"
  obtain u where u: "rw_scan_up t off i0 = Some u" "u \<le> ?n" "u < ?n \<longrightarrow> off \<le> ra_offset (t_rw t ! u)"
    using rw_scan_up_ok [OF ok, of i0 off] le i0_def by blast
  obtain i where i: "rw_scan_down t off u = Some i" "i \<le> u" "0 < i \<longrightarrow> ra_offset (t_rw t ! (i - 1)) < off"
      "i < ?n \<longrightarrow> off \<le> ra_offset (t_rw t ! i)"
    using rw_scan_down_ok [OF ok u(2,3)] by (elim exE conjE) (rule that)
  have k: "bset_aux_tree_kind t = Some BSET_RW_AUX_TREE" "?n \<noteq> 0" using ok by (auto simp: rw_ok_def bset_aux_tree_kind_def code_consts)
  have s: "sub_nat off ?f = Some (off - ?f)" "sub_nat (t_end_offset t) ?f = Some (t_end_offset t - ?f)"
    using assms(2,3) by (auto simp: sub_nat_def btree_bkey_first_def)
  have "i0 \<le> ?n" using le by (simp add: i0_def)
  then have "rw_aux_tree_bsearch t off = Some i"
    unfolding rw_aux_tree_bsearch_def s bind.bind_lunit Let_def i0_def [symmetric] k(1) using k(2) u(1) i(1) by simp
  then show ?thesis using i(2-4) u(2) by (intro exI [of _ i] conjI) simp_all
qed

lemma raw_bkey_prev_ok:
  assumes ok: "set_ok b t ks" and k: "k \<in> set ks \<or> k = t_end_offset t"
  shows "raw_bkey_prev b t k = Some None \<and> k = btree_bkey_first t \<or>
    (\<exists>p. raw_bkey_prev b t k = Some (Some p) \<and> p < k \<and> p \<in> set ks)"
proof -
  have run: "set_keys b (btree_bkey_first t) (t_end_offset t) = Some ks" using ok by (auto simp: set_ok_def run_ok_def)
  have rng: "btree_bkey_first t \<le> k" "k \<le> t_end_offset t"
    using k set_keys_bounds [OF run] set_keys_le [OF run] by fastforce+
  show ?thesis
  proof (cases "k = btree_bkey_first t")
    case True
    then show ?thesis using rng by (simp add: raw_bkey_prev_def btree_bkey_last_def)
  next
    case False
    then have lt: "btree_bkey_first t < k" using rng by simp
    have ne: "ks \<noteq> []" using run lt rng by (auto simp: set_keys_Nil)
    then have f: "btree_bkey_first t \<in> set ks" using run by (cases ks) (auto simp: set_keys_Cons)
    from ok consider "t_extra t = BSET_NO_AUX_TREE_VAL" "t_size t = 0" | "rw_ok b t ks" by (auto simp: set_ok_def aux_ok_def)
    then show ?thesis
    proof cases
      case 1
      then show ?thesis using False rng lt f by (simp add: raw_bkey_prev_def btree_bkey_last_def bset_aux_tree_kind_def)
    next
      case 2
      obtain j where j: "rw_aux_tree_bsearch t k = Some j" "j \<le> t_size t" "0 < j \<longrightarrow> ra_offset (t_rw t ! (j - 1)) < k"
        using rw_bsearch_ok [OF 2 rng] by blast
      have "ra_offset (t_rw t ! (j - 1)) \<in> set ks" if "0 < j"
        using 2 j(2) that f by (cases "j - 1 = 0") (auto simp: rw_ok_def)
      moreover have "bset_aux_tree_kind t = Some BSET_RW_AUX_TREE" using 2 by (auto simp: rw_ok_def bset_aux_tree_kind_def code_consts)
      ultimately show ?thesis
        using False rng lt f j rw_entry_ok [OF 2, of "j - 1"]
        by (cases "j = 0") (auto simp: raw_bkey_prev_def btree_bkey_last_def rw_aux_to_bkey_def)
    qed
  qed
qed

lemma prev_walk_run:
  "set_keys b i k = Some ys \<Longrightarrow> prev_walk b 0 k ret i = Some (if ys = [] then ret else Some (last ys))"
proof (induction ys arbitrary: i ret)
  case Nil
  then show ?case by (simp add: set_keys_Nil prev_walk.simps [of b 0 k ret k])
next
  case (Cons y ys)
  then obtain ws where ws: "y = i" "i \<noteq> k" "key_at b i = Some ws" "set_keys b (i + unat (pk_u64s ws)) k = Some ys"
    by (auto simp: set_keys_Cons)
  then show ?case using Cons.IH [OF ws(4), of "Some i"] by (subst prev_walk.simps) (auto simp: bkey_p_next_def)
qed

lemma prev_all_ok:
  assumes "set_ok b t (xs @ ys)" "case ys of [] \<Rightarrow> k = t_end_offset t | y # _ \<Rightarrow> k = y"
  shows "bch2_bkey_prev_all b t k = Some (if xs = [] then None else Some (last xs))"
proof -
  have run: "set_keys b (btree_bkey_first t) (t_end_offset t) = Some (xs @ ys)" using assms(1) by (auto simp: set_ok_def run_ok_def)
  have k: "k \<in> set (xs @ ys) \<or> k = t_end_offset t" using assms(2) by (auto split: list.splits)
  have pre: "set_keys b (btree_bkey_first t) k = Some xs" using set_keys_split [OF run assms(2)] by blast
  from raw_bkey_prev_ok [OF assms(1) k] show ?thesis
  proof (elim disjE conjE exE)
    assume n: "raw_bkey_prev b t k = Some None" "k = btree_bkey_first t"
    then have "xs = []" using pre by simp
    then show ?thesis using n
      by (simp add: bch2_bkey_prev_all_def bch2_bkey_prev_filter_def prev_filter_loop.simps [of b t 0 None "btree_bkey_first t"])
  next
    fix p
    assume p: "raw_bkey_prev b t k = Some (Some p)" "p < k" "p \<in> set (xs @ ys)"
    have "p \<in> set xs"
    proof (rule ccontr)
      assume "p \<notin> set xs"
      then have "p \<in> set ys" using p(3) by simp
      moreover have "set_keys b k (t_end_offset t) = Some ys" using set_keys_split [OF run assms(2)] by blast
      ultimately show False using set_keys_bounds [of b k "t_end_offset t" ys p] p(2) by simp
    qed
    then obtain zs where zs: "set_keys b p k = Some zs" "zs \<noteq> []" "\<exists>us. xs = us @ zs"
      using set_keys_from [OF pre] by metis
    have l: "last zs = last xs" "xs \<noteq> []" using zs by auto
    have "prev_walk b 0 k None p = Some (Some (last xs))" using prev_walk_run [OF zs(1)] zs(2) l by simp
    moreover have "\<exists>q. raw_bkey_prev b t p = Some q" using raw_bkey_prev_ok [OF assms(1), of p] p(3) by auto
    ultimately show ?thesis using p(1) l(2)
      by (auto simp: bch2_bkey_prev_all_def bch2_bkey_prev_filter_def prev_filter_loop.simps [of b t 0 None k]
          prev_filter_loop.simps [of b t 0 "Some (last xs)" p])
  qed
qed

text \<open>
  Stepping back from a key of a set, or from the end of the set, returns the key just before it in the set, and
  nothing at the first key; the walk from the table entry always ends. Sets without a table and sets with the table
  of a set being written.\<close>

lemma bkey_prev_all_previous:
  assumes "set_ok b t (xs @ ys)" "case ys of [] \<Rightarrow> k = t_end_offset t | y # _ \<Rightarrow> k = y"
  shows "bch2_bkey_prev_all b t k = Some (if xs = [] then None else Some (last xs))"
  by (rule prev_all_ok [OF assms])

section \<open>A concrete node\<close>

text \<open>Two sets of unpacked keys, then room for two more: the first set without a table, the second, whose last key is
  deleted, with one.\<close>

definition demo_set1 :: bset_tree where
  "demo_set1 = \<lparr>t_size = 0, t_extra = 65535, t_data_offset = 0, t_aux_data_offset = 0, t_end_offset = 18, t_ro = [], t_rw = []\<rparr>"

definition demo_set2 :: bset_tree where
  "demo_set2 = \<lparr>t_size = 2, t_extra = 65534, t_data_offset = 18, t_aux_data_offset = 0, t_end_offset = 31, t_ro = [],
     t_rw = [\<lparr>ra_offset = 21, ra_k = SPOS 1 25 0\<rparr>, \<lparr>ra_offset = 26, ra_k = SPOS 1 30 0\<rparr>,
             \<lparr>ra_offset = 0, ra_k = POS_MIN\<rparr>, \<lparr>ra_offset = 0, ra_k = POS_MIN\<rparr>, \<lparr>ra_offset = 0, ra_k = POS_MIN\<rparr>]\<rparr>"

definition demo_node :: btree where
  "demo_node = \<lparr>b_format = sample_format, b_nr_key_bits = 72, b_level = 0, b_addr = 0,
     b_data = [0, 0, 0x000F000000000000, 0x030105, 0, 0, 20, 1, 0x030105, 0, 0, 30, 1, 0x030105, 0, 0, 16, 2,
               0, 0, 0x000A000000000000, 0x030105, 0, 0, 25, 1, 0x000105, 0, 0, 30, 1, 0, 0, 0, 0, 0, 0, 0, 0, 0, 0],
     b_sets = [demo_set1, demo_set2],
     b_nr = \<lparr>nr_live_u64s = 20, nr_bset_u64s = [15, 5, 0], nr_packed_keys = 0, nr_unpacked_keys = 4\<rparr>, b_byte_order = 12, b_min_key = POS_MIN, b_max_key = SPOS_MAX, b_whiteout_u64s = 0, b_written = 0\<rparr>"

lemmas demo_key_simps = bkey_is_packed_def pk_format_def pk_u64s_def unpacked_pos_def nth_opt_def code_consts

lemma demo_format: "node_format_ok demo_node" "field_sound (b_format demo_node) 2"
  using sample_format_valid
  by (simp_all add: node_format_ok_def demo_node_def bkey_format_key_bits_def sample_format_def field_sound_def)

lemma demo_holds:
  "key_holds sample_format (drop 3 (b_data demo_node)) (SPOS 1 20 0)" "key_holds sample_format (drop 8 (b_data demo_node)) (SPOS 1 30 0)"
  "key_holds sample_format (drop 13 (b_data demo_node)) (SPOS 2 16 0)" "key_holds sample_format (drop 21 (b_data demo_node)) (SPOS 1 25 0)"
  "key_holds sample_format (drop 26 (b_data demo_node)) (SPOS 1 30 0)"
  by (simp_all add: key_holds_def demo_node_def demo_key_simps)

lemma demo_valid:
  "key_valid demo_node 3" "key_valid demo_node 8" "key_valid demo_node 13" "key_valid demo_node 21" "key_valid demo_node 26"
  using demo_holds unfolding key_valid_def by (auto simp: demo_node_def)

lemma demo_pos [simp]:
  "key_pos demo_node 3 = SPOS 1 20 0" "key_pos demo_node 8 = SPOS 1 30 0" "key_pos demo_node 13 = SPOS 2 16 0"
  "key_pos demo_node 21 = SPOS 1 25 0" "key_pos demo_node 26 = SPOS 1 30 0"
  using demo_holds [THEN key_holds_unpack(1) [OF sample_format_valid]] by (simp_all add: key_pos_def) (simp_all add: demo_node_def)

lemma demo_deleted [simp]:
  "\<not> key_deleted demo_node 3" "\<not> key_deleted demo_node 8" "\<not> key_deleted demo_node 13" "\<not> key_deleted demo_node 21"
  "key_deleted demo_node 26"
  by (simp_all add: key_deleted_def demo_node_def bkey_deleted_def pk_type_def)

lemma demo_keys:
  "set_keys demo_node 3 18 = Some [3, 8, 13]" "set_keys demo_node 21 31 = Some [21, 26]"
proof -
  have "key_at demo_node 3 \<noteq> None" "pk_u64s (the (key_at demo_node 3)) = 5" "key_at demo_node 8 \<noteq> None" "pk_u64s (the (key_at demo_node 8)) = 5"
    "key_at demo_node 13 \<noteq> None" "pk_u64s (the (key_at demo_node 13)) = 5" "key_at demo_node 21 \<noteq> None" "pk_u64s (the (key_at demo_node 21)) = 5"
    "key_at demo_node 26 \<noteq> None" "pk_u64s (the (key_at demo_node 26)) = 5"
    by (simp_all add: key_at_def demo_node_def pk_u64s_def)
  then show "set_keys demo_node 3 18 = Some [3, 8, 13]" "set_keys demo_node 21 31 = Some [21, 26]"
    by (auto simp: set_keys.simps [of demo_node])
qed

lemma demo_runs:
  "run_ok demo_node 3 18 [3, 8, 13]" "run_ok demo_node 21 31 [21, 26]"
  using demo_keys demo_valid by (simp_all add: run_ok_def keys_sorted_def rank_def less_bpos_def)

lemma demo_sets: "set_ok demo_node demo_set1 [3, 8, 13]" "set_ok demo_node demo_set2 [21, 26]"
  using demo_runs
  by (simp_all add: set_ok_def aux_ok_def rw_ok_def demo_set1_def demo_set2_def btree_bkey_first_def btree_bkey_first_offset_def
      code_consts less_Suc_eq numeral_2_eq_2)

lemma demo_search_key: "\<exists>ret lossy. prepare_search_key demo_node (SPOS 1 28 0) = Some (ret, lossy) \<and> ret \<noteq> BKEY_PACK_POS_FAIL"
proof -
  have "pos_fits (b_format demo_node) (SPOS 1 28 0)" by (simp add: pos_fits_iff field_fits_nat demo_node_def sample_format_def)
  moreover have "unat (f_key_u64s (b_format demo_node)) \<le> length (replicate BKEY_PACKED_WORDS (0 :: u64))"
    by (simp add: demo_node_def sample_format_def code_consts)
  ultimately show ?thesis
    using pack_pos_lossy_cases [OF _ demo_format(2), of "replicate BKEY_PACKED_WORDS 0" "SPOS 1 28 0"] demo_format(1)
    by (auto simp: prepare_search_key_def node_format_ok_def)
qed


end
