(* ===== verification/Node_Iter.thy ===== *)
theory Node_Iter
  imports Bset_Search "HOL-Library.Multiset"
begin

text \<open>
  The iterator over the keys of a btree node (\<^verbatim>\<open>btree/node_iter.rs\<close>, with its helpers in \<^verbatim>\<open>btree/types.rs\<close>): a
  fixed array of three cursors, one per set of the node that still has keys, ordered by the key they stand at. The
  iterator is a list of three cursors; a null key pointer is \<open>None\<close> inside the result.

  The locale \<open>ordered_source\<close> states what a merging iterator promises (each step yields a least remaining key), and
  proves once that draining such an iterator yields the keys in order. The node iterator is an instance of it.
\<close>

section \<open>Operations\<close>

definition raw_btree_node_iter_set_end :: "btree_node_iter \<Rightarrow> nat \<Rightarrow> bool option" where
  "raw_btree_node_iter_set_end it i = do { s \<leftarrow> nth_opt it i; Some (ni_k s = ni_end s) }"

definition bch2_btree_node_iter_end :: "btree_node_iter \<Rightarrow> bool option" where
  "bch2_btree_node_iter_end it = raw_btree_node_iter_set_end it 0"

fun iter_used_loop :: "btree_node_iter \<Rightarrow> nat \<Rightarrow> nat option" where
  "iter_used_loop it 0 = Some 0"
| "iter_used_loop it (Suc n) = do { e \<leftarrow> raw_btree_node_iter_set_end it n; if e then iter_used_loop it n else Some (Suc n) }"

definition raw_btree_node_iter_used :: "btree_node_iter \<Rightarrow> nat option" where
  "raw_btree_node_iter_used it = iter_used_loop it MAX_BSETS"

text \<open>The index of the cursor of the set that ends at \<open>e\<close>, a 16-bit offset.\<close>

fun set_find_loop :: "btree_node_iter \<Rightarrow> nat \<Rightarrow> nat \<Rightarrow> nat option" where
  "set_find_loop [] i e = None"
| "set_find_loop (s # ss) i e =
     (if ni_k s \<noteq> ni_end s then if ni_end s = e then Some i else set_find_loop ss (Suc i) e else None)"

definition btree_node_iter_set_find :: "btree_node_iter \<Rightarrow> nat \<Rightarrow> nat option" where
  "btree_node_iter_set_find it e = set_find_loop it 0 e"

definition zero_set :: btree_node_iter_set where
  "zero_set = \<lparr>ni_k = 0, ni_end = 0\<rparr>"

definition iter_default :: btree_node_iter where
  "iter_default = replicate MAX_BSETS zero_set"

definition bch2_btree_node_iter_set_drop :: "btree_node_iter \<Rightarrow> nat \<Rightarrow> btree_node_iter" where
  "bch2_btree_node_iter_set_drop it i = take i it @ drop (Suc i) it @ [zero_set]"

definition btree_node_iter_cmp :: "btree \<Rightarrow> btree_node_iter_set \<Rightarrow> btree_node_iter_set \<Rightarrow> int option" where
  "btree_node_iter_cmp b l r = bkey_iter_cmp b (ni_k l) (ni_k r)"

definition raw_bch2_btree_node_iter_push :: "btree_node_iter \<Rightarrow> nat \<Rightarrow> nat \<Rightarrow> btree_node_iter option" where
  "raw_bch2_btree_node_iter_push it k e =
     (if k \<noteq> e then do { n \<leftarrow> raw_btree_node_iter_used it; upd_opt it n \<lparr>ni_k = k, ni_end = e\<rparr> } else Some it)"

definition btree_node_iter_sort_two :: "btree_node_iter \<Rightarrow> btree \<Rightarrow> nat \<Rightarrow> (bool \<times> btree_node_iter) option" where
  "btree_node_iter_sort_two it b i =
     do { l \<leftarrow> nth_opt it i; r \<leftarrow> nth_opt it (i + 1); c \<leftarrow> btree_node_iter_cmp b l r;
          Some (if c > 0 then (True, it[i := r, i + 1 := l]) else (False, it)) }"

definition bch2_btree_node_iter_sort :: "btree_node_iter \<Rightarrow> btree \<Rightarrow> btree_node_iter option" where
  "bch2_btree_node_iter_sort it b =
     do { e2 \<leftarrow> raw_btree_node_iter_set_end it 2;
          it \<leftarrow> (if \<not> e2 then do { (_, it) \<leftarrow> btree_node_iter_sort_two it b 0; (_, it) \<leftarrow> btree_node_iter_sort_two it b 1; Some it }
                else Some it);
          e1 \<leftarrow> raw_btree_node_iter_set_end it 1;
          if \<not> e1 then do { (_, it) \<leftarrow> btree_node_iter_sort_two it b 0; Some it } else Some it }"

definition bch2_btree_node_iter_push :: "btree_node_iter \<Rightarrow> btree \<Rightarrow> nat \<Rightarrow> nat \<Rightarrow> btree_node_iter option" where
  "bch2_btree_node_iter_push it b k e = do { it \<leftarrow> raw_bch2_btree_node_iter_push it k e; bch2_btree_node_iter_sort it b }"

fun push_sets :: "bset_tree list \<Rightarrow> btree_node_iter \<Rightarrow> btree_node_iter option" where
  "push_sets [] it = Some it"
| "push_sets (t # ts) it = do { it \<leftarrow> raw_bch2_btree_node_iter_push it (btree_bkey_first t) (btree_bkey_last t); push_sets ts it }"

definition bch2_btree_node_iter_init_from_start :: "btree \<Rightarrow> btree_node_iter option" where
  "bch2_btree_node_iter_init_from_start b = do { it \<leftarrow> push_sets (b_sets b) iter_default; bch2_btree_node_iter_sort it b }"

definition raw_bch2_btree_node_iter_peek_all :: "btree_node_iter \<Rightarrow> nat option" where
  "raw_bch2_btree_node_iter_peek_all it = do { s \<leftarrow> nth_opt it 0; Some (ni_k s) }"

definition bch2_btree_node_iter_peek_all :: "btree_node_iter \<Rightarrow> nat option option" where
  "bch2_btree_node_iter_peek_all it = do { s \<leftarrow> nth_opt it 0; Some (if ni_k s \<noteq> ni_end s then Some (ni_k s) else None) }"

definition raw_bch2_btree_node_iter_advance :: "btree_node_iter \<Rightarrow> btree \<Rightarrow> btree_node_iter option" where
  "raw_bch2_btree_node_iter_advance it b =
     do { s \<leftarrow> nth_opt it 0; k \<leftarrow> bkey_p_next b (ni_k s);
          require (k \<le> ni_end s);
          it \<leftarrow> upd_opt it 0 (s\<lparr>ni_k := k\<rparr>);
          e0 \<leftarrow> raw_btree_node_iter_set_end it 0;
          if e0 then do { s1 \<leftarrow> nth_opt it 1; s2 \<leftarrow> nth_opt it 2; Some (it[0 := s1, 1 := s2, 2 := zero_set]) }
          else do {
            e1 \<leftarrow> raw_btree_node_iter_set_end it 1;
            if e1 then Some it
            else do {
              (swapped, it) \<leftarrow> btree_node_iter_sort_two it b 0;
              if \<not> swapped then Some it
              else do {
                e2 \<leftarrow> raw_btree_node_iter_set_end it 2;
                if e2 then Some it else do { (_, it) \<leftarrow> btree_node_iter_sort_two it b 1; Some it } } } } }"

definition bch2_btree_node_iter_advance :: "btree_node_iter \<Rightarrow> btree \<Rightarrow> btree_node_iter option" where
  "bch2_btree_node_iter_advance it b = raw_bch2_btree_node_iter_advance it b"

partial_function (option) bch2_btree_node_iter_peek :: "btree_node_iter \<Rightarrow> btree \<Rightarrow> (nat option \<times> btree_node_iter) option" where
  "bch2_btree_node_iter_peek it b =
     do { k \<leftarrow> bch2_btree_node_iter_peek_all it;
          case k of None \<Rightarrow> Some (None, it)
          | Some k' \<Rightarrow> do { ws \<leftarrow> key_at b k';
              if \<not> bkey_deleted ws then Some (Some k', it)
              else do { it \<leftarrow> bch2_btree_node_iter_advance it b; bch2_btree_node_iter_peek it b } } }"

declare bch2_btree_node_iter_peek.simps [code]

definition bch2_btree_node_iter_next_all :: "btree \<Rightarrow> btree_node_iter \<Rightarrow> (nat option \<times> btree_node_iter) option" where
  "bch2_btree_node_iter_next_all b it =
     do { ret \<leftarrow> bch2_btree_node_iter_peek_all it;
          it \<leftarrow> (if ret \<noteq> None then bch2_btree_node_iter_advance it b else Some it);
          Some (ret, it) }"

partial_function (option) init_skip_loop :: "btree_node_iter \<Rightarrow> btree \<Rightarrow> bpos \<Rightarrow> btree_node_iter option" where
  "init_skip_loop it b search =
     do { (k, it) \<leftarrow> bch2_btree_node_iter_peek it b;
          case k of None \<Rightarrow> Some it
          | Some k' \<Rightarrow> do { c \<leftarrow> bkey_iter_pos_cmp b k' search;
              if c \<ge> 0 then Some it
              else do { it \<leftarrow> bch2_btree_node_iter_advance it b; init_skip_loop it b search } } }"

declare init_skip_loop.simps [code]

fun search_sets :: "btree \<Rightarrow> bset_tree list \<Rightarrow> bpos \<Rightarrow> bkey_packed \<Rightarrow> nat list option" where
  "search_sets b [] search lossy = Some []"
| "search_sets b (t # ts) search lossy =
     do { k \<leftarrow> raw_bch2_bset_search b t search lossy; ks \<leftarrow> search_sets b ts search lossy; Some (k # ks) }"

fun linear_sets ::
  "btree \<Rightarrow> bset_tree list \<Rightarrow> bpos \<Rightarrow> bkey_packed option \<Rightarrow> bkey_packed \<Rightarrow> nat list \<Rightarrow> nat \<Rightarrow> btree_node_iter \<Rightarrow> btree_node_iter option" where
  "linear_sets b (t # ts) search packed lossy (key # keys) pos it =
     do { let e = btree_bkey_last t;
          k \<leftarrow> bch2_bset_search_linear b t search packed (Some lossy) key;
          if k \<noteq> e then do { it \<leftarrow> upd_opt it pos \<lparr>ni_k = k, ni_end = e\<rparr>; linear_sets b ts search packed lossy keys (pos + 1) it }
          else linear_sets b ts search packed lossy keys pos it }"
| "linear_sets b _ search packed lossy _ pos it = Some it"

text \<open>The unpacked position at the end goes to the debug log.\<close>

definition bch2_btree_node_iter_init :: "btree \<Rightarrow> bpos \<Rightarrow> btree_node_iter option" where
  "bch2_btree_node_iter_init b search =
     do { require (bpos_cmp search (b_min_key b) \<ge> 0);
          require (bpos_cmp search (b_max_key b) \<le> 0);
          (ret, lossy) \<leftarrow> prepare_search_key b search;
          if ret = BKEY_PACK_POS_FAIL then do { it \<leftarrow> bch2_btree_node_iter_init_from_start b; init_skip_loop it b search }
          else do {
            let packed_search = (if ret = BKEY_PACK_POS_EXACT then Some lossy else None);
            keys \<leftarrow> search_sets b (b_sets b) search lossy;
            it \<leftarrow> linear_sets b (b_sets b) search packed_search lossy keys 0 iter_default;
            it \<leftarrow> bch2_btree_node_iter_sort it b;
            kk \<leftarrow> bch2_btree_node_iter_peek_all it;
            case kk of None \<Rightarrow> Some it
            | Some k \<Rightarrow> do { ws \<leftarrow> key_at b k; _ \<leftarrow> bkey_unpack_pos (b_format b) ws; Some it } } }"

definition bch2_btree_node_iter_bset_pos :: "btree_node_iter \<Rightarrow> bset_tree \<Rightarrow> nat" where
  "bch2_btree_node_iter_bset_pos it t =
     (case btree_node_iter_set_find it (t_end_offset t) of Some i \<Rightarrow> ni_k (it ! i) | None \<Rightarrow> btree_bkey_last t)"

definition btree_node_iter_set_set_pos :: "btree_node_iter \<Rightarrow> btree \<Rightarrow> bset_tree \<Rightarrow> nat \<Rightarrow> btree_node_iter option" where
  "btree_node_iter_set_set_pos it b t k =
     (case btree_node_iter_set_find it (t_end_offset t) of
        Some i \<Rightarrow> bch2_btree_node_iter_sort (it[i := (it ! i)\<lparr>ni_k := k\<rparr>]) b
      | None \<Rightarrow> bch2_btree_node_iter_push it b k (btree_bkey_last t))"

fun prev_candidates :: "btree \<Rightarrow> btree_node_iter \<Rightarrow> bset_tree list \<Rightarrow> (nat \<times> nat) option \<Rightarrow> (nat \<times> nat) option option" where
  "prev_candidates b it [] prev = Some prev"
| "prev_candidates b it (t # ts) prev =
     do { k \<leftarrow> bch2_bkey_prev_all b t (bch2_btree_node_iter_bset_pos it t);
          take_it \<leftarrow> (case (k, prev) of (None, _) \<Rightarrow> Some False | (Some k', None) \<Rightarrow> Some True
            | (Some k', Some (p, _)) \<Rightarrow> do { c \<leftarrow> bkey_iter_cmp b k' p; Some (c > 0) });
          prev_candidates b it ts (if take_it then Some (the k, t_end_offset t) else prev) }"

definition bch2_btree_node_iter_prev_all :: "btree \<Rightarrow> btree_node_iter \<Rightarrow> (nat option \<times> btree_node_iter) option" where
  "bch2_btree_node_iter_prev_all b it =
     do { prev \<leftarrow> prev_candidates b it (b_sets b) None;
          case prev of None \<Rightarrow> Some (None, it)
          | Some (k, e) \<Rightarrow> do {
              i \<leftarrow> (case btree_node_iter_set_find it e of Some i \<Rightarrow> Some i | None \<Rightarrow> raw_btree_node_iter_used it);
              require (i < MAX_BSETS);
              Some (Some k, \<lparr>ni_k = k, ni_end = e\<rparr> # take i it @ drop (Suc i) it) } }"

partial_function (option) bch2_btree_node_iter_prev :: "btree \<Rightarrow> btree_node_iter \<Rightarrow> (nat option \<times> btree_node_iter) option" where
  "bch2_btree_node_iter_prev b it =
     do { (prev, it) \<leftarrow> bch2_btree_node_iter_prev_all b it;
          case prev of None \<Rightarrow> Some (None, it)
          | Some k \<Rightarrow> do { ws \<leftarrow> key_at b k; if \<not> bkey_deleted ws then Some (Some k, it) else bch2_btree_node_iter_prev b it } }"

declare bch2_btree_node_iter_prev.simps [code]

text \<open>After \<open>clobber\<close> words at \<open>where\<close> in the set \<open>t\<close> have become \<open>new\<close> words: the cursor of the set is moved, and in an
  interior node the cursors of the other sets step back over keys that now come after the current one.\<close>

partial_function (option) fix_step_back :: "btree \<Rightarrow> bset_tree \<Rightarrow> nat \<Rightarrow> nat \<Rightarrow> bool \<Rightarrow> (nat \<times> bool) option" where
  "fix_step_back b t2 k k2 set_pos =
     do { p \<leftarrow> bch2_bkey_prev_all b t2 k2;
          case p of None \<Rightarrow> Some (k2, set_pos)
          | Some p' \<Rightarrow> do { c \<leftarrow> bkey_iter_cmp b k p'; if c \<ge> 0 then Some (k2, set_pos) else fix_step_back b t2 k p' True } }"

declare fix_step_back.simps [code]

fun fix_other_sets :: "btree \<Rightarrow> nat \<Rightarrow> bset_tree list \<Rightarrow> btree_node_iter \<Rightarrow> btree_node_iter option" where
  "fix_other_sets b k [] it = Some it"
| "fix_other_sets b k (t2 # ts) it =
     do { s \<leftarrow> nth_opt it 0;
          if ni_end s = t_end_offset t2 then fix_other_sets b k ts it
          else do {
            (k2, set_pos) \<leftarrow> fix_step_back b t2 k (bch2_btree_node_iter_bset_pos it t2) False;
            it \<leftarrow> (if set_pos then btree_node_iter_set_set_pos it b t2 k2 else Some it);
            fix_other_sets b k ts it } }"

definition fix_cursor :: "bpos \<Rightarrow> btree \<Rightarrow> btree_node_iter \<Rightarrow> bset_tree \<Rightarrow> nat \<Rightarrow> nat \<Rightarrow> nat \<Rightarrow> nat \<Rightarrow> btree_node_iter option" where
  "fix_cursor pos b it t off clobber_u64s new_u64s i =
     do { let s = (it ! i)\<lparr>ni_end := t_end_offset t\<rparr>;
          if ni_k s < off then Some (it[i := s])
          else do {
            at_new \<leftarrow> (if new_u64s \<noteq> 0 then do { c \<leftarrow> bkey_iter_pos_cmp b off pos; Some (c \<ge> 0) } else Some False);
            let it = (if at_new then it[i := s\<lparr>ni_k := off\<rparr>]
                      else if ni_k s < min 65535 (off + clobber_u64s mod 2 ^ 16) then
                        (let s' = s\<lparr>ni_k := min 65535 (off + new_u64s mod 2 ^ 16)\<rparr>
                         in if ni_k s' = ni_end s' then bch2_btree_node_iter_set_drop (it[i := s']) i else it[i := s'])
                      else it[i := s\<lparr>ni_k := nat ((int (ni_k s) + (int new_u64s - int clobber_u64s)) mod 2 ^ 16)\<rparr>]);
            bch2_btree_node_iter_sort it b } }"

definition raw_bch2_btree_node_iter_fix ::
  "bpos \<Rightarrow> btree \<Rightarrow> btree_node_iter \<Rightarrow> bset_tree \<Rightarrow> nat \<Rightarrow> nat \<Rightarrow> nat \<Rightarrow> btree_node_iter option" where
  "raw_bch2_btree_node_iter_fix pos b it t off clobber_u64s new_u64s =
     do { let old_end = int (t_end_offset t) - (int new_u64s - int clobber_u64s);
          it \<leftarrow> (case btree_node_iter_set_find it (nat (old_end mod 2 ^ 16)) of
              None \<Rightarrow> do {
                push \<leftarrow> (if new_u64s \<noteq> 0 then do { c \<leftarrow> bkey_iter_pos_cmp b off pos; Some (c \<ge> 0) } else Some False);
                if push then bch2_btree_node_iter_push it b off (btree_bkey_last t) else Some it }
            | Some i \<Rightarrow> fix_cursor pos b it t off clobber_u64s new_u64s i);
          fin \<leftarrow> bch2_btree_node_iter_end it;
          if \<not> fin \<and> b_level b \<noteq> 0 then do { k \<leftarrow> raw_bch2_btree_node_iter_peek_all it; fix_other_sets b k (b_sets b) it }
          else Some it }"

section \<open>What a merging iterator promises\<close>

partial_function (option) drain :: "('s \<Rightarrow> ('a option \<times> 's) option) \<Rightarrow> 's \<Rightarrow> 'a list option" where
  "drain nxt s =
     do { (r, s') \<leftarrow> nxt s;
          case r of None \<Rightarrow> Some [] | Some x \<Rightarrow> do { xs \<leftarrow> drain nxt s'; Some (x # xs) } }"

locale ordered_source =
  fixes nxt :: "'s \<Rightarrow> ('a option \<times> 's) option"
    and holds :: "'s \<Rightarrow> 'a multiset \<Rightarrow> bool"
    and key :: "'a \<Rightarrow> 'r::linorder"
  assumes nxt_empty: "holds s {#} \<Longrightarrow> \<exists>s'. nxt s = Some (None, s')"
    and nxt_least: "holds s M \<Longrightarrow> M \<noteq> {#} \<Longrightarrow>
      \<exists>x s'. nxt s = Some (Some x, s') \<and> x \<in># M \<and> (\<forall>y\<in>#M. key x \<le> key y) \<and> holds s' (M - {#x#})"
begin

lemma drain_sorted:
  "holds s M \<Longrightarrow> \<exists>xs. drain nxt s = Some xs \<and> mset xs = M \<and> sorted (map key xs)"
proof (induction "size M" arbitrary: s M)
  case 0
  then obtain s' where "nxt s = Some (None, s')" using nxt_empty by auto
  then show ?case using 0 by (subst drain.simps) simp
next
  case (Suc n)
  then obtain x s' where x: "nxt s = Some (Some x, s')" "x \<in># M" "\<forall>y\<in>#M. key x \<le> key y" "holds s' (M - {#x#})"
    using nxt_least [of s M] by (metis size_eq_Suc_imp_eq_union union_eq_empty add_mset_not_empty)
  have "n = size (M - {#x#})" using Suc.hyps(2) x(2) by (simp add: size_Diff_singleton)
  from Suc.hyps(1) [OF this x(4)] obtain xs where xs: "drain nxt s' = Some xs" "mset xs = M - {#x#}" "sorted (map key xs)"
    by blast
  have "drain nxt s = Some (x # xs)" using x(1) xs(1) by (subst drain.simps) simp
  moreover have "mset (x # xs) = M" using xs(2) x(2) by simp
  moreover have "sorted (map key (x # xs))"
  proof -
    have "\<forall>y\<in>set xs. y \<in># M" by (metis xs(2) in_diffD set_mset_mset)
    then show ?thesis using xs(3) x(3) by simp
  qed
  ultimately show ?case by blast
qed

end

section \<open>The iterator and the keys it holds\<close>

definition cursor :: "btree \<Rightarrow> btree_node_iter_set \<Rightarrow> nat list \<Rightarrow> bool" where
  "cursor b s ks \<longleftrightarrow> run_ok b (ni_k s) (ni_end s) ks"

text \<open>The cursor at \<open>ys\<close> comes after the one at \<open>xs\<close>; exhausted cursors come last.\<close>

definition hd_le :: "btree \<Rightarrow> nat list \<Rightarrow> nat list \<Rightarrow> bool" where
  "hd_le b xs ys \<longleftrightarrow> ys = [] \<or> xs \<noteq> [] \<and> rank b (hd xs) \<le> rank b (hd ys)"

definition iter_holds :: "btree \<Rightarrow> btree_node_iter \<Rightarrow> nat multiset \<Rightarrow> bool" where
  "iter_holds b it M \<longleftrightarrow> node_format_ok b \<and>
     (\<exists>x y z xs ys zs. it = [x, y, z] \<and> cursor b x xs \<and> cursor b y ys \<and> cursor b z zs \<and> hd_le b xs ys \<and> hd_le b ys zs \<and>
        M = mset xs + mset ys + mset zs)"

lemma iter_holdsI:
  "node_format_ok b \<Longrightarrow> cursor b x xs \<Longrightarrow> cursor b y ys \<Longrightarrow> cursor b z zs \<Longrightarrow> hd_le b xs ys \<Longrightarrow> hd_le b ys zs \<Longrightarrow>
     M = mset xs + mset ys + mset zs \<Longrightarrow> iter_holds b [x, y, z] M"
  unfolding iter_holds_def by blast

lemma cursor_end [simp]: "cursor b s [] \<longleftrightarrow> ni_k s = ni_end s"
  by (simp add: cursor_def)

lemma cursor_not_end: "cursor b s (k # ks) \<Longrightarrow> ni_k s \<noteq> ni_end s \<and> ni_k s = k \<and> key_valid b k"
  using run_ok_Cons [of b "ni_k s" "ni_end s" k ks] by (auto simp: cursor_def)

lemma cursor_end_iff: "cursor b s ks \<Longrightarrow> ni_k s = ni_end s \<longleftrightarrow> ks = []"
  using cursor_not_end by (cases ks) auto

lemma set_end_simps [simp]:
  "raw_btree_node_iter_set_end [x, y, z] 0 = Some (ni_k x = ni_end x)"
  "raw_btree_node_iter_set_end [x, y, z] (Suc 0) = Some (ni_k y = ni_end y)"
  "raw_btree_node_iter_set_end [x, y, z] 1 = Some (ni_k y = ni_end y)"
  "raw_btree_node_iter_set_end [x, y, z] 2 = Some (ni_k z = ni_end z)"
  by (simp_all add: raw_btree_node_iter_set_end_def nth_opt_def)

lemma cursor_cmp:
  assumes "node_format_ok b" "cursor b x (k # xs)" "cursor b y (l # ys)"
  shows "\<exists>c. btree_node_iter_cmp b x y = Some c \<and> (0 < c \<longleftrightarrow> rank b l < rank b k)"
  using iter_cmp_rank [OF assms(1), of k l] cursor_not_end [OF assms(2)] cursor_not_end [OF assms(3)]
  by (auto simp: btree_node_iter_cmp_def)

lemma sort_two_0:
  assumes "node_format_ok b" "cursor b x (k # xs)" "cursor b y (l # ys)"
  shows "btree_node_iter_sort_two [x, y, z] b 0 = Some (if rank b l < rank b k then (True, [y, x, z]) else (False, [x, y, z]))"
  using cursor_cmp [OF assms] by (auto simp: btree_node_iter_sort_two_def nth_opt_def)

lemma sort_two_1:
  assumes "node_format_ok b" "cursor b y (k # ys)" "cursor b z (l # zs)"
  shows "btree_node_iter_sort_two [x, y, z] b 1 = Some (if rank b l < rank b k then (True, [x, z, y]) else (False, [x, y, z]))"
  using cursor_cmp [OF assms] by (auto simp: btree_node_iter_sort_two_def nth_opt_def)

lemma iter_holds3:
  assumes "node_format_ok b" "cursor b x (k # xs)" "cursor b y (l # ys)" "cursor b z (m # zs)"
    "rank b k \<le> rank b l" "rank b l \<le> rank b m" "M = mset (k # xs) + mset (l # ys) + mset (m # zs)"
  shows "iter_holds b [x, y, z] M"
  by (rule iter_holdsI [OF assms(1-4) _ _ assms(7)]) (use assms(5,6) in \<open>simp_all add: hd_le_def\<close>)

text \<open>Sorting puts the cursors in order whenever the exhausted ones are last.\<close>

lemma iter_sort_ok:
  assumes f: "node_format_ok b" and c: "cursor b x xs" "cursor b y ys" "cursor b z zs"
    and e: "xs = [] \<longrightarrow> ys = []" "ys = [] \<longrightarrow> zs = []"
  shows "\<exists>it. bch2_btree_node_iter_sort [x, y, z] b = Some it \<and> iter_holds b it (mset xs + mset ys + mset zs)"
proof (cases ys)
  case Nil
  then have n: "ys = []" "zs = []" using e by auto
  then show ?thesis using f c by (auto simp: bch2_btree_node_iter_sort_def iter_holds_def hd_le_def)
next
  case (Cons l ys')
  then obtain k xs' where xs: "xs = k # xs'" using e(1) by (cases xs) auto
  note cx = c(1) [unfolded xs] and cy = c(2) [unfolded Cons]
  note ne = cursor_not_end [OF cx] cursor_not_end [OF cy]
  show ?thesis
  proof (cases zs)
    case Nil
    then have z: "ni_k z = ni_end z" using c(3) by simp
    have h: "iter_holds b [x, y, z] (mset xs + mset ys + mset zs)" if "rank b k \<le> rank b l"
      by (rule iter_holdsI [OF f cx cy c(3)]) (use that Nil in \<open>simp_all add: hd_le_def xs Cons\<close>)
    moreover have "iter_holds b [y, x, z] (mset xs + mset ys + mset zs)" if "rank b l \<le> rank b k"
      by (rule iter_holdsI [OF f cy cx c(3)]) (use that Nil in \<open>simp_all add: hd_le_def xs Cons\<close>)
    ultimately show ?thesis
      using z ne sort_two_0 [OF f cx cy, of z] by (auto simp: bch2_btree_node_iter_sort_def not_less)
  next
    case zs: (Cons m zs')
    note cz = c(3) [unfolded zs]
    let ?M = "mset xs + mset ys + mset zs"
    have h: "rank b k \<le> rank b l \<Longrightarrow> rank b l \<le> rank b m \<Longrightarrow> iter_holds b [x, y, z] ?M"
      "rank b l \<le> rank b k \<Longrightarrow> rank b k \<le> rank b m \<Longrightarrow> iter_holds b [y, x, z] ?M"
      "rank b k \<le> rank b m \<Longrightarrow> rank b m \<le> rank b l \<Longrightarrow> iter_holds b [x, z, y] ?M"
      "rank b m \<le> rank b k \<Longrightarrow> rank b k \<le> rank b l \<Longrightarrow> iter_holds b [z, x, y] ?M"
      "rank b l \<le> rank b m \<Longrightarrow> rank b m \<le> rank b k \<Longrightarrow> iter_holds b [y, z, x] ?M"
      "rank b m \<le> rank b l \<Longrightarrow> rank b l \<le> rank b k \<Longrightarrow> iter_holds b [z, y, x] ?M"
      by (rule iter_holds3 [OF f cx cy cz] iter_holds3 [OF f cy cx cz] iter_holds3 [OF f cx cz cy] iter_holds3 [OF f cz cx cy]
          iter_holds3 [OF f cy cz cx] iter_holds3 [OF f cz cy cx]; simp add: xs Cons zs ac_simps)+
    show ?thesis
      using h ne cursor_not_end [OF cz] sort_two_0 [OF f cx cy, of z] sort_two_1 [OF f cx cz, of y] sort_two_1 [OF f cy cz, of x]
        sort_two_0 [OF f cx cz, of y] sort_two_0 [OF f cy cz, of x] sort_two_0 [OF f cy cx, of z]
      by (auto simp: bch2_btree_node_iter_sort_def not_less)
  qed
qed

section \<open>Advancing\<close>

lemma iter_holds_peek:
  assumes "iter_holds b it M"
  shows "M = {#} \<Longrightarrow> bch2_btree_node_iter_peek_all it = Some None"
    "M \<noteq> {#} \<Longrightarrow> \<exists>k. bch2_btree_node_iter_peek_all it = Some (Some k) \<and> k \<in># M \<and> key_valid b k \<and> (\<forall>l\<in>#M. rank b k \<le> rank b l)"
proof -
  obtain x y z xs ys zs where i: "it = [x, y, z]" "cursor b x xs" "cursor b y ys" "cursor b z zs" "hd_le b xs ys" "hd_le b ys zs"
      "M = mset xs + mset ys + mset zs"
    using assms unfolding iter_holds_def by blast
  show "M = {#} \<Longrightarrow> bch2_btree_node_iter_peek_all it = Some None"
    using i by (simp add: bch2_btree_node_iter_peek_all_def nth_opt_def)
  assume "M \<noteq> {#}"
  then obtain k xs' where xs: "xs = k # xs'" using i(5-7) by (cases xs) (auto simp: hd_le_def)
  have least: "rank b (hd ks) \<le> rank b l" if "cursor b s ks" "l \<in> set ks" for s ks l
  proof (cases ks)
    case (Cons k' ks')
    have "run_ok b (ni_k s) (ni_end s) (k' # ks')" using that(1) by (simp add: cursor_def Cons)
    from run_ok_Cons [OF this] show ?thesis using that(2) Cons by auto
  qed (use that in simp)
  have "rank b k \<le> rank b l" if "l \<in># M" for l
  proof -
    have "rank b k \<le> rank b (hd ys)" "rank b (hd ys) \<le> rank b (hd zs)" if "zs \<noteq> []" using i(5,6) that xs by (auto simp: hd_le_def)
    moreover have "rank b k \<le> rank b (hd ys)" if "ys \<noteq> []" using i(5) that xs by (auto simp: hd_le_def)
    moreover from \<open>l \<in># M\<close> have "l \<in> set xs \<or> l \<in> set ys \<or> l \<in> set zs" using i(7) by auto
    ultimately show ?thesis using least [OF i(2), of l] least [OF i(3), of l] least [OF i(4), of l] xs
      by (metis empty_iff list.sel(1) list.set(1) order.trans)
  qed
  then show "\<exists>k. bch2_btree_node_iter_peek_all it = Some (Some k) \<and> k \<in># M \<and> key_valid b k \<and> (\<forall>l\<in>#M. rank b k \<le> rank b l)"
    using i(1,7) xs cursor_not_end [OF i(2) [unfolded xs]] by (auto simp: bch2_btree_node_iter_peek_all_def nth_opt_def)
qed

lemma cursor_step:
  assumes "cursor b x (k # xs)"
  shows "\<exists>k'. bkey_p_next b (ni_k x) = Some k' \<and> k' \<le> ni_end x \<and> cursor b (x\<lparr>ni_k := k'\<rparr>) xs"
  using run_ok_Cons [OF assms [unfolded cursor_def]] by (auto simp: cursor_def)

lemma iter_advance_ok:
  assumes "iter_holds b it M" "bch2_btree_node_iter_peek_all it = Some (Some k)"
  shows "\<exists>it'. bch2_btree_node_iter_advance it b = Some it' \<and> iter_holds b it' (M - {#k#})"
proof -
  obtain x y z xs ys zs where i: "it = [x, y, z]" "cursor b x xs" "cursor b y ys" "cursor b z zs" "hd_le b xs ys" "hd_le b ys zs"
      "M = mset xs + mset ys + mset zs" and f: "node_format_ok b"
    using assms(1) unfolding iter_holds_def by blast
  have "xs \<noteq> []" using assms(2) i(1,2) by (auto simp: bch2_btree_node_iter_peek_all_def nth_opt_def)
  then obtain k0 xs' where xs: "xs = k0 # xs'" by (cases xs) auto
  have k0: "k0 = k" using assms(2) i(1) cursor_not_end [OF i(2) [unfolded xs]]
    by (auto simp: bch2_btree_node_iter_peek_all_def nth_opt_def)
  then have M: "M - {#k#} = mset xs' + mset ys + mset zs" by (simp add: i(7) xs)
  obtain k' where k': "bkey_p_next b (ni_k x) = Some k'" "k' \<le> ni_end x" "cursor b (x\<lparr>ni_k := k'\<rparr>) xs'"
    using cursor_step [OF i(2) [unfolded xs]] by blast
  note step = raw_bch2_btree_node_iter_advance_def bch2_btree_node_iter_advance_def nth_opt_def upd_opt_def
  let ?x = "x\<lparr>ni_k := k'\<rparr>"
  show ?thesis
  proof (cases "xs' = []")
    case True
    then have "bch2_btree_node_iter_advance it b = Some [y, z, zero_set]" using k' i(1) by (simp add: step)
    moreover have "iter_holds b [y, z, zero_set] (M - {#k#})"
      by (rule iter_holdsI [OF f i(3,4), of _ "[]"]) (use i(6) M True in \<open>auto simp: zero_set_def hd_le_def\<close>)
    ultimately show ?thesis by blast
  next
    case False
    then obtain j js where js: "xs' = j # js" by (cases xs') auto
    note cx = k'(3) [unfolded js] and ne = cursor_not_end [OF k'(3) [unfolded js]]
    show ?thesis
    proof (cases ys)
      case Nil
      then have "bch2_btree_node_iter_advance it b = Some [?x, y, z]" using k' i(1,3) ne by (simp add: step)
      moreover have "iter_holds b [?x, y, z] (M - {#k#})"
        by (rule iter_holdsI [OF f k'(3) i(3,4)]) (use i(6) M Nil in \<open>auto simp: hd_le_def\<close>)
      ultimately show ?thesis by blast
    next
      case ys: (Cons l ys')
      note cy = i(3) [unfolded ys] and ney = cursor_not_end [OF i(3) [unfolded ys]]
      have adv: "bch2_btree_node_iter_advance it b =
          (if rank b l < rank b j then if ni_k z = ni_end z then Some [y, ?x, z] else
             do { (_, it) \<leftarrow> btree_node_iter_sort_two [y, ?x, z] b 1; Some it } else Some [?x, y, z])"
        using k'(1,2) i(1) ne ney sort_two_0 [OF f cx cy, of z] by (simp add: step)
      have h: "rank b j \<le> rank b l \<Longrightarrow> iter_holds b [?x, y, z] (M - {#k#})"
        by (rule iter_holdsI [OF f cx cy i(4)]) (use i(6) in \<open>auto simp: hd_le_def ys js M\<close>)
      have h1: "rank b l \<le> rank b j \<Longrightarrow> zs \<noteq> [] \<longrightarrow> rank b j \<le> rank b (hd zs) \<Longrightarrow> iter_holds b [y, ?x, z] (M - {#k#})"
        by (rule iter_holdsI [OF f cy cx i(4)]) (use i(6) in \<open>auto simp: hd_le_def ys js M\<close>)
      have h2: "rank b l \<le> rank b j \<Longrightarrow> zs \<noteq> [] \<Longrightarrow> rank b (hd zs) \<le> rank b j \<Longrightarrow> iter_holds b [y, z, ?x] (M - {#k#})"
        by (rule iter_holdsI [OF f cy i(4) cx]) (use i(6) in \<open>auto simp: hd_le_def ys js M\<close>)
      show ?thesis
      proof (cases zs)
        case Nil
        then show ?thesis using adv h h1 i(4) by (auto simp: not_less)
      next
        case zs: (Cons m zs')
        show ?thesis
          using adv h h1 h2 cursor_not_end [OF i(4) [unfolded zs]] sort_two_1 [OF f cx i(4) [unfolded zs], of y]
          by (auto simp: not_less zs)
      qed
    qed
  qed
qed

interpretation node_iter: ordered_source "bch2_btree_node_iter_next_all b" "iter_holds b" "rank b" for b
proof
  fix it
  assume "iter_holds b it {#}"
  then show "\<exists>it'. bch2_btree_node_iter_next_all b it = Some (None, it')"
    using iter_holds_peek(1) [of b it "{#}"] by (simp add: bch2_btree_node_iter_next_all_def)
next
  fix it M
  assume a: "iter_holds b it M" "M \<noteq> {#}"
  obtain k where k: "bch2_btree_node_iter_peek_all it = Some (Some k)" "k \<in># M" "\<forall>l\<in>#M. rank b k \<le> rank b l"
    using iter_holds_peek(2) [OF a] by blast
  obtain it' where "bch2_btree_node_iter_advance it b = Some it'" "iter_holds b it' (M - {#k#})"
    using iter_advance_ok [OF a(1) k(1)] by blast
  then show "\<exists>x s'. bch2_btree_node_iter_next_all b it = Some (Some x, s') \<and> x \<in># M \<and> (\<forall>y\<in>#M. rank b x \<le> rank b y) \<and>
      iter_holds b s' (M - {#x#})"
    using k by (auto simp: bch2_btree_node_iter_next_all_def)
qed

section \<open>Starting an iterator\<close>

text \<open>A node whose sets are in order, with the keys of each set.\<close>

definition node_ok :: "btree \<Rightarrow> nat list list \<Rightarrow> bool" where
  "node_ok b kss \<longleftrightarrow> node_format_ok b \<and> length (b_sets b) \<le> MAX_BSETS \<and> list_all2 (set_ok b) (b_sets b) kss"

definition padded :: "btree_node_iter_set list \<Rightarrow> btree_node_iter" where
  "padded cs = cs @ replicate (MAX_BSETS - length cs) zero_set"

lemma zero_set_end [simp]: "ni_k zero_set = ni_end zero_set"
  by (simp add: zero_set_def)

lemma used_loop_padded:
  assumes "\<forall>s\<in>set cs. ni_k s \<noteq> ni_end s"
  shows "m \<le> n \<Longrightarrow> iter_used_loop (cs @ replicate n zero_set) (length cs + m) = Some (length cs)"
proof (induction m)
  case 0
  show ?case
  proof (cases "length cs")
    case (Suc l)
    then have "l < length cs" by simp
    then have "raw_btree_node_iter_set_end (cs @ replicate n zero_set) l = Some False"
      using assms by (auto simp: raw_btree_node_iter_set_end_def nth_opt_def nth_append)
    then show ?thesis by (simp add: Suc)
  qed simp
next
  case (Suc m)
  then have "raw_btree_node_iter_set_end (cs @ replicate n zero_set) (length cs + m) = Some True"
    by (auto simp: raw_btree_node_iter_set_end_def nth_opt_def nth_append)
  then show ?case using Suc by simp
qed

lemma used_padded:
  "\<forall>s\<in>set cs. ni_k s \<noteq> ni_end s \<Longrightarrow> length cs \<le> MAX_BSETS \<Longrightarrow> raw_btree_node_iter_used (padded cs) = Some (length cs)"
  using used_loop_padded [of cs "MAX_BSETS - length cs" "MAX_BSETS - length cs"]
  by (simp add: raw_btree_node_iter_used_def padded_def)

lemma upd_padded: "length cs < MAX_BSETS \<Longrightarrow> upd_opt (padded cs) (length cs) s = Some (padded (cs @ [s]))"
  by (cases "MAX_BSETS - length cs") (auto simp: upd_opt_def padded_def list_update_append)

definition full_cursor :: "bset_tree \<Rightarrow> btree_node_iter_set" where
  "full_cursor t = \<lparr>ni_k = btree_bkey_first t, ni_end = btree_bkey_last t\<rparr>"

definition live_sets :: "bset_tree list \<Rightarrow> bset_tree list" where
  "live_sets ts = filter (\<lambda>t. btree_bkey_first t \<noteq> btree_bkey_last t) ts"

lemma push_sets_padded:
  "\<forall>s\<in>set cs. ni_k s \<noteq> ni_end s \<Longrightarrow> length cs + length ts \<le> MAX_BSETS \<Longrightarrow>
   push_sets ts (padded cs) = Some (padded (cs @ map full_cursor (live_sets ts)))"
proof (induction ts arbitrary: cs)
  case (Cons t ts)
  show ?case
  proof (cases "btree_bkey_first t = btree_bkey_last t")
    case True
    then show ?thesis using Cons by (simp add: raw_bch2_btree_node_iter_push_def live_sets_def)
  next
    case False
    have "push_sets ts (padded (cs @ [full_cursor t])) = Some (padded ((cs @ [full_cursor t]) @ map full_cursor (live_sets ts)))"
      by (rule Cons.IH) (use Cons.prems False in \<open>auto simp: full_cursor_def\<close>)
    then show ?thesis using False Cons.prems
      by (simp add: raw_bch2_btree_node_iter_push_def live_sets_def used_padded upd_padded full_cursor_def [of t])
  qed
qed (simp add: live_sets_def)

lemma sort_padded:
  assumes f: "node_format_ok b" and c: "list_all2 (cursor b) cs kss" and ne: "[] \<notin> set kss" and len: "length cs \<le> MAX_BSETS"
  shows "\<exists>it. bch2_btree_node_iter_sort (padded cs) b = Some it \<and> iter_holds b it (mset (concat kss))"
proof -
  have z: "cursor b zero_set []" by simp
  from len consider "cs = []" | x where "cs = [x]" | x y where "cs = [x, y]" | x y z where "cs = [x, y, z]"
    by (cases cs; cases "tl cs"; cases "tl (tl cs)"; cases "tl (tl (tl cs))") (auto simp: code_consts)
  then show ?thesis
  proof cases
    case 1
    then show ?thesis using c iter_sort_ok [OF f z z z] by (simp add: padded_def code_consts numeral_3_eq_3)
  next
    case 2
    then show ?thesis using c iter_sort_ok [OF f _ z z, of x "kss ! 0"] by (auto simp: padded_def code_consts numeral_2_eq_2 list_all2_Cons1)
  next
    case 3
    then show ?thesis using c ne iter_sort_ok [OF f _ _ z, of x "kss ! 0" y "kss ! 1"] by (auto simp: padded_def code_consts list_all2_Cons1)
  next
    case 4
    then show ?thesis using c ne iter_sort_ok [OF f, of x "kss ! 0" y "kss ! 1" z "kss ! 2"]
      by (auto simp: padded_def code_consts list_all2_Cons1 add.assoc)
  qed
qed

lemma set_ok_cursor: "set_ok b t ks \<Longrightarrow> cursor b (full_cursor t) ks"
  by (simp add: set_ok_def cursor_def full_cursor_def btree_bkey_last_def)

lemma live_sets_cursors:
  "list_all2 (set_ok b) ts kss \<Longrightarrow>
   list_all2 (cursor b) (map full_cursor (live_sets ts)) (filter (\<lambda>ks. ks \<noteq> []) kss)"
proof (induction rule: list_all2_induct)
  case (Cons t ts ks kss)
  have "btree_bkey_first t = btree_bkey_last t \<longleftrightarrow> ks = []"
    using cursor_end_iff [OF set_ok_cursor [OF Cons(1)]] by (simp add: full_cursor_def)
  then show ?case using Cons set_ok_cursor [OF Cons(1)] by (simp add: live_sets_def)
qed (simp add: live_sets_def)

lemma concat_filter_nonempty [simp]: "concat (filter (\<lambda>ks. ks \<noteq> []) kss) = concat kss"
  by (induction kss) auto

lemma init_from_start_ok:
  assumes "node_ok b kss"
  shows "\<exists>it. bch2_btree_node_iter_init_from_start b = Some it \<and> iter_holds b it (mset (concat kss))"
proof -
  let ?cs = "map full_cursor (live_sets (b_sets b))"
  have d: "iter_default = padded []" by (simp add: iter_default_def padded_def)
  have p: "push_sets (b_sets b) iter_default = Some (padded ?cs)"
    using push_sets_padded [of "[]" "b_sets b"] assms by (simp add: d node_ok_def)
  have "length ?cs \<le> MAX_BSETS" using assms by (simp add: node_ok_def live_sets_def order.trans [OF length_filter_le])
  then have "\<exists>it. bch2_btree_node_iter_sort (padded ?cs) b = Some it \<and>
      iter_holds b it (mset (concat (filter (\<lambda>ks. ks \<noteq> []) kss)))"
    using assms by (intro sort_padded live_sets_cursors) (auto simp: node_ok_def)
  then show ?thesis using p by (auto simp: bch2_btree_node_iter_init_from_start_def)
qed


lemma demo_node_ok: "node_ok demo_node [[3, 8, 13], [21, 26]]"
  using demo_format demo_sets by (simp add: node_ok_def code_consts) (simp add: demo_node_def)


section \<open>Skipping deleted keys\<close>

lemma iter_holds_valid: "iter_holds b it M \<Longrightarrow> k \<in># M \<Longrightarrow> key_valid b k"
  by (auto simp: iter_holds_def cursor_def run_ok_def)

lemma iter_peek_ok:
  "iter_holds b it M \<Longrightarrow> \<exists>r it'. bch2_btree_node_iter_peek it b = Some (r, it') \<and>
    (case r of None \<Rightarrow> (\<forall>k\<in>#M. key_deleted b k) \<and> iter_holds b it' {#}
     | Some k \<Rightarrow> k \<in># M \<and> \<not> key_deleted b k \<and> (\<forall>l\<in>#M. \<not> key_deleted b l \<longrightarrow> rank b k \<le> rank b l) \<and>
        bch2_btree_node_iter_peek_all it' = Some (Some k) \<and> iter_holds b it' {#l \<in># M. rank b k \<le> rank b l#})"
proof (induction "size M" arbitrary: it M rule: less_induct)
  case less
  show ?case
  proof (cases "M = {#}")
    case True
    then show ?thesis using less.prems iter_holds_peek(1) [OF less.prems] by (subst bch2_btree_node_iter_peek.simps) simp
  next
    case False
    obtain k where k: "bch2_btree_node_iter_peek_all it = Some (Some k)" "k \<in># M" "key_valid b k" "\<forall>l\<in>#M. rank b k \<le> rank b l"
      using iter_holds_peek(2) [OF less.prems False] by blast
    show ?thesis
    proof (cases "key_deleted b k")
      case nd: False
      have "{#l \<in># M. rank b k \<le> rank b l#} = M" using k(4) by (simp add: filter_mset_eq_conv)
      then show ?thesis using k nd less.prems
        by (subst bch2_btree_node_iter_peek.simps) (simp add: key_deleted_def)
    next
      case True
      obtain it1 where it1: "bch2_btree_node_iter_advance it b = Some it1" "iter_holds b it1 (M - {#k#})"
        using iter_advance_ok [OF less.prems k(1)] by blast
      have s: "bch2_btree_node_iter_peek it b = bch2_btree_node_iter_peek it1 b"
        using k True it1(1) by (subst bch2_btree_node_iter_peek.simps) (simp add: key_deleted_def)
      have "size (M - {#k#}) < size M" using k(2) by (rule size_Diff1_less)
      from less.hyps [OF this it1(2)] obtain r it' where r: "bch2_btree_node_iter_peek it1 b = Some (r, it')"
        "case r of None \<Rightarrow> (\<forall>k'\<in>#M - {#k#}. key_deleted b k') \<and> iter_holds b it' {#}
         | Some k' \<Rightarrow> k' \<in># M - {#k#} \<and> \<not> key_deleted b k' \<and> (\<forall>l\<in>#M - {#k#}. \<not> key_deleted b l \<longrightarrow> rank b k' \<le> rank b l) \<and>
            bch2_btree_node_iter_peek_all it' = Some (Some k') \<and> iter_holds b it' {#l \<in># M - {#k#}. rank b k' \<le> rank b l#}"
        by blast
      have M: "l \<in># M \<longleftrightarrow> l = k \<or> l \<in># M - {#k#}" for l using k(2) by (metis insert_DiffM insert_iff set_mset_add_mset_insert)
      have flt: "{#l \<in># M - {#k#}. rank b k' \<le> rank b l#} = {#l \<in># M. rank b k' \<le> rank b l#}" if "k' \<in># M" "k' \<noteq> k" for k'
        using k(4) that by (auto simp: filter_diff_mset)
      show ?thesis
      proof (cases r)
        case None
        then show ?thesis using r True s M by auto
      next
        case (Some k')
        have k': "k' \<in># M" "k' \<noteq> k" using r(2) True Some by (auto dest: in_diffD)
        have "\<forall>l\<in>#M. \<not> key_deleted b l \<longrightarrow> rank b k' \<le> rank b l" using r(2) True Some M by auto
        then show ?thesis using r s k' Some flt [OF k'] by simp
      qed
    qed
  qed
qed

section \<open>Starting at a position\<close>

lemma live_not_before: "\<not> key_deleted b k \<Longrightarrow> before b s k \<longleftrightarrow> key_pos b k < s"
  by (simp add: before_def)

lemma iter_pos_cmp_before:
  assumes "node_format_ok b" "key_valid b k"
  shows "\<exists>c. bkey_iter_pos_cmp b k s = Some c \<and> (0 \<le> c \<longleftrightarrow> \<not> before b s k)"
proof -
  have sgn: "bpos_cmp (key_pos b k) s < 0 \<longleftrightarrow> key_pos b k < s" "bpos_cmp (key_pos b k) s = 0 \<longleftrightarrow> key_pos b k = s"
    by (simp_all add: pos_order)
  show ?thesis using iter_pos_cmp_at [OF assms, of s] sgn by (auto simp: Let_def before_def bool_int_def not_less)
qed

text \<open>The keys that remain after starting at \<open>s\<close>: exactly the live keys from \<open>s\<close> on, and no key before it.\<close>

definition starts_at :: "btree \<Rightarrow> bpos \<Rightarrow> nat multiset \<Rightarrow> nat multiset \<Rightarrow> bool" where
  "starts_at b s M R \<longleftrightarrow> R \<subseteq># M \<and> (\<forall>k\<in>#R. \<not> before b s k) \<and>
     {#k \<in># R. \<not> key_deleted b k#} = {#k \<in># M. \<not> key_deleted b k \<and> s \<le> key_pos b k#}"

lemma init_skip_loop_ok:
  "iter_holds b it M \<Longrightarrow> \<exists>it' R. init_skip_loop it b s = Some it' \<and> iter_holds b it' R \<and> starts_at b s M R"
proof (induction "size M" arbitrary: it M rule: less_induct)
  case less
  have f: "node_format_ok b" using less.prems by (simp add: iter_holds_def)
  obtain r it1 where p: "bch2_btree_node_iter_peek it b = Some (r, it1)"
    "case r of None \<Rightarrow> (\<forall>k\<in>#M. key_deleted b k) \<and> iter_holds b it1 {#}
     | Some k \<Rightarrow> k \<in># M \<and> \<not> key_deleted b k \<and> (\<forall>l\<in>#M. \<not> key_deleted b l \<longrightarrow> rank b k \<le> rank b l) \<and>
        bch2_btree_node_iter_peek_all it1 = Some (Some k) \<and> iter_holds b it1 {#l \<in># M. rank b k \<le> rank b l#}"
    using iter_peek_ok [OF less.prems] by blast
  show ?case
  proof (cases r)
    case None
    have "{#k \<in># M. \<not> key_deleted b k \<and> s \<le> key_pos b k#} = {#}" using p(2) None by auto
    then show ?thesis using p None by (subst init_skip_loop.simps) (auto simp: starts_at_def)
  next
    case (Some k)
    let ?R = "{#l \<in># M. rank b k \<le> rank b l#}"
    have k: "k \<in># M" "\<not> key_deleted b k" "\<forall>l\<in>#M. \<not> key_deleted b l \<longrightarrow> rank b k \<le> rank b l"
      "bch2_btree_node_iter_peek_all it1 = Some (Some k)" "iter_holds b it1 ?R"
      using p(2) Some by auto
    have live: "{#l \<in># ?R. \<not> key_deleted b l#} = {#l \<in># M. \<not> key_deleted b l#}"
      using k(3) by (auto simp: filter_filter_mset intro: filter_mset_cong)
    obtain c where c: "bkey_iter_pos_cmp b k s = Some c" "0 \<le> c \<longleftrightarrow> \<not> before b s k"
      using iter_pos_cmp_before [OF f iter_holds_valid [OF less.prems k(1)]] by blast
    show ?thesis
    proof (cases "before b s k")
      case False
      then have ge: "s \<le> key_pos b k" using k(2) by (simp add: live_not_before not_less)
      have "\<forall>l\<in>#?R. \<not> before b s l" using False before_down by (auto simp: not_less)
      moreover have "{#l \<in># M. \<not> key_deleted b l#} = {#l \<in># M. \<not> key_deleted b l \<and> s \<le> key_pos b l#}"
        using k(3) ge by (intro filter_mset_cong) (auto simp: rank_def less_eq_prod_def intro: order.trans)
      ultimately have "starts_at b s M ?R" using live by (simp add: starts_at_def)
      then show ?thesis using p(1) Some c False k(5) by (subst init_skip_loop.simps) auto
    next
      case True
      obtain it2 where it2: "bch2_btree_node_iter_advance it1 b = Some it2" "iter_holds b it2 (?R - {#k#})"
        using iter_advance_ok [OF k(5,4)] by blast
      have "size (?R - {#k#}) < size M"
        by (rule less_le_trans [OF size_Diff1_less size_filter_mset_lesseq]) (use k(1) in simp)
      from less.hyps [OF this it2(2)] obtain it' R where R: "init_skip_loop it2 b s = Some it'" "iter_holds b it' R" "starts_at b s (?R - {#k#}) R"
        by blast
      have "{#l \<in># ?R - {#k#}. \<not> key_deleted b l \<and> s \<le> key_pos b l#} = {#l \<in># {#l \<in># ?R. \<not> key_deleted b l#}. s \<le> key_pos b l#}"
        using True k(2) by (auto simp: filter_diff_mset filter_filter_mset live_not_before conj_commute intro: filter_mset_cong)
      also have "\<dots> = {#l \<in># M. \<not> key_deleted b l \<and> s \<le> key_pos b l#}" using k(3) by (auto simp: filter_filter_mset intro!: filter_mset_cong)
      finally have "starts_at b s M R"
        using R(3) subset_mset.order_trans [OF _ subset_mset.order_trans [OF diff_subset_eq_self multiset_filter_subset]]
        unfolding starts_at_def by metis
      then show ?thesis using p(1) Some c True it2(1) R(1,2) by (subst init_skip_loop.simps) auto
    qed
  qed
qed

lemma dropWhile_before:
  assumes "keys_sorted b ks"
  shows "dropWhile (before b s) ks = filter (\<lambda>k. \<not> before b s k) ks"
  using assms
proof (induction ks)
  case (Cons k ks)
  have "\<forall>l\<in>set ks. rank b k < rank b l" using Cons.prems by (simp add: keys_sorted_def)
  then have "filter (\<lambda>l. \<not> before b s l) ks = ks" if "\<not> before b s k"
    using that before_down less_imp_le by (fastforce intro!: filter_True)
  then show ?case using Cons by (simp add: keys_sorted_def)
qed simp

lemma first_not_dropWhile: "first_not P ks e = (case dropWhile P ks of [] \<Rightarrow> e | k # _ \<Rightarrow> k)"
  by (induction ks) auto

lemma run_ok_suffix:
  assumes "run_ok b p e (xs @ ys)"
  shows "run_ok b (case ys of [] \<Rightarrow> e | y # _ \<Rightarrow> y) e ys"
  using assms set_keys_split [of b p e xs ys "case ys of [] \<Rightarrow> e | y # _ \<Rightarrow> y"]
  by (auto simp: run_ok_def keys_sorted_def sorted_wrt_append split: list.splits)

text \<open>The cursor of a set from which the keys in \<open>C\<close> have been consumed.\<close>

definition cut_cursor :: "(nat \<Rightarrow> bool) \<Rightarrow> bset_tree \<Rightarrow> nat list \<Rightarrow> btree_node_iter_set" where
  "cut_cursor C t ks = \<lparr>ni_k = first_not C ks (t_end_offset t), ni_end = t_end_offset t\<rparr>"

definition cut_cursors :: "(nat \<Rightarrow> bool) \<Rightarrow> bset_tree list \<Rightarrow> nat list list \<Rightarrow> btree_node_iter_set list" where
  "cut_cursors C ts kss = filter (\<lambda>c. ni_k c \<noteq> ni_end c) (map2 (cut_cursor C) ts kss)"

lemma cut_cursor_drop:
  assumes "set_ok b t ks"
  shows "cursor b (cut_cursor C t ks) (dropWhile C ks)"
  using run_ok_suffix [of b "btree_bkey_first t" "t_end_offset t" "takeWhile C ks" "dropWhile C ks"] assms
  by (simp add: cursor_def cut_cursor_def first_not_dropWhile set_ok_def)

lemma search_cursor_ok:
  assumes "set_ok b t ks"
  shows "cursor b (cut_cursor (before b s) t ks) (filter (\<lambda>k. \<not> before b s k) ks)"
  using cut_cursor_drop [OF assms, of "before b s"] dropWhile_before [of b ks s] assms by (simp add: set_ok_def run_ok_def)

lemma search_cursors_ok:
  "list_all2 (set_ok b) ts kss \<Longrightarrow>
   list_all2 (cursor b) (cut_cursors (before b s) ts kss) (filter (\<lambda>ks. ks \<noteq> []) (map (filter (\<lambda>k. \<not> before b s k)) kss))"
proof (induction rule: list_all2_induct)
  case (Cons t ts ks kss)
  then show ?case using search_cursor_ok [OF Cons(1), of s] cursor_end_iff [OF search_cursor_ok [OF Cons(1), of s]]
    by (simp add: cut_cursors_def)
qed (simp add: cut_cursors_def)

lemma search_sets_ok:
  assumes f: "node_format_ok b" "field_sound (b_format b) 2" "prepare_search_key b s = Some (ret, lossy)" "ret \<noteq> BKEY_PACK_POS_FAIL"
    and ok: "list_all2 (set_ok b) ts kss"
  shows "\<exists>keys. search_sets b ts s lossy = Some keys \<and> (\<forall>cs. (\<forall>c\<in>set cs. ni_k c \<noteq> ni_end c) \<longrightarrow>
    length cs + length ts \<le> MAX_BSETS \<longrightarrow>
    linear_sets b ts s (if ret = BKEY_PACK_POS_EXACT then Some lossy else None) lossy keys (length cs) (padded cs) =
      Some (padded (cs @ cut_cursors (before b s) ts kss)))"
  using ok
proof (induction rule: list_all2_induct)
  case Nil
  then show ?case by (simp add: cut_cursors_def)
next
  case (Cons t ts ks kss)
  let ?p = "if ret = BKEY_PACK_POS_EXACT then Some lossy else None"
  let ?c = "cut_cursor (before b s) t ks"
  obtain m where m: "raw_bch2_bset_search b t s lossy = Some m"
      "bch2_bset_search_linear b t s ?p (Some lossy) m = Some (ni_k ?c)"
    using bset_search_first [OF f(1,2) Cons(1) f(3,4)] by (auto simp: cut_cursor_def)
  obtain keys where keys: "search_sets b ts s lossy = Some keys"
    and lin: "\<And>cs. \<forall>c\<in>set cs. ni_k c \<noteq> ni_end c \<Longrightarrow> length cs + length ts \<le> MAX_BSETS \<Longrightarrow>
      linear_sets b ts s ?p lossy keys (length cs) (padded cs) = Some (padded (cs @ cut_cursors (before b s) ts kss))"
    using Cons(3) by blast
  have e: "ni_end ?c = btree_bkey_last t" by (simp add: cut_cursor_def btree_bkey_last_def)
  have "linear_sets b (t # ts) s ?p lossy (m # keys) (length cs) (padded cs) = Some (padded (cs @ cut_cursors (before b s) (t # ts) (ks # kss)))"
    if cs: "\<forall>c\<in>set cs. ni_k c \<noteq> ni_end c" "length cs + length (t # ts) \<le> MAX_BSETS" for cs
  proof (cases "ni_k ?c = ni_end ?c")
    case True
    then show ?thesis using m(2) lin [OF cs(1)] cs(2) e by (simp add: cut_cursors_def)
  next
    case False
    have u: "upd_opt (padded cs) (length cs) \<lparr>ni_k = ni_k ?c, ni_end = btree_bkey_last t\<rparr> = Some (padded (cs @ [?c]))"
      using upd_padded [of cs ?c] cs(2) by (simp add: cut_cursor_def btree_bkey_last_def)
    have "linear_sets b ts s ?p lossy keys (length (cs @ [?c])) (padded (cs @ [?c])) = Some (padded ((cs @ [?c]) @ cut_cursors (before b s) ts kss))"
      by (rule lin) (use cs False in auto)
    then show ?thesis using False e by (simp add: cut_cursors_def m(2) u del: upd_opt_Some split del: if_split)
  qed
  then show ?case using m(1) keys by auto
qed

lemma starts_at_filter:
  assumes "\<forall>k\<in>#M. key_valid b k"
  shows "starts_at b s M {#k \<in># M. \<not> before b s k#}"
  by (auto simp: starts_at_def filter_filter_mset before_def not_less intro!: filter_mset_cong)

lemma mset_concat_filter: "mset (concat (map (filter P) kss)) = {#k \<in># mset (concat kss). P k#}"
  by (induction kss) auto

lemma node_keys_valid: "list_all2 (set_ok b) ts kss \<Longrightarrow> ks \<in> set kss \<Longrightarrow> k \<in> set ks \<Longrightarrow> key_valid b k"
  by (induction rule: list_all2_induct) (auto simp: set_ok_def run_ok_def)

lemma init_search_ok:
  assumes n: "node_ok b kss" and fs: "field_sound (b_format b) 2" and rng: "b_min_key b \<le> s" "s \<le> b_max_key b"
    and p: "prepare_search_key b s = Some (ret, lossy)" "ret \<noteq> BKEY_PACK_POS_FAIL"
  shows "\<exists>it. bch2_btree_node_iter_init b s = Some it \<and> iter_holds b it {#k \<in># mset (concat kss). \<not> before b s k#} \<and>
    bch2_btree_node_iter_sort (padded (cut_cursors (before b s) (b_sets b) kss)) b = Some it"
proof -
  have f: "node_format_ok b" and ok: "list_all2 (set_ok b) (b_sets b) kss" and len: "length (b_sets b) \<le> MAX_BSETS"
    using n by (auto simp: node_ok_def)
  have r: "require (bpos_cmp s (b_min_key b) \<ge> 0) = Some ()" "require (bpos_cmp s (b_max_key b) \<le> 0) = Some ()"
    using rng by (simp_all add: pos_order flip: not_less)
  let ?cs = "cut_cursors (before b s) (b_sets b) kss" and ?p = "if ret = BKEY_PACK_POS_EXACT then Some lossy else None"
  let ?R = "{#k \<in># mset (concat kss). \<not> before b s k#}"
  obtain keys where keys: "search_sets b (b_sets b) s lossy = Some keys"
    and "\<forall>cs. (\<forall>c\<in>set cs. ni_k c \<noteq> ni_end c) \<longrightarrow> length cs + length (b_sets b) \<le> MAX_BSETS \<longrightarrow>
      linear_sets b (b_sets b) s ?p lossy keys (length cs) (padded cs) = Some (padded (cs @ ?cs))"
    using search_sets_ok [OF f fs p ok] by blast
  from this(2) [rule_format, of "[]"] have lin: "linear_sets b (b_sets b) s ?p lossy keys 0 iter_default = Some (padded ?cs)"
    using len by (simp add: iter_default_def padded_def)
  have "length ?cs \<le> MAX_BSETS"
    using len list_all2_lengthD [OF ok] by (simp add: cut_cursors_def order.trans [OF length_filter_le])
  then obtain it where it: "bch2_btree_node_iter_sort (padded ?cs) b = Some it" "iter_holds b it ?R"
    using sort_padded [OF f search_cursors_ok [OF ok, of s]] by (auto simp: mset_concat_filter)
  obtain kk where kk: "bch2_btree_node_iter_peek_all it = Some kk" "\<And>k. kk = Some k \<Longrightarrow> key_valid b k"
    using iter_holds_peek [OF it(2)] by (cases "?R = {#}") auto
  have "bkey_unpack_pos (b_format b) (drop k (b_data b)) \<noteq> None" if "kk = Some k" for k
    using key_holds_unpack(1) [OF _ key_valid_pos [OF f kk(2) [OF that]]] f by (simp add: node_format_ok_def)
  then have "bch2_btree_node_iter_init b s = Some it"
    using r p keys lin it(1) kk by (auto simp: bch2_btree_node_iter_init_def Let_def split: option.splits)
  then show ?thesis using it by blast
qed

lemma iter_init_ok:
  assumes n: "node_ok b kss" and fs: "field_sound (b_format b) 2" and rng: "b_min_key b \<le> s" "s \<le> b_max_key b"
  shows "\<exists>it R. bch2_btree_node_iter_init b s = Some it \<and> iter_holds b it R \<and> starts_at b s (mset (concat kss)) R"
proof -
  have f: "node_format_ok b" and ok: "list_all2 (set_ok b) (b_sets b) kss" using n by (auto simp: node_ok_def)
  obtain ret lossy where p: "prepare_search_key b s = Some (ret, lossy)" using prepare_search_key_ok [OF f fs] by blast
  show ?thesis
  proof (cases "ret = BKEY_PACK_POS_FAIL")
    case True
    have r: "require (bpos_cmp s (b_min_key b) \<ge> 0) = Some ()" "require (bpos_cmp s (b_max_key b) \<le> 0) = Some ()"
      using rng by (simp_all add: pos_order flip: not_less)
    obtain it where it: "bch2_btree_node_iter_init_from_start b = Some it" "iter_holds b it (mset (concat kss))"
      using init_from_start_ok [OF n] by blast
    then show ?thesis using init_skip_loop_ok [OF it(2), of s] p True r by (auto simp: bch2_btree_node_iter_init_def)
  next
    case False
    have "\<forall>k\<in>#mset (concat kss). key_valid b k" using node_keys_valid [OF ok] by simp
    then show ?thesis using init_search_ok [OF n fs rng p False] starts_at_filter by blast
  qed
qed

text \<open>
  An iterator started at a position of the node yields, in the order of the node and without a panic, keys of the
  node only, none of them before the position, and among them every live key from the position on exactly once. This
  holds whether or not the position can be packed in the format of the node.\<close>

lemma node_iter_init_positions:
  assumes "node_ok b kss" "field_sound (b_format b) 2" "b_min_key b \<le> s" "s \<le> b_max_key b"
  shows "\<exists>it xs. bch2_btree_node_iter_init b s = Some it \<and> drain (bch2_btree_node_iter_next_all b) it = Some xs \<and>
    sorted (map (rank b) xs) \<and> mset xs \<subseteq># mset (concat kss) \<and> (\<forall>k\<in>set xs. \<not> before b s k) \<and>
    mset (filter (\<lambda>k. \<not> key_deleted b k) xs) = mset (filter (\<lambda>k. \<not> key_deleted b k \<and> s \<le> key_pos b k) (concat kss))"
proof -
  obtain it R where it: "bch2_btree_node_iter_init b s = Some it" "iter_holds b it R" "starts_at b s (mset (concat kss)) R"
    using iter_init_ok [OF assms] by blast
  obtain xs where "drain (bch2_btree_node_iter_next_all b) it = Some xs" "mset xs = R" "sorted (map (rank b) xs)"
    using node_iter.drain_sorted [OF it(2)] by blast
  then show ?thesis using it(1,3) by (auto simp: starts_at_def)
qed

section \<open>Stepping back\<close>

text \<open>The sets of a node lie one after the other.\<close>

definition laid_out :: "btree \<Rightarrow> bool" where
  "laid_out b \<longleftrightarrow> sorted_wrt (\<lambda>t u. t_end_offset t \<le> t_data_offset u) (b_sets b)"

definition live_cursors :: "btree_node_iter \<Rightarrow> btree_node_iter_set list" where
  "live_cursors it = filter (\<lambda>c. ni_k c \<noteq> ni_end c) it"

lemma sort_two_mset: "btree_node_iter_sort_two it b i = Some (sw, it') \<Longrightarrow> mset it' = mset it"
  by (auto simp: btree_node_iter_sort_two_def nth_opt_def mset_swap bind_eq_Some_conv split: if_splits)

lemma iter_sort_mset: "bch2_btree_node_iter_sort it b = Some it' \<Longrightarrow> mset it' = mset it"
  by (auto simp: bch2_btree_node_iter_sort_def bind_eq_Some_conv split: if_splits dest!: sort_two_mset)

lemma live_cursors_mset: "mset it = mset it' \<Longrightarrow> mset (live_cursors it) = mset (live_cursors it')"
  by (simp add: live_cursors_def)

lemma live_cursors_padded: "live_cursors (padded cs) = live_cursors cs"
  by (simp add: live_cursors_def padded_def)

text \<open>The exhausted cursors come last.\<close>

lemma iter_holds_live_first:
  assumes "iter_holds b it M"
  shows "\<exists>pad. it = live_cursors it @ pad \<and> (\<forall>c\<in>set pad. ni_k c = ni_end c)"
proof -
  obtain x y z xs ys zs where i: "it = [x, y, z]" "cursor b x xs" "cursor b y ys" "cursor b z zs" "hd_le b xs ys" "hd_le b ys zs"
    using assms unfolding iter_holds_def by blast
  then have e: "ni_k x = ni_end x \<longleftrightarrow> xs = []" "ni_k y = ni_end y \<longleftrightarrow> ys = []" "ni_k z = ni_end z \<longleftrightarrow> zs = []"
    using cursor_end_iff by blast+
  show ?thesis using i(1,5,6) e by (auto simp: live_cursors_def hd_le_def)
qed

lemma set_find_loop_live:
  assumes "\<forall>c\<in>set cs. ni_k c \<noteq> ni_end c" "\<forall>c\<in>set pad. ni_k c = ni_end c"
  shows "(\<exists>j<length cs. ni_end (cs ! j) = e \<and> set_find_loop (cs @ pad) i e = Some (i + j)) \<or>
    (\<forall>c\<in>set cs. ni_end c \<noteq> e) \<and> set_find_loop (cs @ pad) i e = None"
  using assms
proof (induction cs arbitrary: i)
  case Nil
  then show ?case by (cases pad) auto
next
  case (Cons c cs)
  show ?case
  proof (cases "ni_end c = e")
    case True
    then show ?thesis using Cons.prems by (intro disjI1 exI [of _ 0]) simp
  next
    case False
    have "\<forall>c\<in>set cs. ni_k c \<noteq> ni_end c" using Cons.prems by simp
    from Cons.IH [OF this Cons.prems(2), of "Suc i"] show ?thesis
    proof (elim disjE exE conjE)
      fix j
      assume "j < length cs" "ni_end (cs ! j) = e" "set_find_loop (cs @ pad) (Suc i) e = Some (Suc i + j)"
      then show ?thesis using False Cons.prems by (intro disjI1 exI [of _ "Suc j"]) simp
    qed (use False Cons.prems in auto)
  qed
qed

lemma set_find_live:
  assumes "iter_holds b it M"
  shows "(\<exists>j<length (live_cursors it). ni_end (it ! j) = e \<and> it ! j \<in> set (live_cursors it) \<and> btree_node_iter_set_find it e = Some j) \<or>
    (\<forall>c\<in>set (live_cursors it). ni_end c \<noteq> e) \<and> btree_node_iter_set_find it e = None"
proof -
  let ?l = "live_cursors it"
  obtain pad where p: "it = ?l @ pad" "\<forall>c\<in>set pad. ni_k c = ni_end c" using iter_holds_live_first [OF assms] by blast
  have l: "\<forall>c\<in>set ?l. ni_k c \<noteq> ni_end c" by (simp add: live_cursors_def)
  have n: "it ! j = ?l ! j" if "j < length ?l" for j using that by (subst p(1)) (simp add: nth_append)
  have "set_find_loop it 0 e = set_find_loop (?l @ pad) 0 e" using p(1) by simp
  then show ?thesis using set_find_loop_live [OF l p(2), of e 0] n by (auto simp: btree_node_iter_set_find_def)
qed

lemma used_live:
  assumes "iter_holds b it M"
  shows "raw_btree_node_iter_used it = Some (length (live_cursors it))"
proof -
  obtain x y z xs ys zs where i: "it = [x, y, z]" "cursor b x xs" "cursor b y ys" "cursor b z zs" "hd_le b xs ys" "hd_le b ys zs"
    using assms unfolding iter_holds_def by blast
  then have e: "ni_k x = ni_end x \<longleftrightarrow> xs = []" "ni_k y = ni_end y \<longleftrightarrow> ys = []" "ni_k z = ni_end z \<longleftrightarrow> zs = []"
    using cursor_end_iff by blast+
  have m: "MAX_BSETS = Suc (Suc (Suc 0))" by (simp add: code_consts)
  have s: "raw_btree_node_iter_set_end [x, y, z] (Suc (Suc 0)) = Some (ni_k z = ni_end z)"
    by (simp add: raw_btree_node_iter_set_end_def nth_opt_def)
  show ?thesis using i(1,5,6) e
    by (auto simp: raw_btree_node_iter_used_def m s live_cursors_def hd_le_def)
qed

lemma cursor_unique: "cursor b s xs \<Longrightarrow> cursor b s ys \<Longrightarrow> xs = ys"
  by (simp add: cursor_def run_ok_def)

lemma iter_holds_front:
  assumes it: "iter_holds b it M" and j: "j < MAX_BSETS" and c: "cursor b (it ! j) r" "cursor b s (k # r)"
    and k: "\<forall>l\<in>#M. rank b k \<le> rank b l"
  shows "iter_holds b (s # take j it @ drop (Suc j) it) (add_mset k M)"
proof -
  obtain x y z xs ys zs where i: "it = [x, y, z]" "cursor b x xs" "cursor b y ys" "cursor b z zs" "hd_le b xs ys" "hd_le b ys zs"
      "M = mset xs + mset ys + mset zs" and f: "node_format_ok b"
    using it unfolding iter_holds_def by blast
  have h: "hd_le b (k # r) ls" if "set ls \<subseteq> set_mset M" for ls using k that by (cases ls) (auto simp: hd_le_def)
  then have hs: "hd_le b (k # r) xs" "hd_le b (k # r) ys" by (auto simp: i(7))
  have tr: "hd_le b xs zs" using i(5,6) by (auto simp: hd_le_def intro: order.trans)
  consider "j = 0" | "j = 1" | "j = 2" using j by (fastforce simp: code_consts)
  then show ?thesis
  proof cases
    case 1
    then have "xs = r" using cursor_unique i(1,2) c(1) by simp
    then show ?thesis using iter_holdsI [OF f c(2) i(3,4) hs(2) i(6)] i(1,7) 1 by simp
  next
    case 2
    then have "ys = r" using cursor_unique i(1,3) c(1) by simp
    then show ?thesis using iter_holdsI [OF f c(2) i(2,4) hs(1) tr] i(1,7) 2 by (simp add: ac_simps)
  next
    case 3
    then have "zs = r" using cursor_unique i(1,4) c(1) by simp
    then show ?thesis using iter_holdsI [OF f c(2) i(2,3) hs(1) i(5)] i(1,7) 3 by (simp add: ac_simps)
  qed
qed

text \<open>The iterator stands where the keys in \<open>C\<close> have been consumed.\<close>

definition iter_cut :: "btree \<Rightarrow> nat list list \<Rightarrow> (nat \<Rightarrow> bool) \<Rightarrow> btree_node_iter \<Rightarrow> bool" where
  "iter_cut b kss C it \<longleftrightarrow> node_ok b kss \<and> laid_out b \<and> (\<forall>x y. rank b x \<le> rank b y \<longrightarrow> C y \<longrightarrow> C x) \<and>
     iter_holds b it {#k \<in># mset (concat kss). \<not> C k#} \<and> mset (live_cursors it) = mset (cut_cursors C (b_sets b) kss)"

lemma laid_out_end:
  assumes "laid_out b" "list_all2 (set_ok b) (b_sets b) kss"
    "(t, ks) \<in> set (zip (b_sets b) kss)" "(u, ls) \<in> set (zip (b_sets b) kss)" "t_end_offset t = t_end_offset u"
  shows "t = u \<and> ks = ls"
proof -
  obtain i j where i: "t = b_sets b ! i" "ks = kss ! i" "i < length (b_sets b)" and j: "u = b_sets b ! j" "ls = kss ! j" "j < length (b_sets b)"
    using assms(3,4) by (auto simp: in_set_zip)
  have lt: "t_end_offset (b_sets b ! m) < t_end_offset (b_sets b ! n)" if "m < n" "n < length (b_sets b)" for m n
  proof -
    have "set_ok b (b_sets b ! n) (kss ! n)" using assms(2) that by (simp add: list_all2_conv_all_nth)
    then have "btree_bkey_first (b_sets b ! n) \<le> t_end_offset (b_sets b ! n)" using set_keys_le by (auto simp: set_ok_def run_ok_def)
    moreover have "t_end_offset (b_sets b ! m) \<le> t_data_offset (b_sets b ! n)"
      using assms(1) that by (auto simp: laid_out_def sorted_wrt_iff_nth_less)
    ultimately show ?thesis by (simp add: btree_bkey_first_def btree_bkey_first_offset_def)
  qed
  have "i = j" using lt [of i j] lt [of j i] i j assms(5) by (metis less_irrefl nat_neq_iff)
  then show ?thesis using i j by simp
qed

lemma live_cut:
  assumes "mset (live_cursors it) = mset (cut_cursors C ts kss)"
  shows "c \<in> set (live_cursors it) \<longleftrightarrow> ni_k c \<noteq> ni_end c \<and> (\<exists>t ks. (t, ks) \<in> set (zip ts kss) \<and> c = cut_cursor C t ks)"
  using mset_eq_setD [OF assms] by (auto simp: cut_cursors_def)

lemma iter_cut_find:
  assumes "iter_cut b kss C it" "(t, ks) \<in> set (zip (b_sets b) kss)"
  shows "(\<exists>j<MAX_BSETS. it ! j = cut_cursor C t ks \<and> btree_node_iter_set_find it (t_end_offset t) = Some j) \<or>
    first_not C ks (t_end_offset t) = t_end_offset t \<and> btree_node_iter_set_find it (t_end_offset t) = None"
proof -
  have it: "iter_holds b it {#k \<in># mset (concat kss). \<not> C k#}" and lo: "laid_out b" "list_all2 (set_ok b) (b_sets b) kss"
    and lv: "mset (live_cursors it) = mset (cut_cursors C (b_sets b) kss)"
    using assms(1) by (auto simp: iter_cut_def node_ok_def)
  note live = live_cut [OF lv]
  have len: "length (live_cursors it) \<le> MAX_BSETS"
    using it by (auto simp: iter_holds_def live_cursors_def code_consts intro: order.trans [OF length_filter_le])
  from set_find_live [OF it, of "t_end_offset t"] show ?thesis
  proof (elim disjE exE conjE)
    fix j
    assume j: "j < length (live_cursors it)" "ni_end (it ! j) = t_end_offset t" "it ! j \<in> set (live_cursors it)"
      "btree_node_iter_set_find it (t_end_offset t) = Some j"
    then obtain u ls where u: "(u, ls) \<in> set (zip (b_sets b) kss)" "it ! j = cut_cursor C u ls" using live by blast
    then have "u = t \<and> ls = ks" using laid_out_end [OF lo u(1) assms(2)] j(2) by (simp add: cut_cursor_def)
    then show ?thesis using j u len by auto
  next
    assume n: "\<forall>c\<in>set (live_cursors it). ni_end c \<noteq> t_end_offset t" "btree_node_iter_set_find it (t_end_offset t) = None"
    have "cut_cursor C t ks \<notin> set (live_cursors it)" using n(1) by (auto simp: cut_cursor_def)
    then show ?thesis using live assms(2) n(2) by (auto simp: cut_cursor_def)
  qed
qed

lemma iter_cut_bset_pos:
  assumes "iter_cut b kss C it" "(t, ks) \<in> set (zip (b_sets b) kss)"
  shows "bch2_btree_node_iter_bset_pos it t = first_not C ks (t_end_offset t)"
  using iter_cut_find [OF assms]
  by (auto simp: bch2_btree_node_iter_bset_pos_def cut_cursor_def btree_bkey_last_def)

lemma sorted_last_greatest: "keys_sorted b xs \<Longrightarrow> l \<in> set xs \<Longrightarrow> rank b l \<le> rank b (last xs)"
  by (induction xs) (auto simp: keys_sorted_def less_imp_le)

definition consumed :: "(nat \<Rightarrow> bool) \<Rightarrow> bset_tree list \<Rightarrow> nat list list \<Rightarrow> nat set" where
  "consumed C ts kss = (\<Union>(t, ks)\<in>set (zip ts kss). set (takeWhile C ks))"

lemma prev_all_cut:
  assumes "set_ok b t ks" "bch2_btree_node_iter_bset_pos it t = first_not C ks (t_end_offset t)"
  shows "bch2_bkey_prev_all b t (bch2_btree_node_iter_bset_pos it t) =
    Some (if takeWhile C ks = [] then None else Some (last (takeWhile C ks)))"
proof (rule prev_all_ok [of b t _ "dropWhile C ks"])
  show "case dropWhile C ks of [] \<Rightarrow> bch2_btree_node_iter_bset_pos it t = t_end_offset t | y # _ \<Rightarrow> bch2_btree_node_iter_bset_pos it t = y"
    unfolding assms(2) first_not_dropWhile by (cases "dropWhile C ks") (simp_all del: dropWhile_eq_Nil_conv)
qed (use assms(1) in simp)

text \<open>The choice among the sets: the greatest consumed key, or the key \<open>prev\<close> found so far.\<close>

definition prev_choice :: "btree \<Rightarrow> (nat \<Rightarrow> bool) \<Rightarrow> bset_tree list \<Rightarrow> nat list list \<Rightarrow> (nat \<times> nat) option \<Rightarrow> (nat \<times> nat) option \<Rightarrow> bool" where
  "prev_choice b C ts kss prev r \<longleftrightarrow>
     (case r of None \<Rightarrow> prev = None \<and> consumed C ts kss = {}
      | Some (k, e) \<Rightarrow>
          (prev = Some (k, e) \<or> (\<exists>(t, ks)\<in>set (zip ts kss). takeWhile C ks \<noteq> [] \<and> k = last (takeWhile C ks) \<and> e = t_end_offset t)) \<and>
          (\<forall>p e'. prev = Some (p, e') \<longrightarrow> rank b p \<le> rank b k) \<and> (\<forall>l\<in>consumed C ts kss. rank b l \<le> rank b k))"

lemma consumed_Cons: "consumed C (t # ts) (ks # kss) = set (takeWhile C ks) \<union> consumed C ts kss"
  by (auto simp: consumed_def)

lemma prev_choice_skip:
  "takeWhile C ks = [] \<Longrightarrow> prev_choice b C ts kss prev r \<Longrightarrow> prev_choice b C (t # ts) (ks # kss) prev r"
  by (auto simp: prev_choice_def consumed_Cons split: option.splits)

lemma prev_choice_take:
  assumes "takeWhile C ks \<noteq> []" "keys_sorted b ks" "prev_choice b C ts kss prev' r"
    "prev' = (if prev = None \<or> rank b (fst (the prev)) < rank b (last (takeWhile C ks)) then Some (last (takeWhile C ks), t_end_offset t) else prev)"
  shows "prev_choice b C (t # ts) (ks # kss) prev r"
proof -
  let ?w = "takeWhile C ks"
  obtain q f where q: "prev' = Some (q, f)" using assms(4) by (cases prev') (auto split: if_splits)
  obtain k e where k: "r = Some (k, e)" using assms(3) q by (cases r) (auto simp: prev_choice_def)
  have "keys_sorted b (?w @ dropWhile C ks)" using assms(2) by simp
  then have "keys_sorted b ?w" by (simp only: keys_sorted_def sorted_wrt_append)
  then have g: "\<forall>l\<in>set ?w. rank b l \<le> rank b (last ?w)" using sorted_last_greatest by blast
  have up: "rank b (last ?w) \<le> rank b q" "\<And>p e. prev = Some (p, e) \<Longrightarrow> rank b p \<le> rank b q"
    using assms(4) q by (auto split: if_splits)
  have qk: "rank b q \<le> rank b k" and old: "\<forall>l\<in>consumed C ts kss. rank b l \<le> rank b k"
    using assms(3) q k by (auto simp: prev_choice_def)
  have "\<forall>l\<in>consumed C (t # ts) (ks # kss). rank b l \<le> rank b k"
    using g up(1) qk old by (auto simp: consumed_Cons intro: order.trans)
  moreover have "\<forall>p e'. prev = Some (p, e') \<longrightarrow> rank b p \<le> rank b k" using up(2) qk order.trans by blast
  moreover have "prev = Some (k, e) \<or> (\<exists>(t', ks')\<in>set (zip (t # ts) (ks # kss)). takeWhile C ks' \<noteq> [] \<and> k = last (takeWhile C ks') \<and> e = t_end_offset t')"
    using assms k by (auto simp: prev_choice_def split: if_splits)
  ultimately show ?thesis by (simp only: prev_choice_def k option.case prod.case simp_thms)
qed

lemma prev_candidates_ok:
  assumes f: "node_format_ok b"
  shows "list_all2 (\<lambda>t ks. set_ok b t ks \<and> bch2_btree_node_iter_bset_pos it t = first_not C ks (t_end_offset t)) ts kss \<Longrightarrow>
    \<forall>p e. prev = Some (p, e) \<longrightarrow> key_valid b p \<Longrightarrow>
    \<exists>r. prev_candidates b it ts prev = Some r \<and> prev_choice b C ts kss prev r"
proof (induction ts kss arbitrary: prev rule: list_all2_induct)
  case Nil
  show ?case by (cases prev) (simp_all add: consumed_def prev_choice_def split: prod.split)
next
  case (Cons t ts ks kss)
  let ?w = "takeWhile C ks"
  have p: "bch2_bkey_prev_all b t (bch2_btree_node_iter_bset_pos it t) = Some (if ?w = [] then None else Some (last ?w))"
    by (rule prev_all_cut) (use Cons(1) in simp_all)
  show ?case
  proof (cases "?w = []")
    case True
    then have "prev_candidates b it (t # ts) prev = prev_candidates b it ts prev" using p by simp
    moreover obtain r where "prev_candidates b it ts prev = Some r" "prev_choice b C ts kss prev r" using Cons(3) [OF Cons(4)] by blast
    ultimately show ?thesis using prev_choice_skip [OF True] by auto
  next
    case False
    have s: "keys_sorted b ks" and vs: "\<forall>x\<in>set ks. key_valid b x" using Cons(1) by (simp_all add: set_ok_def run_ok_def)
    have "last ?w \<in> set ks" using set_takeWhileD [OF last_in_set [OF False]] by blast
    then have v: "key_valid b (last ?w)" using vs by blast
    define prev' where "prev' = (if prev = None \<or> rank b (fst (the prev)) < rank b (last ?w) then Some (last ?w, t_end_offset t) else prev)"
    have v': "\<forall>q e. prev' = Some (q, e) \<longrightarrow> key_valid b q" using v Cons(4) by (auto simp: prev'_def split: if_splits)
    have st: "prev_candidates b it (t # ts) prev = prev_candidates b it ts prev'"
    proof (cases prev)
      case (Some pe)
      obtain q e where pe: "pe = (q, e)" by (cases pe)
      obtain c where "bkey_iter_cmp b (last ?w) q = Some c" "0 < c \<longleftrightarrow> rank b q < rank b (last ?w)"
        using iter_cmp_rank [OF f v, of q] Cons(4) Some pe by auto
      then show ?thesis using p False Some pe by (simp add: prev'_def)
    qed (use p False in \<open>simp add: prev'_def\<close>)
    obtain r where "prev_candidates b it ts prev' = Some r" "prev_choice b C ts kss prev' r" using Cons(3) [OF v'] by blast
    with prev_choice_take [OF False s this(2) prev'_def] show ?thesis unfolding st by blast
  qed
qed

lemma takeWhile_down:
  assumes "keys_sorted b ks" "\<And>x y. rank b x \<le> rank b y \<Longrightarrow> C y \<Longrightarrow> C x"
  shows "set (takeWhile C ks) = {k \<in> set ks. C k}"
  using assms(1)
proof (induction ks)
  case (Cons k ks)
  have "C k" if "l \<in> set ks" "C l" for l using Cons.prems that assms(2) [of k l] by (auto simp: keys_sorted_def)
  then show ?case using Cons by (auto simp: keys_sorted_def)
qed simp

lemma consumed_eq:
  assumes "list_all2 (set_ok b) ts kss" "\<And>x y. rank b x \<le> rank b y \<Longrightarrow> C y \<Longrightarrow> C x"
  shows "consumed C ts kss = {k \<in> set (concat kss). C k}"
  using assms(1)
proof (induction rule: list_all2_induct)
  case (Cons t ts ks kss)
  have "keys_sorted b ks" using Cons(1) by (simp add: set_ok_def run_ok_def)
  then show ?case using Cons(3) takeWhile_down [OF _ assms(2)] by (auto simp: consumed_Cons)
qed (simp add: consumed_def)

text \<open>The slot of the cursor that steps back: that of its set, or the first free one when the set was exhausted.\<close>

lemma prev_slot:
  assumes "iter_cut b kss C it" "(t, ks) \<in> set (zip (b_sets b) kss)"
  shows "\<exists>j<MAX_BSETS. cursor b (it ! j) (dropWhile C ks) \<and>
    (case btree_node_iter_set_find it (t_end_offset t) of Some i \<Rightarrow> Some i | None \<Rightarrow> raw_btree_node_iter_used it) = Some j"
proof -
  have ok: "list_all2 (set_ok b) (b_sets b) kss" and len: "length (b_sets b) \<le> MAX_BSETS"
    and it: "iter_holds b it {#k \<in># mset (concat kss). \<not> C k#}" and lv: "mset (live_cursors it) = mset (cut_cursors C (b_sets b) kss)"
    using assms(1) by (auto simp: iter_cut_def node_ok_def)
  have c: "cursor b (cut_cursor C t ks) (dropWhile C ks)" using cut_cursor_drop ok assms(2) by (auto simp: list_all2_iff)
  from iter_cut_find [OF assms] show ?thesis
  proof (elim disjE exE conjE)
    assume n: "first_not C ks (t_end_offset t) = t_end_offset t" "btree_node_iter_set_find it (t_end_offset t) = None"
    let ?n = "length (live_cursors it)"
    have d: "dropWhile C ks = []" using c n(1) cursor_end_iff [OF c] by (simp add: cut_cursor_def)
    have "?n = length (cut_cursors C (b_sets b) kss)" using lv mset_eq_length by blast
    also have "\<dots> < length (map2 (cut_cursor C) (b_sets b) kss)"
    proof -
      have "cut_cursor C t ks \<in> set (map2 (cut_cursor C) (b_sets b) kss)"
        using imageI [OF assms(2), of "case_prod (cut_cursor C)"] by simp
      from length_filter_less [OF this, of "\<lambda>c. ni_k c \<noteq> ni_end c"] n(1) show ?thesis
        by (simp add: cut_cursors_def cut_cursor_def)
    qed
    finally have lt: "?n < MAX_BSETS" using len by simp
    obtain pad where pad: "it = live_cursors it @ pad" "\<forall>c\<in>set pad. ni_k c = ni_end c" using iter_holds_live_first [OF it] by blast
    have "length it = MAX_BSETS" using it by (auto simp: iter_holds_def code_consts)
    then have "pad \<noteq> []" using lt pad(1) by (metis append_Nil2 less_irrefl)
    moreover have "it ! ?n = pad ! 0" by (subst pad(1)) (simp add: nth_append)
    ultimately have "ni_k (it ! ?n) = ni_end (it ! ?n)" using pad(2) by simp
    then have "cursor b (it ! ?n) (dropWhile C ks)" unfolding d by simp
    then show ?thesis using lt n(2) used_live [OF it] by (intro exI [of _ ?n]) simp
  qed (use c in auto)
qed

lemma iter_cut_prev:
  assumes "iter_cut b kss C it"
  shows "\<exists>r it'. bch2_btree_node_iter_prev_all b it = Some (r, it') \<and>
    (case r of None \<Rightarrow> \<forall>k\<in>set (concat kss). \<not> C k
     | Some k \<Rightarrow> k \<in> set (concat kss) \<and> C k \<and> (\<forall>l\<in>set (concat kss). C l \<longrightarrow> rank b l \<le> rank b k) \<and>
        iter_holds b it' (add_mset k {#k \<in># mset (concat kss). \<not> C k#}))"
proof -
  have f: "node_format_ok b" and ok: "list_all2 (set_ok b) (b_sets b) kss" and down: "\<And>x y. rank b x \<le> rank b y \<Longrightarrow> C y \<Longrightarrow> C x"
    and it: "iter_holds b it {#k \<in># mset (concat kss). \<not> C k#}"
    and lv: "mset (live_cursors it) = mset (cut_cursors C (b_sets b) kss)"
    using assms by (auto simp: iter_cut_def node_ok_def)
  have len: "length (b_sets b) \<le> MAX_BSETS" "length (b_sets b) = length kss" using assms list_all2_lengthD [OF ok] by (auto simp: iter_cut_def node_ok_def)
  have all: "list_all2 (\<lambda>t ks. set_ok b t ks \<and> bch2_btree_node_iter_bset_pos it t = first_not C ks (t_end_offset t)) (b_sets b) kss"
    using ok iter_cut_bset_pos [OF assms] by (auto simp: list_all2_iff)
  have taken: "consumed C (b_sets b) kss = {k \<in> set (concat kss). C k}" by (rule consumed_eq [OF ok down])
  obtain r where r: "prev_candidates b it (b_sets b) None = Some r" "prev_choice b C (b_sets b) kss None r"
    using prev_candidates_ok [OF f all, of None] by blast
  show ?thesis
  proof (cases r)
    case None
    then show ?thesis using r taken by (auto simp: bch2_btree_node_iter_prev_all_def prev_choice_def)
  next
    case (Some ke)
    obtain k e where ke: "r = Some (k, e)" using Some by (cases ke) simp
    then have great: "\<forall>l\<in>set (concat kss). C l \<longrightarrow> rank b l \<le> rank b k" using r(2) taken by (simp add: prev_choice_def)
    obtain t ks where k: "(t, ks) \<in> set (zip (b_sets b) kss)" "takeWhile C ks \<noteq> []" "k = last (takeWhile C ks)"
        "e = t_end_offset t"
      using r(2) ke by (auto simp: prev_choice_def)
    have tk: "set_ok b t ks" and ks: "ks \<in> set kss" using k(1) ok by (auto simp: list_all2_iff dest: set_zip_rightD)
    have kin: "k \<in> set (concat kss)" "C k" using set_takeWhileD [OF last_in_set [OF k(2)]] k(3) ks by auto
    have least: "\<forall>l\<in>#{#k \<in># mset (concat kss). \<not> C k#}. rank b k \<le> rank b l" using kin(2) down linear by (metis (mono_tags, lifting) mem_Collect_eq set_mset_filter)
    have nc: "cursor b \<lparr>ni_k = k, ni_end = e\<rparr> (k # dropWhile C ks)"
    proof -
      have "butlast (takeWhile C ks) @ k # dropWhile C ks = ks" using append_butlast_last_id [OF k(2)] k(3) takeWhile_dropWhile_id [of C ks]
        by (metis append.assoc append_Cons append_Nil)
      then show ?thesis
        using run_ok_suffix [of b "btree_bkey_first t" "t_end_offset t" "butlast (takeWhile C ks)" "k # dropWhile C ks"] tk k(4)
        by (simp add: cursor_def set_ok_def)
    qed
    obtain j where j: "j < MAX_BSETS" "cursor b (it ! j) (dropWhile C ks)"
        "(case btree_node_iter_set_find it e of Some i \<Rightarrow> Some i | None \<Rightarrow> raw_btree_node_iter_used it) = Some j"
      using prev_slot [OF assms k(1)] k(4) by blast
    have "bch2_btree_node_iter_prev_all b it = Some (Some k, \<lparr>ni_k = k, ni_end = e\<rparr> # take j it @ drop (Suc j) it)"
      using r(1) ke j by (simp add: bch2_btree_node_iter_prev_all_def)
    then show ?thesis using iter_holds_front [OF it j(1,2) nc least] kin great by simp
  qed
qed

lemma sorted_by_rank_unique:
  assumes "mset xs = mset ys" "sorted (map (rank b) xs)" "sorted (map (rank b) ys)"
  shows "xs = ys"
proof -
  have "map (rank b) xs = map (rank b) ys"
    using assms by (metis mset_map properties_for_sort)
  moreover have "inj (rank b)" by (auto simp: inj_def)
  ultimately show ?thesis by (simp add: inj_map_eq_map)
qed

text \<open>
  Stepping back from an iterator started at a position finds nothing exactly when no key of the node is before the
  position; otherwise it returns the greatest key before it, and the iterator then yields that key followed by what
  it would have yielded: stepping back undoes a step forward.\<close>

lemma node_iter_prev_before:
  assumes "node_ok b kss" "laid_out b" "field_sound (b_format b) 2" "b_min_key b \<le> s" "s \<le> b_max_key b"
    "prepare_search_key b s = Some (ret, lossy)" "ret \<noteq> BKEY_PACK_POS_FAIL"
  shows "\<exists>it xs r it'. bch2_btree_node_iter_init b s = Some it \<and> drain (bch2_btree_node_iter_next_all b) it = Some xs \<and>
    bch2_btree_node_iter_prev_all b it = Some (r, it') \<and>
    (case r of None \<Rightarrow> \<forall>k\<in>set (concat kss). \<not> before b s k
     | Some k \<Rightarrow> k \<in> set (concat kss) \<and> before b s k \<and> (\<forall>l\<in>set (concat kss). before b s l \<longrightarrow> rank b l \<le> rank b k) \<and>
        drain (bch2_btree_node_iter_next_all b) it' = Some (k # xs))"
proof -
  let ?R = "{#k \<in># mset (concat kss). \<not> before b s k#}"
  obtain it where it: "bch2_btree_node_iter_init b s = Some it" "iter_holds b it ?R"
      "bch2_btree_node_iter_sort (padded (cut_cursors (before b s) (b_sets b) kss)) b = Some it"
    using init_search_ok [OF assms(1,3-7)] by blast
  have "mset (live_cursors it) = mset (live_cursors (padded (cut_cursors (before b s) (b_sets b) kss)))"
    by (rule live_cursors_mset [OF iter_sort_mset [OF it(3)]])
  then have "mset (live_cursors it) = mset (cut_cursors (before b s) (b_sets b) kss)"
    by (simp add: live_cursors_padded) (simp add: live_cursors_def cut_cursors_def)
  then have "iter_cut b kss (before b s) it" using assms(1,2) it(2) before_down by (auto simp: iter_cut_def)
  from iter_cut_prev [OF this] obtain r it' where r: "bch2_btree_node_iter_prev_all b it = Some (r, it')"
    "case r of None \<Rightarrow> \<forall>k\<in>set (concat kss). \<not> before b s k
     | Some k \<Rightarrow> k \<in> set (concat kss) \<and> before b s k \<and> (\<forall>l\<in>set (concat kss). before b s l \<longrightarrow> rank b l \<le> rank b k) \<and>
        iter_holds b it' (add_mset k ?R)"
    by blast
  obtain xs where xs: "drain (bch2_btree_node_iter_next_all b) it = Some xs" "mset xs = ?R" "sorted (map (rank b) xs)"
    using node_iter.drain_sorted [OF it(2)] by blast
  have "drain (bch2_btree_node_iter_next_all b) it' = Some (k # xs)" if k: "r = Some k" for k
  proof -
    have h: "iter_holds b it' (add_mset k ?R)" "before b s k" using r(2) k by auto
    obtain ys where ys: "drain (bch2_btree_node_iter_next_all b) it' = Some ys" "mset ys = add_mset k ?R" "sorted (map (rank b) ys)"
      using node_iter.drain_sorted [OF h(1)] by blast
    have "\<forall>x\<in>set xs. \<not> before b s x" using xs(2) by (metis (mono_tags, lifting) mem_Collect_eq set_mset_filter set_mset_mset)
    then have "\<forall>x\<in>set xs. rank b k \<le> rank b x" using before_down h(2) by (meson linear)
    then have "ys = k # xs" using ys xs by (intro sorted_by_rank_unique) auto
    then show ?thesis using ys(1) by simp
  qed
  then show ?thesis using it(1) xs(1) r by (cases r) auto
qed

end
