(* ===== verification/Bset_Update.thy ===== *)
theory Bset_Update
  imports Bset_Search
begin

unbundle bit_operations_syntax

text \<open>
  Inserting, replacing and deleting keys in the set of a node that is being written, \<^verbatim>\<open>btree/bset_update.rs\<close>: the
  words after the key move, the length in the header of the set and the end of the set follow, and the lookup table
  of the set is corrected. The table is a list as long as its buffer; its first \<open>t_size\<close> entries are in use.

  A key to insert is given as the in-memory key and its value words; \<open>bkey_words\<close> is its image in memory.
\<close>

section \<open>The table of a set being written\<close>

definition L1_CACHE_BYTES :: nat where [code_consts]: "L1_CACHE_BYTES = 64"

definition raw_btree_keys_cachelines :: "nat \<Rightarrow> nat" where
  "raw_btree_keys_cachelines byte_order = 2 ^ byte_order div BSET_CACHELINE"

definition raw_btree_aux_data_bytes :: "nat \<Rightarrow> nat" where
  "raw_btree_aux_data_bytes byte_order = raw_btree_keys_cachelines byte_order * 8"

definition bset_rw_tree_capacity :: "btree \<Rightarrow> bset_tree \<Rightarrow> nat option" where
  "bset_rw_tree_capacity b t =
     do { n \<leftarrow> sub_nat (raw_btree_aux_data_bytes (b_byte_order b)) (t_aux_data_offset t * 8); Some (n div 24) }"

definition rw_aux_tree_set :: "btree \<Rightarrow> bset_tree \<Rightarrow> nat \<Rightarrow> nat \<Rightarrow> bset_tree option" where
  "rw_aux_tree_set b t j k =
     do { require (k < btree_bkey_last t);
          tree \<leftarrow> rw_aux_tree_base t;
          ws \<leftarrow> key_at b k;
          p \<leftarrow> bkey_unpack_pos (b_format b) ws;
          tree \<leftarrow> upd_opt tree j \<lparr>ra_offset = k, ra_k = p\<rparr>;
          Some (t\<lparr>t_rw := tree\<rparr>) }"

text \<open>The first key at least a cache line after \<open>start\<close> and before \<open>e\<close>.\<close>

partial_function (option) insert_entry_scan :: "btree \<Rightarrow> nat \<Rightarrow> nat \<Rightarrow> nat \<Rightarrow> nat option option" where
  "insert_entry_scan b start e k =
     do { k \<leftarrow> bkey_p_next b k;
          if k = e then Some None
          else if (k - start) * 8 \<ge> L1_CACHE_BYTES then Some (Some k)
          else insert_entry_scan b start e k }"

declare insert_entry_scan.simps [code]

definition rw_open_slot :: "bset_tree \<Rightarrow> nat \<Rightarrow> bset_tree option" where
  "rw_open_slot t idx =
     do { tree \<leftarrow> rw_aux_tree_base t;
          require (t_size t < length tree);
          require (t_size t < 65535);
          Some (t\<lparr>t_rw := take (idx + 1) tree @ take (t_size t - idx) (drop idx tree) @ drop (t_size t + 1) tree,
                  t_size := t_size t + 1\<rparr>) }"

definition rw_aux_tree_insert_entry :: "btree \<Rightarrow> bset_tree \<Rightarrow> nat \<Rightarrow> bset_tree option" where
  "rw_aux_tree_insert_entry b t idx =
     do { require (idx \<noteq> 0 \<and> idx \<le> t_size t);
          start \<leftarrow> rw_aux_to_bkey t (idx - 1);
          e \<leftarrow> (if idx < t_size t then rw_aux_to_bkey t idx else Some (btree_bkey_last t));
          cap \<leftarrow> bset_rw_tree_capacity b t;
          wide \<leftarrow> (if t_size t < cap then do { d \<leftarrow> sub_nat e start; Some (d * 8 > L1_CACHE_BYTES) } else Some False);
          if wide then do {
            r \<leftarrow> insert_entry_scan b start e start;
            case r of None \<Rightarrow> Some t
            | Some k \<Rightarrow> do { t \<leftarrow> rw_open_slot t idx; rw_aux_tree_set b t idx k } }
          else Some t }"

definition rw_shift_entry :: "int \<Rightarrow> rw_aux_tree \<Rightarrow> rw_aux_tree" where
  "rw_shift_entry shift r = r\<lparr>ra_offset := nat ((int (ra_offset r) + shift) mod 2 ^ 16)\<rparr>"

definition rw_close_slot :: "bset_tree \<Rightarrow> nat \<Rightarrow> bset_tree" where
  "rw_close_slot t idx =
     t\<lparr>t_rw := take idx (t_rw t) @ take (t_size t - idx - 1) (drop (idx + 1) (t_rw t)) @ drop (t_size t - 1) (t_rw t),
       t_size := t_size t - 1\<rparr>"

text \<open>The entries from \<open>idx\<close> on lie after \<open>off\<close>: drop the one that would fall on its predecessor, move the others.\<close>

definition fix_entries_after :: "btree \<Rightarrow> bset_tree \<Rightarrow> nat \<Rightarrow> int \<Rightarrow> nat \<Rightarrow> bset_tree option" where
  "fix_entries_after b t off shift idx =
     do { beyond \<leftarrow> (if idx \<ge> t_size t then Some True else do { e \<leftarrow> rw_entry t idx; Some (ra_offset e > off) });
          require beyond;
          merge \<leftarrow> (if idx < t_size t then do { e \<leftarrow> rw_entry t idx; p \<leftarrow> rw_entry t (idx - 1);
                                            Some (int (ra_offset e) + shift = int (ra_offset p)) }
                  else Some False);
          let t = (if merge then rw_close_slot t idx else t);
          let t = t\<lparr>t_rw := take idx (t_rw t) @ map (rw_shift_entry shift) (take (t_size t - idx) (drop idx (t_rw t))) @ drop (t_size t) (t_rw t)\<rparr>;
          rw_aux_tree_insert_entry b t idx }"

definition raw_bch2_bset_fix_lookup_table :: "btree \<Rightarrow> bset_tree \<Rightarrow> nat \<Rightarrow> nat \<Rightarrow> nat \<Rightarrow> bset_tree option" where
  "raw_bch2_bset_fix_lookup_table b t off clobber_u64s new_u64s =
     do { let shift = int new_u64s - int clobber_u64s;
          n \<leftarrow> sub_nat (t_size t) 1;
          final \<leftarrow> rw_entry t n;
          if off > ra_offset final then rw_aux_tree_insert_entry b t (t_size t)
          else do {
            idx \<leftarrow> rw_aux_tree_bsearch t off;
            e \<leftarrow> rw_entry t idx;
            if ra_offset e = off then
              if idx = 0 then fix_entries_after b t off shift 1
              else if off < t_end_offset t then do { t \<leftarrow> rw_aux_tree_set b t idx off; fix_entries_after b t off shift (idx + 1) }
              else do { require (off = t_end_offset t);
                        let t = t\<lparr>t_size := t_size t - 1\<rparr>;
                        rw_aux_tree_insert_entry b t (t_size t) }
            else fix_entries_after b t off shift idx } }"

definition bch2_bset_fix_lookup_table :: "btree \<Rightarrow> bset_tree \<Rightarrow> nat \<Rightarrow> nat \<Rightarrow> nat \<Rightarrow> bset_tree option" where
  "bch2_bset_fix_lookup_table b t off clobber_u64s new_u64s =
     do { k \<leftarrow> bset_aux_tree_kind t;
          if k = BSET_RW_AUX_TREE then raw_bch2_bset_fix_lookup_table b t off clobber_u64s new_u64s else Some t }"

section \<open>Accounting\<close>

definition btree_keys_account_key :: "btree_nr_keys \<Rightarrow> nat \<Rightarrow> bkey_packed \<Rightarrow> int \<Rightarrow> btree_nr_keys option" where
  "btree_keys_account_key nr idx k sign =
     do { let delta = word_of_int (uint (pk_u64s k) * sign);
          u \<leftarrow> nth_opt (nr_bset_u64s nr) idx;
          let nr = nr\<lparr>nr_live_u64s := nr_live_u64s nr + delta, nr_bset_u64s := (nr_bset_u64s nr)[idx := u + delta]\<rparr>;
          Some (if bkey_is_packed k then nr\<lparr>nr_packed_keys := nr_packed_keys nr + word_of_int sign\<rparr>
                else nr\<lparr>nr_unpacked_keys := nr_unpacked_keys nr + word_of_int sign\<rparr>) }"

partial_function (option) count_keys_loop :: "btree \<Rightarrow> nat \<Rightarrow> nat \<Rightarrow> nat \<Rightarrow> btree_nr_keys \<Rightarrow> btree_nr_keys option" where
  "count_keys_loop b idx key e nr =
     (if key = e then Some nr
      else do { ws \<leftarrow> key_at b key;
                nr \<leftarrow> (if \<not> bkey_deleted ws then btree_keys_account_key nr idx ws 1 else Some nr);
                k \<leftarrow> bkey_p_next b key;
                count_keys_loop b idx k e nr })"

declare count_keys_loop.simps [code]

fun count_keys_sets :: "btree \<Rightarrow> nat \<Rightarrow> bset_tree list \<Rightarrow> btree_nr_keys \<Rightarrow> btree_nr_keys option" where
  "count_keys_sets b idx [] nr = Some nr"
| "count_keys_sets b idx (t # ts) nr =
     do { nr \<leftarrow> count_keys_loop b idx (btree_bkey_first t) (btree_bkey_last t) nr; count_keys_sets b (idx + 1) ts nr }"

definition bch2_btree_node_count_keys :: "btree \<Rightarrow> btree_nr_keys option" where
  "bch2_btree_node_count_keys b =
     count_keys_sets b 0 (b_sets b) \<lparr>nr_live_u64s = 0, nr_bset_u64s = replicate MAX_BSETS 0, nr_packed_keys = 0, nr_unpacked_keys = 0\<rparr>"

definition raw_bch2_verify_btree_nr_keys :: "btree \<Rightarrow> unit option" where
  "raw_bch2_verify_btree_nr_keys b = do { nr \<leftarrow> bch2_btree_node_count_keys b; require (nr = b_nr b) }"

section \<open>The words of a set\<close>

text \<open>The length of the keys of a set, in the top 16 bits of the third word of its header.\<close>

definition disk_u64s :: "btree \<Rightarrow> bset_tree \<Rightarrow> nat option" where
  "disk_u64s b t = do { w \<leftarrow> nth_opt (b_data b) (t_data_offset t + 2); Some (unat (drop_bit 48 w)) }"

definition set_disk_u64s :: "btree \<Rightarrow> bset_tree \<Rightarrow> nat \<Rightarrow> btree option" where
  "set_disk_u64s b t n =
     do { w \<leftarrow> nth_opt (b_data b) (t_data_offset t + 2);
          Some (b\<lparr>b_data := (b_data b)[t_data_offset t + 2 := take_bit 48 w OR push_bit 48 (of_nat n)]\<rparr>) }"

definition set_btree_bset_end :: "btree \<Rightarrow> bset_tree \<Rightarrow> bset_tree option" where
  "set_btree_bset_end b t =
     do { n \<leftarrow> disk_u64s b t; require (t_data_offset t + 3 + n \<le> 65535); Some (t\<lparr>t_end_offset := t_data_offset t + 3 + n\<rparr>) }"

definition splice_words :: "'a list \<Rightarrow> nat \<Rightarrow> 'a list \<Rightarrow> 'a list" where
  "splice_words xs i ys = take i xs @ ys @ drop (i + length ys) xs"

definition store_words :: "u64 list \<Rightarrow> nat \<Rightarrow> u64 list \<Rightarrow> u64 list option" where
  "store_words data dst ws = do { require (dst + length ws \<le> length data); Some (splice_words data dst ws) }"

text \<open>Moving the words up to \<open>e\<close> from \<open>src\<close> to \<open>dst\<close>.\<close>

definition move_tail :: "u64 list \<Rightarrow> nat \<Rightarrow> nat \<Rightarrow> nat \<Rightarrow> u64 list option" where
  "move_tail data src dst e = do { require (src \<le> e \<and> e \<le> length data); store_words data dst (take (e - src) (drop src data)) }"

definition bkey_words :: "bkey \<Rightarrow> u64 list" where
  "bkey_words k =
     [ucast (k_u64s k) OR push_bit 8 (ucast (k_format k)) OR push_bit 16 (ucast (k_type k)) OR push_bit 24 (ucast (k_pad k))
        OR push_bit 32 (take_bit 32 (v_lo (k_bversion k))),
      drop_bit 32 (v_lo (k_bversion k)) OR push_bit 32 (ucast (v_hi (k_bversion k))),
      ucast (k_size k) OR push_bit 32 (ucast (snapshot (k_p k))), offset (k_p k), inode (k_p k)]"

definition replace_last_set :: "btree \<Rightarrow> bset_tree \<Rightarrow> btree" where
  "replace_last_set b t = b\<lparr>b_sets := butlast (b_sets b) @ [t]\<rparr>"

text \<open>Resizing the hole at \<open>off\<close>: the tail moves, the header and the end of the set follow.\<close>

definition resize_hole :: "btree \<Rightarrow> bset_tree \<Rightarrow> nat \<Rightarrow> nat \<Rightarrow> nat \<Rightarrow> (btree \<times> bset_tree) option" where
  "resize_hole b t off clobber_u64s new_u64s =
     do { data \<leftarrow> move_tail (b_data b) (off + clobber_u64s) (off + new_u64s) (btree_bkey_last t);
          let b = b\<lparr>b_data := data\<rparr>;
          n \<leftarrow> disk_u64s b t;
          require (clobber_u64s \<le> n + new_u64s \<and> n + new_u64s - clobber_u64s \<le> 65535);
          b \<leftarrow> set_disk_u64s b t (n + new_u64s - clobber_u64s);
          t \<leftarrow> set_btree_bset_end b t;
          Some (b, t) }"

text \<open>The walk over the set that ends the source's function only writes to the log.\<close>

definition bch2_bset_insert :: "btree \<Rightarrow> nat \<Rightarrow> bkey \<Rightarrow> u64 list \<Rightarrow> nat \<Rightarrow> btree option" where
  "bch2_bset_insert b off k val clobber_u64s =
     do { t \<leftarrow> bset_tree_last b;
          (ok, packed) \<leftarrow> bch2_bkey_pack_key (replicate BKEY_PACKED_WORDS 0) k (b_format b);
          let src = (if ok then packed else bkey_words k @ val);
          require (btree_bkey_first t \<le> off \<and> off \<le> btree_bkey_last t);
          nr \<leftarrow> (if k_type k \<noteq> 0 then btree_keys_account_key (b_nr b) (length (b_sets b) - 1) src 1 else Some (b_nr b));
          let b = b\<lparr>b_nr := nr\<rparr>;
          let new_u64s = unat (pk_u64s src);
          (b, t) \<leftarrow> (if new_u64s \<noteq> clobber_u64s then resize_hole b t off clobber_u64s new_u64s else Some (b, t));
          let key_u64s = unat (bkeyp_key_u64s (b_format b) src);
          require (key_u64s \<le> length src);
          data \<leftarrow> store_words (b_data b) off (take key_u64s src);
          let val_u64s = unat (bkeyp_val_u64s (b_format b) src);
          require (val_u64s \<le> length val);
          data \<leftarrow> store_words data (off + key_u64s) (take val_u64s val);
          let b = b\<lparr>b_data := data\<rparr>;
          t \<leftarrow> (if new_u64s \<noteq> clobber_u64s then bch2_bset_fix_lookup_table b t off clobber_u64s new_u64s else Some t);
          Some (replace_last_set b t) }"

definition bch2_bset_delete :: "btree \<Rightarrow> nat \<Rightarrow> nat \<Rightarrow> btree option" where
  "bch2_bset_delete b off clobber_u64s =
     do { t \<leftarrow> bset_tree_last b;
          data \<leftarrow> move_tail (b_data b) (off + clobber_u64s) off (btree_bkey_last t);
          let b = b\<lparr>b_data := data\<rparr>;
          n \<leftarrow> disk_u64s b t;
          require (clobber_u64s \<le> n);
          b \<leftarrow> set_disk_u64s b t (n - clobber_u64s mod 2 ^ 16);
          t \<leftarrow> set_btree_bset_end b t;
          t \<leftarrow> bch2_bset_fix_lookup_table b t off clobber_u64s 0;
          Some (replace_last_set b t) }"

section \<open>Moving keys\<close>

lemma fields_at_same_bits:
  assumes "\<forall>i<n. ws ! i = ws' ! i"
  shows "R \<le> 64 * n \<Longrightarrow> fields_at ws R fs \<longleftrightarrow> fields_at ws' R fs"
proof (induction fs arbitrary: R)
  case (Cons f fs)
  obtain b v where f: "f = (b, v)" by (cases f)
  have "gbit ws g = gbit ws' g" if "g < R" for g
    using assms Cons.prems that by (simp add: gbit_def div_less_iff_less_mult mult.commute)
  then have "(\<forall>j<64. bit v j \<longleftrightarrow> j < b \<and> gbit ws (R - b + j)) \<longleftrightarrow> (\<forall>j<64. bit v j \<longleftrightarrow> j < b \<and> gbit ws' (R - b + j))" if "b \<le> R"
    using that by (metis add.commute le_add_diff_inverse2 nat_add_left_cancel_less)
  then show ?case using Cons.IH [of "R - b"] Cons.prems f by auto
qed simp

lemma key_holds_cong:
  assumes "key_holds f ws p" "format_valid f" "unat (pk_u64s ws) \<le> length ws'" "\<forall>i<unat (pk_u64s ws). ws ! i = ws' ! i"
    "\<not> bkey_is_packed ws \<longrightarrow> BKEY_U64S \<le> unat (pk_u64s ws)" "pk_u64s ws \<noteq> 0"
  shows "key_holds f ws' p"
proof -
  let ?n = "unat (pk_u64s ws)"
  have "0 < ?n" using assms(6) by (simp add: unat_gt_0)
  then have h: "ws' ! 0 = ws ! 0" using assms(4) by auto
  then have hd: "pk_u64s ws' = pk_u64s ws" "pk_format ws' = pk_format ws" "bkey_is_packed ws' = bkey_is_packed ws"
    by (simp_all add: pk_u64s_def pk_format_def bkey_is_packed_def)
  show ?thesis
  proof (cases "bkey_is_packed ws")
    case True
    then have "f_key_u64s f \<le> pk_u64s ws" "pos_at f ws p" using assms(1) by (auto simp: key_holds_def)
    moreover from this have "unat (f_key_u64s f) \<le> ?n" by (simp add: word_le_nat_alt)
    ultimately have "pos_at f ws' p"
      using fields_at_same_bits [of ?n ws ws' "64 * unat (f_key_u64s f)"] assms(3,4) by (simp add: pos_at_def del: fields_at.simps fields_of.simps)
    then show ?thesis using assms(1) True hd by (simp add: key_holds_def)
  next
    case False
    then have "5 \<le> ?n" using assms(5) by (simp add: code_consts)
    then have "ws' ! 4 = ws ! 4" "ws' ! 3 = ws ! 3" "ws' ! 2 = ws ! 2" "4 < length ws'" using assms(3,4) by auto
    moreover have "4 < length ws" using assms(1) False by (auto simp: key_holds_def unpacked_pos_def nth_opt_def split: if_splits)
    ultimately show ?thesis using assms(1) False hd by (simp add: key_holds_def unpacked_pos_def nth_opt_def)
  qed
qed

text \<open>A key whose words are all in the node; an unpacked one has the five words of its key.\<close>

definition key_u64s_at :: "btree \<Rightarrow> nat \<Rightarrow> nat" where
  "key_u64s_at b k = unat (pk_u64s (drop k (b_data b)))"

definition key_whole :: "btree \<Rightarrow> nat \<Rightarrow> bool" where
  "key_whole b k \<longleftrightarrow> key_valid b k \<and> 0 < key_u64s_at b k \<and> k + key_u64s_at b k \<le> length (b_data b) \<and>
     (\<not> bkey_is_packed (drop k (b_data b)) \<longrightarrow> BKEY_U64S \<le> key_u64s_at b k)"

definition same_key :: "btree \<Rightarrow> nat \<Rightarrow> btree \<Rightarrow> nat \<Rightarrow> bool" where
  "same_key b k b' k' \<longleftrightarrow> b_format b' = b_format b \<and> k' + key_u64s_at b k \<le> length (b_data b') \<and>
     (\<forall>i<key_u64s_at b k. b_data b' ! (k' + i) = b_data b ! (k + i))"

lemma same_key_props:
  assumes "node_format_ok b" "node_format_ok b'" "key_whole b k" "same_key b k b' k'"
  shows "key_whole b' k'" "key_pos b' k' = key_pos b k" "key_deleted b' k' = key_deleted b k" "key_u64s_at b' k' = key_u64s_at b k"
proof -
  let ?ws = "drop k (b_data b)" and ?ws' = "drop k' (b_data b')" and ?n = "key_u64s_at b k"
  have n: "0 < ?n" "k + ?n \<le> length (b_data b)" "k' + ?n \<le> length (b_data b')" "b_format b' = b_format b"
    and eq: "\<forall>i<?n. ?ws ! i = ?ws' ! i"
    using assms(3,4) by (auto simp: key_whole_def same_key_def)
  have h: "?ws' ! 0 = ?ws ! 0" using eq n(1) by simp
  have f: "format_valid (b_format b)" using assms(1) by (simp add: node_format_ok_def)
  have k: "key_valid b k" "key_holds (b_format b) ?ws (key_pos b k)" using assms(1,3) key_valid_pos by (auto simp: key_whole_def)
  have "key_holds (b_format b') ?ws' (key_pos b k)"
    by (subst n(4), rule key_holds_cong [OF k(2) f]) (use n eq assms(3) in \<open>auto simp: key_u64s_at_def key_whole_def unat_gt_0\<close>)
  moreover from this have v: "key_valid b' k'" using n by (auto simp: key_valid_def)
  moreover note key_holds_unpack(1) [OF f, of ?ws' "key_pos b k"]
  ultimately show "key_pos b' k' = key_pos b k" using n(4) by (simp add: key_pos_def)
  show "key_deleted b' k' = key_deleted b k" using h by (simp add: key_deleted_def bkey_deleted_def pk_type_def)
  show u: "key_u64s_at b' k' = ?n" using h by (simp add: key_u64s_at_def pk_u64s_def)
  show "key_whole b' k'" using v u n assms(3) h by (simp add: key_whole_def bkey_is_packed_def pk_format_def)
qed

lemma set_keys_key_end: "set_keys b k e = Some ks \<Longrightarrow> x \<in> set ks \<Longrightarrow> 0 < key_u64s_at b x \<and> x + key_u64s_at b x \<le> e"
proof (induction ks arbitrary: k)
  case (Cons y ys)
  then obtain ws where ws: "y = k" "key_at b k = Some ws" "pk_u64s ws \<noteq> 0" "k + unat (pk_u64s ws) \<le> e" "set_keys b (k + unat (pk_u64s ws)) e = Some ys"
    by (auto simp: set_keys_Cons)
  then show ?case using Cons.IH [OF ws(5)] Cons.prems(2) key_at_drop [OF ws(2)] by (auto simp: key_u64s_at_def unat_gt_0)
qed simp

lemma set_keys_append:
  "set_keys b p m = Some xs \<Longrightarrow> set_keys b m e = Some ys \<Longrightarrow> set_keys b p e = Some (xs @ ys)"
proof (induction xs arbitrary: p)
  case Nil
  then show ?case by (simp add: set_keys_Nil)
next
  case (Cons x xs)
  then obtain ws where ws: "p \<noteq> m" "x = p" "key_at b p = Some ws" "pk_u64s ws \<noteq> 0" "p + unat (pk_u64s ws) \<le> m"
      "set_keys b (p + unat (pk_u64s ws)) m = Some xs"
    by (auto simp: set_keys_Cons)
  have "m \<le> e" using set_keys_le [OF Cons.prems(2)] .
  then have "p \<noteq> e" "p + unat (pk_u64s ws) \<le> e" using ws(1,5) set_keys_le [OF Cons.prems(1)] by auto
  then have "set_keys b p e = Some (p # (xs @ ys))" using Cons.IH [OF ws(6) Cons.prems(2)] ws(3,4) by (simp add: set_keys_Cons)
  then show ?case using ws(2) by simp
qed

lemma set_keys_move:
  assumes "e \<le> length (b_data b)"
  shows "set_keys b k e = Some ks \<Longrightarrow> k' + (e - k) \<le> length (b_data b') \<Longrightarrow>
    \<forall>i<e - k. b_data b' ! (k' + i) = b_data b ! (k + i) \<Longrightarrow>
    set_keys b' k' (k' + (e - k)) = Some (map (\<lambda>x. x - k + k') ks)"
proof (induction ks arbitrary: k k')
  case Nil
  then show ?case by (simp add: set_keys_Nil)
next
  case (Cons x xs)
  then obtain ws where ws: "k \<noteq> e" "x = k" "key_at b k = Some ws" "pk_u64s ws \<noteq> 0" "k + unat (pk_u64s ws) \<le> e"
      "set_keys b (k + unat (pk_u64s ws)) e = Some xs"
    by (auto simp: set_keys_Cons)
  let ?n = "unat (pk_u64s ws)"
  have n: "0 < ?n" using ws(4) by (simp add: unat_gt_0)
  have "b_data b' ! k' = b_data b ! k" using Cons.prems(3) [rule_format, of 0] n ws(5) by simp
  then have h: "pk_u64s (drop k' (b_data b')) = pk_u64s ws"
    using key_at_drop [OF ws(3)] Cons.prems(2) ws(1,5) n assms by (simp add: pk_u64s_def)
  have k': "key_at b' k' = Some (drop k' (b_data b'))" using Cons.prems(2) ws(5) n by (simp add: key_at_def)
  have e: "k' + (e - k) = (k' + ?n) + (e - (k + ?n))" using ws(5) by simp
  have "set_keys b' (k' + ?n) ((k' + ?n) + (e - (k + ?n))) = Some (map (\<lambda>x. x - (k + ?n) + (k' + ?n)) xs)"
  proof (rule Cons.IH [OF ws(6)])
    show "k' + ?n + (e - (k + ?n)) \<le> length (b_data b')" using Cons.prems(2) e by simp
    show "\<forall>i<e - (k + ?n). b_data b' ! (k' + ?n + i) = b_data b ! (k + ?n + i)"
    proof (intro allI impI)
      fix i
      assume "i < e - (k + ?n)"
      then show "b_data b' ! (k' + ?n + i) = b_data b ! (k + ?n + i)"
        using Cons.prems(3) [rule_format, of "?n + i"] by (simp add: add.assoc)
    qed
  qed
  moreover have "map (\<lambda>x. x - (k + ?n) + (k' + ?n)) xs = map (\<lambda>x. x - k + k') xs"
    by (auto dest!: set_keys_bounds [OF ws(6)])
  ultimately show ?case using ws h k' e n by (simp add: set_keys_Cons) linarith
qed

lemma same_key_moved:
  assumes "set_keys b k e = Some ks" "x \<in> set ks" "k' + (e - k) \<le> length (b_data b')" "b_format b' = b_format b"
    "\<forall>i<e - k. b_data b' ! (k' + i) = b_data b ! (k + i)"
  shows "same_key b x b' (x - k + k')"
proof -
  have x: "k \<le> x" "x + key_u64s_at b x \<le> e" using set_keys_bounds [OF assms(1,2)] set_keys_key_end [OF assms(1,2)] by auto
  have "b_data b' ! (x - k + k' + i) = b_data b ! (x + i)" if "i < key_u64s_at b x" for i
  proof -
    have "x - k + i < e - k" using that x by linarith
    from assms(5) [rule_format, OF this] show ?thesis using x(1) by (simp add: add.commute add.left_commute)
  qed
  then show ?thesis using x assms(3,4) by (auto simp: same_key_def)
qed

section \<open>The table\<close>

text \<open>The entries in use: entry 0 is the first key; the others are keys of the set with their positions, in order.\<close>

definition tab_ok :: "btree \<Rightarrow> nat \<Rightarrow> nat list \<Rightarrow> rw_aux_tree list \<Rightarrow> bool" where
  "tab_ok b first ks E \<longleftrightarrow> E \<noteq> [] \<and> ra_offset (hd E) = first \<and> sorted_wrt (<) (map ra_offset E) \<and>
     (\<forall>r\<in>set (tl E). ra_offset r \<in> set ks \<and> ra_k r = key_pos b (ra_offset r))"

definition entries :: "bset_tree \<Rightarrow> rw_aux_tree list" where
  "entries t = take (t_size t) (t_rw t)"

definition table_room :: "btree \<Rightarrow> bset_tree \<Rightarrow> bool" where
  "table_room b t \<longleftrightarrow> t_size t \<le> length (t_rw t) \<and> (\<exists>cap. bset_rw_tree_capacity b t = Some cap \<and> cap \<le> length (t_rw t) \<and> cap \<le> 65535)"

definition rw_tab :: "btree \<Rightarrow> bset_tree \<Rightarrow> nat list \<Rightarrow> bool" where
  "rw_tab b t ks \<longleftrightarrow> t_extra t = BSET_RW_AUX_TREE_VAL \<and> table_room b t \<and> tab_ok b (btree_bkey_first t) ks (entries t)"

lemma rw_tab_size: "rw_tab b t ks \<Longrightarrow> 0 < t_size t \<and> length (entries t) = t_size t"
  by (auto simp: rw_tab_def table_room_def tab_ok_def entries_def)

lemma rw_tab_base [simp]: "rw_tab b t ks \<Longrightarrow> rw_aux_tree_base t = Some (t_rw t)"
  using rw_tab_size [of b t ks] by (auto simp: rw_aux_tree_base_def bset_aux_tree_kind_def rw_tab_def code_consts)

lemma rw_tab_entry: "rw_tab b t ks \<Longrightarrow> j < t_size t \<Longrightarrow> rw_entry t j = Some (entries t ! j)"
  using rw_tab_size [of b t ks] by (auto simp: rw_entry_def nth_opt_def entries_def)

lemma rw_tab_ok: "rw_tab b t ks \<Longrightarrow> rw_ok b t ks"
proof -
  assume r: "rw_tab b t ks"
  note sz = rw_tab_size [OF r]
  have e: "entries t ! j = t_rw t ! j" if "j < t_size t" for j using that r by (simp add: entries_def rw_tab_def table_room_def)
  have "ra_offset (t_rw t ! 0) = btree_bkey_first t" using r sz e [of 0] by (auto simp: rw_tab_def tab_ok_def hd_conv_nth)
  moreover have "ra_offset (t_rw t ! j) \<in> set ks \<and> ra_k (t_rw t ! j) = key_pos b (ra_offset (t_rw t ! j))" if "j < t_size t" "0 < j" for j
  proof -
    have "tl (entries t) ! (j - 1) = entries t ! j" using that sz by (simp add: nth_tl)
    then have "entries t ! j \<in> set (tl (entries t))" using that sz by (metis Suc_pred' length_tl less_diff_conv nth_mem One_nat_def Suc_eq_plus1)
    then show ?thesis using r e that by (auto simp: rw_tab_def tab_ok_def)
  qed
  ultimately show ?thesis using r sz by (auto simp: rw_ok_def rw_tab_def table_room_def)
qed

lemma tab_ok_mono:
  assumes "tab_ok b first ks E" "\<forall>r\<in>set (tl E). ra_offset r \<in> set ks' \<and> key_pos b' (ra_offset r) = key_pos b (ra_offset r)"
  shows "tab_ok b' first ks' E"
  using assms by (auto simp: tab_ok_def)

lemma tab_ok_insert:
  assumes "tab_ok b first ks E" "0 < idx" "idx \<le> length E" "k \<in> set ks" "ra_offset (E ! (idx - 1)) < k" "idx < length E \<longrightarrow> k < ra_offset (E ! idx)"
  shows "tab_ok b first ks (take idx E @ \<lparr>ra_offset = k, ra_k = key_pos b k\<rparr> # drop idx E)"
proof -
  have s: "sorted_wrt (<) (map ra_offset E)" using assms(1) by (simp add: tab_ok_def)
  have lo: "ra_offset (E ! i) < k" if "i < idx" for i
  proof (cases "i = idx - 1")
    case False
    then have "ra_offset (E ! i) < ra_offset (E ! (idx - 1))" using s that assms(2,3) by (simp add: sorted_wrt_iff_nth_less)
    then show ?thesis using assms(5) by simp
  qed (use assms(5) in simp)
  have hi: "k < ra_offset (E ! i)" if "idx \<le> i" "i < length E" for i
  proof (cases "i = idx")
    case False
    then have "ra_offset (E ! idx) < ra_offset (E ! i)" using s that by (simp add: sorted_wrt_iff_nth_less)
    then show ?thesis using assms(6) that by simp
  qed (use assms(6) that in simp)
  have "\<forall>r\<in>set (take idx E). ra_offset r < k" using lo assms(3) by (auto simp: in_set_conv_nth)
  moreover have "\<forall>r\<in>set (drop idx E). k < ra_offset r" using hi by (auto simp: in_set_conv_nth)
  moreover have "sorted_wrt (<) (map ra_offset (take idx E @ drop idx E))" using s by simp
  ultimately have "sorted_wrt (<) (map ra_offset (take idx E @ \<lparr>ra_offset = k, ra_k = key_pos b k\<rparr> # drop idx E))"
    by (simp only: map_append sorted_wrt_append list.map sorted_wrt.simps) auto
  moreover have "take idx E \<noteq> []" "hd (take idx E) = hd E" "E \<noteq> []" using assms(1-3) by (auto simp: tab_ok_def hd_take)
  moreover have "set (tl (take idx E @ \<lparr>ra_offset = k, ra_k = key_pos b k\<rparr> # drop idx E)) \<subseteq> insert \<lparr>ra_offset = k, ra_k = key_pos b k\<rparr> (set (tl E))"
  proof -
    have "tl E = tl (take idx E) @ drop idx E" by (metis append_take_drop_id calculation(2) tl_append2)
    then show ?thesis using calculation(2) by auto
  qed
  ultimately show ?thesis using assms(1,4) by (auto simp: tab_ok_def)
qed

lemma set_keys_between:
  assumes "set_keys b p e = Some ks" "x \<in> set ks" "y \<in> set ks \<or> y = e" "x \<le> y"
  shows "\<exists>zs. set_keys b x y = Some zs \<and> set zs \<subseteq> set ks"
proof -
  obtain us ys where u: "ks = us @ ys" "set_keys b x e = Some ys" by (rule set_keys_from [OF assms(1,2)])
  show ?thesis
  proof (cases "y = e")
    case True
    then show ?thesis using u by auto
  next
    case False
    then have "y \<in> set ks" using assms(3) by simp
    have "set_keys b p x = Some us" using set_keys_split [of b p e us ys x] assms(1,2) u set_keys_bounds [OF assms(1,2)]
      by (cases ys) (auto simp: set_keys_Cons set_keys_Nil)
    then have "y \<in> set ys" using \<open>y \<in> set ks\<close> u(1) assms(4) set_keys_bounds by fastforce
    then obtain vs where v: "ys = vs @ dropWhile (\<lambda>z. z \<noteq> y) ys" "vs = takeWhile (\<lambda>z. z \<noteq> y) ys" by simp
    have "dropWhile (\<lambda>z. z \<noteq> y) ys \<noteq> []" "hd (dropWhile (\<lambda>z. z \<noteq> y) ys) = y"
      using \<open>y \<in> set ys\<close> hd_dropWhile [of "\<lambda>z. z \<noteq> y" ys] by auto
    then obtain ws where "dropWhile (\<lambda>z. z \<noteq> y) ys = y # ws" by (cases "dropWhile (\<lambda>z. z \<noteq> y) ys") auto
    then have "set_keys b x y = Some vs" using set_keys_split [of b x e vs "y # ws" y] u(2) v(1) by simp
    then show ?thesis using u(1) v(2) by (auto dest: set_takeWhileD)
  qed
qed

lemma insert_entry_scan_ok:
  "set_keys b k e = Some zs \<Longrightarrow> zs \<noteq> [] \<Longrightarrow>
   \<exists>r. insert_entry_scan b start e k = Some r \<and> (\<forall>k'. r = Some k' \<longrightarrow> k < k' \<and> k' \<in> set zs)"
proof (induction zs arbitrary: k)
  case (Cons z zs)
  obtain k' where k': "bkey_p_next b k = Some k'" "k < k'" "set_keys b k' e = Some zs" using p_next_set_keys [OF Cons.prems(1)] by blast
  show ?case
  proof (cases "k' = e")
    case True
    then show ?thesis using k' by (subst insert_entry_scan.simps) simp
  next
    case False
    then have zs: "zs \<noteq> []" "k' \<in> set zs" using k'(3) by (cases zs; auto simp: set_keys_Nil set_keys_Cons)+
    obtain r where "insert_entry_scan b start e k' = Some r" "\<forall>k''. r = Some k'' \<longrightarrow> k' < k'' \<and> k'' \<in> set zs"
      using Cons.IH [OF k'(3) zs(1)] by blast
    then show ?thesis using k' False zs(2) by (subst insert_entry_scan.simps) auto
  qed
qed simp

lemma open_slot_entries:
  assumes "n < length tree" "idx \<le> n"
  shows "take (n + 1) ((take (idx + 1) tree @ take (n - idx) (drop idx tree) @ rest)[idx := e]) =
    take idx (take n tree) @ e # drop idx (take n tree)"
proof -
  have "take (idx + 1) tree = take idx tree @ [tree ! idx]" using assms by (simp add: take_Suc_conv_app_nth)
  moreover have "length (take idx tree) = idx" using assms by simp
  ultimately show ?thesis using assms by (auto simp: list_update_append min_def drop_take Suc_diff_le)
qed

lemma unpack_key_pos: "node_format_ok b \<Longrightarrow> key_valid b k \<Longrightarrow> bkey_unpack_pos (b_format b) (drop k (b_data b)) = Some (key_pos b k)"
  using key_holds_unpack(1) [OF _ key_valid_pos] by (simp add: node_format_ok_def)

definition same_set :: "bset_tree \<Rightarrow> bset_tree \<Rightarrow> bool" where
  "same_set t t' \<longleftrightarrow> t' = t\<lparr>t_rw := t_rw t', t_size := t_size t'\<rparr>"

lemma same_set_simps:
  assumes "same_set t t'"
  shows "btree_bkey_first t' = btree_bkey_first t" "t_end_offset t' = t_end_offset t" "t_extra t' = t_extra t" "t_data_offset t' = t_data_offset t"
    "bset_rw_tree_capacity b t' = bset_rw_tree_capacity b t" "t_aux_data_offset t' = t_aux_data_offset t"
proof -
  obtain rw n where "t' = t\<lparr>t_rw := rw, t_size := n\<rparr>" using assms unfolding same_set_def by blast
  then show "btree_bkey_first t' = btree_bkey_first t" "t_end_offset t' = t_end_offset t" "t_extra t' = t_extra t" "t_data_offset t' = t_data_offset t"
    "bset_rw_tree_capacity b t' = bset_rw_tree_capacity b t" "t_aux_data_offset t' = t_aux_data_offset t"
    by (simp_all add: btree_bkey_first_def btree_bkey_first_offset_def bset_rw_tree_capacity_def)
qed

lemma same_set_trans: "same_set t t' \<Longrightarrow> same_set t' t'' \<Longrightarrow> same_set t t''"
proof -
  assume "same_set t t'" "same_set t' t''"
  then obtain rw n rw' n' where "t' = t\<lparr>t_rw := rw, t_size := n\<rparr>" "t'' = t'\<lparr>t_rw := rw', t_size := n'\<rparr>"
    unfolding same_set_def by blast
  then show ?thesis by (simp add: same_set_def)
qed

lemma rw_tab_in_set:
  assumes "rw_tab b t ks" "set_keys b (btree_bkey_first t) (t_end_offset t) = Some ks" "j < t_size t"
  shows "ra_offset (entries t ! j) \<in> set ks \<or> ra_offset (entries t ! j) = btree_bkey_first t \<and> j = 0"
    "btree_bkey_first t \<le> ra_offset (entries t ! j)" "ra_offset (entries t ! j) \<le> t_end_offset t"
proof -
  note r = rw_tab_ok [OF assms(1)]
  have e: "entries t ! j = t_rw t ! j" using assms by (simp add: entries_def rw_tab_def table_room_def)
  show "ra_offset (entries t ! j) \<in> set ks \<or> ra_offset (entries t ! j) = btree_bkey_first t \<and> j = 0"
    using r assms(3) e by (cases "j = 0") (auto simp: rw_ok_def)
  then show "btree_bkey_first t \<le> ra_offset (entries t ! j)" "ra_offset (entries t ! j) \<le> t_end_offset t"
    using set_keys_bounds [OF assms(2)] set_keys_le [OF assms(2)] by fastforce+
qed

lemma rw_tab_increasing:
  assumes "rw_tab b t ks" "i < j" "j < t_size t"
  shows "ra_offset (entries t ! i) < ra_offset (entries t ! j)"
  using assms rw_tab_size [OF assms(1)] by (auto simp: rw_tab_def tab_ok_def sorted_wrt_iff_nth_less)

lemma insert_entry_ok:
  assumes f: "node_format_ok b" and r: "rw_tab b t ks" and run: "set_keys b (btree_bkey_first t) (t_end_offset t) = Some ks"
    and v: "\<forall>k\<in>set ks. key_valid b k" and idx: "0 < idx" "idx \<le> t_size t"
  shows "\<exists>t'. rw_aux_tree_insert_entry b t idx = Some t' \<and> rw_tab b t' ks \<and> same_set t t'"
proof -
  let ?start = "ra_offset (entries t ! (idx - 1))"
  define e where "e = (if idx < t_size t then ra_offset (entries t ! idx) else t_end_offset t)"
  obtain cap where cap: "bset_rw_tree_capacity b t = Some cap" "cap \<le> length (t_rw t)" "cap \<le> 65535"
    using r by (auto simp: rw_tab_def table_room_def)
  have sz: "length (entries t) = t_size t" using rw_tab_size [OF r] by simp
  have se: "?start \<le> e"
    using idx rw_tab_increasing [OF r, of "idx - 1" idx] rw_tab_in_set(3) [OF r run, of "idx - 1"] by (auto simp: e_def)
  have s1: "rw_aux_to_bkey t (idx - 1) = Some ?start" using rw_tab_entry [OF r, of "idx - 1"] idx by (simp add: rw_aux_to_bkey_def)
  have s2: "(if idx < t_size t then rw_aux_to_bkey t idx else Some (btree_bkey_last t)) = Some e"
    using rw_tab_entry [OF r, of idx] by (simp add: rw_aux_to_bkey_def e_def btree_bkey_last_def)
  define wide where "wide = (t_size t < cap \<and> (e - ?start) * 8 > L1_CACHE_BYTES)"
  have w: "(if t_size t < cap then do { d \<leftarrow> sub_nat e ?start; Some (d * 8 > L1_CACHE_BYTES) } else Some False) = Some wide"
    using se by (simp add: wide_def sub_nat_def)
  have ins: "rw_aux_tree_insert_entry b t idx = (if wide then do { r \<leftarrow> insert_entry_scan b ?start e ?start;
      case r of None \<Rightarrow> Some t | Some k \<Rightarrow> do { t \<leftarrow> rw_open_slot t idx; rw_aux_tree_set b t idx k } } else Some t)"
    unfolding rw_aux_tree_insert_entry_def s1 s2 cap(1) bind.bind_lunit w using idx by simp
  have self: "\<exists>t'. Some t = Some t' \<and> rw_tab b t' ks \<and> same_set t t'" using r by (simp add: same_set_def)
  show ?thesis
  proof (cases wide)
    case False
    then show ?thesis using ins self by simp
  next
    case True
    then have lt: "?start < e" "t_size t < cap" by (auto simp: wide_def)
    have "ks \<noteq> []"
    proof
      assume "ks = []"
      then have "t_end_offset t = btree_bkey_first t" using run by (simp add: set_keys_Nil)
      moreover have "e \<le> t_end_offset t" using rw_tab_in_set(3) [OF r run, of idx] by (auto simp: e_def)
      moreover have "btree_bkey_first t \<le> ?start" using rw_tab_in_set(2) [OF r run, of "idx - 1"] idx by simp
      ultimately show False using lt by simp
    qed
    then have fst: "btree_bkey_first t \<in> set ks" using run by (cases ks) (auto simp: set_keys_Cons)
    have "idx - 1 < t_size t" using idx by linarith
    then have st: "?start \<in> set ks" using rw_tab_in_set(1) [OF r run, of "idx - 1"] fst by auto
    have en: "e \<in> set ks \<or> e = t_end_offset t" using rw_tab_in_set(1) [OF r run, of idx] fst by (auto simp: e_def)
    obtain zs where zs: "set_keys b ?start e = Some zs" "set zs \<subseteq> set ks" using set_keys_between [OF run st en se] by blast
    have "zs \<noteq> []" using zs(1) lt(1) by (auto simp: set_keys_Nil)
    then obtain r' where r': "insert_entry_scan b ?start e ?start = Some r'" "\<forall>k'. r' = Some k' \<longrightarrow> ?start < k' \<and> k' \<in> set zs"
      using insert_entry_scan_ok [OF zs(1)] by blast
    show ?thesis
    proof (cases r')
      case None
      then show ?thesis using ins r'(1) True self by simp
    next
      case (Some k)
      have k: "?start < k" "k < e" "k \<in> set ks" using r'(2) Some zs set_keys_bounds [OF zs(1), of k] by auto
      let ?tree = "t_rw t"
      define t1 where "t1 = t\<lparr>t_rw := take (idx + 1) ?tree @ take (t_size t - idx) (drop idx ?tree) @ drop (t_size t + 1) ?tree, t_size := t_size t + 1\<rparr>"
      have o1: "rw_open_slot t idx = Some t1" using r lt(2) cap by (simp add: rw_open_slot_def t1_def)
      have len: "length (t_rw t1) = length ?tree" using lt(2) cap(2) idx by (simp add: t1_def)
      have b1: "rw_aux_tree_base t1 = Some (t_rw t1)" using r by (simp add: rw_aux_tree_base_def bset_aux_tree_kind_def t1_def rw_tab_def code_consts)
      have "k < btree_bkey_last t1" using set_keys_bounds [OF run k(3)] by (simp add: t1_def btree_bkey_last_def)
      then have o2: "rw_aux_tree_set b t1 idx k = Some (t1\<lparr>t_rw := (t_rw t1)[idx := \<lparr>ra_offset = k, ra_k = key_pos b k\<rparr>]\<rparr>)"
        using b1 len lt(2) cap(2) idx v k(3) f by (simp add: rw_aux_tree_set_def unpack_key_pos upd_opt_def)
      let ?t' = "t1\<lparr>t_rw := (t_rw t1)[idx := \<lparr>ra_offset = k, ra_k = key_pos b k\<rparr>]\<rparr>"
      have ss: "same_set t ?t'" by (simp add: same_set_def t1_def)
      have en': "entries ?t' = take idx (entries t) @ \<lparr>ra_offset = k, ra_k = key_pos b k\<rparr> # drop idx (entries t)"
        using open_slot_entries [of "t_size t" ?tree idx] lt(2) cap(2) idx by (simp add: entries_def t1_def)
      have "tab_ok b (btree_bkey_first t) ks (entries ?t')" unfolding en'
        by (rule tab_ok_insert) (use r idx sz k in \<open>auto simp: rw_tab_def e_def\<close>)
      then have "rw_tab b ?t' ks" using same_set_simps [OF ss] r cap len lt(2)
        by (auto simp: rw_tab_def table_room_def) (simp_all add: t1_def)
      then show ?thesis using ins True r'(1) Some o1 o2 ss by auto
    qed
  qed
qed

lemma tab_ok_append:
  assumes "tab_ok b first ks E" "sorted_wrt (<) (map ra_offset F)" "\<forall>r\<in>set F. ra_offset (last E) < ra_offset r"
    "\<forall>r\<in>set F. ra_offset r \<in> set ks \<and> ra_k r = key_pos b (ra_offset r)"
  shows "tab_ok b first ks (E @ F)"
proof -
  have s: "sorted_wrt (<) (map ra_offset E)" "E \<noteq> []" using assms(1) by (auto simp: tab_ok_def)
  have "ra_offset r \<le> ra_offset (last E)" if "r \<in> set E" for r
  proof -
    obtain i where "i < length E" "r = E ! i" using \<open>r \<in> set E\<close> by (auto simp: in_set_conv_nth)
    then show ?thesis using s by (cases "i = length E - 1") (auto simp: last_conv_nth sorted_wrt_iff_nth_less less_imp_le)
  qed
  then have "\<forall>r\<in>set E. \<forall>q\<in>set F. ra_offset r < ra_offset q" using assms(3) le_less_trans by blast
  then show ?thesis using assms s by (auto simp: tab_ok_def sorted_wrt_append)
qed

lemma close_slot_entries:
  assumes "idx < t_size t" "t_size t \<le> length (t_rw t)"
  shows "entries (rw_close_slot t idx) = take idx (entries t) @ drop (idx + 1) (entries t)"
    "t_size (rw_close_slot t idx) = t_size t - 1" "length (t_rw (rw_close_slot t idx)) = length (t_rw t)" "same_set t (rw_close_slot t idx)"
proof -
  obtain m where m: "t_size t = Suc m" "idx \<le> m" using assms(1) by (cases "t_size t") auto
  then show "entries (rw_close_slot t idx) = take idx (entries t) @ drop (idx + 1) (entries t)"
    using assms by (cases "idx = m") (auto simp: rw_close_slot_def entries_def min_def drop_take)
qed (use assms in \<open>auto simp: rw_close_slot_def same_set_def\<close>)

lemma shift_entries:
  assumes "idx \<le> t_size t" "t_size t \<le> length (t_rw t)"
  shows "entries (t\<lparr>t_rw := take idx (t_rw t) @ map f (take (t_size t - idx) (drop idx (t_rw t))) @ drop (t_size t) (t_rw t)\<rparr>) =
    take idx (entries t) @ map f (drop idx (entries t))"
  using assms by (simp add: entries_def min_def drop_take)

text \<open>Moving the entries from \<open>idx\<close> on: they are after \<open>off\<close>, and moved they are keys of the new set.\<close>

lemma fix_entries_after_ok:
  assumes f: "node_format_ok b" and run: "set_keys b (btree_bkey_first t) (t_end_offset t) = Some ks" and v: "\<forall>k\<in>set ks. key_valid b k"
    and x: "t_extra t = BSET_RW_AUX_TREE_VAL" and room: "table_room b t" and idx: "0 < idx" "idx \<le> t_size t"
    and E1: "tab_ok b (btree_bkey_first t) ks (take idx (entries t))" "ra_offset (entries t ! (idx - 1)) \<le> off"
    and E2: "sorted_wrt (<) (map ra_offset (drop idx (entries t)))" "\<forall>r\<in>set (drop idx (entries t)). off < ra_offset r \<and>
      int off \<le> int (ra_offset r) + shift \<and> int (ra_offset r) + shift < 2 ^ 16 \<and> nat (int (ra_offset r) + shift) \<in> set ks \<and>
      ra_k r = key_pos b (nat (int (ra_offset r) + shift))"
  shows "\<exists>t'. fix_entries_after b t off shift idx = Some t' \<and> rw_tab b t' ks \<and> same_set t t'"
proof -
  let ?E = "entries t" and ?sh = "rw_shift_entry shift"
  have sz: "length ?E = t_size t" "t_size t \<le> length (t_rw t)" using room by (auto simp: table_room_def entries_def)
  have base: "rw_aux_tree_base t = Some (t_rw t)" using x idx by (simp add: rw_aux_tree_base_def bset_aux_tree_kind_def code_consts)
  have en: "rw_entry t j = Some (?E ! j)" if "j < t_size t" for j using that base sz by (simp add: rw_entry_def nth_opt_def entries_def)
  define merge where "merge = (idx < t_size t \<and> int (ra_offset (?E ! idx)) + shift = int (ra_offset (?E ! (idx - 1))))"
  define t1 where "t1 = (if merge then rw_close_slot t idx else t)"
  define F where "F = (if merge then drop (idx + 1) ?E else drop idx ?E)"
  have t1: "entries t1 = take idx ?E @ F" "same_set t t1" "t_size t1 \<le> length (t_rw t1)" "idx \<le> t_size t1" "length (t_rw t1) = length (t_rw t)"
    using close_slot_entries [of idx t] sz idx by (auto simp: t1_def F_def merge_def same_set_def)
  define t2 where "t2 = t1\<lparr>t_rw := take idx (t_rw t1) @ map ?sh (take (t_size t1 - idx) (drop idx (t_rw t1))) @ drop (t_size t1) (t_rw t1)\<rparr>"
  have t2: "same_set t t2" "t_size t2 = t_size t1" "length (t_rw t2) = length (t_rw t)"
    using t1 same_set_trans [OF t1(2), of t2] by (auto simp: t2_def same_set_def)
  have e2: "entries t2 = take idx ?E @ map ?sh F"
    using shift_entries [OF t1(4,3), of ?sh] t1(1) idx sz by (simp add: t2_def)
  have sub: "set F \<subseteq> set (drop idx ?E)" unfolding F_def by (auto simp: set_drop_subset_set_drop in_mono)
  have sh: "ra_offset (?sh r) = nat (int (ra_offset r) + shift) \<and> ra_k (?sh r) = ra_k r" if "r \<in> set F" for r
    using E2(2) sub that by (fastforce simp: rw_shift_entry_def)
  have srtF: "sorted_wrt (<) (map ra_offset F)"
    using E2(1) by (auto simp: F_def drop_map [symmetric] intro: sorted_wrt_drop) (metis One_nat_def Suc_eq_plus1 drop_drop drop_map plus_1_eq_Suc sorted_wrt_drop)
  have int_sh: "int (ra_offset (?sh r)) = int (ra_offset r) + shift" if "r \<in> set F" for r
    using sh [OF that] E2(2) sub that by fastforce
  have srt: "sorted_wrt (<) (map ra_offset (map ?sh F))"
  proof -
    have "sorted_wrt (\<lambda>p q. ra_offset p < ra_offset q) F" using srtF by (simp add: sorted_wrt_map)
    then have "sorted_wrt (\<lambda>p q. ra_offset (?sh p) < ra_offset (?sh q)) F"
      by (rule sorted_wrt_mono_rel [rotated]) (metis int_sh add_less_cancel_right of_nat_less_iff)
    then show ?thesis by (simp add: sorted_wrt_map)
  qed
  have "take idx ?E \<noteq> []" using idx sz by auto
  then have lastE: "last (take idx ?E) = ?E ! (idx - 1)" using idx sz by (simp add: last_conv_nth min_def)
  have above: "ra_offset (last (take idx ?E)) < ra_offset (?sh r)" if r: "r \<in> set F" for r
  proof -
    have ge: "ra_offset (?E ! (idx - 1)) \<le> off" "int off \<le> int (ra_offset (?sh r))" using E1(2) E2(2) sub r int_sh [OF r] by auto
    have "ra_offset (?E ! (idx - 1)) \<noteq> ra_offset (?sh r)"
    proof
      assume eq: "ra_offset (?E ! (idx - 1)) = ra_offset (?sh r)"
      have lt: "idx < t_size t" using sub r sz by (cases "idx < t_size t") auto
      obtain G where G: "drop idx ?E = ?E ! idx # G" using lt sz by (metis Cons_nth_drop_Suc)
      have hd: "int off \<le> int (ra_offset (?E ! idx)) + shift" using E2(2) G by auto
      have "ra_offset (?E ! idx) < ra_offset q" if "q \<in> set G" for q using E2(1) G that by auto
      moreover have "r = ?E ! idx \<or> r \<in> set G" using sub r G by auto
      ultimately have "r = ?E ! idx" using hd eq ge int_sh [OF r] by fastforce
      then have merge: merge using lt eq int_sh [OF r] by (simp add: merge_def)
      then have "F = G" using G lt sz by (simp add: F_def Cons_nth_drop_Suc [symmetric])
      then show False using r \<open>r = ?E ! idx\<close> \<open>\<And>q. q \<in> set G \<Longrightarrow> _\<close> by fastforce
    qed
    then show ?thesis using ge lastE by simp
  qed
  have "tab_ok b (btree_bkey_first t) ks (take idx ?E @ map ?sh F)"
    by (rule tab_ok_append [OF E1(1) srt]) (use above sh E2(2) sub in auto)
  then have tab: "rw_tab b t2 ks" using same_set_simps [OF t2(1)] e2 x room t2 t1
    by (auto simp: rw_tab_def table_room_def)
  have beyond: "(if idx \<ge> t_size t then Some True else do { e \<leftarrow> rw_entry t idx; Some (ra_offset e > off) }) = Some True"
    using en [of idx] E2(2) sz by (auto simp: Cons_nth_drop_Suc [symmetric])
  have mrg: "(if idx < t_size t then do { e \<leftarrow> rw_entry t idx; p \<leftarrow> rw_entry t (idx - 1); Some (int (ra_offset e) + shift = int (ra_offset p)) }
      else Some False) = Some merge"
    using en [of idx] en [of "idx - 1"] idx by (auto simp: merge_def)
  have eq: "fix_entries_after b t off shift idx = rw_aux_tree_insert_entry b t2 idx"
    unfolding fix_entries_after_def beyond mrg bind.bind_lunit require_True Let_def t2_def t1_def ..
  have "set_keys b (btree_bkey_first t2) (t_end_offset t2) = Some ks" using run same_set_simps [OF t2(1)] by simp
  from insert_entry_ok [OF f tab this v idx(1)] show ?thesis using eq t1(4) t2 same_set_trans [OF t2(1)] by auto
qed

section \<open>Correcting the table\<close>

text \<open>The keys of a set after the keys \<open>cs\<close> at \<open>off\<close>, \<open>c\<close> words, have been replaced by a key of \<open>n\<close> words (or by none).\<close>

definition edited_keys :: "nat list \<Rightarrow> nat list \<Rightarrow> nat \<Rightarrow> nat \<Rightarrow> nat \<Rightarrow> nat list" where
  "edited_keys xs ys off c n = xs @ (if n = 0 then [] else [off]) @ map (\<lambda>y. y - (off + c) + (off + n)) ys"

definition set_edit :: "btree \<Rightarrow> btree \<Rightarrow> bset_tree \<Rightarrow> nat list \<Rightarrow> nat list \<Rightarrow> nat list \<Rightarrow> nat \<Rightarrow> nat \<Rightarrow> nat \<Rightarrow> nat \<Rightarrow> bool" where
  "set_edit b b' t xs cs ys off c n e' \<longleftrightarrow>
     node_format_ok b' \<and> b_byte_order b' = b_byte_order b \<and>
     set_keys b (btree_bkey_first t) off = Some xs \<and> set_keys b off (off + c) = Some cs \<and> set_keys b (off + c) (t_end_offset t) = Some ys \<and>
     length cs \<le> 1 \<and> e' = t_end_offset t - (off + c) + (off + n) \<and> e' \<le> 65535 \<and>
     set_keys b' (btree_bkey_first t) e' = Some (edited_keys xs ys off c n) \<and> (\<forall>k\<in>set (edited_keys xs ys off c n). key_valid b' k) \<and>
     (\<forall>x\<in>set xs. key_pos b' x = key_pos b x) \<and> (\<forall>y\<in>set ys. key_pos b' (y - (off + c) + (off + n)) = key_pos b y)"

lemma tab_ok_take:
  assumes "tab_ok b first ks E" "0 < i"
  shows "tab_ok b first ks (take i E)"
proof -
  have "tl E = tl (take i E) @ drop i E" "hd (take i E) = hd E" "take i E \<noteq> []"
    using assms by (cases E; cases i; auto simp: tab_ok_def)+
  then show ?thesis using assms(1) by (auto simp: tab_ok_def take_map [symmetric] intro: sorted_wrt_take)
qed

lemma set_edit_low:
  assumes "set_edit b b' t xs cs ys off c n e'" "tab_ok b (btree_bkey_first t) (xs @ cs @ ys) E" "0 < i" "\<forall>r\<in>set (take i E). ra_offset r < off"
  shows "tab_ok b' (btree_bkey_first t) (edited_keys xs ys off c n) (take i E)"
proof (rule tab_ok_mono [OF tab_ok_take [OF assms(2,3)]], intro ballI)
  fix r
  assume r: "r \<in> set (tl (take i E))"
  then have lt: "ra_offset r < off" using assms(4) list.set_sel(2) [of "take i E" r] by (cases "take i E") auto
  have "ra_offset r \<in> set (xs @ cs @ ys)" using tab_ok_take [OF assms(2,3)] r by (auto simp: tab_ok_def)
  moreover have "ra_offset r \<notin> set cs" "ra_offset r \<notin> set ys"
    using lt set_keys_bounds [of b off "off + c" cs "ra_offset r"] set_keys_bounds [of b "off + c" "t_end_offset t" ys "ra_offset r"] assms(1)
    by (auto simp: set_edit_def)
  ultimately have "ra_offset r \<in> set xs" by auto
  then show "ra_offset r \<in> set (edited_keys xs ys off c n) \<and> key_pos b' (ra_offset r) = key_pos b (ra_offset r)"
    using assms(1) by (auto simp: set_edit_def edited_keys_def)
qed

lemma set_edit_high:
  assumes ed: "set_edit b b' t xs cs ys off c n e'" and tab: "tab_ok b (btree_bkey_first t) (xs @ cs @ ys) E"
    and r: "r \<in> set (tl E)" "off < ra_offset r"
  shows "int off \<le> int (ra_offset r) + (int n - int c) \<and> int (ra_offset r) + (int n - int c) < 2 ^ 16 \<and>
    nat (int (ra_offset r) + (int n - int c)) \<in> set (edited_keys xs ys off c n) \<and>
    ra_k r = key_pos b' (nat (int (ra_offset r) + (int n - int c)))"
proof -
  let ?y = "ra_offset r"
  have in_ks: "?y \<in> set (xs @ cs @ ys)" "ra_k r = key_pos b ?y" using tab r by (auto simp: tab_ok_def)
  have "?y \<notin> set xs" using set_keys_bounds [of b "btree_bkey_first t" off xs ?y] ed r(2) by (auto simp: set_edit_def)
  moreover have "?y \<notin> set cs"
  proof
    assume y: "?y \<in> set cs"
    have "set_keys b off (off + c) = Some cs" "length cs \<le> 1" using ed by (auto simp: set_edit_def)
    then have "cs = [off]" using y by (cases cs) (auto simp: set_keys_Cons)
    then show False using y r(2) by simp
  qed
  ultimately have y: "?y \<in> set ys" using in_ks by auto
  then have ge: "off + c \<le> ?y" using set_keys_bounds [of b "off + c" "t_end_offset t" ys ?y] ed by (auto simp: set_edit_def)
  then have nat: "nat (int ?y + (int n - int c)) = ?y - (off + c) + (off + n)" by simp
  have mem: "?y - (off + c) + (off + n) \<in> set (edited_keys xs ys off c n)" using y by (auto simp: edited_keys_def)
  have run: "set_keys b' (btree_bkey_first t) e' = Some (edited_keys xs ys off c n)" "e' \<le> 65535" using ed unfolding set_edit_def by blast+
  then have "?y - (off + c) + (off + n) < e'" "e' \<le> 65535" using set_keys_bounds [OF run(1) mem] by auto
  moreover have "key_pos b' (?y - (off + c) + (off + n)) = key_pos b ?y" using ed y by (auto simp: set_edit_def)
  ultimately show ?thesis using nat mem in_ks(2) ge by simp
qed

lemma set_edit_at:
  assumes "set_edit b b' t xs cs ys off c n e'" "off < e'"
  shows "off \<in> set (edited_keys xs ys off c n)"
proof (cases "n = 0")
  case True
  have y: "set_keys b (off + c) (t_end_offset t) = Some ys" "e' = t_end_offset t - (off + c) + off" using assms(1) True by (auto simp: set_edit_def)
  then have "ys \<noteq> []" using assms(2) by (auto simp: set_keys_Nil)
  then have "off + c \<in> set ys" using y(1) by (cases ys) (auto simp: set_keys_Cons)
  then show ?thesis using True by (force simp: edited_keys_def)
qed (simp add: edited_keys_def)

lemma set_edit_end:
  assumes "set_edit b b' t xs cs ys off c n e'" "off = e'"
  shows "ys = []"
proof -
  have y: "set_keys b (off + c) (t_end_offset t) = Some ys" "off = t_end_offset t - (off + c) + (off + n)" using assms by (auto simp: set_edit_def)
  then have "t_end_offset t = off + c" using set_keys_le [OF y(1)] by linarith
  then show ?thesis using y(1) by simp
qed

lemma fix_lookup_table_ok:
  assumes ed: "set_edit b b' t xs cs ys off c n e'" and r: "rw_tab b t (xs @ cs @ ys)"
  shows "\<exists>t'. raw_bch2_bset_fix_lookup_table b' (t\<lparr>t_end_offset := e'\<rparr>) off c n = Some t' \<and>
    rw_tab b' t' (edited_keys xs ys off c n) \<and> same_set (t\<lparr>t_end_offset := e'\<rparr>) t'"
proof -
  let ?t = "t\<lparr>t_end_offset := e'\<rparr>" and ?E = "entries t" and ?ks = "edited_keys xs ys off c n" and ?s = "int n - int c"
  let ?first = "btree_bkey_first t"
  have f: "node_format_ok b'" and run: "set_keys b' ?first e' = Some ?ks" and v: "\<forall>k\<in>set ?ks. key_valid b' k"
    using ed by (auto simp: set_edit_def)
  have first: "btree_bkey_first ?t = ?first" by (simp add: btree_bkey_first_def btree_bkey_first_offset_def)
  have run': "set_keys b' (btree_bkey_first ?t) (t_end_offset ?t) = Some ?ks" using run first by simp
  have cap: "table_room b' ?t" "t_extra ?t = BSET_RW_AUX_TREE_VAL"
    using r ed by (auto simp: rw_tab_def table_room_def bset_rw_tree_capacity_def set_edit_def)
  have E: "entries ?t = ?E" by (simp add: entries_def)
  have tab: "tab_ok b ?first (xs @ cs @ ys) ?E" using r by (simp add: rw_tab_def)
  note sz = rw_tab_size [OF r]
  have rt: "rw_tab b ?t (xs @ cs @ ys)" using r first by (simp add: rw_tab_def table_room_def bset_rw_tree_capacity_def E)
  have en: "rw_entry ?t j = Some (?E ! j)" if "j < t_size t" for j using rw_tab_entry [OF rt] that E by simp
  have inc: "ra_offset (?E ! i) < ra_offset (?E ! j)" if "i < j" "j < t_size t" for i j using rw_tab_increasing [OF r that] .
  have offs: "?first \<le> off" "off \<le> e'" using ed set_keys_le by (auto simp: set_edit_def)
  have low: "tab_ok b' ?first ?ks (take i ?E)" if "0 < i" "i \<le> t_size t" "ra_offset (?E ! (i - 1)) < off" for i
  proof (rule set_edit_low [OF ed tab that(1)], intro ballI)
    fix q
    assume "q \<in> set (take i ?E)"
    then obtain j where "j < i" "q = ?E ! j" by (auto simp: in_set_conv_nth)
    moreover from this have "i - 1 < t_size t" "j \<noteq> i - 1 \<Longrightarrow> j < i - 1" using that by linarith+
    ultimately show "ra_offset q < off" using inc [of j "i - 1"] that(3) by (cases "j = i - 1") auto
  qed
  have high: "sorted_wrt (<) (map ra_offset (drop i ?E)) \<and> (\<forall>q\<in>set (drop i ?E). off < ra_offset q \<and> int off \<le> int (ra_offset q) + ?s \<and>
      int (ra_offset q) + ?s < 2 ^ 16 \<and> nat (int (ra_offset q) + ?s) \<in> set ?ks \<and> ra_k q = key_pos b' (nat (int (ra_offset q) + ?s)))"
    if "0 < i" "i < t_size t \<longrightarrow> off < ra_offset (?E ! i)" for i
  proof (intro conjI ballI)
    show "sorted_wrt (<) (map ra_offset (drop i ?E))" using tab by (auto simp: tab_ok_def drop_map [symmetric] intro: sorted_wrt_drop)
    fix q
    assume q: "q \<in> set (drop i ?E)"
    then obtain j where j: "i \<le> j" "j < t_size t" "q = ?E ! j" using sz by (auto simp: in_set_conv_nth) (metis le_add1 less_diff_conv add.commute)
    show gt: "off < ra_offset q" using inc [of i j] j that(2) by (cases "i = j") auto
    have "q \<in> set (tl ?E)" using q that(1) set_drop_subset_set_drop [of 1 i ?E] by (auto simp: drop_Suc)
    from set_edit_high [OF ed tab this gt]
    show "int off \<le> int (ra_offset q) + ?s" "int (ra_offset q) + ?s < 2 ^ 16" "nat (int (ra_offset q) + ?s) \<in> set ?ks"
      "ra_k q = key_pos b' (nat (int (ra_offset q) + ?s))" by auto
  qed
  have after: "\<exists>t'. fix_entries_after b' ?t off ?s i = Some t' \<and> rw_tab b' t' ?ks \<and> same_set ?t t'"
    if "0 < i" "i \<le> t_size t" "tab_ok b' ?first ?ks (take i ?E)" "ra_offset (?E ! (i - 1)) \<le> off" "i < t_size t \<longrightarrow> off < ra_offset (?E ! i)" for i
    using fix_entries_after_ok [OF f run' v cap(2,1), of i off ?s] that high [OF that(1,5)] first E by simp
  have fin: "sub_nat (t_size ?t) 1 = Some (t_size t - 1)" "rw_entry ?t (t_size t - 1) = Some (?E ! (t_size t - 1))"
    using sz en [of "t_size t - 1"] by (simp_all add: sub_nat_def)
  show ?thesis
  proof (cases "off > ra_offset (?E ! (t_size t - 1))")
    case True
    then have "tab_ok b' ?first ?ks ?E" using low [of "t_size t"] sz by simp
    then have "rw_tab b' ?t ?ks" using cap first E by (simp add: rw_tab_def)
    from insert_entry_ok [OF f this run' v, of "t_size t"] show ?thesis
      using True sz fin by (simp add: raw_bch2_bset_fix_lookup_table_def Let_def)
  next
    case False
    obtain idx where idx: "rw_aux_tree_bsearch ?t off = Some idx" "idx \<le> t_size t" "0 < idx \<longrightarrow> ra_offset (t_rw t ! (idx - 1)) < off"
        "idx < t_size t \<longrightarrow> off \<le> ra_offset (t_rw t ! idx)"
      using rw_bsearch_ok [OF rw_tab_ok [OF rt], of off] offs first by auto
    have rwE: "t_rw t ! j = ?E ! j" if "j < t_size t" for j using that sz by (simp add: entries_def)
    have lt: "idx < t_size t"
    proof (rule ccontr)
      assume "\<not> idx < t_size t"
      then have "idx = t_size t" using idx(2) by simp
      then show False using idx(3) sz rwE [of "t_size t - 1"] False by simp
    qed
    have ge: "off \<le> ra_offset (?E ! idx)" and pl: "0 < idx \<Longrightarrow> ra_offset (?E ! (idx - 1)) < off" using idx(3,4) lt rwE by auto
    have raw: "raw_bch2_bset_fix_lookup_table b' ?t off c n =
        (if ra_offset (?E ! idx) = off then
           if idx = 0 then fix_entries_after b' ?t off ?s 1
           else if off < e' then do { t \<leftarrow> rw_aux_tree_set b' ?t idx off; fix_entries_after b' t off ?s (idx + 1) }
           else do { require (off = e'); rw_aux_tree_insert_entry b' (?t\<lparr>t_size := t_size t - 1\<rparr>) (t_size t - 1) }
         else fix_entries_after b' ?t off ?s idx)"
      using False fin idx(1) en [OF lt] by (simp add: raw_bch2_bset_fix_lookup_table_def Let_def)
    show ?thesis
    proof (cases "ra_offset (?E ! idx) = off")
      case gt: False
      then have pos: "0 < idx" using ge tab sz offs by (cases idx) (auto simp: tab_ok_def hd_conv_nth)
      show ?thesis using after [of idx] low [of idx] pl pos lt gt ge raw by simp
    next
      case eq: True
      have nxt: "idx + 1 < t_size t \<longrightarrow> off < ra_offset (?E ! (idx + 1))" using inc [of idx "idx + 1"] eq by simp
      consider "idx = 0" | "0 < idx" "off < e'" | "0 < idx" "off = e'" using offs by linarith
      then show ?thesis
      proof cases
        case 1
        have "take 1 ?E = [?E ! 0]" "?E ! 0 = hd ?E" using sz by (cases ?E; simp)+
        then have "tab_ok b' ?first ?ks (take 1 ?E)" using tab by (simp add: tab_ok_def)
        then show ?thesis using after [of 1] nxt eq 1 lt raw by simp
      next
        case 2
        let ?new = "\<lparr>ra_offset = off, ra_k = key_pos b' off\<rparr>"
        let ?t2 = "?t\<lparr>t_rw := (t_rw t)[idx := ?new]\<rparr>"
        have mem: "off \<in> set ?ks" by (rule set_edit_at [OF ed 2(2)])
        have "rw_aux_tree_set b' ?t idx off = Some ?t2"
          using rw_tab_base [OF rt] 2(2) mem v f lt sz by (simp add: rw_aux_tree_set_def btree_bkey_last_def unpack_key_pos upd_opt_def entries_def)
        moreover have E2: "entries ?t2 = ?E[idx := ?new]" by (simp add: entries_def take_update_swap)
        moreover have "\<exists>t'. fix_entries_after b' ?t2 off ?s (idx + 1) = Some t' \<and> rw_tab b' t' ?ks \<and> same_set ?t2 t'"
        proof (rule fix_entries_after_ok [OF f _ v])
          show "set_keys b' (btree_bkey_first ?t2) (t_end_offset ?t2) = Some ?ks" using run' by (simp add: btree_bkey_first_def btree_bkey_first_offset_def)
          have "last (take idx ?E) = ?E ! (idx - 1)" using 2(1) lt sz by (subst last_conv_nth) auto
          then have "tab_ok b' ?first ?ks (take idx ?E @ [?new])"
            using low [of idx] pl 2 lt mem by (intro tab_ok_append) auto
          then show "tab_ok b' (btree_bkey_first ?t2) ?ks (take (idx + 1) (entries ?t2))"
            unfolding E2 using lt sz first by (simp add: take_Suc_conv_app_nth btree_bkey_first_def btree_bkey_first_offset_def)
          show "table_room b' ?t2" using cap by (simp add: table_room_def bset_rw_tree_capacity_def)
          show "sorted_wrt (<) (map ra_offset (drop (idx + 1) (entries ?t2)))" unfolding E2 using high [of "idx + 1"] nxt by simp
          show "\<forall>q\<in>set (drop (idx + 1) (entries ?t2)). off < ra_offset q \<and> int off \<le> int (ra_offset q) + ?s \<and>
            int (ra_offset q) + ?s < 2 ^ 16 \<and> nat (int (ra_offset q) + ?s) \<in> set ?ks \<and> ra_k q = key_pos b' (nat (int (ra_offset q) + ?s))"
            unfolding E2 using high [of "idx + 1"] nxt by simp
          show "ra_offset (entries ?t2 ! (idx + 1 - 1)) \<le> off" unfolding E2 using lt sz by simp
        qed (use lt cap in simp_all)
        moreover have "same_set ?t ?t2" by (simp add: same_set_def)
        ultimately show ?thesis using raw eq 2 same_set_trans [of ?t ?t2] by auto
      next
        case 3
        let ?t2 = "?t\<lparr>t_size := t_size t - 1\<rparr>"
        have "ys = []" using set_edit_end [OF ed 3(2)] .
        have "idx = t_size t - 1"
        proof (rule ccontr)
          assume "idx \<noteq> t_size t - 1"
          then have l: "idx + 1 < t_size t" using lt by simp
          then have "?E ! (idx + 1) \<in> set (tl ?E)" using sz by (metis Suc_eq_plus1 length_tl less_diff_conv nth_mem nth_tl)
          from set_edit_high [OF ed tab this] nxt l have "nat (int (ra_offset (?E ! (idx + 1))) + ?s) \<in> set ?ks"
            "off \<le> nat (int (ra_offset (?E ! (idx + 1))) + ?s)" by auto
          then show False using set_keys_bounds [OF run] 3(2) by fastforce
        qed
        moreover have "entries ?t2 = take (t_size t - 1) ?E" by (simp add: entries_def min_def)
        moreover have "t_size t - 1 \<le> length (t_rw t)" using cap by (auto simp: table_room_def)
        ultimately have "rw_tab b' ?t2 ?ks" using low [of idx] pl 3 lt cap first
          by (simp add: rw_tab_def table_room_def bset_rw_tree_capacity_def btree_bkey_first_def btree_bkey_first_offset_def)
        moreover have "set_keys b' (btree_bkey_first ?t2) (t_end_offset ?t2) = Some ?ks" using run' by (simp add: btree_bkey_first_def btree_bkey_first_offset_def)
        moreover have "same_set ?t ?t2" by (simp add: same_set_def)
        ultimately show ?thesis
          using insert_entry_ok [OF f _ _ v, of ?t2 "t_size t - 1"] same_set_trans [of ?t ?t2] \<open>idx = _\<close> raw eq 3
          by auto
      qed
    qed
  qed
qed

section \<open>The node after an edit\<close>

text \<open>A set of the node as the update functions keep it: its keys are whole and in order, its table is in order, and its
  header holds the length of the keys.\<close>

definition bset_wf :: "btree \<Rightarrow> bset_tree \<Rightarrow> nat list \<Rightarrow> bool" where
  "bset_wf b t ks \<longleftrightarrow>
     set_keys b (btree_bkey_first t) (t_end_offset t) = Some ks \<and> (\<forall>k\<in>set ks. key_whole b k) \<and> keys_sorted b ks \<and>
     (t_extra t = BSET_NO_AUX_TREE_VAL \<and> t_size t = 0 \<or> rw_tab b t ks) \<and>
     disk_u64s b t = Some (t_end_offset t - btree_bkey_first t) \<and> t_end_offset t \<le> length (b_data b)"

lemma bset_wf_set_ok: "bset_wf b t ks \<Longrightarrow> set_ok b t ks"
  using rw_tab_ok by (auto simp: bset_wf_def set_ok_def run_ok_def aux_ok_def key_whole_def)

text \<open>The words of a key.\<close>

definition key_image :: "btree \<Rightarrow> nat \<Rightarrow> u64 list" where
  "key_image b k = take (key_u64s_at b k) (drop k (b_data b))"

text \<open>The data after the words of the keys \<open>cs\<close>, \<open>c\<close> words at \<open>off\<close>, have been replaced by the words \<open>w\<close>.\<close>

definition data_edit :: "btree \<Rightarrow> btree \<Rightarrow> bset_tree \<Rightarrow> nat \<Rightarrow> nat \<Rightarrow> u64 list \<Rightarrow> bool" where
  "data_edit b b' t off c w \<longleftrightarrow>
     b_format b' = b_format b \<and> b_nr_key_bits b' = b_nr_key_bits b \<and> b_byte_order b' = b_byte_order b \<and>
     length (b_data b') = length (b_data b) \<and> off + length w + (t_end_offset t - (off + c)) \<le> length (b_data b) \<and>
     (\<forall>i<off. i \<noteq> t_data_offset t + 2 \<longrightarrow> b_data b' ! i = b_data b ! i) \<and>
     (\<forall>i<length w. b_data b' ! (off + i) = w ! i) \<and>
     (\<forall>i<t_end_offset t - (off + c). b_data b' ! (off + length w + i) = b_data b ! (off + c + i))"

text \<open>The new words are a key at \<open>p\<close>, or none.\<close>

definition new_key_ok :: "bkey_format \<Rightarrow> u64 list \<Rightarrow> bpos \<Rightarrow> bool" where
  "new_key_ok f w p \<longleftrightarrow> w = [] \<or> unat (pk_u64s w) = length w \<and> key_holds f w p \<and> (\<not> bkey_is_packed w \<longrightarrow> BKEY_U64S \<le> length w)"

lemma same_key_image:
  assumes "same_key b k b' k'" "key_u64s_at b' k' = key_u64s_at b k" "key_whole b k"
  shows "key_image b' k' = key_image b k"
  using assms by (auto simp: key_image_def same_key_def key_whole_def intro!: nth_equalityI)

lemma data_edit_low:
  assumes de: "data_edit b b' t off c w" and run: "set_keys b (btree_bkey_first t) off = Some xs" and off: "off \<le> length (b_data b)"
  shows "set_keys b' (btree_bkey_first t) off = Some xs" "x \<in> set xs \<Longrightarrow> same_key b x b' x"
proof -
  have le: "btree_bkey_first t \<le> off" using set_keys_le [OF run] .
  have "b_data b' ! (btree_bkey_first t + i) = b_data b ! (btree_bkey_first t + i)" if "i < off - btree_bkey_first t" for i
    using de that by (simp add: data_edit_def btree_bkey_first_def btree_bkey_first_offset_def)
  then have eq: "\<forall>i<off - btree_bkey_first t. b_data b' ! (btree_bkey_first t + i) = b_data b ! (btree_bkey_first t + i)" by blast
  have len: "btree_bkey_first t + (off - btree_bkey_first t) \<le> length (b_data b')" "b_format b' = b_format b"
    using de le off by (auto simp: data_edit_def)
  have "map (\<lambda>x. x - btree_bkey_first t + btree_bkey_first t) xs = xs"
    using set_keys_bounds [OF run] by (intro map_idI) fastforce
  then show "set_keys b' (btree_bkey_first t) off = Some xs" using set_keys_move [OF off run len(1) eq] le by simp
  assume "x \<in> set xs"
  from same_key_moved [OF run this len eq] show "same_key b x b' x" using set_keys_bounds [OF run \<open>x \<in> set xs\<close>] by simp
qed

lemma data_edit_high:
  assumes de: "data_edit b b' t off c w" and run: "set_keys b (off + c) (t_end_offset t) = Some ys" and e: "t_end_offset t \<le> length (b_data b)"
  shows "set_keys b' (off + length w) (t_end_offset t - (off + c) + (off + length w)) = Some (map (\<lambda>y. y - (off + c) + (off + length w)) ys)"
    "y \<in> set ys \<Longrightarrow> same_key b y b' (y - (off + c) + (off + length w))"
proof -
  have len: "off + length w + (t_end_offset t - (off + c)) \<le> length (b_data b')" "b_format b' = b_format b"
    and eq: "\<forall>i<t_end_offset t - (off + c). b_data b' ! (off + length w + i) = b_data b ! (off + c + i)"
    using de by (auto simp: data_edit_def)
  show "set_keys b' (off + length w) (t_end_offset t - (off + c) + (off + length w)) = Some (map (\<lambda>y. y - (off + c) + (off + length w)) ys)"
    using set_keys_move [OF e run len(1) eq] by (simp add: add.commute)
  show "y \<in> set ys \<Longrightarrow> same_key b y b' (y - (off + c) + (off + length w))" by (rule same_key_moved [OF run _ len eq])
qed

lemma data_edit_new:
  assumes de: "data_edit b b' t off c w" and f: "format_valid (b_format b)" and w: "new_key_ok (b_format b) w p" "w \<noteq> []"
  shows "key_whole b' off" "key_pos b' off = p" "key_deleted b' off = bkey_deleted w" "key_image b' off = w" "key_u64s_at b' off = length w"
    "set_keys b' off (off + length w) = Some [off]"
proof -
  let ?ws = "drop off (b_data b')"
  have len: "off + length w \<le> length (b_data b')" and fmt: "b_format b' = b_format b" and eq: "\<forall>i<length w. ?ws ! i = w ! i"
    using de by (auto simp: data_edit_def)
  have n: "0 < length w" "unat (pk_u64s w) = length w" "key_holds (b_format b) w p" using w by (auto simp: new_key_ok_def)
  have h: "?ws ! 0 = w ! 0" using eq n by simp
  then have hd: "pk_u64s ?ws = pk_u64s w" "bkey_is_packed ?ws = bkey_is_packed w" "bkey_deleted ?ws = bkey_deleted w"
    by (simp_all add: pk_u64s_def bkey_is_packed_def pk_format_def bkey_deleted_def pk_type_def)
  have nz: "pk_u64s w \<noteq> 0" using n by auto
  have kh: "key_holds (b_format b') ?ws p"
    unfolding fmt by (rule key_holds_cong [OF n(3) f]) (use len eq n w nz in \<open>auto simp: new_key_ok_def\<close>)
  moreover have "off < length (b_data b')" using len n(1) by linarith
  ultimately have v: "key_valid b' off" by (auto simp: key_valid_def)
  show u: "key_u64s_at b' off = length w" using hd n by (simp add: key_u64s_at_def)
  show "key_whole b' off" using v u len n hd w by (auto simp: key_whole_def new_key_ok_def)
  show "key_pos b' off = p" using key_holds_unpack(1) [of "b_format b'" ?ws p] kh f fmt by (simp add: key_pos_def)
  show "key_deleted b' off = bkey_deleted w" using hd by (simp add: key_deleted_def)
  show "key_image b' off = w" unfolding key_image_def u using len eq by (auto intro!: nth_equalityI)
  show "set_keys b' off (off + length w) = Some [off]"
    using hd n nz len \<open>off < length (b_data b')\<close> by (simp add: set_keys_Cons key_at_def)
qed

lemma rank_transfer:
  "key_pos b' x' = key_pos b x \<Longrightarrow> key_deleted b' x' = key_deleted b x \<Longrightarrow> key_pos b' y' = key_pos b y \<Longrightarrow>
   key_deleted b' y' = key_deleted b y \<Longrightarrow> rank b x < rank b y \<Longrightarrow> x' < y' \<Longrightarrow> rank b' x' < rank b' y'"
  by (auto simp: rank_def less_prod_def')

text \<open>The keys, their words and their order after an edit.\<close>

lemma data_edit_keys:
  assumes f: "node_format_ok b" and wf: "bset_wf b t (xs @ cs @ ys)" and de: "data_edit b b' t off c w"
    and part: "set_keys b (btree_bkey_first t) off = Some xs" "set_keys b off (off + c) = Some cs" "set_keys b (off + c) (t_end_offset t) = Some ys"
    and w: "new_key_ok (b_format b) w p"
    and ord: "w \<noteq> [] \<longrightarrow> (\<forall>x\<in>set xs. before b p x) \<and> (\<forall>y\<in>set ys. \<not> before b p y)"
    and e': "e' = t_end_offset t - (off + c) + (off + length w)"
    and ks: "ks = edited_keys xs ys off c (length w)"
  shows "set_keys b' (btree_bkey_first t) e' = Some ks" "\<forall>k\<in>set ks. key_whole b' k" "keys_sorted b' ks"
    "map (key_image b') ks = map (key_image b) xs @ (if w = [] then [] else [w]) @ map (key_image b) ys"
    "\<forall>x\<in>set xs. key_pos b' x = key_pos b x" "\<forall>y\<in>set ys. key_pos b' (y - (off + c) + (off + length w)) = key_pos b y"
proof -
  let ?n = "length w" and ?sh = "\<lambda>y. y - (off + c) + (off + length w)"
  have le: "off \<le> t_end_offset t" "t_end_offset t \<le> length (b_data b)"
    using set_keys_le [OF part(2)] set_keys_le [OF part(3)] wf by (auto simp: bset_wf_def)
  have fv: "format_valid (b_format b)" and f': "node_format_ok b'" using f de by (auto simp: node_format_ok_def data_edit_def)
  have whole: "key_whole b k" if "k \<in> set xs \<or> k \<in> set ys" for k using wf that by (auto simp: bset_wf_def)
  note low = data_edit_low [OF de part(1) order.trans [OF le]]
  note high = data_edit_high [OF de part(3) le(2)]
  note new = data_edit_new [OF de fv w]
  note px = same_key_props [OF f f' whole low(2)] and py = same_key_props [OF f f' whole high(2)]
  have mid: "set_keys b' off (off + ?n) = Some (if ?n = 0 then [] else [off])" using new(6) by (cases "w = []") simp_all
  show "set_keys b' (btree_bkey_first t) e' = Some ks"
    unfolding ks edited_keys_def e' using set_keys_append [OF low(1) set_keys_append [OF mid high(1)]] by simp
  show "\<forall>k\<in>set ks. key_whole b' k" using px(1) py(1) new(1) by (auto simp: ks edited_keys_def split: if_splits)
  show "\<forall>x\<in>set xs. key_pos b' x = key_pos b x" "\<forall>y\<in>set ys. key_pos b' (?sh y) = key_pos b y" using px(2) py(2) by auto
  have "map (key_image b') xs = map (key_image b) xs" using same_key_image [OF low(2) px(4) whole] by auto
  moreover have "map (key_image b') (map ?sh ys) = map (key_image b) ys" using same_key_image [OF high(2) py(4) whole] by auto
  ultimately show "map (key_image b') ks = map (key_image b) xs @ (if w = [] then [] else [w]) @ map (key_image b) ys"
    using new(4) by (auto simp: ks edited_keys_def)
  have sorted: "keys_sorted b (xs @ cs @ ys)" using wf by (simp add: bset_wf_def)
  have bx: "x < off" if "x \<in> set xs" for x using set_keys_bounds [OF part(1) that] by simp
  have by': "off + c \<le> y" if "y \<in> set ys" for y using set_keys_bounds [OF part(3) that] by simp
  have s1: "keys_sorted b' xs"
    using sorted px(2,3) by (auto simp: keys_sorted_def sorted_wrt_append rank_def elim!: sorted_wrt_mono_rel [rotated])
  have s2: "keys_sorted b' (map ?sh ys)"
  proof -
    have "sorted_wrt (<) ys" using set_keys_distinct [OF part(3)] .
    moreover have "sorted_wrt (\<lambda>x y. rank b x < rank b y) ys" using sorted by (simp add: keys_sorted_def sorted_wrt_append)
    ultimately have "sorted_wrt (\<lambda>x y. rank b x < rank b y \<and> x < y) ys" by (simp add: sorted_wrt_iff_nth_less)
    moreover have "rank b' (?sh x) < rank b' (?sh y)" if "x \<in> set ys" "y \<in> set ys" "rank b x < rank b y \<and> x < y" for x y
    proof -
      have "?sh x < ?sh y" using by' [OF that(1)] that(3) by linarith
      then show ?thesis using rank_transfer [of b' "?sh x" b x "?sh y" y] that py(2,3) by blast
    qed
    ultimately have "sorted_wrt (\<lambda>x y. rank b' (?sh x) < rank b' (?sh y)) ys" by (rule sorted_wrt_mono_rel [rotated])
    then show ?thesis by (simp add: keys_sorted_def sorted_wrt_map)
  qed
  have s3: "rank b' x < rank b' (?sh y)" if "x \<in> set xs" "y \<in> set ys" for x y
  proof -
    have "x < ?sh y" using bx [OF that(1)] by' [OF that(2)] by linarith
    moreover have "rank b x < rank b y" using sorted that by (simp add: keys_sorted_def sorted_wrt_append)
    ultimately show ?thesis using rank_transfer [of b' x b x "?sh y" y] that px(2,3) py(2,3) by blast
  qed
  have s4: "rank b' x < rank b' off" if "x \<in> set xs" "w \<noteq> []" for x
    using ord that px(2,3) new(2,3) bx by (auto simp: rank_def before_def less_prod_def')
  have s5: "rank b' off < rank b' (?sh y)" if "y \<in> set ys" "w \<noteq> []" for y
    using ord that py(2,3) new(2,3) by (auto simp: rank_def before_def less_prod_def' not_less le_less)
  show "keys_sorted b' ks"
    using s1 s2 s3 s4 s5 by (auto simp: ks edited_keys_def keys_sorted_def sorted_wrt_append sorted_wrt_map)
qed

section \<open>The words of a key to insert\<close>

lemmas image_bits = bit_or_iff bit_and_iff bit_push_bit_iff bit_drop_bit_eq bit_take_bit_iff bit_ucast_iff

lemma bit_beyond [simp]: "\<not> bit (x :: u8) (8 + n)" "\<not> bit (x :: u8) (16 + n)" "\<not> bit (y :: u32) (32 + n)"
  by (auto dest: bit_imp_le_length)

lemma bkey_words_header:
  "pk_u64s (bkey_words k @ val) = k_u64s k" "pk_format (bkey_words k @ val) = k_format k" "pk_type (bkey_words k @ val) = k_type k"
  by (auto intro!: bit_eqI simp: pk_u64s_def pk_format_def pk_type_def bkey_words_def image_bits dest: bit_imp_le_length)

lemma bkey_words_pos: "unpacked_pos (bkey_words k @ val) = Some (k_p k)"
proof -
  have "ucast (drop_bit 32 (ucast (k_size k) OR push_bit 32 (ucast (snapshot (k_p k)) :: u64))) = snapshot (k_p k)"
    by (auto intro!: bit_eqI simp: image_bits dest: bit_imp_le_length)
  then show ?thesis by (simp add: unpacked_pos_def bkey_words_def nth_opt_def)
qed

text \<open>The words that an insertion writes, for the source \<open>src\<close> it chose.\<close>

definition written_words :: "bkey_format \<Rightarrow> bkey_packed \<Rightarrow> u64 list \<Rightarrow> u64 list" where
  "written_words f src val = take (unat (bkeyp_key_u64s f src)) src @ val"

lemma written_words_ok:
  assumes f: "format_valid f" and h: "bkey_header_ok f k" and val: "length val = unat (k_u64s k) - BKEY_U64S"
  shows "\<exists>ok packed. bch2_bkey_pack_key (replicate BKEY_PACKED_WORDS 0) k f = Some (ok, packed) \<and>
    (let src = if ok then packed else bkey_words k @ val; w = written_words f src val in
      unat (bkeyp_key_u64s f src) \<le> length src \<and> unat (bkeyp_val_u64s f src) = length val \<and> unat (pk_u64s src) = length w \<and>
      length w = unat (bkeyp_key_u64s f src) + length val \<and> length w \<le> unat (k_u64s k) \<and>
      new_key_ok f w (k_p k) \<and> w \<noteq> [] \<and> (bkey_deleted w \<longleftrightarrow> k_type k = 0) \<and> (bkey_is_packed w \<longleftrightarrow> bkey_is_packed src))"
proof -
  have n: "5 \<le> unat (k_u64s k)" "unat (k_u64s k) < 256" using h unsigned_less [where 'a = nat, of "k_u64s k"] by (auto simp: bkey_header_ok_def code_consts)
  have ku: "0 < unat (f_key_u64s f)" "unat (f_key_u64s f) \<le> 5" using f by (auto simp: format_valid_def code_consts unat_gt_0)
  have len: "unat (f_key_u64s f) \<le> length (replicate BKEY_PACKED_WORDS (0 :: u64))" using ku by (simp add: code_consts)
  obtain packed where run: "bch2_bkey_pack_key (replicate BKEY_PACKED_WORDS 0) k f = Some (fields_fit f 0 (bkey_field_values k), packed)"
    using bch2_bkey_pack_key_cases [OF f len h] by blast
  show ?thesis
  proof (cases "fields_fit f 0 (bkey_field_values k)")
    case True
    have p: "packed_as f packed k" using pack_key_packed_as [OF f len h] run True by simp
    have pk: "bkey_is_packed packed" using packed_as_format [OF p] by (simp add: bkey_is_packed_def code_consts)
    let ?w = "written_words f packed val"
    have ks: "unat (bkeyp_key_u64s f packed) = unat (f_key_u64s f)"
      using pk by (simp add: bkeyp_key_u64s_def) (simp add: unat_ucast_up)
    have pl: "unat (f_key_u64s f) \<le> length packed" "unat (pk_u64s packed) = unat (f_key_u64s f) + length val"
      using p val by (auto simp: packed_as_def)
    have vu: "unat (bkeyp_val_u64s f packed) = length val"
    proof -
      have "unat (ucast (pk_u64s packed) :: u32) = unat (pk_u64s packed)" by (simp add: unat_ucast_up)
      then show ?thesis using ks pl(2) by (simp add: bkeyp_val_u64s_def unat_sub word_le_nat_alt)
    qed
    have eq: "\<forall>i<unat (f_key_u64s f). packed ! i = ?w ! i" using pl ks by (simp add: written_words_def nth_append)
    have h0: "?w ! 0 = packed ! 0" using eq ku by simp
    have hd: "pk_u64s ?w = pk_u64s packed" "bkey_is_packed ?w" "bkey_deleted ?w \<longleftrightarrow> k_type k = 0" "pk_format ?w = pk_format packed"
      using h0 pk p by (auto simp: pk_u64s_def bkey_is_packed_def pk_format_def bkey_deleted_def packed_as_def) (simp_all add: pk_type_def h0)
    have lw: "length ?w = unat (f_key_u64s f) + length val" using pl ks by (simp add: written_words_def)
    have "pos_at f packed (k_p k)" by (rule pos_at_packed_as [OF p True])
    then have "pos_at f ?w (k_p k)" using fields_at_same_bits [OF eq, of "64 * unat (f_key_u64s f)"] lw
      by (simp add: pos_at_def del: fields_at.simps fields_of.simps)
    then have "key_holds f ?w (k_p k)"
      using hd packed_as_format [OF p] pl(2) n val by (simp add: key_holds_def word_le_nat_alt code_consts)
    then have "new_key_ok f ?w (k_p k)" using hd lw pl by (simp add: new_key_ok_def)
    moreover have "?w \<noteq> []" using lw ku by auto
    moreover have "unat (f_key_u64s f) + length val \<le> unat (k_u64s k)" using val ku n by (simp add: code_consts)
    ultimately show ?thesis using run True ks pl vu lw hd pk
      by (intro exI [of _ True] exI [of _ packed]) (simp add: Let_def)
  next
    case False
    let ?src = "bkey_words k @ val" let ?w = "written_words f ?src val"
    have up: "\<not> bkey_is_packed ?src" using h by (simp add: bkey_is_packed_def bkey_words_header bkey_header_ok_def)
    have ks: "unat (bkeyp_key_u64s f ?src) = 5" using up by (simp add: bkeyp_key_u64s_def code_consts)
    have l5: "length (bkey_words k) = 5" by (simp add: bkey_words_def)
    have w: "?w = ?src" using ks l5 by (simp add: written_words_def)
    have pl: "unat (pk_u64s ?src) = 5 + length val" using n val by (simp add: bkey_words_header code_consts)
    have vu: "unat (bkeyp_val_u64s f ?src) = length val"
    proof -
      have "unat (ucast (pk_u64s ?src) :: u32) = unat (pk_u64s ?src)" by (simp add: unat_ucast_up)
      then show ?thesis using ks pl by (simp add: bkeyp_val_u64s_def unat_sub word_le_nat_alt)
    qed
    have "key_holds f ?src (k_p k)" using up by (simp add: key_holds_def bkey_words_pos)
    then have "new_key_ok f ?src (k_p k)" using pl l5 by (simp add: new_key_ok_def code_consts)
    moreover have "bkey_deleted ?src \<longleftrightarrow> k_type k = 0" by (simp add: bkey_deleted_def bkey_words_header)
    moreover have "?src \<noteq> []" using l5 by auto
    ultimately show ?thesis using run False ks pl vu l5 n val
      by (intro exI [of _ False] exI [of _ packed]) (simp add: w Let_def code_consts)
  qed
qed

section \<open>Insertion and deletion\<close>

lemma length_splice_words [simp]: "i + length ys \<le> length xs \<Longrightarrow> length (splice_words xs i ys) = length xs"
  by (simp add: splice_words_def)

lemma nth_splice_words:
  "i + length ys \<le> length xs \<Longrightarrow> j < length xs \<Longrightarrow>
   splice_words xs i ys ! j = (if j < i then xs ! j else if j < i + length ys then ys ! (j - i) else xs ! j)"
  by (auto simp: splice_words_def nth_append min_def)

lemma splice_words_append: "i + length ys + length zs \<le> length xs \<Longrightarrow> splice_words (splice_words xs i ys) (i + length ys) zs = splice_words xs i (ys @ zs)"
  by (rule nth_equalityI) (auto simp: nth_splice_words nth_append)

lemma header_u64s: "n < 2 ^ 16 \<Longrightarrow> unat (drop_bit 48 (take_bit 48 w OR push_bit 48 (of_nat n)) :: u64) = n"
proof -
  assume n: "n < 2 ^ 16"
  have "drop_bit 48 (take_bit 48 w OR push_bit 48 (of_nat n)) = (take_bit 16 (of_nat n) :: u64)"
    by (auto intro!: bit_eqI simp: image_bits)
  also have "\<dots> = of_nat n" using n by (simp add: take_bit_of_nat take_bit_nat_eq_self)
  finally show ?thesis using n by (simp add: unat_of_nat)
qed

text \<open>The node after the words at \<open>off\<close> have been replaced; the sizes differ or the header is left alone.\<close>

lemma resize_hole_ok:
  assumes e: "off + c \<le> t_end_offset t" "t_end_offset t \<le> length (b_data b)" and off: "btree_bkey_first t \<le> off"
    and u: "disk_u64s b t = Some (t_end_offset t - btree_bkey_first t)"
    and e': "e' = t_end_offset t - (off + c) + (off + n)" "e' \<le> 65535" "e' \<le> length (b_data b)"
  shows "\<exists>data. resize_hole b t off c n = Some (b\<lparr>b_data := data\<rparr>, t\<lparr>t_end_offset := e'\<rparr>) \<and> length data = length (b_data b) \<and>
    disk_u64s (b\<lparr>b_data := data\<rparr>) t = Some (e' - btree_bkey_first t) \<and>
    (\<forall>i<off. i \<noteq> t_data_offset t + 2 \<longrightarrow> data ! i = b_data b ! i) \<and>
    (\<forall>i<t_end_offset t - (off + c). data ! (off + n + i) = b_data b ! (off + c + i))"
proof -
  let ?e = "t_end_offset t" and ?h = "t_data_offset t + 2" and ?first = "btree_bkey_first t"
  let ?tail = "take (?e - (off + c)) (drop (off + c) (b_data b))"
  let ?d1 = "splice_words (b_data b) (off + n) ?tail"
  have first: "?first = t_data_offset t + 3" by (simp add: btree_bkey_first_def btree_bkey_first_offset_def)
  have h: "?h < off" using off first by simp
  have tl: "length ?tail = ?e - (off + c)" "off + n + length ?tail \<le> length (b_data b)" using e e'(1,3) by auto
  have m: "move_tail (b_data b) (off + c) (off + n) (btree_bkey_last t) = Some ?d1"
    using e tl e' by (simp add: move_tail_def store_words_def btree_bkey_last_def)
  have hl: "?h < length (b_data b)" using u by (auto simp: disk_u64s_def nth_opt_def split: if_splits)
  have d1: "?d1 ! ?h = b_data b ! ?h" using tl(2) h hl by (simp add: nth_splice_words)
  define n' where "n' = ?e - ?first + n - c"
  define data where "data = ?d1[?h := take_bit 48 (b_data b ! ?h) OR push_bit 48 (of_nat n')]"
  have n': "n' = e' - ?first" "n' \<le> 65535" "c \<le> ?e - ?first + n" using e e' off by (auto simp: n'_def)
  have u1: "disk_u64s (b\<lparr>b_data := ?d1\<rparr>) t = Some (?e - ?first)" using u d1 hl tl by (simp add: disk_u64s_def nth_opt_def)
  have s1: "set_disk_u64s (b\<lparr>b_data := ?d1\<rparr>) t n' = Some (b\<lparr>b_data := data\<rparr>)"
    using d1 hl tl by (simp add: set_disk_u64s_def nth_opt_def data_def)
  have u2: "disk_u64s (b\<lparr>b_data := data\<rparr>) t = Some n'"
    using hl tl header_u64s [of n' "b_data b ! ?h"] n' by (simp add: disk_u64s_def nth_opt_def data_def)
  have "e' = t_data_offset t + 3 + n'" using n' e' e off first by linarith
  then have s2: "set_btree_bset_end (b\<lparr>b_data := data\<rparr>) t = Some (t\<lparr>t_end_offset := e'\<rparr>)"
    using u2 e' by (simp add: set_btree_bset_end_def)
  have "resize_hole b t off c n = Some (b\<lparr>b_data := data\<rparr>, t\<lparr>t_end_offset := e'\<rparr>)"
    unfolding resize_hole_def m bind.bind_lunit Let_def u1 using n'(2,3) s1 s2 n'_def by simp
  moreover have "length data = length (b_data b)" using tl by (simp add: data_def)
  moreover have "\<forall>i<off. i \<noteq> ?h \<longrightarrow> data ! i = b_data b ! i" using tl by (auto simp: data_def nth_splice_words)
  moreover have "\<forall>i<?e - (off + c). data ! (off + n + i) = b_data b ! (off + c + i)"
    using tl h e by (auto simp: data_def nth_splice_words nth_list_update)
  ultimately show ?thesis using u2 n' by blast
qed

definition same_format :: "btree \<Rightarrow> btree \<Rightarrow> bool" where
  "same_format b b' \<longleftrightarrow> b_format b' = b_format b \<and> b_nr_key_bits b' = b_nr_key_bits b \<and> b_byte_order b' = b_byte_order b \<and>
     b_min_key b' = b_min_key b \<and> b_max_key b' = b_max_key b \<and> b_level b' = b_level b \<and> b_addr b' = b_addr b"

text \<open>The set after an edit, its table corrected.\<close>

lemma edited_set_wf:
  assumes f: "node_format_ok b" and wf: "bset_wf b t (xs @ cs @ ys)" and de: "data_edit b b' t off c w"
    and part: "set_keys b (btree_bkey_first t) off = Some xs" "set_keys b off (off + c) = Some cs" "set_keys b (off + c) (t_end_offset t) = Some ys"
    and cs: "length cs \<le> 1" and w: "new_key_ok (b_format b) w p"
    and ord: "w \<noteq> [] \<longrightarrow> (\<forall>x\<in>set xs. before b p x) \<and> (\<forall>y\<in>set ys. \<not> before b p y)"
    and e': "e' = t_end_offset t - (off + c) + (off + length w)" "e' \<le> 65535"
    and u: "disk_u64s b' t = Some (e' - btree_bkey_first t)"
  shows "\<exists>t'. bch2_bset_fix_lookup_table b' (t\<lparr>t_end_offset := e'\<rparr>) off c (length w) = Some t' \<and>
    bset_wf b' t' (edited_keys xs ys off c (length w)) \<and> same_set (t\<lparr>t_end_offset := e'\<rparr>) t'"
proof -
  let ?t = "t\<lparr>t_end_offset := e'\<rparr>" and ?ks = "edited_keys xs ys off c (length w)"
  have first: "btree_bkey_first ?t = btree_bkey_first t" by (simp add: btree_bkey_first_def btree_bkey_first_offset_def)
  note k = data_edit_keys [OF f wf de part w ord e'(1) refl]
  have f': "node_format_ok b'" using f de by (simp add: node_format_ok_def data_edit_def)
  have ed: "set_edit b b' t xs cs ys off c (length w) e'"
    unfolding set_edit_def using f' de part cs e' k(1,2,5,6) by (auto simp: data_edit_def key_whole_def)
  have le: "e' \<le> length (b_data b')" using de e' by (simp add: data_edit_def)
  have wf': "bset_wf b' t' ?ks" if "same_set ?t t'" "t_extra t' = BSET_NO_AUX_TREE_VAL \<and> t_size t' = 0 \<or> rw_tab b' t' ?ks" for t'
    using that same_set_simps [OF that(1)] first k(1-3) u le by (auto simp: bset_wf_def disk_u64s_def)
  from wf consider "t_extra t = BSET_NO_AUX_TREE_VAL" "t_size t = 0" | "rw_tab b t (xs @ cs @ ys)" by (auto simp: bset_wf_def)
  then show ?thesis
  proof cases
    case 1
    then have "bch2_bset_fix_lookup_table b' ?t off c (length w) = Some ?t"
      by (simp add: bch2_bset_fix_lookup_table_def bset_aux_tree_kind_def)
    then show ?thesis using 1 wf' [of ?t] by (simp add: same_set_def)
  next
    case 2
    then have kind: "bset_aux_tree_kind ?t = Some BSET_RW_AUX_TREE" using rw_tab_size [OF 2] by (auto simp: rw_tab_def bset_aux_tree_kind_def code_consts)
    obtain t' where "raw_bch2_bset_fix_lookup_table b' ?t off c (length w) = Some t'" "rw_tab b' t' ?ks" "same_set ?t t'"
      using fix_lookup_table_ok [OF ed 2] by blast
    then show ?thesis using wf' kind by (auto simp: bch2_bset_fix_lookup_table_def)
  qed
qed

text \<open>A place in the last set of the node: \<open>xs\<close> before it, \<open>cs\<close> to be replaced (at most one key, \<open>c\<close> words), \<open>ys\<close> after it.\<close>

definition insert_place :: "btree \<Rightarrow> bset_tree \<Rightarrow> nat list \<Rightarrow> nat list \<Rightarrow> nat list \<Rightarrow> nat \<Rightarrow> nat \<Rightarrow> bool" where
  "insert_place b t xs cs ys off c \<longleftrightarrow>
     node_format_ok b \<and> b_sets b \<noteq> [] \<and> last (b_sets b) = t \<and> bset_wf b t (xs @ cs @ ys) \<and>
     set_keys b (btree_bkey_first t) off = Some xs \<and> set_keys b off (off + c) = Some cs \<and> set_keys b (off + c) (t_end_offset t) = Some ys \<and>
     length cs \<le> 1"

lemma insert_place_bounds:
  assumes "insert_place b t xs cs ys off c"
  shows "btree_bkey_first t \<le> off" "off + c \<le> t_end_offset t" "t_end_offset t \<le> length (b_data b)"
  using assms set_keys_le by (auto simp: insert_place_def bset_wf_def)

lemma set_keys_frame: "b_data b' = b_data b \<Longrightarrow> set_keys b' k e = set_keys b k e"
proof (induction b k e rule: set_keys.induct)
  case (1 b k e)
  show ?case using 1 by (subst (1 2) set_keys.simps) (auto simp: key_at_def)
qed

lemma node_frame:
  assumes "b_data b' = b_data b" "b_format b' = b_format b" "b_byte_order b' = b_byte_order b"
  shows "bset_wf b' t ks = bset_wf b t ks" "key_image b' k = key_image b k" "key_pos b' k = key_pos b k" "key_deleted b' k = key_deleted b k"
proof -
  show p: "key_pos b' k = key_pos b k" "key_deleted b' k = key_deleted b k" for k using assms by (simp_all add: key_pos_def key_deleted_def)
  have u: "key_u64s_at b' = key_u64s_at b" "key_valid b' = key_valid b" "key_whole b' = key_whole b" "keys_sorted b' = keys_sorted b"
    using assms p by (auto simp: fun_eq_iff key_u64s_at_def key_valid_def key_whole_def keys_sorted_def rank_def)
  show "key_image b' k = key_image b k" using assms u by (simp add: key_image_def)
  have "rw_tab b' t ks = rw_tab b t ks" using assms p by (simp add: rw_tab_def table_room_def tab_ok_def bset_rw_tree_capacity_def)
  then show "bset_wf b' t ks = bset_wf b t ks" using assms u set_keys_frame [OF assms(1)] by (simp add: bset_wf_def disk_u64s_def)
qed

lemma disk_u64s_bound: "disk_u64s b t = Some n \<Longrightarrow> n \<le> 65535"
proof -
  assume "disk_u64s b t = Some n"
  then obtain w :: u64 where "n = unat (drop_bit 48 w)" by (auto simp: disk_u64s_def bind_eq_Some_conv)
  moreover have "unat (drop_bit 48 w) = unat w div 2 ^ 48" by (subst unat_drop_bit_eq) (simp add: drop_bit_eq_div)
  moreover have "unat w < 2 ^ 64" using unsigned_less [where 'a = nat, of w] by simp
  ultimately show ?thesis by (simp add: less_mult_imp_div_less)
qed

lemma delete_as_resize:
  assumes "bset_tree_last b = Some t" "resize_hole b t off c 0 = Some (b1, t1)"
  shows "bch2_bset_delete b off c = do { t2 \<leftarrow> bch2_bset_fix_lookup_table b1 t1 off c 0; Some (replace_last_set b1 t2) }"
proof -
  obtain data n b2 where d: "move_tail (b_data b) (off + c) (off + 0) (btree_bkey_last t) = Some data" "disk_u64s (b\<lparr>b_data := data\<rparr>) t = Some n"
      "c \<le> n" "set_disk_u64s (b\<lparr>b_data := data\<rparr>) t (n - c) = Some b2" "set_btree_bset_end b2 t = Some t1" "b1 = b2"
    using assms(2) by (auto simp: resize_hole_def bind_eq_Some_conv Let_def)
  have "c mod 2 ^ 16 = c" using disk_u64s_bound [OF d(2)] d(3) by simp
  then show ?thesis using assms(1) d by (simp add: bch2_bset_delete_def Let_def)
qed

text \<open>The node below the header of the set is left alone.\<close>

definition below_kept :: "btree \<Rightarrow> btree \<Rightarrow> bset_tree \<Rightarrow> bool" where
  "below_kept b b' t \<longleftrightarrow> length (b_data b') = length (b_data b) \<and> (\<forall>i<t_data_offset t. b_data b' ! i = b_data b ! i)"

lemma bset_delete_ok:
  assumes p: "insert_place b t xs cs ys off c" and e: "t_end_offset t \<le> 65535"
  shows "\<exists>b' t'. bch2_bset_delete b off c = Some b' \<and> b_sets b' = butlast (b_sets b) @ [t'] \<and> same_format b b' \<and> b_nr b' = b_nr b \<and>
    below_kept b b' t \<and> bset_wf b' t' (edited_keys xs ys off c 0) \<and>
    map (key_image b') (edited_keys xs ys off c 0) = map (key_image b) xs @ map (key_image b) ys"
proof -
  define e' where "e' = t_end_offset t - (off + c) + (off + 0)"
  note le = insert_place_bounds [OF p]
  have f: "node_format_ok b" and wf: "bset_wf b t (xs @ cs @ ys)" and cs: "length cs \<le> 1" and lst: "b_sets b \<noteq> []" "last (b_sets b) = t"
    and part: "set_keys b (btree_bkey_first t) off = Some xs" "set_keys b off (off + c) = Some cs" "set_keys b (off + c) (t_end_offset t) = Some ys"
    using p by (auto simp: insert_place_def)
  have u: "disk_u64s b t = Some (t_end_offset t - btree_bkey_first t)" using wf by (simp add: bset_wf_def)
  have b': "e' \<le> 65535" "e' \<le> length (b_data b)" using le e by (auto simp: e'_def)
  obtain data where r: "resize_hole b t off c 0 = Some (b\<lparr>b_data := data\<rparr>, t\<lparr>t_end_offset := e'\<rparr>)" "length data = length (b_data b)"
      "disk_u64s (b\<lparr>b_data := data\<rparr>) t = Some (e' - btree_bkey_first t)"
      "\<forall>i<off. i \<noteq> t_data_offset t + 2 \<longrightarrow> data ! i = b_data b ! i"
      "\<forall>i<t_end_offset t - (off + c). data ! (off + 0 + i) = b_data b ! (off + c + i)"
    using resize_hole_ok [OF le(2,3,1) u e'_def b'] by (elim exE conjE) (rule that)
  let ?b = "b\<lparr>b_data := data\<rparr>"
  have de: "data_edit b ?b t off c []" unfolding data_edit_def using r le by auto
  have w: "new_key_ok (b_format b) [] POS_MIN" by (simp add: new_key_ok_def)
  have ord: "[] \<noteq> [] \<longrightarrow> (\<forall>x\<in>set xs. before b POS_MIN x) \<and> (\<forall>y\<in>set ys. \<not> before b POS_MIN y)" by simp
  have e0: "e' = t_end_offset t - (off + c) + (off + length [])" by (simp add: e'_def)
  obtain t' where t': "bch2_bset_fix_lookup_table ?b (t\<lparr>t_end_offset := e'\<rparr>) off c 0 = Some t'" "bset_wf ?b t' (edited_keys xs ys off c 0)"
    using edited_set_wf [OF f wf de part cs w ord e0 b'(1)] r(3) by auto
  have img: "map (key_image ?b) (edited_keys xs ys off c 0) = map (key_image b) xs @ map (key_image b) ys"
    using data_edit_keys(4) [OF f wf de part w ord refl refl] by simp
  let ?b' = "replace_last_set ?b t'"
  have "bch2_bset_delete b off c = Some ?b'"
    using delete_as_resize [OF _ r(1)] t'(1) lst by (simp add: bset_tree_last_def)
  moreover have "bset_wf ?b' t' (edited_keys xs ys off c 0)" "key_image ?b' = key_image ?b"
    using t'(2) node_frame [of ?b' ?b] by (auto simp: replace_last_set_def fun_eq_iff)
  moreover have "below_kept b ?b' t"
    using r(2,4) le(1) by (simp add: below_kept_def replace_last_set_def btree_bkey_first_def btree_bkey_first_offset_def)
  ultimately show ?thesis using img by (intro exI [of _ ?b'] exI [of _ t']) (simp add: replace_last_set_def same_format_def)
qed

lemma account_ok:
  assumes "length (nr_bset_u64s nr) = MAX_BSETS" "i < MAX_BSETS"
  shows "\<exists>nr'. btree_keys_account_key nr i src 1 = Some nr' \<and> nr_live_u64s nr' = nr_live_u64s nr + of_nat (unat (pk_u64s src)) \<and>
    length (nr_bset_u64s nr') = MAX_BSETS"
  using assms by (simp add: btree_keys_account_key_def nth_opt_def Let_def)

text \<open>The place of the new words, with the tail moved if the sizes differ.\<close>

lemma make_room_ok:
  assumes p: "insert_place b t xs cs ys off c" and e: "e' = t_end_offset t - (off + c) + (off + n)" "e' \<le> 65535" "e' \<le> length (b_data b)"
  shows "\<exists>data. (if n \<noteq> c then resize_hole (b\<lparr>b_nr := nr\<rparr>) t off c n else Some (b\<lparr>b_nr := nr\<rparr>, t)) =
      Some (b\<lparr>b_nr := nr, b_data := data\<rparr>, t\<lparr>t_end_offset := e'\<rparr>) \<and> length data = length (b_data b) \<and>
    disk_u64s (b\<lparr>b_data := data\<rparr>) t = Some (e' - btree_bkey_first t) \<and>
    (\<forall>i<off. i \<noteq> t_data_offset t + 2 \<longrightarrow> data ! i = b_data b ! i) \<and>
    (\<forall>i<t_end_offset t - (off + c). data ! (off + n + i) = b_data b ! (off + c + i))"
proof -
  note le = insert_place_bounds [OF p]
  have u: "disk_u64s b t = Some (t_end_offset t - btree_bkey_first t)" using p by (simp add: insert_place_def bset_wf_def)
  show ?thesis
  proof (cases "n = c")
    case True
    then have "e' = t_end_offset t" using e le by simp
    then show ?thesis using True u by (intro exI [of _ "b_data b"]) simp
  next
    case False
    let ?b = "b\<lparr>b_nr := nr\<rparr>"
    have "t_end_offset t \<le> length (b_data ?b)" "disk_u64s ?b t = Some (t_end_offset t - btree_bkey_first t)" "e' \<le> length (b_data ?b)"
      using le u e by (simp_all add: disk_u64s_def)
    from resize_hole_ok [OF le(2) this(1) le(1) this(2) e(1,2) this(3)] show ?thesis using False by (auto simp: disk_u64s_def)
  qed
qed

text \<open>A key replaced by one of the same size: the table is not touched, and stays right because the position is the same.\<close>

lemma edited_same_size:
  assumes f: "node_format_ok b" and wf: "bset_wf b t (xs @ cs @ ys)" and de: "data_edit b b' t off c w"
    and part: "set_keys b (btree_bkey_first t) off = Some xs" "set_keys b off (off + c) = Some cs" "set_keys b (off + c) (t_end_offset t) = Some ys"
    and cs: "length cs \<le> 1" and w: "new_key_ok (b_format b) w p" "w \<noteq> []"
    and ord: "w \<noteq> [] \<longrightarrow> (\<forall>x\<in>set xs. before b p x) \<and> (\<forall>y\<in>set ys. \<not> before b p y)" and same: "\<forall>x\<in>set cs. key_pos b x = p"
    and e': "e' = t_end_offset t - (off + c) + (off + length w)" and u: "disk_u64s b' t = Some (e' - btree_bkey_first t)" and c: "length w = c"
  shows "bset_wf b' (t\<lparr>t_end_offset := e'\<rparr>) (edited_keys xs ys off c (length w))"
proof -
  let ?ks = "edited_keys xs ys off c (length w)"
  have fv: "format_valid (b_format b)" using f by (simp add: node_format_ok_def)
  note k = data_edit_keys [OF f wf de part w(1) ord e' refl] and new = data_edit_new [OF de fv w]
  have "t_end_offset t = e'" using e' c set_keys_le [OF part(3)] by simp
  then have t: "t\<lparr>t_end_offset := e'\<rparr> = t" by simp
  have "cs \<noteq> []" using part(2) c w(2) by (auto simp: set_keys_Nil)
  then have cs1: "cs = [off]" using part(2) cs by (cases cs) (auto simp: set_keys_Cons)
  have ks: "?ks = xs @ cs @ ys"
    using c w(2) cs1 set_keys_bounds [OF part(3)] by (auto simp: edited_keys_def intro!: map_idI)
  have pos: "key_pos b' x = key_pos b x" if "x \<in> set (xs @ cs @ ys)" for x
  proof -
    have "x - (off + c) + (off + length w) = x" if "x \<in> set ys" using set_keys_bounds [OF part(3) that] c by simp
    then show ?thesis using that k(5,6) new(2) same cs1 by (metis Un_iff list.set_intros(1) set_append set_ConsD empty_iff list.set(1))
  qed
  have "rw_tab b' t ?ks" if "rw_tab b t (xs @ cs @ ys)"
  proof -
    have "tab_ok b' (btree_bkey_first t) ?ks (entries t)"
      by (rule tab_ok_mono [of b _ "xs @ cs @ ys"]) (use that pos ks in \<open>auto simp: rw_tab_def tab_ok_def\<close>)
    then show ?thesis using that de by (simp add: rw_tab_def table_room_def bset_rw_tree_capacity_def data_edit_def)
  qed
  then show ?thesis using wf k(1-3) u de \<open>t_end_offset t = e'\<close> by (auto simp: bset_wf_def t data_edit_def)
qed

lemma bset_insert_ok:
  assumes p: "insert_place b t xs cs ys off c" and nr: "length (b_sets b) \<le> MAX_BSETS" "length (nr_bset_u64s (b_nr b)) = MAX_BSETS"
    and k: "bkey_header_ok (b_format b) k" "length val = unat (k_u64s k) - BKEY_U64S"
    and room: "t_end_offset t + unat (k_u64s k) \<le> length (b_data b)" "t_end_offset t + unat (k_u64s k) \<le> 65535"
    and ord: "\<forall>x\<in>set xs. before b (k_p k) x" "\<forall>y\<in>set ys. \<not> before b (k_p k) y" "\<forall>x\<in>set cs. key_pos b x = k_p k"
  shows "\<exists>b' t' w. bch2_bset_insert b off k val c = Some b' \<and> b_sets b' = butlast (b_sets b) @ [t'] \<and> same_format b b' \<and> below_kept b b' t \<and>
    w \<noteq> [] \<and> bset_wf b' t' (edited_keys xs ys off c (length w)) \<and>
    map (key_image b') (edited_keys xs ys off c (length w)) = map (key_image b) xs @ [w] @ map (key_image b) ys \<and>
    key_pos b' off = k_p k \<and> (key_deleted b' off \<longleftrightarrow> k_type k = 0) \<and> drop (length w - length val) w = val \<and>
    (k_type k \<noteq> 0 \<longrightarrow> nr_live_u64s (b_nr b') = nr_live_u64s (b_nr b) + of_nat (length w))"
proof -
  note le = insert_place_bounds [OF p]
  have f: "node_format_ok b" "format_valid (b_format b)" and wf: "bset_wf b t (xs @ cs @ ys)" and cs: "length cs \<le> 1"
    and lst: "b_sets b \<noteq> []" "last (b_sets b) = t"
    and part: "set_keys b (btree_bkey_first t) off = Some xs" "set_keys b off (off + c) = Some cs" "set_keys b (off + c) (t_end_offset t) = Some ys"
    using p by (auto simp: insert_place_def node_format_ok_def)
  obtain ok packed where pack: "bch2_bkey_pack_key (replicate BKEY_PACKED_WORDS 0) k (b_format b) = Some (ok, packed)"
    and W: "let src = if ok then packed else bkey_words k @ val; w = written_words (b_format b) src val in
      unat (bkeyp_key_u64s (b_format b) src) \<le> length src \<and> unat (bkeyp_val_u64s (b_format b) src) = length val \<and> unat (pk_u64s src) = length w \<and>
      length w = unat (bkeyp_key_u64s (b_format b) src) + length val \<and> length w \<le> unat (k_u64s k) \<and>
      new_key_ok (b_format b) w (k_p k) \<and> w \<noteq> [] \<and> (bkey_deleted w \<longleftrightarrow> k_type k = 0) \<and> (bkey_is_packed w \<longleftrightarrow> bkey_is_packed src)"
    using written_words_ok [OF f(2) k] by blast
  define src where "src = (if ok then packed else bkey_words k @ val)"
  define w where "w = written_words (b_format b) src val"
  let ?ku = "unat (bkeyp_key_u64s (b_format b) src)"
  have w: "?ku \<le> length src" "unat (bkeyp_val_u64s (b_format b) src) = length val" "unat (pk_u64s src) = length w" "length w = ?ku + length val"
      "length w \<le> unat (k_u64s k)" "new_key_ok (b_format b) w (k_p k)" "w \<noteq> []" "bkey_deleted w \<longleftrightarrow> k_type k = 0"
    using W by (simp_all add: src_def w_def Let_def)
  have ws: "w = take ?ku src @ val" by (simp add: w_def written_words_def)
  obtain nr' where acc: "(if k_type k \<noteq> 0 then btree_keys_account_key (b_nr b) (length (b_sets b) - 1) src 1 else Some (b_nr b)) = Some nr'"
      "k_type k \<noteq> 0 \<longrightarrow> nr_live_u64s nr' = nr_live_u64s (b_nr b) + of_nat (length w)"
  proof (cases "k_type k = 0")
    case False
    have "length (b_sets b) - 1 < MAX_BSETS" using nr(1) lst(1) by (cases "b_sets b") auto
    from account_ok [OF nr(2) this, of src] show ?thesis using that False w(3) by auto
  qed (use that in simp)
  define e' where "e' = t_end_offset t - (off + c) + (off + length w)"
  have b': "e' \<le> 65535" "e' \<le> length (b_data b)" using le room w(5) by (auto simp: e'_def)
  obtain d1 where r: "(if length w \<noteq> c then resize_hole (b\<lparr>b_nr := nr'\<rparr>) t off c (length w) else Some (b\<lparr>b_nr := nr'\<rparr>, t)) =
        Some (b\<lparr>b_nr := nr', b_data := d1\<rparr>, t\<lparr>t_end_offset := e'\<rparr>)" "length d1 = length (b_data b)"
      "disk_u64s (b\<lparr>b_data := d1\<rparr>) t = Some (e' - btree_bkey_first t)"
      "\<forall>i<off. i \<noteq> t_data_offset t + 2 \<longrightarrow> d1 ! i = b_data b ! i"
      "\<forall>i<t_end_offset t - (off + c). d1 ! (off + length w + i) = b_data b ! (off + c + i)"
    using make_room_ok [OF p e'_def b', of nr'] by (elim exE conjE) (rule that)
  have fit: "off + length w \<le> length d1" using r(2) b' le by (simp add: e'_def)
  define data where "data = splice_words d1 off w"
  let ?b = "b\<lparr>b_nr := nr', b_data := data\<rparr>"
  have c1: "store_words d1 off (take ?ku src) = Some (splice_words d1 off (take ?ku src))"
    and c2: "store_words (splice_words d1 off (take ?ku src)) (off + ?ku) val = Some data"
    using fit w(1,4) splice_words_append [of off "take ?ku src" val d1] by (auto simp: store_words_def data_def ws)
  have h: "t_data_offset t + 2 < off" using le(1) by (simp add: btree_bkey_first_def btree_bkey_first_offset_def)
  have de: "data_edit b ?b t off c w"
    unfolding data_edit_def using r(2,4,5) fit b' le by (auto simp: data_def nth_splice_words e'_def)
  have u: "disk_u64s ?b t = Some (e' - btree_bkey_first t)" using r(3) h fit by (simp add: disk_u64s_def nth_opt_def data_def nth_splice_words)
  have ord': "w \<noteq> [] \<longrightarrow> (\<forall>x\<in>set xs. before b (k_p k) x) \<and> (\<forall>y\<in>set ys. \<not> before b (k_p k) y)" using ord by simp
  obtain t' where t': "bch2_bset_fix_lookup_table ?b (t\<lparr>t_end_offset := e'\<rparr>) off c (length w) = Some t'"
      "bset_wf ?b t' (edited_keys xs ys off c (length w))"
    using edited_set_wf [OF f(1) wf de part cs w(6) ord' e'_def b'(1) u] by blast
  note img = data_edit_keys(4) [OF f(1) wf de part w(6) ord' refl refl] and new = data_edit_new [OF de f(2) w(6,7)]
  obtain t2 where t2: "(if length w \<noteq> c then bch2_bset_fix_lookup_table ?b (t\<lparr>t_end_offset := e'\<rparr>) off c (length w) else Some (t\<lparr>t_end_offset := e'\<rparr>)) = Some t2"
      "bset_wf ?b t2 (edited_keys xs ys off c (length w))"
    using t' edited_same_size [OF f(1) wf de part cs w(6,7) ord' ord(3) e'_def u] by (cases "length w = c") auto
  let ?b' = "replace_last_set ?b t2"
  have "bch2_bset_insert b off k val c = Some ?b'"
  proof -
    have "bset_tree_last b = Some t" using lst by (simp add: bset_tree_last_def)
    moreover have "btree_bkey_first t \<le> off \<and> off \<le> btree_bkey_last t" using le by (simp add: btree_bkey_last_def)
    moreover have rec: "b_format (b\<lparr>b_nr := nr', b_data := d1\<rparr>) = b_format b" "b_data (b\<lparr>b_nr := nr', b_data := d1\<rparr>) = d1"
        "b\<lparr>b_nr := nr', b_data := d1\<rparr>\<lparr>b_data := data\<rparr> = ?b" by simp_all
    moreover have "require (?ku \<le> length src) = Some ()" "require (length val \<le> length val) = Some ()" "take (length val) val = val" using w(1) by simp_all
    moreover have "require (btree_bkey_first t \<le> off \<and> off \<le> btree_bkey_last t) = Some ()" using calculation(2) by simp
    ultimately show ?thesis
      using pack acc(1) r(1) w(2,3) c1 c2 t2(1)
      by (simp only: bch2_bset_insert_def bind.bind_lunit prod.case Let_def src_def [symmetric])
  qed
  moreover have "bset_wf ?b' t2 (edited_keys xs ys off c (length w))" "key_image ?b' = key_image ?b" "key_pos ?b' = key_pos ?b" "key_deleted ?b' = key_deleted ?b"
    using t2(2) node_frame [of ?b' ?b] by (auto simp: replace_last_set_def fun_eq_iff)
  moreover have "below_kept b ?b' t"
    using r(2,4) h fit by (simp add: below_kept_def replace_last_set_def data_def nth_splice_words)
  moreover have "drop (length w - length val) w = val" using w(1,4) by (simp add: ws)
  ultimately show ?thesis using img new w(7,8) acc(2) nr(1)
    by (intro exI [of _ ?b'] exI [of _ t2] exI [of _ w]) (simp add: replace_last_set_def same_format_def)
qed

text \<open>Keys with the same words are at the same position and equally deleted.\<close>

lemma image_same_key:
  assumes "node_format_ok b" "node_format_ok b'" "b_format b' = b_format b" "key_whole b k" "key_whole b' k'" "key_image b' k' = key_image b k"
  shows "key_pos b' k' = key_pos b k" "key_deleted b' k' = key_deleted b k"
proof -
  have n: "key_u64s_at b' k' = key_u64s_at b k"
    using arg_cong [OF assms(6), of length] assms(4,5) by (auto simp: key_image_def key_whole_def min_def split: if_splits)
  have "b_data b' ! (k' + i) = b_data b ! (k + i)" if "i < key_u64s_at b k" for i
    using arg_cong [OF assms(6), of "\<lambda>ws. ws ! i"] that n assms(4,5) by (simp add: key_image_def key_whole_def)
  then have "same_key b k b' k'" using assms(3,5) n by (simp add: same_key_def key_whole_def)
  from same_key_props [OF assms(1,2,4) this] show "key_pos b' k' = key_pos b k" "key_deleted b' k' = key_deleted b k" by auto
qed

section \<open>Theorems\<close>


text \<open>
  C5: Deleting a key of the last set of a node never panics; afterwards the set holds exactly the words of the other
  keys, in order, its lookup table and its header are right, and the rest of the node is untouched.\<close>

theorem bset_delete_refines:
  assumes "insert_place b t xs cs ys off c" "t_end_offset t \<le> 65535"
  shows "\<exists>b' t'. bch2_bset_delete b off c = Some b' \<and> b_sets b' = butlast (b_sets b) @ [t'] \<and> same_format b b' \<and> b_nr b' = b_nr b \<and>
    below_kept b b' t \<and> bset_wf b' t' (edited_keys xs ys off c 0) \<and>
    map (key_image b') (edited_keys xs ys off c 0) = map (key_image b) xs @ map (key_image b) ys"
  by (rule bset_delete_ok [OF assms])

text \<open>
  C6: A live key that has been inserted is found: in the node after the insertion, a lookup of the position of the key,
  through the lookup table and the linear search, returns the place of the key.\<close>

theorem bset_insert_then_search:
  assumes "insert_place b t xs cs ys off c" "length (b_sets b) \<le> MAX_BSETS" "length (nr_bset_u64s (b_nr b)) = MAX_BSETS"
    "bkey_header_ok (b_format b) k" "length val = unat (k_u64s k) - BKEY_U64S"
    "t_end_offset t + unat (k_u64s k) \<le> length (b_data b)" "t_end_offset t + unat (k_u64s k) \<le> 65535"
    "\<forall>x\<in>set xs. before b (k_p k) x" "\<forall>y\<in>set ys. \<not> before b (k_p k) y" "\<forall>x\<in>set cs. key_pos b x = k_p k"
    "k_type k \<noteq> 0" "field_sound (b_format b) 2" "prepare_search_key b (k_p k) = Some (ret, lossy)" "ret \<noteq> BKEY_PACK_POS_FAIL"
  shows "\<exists>b' t' m. bch2_bset_insert b off k val c = Some b' \<and> bset_tree_last b' = Some t' \<and>
    raw_bch2_bset_search b' t' (k_p k) lossy = Some m \<and>
    bch2_bset_search_linear b' t' (k_p k) (if ret = BKEY_PACK_POS_EXACT then Some lossy else None) (Some lossy) m = Some off"
proof -
  obtain b' t' w where i: "bch2_bset_insert b off k val c = Some b'" "b_sets b' = butlast (b_sets b) @ [t']" "same_format b b'" "w \<noteq> []"
      "bset_wf b' t' (edited_keys xs ys off c (length w))" "key_pos b' off = k_p k" "key_deleted b' off \<longleftrightarrow> k_type k = 0"
      "map (key_image b') (edited_keys xs ys off c (length w)) = map (key_image b) xs @ [w] @ map (key_image b) ys"
    using bset_insert_ok [OF assms(1-10)] by blast
  let ?ks = "edited_keys xs ys off c (length w)"
  have f': "node_format_ok b'" "field_sound (b_format b') 2" and p: "prepare_search_key b' (k_p k) = Some (ret, lossy)"
    using assms(1,12,13) i(3) by (auto simp: insert_place_def node_format_ok_def same_format_def prepare_search_key_def)
  have "before b' (k_p k) x" if "x \<in> set xs" for x
  proof -
    have f: "node_format_ok b" "b_format b' = b_format b" using assms(1) i(3) by (auto simp: insert_place_def same_format_def)
    have w: "key_whole b x" "key_whole b' x" using assms(1) i(5) that by (auto simp: insert_place_def bset_wf_def edited_keys_def)
    have "key_image b' x = key_image b x" using i(8) that by (auto simp: edited_keys_def)
    from image_same_key [OF f(1) f'(1) f(2) w this] show ?thesis using assms(8) that by (simp add: before_def)
  qed
  then have "first_not (before b' (k_p k)) ?ks (t_end_offset t') = off"
    using first_not_append [of xs] i(4,6,7) assms(11) by (simp add: edited_keys_def before_def)
  then show ?thesis
    using bset_search_first [OF f' bset_wf_set_ok [OF i(5)] p assms(14)] i(1,2) by (auto simp: bset_tree_last_def)
qed

section \<open>A concrete edit\<close>

definition demo_key :: bkey where
  "demo_key = \<lparr>k_u64s = 5, k_format = 1, k_type = 3, k_pad = 0, k_bversion = ZERO_VERSION, k_size = 0, k_p = SPOS 1 28 0\<rparr>"

lemma demo_wf: "bset_wf demo_node demo_set2 [21, 26]"
proof -
  have set2: "btree_bkey_first demo_set2 = 21" "t_end_offset demo_set2 = 31" "t_size demo_set2 = 2" "t_extra demo_set2 = BSET_RW_AUX_TREE_VAL"
    by (simp_all add: demo_set2_def btree_bkey_first_def btree_bkey_first_offset_def code_consts)
  have u: "key_u64s_at demo_node 21 = 5" "key_u64s_at demo_node 26 = 5" by (simp_all add: key_u64s_at_def demo_node_def pk_u64s_def)
  then have "key_whole demo_node 21" "key_whole demo_node 26"
    using demo_valid by (simp_all add: key_whole_def code_consts) (simp_all add: demo_node_def)
  moreover have order: "b_byte_order demo_node = 12" by (simp add: demo_node_def)
  moreover have "rw_tab demo_node demo_set2 [21, 26]"
    unfolding rw_tab_def table_room_def tab_ok_def entries_def set2
    by (simp add: bset_rw_tree_capacity_def sub_nat_def raw_btree_aux_data_bytes_def raw_btree_keys_cachelines_def code_consts)
      (simp add: demo_set2_def order)
  moreover have "disk_u64s demo_node demo_set2 = Some 10" by (simp add: disk_u64s_def demo_node_def demo_set2_def nth_opt_def)
  ultimately show ?thesis
    using demo_runs(2) set2 unfolding bset_wf_def run_ok_def by simp (simp add: demo_node_def)
qed

lemma demo_place: "insert_place demo_node demo_set2 [21] [] [26] 26 0" "insert_place demo_node demo_set2 [21] [26] [] 26 5"
proof -
  have k: "set_keys demo_node 21 26 = Some [21]" "set_keys demo_node 26 31 = Some [26]"
    using set_keys_split [of demo_node 21 31 "[21]" "[26]" 26] demo_keys(2) by auto
  then show "insert_place demo_node demo_set2 [21] [] [26] 26 0" "insert_place demo_node demo_set2 [21] [26] [] 26 5"
    using demo_wf demo_format(1) unfolding insert_place_def
    by (simp_all add: demo_set2_def btree_bkey_first_def btree_bkey_first_offset_def) (simp_all add: demo_node_def demo_set2_def)
qed

lemma demo_key_facts:
  "bkey_header_ok (b_format demo_node) demo_key" "length [] = unat (k_u64s demo_key) - BKEY_U64S"
  "length (b_sets demo_node) \<le> MAX_BSETS" "length (nr_bset_u64s (b_nr demo_node)) = MAX_BSETS"
  "t_end_offset demo_set2 + unat (k_u64s demo_key) \<le> length (b_data demo_node)" "t_end_offset demo_set2 + unat (k_u64s demo_key) \<le> 65535"
  "\<forall>x\<in>set [21]. before demo_node (k_p demo_key) x" "\<forall>y\<in>set [26]. \<not> before demo_node (k_p demo_key) y"
  "\<forall>x\<in>set []. key_pos demo_node x = k_p demo_key"
  by (simp_all add: demo_key_def bkey_header_ok_def demo_set2_def code_consts before_def less_bpos_def)
    (simp_all add: demo_node_def sample_format_def)


theorem bset_delete_refines_witness:
  "\<exists>b' t'. bch2_bset_delete demo_node 26 5 = Some b' \<and> bset_wf b' t' [21]"
proof -
  have "t_end_offset demo_set2 \<le> 65535" by (simp add: demo_set2_def)
  from bset_delete_refines [OF demo_place(2) this] show ?thesis by (auto simp: edited_keys_def)
qed

theorem bset_insert_then_search_witness:
  "\<exists>b' t' ret lossy m. bch2_bset_insert demo_node 26 demo_key [] 0 = Some b' \<and> bset_tree_last b' = Some t' \<and>
     bch2_bset_search_linear b' t' (SPOS 1 28 0) (if ret = BKEY_PACK_POS_EXACT then Some lossy else None) (Some lossy) m = Some 26"
proof -
  obtain ret lossy where r: "prepare_search_key demo_node (k_p demo_key) = Some (ret, lossy)" "ret \<noteq> BKEY_PACK_POS_FAIL"
    using demo_search_key by (auto simp: demo_key_def)
  have "k_type demo_key \<noteq> 0" by (simp add: demo_key_def)
  moreover have p: "k_p demo_key = SPOS 1 28 0" by (simp add: demo_key_def)
  ultimately show ?thesis
    using bset_insert_then_search [OF demo_place(1) demo_key_facts(3,4,1,2,5-9) _ demo_format(2) r] unfolding p by blast
qed

end
