(* ===== verification/Bkey_Transform.thy ===== *)
theory Bkey_Transform
  imports Bkey_Lossy
begin

text \<open>
  Repacking a key from one format into another, \<^verbatim>\<open>bch2_bkey_transform\<close> of \<^verbatim>\<open>btree/bkey.rs\<close>: the
  words it produces hold the same key and the same value.
\<close>

section \<open>Repacking\<close>

lemma transform_fields_eq:
  assumes "unpack_inv k in_st R" "fields_at (us_words in_st) R (fields_of in_f i vs)"
    "list_all (\<lambda>p. fst p \<le> 64) (fields_of in_f i vs)"
  shows "transform_fields out_f out_st in_f in_st [i..<i + length vs] = set_inc_fields out_f out_st i vs"
  using assms
proof (induction vs arbitrary: i in_st R out_st)
  case (Cons v vs)
  obtain in_st' where s: "get_inc_field in_f in_st i = Some (v, in_st')"
      "unpack_inv k in_st' (R - unat (f_bits in_f ! i))"
      "fields_at (us_words in_st') (R - unat (f_bits in_f ! i)) (fields_of in_f (Suc i) vs)"
    using get_inc_field_at [OF Cons.prems(1) Cons.prems(2) [unfolded fields_of.simps]] Cons.prems(3) by auto
  have "[i..<i + length (v # vs)] = i # [Suc i..<Suc i + length vs]" 
    using upt_conv_Cons [of i "i + length (v # vs)"] by simp
  then show ?case
    using s Cons.IH [OF s(2,3)] Cons.prems(3) by (simp add: case_prod_unfold cong: if_cong)
qed simp

lemma copy_words_ok:
  assumes "i + n \<le> length src" "j + n \<le> length dst"
  shows "\<exists>ws. copy_words src i dst j n = Some ws \<and> length ws = length dst \<and>
     take n (drop j ws) = take n (drop i src) \<and> (\<forall>m<j. ws ! m = dst ! m)"
  using assms by (simp add: copy_words_def nth_append)

lemma fields_at_take:
  assumes "fields_at ws (64 * n) fs" "\<forall>m<n. ws' ! m = ws ! m"
  shows "fields_at ws' (64 * n) fs"
  using assms(1) by (rule fields_at_cong) (use assms(2) in \<open>auto simp: gbit_def\<close>)

lemma key_fields_bounds:
  assumes "format_valid f"
  shows "list_all (\<lambda>p. fst p \<le> 64) (fields_of f 0 (bkey_field_values k))"
    "24 + sum_list (map fst (fields_of f 0 (bkey_field_values k))) \<le> 64 * unat (f_key_u64s f)"
  using widths_le [OF assms, of "bkey_field_values k"] by (simp_all add: bkey_field_values_def)

lemma packed_as_header_copy:
  assumes f: "format_valid f" and ws: "unat (f_key_u64s f) \<le> length ws"
    and n: "unat (f_key_u64s f) + (unat (k_u64s k) - BKEY_U64S) \<le> 255"
    and k: "k_format k AND 0x7f = KEY_FORMAT_CURRENT" "BKEY_U64S \<le> unat (k_u64s k)" and ne: "vw \<noteq> []"
    and at: "fields_at vw (64 * unat (f_key_u64s f)) (fields_of f 0 (bkey_field_values k))"
    and same: "\<forall>m<unat (f_key_u64s f). ws ! m =
      pk_set_header vw (of_nat (unat (f_key_u64s f) + (unat (k_u64s k) - BKEY_U64S))) (k_format k AND 0x80) (k_type k) ! m"
  shows "packed_as f ws k"
proof -
  let ?n = "unat (f_key_u64s f) + (unat (k_u64s k) - BKEY_U64S)"
  let ?h = "pk_set_header vw (of_nat ?n) (k_format k AND 0x80) (k_type k)"
  have "unat (of_nat ?n :: u8) = ?n" using n by (intro unat_of_nat_small) simp
  moreover have "ws ! 0 = ?h ! 0" using same f by (simp add: format_valid_def word_gt_0 unat_gt_0)
  then have "pk_u64s ws = pk_u64s ?h" "pk_format ws = pk_format ?h" "pk_type ws = pk_type ?h"
    by (simp_all add: pk_u64s_def pk_format_def pk_type_def)
  moreover have "fields_at ws (64 * unat (f_key_u64s f)) (fields_of f 0 (bkey_field_values k))"
    using fields_at_set_header [OF at ne key_fields_bounds(2) [OF f]] same by (rule fields_at_take)
  ultimately show ?thesis using ws k ne by (simp add: packed_as_def)
qed

text \<open>
  C27: \<^verbatim>\<open>bch2_bkey_transform\<close> repacks any key that is packed in a valid format into another valid
  format: it succeeds exactly when every field fits the new format, and then the output holds
  the same key (it unpacks to it) followed by the same value words.
\<close>

theorem bkey_transform_preserves_key:
  assumes "format_valid in_f" "format_valid out_f" "packed_as in_f input k"
    and "unat (pk_u64s input) \<le> length input"
    and "unat (f_key_u64s out_f) + (unat (k_u64s k) - BKEY_U64S) \<le> min 255 (length out)"
  shows "\<exists>ws. bch2_bkey_transform out_f out in_f input = Some (fields_fit out_f 0 (bkey_field_values k), ws) \<and>
    (fields_fit out_f 0 (bkey_field_values k) \<longrightarrow>
       packed_as out_f ws k \<and> raw_bch2_bkey_unpack_key out_f ws = Some (k\<lparr>k_pad := 0\<rparr>) \<and>
       take (unat (k_u64s k) - BKEY_U64S) (drop (unat (f_key_u64s out_f)) ws) =
       take (unat (k_u64s k) - BKEY_U64S) (drop (unat (f_key_u64s in_f)) input))"
proof -
  let ?vs = "bkey_field_values k" and ?ki = "unat (f_key_u64s in_f)" and ?ko = "unat (f_key_u64s out_f)"
  let ?n = "unat (k_u64s k) - BKEY_U64S"
  have p: "?ki \<le> length input" "unat (pk_u64s input) = ?ki + ?n" "pk_format input = k_format k AND 0x80"
      "pk_type input = k_type k" "fields_at input (64 * ?ki) (fields_of in_f 0 ?vs)"
      "k_format k AND 0x7f = KEY_FORMAT_CURRENT" "BKEY_U64S \<le> unat (k_u64s k)"
    using assms(3) by (auto simp: packed_as_def)
  have ko: "?ko \<le> length out" "f_key_u64s out_f \<noteq> 0" using assms(2,5) by (auto simp: format_valid_def)
  have ki: "f_key_u64s in_f \<noteq> 0" "?ki \<le> BKEY_PACKED_WORDS" using assms(1) by (auto simp: format_valid_def)
  obtain in_st where in_st: "unpack_state_init in_f input = Some in_st" "unpack_inv ?ki in_st (64 * ?ki)"
      "us_words in_st = input"
    using unpack_state_init_ok [OF ki p(1)] by blast
  have vs: "length ?vs = 6" by (simp add: bkey_field_values_def)
  then obtain st0 st where run: "pack_state_init out_f out = Some st0" "ps_words st0 = out"
      "set_inc_fields out_f (st0\<lparr>ps_words := zero_words ?ko (ps_words st0)\<rparr>) 0 ?vs
       = Some (fields_fit out_f 0 ?vs, st)" "length (ps_words st) = length out"
    and fit: "fields_fit out_f 0 ?vs \<longrightarrow> pack_state_finish out_f st = Some (pack_view st) \<and>
        fields_at (pack_view st) (64 * ?ko) (fields_of out_f 0 ?vs)"
    using pack_fields_ok [OF assms(2) ko(1), of ?vs] by auto
  have "[0..<0 + length ?vs] = [0, 1, 2, 3, 4, 5]" by (simp add: vs upt_rec)
  then have tf: "transform_fields out_f (st0\<lparr>ps_words := zero_words ?ko (ps_words st0)\<rparr>) in_f in_st [0, 1, 2, 3, 4, 5]
      = Some (fields_fit out_f 0 ?vs, st)"
    using transform_fields_eq [OF in_st(2) p(5) [folded in_st(3)] key_fields_bounds(1) [OF assms(1)], of out_f] run(3)
    by metis
  have out_n: "unat (of_nat (?ko + ?n) :: u8) = ?ko + ?n" using assms(5) by (intro unat_of_nat_small) simp
  define ws0 where "ws0 = pk_set_header (pack_view st) (of_nat (?ko + ?n)) (k_format k AND 0x80) (k_type k)"
  have ne: "pack_view st \<noteq> []" using ko run(4) by (metis length_0_conv length_pack_view le_zero_eq unat_eq_0)
  have len: "length ws0 = length out" by (simp add: ws0_def run(4))
  obtain ws where ws: "copy_words input ?ki ws0 ?ko ?n = Some ws" "length ws = length out"
      "take ?n (drop ?ko ws) = take ?n (drop ?ki input)" "\<forall>m<?ko. ws ! m = ws0 ! m"
    using copy_words_ok [of ?ki ?n input ?ko ws0] assms(4,5) p(2) len by auto
  have "packed_as out_f ws k" if "fields_fit out_f 0 ?vs"
  proof (rule packed_as_header_copy [OF assms(2) _ _ p(6,7) ne])
    show "fields_at (pack_view st) (64 * ?ko) (fields_of out_f 0 ?vs)" using fit that by blast
  qed (use ws(2,4) ko(1) assms(5) in \<open>auto simp: ws0_def\<close>)
  moreover have "bch2_bkey_transform out_f out in_f input = Some (fields_fit out_f 0 ?vs,
      if fields_fit out_f 0 ?vs then ws else ps_words st)"
  proof -
    have hdr: "f_key_u64s in_f \<le> pk_u64s input" "unat (pk_u64s input) - ?ki = ?n" "?ko + ?n \<le> 255"
        "pk_format input AND 0x80 = k_format k AND 0x80"
      using p assms(5) by (simp_all add: word_le_nat_alt word_bw_assocs)
    show ?thesis
      unfolding bch2_bkey_transform_def Let_def hdr(2)
      using fit ws(1) by (cases "fields_fit out_f 0 ?vs")
        (simp_all add: run(1) in_st(1) tf [unfolded One_nat_def] hdr p(4) ws0_def del: of_nat_add transform_fields.simps)
  qed
  ultimately show ?thesis using ws(3) packed_as_unpack(1) [OF assms(2)] by auto
qed

definition wide_format :: bkey_format where
  "wide_format = \<lparr>f_key_u64s = 4, f_nr_fields = 6, f_bits = [64, 64, 32, 32, 0, 0], f_offset = replicate 6 0\<rparr>"

theorem bkey_transform_preserves_key_witness:
  "\<exists>input ws. packed_as sample_format input sample_key \<and>
     bch2_bkey_transform wide_format (replicate 5 0) sample_format input = Some (True, ws) \<and>
     raw_bch2_bkey_unpack_key wide_format ws = Some sample_key"
proof -
  have out: "unat (f_key_u64s sample_format) \<le> length (replicate 5 (0::u64))" by (simp add: sample_format_def)
  obtain input where pk: "bch2_bkey_pack_key (replicate 5 0) sample_key sample_format = Some (True, input)"
      "length input = 5"
    using bch2_bkey_pack_key_cases [OF sample_format_valid out sample_key_header] sample_key_fits by auto
  have p: "packed_as sample_format input sample_key"
    by (rule pack_key_packed_as [OF sample_format_valid out sample_key_header pk(1)])
  have w: "format_valid wide_format" by (simp add: format_valid_def wide_format_def code_consts)
  have fit: "fields_fit wide_format 0 (bkey_field_values sample_key)"
    by (simp add: field_fits_def wide_format_def sample_key_def bkey_init_def bkey_field_values_def ZERO_VERSION_def
        bit_len_le_iff)
  have u: "unat (pk_u64s input) \<le> length input"
    using p pk(2) by (simp add: packed_as_def sample_format_def sample_key_def bkey_init_def code_consts)
  have n: "unat (f_key_u64s wide_format) + (unat (k_u64s sample_key) - BKEY_U64S) \<le> min 255 (length (replicate 5 (0::u64)))"
    by (simp add: wide_format_def sample_key_def bkey_init_def code_consts)
  have pad: "sample_key\<lparr>k_pad := 0\<rparr> = sample_key" by (simp add: sample_key_def bkey_init_def)
  show ?thesis
    using bkey_transform_preserves_key [OF sample_format_valid w p u n] fit p by (auto simp: pad)
qed

end
