(* ===== verification/Checksum.thy ===== *)
theory Checksum
  imports Prelude
begin

unbundle bit_operations_syntax

text \<open>
  Checksums, \<^verbatim>\<open>checksum.rs\<close>: the table-driven CRC32C and CRC64, the 64-bit xxHash and the
  checksum of a concatenation computed from the checksums of its parts. The lengths of slices
  are natural numbers; a slice expression whose range leaves the slice is a panic.
\<close>

section \<open>CRC tables and loops\<close>

definition crc32c_bit :: "u32 \<Rightarrow> u32" where
  "crc32c_bit crc = (if crc AND 1 \<noteq> 0 then drop_bit 1 crc XOR 0x82f63b78 else drop_bit 1 crc)"

definition CRC32C_TABLE :: "u32 list" where
  "CRC32C_TABLE = map (\<lambda>i. (crc32c_bit ^^ 8) (of_nat i)) [0..<256]"

definition crc64_bit :: "u64 \<Rightarrow> u64" where
  "crc64_bit crc = (if crc AND push_bit 63 1 \<noteq> 0 then push_bit 1 crc XOR 0x42f0e1eba9ea3693 else push_bit 1 crc)"

definition CRC64_TABLE :: "u64 list" where
  "CRC64_TABLE = map (\<lambda>i. (crc64_bit ^^ 8) (push_bit 56 (of_nat i))) [0..<256]"

definition crc32c :: "u32 \<Rightarrow> u8 list \<Rightarrow> u32" where
  "crc32c crc data =
     fold (\<lambda>byte crc. CRC32C_TABLE ! unat ((crc XOR ucast byte) AND 0xff) XOR drop_bit 8 crc) data crc"

definition crc64_be :: "u64 \<Rightarrow> u8 list \<Rightarrow> u64" where
  "crc64_be crc data =
     fold (\<lambda>byte crc. CRC64_TABLE ! unat ((drop_bit 56 crc XOR ucast byte) AND 0xff) XOR push_bit 8 crc) data crc"

section \<open>xxHash\<close>

definition PRIME64_1 :: u64 where "PRIME64_1 = 11400714785074694791"
definition PRIME64_2 :: u64 where "PRIME64_2 = 14029467366897019727"
definition PRIME64_3 :: u64 where "PRIME64_3 = 1609587929392839161"
definition PRIME64_4 :: u64 where "PRIME64_4 = 9650029242287828579"
definition PRIME64_5 :: u64 where "PRIME64_5 = 2870177450012600261"

definition rotl64 :: "u64 \<Rightarrow> nat \<Rightarrow> u64" where
  "rotl64 x n = push_bit n x OR drop_bit (64 - n) x"

definition xxh64_round :: "u64 \<Rightarrow> u64 \<Rightarrow> u64" where
  "xxh64_round acc input = rotl64 (acc + input * PRIME64_2) 31 * PRIME64_1"

definition xxh64_merge_round :: "u64 \<Rightarrow> u64 \<Rightarrow> u64" where
  "xxh64_merge_round acc val = (acc XOR xxh64_round 0 val) * PRIME64_1 + PRIME64_4"

fun from_le_bytes :: "u8 list \<Rightarrow> u64" where
  "from_le_bytes [] = 0"
| "from_le_bytes (b # bs) = ucast b OR push_bit 8 (from_le_bytes bs)"

definition slice_opt :: "'a list \<Rightarrow> nat \<Rightarrow> nat \<Rightarrow> 'a list option" where
  "slice_opt xs i n = (if i + n \<le> length xs then Some (take n (drop i xs)) else None)"

text \<open>The four accumulators of the 32-byte loop.\<close>

type_synonym xxh_acc = "u64 \<times> u64 \<times> u64 \<times> u64"

definition xxh64_stripe :: "u8 list \<Rightarrow> nat \<Rightarrow> xxh_acc \<Rightarrow> xxh_acc option" where
  "xxh64_stripe input off = (\<lambda>(v1, v2, v3, v4).
     do { w1 \<leftarrow> slice_opt input off 8;
          w2 \<leftarrow> slice_opt input (off + 8) 8;
          w3 \<leftarrow> slice_opt input (off + 16) 8;
          w4 \<leftarrow> slice_opt input (off + 24) 8;
          Some (xxh64_round v1 (from_le_bytes w1), xxh64_round v2 (from_le_bytes w2),
                xxh64_round v3 (from_le_bytes w3), xxh64_round v4 (from_le_bytes w4)) })"

function xxh64_stripes :: "u8 list \<Rightarrow> nat \<Rightarrow> nat \<Rightarrow> xxh_acc \<Rightarrow> (nat \<times> xxh_acc) option" where
  "xxh64_stripes input limit off v =
     (case xxh64_stripe input off v of
        None \<Rightarrow> None
      | Some v \<Rightarrow> if limit < off + 32 then Some (off + 32, v) else xxh64_stripes input limit (off + 32) v)"
  by pat_completeness auto
termination by (relation "measure (\<lambda>(_, limit, off, _). limit + 1 - off)") auto

function xxh64_words :: "u8 list \<Rightarrow> nat \<Rightarrow> u64 \<Rightarrow> nat \<times> u64" where
  "xxh64_words input off hash =
     (if off + 8 \<le> length input
      then xxh64_words input (off + 8)
             (rotl64 (hash XOR xxh64_round 0 (from_le_bytes (take 8 (drop off input)))) 27 * PRIME64_1 + PRIME64_4)
      else (off, hash))"
  by pat_completeness auto
termination by (relation "measure (\<lambda>(input, off, _). length input - off)") auto

function xxh64_bytes :: "u8 list \<Rightarrow> nat \<Rightarrow> u64 \<Rightarrow> u64" where
  "xxh64_bytes input off hash =
     (if off < length input
      then xxh64_bytes input (off + 1) (rotl64 (hash XOR ucast (input ! off) * PRIME64_5) 11 * PRIME64_1)
      else hash)"
  by pat_completeness auto
termination by (relation "measure (\<lambda>(input, off, _). length input - off)") auto

declare xxh64_stripes.simps [simp del] xxh64_words.simps [simp del] xxh64_bytes.simps [simp del]

definition xxh64_init :: "u64 \<Rightarrow> xxh_acc" where
  "xxh64_init seed = (seed + PRIME64_1 + PRIME64_2, seed + PRIME64_2, seed, seed - PRIME64_1)"

definition xxh64_converge :: "xxh_acc \<Rightarrow> u64" where
  "xxh64_converge = (\<lambda>(v1, v2, v3, v4).
     let hash = rotl64 v1 1 + rotl64 v2 7 + rotl64 v3 12 + rotl64 v4 18;
         hash = xxh64_merge_round hash v1;
         hash = xxh64_merge_round hash v2;
         hash = xxh64_merge_round hash v3
     in xxh64_merge_round hash v4)"

definition xxh64_half :: "u8 list \<Rightarrow> nat \<Rightarrow> u64 \<Rightarrow> nat \<times> u64" where
  "xxh64_half input off hash =
     (if off + 4 \<le> length input
      then (off + 4, rotl64 (hash XOR from_le_bytes (take 4 (drop off input)) * PRIME64_1) 23 * PRIME64_2 + PRIME64_3)
      else (off, hash))"

definition xxh64_avalanche :: "u64 \<Rightarrow> u64" where
  "xxh64_avalanche hash =
     (let hash = (hash XOR drop_bit 33 hash) * PRIME64_2;
          hash = (hash XOR drop_bit 29 hash) * PRIME64_3
      in hash XOR drop_bit 32 hash)"

definition xxh64 :: "u8 list \<Rightarrow> u64 \<Rightarrow> u64 option" where
  "xxh64 input seed =
     do { (off, hash) \<leftarrow>
            (if 32 \<le> length input
             then do { (off, v) \<leftarrow> xxh64_stripes input (length input - 32) 0 (xxh64_init seed);
                       Some (off, xxh64_converge v) }
             else Some (0, seed + PRIME64_5));
          let hash = hash + of_nat (length input);
          let (off, hash) = xxh64_words input off hash;
          let (off, hash) = xxh64_half input off hash;
          Some (xxh64_avalanche (xxh64_bytes input off hash)) }"

section \<open>Checksums by type\<close>

record bch_csum =
  csum_lo :: u64
  csum_hi :: u64

definition BCH_CSUM_none :: u32 where [code_consts]: "BCH_CSUM_none = 0"
definition BCH_CSUM_crc32c_nonzero :: u32 where [code_consts]: "BCH_CSUM_crc32c_nonzero = 1"
definition BCH_CSUM_crc64_nonzero :: u32 where [code_consts]: "BCH_CSUM_crc64_nonzero = 2"
definition BCH_CSUM_crc32c :: u32 where [code_consts]: "BCH_CSUM_crc32c = 5"
definition BCH_CSUM_crc64 :: u32 where [code_consts]: "BCH_CSUM_crc64 = 6"
definition BCH_CSUM_xxhash :: u32 where [code_consts]: "BCH_CSUM_xxhash = 7"

definition bch2_checksum_mergeable :: "u32 \<Rightarrow> bool" where
  "bch2_checksum_mergeable ty \<longleftrightarrow> ty = BCH_CSUM_none \<or> ty = BCH_CSUM_crc32c \<or> ty = BCH_CSUM_crc64"

function checksum_zeroes :: "u32 \<Rightarrow> u64 \<Rightarrow> nat \<Rightarrow> u64 option" where
  "checksum_zeroes ty seed b_len =
     (if b_len = 0 then Some seed
      else let n = min b_len 4096 in
      if ty = BCH_CSUM_none then checksum_zeroes ty 0 (b_len - n)
      else if ty = BCH_CSUM_crc32c then checksum_zeroes ty (ucast (crc32c (ucast seed) (replicate n 0))) (b_len - n)
      else if ty = BCH_CSUM_crc64 then checksum_zeroes ty (crc64_be seed (replicate n 0)) (b_len - n)
      else None)"
  by pat_completeness auto
termination by (relation "measure (\<lambda>(_, _, n). n)") auto

declare checksum_zeroes.simps [simp del]

definition bch2_checksum_merge :: "u32 \<Rightarrow> bch_csum \<Rightarrow> bch_csum \<Rightarrow> nat \<Rightarrow> bch_csum option" where
  "bch2_checksum_merge ty a b b_len =
     do { require (bch2_checksum_mergeable ty);
          seed \<leftarrow> checksum_zeroes ty (csum_lo a) b_len;
          Some \<lparr>csum_lo = seed XOR csum_lo b, csum_hi = csum_hi a XOR csum_hi b\<rparr> }"

definition bch2_checksum :: "u32 \<Rightarrow> u8 list \<Rightarrow> bch_csum option" where
  "bch2_checksum ty data =
     do { v \<leftarrow>
            (if ty = BCH_CSUM_none then Some 0
             else if ty = BCH_CSUM_crc32c_nonzero then Some (ucast (crc32c (- 1) data) XOR 0xffffffff)
             else if ty = BCH_CSUM_crc64_nonzero then Some (crc64_be (- 1) data XOR - 1)
             else if ty = BCH_CSUM_crc32c then Some (ucast (crc32c 0 data))
             else if ty = BCH_CSUM_crc64 then Some (crc64_be 0 data)
             else if ty = BCH_CSUM_xxhash then xxh64 data 0
             else Some 0);
          Some \<lparr>csum_lo = v, csum_hi = 0\<rparr> }"

section \<open>Checksums that are linear in their data\<close>

text \<open>
  The interface the merge relies on: the register is updated byte by byte, and the update is
  linear over bitwise exclusive or. From these two laws alone the checksum of a concatenation is
  the first register run over as many zero bytes as the second part has, xor the second checksum.
\<close>

locale linear_checksum =
  fixes step :: "u8 \<Rightarrow> 'w::len word \<Rightarrow> 'w word"
  assumes step_xor: "step (a XOR b) (x XOR y) = step a x XOR step b y"
begin

lemma step_zero: "step 0 0 = 0"
  using step_xor [of 0 0 0 0] by simp

lemma run_xor:
  "length xs = length ys \<Longrightarrow> fold step (map2 (XOR) xs ys) (x XOR y) = fold step xs x XOR fold step ys y"
  by (induction xs ys arbitrary: x y rule: list_induct2) (simp_all add: step_xor)

lemma map2_xor_zero: "map2 (XOR) (replicate (length ys) 0) ys = (ys :: u8 list)"
  by (induction ys) simp_all

lemma run_split: "fold step ys x = fold step (replicate (length ys) 0) x XOR fold step ys 0"
  using run_xor [of "replicate (length ys) 0" ys x 0] by (simp add: map2_xor_zero)

lemma run_append: "fold step (xs @ ys) x = fold step (replicate (length ys) 0) (fold step xs x) XOR fold step ys 0"
  using run_split [of ys "fold step xs x"] by simp

lemma run_zeroes_add:
  "fold step (replicate m 0) (fold step (replicate n 0) x) = fold step (replicate (n + m) 0) x"
  by (simp add: replicate_add)

end

section \<open>The tables compute the bit-serial division\<close>

text \<open>The reference: feed one byte into the low (high) end of the register and divide by the
  generator polynomial bit by bit.\<close>

definition crc32c_step :: "u8 \<Rightarrow> u32 \<Rightarrow> u32" where
  "crc32c_step byte crc = (crc32c_bit ^^ 8) (crc XOR ucast byte)"

definition crc64_step :: "u8 \<Rightarrow> u64 \<Rightarrow> u64" where
  "crc64_step byte crc = (crc64_bit ^^ 8) (crc XOR push_bit 56 (ucast byte))"

lemma and_1_bit: "x AND 1 \<noteq> 0 \<longleftrightarrow> bit x 0" for x :: "'a::len word"
  using and_exp_eq_0_iff_not_bit [of x 0] by simp

lemma and_top_bit: "x AND push_bit 63 1 \<noteq> 0 \<longleftrightarrow> bit x 63" for x :: u64
  using and_exp_eq_0_iff_not_bit [of x 63] by (simp only: push_bit_of_1 not_not)

lemma crc32c_bit_alt: "crc32c_bit x = drop_bit 1 x XOR (if bit x 0 then 0x82f63b78 else 0)"
  by (simp only: crc32c_bit_def and_1_bit) simp

lemma crc64_bit_alt: "crc64_bit x = push_bit 1 x XOR (if bit x 63 then 0x42f0e1eba9ea3693 else 0)"
  by (simp only: crc64_bit_def and_top_bit) simp

lemma crc32c_bit_xor: "crc32c_bit (x XOR y) = crc32c_bit x XOR crc32c_bit y"
  by (simp only: crc32c_bit_alt drop_bit_xor bit_xor_iff)
     (cases "bit x 0"; cases "bit y 0"; simp add: ac_simps)

lemma crc64_bit_xor: "crc64_bit (x XOR y) = crc64_bit x XOR crc64_bit y"
  by (simp only: crc64_bit_alt push_bit_xor bit_xor_iff)
     (cases "bit x 63"; cases "bit y 63"; simp add: ac_simps)

lemma funpow_xor:
  fixes g :: "'a::len word \<Rightarrow> 'a word"
  assumes "\<And>x y. g (x XOR y) = g x XOR g y"
  shows "(g ^^ n) (x XOR y) = (g ^^ n) x XOR (g ^^ n) y"
  by (induction n) (simp_all add: assms)

lemma crc32c_bits_low:
  "(\<forall>i<n. \<not> bit x i) \<Longrightarrow> (crc32c_bit ^^ n) x = drop_bit n x"
proof (induction n)
  case (Suc n)
  then have "(crc32c_bit ^^ n) x = drop_bit n x" by simp
  moreover have "\<not> bit (drop_bit n x) 0" using Suc.prems by (simp add: bit_drop_bit_eq)
  ultimately show ?case by (simp add: crc32c_bit_alt [of "drop_bit n x"])
qed simp

lemma crc64_bits_high:
  "n \<le> 64 \<Longrightarrow> (\<forall>i<n. \<not> bit x (63 - i)) \<Longrightarrow> (crc64_bit ^^ n) x = push_bit n x"
proof (induction n)
  case (Suc n)
  then have "(crc64_bit ^^ n) x = push_bit n x" by simp
  moreover have "\<not> bit (push_bit n x) 63" using Suc.prems by (simp add: bit_push_bit_iff)
  ultimately show ?case by (simp add: crc64_bit_alt [of "push_bit n x"])
qed simp

lemma table_index: "unat (x AND 0xff) < 256" for x :: "'a::len word"
proof -
  have "x AND 0xff = take_bit 8 x" by (simp add: take_bit_eq_mask mask_numeral)
  moreover have "unat (take_bit 8 x) = take_bit 8 (unat x)" by (rule unsigned_take_bit_eq)
  ultimately show ?thesis by (simp add: take_bit_eq_mod)
qed

lemma split_low: "x = (x AND 0xff) XOR (x AND NOT 0xff)" for x :: "'a::len word"
  by (rule bit_word_eqI) (auto simp: bit_simps)

lemma crc32c_step_table:
  "CRC32C_TABLE ! unat ((crc XOR ucast byte) AND 0xff) XOR drop_bit 8 crc = crc32c_step byte crc"
proof -
  let ?x = "crc XOR ucast byte"
  have mask: "(0xff :: u32) = mask 8" by (simp add: mask_numeral)
  have "(crc32c_bit ^^ 8) ?x = (crc32c_bit ^^ 8) (?x AND 0xff) XOR (crc32c_bit ^^ 8) (?x AND NOT 0xff)"
    by (subst (1) split_low [of ?x]) (rule funpow_xor [OF crc32c_bit_xor])
  also have "(crc32c_bit ^^ 8) (?x AND NOT 0xff) = drop_bit 8 (?x AND NOT 0xff)"
    by (rule crc32c_bits_low) (simp only: mask bit_and_iff bit_not_iff bit_mask_iff, simp)
  also have "drop_bit 8 (?x AND NOT 0xff) = drop_bit 8 crc"
    unfolding mask by (rule bit_word_eqI) (auto simp: bit_simps dest: bit_imp_le_length)
  also have "(crc32c_bit ^^ 8) (?x AND 0xff) = CRC32C_TABLE ! unat (?x AND 0xff)"
    using table_index [of ?x] by (simp add: CRC32C_TABLE_def)
  finally show ?thesis by (simp add: crc32c_step_def)
qed

lemma crc64_step_table:
  "CRC64_TABLE ! unat ((drop_bit 56 crc XOR ucast byte) AND 0xff) XOR push_bit 8 crc = crc64_step byte crc"
proof -
  let ?x = "crc XOR push_bit 56 (ucast byte)" and ?i = "(drop_bit 56 crc XOR ucast byte) AND 0xff"
  have mask: "(0xff :: u64) = mask 8" by (simp add: mask_numeral)
  have split: "?x = push_bit 56 ?i XOR take_bit 56 crc"
    unfolding mask by (rule bit_word_eqI) (auto simp: bit_simps)
  have "(crc64_bit ^^ 8) ?x = (crc64_bit ^^ 8) (push_bit 56 ?i) XOR (crc64_bit ^^ 8) (take_bit 56 crc)"
    by (subst split) (rule funpow_xor [OF crc64_bit_xor])
  also have "(crc64_bit ^^ 8) (take_bit 56 crc) = push_bit 8 (take_bit 56 crc)"
    by (rule crc64_bits_high) (auto simp: bit_take_bit_iff)
  also have "push_bit 8 (take_bit 56 crc) = push_bit 8 crc"
    by (rule bit_word_eqI) (auto simp: bit_simps)
  also have "(crc64_bit ^^ 8) (push_bit 56 ?i) = CRC64_TABLE ! unat ?i"
    using table_index [of "drop_bit 56 crc XOR ucast byte"] by (simp add: CRC64_TABLE_def)
  finally show ?thesis by (simp add: crc64_step_def)
qed

lemma crc32c_fold: "crc32c crc data = fold crc32c_step data crc"
  unfolding crc32c_def crc32c_step_table by simp

lemma crc64_be_fold: "crc64_be crc data = fold crc64_step data crc"
  unfolding crc64_be_def crc64_step_table by simp

interpretation crc32: linear_checksum crc32c_step
proof
  show "crc32c_step (a XOR b) (x XOR y) = crc32c_step a x XOR crc32c_step b y" for a b x y
  proof -
    have "(x XOR y) XOR ucast (a XOR b) = (x XOR ucast a) XOR (y XOR ucast b)"
      by (rule bit_word_eqI) (auto simp: bit_simps)
    then show ?thesis by (simp only: crc32c_step_def funpow_xor [OF crc32c_bit_xor])
  qed
qed

interpretation crc64: linear_checksum crc64_step
proof
  show "crc64_step (a XOR b) (x XOR y) = crc64_step a x XOR crc64_step b y" for a b x y
  proof -
    have "(x XOR y) XOR push_bit 56 (ucast (a XOR b)) = (x XOR push_bit 56 (ucast a)) XOR (y XOR push_bit 56 (ucast b))"
      by (rule bit_word_eqI) (auto simp: bit_simps)
    then show ?thesis by (simp only: crc64_step_def funpow_xor [OF crc64_bit_xor])
  qed
qed

section \<open>Merging\<close>

lemma checksum_zeroes_none: "checksum_zeroes BCH_CSUM_none 0 n = Some 0"
  by (induction n rule: less_induct) (subst checksum_zeroes.simps, simp add: Let_def)

lemma checksum_zeroes_crc32c:
  "checksum_zeroes BCH_CSUM_crc32c (ucast c) n = Some (ucast (fold crc32c_step (replicate n 0) c))"
proof (induction n arbitrary: c rule: less_induct)
  case (less n)
  let ?m = "min n 4096"
  have "fold crc32c_step (replicate n 0) c = fold crc32c_step (replicate (n - ?m) 0) (fold crc32c_step (replicate ?m 0) c)"
    by (subst crc32.run_zeroes_add) simp
  then show ?case
    using less.IH [of "n - ?m"]
    by (subst checksum_zeroes.simps) (simp add: Let_def crc32c_fold code_consts ucast_down_up)
qed

lemma checksum_zeroes_crc64:
  "checksum_zeroes BCH_CSUM_crc64 c n = Some (fold crc64_step (replicate n 0) c)"
proof (induction n arbitrary: c rule: less_induct)
  case (less n)
  let ?m = "min n 4096"
  have "fold crc64_step (replicate n 0) c = fold crc64_step (replicate (n - ?m) 0) (fold crc64_step (replicate ?m 0) c)"
    by (subst crc64.run_zeroes_add) simp
  then show ?case
    using less.IH [of "n - ?m"]
    by (subst checksum_zeroes.simps) (simp add: Let_def crc64_be_fold code_consts)
qed

lemma bch2_checksum_simps:
  "bch2_checksum BCH_CSUM_none data = Some \<lparr>csum_lo = 0, csum_hi = 0\<rparr>"
  "bch2_checksum BCH_CSUM_crc32c data = Some \<lparr>csum_lo = ucast (fold crc32c_step data 0), csum_hi = 0\<rparr>"
  "bch2_checksum BCH_CSUM_crc64 data = Some \<lparr>csum_lo = fold crc64_step data 0, csum_hi = 0\<rparr>"
  by (simp_all add: bch2_checksum_def code_consts crc32c_fold crc64_be_fold)

text \<open>
  C31: the table-driven checksums are the bit-serial ones: CRC32C divides by the reflected
  polynomial one bit at a time from the low end, CRC64 by its polynomial from the high end.
\<close>

theorem crc_tables_bit_serial:
  "crc32c crc data = fold (\<lambda>byte crc. (crc32c_bit ^^ 8) (crc XOR ucast byte)) data crc \<and>
   crc64_be crc' data = fold (\<lambda>byte crc. (crc64_bit ^^ 8) (crc XOR push_bit 56 (ucast byte))) data crc'"
  by (simp add: crc32c_fold crc64_be_fold crc32c_step_def [abs_def] crc64_step_def [abs_def])

text \<open>
  C30: for every mergeable checksum type, merging the checksums of two byte strings gives the
  checksum of their concatenation, and the merge loop terminates without a panic.
\<close>

theorem checksum_merge_append:
  assumes "bch2_checksum_mergeable ty"
  shows "\<exists>a b. bch2_checksum ty xs = Some a \<and> bch2_checksum ty ys = Some b \<and>
    bch2_checksum_merge ty a b (length ys) = bch2_checksum ty (xs @ ys) \<and> bch2_checksum ty (xs @ ys) \<noteq> None"
proof -
  consider "ty = BCH_CSUM_none" | "ty = BCH_CSUM_crc32c" | "ty = BCH_CSUM_crc64"
    using assms by (auto simp: bch2_checksum_mergeable_def)
  then show ?thesis
  proof cases
    case 1
    then show ?thesis
      by (simp add: bch2_checksum_simps bch2_checksum_merge_def bch2_checksum_mergeable_def checksum_zeroes_none)
  next
    case 2
    have "(ucast (a XOR b) :: u64) = ucast a XOR ucast b" for a b :: u32
      by (rule bit_word_eqI) (auto simp: bit_simps)
    with 2 show ?thesis
      using crc32.run_append [of xs ys 0]
      by (simp add: bch2_checksum_simps bch2_checksum_merge_def bch2_checksum_mergeable_def checksum_zeroes_crc32c)
  next
    case 3
    then show ?thesis
      using crc64.run_append [of xs ys 0]
      by (simp add: bch2_checksum_simps bch2_checksum_merge_def bch2_checksum_mergeable_def checksum_zeroes_crc64)
  qed
qed

theorem checksum_merge_append_witness:
  "bch2_checksum_mergeable BCH_CSUM_crc32c \<and>
   (\<exists>a b. bch2_checksum BCH_CSUM_crc32c [1, 2] = Some a \<and> bch2_checksum BCH_CSUM_crc32c [3] = Some b \<and>
      bch2_checksum_merge BCH_CSUM_crc32c a b 1 = bch2_checksum BCH_CSUM_crc32c [1, 2, 3])"
proof -
  have "bch2_checksum_mergeable BCH_CSUM_crc32c" by (simp add: bch2_checksum_mergeable_def)
  with checksum_merge_append [of BCH_CSUM_crc32c "[1, 2]" "[3]"] show ?thesis by auto
qed

section \<open>xxHash consumes its input in order\<close>

text \<open>The reference consumes the byte list from the front: 32-byte stripes, then 8-byte words,
  then at most one 4-byte word, then bytes.\<close>

definition stripe_spec :: "u8 list \<Rightarrow> xxh_acc \<Rightarrow> xxh_acc" where
  "stripe_spec xs = (\<lambda>(v1, v2, v3, v4).
     (xxh64_round v1 (from_le_bytes (take 8 xs)), xxh64_round v2 (from_le_bytes (take 8 (drop 8 xs))),
      xxh64_round v3 (from_le_bytes (take 8 (drop 16 xs))), xxh64_round v4 (from_le_bytes (take 8 (drop 24 xs)))))"

fun stripes_spec :: "u8 list \<Rightarrow> xxh_acc \<Rightarrow> u8 list \<times> xxh_acc" where
  "stripes_spec xs v = (if 32 \<le> length xs then stripes_spec (drop 32 xs) (stripe_spec xs v) else (xs, v))"

fun words_spec :: "u8 list \<Rightarrow> u64 \<Rightarrow> u8 list \<times> u64" where
  "words_spec xs hash =
     (if 8 \<le> length xs
      then words_spec (drop 8 xs) (rotl64 (hash XOR xxh64_round 0 (from_le_bytes (take 8 xs))) 27 * PRIME64_1 + PRIME64_4)
      else (xs, hash))"

definition half_spec :: "u8 list \<Rightarrow> u64 \<Rightarrow> u8 list \<times> u64" where
  "half_spec xs hash =
     (if 4 \<le> length xs
      then (drop 4 xs, rotl64 (hash XOR from_le_bytes (take 4 xs) * PRIME64_1) 23 * PRIME64_2 + PRIME64_3)
      else (xs, hash))"

fun bytes_spec :: "u8 list \<Rightarrow> u64 \<Rightarrow> u64" where
  "bytes_spec [] hash = hash"
| "bytes_spec (b # xs) hash = bytes_spec xs (rotl64 (hash XOR ucast b * PRIME64_5) 11 * PRIME64_1)"

definition xxh64_spec :: "u8 list \<Rightarrow> u64 \<Rightarrow> u64" where
  "xxh64_spec input seed =
     (let (rest, v) = stripes_spec input (xxh64_init seed);
          hash = (if 32 \<le> length input then xxh64_converge v else seed + PRIME64_5) + of_nat (length input);
          (rest, hash) = words_spec rest hash;
          (rest, hash) = half_spec rest hash
      in xxh64_avalanche (bytes_spec rest hash))"

declare stripes_spec.simps [simp del] words_spec.simps [simp del]

lemma xxh64_stripe_spec: "off + 32 \<le> length input \<Longrightarrow> xxh64_stripe input off v = Some (stripe_spec (drop off input) v)"
  by (cases v) (simp add: xxh64_stripe_def slice_opt_def stripe_spec_def add.commute)

lemma xxh64_stripes_spec:
  "off + 32 \<le> length input \<Longrightarrow>
   \<exists>off' v'. xxh64_stripes input (length input - 32) off v = Some (off', v') \<and>
     stripes_spec (drop off input) v = (drop off' input, v')"
proof (induction "length input - off" arbitrary: off v rule: less_induct)
  case less
  let ?v = "stripe_spec (drop off input) v"
  have unfold: "xxh64_stripes input (length input - 32) off v =
      (if length input - 32 < off + 32 then Some (off + 32, ?v)
       else xxh64_stripes input (length input - 32) (off + 32) ?v)"
    by (subst xxh64_stripes.simps) (simp add: xxh64_stripe_spec less.prems)
  have spec: "stripes_spec (drop off input) v = stripes_spec (drop (off + 32) input) ?v"
  proof -
    have "32 \<le> length (drop off input)" using less.prems by simp
    then show ?thesis by (subst stripes_spec.simps) (simp add: add.commute)
  qed
  show ?case
  proof (cases "length input - 32 < off + 32")
    case True
    then have "stripes_spec (drop (off + 32) input) ?v = (drop (off + 32) input, ?v)"
      using less.prems by (subst stripes_spec.simps) auto
    with True unfold spec show ?thesis by simp
  next
    case False
    with less.hyps [of "off + 32" ?v] less.prems unfold spec show ?thesis by auto
  qed
qed

lemma xxh64_words_spec:
  "\<exists>off' h'. xxh64_words input off h = (off', h') \<and> words_spec (drop off input) h = (drop off' input, h')"
proof (induction input off h rule: xxh64_words.induct)
  case (1 input off h)
  then show ?case
    by (subst xxh64_words.simps, subst words_spec.simps) (auto simp: add.commute less_diff_conv)
qed

lemma xxh64_half_spec:
  "\<exists>off' h'. xxh64_half input off h = (off', h') \<and> half_spec (drop off input) h = (drop off' input, h')"
  by (auto simp: xxh64_half_def half_spec_def add.commute)

lemma xxh64_bytes_spec: "xxh64_bytes input off h = bytes_spec (drop off input) h"
proof (induction input off h rule: xxh64_bytes.induct)
  case (1 input off h)
  then show ?case
    by (subst xxh64_bytes.simps) (simp add: Cons_nth_drop_Suc [symmetric])
qed

text \<open>Every checksum returns.\<close>

lemma xxh64_returns: "\<exists>v. xxh64 data seed = Some v"
proof (cases "32 \<le> length data")
  case True
  then obtain off v where "xxh64_stripes data (length data - 32) 0 (xxh64_init seed) = Some (off, v)"
    using xxh64_stripes_spec [of 0 data "xxh64_init seed"] by auto
  then show ?thesis using True by (simp add: xxh64_def case_prod_beta Let_def)
qed (simp add: xxh64_def case_prod_beta Let_def)

lemma bch2_checksum_returns: "\<exists>c. bch2_checksum ty data = Some c"
  using xxh64_returns [of data 0] by (auto simp: bch2_checksum_def)

text \<open>
  C32: \<^verbatim>\<open>xxh64\<close> never reads outside its input and its index loops compute the reference hash,
  which consumes the input from the front in stripes, words, a half word and bytes.
\<close>

theorem xxh64_refines_spec: "xxh64 input seed = Some (xxh64_spec input seed)"
proof -
  obtain off v where st: "(if 32 \<le> length input
      then do { (off, v) \<leftarrow> xxh64_stripes input (length input - 32) 0 (xxh64_init seed); Some (off, xxh64_converge v) }
      else Some (0, seed + PRIME64_5)) = Some (off, if 32 \<le> length input then xxh64_converge v else seed + PRIME64_5)"
    and sp: "stripes_spec input (xxh64_init seed) = (drop off input, v)"
  proof (cases "32 \<le> length input")
    case True
    then show ?thesis using xxh64_stripes_spec [of 0 input "xxh64_init seed"] that by auto
  next
    case False
    then show ?thesis by (intro that [of 0 "xxh64_init seed"]) (simp_all add: stripes_spec.simps)
  qed
  let ?h = "(if 32 \<le> length input then xxh64_converge v else seed + PRIME64_5) + of_nat (length input)"
  obtain o1 h1 where w: "xxh64_words input off ?h = (o1, h1)" "words_spec (drop off input) ?h = (drop o1 input, h1)"
    using xxh64_words_spec by blast
  obtain o2 h2 where h: "xxh64_half input o1 h1 = (o2, h2)" "half_spec (drop o1 input) h1 = (drop o2 input, h2)"
    using xxh64_half_spec by blast
  show ?thesis
    unfolding xxh64_def st xxh64_spec_def sp using w h by (simp add: xxh64_bytes_spec Let_def)
qed

end
