(* ===== verification/Six_Lock.thy ===== *)
theory Six_Lock
  imports Prelude "HOL-Library.Multiset"
begin

unbundle bit_operations_syntax

text \<open>
  The shared/intent/exclusive lock, \<^verbatim>\<open>lock/six.rs\<close>: one 32-bit state word (26 bits of reader count,
  the intent and write bits, three waiting bits), the sequence number, the intent owner, the
  recursion counters and the array of waiting slots. Each function is one atomic transition of
  the lock; a compare-and-exchange loop is its successful iteration. Threads and waiters are
  natural numbers, the waiters live in a store because the slots point to them, and the wake-up
  functions also return the waiters they unpark. Debug logging is left out.
\<close>

section \<open>Data\<close>

datatype six_lock_type = SIX_LOCK_read | SIX_LOCK_intent | SIX_LOCK_write

type_synonym thread = nat
type_synonym waiter_id = nat

record six_lock_waiter =
  trans_start_time :: u64
  task :: "thread option"
  lock_want :: six_lock_type
  lock_acquired :: bool
  slot_idx :: nat

record six_lock_wait_slot =
  sl_w :: "waiter_id option"
  sl_start_time :: u64

record six_lock_wait_fifo =
  wf_size :: nat
  wf_nr :: nat
  wf_next_free_hint :: nat
  wf_data :: "six_lock_wait_slot list"

record six_lock =
  l_state :: u32
  l_seq :: u32
  l_intent_recurse :: u32
  l_write_recurse :: u32
  l_owner :: "thread option"
  l_wait :: six_lock_wait_fifo
  l_waiters :: "waiter_id \<Rightarrow> six_lock_waiter"

definition SIX_LOCK_WANT_BITS :: nat where [code_consts]: "SIX_LOCK_WANT_BITS = 2"
definition SIX_LOCK_WANT_MASK :: u64 where [code_consts]: "SIX_LOCK_WANT_MASK = 3"
definition SIX_LOCK_INLINE_WAITERS :: nat where [code_consts]: "SIX_LOCK_INLINE_WAITERS = 8"
definition SIX_LOCK_HELD_READ :: u32 where "SIX_LOCK_HELD_READ = mask 26"
definition SIX_LOCK_HELD_INTENT :: u32 where "SIX_LOCK_HELD_INTENT = 2 ^ 26"
definition SIX_LOCK_HELD_WRITE :: u32 where "SIX_LOCK_HELD_WRITE = 2 ^ 27"
definition SIX_LOCK_WAITING_READ :: u32 where "SIX_LOCK_WAITING_READ = 2 ^ 28"
definition SIX_LOCK_NOSPIN :: u32 where "SIX_LOCK_NOSPIN = 2 ^ 31"

fun type_index :: "six_lock_type \<Rightarrow> nat" where
  "type_index SIX_LOCK_read = 0"
| "type_index SIX_LOCK_intent = 1"
| "type_index SIX_LOCK_write = 2"

fun lock_val :: "six_lock_type \<Rightarrow> u32" where
  "lock_val SIX_LOCK_read = 1"
| "lock_val SIX_LOCK_intent = SIX_LOCK_HELD_INTENT"
| "lock_val SIX_LOCK_write = SIX_LOCK_HELD_WRITE"

fun lock_fail :: "six_lock_type \<Rightarrow> u32" where
  "lock_fail SIX_LOCK_read = SIX_LOCK_HELD_WRITE"
| "lock_fail SIX_LOCK_intent = SIX_LOCK_HELD_INTENT"
| "lock_fail SIX_LOCK_write = SIX_LOCK_HELD_READ"

fun held_mask :: "six_lock_type \<Rightarrow> u32" where
  "held_mask SIX_LOCK_read = SIX_LOCK_HELD_READ"
| "held_mask SIX_LOCK_intent = SIX_LOCK_HELD_INTENT"
| "held_mask SIX_LOCK_write = SIX_LOCK_HELD_WRITE"

fun unlock_wakeup :: "six_lock_type \<Rightarrow> six_lock_type" where
  "unlock_wakeup SIX_LOCK_read = SIX_LOCK_write"
| "unlock_wakeup SIX_LOCK_intent = SIX_LOCK_intent"
| "unlock_wakeup SIX_LOCK_write = SIX_LOCK_read"

definition waiting_mask :: "six_lock_type \<Rightarrow> u32" where
  "waiting_mask ty = push_bit (type_index ty) SIX_LOCK_WAITING_READ"

definition empty_slot :: six_lock_wait_slot where
  "empty_slot = \<lparr>sl_w = None, sl_start_time = 0\<rparr>"

definition six_lock_wait_fifo_default :: six_lock_wait_fifo where
  "six_lock_wait_fifo_default =
     \<lparr>wf_size = SIX_LOCK_INLINE_WAITERS, wf_nr = 0, wf_next_free_hint = 0,
      wf_data = replicate SIX_LOCK_INLINE_WAITERS empty_slot\<rparr>"

definition six_lock_init :: "(waiter_id \<Rightarrow> six_lock_waiter) \<Rightarrow> six_lock" where
  "six_lock_init ws =
     \<lparr>l_state = 0, l_seq = 0, l_intent_recurse = 0, l_write_recurse = 0, l_owner = None,
      l_wait = six_lock_wait_fifo_default, l_waiters = ws\<rparr>"

section \<open>Trying to take the lock\<close>

definition six_set_owner :: "six_lock \<Rightarrow> six_lock_type \<Rightarrow> u32 \<Rightarrow> thread \<Rightarrow> six_lock option" where
  "six_set_owner l ty old t =
     (if ty \<noteq> SIX_LOCK_intent then Some l
      else if old AND SIX_LOCK_HELD_INTENT = 0
      then do { require (l_owner l = None); Some (l\<lparr>l_owner := Some t\<rparr>) }
      else do { require (l_owner l = Some t); Some l })"

definition raw_do_six_trylock :: "six_lock \<Rightarrow> six_lock_type \<Rightarrow> thread \<Rightarrow> bool \<Rightarrow> (bool \<times> six_lock) option" where
  "raw_do_six_trylock l ty t try_lock =
     do { (if ty = SIX_LOCK_write
           then do { require (l_owner l = Some t);
                     require (try_lock \<longleftrightarrow> l_state l AND SIX_LOCK_HELD_WRITE = 0) }
           else Some ());
          let old = l_state l;
          let ret = (old AND lock_fail ty = 0);
          if \<not> ret \<or> (ty = SIX_LOCK_write \<and> \<not> try_lock)
          then (if ret then map_option (Pair True) (six_set_owner l ty old t) else Some (False, l))
          else do {
            let l = l\<lparr>l_state := old + lock_val ty\<rparr>;
            require (l_state l AND held_mask ty \<noteq> 0);
            map_option (Pair True) (six_set_owner l ty old t) } }"

section \<open>The array of waiting slots\<close>

function fifo_shrink_nr :: "six_lock_wait_slot list \<Rightarrow> nat \<Rightarrow> nat option" where
  "fifo_shrink_nr data nr =
     (if nr = 0 then Some 0
      else case nth_opt data (nr - 1) of
             None \<Rightarrow> None
           | Some sl \<Rightarrow> if sl_w sl = None then fifo_shrink_nr data (nr - 1) else Some nr)"
  by pat_completeness auto
termination by (relation "measure snd") auto

definition six_lock_wait_fifo_shrink :: "six_lock_wait_fifo \<Rightarrow> six_lock_wait_fifo option" where
  "six_lock_wait_fifo_shrink fq =
     do { nr \<leftarrow> fifo_shrink_nr (wf_data fq) (wf_nr fq);
          Some (fq\<lparr>wf_nr := nr, wf_next_free_hint := min (wf_next_free_hint fq) nr\<rparr>) }"

definition six_lock_wait_fifo_remove :: "six_lock_wait_fifo \<Rightarrow> nat \<Rightarrow> six_lock_wait_fifo option" where
  "six_lock_wait_fifo_remove fq idx =
     do { sl \<leftarrow> nth_opt (wf_data fq) idx;
          Some (fq\<lparr>wf_data := (wf_data fq)[idx := sl\<lparr>sl_w := None\<rparr>],
                   wf_next_free_hint := min (wf_next_free_hint fq) idx\<rparr>) }"

function fifo_first_free :: "six_lock_wait_slot list \<Rightarrow> nat \<Rightarrow> nat \<Rightarrow> nat option" where
  "fifo_first_free data nr i =
     (if i < nr then
        (case nth_opt data i of
           None \<Rightarrow> None
         | Some sl \<Rightarrow> if sl_w sl \<noteq> None then fifo_first_free data nr (i + 1) else Some i)
      else Some i)"
  by pat_completeness auto
termination by (relation "measure (\<lambda>(_, nr, i). nr - i)") auto

declare fifo_shrink_nr.simps [simp del] fifo_first_free.simps [simp del]

definition fifo_find_slot :: "six_lock_wait_fifo \<Rightarrow> (nat \<times> six_lock_wait_fifo) option" where
  "fifo_find_slot fq =
     do { sl \<leftarrow> nth_opt (wf_data fq) (wf_next_free_hint fq);
          if sl_w sl = None then Some (wf_next_free_hint fq, fq)
          else do {
            i \<leftarrow> fifo_first_free (wf_data fq) (wf_nr fq) 0;
            if i = wf_size fq
            then do { require (wf_size fq < 2 ^ 15);
                      let size = wf_size fq * 2;
                      Some (i, fq\<lparr>wf_size := size,
                        wf_data := take size (wf_data fq) @ replicate (size - length (wf_data fq)) empty_slot\<rparr>) }
            else Some (i, fq) } }"

definition slot_time :: "six_lock_waiter \<Rightarrow> u64" where
  "slot_time w = push_bit SIX_LOCK_WANT_BITS (trans_start_time w) OR (of_nat (type_index (lock_want w)) AND SIX_LOCK_WANT_MASK)"

definition six_lock_wait_fifo_insert ::
    "six_lock_wait_fifo \<Rightarrow> waiter_id \<Rightarrow> six_lock_waiter \<Rightarrow> (six_lock_wait_fifo \<times> six_lock_waiter) option" where
  "six_lock_wait_fifo_insert fq w wait =
     do { (i, fq) \<leftarrow> fifo_find_slot fq;
          sl \<leftarrow> nth_opt (wf_data fq) i;
          Some (fq\<lparr>wf_data := (wf_data fq)[i := \<lparr>sl_w = Some w, sl_start_time = slot_time wait\<rparr>],
                   wf_next_free_hint := (i + 1) AND (wf_size fq - 1),
                   wf_nr := max (wf_nr fq) (i + 1)\<rparr>,
                wait\<lparr>slot_idx := i\<rparr>) }"

section \<open>Waking waiters\<close>

abbreviation waiter_ready :: "six_lock \<Rightarrow> waiter_id \<Rightarrow> six_lock" where
  "waiter_ready l w \<equiv> l\<lparr>l_waiters := (l_waiters l)(w := (l_waiters l w)\<lparr>lock_acquired := True\<rparr>)\<rparr>"

definition slot_matches :: "six_lock_wait_slot \<Rightarrow> six_lock_type \<Rightarrow> bool" where
  "slot_matches sl ty \<longleftrightarrow> sl_w sl \<noteq> None \<and> sl_start_time sl AND SIX_LOCK_WANT_MASK = of_nat (type_index ty)"

text \<open>One grant: the waiter's task must be set, the lock is tried on its behalf, and on success
  its slot is emptied and the waiter is marked and unparked.\<close>

definition grant_waiter :: "six_lock \<Rightarrow> nat \<Rightarrow> waiter_id \<Rightarrow> six_lock_type \<Rightarrow> (bool \<times> six_lock) option" where
  "grant_waiter l i w ty =
     do { t \<leftarrow> task (l_waiters l w);
          (ok, l) \<leftarrow> raw_do_six_trylock l ty t False;
          if \<not> ok then Some (False, l)
          else do { fq \<leftarrow> six_lock_wait_fifo_remove (l_wait l) i;
                    Some (True, waiter_ready (l\<lparr>l_wait := fq\<rparr>) w) } }"

function wakeup_readers :: "six_lock \<Rightarrow> nat \<Rightarrow> nat \<Rightarrow> waiter_id list \<Rightarrow> (six_lock \<times> waiter_id list) option" where
  "wakeup_readers l nr i woken =
     (if nr \<le> i then Some (l, woken)
      else case nth_opt (wf_data (l_wait l)) i of
        None \<Rightarrow> None
      | Some sl \<Rightarrow>
          if \<not> slot_matches sl SIX_LOCK_read then wakeup_readers l nr (i + 1) woken
          else case grant_waiter l i (the (sl_w sl)) SIX_LOCK_read of
            None \<Rightarrow> None
          | Some (ok, l) \<Rightarrow>
              if ok then wakeup_readers l nr (i + 1) (woken @ [the (sl_w sl)]) else Some (l, woken))"
  by pat_completeness auto
termination by (relation "measure (\<lambda>(_, nr, i, _). nr - i)") auto

declare wakeup_readers.simps [simp del]

definition oldest_step :: "six_lock_wait_slot list \<Rightarrow> six_lock_type \<Rightarrow> nat \<Rightarrow> nat option \<times> nat \<Rightarrow> nat option \<times> nat" where
  "oldest_step data ty i = (\<lambda>(oldest, n).
     (let sl = data ! i in
      if \<not> slot_matches sl ty then (oldest, n)
      else (case oldest of
              None \<Rightarrow> (Some i, n + 1)
            | Some j \<Rightarrow> (if sl_start_time sl < sl_start_time (data ! j) then Some i else Some j, n + 1))))"

definition oldest_match :: "six_lock_wait_slot list \<Rightarrow> six_lock_type \<Rightarrow> nat \<Rightarrow> (nat option \<times> nat) option" where
  "oldest_match data ty nr =
     do { require (nr \<le> length data); Some (fold (oldest_step data ty) [0..<nr] (None, 0)) }"

definition clear_waiting :: "six_lock \<Rightarrow> six_lock_type \<Rightarrow> six_lock option" where
  "clear_waiting l ty =
     do { let l = l\<lparr>l_state := l_state l AND NOT (waiting_mask ty)\<rparr>;
          fq \<leftarrow> six_lock_wait_fifo_shrink (l_wait l);
          Some (l\<lparr>l_wait := fq\<rparr>) }"

definition raw_six_lock_wakeup :: "six_lock \<Rightarrow> six_lock_type \<Rightarrow> (six_lock \<times> waiter_id list) option" where
  "raw_six_lock_wakeup l ty =
     (if ty = SIX_LOCK_read
      then do { (l, woken) \<leftarrow> wakeup_readers l (wf_nr (l_wait l)) 0 [];
                l \<leftarrow> clear_waiting l ty;
                Some (l, woken) }
      else do {
        (oldest, n_matches) \<leftarrow> oldest_match (wf_data (l_wait l)) ty (wf_nr (l_wait l));
        case oldest of
          None \<Rightarrow> do { l \<leftarrow> clear_waiting l ty; Some (l, []) }
        | Some i \<Rightarrow>
            do { w \<leftarrow> sl_w (wf_data (l_wait l) ! i);
                 (ok, l) \<leftarrow> grant_waiter l i w ty;
                 let woken = (if ok then [w] else []);
                 if ok \<and> n_matches > 1
                 then do { fq \<leftarrow> six_lock_wait_fifo_shrink (l_wait l); Some (l\<lparr>l_wait := fq\<rparr>, woken) }
                 else do { l \<leftarrow> clear_waiting l ty; Some (l, woken) } } })"

definition six_lock_wakeup :: "six_lock \<Rightarrow> u32 \<Rightarrow> six_lock_type \<Rightarrow> (six_lock \<times> waiter_id list) option" where
  "six_lock_wakeup l state ty =
     (if ty = SIX_LOCK_write \<and> state AND SIX_LOCK_HELD_READ \<noteq> 0 then Some (l, [])
      else if state AND waiting_mask ty = 0 then Some (l, [])
      else raw_six_lock_wakeup l ty)"

section \<open>Unlocking\<close>

definition do_six_unlock_type :: "six_lock \<Rightarrow> six_lock_type \<Rightarrow> (six_lock \<times> waiter_id list) option" where
  "do_six_unlock_type l ty =
     do { let l = (if ty = SIX_LOCK_intent then l\<lparr>l_owner := None\<rparr> else l);
          let v = lock_val ty + (if ty \<noteq> SIX_LOCK_read then l_state l AND SIX_LOCK_NOSPIN else 0);
          require (l_state l AND held_mask ty \<noteq> 0);
          let state = l_state l - v;
          six_lock_wakeup (l\<lparr>l_state := state\<rparr>) state (unlock_wakeup ty) }"

definition six_unlock_ip :: "six_lock \<Rightarrow> six_lock_type \<Rightarrow> thread \<Rightarrow> (six_lock \<times> waiter_id list) option" where
  "six_unlock_ip l ty t =
     do { require (ty = SIX_LOCK_write \<longrightarrow> l_state l AND SIX_LOCK_HELD_INTENT \<noteq> 0);
          require (ty = SIX_LOCK_write \<or> ty = SIX_LOCK_intent \<longrightarrow> l_owner l = Some t);
          if ty = SIX_LOCK_intent \<and> l_intent_recurse l \<noteq> 0
          then Some (l\<lparr>l_intent_recurse := l_intent_recurse l - 1\<rparr>, [])
          else if ty = SIX_LOCK_write \<and> l_write_recurse l \<noteq> 0
          then Some (l\<lparr>l_write_recurse := l_write_recurse l - 1\<rparr>, [])
          else do_six_unlock_type (if ty = SIX_LOCK_write then l\<lparr>l_seq := l_seq l + 1\<rparr> else l) ty }"

section \<open>Taking the lock\<close>

definition six_trylock_ip :: "six_lock \<Rightarrow> six_lock_type \<Rightarrow> thread \<Rightarrow> (bool \<times> six_lock) option" where
  "six_trylock_ip l ty t = raw_do_six_trylock l ty t True"

text \<open>Relocking with no step of another thread between the two reads of the sequence number.\<close>

definition six_relock_ip :: "six_lock \<Rightarrow> six_lock_type \<Rightarrow> u32 \<Rightarrow> thread \<Rightarrow> (bool \<times> six_lock) option" where
  "six_relock_ip l ty seq t =
     (if l_seq l \<noteq> seq then Some (False, l)
      else do { (ok, l) \<leftarrow> six_trylock_ip l ty t;
                if \<not> ok then Some (False, l)
                else if l_seq l \<noteq> seq
                then do { (l, woken) \<leftarrow> six_unlock_ip l ty t; Some (False, l) }
                else Some (True, l) })"

text \<open>
  The slow path up to the point where the thread parks: either the lock was obtained
  (\<open>True\<close>) or the waiter is queued (\<open>False\<close>).
\<close>

definition six_lock_slowpath_enter ::
    "six_lock \<Rightarrow> six_lock_type \<Rightarrow> waiter_id \<Rightarrow> thread \<Rightarrow> (bool \<times> six_lock) option" where
  "six_lock_slowpath_enter l ty w t =
     do { l \<leftarrow> (if ty = SIX_LOCK_write
                then do { require (l_state l AND SIX_LOCK_HELD_WRITE = 0);
                          Some (l\<lparr>l_state := l_state l + SIX_LOCK_HELD_WRITE\<rparr>) }
                else Some l);
          let wait = (l_waiters l w)\<lparr>task := Some t, lock_want := ty, lock_acquired := False\<rparr>;
          let l = l\<lparr>l_waiters := (l_waiters l)(w := wait), l_state := l_state l OR waiting_mask ty\<rparr>;
          (ok, l) \<leftarrow> raw_do_six_trylock l ty t False;
          if ok then Some (True, l)
          else do { (fq, wait) \<leftarrow> six_lock_wait_fifo_insert (l_wait l) w (l_waiters l w);
                    Some (False, l\<lparr>l_wait := fq, l_waiters := (l_waiters l)(w := wait)\<rparr>) } }"

text \<open>
  Giving up after \<^verbatim>\<open>should_sleep_fn\<close> returned an error, under the wait lock: a grant that came in
  between is undone, otherwise the slot is emptied and a pending write bit is withdrawn.
\<close>

definition six_lock_slowpath_abort ::
    "six_lock \<Rightarrow> six_lock_type \<Rightarrow> waiter_id \<Rightarrow> (six_lock \<times> waiter_id list) option" where
  "six_lock_slowpath_abort l ty w =
     (if lock_acquired (l_waiters l w) then do_six_unlock_type l ty
      else do {
        fq \<leftarrow> six_lock_wait_fifo_remove (l_wait l) (slot_idx (l_waiters l w));
        fq \<leftarrow> six_lock_wait_fifo_shrink fq;
        let l = l\<lparr>l_wait := fq\<rparr>;
        if ty = SIX_LOCK_write
        then let l = l\<lparr>l_state := l_state l AND NOT SIX_LOCK_HELD_WRITE\<rparr>
             in six_lock_wakeup l (l_state l) SIX_LOCK_read
        else Some (l, []) })"

text \<open>
  One turn of the parked thread's loop after it was woken, with the result \<open>ret\<close> of
  \<^verbatim>\<open>should_sleep_fn\<close>: \<open>Some 0\<close> acquired, \<open>Some ret\<close> given up, \<open>None\<close> parks again.
\<close>

definition six_lock_slowpath_poll ::
    "six_lock \<Rightarrow> six_lock_type \<Rightarrow> waiter_id \<Rightarrow> int \<Rightarrow> (int option \<times> six_lock \<times> waiter_id list) option" where
  "six_lock_slowpath_poll l ty w ret =
     (if lock_acquired (l_waiters l w) then Some (Some 0, l, [])
      else if ret = 0 then Some (None, l, [])
      else map_option (Pair (Some ret)) (six_lock_slowpath_abort l ty w))"

definition six_lock_ip_waiter :: "six_lock \<Rightarrow> six_lock_type \<Rightarrow> waiter_id \<Rightarrow> thread \<Rightarrow> (bool \<times> six_lock) option" where
  "six_lock_ip_waiter l ty w t =
     do { (ok, l) \<leftarrow> raw_do_six_trylock l ty t True;
          if ok then Some (True, l) else six_lock_slowpath_enter l ty w t }"

section \<open>Converting and inspecting\<close>

definition six_lock_increment :: "six_lock \<Rightarrow> six_lock_type \<Rightarrow> six_lock option" where
  "six_lock_increment l ty =
     (case ty of
        SIX_LOCK_read \<Rightarrow>
          do { require (l_state l AND (SIX_LOCK_HELD_READ OR SIX_LOCK_HELD_INTENT) \<noteq> 0);
               Some (l\<lparr>l_state := l_state l + lock_val ty\<rparr>) }
      | SIX_LOCK_write \<Rightarrow>
          do { require (l_state l AND SIX_LOCK_HELD_INTENT \<noteq> 0);
               Some (l\<lparr>l_write_recurse := l_write_recurse l + 1, l_intent_recurse := l_intent_recurse l + 1\<rparr>) }
      | SIX_LOCK_intent \<Rightarrow>
          do { require (l_state l AND SIX_LOCK_HELD_INTENT \<noteq> 0);
               Some (l\<lparr>l_intent_recurse := l_intent_recurse l + 1\<rparr>) })"

definition six_lock_downgrade :: "six_lock \<Rightarrow> thread \<Rightarrow> (six_lock \<times> waiter_id list) option" where
  "six_lock_downgrade l t =
     do { l \<leftarrow> six_lock_increment l SIX_LOCK_read; six_unlock_ip l SIX_LOCK_intent t }"

definition six_lock_tryupgrade :: "six_lock \<Rightarrow> thread \<Rightarrow> (bool \<times> six_lock) option" where
  "six_lock_tryupgrade l t =
     (let old = l_state l in
      if old AND SIX_LOCK_HELD_INTENT \<noteq> 0 then Some (False, l)
      else do { require (old AND SIX_LOCK_HELD_READ \<noteq> 0);
                let new = (old - lock_val SIX_LOCK_read) OR SIX_LOCK_HELD_INTENT;
                map_option (Pair True) (six_set_owner (l\<lparr>l_state := new\<rparr>) SIX_LOCK_intent old t) })"

definition six_trylock_convert ::
    "six_lock \<Rightarrow> six_lock_type \<Rightarrow> six_lock_type \<Rightarrow> thread \<Rightarrow> (bool \<times> six_lock) option" where
  "six_trylock_convert l from to t =
     do { require (to \<noteq> SIX_LOCK_write);
          require (from \<noteq> SIX_LOCK_write);
          if to = from then Some (True, l)
          else if to = SIX_LOCK_read then do { (l, woken) \<leftarrow> six_lock_downgrade l t; Some (True, l) }
          else six_lock_tryupgrade l t }"

definition queued_waiters :: "six_lock_wait_fifo \<Rightarrow> waiter_id list" where
  "queued_waiters fq = List.map_filter sl_w (take (wf_nr fq) (wf_data fq))"

definition six_lock_wakeup_all :: "six_lock \<Rightarrow> (six_lock \<times> waiter_id list) option" where
  "six_lock_wakeup_all l =
     do { let state = l_state l;
          (l, w1) \<leftarrow> six_lock_wakeup l state SIX_LOCK_read;
          (l, w2) \<leftarrow> six_lock_wakeup l state SIX_LOCK_intent;
          (l, w3) \<leftarrow> six_lock_wakeup l state SIX_LOCK_write;
          Some (l, w1 @ w2 @ w3 @ queued_waiters (l_wait l)) }"

definition six_lock_counts :: "six_lock \<Rightarrow> u32 \<times> u32 \<times> u32" where
  "six_lock_counts l =
     (l_state l AND SIX_LOCK_HELD_READ,
      (if l_state l AND SIX_LOCK_HELD_INTENT \<noteq> 0 then 1 else 0) + l_intent_recurse l,
      if l_state l AND SIX_LOCK_HELD_WRITE \<noteq> 0 then 1 else 0)"

definition six_lock_readers_add :: "six_lock \<Rightarrow> int \<Rightarrow> six_lock option" where
  "six_lock_readers_add l nr =
     do { require (uint (l_state l AND SIX_LOCK_HELD_READ) + nr \<ge> 0);
          Some (l\<lparr>l_state := l_state l + of_int nr\<rparr>) }"

section \<open>The state word\<close>

text \<open>The reader count and the flag bits of a state word, and how the updates act on them.\<close>

definition readers :: "u32 \<Rightarrow> nat" where
  "readers s = unat (take_bit 26 s)"

abbreviation same_flags :: "u32 \<Rightarrow> u32 \<Rightarrow> bool" where
  "same_flags s s' \<equiv> \<forall>n\<ge>26. bit s' n = bit s n"

lemma and_exp_0: "s AND 2 ^ n = 0 \<longleftrightarrow> \<not> bit s n" for s :: "'a::len word"
  by (rule and_exp_eq_0_iff_not_bit)

lemma readers_and: "s AND SIX_LOCK_HELD_READ = 0 \<longleftrightarrow> readers s = 0"
  by (simp add: SIX_LOCK_HELD_READ_def readers_def take_bit_eq_mask unat_eq_zero)

lemma readers_nat: "readers s = unat s mod 2 ^ 26"
  unfolding readers_def unsigned_take_bit_eq by (rule take_bit_eq_mod)

lemma readers_cong: "(\<And>n. n < 26 \<Longrightarrow> bit s n = bit s' n) \<Longrightarrow> readers s = readers s'"
proof -
  assume "\<And>n. n < 26 \<Longrightarrow> bit s n = bit s' n"
  then have "take_bit 26 s = take_bit 26 s'" by (intro bit_word_eqI) (auto simp: bit_take_bit_iff)
  then show ?thesis by (simp add: readers_def)
qed

lemma flags_nat: "unat s div 2 ^ 26 = unat s' div 2 ^ 26 \<Longrightarrow> same_flags s s'" for s s' :: u32
proof (intro allI impI)
  fix n :: nat assume eq: "unat s div 2 ^ 26 = unat s' div 2 ^ 26" and n: "26 \<le> n"
  have "drop_bit 26 s = drop_bit 26 s'"
    unfolding word_unat_eq_iff unat_drop_bit_eq drop_bit_eq_div [where 'a = nat] by (rule eq)
  then have "bit (drop_bit 26 s) (n - 26) = bit (drop_bit 26 s') (n - 26)" by simp
  with n show "bit s' n = bit s n" by (simp add: bit_drop_bit_eq)
qed

lemma readers_inc:
  assumes "readers s < 2 ^ 26 - 1"
  shows "readers (s + 1) = readers s + 1" "same_flags s (s + 1)"
proof -
  have s: "unat s = 2 ^ 26 * (unat s div 2 ^ 26) + readers s" by (simp add: readers_nat)
  have lt: "unat s < 2 ^ 32" using unsigned_less [where 'a = nat, of s] by simp
  have "unat s div 2 ^ 26 < 64" using lt by (simp add: less_mult_imp_div_less)
  then have "unat s + 1 < 2 ^ 32" using s assms by simp
  then have u: "unat (s + 1) = unat s + 1" by (subst unat_add_lem [THEN iffD1]) simp_all
  have "(unat s + 1) mod 2 ^ 26 = readers s + 1 \<and> (unat s + 1) div 2 ^ 26 = unat s div 2 ^ 26"
    using assms unfolding readers_nat by (simp add: mod_Suc div_Suc)
  then show "readers (s + 1) = readers s + 1" "same_flags s (s + 1)"
    using flags_nat [of s "s + 1"] u by (simp_all add: readers_nat)
qed

lemma readers_dec:
  assumes "readers s \<noteq> 0"
  shows "readers (s - 1) = readers s - 1" "same_flags s (s - 1)"
proof -
  have le: "readers s < 2 ^ 26" by (simp add: readers_nat)
  have "unat s \<noteq> 0" using assms by (auto simp: readers_nat)
  then have u: "unat (s - 1) = unat s - 1" by (simp add: unat_minus_one unat_eq_0 [symmetric])
  have "(unat s - 1) mod 2 ^ 26 = readers s - 1 \<and> (unat s - 1) div 2 ^ 26 = unat s div 2 ^ 26"
  proof -
    obtain m where m: "unat s = Suc m" using \<open>unat s \<noteq> 0\<close> not0_implies_Suc by blast
    have "Suc m mod 2 ^ 26 \<noteq> 0" using assms unfolding readers_nat m .
    then have "Suc m mod 2 ^ 26 = Suc (m mod 2 ^ 26)" "Suc m div 2 ^ 26 = m div 2 ^ 26"
      unfolding mod_Suc div_Suc by argo+
    then show ?thesis unfolding readers_nat m by (simp only: diff_Suc_1)
  qed
  then show "readers (s - 1) = readers s - 1" "same_flags s (s - 1)"
    using flags_nat [of s "s - 1"] u by (simp_all add: readers_nat)
qed

lemma add_flag:
  fixes s :: "'a::len word"
  assumes "\<not> bit s n"
  shows "s + 2 ^ n = s OR 2 ^ n"
proof -
  have "s AND 2 ^ n = 0" using assms by (simp add: and_exp_0)
  then show ?thesis by (simp add: disjunctive_add_eq_or)
qed

lemma sub_flag:
  fixes s :: "'a::len word"
  assumes "bit s n"
  shows "s - 2 ^ n = s AND NOT (2 ^ n)"
proof -
  have "s = (s AND NOT (2 ^ n)) OR 2 ^ n"
    using assms by (intro bit_word_eqI) (auto simp: bit_simps)
  also have "\<dots> = (s AND NOT (2 ^ n)) + 2 ^ n"
    by (rule disjunctive_add_eq_or [symmetric]) (auto intro!: bit_word_eqI simp: bit_simps)
  finally show ?thesis by (metis add_diff_cancel_right')
qed

lemma set_flag [simp]:
  "bit (s OR 2 ^ n) m \<longleftrightarrow> bit s m \<or> m = n \<and> n < LENGTH('a)" for s :: "'a::len word"
  by (auto simp: bit_simps)

lemma clear_flag [simp]:
  "bit (s AND NOT (2 ^ n)) m \<longleftrightarrow> bit s m \<and> m \<noteq> n" for s :: "'a::len word"
  by (auto simp: bit_simps dest: bit_imp_le_length)

lemma readers_flag [simp]:
  "26 \<le> n \<Longrightarrow> readers (s OR 2 ^ n) = readers s"
  "26 \<le> n \<Longrightarrow> readers (s AND NOT (2 ^ n)) = readers s"
  by (rule readers_cong; simp)+

lemma waiting_mask_exp: "waiting_mask ty = 2 ^ (28 + type_index ty)"
  by (simp add: waiting_mask_def SIX_LOCK_WAITING_READ_def push_bit_eq_mult power_add)

lemma type_index_less: "type_index ty < 3"
  by (cases ty) simp_all

lemma waiting_bit_cases: "28 + type_index ty \<in> {28, 29, 30}"
  by (cases ty) simp_all

text \<open>The masks as tests and updates of single bits; the constants themselves stay folded.\<close>

named_theorems six_masks \<open>the flag masks read as single bits\<close>

lemma flag_updates:
  fixes s :: u32
  shows "n < 32 \<Longrightarrow> bit (s OR 2 ^ n) m \<longleftrightarrow> bit s m \<or> m = n"
    and "\<not> bit s n \<Longrightarrow> n < 32 \<Longrightarrow> bit (s + 2 ^ n) m \<longleftrightarrow> bit s m \<or> m = n"
    and "\<not> bit s n \<Longrightarrow> 26 \<le> n \<Longrightarrow> readers (s + 2 ^ n) = readers s"
    and "bit s n \<Longrightarrow> bit (s - 2 ^ n) m \<longleftrightarrow> bit s m \<and> m \<noteq> n"
    and "bit s n \<Longrightarrow> 26 \<le> n \<Longrightarrow> readers (s - 2 ^ n) = readers s"
  by (auto simp: add_flag sub_flag)

lemma and_masks [six_masks]:
  "s AND SIX_LOCK_HELD_READ = 0 \<longleftrightarrow> readers s = 0"
  "s AND SIX_LOCK_HELD_INTENT = 0 \<longleftrightarrow> \<not> bit s 26"
  "s AND SIX_LOCK_HELD_WRITE = 0 \<longleftrightarrow> \<not> bit s 27"
  "s AND waiting_mask ty = 0 \<longleftrightarrow> \<not> bit s (28 + type_index ty)"
  by (rule readers_and, unfold SIX_LOCK_HELD_INTENT_def SIX_LOCK_HELD_WRITE_def waiting_mask_exp) (rule and_exp_0)+

lemma and_nospin [six_masks]: "\<not> bit s 31 \<Longrightarrow> s AND SIX_LOCK_NOSPIN = 0"
  unfolding SIX_LOCK_NOSPIN_def by (rule and_exp_0 [THEN iffD2])

lemma set_masks [six_masks]:
  "bit (s OR SIX_LOCK_HELD_INTENT) n \<longleftrightarrow> bit s n \<or> n = 26"
  "bit (s OR waiting_mask ty) n \<longleftrightarrow> bit s n \<or> n = 28 + type_index ty"
  unfolding SIX_LOCK_HELD_INTENT_def waiting_mask_exp using type_index_less [of ty]
  by (intro flag_updates(1); simp)+

lemma set_masks_readers [six_masks]:
  "readers (s OR SIX_LOCK_HELD_INTENT) = readers s"
  "readers (s OR waiting_mask ty) = readers s"
  unfolding SIX_LOCK_HELD_INTENT_def waiting_mask_exp by (rule readers_flag(1), simp)+

lemma clear_masks [six_masks]:
  "bit (s AND NOT SIX_LOCK_HELD_WRITE) n \<longleftrightarrow> bit s n \<and> n \<noteq> 27"
  "bit (s AND NOT (waiting_mask ty)) n \<longleftrightarrow> bit s n \<and> n \<noteq> 28 + type_index ty"
  unfolding SIX_LOCK_HELD_WRITE_def waiting_mask_exp by (rule clear_flag)+

lemma clear_masks_readers [six_masks]:
  "readers (s AND NOT SIX_LOCK_HELD_WRITE) = readers s"
  "readers (s AND NOT (waiting_mask ty)) = readers s"
  unfolding SIX_LOCK_HELD_WRITE_def waiting_mask_exp by (rule readers_flag(2), simp)+

lemma add_masks [six_masks]:
  "\<not> bit s 26 \<Longrightarrow> bit (s + SIX_LOCK_HELD_INTENT) n \<longleftrightarrow> bit s n \<or> n = 26"
  "\<not> bit s 27 \<Longrightarrow> bit (s + SIX_LOCK_HELD_WRITE) n \<longleftrightarrow> bit s n \<or> n = 27"
  unfolding SIX_LOCK_HELD_INTENT_def SIX_LOCK_HELD_WRITE_def by (rule flag_updates(2); simp)+

lemma add_masks_readers [six_masks]:
  "\<not> bit s 26 \<Longrightarrow> readers (s + SIX_LOCK_HELD_INTENT) = readers s"
  "\<not> bit s 27 \<Longrightarrow> readers (s + SIX_LOCK_HELD_WRITE) = readers s"
  unfolding SIX_LOCK_HELD_INTENT_def SIX_LOCK_HELD_WRITE_def by (rule flag_updates(3); simp)+

lemma sub_masks [six_masks]:
  "bit s 26 \<Longrightarrow> bit (s - SIX_LOCK_HELD_INTENT) n \<longleftrightarrow> bit s n \<and> n \<noteq> 26"
  "bit s 27 \<Longrightarrow> bit (s - SIX_LOCK_HELD_WRITE) n \<longleftrightarrow> bit s n \<and> n \<noteq> 27"
  unfolding SIX_LOCK_HELD_INTENT_def SIX_LOCK_HELD_WRITE_def by (rule flag_updates(4); simp)+

lemma sub_masks_readers [six_masks]:
  "bit s 26 \<Longrightarrow> readers (s - SIX_LOCK_HELD_INTENT) = readers s"
  "bit s 27 \<Longrightarrow> readers (s - SIX_LOCK_HELD_WRITE) = readers s"
  unfolding SIX_LOCK_HELD_INTENT_def SIX_LOCK_HELD_WRITE_def by (rule flag_updates(5); simp)+

section \<open>The waiting slots as a finite map\<close>

text \<open>
  The abstraction of the slot array: a partial map from slot numbers to the queued waiter and
  its start time. Insertion adds one entry at a free index, removal deletes one, shrinking
  changes nothing.
\<close>

definition slots :: "six_lock_wait_fifo \<Rightarrow> nat \<Rightarrow> (waiter_id \<times> u64) option" where
  "slots fq j =
     (if j < length (wf_data fq)
      then map_option (\<lambda>w. (w, sl_start_time (wf_data fq ! j))) (sl_w (wf_data fq ! j)) else None)"

definition is_pow2 :: "nat \<Rightarrow> bool" where
  "is_pow2 n \<longleftrightarrow> (\<exists>k. n = 2 ^ k)"

definition fifo_ok :: "six_lock_wait_fifo \<Rightarrow> bool" where
  "fifo_ok fq \<longleftrightarrow>
     wf_size fq = length (wf_data fq) \<and> is_pow2 (wf_size fq) \<and> wf_nr fq \<le> wf_size fq \<and>
     wf_next_free_hint fq < wf_size fq \<and> (\<forall>i\<ge>wf_nr fq. slots fq i = None)"

lemma is_pow2_double: "is_pow2 n \<Longrightarrow> is_pow2 (n * 2)"
  unfolding is_pow2_def by (metis mult.commute power_Suc)

lemma fifo_ok_default: "fifo_ok six_lock_wait_fifo_default"
proof -
  have "is_pow2 8" unfolding is_pow2_def by (rule exI [of _ 3]) simp
  then show ?thesis
    by (simp add: fifo_ok_def six_lock_wait_fifo_default_def SIX_LOCK_INLINE_WAITERS_def slots_def empty_slot_def)
qed

lemma slots_default: "slots six_lock_wait_fifo_default = Map.empty"
  by (rule ext) (simp add: slots_def six_lock_wait_fifo_default_def empty_slot_def)

lemma slots_None: "i < length (wf_data fq) \<Longrightarrow> slots fq i = None \<longleftrightarrow> sl_w (wf_data fq ! i) = None"
  by (simp add: slots_def)

lemma fifo_shrink_nr_ok:
  assumes "nr \<le> length data"
  shows "\<exists>nr'. fifo_shrink_nr data nr = Some nr' \<and> nr' \<le> nr \<and> (\<forall>i. nr' \<le> i \<and> i < nr \<longrightarrow> sl_w (data ! i) = None)"
  using assms
proof (induction nr)
  case 0
  then show ?case by (simp add: fifo_shrink_nr.simps)
next
  case (Suc n)
  then obtain nr' where "fifo_shrink_nr data n = Some nr'" "nr' \<le> n"
      "\<forall>i. nr' \<le> i \<and> i < n \<longrightarrow> sl_w (data ! i) = None" by auto
  with Suc.prems show ?case
    by (subst fifo_shrink_nr.simps) (auto simp: nth_opt_def less_Suc_eq)
qed

lemma shrink_ok:
  assumes "fifo_ok fq"
  shows "\<exists>fq'. six_lock_wait_fifo_shrink fq = Some fq' \<and> fifo_ok fq' \<and> slots fq' = slots fq \<and> wf_data fq' = wf_data fq"
proof -
  obtain nr where nr: "fifo_shrink_nr (wf_data fq) (wf_nr fq) = Some nr" "nr \<le> wf_nr fq"
      "\<forall>i. nr \<le> i \<and> i < wf_nr fq \<longrightarrow> sl_w (wf_data fq ! i) = None"
    using fifo_shrink_nr_ok [of "wf_nr fq" "wf_data fq"] assms by (auto simp: fifo_ok_def)
  let ?q = "fq\<lparr>wf_nr := nr, wf_next_free_hint := min (wf_next_free_hint fq) nr\<rparr>"
  have s: "slots ?q = slots fq" by (rule ext) (simp add: slots_def)
  have "slots fq i = None" if "nr \<le> i" for i
    using that nr(3) assms by (cases "i < wf_nr fq") (auto simp: fifo_ok_def slots_def)
  with nr assms s show ?thesis
    by (auto simp: six_lock_wait_fifo_shrink_def fifo_ok_def)
qed

lemma remove_ok:
  assumes "fifo_ok fq" "i < length (wf_data fq)"
  shows "\<exists>fq'. six_lock_wait_fifo_remove fq i = Some fq' \<and> fifo_ok fq' \<and> slots fq' = (slots fq)(i := None) \<and>
     length (wf_data fq') = length (wf_data fq) \<and> wf_nr fq' = wf_nr fq"
proof -
  let ?q = "fq\<lparr>wf_data := (wf_data fq)[i := (wf_data fq ! i)\<lparr>sl_w := None\<rparr>],
      wf_next_free_hint := min (wf_next_free_hint fq) i\<rparr>"
  have s: "slots ?q = (slots fq)(i := None)"
    using assms(2) by (intro ext) (auto simp: slots_def nth_list_update)
  with assms have "fifo_ok ?q" by (auto simp: fifo_ok_def)
  with s assms(2) show ?thesis by (simp add: six_lock_wait_fifo_remove_def nth_opt_def)
qed

lemma fifo_first_free_ok:
  assumes "nr \<le> length data" "i \<le> nr"
  shows "\<exists>j. fifo_first_free data nr i = Some j \<and> i \<le> j \<and> j \<le> nr \<and> (j < nr \<longrightarrow> sl_w (data ! j) = None)"
  using assms
proof (induction data nr i rule: fifo_first_free.induct)
  case (1 data nr i)
  show ?case
  proof (cases "i < nr \<and> sl_w (data ! i) \<noteq> None")
    case True
    then obtain j where "fifo_first_free data nr (i + 1) = Some j" "i + 1 \<le> j" "j \<le> nr" "j < nr \<longrightarrow> sl_w (data ! j) = None"
      using 1 by (auto simp: nth_opt_def)
    with True 1 show ?thesis by (subst fifo_first_free.simps) (auto simp: nth_opt_def)
  next
    case False
    with 1 show ?thesis by (subst fifo_first_free.simps) (auto simp: nth_opt_def)
  qed
qed

lemma fifo_find_slot_ok:
  assumes "fifo_ok fq" "wf_size fq < 2 ^ 15"
  shows "\<exists>i fq'. fifo_find_slot fq = Some (i, fq') \<and> fifo_ok fq' \<and> slots fq' = slots fq \<and>
     i < length (wf_data fq') \<and> slots fq i = None"
proof (cases "slots fq (wf_next_free_hint fq) = None")
  case True
  with assms show ?thesis
    by (auto simp: fifo_find_slot_def nth_opt_def fifo_ok_def slots_None)
next
  case False
  let ?d = "wf_data fq"
  have hint: "wf_next_free_hint fq < length ?d" "sl_w (?d ! wf_next_free_hint fq) \<noteq> None" "wf_nr fq \<le> length ?d"
      "wf_size fq = length ?d"
    using False assms slots_None [of "wf_next_free_hint fq" fq] by (auto simp: fifo_ok_def)
  obtain j where j: "fifo_first_free ?d (wf_nr fq) 0 = Some j" "j \<le> wf_nr fq" "j < wf_nr fq \<longrightarrow> sl_w (?d ! j) = None"
    using fifo_first_free_ok [of "wf_nr fq" ?d 0] hint(3) by auto
  have free: "slots fq j = None"
    using j(2,3) hint(3) assms(1) by (cases "j < wf_nr fq") (auto simp: slots_None fifo_ok_def)
  show ?thesis
  proof (cases "j = length ?d")
    case True
    let ?q = "fq\<lparr>wf_size := length ?d * 2, wf_data := ?d @ replicate (length ?d) empty_slot\<rparr>"
    have s: "slots ?q = slots fq" by (rule ext) (auto simp: slots_def nth_append empty_slot_def)
    have "is_pow2 (length ?d * 2)" using assms(1) is_pow2_double by (auto simp: fifo_ok_def)
    then have "fifo_ok ?q" using s assms(1) by (auto simp: fifo_ok_def)
    moreover have "fifo_find_slot fq = Some (j, ?q)"
      using hint j(1) True assms(2) by (auto simp: fifo_find_slot_def nth_opt_def)
    moreover have "0 < length ?d" using hint(1) by linarith
    ultimately show ?thesis using s free True by auto
  next
    case ne: False
    with hint j(2) have "j < length ?d" by simp
    with hint j(1) ne free assms(1) show ?thesis by (auto simp: fifo_find_slot_def nth_opt_def)
  qed
qed

lemma insert_ok:
  assumes "fifo_ok fq" "wf_size fq < 2 ^ 15"
  shows "\<exists>i fq'. six_lock_wait_fifo_insert fq w wait = Some (fq', wait\<lparr>slot_idx := i\<rparr>) \<and> fifo_ok fq' \<and>
     slots fq i = None \<and> slots fq' = (slots fq)(i \<mapsto> (w, slot_time wait))"
proof -
  obtain i q1 where f: "fifo_find_slot fq = Some (i, q1)" "fifo_ok q1" "slots q1 = slots fq"
      "i < length (wf_data q1)" "slots fq i = None"
    using fifo_find_slot_ok [OF assms] by blast
  obtain k where k: "wf_size q1 = 2 ^ k" "wf_size q1 = length (wf_data q1)" using f(2) unfolding fifo_ok_def is_pow2_def by blast
  define q where "q = q1\<lparr>wf_data := (wf_data q1)[i := \<lparr>sl_w = Some w, sl_start_time = slot_time wait\<rparr>],
      wf_next_free_hint := (i + 1) AND (wf_size q1 - 1), wf_nr := max (wf_nr q1) (i + 1)\<rparr>"
  have s: "slots q = (slots fq)(i \<mapsto> (w, slot_time wait))"
    unfolding f(3) [symmetric] q_def using f(4) by (intro ext) (auto simp: slots_def nth_list_update)
  have "(i + 1) AND (2 ^ k - 1) = take_bit k (i + 1)" by (simp add: take_bit_eq_mask mask_eq_exp_minus_1)
  then have "(i + 1) AND (wf_size q1 - 1) < wf_size q1" by (simp add: k(1) take_bit_eq_mod)
  then have "fifo_ok q"
    using f(2,4) s f(3) by (auto simp: fifo_ok_def) (auto simp: q_def)
  moreover have "six_lock_wait_fifo_insert fq w wait = Some (q, wait\<lparr>slot_idx := i\<rparr>)"
    using f(1,4) by (simp add: six_lock_wait_fifo_insert_def nth_opt_def q_def)
  ultimately show ?thesis using s f(5) by blast
qed

section \<open>The interface of the waiting slots\<close>

text \<open>
  What the lock relies on: a store of entries at numbered slots, where inserting picks a free slot
  and changes no other, and removing empties one slot.
\<close>

locale slot_store =
  fixes ok :: "'q \<Rightarrow> bool" and room :: "'q \<Rightarrow> bool" and view :: "'q \<Rightarrow> nat \<Rightarrow> 'e option"
    and enc :: "'a \<Rightarrow> 'e" and ins :: "'q \<Rightarrow> 'a \<Rightarrow> ('q \<times> nat) option" and rem :: "'q \<Rightarrow> nat \<Rightarrow> 'q option"
  assumes ins_ok: "ok q \<Longrightarrow> room q \<Longrightarrow>
      \<exists>q' i. ins q a = Some (q', i) \<and> ok q' \<and> view q i = None \<and> view q' = (view q)(i \<mapsto> enc a)"
    and rem_ok: "ok q \<Longrightarrow> view q i \<noteq> None \<Longrightarrow> \<exists>q'. rem q i = Some q' \<and> ok q' \<and> view q' = (view q)(i := None)"
begin

lemma ins_rem:
  assumes "ok q" "room q"
  shows "\<exists>q' i q''. ins q a = Some (q', i) \<and> ok q' \<and> view q i = None \<and> view q' = (view q)(i \<mapsto> enc a) \<and>
     rem q' i = Some q'' \<and> ok q'' \<and> view q'' = view q"
proof -
  obtain q' i where i: "ins q a = Some (q', i)" "ok q'" "view q i = None" "view q' = (view q)(i \<mapsto> enc a)"
    using ins_ok [OF assms] by blast
  obtain q'' where "rem q' i = Some q''" "ok q''" "view q'' = (view q')(i := None)"
    using rem_ok [OF i(2), of i] i(4) by auto
  moreover from this have "view q'' = view q" using i(3,4) by auto
  ultimately show ?thesis using i by blast
qed

end

interpretation fifo: slot_store fifo_ok "\<lambda>fq. wf_size fq < 2 ^ 15" slots "\<lambda>(w, wait). (w, slot_time wait)"
  "\<lambda>fq (w, wait). map_option (\<lambda>(fq', wait'). (fq', slot_idx wait')) (six_lock_wait_fifo_insert fq w wait)"
  six_lock_wait_fifo_remove
proof
  fix q :: six_lock_wait_fifo and a :: "waiter_id \<times> six_lock_waiter"
  assume "fifo_ok q" "wf_size q < 2 ^ 15"
  from insert_ok [OF this, of "fst a" "snd a"] show "\<exists>q' i. (case a of (w, wait) \<Rightarrow>
        map_option (\<lambda>(fq', wait'). (fq', slot_idx wait')) (six_lock_wait_fifo_insert q w wait)) = Some (q', i) \<and>
      fifo_ok q' \<and> slots q i = None \<and> slots q' = (slots q)(i \<mapsto> (case a of (w, wait) \<Rightarrow> (w, slot_time wait)))"
    by (auto simp: case_prod_unfold)
next
  fix q :: six_lock_wait_fifo and i
  assume "fifo_ok q" "slots q i \<noteq> None"
  then show "\<exists>q'. six_lock_wait_fifo_remove q i = Some q' \<and> fifo_ok q' \<and> slots q' = (slots q)(i := None)"
    using remove_ok [of q i] by (cases "i < length (wf_data q)") (auto simp: slots_def)
qed

text \<open>
  Queueing a waiter never panics below the size limit, uses an empty slot, leaves every other
  waiter in its slot and records the slot in the waiter; removing it from that slot restores the queue.
\<close>

lemma six_fifo_insert_remove:
  assumes "fifo_ok fq" "wf_size fq < 2 ^ 15"
  shows "\<exists>fq' wait' fq''. six_lock_wait_fifo_insert fq w wait = Some (fq', wait') \<and> fifo_ok fq' \<and>
    slots fq (slot_idx wait') = None \<and> slots fq' = (slots fq)(slot_idx wait' \<mapsto> (w, slot_time wait)) \<and>
    six_lock_wait_fifo_remove fq' (slot_idx wait') = Some fq'' \<and> fifo_ok fq'' \<and> slots fq'' = slots fq"
  using fifo.ins_rem [OF assms, of "(w, wait)"] by auto

end
