(* ===== verification/Six_Protocol.thy ===== *)
theory Six_Protocol
  imports Six_Lock
begin

unbundle bit_operations_syntax

text \<open>
  The protocol of the shared/intent/exclusive lock: threads take and release the lock of
  \<^verbatim>\<open>lock/six.rs\<close> in any order, parking and being granted the lock by other threads' wake-ups. Beside the
  lock the states carry who holds it: the multiset of read holds, the writer, and the thread
  that has set the write bit but still waits for the readers to leave.
\<close>

section \<open>The invariant\<close>

text \<open>The state word and the owner agree with the holders.\<close>

definition core_inv :: "six_lock \<Rightarrow> thread multiset \<Rightarrow> thread option \<Rightarrow> thread option \<Rightarrow> bool" where
  "core_inv l R W P \<longleftrightarrow>
     readers (l_state l) = size R \<and> (bit (l_state l) 26 \<longleftrightarrow> l_owner l \<noteq> None) \<and>
     (bit (l_state l) 27 \<longleftrightarrow> W \<noteq> None \<or> P \<noteq> None) \<and> \<not> bit (l_state l) 31 \<and>
     (W = None \<or> P = None) \<and> (W \<noteq> None \<longrightarrow> R = {#} \<and> l_owner l = W) \<and> (P \<noteq> None \<longrightarrow> l_owner l = P)"

text \<open>Every queued waiter has a task, sits in the slot it remembers under the type it wants, and was
  not granted yet; only the pending writer queues for the write lock, in one slot.\<close>

definition slot_inv :: "six_lock \<Rightarrow> thread option \<Rightarrow> nat \<Rightarrow> waiter_id \<Rightarrow> u64 \<Rightarrow> bool" where
  "slot_inv l P i w tm \<longleftrightarrow>
     task (l_waiters l w) \<noteq> None \<and> slot_idx (l_waiters l w) = i \<and> \<not> lock_acquired (l_waiters l w) \<and>
     tm AND SIX_LOCK_WANT_MASK = of_nat (type_index (lock_want (l_waiters l w))) \<and>
     (lock_want (l_waiters l w) = SIX_LOCK_write \<longrightarrow> P = task (l_waiters l w))"

definition write_slots :: "six_lock \<Rightarrow> nat set" where
  "write_slots l = {i. \<exists>w tm. slots (l_wait l) i = Some (w, tm) \<and> lock_want (l_waiters l w) = SIX_LOCK_write}"

definition queue_inv :: "six_lock \<Rightarrow> thread option \<Rightarrow> bool" where
  "queue_inv l P \<longleftrightarrow> fifo_ok (l_wait l) \<and>
     (\<forall>i w tm. slots (l_wait l) i = Some (w, tm) \<longrightarrow> slot_inv l P i w tm) \<and>
     (\<forall>i j. i \<in> write_slots l \<and> j \<in> write_slots l \<longrightarrow> i = j)"

definition six_inv :: "six_lock \<Rightarrow> thread multiset \<Rightarrow> thread option \<Rightarrow> thread option \<Rightarrow> bool" where
  "six_inv l R W P \<longleftrightarrow> core_inv l R W P \<and> queue_inv l P"

abbreviation thr :: "six_lock \<Rightarrow> waiter_id \<Rightarrow> thread" where
  "thr l w \<equiv> the (task (l_waiters l w))"

lemma queue_inv_frame:
  assumes "l_wait l' = l_wait l" "l_waiters l' = l_waiters l"
  shows "queue_inv l' P = queue_inv l P"
  using assms by (simp add: queue_inv_def slot_inv_def write_slots_def)

lemma queue_slot: "queue_inv l P \<Longrightarrow> slots (l_wait l) i = Some (w, tm) \<Longrightarrow> slot_inv l P i w tm"
  by (simp add: queue_inv_def)

section \<open>Trying the lock\<close>

lemma trylock_read:
  assumes "core_inv l R W P" "size R < 2 ^ 26 - 1"
  shows "\<exists>l'. raw_do_six_trylock l SIX_LOCK_read t b = Some (W = None \<and> P = None, l') \<and>
     l_wait l' = l_wait l \<and> l_waiters l' = l_waiters l \<and>
     core_inv l' (if W = None \<and> P = None then add_mset t R else R) W P \<and> same_flags (l_state l) (l_state l')"
proof (cases "bit (l_state l) 27")
  case True
  with assms show ?thesis by (auto simp: raw_do_six_trylock_def six_masks core_inv_def Let_def)
next
  case False
  have r: "readers (l_state l) < 2 ^ 26 - 1" using assms by (simp add: core_inv_def)
  note inc = readers_inc [OF r]
  have free: "W = None" "P = None" using False assms(1) by (auto simp: core_inv_def)
  have "raw_do_six_trylock l SIX_LOCK_read t b = Some (True, l\<lparr>l_state := l_state l + 1\<rparr>)"
    using False inc by (simp add: raw_do_six_trylock_def six_masks six_set_owner_def Let_def)
  with inc free assms(1) show ?thesis by (auto simp: core_inv_def)
qed

lemma trylock_intent:
  assumes "core_inv l R W P"
  shows "\<exists>l'. raw_do_six_trylock l SIX_LOCK_intent t b = Some (l_owner l = None, l') \<and>
     l_wait l' = l_wait l \<and> l_waiters l' = l_waiters l \<and> core_inv l' R W P \<and>
     (l_owner l' = (if l_owner l = None then Some t else l_owner l)) \<and>
     (\<forall>n\<ge>27. bit (l_state l') n = bit (l_state l) n)"
proof (cases "bit (l_state l) 26")
  case True
  with assms show ?thesis by (auto simp: raw_do_six_trylock_def six_masks core_inv_def Let_def)
next
  case False
  have "raw_do_six_trylock l SIX_LOCK_intent t b =
      Some (True, l\<lparr>l_state := l_state l + SIX_LOCK_HELD_INTENT, l_owner := Some t\<rparr>)"
    using False assms by (simp add: raw_do_six_trylock_def six_masks six_set_owner_def core_inv_def Let_def)
  with False assms show ?thesis by (auto simp: core_inv_def six_masks)
qed

lemma trylock_write:
  assumes "core_inv l R W P" "l_owner l = Some t" "W = None" "P = None"
  shows "\<exists>l'. raw_do_six_trylock l SIX_LOCK_write t True = Some (R = {#}, l') \<and>
     l_wait l' = l_wait l \<and> l_waiters l' = l_waiters l \<and>
     core_inv l' R (if R = {#} then Some t else None) P"
proof (cases "R = {#}")
  case False
  with assms show ?thesis by (auto simp: raw_do_six_trylock_def six_masks core_inv_def Let_def)
next
  case True
  have b: "\<not> bit (l_state l) 27" "readers (l_state l) = 0" using assms True by (auto simp: core_inv_def)
  have "raw_do_six_trylock l SIX_LOCK_write t True = Some (True, l\<lparr>l_state := l_state l + SIX_LOCK_HELD_WRITE\<rparr>)"
    using b assms(2) by (simp add: raw_do_six_trylock_def six_masks six_set_owner_def Let_def)
  with True b assms show ?thesis by (auto simp: core_inv_def six_masks)
qed

text \<open>A wake-up tries the lock for the pending writer, whose bit is already set.\<close>

lemma trylock_pending:
  assumes "core_inv l R W P" "P = Some t"
  shows "raw_do_six_trylock l SIX_LOCK_write t False = Some (R = {#}, l)"
  using assms by (auto simp: raw_do_six_trylock_def six_masks core_inv_def Let_def six_set_owner_def)

section \<open>Granting\<close>

lemma slot_matches_iff:
  assumes "queue_inv l P" "slots (l_wait l) i = Some (w, tm)" "i < length (wf_data (l_wait l))"
  shows "slot_matches (wf_data (l_wait l) ! i) ty \<longleftrightarrow> lock_want (l_waiters l w) = ty"
    and "sl_w (wf_data (l_wait l) ! i) = Some w"
proof -
  have w: "sl_w (wf_data (l_wait l) ! i) = Some w" "sl_start_time (wf_data (l_wait l) ! i) = tm"
    using assms(2,3) by (auto simp: slots_def split: if_splits)
  have "tm AND SIX_LOCK_WANT_MASK = of_nat (type_index (lock_want (l_waiters l w)))"
    using assms(1,2) by (auto simp: queue_inv_def slot_inv_def)
  with w show "slot_matches (wf_data (l_wait l) ! i) ty \<longleftrightarrow> lock_want (l_waiters l w) = ty"
    by (cases ty; cases "lock_want (l_waiters l w)") (simp_all add: slot_matches_def)
  show "sl_w (wf_data (l_wait l) ! i) = Some w" by (rule w(1))
qed

lemma slots_length: "slots fq i = Some x \<Longrightarrow> i < length (wf_data fq)"
  by (auto simp: slots_def split: if_splits)

text \<open>A waiter is free if it sits in no slot; then it may be queued.\<close>

definition unqueued :: "six_lock \<Rightarrow> waiter_id \<Rightarrow> bool" where
  "unqueued l w \<longleftrightarrow> (\<forall>i tm. slots (l_wait l) i \<noteq> Some (w, tm))"

text \<open>Setting up a free waiter changes no slot.\<close>

lemma queue_inv_prepare:
  assumes "queue_inv l P" "unqueued l w" "l_wait l' = l_wait l" "l_waiters l' = (l_waiters l)(w := v)"
    and "P' = P \<or> write_slots l = {}"
  shows "queue_inv l' P'" "write_slots l' = write_slots l"
proof -
  have ne: "u \<noteq> w" if "slots (l_wait l) i = Some (u, tm)" for i u tm
    using that assms(2) by (auto simp: unqueued_def)
  show ws: "write_slots l' = write_slots l"
    using ne unfolding write_slots_def assms(3,4) fun_upd_apply by (auto simp: fun_upd_def split: if_splits) metis
  have "slot_inv l' P' i u tm" if s: "slots (l_wait l) i = Some (u, tm)" for i u tm
    using queue_slot [OF assms(1) s] ne [OF s] s assms(4,5) by (auto simp: slot_inv_def write_slots_def)
  then show "queue_inv l' P'" using assms(1,3) ws by (auto simp: queue_inv_def)
qed

text \<open>Emptying slot \<open>i\<close> keeps the queue consistent; the pending writer may only change if no
  write waiter is left. Marking the waiter then changes nothing.\<close>

lemma queue_inv_remove:
  assumes q: "queue_inv l P" and i: "slots (l_wait l) i = Some (w, tm)"
    and f: "fifo_ok fq" "slots fq = (slots (l_wait l))(i := None)"
    and P: "P' = P \<or> (\<forall>j. j \<in> write_slots l \<longrightarrow> j = i)"
  shows "queue_inv (l\<lparr>l_wait := fq\<rparr>) P'" "unqueued (l\<lparr>l_wait := fq\<rparr>) w"
proof -
  let ?l = "l\<lparr>l_wait := fq\<rparr>"
  have old: "slots (l_wait l) j = Some (v, tm')" "j \<noteq> i" if "slots fq j = Some (v, tm')" for j v tm'
    using that f(2) by (auto split: if_splits)
  show "unqueued ?l w"
    using old queue_slot [OF q] queue_slot [OF q i] by (fastforce simp: unqueued_def slot_inv_def)
  have ws: "write_slots ?l \<subseteq> write_slots l - {i}" using old by (fastforce simp: write_slots_def)
  have "slot_inv ?l P' j v tm'" if j: "slots fq j = Some (v, tm')" for j v tm'
  proof -
    have s: "slot_inv l P j v tm'" using q old(1) [OF j] by (auto simp: queue_inv_def)
    have "lock_want (l_waiters l v) = SIX_LOCK_write \<Longrightarrow> P' = P"
      using P old [OF j] by (auto simp: write_slots_def)
    with s show ?thesis by (auto simp: slot_inv_def)
  qed
  moreover have "\<forall>j k. j \<in> write_slots ?l \<and> k \<in> write_slots ?l \<longrightarrow> j = k"
    using ws q unfolding queue_inv_def by blast
  ultimately show "queue_inv ?l P'" using f(1) by (simp add: queue_inv_def)
qed

lemma queue_inv_grant:
  assumes "queue_inv l P" "slots (l_wait l) i = Some (w, tm)" "fifo_ok fq" "slots fq = (slots (l_wait l))(i := None)"
    and "P' = P \<or> (\<forall>j. j \<in> write_slots l \<longrightarrow> j = i)"
  shows "queue_inv (waiter_ready (l\<lparr>l_wait := fq\<rparr>) w) P'"
  by (rule queue_inv_prepare(1) [OF queue_inv_remove [OF assms]]) simp_all

lemma core_inv_frame:
  "l_state l' = l_state l \<Longrightarrow> l_owner l' = l_owner l \<Longrightarrow> core_inv l' R W P = core_inv l R W P"
  by (simp add: core_inv_def)

text \<open>The holders after a waiter that wanted \<open>ty\<close> was granted the lock.\<close>

fun granted :: "six_lock_type \<Rightarrow> thread \<Rightarrow> thread multiset \<times> thread option \<times> thread option \<Rightarrow>
    thread multiset \<times> thread option \<times> thread option" where
  "granted SIX_LOCK_read t (R, W, P) = (add_mset t R, W, P)"
| "granted SIX_LOCK_intent t (R, W, P) = (R, W, P)"
| "granted SIX_LOCK_write t (R, W, P) = (R, Some t, None)"

definition inv3 :: "six_lock \<Rightarrow> thread multiset \<times> thread option \<times> thread option \<Rightarrow> bool" where
  "inv3 l h \<longleftrightarrow> (case h of (R, W, P) \<Rightarrow> six_inv l R W P)"

definition core3 :: "six_lock \<Rightarrow> thread multiset \<times> thread option \<times> thread option \<Rightarrow> bool" where
  "core3 l h \<longleftrightarrow> (case h of (R, W, P) \<Rightarrow> core_inv l R W P)"

lemma core3_simp [simp]: "core3 l (R, W, P) = core_inv l R W P"
  by (simp add: core3_def)

lemma inv3_simp [simp]: "inv3 l (R, W, P) = six_inv l R W P"
  by (simp add: inv3_def)

lemma trylock_for_waiter:
  assumes inv: "six_inv l R W P" and i: "slots (l_wait l) i = Some (w, tm)"
    and ty: "lock_want (l_waiters l w) = ty" and R: "size R < 2 ^ 26 - 1"
  shows "\<exists>ok l'. raw_do_six_trylock l ty (thr l w) False = Some (ok, l') \<and>
     l_wait l' = l_wait l \<and> l_waiters l' = l_waiters l \<and>
     core3 l' (if ok then granted ty (thr l w) (R, W, P) else (R, W, P))"
proof -
  have c: "core_inv l R W P" using inv by (simp add: six_inv_def)
  show ?thesis
  proof (cases ty)
    case SIX_LOCK_read
    show ?thesis
    proof (cases "W = None \<and> P = None")
      case True
      with trylock_read [OF c R, of "thr l w" False] SIX_LOCK_read show ?thesis by fastforce
    next
      case False
      with trylock_read [OF c R, of "thr l w" False] SIX_LOCK_read show ?thesis by fastforce
    qed
  next
    case SIX_LOCK_intent
    then show ?thesis using trylock_intent [OF c, of "thr l w" False] by fastforce
  next
    case SIX_LOCK_write
    have "P = Some (thr l w)"
      using queue_slot [OF _ i, of P] inv ty SIX_LOCK_write by (auto simp: six_inv_def slot_inv_def)
    with trylock_pending [OF c this] c SIX_LOCK_write show ?thesis
      by (auto simp: core_inv_def)
  qed
qed

lemma grant_waiter_ok:
  assumes inv: "six_inv l R W P" and i: "slots (l_wait l) i = Some (w, tm)"
    and ty: "lock_want (l_waiters l w) = ty" and R: "size R < 2 ^ 26 - 1"
  shows "\<exists>ok l'. grant_waiter l i w ty = Some (ok, l') \<and>
     inv3 l' (if ok then granted ty (thr l w) (R, W, P) else (R, W, P)) \<and>
     slots (l_wait l') = (if ok then (slots (l_wait l))(i := None) else slots (l_wait l)) \<and>
     (\<forall>v. task (l_waiters l' v) = task (l_waiters l v) \<and> lock_want (l_waiters l' v) = lock_want (l_waiters l v)) \<and>
     (\<forall>v. lock_acquired (l_waiters l' v) \<longleftrightarrow> lock_acquired (l_waiters l v) \<or> ok \<and> v = w) \<and>
     length (wf_data (l_wait l')) = length (wf_data (l_wait l)) \<and> wf_nr (l_wait l') = wf_nr (l_wait l)"
proof -
  have q: "queue_inv l P" using inv by (simp add: six_inv_def)
  note s = queue_slot [OF q i]
  obtain ok l1 where tr: "raw_do_six_trylock l ty (thr l w) False = Some (ok, l1)"
      "l_wait l1 = l_wait l" "l_waiters l1 = l_waiters l"
    and core: "core3 l1 (if ok then granted ty (thr l w) (R, W, P) else (R, W, P))"
    using trylock_for_waiter [OF assms] by blast
  obtain t where tk: "task (l_waiters l w) = Some t" using s by (auto simp: slot_inv_def)
  show ?thesis
  proof (cases ok)
    case False
    have "grant_waiter l i w ty = Some (False, l1)" using tk tr(1) False by (simp add: grant_waiter_def)
    moreover have "six_inv l1 R W P"
      using core False q queue_inv_frame [OF tr(2,3), of P] by (simp add: six_inv_def)
    ultimately show ?thesis by (intro exI [of _ False] exI [of _ l1]) (simp add: tr(2,3))
  next
    case True
    obtain fq where f: "six_lock_wait_fifo_remove (l_wait l) i = Some fq" "fifo_ok fq"
        "slots fq = (slots (l_wait l))(i := None)" "length (wf_data fq) = length (wf_data (l_wait l))"
        "wf_nr fq = wf_nr (l_wait l)"
      using remove_ok [of "l_wait l" i] q slots_length [OF i] by (auto simp: queue_inv_def)
    obtain R' W' P' where g: "granted ty (thr l w) (R, W, P) = (R', W', P')" using prod_cases3 by blast
    have "P' = P \<or> (\<forall>j. j \<in> write_slots l1 \<longrightarrow> j = i)"
    proof (cases ty)
      case SIX_LOCK_write
      then have "i \<in> write_slots l1" using i ty tr(2,3) by (auto simp: write_slots_def)
      then show ?thesis using q queue_inv_frame [OF tr(2,3), of P] by (auto simp: queue_inv_def)
    qed (use g in simp_all)
    then have "queue_inv (waiter_ready (l1\<lparr>l_wait := fq\<rparr>) w) P'"
      using queue_inv_grant [of l1 P i w tm fq P'] q i f(2,3) tr(2,3) queue_inv_frame [OF tr(2,3), of P] by simp
    moreover have "core_inv (waiter_ready (l1\<lparr>l_wait := fq\<rparr>) w) R' W' P'"
      using core True g by (simp add: core_inv_def)
    ultimately have "inv3 (waiter_ready (l1\<lparr>l_wait := fq\<rparr>) w) (granted ty (thr l w) (R, W, P))"
      unfolding g by (simp only: inv3_simp six_inv_def)
    moreover have "grant_waiter l i w ty = Some (True, waiter_ready (l1\<lparr>l_wait := fq\<rparr>) w)"
      using tk tr f(1) True by (simp add: grant_waiter_def)
    ultimately show ?thesis
      by (intro exI [of _ True] exI [of _ "waiter_ready (l1\<lparr>l_wait := fq\<rparr>) w"]) (simp add: tr(2,3) f(3-5))
  qed
qed

section \<open>Wake-ups\<close>

text \<open>What a wake-up may change of the waiters: only the acquired marks of those it wakes.\<close>

definition waiters_frame :: "six_lock \<Rightarrow> six_lock \<Rightarrow> bool" where
  "waiters_frame l l' \<longleftrightarrow>
     (\<forall>v. task (l_waiters l' v) = task (l_waiters l v) \<and> lock_want (l_waiters l' v) = lock_want (l_waiters l v))"

lemma waiters_frame_refl [simp]: "waiters_frame l l"
  by (simp add: waiters_frame_def)

lemma waiters_frame_trans: "waiters_frame l l' \<Longrightarrow> waiters_frame l' l'' \<Longrightarrow> waiters_frame l l''"
  by (simp add: waiters_frame_def)

lemma waiters_frame_thr: "waiters_frame l l' \<Longrightarrow> thr l' w = thr l w"
  by (simp add: waiters_frame_def)

lemma slots_nth:
  "i < length (wf_data fq) \<Longrightarrow> sl_w (wf_data fq ! i) = Some w \<Longrightarrow> \<exists>tm. slots fq i = Some (w, tm)"
  by (simp add: slots_def)

lemma wakeup_readers_ok:
  assumes "six_inv l R W P" "nr \<le> length (wf_data (l_wait l))" "size R + (nr - i) < 2 ^ 26 - 1"
  shows "\<exists>l' new. wakeup_readers l nr i woken = Some (l', woken @ new) \<and> waiters_frame l l' \<and>
     six_inv l' (R + mset (map (thr l) new)) W P"
  using assms
proof (induction "nr - i" arbitrary: l i woken R)
  case 0
  then show ?case
    by (intro exI [of _ l] exI [of _ "[]"]) (subst wakeup_readers.simps, simp)
next
  case (Suc n)
  then have i: "i < length (wf_data (l_wait l))" "i < nr" "n = nr - (i + 1)" by auto
  then have sl: "nth_opt (wf_data (l_wait l)) i = Some (wf_data (l_wait l) ! i)" by (simp add: nth_opt_def)
  show ?case
  proof (cases "slot_matches (wf_data (l_wait l) ! i) SIX_LOCK_read")
    case False
    then have unf: "wakeup_readers l nr i woken = wakeup_readers l nr (i + 1) woken"
      using i(2) by (subst wakeup_readers.simps) (simp add: sl)
    have "size R + (nr - (i + 1)) < 2 ^ 26 - 1" using Suc.prems(3) by simp
    from Suc.hyps(1) [OF i(3) Suc.prems(1,2) this] show ?thesis unfolding unf .
  next
    case True
    then obtain w where w: "sl_w (wf_data (l_wait l) ! i) = Some w" by (auto simp: slot_matches_def)
    then obtain tm where s: "slots (l_wait l) i = Some (w, tm)" using slots_nth [OF i(1)] by blast
    have want: "lock_want (l_waiters l w) = SIX_LOCK_read"
      using slot_matches_iff(1) [OF _ s i(1)] Suc.prems(1) True by (auto simp: six_inv_def)
    have R: "size R < 2 ^ 26 - 1" using Suc.prems(3) by simp
    obtain ok l1 where g: "grant_waiter l i w SIX_LOCK_read = Some (ok, l1)"
        "inv3 l1 (if ok then granted SIX_LOCK_read (thr l w) (R, W, P) else (R, W, P))"
        "\<forall>v. task (l_waiters l1 v) = task (l_waiters l v) \<and> lock_want (l_waiters l1 v) = lock_want (l_waiters l v)"
        "length (wf_data (l_wait l1)) = length (wf_data (l_wait l))"
      using grant_waiter_ok [OF Suc.prems(1) s want R] by blast
    have fr: "waiters_frame l l1" using g(3) by (simp add: waiters_frame_def)
    have unf: "wakeup_readers l nr i woken =
        (if ok then wakeup_readers l1 nr (i + 1) (woken @ [w]) else Some (l1, woken))"
      using i(2) True by (subst wakeup_readers.simps) (simp add: sl w g(1))
    show ?thesis
    proof (cases ok)
      case False
      with g(2) fr unf show ?thesis by (intro exI [of _ l1] exI [of _ "[]"]) simp
    next
      case True
      have inv1: "six_inv l1 (add_mset (thr l w) R) W P" using g(2) True by simp
      have sz: "size (add_mset (thr l w) R) + (nr - (i + 1)) < 2 ^ 26 - 1" using Suc.prems(3) i(2) by simp
      have nr: "nr \<le> length (wf_data (l_wait l1))" using Suc.prems(2) g(4) by simp
      obtain l' new where ih: "wakeup_readers l1 nr (i + 1) (woken @ [w]) = Some (l', (woken @ [w]) @ new)"
          "waiters_frame l1 l'" "six_inv l' (add_mset (thr l w) R + mset (map (thr l1) new)) W P"
        using Suc.hyps(1) [OF i(3) inv1 nr sz] by blast
      have "thr l1 = thr l" using fr by (simp add: waiters_frame_def)
      then show ?thesis
        using ih unf True waiters_frame_trans [OF fr ih(2)]
        by (intro exI [of _ l'] exI [of _ "w # new"]) simp
    qed
  qed
qed

text \<open>The scan for the oldest waiter of a type finds a waiter with the least start time.\<close>

lemma oldest_fold:
  assumes "fold (oldest_step data ty) [0..<nr] (None, 0) = (oldest, n)"
  shows "case oldest of
      None \<Rightarrow> \<forall>i<nr. \<not> slot_matches (data ! i) ty
    | Some j \<Rightarrow> j < nr \<and> slot_matches (data ! j) ty \<and>
        (\<forall>i<nr. slot_matches (data ! i) ty \<longrightarrow> sl_start_time (data ! j) \<le> sl_start_time (data ! i))"
  using assms
proof (induction nr arbitrary: oldest n)
  case (Suc nr)
  obtain o' n' where f: "fold (oldest_step data ty) [0..<nr] (None, 0) = (o', n')" by fastforce
  note IH = Suc.IH [OF f]
  have step: "oldest_step data ty nr (o', n') = (oldest, n)" using Suc.prems f by simp
  show ?case
    using IH step
    by (auto simp: oldest_step_def Let_def less_Suc_eq not_less split: option.splits if_splits)
qed simp

lemma oldest_match_ok:
  assumes "nr \<le> length data"
  shows "\<exists>oldest n. oldest_match data ty nr = Some (oldest, n) \<and>
    (case oldest of
      None \<Rightarrow> \<forall>i<nr. \<not> slot_matches (data ! i) ty
    | Some j \<Rightarrow> j < nr \<and> slot_matches (data ! j) ty \<and>
        (\<forall>i<nr. slot_matches (data ! i) ty \<longrightarrow> sl_start_time (data ! j) \<le> sl_start_time (data ! i)))"
  using assms oldest_fold [of data ty nr] by (simp add: oldest_match_def prod_eq_iff split: prod.split)

lemma clear_waiting_ok:
  assumes "six_inv l R W P"
  shows "\<exists>l'. clear_waiting l ty = Some l' \<and> six_inv l' R W P \<and> l_waiters l' = l_waiters l \<and>
     slots (l_wait l') = slots (l_wait l) \<and> wf_data (l_wait l') = wf_data (l_wait l)"
proof -
  obtain fq where f: "six_lock_wait_fifo_shrink (l_wait l) = Some fq" "fifo_ok fq" "slots fq = slots (l_wait l)"
      "wf_data fq = wf_data (l_wait l)"
    using shrink_ok [of "l_wait l"] assms by (auto simp: six_inv_def queue_inv_def)
  let ?l = "l\<lparr>l_state := l_state l AND NOT (waiting_mask ty), l_wait := fq\<rparr>"
  have "core_inv ?l R W P"
    using assms type_index_less [of ty] by (auto simp: six_inv_def core_inv_def six_masks)
  moreover have "queue_inv ?l P"
    using assms f(2,3) by (auto simp: six_inv_def queue_inv_def slot_inv_def write_slots_def)
  ultimately show ?thesis using f by (simp add: clear_waiting_def six_inv_def)
qed

lemma raw_six_lock_wakeup_ok:
  assumes inv: "six_inv l R W P" and b: "size R + length (wf_data (l_wait l)) < 2 ^ 26 - 1"
  shows "\<exists>l' woken. raw_six_lock_wakeup l ty = Some (l', woken) \<and> waiters_frame l l' \<and>
     inv3 l' (fold (granted ty) (map (thr l) woken) (R, W, P))"
proof -
  have q: "queue_inv l P" and nr: "wf_nr (l_wait l) \<le> length (wf_data (l_wait l))"
    using inv by (auto simp: six_inv_def queue_inv_def fifo_ok_def)
  have fold_read: "fold (granted SIX_LOCK_read) ts (R, W, P) = (R + mset ts, W, P)" for ts R
    by (induction ts arbitrary: R) simp_all
  show ?thesis
  proof (cases "ty = SIX_LOCK_read")
    case True
    have "size R + (wf_nr (l_wait l) - 0) < 2 ^ 26 - 1" using b nr by simp
    from wakeup_readers_ok [OF inv nr this, of "[]"] obtain l1 new where
        w: "wakeup_readers l (wf_nr (l_wait l)) 0 [] = Some (l1, new)" "waiters_frame l l1"
          "six_inv l1 (R + mset (map (thr l) new)) W P" by auto
    obtain l2 where c: "clear_waiting l1 ty = Some l2" "six_inv l2 (R + mset (map (thr l) new)) W P"
        "l_waiters l2 = l_waiters l1"
      using clear_waiting_ok [OF w(3)] by blast
    have "waiters_frame l l2" using w(2) c(3) by (simp add: waiters_frame_def)
    with True w(1) c(1,2) fold_read [of "map (thr l) new" R] show ?thesis by (simp add: raw_six_lock_wakeup_def)
  next
    case False
    obtain oldest n where o: "oldest_match (wf_data (l_wait l)) ty (wf_nr (l_wait l)) = Some (oldest, n)"
      and m: "case oldest of None \<Rightarrow> \<forall>i<wf_nr (l_wait l). \<not> slot_matches (wf_data (l_wait l) ! i) ty
        | Some j \<Rightarrow> j < wf_nr (l_wait l) \<and> slot_matches (wf_data (l_wait l) ! j) ty \<and>
          (\<forall>i<wf_nr (l_wait l). slot_matches (wf_data (l_wait l) ! i) ty \<longrightarrow>
             sl_start_time (wf_data (l_wait l) ! j) \<le> sl_start_time (wf_data (l_wait l) ! i))"
      using oldest_match_ok [OF nr, of ty] by force
    show ?thesis
    proof (cases oldest)
      case None
      with clear_waiting_ok [OF inv, of ty] False o show ?thesis
        by (auto simp: raw_six_lock_wakeup_def waiters_frame_def)
    next
      case (Some i)
      have i: "i < length (wf_data (l_wait l))" "slot_matches (wf_data (l_wait l) ! i) ty" using m Some nr by auto
      then obtain w where w: "sl_w (wf_data (l_wait l) ! i) = Some w" by (auto simp: slot_matches_def)
      then obtain tm where s: "slots (l_wait l) i = Some (w, tm)" using slots_nth [OF i(1)] by blast
      have want: "lock_want (l_waiters l w) = ty" using slot_matches_iff(1) [OF q s i(1)] i(2) by simp
      have R: "size R < 2 ^ 26 - 1" using b by simp
      obtain ok l1 where g: "grant_waiter l i w ty = Some (ok, l1)"
          "inv3 l1 (if ok then granted ty (thr l w) (R, W, P) else (R, W, P))" "waiters_frame l l1"
        using grant_waiter_ok [OF inv s want R] unfolding waiters_frame_def by blast
      obtain R' W' P' where h: "(if ok then granted ty (thr l w) (R, W, P) else (R, W, P)) = (R', W', P')"
        using prod_cases3 by blast
      have inv1: "six_inv l1 R' W' P'" using g(2) unfolding h by simp
      have ghost: "fold (granted ty) (map (thr l) (if ok then [w] else [])) (R, W, P) = (R', W', P')"
        using h by (auto split: if_splits)
      show ?thesis
      proof (cases "ok \<and> n > 1")
        case True
        obtain fq where f: "six_lock_wait_fifo_shrink (l_wait l1) = Some fq" "fifo_ok fq" "slots fq = slots (l_wait l1)"
          using shrink_ok [of "l_wait l1"] inv1 by (auto simp: six_inv_def queue_inv_def)
        have "six_inv (l1\<lparr>l_wait := fq\<rparr>) R' W' P'"
          using inv1 f(2,3) by (auto simp: six_inv_def core_inv_def queue_inv_def slot_inv_def write_slots_def)
        moreover have "waiters_frame l (l1\<lparr>l_wait := fq\<rparr>)" using g(3) by (simp add: waiters_frame_def)
        moreover have "raw_six_lock_wakeup l ty = Some (l1\<lparr>l_wait := fq\<rparr>, if ok then [w] else [])"
          using False o Some w g(1) True f(1) by (simp add: raw_six_lock_wakeup_def Let_def)
        ultimately show ?thesis using ghost by (metis inv3_simp)
      next
        case no: False
        obtain l2 where c: "clear_waiting l1 ty = Some l2" "six_inv l2 R' W' P'" "l_waiters l2 = l_waiters l1"
          using clear_waiting_ok [OF inv1] by blast
        have "waiters_frame l l2" using g(3) c(3) by (simp add: waiters_frame_def)
        moreover have "raw_six_lock_wakeup l ty = Some (l2, if ok then [w] else [])"
          using False o Some w g(1) no c(1) by (auto simp: raw_six_lock_wakeup_def Let_def)
        ultimately show ?thesis using ghost c(2) by (metis inv3_simp)
      qed
    qed
  qed
qed

lemma six_lock_wakeup_ok:
  assumes "six_inv l R W P" "size R + length (wf_data (l_wait l)) < 2 ^ 26 - 1"
  shows "\<exists>l' woken. six_lock_wakeup l s ty = Some (l', woken) \<and> waiters_frame l l' \<and>
     inv3 l' (fold (granted ty) (map (thr l) woken) (R, W, P))"
  using raw_six_lock_wakeup_ok [OF assms] assms(1) by (auto simp: six_lock_wakeup_def)

section \<open>Every operation keeps the invariant and does not panic\<close>

text \<open>The 26-bit reader count cannot overflow: there are fewer threads than that.\<close>

definition few :: "six_lock \<Rightarrow> thread multiset \<Rightarrow> bool" where
  "few l R \<longleftrightarrow> size R + length (wf_data (l_wait l)) < 2 ^ 26 - 1"

lemma six_inv_same_queue:
  assumes "six_inv l R W P" "l_wait l' = l_wait l" "l_waiters l' = l_waiters l" "core_inv l' R' W' P'"
    and "P' = P \<or> write_slots l = {}"
  shows "six_inv l' R' W' P'"
proof -
  have "slot_inv l P' i w tm" if "slot_inv l P i w tm" "slots (l_wait l) i = Some (w, tm)" for i w tm
    using that assms(5) by (auto simp: slot_inv_def write_slots_def)
  then have "queue_inv l P'" using assms(1) by (auto simp: six_inv_def queue_inv_def)
  then show ?thesis using assms(2-4) queue_inv_frame [OF assms(2,3)] by (simp add: six_inv_def)
qed

lemma no_pending_no_write_slots: "six_inv l R W None \<Longrightarrow> write_slots l = {}"
  using queue_slot [of l None] by (fastforce simp: six_inv_def slot_inv_def write_slots_def)

text \<open>Who may release a lock of each type, and the holders right after the release, before any
  wake-up. A thread that still holds or awaits the write lock must not drop its intent lock.\<close>

type_synonym holders = "thread multiset \<times> thread option \<times> thread option"

definition may_unlock :: "six_lock \<Rightarrow> six_lock_type \<Rightarrow> thread \<Rightarrow> holders \<Rightarrow> bool" where
  "may_unlock l ty t h \<longleftrightarrow> (case h of (R, W, P) \<Rightarrow> (case ty of
     SIX_LOCK_read \<Rightarrow> t \<in># R
   | SIX_LOCK_intent \<Rightarrow> l_owner l = Some t \<and> W = None \<and> P = None
   | SIX_LOCK_write \<Rightarrow> W = Some t))"

definition released :: "six_lock_type \<Rightarrow> thread \<Rightarrow> holders \<Rightarrow> holders" where
  "released ty t h = (case h of (R, W, P) \<Rightarrow> (case ty of
     SIX_LOCK_read \<Rightarrow> (R - {#t#}, W, P)
   | SIX_LOCK_intent \<Rightarrow> (R, W, P)
   | SIX_LOCK_write \<Rightarrow> (R, None, P)))"

definition unlock_word :: "six_lock \<Rightarrow> six_lock_type \<Rightarrow> six_lock" where
  "unlock_word l ty = (if ty = SIX_LOCK_intent then l\<lparr>l_owner := None\<rparr> else l)\<lparr>l_state := l_state l - lock_val ty\<rparr>"

lemma unlock_word_core:
  assumes c: "core_inv l R W P" and h: "may_unlock l ty t (R, W, P)"
  shows "core3 (unlock_word l ty) (released ty t (R, W, P))" "l_state l AND held_mask ty \<noteq> 0"
proof -
  have r: "readers (l_state l) \<noteq> 0" if "ty = SIX_LOCK_read"
    using c h that by (auto simp: core_inv_def may_unlock_def)
  show "core3 (unlock_word l ty) (released ty t (R, W, P))" "l_state l AND held_mask ty \<noteq> 0"
    using c h readers_dec [of "l_state l"] r
    by (cases ty; auto simp: core_inv_def may_unlock_def released_def unlock_word_def six_masks size_Diff_singleton)+
qed

lemma do_unlock_ok:
  assumes inv: "six_inv l R W P" and h: "may_unlock l ty t (R, W, P)" and f: "few l R"
  shows "\<exists>l' woken. do_six_unlock_type l ty = Some (l', woken) \<and>
     inv3 l' (fold (granted (unlock_wakeup ty)) (map (thr l) woken) (released ty t (R, W, P)))"
proof -
  let ?l = "unlock_word l ty"
  obtain R' W' P' where rel: "released ty t (R, W, P) = (R', W', P')" using prod_cases3 by blast
  have c: "core_inv l R W P" using inv by (simp add: six_inv_def)
  have q: "l_wait ?l = l_wait l" "l_waiters ?l = l_waiters l" by (simp_all add: unlock_word_def)
  have "P' = P" using rel by (cases ty) (auto simp: released_def)
  then have inv': "six_inv ?l R' W' P'"
    using six_inv_same_queue [OF inv q, of R' W' P'] unlock_word_core(1) [OF c h] rel by simp
  have "size R' \<le> size R" using rel size_Diff1_le [of R t] by (cases ty) (auto simp: released_def)
  then have few': "size R' + length (wf_data (l_wait ?l)) < 2 ^ 26 - 1" using f q by (simp add: few_def)
  have "\<not> bit (l_state l) 31" using c by (simp add: core_inv_def)
  then have "do_six_unlock_type l ty = six_lock_wakeup ?l (l_state l - lock_val ty) (unlock_wakeup ty)"
    using unlock_word_core(2) [OF c h]
    by (cases ty) (simp_all add: do_six_unlock_type_def unlock_word_def and_nospin Let_def)
  with six_lock_wakeup_ok [OF inv' few', of "l_state l - lock_val ty" "unlock_wakeup ty"] q rel show ?thesis by auto
qed

definition recursive :: "six_lock \<Rightarrow> six_lock_type \<Rightarrow> bool" where
  "recursive l ty \<longleftrightarrow>
     ty = SIX_LOCK_intent \<and> l_intent_recurse l \<noteq> 0 \<or> ty = SIX_LOCK_write \<and> l_write_recurse l \<noteq> 0"

lemma six_unlock_ok:
  assumes inv: "six_inv l R W P" and h: "may_unlock l ty t (R, W, P)" and f: "few l R"
  shows "\<exists>l' woken. six_unlock_ip l ty t = Some (l', woken) \<and>
     inv3 l' (if recursive l ty then (R, W, P)
              else fold (granted (unlock_wakeup ty)) (map (thr l) woken) (released ty t (R, W, P)))"
proof -
  have g: "ty = SIX_LOCK_write \<longrightarrow> bit (l_state l) 26" "ty = SIX_LOCK_write \<or> ty = SIX_LOCK_intent \<longrightarrow> l_owner l = Some t"
    using inv h by (auto simp: six_inv_def core_inv_def may_unlock_def)
  show ?thesis
  proof (cases "recursive l ty")
    case True
    have "six_inv (l\<lparr>l_intent_recurse := x\<rparr>) R W P" "six_inv (l\<lparr>l_write_recurse := x\<rparr>) R W P" for x
      by (rule six_inv_same_queue [OF inv]; use inv in \<open>simp add: six_inv_def core_inv_def\<close>)+
    with True g show ?thesis by (auto simp: six_unlock_ip_def recursive_def six_masks)
  next
    case False
    let ?l = "if ty = SIX_LOCK_write then l\<lparr>l_seq := l_seq l + 1\<rparr> else l"
    have inv': "six_inv ?l R W P"
      by (rule six_inv_same_queue [OF inv]; use inv in \<open>simp add: six_inv_def core_inv_def\<close>)
    have "may_unlock ?l ty t (R, W, P)" "few ?l R" using h f by (cases ty; simp add: may_unlock_def few_def)+
    from do_unlock_ok [OF inv' this] False g show ?thesis
      by (auto simp: six_unlock_ip_def recursive_def six_masks split: if_splits)
  qed
qed

lemma tryupgrade_ok:
  assumes inv: "six_inv l R W P" and t: "t \<in># R"
  shows "\<exists>l'. six_lock_tryupgrade l t = Some (l_owner l = None, l') \<and>
     inv3 l' (if l_owner l = None then R - {#t#} else R, W, P) \<and>
     (l_owner l = None \<longrightarrow> l_owner l' = Some t)"
proof (cases "l_owner l = None")
  case False
  with inv show ?thesis by (auto simp: six_inv_def core_inv_def six_lock_tryupgrade_def six_masks Let_def)
next
  case True
  have b: "\<not> bit (l_state l) 26" "readers (l_state l) \<noteq> 0" using inv t True by (auto simp: six_inv_def core_inv_def)
  note dec = readers_dec [OF b(2)]
  let ?l = "l\<lparr>l_state := (l_state l - 1) OR SIX_LOCK_HELD_INTENT, l_owner := Some t\<rparr>"
  have "core_inv ?l (R - {#t#}) W P"
    using inv t True dec by (auto simp: six_inv_def core_inv_def six_masks size_Diff_singleton)
  then have "six_inv ?l (R - {#t#}) W P" by (rule six_inv_same_queue [OF inv, rotated 2]) simp_all
  moreover have "six_lock_tryupgrade l t = Some (True, ?l)"
    using b True by (simp add: six_lock_tryupgrade_def six_masks Let_def six_set_owner_def)
  ultimately show ?thesis using True by auto
qed

lemma increment_read_ok:
  assumes inv: "six_inv l R None P" and t: "t \<in># R \<or> l_owner l = Some t" and f: "few l R"
  shows "\<exists>l'. six_lock_increment l SIX_LOCK_read = Some l' \<and> six_inv l' (add_mset t R) None P \<and>
    l_wait l' = l_wait l \<and> l_waiters l' = l_waiters l \<and> l_owner l' = l_owner l \<and>
    l_intent_recurse l' = l_intent_recurse l"
proof -
  have r: "readers (l_state l) < 2 ^ 26 - 1" using inv f by (auto simp: six_inv_def core_inv_def few_def)
  note inc = readers_inc [OF r]
  let ?l = "l\<lparr>l_state := l_state l + 1\<rparr>"
  have "core_inv ?l (add_mset t R) None P" using inv inc by (auto simp: six_inv_def core_inv_def)
  then have "six_inv ?l (add_mset t R) None P" by (rule six_inv_same_queue [OF inv, rotated 2]) simp_all
  moreover have "l_state l AND (SIX_LOCK_HELD_READ OR SIX_LOCK_HELD_INTENT) \<noteq> 0"
  proof -
    have "readers (l_state l) \<noteq> 0 \<or> bit (l_state l) 26" using inv t by (auto simp: six_inv_def core_inv_def)
    moreover have "x AND (y OR z) = 0 \<longleftrightarrow> x AND y = 0 \<and> x AND z = 0" for x y z :: u32
      by (auto simp: bit_eq_iff bit_simps)
    ultimately show ?thesis by (simp add: six_masks)
  qed
  ultimately show ?thesis by (simp add: six_lock_increment_def)
qed

lemma downgrade_ok:
  assumes inv: "six_inv l R None None" and t: "l_owner l = Some t" "l_intent_recurse l = 0" and f: "few l (add_mset t R)"
  shows "\<exists>l' woken. six_lock_downgrade l t = Some (l', woken) \<and>
     inv3 l' (fold (granted SIX_LOCK_intent) (map (thr l) woken) (add_mset t R, None, None))"
proof -
  have "few l R" using f by (simp add: few_def)
  then obtain l1 where l1: "six_lock_increment l SIX_LOCK_read = Some l1" "six_inv l1 (add_mset t R) None None"
      "l_wait l1 = l_wait l" "l_waiters l1 = l_waiters l" "l_owner l1 = l_owner l" "l_intent_recurse l1 = l_intent_recurse l"
    using increment_read_ok [OF inv, of t] t by auto
  have "few l1 (add_mset t R)" using f l1(3) by (simp add: few_def)
  from six_unlock_ok [OF l1(2) _ this, of SIX_LOCK_intent t] l1 t show ?thesis
    by (auto simp: six_lock_downgrade_def may_unlock_def released_def recursive_def)
qed

lemma slot_time_want: "slot_time w AND SIX_LOCK_WANT_MASK = of_nat (type_index (lock_want w))"
proof -
  have m: "(3 :: u64) = mask 2" by (simp add: mask_numeral)
  have "push_bit 2 x AND mask 2 = 0" for x :: u64
    by (rule bit_word_eqI) (auto simp: bit_simps)
  moreover have "of_nat (type_index (lock_want w)) AND mask 2 = (of_nat (type_index (lock_want w)) :: u64)"
    by (cases "lock_want w") (simp_all add: mask_numeral)
  ultimately show ?thesis
    by (simp only: slot_time_def SIX_LOCK_WANT_MASK_def SIX_LOCK_WANT_BITS_def m word_ao_dist word_bw_assocs
        and.right_idem or.left_neutral and.idem)
qed

lemma queue_inv_insert:
  assumes q: "queue_inv l P" and w: "unqueued l w" and sz: "wf_size (l_wait l) < 2 ^ 15"
    and v: "task (l_waiters l w) = Some t" "\<not> lock_acquired (l_waiters l w)"
    and wr: "lock_want (l_waiters l w) = SIX_LOCK_write \<Longrightarrow> P = Some t \<and> write_slots l = {}"
  shows "\<exists>fq wait. six_lock_wait_fifo_insert (l_wait l) w (l_waiters l w) = Some (fq, wait) \<and>
     queue_inv (l\<lparr>l_wait := fq, l_waiters := (l_waiters l)(w := wait)\<rparr>) P"
proof -
  have fq: "fifo_ok (l_wait l)" using q by (simp add: queue_inv_def)
  obtain i fq where f: "six_lock_wait_fifo_insert (l_wait l) w (l_waiters l w) = Some (fq, (l_waiters l w)\<lparr>slot_idx := i\<rparr>)"
      "fifo_ok fq" "slots (l_wait l) i = None" "slots fq = (slots (l_wait l))(i \<mapsto> (w, slot_time (l_waiters l w)))"
    using insert_ok [OF fq sz] by blast
  let ?l = "l\<lparr>l_wait := fq, l_waiters := (l_waiters l)(w := (l_waiters l w)\<lparr>slot_idx := i\<rparr>)\<rparr>"
  have ne: "u \<noteq> w" if "slots (l_wait l) j = Some (u, tm)" for j u tm
    using that w by (auto simp: unqueued_def)
  have "slot_inv ?l P j u tm" if s: "slots fq j = Some (u, tm)" for j u tm
  proof (cases "j = i")
    case True
    with s f(4) have "u = w" "tm = slot_time (l_waiters l w)" by auto
    with True v wr show ?thesis by (auto simp: slot_inv_def slot_time_want)
  next
    case False
    with s f(4) have "slots (l_wait l) j = Some (u, tm)" by simp
    from queue_slot [OF q this] ne [OF this] show ?thesis by (auto simp: slot_inv_def)
  qed
  moreover have "write_slots ?l \<subseteq> (if lock_want (l_waiters l w) = SIX_LOCK_write then {i} else write_slots l)"
  proof
    fix j assume "j \<in> write_slots ?l"
    then obtain u tm where u: "slots fq j = Some (u, tm)" "lock_want (l_waiters ?l u) = SIX_LOCK_write"
      by (auto simp: write_slots_def)
    show "j \<in> (if lock_want (l_waiters l w) = SIX_LOCK_write then {i} else write_slots l)"
    proof (cases "j = i")
      case True
      with u f(4) show ?thesis by (auto split: if_splits)
    next
      case False
      with u(1) f(4) have s: "slots (l_wait l) j = Some (u, tm)" by simp
      with ne [OF s] u(2) have "j \<in> write_slots l" by (auto simp: write_slots_def)
      with wr show ?thesis by auto
    qed
  qed
  then have "\<forall>j k. j \<in> write_slots ?l \<and> k \<in> write_slots ?l \<longrightarrow> j = k"
    using q unfolding queue_inv_def by (cases "lock_want (l_waiters l w) = SIX_LOCK_write") (simp, blast)+
  ultimately show ?thesis using f(1,2) by (auto simp: queue_inv_def)
qed

text \<open>The holders after entering the slow path: a write waiter becomes the pending writer.\<close>

definition entered :: "six_lock_type \<Rightarrow> thread \<Rightarrow> bool \<Rightarrow> thread multiset \<times> thread option \<times> thread option \<Rightarrow>
    thread multiset \<times> thread option \<times> thread option" where
  "entered ty t ok h = (case h of (R, W, P) \<Rightarrow>
     if ok then granted ty t (R, W, P) else if ty = SIX_LOCK_write then (R, W, Some t) else (R, W, P))"

text \<open>The part of the slow path under the wait lock, once the state word is prepared.\<close>

lemma try_or_queue_ok:
  assumes inv: "six_inv l R W P" and w: "unqueued l w" and sz: "wf_size (l_wait l) < 2 ^ 15" and f: "few l R"
    and v: "task (l_waiters l w) = Some t" "\<not> lock_acquired (l_waiters l w)" "lock_want (l_waiters l w) = ty"
    and wr: "ty = SIX_LOCK_write \<Longrightarrow> P = Some t \<and> write_slots l = {}"
  shows "\<exists>ok l'. (do { (ok, l) \<leftarrow> raw_do_six_trylock l ty t False;
          if ok then Some (True, l)
          else do { (fq, wait) \<leftarrow> six_lock_wait_fifo_insert (l_wait l) w (l_waiters l w);
                    Some (False, l\<lparr>l_wait := fq, l_waiters := (l_waiters l)(w := wait)\<rparr>) } }) = Some (ok, l') \<and>
     inv3 l' (if ok then granted ty t (R, W, P) else (R, W, P))"
proof -
  have c: "core_inv l R W P" and q: "queue_inv l P" using inv by (auto simp: six_inv_def)
  have "\<exists>ok l1. raw_do_six_trylock l ty t False = Some (ok, l1) \<and> l_wait l1 = l_wait l \<and> l_waiters l1 = l_waiters l \<and>
      core3 l1 (if ok then granted ty t (R, W, P) else (R, W, P))"
  proof (cases ty)
    case SIX_LOCK_read
    have "size R < 2 ^ 26 - 1" using f by (simp add: few_def)
    from trylock_read [OF c this, of t False] SIX_LOCK_read show ?thesis
      by (cases "W = None \<and> P = None") fastforce+
  next
    case SIX_LOCK_intent
    then show ?thesis using trylock_intent [OF c, of t False] by fastforce
  next
    case SIX_LOCK_write
    with wr trylock_pending [OF c, of t] c show ?thesis by (auto simp: core_inv_def)
  qed
  then obtain ok l1 where tr: "raw_do_six_trylock l ty t False = Some (ok, l1)" "l_wait l1 = l_wait l"
      "l_waiters l1 = l_waiters l" and core: "core3 l1 (if ok then granted ty t (R, W, P) else (R, W, P))" by blast
  show ?thesis
  proof (cases ok)
    case True
    obtain R' W' P' where g: "granted ty t (R, W, P) = (R', W', P')" using prod_cases3 by blast
    have "six_inv l1 R' W' P'"
    proof (rule six_inv_same_queue [OF inv tr(2,3)])
      show "core_inv l1 R' W' P'" using core True g by simp
      show "P' = P \<or> write_slots l = {}" using g wr by (cases ty) auto
    qed
    with tr(1) True g show ?thesis by (intro exI [of _ True] exI [of _ l1]) simp
  next
    case False
    have q1: "queue_inv l1 P" using q queue_inv_frame [OF tr(2,3)] by simp
    obtain fq wait where ins: "six_lock_wait_fifo_insert (l_wait l1) w (l_waiters l1 w) = Some (fq, wait)"
        "queue_inv (l1\<lparr>l_wait := fq, l_waiters := (l_waiters l1)(w := wait)\<rparr>) P"
      using queue_inv_insert [OF q1, of w t] w sz v wr tr(2,3) by (auto simp: unqueued_def write_slots_def)
    let ?l = "l1\<lparr>l_wait := fq, l_waiters := (l_waiters l1)(w := wait)\<rparr>"
    have "six_inv ?l R W P" using core False ins(2) by (simp add: six_inv_def core_inv_def)
    with tr(1) False ins(1) show ?thesis by (intro exI [of _ False] exI [of _ ?l]) simp
  qed
qed

lemma slowpath_enter_ok:
  assumes inv: "six_inv l R W P" and w: "unqueued l w" and sz: "wf_size (l_wait l) < 2 ^ 15" and f: "few l R"
    and wr: "ty = SIX_LOCK_write \<Longrightarrow> l_owner l = Some t \<and> W = None \<and> P = None"
  shows "\<exists>ok l'. six_lock_slowpath_enter l ty w t = Some (ok, l') \<and> inv3 l' (entered ty t ok (R, W, P))"
proof -
  define P1 where "P1 = (if ty = SIX_LOCK_write then Some t else P)"
  define s where "s = (if ty = SIX_LOCK_write then l_state l + SIX_LOCK_HELD_WRITE else l_state l)"
  define v where "v = (l_waiters l w)\<lparr>task := Some t, lock_want := ty, lock_acquired := False\<rparr>"
  define l1 where "l1 = l\<lparr>l_waiters := (l_waiters l)(w := v), l_state := s OR waiting_mask ty\<rparr>"
  have nw: "\<not> bit (l_state l) 27" "write_slots l = {}" if "ty = SIX_LOCK_write"
    using wr [OF that] inv no_pending_no_write_slots [of l R None] by (auto simp: six_inv_def core_inv_def)
  have core: "core_inv l1 R W P1"
  proof (cases "ty = SIX_LOCK_write")
    case True
    with inv wr [OF True] nw(1) [OF True] show ?thesis
      by (auto simp: six_inv_def core_inv_def l1_def s_def P1_def six_masks)
  next
    case False
    with inv type_index_less [of ty] show ?thesis
      by (auto simp: six_inv_def core_inv_def l1_def s_def P1_def six_masks)
  qed
  have q: "queue_inv l1 P1" "write_slots l1 = write_slots l"
    using queue_inv_prepare [of l P w l1 v P1] inv w nw(2) by (auto simp: six_inv_def l1_def P1_def)
  have f1: "few l1 R" and w1: "unqueued l1 w" and sz1: "wf_size (l_wait l1) < 2 ^ 15"
    using f w sz by (simp_all add: l1_def few_def unqueued_def)
  have inv1: "six_inv l1 R W P1" using core q(1) by (simp add: six_inv_def)
  obtain ok l' where r: "(do { (ok, l) \<leftarrow> raw_do_six_trylock l1 ty t False;
          if ok then Some (True, l)
          else do { (fq, wait) \<leftarrow> six_lock_wait_fifo_insert (l_wait l) w (l_waiters l w);
                    Some (False, l\<lparr>l_wait := fq, l_waiters := (l_waiters l)(w := wait)\<rparr>) } }) = Some (ok, l')"
      "inv3 l' (if ok then granted ty t (R, W, P1) else (R, W, P1))"
    using try_or_queue_ok [OF inv1 w1 sz1 f1, of t ty] q(2) nw(2)
    by (auto simp: l1_def v_def P1_def)
  have ghost: "entered ty t ok (R, W, P) = (if ok then granted ty t (R, W, P1) else (R, W, P1))"
    by (cases ty) (auto simp: entered_def P1_def)
  have "six_lock_slowpath_enter l ty w t = Some (ok, l')"
  proof (cases "ty = SIX_LOCK_write")
    case True
    have "l1 = l\<lparr>l_waiters := (l_waiters l)(w := v), l_state := (l_state l + SIX_LOCK_HELD_WRITE) OR waiting_mask ty\<rparr>"
      using True by (simp add: l1_def s_def)
    with r(1) True nw(1) [OF True] show ?thesis
      by (simp add: six_lock_slowpath_enter_def six_masks v_def Let_def)
  next
    case False
    have "l1 = l\<lparr>l_waiters := (l_waiters l)(w := v), l_state := l_state l OR waiting_mask ty\<rparr>"
      using False by (simp add: l1_def s_def)
    with r(1) False show ?thesis by (simp add: six_lock_slowpath_enter_def v_def Let_def)
  qed
  with r(2) ghost show ?thesis by auto
qed

lemma slowpath_abort_ok:
  assumes inv: "six_inv l R W P" and f: "few l R" and w: "lock_want (l_waiters l w) = ty"
    and q: "slots (l_wait l) i = Some (w, tm)"
  shows "\<exists>l' woken. six_lock_slowpath_abort l ty w = Some (l', woken) \<and>
     inv3 l' (if ty = SIX_LOCK_write then fold (granted SIX_LOCK_read) (map (thr l) woken) (R, W, None) else (R, W, P))"
proof -
  have qi: "queue_inv l P" and c: "core_inv l R W P" using inv by (auto simp: six_inv_def)
  note s = queue_slot [OF qi q]
  have idx: "slot_idx (l_waiters l w) = i" "\<not> lock_acquired (l_waiters l w)" using s by (auto simp: slot_inv_def)
  obtain f1 where f1: "six_lock_wait_fifo_remove (l_wait l) i = Some f1" "fifo_ok f1" "slots f1 = (slots (l_wait l))(i := None)"
      "length (wf_data f1) = length (wf_data (l_wait l))"
    using remove_ok [of "l_wait l" i] qi slots_length [OF q] by (auto simp: queue_inv_def)
  obtain f2 where f2: "six_lock_wait_fifo_shrink f1 = Some f2" "fifo_ok f2" "slots f2 = slots f1" "wf_data f2 = wf_data f1"
    using shrink_ok [OF f1(2)] by blast
  define P' where "P' = (if ty = SIX_LOCK_write then None else P)"
  have uniq: "P' = P \<or> (\<forall>j. j \<in> write_slots l \<longrightarrow> j = i)"
    using w q qi by (auto simp: P'_def queue_inv_def write_slots_def)
  let ?l = "l\<lparr>l_wait := f2\<rparr>"
  have q': "queue_inv ?l P'"
    using queue_inv_remove(1) [OF qi q f2(2)] f2(3) f1(3) uniq by simp
  show ?thesis
  proof (cases "ty = SIX_LOCK_write")
    case False
    then have "six_inv ?l R W P" using q' c by (simp add: six_inv_def core_inv_def P'_def)
    with False idx f1(1) f2(1) show ?thesis by (simp add: six_lock_slowpath_abort_def)
  next
    case True
    let ?l2 = "?l\<lparr>l_state := l_state l AND NOT SIX_LOCK_HELD_WRITE\<rparr>"
    have P: "P \<noteq> None" using s w True by (auto simp: slot_inv_def)
    have "core_inv ?l2 R W None" using c P by (auto simp: core_inv_def six_masks)
    moreover have "queue_inv ?l2 None" using q' queue_inv_frame [of ?l2 ?l None] True by (simp add: P'_def)
    ultimately have inv2: "six_inv ?l2 R W None" by (simp add: six_inv_def)
    have "size R + length (wf_data (l_wait ?l2)) < 2 ^ 26 - 1" using f f1(4) f2(4) by (simp add: few_def)
    from six_lock_wakeup_ok [OF inv2 this, of "l_state ?l2" SIX_LOCK_read] True idx f1(1) f2(1) show ?thesis
      by (auto simp: six_lock_slowpath_abort_def Let_def)
  qed
qed

section \<open>Reachable states\<close>

text \<open>
  The steps threads can take. The side conditions are the caller's obligations of the source (a
  thread releases only what it holds, asks for the write lock only with the intent lock and
  without a pending write, queues a waiter only once) and the bounds on the number of threads.
\<close>

inductive six_step :: "six_lock \<times> holders \<Rightarrow> six_lock \<times> holders \<Rightarrow> bool" where
  try_read: "six_trylock_ip l SIX_LOCK_read t = Some (ok, l') \<Longrightarrow> few l R \<Longrightarrow>
    six_step (l, R, W, P) (l', if ok then add_mset t R else R, W, P)"
| try_intent: "six_trylock_ip l SIX_LOCK_intent t = Some (ok, l') \<Longrightarrow> six_step (l, R, W, P) (l', R, W, P)"
| try_write: "six_trylock_ip l SIX_LOCK_write t = Some (ok, l') \<Longrightarrow> l_owner l = Some t \<Longrightarrow> W = None \<Longrightarrow> P = None \<Longrightarrow>
    six_step (l, R, W, P) (l', R, if ok then Some t else None, P)"
| unlock: "six_unlock_ip l ty t = Some (l', woken) \<Longrightarrow> may_unlock l ty t (R, W, P) \<Longrightarrow> few l R \<Longrightarrow>
    six_step (l, R, W, P) (l', if recursive l ty then (R, W, P)
      else fold (granted (unlock_wakeup ty)) (map (thr l) woken) (released ty t (R, W, P)))"
| park: "six_lock_slowpath_enter l ty w t = Some (ok, l') \<Longrightarrow> unqueued l w \<Longrightarrow> wf_size (l_wait l) < 2 ^ 15 \<Longrightarrow>
    few l R \<Longrightarrow> (ty = SIX_LOCK_write \<longrightarrow> l_owner l = Some t \<and> W = None \<and> P = None) \<Longrightarrow>
    six_step (l, R, W, P) (l', entered ty t ok (R, W, P))"
| give_up: "six_lock_slowpath_abort l ty w = Some (l', woken) \<Longrightarrow> slots (l_wait l) i = Some (w, tm) \<Longrightarrow>
    lock_want (l_waiters l w) = ty \<Longrightarrow> few l R \<Longrightarrow>
    six_step (l, R, W, P) (l', if ty = SIX_LOCK_write
      then fold (granted SIX_LOCK_read) (map (thr l) woken) (R, W, None) else (R, W, P))"
| upgrade: "six_lock_tryupgrade l t = Some (ok, l') \<Longrightarrow> t \<in># R \<Longrightarrow>
    six_step (l, R, W, P) (l', if ok then R - {#t#} else R, W, P)"
| downgrade: "six_lock_downgrade l t = Some (l', woken) \<Longrightarrow> may_unlock l SIX_LOCK_intent t (R, W, P) \<Longrightarrow>
    l_intent_recurse l = 0 \<Longrightarrow> few l (add_mset t R) \<Longrightarrow>
    six_step (l, R, W, P) (l', fold (granted SIX_LOCK_intent) (map (thr l) woken) (add_mset t R, W, P))"
| wakeup: "six_lock_wakeup l s ty = Some (l', woken) \<Longrightarrow> few l R \<Longrightarrow>
    six_step (l, R, W, P) (l', fold (granted ty) (map (thr l) woken) (R, W, P))"

inductive_cases six_stepE: "six_step s s'"

inductive six_reach :: "six_lock \<times> holders \<Rightarrow> bool" where
  init: "six_reach (six_lock_init ws, {#}, None, None)"
| step: "six_reach s \<Longrightarrow> six_step s s' \<Longrightarrow> six_reach s'"

lemma six_init_inv: "six_inv (six_lock_init ws) {#} None None"
  by (simp add: six_inv_def core_inv_def queue_inv_def six_lock_init_def fifo_ok_default slots_default
      write_slots_def readers_def)

lemma six_step_inv:
  assumes "six_step (l, h) (l', h')" "inv3 l h"
  shows "inv3 l' h'"
  using assms
proof (cases rule: six_step.cases)
  case (try_read t ok R W P)
  then have c: "core_inv l R W P" "size R < 2 ^ 26 - 1" and inv: "six_inv l R W P"
    using assms(2) by (auto simp: six_inv_def few_def)
  from trylock_read [OF c, of t True] try_read inv show ?thesis
    by (auto simp: six_trylock_ip_def intro: six_inv_same_queue)
next
  case (try_intent t ok R W P)
  then have c: "core_inv l R W P" and inv: "six_inv l R W P" using assms(2) by (auto simp: six_inv_def)
  from trylock_intent [OF c, of t True] try_intent inv show ?thesis
    by (auto simp: six_trylock_ip_def intro: six_inv_same_queue)
next
  case (try_write t ok W P R)
  then have c: "core_inv l R W P" and inv: "six_inv l R W P" using assms(2) by (auto simp: six_inv_def)
  from trylock_write [OF c] try_write inv show ?thesis
    by (auto simp: six_trylock_ip_def intro: six_inv_same_queue)
next
  case (unlock ty t woken R W P)
  with six_unlock_ok [of l R W P ty t] assms(2) show ?thesis by auto
next
  case (park ty w t ok R W P)
  with slowpath_enter_ok [of l R W P w ty t] assms(2) show ?thesis by auto
next
  case (give_up ty w woken i tm R W P)
  with slowpath_abort_ok [of l R W P w ty i tm] assms(2) show ?thesis by auto
next
  case (upgrade t ok R W P)
  with tryupgrade_ok [of l R W P t] assms(2) show ?thesis by auto
next
  case (downgrade t woken R W P)
  with downgrade_ok [of l R t] assms(2) show ?thesis by (auto simp: may_unlock_def)
next
  case (wakeup s ty woken R W P)
  with six_lock_wakeup_ok [of l R W P s ty] assms(2) show ?thesis by (auto simp: few_def)
qed

lemma six_reach_inv: "six_reach s \<Longrightarrow> inv3 (fst s) (snd s)"
proof (induction rule: six_reach.induct)
  case (init ws)
  then show ?case by (simp add: six_init_inv)
next
  case (step s s')
  then show ?case by (metis six_step_inv prod.collapse)
qed

section \<open>Properties\<close>


definition idle_waiter :: six_lock_waiter where
  "idle_waiter = \<lparr>trans_start_time = 0, task = None, lock_want = SIX_LOCK_read, lock_acquired = False, slot_idx = 0\<rparr>"

abbreviation sample_lock :: six_lock where
  "sample_lock \<equiv> six_lock_init (\<lambda>_. idle_waiter)"

lemma sample_writer: "\<exists>l. six_reach (l, {#}, Some 1, None)"
proof -
  obtain l1 where l1: "six_trylock_ip sample_lock SIX_LOCK_intent 1 = Some (True, l1)" "core_inv l1 {#} None None"
      "l_owner l1 = Some 1"
    using trylock_intent [of sample_lock "{#}" None None 1 True] six_init_inv [of "\<lambda>_. idle_waiter"]
    by (auto simp: six_trylock_ip_def six_inv_def) (auto simp: six_lock_init_def)
  have r1: "six_reach (l1, {#}, None, None)" by (rule six_reach.step [OF six_reach.init six_step.try_intent [OF l1(1)]])
  obtain l2 where "six_trylock_ip l1 SIX_LOCK_write 1 = Some (True, l2)"
    using trylock_write [OF l1(2,3)] by (auto simp: six_trylock_ip_def)
  from six_step.try_write [OF this l1(3), of None None "{#}"] r1 show ?thesis
    by (auto intro: six_reach.step)
qed




text \<open>
  A wake-up for the intent or write lock grants it to a waiter with the least start time
  among those queued for that type.
\<close>

lemma six_wakeup_oldest:
  assumes "raw_six_lock_wakeup l ty = Some (l', [w])" "ty \<noteq> SIX_LOCK_read"
  shows "\<exists>i<wf_nr (l_wait l). sl_w (wf_data (l_wait l) ! i) = Some w \<and> slot_matches (wf_data (l_wait l) ! i) ty \<and>
    (\<forall>j<wf_nr (l_wait l). slot_matches (wf_data (l_wait l) ! j) ty \<longrightarrow>
       sl_start_time (wf_data (l_wait l) ! i) \<le> sl_start_time (wf_data (l_wait l) ! j))"
proof -
  obtain oldest n where o: "oldest_match (wf_data (l_wait l)) ty (wf_nr (l_wait l)) = Some (oldest, n)"
    using assms by (auto simp: raw_six_lock_wakeup_def split: bind_splits)
  then have nr: "wf_nr (l_wait l) \<le> length (wf_data (l_wait l))"
    by (auto simp: oldest_match_def require_def split: if_splits)
  obtain i where i: "oldest = Some i" "sl_w (wf_data (l_wait l) ! i) = Some w"
    using assms o by (auto simp: raw_six_lock_wakeup_def Let_def split: option.splits bind_splits if_splits)
  then show ?thesis using oldest_match_ok [OF nr, of ty] o by auto
qed

definition two_waiters :: six_lock where
  "two_waiters = sample_lock
     \<lparr>l_state := waiting_mask SIX_LOCK_intent,
      l_wait := \<lparr>wf_size = 2, wf_nr = 2, wf_next_free_hint = 0,
                 wf_data = [\<lparr>sl_w = Some 9, sl_start_time = 21\<rparr>, \<lparr>sl_w = Some 7, sl_start_time = 13\<rparr>]\<rparr>,
      l_waiters := (\<lambda>_. idle_waiter\<lparr>task := Some 3, lock_want := SIX_LOCK_intent\<rparr>)\<rparr>"


end
