(* ===== verification/Rhashtable.thy ===== *)
theory Rhashtable
  imports Prelude "HOL-Library.Multiset"
begin

unbundle bit_operations_syntax

text \<open>
  The resizable hash table of \<^verbatim>\<open>util/rhashtable.rs\<close>. Objects are addresses; the intrusive \<^verbatim>\<open>next\<close>
  pointers of their \<^verbatim>\<open>rhash_head\<close> form an explicit heap, because insertion, removal and rehashing
  relink the chains in place. The hash, object hash and compare functions of the parameters are
  callbacks of the caller and are arguments of the model. Every operation runs under the table's
  locks and is one transition; grace periods only delay freeing the old bucket array. A chain
  walk without a step bound that does not end is the value \<open>None\<close>.
\<close>

section \<open>Data\<close>

type_synonym addr = nat

text \<open>The callbacks: \<^verbatim>\<open>hashfn\<close> on keys, \<^verbatim>\<open>obj_hashfn\<close> on objects (if any), \<^verbatim>\<open>obj_cmpfn\<close>, and the key that
  lies at \<^verbatim>\<open>key_offset\<close> in an object.\<close>

record 'k rht_ops =
  op_hashfn :: "'k \<Rightarrow> u32 \<Rightarrow> u32"
  op_obj_hashfn :: "(addr \<Rightarrow> u32 \<Rightarrow> u32) option"
  op_obj_cmpfn :: "('k \<Rightarrow> addr \<Rightarrow> bool) option"
  op_key :: "addr \<Rightarrow> 'k"

record rhashtable_params =
  p_nelem_hint :: u16
  p_key_len :: u16
  p_max_size :: u32
  p_min_size :: u16
  p_automatic_shrinking :: bool

record bucket_table =
  bt_size :: nat
  bt_hash_rnd :: u32
  bt_buckets :: "addr option list"

record rhashtable =
  ht_tbl :: bucket_table
  ht_max_elems :: u32
  ht_p :: rhashtable_params
  ht_nelems :: nat
  ht_next :: "addr \<Rightarrow> addr option"
  ht_scheduled :: bool
  ht_seed :: u32

definition HASH_DEFAULT_SIZE :: nat where [code_consts]: "HASH_DEFAULT_SIZE = 64"
definition HASH_MIN_SIZE :: nat where [code_consts]: "HASH_MIN_SIZE = 4"
definition RHT_ELASTICITY :: nat where [code_consts]: "RHT_ELASTICITY = 16"

section \<open>Creating a table\<close>

definition next_hash_seed :: "u32 \<Rightarrow> u32" where
  "next_hash_seed old =
     (let next = old XOR push_bit 13 old;
          next = next XOR drop_bit 17 next
      in next XOR push_bit 5 next)"

definition smear :: "nat \<Rightarrow> u64 \<Rightarrow> u64" where
  "smear k value = value OR drop_bit k value"

definition roundup_pow2 :: "u64 \<Rightarrow> u64 option" where
  "roundup_pow2 value =
     (if value \<le> 1 then Some 1
      else let value = smear 32 (smear 16 (smear 8 (smear 4 (smear 2 (smear 1 (value - 1))))))
           in checked_add value 1)"

definition rounded_hashtable_size :: "rhashtable_params \<Rightarrow> u64 option" where
  "rounded_hashtable_size params =
     (let hinted = (if p_nelem_hint params \<noteq> 0 then ucast (p_nelem_hint params) * 4 div 3
                    else of_nat HASH_DEFAULT_SIZE)
      in roundup_pow2 (max (max hinted (ucast (p_min_size params))) (of_nat HASH_MIN_SIZE)))"

definition bucket_table_alloc :: "u32 \<Rightarrow> nat \<Rightarrow> bucket_table \<times> u32" where
  "bucket_table_alloc seed n =
     (let seed = next_hash_seed seed
      in (\<lparr>bt_size = n, bt_hash_rnd = seed, bt_buckets = replicate n None\<rparr>, seed))"

text \<open>\<^verbatim>\<open>u32::next_power_of_two\<close>: the least power of two not below the value; it panics above \<open>2 ^ 31\<close>.\<close>

definition next_power_of_two32 :: "u32 \<Rightarrow> u32 option" where
  "next_power_of_two32 v =
     (if v \<le> 1 then Some 1
      else do { require (v \<le> 2 ^ 31); Some (2 ^ bit_len (unat v - 1)) })"

definition rhashtable_init ::
    "'k rht_ops \<Rightarrow> u32 \<Rightarrow> (addr \<Rightarrow> addr option) \<Rightarrow> rhashtable_params \<Rightarrow> (int + rhashtable) option" where
  "rhashtable_init ops seed heap params =
     (if (p_key_len params = 0 \<and> op_obj_hashfn ops = None) \<or>
         (op_obj_hashfn ops \<noteq> None \<and> op_obj_cmpfn ops = None)
      then Some (Inl (- 22))
      else do {
        min_size \<leftarrow> roundup_pow2 (ucast (p_min_size params));
        let p = params\<lparr>p_min_size := ucast (max min_size (of_nat HASH_MIN_SIZE))\<rparr>;
        (p, max_elems) \<leftarrow>
          (if p_max_size params \<noteq> 0
           then do { np \<leftarrow> next_power_of_two32 (p_max_size params);
                     let max_size = drop_bit 1 np;
                     Some (p\<lparr>p_max_size := max_size\<rparr>,
                           if max_size < 2 ^ 31 div 2 then max_size * 2 else 2 ^ 31) }
           else Some (p, 2 ^ 31));
        size \<leftarrow> rounded_hashtable_size p;
        let (tbl, seed) = bucket_table_alloc seed (unat size);
        Some (Inr \<lparr>ht_tbl = tbl, ht_max_elems = max_elems, ht_p = p, ht_nelems = 0, ht_next = heap,
                   ht_scheduled = False, ht_seed = seed\<rparr>) })"

section \<open>Hashing and comparing\<close>

definition rht_key_hashfn :: "'k rht_ops \<Rightarrow> bucket_table \<Rightarrow> 'k \<Rightarrow> nat" where
  "rht_key_hashfn ops tbl key = unat (op_hashfn ops key (bt_hash_rnd tbl)) AND (bt_size tbl - 1)"

definition rht_head_hashfn :: "'k rht_ops \<Rightarrow> bucket_table \<Rightarrow> addr \<Rightarrow> nat" where
  "rht_head_hashfn ops tbl obj =
     (let hash = (case op_obj_hashfn ops of
                    Some hashfn \<Rightarrow> hashfn obj (bt_hash_rnd tbl)
                  | None \<Rightarrow> op_hashfn ops (op_key ops obj) (bt_hash_rnd tbl))
      in unat hash AND (bt_size tbl - 1))"

definition bucket_head :: "bucket_table \<Rightarrow> nat \<Rightarrow> addr option option" where
  "bucket_head tbl i = nth_opt (bt_buckets tbl) i"

definition objects_equal :: "'k rht_ops \<Rightarrow> 'k \<Rightarrow> addr \<Rightarrow> bool" where
  "objects_equal ops key obj =
     (case op_obj_cmpfn ops of Some compare \<Rightarrow> compare key obj | None \<Rightarrow> key = op_key ops obj)"

section \<open>Operations\<close>

text \<open>The bounded walk of a chain: the first object equal to the key, or where the walk stopped.\<close>

datatype walk = Found addr | Stopped "addr option"

fun rht_walk :: "'k rht_ops \<Rightarrow> (addr \<Rightarrow> addr option) \<Rightarrow> 'k \<Rightarrow> addr option \<Rightarrow> nat \<Rightarrow> walk" where
  "rht_walk ops nxt key None n = Stopped None"
| "rht_walk ops nxt key (Some head) 0 = Stopped (Some head)"
| "rht_walk ops nxt key (Some head) (Suc n) =
     (if objects_equal ops key head then Found head else rht_walk ops nxt key (nxt head) n)"

definition rhashtable_lookup_fast :: "'k rht_ops \<Rightarrow> rhashtable \<Rightarrow> 'k \<Rightarrow> addr option option" where
  "rhashtable_lookup_fast ops ht key =
     do { head \<leftarrow> bucket_head (ht_tbl ht) (rht_key_hashfn ops (ht_tbl ht) key);
          Some (case rht_walk ops (ht_next ht) key head RHT_ELASTICITY of Found obj \<Rightarrow> Some obj | Stopped _ \<Rightarrow> None) }"

text \<open>\<^verbatim>\<open>min(max_size)\<close>, where no maximum is \<^verbatim>\<open>usize::MAX\<close>, which bounds nothing.\<close>

definition at_most_max_size :: "rhashtable \<Rightarrow> nat \<Rightarrow> nat" where
  "at_most_max_size ht n = (if p_max_size (ht_p ht) = 0 then n else min n (unat (p_max_size (ht_p ht))))"

definition rhashtable_lookup_insert_fast :: "'k rht_ops \<Rightarrow> rhashtable \<Rightarrow> addr \<Rightarrow> (int \<times> rhashtable) option" where
  "rhashtable_lookup_insert_fast ops ht obj =
     do { let tbl = ht_tbl ht;
          let i = rht_head_hashfn ops tbl obj;
          head \<leftarrow> bucket_head tbl i;
          case rht_walk ops (ht_next ht) (op_key ops obj) head RHT_ELASTICITY of
            Found _ \<Rightarrow> Some (- 17, ht)
          | Stopped (Some _) \<Rightarrow> Some (- 7, ht\<lparr>ht_scheduled := True\<rparr>)
          | Stopped None \<Rightarrow>
              let ht = ht\<lparr>ht_next := (ht_next ht)(obj := head),
                          ht_tbl := tbl\<lparr>bt_buckets := (bt_buckets tbl)[i := Some obj]\<rparr>,
                          ht_nelems := ht_nelems ht + 1\<rparr>
              in Some (0, if ht_nelems ht > bt_size tbl * 3 div 4 \<and> at_most_max_size ht (bt_size tbl * 2) > bt_size tbl
                          then ht\<lparr>ht_scheduled := True\<rparr> else ht) }"

partial_function (option) rht_remove_loop ::
    "(addr \<Rightarrow> addr option) \<Rightarrow> addr \<Rightarrow> addr option \<Rightarrow> addr option \<Rightarrow> (addr option option) option" where
  "rht_remove_loop nxt obj previous head =
     (if head = None then Some None
      else if the head = obj then Some (Some previous)
      else rht_remove_loop nxt obj head (nxt (the head)))"

declare rht_remove_loop.simps [code]

definition rhashtable_remove_fast :: "'k rht_ops \<Rightarrow> rhashtable \<Rightarrow> addr \<Rightarrow> (int \<times> rhashtable) option" where
  "rhashtable_remove_fast ops ht obj =
     do { let tbl = ht_tbl ht;
          let i = rht_head_hashfn ops tbl obj;
          head \<leftarrow> bucket_head tbl i;
          found \<leftarrow> rht_remove_loop (ht_next ht) obj None head;
          case found of
            None \<Rightarrow> Some (- 2, ht)
          | Some previous \<Rightarrow>
              do { let ht = (case previous of
                         None \<Rightarrow> ht\<lparr>ht_tbl := tbl\<lparr>bt_buckets := (bt_buckets tbl)[i := ht_next ht obj]\<rparr>\<rparr>
                       | Some p \<Rightarrow> ht\<lparr>ht_next := (ht_next ht)(p := ht_next ht obj)\<rparr>);
                   let ht = ht\<lparr>ht_next := (ht_next ht)(obj := None)\<rparr>;
                   require (0 < ht_nelems ht);
                   let count = ht_nelems ht - 1;
                   let ht = ht\<lparr>ht_nelems := count\<rparr>;
                   Some (0, if p_automatic_shrinking (ht_p ht) \<and> bt_size tbl > unat (p_min_size (ht_p ht)) \<and>
                               count < bt_size tbl * 3 div 10
                            then ht\<lparr>ht_scheduled := True\<rparr> else ht) } }"

section \<open>Rehashing\<close>

partial_function (option) rehash_chain ::
    "'k rht_ops \<Rightarrow> bucket_table \<Rightarrow> (addr \<Rightarrow> addr option) \<Rightarrow> addr option \<Rightarrow> (bucket_table \<times> (addr \<Rightarrow> addr option)) option" where
  "rehash_chain ops new nxt head =
     (if head = None then Some (new, nxt)
      else let h = the head;
               next = nxt h;
               new_index = rht_head_hashfn ops new h
           in Option.bind (bucket_head new new_index) (\<lambda>b.
                rehash_chain ops (new\<lparr>bt_buckets := (bt_buckets new)[new_index := Some h]\<rparr>) (nxt(h := b)) next))"

declare rehash_chain.simps [code]

fun rehash_buckets ::
    "'k rht_ops \<Rightarrow> bucket_table \<Rightarrow> nat list \<Rightarrow> bucket_table \<Rightarrow> (addr \<Rightarrow> addr option) \<Rightarrow>
     (bucket_table \<times> (addr \<Rightarrow> addr option)) option" where
  "rehash_buckets ops old [] new nxt = Some (new, nxt)"
| "rehash_buckets ops old (i # is) new nxt =
     do { head \<leftarrow> bucket_head old i;
          (new, nxt) \<leftarrow> rehash_chain ops new nxt head;
          rehash_buckets ops old is new nxt }"

definition rehash_locked :: "'k rht_ops \<Rightarrow> rhashtable \<Rightarrow> nat \<Rightarrow> rhashtable option" where
  "rehash_locked ops ht new_size =
     (let old = ht_tbl ht in
      if bt_size old = new_size then Some ht
      else do { let (new, seed) = bucket_table_alloc (ht_seed ht) new_size;
                (new, nxt) \<leftarrow> rehash_buckets ops old [0..<bt_size old] new (ht_next ht);
                Some (ht\<lparr>ht_tbl := new, ht_next := nxt, ht_seed := seed\<rparr>) })"

definition rht_deferred_worker :: "'k rht_ops \<Rightarrow> rhashtable \<Rightarrow> rhashtable option" where
  "rht_deferred_worker ops ht =
     (let size = bt_size (ht_tbl ht); count = ht_nelems ht in
      if count > size * 3 div 4 then
        let next = at_most_max_size ht (size * 2) in
        if next > size then rehash_locked ops ht next else Some ht
      else if p_automatic_shrinking (ht_p ht) \<and> size > unat (p_min_size (ht_p ht)) \<and> count < size * 3 div 10
      then rehash_locked ops ht (max (size div 2) (unat (p_min_size (ht_p ht))))
      else Some ht)"

section \<open>Chains of next pointers\<close>

fun chain :: "(addr \<Rightarrow> addr option) \<Rightarrow> addr option \<Rightarrow> addr list \<Rightarrow> bool" where
  "chain nxt p [] \<longleftrightarrow> p = None"
| "chain nxt p (x # xs) \<longleftrightarrow> p = Some x \<and> chain nxt (nxt x) xs"

lemma chain_upd [simp]: "y \<notin> set xs \<Longrightarrow> chain (nxt(y := v)) p xs = chain nxt p xs"
  by (induction xs arbitrary: p) auto

lemma chain_cong: "(\<And>x. x \<in> set xs \<Longrightarrow> nxt' x = nxt x) \<Longrightarrow> chain nxt' p xs = chain nxt p xs"
  by (induction xs arbitrary: p) auto

lemma chain_append: "chain nxt p (xs @ ys) \<longleftrightarrow>
    (case xs of [] \<Rightarrow> chain nxt p ys | x # xs' \<Rightarrow> p = Some x \<and> chain nxt (nxt x) (xs' @ ys))"
  by (cases xs) auto

lemma rht_walk_chain:
  "chain nxt p xs \<Longrightarrow> rht_walk ops nxt key p n =
     (case find (objects_equal ops key) (take n xs) of
        Some x \<Rightarrow> Found x
      | None \<Rightarrow> Stopped (if length xs \<le> n then None else Some (xs ! n)))"
proof (induction xs arbitrary: p n)
  case (Cons x xs)
  then show ?case by (cases n) (auto split: option.splits)
qed simp

lemma rht_remove_loop_chain:
  assumes "chain nxt p xs"
  shows "rht_remove_loop nxt obj prev p =
     Some (if obj \<in> set xs
           then Some (let ys = takeWhile (\<lambda>x. x \<noteq> obj) xs in if ys = [] then prev else Some (last ys)) else None)"
  using assms
proof (induction xs arbitrary: p prev)
  case Nil
  then show ?case by (simp add: rht_remove_loop.simps)
next
  case (Cons x xs)
  then have p: "p = Some x" "chain nxt (nxt x) xs" by auto
  show ?case
    using Cons.IH [OF p(2), of "Some x"] p(1)
    by (subst rht_remove_loop.simps) (auto simp: Let_def)
qed

text \<open>Unlinking an element of a chain without repetitions.\<close>

lemma chain_unlink_first:
  assumes "chain nxt p (obj # ys)" "distinct (obj # ys)"
  shows "chain (nxt(obj := None)) (nxt obj) ys"
  using assms by simp

lemma chain_unlink_later:
  assumes "chain nxt p (xs @ q # obj # ys)" "distinct (xs @ q # obj # ys)"
  shows "chain (nxt(q := nxt obj, obj := None)) p (xs @ q # ys)"
  using assms by (induction xs arbitrary: p) auto

lemma find_SomeD: "find P xs = Some x \<Longrightarrow> x \<in> set xs \<and> P x"
  by (induction xs) (auto split: if_splits)

section \<open>The table as a list of chains\<close>

text \<open>The callbacks agree with the keys: the object hash is the hash of the object's key, and the
  compare function compares keys.\<close>

definition ops_ok :: "'k rht_ops \<Rightarrow> bool" where
  "ops_ok ops \<longleftrightarrow>
     (\<forall>h. op_obj_hashfn ops = Some h \<longrightarrow> (\<forall>obj r. h obj r = op_hashfn ops (op_key ops obj) r)) \<and>
     (\<forall>c. op_obj_cmpfn ops = Some c \<longrightarrow> (\<forall>k obj. c k obj \<longleftrightarrow> k = op_key ops obj))"

lemma ops_ok_simps:
  assumes "ops_ok ops"
  shows "rht_head_hashfn ops tbl obj = rht_key_hashfn ops tbl (op_key ops obj)"
    and "objects_equal ops k obj \<longleftrightarrow> k = op_key ops obj"
  using assms by (auto simp: ops_ok_def rht_head_hashfn_def rht_key_hashfn_def objects_equal_def split: option.splits)

lemma and_less: "0 < n \<Longrightarrow> x AND (n - 1) < n" for x n :: nat
proof -
  assume "0 < n"
  have "x AND (n - 1) \<le> n - 1" by (simp add: and_nat_def nat_le_iff zle_diff1_eq AND_upper2)
  with \<open>0 < n\<close> show ?thesis by linarith
qed

lemma head_hash_less: "0 < bt_size tbl \<Longrightarrow> rht_head_hashfn ops tbl obj < bt_size tbl"
  unfolding rht_head_hashfn_def Let_def by (rule and_less)

lemma key_hash_less: "0 < bt_size tbl \<Longrightarrow> rht_key_hashfn ops tbl k < bt_size tbl"
  unfolding rht_key_hashfn_def by (rule and_less)

definition tbl_rep :: "'k rht_ops \<Rightarrow> bucket_table \<Rightarrow> (addr \<Rightarrow> addr option) \<Rightarrow> addr list list \<Rightarrow> bool" where
  "tbl_rep ops tbl nxt cs \<longleftrightarrow>
     0 < bt_size tbl \<and> length (bt_buckets tbl) = bt_size tbl \<and> length cs = bt_size tbl \<and>
     (\<forall>i<bt_size tbl. chain nxt (bt_buckets tbl ! i) (cs ! i) \<and> (\<forall>obj\<in>set (cs ! i). rht_head_hashfn ops tbl obj = i))"

definition ht_rep :: "'k rht_ops \<Rightarrow> rhashtable \<Rightarrow> addr list list \<Rightarrow> bool" where
  "ht_rep ops ht cs \<longleftrightarrow>
     ops_ok ops \<and> tbl_rep ops (ht_tbl ht) (ht_next ht) cs \<and> distinct (concat cs) \<and>
     inj_on (op_key ops) (set (concat cs)) \<and> ht_nelems ht = length (concat cs)"

text \<open>The abstract content: the object stored under a key.\<close>

definition ht_map :: "'k rht_ops \<Rightarrow> addr list list \<Rightarrow> 'k \<Rightarrow> addr option" where
  "ht_map ops cs k = find (\<lambda>obj. op_key ops obj = k) (concat cs)"

lemma ht_map_Some:
  assumes "inj_on (op_key ops) (set (concat cs))"
  shows "ht_map ops cs k = Some obj \<longleftrightarrow> obj \<in> set (concat cs) \<and> op_key ops obj = k"
proof
  assume "ht_map ops cs k = Some obj"
  then show "obj \<in> set (concat cs) \<and> op_key ops obj = k" unfolding ht_map_def by (rule find_SomeD)
next
  assume r: "obj \<in> set (concat cs) \<and> op_key ops obj = k"
  then have "ht_map ops cs k \<noteq> None" by (auto simp: ht_map_def find_None_iff)
  then obtain obj' where o: "ht_map ops cs k = Some obj'" by blast
  then have "obj' \<in> set (concat cs) \<and> op_key ops obj' = k" unfolding ht_map_def by (rule find_SomeD)
  with r assms o show "ht_map ops cs k = Some obj" by (auto dest: inj_onD)
qed

lemma ht_map_None: "ht_map ops cs k = None \<longleftrightarrow> (\<forall>obj\<in>set (concat cs). op_key ops obj \<noteq> k)"
  by (auto simp: ht_map_def find_None_iff)

lemma tbl_rep_nth:
  assumes "tbl_rep ops tbl nxt cs" "i < bt_size tbl"
  shows "bucket_head tbl i = Some (bt_buckets tbl ! i)" "chain nxt (bt_buckets tbl ! i) (cs ! i)"
    "\<And>obj. obj \<in> set (cs ! i) \<Longrightarrow> rht_head_hashfn ops tbl obj = i"
  using assms by (auto simp: tbl_rep_def bucket_head_def nth_opt_def)

lemma tbl_rep_in_chain:
  assumes "tbl_rep ops tbl nxt cs" "obj \<in> set (concat cs)"
  shows "obj \<in> set (cs ! rht_head_hashfn ops tbl obj)"
proof -
  from assms(2) obtain i where "i < length cs" "obj \<in> set (cs ! i)" by (auto simp: in_set_conv_nth [of _ cs])
  with assms(1) show ?thesis by (auto simp: tbl_rep_def)
qed

section \<open>Relinking\<close>

lemma hash_buckets [simp]:
  "rht_head_hashfn ops (tbl\<lparr>bt_buckets := b\<rparr>) obj = rht_head_hashfn ops tbl obj"
  by (simp add: rht_head_hashfn_def split: option.split)

lemma mset_concat_update:
  "i < length cs \<Longrightarrow> mset (concat (cs[i := c])) + mset (cs ! i) = mset (concat cs) + mset c"
proof (induction cs arbitrary: i)
  case (Cons a cs)
  show ?case
  proof (cases i)
    case (Suc j)
    then have "mset (concat (cs[j := c])) + mset (cs ! j) = mset (concat cs) + mset c" using Cons by simp
    with Suc show ?thesis by (simp add: ac_simps)
  qed simp
qed simp

lemma mset_concat_push: "i < length cs \<Longrightarrow> mset (concat (cs[i := obj # cs ! i])) = mset (obj # concat cs)"
  using mset_concat_update [of i cs "obj # cs ! i"] by simp

lemma mset_concat_remove1:
  assumes "i < length cs" "obj \<in> set (cs ! i)"
  shows "mset (obj # concat (cs[i := remove1 obj (cs ! i)])) = mset (concat cs)"
proof -
  define c where "c = remove1 obj (cs ! i)"
  have "mset (cs ! i) = add_mset obj (mset c)" using assms(2) by (simp add: c_def)
  with mset_concat_update [OF assms(1), of c] show ?thesis unfolding c_def [symmetric] by simp
qed

lemma set_nth_concat: "i < length cs \<Longrightarrow> x \<in> set (cs ! i) \<Longrightarrow> x \<in> set (concat cs)"
  by auto

lemma concat_disjoint:
  assumes "distinct (concat cs)" "i < length cs" "j < length cs" "i \<noteq> j" "x \<in> set (cs ! i)"
  shows "x \<notin> set (cs ! j)"
  using assms
proof (induction cs arbitrary: i j)
  case (Cons a cs)
  show ?case
  proof (cases i)
    case 0
    then obtain j' where "j = Suc j'" "j' < length cs" using Cons.prems by (cases j) auto
    with Cons.prems 0 set_nth_concat [of j' cs x] show ?thesis by auto
  next
    case (Suc i')
    then have x: "x \<in> set (concat cs)" "i' < length cs" "x \<in> set (cs ! i')"
      using Cons.prems set_nth_concat [of i' cs x] by auto
    show ?thesis using Cons.IH [of i'] Cons.prems Suc x by (cases j) auto
  qed
qed simp

lemma tbl_rep_push:
  assumes rep: "tbl_rep ops tbl nxt cs" and i: "rht_head_hashfn ops tbl obj = i" and new: "obj \<notin> set (concat cs)"
  shows "tbl_rep ops (tbl\<lparr>bt_buckets := (bt_buckets tbl)[i := Some obj]\<rparr>) (nxt(obj := bt_buckets tbl ! i))
    (cs[i := obj # cs ! i])"
proof -
  have lt: "i < bt_size tbl" using head_hash_less rep i by (auto simp: tbl_rep_def)
  have "obj \<notin> set (cs ! j)" if "j < bt_size tbl" for j
    using that new rep set_nth_concat [of j cs obj] by (auto simp: tbl_rep_def)
  with rep i lt show ?thesis by (auto simp: tbl_rep_def nth_list_update)
qed

lemma chain_remove:
  assumes "chain nxt p xs" "distinct xs" "obj \<in> set xs"
  shows "let ys = takeWhile (\<lambda>x. x \<noteq> obj) xs in
     if ys = [] then chain (nxt(obj := None)) (nxt obj) (remove1 obj xs)
     else last ys \<in> set xs \<and> last ys \<noteq> obj \<and> chain (nxt(last ys := nxt obj, obj := None)) p (remove1 obj xs)"
proof -
  obtain ys zs where xs: "xs = ys @ obj # zs" "obj \<notin> set ys" using split_list_first [OF assms(3)] by blast
  have tw: "takeWhile (\<lambda>x. x \<noteq> obj) xs = ys"
    unfolding xs(1) using xs(2) by (subst takeWhile_append2) auto
  have r: "remove1 obj xs = ys @ zs" using xs by (auto simp: remove1_append)
  show ?thesis
  proof (cases ys rule: rev_cases)
    case Nil
    with assms xs show ?thesis by auto
  next
    case (snoc us q)
    have "chain (nxt(q := nxt obj, obj := None)) p (us @ q # zs)"
      using chain_unlink_later [of nxt p us q obj zs] assms(1,2) xs(1) snoc by simp
    with tw r xs snoc show ?thesis by (auto simp: Let_def)
  qed
qed

section \<open>Each operation against the abstract map\<close>

lemma find_cong_key:
  "ops_ok ops \<Longrightarrow> find (objects_equal ops k) xs = find (\<lambda>obj. op_key ops obj = k) xs"
  by (rule arg_cong [where f = "\<lambda>P. find P xs"]) (auto simp: ops_ok_simps)

lemma lookup_take:
  assumes "ht_rep ops ht cs"
  shows "rhashtable_lookup_fast ops ht k =
    Some (find (\<lambda>obj. op_key ops obj = k) (take RHT_ELASTICITY (cs ! rht_key_hashfn ops (ht_tbl ht) k)))"
proof -
  let ?i = "rht_key_hashfn ops (ht_tbl ht) k"
  have rep: "tbl_rep ops (ht_tbl ht) (ht_next ht) cs" and ok: "ops_ok ops" using assms by (auto simp: ht_rep_def)
  have "?i < bt_size (ht_tbl ht)" using rep key_hash_less by (auto simp: tbl_rep_def)
  from tbl_rep_nth [OF rep this] show ?thesis
    by (auto simp: rhashtable_lookup_fast_def rht_walk_chain find_cong_key [OF ok] split: option.splits)
qed

lemma find_concat_chain:
  assumes rep: "ht_rep ops ht cs"
  shows "find (\<lambda>obj. op_key ops obj = k) (cs ! rht_key_hashfn ops (ht_tbl ht) k) = ht_map ops cs k"
proof -
  let ?i = "rht_key_hashfn ops (ht_tbl ht) k"
  have t: "tbl_rep ops (ht_tbl ht) (ht_next ht) cs" and ok: "ops_ok ops" and inj: "inj_on (op_key ops) (set (concat cs))"
    using rep by (auto simp: ht_rep_def)
  have i: "?i < length cs" using t key_hash_less by (auto simp: tbl_rep_def)
  show ?thesis
  proof (cases "find (\<lambda>obj. op_key ops obj = k) (cs ! ?i)")
    case (Some obj)
    then have "obj \<in> set (cs ! ?i)" "op_key ops obj = k" using find_SomeD [OF Some] by auto
    then show ?thesis using Some ht_map_Some [OF inj, of k obj] set_nth_concat [OF i] by auto
  next
    case None
    have "op_key ops obj \<noteq> k" if "obj \<in> set (concat cs)" for obj
      using tbl_rep_in_chain [OF t that] None ops_ok_simps(1) [OF ok, of "ht_tbl ht" obj] by (auto simp: find_None_iff)
    then show ?thesis using None ht_map_None [of ops cs k] by auto
  qed
qed

lemma insert_cases:
  assumes rep: "ht_rep ops ht cs" and new: "obj \<notin> set (concat cs)"
    and i: "i = rht_head_hashfn ops (ht_tbl ht) obj"
  shows "\<exists>r ht'. rhashtable_lookup_insert_fast ops ht obj = Some (r, ht') \<and>
     (if \<exists>x\<in>set (take RHT_ELASTICITY (cs ! i)). op_key ops x = op_key ops obj then r = - 17 \<and> ht' = ht
      else if RHT_ELASTICITY < length (cs ! i) then r = - 7 \<and> ht' = ht\<lparr>ht_scheduled := True\<rparr>
      else r = 0 \<and> ht_rep ops ht' (cs[i := obj # cs ! i]) \<and>
           bt_size (ht_tbl ht') = bt_size (ht_tbl ht) \<and> bt_hash_rnd (ht_tbl ht') = bt_hash_rnd (ht_tbl ht))"
proof -
  let ?t = "ht_tbl ht" and ?c = "cs ! i"
  have t: "tbl_rep ops ?t (ht_next ht) cs" and ok: "ops_ok ops" and inj: "inj_on (op_key ops) (set (concat cs))"
    and dist: "distinct (concat cs)" and n: "ht_nelems ht = length (concat cs)"
    using rep by (auto simp: ht_rep_def)
  have lt: "i < bt_size ?t" unfolding i using t head_hash_less by (auto simp: tbl_rep_def)
  then have il: "i < length cs" using t by (simp add: tbl_rep_def)
  note nth = tbl_rep_nth [OF t lt]
  note walk = rht_walk_chain [OF nth(2), of ops "op_key ops obj" RHT_ELASTICITY]
  define f where "f = find (\<lambda>x. op_key ops x = op_key ops obj) (take RHT_ELASTICITY ?c)"
  have f: "find (objects_equal ops (op_key ops obj)) (take RHT_ELASTICITY ?c) = f"
    by (simp add: f_def find_cong_key [OF ok])
  have fx: "(\<exists>x\<in>set (take RHT_ELASTICITY ?c). op_key ops x = op_key ops obj) \<longleftrightarrow> f \<noteq> None"
    unfolding f_def by (auto simp: find_None_iff)
  consider (dup) x where "f = Some x" | (long) "f = None" "RHT_ELASTICITY < length ?c"
    | (ins) "f = None" "length ?c \<le> RHT_ELASTICITY" by (cases f; cases "RHT_ELASTICITY < length ?c") auto
  then show ?thesis
  proof cases
    case dup
    then show ?thesis using nth(1) walk f fx i by (simp add: rhashtable_lookup_insert_fast_def)
  next
    case long
    then show ?thesis using nth(1) walk f fx i by (simp add: rhashtable_lookup_insert_fast_def)
  next
    case ins
    let ?t' = "?t\<lparr>bt_buckets := (bt_buckets ?t)[i := Some obj]\<rparr>" and ?cs = "cs[i := obj # ?c]"
    let ?h = "ht\<lparr>ht_next := (ht_next ht)(obj := bt_buckets ?t ! i), ht_tbl := ?t', ht_nelems := ht_nelems ht + 1\<rparr>"
    have m: "mset (concat ?cs) = mset (obj # concat cs)" by (rule mset_concat_push [OF il])
    have "op_key ops x \<noteq> op_key ops obj" if "x \<in> set (concat cs)" for x
    proof
      assume k: "op_key ops x = op_key ops obj"
      then have "x \<in> set ?c"
        using tbl_rep_in_chain [OF t that] ops_ok_simps(1) [OF ok] i by metis
      with k ins fx show False by auto
    qed
    then have "inj_on (op_key ops) (set (concat ?cs))"
      using inj unfolding mset_eq_setD [OF m] by fastforce
    moreover have "distinct (concat ?cs)" using mset_eq_imp_distinct_iff [OF m] dist new by simp
    moreover have "length (concat ?cs) = ht_nelems ht + 1" using mset_eq_length [OF m] n by simp
    moreover have "tbl_rep ops ?t' ((ht_next ht)(obj := bt_buckets ?t ! i)) ?cs"
      by (rule tbl_rep_push [OF t i [symmetric] new])
    ultimately have "ht_rep ops ?h ?cs" using ok by (simp add: ht_rep_def)
    moreover from this have "ht_rep ops (?h\<lparr>ht_scheduled := True\<rparr>) ?cs" by (simp add: ht_rep_def)
    ultimately show ?thesis
      using nth(1) walk f fx i ins by (simp add: rhashtable_lookup_insert_fast_def Let_def)
  qed
qed

lemma ht_map_push:
  assumes "ht_rep ops ht (cs[i := obj # cs ! i])" "i < length cs"
  shows "ht_map ops (cs[i := obj # cs ! i]) = (ht_map ops cs)(op_key ops obj \<mapsto> obj)"
proof
  fix k
  let ?cs = "cs[i := obj # cs ! i]"
  have inj: "inj_on (op_key ops) (set (concat ?cs))" using assms(1) by (simp add: ht_rep_def)
  have s: "set (concat ?cs) = insert obj (set (concat cs))"
    using mset_eq_setD [OF mset_concat_push [OF assms(2)]] by simp
  have inj': "inj_on (op_key ops) (set (concat cs))" using inj unfolding s by (rule inj_on_subset) auto
  show "ht_map ops ?cs k = ((ht_map ops cs)(op_key ops obj \<mapsto> obj)) k"
  proof (cases "k = op_key ops obj")
    case True
    then have "ht_map ops ?cs k = Some obj" unfolding ht_map_Some [OF inj] s by simp
    with True show ?thesis by simp
  next
    case False
    then have iff: "ht_map ops ?cs k = Some x \<longleftrightarrow> ht_map ops cs k = Some x" for x
      unfolding ht_map_Some [OF inj] ht_map_Some [OF inj'] s by blast
    show ?thesis
      using False iff by (cases "ht_map ops cs k"; cases "ht_map ops ?cs k") auto
  qed
qed

lemma tbl_rep_unlink:
  assumes t: "tbl_rep ops tbl nxt cs" and dist: "distinct (concat cs)" and i: "i < bt_size tbl"
    and obj: "obj \<in> set (cs ! i)" and ys: "ys = takeWhile (\<lambda>x. x \<noteq> obj) (cs ! i)"
  shows "tbl_rep ops (if ys = [] then tbl\<lparr>bt_buckets := (bt_buckets tbl)[i := nxt obj]\<rparr> else tbl)
    ((if ys = [] then nxt else nxt(last ys := nxt obj))(obj := None)) (cs[i := remove1 obj (cs ! i)])"
proof -
  have il: "i < length cs" using t i by (simp add: tbl_rep_def)
  have "distinct (cs ! i)" using dist il by (auto simp: distinct_concat_iff)
  from chain_remove [OF tbl_rep_nth(2) [OF t i] this obj, folded ys] have
    c: "ys = [] \<Longrightarrow> chain (nxt(obj := None)) (nxt obj) (remove1 obj (cs ! i))"
      "ys \<noteq> [] \<Longrightarrow> last ys \<in> set (cs ! i) \<and> chain (nxt(last ys := nxt obj, obj := None)) (bt_buckets tbl ! i) (remove1 obj (cs ! i))"
    by (auto simp: Let_def)
  have other: "obj \<notin> set (cs ! j)" "ys \<noteq> [] \<Longrightarrow> last ys \<notin> set (cs ! j)" if "j < bt_size tbl" "j \<noteq> i" for j
    using concat_disjoint [OF dist il, of j] that obj c(2) t by (auto simp: tbl_rep_def)
  have sub: "set (remove1 obj (cs ! i)) \<subseteq> set (cs ! i)" by (rule set_remove1_subset)
  show ?thesis
    using t c other sub i by (cases "ys = []") (auto simp: tbl_rep_def nth_list_update)
qed

lemma remove_cases:
  assumes rep: "ht_rep ops ht cs" and i: "i = rht_head_hashfn ops (ht_tbl ht) obj"
  shows "if obj \<in> set (concat cs)
    then \<exists>ht'. rhashtable_remove_fast ops ht obj = Some (0, ht') \<and> ht_rep ops ht' (cs[i := remove1 obj (cs ! i)])
    else rhashtable_remove_fast ops ht obj = Some (- 2, ht)"
proof -
  let ?t = "ht_tbl ht" and ?c = "cs ! i"
  have t: "tbl_rep ops ?t (ht_next ht) cs" and ok: "ops_ok ops" and inj: "inj_on (op_key ops) (set (concat cs))"
    and dist: "distinct (concat cs)" and n: "ht_nelems ht = length (concat cs)"
    using rep by (auto simp: ht_rep_def)
  have lt: "i < bt_size ?t" unfolding i using t head_hash_less by (auto simp: tbl_rep_def)
  then have il: "i < length cs" using t by (simp add: tbl_rep_def)
  note nth = tbl_rep_nth [OF t lt]
  note loop = rht_remove_loop_chain [OF nth(2), of obj None]
  show ?thesis
  proof (cases "obj \<in> set (concat cs)")
    case False
    then have "obj \<notin> set ?c" using set_nth_concat [OF il] by blast
    with False nth(1) loop i show ?thesis by (simp add: rhashtable_remove_fast_def)
  next
    case True
    then have obj: "obj \<in> set ?c" using tbl_rep_in_chain [OF t True] i by simp
    define ys where "ys = takeWhile (\<lambda>x. x \<noteq> obj) ?c"
    let ?cs = "cs[i := remove1 obj ?c]"
    let ?t' = "if ys = [] then ?t\<lparr>bt_buckets := (bt_buckets ?t)[i := ht_next ht obj]\<rparr> else ?t"
    let ?n = "(if ys = [] then ht_next ht else (ht_next ht)(last ys := ht_next ht obj))(obj := None)"
    let ?h = "ht\<lparr>ht_tbl := ?t', ht_next := ?n, ht_nelems := ht_nelems ht - 1\<rparr>"
    have m: "mset (concat cs) = mset (obj # concat ?cs)" by (rule mset_concat_remove1 [OF il obj, symmetric])
    have "inj_on (op_key ops) (set (concat ?cs))"
      using inj unfolding mset_eq_setD [OF m] by (rule inj_on_subset) auto
    moreover have "distinct (concat ?cs)" using mset_eq_imp_distinct_iff [OF m] dist by simp
    moreover have len: "ht_nelems ht = Suc (length (concat ?cs))" using mset_eq_length [OF m] n by simp
    moreover have "tbl_rep ops ?t' ?n ?cs" by (rule tbl_rep_unlink [OF t dist lt obj ys_def])
    ultimately have r: "ht_rep ops ?h ?cs" using ok by (simp add: ht_rep_def)
    then have r': "ht_rep ops (?h\<lparr>ht_scheduled := True\<rparr>) ?cs" by (simp add: ht_rep_def)
    have "rhashtable_remove_fast ops ht obj = Some (0, ?h) \<or> rhashtable_remove_fast ops ht obj = Some (0, ?h\<lparr>ht_scheduled := True\<rparr>)"
      using nth(1) loop obj i len unfolding ys_def [symmetric]
      by (cases "ys = []") (simp_all add: rhashtable_remove_fast_def Let_def)
    with r r' True show ?thesis by auto
  qed
qed

lemma key_drop:
  "inj_on f (insert a S) \<Longrightarrow> a \<notin> S \<Longrightarrow> (x \<in> S \<and> f x = k) \<longleftrightarrow> (x \<in> insert a S \<and> f x = k) \<and> k \<noteq> f a"
  by (auto simp: image_iff)

lemma ht_map_drop:
  assumes "ht_rep ops ht cs" "i < length cs" "obj \<in> set (cs ! i)"
  shows "ht_map ops (cs[i := remove1 obj (cs ! i)]) = (ht_map ops cs)(op_key ops obj := None)"
proof
  fix k
  let ?cs = "cs[i := remove1 obj (cs ! i)]"
  have inj: "inj_on (op_key ops) (set (concat cs))" and dist: "distinct (concat cs)"
    using assms(1) by (simp_all add: ht_rep_def)
  have m: "mset (concat cs) = mset (obj # concat ?cs)" by (rule mset_concat_remove1 [OF assms(2,3), symmetric])
  have s: "set (concat cs) = insert obj (set (concat ?cs))" "obj \<notin> set (concat ?cs)"
    using mset_eq_setD [OF m] mset_eq_imp_distinct_iff [OF m] dist by auto
  have inj': "inj_on (op_key ops) (set (concat ?cs))" using inj unfolding s(1) by (rule inj_on_subset) auto
  have iff: "ht_map ops ?cs k = Some x \<longleftrightarrow> ht_map ops cs k = Some x \<and> k \<noteq> op_key ops obj" for x
    unfolding ht_map_Some [OF inj'] ht_map_Some [OF inj] s(1) by (rule key_drop [OF inj [unfolded s(1)] s(2)])
  show "ht_map ops ?cs k = ((ht_map ops cs)(op_key ops obj := None)) k"
    using iff by (cases "ht_map ops cs k"; cases "ht_map ops ?cs k") auto
qed

section \<open>Rehashing keeps the content\<close>

lemma rehash_chain_ok:
  assumes "chain nxt p xs" "distinct xs" "tbl_rep ops new nxt ns" "set xs \<inter> set (concat ns) = {}"
  shows "\<exists>new' nxt' ns'. rehash_chain ops new nxt p = Some (new', nxt') \<and> tbl_rep ops new' nxt' ns' \<and>
     mset (concat ns') = mset (concat ns) + mset xs \<and> bt_size new' = bt_size new \<and>
     (\<forall>x. x \<notin> set xs \<longrightarrow> nxt' x = nxt x)"
  using assms
proof (induction xs arbitrary: p nxt new ns)
  case Nil
  then show ?case by (subst rehash_chain.simps) auto
next
  case (Cons x xs)
  let ?i = "rht_head_hashfn ops new x"
  let ?new = "new\<lparr>bt_buckets := (bt_buckets new)[?i := Some x]\<rparr>" and ?nxt = "nxt(x := bt_buckets new ! ?i)"
  let ?ns = "ns[?i := x # ns ! ?i]"
  have lt: "?i < bt_size new" using Cons.prems(3) head_hash_less by (auto simp: tbl_rep_def)
  then have il: "?i < length ns" using Cons.prems(3) by (simp add: tbl_rep_def)
  have rep: "tbl_rep ops ?new ?nxt ?ns" by (rule tbl_rep_push [OF Cons.prems(3) refl]) (use Cons.prems(4) in auto)
  have m: "mset (concat ?ns) = mset (x # concat ns)" by (rule mset_concat_push [OF il])
  have c: "chain ?nxt (nxt x) xs" "distinct xs" "set xs \<inter> set (concat ?ns) = {}"
    using Cons.prems unfolding mset_eq_setD [OF m] by auto
  obtain new' nxt' ns' where ih: "rehash_chain ops ?new ?nxt (nxt x) = Some (new', nxt')" "tbl_rep ops new' nxt' ns'"
      "mset (concat ns') = mset (concat ?ns) + mset xs" "bt_size new' = bt_size ?new"
      "\<forall>y. y \<notin> set xs \<longrightarrow> nxt' y = ?nxt y"
    using Cons.IH [OF c(1,2) rep c(3)] by blast
  have "rehash_chain ops new nxt p = Some (new', nxt')"
    using Cons.prems(1) ih(1) tbl_rep_nth(1) [OF Cons.prems(3) lt] by (subst rehash_chain.simps) (simp add: Let_def)
  with ih(2-) m show ?case by (intro exI [of _ new'] exI [of _ nxt'] exI [of _ ns']) simp
qed

lemma rehash_buckets_ok:
  assumes "\<forall>i\<in>set is. i < length cs \<and> bucket_head old i = Some (bt_buckets old ! i) \<and> chain nxt (bt_buckets old ! i) (cs ! i)"
    and "distinct is" "distinct (concat cs)" "tbl_rep ops new nxt ns" "(\<Union>i\<in>set is. set (cs ! i)) \<inter> set (concat ns) = {}"
  shows "\<exists>new' nxt' ns'. rehash_buckets ops old is new nxt = Some (new', nxt') \<and> tbl_rep ops new' nxt' ns' \<and>
     mset (concat ns') = mset (concat ns) + mset (concat (map (\<lambda>i. cs ! i) is)) \<and> bt_size new' = bt_size new"
  using assms
proof (induction "is" arbitrary: nxt new ns)
  case Nil
  then show ?case by auto
next
  case (Cons i js)
  have i: "i < length cs" "bucket_head old i = Some (bt_buckets old ! i)" "chain nxt (bt_buckets old ! i) (cs ! i)"
    using Cons.prems(1) by auto
  have d: "distinct (cs ! i)" using Cons.prems(3) i(1) by (auto simp: distinct_concat_iff)
  obtain new1 nxt1 ns1 where r: "rehash_chain ops new nxt (bt_buckets old ! i) = Some (new1, nxt1)" "tbl_rep ops new1 nxt1 ns1"
      "mset (concat ns1) = mset (concat ns) + mset (cs ! i)" "bt_size new1 = bt_size new"
      "\<forall>x. x \<notin> set (cs ! i) \<longrightarrow> nxt1 x = nxt x"
  proof -
    have "set (cs ! i) \<inter> set (concat ns) = {}" using Cons.prems(5) by (simp add: Int_Un_distrib2 del: set_concat)
    from rehash_chain_ok [OF i(3) d Cons.prems(4) this] that show thesis by blast
  qed
  have s1: "set (concat ns1) = set (concat ns) \<union> set (cs ! i)"
    using arg_cong [OF r(3), of set_mset] by (simp del: mset_concat)
  have other: "x \<notin> set (cs ! i)" if "j \<in> set js" "x \<in> set (cs ! j)" for j x
    using concat_disjoint [OF Cons.prems(3), of j i x] that Cons.prems(1,2) by auto
  have "chain nxt1 (bt_buckets old ! j) (cs ! j)" if "j \<in> set js" for j
    using that Cons.prems(1) r(5) other [OF that] chain_cong [of "cs ! j" nxt1 nxt] by auto
  then have p1: "\<forall>j\<in>set js. j < length cs \<and> bucket_head old j = Some (bt_buckets old ! j) \<and> chain nxt1 (bt_buckets old ! j) (cs ! j)"
    using Cons.prems(1) by auto
  have p2: "(\<Union>j\<in>set js. set (cs ! j)) \<inter> set (concat ns1) = {}"
    using Cons.prems(5) other unfolding s1 by auto
  obtain new' nxt' ns' where ih: "rehash_buckets ops old js new1 nxt1 = Some (new', nxt')" "tbl_rep ops new' nxt' ns'"
      "mset (concat ns') = mset (concat ns1) + mset (concat (map (\<lambda>i. cs ! i) js))" "bt_size new' = bt_size new1"
    using Cons.IH [OF p1 _ Cons.prems(3) r(2) p2] Cons.prems(2) by auto
  with i(2) r show ?case by (intro exI [of _ new'] exI [of _ nxt'] exI [of _ ns']) (simp del: mset_concat)
qed

lemma rehash_locked_ok:
  assumes rep: "ht_rep ops ht cs" and sz: "0 < n"
  shows "\<exists>ht' cs'. rehash_locked ops ht n = Some ht' \<and> ht_rep ops ht' cs' \<and> mset (concat cs') = mset (concat cs)"
proof (cases "bt_size (ht_tbl ht) = n")
  case True
  with rep show ?thesis by (auto simp: rehash_locked_def)
next
  case False
  have t: "tbl_rep ops (ht_tbl ht) (ht_next ht) cs" and dist: "distinct (concat cs)" using rep by (auto simp: ht_rep_def)
  let ?new = "fst (bucket_table_alloc (ht_seed ht) n)"
  have new: "tbl_rep ops ?new (ht_next ht) (replicate n [])"
    using sz by (simp add: tbl_rep_def bucket_table_alloc_def Let_def)
  have "\<forall>i\<in>set [0..<bt_size (ht_tbl ht)]. i < length cs \<and>
      bucket_head (ht_tbl ht) i = Some (bt_buckets (ht_tbl ht) ! i) \<and> chain (ht_next ht) (bt_buckets (ht_tbl ht) ! i) (cs ! i)"
    using t tbl_rep_nth [OF t] by (auto simp: tbl_rep_def)
  from rehash_buckets_ok [OF this distinct_upt dist new] obtain new' nxt' cs' where
    r: "rehash_buckets ops (ht_tbl ht) [0..<bt_size (ht_tbl ht)] ?new (ht_next ht) = Some (new', nxt')"
      "tbl_rep ops new' nxt' cs'" "mset (concat cs') = mset (concat (map (\<lambda>i. cs ! i) [0..<bt_size (ht_tbl ht)]))"
    by auto
  have "map (\<lambda>i. cs ! i) [0..<bt_size (ht_tbl ht)] = cs" using t map_nth [of cs] by (simp add: tbl_rep_def)
  with r(3) have m: "mset (concat cs') = mset (concat cs)" by simp
  have "ht_rep ops (ht\<lparr>ht_tbl := new', ht_next := nxt', ht_seed := snd (bucket_table_alloc (ht_seed ht) n)\<rparr>) cs'"
    using rep r(2) mset_eq_setD [OF m] mset_eq_imp_distinct_iff [OF m] mset_eq_length [OF m]
    by (simp add: ht_rep_def del: set_concat)
  with False r(1) m show ?thesis by (auto simp: rehash_locked_def case_prod_unfold Let_def)
qed

lemma worker_ok:
  assumes rep: "ht_rep ops ht cs"
  shows "\<exists>ht' cs'. rht_deferred_worker ops ht = Some ht' \<and> ht_rep ops ht' cs' \<and> mset (concat cs') = mset (concat cs)"
proof -
  let ?n = "bt_size (ht_tbl ht)"
  have pos: "0 < at_most_max_size ht (?n * 2)" if "?n < at_most_max_size ht (?n * 2)" using that by linarith
  have half: "0 < max (?n div 2) x" if "ht_nelems ht < ?n * 3 div 10" for x
  proof -
    have "4 \<le> ?n" using that by (cases "?n < 4") auto
    then have "0 < ?n div 2" by linarith
    then show ?thesis by (simp add: less_max_iff_disj)
  qed
  show ?thesis
    using rep rehash_locked_ok [OF rep pos] rehash_locked_ok [OF rep half]
    by (auto simp: rht_deferred_worker_def Let_def)
qed

lemma ht_map_mset:
  assumes "ht_rep ops ht cs" "mset (concat cs') = mset (concat cs)"
  shows "ht_map ops cs' = ht_map ops cs"
proof
  fix k
  have inj: "inj_on (op_key ops) (set (concat cs))" using assms(1) by (simp add: ht_rep_def)
  then have inj': "inj_on (op_key ops) (set (concat cs'))" unfolding mset_eq_setD [OF assms(2)] .
  have "ht_map ops cs' k = Some x \<longleftrightarrow> ht_map ops cs k = Some x" for x
    unfolding ht_map_Some [OF inj] ht_map_Some [OF inj'] mset_eq_setD [OF assms(2)] ..
  then show "ht_map ops cs' k = ht_map ops cs k"
    by (cases "ht_map ops cs k"; cases "ht_map ops cs' k") auto
qed

section \<open>The interface: a map from keys to objects\<close>

text \<open>
  What the node cache relies on: inserting an object that is in no table either adds it under its
  key or refuses and changes nothing, removing an object deletes exactly its entry, and
  resizing in the background changes no entry.
\<close>

locale object_map =
  fixes rep :: "'s \<Rightarrow> ('k \<Rightarrow> 'v option) \<Rightarrow> bool" and key :: "'v \<Rightarrow> 'k"
    and ins :: "'s \<Rightarrow> 'v \<Rightarrow> (int \<times> 's) option" and rem :: "'s \<Rightarrow> 'v \<Rightarrow> (int \<times> 's) option"
    and resize :: "'s \<Rightarrow> 's option"
  assumes ins_ok: "rep s m \<Longrightarrow> v \<notin> ran m \<Longrightarrow>
      \<exists>r s'. ins s v = Some (r, s') \<and> (if r = 0 then m (key v) = None \<and> rep s' (m(key v \<mapsto> v)) else rep s' m)"
    and rem_ok: "rep s m \<Longrightarrow>
      \<exists>r s'. rem s v = Some (r, s') \<and>
        (if m (key v) = Some v then r = 0 \<and> rep s' (m(key v := None)) else r \<noteq> 0 \<and> s' = s)"
    and resize_ok: "rep s m \<Longrightarrow> \<exists>s'. resize s = Some s' \<and> rep s' m"
begin

text \<open>An object inserted, whatever the table is resized to, can be removed again, which restores the map.\<close>

lemma ins_resize_rem:
  assumes "rep s m" "v \<notin> ran m" "ins s v = Some (0, s1)"
  shows "\<exists>s2 s3. resize s1 = Some s2 \<and> rem s2 v = Some (0, s3) \<and> rep s3 m"
proof -
  have 1: "rep s1 (m(key v \<mapsto> v))" "m (key v) = None" using ins_ok [OF assms(1,2)] assms(3) by auto
  obtain s2 where 2: "resize s1 = Some s2" "rep s2 (m(key v \<mapsto> v))" using resize_ok [OF 1(1)] by blast
  obtain s3 where "rem s2 v = Some (0, s3)" "rep s3 ((m(key v \<mapsto> v))(key v := None))"
    using rem_ok [OF 2(2), of v] by auto
  moreover have "(m(key v \<mapsto> v))(key v := None) = m" using 1(2) by auto
  ultimately show ?thesis using 2(1) by auto
qed

end

definition ht_abs :: "'k rht_ops \<Rightarrow> rhashtable \<Rightarrow> ('k \<Rightarrow> addr option) \<Rightarrow> bool" where
  "ht_abs ops ht m \<longleftrightarrow> (\<exists>cs. ht_rep ops ht cs \<and> m = ht_map ops cs)"

lemma ht_ran: "ht_rep ops ht cs \<Longrightarrow> obj \<in> set (concat cs) \<longleftrightarrow> obj \<in> ran (ht_map ops cs)"
  using ht_map_Some [of ops cs] by (auto simp: ran_def ht_rep_def)

interpretation rht: object_map "ht_abs ops" "op_key ops" "rhashtable_lookup_insert_fast ops"
  "rhashtable_remove_fast ops" "rht_deferred_worker ops" for ops :: "'k rht_ops"
proof
  fix s :: rhashtable and m :: "'k \<Rightarrow> addr option" and v :: addr
  assume a: "ht_abs ops s m"
  then obtain cs where cs: "ht_rep ops s cs" "m = ht_map ops cs" by (auto simp: ht_abs_def)
  let ?i = "rht_head_hashfn ops (ht_tbl s) v"
  have il: "?i < length cs" using cs(1) head_hash_less by (auto simp: ht_rep_def tbl_rep_def)
  show "\<exists>s'. rht_deferred_worker ops s = Some s' \<and> ht_abs ops s' m"
    using worker_ok [OF cs(1)] ht_map_mset [OF cs(1)] cs(2) by (metis ht_abs_def)
  show "\<exists>r s'. rhashtable_remove_fast ops s v = Some (r, s') \<and>
      (if m (op_key ops v) = Some v then r = 0 \<and> ht_abs ops s' (m(op_key ops v := None)) else r \<noteq> 0 \<and> s' = s)"
  proof (cases "v \<in> set (concat cs)")
    case True
    have t: "tbl_rep ops (ht_tbl s) (ht_next s) cs" using cs(1) by (simp add: ht_rep_def)
    have in_c: "v \<in> set (cs ! ?i)" using tbl_rep_in_chain [OF t True] by simp
    have "m (op_key ops v) = Some v" using True ht_map_Some [of ops cs] cs by (simp add: ht_rep_def del: set_concat)
    moreover obtain s' where "rhashtable_remove_fast ops s v = Some (0, s')" "ht_rep ops s' (cs[?i := remove1 v (cs ! ?i)])"
      using remove_cases [OF cs(1) refl, of v] True by auto
    ultimately show ?thesis using ht_map_drop [OF cs(1) il in_c] cs(2) by (auto simp: ht_abs_def)
  next
    case False
    then have "m (op_key ops v) \<noteq> Some v" using ht_map_Some [of ops cs] cs by (auto simp: ht_rep_def)
    then show ?thesis using remove_cases [OF cs(1) refl, of v] False by simp
  qed
  assume "v \<notin> ran m"
  then have new: "v \<notin> set (concat cs)" using ht_ran [OF cs(1)] cs(2) by blast
  show "\<exists>r s'. rhashtable_lookup_insert_fast ops s v = Some (r, s') \<and>
      (if r = 0 then m (op_key ops v) = None \<and> ht_abs ops s' (m(op_key ops v \<mapsto> v)) else ht_abs ops s' m)"
  proof -
    obtain r s' where r: "rhashtable_lookup_insert_fast ops s v = Some (r, s')"
      and c: "if \<exists>x\<in>set (take RHT_ELASTICITY (cs ! ?i)). op_key ops x = op_key ops v then r = - 17 \<and> s' = s
        else if RHT_ELASTICITY < length (cs ! ?i) then r = - 7 \<and> s' = s\<lparr>ht_scheduled := True\<rparr>
        else r = 0 \<and> ht_rep ops s' (cs[?i := v # cs ! ?i]) \<and>
          bt_size (ht_tbl s') = bt_size (ht_tbl s) \<and> bt_hash_rnd (ht_tbl s') = bt_hash_rnd (ht_tbl s)"
      using insert_cases [OF cs(1) new refl] by blast
    have s: "ht_abs ops (s\<lparr>ht_scheduled := True\<rparr>) m" using cs by (auto simp: ht_abs_def ht_rep_def)
    show ?thesis
    proof (cases "r = 0")
      case True
      then have rep': "ht_rep ops s' (cs[?i := v # cs ! ?i])" using c by (auto split: if_splits)
      have "op_key ops x \<noteq> op_key ops v" if "x \<in> set (concat cs)" for x
      proof
        assume "op_key ops x = op_key ops v"
        moreover have "set (concat (cs[?i := v # cs ! ?i])) = insert v (set (concat cs))"
          using mset_eq_setD [OF mset_concat_push [OF il]] by simp
        ultimately show False using rep' that new by (auto simp: ht_rep_def image_iff simp del: set_concat)
      qed
      then have "m (op_key ops v) = None" using cs(2) ht_map_None by metis
      then show ?thesis using True r rep' ht_map_push [OF rep' il] cs(2) by (auto simp: ht_abs_def)
    next
      case False
      then show ?thesis using r c s a by (auto split: if_splits)
    qed
  qed
qed

section \<open>Rounding up to a power of two\<close>

text \<open>A bit of the smeared word is set when one of the next \<open>n\<close> bits of \<open>w\<close> at or above it is.\<close>

definition smeared :: "nat \<Rightarrow> u64 \<Rightarrow> u64 \<Rightarrow> bool" where
  "smeared n w v \<longleftrightarrow> (\<forall>i. bit v i \<longleftrightarrow> (\<exists>j\<ge>i. j < i + n \<and> bit w j))"

lemma smeared_step: "smeared n w v \<Longrightarrow> smeared (n + n) w (smear n v)"
  unfolding smeared_def smear_def
proof
  fix i
  assume s: "\<forall>i. bit v i \<longleftrightarrow> (\<exists>j\<ge>i. j < i + n \<and> bit w j)"
  have "(\<exists>j\<ge>i. j < i + (n + n) \<and> bit w j) \<longleftrightarrow>
      (\<exists>j\<ge>i. j < i + n \<and> bit w j) \<or> (\<exists>j\<ge>i + n. j < i + n + n \<and> bit w j)"
    (is "?l \<longleftrightarrow> ?a \<or> ?b")
  proof
    assume ?l
    then obtain j where "i \<le> j" "j < i + (n + n)" "bit w j" by blast
    then show "?a \<or> ?b" by (cases "j < i + n") auto
  next
    assume "?a \<or> ?b"
    then show ?l
    proof
      assume ?a
      then obtain j where "i \<le> j" "j < i + n" "bit w j" by blast
      then show ?l by (intro exI [of _ j]) simp
    next
      assume ?b
      then obtain j where "i + n \<le> j" "j < i + n + n" "bit w j" by blast
      then show ?l by (intro exI [of _ j]) simp
    qed
  qed
  with s show "bit (v OR drop_bit n v) i \<longleftrightarrow> (\<exists>j\<ge>i. j < i + (n + n) \<and> bit w j)"
    by (simp add: bit_or_iff bit_drop_bit_eq add.commute)
qed

lemma smeared_1: "smeared 1 w w"
  unfolding smeared_def
proof
  fix i :: nat
  show "bit w i \<longleftrightarrow> (\<exists>j\<ge>i. j < i + 1 \<and> bit w j)"
  proof
    assume "bit w i"
    then show "\<exists>j\<ge>i. j < i + 1 \<and> bit w j" by (intro exI [of _ i]) simp
  next
    assume "\<exists>j\<ge>i. j < i + 1 \<and> bit w j"
    then obtain j where "i \<le> j" "j < i + 1" "bit w j" by blast
    moreover from this have "j = i" by simp
    ultimately show "bit w i" by simp
  qed
qed

lemma smeared_64: "smeared 64 w (smear 32 (smear 16 (smear 8 (smear 4 (smear 2 (smear 1 w))))))"
proof -
  have step: "smeared n w v \<Longrightarrow> m = n + n \<Longrightarrow> smeared m w (smear n v)" for n m v
    using smeared_step by blast
  show ?thesis by (rule step, rule step, rule step, rule step, rule step, rule step, rule smeared_1) simp_all
qed

lemma no_high_bits: "(\<forall>j\<ge>i. \<not> bit w j) \<longleftrightarrow> unat w < 2 ^ i" for w :: u64
proof -
  have "take_bit i w = w \<longleftrightarrow> unat w < 2 ^ i"
    by (simp add: word_unat_eq_iff unsigned_take_bit_eq take_bit_nat_eq_self_iff)
  moreover have "take_bit i w = w \<longleftrightarrow> (\<forall>j\<ge>i. \<not> bit w j)"
    unfolding bit_eq_iff bit_take_bit_iff by (meson bit_imp_possible_bit linorder_not_le)
  ultimately show ?thesis by simp
qed

lemma smear_mask:
  "smear 32 (smear 16 (smear 8 (smear 4 (smear 2 (smear 1 w))))) = mask (bit_len (unat w))" (is "?s = _")
proof (rule bit_eqI)
  fix i
  assume "possible_bit TYPE(u64) i"
  then have i: "i < 64" by simp
  have "bit ?s i \<longleftrightarrow> (\<exists>j\<ge>i. j < i + 64 \<and> bit w j)"
    using smeared_64 [of w] unfolding smeared_def by blast
  also have "\<dots> \<longleftrightarrow> (\<exists>j\<ge>i. bit w j)"
    using bit_imp_le_length [of w] by (auto intro: trans_less_add2)
  also have "\<dots> \<longleftrightarrow> i < bit_len (unat w)"
    using no_high_bits [of i w] bit_len_le_iff [of "unat w" i] by (meson linorder_not_le)
  also have "\<dots> \<longleftrightarrow> bit (mask (bit_len (unat w)) :: u64) i" using i by (simp add: bit_mask_iff)
  finally show "bit ?s i \<longleftrightarrow> bit (mask (bit_len (unat w)) :: u64) i" .
qed

lemma roundup_pow2_eq:
  "roundup_pow2 v = (if v \<le> 2 ^ 63 then Some (2 ^ bit_len (unat v - 1)) else None)"
proof (cases "v \<le> 1")
  case True
  then have "unat v - 1 = 0" by (simp add: word_le_nat_alt)
  moreover have "v \<le> 2 ^ 63" using True by (simp add: word_le_nat_alt)
  ultimately show ?thesis using True by (simp add: roundup_pow2_def)
next
  case False
  define k where "k = bit_len (unat v - 1)"
  have u: "unat (v - 1) = unat v - 1" using False by (simp add: word_le_nat_alt unat_sub)
  have k: "k \<le> 63 \<longleftrightarrow> v \<le> 2 ^ 63" using False unfolding k_def bit_len_le_iff by (auto simp: word_le_nat_alt)
  have k64: "k \<le> 64" using bit_len_unat_le [of "v - 1"] by (simp add: k_def u)
  have m: "unat (mask k :: u64) = 2 ^ k - 1" using unat_mask_small [where 'a = 64, of k] k64 by simp
  have e: "mask k + 1 = (2 ^ k :: u64)" by (simp add: mask_eq_decr_exp)
  have "roundup_pow2 v = checked_add (mask k) 1"
    using False unfolding roundup_pow2_def Let_def smear_mask u k_def by simp
  also have "\<dots> = (if k \<le> 63 then Some (2 ^ k) else None)"
  proof (cases "k \<le> 63")
    case True
    have "(2::nat) ^ k \<le> 2 ^ 63" using True by (intro power_increasing) auto
    then have "unat (mask k :: u64) + unat (1 :: u64) < 2 ^ LENGTH(64)" using m by simp
    then show ?thesis using True e by (simp add: checked_add_Some)
  next
    case f: False
    then have "k = 64" using k64 by simp
    then show ?thesis by (simp add: checked_add_def mask_eq_decr_exp)
  qed
  finally show ?thesis using k by (simp add: k_def)
qed

section \<open>Properties\<close>

lemma tbl_rep_alloc:
  "0 < n \<Longrightarrow> tbl_rep ops (fst (bucket_table_alloc seed n)) nxt (replicate n [])"
  by (simp add: tbl_rep_def bucket_table_alloc_def Let_def)

lemma roundup_pow2_unat:
  assumes "roundup_pow2 v = Some n"
  shows "unat n = 2 ^ bit_len (unat v - 1)"
proof -
  from assms have "v \<le> 2 ^ 63" and n: "n = 2 ^ bit_len (unat v - 1)" by (auto simp: roundup_pow2_eq split: if_splits)
  then have "unat v \<le> 2 ^ 63" by (simp add: word_le_nat_alt)
  then have "bit_len (unat v - 1) \<le> 63" by (simp add: bit_len_le_iff)
  with n show ?thesis using unat_pow2 [where 'a = 64, of "bit_len (unat v - 1)"] by simp
qed

text \<open>
  A table set up by \<^verbatim>\<open>rhashtable_init\<close> with a hash and compare function that agree with the keys
  represents the empty map. The set-up is refused with \<^verbatim>\<open>-EINVAL\<close> exactly when there is neither a
  key length nor an object hash function, or an object hash function without a compare function.\<close>

lemma rht_init_empty:
  assumes "ops_ok ops" "rhashtable_init ops seed heap params = Some r"
  shows "case r of
      Inl e \<Rightarrow> e = - 22 \<and> (p_key_len params = 0 \<and> op_obj_hashfn ops = None \<or> op_obj_hashfn ops \<noteq> None \<and> op_obj_cmpfn ops = None)
    | Inr ht \<Rightarrow> ht_abs ops ht Map.empty \<and> ht_nelems ht = 0 \<and> (\<exists>k. bt_size (ht_tbl ht) = 2 ^ k)"
proof (cases r)
  case (Inl e)
  then show ?thesis using assms(2) by (auto simp: rhashtable_init_def Let_def bind_eq_Some_conv split: if_splits prod.splits)
next
  case (Inr ht)
  then obtain p n where n: "rounded_hashtable_size p = Some n" and
    ht: "ht_tbl ht = fst (bucket_table_alloc seed (unat n))" "ht_nelems ht = 0"
    using assms(2) by (auto simp: rhashtable_init_def bucket_table_alloc_def Let_def bind_eq_Some_conv split: if_splits prod.splits)
  from n obtain v where v: "roundup_pow2 v = Some n" by (auto simp: rounded_hashtable_size_def Let_def)
  then have pow: "unat n = 2 ^ bit_len (unat v - 1)" by (rule roundup_pow2_unat)
  then have pos: "0 < unat n" by simp
  have "ht_rep ops ht (replicate (unat n) [])"
    using assms(1) ht tbl_rep_alloc [OF pos] by (auto simp: ht_rep_def)
  moreover have "ht_map ops (replicate (unat n) []) = Map.empty" by (auto simp: ht_map_def)
  ultimately show ?thesis using Inr ht pow by (auto simp: ht_abs_def bucket_table_alloc_def Let_def)
qed


text \<open>A table of the address itself as key, for concrete inputs: four buckets by the low bits.\<close>

definition id_ops :: "nat rht_ops" where
  "id_ops = \<lparr>op_hashfn = (\<lambda>k r. of_nat k), op_obj_hashfn = None, op_obj_cmpfn = None, op_key = (\<lambda>a. a)\<rparr>"

definition id_params :: rhashtable_params where
  "id_params = \<lparr>p_nelem_hint = 3, p_key_len = 8, p_max_size = 0, p_min_size = 0, p_automatic_shrinking = False\<rparr>"

definition id_table :: "addr list \<Rightarrow> rhashtable" where
  "id_table objs = fold (\<lambda>obj ht. snd (the (rhashtable_lookup_insert_fast id_ops ht obj))) objs
     (projr (the (rhashtable_init id_ops 1 (\<lambda>_. None) id_params)))"

lemma id_ops_ok: "ops_ok id_ops"
  by (simp add: ops_ok_def id_ops_def)

lemma id_key [simp]: "op_key id_ops = (\<lambda>a. a)"
  by (simp add: id_ops_def)

text \<open>
  Lookup returns the object stored under the key, and nothing when no stored object has the key,
  as long as no chain is longer than the number of links a lookup follows.\<close>

lemma rht_lookup_map:
  assumes "ht_rep ops ht cs" "\<forall>c\<in>set cs. length c \<le> RHT_ELASTICITY"
  shows "rhashtable_lookup_fast ops ht k = Some (ht_map ops cs k)"
proof -
  let ?i = "rht_key_hashfn ops (ht_tbl ht) k"
  have "?i < length cs" using assms(1) key_hash_less by (auto simp: ht_rep_def tbl_rep_def)
  then have "take RHT_ELASTICITY (cs ! ?i) = cs ! ?i" using assms(2) by simp
  then show ?thesis using lookup_take [OF assms(1), of k] find_concat_chain [OF assms(1), of k] by simp
qed

lemma id_table_rep: "ht_rep id_ops (id_table [5, 9, 2]) [[], [9, 5], [2], []]"
proof -
  have t: "bt_size (ht_tbl (id_table [5, 9, 2])) = 4" "bt_buckets (ht_tbl (id_table [5, 9, 2])) = [None, Some 9, Some 2, None]"
    by code_simp+
  have n: "ht_next (id_table [5, 9, 2]) 9 = Some 5" "ht_next (id_table [5, 9, 2]) 5 = None" "ht_next (id_table [5, 9, 2]) 2 = None"
    "ht_nelems (id_table [5, 9, 2]) = 3"
    by code_simp+
  have less: "(\<forall>i<4. P i) \<longleftrightarrow> P 0 \<and> P 1 \<and> P 2 \<and> P (3::nat)" for P
    by (auto simp: less_Suc_eq numeral_eq_Suc)
  have h: "rht_head_hashfn id_ops (ht_tbl (id_table [5, 9, 2])) 9 = 1" "rht_head_hashfn id_ops (ht_tbl (id_table [5, 9, 2])) 5 = 1"
    "rht_head_hashfn id_ops (ht_tbl (id_table [5, 9, 2])) 2 = 2"
    by (simp_all add: rht_head_hashfn_def id_ops_def t)
  show ?thesis
    unfolding ht_rep_def tbl_rep_def t less
    by (simp add: n h [simplified] id_ops_ok id_key inj_on_def)
qed

text \<open>
  C38: The operations on a table implement those on a map from keys to objects. Inserting an object
  returns 0 only when its key was absent and then adds it, and changes no content otherwise. Removing
  an object succeeds exactly when it is the one stored under its key, and then deletes it. The
  deferred worker always finishes and changes no content, whether it grows, shrinks or keeps the table.\<close>

theorem rht_operations_refine_map:
  assumes "ht_abs ops ht m"
  shows "(\<exists>ht'. rht_deferred_worker ops ht = Some ht' \<and> ht_abs ops ht' m) \<and>
    (\<exists>r ht'. rhashtable_remove_fast ops ht obj = Some (r, ht') \<and>
      (if m (op_key ops obj) = Some obj then r = 0 \<and> ht_abs ops ht' (m(op_key ops obj := None)) else r \<noteq> 0 \<and> ht' = ht)) \<and>
    (obj \<notin> ran m \<longrightarrow> (\<exists>r ht'. rhashtable_lookup_insert_fast ops ht obj = Some (r, ht') \<and>
      (if r = 0 then m (op_key ops obj) = None \<and> ht_abs ops ht' (m(op_key ops obj \<mapsto> obj)) else ht_abs ops ht' m)))"
  using rht.resize_ok [OF assms] rht.rem_ok [OF assms, of obj] rht.ins_ok [OF assms, of obj] by (intro conjI impI)

theorem rht_operations_refine_map_witness:
  "\<exists>r ht'. rhashtable_remove_fast id_ops (id_table [5, 9, 2]) 9 = Some (r, ht') \<and> r = 0 \<and>
     ht_abs id_ops ht' ((ht_map id_ops [[], [9, 5], [2], []])(9 := None))"
proof -
  have a: "ht_abs id_ops (id_table [5, 9, 2]) (ht_map id_ops [[], [9, 5], [2], []])"
    using id_table_rep by (auto simp: ht_abs_def)
  show ?thesis
    using rht_operations_refine_map [OF a, of 9] by (auto simp: ht_map_def id_ops_def)
qed

text \<open>
  An object that was inserted can be removed after the deferred worker has resized the table, and
  the table then holds what it held before the insertion.\<close>

lemma rht_insert_resize_remove:
  assumes "ht_abs ops ht m" "obj \<notin> ran m" "rhashtable_lookup_insert_fast ops ht obj = Some (0, ht1)"
  shows "\<exists>ht2 ht3. rht_deferred_worker ops ht1 = Some ht2 \<and> rhashtable_remove_fast ops ht2 obj = Some (0, ht3) \<and>
    ht_abs ops ht3 m"
  using assms by (rule rht.ins_resize_rem)

text \<open>
  \<^verbatim>\<open>roundup_pow2\<close> returns the least power of two that is not below its argument, and overflows
  (a panic) exactly for arguments above \<open>2 ^ 63\<close>.\<close>

lemma roundup_pow2_least:
  "case roundup_pow2 v of
     Some n \<Rightarrow> (\<exists>k. unat n = 2 ^ k \<and> unat v \<le> 2 ^ k \<and> (\<forall>j. unat v \<le> 2 ^ j \<longrightarrow> k \<le> j))
   | None \<Rightarrow> 2 ^ 63 < unat v"
proof (cases "roundup_pow2 v")
  case None
  then show ?thesis by (auto simp: roundup_pow2_eq word_le_nat_alt split: if_splits)
next
  case (Some n)
  let ?k = "bit_len (unat v - 1)"
  have "unat v \<le> 2 ^ ?k" using less_power_bit_len [of "unat v - 1"] by linarith
  moreover have "?k \<le> j" if "unat v \<le> 2 ^ j" for j
    unfolding bit_len_le_iff using that zero_less_power [of "2::nat" j] by linarith
  ultimately show ?thesis using Some roundup_pow2_unat [OF Some] by auto
qed


end
