(* ===== verification/Snapshot.thy ===== *)
theory Snapshot
  imports Bkey
begin

unbundle bit_operations_syntax

text \<open>
  The snapshot table of \<^verbatim>\<open>snapshot.rs\<close>: snapshot ids form a forest in which a parent has a greater id
  than its children, the entry of an id is stored at index \<open>u32::MAX - id\<close>, and ancestor queries use
  three skip pointers per node and a bitmap of the next 128 ids. The table lock makes each operation
  one transition on the table. A loop that does not end and a panic are both the value \<open>None\<close>.
\<close>

section \<open>Data\<close>

definition IS_ANCESTOR_BITMAP :: u32 where [code_consts]: "IS_ANCESTOR_BITMAP = 128"
definition KEY_TYPE_snapshot :: u8 where [code_consts]: "KEY_TYPE_snapshot = 22"
definition BCH_SNAPSHOT_WILL_DELETE :: u32 where [code_consts]: "BCH_SNAPSHOT_WILL_DELETE = 1"
definition BCH_SNAPSHOT_SUBVOL :: u32 where [code_consts]: "BCH_SNAPSHOT_SUBVOL = 2"
definition BCH_SNAPSHOT_DELETED :: u32 where [code_consts]: "BCH_SNAPSHOT_DELETED = 4"
definition BCH_SNAPSHOT_NO_KEYS :: u32 where [code_consts]: "BCH_SNAPSHOT_NO_KEYS = 8"
definition BCH_FS_need_delete_dead_snapshots :: nat where [code_consts]: "BCH_FS_need_delete_dead_snapshots = 19"
definition BCH_ERR_invalid_snapshot_node :: int where [code_consts]: "BCH_ERR_invalid_snapshot_node = - 2604"

text \<open>The dynamic array of snapshot ids: the ids in use and the capacity of the allocation.\<close>

record snapshot_id_list =
  sl_data :: "u32 list"
  sl_size :: nat

record bch_snapshot =
  sn_flags :: u32
  sn_parent :: u32
  sn_children :: "u32 list"
  sn_subvol :: u32
  sn_tree :: u32
  sn_depth :: u32
  sn_skip :: "u32 list"

datatype snapshot_id_state = SNAPSHOT_ID_empty | SNAPSHOT_ID_live | SNAPSHOT_ID_deleted

record snapshot_t =
  st_state :: snapshot_id_state
  st_parent :: u32
  st_skip :: "u32 list"
  st_depth :: u32
  st_children :: "u32 list"
  st_subvol :: u32
  st_tree :: u32
  st_is_ancestor :: "u64 list"

definition snapshot_t_default :: snapshot_t where
  "snapshot_t_default =
     \<lparr>st_state = SNAPSHOT_ID_empty, st_parent = 0, st_skip = [0, 0, 0], st_depth = 0, st_children = [0, 0],
      st_subvol = 0, st_tree = 0, st_is_ancestor = [0, 0]\<rparr>"

record snapshot_table =
  t_nr :: nat
  t_s :: "snapshot_t list"

text \<open>What the operations use of \<^verbatim>\<open>bch_fs\<close>: the table and the flag word.\<close>

record snapshot_fs =
  c_table :: snapshot_table
  c_flags :: u64

section \<open>Lists of snapshot ids\<close>

fun snapshot_list_has_id :: "u32 list \<Rightarrow> u32 \<Rightarrow> bool" where
  "snapshot_list_has_id [] sid = False"
| "snapshot_list_has_id (x # xs) sid = (x = sid \<or> snapshot_list_has_id xs sid)"

text \<open>\<^verbatim>\<open>checked_next_power_of_two\<close> and \<^verbatim>\<open>Layout::array\<close> fail on overflow; \<open>alloc_ok\<close> tells whether the allocator
  returns memory for that capacity.\<close>

definition next_pow2 :: "nat \<Rightarrow> nat" where
  "next_pow2 n = 2 ^ bit_len (n - 1)"

definition snapshot_list_add_nodup :: "(nat \<Rightarrow> bool) \<Rightarrow> snapshot_id_list \<Rightarrow> u32 \<Rightarrow> int \<times> snapshot_id_list" where
  "snapshot_list_add_nodup alloc_ok s sid =
     (if snapshot_list_has_id (sl_data s) sid then (0, s)
      else let new_size = length (sl_data s) + 1 in
        if new_size > sl_size s then
          let capacity = next_pow2 new_size in
          if \<not> (capacity < 2 ^ 64 \<and> capacity * 4 < 2 ^ 63) \<or> \<not> alloc_ok capacity then (- 12, s)
          else (0, \<lparr>sl_data = sl_data s @ [sid], sl_size = capacity\<rparr>)
        else (0, s\<lparr>sl_data := sl_data s @ [sid]\<rparr>))"

definition snapshot_list_add :: "(nat \<Rightarrow> bool) \<Rightarrow> snapshot_id_list \<Rightarrow> u32 \<Rightarrow> (int \<times> snapshot_id_list) option" where
  "snapshot_list_add alloc_ok s sid =
     do { require (\<not> snapshot_list_has_id (sl_data s) sid); Some (snapshot_list_add_nodup alloc_ok s sid) }"

fun snapshot_list_merge :: "(nat \<Rightarrow> bool) \<Rightarrow> snapshot_id_list \<Rightarrow> u32 list \<Rightarrow> int \<times> snapshot_id_list" where
  "snapshot_list_merge alloc_ok dst [] = (0, dst)"
| "snapshot_list_merge alloc_ok dst (sid # src) =
     (let (ret, dst) = snapshot_list_add_nodup alloc_ok dst sid
      in if ret \<noteq> 0 then (ret, dst) else snapshot_list_merge alloc_ok dst src)"

section \<open>Table lookups\<close>

definition raw_snapshot_t :: "snapshot_table \<Rightarrow> u32 \<Rightarrow> snapshot_t option" where
  "raw_snapshot_t t sid =
     (let idx = unat (- 1 - sid) in if idx < t_nr t then nth_opt (t_s t) idx else None)"

definition bch2_snapshot_parent :: "snapshot_table \<Rightarrow> u32 \<Rightarrow> u32" where
  "bch2_snapshot_parent t sid = (case raw_snapshot_t t sid of Some s \<Rightarrow> st_parent s | None \<Rightarrow> 0)"

definition bch2_snapshot_parent_early :: "snapshot_table \<Rightarrow> u32 \<Rightarrow> u32" where
  "bch2_snapshot_parent_early t sid = (case raw_snapshot_t t sid of Some s \<Rightarrow> st_parent s | None \<Rightarrow> 0)"

definition bch2_snapshot_tree :: "snapshot_table \<Rightarrow> u32 \<Rightarrow> u32" where
  "bch2_snapshot_tree t sid = (case raw_snapshot_t t sid of Some s \<Rightarrow> st_tree s | None \<Rightarrow> 0)"

definition bch2_snapshots_same_tree :: "snapshot_table \<Rightarrow> u32 \<Rightarrow> u32 \<Rightarrow> bool" where
  "bch2_snapshots_same_tree t id1 id2 =
     (id1 = id2 \<or>
      (case (raw_snapshot_t t id1, raw_snapshot_t t id2) of
         (Some s1, Some s2) \<Rightarrow> st_tree s1 = st_tree s2
       | _ \<Rightarrow> False))"

fun nth_parent_loop :: "snapshot_table \<Rightarrow> u32 \<Rightarrow> nat \<Rightarrow> u32" where
  "nth_parent_loop t sid 0 = sid"
| "nth_parent_loop t sid (Suc n) = nth_parent_loop t (bch2_snapshot_parent t sid) n"

definition bch2_snapshot_nth_parent :: "snapshot_table \<Rightarrow> u32 \<Rightarrow> u32 \<Rightarrow> u32" where
  "bch2_snapshot_nth_parent t sid n = nth_parent_loop t sid (unat n)"

text \<open>The walk of \<^verbatim>\<open>bch2_snapshot_skiplist_get\<close>, which expects every node on the way to exist. Its random
  word is an argument.\<close>

fun skiplist_walk :: "snapshot_table \<Rightarrow> u32 \<Rightarrow> nat \<Rightarrow> u32 option" where
  "skiplist_walk t sid 0 = Some sid"
| "skiplist_walk t sid (Suc n) = do { s \<leftarrow> raw_snapshot_t t sid; skiplist_walk t (st_parent s) n }"

definition bch2_snapshot_skiplist_get :: "u32 \<Rightarrow> snapshot_table \<Rightarrow> u32 \<Rightarrow> u32 option" where
  "bch2_snapshot_skiplist_get random t sid =
     (if sid = 0 then Some 0
      else do { s \<leftarrow> raw_snapshot_t t sid;
                if st_parent s = 0 then Some sid
                else do { require (st_depth s \<noteq> 0); skiplist_walk t sid (unat (random mod st_depth s)) } })"

partial_function (option) bch2_snapshot_root :: "snapshot_table \<Rightarrow> u32 \<Rightarrow> u32 option" where
  "bch2_snapshot_root t sid =
     (let parent = bch2_snapshot_parent t sid
      in if parent \<noteq> 0 then bch2_snapshot_root t parent else Some sid)"

declare bch2_snapshot_root.simps [code]

definition bch2_snapshot_id_state :: "snapshot_table \<Rightarrow> u32 \<Rightarrow> snapshot_id_state" where
  "bch2_snapshot_id_state t sid = (case raw_snapshot_t t sid of Some s \<Rightarrow> st_state s | None \<Rightarrow> SNAPSHOT_ID_empty)"

definition bch2_snapshot_exists :: "snapshot_table \<Rightarrow> u32 \<Rightarrow> bool" where
  "bch2_snapshot_exists t sid \<longleftrightarrow> bch2_snapshot_id_state t sid = SNAPSHOT_ID_live"

definition bch2_snapshot_is_internal_node :: "snapshot_table \<Rightarrow> u32 \<Rightarrow> int" where
  "bch2_snapshot_is_internal_node t sid =
     (case raw_snapshot_t t sid of
        Some s \<Rightarrow> if st_children s ! 0 \<noteq> 0 then 1 else 0
      | None \<Rightarrow> BCH_ERR_invalid_snapshot_node)"

definition bch2_snapshot_is_leaf :: "snapshot_table \<Rightarrow> u32 \<Rightarrow> int" where
  "bch2_snapshot_is_leaf t sid =
     (let ret = bch2_snapshot_is_internal_node t sid in if ret < 0 then ret else 1 - ret)"

definition bch2_snapshot_depth :: "snapshot_table \<Rightarrow> u32 \<Rightarrow> u32 option" where
  "bch2_snapshot_depth t parent =
     (if parent = 0 then Some 0 else do { s \<leftarrow> raw_snapshot_t t parent; Some (st_depth s + 1) })"

definition bch2_snapshot_has_children :: "snapshot_table \<Rightarrow> u32 \<Rightarrow> bool" where
  "bch2_snapshot_has_children t sid =
     (case raw_snapshot_t t sid of Some s \<Rightarrow> st_children s ! 0 OR st_children s ! 1 \<noteq> 0 | None \<Rightarrow> False)"

partial_function (option) bch2_snapshot_live_descendent :: "snapshot_table \<Rightarrow> u32 \<Rightarrow> u32 option" where
  "bch2_snapshot_live_descendent t sid =
     Option.bind (raw_snapshot_t t sid) (\<lambda>s.
       if st_state s = SNAPSHOT_ID_live then Some sid
       else Option.bind (require (st_children s ! 0 \<noteq> 0 \<and> st_children s ! 1 = 0)) (\<lambda>_.
         bch2_snapshot_live_descendent t (st_children s ! 0)))"

declare bch2_snapshot_live_descendent.simps [code]

section \<open>Ancestors\<close>

definition get_ancestor_below :: "snapshot_table \<Rightarrow> u32 \<Rightarrow> u32 \<Rightarrow> u32" where
  "get_ancestor_below t sid ancestor =
     (case raw_snapshot_t t sid of
        None \<Rightarrow> 0
      | Some s \<Rightarrow>
          if st_skip s ! 2 \<le> ancestor then st_skip s ! 2
          else if st_skip s ! 1 \<le> ancestor then st_skip s ! 1
          else if st_skip s ! 0 \<le> ancestor then st_skip s ! 0
          else st_parent s)"

definition test_ancestor_bitmap :: "snapshot_table \<Rightarrow> u32 \<Rightarrow> u32 \<Rightarrow> bool option" where
  "test_ancestor_bitmap t sid ancestor =
     (case raw_snapshot_t t sid of
        None \<Rightarrow> Some False
      | Some s \<Rightarrow>
          do { d \<leftarrow> checked_sub ancestor sid;
               bn \<leftarrow> checked_sub d 1;
               w \<leftarrow> nth_opt (st_is_ancestor s) (unat bn div 64);
               Some (w AND push_bit (unat bn mod 64) 1 \<noteq> 0) })"

partial_function (option) is_ancestor_early_loop :: "snapshot_table \<Rightarrow> u32 \<Rightarrow> u32 \<Rightarrow> u32 option" where
  "is_ancestor_early_loop t sid ancestor =
     (if sid \<noteq> 0 \<and> sid < ancestor then is_ancestor_early_loop t (bch2_snapshot_parent t sid) ancestor else Some sid)"

declare is_ancestor_early_loop.simps [code]

definition bch2_snapshot_is_ancestor_early :: "snapshot_table \<Rightarrow> u32 \<Rightarrow> u32 \<Rightarrow> bool option" where
  "bch2_snapshot_is_ancestor_early t sid ancestor =
     do { sid \<leftarrow> is_ancestor_early_loop t sid ancestor; Some (sid = ancestor) }"

partial_function (option) ancestor_skip_loop :: "snapshot_table \<Rightarrow> u32 \<Rightarrow> u32 \<Rightarrow> u32 option" where
  "ancestor_skip_loop t sid ancestor =
     (if sid \<noteq> 0 \<and> sid < ancestor - IS_ANCESTOR_BITMAP
      then ancestor_skip_loop t (get_ancestor_below t sid ancestor) ancestor else Some sid)"

declare ancestor_skip_loop.simps [code]

definition raw_bch2_snapshot_is_ancestor :: "snapshot_table \<Rightarrow> u32 \<Rightarrow> u32 \<Rightarrow> bool option" where
  "raw_bch2_snapshot_is_ancestor t sid ancestor =
     do { sid \<leftarrow> (if ancestor \<ge> IS_ANCESTOR_BITMAP then ancestor_skip_loop t sid ancestor else Some sid);
          if sid \<noteq> 0 \<and> sid < ancestor then test_ancestor_bitmap t sid ancestor else Some (sid = ancestor) }"

definition bch2_snapshot_is_ancestor :: "snapshot_table \<Rightarrow> u32 \<Rightarrow> u32 \<Rightarrow> bool option" where
  "bch2_snapshot_is_ancestor t sid ancestor =
     do { require (sid \<noteq> 0);
          require (ancestor \<noteq> 0);
          if sid = ancestor then Some True else raw_bch2_snapshot_is_ancestor t sid ancestor }"

fun snapshot_list_has_ancestor :: "snapshot_table \<Rightarrow> u32 list \<Rightarrow> u32 \<Rightarrow> bool option" where
  "snapshot_list_has_ancestor t [] sid = Some False"
| "snapshot_list_has_ancestor t (x # xs) sid =
     do { b \<leftarrow> bch2_snapshot_is_ancestor t sid x; if b then Some True else snapshot_list_has_ancestor t xs sid }"

section \<open>Overwrites in descendants\<close>

text \<open>The two scans for keys of descendant snapshots over a btree iterator: \<open>init\<close> is \<^verbatim>\<open>bch2_trans_iter_init\<close> at a
  position, \<open>peek\<close> is \<^verbatim>\<open>bch2_btree_iter_peek_prev\<close> (an error code, or the position of a key, if any), and
  \<open>advance\<close> is \<^verbatim>\<open>bch2_btree_iter_advance\<close>; the iterator is an argument of the model.\<close>

partial_function (option) overwrites_loop ::
    "(nat \<Rightarrow> bool) \<Rightarrow> snapshot_table \<Rightarrow> ('it \<Rightarrow> (int + bpos option) \<times> 'it) \<Rightarrow> ('it \<Rightarrow> bool \<times> 'it) \<Rightarrow>
     bpos \<Rightarrow> 'it \<Rightarrow> snapshot_id_list \<Rightarrow> (int \<times> snapshot_id_list) option" where
  "overwrites_loop alloc_ok t peek advance pos iter s =
     (case peek iter of
        (Inl err, iter) \<Rightarrow> Some (err, s)
      | (Inr None, iter) \<Rightarrow> Some (0, s)
      | (Inr (Some p), iter) \<Rightarrow>
          if \<not> bpos_eq p pos then Some (0, s)
          else Option.bind (bch2_snapshot_is_ancestor t (snapshot p) (snapshot pos)) (\<lambda>below.
            Option.bind (if below then snapshot_list_has_ancestor t (sl_data s) (snapshot p) else Some True) (\<lambda>skip.
              if skip then
                (case advance iter of (ok, iter) \<Rightarrow>
                   if ok then overwrites_loop alloc_ok t peek advance pos iter s else Some (0, s))
              else Option.bind (snapshot_list_add alloc_ok s (snapshot p)) (\<lambda>rs.
                if fst rs \<noteq> 0 then Some rs
                else (case advance iter of (ok, iter) \<Rightarrow>
                        if ok then overwrites_loop alloc_ok t peek advance pos iter (snd rs) else Some rs)))))"

declare overwrites_loop.simps [code]

definition raw_bch2_get_snapshot_overwrites ::
    "(nat \<Rightarrow> bool) \<Rightarrow> snapshot_table \<Rightarrow> (bpos \<Rightarrow> 'it) \<Rightarrow> ('it \<Rightarrow> (int + bpos option) \<times> 'it) \<Rightarrow> ('it \<Rightarrow> bool \<times> 'it) \<Rightarrow>
     bpos \<Rightarrow> snapshot_id_list \<Rightarrow> (int \<times> snapshot_id_list) option" where
  "raw_bch2_get_snapshot_overwrites alloc_ok t init peek advance pos s =
     do { start \<leftarrow> bpos_predecessor pos; overwrites_loop alloc_ok t peek advance pos (init start) s }"

partial_function (option) has_overwrites_loop ::
    "snapshot_table \<Rightarrow> ('it \<Rightarrow> (int + bpos option) \<times> 'it) \<Rightarrow> ('it \<Rightarrow> bool \<times> 'it) \<Rightarrow> bpos \<Rightarrow> 'it \<Rightarrow> int option" where
  "has_overwrites_loop t peek advance pos iter =
     (case peek iter of
        (Inl err, iter) \<Rightarrow> Some err
      | (Inr None, iter) \<Rightarrow> Some 0
      | (Inr (Some p), iter) \<Rightarrow>
          if \<not> bpos_eq pos p then Some 0
          else Option.bind (bch2_snapshot_is_ancestor t (snapshot p) (snapshot pos)) (\<lambda>below.
            if below then Some 1
            else (case advance iter of (ok, iter) \<Rightarrow>
                    if ok then has_overwrites_loop t peek advance pos iter else Some 0)))"

declare has_overwrites_loop.simps [code]

definition raw_bch2_key_has_snapshot_overwrites ::
    "snapshot_table \<Rightarrow> (bpos \<Rightarrow> 'it) \<Rightarrow> ('it \<Rightarrow> (int + bpos option) \<times> 'it) \<Rightarrow> ('it \<Rightarrow> bool \<times> 'it) \<Rightarrow> bpos \<Rightarrow> int option" where
  "raw_bch2_key_has_snapshot_overwrites t init peek advance pos =
     do { start \<leftarrow> bpos_predecessor pos; has_overwrites_loop t peek advance pos (init start) }"

section \<open>Walking the tree\<close>

text \<open>The climb of \<^verbatim>\<open>__bch2_snapshot_tree_next\<close>: to the first ancestor with a second child not yet visited. The
  depth is carried along; stepping above depth 0 is an overflow.\<close>

partial_function (option) tree_next_climb :: "snapshot_table \<Rightarrow> u32 \<Rightarrow> u32 \<Rightarrow> (u32 \<times> u32) option" where
  "tree_next_climb t sid depth =
     (let parent = bch2_snapshot_parent t sid in
      if parent = 0 then Some (0, depth)
      else Option.bind (checked_sub depth 1) (\<lambda>depth.
        let n = (case raw_snapshot_t t parent of Some s \<Rightarrow> st_children s ! 1 | None \<Rightarrow> 0) in
        if n \<noteq> 0 \<and> n \<noteq> sid then Option.bind (checked_add depth 1) (\<lambda>depth. Some (n, depth))
        else tree_next_climb t parent depth))"

declare tree_next_climb.simps [code]

definition raw_bch2_snapshot_tree_next :: "snapshot_table \<Rightarrow> u32 \<Rightarrow> u32 \<Rightarrow> (u32 \<times> u32) option" where
  "raw_bch2_snapshot_tree_next t sid depth =
     (let n = (case raw_snapshot_t t sid of Some s \<Rightarrow> st_children s ! 0 | None \<Rightarrow> 0) in
      if n \<noteq> 0 then do { depth \<leftarrow> checked_add depth 1; Some (n, depth) }
      else tree_next_climb t sid depth)"

section \<open>Marking a snapshot key\<close>

definition table_grow :: "snapshot_table \<Rightarrow> nat \<Rightarrow> snapshot_table" where
  "table_grow t idx =
     (if idx \<ge> t_nr t then
        let new_size = next_pow2 (idx + 1)
        in \<lparr>t_nr = new_size, t_s = take new_size (t_s t) @ replicate (new_size - length (t_s t)) snapshot_t_default\<rparr>
      else t)"

partial_function (option) mark_ancestors :: "snapshot_table \<Rightarrow> u32 \<Rightarrow> u32 \<Rightarrow> u64 list \<Rightarrow> u64 list option" where
  "mark_ancestors t sid parent is_ancestor =
     (if parent = 0 then Some is_ancestor
      else Option.bind (checked_sub parent sid) (\<lambda>d. Option.bind (checked_sub d 1) (\<lambda>bn.
        if bn < IS_ANCESTOR_BITMAP then
          Option.bind (nth_opt is_ancestor (unat bn div 64)) (\<lambda>w.
            mark_ancestors t sid (bch2_snapshot_parent t parent)
              (is_ancestor[unat bn div 64 := w OR push_bit (unat bn mod 64) 1]))
        else Some is_ancestor)))"

declare mark_ancestors.simps [code]

text \<open>\<^verbatim>\<open>offset_of!(bch_snapshot, depth)\<close> is 24: six 32-bit fields come before it.\<close>

definition mark_entry :: "bkey \<Rightarrow> bch_snapshot \<Rightarrow> snapshot_t" where
  "mark_entry k s =
     (let value_bytes = (unat (k_u64s k) - 5) * 8;
          entry = snapshot_t_default
            \<lparr>st_state := (if sn_flags s AND (BCH_SNAPSHOT_DELETED OR BCH_SNAPSHOT_NO_KEYS) = 0
                          then SNAPSHOT_ID_live else SNAPSHOT_ID_deleted),
             st_parent := sn_parent s,
             st_children := sn_children s,
             st_subvol := (if sn_flags s AND BCH_SNAPSHOT_SUBVOL \<noteq> 0 then sn_subvol s else 0),
             st_tree := sn_tree s\<rparr>
      in if value_bytes > 24 then entry\<lparr>st_depth := sn_depth s, st_skip := sn_skip s\<rparr> else entry)"

definition bch2_mark_snapshot :: "snapshot_fs \<Rightarrow> bkey \<Rightarrow> bch_snapshot \<Rightarrow> (int \<times> snapshot_fs) option" where
  "bch2_mark_snapshot c k s =
     (let sid = ucast (offset (k_p k));
          idx = unat (- 1 - sid :: u32);
          table = table_grow (c_table c) idx
      in if k_type k = KEY_TYPE_snapshot then
           do { let entry = mark_entry k s;
                bitmap \<leftarrow> mark_ancestors table sid (st_parent entry) (st_is_ancestor entry);
                ts \<leftarrow> upd_opt (t_s table) idx (entry\<lparr>st_is_ancestor := bitmap\<rparr>);
                Some (0, c\<lparr>c_table := table\<lparr>t_s := ts\<rparr>,
                           c_flags := (if sn_flags s AND BCH_SNAPSHOT_WILL_DELETE \<noteq> 0
                                       then c_flags c OR push_bit BCH_FS_need_delete_dead_snapshots 1 else c_flags c)\<rparr>) }
         else do { ts \<leftarrow> upd_opt (t_s table) idx snapshot_t_default;
                   Some (0, c\<lparr>c_table := table\<lparr>t_s := ts\<rparr>\<rparr>) })"

text \<open>\<^verbatim>\<open>bch2_snapshots_read\<close>: the results of the reverse scan of the tree are an argument, a key with its value or the
  error code of the iterator.\<close>

fun bch2_snapshots_read :: "snapshot_fs \<Rightarrow> (int + bkey \<times> bch_snapshot) list \<Rightarrow> (int \<times> snapshot_fs) option" where
  "bch2_snapshots_read c [] = Some (0, c)"
| "bch2_snapshots_read c (Inl err # ks) = Some (err, c)"
| "bch2_snapshots_read c (Inr (k, s) # ks) =
     (if k_type k = KEY_TYPE_snapshot then
        do { (ret, c) \<leftarrow> bch2_mark_snapshot c k s;
             if ret \<noteq> 0 then Some (ret, c) else bch2_snapshots_read c ks }
      else bch2_snapshots_read c ks)"

section \<open>The ancestor relation\<close>

text \<open>\<open>anc par i a\<close>: following parents from \<open>i\<close> reaches \<open>a\<close>; 0 ends a chain.\<close>

inductive anc :: "(u32 \<Rightarrow> u32) \<Rightarrow> u32 \<Rightarrow> u32 \<Rightarrow> bool" for par where
  anc_refl [simp, intro]: "anc par i i"
| anc_step: "par i \<noteq> 0 \<Longrightarrow> anc par (par i) a \<Longrightarrow> anc par i a"

text \<open>Parents have greater ids.\<close>

definition upward :: "(u32 \<Rightarrow> u32) \<Rightarrow> bool" where
  "upward par \<longleftrightarrow> (\<forall>i. par i \<noteq> 0 \<longrightarrow> i < par i)"

lemma anc_unfold: "anc par i a \<longleftrightarrow> i = a \<or> par i \<noteq> 0 \<and> anc par (par i) a"
  by (auto intro: anc_step elim: anc.cases)

lemma anc_trans: "anc par i a \<Longrightarrow> anc par a b \<Longrightarrow> anc par i b"
  by (induction rule: anc.induct) (auto intro: anc_step)

lemma anc_le: "anc par i a \<Longrightarrow> upward par \<Longrightarrow> i \<le> a"
  by (induction rule: anc.induct) (auto simp: upward_def dest: order_le_less_trans less_imp_le intro: order_trans less_imp_le)

lemma anc_linear: "anc par i a \<Longrightarrow> upward par \<Longrightarrow> anc par i b \<Longrightarrow> a \<le> b \<Longrightarrow> anc par a b"
proof (induction rule: anc.induct)
  case (anc_step i a)
  show ?case
  proof (cases "i = b")
    case True
    have "par i \<le> a" using anc_step.hyps(2) anc_step.prems(1) by (rule anc_le)
    moreover have "i < par i" using anc_step.hyps(1) anc_step.prems(1) by (simp add: upward_def)
    ultimately show ?thesis using anc_step.prems(3) True by (meson leD order_less_le_trans)
  next
    case False
    then have "anc par (par i) b" using anc_step.prems(2) by (auto simp: anc_unfold [of par i b])
    then show ?thesis using anc_step by blast
  qed
qed simp

lemma anc_cong:
  assumes "anc par i a" "\<And>x. x \<noteq> j \<Longrightarrow> par' x = par x" "\<And>x. par x \<noteq> j" "i \<noteq> j"
  shows "anc par' i a"
  using assms
proof (induction rule: anc.induct)
  case (anc_step i a)
  then have "par' i = par i" "par i \<noteq> j" by auto
  with anc_step show ?case by (auto intro: anc.anc_step)
qed simp

text \<open>Induction towards greater ids.\<close>

lemma up_induct:
  assumes "\<And>i :: u32. (\<And>j. i < j \<Longrightarrow> P j) \<Longrightarrow> P i"
  shows "P i"
proof (induction "2 ^ 32 - unat i" arbitrary: i rule: less_induct)
  case less
  have "P j" if "i < j" for j
    using less [of j] that unsigned_less [where 'a = nat, of j] by (simp add: word_less_nat_alt)
  then show ?case by (rule assms)
qed

section \<open>The table invariant\<close>

definition bitmap_bit :: "u64 list \<Rightarrow> nat \<Rightarrow> bool" where
  "bitmap_bit ws n \<longleftrightarrow> bit (ws ! (n div 64)) (n mod 64)"

text \<open>An entry is right when its parent has a greater id, its skip pointers lead to ancestors, and its bitmap
  has the ancestors among the next 128 ids.\<close>

definition entry_ok :: "(u32 \<Rightarrow> u32) \<Rightarrow> u32 \<Rightarrow> snapshot_t \<Rightarrow> bool" where
  "entry_ok par i s \<longleftrightarrow>
     (st_parent s \<noteq> 0 \<longrightarrow> i < st_parent s) \<and>
     length (st_skip s) = 3 \<and> length (st_is_ancestor s) = 2 \<and>
     (\<forall>k\<in>set (st_skip s). if st_parent s = 0 then k = 0 else k \<noteq> 0 \<and> anc par (st_parent s) k) \<and>
     (\<forall>n<128. bitmap_bit (st_is_ancestor s) n \<longleftrightarrow> (\<exists>a. unat a = unat i + n + 1 \<and> anc par i a))"

definition table_ok :: "snapshot_table \<Rightarrow> bool" where
  "table_ok t \<longleftrightarrow>
     t_nr t = length (t_s t) \<and>
     (\<forall>i s. raw_snapshot_t t i = Some s \<longrightarrow> entry_ok (bch2_snapshot_parent t) i s)"

lemma table_ok_upward: "table_ok t \<Longrightarrow> upward (bch2_snapshot_parent t)"
  by (auto simp: table_ok_def upward_def entry_ok_def bch2_snapshot_parent_def split: option.splits)

lemma anc_ge: "upward par \<Longrightarrow> \<not> i < a \<Longrightarrow> anc par i a \<longleftrightarrow> i = a"
  using anc_le by fastforce

section \<open>Correctness of ancestor queries\<close>

lemma early_loop_anc:
  assumes up: "upward (bch2_snapshot_parent t)" and "sid \<noteq> 0" "a \<noteq> 0"
  shows "bch2_snapshot_is_ancestor_early t sid a = Some (anc (bch2_snapshot_parent t) sid a)"
  using assms(2)
proof (induction sid rule: up_induct)
  case (1 sid)
  let ?p = "bch2_snapshot_parent t sid"
  show ?case
  proof (cases "sid < a")
    case False
    then show ?thesis using anc_ge [OF up False]
      by (simp add: bch2_snapshot_is_ancestor_early_def is_ancestor_early_loop.simps [of t sid])
  next
    case True
    have e: "bch2_snapshot_is_ancestor_early t sid a = bch2_snapshot_is_ancestor_early t ?p a"
      using True 1(2) by (simp add: bch2_snapshot_is_ancestor_early_def is_ancestor_early_loop.simps [of t sid])
    show ?thesis
    proof (cases "?p = 0")
      case z: True
      then have "\<not> anc (bch2_snapshot_parent t) sid a" using True by (auto simp: anc_unfold [of _ sid])
      then show ?thesis using e z assms(3)
        by (simp add: bch2_snapshot_is_ancestor_early_def is_ancestor_early_loop.simps [of t 0])
    next
      case nz: False
      then have "sid < ?p" using up by (simp add: upward_def)
      from 1(1) [OF this nz] e show ?thesis using nz True by (auto simp: anc_unfold [of _ sid])
    qed
  qed
qed

lemma ancestor_below_anc:
  assumes ok: "table_ok t" and s: "raw_snapshot_t t sid = Some s" and lt: "sid < a"
    and r: "r = get_ancestor_below t sid a"
  shows "anc (bch2_snapshot_parent t) sid a \<longleftrightarrow> r \<noteq> 0 \<and> anc (bch2_snapshot_parent t) r a"
    and "r = 0 \<or> sid < r"
proof -
  let ?par = "bch2_snapshot_parent t"
  have up: "upward ?par" using ok by (rule table_ok_upward)
  have e: "entry_ok ?par sid s" using ok s by (simp add: table_ok_def)
  have p: "?par sid = st_parent s" using s by (simp add: bch2_snapshot_parent_def)
  have sk: "{st_skip s ! 2, st_skip s ! 1, st_skip s ! 0} \<subseteq> set (st_skip s)" using e by (auto simp: entry_ok_def)
  have cases: "r \<in> set (st_skip s) \<and> r \<le> a \<or> r = st_parent s"
    using r s sk by (auto simp: get_ancestor_below_def)
  have ne: "sid \<noteq> a" using lt by simp
  show "anc ?par sid a \<longleftrightarrow> r \<noteq> 0 \<and> anc ?par r a"
  proof (cases "st_parent s = 0")
    case True
    then have "r = 0" using cases e by (auto simp: entry_ok_def)
    then show ?thesis using True p ne by (simp add: anc_unfold [of _ sid])
  next
    case False
    have sid: "anc ?par sid a \<longleftrightarrow> anc ?par (st_parent s) a" using False p ne by (simp add: anc_unfold [of _ sid])
    from cases show ?thesis
    proof
      assume k: "r \<in> set (st_skip s) \<and> r \<le> a"
      then have "r \<noteq> 0" "anc ?par (st_parent s) r" using e False by (auto simp: entry_ok_def)
      then show ?thesis using sid k up anc_linear anc_trans by blast
    next
      assume "r = st_parent s"
      then show ?thesis using sid False by simp
    qed
  qed
  show "r = 0 \<or> sid < r"
  proof (cases "st_parent s = 0")
    case True
    then show ?thesis using cases e by (auto simp: entry_ok_def)
  next
    case False
    then have "sid < st_parent s" using e by (simp add: entry_ok_def)
    moreover have "anc ?par (st_parent s) r \<or> r = st_parent s" using cases e False by (auto simp: entry_ok_def)
    ultimately show ?thesis using anc_le [OF _ up] by (meson order_less_le_trans order_refl)
  qed
qed

lemma no_entry_anc:
  "raw_snapshot_t t sid = None \<Longrightarrow> anc (bch2_snapshot_parent t) sid a \<longleftrightarrow> sid = a"
  by (simp add: anc_unfold [of _ sid] bch2_snapshot_parent_def)

lemma skip_loop_anc:
  assumes ok: "table_ok t" and "IS_ANCESTOR_BITMAP \<le> a" "sid \<noteq> 0"
  shows "\<exists>r. ancestor_skip_loop t sid a = Some r \<and> (r \<noteq> 0 \<longrightarrow> a - IS_ANCESTOR_BITMAP \<le> r) \<and>
    (anc (bch2_snapshot_parent t) sid a \<longleftrightarrow> r \<noteq> 0 \<and> anc (bch2_snapshot_parent t) r a)"
  using assms(3)
proof (induction sid rule: up_induct)
  case (1 sid)
  let ?r = "get_ancestor_below t sid a"
  show ?case
  proof (cases "sid < a - IS_ANCESTOR_BITMAP")
    case False
    then show ?thesis using 1(2) by (simp add: ancestor_skip_loop.simps [of t sid])
  next
    case True
    have le: "a - IS_ANCESTOR_BITMAP \<le> a" using assms(2) by (simp add: word_le_nat_alt unat_sub)
    then have lt: "sid < a" using True by (rule order_less_le_trans [rotated])
    have l: "ancestor_skip_loop t sid a = ancestor_skip_loop t ?r a"
      using True 1(2) by (simp add: ancestor_skip_loop.simps [of t sid])
    have z: "ancestor_skip_loop t 0 a = Some 0" by (simp add: ancestor_skip_loop.simps [of t 0])
    show ?thesis
    proof (cases "raw_snapshot_t t sid")
      case None
      then have "?r = 0" by (simp add: get_ancestor_below_def)
      moreover have "sid \<noteq> a" using lt by simp
      ultimately show ?thesis using l z no_entry_anc [OF None, of a] by simp
    next
      case (Some s)
      note b = ancestor_below_anc [OF ok Some lt refl]
      show ?thesis
      proof (cases "?r = 0")
        case True
        then show ?thesis using l z b(1) by simp
      next
        case False
        then show ?thesis using 1(1) [of ?r] b l by auto
      qed
    qed
  qed
qed

lemma bitmap_anc:
  assumes ok: "table_ok t" and lt: "sid < a" and near: "unat a - unat sid \<le> 128"
  shows "test_ancestor_bitmap t sid a = Some (anc (bch2_snapshot_parent t) sid a)"
proof (cases "raw_snapshot_t t sid")
  case None
  then show ?thesis using lt no_entry_anc [OF None] by (auto simp: test_ancestor_bitmap_def)
next
  case (Some s)
  let ?n = "unat a - unat sid - 1"
  have e: "entry_ok (bch2_snapshot_parent t) sid s" using ok Some by (simp add: table_ok_def)
  have u: "unat sid < unat a" using lt by (simp add: word_less_nat_alt)
  have d: "checked_sub a sid = Some (a - sid)" "unat (a - sid) = unat a - unat sid"
    using lt by (auto simp: checked_sub_def unat_sub)
  have d1: "checked_sub (a - sid) 1 = Some (a - sid - 1)" "unat (a - sid - 1) = ?n"
    using d(2) u by (auto simp: checked_sub_def word_le_nat_alt unat_sub)
  have n: "?n < 128" using near u by linarith
  then have n2: "?n div 64 < 2" by simp
  have bm: "length (st_is_ancestor s) = 2" using e by (simp add: entry_ok_def)
  have "test_ancestor_bitmap t sid a = Some (bitmap_bit (st_is_ancestor s) ?n)"
    using Some d d1 n2 bm by (simp add: test_ancestor_bitmap_def nth_opt_def bitmap_bit_def and_exp_eq_0_iff_not_bit)
  also have "bitmap_bit (st_is_ancestor s) ?n \<longleftrightarrow> (\<exists>a'. unat a' = unat sid + ?n + 1 \<and> anc (bch2_snapshot_parent t) sid a')"
    using e n unfolding entry_ok_def by blast
  also have "\<dots> \<longleftrightarrow> anc (bch2_snapshot_parent t) sid a"
    using u by (simp add: word_unat_eq_iff [symmetric])
  finally show ?thesis .
qed

lemma is_ancestor_anc:
  assumes ok: "table_ok t" and nz: "sid \<noteq> 0" "a \<noteq> 0"
  shows "bch2_snapshot_is_ancestor t sid a = Some (anc (bch2_snapshot_parent t) sid a)"
proof -
  let ?par = "bch2_snapshot_parent t"
  have up: "upward ?par" using ok by (rule table_ok_upward)
  obtain r where r: "(if a \<ge> IS_ANCESTOR_BITMAP then ancestor_skip_loop t sid a else Some sid) = Some r"
    and near: "r \<noteq> 0 \<Longrightarrow> unat a - unat r \<le> 128" and eq: "anc ?par sid a \<longleftrightarrow> r \<noteq> 0 \<and> anc ?par r a"
  proof (cases "a \<ge> IS_ANCESTOR_BITMAP")
    case True
    then have "unat (a - IS_ANCESTOR_BITMAP) = unat a - 128" by (simp add: unat_sub IS_ANCESTOR_BITMAP_def)
    then show ?thesis using skip_loop_anc [OF ok True nz(1)] True that by (force simp: word_le_nat_alt)
  next
    case False
    then have "unat a \<le> 128" by (simp add: IS_ANCESTOR_BITMAP_def word_le_nat_alt)
    then show ?thesis using False nz that [of sid] by simp
  qed
  have "raw_bch2_snapshot_is_ancestor t sid a = Some (anc ?par sid a)"
  proof (cases "r \<noteq> 0 \<and> r < a")
    case True
    then show ?thesis using r near eq bitmap_anc [OF ok] by (simp add: raw_bch2_snapshot_is_ancestor_def)
  next
    case False
    have "r = a \<longleftrightarrow> r \<noteq> 0 \<and> anc ?par r a" using False nz anc_ge [OF up, of r a] by blast
    then show ?thesis using r eq False by (auto simp: raw_bch2_snapshot_is_ancestor_def)
  qed
  then show ?thesis using nz by (simp add: bch2_snapshot_is_ancestor_def)
qed

section \<open>Marking keeps the invariant\<close>

lemma next_pow2_ge: "n \<le> next_pow2 n"
  using less_power_bit_len [of "n - 1"] unfolding next_pow2_def by linarith

definition tidx :: "u32 \<Rightarrow> nat" where
  "tidx i = unat (- 1 - i)"

lemma tidx_eq [simp]: "tidx i = tidx j \<longleftrightarrow> i = j"
  by (simp add: tidx_def word_unat_eq_iff [symmetric])

lemma raw_snapshot_t_alt:
  "t_nr t = length (t_s t) \<Longrightarrow> raw_snapshot_t t i = (if tidx i < t_nr t then Some (t_s t ! tidx i) else None)"
  by (simp add: raw_snapshot_t_def tidx_def nth_opt_def Let_def)

lemma grow_len:
  assumes "t_nr t = length (t_s t)"
  shows "t_nr (table_grow t n) = length (t_s (table_grow t n))" "n < t_nr (table_grow t n)"
    "t_nr t \<le> t_nr (table_grow t n)"
  using assms next_pow2_ge [of "n + 1"] by (auto simp: table_grow_def Let_def)

lemma grow_nth:
  assumes "t_nr t = length (t_s t)" "m < t_nr (table_grow t n)"
  shows "t_s (table_grow t n) ! m = (if m < t_nr t then t_s t ! m else snapshot_t_default)"
  using assms next_pow2_ge [of "n + 1"] by (auto simp: table_grow_def Let_def nth_append)

lemma grow_lookup:
  assumes "t_nr t = length (t_s t)"
  shows "raw_snapshot_t (table_grow t n) i =
    (case raw_snapshot_t t i of Some s \<Rightarrow> Some s
     | None \<Rightarrow> if tidx i < t_nr (table_grow t n) then Some snapshot_t_default else None)"
  using grow_nth [OF assms, of "tidx i" n] grow_len [OF assms, of n]
  by (auto simp: raw_snapshot_t_alt [OF assms] raw_snapshot_t_alt [OF grow_len(1) [OF assms]])

lemma grow_parent: "t_nr t = length (t_s t) \<Longrightarrow> bch2_snapshot_parent (table_grow t n) = bch2_snapshot_parent t"
  by (auto simp: fun_eq_iff bch2_snapshot_parent_def grow_lookup snapshot_t_default_def split: option.split)

lemma default_ok: "par i = 0 \<Longrightarrow> entry_ok par i snapshot_t_default"
  by (auto simp: entry_ok_def snapshot_t_default_def bitmap_bit_def anc_unfold [of par i] nth_Cons' less_Suc_eq split: if_splits)

lemma grow_ok: "table_ok t \<Longrightarrow> table_ok (table_grow t n)"
proof -
  assume ok: "table_ok t"
  then have l: "t_nr t = length (t_s t)" by (simp add: table_ok_def)
  show ?thesis
    using ok grow_len(1) [OF l]
    by (auto simp: table_ok_def grow_parent [OF l] grow_lookup [OF l] bch2_snapshot_parent_def
        intro!: default_ok split: option.splits if_splits)
qed

lemma bitmap_bit_set:
  assumes "length ws = 2" "m < 128" "n < 128"
  shows "bitmap_bit (ws[n div 64 := ws ! (n div 64) OR push_bit (n mod 64) 1]) m \<longleftrightarrow> bitmap_bit ws m \<or> m = n"
proof (cases "m div 64 = n div 64")
  case True
  have "n div 64 < 2" using assms(3) by simp
  moreover have "m mod 64 = n mod 64 \<longleftrightarrow> m = n" using True by (metis div_mod_decomp)
  ultimately show ?thesis
    using True assms(1) by (auto simp: bitmap_bit_def bit_or_iff bit_exp_iff)
qed (auto simp: bitmap_bit_def)

lemma mark_ancestors_ok:
  assumes up: "upward (bch2_snapshot_parent t)" and "p \<noteq> 0 \<longrightarrow> sid < p" "length bm = 2"
  shows "\<exists>bm'. mark_ancestors t sid p bm = Some bm' \<and> length bm' = 2 \<and>
    (\<forall>n<128. bitmap_bit bm' n \<longleftrightarrow>
       bitmap_bit bm n \<or> p \<noteq> 0 \<and> (\<exists>a. unat a = unat sid + n + 1 \<and> anc (bch2_snapshot_parent t) p a))"
  using assms(2,3)
proof (induction p arbitrary: bm rule: up_induct)
  case (1 p)
  let ?par = "bch2_snapshot_parent t" and ?n = "unat p - unat sid - 1"
  show ?case
  proof (cases "p = 0")
    case True
    then show ?thesis using 1(3) by (simp add: mark_ancestors.simps [of t sid 0])
  next
    case False
    then have lt: "sid < p" "unat sid < unat p" using 1(2) by (auto simp: word_less_nat_alt)
    have d: "checked_sub p sid = Some (p - sid)" "unat (p - sid) = unat p - unat sid"
      using lt by (auto simp: checked_sub_def unat_sub)
    have d1: "checked_sub (p - sid) 1 = Some (p - sid - 1)" "unat (p - sid - 1) = ?n"
      using d(2) lt by (auto simp: checked_sub_def word_le_nat_alt unat_sub)
    have bn: "p - sid - 1 < IS_ANCESTOR_BITMAP \<longleftrightarrow> ?n < 128"
      by (simp add: IS_ANCESTOR_BITMAP_def word_less_nat_alt d1(2))
    show ?thesis
    proof (cases "?n < 128")
      case far: False
      have "unat a \<noteq> unat sid + n + 1" if "n < 128" "anc ?par p a" for n a
        using far that anc_le [OF that(2) up] by (auto simp: word_le_nat_alt)
      then show ?thesis using False far d d1 bn 1(3) by (auto simp: mark_ancestors.simps [of t sid p])
    next
      case near: True
      define bm1 where "bm1 = bm[?n div 64 := bm ! (?n div 64) OR push_bit (?n mod 64) 1]"
      have l1: "length bm1 = 2" using 1(3) by (simp add: bm1_def)
      have m: "mark_ancestors t sid p bm = mark_ancestors t sid (?par p) bm1"
        using False near d d1 bn 1(3)
        by (subst mark_ancestors.simps) (auto simp: nth_opt_def bm1_def less_mult_imp_div_less)
      have pp: "?par p = 0 \<or> p < ?par p" using up by (auto simp: upward_def)
      have pn: "unat p = unat sid + ?n + 1" using lt by simp
      have bits: "(bitmap_bit bm1 n \<or> ?par p \<noteq> 0 \<and> (\<exists>a. unat a = unat sid + n + 1 \<and> anc ?par (?par p) a)) \<longleftrightarrow>
          (bitmap_bit bm n \<or> (\<exists>a. unat a = unat sid + n + 1 \<and> anc ?par p a))" if "n < 128" for n
      proof -
        have "(\<exists>a. unat a = unat sid + n + 1 \<and> anc ?par p a) \<longleftrightarrow>
            n = ?n \<or> ?par p \<noteq> 0 \<and> (\<exists>a. unat a = unat sid + n + 1 \<and> anc ?par (?par p) a)"
          using pn by (auto simp: anc_unfold [of ?par p])
        then show ?thesis using bitmap_bit_set [OF 1(3) that near] by (auto simp: bm1_def)
      qed
      show ?thesis
      proof (cases "?par p = 0")
        case True
        then show ?thesis using m l1 bits False by (simp add: mark_ancestors.simps [of t sid 0])
      next
        case pnz: False
        then have "p < ?par p" using pp by simp
        moreover from this have "sid < ?par p" using lt(1) by (rule order_less_trans [rotated])
        ultimately show ?thesis using 1(1) [of "?par p" bm1] l1 m bits False pnz by auto
      qed
    qed
  qed
qed

text \<open>What a snapshot key must promise of its parent and skip pointers, given the parents of the other nodes.\<close>

definition key_ok :: "(u32 \<Rightarrow> u32) \<Rightarrow> u32 \<Rightarrow> snapshot_t \<Rightarrow> bool" where
  "key_ok par i e \<longleftrightarrow>
     (st_parent e \<noteq> 0 \<longrightarrow> i < st_parent e) \<and> length (st_skip e) = 3 \<and>
     (\<forall>k\<in>set (st_skip e). if st_parent e = 0 then k = 0 else k \<noteq> 0 \<and> anc par (st_parent e) k)"

lemma anc_upd:
  assumes "\<And>x. par x \<noteq> j" "x \<noteq> j"
  shows "anc (par(j := p)) x a \<longleftrightarrow> anc par x a"
proof
  assume "anc (par(j := p)) x a"
  then show "anc par x a" using assms(2)
  proof (induction rule: anc.induct)
    case (anc_step i a)
    then show ?case using assms(1) [of i] by (auto intro: anc.anc_step)
  qed simp
next
  assume "anc par x a"
  then show "anc (par(j := p)) x a" by (rule anc_cong [of _ _ _ j]) (use assms in auto)
qed

lemma mark_entry_bitmap [simp]: "st_is_ancestor (mark_entry k s) = [0, 0]"
  by (simp add: mark_entry_def Let_def snapshot_t_default_def)

lemma entry_ok_upd:
  assumes "entry_ok par i s" "\<And>x. par x \<noteq> j" "i \<noteq> j" "par i = st_parent s"
  shows "entry_ok (par(j := p)) i s"
proof -
  have "st_parent s \<noteq> j" using assms(2) [of i] assms(4) by simp
  then show ?thesis
    using assms(1) anc_upd [of par j, OF assms(2)] assms(3) by (simp add: entry_ok_def)
qed

lemma mark_store:
  assumes len: "t_nr t = length (t_s t)" and i: "tidx sid < t_nr t"
  shows "raw_snapshot_t (t\<lparr>t_s := (t_s t)[tidx sid := e]\<rparr>) x = (if x = sid then Some e else raw_snapshot_t t x)"
  using assms by (auto simp: raw_snapshot_t_alt nth_list_update)

lemma mark_store_parent:
  assumes "t_nr t = length (t_s t)" "tidx sid < t_nr t"
  shows "bch2_snapshot_parent (t\<lparr>t_s := (t_s t)[tidx sid := e]\<rparr>) = (bch2_snapshot_parent t)(sid := st_parent e)"
  by (auto simp: fun_eq_iff bch2_snapshot_parent_def mark_store [OF assms])

lemma mark_store_ok:
  assumes ok: "table_ok t" and i: "tidx sid < t_nr t" and fresh: "\<And>x. bch2_snapshot_parent t x \<noteq> sid"
    and e: "entry_ok ((bch2_snapshot_parent t)(sid := st_parent e)) sid e"
  shows "table_ok (t\<lparr>t_s := (t_s t)[tidx sid := e]\<rparr>)"
proof -
  have len: "t_nr t = length (t_s t)" using ok by (simp add: table_ok_def)
  have "entry_ok ((bch2_snapshot_parent t)(sid := st_parent e)) x s" if "raw_snapshot_t t x = Some s" "x \<noteq> sid" for x s
    using ok that fresh by (intro entry_ok_upd) (auto simp: table_ok_def bch2_snapshot_parent_def)
  then show ?thesis
    using len e unfolding table_ok_def mark_store [OF len i] mark_store_parent [OF len i] by auto
qed

lemma mark_snapshot_ok:
  fixes k s defines "sid \<equiv> ucast (offset (k_p k)) :: u32"
  assumes ok: "table_ok (c_table c)" and ty: "k_type k = KEY_TYPE_snapshot"
    and fresh: "\<And>x. bch2_snapshot_parent (c_table c) x \<noteq> sid"
    and key: "key_ok (bch2_snapshot_parent (c_table c)) sid (mark_entry k s)"
  shows "\<exists>c'. bch2_mark_snapshot c k s = Some (0, c') \<and> table_ok (c_table c') \<and>
    bch2_snapshot_parent (c_table c') = (bch2_snapshot_parent (c_table c))(sid := sn_parent s)"
proof -
  define t where "t = table_grow (c_table c) (tidx sid)"
  define par where "par = bch2_snapshot_parent (c_table c)"
  define e where "e = mark_entry k s"
  have len0: "t_nr (c_table c) = length (t_s (c_table c))" using ok by (simp add: table_ok_def)
  have tok: "table_ok t" unfolding t_def using ok by (rule grow_ok)
  have len: "t_nr t = length (t_s t)" and i: "tidx sid < t_nr t" using grow_len [OF len0] by (auto simp: t_def)
  have par: "bch2_snapshot_parent t = par" using grow_parent [OF len0] by (simp add: t_def par_def)
  have ep: "st_parent e = sn_parent s" by (simp add: e_def mark_entry_def Let_def)
  have lt: "st_parent e \<noteq> 0 \<longrightarrow> sid < st_parent e" using key by (simp add: key_ok_def e_def)
  have up: "upward (bch2_snapshot_parent t)" using tok by (rule table_ok_upward)
  obtain bm where bm: "mark_ancestors t sid (st_parent e) [0, 0] = Some bm" "length bm = 2"
    and bits: "\<And>n. n < 128 \<Longrightarrow> bitmap_bit bm n \<longleftrightarrow>
       bitmap_bit [0, 0] n \<or> st_parent e \<noteq> 0 \<and> (\<exists>a. unat a = unat sid + n + 1 \<and> anc par (st_parent e) a)"
    using mark_ancestors_ok [OF up lt, of "[0, 0]"] by (auto simp: par)
  have fr: "par x \<noteq> sid" for x using fresh by (simp add: par_def)
  have anc: "anc (par(sid := st_parent e)) sid a \<longleftrightarrow> sid = a \<or> st_parent e \<noteq> 0 \<and> anc par (st_parent e) a" for a
    using anc_upd [of par sid "st_parent e" "st_parent e" a] fr lt by (auto simp: anc_unfold [of _ sid])
  have z: "\<not> bitmap_bit [0, 0] n" if "n < 128" for n
  proof -
    have "n div 64 = 0 \<or> n div 64 = 1" using that by (simp add: less_mult_imp_div_less) linarith
    then show ?thesis by (auto simp: bitmap_bit_def)
  qed
  have "entry_ok (par(sid := st_parent e)) sid (e\<lparr>st_is_ancestor := bm\<rparr>)"
    using key lt bm(2) bits z anc anc_upd [of par sid "st_parent e" "st_parent e"] fr
    unfolding entry_ok_def key_ok_def par_def [symmetric] e_def [symmetric]
    by (auto simp: le_less_trans)
  then have "table_ok (t\<lparr>t_s := (t_s t)[tidx sid := e\<lparr>st_is_ancestor := bm\<rparr>]\<rparr>)"
    by (intro mark_store_ok [OF tok i]) (use fr in \<open>auto simp: par\<close>)
  moreover have "bch2_snapshot_parent (t\<lparr>t_s := (t_s t)[tidx sid := e\<lparr>st_is_ancestor := bm\<rparr>]\<rparr>) = par(sid := sn_parent s)"
    using mark_store_parent [OF len i, of "e\<lparr>st_is_ancestor := bm\<rparr>"] by (simp add: par ep)
  moreover have "bch2_mark_snapshot c k s = Some (0, c\<lparr>c_table := t\<lparr>t_s := (t_s t)[tidx sid := e\<lparr>st_is_ancestor := bm\<rparr>]\<rparr>,
      c_flags := (if sn_flags s AND BCH_SNAPSHOT_WILL_DELETE \<noteq> 0
                  then c_flags c OR push_bit BCH_FS_need_delete_dead_snapshots 1 else c_flags c)\<rparr>)"
    using bm(1) i len ty
    by (simp add: bch2_mark_snapshot_def Let_def sid_def [symmetric] tidx_def [symmetric] t_def [symmetric] e_def upd_opt_def)
  ultimately show ?thesis by (simp add: par_def)
qed

section \<open>Reading the table from the snapshot keys\<close>

definition kid :: "bkey \<Rightarrow> u32" where
  "kid k = ucast (offset (k_p k))"

text \<open>The forest the keys describe: the parent of each id, 0 for ids without a key.\<close>

definition keys_parent :: "(bkey \<times> bch_snapshot) list \<Rightarrow> u32 \<Rightarrow> u32" where
  "keys_parent ks i = (case map_of (map (\<lambda>(k, s). (kid k, sn_parent s)) ks) i of Some p \<Rightarrow> p | None \<Rightarrow> 0)"

definition snap_keys :: "(bkey \<times> bch_snapshot) list \<Rightarrow> (bkey \<times> bch_snapshot) list" where
  "snap_keys = filter (\<lambda>(k, s). k_type k = KEY_TYPE_snapshot)"

text \<open>A scan in reverse key order yields the ids in descending order; parents have greater ids and skip pointers
  lead to ancestors.\<close>

definition keys_ok :: "(bkey \<times> bch_snapshot) list \<Rightarrow> bool" where
  "keys_ok ks \<longleftrightarrow>
     sorted_wrt (\<lambda>i j. j < i) (map (\<lambda>(k, s). kid k) ks) \<and>
     (\<forall>(k, s)\<in>set ks. kid k \<noteq> 0 \<and> key_ok (keys_parent ks) (kid k) (mark_entry k s))"

lemma read_snap_keys: "bch2_snapshots_read c (map Inr ks) = bch2_snapshots_read c (map Inr (snap_keys ks))"
proof (induction ks arbitrary: c)
  case (Cons x ks)
  obtain k s where x: "x = (k, s)" by (cases x)
  show ?case
  proof (cases "k_type k = KEY_TYPE_snapshot")
    case True
    then show ?thesis using Cons
      by (cases "bch2_mark_snapshot c k s") (auto simp: x snap_keys_def split: prod.split)
  qed (use Cons x in \<open>simp add: snap_keys_def\<close>)
qed (simp add: snap_keys_def)

lemma anc_agree:
  assumes "anc par p a" "upward par" "\<And>x. p \<le> x \<Longrightarrow> par' x = par x"
  shows "anc par' p a"
  using assms
proof (induction rule: anc.induct)
  case (anc_step i a)
  then have "i < par i" by (simp add: upward_def)
  then have "anc par' (par i) a" using anc_step.IH anc_step.prems by (meson less_imp_le order_trans)
  then show ?case using anc_step by (auto intro: anc.anc_step)
qed simp

lemma key_ok_agree:
  assumes "key_ok par i e" "upward par" "\<And>x. i < x \<Longrightarrow> par' x = par x"
  shows "key_ok par' i e"
proof -
  have "anc par' (st_parent e) k" if "st_parent e \<noteq> 0" "anc par (st_parent e) k" for k
  proof (rule anc_agree [OF that(2) assms(2)])
    show "par' x = par x" if "st_parent e \<le> x" for x
      using assms(1,3) that \<open>st_parent e \<noteq> 0\<close> by (auto simp: key_ok_def intro: order_less_le_trans)
  qed
  then show ?thesis using assms(1) by (auto simp: key_ok_def)
qed

lemma keys_parent_snoc:
  assumes "kid k \<notin> set (map (\<lambda>(k, s). kid k) ks)"
  shows "keys_parent (ks @ [(k, s)]) = (keys_parent ks)(kid k := sn_parent s)"
proof
  fix i
  have "map_of (map (\<lambda>(k, s). (kid k, sn_parent s)) ks) (kid k) = None"
    using assms by (auto simp: map_of_eq_None_iff image_iff split: prod.splits)
  then show "keys_parent (ks @ [(k, s)]) i = ((keys_parent ks)(kid k := sn_parent s)) i"
    by (auto simp: keys_parent_def map_add_def split: option.splits)
qed

lemma keys_parent_cases:
  "keys_parent ks i = 0 \<or> (\<exists>(k, s)\<in>set ks. kid k = i \<and> keys_parent ks i = sn_parent s)"
  by (auto simp: keys_parent_def dest!: map_of_SomeD split: option.splits)

lemma mark_entry_parent [simp]: "st_parent (mark_entry k s) = sn_parent s"
  by (simp add: mark_entry_def Let_def)

lemma keys_ok_upward: "keys_ok ks \<Longrightarrow> upward (keys_parent ks)"
  unfolding upward_def
proof (intro allI impI)
  fix i
  assume "keys_ok ks" "keys_parent ks i \<noteq> 0"
  with keys_parent_cases [of ks i] obtain k s where "(k, s) \<in> set ks" "kid k = i" "keys_parent ks i = sn_parent s"
    by auto
  with \<open>keys_ok ks\<close> \<open>keys_parent ks i \<noteq> 0\<close> show "i < keys_parent ks i" by (fastforce simp: keys_ok_def key_ok_def)
qed

lemma keys_parent_prefix:
  assumes "sorted_wrt (\<lambda>i j. j < i) (map (\<lambda>(k, s). kid k) (ks1 @ ks2))"
    and "\<And>k s. (k, s) \<in> set ks2 \<Longrightarrow> kid k \<le> i" "i < x"
  shows "keys_parent (ks1 @ ks2) x = keys_parent ks1 x"
proof -
  have "map_of (map (\<lambda>(k, s). (kid k, sn_parent s)) ks2) x = None"
    using assms(2,3) by (force simp: map_of_eq_None_iff image_iff split: prod.splits)
  then show ?thesis by (auto simp: keys_parent_def map_add_def split: option.splits)
qed

lemma read_ok:
  assumes "keys_ok (ks1 @ ks2)" "\<forall>(k, s)\<in>set ks2. k_type k = KEY_TYPE_snapshot"
    and "table_ok (c_table c)" "bch2_snapshot_parent (c_table c) = keys_parent ks1"
  shows "\<exists>c'. bch2_snapshots_read c (map Inr ks2) = Some (0, c') \<and> table_ok (c_table c') \<and>
    bch2_snapshot_parent (c_table c') = keys_parent (ks1 @ ks2)"
  using assms
proof (induction ks2 arbitrary: ks1 c)
  case (Cons x ks2)
  obtain k s where x: "x = (k, s)" by (cases x)
  let ?all = "keys_parent (ks1 @ x # ks2)"
  have srt: "sorted_wrt (\<lambda>i j. j < i) (map (\<lambda>(k, s). kid k) (ks1 @ x # ks2))"
    and key: "key_ok ?all (kid k) (mark_entry k s)"
    and knz: "kid k \<noteq> 0"
    using Cons.prems(1) unfolding keys_ok_def by (auto simp only: x set_append list.set split: prod.splits)
  have up: "upward ?all" using Cons.prems(1) by (rule keys_ok_upward)
  have above: "\<forall>y\<in>set (map (\<lambda>(k, s). kid k) ks1). kid k < y"
    using srt by (simp only: x map_append sorted_wrt_append list.map list.set prod.case) simp
  have below: "kid k' \<le> kid k" if "(k', s') \<in> set (x # ks2)" for k' s'
  proof -
    have "\<forall>y\<in>set (map (\<lambda>(k, s). kid k) ks2). y < kid k"
      using srt by (simp only: x map_append sorted_wrt_append list.map sorted_wrt.simps prod.case) simp
    with that show ?thesis by (auto simp: x dest: less_imp_le)
  qed
  have agree: "keys_parent ks1 y = ?all y" if "kid k < y" for y
    by (rule keys_parent_prefix [symmetric, OF srt _ that]) (use below in auto)
  have new: "kid k \<notin> set (map (\<lambda>(k, s). kid k) ks1)"
    using above by blast
  have fresh: "bch2_snapshot_parent (c_table c) y \<noteq> kid k" for y
  proof
    assume p: "bch2_snapshot_parent (c_table c) y = kid k"
    with knz obtain k' s' where m: "(k', s') \<in> set ks1" "kid k' = y"
      using Cons.prems(4) keys_parent_cases [of ks1 y] by auto
    then have "kid k < y" using above by force
    moreover from this have "?all y = kid k" using agree p Cons.prems(4) by simp
    ultimately show False using up knz less_asym unfolding upward_def by metis
  qed
  have "key_ok (bch2_snapshot_parent (c_table c)) (kid k) (mark_entry k s)"
    by (rule key_ok_agree [OF key up]) (simp add: agree Cons.prems(4))
  from mark_snapshot_ok [of c k s, folded kid_def, OF Cons.prems(3) _ fresh this] Cons.prems(2)
  obtain c1 where c1: "bch2_mark_snapshot c k s = Some (0, c1)" "table_ok (c_table c1)"
    "bch2_snapshot_parent (c_table c1) = keys_parent (ks1 @ [(k, s)])"
    unfolding Cons.prems(4) keys_parent_snoc [OF new] x by auto
  from Cons.IH [of "ks1 @ [(k, s)]" c1] c1 Cons.prems(1,2) show ?case by (simp add: x)
qed simp

lemma empty_table_ok: "table_ok \<lparr>t_nr = 0, t_s = []\<rparr>"
  "bch2_snapshot_parent \<lparr>t_nr = 0, t_s = []\<rparr> = keys_parent []"
  by (auto simp: table_ok_def raw_snapshot_t_def bch2_snapshot_parent_def keys_parent_def)

section \<open>Properties of ancestor queries\<close>

text \<open>
  C29: On a table that is right, the ancestor query with skip pointers and bitmaps and the plain walk used
  during start-up return, never run forever and never panic, and both decide whether following parents
  from the first id reaches the second.\<close>

theorem snapshot_is_ancestor_correct:
  assumes "table_ok t" "sid \<noteq> 0" "ancestor \<noteq> 0"
  shows "bch2_snapshot_is_ancestor t sid ancestor = Some (anc (bch2_snapshot_parent t) sid ancestor) \<and>
    bch2_snapshot_is_ancestor_early t sid ancestor = Some (anc (bch2_snapshot_parent t) sid ancestor)"
  using is_ancestor_anc [OF assms] early_loop_anc [OF table_ok_upward [OF assms(1)] assms(2,3)] by blast

text \<open>
  C28: Reading the snapshot keys in reverse order at start-up succeeds and builds a table on which ancestor queries
  decide the ancestor relation of the forest the keys describe. Keys of other types are skipped.\<close>

theorem snapshots_read_builds_table:
  assumes "keys_ok (snap_keys ks)" "c_table c = \<lparr>t_nr = 0, t_s = []\<rparr>"
  shows "\<exists>c'. bch2_snapshots_read c (map Inr ks) = Some (0, c') \<and> table_ok (c_table c') \<and>
    (\<forall>i a. i \<noteq> 0 \<longrightarrow> a \<noteq> 0 \<longrightarrow>
       bch2_snapshot_is_ancestor (c_table c') i a = Some (anc (keys_parent (snap_keys ks)) i a))"
proof -
  have "\<forall>(k, s)\<in>set (snap_keys ks). k_type k = KEY_TYPE_snapshot" by (auto simp: snap_keys_def)
  with read_ok [of "[]" "snap_keys ks" c] assms empty_table_ok
  obtain c' where "bch2_snapshots_read c (map Inr (snap_keys ks)) = Some (0, c')" "table_ok (c_table c')"
    "bch2_snapshot_parent (c_table c') = keys_parent (snap_keys ks)" by auto
  then show ?thesis using is_ancestor_anc read_snap_keys by metis
qed

text \<open>A forest of three nodes at the top of the id space, each the only child of the next greater one.\<close>

definition demo_key :: "u64 \<Rightarrow> bkey" where
  "demo_key i = \<lparr>k_u64s = 13, k_format = 1, k_type = 22, k_pad = 0, k_bversion = ZERO_VERSION, k_size = 0, k_p = SPOS 0 i 0\<rparr>"

definition demo_snapshot :: "u32 \<Rightarrow> u32 list \<Rightarrow> bch_snapshot" where
  "demo_snapshot p ch = \<lparr>sn_flags = 0, sn_parent = p, sn_children = ch, sn_subvol = 0, sn_tree = 1, sn_depth = 0,
     sn_skip = [p, p, p]\<rparr>"

definition demo_keys :: "(bkey \<times> bch_snapshot) list" where
  "demo_keys = [(demo_key 4294967290, demo_snapshot 0 [4294967288, 0]),
                (demo_key 4294967288, demo_snapshot 4294967290 [4294967286, 0]),
                (demo_key 4294967286, demo_snapshot 4294967288 [0, 0])]"

definition demo_fs :: snapshot_fs where
  "demo_fs = \<lparr>c_table = \<lparr>t_nr = 0, t_s = []\<rparr>, c_flags = 0\<rparr>"

lemma demo_snap: "snap_keys demo_keys = demo_keys"
  by (simp add: snap_keys_def demo_keys_def demo_key_def KEY_TYPE_snapshot_def)

lemma demo_keys_ok: "keys_ok demo_keys"
  by (simp add: keys_ok_def demo_keys_def demo_key_def demo_snapshot_def kid_def key_ok_def mark_entry_def
      snapshot_t_default_def)

theorem snapshots_read_builds_table_witness:
  "\<exists>c'. bch2_snapshots_read demo_fs (map Inr demo_keys) = Some (0, c') \<and>
     bch2_snapshot_is_ancestor (c_table c') 4294967286 4294967290 = Some True"
proof -
  have "anc (keys_parent demo_keys) 4294967286 4294967290"
    by (simp add: anc_unfold [of _ 4294967286] anc_unfold [of _ 4294967288] keys_parent_def demo_keys_def
        demo_key_def demo_snapshot_def kid_def)
  with snapshots_read_builds_table [of demo_keys demo_fs] show ?thesis
    by (auto simp: demo_snap demo_keys_ok demo_fs_def)
qed

definition demo_table :: snapshot_table where
  "demo_table = c_table (snd (the (bch2_snapshots_read demo_fs (map Inr demo_keys))))"

lemma demo_table_ok: "table_ok demo_table"
  using read_ok [of "[]" demo_keys demo_fs] demo_keys_ok empty_table_ok
  by (auto simp: demo_table_def demo_fs_def demo_keys_def demo_key_def KEY_TYPE_snapshot_def)

theorem snapshot_is_ancestor_correct_witness:
  "anc (bch2_snapshot_parent demo_table) 4294967286 4294967290 \<and>
   \<not> anc (bch2_snapshot_parent demo_table) 4294967286 4294967287"
proof -
  have "bch2_snapshot_is_ancestor demo_table 4294967286 4294967290 = Some True"
    "bch2_snapshot_is_ancestor demo_table 4294967286 4294967287 = Some False"
    by code_simp+
  then show ?thesis
    using snapshot_is_ancestor_correct [OF demo_table_ok, of 4294967286 4294967290]
      snapshot_is_ancestor_correct [OF demo_table_ok, of 4294967286 4294967287] by simp
qed

section \<open>Walking a tree in preorder\<close>

datatype stree = SNil | SNode u32 stree stree

fun root_id :: "stree \<Rightarrow> u32" where
  "root_id SNil = 0"
| "root_id (SNode i l r) = i"

fun preorder :: "u32 \<Rightarrow> stree \<Rightarrow> (u32 \<times> u32) list" where
  "preorder d SNil = []"
| "preorder d (SNode i l r) = (i, d) # preorder (d + 1) l @ preorder (d + 1) r"

fun tree_height :: "stree \<Rightarrow> nat" where
  "tree_height SNil = 0"
| "tree_height (SNode i l r) = Suc (max (tree_height l) (tree_height r))"

fun tree_ids :: "stree \<Rightarrow> u32 list" where
  "tree_ids SNil = []"
| "tree_ids (SNode i l r) = i # tree_ids l @ tree_ids r"

text \<open>The table holds the tree below parent \<open>p\<close>; a node with one child has it as its first.\<close>

fun tree_rep :: "snapshot_table \<Rightarrow> u32 \<Rightarrow> stree \<Rightarrow> bool" where
  "tree_rep t p SNil \<longleftrightarrow> True"
| "tree_rep t p (SNode i l r) \<longleftrightarrow>
     i \<noteq> 0 \<and> (l = SNil \<longrightarrow> r = SNil) \<and> tree_rep t i l \<and> tree_rep t i r \<and>
     (case raw_snapshot_t t i of
        Some s \<Rightarrow> st_parent s = p \<and> st_children s ! 0 = root_id l \<and> st_children s ! 1 = root_id r
      | None \<Rightarrow> False)"

lemma preorder_Nil [simp]: "preorder d T = [] \<longleftrightarrow> T = SNil"
  by (cases T) auto

lemma preorder_hd: "T \<noteq> SNil \<Longrightarrow> hd (preorder d T) = (root_id T, d)"
  by (cases T) auto

lemma root_in_ids: "T \<noteq> SNil \<Longrightarrow> root_id T \<in> set (tree_ids T)"
  by (cases T) auto

lemma root_nz: "tree_rep t p T \<Longrightarrow> root_id T = 0 \<longleftrightarrow> T = SNil"
  by (cases T) auto

lemma child_parent:
  assumes "tree_rep t p T" "T \<noteq> SNil"
  shows "bch2_snapshot_parent t (root_id T) = p"
  using assms by (cases T) (auto simp: bch2_snapshot_parent_def split: option.splits)

lemma succ_pred: "unat d + 1 < 2 ^ 32 \<Longrightarrow> checked_add d 1 = Some (d + 1) \<and> checked_sub (d + 1) 1 = Some d" for d :: u32
  by (auto simp: checked_add_Some checked_sub_Some word_le_nat_alt unat_word_ariths)

lemma climb_step:
  assumes rep: "tree_rep t p (SNode i l r)" and d: "unat d + 1 < 2 ^ 32" and c: "c = l \<or> c = r" "c \<noteq> SNil"
  shows "tree_next_climb t (root_id c) (d + 1) =
    (if r \<noteq> SNil \<and> root_id r \<noteq> root_id c then Some (root_id r, d + 1) else tree_next_climb t i d)"
proof -
  have "tree_rep t i c" using rep c(1) by auto
  then have p: "bch2_snapshot_parent t (root_id c) = i" using c(2) by (rule child_parent)
  obtain s where s: "raw_snapshot_t t i = Some s" "st_children s ! 1 = root_id r" "i \<noteq> 0"
    using rep by (auto split: option.splits)
  have "root_id r = 0 \<longleftrightarrow> r = SNil" using rep root_nz [of t i r] by simp
  then show ?thesis
    using p s succ_pred [OF d] by (subst tree_next_climb.simps) (auto simp: Let_def)
qed

text \<open>Climbing from the last node of a subtree leads to the root of the subtree.\<close>

lemma climb_last:
  assumes "tree_rep t p T" "T \<noteq> SNil" "distinct (tree_ids T)" "unat d + tree_height T \<le> 2 ^ 32"
  shows "tree_next_climb t (fst (last (preorder d T))) (snd (last (preorder d T))) = tree_next_climb t (root_id T) d"
  using assms
proof (induction T arbitrary: p d)
  case (SNode i l r)
  show ?case
  proof (cases "l = SNil")
    case True
    then show ?thesis using SNode.prems(1) by simp
  next
    case False
    then have h: "unat d + 1 < 2 ^ 32" using SNode.prems(4) by (cases l) auto
    then have u: "unat (d + 1) = unat d + 1" by (simp add: unat_word_ariths)
    show ?thesis
    proof (cases "r = SNil")
      case True
      then show ?thesis
        using SNode.IH(1) [of i "d + 1"] SNode.prems False u climb_step [OF SNode.prems(1) h, of l] by simp
    next
      case rn: False
      then show ?thesis
        using SNode.IH(2) [of i "d + 1"] SNode.prems u climb_step [OF SNode.prems(1) h, of r] by simp
    qed
  qed
qed simp

lemma last_leaf:
  assumes "tree_rep t p T" "T \<noteq> SNil"
  shows "\<exists>s. raw_snapshot_t t (fst (last (preorder d T))) = Some s \<and> st_children s ! 0 = 0"
  using assms
proof (induction T arbitrary: p d)
  case (SNode i l r)
  then show ?case by (cases "r = SNil"; cases "l = SNil") (auto split: option.splits)
qed simp

lemma next_last:
  assumes "tree_rep t p T" "T \<noteq> SNil" "distinct (tree_ids T)" "unat d + tree_height T \<le> 2 ^ 32"
  shows "raw_bch2_snapshot_tree_next t (fst (last (preorder d T))) (snd (last (preorder d T))) =
    tree_next_climb t (root_id T) d"
  using last_leaf [OF assms(1,2), of d] climb_last [OF assms]
  by (auto simp: raw_bch2_snapshot_tree_next_def)

lemma next_successively:
  assumes "tree_rep t p T" "distinct (tree_ids T)" "unat d + tree_height T \<le> 2 ^ 32"
  shows "successively (\<lambda>x y. raw_bch2_snapshot_tree_next t (fst x) (snd x) = Some y) (preorder d T)"
  using assms
proof (induction T arbitrary: p d)
  case (SNode i l r)
  show ?case
  proof (cases "l = SNil")
    case True
    then show ?thesis using SNode.prems(1) by simp
  next
    case False
    then have h: "unat d + 1 < 2 ^ 32" using SNode.prems(3) by (cases l) auto
    then have u: "unat (d + 1) = unat d + 1" by (simp add: unat_word_ariths)
    have lr: "tree_rep t i l" "tree_rep t i r" "distinct (tree_ids l)" "distinct (tree_ids r)"
      "unat (d + 1) + tree_height l \<le> 2 ^ 32" "unat (d + 1) + tree_height r \<le> 2 ^ 32"
      using SNode.prems u by auto
    have first: "raw_bch2_snapshot_tree_next t i d = Some (root_id l, d + 1)"
      using SNode.prems(1) root_nz [OF lr(1)] False succ_pred [OF h]
      by (auto simp: raw_bch2_snapshot_tree_next_def split: option.splits)
    have cross: "raw_bch2_snapshot_tree_next t (fst (last (preorder (d + 1) l))) (snd (last (preorder (d + 1) l))) =
        Some (root_id r, d + 1)" if "r \<noteq> SNil"
    proof -
      have "root_id r \<noteq> root_id l"
        using SNode.prems(2) root_in_ids [OF False] root_in_ids [OF that] by auto
      then show ?thesis
        using next_last [OF lr(1) False lr(3,5)] climb_step [OF SNode.prems(1) h, of l] False that by simp
    qed
    show ?thesis
      using SNode.IH(1) [OF lr(1,3,5)] SNode.IH(2) [OF lr(2,4,6)] first cross preorder_hd [OF False, of "d + 1"]
        preorder_hd [of r "d + 1"] False
      by (cases "r = SNil") (simp_all add: successively_Cons successively_append_iff)
  qed
qed simp

text \<open>
  Repeated calls of the tree iterator visit the nodes of a snapshot tree once each, in preorder, with the
  right depth, and return 0 after the last node; the depth counter never overflows and the climb always ends.\<close>

lemma snapshot_tree_next_preorder:
  assumes "tree_rep t 0 T" "T \<noteq> SNil" "distinct (tree_ids T)" "unat d + tree_height T \<le> 2 ^ 32"
  shows "map fst (preorder d T) = tree_ids T \<and> hd (preorder d T) = (root_id T, d) \<and>
    successively (\<lambda>x y. raw_bch2_snapshot_tree_next t (fst x) (snd x) = Some y) (preorder d T) \<and>
    raw_bch2_snapshot_tree_next t (fst (last (preorder d T))) (snd (last (preorder d T))) = Some (0, d)"
proof -
  have "map fst (preorder e S) = tree_ids S" for e S by (induction S arbitrary: e) auto
  moreover have "tree_next_climb t (root_id T) d = Some (0, d)"
    using child_parent [OF assms(1,2)] by (simp add: tree_next_climb.simps [of t "root_id T"])
  ultimately show ?thesis
    using next_last [OF assms] next_successively [OF assms(1,3,4)] preorder_hd [OF assms(2)] by simp
qed

section \<open>Roots, id lists and overwrites\<close>

text \<open>
  On a table that is right, the search for the root of a tree ends and returns the one ancestor that has no parent.\<close>

lemma snapshot_root_correct:
  assumes "table_ok t"
  shows "\<exists>r. bch2_snapshot_root t sid = Some r \<and> anc (bch2_snapshot_parent t) sid r \<and> bch2_snapshot_parent t r = 0 \<and>
    (\<forall>r'. anc (bch2_snapshot_parent t) sid r' \<and> bch2_snapshot_parent t r' = 0 \<longrightarrow> r' = r)"
proof (induction sid rule: up_induct)
  case (1 sid)
  let ?p = "bch2_snapshot_parent t sid"
  show ?case
  proof (cases "?p = 0")
    case True
    then show ?thesis by (auto simp: bch2_snapshot_root.simps [of t sid] anc_unfold [of _ sid])
  next
    case False
    then have "sid < ?p" using table_ok_upward [OF assms] by (simp add: upward_def)
    from 1 [OF this] False show ?thesis
      by (auto simp: bch2_snapshot_root.simps [of t sid] anc_unfold [of _ sid])
  qed
qed

definition sl_ok :: "snapshot_id_list \<Rightarrow> bool" where
  "sl_ok s \<longleftrightarrow> distinct (sl_data s) \<and> length (sl_data s) \<le> sl_size s"

lemma has_id_iff [simp]: "snapshot_list_has_id xs i \<longleftrightarrow> i \<in> set xs"
  by (induction xs) auto

lemma add_nodup_ok:
  assumes "sl_ok s" "snapshot_list_add_nodup alloc_ok s i = (ret, s')"
  shows "sl_ok s' \<and> (ret = 0 \<and> sl_data s' = (if i \<in> set (sl_data s) then sl_data s else sl_data s @ [i]) \<or>
    ret = - 12 \<and> s' = s \<and> \<not> (next_pow2 (length (sl_data s) + 1) < 2 ^ 61 \<and> alloc_ok (next_pow2 (length (sl_data s) + 1))))"
  using assms next_pow2_ge [of "length (sl_data s) + 1"]
  by (auto simp: snapshot_list_add_nodup_def Let_def sl_ok_def split: if_splits)

text \<open>
  Merging a list of snapshot ids into another keeps the ids distinct and within the allocation. On success the
  result has the ids of both, those of the destination first and in order; an allocation failure returns
  \<^verbatim>\<open>-ENOMEM\<close> and keeps what was merged so far.\<close>

lemma snapshot_list_merge_union:
  assumes "sl_ok dst" "snapshot_list_merge alloc_ok dst src = (ret, s')"
  shows "sl_ok s' \<and> (\<exists>xs. sl_data s' = sl_data dst @ xs \<and> set xs \<subseteq> set src) \<and>
    (ret = 0 \<and> set (sl_data s') = set (sl_data dst) \<union> set src \<or>
     ret = - 12 \<and> (\<exists>n. \<not> (next_pow2 n < 2 ^ 61 \<and> alloc_ok (next_pow2 n))))"
  using assms
proof (induction src arbitrary: dst)
  case (Cons i src)
  obtain r s1 where a: "snapshot_list_add_nodup alloc_ok dst i = (r, s1)" by (cases "snapshot_list_add_nodup alloc_ok dst i")
  note ok = add_nodup_ok [OF Cons.prems(1) a]
  show ?case
  proof (cases "r = 0")
    case False
    then show ?thesis using Cons.prems a ok by (auto intro!: exI [of _ "length (sl_data dst) + 1"])
  next
    case True
    then have d: "sl_data s1 = (if i \<in> set (sl_data dst) then sl_data dst else sl_data dst @ [i])" using ok by auto
    have m: "snapshot_list_merge alloc_ok s1 src = (ret, s')" using Cons.prems(2) a True by simp
    obtain xs where "sl_data s' = sl_data s1 @ xs" "set xs \<subseteq> set src" using Cons.IH [OF _ m] ok by blast
    then have "\<exists>xs. sl_data s' = sl_data dst @ xs \<and> set xs \<subseteq> set (i # src)"
      using d by (cases "i \<in> set (sl_data dst)") auto
    moreover have "set (sl_data s1) = insert i (set (sl_data dst))" using d by auto
    ultimately show ?thesis using Cons.IH [OF _ m] ok by auto
  qed
qed simp

text \<open>
  C40: The scans for overwrites in descendant snapshots compare positions with their snapshot field, so with an
  iterator that starts below the position and only goes down they stop at the first key: no overwrite is ever
  reported and the list of ids is returned unchanged.\<close>

theorem snapshot_overwrites_never_found:
  assumes pos: "bpos_predecessor pos = Some start" and peek: "fst (peek (init start)) = Inr found"
    and below: "\<And>p. found = Some p \<Longrightarrow> bpos_le p start"
  shows "raw_bch2_get_snapshot_overwrites alloc_ok t init peek advance pos s = Some (0, s) \<and>
    raw_bch2_key_has_snapshot_overwrites t init peek advance pos = Some 0"
proof -
  obtain it where it: "peek (init start) = (Inr found, it)" using peek by (cases "peek (init start)") auto
  have ne: "\<not> bpos_eq p pos \<and> \<not> bpos_eq pos p" if "found = Some p" for p
  proof -
    have "p < pos" using below [OF that] pos bpos_successor_less_iff [of start pos p] bpos_predecessor_successor [of pos start]
      by (simp add: pos_order)
    then show ?thesis by (auto simp: pos_order)
  qed
  have "overwrites_loop alloc_ok t peek advance pos (init start) s = Some (0, s)"
    by (subst overwrites_loop.simps) (use it ne in \<open>auto split: option.split\<close>)
  moreover have "has_overwrites_loop t peek advance pos (init start) = Some 0"
    by (subst has_overwrites_loop.simps) (use it ne in \<open>auto split: option.split\<close>)
  ultimately show ?thesis
    using pos by (simp add: raw_bch2_get_snapshot_overwrites_def raw_bch2_key_has_snapshot_overwrites_def)
qed

theorem snapshot_overwrites_never_found_witness:
  "bch2_snapshot_is_ancestor demo_table 4294967286 4294967290 = Some True \<and>
   raw_bch2_key_has_snapshot_overwrites demo_table (\<lambda>p. p)
     (\<lambda>p. (Inr (if bpos_le (SPOS 1 5 4294967286) p then Some (SPOS 1 5 4294967286) else None), p))
     (\<lambda>p. (True, p)) (SPOS 1 5 4294967290) = Some 0"
proof -
  have "bch2_snapshot_is_ancestor demo_table 4294967286 4294967290 = Some True" by code_simp
  moreover have p: "bpos_predecessor (SPOS 1 5 4294967290) = Some (SPOS 1 5 4294967289)"
    by (simp add: bpos_predecessor_def)
  have le: "bpos_le (SPOS 1 5 4294967286) (SPOS 1 5 4294967289)" by (simp add: bpos_le_def)
  ultimately show ?thesis
    using snapshot_overwrites_never_found [OF p, where init = "\<lambda>p. p" and found = "Some (SPOS 1 5 4294967286)" and
        peek = "\<lambda>p. (Inr (if bpos_le (SPOS 1 5 4294967286) p then Some (SPOS 1 5 4294967286) else None), p)"]
    by simp
qed

end
