(* ===== verification/Journal.thy ===== *)
theory Journal
  imports Checksum Bkey
begin

unbundle bit_operations_syntax

text \<open>
  The journal, \<^verbatim>\<open>journal.rs\<close>: reservations in the open entry, the pins that keep a sequence number from being
  reclaimed, the accounting of the buckets on the device, and the write of an entry.

  The reservation word keeps its 64 bits. Sequence numbers, bucket indices and sector counts are naturals; an
  addition that would leave the width of the source is a panic. The engine runs every journal call under the lock
  of its file system, so an operation is one transition. The superblock, the roots of the btrees, the results of
  the system calls and the write-back callbacks of the pins are arguments: \<open>journal_sb\<close>, \<open>btree_root\<close> and
  \<open>journal_env\<close>. \<open>j_writes\<close> lists the writes to the device, newest first.
\<close>

section \<open>Data\<close>

definition JOURNAL_SEQ_MAX :: nat where [code_consts]: "JOURNAL_SEQ_MAX = 2 ^ 56 - 1"
definition JOURNAL_STATE_BUF_NR :: nat where [code_consts]: "JOURNAL_STATE_BUF_NR = 4"
definition JOURNAL_STATE_BUF_MASK :: u64 where [code_consts]: "JOURNAL_STATE_BUF_MASK = 3"
definition JOURNAL_ENTRY_SIZE_MAX :: nat where [code_consts]: "JOURNAL_ENTRY_SIZE_MAX = 1048576"
definition JOURNAL_ENTRY_OFFSET_MAX :: nat where [code_consts]: "JOURNAL_ENTRY_OFFSET_MAX = 4194303"
definition JSET_MAGIC :: u64 where [code_consts]: "JSET_MAGIC = 0x245235c1a3625032"
definition BCH_JSET_ENTRY_btree_keys :: nat where [code_consts]: "BCH_JSET_ENTRY_btree_keys = 0"
definition BCH_JSET_ENTRY_btree_root :: nat where [code_consts]: "BCH_JSET_ENTRY_btree_root = 1"
definition JSET_KEYS_U64s :: nat where [code_consts]: "JSET_KEYS_U64s = 1"
definition JSET_HEADER_U64S :: nat where [code_consts]: "JSET_HEADER_U64S = 7"
definition JOURNAL_replay_done :: nat where [code_consts]: "JOURNAL_replay_done = 1"
definition JOURNAL_may_skip_flush :: nat where [code_consts]: "JOURNAL_may_skip_flush = 3"
definition JOURNAL_med_on_space :: nat where [code_consts]: "JOURNAL_med_on_space = 5"
definition JOURNAL_low_on_space :: nat where [code_consts]: "JOURNAL_low_on_space = 6"
definition JOURNAL_low_on_pin :: nat where [code_consts]: "JOURNAL_low_on_pin = 7"
definition JOURNAL_PIN :: nat where [code_consts]: "JOURNAL_PIN = 32768"
definition BCH_WATERMARK_MASK :: u32 where [code_consts]: "BCH_WATERMARK_MASK = 7"
definition JOURNAL_PIN_TYPE_NR :: nat where [code_consts]: "JOURNAL_PIN_TYPE_NR = 6"
definition BTREE_ID_NR :: nat where [code_consts]: "BTREE_ID_NR = 9"
definition BKEY_BTREE_PTR_VAL_U64S_MAX :: nat where [code_consts]: "BKEY_BTREE_PTR_VAL_U64S_MAX = 15"
definition metadata_version_current :: u64 where [code_consts]: "metadata_version_current = 1062"

type_synonym addr = nat

record journal_res =
  r_ref :: bool
  r_has_overwrites :: bool
  r_u64s :: nat
  r_offset :: nat
  r_seq :: nat

datatype journal_space_from =
  journal_space_discarded | journal_space_clean_ondisk | journal_space_clean | journal_space_total

record journal_space =
  sp_next_entry :: nat
  sp_total :: nat

datatype bch_watermark =
  BCH_WATERMARK_stripe | BCH_WATERMARK_normal | BCH_WATERMARK_copygc | BCH_WATERMARK_btree
| BCH_WATERMARK_btree_copygc | BCH_WATERMARK_reclaim | BCH_WATERMARK_interior_updates

record journal_device =
  ja_bucket_seq :: "nat list"
  ja_sectors_free :: nat
  ja_discard_idx :: nat
  ja_dirty_idx_ondisk :: nat
  ja_dirty_idx :: nat
  ja_cur_idx :: nat
  ja_nr :: nat
  ja_buckets :: "nat list"
  ja_highest_seq_found :: nat

datatype journal_pin_type =
  JOURNAL_PIN_TYPE_btree3 | JOURNAL_PIN_TYPE_btree2 | JOURNAL_PIN_TYPE_btree1
| JOURNAL_PIN_TYPE_btree0 | JOURNAL_PIN_TYPE_key_cache | JOURNAL_PIN_TYPE_other

record journal_entry_pin_list =
  pl_count :: nat
  pl_unflushed :: "addr list list"
  pl_flushed :: "addr list"
  pl_unreplayed :: bool

text \<open>The write-back callbacks: those of the two write slots of a btree node, and any other.\<close>

datatype journal_pin_flush_fn = bch2_btree_node_flush0 | bch2_btree_node_flush1 | other_flush nat

record journal_entry_pin =
  jp_seq :: nat
  jp_flush :: "journal_pin_flush_fn option"

record journal_buf =
  jb_data :: "u64 list"
  jb_seq :: nat
  jb_has_overwrites :: bool

text \<open>What the journal reads of the superblock: the bucket size of this device from the members field, if the field
  is there, and the bucket counts of the journal field, if it is there.\<close>

record journal_sb =
  sb_block_size :: nat
  sb_uuid_lo :: u64
  sb_member :: "nat option"
  sb_journal_v2 :: "nat list option"

record bch_sb_handle =
  sbh_sb :: "journal_sb option"
  sbh_file :: bool

record journal =
  j_reservations :: u64
  j_seq :: nat
  j_cur_entry_u64s :: nat
  j_ring :: "journal_buf list"
  j_closed :: "u64 list list"
  j_disk_sb :: "bch_sb_handle option"
  j_device :: journal_device
  j_pin_front :: nat
  j_pin :: "journal_entry_pin_list list"
  j_seq_ondisk :: nat
  j_last_seq_ondisk :: nat
  j_last_seq :: nat
  j_reclaim_locked :: bool
  j_flush_in_progress :: addr
  j_flush_in_progress_dropped :: bool
  j_nr_direct_reclaim :: nat
  j_nr_background_reclaim :: nat
  j_flags :: u64
  j_watermark :: nat
  j_space :: "journal_space list"
  j_cur_entry_sectors :: nat
  j_cur_entry_error :: int
  j_reclaim_kicked :: bool
  j_fault_inject_write_error :: nat
  j_pin_mem :: "addr \<Rightarrow> journal_entry_pin"
  j_writes :: "(nat \<times> u64 list) list"

record btree_root =
  rt_key :: "u64 list"
  rt_level :: nat
  rt_alive :: nat

fun space_index :: "journal_space_from \<Rightarrow> nat" where
  "space_index journal_space_discarded = 0"
| "space_index journal_space_clean_ondisk = 1"
| "space_index journal_space_clean = 2"
| "space_index journal_space_total = 3"

fun watermark_index :: "bch_watermark \<Rightarrow> nat" where
  "watermark_index BCH_WATERMARK_stripe = 0"
| "watermark_index BCH_WATERMARK_normal = 1"
| "watermark_index BCH_WATERMARK_copygc = 2"
| "watermark_index BCH_WATERMARK_btree = 3"
| "watermark_index BCH_WATERMARK_btree_copygc = 4"
| "watermark_index BCH_WATERMARK_reclaim = 5"
| "watermark_index BCH_WATERMARK_interior_updates = 6"

fun pin_type_index :: "journal_pin_type \<Rightarrow> nat" where
  "pin_type_index JOURNAL_PIN_TYPE_btree3 = 0"
| "pin_type_index JOURNAL_PIN_TYPE_btree2 = 1"
| "pin_type_index JOURNAL_PIN_TYPE_btree1 = 2"
| "pin_type_index JOURNAL_PIN_TYPE_btree0 = 3"
| "pin_type_index JOURNAL_PIN_TYPE_key_cache = 4"
| "pin_type_index JOURNAL_PIN_TYPE_other = 5"

definition pin_list_default :: journal_entry_pin_list where
  "pin_list_default = \<lparr>pl_count = 0, pl_unflushed = replicate JOURNAL_PIN_TYPE_NR [], pl_flushed = [], pl_unreplayed = False\<rparr>"

definition journal_pin_list_init :: "nat \<Rightarrow> journal_entry_pin_list" where
  "journal_pin_list_init count = pin_list_default\<lparr>pl_count := count\<rparr>"

definition journal_buf_default :: journal_buf where
  "journal_buf_default =
     \<lparr>jb_data = replicate (JOURNAL_ENTRY_SIZE_MAX div 8) 0, jb_seq = 0, jb_has_overwrites = False\<rparr>"

definition journal_device_default :: journal_device where
  "journal_device_default =
     \<lparr>ja_bucket_seq = [], ja_sectors_free = 0, ja_discard_idx = 0, ja_dirty_idx_ondisk = 0, ja_dirty_idx = 0,
      ja_cur_idx = 0, ja_nr = 0, ja_buckets = [], ja_highest_seq_found = 0\<rparr>"

definition journal_space_default :: journal_space where
  "journal_space_default = \<lparr>sp_next_entry = 0, sp_total = 0\<rparr>"

text \<open>The word of a fresh entry: its buffer index, and one reference to that buffer.\<close>

definition journal_state_fresh :: "nat \<Rightarrow> u64" where
  "journal_state_fresh idx = push_bit 22 (of_nat idx) OR push_bit (24 + idx * 10) 1"

definition journal_default :: journal where
  "journal_default =
     (let seq = 1; idx = seq mod JOURNAL_STATE_BUF_NR in
      \<lparr>j_reservations = journal_state_fresh idx, j_seq = seq,
       j_cur_entry_u64s = JOURNAL_ENTRY_SIZE_MAX div 8 - JSET_HEADER_U64S,
       j_ring = (replicate JOURNAL_STATE_BUF_NR journal_buf_default)[idx := journal_buf_default\<lparr>jb_seq := seq\<rparr>],
       j_closed = [], j_disk_sb = None, j_device = journal_device_default, j_pin_front = seq,
       j_pin = [journal_pin_list_init 1], j_seq_ondisk = 0, j_last_seq_ondisk = seq, j_last_seq = seq,
       j_reclaim_locked = False, j_flush_in_progress = 0, j_flush_in_progress_dropped = False,
       j_nr_direct_reclaim = 0, j_nr_background_reclaim = 0, j_flags = 0,
       j_watermark = watermark_index BCH_WATERMARK_stripe,
       j_space = replicate 4 journal_space_default, j_cur_entry_sectors = 0, j_cur_entry_error = 0,
       j_reclaim_kicked = False, j_fault_inject_write_error = 0,
       j_pin_mem = (\<lambda>_. \<lparr>jp_seq = 0, jp_flush = None\<rparr>), j_writes = []\<rparr>)"

section \<open>The reservation word\<close>

definition journal_state_offset :: "u64 \<Rightarrow> nat" where
  "journal_state_offset v = unat (v AND (push_bit 22 1 - 1))"

definition journal_state_idx :: "u64 \<Rightarrow> nat" where
  "journal_state_idx v = unat (drop_bit 22 v AND JOURNAL_STATE_BUF_MASK)"

definition journal_state_count :: "u64 \<Rightarrow> nat \<Rightarrow> nat" where
  "journal_state_count v idx = unat (drop_bit (24 + idx * 10) v AND 0x3ff)"

definition journal_state_set_offset :: "u64 \<Rightarrow> nat \<Rightarrow> u64" where
  "journal_state_set_offset v off = (v AND NOT (push_bit 22 1 - 1)) OR of_nat off"

definition journal_state_set_idx :: "u64 \<Rightarrow> nat \<Rightarrow> u64" where
  "journal_state_set_idx v idx = (v AND NOT (push_bit 22 JOURNAL_STATE_BUF_MASK)) OR push_bit 22 (of_nat idx)"

text \<open>The inner option is that of the source: no result when the count is at its limit.\<close>

definition journal_state_inc :: "u64 \<Rightarrow> nat \<Rightarrow> u64 option option" where
  "journal_state_inc v idx =
     (if journal_state_count v idx = 0x3ff then Some None
      else map_option Some (checked_add v (push_bit (24 + idx * 10) 1)))"

definition journal_state_dec :: "u64 \<Rightarrow> nat \<Rightarrow> u64 option" where
  "journal_state_dec v idx =
     do { require (journal_state_count v idx \<noteq> 0); checked_sub v (push_bit (24 + idx * 10) 1) }"

section \<open>Entries\<close>

text \<open>The header of an entry is one word: the number of payload words, the btree, the level and the type.\<close>

definition jset_entry_word :: "nat \<Rightarrow> nat \<Rightarrow> nat \<Rightarrow> nat \<Rightarrow> u64" where
  "jset_entry_word u64s btree_id level ty =
     of_nat u64s OR push_bit 16 (of_nat btree_id) OR push_bit 24 (of_nat level) OR push_bit 32 (of_nat ty)"

definition entry_u64s :: "u64 \<Rightarrow> nat" where
  "entry_u64s w = unat (w AND 0xffff)"

definition entry_btree_id :: "u64 \<Rightarrow> nat" where
  "entry_btree_id w = unat (drop_bit 16 w AND 0xff)"

definition entry_level :: "u64 \<Rightarrow> nat" where
  "entry_level w = unat (drop_bit 24 w AND 0xff)"

definition entry_type :: "u64 \<Rightarrow> nat" where
  "entry_type w = unat (drop_bit 32 w AND 0xff)"

definition jset_u64s :: "nat \<Rightarrow> nat" where
  "jset_u64s payload_u64s = JSET_KEYS_U64s + payload_u64s"

definition journal_entry_init :: "u64 list \<Rightarrow> nat \<Rightarrow> nat \<Rightarrow> nat \<Rightarrow> nat \<Rightarrow> nat \<Rightarrow> (nat \<times> u64 list) option" where
  "journal_entry_init data entry ty btree_id level u64s =
     do { data \<leftarrow> upd_opt data entry (jset_entry_word u64s btree_id level ty);
          require (u64s + JSET_KEYS_U64s < 2 ^ 16);
          Some (u64s + JSET_KEYS_U64s, data) }"

text \<open>\<^verbatim>\<open>copy_nonoverlapping\<close> of whole words into a buffer.\<close>

definition write_words :: "u64 list \<Rightarrow> nat \<Rightarrow> u64 list \<Rightarrow> u64 list option" where
  "write_words data i ws =
     do { require (i + length ws \<le> length data); Some (take i data @ ws @ drop (i + length ws) data) }"

definition journal_entry_set ::
    "u64 list \<Rightarrow> nat \<Rightarrow> nat \<Rightarrow> nat \<Rightarrow> nat \<Rightarrow> u64 list \<Rightarrow> nat \<Rightarrow> (nat \<times> u64 list) option" where
  "journal_entry_set data entry ty btree_id level ws u64s =
     do { (ret, data) \<leftarrow> journal_entry_init data entry ty btree_id level u64s;
          require (u64s \<le> length ws);
          data \<leftarrow> write_words data (entry + 1) (take u64s ws);
          Some (ret, data) }"

partial_function (option) entry_empty_loop :: "u64 list \<Rightarrow> nat \<Rightarrow> nat \<Rightarrow> bool option" where
  "entry_empty_loop record entry e =
     (if entry < e then
        Option.bind (nth_opt record entry) (\<lambda>w.
          if entry_type w = BCH_JSET_ENTRY_btree_keys \<and> entry_u64s w \<noteq> 0 then Some False
          else entry_empty_loop record (entry + jset_u64s (entry_u64s w)) e)
      else Some True)"

declare entry_empty_loop.simps [code]

definition journal_entry_empty :: "u64 list \<Rightarrow> bool option" where
  "journal_entry_empty record =
     do { seq \<leftarrow> nth_opt record 3;
          last_seq \<leftarrow> nth_opt record 6;
          if seq \<noteq> last_seq then Some False
          else do { u64s \<leftarrow> nth_opt record 5;
                    entry_empty_loop record JSET_HEADER_U64S (JSET_HEADER_U64S + unat (u64s AND 0xffffffff)) } }"

section \<open>Reservations\<close>

definition ring_set_data :: "journal \<Rightarrow> nat \<Rightarrow> u64 list \<Rightarrow> journal option" where
  "ring_set_data j idx data =
     do { buf \<leftarrow> nth_opt (j_ring j) idx;
          ring \<leftarrow> upd_opt (j_ring j) idx (buf\<lparr>jb_data := data\<rparr>);
          Some (j\<lparr>j_ring := ring\<rparr>) }"

definition journal_res_get_fast :: "journal \<Rightarrow> journal_res \<Rightarrow> u32 \<Rightarrow> (bool \<times> journal_res \<times> journal) option" where
  "journal_res_get_fast j res flags =
     (let old = j_reservations j; idx = journal_state_idx old; off = journal_state_offset old in
      if off + r_u64s res > j_cur_entry_u64s j then Some (False, res, j)
      else do {
        require (journal_state_count old idx \<noteq> 0);
        if unat (flags AND BCH_WATERMARK_MASK) < j_watermark j then Some (False, res, j)
        else do {
          inc \<leftarrow> journal_state_inc old idx;
          case inc of
            None \<Rightarrow> Some (False, res, j)
          | Some new \<Rightarrow>
              do { let new = journal_state_set_offset new (off + r_u64s res);
                   let j = j\<lparr>j_reservations := new\<rparr>;
                   require (idx \<le> j_seq j);
                   let seq = j_seq j - (j_seq j - idx) mod JOURNAL_STATE_BUF_NR;
                   buf \<leftarrow> nth_opt (j_ring j) idx;
                   require (jb_seq buf = seq);
                   Some (True, res\<lparr>r_ref := True, r_offset := off, r_seq := seq,
                                   r_has_overwrites := jb_has_overwrites buf\<rparr>, j) } } })"

text \<open>The buffer and the word in it where the next entry of a reservation goes.\<close>

definition journal_res_entry :: "journal_res \<Rightarrow> (nat \<times> nat) option" where
  "journal_res_entry res =
     do { require (r_ref res); Some (r_seq res mod JOURNAL_STATE_BUF_NR, r_offset res) }"

definition bch2_journal_add_entry ::
    "journal \<Rightarrow> journal_res \<Rightarrow> nat \<Rightarrow> nat \<Rightarrow> nat \<Rightarrow> nat \<Rightarrow> ((nat \<times> nat) \<times> journal_res \<times> journal) option" where
  "bch2_journal_add_entry j res ty btree_id level u64s =
     do { (idx, entry) \<leftarrow> journal_res_entry res;
          buf \<leftarrow> nth_opt (j_ring j) idx;
          (actual, data) \<leftarrow> journal_entry_init (jb_data buf) entry ty btree_id level u64s;
          j \<leftarrow> ring_set_data j idx data;
          require (actual \<le> r_u64s res);
          require (r_offset res + actual < 2 ^ 32);
          Some ((idx, entry), res\<lparr>r_offset := r_offset res + actual, r_u64s := r_u64s res - actual\<rparr>, j) }"

partial_function (option) res_put_fill :: "journal \<Rightarrow> journal_res \<Rightarrow> (journal_res \<times> journal) option" where
  "res_put_fill j res =
     (if r_u64s res \<noteq> 0 then
        Option.bind (bch2_journal_add_entry j res BCH_JSET_ENTRY_btree_keys 0 0 0) (\<lambda>(_, res, j). res_put_fill j res)
      else Some (res, j))"

declare res_put_fill.simps [code]

definition bch2_journal_res_put :: "journal \<Rightarrow> journal_res \<Rightarrow> (journal_res \<times> journal) option" where
  "bch2_journal_res_put j res =
     (if \<not> r_ref res then Some (res, j)
      else do { (res, j) \<leftarrow> res_put_fill j res;
                v \<leftarrow> journal_state_dec (j_reservations j) (r_seq res mod JOURNAL_STATE_BUF_NR);
                Some (res\<lparr>r_ref := False\<rparr>, j\<lparr>j_reservations := v\<rparr>) })"

text \<open>How a transaction commit writes one entry (\<^verbatim>\<open>btree/update.rs\<close>): the entry, then its payload words.\<close>

definition journal_add_words ::
    "journal \<Rightarrow> journal_res \<Rightarrow> nat \<Rightarrow> nat \<Rightarrow> nat \<Rightarrow> u64 list \<Rightarrow> (journal_res \<times> journal) option" where
  "journal_add_words j res ty btree_id level ws =
     do { ((idx, entry), res, j) \<leftarrow> bch2_journal_add_entry j res ty btree_id level (length ws);
          buf \<leftarrow> nth_opt (j_ring j) idx;
          data \<leftarrow> write_words (jb_data buf) (entry + 1) ws;
          j \<leftarrow> ring_set_data j idx data;
          Some (res, j) }"

section \<open>Space on the device\<close>

definition U32_MAX :: nat where [code_consts]: "U32_MAX = 4294967295"

definition sat_add :: "nat \<Rightarrow> nat \<Rightarrow> nat" where "sat_add a b = min (a + b) U32_MAX"
definition sat_mul :: "nat \<Rightarrow> nat \<Rightarrow> nat" where "sat_mul a b = min (a * b) U32_MAX"

definition journal_entry_u64s_for_sectors :: "nat \<Rightarrow> nat" where
  "journal_entry_u64s_for_sectors sectors =
     min (sectors * 512 div 8 - JSET_HEADER_U64S) JOURNAL_ENTRY_OFFSET_MAX"

fun space_from_idx :: "journal_device \<Rightarrow> journal_space_from \<Rightarrow> nat option" where
  "space_from_idx ja journal_space_discarded = Some (ja_discard_idx ja)"
| "space_from_idx ja journal_space_clean_ondisk = Some (ja_dirty_idx_ondisk ja)"
| "space_from_idx ja journal_space_clean = Some (ja_dirty_idx ja)"
| "space_from_idx ja journal_space_total = None"

definition bch2_journal_dev_buckets_available :: "journal_device \<Rightarrow> journal_space_from \<Rightarrow> nat option" where
  "bch2_journal_dev_buckets_available ja from =
     (if ja_nr ja = 0 then Some 0
      else do { i \<leftarrow> space_from_idx ja from;
                require (i + ja_nr ja \<le> U32_MAX);
                require (ja_cur_idx ja + 1 \<le> i + ja_nr ja);
                let available = (i + ja_nr ja - ja_cur_idx ja - 1) mod ja_nr ja;
                Some (if available \<noteq> 0 \<and> ja_dirty_idx_ondisk ja = ja_dirty_idx ja then available - 1
                      else available) })"

definition journal_med_on_space :: "journal \<Rightarrow> bool" where
  "journal_med_on_space j = bit (j_flags j) JOURNAL_med_on_space"

definition journal_low_on_space :: "journal \<Rightarrow> bool" where
  "journal_low_on_space j = (bit (j_flags j) JOURNAL_low_on_space \<or> bit (j_flags j) JOURNAL_low_on_pin)"

definition journal_reclaim_kick :: "journal \<Rightarrow> journal" where
  "journal_reclaim_kick j = j\<lparr>j_reclaim_kicked := True\<rparr>"

definition put_flag :: "nat \<Rightarrow> bool \<Rightarrow> u64 \<Rightarrow> u64" where
  "put_flag n value flags = (if value then set_bit n flags else unset_bit n flags)"

definition bch2_journal_set_watermark :: "journal \<Rightarrow> journal option" where
  "bch2_journal_set_watermark j =
     do { clean \<leftarrow> nth_opt (j_space j) (space_index journal_space_clean);
          total \<leftarrow> nth_opt (j_space j) (space_index journal_space_total);
          let med_on_space = (sp_total total \<noteq> 0 \<and> sp_total clean * 4 \<le> sp_total total * 3);
          let low_on_space = (sp_total total \<noteq> 0 \<and> sp_total clean * 4 \<le> sp_total total);
          let low_on_pin = (JOURNAL_PIN - length (j_pin j) < JOURNAL_PIN div 4);
          let flags = put_flag JOURNAL_low_on_pin low_on_pin
                       (put_flag JOURNAL_low_on_space low_on_space
                         (put_flag JOURNAL_med_on_space med_on_space (j_flags j)));
          let j = j\<lparr>j_flags := flags,
                    j_watermark := watermark_index (if low_on_space \<or> low_on_pin then BCH_WATERMARK_reclaim
                                                    else BCH_WATERMARK_stripe)\<rparr>;
          Some (if med_on_space then journal_reclaim_kick j else j) }"

text \<open>The index moves on, round the buckets, while it is before the limit and its bucket holds only sequence
  numbers below \<open>seq\<close>.\<close>

partial_function (option) advance_idx :: "nat list \<Rightarrow> nat \<Rightarrow> nat \<Rightarrow> nat \<Rightarrow> nat \<Rightarrow> nat option" where
  "advance_idx bucket_seq nr limit seq i =
     (if i = limit then Some i
      else Option.bind (nth_opt bucket_seq i) (\<lambda>s.
        if s < seq then
          (if i + 1 \<le> U32_MAX \<and> nr \<noteq> 0 then advance_idx bucket_seq nr limit seq ((i + 1) mod nr) else None)
        else Some i))"

declare advance_idx.simps [code]

definition journal_geometry :: "journal \<Rightarrow> nat \<times> nat" where
  "journal_geometry j =
     (case j_disk_sb j of
        Some h \<Rightarrow> (case sbh_sb h of
                     Some sb \<Rightarrow> ((case sb_member sb of Some n \<Rightarrow> n | None \<Rightarrow> 0), max (sb_block_size sb) 1)
                   | None \<Rightarrow> (0, 1))
      | None \<Rightarrow> (0, 1))"

definition space_from :: "journal_device \<Rightarrow> nat \<Rightarrow> nat \<Rightarrow> journal_space_from \<Rightarrow> journal_space option" where
  "space_from ja bucket_size block_sectors from =
     do { let aligned = bucket_size div block_sectors * block_sectors;
          buckets \<leftarrow> bch2_journal_dev_buckets_available ja from;
          let sectors = ja_sectors_free ja div block_sectors * block_sectors;
          let (buckets, sectors) = (if sectors < bucket_size \<and> buckets \<noteq> 0 then (buckets - 1, aligned)
                                    else (buckets, sectors));
          Some \<lparr>sp_next_entry = sectors, sp_total = sat_add sectors (sat_mul buckets aligned)\<rparr> }"

definition device_spaces :: "journal_device \<Rightarrow> nat \<Rightarrow> nat \<Rightarrow> journal_space list option" where
  "device_spaces ja bucket_size block_sectors =
     (let aligned = bucket_size div block_sectors * block_sectors in
      if aligned \<noteq> 0 then
        do { discarded \<leftarrow> space_from ja bucket_size block_sectors journal_space_discarded;
             clean_ondisk \<leftarrow> space_from ja bucket_size block_sectors journal_space_clean_ondisk;
             clean \<leftarrow> space_from ja bucket_size block_sectors journal_space_clean;
             Some [discarded, clean_ondisk, clean, \<lparr>sp_next_entry = aligned, sp_total = sat_mul aligned (ja_nr ja)\<rparr>] }
      else Some (replicate 4 journal_space_default))"

definition may_skip_flush :: "journal_space list \<Rightarrow> bool" where
  "may_skip_flush spaces =
     (let clean = sp_total (spaces ! space_index journal_space_clean);
          clean_ondisk = spaces ! space_index journal_space_clean_ondisk;
          total = sp_total (spaces ! space_index journal_space_total)
      in sp_next_entry clean_ondisk < sp_total clean_ondisk \<and>
         clean - sp_total clean_ondisk \<le> total div 8 \<and>
         sat_mul (sp_total clean_ondisk) 2 > clean)"

definition bch2_journal_space_available :: "journal \<Rightarrow> journal option" where
  "bch2_journal_space_available j =
     (let ja = j_device j in
      if ja_nr ja = 0 then
        bch2_journal_set_watermark
          (j\<lparr>j_space := replicate 4 journal_space_default, j_cur_entry_sectors := 0, j_cur_entry_error := 0\<rparr>)
      else do {
        dirty_idx \<leftarrow> advance_idx (ja_bucket_seq ja) (ja_nr ja) (ja_cur_idx ja) (j_last_seq j) (ja_dirty_idx ja);
        let ja = ja\<lparr>ja_dirty_idx := dirty_idx\<rparr>;
        dirty_idx_ondisk \<leftarrow> advance_idx (ja_bucket_seq ja) (ja_nr ja) (ja_dirty_idx ja) (j_last_seq_ondisk j)
                               (ja_dirty_idx_ondisk ja);
        let ja = ja\<lparr>ja_dirty_idx_ondisk := dirty_idx_ondisk\<rparr>;
        let (bucket_size, block_sectors) = journal_geometry j;
        spaces \<leftarrow> device_spaces ja bucket_size block_sectors;
        let next_entry = sp_next_entry (spaces ! space_index journal_space_discarded);
        bch2_journal_set_watermark
          (j\<lparr>j_device := ja,
            j_flags := put_flag JOURNAL_may_skip_flush (may_skip_flush spaces) (j_flags j),
            j_space := spaces, j_cur_entry_sectors := next_entry,
            j_cur_entry_error := (if next_entry \<noteq> 0 then 0 else - 9)\<rparr>) })"

partial_function (option) discard_loop :: "nat \<Rightarrow> nat \<Rightarrow> nat \<Rightarrow> nat option" where
  "discard_loop nr limit i =
     (if i \<noteq> limit then if i + 1 \<le> U32_MAX \<and> nr \<noteq> 0 then discard_loop nr limit ((i + 1) mod nr) else None
      else Some i)"

declare discard_loop.simps [code]

definition bch2_journal_do_discards :: "journal \<Rightarrow> journal option" where
  "bch2_journal_do_discards j =
     do { i \<leftarrow> discard_loop (ja_nr (j_device j)) (ja_dirty_idx_ondisk (j_device j)) (ja_discard_idx (j_device j));
          Some (j\<lparr>j_device := (j_device j)\<lparr>ja_discard_idx := i\<rparr>\<rparr>) }"

section \<open>Pins\<close>

fun drop_unpinned :: "nat \<Rightarrow> nat \<Rightarrow> journal_entry_pin_list list \<Rightarrow> nat \<times> journal_entry_pin_list list" where
  "drop_unpinned seq_ondisk front [] = (front, [])"
| "drop_unpinned seq_ondisk front (p # ps) =
     (if front \<le> seq_ondisk \<and> pl_count p = 0 then drop_unpinned seq_ondisk (front + 1) ps else (front, p # ps))"

definition bch2_journal_update_last_seq :: "journal \<Rightarrow> journal option" where
  "bch2_journal_update_last_seq j =
     (let (front, pin) = drop_unpinned (j_seq_ondisk j) (j_pin_front j) (j_pin j);
          old = j_last_seq j;
          j = j\<lparr>j_pin_front := front, j_pin := pin, j_last_seq := front\<rparr>
      in if front \<noteq> old then do { j \<leftarrow> bch2_journal_space_available j; bch2_journal_do_discards j } else Some j)"

definition bch2_journal_update_last_seq_ondisk :: "journal \<Rightarrow> nat \<Rightarrow> (int \<times> journal) option" where
  "bch2_journal_update_last_seq_ondisk j last_seq_ondisk =
     (if last_seq_ondisk > j_seq j \<or> last_seq_ondisk > j_last_seq j then Some (- 1, j)
      else if last_seq_ondisk > j_last_seq_ondisk j then
        do { j \<leftarrow> bch2_journal_space_available (j\<lparr>j_last_seq_ondisk := last_seq_ondisk\<rparr>);
             j \<leftarrow> bch2_journal_do_discards j;
             Some (0, j) }
      else Some (0, j))"

definition journal_pin_active :: "journal_entry_pin \<Rightarrow> bool" where
  "journal_pin_active pin \<longleftrightarrow> jp_seq pin \<noteq> 0"

text \<open>\<open>node_level\<close> gives the level of the btree node whose write slot the pin lies in.\<close>

fun journal_pin_type_of :: "(addr \<Rightarrow> nat) \<Rightarrow> addr \<Rightarrow> journal_pin_flush_fn \<Rightarrow> journal_pin_type" where
  "journal_pin_type_of node_level pin (other_flush n) = JOURNAL_PIN_TYPE_other"
| "journal_pin_type_of node_level pin flush =
     (case node_level pin of
        0 \<Rightarrow> JOURNAL_PIN_TYPE_btree0
      | Suc 0 \<Rightarrow> JOURNAL_PIN_TYPE_btree1
      | Suc (Suc 0) \<Rightarrow> JOURNAL_PIN_TYPE_btree2
      | _ \<Rightarrow> JOURNAL_PIN_TYPE_btree3)"

definition pin_list_remove :: "addr \<Rightarrow> journal_entry_pin_list \<Rightarrow> journal_entry_pin_list" where
  "pin_list_remove pin p =
     p\<lparr>pl_unflushed := map (filter (\<lambda>candidate. candidate \<noteq> pin)) (pl_unflushed p),
       pl_flushed := filter (\<lambda>candidate. candidate \<noteq> pin) (pl_flushed p)\<rparr>"

text \<open>One reference less on the list of \<open>seq\<close>, and the pin leaves it.\<close>

definition pin_put :: "journal \<Rightarrow> nat \<Rightarrow> addr \<Rightarrow> journal option" where
  "pin_put j seq pin =
     do { require (j_pin_front j \<le> seq);
          p \<leftarrow> nth_opt (j_pin j) (seq - j_pin_front j);
          require (pl_count p \<noteq> 0);
          pins \<leftarrow> upd_opt (j_pin j) (seq - j_pin_front j) (pin_list_remove pin (p\<lparr>pl_count := pl_count p - 1\<rparr>));
          Some (j\<lparr>j_pin := pins\<rparr>) }"

definition bch2_journal_pin_set :: "(addr \<Rightarrow> nat) \<Rightarrow> journal \<Rightarrow> nat \<Rightarrow> addr \<Rightarrow> journal_pin_flush_fn \<Rightarrow> journal option" where
  "bch2_journal_pin_set node_level j new_seq pin flush_fn =
     do { let old_seq = jp_seq (j_pin_mem j pin);
          let pin_type = pin_type_index (journal_pin_type_of node_level pin flush_fn);
          let j = (if old_seq \<noteq> 0 \<and> j_flush_in_progress j = pin then j\<lparr>j_flush_in_progress_dropped := True\<rparr> else j);
          j \<leftarrow> (if old_seq \<noteq> 0 then pin_put j old_seq pin else Some j);
          require (j_pin_front j \<le> new_seq);
          p \<leftarrow> nth_opt (j_pin j) (new_seq - j_pin_front j);
          require (pl_count p + 1 \<le> U32_MAX);
          q \<leftarrow> nth_opt (pl_unflushed p) pin_type;
          let p = p\<lparr>pl_count := pl_count p + 1, pl_unflushed := (pl_unflushed p)[pin_type := q @ [pin]]\<rparr>;
          pins \<leftarrow> upd_opt (j_pin j) (new_seq - j_pin_front j) p;
          let j = j\<lparr>j_pin := pins,
                    j_pin_mem := (j_pin_mem j)(pin := \<lparr>jp_seq = new_seq, jp_flush = Some flush_fn\<rparr>)\<rparr>;
          if old_seq \<noteq> 0 then bch2_journal_update_last_seq j else Some j }"

definition bch2_journal_pin_add :: "(addr \<Rightarrow> nat) \<Rightarrow> journal \<Rightarrow> nat \<Rightarrow> addr \<Rightarrow> journal_pin_flush_fn \<Rightarrow> journal option" where
  "bch2_journal_pin_add node_level j seq pin flush_fn =
     (if \<not> journal_pin_active (j_pin_mem j pin) \<or> jp_seq (j_pin_mem j pin) > seq
      then bch2_journal_pin_set node_level j seq pin flush_fn else Some j)"

definition bch2_journal_pin_update :: "(addr \<Rightarrow> nat) \<Rightarrow> journal \<Rightarrow> nat \<Rightarrow> addr \<Rightarrow> journal_pin_flush_fn \<Rightarrow> journal option" where
  "bch2_journal_pin_update node_level j seq pin flush_fn =
     (if \<not> journal_pin_active (j_pin_mem j pin) \<or> jp_seq (j_pin_mem j pin) < seq
      then bch2_journal_pin_set node_level j seq pin flush_fn else Some j)"

definition bch2_journal_pin_drop :: "journal \<Rightarrow> addr \<Rightarrow> journal option" where
  "bch2_journal_pin_drop j pin =
     (let seq = jp_seq (j_pin_mem j pin) in
      if seq = 0 then Some j
      else do {
        j \<leftarrow> pin_put j seq pin;
        let j = (if j_flush_in_progress j = pin then j\<lparr>j_flush_in_progress_dropped := True\<rparr> else j);
        bch2_journal_update_last_seq (j\<lparr>j_pin_mem := (j_pin_mem j)(pin := (j_pin_mem j pin)\<lparr>jp_seq := 0\<rparr>)\<rparr>) })"

text \<open>The lists below \<open>n\<close> that are still to be replayed lose the reference of the replay.\<close>

fun replay_put :: "nat \<Rightarrow> journal_entry_pin_list list \<Rightarrow> journal_entry_pin_list list option" where
  "replay_put n [] = Some []"
| "replay_put n (p # ps) =
     (if n = 0 then Some (p # ps)
      else do { p \<leftarrow> (if pl_unreplayed p
                       then do { require (pl_count p \<noteq> 0);
                                 Some (p\<lparr>pl_unreplayed := False, pl_count := pl_count p - 1\<rparr>) }
                       else Some p);
                ps \<leftarrow> replay_put (n - 1) ps;
                Some (p # ps) })"

definition bch2_journal_replay_pins_put :: "journal \<Rightarrow> nat \<Rightarrow> journal option" where
  "bch2_journal_replay_pins_put j seq =
     do { pins \<leftarrow> replay_put (min seq (j_seq j) - j_pin_front j) (j_pin j);
          bch2_journal_update_last_seq (j\<lparr>j_pin := pins\<rparr>) }"

section \<open>Writing back pins\<close>

text \<open>What a journal call finds around it: the callbacks that write a node back (given the journal, the pin and its
  sequence number), the roots of the btrees, the length of the device file in bytes and whether its system calls
  succeed.\<close>

record journal_env =
  env_flush :: "journal_pin_flush_fn \<Rightarrow> journal \<Rightarrow> addr \<Rightarrow> nat \<Rightarrow> (int \<times> journal) option"
  env_roots :: "btree_root list"
  env_file_len :: nat
  env_zero_ok :: bool
  env_write_ok :: bool
  env_sync_ok :: bool

fun first_pin_type :: "u32 \<Rightarrow> u32 \<Rightarrow> bool \<Rightarrow> nat \<Rightarrow> addr list list \<Rightarrow> addr option" where
  "first_pin_type allowed_below allowed_above low n [] = None"
| "first_pin_type allowed_below allowed_above low n (q # qs) =
     (if (bit allowed_below n \<and> low \<or> bit allowed_above n) \<and> q \<noteq> [] then Some (hd q)
      else first_pin_type allowed_below allowed_above low (Suc n) qs)"

fun find_next_pin :: "nat \<Rightarrow> u32 \<Rightarrow> u32 \<Rightarrow> nat \<Rightarrow> journal_entry_pin_list list \<Rightarrow> (addr \<times> nat) option" where
  "find_next_pin seq_to_flush allowed_below allowed_above seq [] = None"
| "find_next_pin seq_to_flush allowed_below allowed_above seq (p # ps) =
     (if pl_unreplayed p \<or> seq > seq_to_flush \<and> allowed_above = 0 then None
      else case first_pin_type allowed_below allowed_above (seq \<le> seq_to_flush) 0 (pl_unflushed p) of
             Some pin \<Rightarrow> Some (pin, seq)
           | None \<Rightarrow> find_next_pin seq_to_flush allowed_below allowed_above (seq + 1) ps)"

definition journal_get_next_pin ::
    "journal \<Rightarrow> nat \<Rightarrow> u32 \<Rightarrow> u32 \<Rightarrow> ((addr \<times> nat \<times> journal_pin_flush_fn) option \<times> journal) option" where
  "journal_get_next_pin j seq_to_flush allowed_below allowed_above =
     (case find_next_pin seq_to_flush allowed_below allowed_above (j_pin_front j) (j_pin j) of
        None \<Rightarrow> Some (None, j)
      | Some (pin, seq) \<Rightarrow>
          do { flush_fn \<leftarrow> jp_flush (j_pin_mem j pin);
               require (j_flush_in_progress j = 0);
               Some (Some (pin, seq, flush_fn), j\<lparr>j_flush_in_progress := pin, j_flush_in_progress_dropped := False\<rparr>) })"

text \<open>A pin whose write-back succeeded moves to the flushed ones of its list.\<close>

definition pin_list_flushed :: "addr \<Rightarrow> journal_entry_pin_list \<Rightarrow> journal_entry_pin_list" where
  "pin_list_flushed pin p =
     p\<lparr>pl_unflushed := map (filter (\<lambda>candidate. candidate \<noteq> pin)) (pl_unflushed p),
       pl_flushed := (if pin \<in> set (pl_flushed p) then pl_flushed p else pl_flushed p @ [pin])\<rparr>"

definition pin_set_flushed :: "journal \<Rightarrow> addr \<Rightarrow> nat \<Rightarrow> journal" where
  "pin_set_flushed j pin seq =
     (let i = seq - j_pin_front j in
      if j_pin_front j \<le> seq \<and> i < length (j_pin j)
      then j\<lparr>j_pin := (j_pin j)[i := pin_list_flushed pin (j_pin j ! i)]\<rparr> else j)"

partial_function (option) journal_flush_pins ::
    "journal_env \<Rightarrow> journal \<Rightarrow> nat \<Rightarrow> u32 \<Rightarrow> u32 \<Rightarrow> nat \<Rightarrow> nat \<Rightarrow> (nat \<times> journal) option" where
  "journal_flush_pins env j seq_to_flush allowed_below allowed_above min_any nr_flushed =
     Option.bind
       (journal_get_next_pin j seq_to_flush (if min_any \<noteq> 0 then - 1 else allowed_below) (if min_any \<noteq> 0 then - 1 else allowed_above))
       (\<lambda>(found, j). case found of
          None \<Rightarrow> Some (nr_flushed, j)
        | Some (pin, seq, flush_fn) \<Rightarrow>
            Option.bind (env_flush env flush_fn j pin seq) (\<lambda>(ret, j).
              let j = (if ret = 0 \<and> \<not> j_flush_in_progress_dropped j \<and> jp_seq (j_pin_mem j pin) = seq
                       then pin_set_flushed j pin seq else j);
                  j = j\<lparr>j_flush_in_progress := 0, j_flush_in_progress_dropped := False\<rparr>
              in if ret \<noteq> 0 then Some (nr_flushed, j)
                 else journal_flush_pins env j seq_to_flush allowed_below allowed_above (min_any - 1) (nr_flushed + 1)))"

declare journal_flush_pins.simps [code]

definition journal_seq_to_flush :: "journal \<Rightarrow> nat option" where
  "journal_seq_to_flush j =
     (let ja = j_device j in
      if ja_nr ja = 0 then Some 0
      else do { require (ja_cur_idx ja + ja_nr ja div 2 \<le> U32_MAX);
                nth_opt (ja_bucket_seq ja) ((ja_cur_idx ja + ja_nr ja div 2) mod ja_nr ja) })"

text \<open>A lock that is already held is not taken again: the call would not return.\<close>

definition with_reclaim_lock :: "(journal \<Rightarrow> ('a \<times> journal) option) \<Rightarrow> journal \<Rightarrow> ('a \<times> journal) option" where
  "with_reclaim_lock f j =
     do { require (\<not> j_reclaim_locked j);
          (x, j) \<leftarrow> f (j\<lparr>j_reclaim_locked := True\<rparr>);
          Some (x, j\<lparr>j_reclaim_locked := False\<rparr>) }"

fun flush_pin_types :: "journal_env \<Rightarrow> nat \<Rightarrow> nat list \<Rightarrow> bool \<Rightarrow> journal \<Rightarrow> (bool \<times> journal) option" where
  "flush_pin_types env seq_to_flush [] did_work j = Some (did_work, j)"
| "flush_pin_types env seq_to_flush (pin_type # types) did_work j =
     do { (nr, j) \<leftarrow> journal_flush_pins env j seq_to_flush (push_bit pin_type 1) 0 0 0;
          flush_pin_types env seq_to_flush types (did_work \<or> nr \<noteq> 0) j }"

definition bch2_journal_flush_pins :: "journal_env \<Rightarrow> journal \<Rightarrow> nat \<Rightarrow> (bool \<times> journal) option" where
  "bch2_journal_flush_pins env j seq_to_flush =
     with_reclaim_lock (flush_pin_types env seq_to_flush [5, 4, 3, 2, 1, 0] False) j"

partial_function (option) raw_bch2_journal_reclaim :: "journal_env \<Rightarrow> bool \<Rightarrow> bool \<Rightarrow> journal \<Rightarrow> (int \<times> journal) option" where
  "raw_bch2_journal_reclaim env direct kicked j =
     Option.bind (journal_seq_to_flush j) (\<lambda>seq_to_flush.
       let min_nr = (if kicked \<or> journal_med_on_space j then 1 else 0) in
       Option.bind (journal_flush_pins env j seq_to_flush (- 1) 0 min_nr 0) (\<lambda>(nr, j).
         let j = (if direct then j\<lparr>j_nr_direct_reclaim := (j_nr_direct_reclaim j + nr) mod 2 ^ 64\<rparr>
                  else j\<lparr>j_nr_background_reclaim := (j_nr_background_reclaim j + nr) mod 2 ^ 64\<rparr>)
         in if direct \<or> min_nr = 0 \<or> nr = 0 then Some (0, j)
            else raw_bch2_journal_reclaim env direct False j))"

declare raw_bch2_journal_reclaim.simps [code]

definition bch2_journal_reclaim :: "journal_env \<Rightarrow> journal \<Rightarrow> (int \<times> journal) option" where
  "bch2_journal_reclaim env j = with_reclaim_lock (raw_bch2_journal_reclaim env True True) j"

section \<open>Writing an entry\<close>

definition key_u64s :: "u64 list \<Rightarrow> nat option" where
  "key_u64s ws = do { w \<leftarrow> nth_opt ws 0; Some (unat (w AND 0xff)) }"

fun roots_to_entries :: "nat \<Rightarrow> btree_root list \<Rightarrow> u64 list \<Rightarrow> nat \<Rightarrow> (nat \<times> u64 list) option" where
  "roots_to_entries btree_id [] data entry = Some (entry, data)"
| "roots_to_entries btree_id (root # roots) data entry =
     (if rt_alive root \<noteq> 0 then
        do { n \<leftarrow> key_u64s (rt_key root);
             (actual, data) \<leftarrow> journal_entry_set data entry BCH_JSET_ENTRY_btree_root btree_id (rt_level root) (rt_key root) n;
             roots_to_entries (Suc btree_id) roots data (entry + actual) }
      else roots_to_entries (Suc btree_id) roots data entry)"

definition bch2_btree_roots_to_journal_entries :: "btree_root list \<Rightarrow> u64 list \<Rightarrow> nat \<Rightarrow> (nat \<times> u64 list) option" where
  "bch2_btree_roots_to_journal_entries roots data entry =
     do { require (length roots = BTREE_ID_NR); roots_to_entries 0 roots data entry }"

text \<open>The record of the open entry in memory: the header, the reserved words, and for a journal with a device the roots.\<close>

definition flush_record :: "journal_env \<Rightarrow> journal \<Rightarrow> u64 list \<Rightarrow> nat \<Rightarrow> u64 list option" where
  "flush_record env j data used =
     do { require (used \<le> length data);
          let record = [0, 0, JSET_MAGIC, of_nat (j_seq j), 0, of_nat used, of_nat (j_last_seq j)] @ take used data;
          if j_disk_sb j = None then Some record
          else do {
            let reserved = BTREE_ID_NR * (JSET_KEYS_U64s + BKEY_U64S + BKEY_BTREE_PTR_VAL_U64S_MAX);
            let roots_start = JSET_HEADER_U64S + used;
            (e, record) \<leftarrow> bch2_btree_roots_to_journal_entries (env_roots env) (record @ replicate reserved 0) roots_start;
            let appended = e - roots_start;
            require (appended \<le> reserved);
            if appended \<noteq> 0 then Some ((take e record)[5 := of_nat (used + appended)])
            else Some (take roots_start record) } }"

text \<open>The image on the device: the record with the magic of the file system, the version and the checksum of the
  bytes after it, padded to whole blocks.\<close>

definition disk_image :: "journal_sb \<Rightarrow> u64 list \<Rightarrow> nat \<Rightarrow> u64 list option" where
  "disk_image sb record nr_words =
     do { let disk = record @ replicate (nr_words - length record) 0;
          let disk = disk[0 := 0, 1 := 0, 2 := sb_uuid_lo sb XOR JSET_MAGIC,
                          4 := metadata_version_current OR push_bit 32 (ucast BCH_CSUM_xxhash)];
          csum \<leftarrow> bch2_checksum BCH_CSUM_xxhash
                    (concat (map (\<lambda>w. map (\<lambda>i. ucast (drop_bit (8 * i) w)) [0..<8]) (take (length record - 2) (drop 2 disk))));
          Some (disk[0 := csum_lo csum, 1 := csum_hi csum]) }"

definition next_multiple_of :: "nat \<Rightarrow> nat \<Rightarrow> nat" where
  "next_multiple_of n m = (n + m - 1) div m * m"

text \<open>The device moves to the next bucket when the record does not fit the current one and a bucket is free.\<close>

definition journal_next_bucket :: "journal \<Rightarrow> nat \<Rightarrow> nat \<Rightarrow> (bool \<times> journal) option" where
  "journal_next_bucket j sectors bucket_size =
     (let ja = j_device j in
      if sectors > ja_sectors_free ja \<and> sectors \<le> bucket_size then
        do { n \<leftarrow> bch2_journal_dev_buckets_available ja journal_space_discarded;
             if n \<noteq> 0 then
               do { require (ja_cur_idx ja + 1 \<le> U32_MAX);
                    let cur_idx = (ja_cur_idx ja + 1) mod ja_nr ja;
                    bucket_seq \<leftarrow> upd_opt (ja_bucket_seq ja) cur_idx (j_seq j);
                    Some (True, j\<lparr>j_device := ja\<lparr>ja_cur_idx := cur_idx, ja_sectors_free := bucket_size,
                                                ja_bucket_seq := bucket_seq\<rparr>\<rparr>) }
             else Some (False, j) }
      else Some (False, j))"

definition journal_write_at ::
    "journal_env \<Rightarrow> journal_sb \<Rightarrow> journal \<Rightarrow> u64 list \<Rightarrow> nat \<Rightarrow> nat \<Rightarrow> nat \<Rightarrow> (int \<times> journal) option" where
  "journal_write_at env sb j record write_bytes bucket_size bucket_sector =
     do { let ja = j_device j;
          let sectors = write_bytes div 512;
          require (ja_sectors_free ja \<le> bucket_size);
          let sector = bucket_sector + (bucket_size - ja_sectors_free ja);
          require (sector * 512 + write_bytes < 2 ^ 64);
          disk \<leftarrow> disk_image sb record (write_bytes div 8);
          if sector * 512 + write_bytes > env_file_len env \<or> \<not> env_write_ok env then Some (- 5, j)
          else do {
            let j = j\<lparr>j_writes := (sector, disk) # j_writes j\<rparr>;
            if \<not> env_sync_ok env then Some (- 5, j)
            else do {
              bucket_seq \<leftarrow> upd_opt (ja_bucket_seq ja) (ja_cur_idx ja) (j_seq j);
              Some (0, j\<lparr>j_device := ja\<lparr>ja_sectors_free := ja_sectors_free ja - sectors,
                                       ja_bucket_seq := bucket_seq, ja_highest_seq_found := j_seq j\<rparr>\<rparr>) } } }"

definition journal_write_bucket ::
    "journal_env \<Rightarrow> journal_sb \<Rightarrow> journal \<Rightarrow> u64 list \<Rightarrow> nat \<Rightarrow> nat \<Rightarrow> bool \<Rightarrow> (int \<times> journal) option" where
  "journal_write_bucket env sb j record write_bytes bucket_size advanced =
     do { bucket \<leftarrow> nth_opt (ja_buckets (j_device j)) (ja_cur_idx (j_device j));
          let bucket_sector = bucket * bucket_size;
          if advanced then
            (if env_zero_ok env
             then journal_write_at env sb (j\<lparr>j_writes := (bucket_sector, replicate (bucket_size * 64) 0) # j_writes j\<rparr>)
                    record write_bytes bucket_size bucket_sector
             else Some (- 5, j))
          else journal_write_at env sb j record write_bytes bucket_size bucket_sector }"

definition journal_write_sectors ::
    "journal_env \<Rightarrow> journal_sb \<Rightarrow> journal \<Rightarrow> u64 list \<Rightarrow> nat \<Rightarrow> nat \<Rightarrow> nat \<Rightarrow> (int \<times> journal) option" where
  "journal_write_sectors env sb j record bucket_size total_buckets write_bytes =
     (let sectors = write_bytes div 512; ja = j_device j in
      if bucket_size = 0 \<or> total_buckets = 0 \<or> sectors > bucket_size then Some (- 4, j)
      else if ja_nr ja \<noteq> total_buckets mod 2 ^ 32 \<or> length (ja_buckets ja) \<noteq> ja_nr ja \<or>
              length (ja_bucket_seq ja) \<noteq> ja_nr ja then Some (- 4, j)
      else do {
        (advanced, j) \<leftarrow> journal_next_bucket j sectors bucket_size;
        if sectors > ja_sectors_free (j_device j) then Some (- 9, j)
        else journal_write_bucket env sb j record write_bytes bucket_size advanced })"

definition journal_write_device :: "journal_env \<Rightarrow> bch_sb_handle \<Rightarrow> journal \<Rightarrow> u64 list \<Rightarrow> (int \<times> journal) option" where
  "journal_write_device env h j record =
     (if \<not> sbh_file h then Some (- 4, j)
      else case sbh_sb h of
        None \<Rightarrow> Some (- 4, j)
      | Some sb \<Rightarrow>
         (case (sb_member sb, sb_journal_v2 sb) of
            (Some bucket_size, Some entries) \<Rightarrow>
              journal_write_sectors env sb j record bucket_size (min (sum_list entries) (2 ^ 64 - 1))
                (next_multiple_of (length record * 8) (max (sb_block_size sb) 1 * 512))
          | _ \<Rightarrow> Some (- 4, j)))"

text \<open>Opening the next entry: its buffer, the reservation word, its pin list, and the sequence numbers on disk.\<close>

definition journal_open_next :: "journal \<Rightarrow> u64 list \<Rightarrow> bool \<Rightarrow> (int \<times> journal) option" where
  "journal_open_next j record is_empty =
     do { let old_state = j_reservations j;
          let old_seq = j_seq j;
          let new_seq = old_seq + 1;
          last_seq_wrote \<leftarrow> nth_opt record 6;
          let j = j\<lparr>j_closed := j_closed j @ [record]\<rparr>;
          let new_idx = new_seq mod JOURNAL_STATE_BUF_NR;
          if new_seq > JOURNAL_SEQ_MAX then Some (- 2, j)
          else if journal_state_count old_state new_idx \<noteq> 0 then Some (- 3, j)
          else do {
            new_buf \<leftarrow> nth_opt (j_ring j) new_idx;
            ring \<leftarrow> upd_opt (j_ring j) new_idx
                       (new_buf\<lparr>jb_data := map (\<lambda>_. 0) (jb_data new_buf), jb_seq := new_seq\<rparr>);
            v \<leftarrow> journal_state_dec old_state (journal_state_idx old_state);
            v \<leftarrow> journal_state_inc (journal_state_set_offset (journal_state_set_idx v new_idx) 0) new_idx;
            new_state \<leftarrow> v;
            require (j_pin_front j + length (j_pin j) = new_seq);
            require (j_pin_front j \<le> old_seq);
            let pins = j_pin j @ [journal_pin_list_init 1];
            old \<leftarrow> nth_opt pins (old_seq - j_pin_front j);
            require (pl_count old \<noteq> 0);
            pins \<leftarrow> upd_opt pins (old_seq - j_pin_front j) (old\<lparr>pl_count := pl_count old - 1\<rparr>);
            Some (0, j\<lparr>j_ring := ring, j_seq := new_seq, j_reservations := new_state, j_pin := pins,
                      j_seq_ondisk := old_seq,
                      j_last_seq_ondisk := max (j_last_seq_ondisk j) (unat last_seq_wrote + (if is_empty then 1 else 0))\<rparr>) } }"

definition journal_after_write :: "journal_env \<Rightarrow> journal \<Rightarrow> (int \<times> journal) option" where
  "journal_after_write env j =
     do { j \<leftarrow> bch2_journal_update_last_seq j;
          j \<leftarrow> bch2_journal_space_available j;
          j \<leftarrow> bch2_journal_do_discards j;
          let j = (if j_cur_entry_sectors j \<noteq> 0
                   then j\<lparr>j_cur_entry_u64s := journal_entry_u64s_for_sectors (j_cur_entry_sectors j)\<rparr> else j);
          if j_reclaim_kicked j \<and> \<not> j_reclaim_locked j then
            do { (_, j) \<leftarrow> with_reclaim_lock (raw_bch2_journal_reclaim env False True) (j\<lparr>j_reclaim_kicked := False\<rparr>);
                 Some (0, j) }
          else Some (0, j) }"

definition bch2_journal_flush :: "journal_env \<Rightarrow> journal \<Rightarrow> (int \<times> journal) option" where
  "bch2_journal_flush env j =
     (let old_state = j_reservations j; old_idx = journal_state_idx old_state in
      if journal_state_count old_state old_idx \<noteq> 1 then Some (- 1, j)
      else do {
        old_buf \<leftarrow> nth_opt (j_ring j) old_idx;
        require (jb_seq old_buf = j_seq j);
        if 0 < j_fault_inject_write_error j
        then Some (- 5, j\<lparr>j_fault_inject_write_error := j_fault_inject_write_error j - 1\<rparr>)
        else do {
          record \<leftarrow> flush_record env j (jb_data old_buf) (journal_state_offset old_state);
          (ret, j) \<leftarrow> (case j_disk_sb j of None \<Rightarrow> Some (0, j) | Some h \<Rightarrow> journal_write_device env h j record);
          if ret \<noteq> 0 then Some (ret, j)
          else do {
            is_empty \<leftarrow> journal_entry_empty record;
            (ret, j) \<leftarrow> journal_open_next j record is_empty;
            if ret \<noteq> 0 then Some (ret, j) else journal_after_write env j } } })"

text \<open>Taking a reservation: \<open>passed k\<close> tells whether the deadline has passed when the clock is read for the \<open>k\<close>-th time.\<close>

definition res_get_reclaim :: "journal_env \<Rightarrow> journal \<Rightarrow> (int \<times> bool \<times> journal) option" where
  "res_get_reclaim env j =
     do { let reclaimed = j_nr_direct_reclaim j;
          (ret, j) \<leftarrow> bch2_journal_reclaim env j;
          if ret \<noteq> 0 then Some (ret, False, j)
          else if j_nr_direct_reclaim j \<noteq> reclaimed then Some (0, True, j)
          else do { j \<leftarrow> bch2_journal_update_last_seq j; Some (0, False, j) } }"

partial_function (option) res_get_loop ::
    "journal_env \<Rightarrow> (nat \<Rightarrow> bool) \<Rightarrow> u32 \<Rightarrow> nat \<Rightarrow> journal \<Rightarrow> journal_res \<Rightarrow> (int \<times> journal_res \<times> journal) option" where
  "res_get_loop env passed flags k j res =
     Option.bind (journal_res_get_fast j res flags) (\<lambda>(ok, res, j).
       if ok then Some (0, res, j)
       else if unat (flags AND BCH_WATERMARK_MASK) < j_watermark j then
         Option.bind (res_get_reclaim env j) (\<lambda>(ret, progress, j).
           if ret \<noteq> 0 then Some (ret, res, j)
           else if progress then res_get_loop env passed flags k j res
           else if passed k then Some (- 9, res, j) else res_get_loop env passed flags (Suc k) j res)
       else Option.bind (bch2_journal_flush env j) (\<lambda>(ret, j).
         if ret = - 9 then
           Option.bind (res_get_reclaim env j) (\<lambda>(ret, progress, j).
             if ret \<noteq> 0 then Some (ret, res, j)
             else if progress then res_get_loop env passed flags k j res
             else if passed k then Some (- 9, res, j) else res_get_loop env passed flags (Suc k) j res)
         else if ret \<noteq> 0 then Some (ret, res, j)
         else res_get_loop env passed flags k j res))"

declare res_get_loop.simps [code]

definition bch2_journal_res_get ::
    "journal_env \<Rightarrow> (nat \<Rightarrow> bool) \<Rightarrow> journal \<Rightarrow> journal_res \<Rightarrow> nat \<Rightarrow> u32 \<Rightarrow> (int \<times> journal_res \<times> journal) option" where
  "bch2_journal_res_get env passed j res u64s flags =
     do { require (\<not> r_ref res); res_get_loop env passed flags 0 j (res\<lparr>r_u64s := u64s\<rparr>) }"

section \<open>Restoring a journal\<close>

text \<open>The records must be complete and their sequence numbers consecutive; the result is the first and the last of
  them, 0 when there is no record, or an error.\<close>

fun check_records :: "nat \<Rightarrow> u64 list list \<Rightarrow> nat \<Rightarrow> nat \<Rightarrow> int + nat \<times> nat" where
  "check_records cur_seq [] first_seq previous = Inr (first_seq, previous)"
| "check_records cur_seq (record # records) first_seq previous =
     (if length record < JSET_HEADER_U64S \<or> record ! 2 \<noteq> JSET_MAGIC \<or> record ! 3 = 0 \<or> unat (record ! 3) \<ge> cur_seq \<or>
         unat (record ! 5 AND 0xffffffff) > length record - JSET_HEADER_U64S then Inl (- 1)
      else let seq = unat (record ! 3) in
        if previous \<noteq> 0 \<and> seq \<noteq> min (previous + 1) (2 ^ 64 - 1) then Inl (- 8)
        else check_records cur_seq records (if previous = 0 then seq else first_seq) seq)"

definition bch2_journal_restore_for_replay :: "journal \<Rightarrow> u64 list list \<Rightarrow> nat \<Rightarrow> int \<times> journal" where
  "bch2_journal_restore_for_replay j records cur_seq =
     (if cur_seq = 0 \<or> cur_seq > JOURNAL_SEQ_MAX then (- 1, j)
      else case check_records cur_seq records cur_seq 0 of
        Inl err \<Rightarrow> (err, j)
      | Inr (first_seq, previous) \<Rightarrow>
          if previous \<noteq> 0 \<and> previous + 1 \<noteq> cur_seq then (- 8, j)
          else
            let idx = cur_seq mod JOURNAL_STATE_BUF_NR;
                ring = map (\<lambda>buf. buf\<lparr>jb_data := map (\<lambda>_. 0) (jb_data buf), jb_seq := 0, jb_has_overwrites := False\<rparr>) (j_ring j);
                ring = ring[idx := (ring ! idx)\<lparr>jb_seq := cur_seq\<rparr>]
            in (0, j\<lparr>j_ring := ring, j_seq := cur_seq, j_reservations := journal_state_fresh idx, j_closed := records,
                    j_pin_front := first_seq,
                    j_pin := replicate (cur_seq - first_seq) ((journal_pin_list_init 1)\<lparr>pl_unreplayed := True\<rparr>)
                             @ [journal_pin_list_init 1],
                    j_seq_ondisk := cur_seq - 1, j_last_seq := first_seq, j_last_seq_ondisk := first_seq,
                    j_flags := put_flag JOURNAL_replay_done False (j_flags j)\<rparr>))"

end
