(* ===== verification/Journal_Res.thy ===== *)
theory Journal_Res
  imports Journal "HOL-Library.Multiset"
begin

unbundle bit_operations_syntax

text \<open>
  Reservations in the open journal entry. The reservation word is a packed record of an offset, a buffer index and
  four reference counts; each operation on it changes one field. A system of a journal and its outstanding
  reservations steps by the operations of \<^verbatim>\<open>journal.rs\<close>: the outstanding reservations stay disjoint
  pieces of the entry and the reference count counts them, and an entry that is written is a sequence of complete
  entries.
\<close>

section \<open>The fields of the word\<close>

definition fld :: "nat \<Rightarrow> nat \<Rightarrow> nat \<Rightarrow> nat" where
  "fld p w n = n div 2 ^ p mod 2 ^ w"

lemma div_add_power: "(n + 2 ^ p) div 2 ^ p = Suc (n div 2 ^ p)" for n p :: nat
  using div_add_self2 [of "2 ^ p" n] by simp

lemma fld_add_same:
  assumes "fld p w n < 2 ^ w - 1"
  shows "fld p w (n + 2 ^ p) = fld p w n + 1"
proof -
  have "fld p w (n + 2 ^ p) = (n div 2 ^ p + 1) mod 2 ^ w" by (simp add: fld_def div_add_power)
  also have "\<dots> = n div 2 ^ p mod 2 ^ w + 1"
    using assms by (simp add: fld_def mod_Suc)
  finally show ?thesis by (simp add: fld_def)
qed

lemma fld_add_low: "q + u \<le> p \<Longrightarrow> fld q u (n + 2 ^ p) = fld q u n"
proof -
  assume "q + u \<le> p"
  then obtain k where p: "p = q + (u + k)" by (metis add.assoc le_Suc_ex)
  have "(n + 2 ^ p) div 2 ^ q = n div 2 ^ q + 2 ^ (u + k)" by (simp add: p power_add)
  also have "(n div 2 ^ q + 2 ^ (u + k)) mod 2 ^ u = n div 2 ^ q mod 2 ^ u" by (simp add: power_add)
  finally show ?thesis by (simp add: fld_def)
qed

lemma add_div_high:
  assumes "fld p w n < 2 ^ w - 1" "p + w \<le> q"
  shows "(n + 2 ^ p) div 2 ^ q = n div 2 ^ q"
proof -
  obtain k where q: "q = p + (w + k)" using assms(2) by (metis add.assoc le_Suc_ex)
  have "(n + 2 ^ p) div 2 ^ q = (n div 2 ^ p + 1) div 2 ^ w div 2 ^ k"
    by (simp add: q power_add div_mult2_eq div_add_power)
  also have "(n div 2 ^ p + 1) div 2 ^ w = n div 2 ^ p div 2 ^ w"
    using assms(1) by (simp add: fld_def div_Suc mod_Suc)
  finally show ?thesis by (simp add: q power_add div_mult2_eq)
qed

lemma fld_add_high:
  assumes "fld p w n < 2 ^ w - 1" "p + w \<le> q"
  shows "fld q u (n + 2 ^ p) = fld q u n"
  using add_div_high [OF assms] by (simp add: fld_def)

lemmas fld_add = fld_add_same fld_add_low fld_add_high

lemma fld_add_bound:
  assumes "fld p w n < 2 ^ w - 1" "n < 2 ^ m" "p + w \<le> m"
  shows "n + 2 ^ p < 2 ^ m"
proof -
  have "(n + 2 ^ p) div 2 ^ m = n div 2 ^ m"
    using add_div_high [OF assms(1,3)] .
  then show ?thesis using assms(2) by (simp add: div_eq_0_iff)
qed

lemma state_mask_words: "(0x3ff :: u64) = mask 10" "(3 :: u64) = mask 2" "(push_bit 22 1 - 1 :: u64) = mask 22"
  by (simp_all add: mask_eq_exp_minus_1 push_bit_of_1)

lemma state_masks: "v AND 0x3ff = take_bit 10 v" "v AND 3 = take_bit 2 v" "v AND (push_bit 22 1 - 1) = take_bit 22 v"
  for v :: u64
  unfolding state_mask_words take_bit_eq_mask by (rule refl)+

lemma unat_take_drop: "unat (take_bit w (drop_bit p (v :: u64))) = fld p w (unat v)"
  unfolding fld_def unsigned_take_bit_eq unat_drop_bit_eq take_bit_eq_mod [where 'a = nat] drop_bit_eq_div [where 'a = nat]
  by (rule refl)

lemma count_fld: "journal_state_count v i = fld (24 + i * 10) 10 (unat v)"
  by (simp add: journal_state_count_def state_masks unat_take_drop)

lemma offset_fld: "journal_state_offset v = fld 0 22 (unat v)"
  using unat_take_drop [of 22 0 v] unfolding journal_state_offset_def state_masks by simp

lemma idx_fld: "journal_state_idx v = fld 22 2 (unat v)"
  unfolding journal_state_idx_def JOURNAL_STATE_BUF_MASK_def state_masks by (rule unat_take_drop)

lemma unat_push_1: "k < 64 \<Longrightarrow> unat (push_bit k 1 :: u64) = 2 ^ k"
  using unat_pow2 [where 'a = 64, of k] by (simp add: push_bit_eq_mult)

lemma unat_lt_64: "unat (v :: u64) < 2 ^ 64"
  using unsigned_less [where 'a = nat, of v] by simp

lemma state_inc_ok:
  assumes "i < 4" "journal_state_count v i < 0x3ff"
  shows "\<exists>v'. journal_state_inc v i = Some (Some v') \<and> journal_state_offset v' = journal_state_offset v \<and>
           journal_state_idx v' = journal_state_idx v \<and>
           (\<forall>k<4. journal_state_count v' k = journal_state_count v k + (if k = i then 1 else 0))"
proof -
  let ?p = "24 + i * 10"
  have c: "fld ?p 10 (unat v) < 2 ^ 10 - 1" using assms(2) by (simp add: count_fld)
  define x :: u64 where "x = push_bit ?p 1"
  have p: "unat x = 2 ^ ?p" unfolding x_def using assms(1) by (intro unat_push_1) simp
  have lt: "unat v + 2 ^ ?p < 2 ^ 64"
    using fld_add_bound [OF c unat_lt_64] assms(1) by simp
  have le: "checked_add v (x) = Some (v + x)" using lt p by (simp add: checked_add_Some)
  have u: "unat (v + x) = unat v + 2 ^ ?p" using lt p by (subst unat_add_lem [THEN iffD1]) simp_all
  have "journal_state_count (v + x) k = journal_state_count v k + (if k = i then 1 else 0)" for k
  proof (cases k i rule: linorder_cases)
    case less then have "24 + k * 10 + 10 \<le> ?p" by simp
    then show ?thesis using less by (simp add: count_fld u fld_add_low)
  next
    case equal then show ?thesis using fld_add_same [OF c] by (simp add: count_fld u)
  next
    case greater then have "?p + 10 \<le> 24 + k * 10" by simp
    then show ?thesis using greater fld_add_high [OF c] by (simp add: count_fld u)
  qed
  moreover have "journal_state_offset (v + x) = journal_state_offset v"
    "journal_state_idx (v + x) = journal_state_idx v"
    by (simp_all add: offset_fld idx_fld u fld_add_low)
  ultimately show ?thesis using assms(2) le by (simp add: journal_state_inc_def x_def [symmetric] del: push_bit_of_1)
qed

lemma state_inc_full: "journal_state_count v i = 0x3ff \<Longrightarrow> journal_state_inc v i = Some None"
  by (simp add: journal_state_inc_def)

lemma state_count_le: "journal_state_count v i \<le> 0x3ff"
proof -
  have "fld p 10 n < 2 ^ 10" for p n by (simp add: fld_def)
  from this [of "24 + i * 10" "unat v"] show ?thesis by (simp add: count_fld)
qed

lemma state_offset_less: "journal_state_offset v < 2 ^ 22"
  by (simp add: offset_fld fld_def)

lemma state_idx_less: "journal_state_idx v < 4"
  by (simp add: idx_fld fld_def)

lemma state_dec_ok:
  assumes "i < 4" "journal_state_count v i \<noteq> 0"
  shows "\<exists>v'. journal_state_dec v i = Some v' \<and> journal_state_offset v' = journal_state_offset v \<and>
           journal_state_idx v' = journal_state_idx v \<and>
           (\<forall>k<4. journal_state_count v' k = journal_state_count v k - (if k = i then 1 else 0))"
proof -
  let ?p = "24 + i * 10" and ?v = "v - push_bit (24 + i * 10) 1"
  have p: "unat (push_bit ?p 1 :: u64) = 2 ^ ?p" using assms(1) by (intro unat_push_1) simp
  have "unat v div 2 ^ ?p \<noteq> 0"
  proof
    assume "unat v div 2 ^ ?p = 0"
    then have "fld ?p 10 (unat v) = 0" by (simp only: fld_def) simp
    then show False using assms(2) by (simp add: count_fld)
  qed
  then have ge: "2 ^ ?p \<le> unat v" by (meson div_less not_le)
  have dec: "journal_state_dec v i = Some ?v"
    using assms(2) ge p by (simp add: journal_state_dec_def checked_sub_def word_le_nat_alt)
  have u: "unat v = unat ?v + 2 ^ ?p" using ge p by (simp add: unat_sub word_le_nat_alt)
  have "fld ?p 10 (unat ?v) \<noteq> 2 ^ 10 - 1"
  proof
    assume "fld ?p 10 (unat ?v) = 2 ^ 10 - 1"
    then have "fld ?p 10 (unat ?v + 2 ^ ?p) = 0" by (simp add: fld_def div_add_power mod_Suc)
    then show False using assms(2) u by (simp add: count_fld)
  qed
  then have lt: "journal_state_count ?v i < 0x3ff" using state_count_le [of ?v i] by (simp add: count_fld)
  have "journal_state_inc ?v i = Some (Some v)"
    using lt p ge u unat_lt_64 [of v] by (simp add: journal_state_inc_def checked_add_Some)
  with state_inc_ok [OF assms(1) lt] show ?thesis using dec by auto
qed

lemma not_bit_small: "unat w < 2 ^ k \<Longrightarrow> k \<le> n \<Longrightarrow> \<not> bit w n" for w :: "'a::len word"
proof -
  assume "unat w < 2 ^ k" "k \<le> n"
  then have "unat w < 2 ^ n" by (meson less_le_trans one_le_numeral power_increasing)
  then have "\<not> bit (unat w) n" by (simp add: bit_iff_odd)
  then show ?thesis by (auto simp: bit_unsigned_iff dest: bit_imp_le_length)
qed

lemma drop_bit_cong: "(\<And>m. n \<le> m \<Longrightarrow> bit a m \<longleftrightarrow> bit b m) \<Longrightarrow> drop_bit n a = drop_bit n b" for a b :: u64
  by (rule bit_word_eqI) (simp add: bit_drop_bit_eq)

lemma not_bit_nat: "i < 2 ^ k \<Longrightarrow> k \<le> n \<Longrightarrow> \<not> bit i n" for i :: nat
proof -
  assume "i < 2 ^ k" "k \<le> n"
  then have "i < 2 ^ n" by (meson less_le_trans one_le_numeral power_increasing)
  then show ?thesis by (simp add: bit_iff_odd)
qed

lemma state_set_offset:
  assumes "off < 2 ^ 22"
  shows "journal_state_offset (journal_state_set_offset v off) = off"
    "journal_state_idx (journal_state_set_offset v off) = journal_state_idx v"
    "journal_state_count (journal_state_set_offset v off) k = journal_state_count v k"
proof -
  have w: "journal_state_set_offset v off = (v AND NOT (mask 22)) OR of_nat off"
    unfolding journal_state_set_offset_def state_mask_words by (rule refl)
  have t: "take_bit 22 (journal_state_set_offset v off) = take_bit 22 (of_nat off)"
    unfolding w by (rule bit_word_eqI) (auto simp: bit_simps)
  show "journal_state_offset (journal_state_set_offset v off) = off"
    using assms unfolding journal_state_offset_def state_masks t
    by (simp add: unsigned_take_bit_eq unsigned_of_nat take_bit_nat_eq_self_iff)
  have d: "drop_bit n (journal_state_set_offset v off) = drop_bit n v" if "22 \<le> n" for n
    unfolding w using that not_bit_nat [OF assms]
    by (intro drop_bit_cong) (auto simp: bit_simps dest: bit_imp_le_length)
  show "journal_state_idx (journal_state_set_offset v off) = journal_state_idx v"
    "journal_state_count (journal_state_set_offset v off) k = journal_state_count v k"
    by (simp_all add: journal_state_idx_def journal_state_count_def d)
qed

lemma state_set_idx:
  assumes "i < 4"
  shows "journal_state_offset (journal_state_set_idx v i) = journal_state_offset v"
    "journal_state_idx (journal_state_set_idx v i) = i"
    "journal_state_count (journal_state_set_idx v i) k = journal_state_count v k"
proof -
  have i: "i < 2 ^ 2" using assms by simp
  have w: "journal_state_set_idx v i = (v AND NOT (push_bit 22 (mask 2))) OR push_bit 22 (of_nat i)"
    unfolding journal_state_set_idx_def JOURNAL_STATE_BUF_MASK_def state_mask_words by (rule refl)
  have "take_bit 2 (drop_bit 22 (journal_state_set_idx v i)) = take_bit 2 (of_nat i)"
    unfolding w by (rule bit_word_eqI) (auto simp: bit_simps)
  then show "journal_state_idx (journal_state_set_idx v i) = i"
    using assms by (simp add: journal_state_idx_def code_consts state_masks unsigned_take_bit_eq unsigned_of_nat take_bit_nat_eq_self_iff)
  have t: "take_bit 22 (journal_state_set_idx v i) = take_bit 22 v"
    unfolding w by (rule bit_word_eqI) (auto simp: bit_simps)
  show "journal_state_offset (journal_state_set_idx v i) = journal_state_offset v"
    unfolding journal_state_offset_def state_masks t by (rule refl)
  have "drop_bit (24 + n) (journal_state_set_idx v i) = drop_bit (24 + n) v" for n
    unfolding w using not_bit_nat [OF i]
    by (intro drop_bit_cong) (auto simp: bit_simps dest: bit_imp_le_length)
  then show "journal_state_count (journal_state_set_idx v i) k = journal_state_count v k"
    by (simp add: journal_state_count_def)
qed

lemma state_fresh:
  assumes "i < 4"
  shows "journal_state_offset (journal_state_fresh i) = 0" "journal_state_idx (journal_state_fresh i) = i"
    "k < 4 \<Longrightarrow> journal_state_count (journal_state_fresh i) k = (if k = i then 1 else 0)"
proof -
  have z: "journal_state_count 0 k = 0" "journal_state_offset 0 = 0" for k
    by (simp_all add: journal_state_count_def journal_state_offset_def)
  have inc: "journal_state_inc (journal_state_set_idx 0 i) i = Some (Some (journal_state_fresh i))"
  proof -
    have b: "\<not> bit (of_nat i :: u64) n" if "2 \<le> n" for n
      using assms that by (intro not_bit_small [of _ 2]) (simp_all add: unat_of_nat_small)
    have "push_bit 22 (of_nat i) + push_bit (24 + i * 10) 1 = (push_bit 22 (of_nat i) OR push_bit (24 + i * 10) 1 :: u64)"
      using b by (intro disjunctive_add_eq_or bit_word_eqI) (auto simp: bit_simps)
    then have "journal_state_set_idx 0 i + push_bit (24 + i * 10) 1 = journal_state_fresh i"
      by (simp add: journal_state_set_idx_def journal_state_fresh_def)
    then show ?thesis using state_inc_ok [OF assms, of "journal_state_set_idx 0 i"] state_set_idx [OF assms, of 0] z
      by (auto simp: journal_state_inc_def checked_add_def split: if_splits)
  qed
  then show "journal_state_offset (journal_state_fresh i) = 0" "journal_state_idx (journal_state_fresh i) = i"
    "k < 4 \<Longrightarrow> journal_state_count (journal_state_fresh i) k = (if k = i then 1 else 0)"
    using state_inc_ok [OF assms, of "journal_state_set_idx 0 i"] state_set_idx [OF assms, of 0] z by auto
qed

section \<open>Entries and holes\<close>

text \<open>The words from \<open>p\<close> to \<open>e\<close> are complete entries, and holes reserved but not written yet.\<close>

inductive tiled :: "u64 list \<Rightarrow> (nat \<times> nat) list \<Rightarrow> nat \<Rightarrow> nat \<Rightarrow> bool" for data where
  tiled_end: "tiled data [] p p"
| tiled_hole: "0 < n \<Longrightarrow> tiled data hs (p + n) e \<Longrightarrow> tiled data ((p, n) # hs) p e"
| tiled_entry: "p < length data \<Longrightarrow> tiled data hs (p + jset_u64s (entry_u64s (data ! p))) e \<Longrightarrow> tiled data hs p e"

lemmas tiled_intros = tiled.intros

definition in_hole :: "nat \<Rightarrow> nat \<times> nat \<Rightarrow> bool" where
  "in_hole i h \<longleftrightarrow> fst h \<le> i \<and> i < fst h + snd h"

lemma jset_u64s_pos [simp]: "0 < jset_u64s n"
  by (simp add: jset_u64s_def code_consts)

lemma tiled_le: "tiled data hs p e \<Longrightarrow> p \<le> e"
  by (induction rule: tiled.induct) auto

lemma tiled_holes: "tiled data hs p e \<Longrightarrow> h \<in> set hs \<Longrightarrow> p \<le> fst h \<and> 0 < snd h \<and> fst h + snd h \<le> e"
  by (induction rule: tiled.induct) (auto dest: tiled_le)

lemma tiled_disjoint:
  "tiled data hs p e \<Longrightarrow> sorted_wrt (\<lambda>h h'. fst h + snd h \<le> fst h') hs"
  by (induction rule: tiled.induct) (auto dest: tiled_holes)

lemma tiled_frame:
  assumes "tiled data hs p e" "length data' = length data"
    and "\<And>i. p \<le> i \<Longrightarrow> i < e \<Longrightarrow> \<forall>h\<in>set hs. \<not> in_hole i h \<Longrightarrow> data' ! i = data ! i"
  shows "tiled data' hs p e"
  using assms
proof (induction rule: tiled.induct)
  case (tiled_hole n hs p e)
  have "data' ! i = data ! i" if "p + n \<le> i" "i < e" "\<forall>h\<in>set hs. \<not> in_hole i h" for i
    using that tiled_hole.prems(2) [of i] by (auto simp: in_hole_def)
  then have "tiled data' hs (p + n) e" by (rule tiled_hole.IH [OF tiled_hole.prems(1)])
  then show ?case by (rule tiled.tiled_hole [OF tiled_hole.hyps(1)])
next
  case (tiled_entry p hs e)
  define q where "q = p + jset_u64s (entry_u64s (data ! p))"
  have q: "p < q" by (simp add: q_def)
  note t = tiled_entry.hyps(2) [folded q_def]
  have "data' ! p = data ! p"
    using tiled_le [OF t] q tiled_holes [OF t] by (intro tiled_entry.prems(2)) (fastforce simp: in_hole_def)+
  moreover have "tiled data' hs q e"
    using q by (intro tiled_entry.IH [folded q_def] tiled_entry.prems) auto
  ultimately show ?case
    using tiled_entry.hyps(1) tiled_entry.prems(1) by - (rule tiled.tiled_entry, simp_all add: q_def)
qed (auto intro: tiled_intros)

lemma tiled_trans: "tiled data hs p q \<Longrightarrow> tiled data hs' q e \<Longrightarrow> tiled data (hs @ hs') p e"
  by (induction rule: tiled.induct) (auto intro: tiled_intros)

lemma tiled_append_hole: "tiled data hs p e \<Longrightarrow> 0 < n \<Longrightarrow> tiled data (hs @ [(e, n)]) p (e + n)"
  by (erule tiled_trans) (auto intro: tiled_intros)

lemma tiled_split:
  assumes "tiled data (hs1 @ (q, m) # hs2) p e"
  shows "tiled data hs1 p q \<and> 0 < m \<and> tiled data hs2 (q + m) e"
proof -
  have "tiled data hs p e \<Longrightarrow> hs = hs1 @ (q, m) # hs2 \<Longrightarrow> tiled data hs1 p q \<and> 0 < m \<and> tiled data hs2 (q + m) e" for hs
    by (induction arbitrary: hs1 rule: tiled.induct) (auto simp: Cons_eq_append_conv intro: tiled_intros)
  with assms show ?thesis by blast
qed

definition hole :: "nat \<Rightarrow> nat \<Rightarrow> (nat \<times> nat) list" where
  "hole q m = (if m = 0 then [] else [(q, m)])"

lemma tiled_hole_list: "tiled data hs (q + m) e \<Longrightarrow> tiled data (hole q m @ hs) q e"
  by (auto simp: hole_def intro: tiled_intros)

text \<open>An entry written at the front of a hole shrinks the hole.\<close>

lemma tiled_fill:
  assumes "tiled data (hs1 @ (q, m) # hs2) p e" "length data' = length data"
    and "\<And>i. \<not> in_hole i (q, m) \<Longrightarrow> data' ! i = data ! i"
    and "jset_u64s (entry_u64s (data' ! q)) = k" "k \<le> m" "q + k \<le> length data"
  shows "tiled data' (hs1 @ hole (q + k) (m - k) @ hs2) p e"
proof -
  have s: "tiled data hs1 p q" "tiled data hs2 (q + m) e" using tiled_split [OF assms(1)] by auto
  have k: "0 < k" using assms(4) by auto
  have "tiled data' hs1 p q" by (rule tiled_frame [OF s(1) assms(2)]) (rule assms(3), simp add: in_hole_def)
  moreover have "tiled data' hs2 (q + m) e" by (rule tiled_frame [OF s(2) assms(2)]) (rule assms(3), simp add: in_hole_def)
  then have "tiled data' hs2 (q + k + (m - k)) e" using assms(5) by simp
  then have "tiled data' (hole (q + k) (m - k) @ hs2) (q + k) e" by (rule tiled_hole_list)
  then have "tiled data' (hole (q + k) (m - k) @ hs2) q e"
    using assms(2,6) k by - (rule tiled_entry, simp_all add: assms(4))
  ultimately show ?thesis by (rule tiled_trans)
qed

text \<open>Words that are complete entries.\<close>

function entries_ok :: "u64 list \<Rightarrow> bool" where
  "entries_ok [] = True"
| "entries_ok (w # ws) = (entry_u64s w \<le> length ws \<and> entries_ok (drop (entry_u64s w) ws))"
  by pat_completeness auto
termination by (relation "measure length") auto

lemma entries_ok_append: "entries_ok xs \<Longrightarrow> entries_ok ys \<Longrightarrow> entries_ok (xs @ ys)"
  by (induction xs rule: entries_ok.induct) auto

lemma tiled_entries:
  assumes "tiled data [] p e" "e \<le> length data"
  shows "entries_ok (drop p (take e data))"
proof -
  have "tiled data hs p e \<Longrightarrow> hs = [] \<Longrightarrow> e \<le> length data \<Longrightarrow> entries_ok (drop p (take e data))" for hs
  proof (induction rule: tiled.induct)
    case (tiled_entry p hs e)
    have le: "p + jset_u64s (entry_u64s (data ! p)) \<le> e" by (rule tiled_le [OF tiled_entry.hyps(2)])
    then have "drop p (take e data) = data ! p # drop (Suc p) (take e data)"
      using tiled_entry by (subst Cons_nth_drop_Suc [symmetric]) (auto simp: jset_u64s_def code_consts)
    then show ?case using tiled_entry le by (auto simp: jset_u64s_def code_consts add.commute)
  qed auto
  with assms show ?thesis by blast
qed

section \<open>Outstanding reservations\<close>

definition res_holes :: "journal_res list \<Rightarrow> (nat \<times> nat) list" where
  "res_holes rs = concat (map (\<lambda>r. hole (r_offset r) (r_u64s r)) rs)"

abbreviation open_idx :: "journal \<Rightarrow> nat" where
  "open_idx j \<equiv> j_seq j mod JOURNAL_STATE_BUF_NR"

definition open_data :: "journal \<Rightarrow> u64 list" where
  "open_data j = jb_data (j_ring j ! open_idx j)"

text \<open>The open entry and the buckets of the device fit the buffers in memory.\<close>

definition small_buckets :: "journal \<Rightarrow> bool" where
  "small_buckets j \<longleftrightarrow> fst (journal_geometry j) \<le> 2048 \<and> ja_sectors_free (j_device j) \<le> 2048"

definition ring_ok :: "journal \<Rightarrow> bool" where
  "ring_ok j \<longleftrightarrow> length (j_ring j) = JOURNAL_STATE_BUF_NR \<and>
     (\<forall>b\<in>set (j_ring j). length (jb_data b) = 131072) \<and> jb_seq (j_ring j ! open_idx j) = j_seq j"

definition word_ok :: "journal \<Rightarrow> nat \<Rightarrow> bool" where
  "word_ok j n \<longleftrightarrow> journal_state_idx (j_reservations j) = open_idx j \<and>
     (\<forall>k<4. journal_state_count (j_reservations j) k = (if k = open_idx j then n else 0)) \<and>
     journal_state_offset (j_reservations j) \<le> j_cur_entry_u64s j \<and> j_cur_entry_u64s j \<le> 131065"

definition res_ok :: "journal \<Rightarrow> journal_res list \<Rightarrow> bool" where
  "res_ok j rs \<longleftrightarrow> (\<forall>r\<in>set rs. r_ref r \<and> r_seq r = j_seq j \<and> r_u64s r < 2 ^ 16) \<and>
     (\<exists>hs. tiled (open_data j) hs 0 (journal_state_offset (j_reservations j)) \<and> mset (res_holes rs) = mset hs)"

definition journal_inv :: "journal \<Rightarrow> journal_res list \<Rightarrow> bool" where
  "journal_inv j rs \<longleftrightarrow> 0 < j_seq j \<and> ring_ok j \<and> word_ok j (1 + length rs) \<and> res_ok j rs \<and> small_buckets j"

lemma open_idx_less: "open_idx j < 4"
  by (simp add: code_consts)

lemma length_open_data: "ring_ok j \<Longrightarrow> length (open_data j) = 131072"
  by (auto simp: ring_ok_def open_data_def code_consts)

lemma res_holes_update:
  assumes "i < length rs" "0 < r_u64s (rs ! i)"
  shows "mset (res_holes rs) = mset (res_holes (take i rs @ drop (Suc i) rs)) + {#(r_offset (rs ! i), r_u64s (rs ! i))#}"
    "mset (res_holes (rs[i := r])) = mset (res_holes (take i rs @ drop (Suc i) rs)) + mset (hole (r_offset r) (r_u64s r))"
proof -
  have "res_holes rs = res_holes (take i rs @ rs ! i # drop (Suc i) rs)"
    using id_take_nth_drop [OF assms(1)] by (rule arg_cong)
  also have "mset \<dots> = mset (res_holes (take i rs @ drop (Suc i) rs)) + {#(r_offset (rs ! i), r_u64s (rs ! i))#}"
    using assms(2) by (simp add: res_holes_def hole_def)
  finally show "mset (res_holes rs) = mset (res_holes (take i rs @ drop (Suc i) rs)) + {#(r_offset (rs ! i), r_u64s (rs ! i))#}" .
  show "mset (res_holes (rs[i := r])) = mset (res_holes (take i rs @ drop (Suc i) rs)) + mset (hole (r_offset r) (r_u64s r))"
    using assms(1) by (simp add: upd_conv_take_nth_drop res_holes_def)
qed

text \<open>Writing an entry at the front of a reservation.\<close>

lemma res_fill:
  assumes inv: "res_ok j rs" and i: "i < length rs" and m: "0 < r_u64s (rs ! i)"
    and data: "length data = length (open_data j)"
      "\<And>k. \<not> in_hole k (r_offset (rs ! i), r_u64s (rs ! i)) \<Longrightarrow> data ! k = open_data j ! k"
    and k: "jset_u64s (entry_u64s (data ! r_offset (rs ! i))) = k" "k \<le> r_u64s (rs ! i)"
      "r_offset (rs ! i) + k \<le> length data"
    and j': "open_data j' = data" "j_reservations j' = j_reservations j" "j_seq j' = j_seq j"
  shows "res_ok j' (rs[i := (rs ! i)\<lparr>r_offset := r_offset (rs ! i) + k, r_u64s := r_u64s (rs ! i) - k\<rparr>])"
proof -
  define q where "q = r_offset (rs ! i)"
  define n where "n = r_u64s (rs ! i)"
  let ?off = "journal_state_offset (j_reservations j)"
  obtain hs where hs: "tiled (open_data j) hs 0 ?off" "mset (res_holes rs) = mset hs"
    using inv by (auto simp: res_ok_def)
  have mem: "(q, n) \<in># mset hs" using res_holes_update(1) [OF i m] hs(2) by (simp add: q_def n_def)
  then obtain hs1 hs2 where s: "hs = hs1 @ (q, n) # hs2" by (auto simp: in_set_conv_decomp)
  have t: "tiled data (hs1 @ hole (q + k) (n - k) @ hs2) 0 ?off"
    using hs(1) data k unfolding s q_def n_def by (intro tiled_fill [where data = "open_data j"]) auto
  have "mset hs1 + mset hs2 = mset (res_holes (take i rs @ drop (Suc i) rs))"
    using res_holes_update(1) [OF i m] hs(2) by (simp add: s q_def n_def)
  then have "mset (hs1 @ hole (q + k) (n - k) @ hs2) =
      mset (res_holes (rs[i := (rs ! i)\<lparr>r_offset := q + k, r_u64s := n - k\<rparr>]))"
    using res_holes_update(2) [OF i m, of "(rs ! i)\<lparr>r_offset := q + k, r_u64s := n - k\<rparr>"] by (simp add: ac_simps)
  moreover have "\<forall>r\<in>set (rs[i := (rs ! i)\<lparr>r_offset := q + k, r_u64s := n - k\<rparr>]). r_ref r \<and> r_seq r = j_seq j \<and> r_u64s r < 2 ^ 16"
  proof
    fix r assume "r \<in> set (rs[i := (rs ! i)\<lparr>r_offset := q + k, r_u64s := n - k\<rparr>])"
    then have "r = (rs ! i)\<lparr>r_offset := q + k, r_u64s := n - k\<rparr> \<or> r \<in> set rs"
      using set_update_subset_insert by fast
    then show "r_ref r \<and> r_seq r = j_seq j \<and> r_u64s r < 2 ^ 16"
      using inv nth_mem [OF i] by (auto simp: res_ok_def n_def intro: le_less_trans [OF diff_le_self])
  qed
  ultimately show ?thesis using t j' by (auto simp: res_ok_def q_def n_def)
qed

lemma entry_u64s_word: "n < 2 ^ 16 \<Longrightarrow> entry_u64s (jset_entry_word n b l ty) = n"
proof -
  assume n: "n < 2 ^ 16"
  have m: "(0xffff :: u64) = mask 16" by (simp add: mask_eq_exp_minus_1)
  have "take_bit 16 (jset_entry_word n b l ty) = take_bit 16 (of_nat n)"
    unfolding jset_entry_word_def by (rule bit_word_eqI) (auto simp: bit_simps)
  then show ?thesis
    using n unfolding entry_u64s_def m take_bit_eq_mask [symmetric]
    by (simp add: unsigned_take_bit_eq unsigned_of_nat take_bit_nat_eq_self_iff)
qed

definition set_open :: "journal \<Rightarrow> u64 list \<Rightarrow> journal" where
  "set_open j data = j\<lparr>j_ring := (j_ring j)[open_idx j := (j_ring j ! open_idx j)\<lparr>jb_data := data\<rparr>]\<rparr>"

lemma set_open_simps [simp]:
  "j_reservations (set_open j data) = j_reservations j" "j_seq (set_open j data) = j_seq j"
  "j_cur_entry_u64s (set_open j data) = j_cur_entry_u64s j" "j_device (set_open j data) = j_device j"
  "j_disk_sb (set_open j data) = j_disk_sb j"
  by (simp_all add: set_open_def)

lemma set_open_ring:
  assumes "ring_ok j"
  shows "open_data (set_open j data) = data" "ring_set_data j (open_idx j) data = Some (set_open j data)"
    "open_idx j < length (j_ring j)" "jb_data (j_ring (set_open j data) ! open_idx j) = data"
    "set_open (set_open j data) data' = set_open j data'"
    "length data = 131072 \<Longrightarrow> ring_ok (set_open j data)"
proof -
  show l: "open_idx j < length (j_ring j)" using assms open_idx_less [of j] by (simp add: ring_ok_def code_consts)
  then show "open_data (set_open j data) = data" "jb_data (j_ring (set_open j data) ! open_idx j) = data"
    by (simp_all add: open_data_def set_open_def)
  show "ring_set_data j (open_idx j) data = Some (set_open j data)"
    using l by (simp add: ring_set_data_def set_open_def nth_opt_in_range upd_opt_in_range)
  show "set_open (set_open j data) data' = set_open j data'" using l by (simp add: set_open_def)
  show "ring_ok (set_open j data)" if "length data = 131072"
    using assms l that by (auto simp: ring_ok_def set_open_def dest!: set_update_subset_insert [THEN subsetD])
qed

lemma journal_inv_set_open:
  assumes "journal_inv j rs" "length data = 131072" "res_ok (set_open j data) rs'" "length rs' = length rs"
  shows "journal_inv (set_open j data) rs'"
  using assms set_open_ring(6) [of j data]
  by (auto simp: journal_inv_def word_ok_def small_buckets_def journal_geometry_def)

lemma res_bounds:
  assumes "res_ok j rs" "i < length rs" "0 < r_u64s (rs ! i)"
  shows "r_offset (rs ! i) + r_u64s (rs ! i) \<le> journal_state_offset (j_reservations j)"
proof -
  obtain hs where hs: "tiled (open_data j) hs 0 (journal_state_offset (j_reservations j))" "mset (res_holes rs) = mset hs"
    using assms(1) by (auto simp: res_ok_def)
  have "(r_offset (rs ! i), r_u64s (rs ! i)) \<in># mset hs"
    using res_holes_update(1) [OF assms(2,3)] hs(2) by simp
  then show ?thesis using tiled_holes [OF hs(1)] by fastforce
qed

text \<open>An entry that fits its reservation is written into it.\<close>

definition res_used :: "journal_res \<Rightarrow> nat \<Rightarrow> journal_res" where
  "res_used r k = r\<lparr>r_offset := r_offset r + k, r_u64s := r_u64s r - k\<rparr>"

lemma add_entry_eq:
  assumes inv: "journal_inv j rs" and i: "i < length rs" and n: "n + 1 \<le> r_u64s (rs ! i)"
  shows "bch2_journal_add_entry j (rs ! i) ty b l n =
     Some ((open_idx j, r_offset (rs ! i)), res_used (rs ! i) (n + 1),
           set_open j ((open_data j)[r_offset (rs ! i) := jset_entry_word n b l ty]))"
proof -
  have ring: "ring_ok j" and ok: "res_ok j rs" and w: "word_ok j (1 + length rs)" using inv by (auto simp: journal_inv_def)
  have r: "r_ref (rs ! i)" "r_seq (rs ! i) = j_seq j" "r_u64s (rs ! i) < 2 ^ 16"
    using ok nth_mem [OF i] by (auto simp: res_ok_def)
  have "r_offset (rs ! i) + r_u64s (rs ! i) \<le> 131065"
    using res_bounds [OF ok i] n w by (auto simp: word_ok_def)
  then have q: "r_offset (rs ! i) < length (open_data j)" using n length_open_data [OF ring] by simp
  show ?thesis
    using r n q set_open_ring [OF ring] length_open_data [OF ring] \<open>r_offset (rs ! i) + r_u64s (rs ! i) \<le> 131065\<close>
    by (simp add: bch2_journal_add_entry_def journal_res_entry_def journal_entry_init_def upd_opt_in_range nth_opt_in_range res_used_def
        open_data_def [symmetric] JSET_KEYS_U64s_def del: upd_opt_Some)
qed

lemma add_words_ok:
  assumes inv: "journal_inv j rs" and i: "i < length rs" and n: "length ws + 1 \<le> r_u64s (rs ! i)"
  shows "\<exists>data. journal_add_words j (rs ! i) ty b l ws = Some (res_used (rs ! i) (length ws + 1), set_open j data) \<and>
     journal_inv (set_open j data) (rs[i := res_used (rs ! i) (length ws + 1)]) \<and>
     data ! r_offset (rs ! i) = jset_entry_word (length ws) b l ty \<and>
     take (length ws) (drop (r_offset (rs ! i) + 1) data) = ws \<and>
     (\<forall>k. \<not> in_hole k (r_offset (rs ! i), length ws + 1) \<longrightarrow> data ! k = open_data j ! k)"
proof -
  define q where "q = r_offset (rs ! i)"
  define w where "w = jset_entry_word (length ws) b l ty"
  define d where "d = (open_data j)[q := w]"
  define data where "data = take (q + 1) d @ ws @ drop (q + 1 + length ws) d"
  have ring: "ring_ok j" and ok: "res_ok j rs" and wd: "word_ok j (1 + length rs)" using inv by (auto simp: journal_inv_def)
  have m: "r_u64s (rs ! i) < 2 ^ 16" using ok nth_mem [OF i] by (auto simp: res_ok_def)
  have q: "q + r_u64s (rs ! i) \<le> 131065"
    using res_bounds [OF ok i] n wd unfolding q_def by (auto simp: word_ok_def)
  have ld: "length d = 131072" using length_open_data [OF ring] by (simp add: d_def)
  have ring_d: "ring_ok (set_open j d)" using set_open_ring(6) [OF ring ld] .
  have len: "length data = 131072" using q n ld by (simp add: data_def)
  have eq: "journal_add_words j (rs ! i) ty b l ws = Some (res_used (rs ! i) (length ws + 1), set_open j data)"
    using q n ld set_open_ring [OF ring] set_open_ring [OF ring_d] unfolding journal_add_words_def add_entry_eq [OF inv i n]
    by (simp add: q_def [symmetric] w_def [symmetric] d_def [symmetric] write_words_def nth_opt_in_range data_def)
  have dq: "data ! q = w" using q n ld by (simp add: data_def nth_append d_def)
  have out: "data ! k = open_data j ! k" if "\<not> in_hole k (q, length ws + 1)" for k
    using that q n ld by (auto simp: data_def nth_append in_hole_def d_def min_def)
  have ws: "take (length ws) (drop (q + 1) data) = ws" using q n ld by (simp add: data_def)
  have "res_ok (set_open j data) (rs[i := res_used (rs ! i) (length ws + 1)])"
    unfolding res_used_def
  proof (rule res_fill [OF ok i])
    show "jset_u64s (entry_u64s (data ! r_offset (rs ! i))) = length ws + 1"
      using n m unfolding q_def [symmetric] dq w_def by (subst entry_u64s_word) (simp_all add: jset_u64s_def code_consts)
    show "data ! k = open_data j ! k" if "\<not> in_hole k (r_offset (rs ! i), r_u64s (rs ! i))" for k
      using that n by (intro out) (auto simp: in_hole_def q_def)
  qed (use n q len length_open_data [OF ring] set_open_ring(1) [OF ring] in \<open>simp_all add: q_def\<close>)
  then have "journal_inv (set_open j data) (rs[i := res_used (rs ! i) (length ws + 1)])"
    by (intro journal_inv_set_open [OF inv len]) simp_all
  with eq dq out ws show ?thesis by (auto simp: q_def w_def)
qed

lemma tiled_append: "tiled data hs p e \<Longrightarrow> tiled data (hs @ hole e n) p (e + n)"
  by (auto simp: hole_def intro: tiled_append_hole)

definition res_fits :: "journal \<Rightarrow> nat \<Rightarrow> u32 \<Rightarrow> bool" where
  "res_fits j n flags \<longleftrightarrow> journal_state_offset (j_reservations j) + n \<le> j_cur_entry_u64s j \<and>
     j_watermark j \<le> unat (flags AND BCH_WATERMARK_MASK) \<and>
     journal_state_count (j_reservations j) (open_idx j) < 0x3ff"

lemma res_get_fast_ok:
  assumes inv: "journal_inv j rs" and n: "r_u64s res < 2 ^ 16"
  shows "if res_fits j (r_u64s res) flags
     then \<exists>res' v. journal_res_get_fast j res flags = Some (True, res', j\<lparr>j_reservations := v\<rparr>) \<and>
            journal_inv (j\<lparr>j_reservations := v\<rparr>) (rs @ [res']) \<and> r_u64s res' = r_u64s res \<and>
            r_offset res' = journal_state_offset (j_reservations j)
     else journal_res_get_fast j res flags = Some (False, res, j)"
proof -
  let ?v = "j_reservations j" and ?i = "open_idx j"
  define off where "off = journal_state_offset ?v"
  have ring: "ring_ok j" and ok: "res_ok j rs" and w: "word_ok j (1 + length rs)" using inv by (auto simp: journal_inv_def)
  have i: "?i < 4" by (rule open_idx_less)
  have c: "journal_state_count ?v ?i = 1 + length rs" "journal_state_idx ?v = ?i" using w i by (auto simp: word_ok_def)
  note eqs = journal_res_get_fast_def c(2) Let_def off_def [symmetric]
  show ?thesis
  proof (cases "res_fits j (r_u64s res) flags")
    case False
    then consider "j_cur_entry_u64s j < off + r_u64s res" | "unat (flags AND BCH_WATERMARK_MASK) < j_watermark j"
      | "journal_state_count ?v ?i = 0x3ff"
      using state_count_le [of ?v ?i] unfolding res_fits_def off_def by linarith
    then show ?thesis using False c(1) by cases (auto simp: eqs state_inc_full)
  next
    case True
    then have f: "off + r_u64s res \<le> j_cur_entry_u64s j" "\<not> unat (flags AND BCH_WATERMARK_MASK) < j_watermark j"
      "journal_state_count ?v ?i < 0x3ff" by (auto simp: res_fits_def off_def)
    obtain v1 where v1: "journal_state_inc ?v ?i = Some (Some v1)" "journal_state_idx v1 = ?i"
      "\<forall>k<4. journal_state_count v1 k = journal_state_count ?v k + (if k = ?i then 1 else 0)"
      using state_inc_ok [OF i f(3)] c(2) by auto
    define v where "v = journal_state_set_offset v1 (off + r_u64s res)"
    have lt: "off + r_u64s res < 2 ^ 22" using f(1) w by (simp add: word_ok_def)
    note v = state_set_offset [OF lt, of v1, folded v_def]
    define res' where "res' = res\<lparr>r_ref := True, r_offset := off, r_seq := j_seq j,
      r_has_overwrites := jb_has_overwrites (j_ring j ! ?i)\<rparr>"
    have seq: "?i \<le> j_seq j" "j_seq j - (j_seq j - ?i) mod JOURNAL_STATE_BUF_NR = j_seq j"
      by (simp_all add: code_consts minus_mod_eq_mult_div)
    have eq: "journal_res_get_fast j res flags = Some (True, res', j\<lparr>j_reservations := v\<rparr>)"
      using f(1,2) v1(1) c(1) seq set_open_ring(3) [OF ring] ring
      by (simp add: eqs nth_opt_in_range v_def [symmetric] res'_def ring_ok_def)
    obtain hs where hs: "tiled (open_data j) hs 0 off" "mset (res_holes rs) = mset hs"
      using ok by (auto simp: res_ok_def off_def)
    have "res_ok (j\<lparr>j_reservations := v\<rparr>) (rs @ [res'])"
      using ok n tiled_append [OF hs(1), of "r_u64s res"] hs(2) v(1)
      by (auto simp: res_ok_def res'_def open_data_def res_holes_def intro!: exI [of _ "hs @ hole off (r_u64s res)"])
    moreover have "word_ok (j\<lparr>j_reservations := v\<rparr>) (1 + length (rs @ [res']))"
      using w f(1) v v1(2,3) by (simp add: word_ok_def)
    ultimately have "journal_inv (j\<lparr>j_reservations := v\<rparr>) (rs @ [res'])"
      using inv by (simp add: journal_inv_def ring_ok_def small_buckets_def journal_geometry_def)
    with True eq show ?thesis by (auto simp: res'_def off_def)
  qed
qed

text \<open>Returning a reservation fills what is left of it with empty entries.\<close>

lemma res_put_fill_ok:
  assumes "journal_inv j rs" "i < length rs"
  shows "\<exists>data res'. res_put_fill j (rs ! i) = Some (res', set_open j data) \<and> r_u64s res' = 0 \<and>
     r_seq res' = j_seq j \<and> journal_inv (set_open j data) (rs[i := res'])"
  using assms
proof (induction "r_u64s (rs ! i)" arbitrary: j rs)
  case 0
  have "set_open j (open_data j) = j"
    by (simp add: set_open_def open_data_def)
  moreover have "r_seq (rs ! i) = j_seq j" using 0 by (auto simp: journal_inv_def res_ok_def)
  ultimately show ?case using 0 by (intro exI [of _ "open_data j"] exI [of _ "rs ! i"]) (simp add: res_put_fill.simps)
next
  case (Suc n)
  define r where "r = res_used (rs ! i) 1"
  have n: "0 + 1 \<le> r_u64s (rs ! i)" using Suc(2) by simp
  obtain data where data: "journal_inv (set_open j data) (rs[i := r])"
    "journal_add_words j (rs ! i) BCH_JSET_ENTRY_btree_keys 0 0 [] = Some (r, set_open j data)"
    using add_words_ok [OF Suc.prems, of "[]" BCH_JSET_ENTRY_btree_keys 0 0] n by (auto simp: r_def)
  have ring: "ring_ok j" using Suc.prems by (simp add: journal_inv_def)
  have eq: "bch2_journal_add_entry j (rs ! i) BCH_JSET_ENTRY_btree_keys 0 0 0 =
      Some ((open_idx j, r_offset (rs ! i)), r, set_open j data)"
  proof -
    let ?d = "(open_data j)[r_offset (rs ! i) := jset_entry_word 0 0 0 BCH_JSET_ENTRY_btree_keys]"
    have "ring_ok (set_open j ?d)" using set_open_ring(6) [OF ring] length_open_data [OF ring] by simp
    note rd = set_open_ring [OF this]
    have "set_open j data = set_open j ?d"
      using data(2) rd unfolding journal_add_words_def add_entry_eq [OF Suc.prems n]
      by (auto simp: nth_opt_in_range write_words_def set_open_ring [OF ring] add_entry_eq [OF Suc.prems n] del: list_update_nonempty)
    then show ?thesis unfolding add_entry_eq [OF Suc.prems n] by (simp add: r_def)
  qed
  have "n = r_u64s (rs[i := r] ! i)" using Suc(2) Suc.prems(2) by (simp add: r_def res_used_def)
  from Suc(1) [OF this data(1)] Suc.prems(2) obtain data' res' where
    "res_put_fill (set_open j data) r = Some (res', set_open (set_open j data) data')" "r_u64s res' = 0"
    "r_seq res' = j_seq j" "journal_inv (set_open (set_open j data) data') (rs[i := r, i := res'])" by auto
  moreover have "res_put_fill j (rs ! i) = res_put_fill (set_open j data) r"
    using Suc(2) eq by (subst res_put_fill.simps) simp
  ultimately show ?case using set_open_ring(5) [OF ring] by (auto simp: list_update_overwrite)
qed

lemma res_ok_drop:
  assumes "res_ok j rs" "i < length rs" "r_u64s (rs ! i) = 0"
  shows "res_ok j (take i rs @ drop (Suc i) rs)"
proof -
  have "res_holes rs = res_holes (take i rs @ rs ! i # drop (Suc i) rs)"
    using id_take_nth_drop [OF assms(2)] by (rule arg_cong)
  then have "res_holes rs = res_holes (take i rs @ drop (Suc i) rs)"
    using assms(3) by (simp add: res_holes_def hole_def)
  with assms(1) show ?thesis by (auto simp: res_ok_def dest: in_set_takeD in_set_dropD)
qed

lemma res_put_ok:
  assumes inv: "journal_inv j rs" and i: "i < length rs"
  shows "\<exists>res' j'. bch2_journal_res_put j (rs ! i) = Some (res', j') \<and> \<not> r_ref res' \<and>
     journal_inv j' (take i rs @ drop (Suc i) rs)"
proof -
  obtain data res' where d: "res_put_fill j (rs ! i) = Some (res', set_open j data)" "r_u64s res' = 0"
    "r_seq res' = j_seq j" "journal_inv (set_open j data) (rs[i := res'])"
    using res_put_fill_ok [OF inv i] by blast
  let ?j = "set_open j data"
  have w: "word_ok ?j (1 + length rs)" and ok: "res_ok ?j (rs[i := res'])" using d(4) by (auto simp: journal_inv_def)
  have "journal_state_count (j_reservations ?j) (open_idx j) \<noteq> 0" using w open_idx_less [of j] by (simp add: word_ok_def)
  from state_dec_ok [OF open_idx_less this] obtain v where v: "journal_state_dec (j_reservations ?j) (open_idx j) = Some v"
    "journal_state_offset v = journal_state_offset (j_reservations ?j)"
    "journal_state_idx v = journal_state_idx (j_reservations ?j)"
    "\<forall>k<4. journal_state_count v k = journal_state_count (j_reservations ?j) k - (if k = open_idx j then 1 else 0)"
    by blast
  have "r_ref (rs ! i)" using inv i by (auto simp: journal_inv_def res_ok_def)
  then have eq: "bch2_journal_res_put j (rs ! i) = Some (res'\<lparr>r_ref := False\<rparr>, ?j\<lparr>j_reservations := v\<rparr>)"
    using d(1,3) v(1) by (simp add: bch2_journal_res_put_def)
  let ?rs = "take i rs @ drop (Suc i) rs"
  have "res_ok ?j (take i (rs[i := res']) @ drop (Suc i) (rs[i := res']))"
    using i d(2) by (intro res_ok_drop [OF ok]) simp_all
  then have "res_ok (?j\<lparr>j_reservations := v\<rparr>) ?rs" using v(2) by (simp add: res_ok_def open_data_def)
  moreover have len: "1 + length ?rs = length rs" using i by simp
  have "word_ok (?j\<lparr>j_reservations := v\<rparr>) (1 + length ?rs)" unfolding len using w v(2-4) by (simp add: word_ok_def)
  ultimately have "journal_inv (?j\<lparr>j_reservations := v\<rparr>) ?rs"
    using d(4) by (simp add: journal_inv_def ring_ok_def small_buckets_def journal_geometry_def)
  with eq show ?thesis by (intro exI conjI) auto
qed

section \<open>Operations that leave reservations alone\<close>

definition same_core :: "journal \<Rightarrow> journal \<Rightarrow> bool" where
  "same_core j j' \<longleftrightarrow> j_reservations j' = j_reservations j \<and> j_seq j' = j_seq j \<and>
     j_cur_entry_u64s j' = j_cur_entry_u64s j \<and> j_ring j' = j_ring j \<and> j_disk_sb j' = j_disk_sb j"

definition same_res :: "journal \<Rightarrow> journal \<Rightarrow> bool" where
  "same_res j j' \<longleftrightarrow> same_core j j' \<and> ja_sectors_free (j_device j') = ja_sectors_free (j_device j) \<and>
     ja_buckets (j_device j') = ja_buckets (j_device j) \<and> ja_nr (j_device j') = ja_nr (j_device j) \<and>
     j_closed j' = j_closed j \<and> j_writes j' = j_writes j"

lemmas same_defs = same_res_def same_core_def

lemma same_res_refl [simp]: "same_res j j"
  by (simp add: same_defs)

lemma same_res_trans: "same_res j j' \<Longrightarrow> same_res j' j'' \<Longrightarrow> same_res j j''"
  by (simp add: same_defs)

lemma inv_same_core: "same_core j j' \<Longrightarrow> small_buckets j' \<Longrightarrow> journal_inv j rs \<Longrightarrow> journal_inv j' rs"
  by (simp add: journal_inv_def same_core_def ring_ok_def word_ok_def res_ok_def open_data_def)

lemma inv_same_res: "same_res j j' \<Longrightarrow> journal_inv j rs \<Longrightarrow> journal_inv j' rs"
  by (rule inv_same_core [of j]) (auto simp: same_defs journal_inv_def small_buckets_def journal_geometry_def)

lemma set_watermark_same: "bch2_journal_set_watermark j = Some j' \<Longrightarrow> same_res j j' \<and> j_cur_entry_sectors j' = j_cur_entry_sectors j \<and> j_device j' = j_device j"
  by (auto simp: bch2_journal_set_watermark_def Let_def journal_reclaim_kick_def same_defs bind_eq_Some_conv split: if_splits)

lemma space_available_elim:
  assumes "bch2_journal_space_available j = Some j'"
  obtains "ja_nr (j_device j) = 0"
      "bch2_journal_set_watermark
        (j\<lparr>j_space := replicate 4 journal_space_default, j_cur_entry_sectors := 0, j_cur_entry_error := 0\<rparr>) = Some j'"
  | a b spaces ja where "ja_nr (j_device j) \<noteq> 0" "ja = (j_device j)\<lparr>ja_dirty_idx := a, ja_dirty_idx_ondisk := b\<rparr>"
      "advance_idx (ja_bucket_seq ja) (ja_nr ja) (ja_cur_idx ja) (j_last_seq j) (ja_dirty_idx (j_device j)) = Some a"
      "advance_idx (ja_bucket_seq ja) (ja_nr ja) a (j_last_seq_ondisk j) (ja_dirty_idx_ondisk (j_device j)) = Some b"
      "device_spaces ja (fst (journal_geometry j)) (snd (journal_geometry j)) = Some spaces"
      "bch2_journal_set_watermark
        (j\<lparr>j_device := ja, j_flags := put_flag JOURNAL_may_skip_flush (may_skip_flush spaces) (j_flags j),
          j_space := spaces, j_cur_entry_sectors := sp_next_entry (spaces ! 0),
          j_cur_entry_error := (if sp_next_entry (spaces ! 0) \<noteq> 0 then 0 else - 9)\<rparr>) = Some j'"
proof (cases "ja_nr (j_device j) = 0")
  case True
  with assms that(1) show ?thesis by (simp add: bch2_journal_space_available_def)
next
  case False
  with assms that(2) show ?thesis
    by (cases "journal_geometry j")
      (simp add: bch2_journal_space_available_def Let_def bind_eq_Some_conv, elim exE conjE, simp)
qed

lemma space_available_same: "bch2_journal_space_available j = Some j' \<Longrightarrow> same_res j j'"
  by (elim space_available_elim) (drule set_watermark_same, simp add: same_defs)+

lemma do_discards_same: "bch2_journal_do_discards j = Some j' \<Longrightarrow> same_res j j' \<and> j_cur_entry_sectors j' = j_cur_entry_sectors j"
  by (auto simp: bch2_journal_do_discards_def same_defs bind_eq_Some_conv)

lemma space_from_next:
  "space_from ja bucket_size block_sectors from = Some sp \<Longrightarrow> bucket_size \<le> m \<Longrightarrow> ja_sectors_free ja \<le> m \<Longrightarrow>
   sp_next_entry sp \<le> m"
  by (auto simp: space_from_def Let_def bind_eq_Some_conv split: if_splits intro: order_trans [OF div_times_less_eq_dividend])

lemma space_available_next:
  assumes "bch2_journal_space_available j = Some j'" "small_buckets j"
  shows "j_cur_entry_sectors j' \<le> 2048"
  using assms(1)
proof (cases rule: space_available_elim)
  case (2 a b spaces ja)
  then have "sp_next_entry (spaces ! 0) \<le> 2048"
    using assms(2)
    by (auto simp: device_spaces_def Let_def bind_eq_Some_conv small_buckets_def journal_space_default_def split: if_splits
        dest!: space_from_next [where m = 2048])
  then show ?thesis using set_watermark_same [OF 2(6)] by simp
qed (auto dest!: set_watermark_same)

lemma update_last_seq_same: "bch2_journal_update_last_seq j = Some j' \<Longrightarrow> same_res j j'"
  by (auto simp: bch2_journal_update_last_seq_def Let_def bind_eq_Some_conv split: if_splits prod.splits
      dest!: space_available_same do_discards_same) (auto simp: same_defs)

lemma pin_put_same: "pin_put j seq pin = Some j' \<Longrightarrow> same_res j j'"
  by (auto simp: pin_put_def bind_eq_Some_conv same_defs)

lemma pin_set_same:
  assumes "bch2_journal_pin_set node_level j seq pin f = Some j'"
  shows "same_res j j'"
  using assms unfolding bch2_journal_pin_set_def Let_def bind_eq_Some_conv
  by (elim exE conjE) (auto simp: same_defs split: if_splits dest!: pin_put_same update_last_seq_same)

lemma pin_drop_same: "bch2_journal_pin_drop j pin = Some j' \<Longrightarrow> same_res j j'"
  by (auto simp: bch2_journal_pin_drop_def Let_def bind_eq_Some_conv split: if_splits
      dest!: pin_put_same update_last_seq_same) (auto simp: same_defs)

lemma replay_pins_put_same: "bch2_journal_replay_pins_put j seq = Some j' \<Longrightarrow> same_res j j'"
  by (auto simp: bch2_journal_replay_pins_put_def bind_eq_Some_conv dest!: update_last_seq_same) (auto simp: same_defs)

lemma update_last_seq_ondisk_same: "bch2_journal_update_last_seq_ondisk j seq = Some (ret, j') \<Longrightarrow> same_res j j'"
  by (auto simp: bch2_journal_update_last_seq_ondisk_def bind_eq_Some_conv split: if_splits
      dest!: space_available_same do_discards_same) (auto simp: same_defs)

text \<open>A write-back callback writes a node, drops pins of its write slots (\<^verbatim>\<open>btree/io.rs\<close>), which is all it does to the
  journal, and returns.\<close>

definition pin_drops :: "journal \<Rightarrow> journal \<Rightarrow> bool" where
  "pin_drops = (\<lambda>j j'. \<exists>pin. bch2_journal_pin_drop j pin = Some j')\<^sup>*\<^sup>*"

definition callbacks_ok :: "journal_env \<Rightarrow> bool" where
  "callbacks_ok env \<longleftrightarrow> (\<forall>f j pin seq. \<exists>ret j'. env_flush env f j pin seq = Some (ret, j') \<and> pin_drops j j')"

lemma callbacks_drop: "callbacks_ok env \<Longrightarrow> env_flush env f j pin seq = Some (ret, j') \<Longrightarrow> pin_drops j j'"
  unfolding callbacks_ok_def by (metis option.inject prod.inject)

lemma pin_drops_same: "pin_drops j j' \<Longrightarrow> same_res j j'"
  unfolding pin_drops_def by (induction rule: rtranclp_induct) (auto dest!: pin_drop_same intro: same_res_trans)

lemma get_next_pin_same: "journal_get_next_pin j seq lo hi = Some (found, j') \<Longrightarrow> same_res j j'"
  by (auto simp: journal_get_next_pin_def bind_eq_Some_conv same_defs split: option.splits)

text \<open>A relation kept by each step of a pass over the pins is kept by the pass.\<close>

lemma flush_pins_rel:
  assumes get: "\<And>j s lo hi found j'. journal_get_next_pin j s lo hi = Some (found, j') \<Longrightarrow> R j j'"
    and cb: "\<And>f j pin seq ret j'. env_flush env f j pin seq = Some (ret, j') \<Longrightarrow> R j j'"
    and fl: "\<And>j pin seq. jp_seq (j_pin_mem j pin) = seq \<Longrightarrow> R j (pin_set_flushed j pin seq)"
    and dn: "\<And>j. R j (j\<lparr>j_flush_in_progress := 0, j_flush_in_progress_dropped := False\<rparr>)"
    and tr: "\<And>j j' j''. R j j' \<Longrightarrow> R j' j'' \<Longrightarrow> R j j''"
    and eq: "journal_flush_pins env j s lo hi m n = Some y"
  shows "R j (snd y)"
proof -
  have "env' = env \<longrightarrow> R j (snd y)" if "journal_flush_pins env' j s lo hi m n = Some y" for env'
  proof (rule journal_flush_pins.raw_induct [OF _ that, where P = "\<lambda>env' j s lo hi m n y. env' = env \<longrightarrow> R j (snd y)"], intro impI)
    fix F :: "journal_env \<Rightarrow> journal \<Rightarrow> nat \<Rightarrow> u32 \<Rightarrow> u32 \<Rightarrow> nat \<Rightarrow> nat \<Rightarrow> (nat \<times> journal) option"
    fix env' j s lo hi m n y
    assume IH: "\<And>env' j s lo hi m n y. F env' j s lo hi m n = Some y \<Longrightarrow> env' = env \<longrightarrow> R j (snd y)" and e: "env' = env"
    assume body: "journal_get_next_pin j s (if m \<noteq> 0 then - 1 else lo) (if m \<noteq> 0 then - 1 else hi) \<bind>
      (\<lambda>(found, j). case found of None \<Rightarrow> Some (n, j)
        | Some (pin, seq, flush_fn) \<Rightarrow> env_flush env' flush_fn j pin seq \<bind>
            (\<lambda>(ret, j). let j = if ret = 0 \<and> \<not> j_flush_in_progress_dropped j \<and> jp_seq (j_pin_mem j pin) = seq
                                then pin_set_flushed j pin seq else j;
                            j = j\<lparr>j_flush_in_progress := 0, j_flush_in_progress_dropped := False\<rparr>
                        in if ret \<noteq> 0 then Some (n, j) else F env' j s lo hi (m - 1) (n + 1))) = Some y"
    then obtain found j1 where j1: "journal_get_next_pin j s (if m \<noteq> 0 then - 1 else lo) (if m \<noteq> 0 then - 1 else hi) = Some (found, j1)"
      unfolding bind_eq_Some_conv by auto
    note r1 = get [OF j1]
    show "R j (snd y)"
    proof (cases found)
      case None
      then show ?thesis using body j1 r1 by auto
    next
      case (Some x)
      obtain pin seq f where x: "x = (pin, seq, f)" by (cases x) auto
      obtain ret j2 where j2: "env_flush env f j1 pin seq = Some (ret, j2)"
        using body unfolding j1 Some x e bind.bind_lunit prod.case option.case bind_eq_Some_conv [of "env_flush _ _ _ _ _"] by auto
      define j3 where "j3 = (if ret = 0 \<and> \<not> j_flush_in_progress_dropped j2 \<and> jp_seq (j_pin_mem j2 pin) = seq
        then pin_set_flushed j2 pin seq else j2)"
      define j4 where "j4 = j3\<lparr>j_flush_in_progress := 0, j_flush_in_progress_dropped := False\<rparr>"
      have "R j2 j4"
        using tr [OF fl dn, of j2 pin seq] dn [of j2] by (cases "ret = 0 \<and> \<not> j_flush_in_progress_dropped j2 \<and> jp_seq (j_pin_mem j2 pin) = seq") (simp_all add: j3_def j4_def)
      then have r4: "R j j4" using tr [OF r1 tr [OF cb [OF j2]]] by blast
      have "(if ret \<noteq> 0 then Some (n, j4) else F env' j4 s lo hi (m - 1) (n + 1)) = Some y"
        using body by (simp only: j1 Some x e j2 Let_def j3_def j4_def bind.bind_lunit prod.case option.case)
      then consider "y = (n, j4)" | "F env' j4 s lo hi (m - 1) (n + 1) = Some y" by (cases "ret = 0") simp_all
      then show ?thesis
      proof cases
        case 2 then show ?thesis using IH [OF 2] e tr [OF r4] by blast
      qed (simp add: r4)
    qed
  qed
  with eq show ?thesis by blast
qed

lemma reclaim_rel:
  assumes fp: "\<And>j s m y. journal_flush_pins env j s (- 1) 0 m 0 = Some y \<Longrightarrow> R j (snd y)"
    and nr: "\<And>j n. R j (j\<lparr>j_nr_direct_reclaim := n\<rparr>)" "\<And>j n. R j (j\<lparr>j_nr_background_reclaim := n\<rparr>)"
    and tr: "\<And>j j' j''. R j j' \<Longrightarrow> R j' j'' \<Longrightarrow> R j j''"
    and eq: "raw_bch2_journal_reclaim env direct kicked j = Some y"
  shows "R j (snd y)"
proof -
  have "env' = env \<longrightarrow> R j (snd y)" if "raw_bch2_journal_reclaim env' direct kicked j = Some y" for env'
  proof (rule raw_bch2_journal_reclaim.raw_induct [OF _ that, where P = "\<lambda>env' direct kicked j y. env' = env \<longrightarrow> R j (snd y)"], intro impI)
    fix F :: "journal_env \<Rightarrow> bool \<Rightarrow> bool \<Rightarrow> journal \<Rightarrow> (int \<times> journal) option"
    fix env' direct kicked j y
    assume IH: "\<And>env' direct kicked j y. F env' direct kicked j = Some y \<Longrightarrow> env' = env \<longrightarrow> R j (snd y)" and e: "env' = env"
    assume body: "journal_seq_to_flush j \<bind> (\<lambda>seq_to_flush.
         let min_nr = if kicked \<or> journal_med_on_space j then 1 else 0
         in journal_flush_pins env' j seq_to_flush (- 1) 0 min_nr 0 \<bind>
            (\<lambda>(nr, j). let j = if direct then j\<lparr>j_nr_direct_reclaim := (j_nr_direct_reclaim j + nr) mod 2 ^ 64\<rparr>
                              else j\<lparr>j_nr_background_reclaim := (j_nr_background_reclaim j + nr) mod 2 ^ 64\<rparr>
                in if direct \<or> min_nr = 0 \<or> nr = 0 then Some (0, j) else F env' direct False j)) = Some y"
    define m :: nat where "m = (if kicked \<or> journal_med_on_space j then 1 else 0)"
    obtain s n j1 where j1: "journal_seq_to_flush j = Some s" "journal_flush_pins env j s (- 1) 0 m 0 = Some (n, j1)"
      using body e by (auto simp: bind_eq_Some_conv Let_def m_def)
    define j2 where "j2 = (if direct then j1\<lparr>j_nr_direct_reclaim := (j_nr_direct_reclaim j1 + n) mod 2 ^ 64\<rparr>
                              else j1\<lparr>j_nr_background_reclaim := (j_nr_background_reclaim j1 + n) mod 2 ^ 64\<rparr>)"
    have r1: "R j j1" using fp [OF j1(2)] by simp
    have "R j1 j2" unfolding j2_def using nr by (cases direct) simp_all
    with r1 have r: "R j j2" by (rule tr)
    have "(if direct \<or> m = 0 \<or> n = 0 then Some (0, j2) else F env' direct False j2) = Some y"
      using body j1 by (simp only: Let_def m_def [symmetric] e bind.bind_lunit prod.case j2_def)
    then consider "snd y = j2" | "F env' direct False j2 = Some y" by (cases "direct \<or> m = 0 \<or> n = 0") auto
    then show "R j (snd y)"
    proof cases
      case 2 then show ?thesis using IH [OF 2] e tr [OF r] by blast
    qed (simp add: r)
  qed
  with eq show ?thesis by blast
qed

lemma flush_pins_same:
  assumes "callbacks_ok env" "journal_flush_pins env j s lo hi m n = Some y"
  shows "same_res j (snd y)"
  using get_next_pin_same _ _ _ same_res_trans assms(2)
  by (rule flush_pins_rel) (auto simp: callbacks_drop [OF assms(1)] pin_drops_same pin_set_flushed_def Let_def, auto simp: same_defs)

lemma reclaim_same:
  assumes "callbacks_ok env" "raw_bch2_journal_reclaim env direct kicked j = Some y"
  shows "same_res j (snd y)"
  using flush_pins_same [OF assms(1)] _ _ same_res_trans assms(2)
  by (rule reclaim_rel) (auto simp: same_defs)

section \<open>Writing the open entry\<close>

lemma next_bucket_core:
  assumes "journal_next_bucket j sectors n = Some (adv, j')"
  shows "same_core j j' \<and> j_closed j' = j_closed j \<and>
     (ja_sectors_free (j_device j') = ja_sectors_free (j_device j) \<or> ja_sectors_free (j_device j') = n)"
  using assms by (auto simp: journal_next_bucket_def Let_def bind_eq_Some_conv same_core_def split: if_splits)

lemma write_at_cases:
  assumes "journal_write_at env sb j record wb n bs = Some (ret, j')"
  obtains "ret = - 5" "j' = j" | w where "ret = - 5" "j' = j\<lparr>j_writes := w\<rparr>"
  | w where "ret = 0" "ja_cur_idx (j_device j) < length (ja_bucket_seq (j_device j))"
      "j' = j\<lparr>j_writes := w, j_device := (j_device j)\<lparr>ja_sectors_free := ja_sectors_free (j_device j) - wb div 512,
         ja_bucket_seq := (ja_bucket_seq (j_device j))[ja_cur_idx (j_device j) := j_seq j], ja_highest_seq_found := j_seq j\<rparr>\<rparr>"
proof -
  have "\<exists>c sec disk. (if c then Some (- 5, j) else if \<not> env_sync_ok env then Some (- 5, j\<lparr>j_writes := (sec, disk) # j_writes j\<rparr>)
      else upd_opt (ja_bucket_seq (j_device j)) (ja_cur_idx (j_device j)) (j_seq (j\<lparr>j_writes := (sec, disk) # j_writes j\<rparr>)) \<bind>
        (\<lambda>bucket_seq. Some (0, j\<lparr>j_writes := (sec, disk) # j_writes j, j_device := (j_device j)
           \<lparr>ja_sectors_free := ja_sectors_free (j_device j) - wb div 512, ja_bucket_seq := bucket_seq,
            ja_highest_seq_found := j_seq (j\<lparr>j_writes := (sec, disk) # j_writes j\<rparr>)\<rparr>\<rparr>))) = Some (ret, j')"
    using assms unfolding journal_write_at_def Let_def bind_eq_Some_conv [of "require _"] bind_eq_Some_conv [of "disk_image _ _ _"]
    by (elim exE conjE) (intro exI, assumption)
  then show ?thesis
    by (elim exE) (auto simp: bind_eq_Some_conv intro: that split: if_split_asm)
qed

lemma write_at_core:
  assumes "journal_write_at env sb j record wb n bs = Some (ret, j')"
  shows "same_core j j' \<and> j_closed j' = j_closed j \<and> ja_sectors_free (j_device j') \<le> ja_sectors_free (j_device j)"
  using assms by (cases rule: write_at_cases) (simp_all add: same_core_def)

lemma write_bucket_core:
  assumes "journal_write_bucket env sb j record wb n adv = Some (ret, j')"
  shows "same_core j j' \<and> j_closed j' = j_closed j \<and> ja_sectors_free (j_device j') \<le> ja_sectors_free (j_device j)"
  using assms
  by (auto simp: journal_write_bucket_def Let_def bind_eq_Some_conv split: if_split_asm dest!: write_at_core)
    (auto simp: same_core_def)

lemma write_sectors_core:
  assumes "journal_write_sectors env sb j record n tb wb = Some (ret, j')"
  shows "same_core j j' \<and> j_closed j' = j_closed j \<and>
     (ja_sectors_free (j_device j') \<le> ja_sectors_free (j_device j) \<or> ja_sectors_free (j_device j') \<le> n)"
  using assms
  by (auto simp: journal_write_sectors_def Let_def bind_eq_Some_conv split: if_split_asm
      dest!: next_bucket_core write_bucket_core) (auto simp: same_core_def)

lemma write_device_core:
  assumes "journal_write_device env h j record = Some (ret, j')" "j_disk_sb j = Some h" "small_buckets j"
  shows "same_core j j' \<and> j_closed j' = j_closed j \<and> small_buckets j'"
  using assms
  by (auto simp: journal_write_device_def split: if_split_asm option.split_asm dest!: write_sectors_core)
    (auto simp: same_core_def small_buckets_def journal_geometry_def)

text \<open>Opening the next entry leaves no reservation and an empty entry.\<close>

lemma open_next_inv:
  assumes inv: "journal_inv j []" and eq: "journal_open_next j record e = Some (0, j')"
  shows "journal_inv j' [] \<and> j_seq j' = j_seq j + 1 \<and> j_closed j' = j_closed j @ [record] \<and>
     journal_state_offset (j_reservations j') = 0"
proof -
  let ?seq = "j_seq j + 1"
  let ?idx = "?seq mod JOURNAL_STATE_BUF_NR"
  have w: "word_ok j 1" and ring: "ring_ok j" using inv by (auto simp: journal_inv_def)
  have i: "?idx < 4" by (simp add: code_consts)
  have ne: "?idx \<noteq> open_idx j" by (simp add: code_consts mod_Suc)
  obtain v v1 where v: "journal_state_dec (j_reservations j) (open_idx j) = Some v"
    "journal_state_inc (journal_state_set_offset (journal_state_set_idx v ?idx) 0) ?idx = Some (Some v1)"
    and j': "j_ring j' = (j_ring j)[?idx := (j_ring j ! ?idx)\<lparr>jb_data := map (\<lambda>_. 0) (jb_data (j_ring j ! ?idx)), jb_seq := ?seq\<rparr>]"
      "j_seq j' = ?seq" "j_reservations j' = v1" "j_closed j' = j_closed j @ [record]" "j_cur_entry_u64s j' = j_cur_entry_u64s j"
      "j_disk_sb j' = j_disk_sb j" "j_device j' = j_device j"
    using eq w by (auto simp: journal_open_next_def Let_def bind_eq_Some_conv word_ok_def split: if_splits)
  have c: "journal_state_count (j_reservations j) (open_idx j) \<noteq> 0" using w open_idx_less [of j] by (simp add: word_ok_def)
  have v': "\<forall>k<4. journal_state_count v k = 0"
    using state_dec_ok [OF open_idx_less c] v(1) w by (auto simp: word_ok_def)
  let ?v = "journal_state_set_offset (journal_state_set_idx v ?idx) 0"
  have s: "journal_state_offset ?v = 0" "journal_state_idx ?v = ?idx" "journal_state_count ?v k = journal_state_count v k" for k
    using state_set_offset [of 0 "journal_state_set_idx v ?idx"] state_set_idx [OF i, of v] by simp_all
  have "journal_state_count ?v ?idx < 0x3ff" using s(3) v' i by simp
  from state_inc_ok [OF i this] v(2) have v1: "journal_state_offset v1 = 0" "journal_state_idx v1 = ?idx"
    "\<forall>k<4. journal_state_count v1 k = (if k = ?idx then 1 else 0)"
    using s v' by auto
  have "ring_ok j'" using ring i j'(1,2) by (auto simp: ring_ok_def code_consts dest!: set_update_subset_insert [THEN subsetD])
  moreover have "word_ok j' 1" using w v1 j' by (simp add: word_ok_def)
  moreover have "res_ok j' []" using v1(1) j'(3) by (auto simp: res_ok_def res_holes_def intro: tiled_end)
  ultimately show ?thesis using inv j' v1(1) by (simp add: journal_inv_def small_buckets_def journal_geometry_def)
qed

lemma after_write_inv:
  assumes inv: "journal_inv j []" and off: "journal_state_offset (j_reservations j) = 0" and cb: "callbacks_ok env"
    and eq: "journal_after_write env j = Some (ret, j')"
  shows "journal_inv j' [] \<and> ret = 0 \<and> same_res (j\<lparr>j_cur_entry_u64s := j_cur_entry_u64s j'\<rparr>) j'"
proof -
  obtain j1 j2 j3 where j: "bch2_journal_update_last_seq j = Some j1" "bch2_journal_space_available j1 = Some j2"
    "bch2_journal_do_discards j2 = Some j3"
    using eq by (auto simp: journal_after_write_def bind_eq_Some_conv)
  have same: "same_res j j3"
    using same_res_trans [OF update_last_seq_same [OF j(1)] same_res_trans [OF space_available_same [OF j(2)]]] do_discards_same [OF j(3)] by blast
  have "journal_inv j1 []" using inv_same_res [OF update_last_seq_same [OF j(1)] inv] .
  then have sec: "j_cur_entry_sectors j3 \<le> 2048"
    using space_available_next [OF j(2)] do_discards_same [OF j(3)] by (simp add: journal_inv_def)
  define j4 where "j4 = (if j_cur_entry_sectors j3 \<noteq> 0
    then j3\<lparr>j_cur_entry_u64s := journal_entry_u64s_for_sectors (j_cur_entry_sectors j3)\<rparr> else j3)"
  have "journal_inv j3 []" using inv_same_res [OF same inv] .
  moreover have "journal_state_offset (j_reservations j3) = 0" using same off by (simp add: same_defs)
  moreover have "journal_entry_u64s_for_sectors (j_cur_entry_sectors j3) \<le> 131065"
    using sec by (simp add: journal_entry_u64s_for_sectors_def code_consts)
  ultimately have inv4: "journal_inv j4 []"
    by (simp add: j4_def journal_inv_def ring_ok_def word_ok_def res_ok_def open_data_def small_buckets_def journal_geometry_def)
  have s4: "same_res (j\<lparr>j_cur_entry_u64s := j_cur_entry_u64s j4\<rparr>) j4" using same by (simp add: j4_def same_defs)
  have rest: "(if j_reclaim_kicked j4 \<and> \<not> j_reclaim_locked j4
      then with_reclaim_lock (raw_bch2_journal_reclaim env False True) (j4\<lparr>j_reclaim_kicked := False\<rparr>) \<bind> (\<lambda>(_, j). Some (0, j))
      else Some (0, j4)) = Some (ret, j')"
    using eq by (simp only: journal_after_write_def j Let_def j4_def bind.bind_lunit)
  consider "ret = 0" "j' = j4"
    | j5 x where "raw_bch2_journal_reclaim env False True (j4\<lparr>j_reclaim_kicked := False, j_reclaim_locked := True\<rparr>) = Some (x, j5)"
        "ret = 0" "j' = j5\<lparr>j_reclaim_locked := False\<rparr>"
    using rest by (auto simp: with_reclaim_lock_def bind_eq_Some_conv split: if_splits)
  then show ?thesis
  proof cases
    case 2
    have "same_res j4 j'" using reclaim_same [OF cb 2(1)] 2(3) by (simp add: same_defs)
    then show ?thesis using inv_same_res [OF _ inv4] s4 2(2) by (simp add: same_defs)
  qed (use inv4 s4 in simp)
qed

lemma open_next_fail:
  assumes "journal_open_next j record e = Some (ret, j')" "ret \<noteq> 0"
  shows "j' = j\<lparr>j_closed := j_closed j @ [record]\<rparr> \<and> (ret = - 2 \<or> ret = - 3)"
  using assms by (auto simp: journal_open_next_def Let_def bind_eq_Some_conv split: if_split_asm)

lemma inv_closed: "journal_inv (j\<lparr>j_closed := c\<rparr>) rs = journal_inv j rs"
  "journal_inv (j\<lparr>j_fault_inject_write_error := n\<rparr>) rs = journal_inv j rs"
  by (simp_all add: journal_inv_def ring_ok_def word_ok_def res_ok_def open_data_def small_buckets_def journal_geometry_def)

text \<open>The outcomes of a write: refused, an injected fault, or the record written to the device and the next entry opened.\<close>

lemma flush_split:
  assumes inv: "journal_inv j rs" and eq: "bch2_journal_flush env j = Some (ret, j')"
  obtains "ret = - 1" "j' = j" | n where "ret = - 5" "j' = j\<lparr>j_fault_inject_write_error := n\<rparr>"
  | rec ret1 j1 where "rs = []" "flush_record env j (open_data j) (journal_state_offset (j_reservations j)) = Some rec"
      "(case j_disk_sb j of None \<Rightarrow> Some (0, j) | Some h \<Rightarrow> journal_write_device env h j rec) = Some (ret1, j1)"
      "if ret1 \<noteq> 0 then ret = ret1 \<and> j' = j1
       else \<exists>e ret2 j2. journal_entry_empty rec = Some e \<and> journal_open_next j1 rec e = Some (ret2, j2) \<and>
         (if ret2 \<noteq> 0 then ret = ret2 \<and> j' = j2 else journal_after_write env j2 = Some (ret, j'))"
proof -
  have w: "word_ok j (1 + length rs)" and ring: "ring_ok j" using inv by (auto simp: journal_inv_def)
  have c: "journal_state_idx (j_reservations j) = open_idx j" "journal_state_count (j_reservations j) (open_idx j) = 1 + length rs"
    using w open_idx_less [of j] by (auto simp: word_ok_def)
  have s: "jb_seq (j_ring j ! open_idx j) = j_seq j" using ring by (simp add: ring_ok_def)
  show ?thesis
  proof (cases "rs = []")
    case False
    then have f: "bch2_journal_flush env j = Some (- 1, j)" using c by (simp add: bch2_journal_flush_def)
    show ?thesis by (rule that(1)) (use eq in \<open>simp_all only: f option.inject prod.inject\<close>)
  next
    case rs: True
    show ?thesis
    proof (cases "j_fault_inject_write_error j = 0")
      case False
      then have f: "bch2_journal_flush env j = Some (- 5, j\<lparr>j_fault_inject_write_error := j_fault_inject_write_error j - 1\<rparr>)"
        using rs c s set_open_ring(3) [OF ring] by (simp add: bch2_journal_flush_def nth_opt_in_range)
      have "- 5 = ret \<and> j\<lparr>j_fault_inject_write_error := j_fault_inject_write_error j - 1\<rparr> = j'" using eq by (simp only: f option.inject prod.inject)
      then show ?thesis by (intro that(2) [of "j_fault_inject_write_error j - 1"]) (blast intro: sym)+
    next
      case nofault: True
    let ?w = "\<lambda>rec. case j_disk_sb j of None \<Rightarrow> Some (0, j) | Some h \<Rightarrow> journal_write_device env h j rec"
    define rest where "rest = (\<lambda>rec ret1 j1. if ret1 \<noteq> 0 then Some (ret1, j1) else do {
            is_empty \<leftarrow> journal_entry_empty rec;
            (ret, j) \<leftarrow> journal_open_next j1 rec is_empty;
            if ret \<noteq> 0 then Some (ret, j) else journal_after_write env j })"
    have body: "(flush_record env j (open_data j) (journal_state_offset (j_reservations j)) \<bind> (\<lambda>rec. ?w rec \<bind>
        (\<lambda>(ret, j). rest rec ret j))) = Some (ret, j')"
      using eq rs nofault c s set_open_ring(3) [OF ring] by (simp add: bch2_journal_flush_def nth_opt_in_range open_data_def rest_def)
    then obtain rec where rc: "flush_record env j (open_data j) (journal_state_offset (j_reservations j)) = Some rec"
      unfolding bind_eq_Some_conv [of "flush_record _ _ _ _"] by (elim exE conjE)
    with body obtain ret1 j1 where x: "?w rec = Some (ret1, j1)" by (cases "?w rec") auto
    have r: "rest rec ret1 j1 = Some (ret, j')" using body by (simp add: rc x)
    have "if ret1 \<noteq> 0 then ret = ret1 \<and> j' = j1
       else \<exists>e ret2 j2. journal_entry_empty rec = Some e \<and> journal_open_next j1 rec e = Some (ret2, j2) \<and>
         (if ret2 \<noteq> 0 then ret = ret2 \<and> j' = j2 else journal_after_write env j2 = Some (ret, j'))"
    proof (cases "ret1 = 0")
      case True
      then obtain e ret2 j2 where "journal_entry_empty rec = Some e" "journal_open_next j1 rec e = Some (ret2, j2)"
        "(if ret2 \<noteq> 0 then Some (ret2, j2) else journal_after_write env j2) = Some (ret, j')"
        using r by (auto simp: rest_def bind_eq_Some_conv)
      then show ?thesis using True by (auto split: if_split_asm)
    qed (use r in \<open>simp add: rest_def\<close>)
    with rs rc x show thesis by (intro that(3)) auto
    qed
  qed
qed

lemma flush_inv:
  assumes inv: "journal_inv j rs" and cb: "callbacks_ok env" and eq: "bch2_journal_flush env j = Some (ret, j')"
  shows "journal_inv j' rs \<and>
    (if ret = 0 then rs = [] \<and> j_seq j' = j_seq j + 1 \<and>
       (\<exists>record. flush_record env j (open_data j) (journal_state_offset (j_reservations j)) = Some record \<and>
          j_closed j' = j_closed j @ [record])
     else j_seq j' = j_seq j)"
  using inv eq
proof (cases rule: flush_split)
  case (3 rec ret1 j1)
  have sm: "small_buckets j" using inv by (simp add: journal_inv_def)
  have s1: "same_core j j1 \<and> j_closed j1 = j_closed j \<and> small_buckets j1"
    using 3(3) sm by (auto simp: same_core_def split: option.split_asm dest!: write_device_core)
  then have inv1: "journal_inv j1 rs" "journal_inv j1 []" using inv_same_core [of j j1] inv 3(1) by auto
  show ?thesis
  proof (cases "ret1 = 0")
    case False
    then show ?thesis using 3(4) s1 inv1 by (simp add: same_core_def)
  next
    case True
    then obtain e ret2 j2 where j2: "journal_open_next j1 rec e = Some (ret2, j2)"
      "if ret2 \<noteq> 0 then ret = ret2 \<and> j' = j2 else journal_after_write env j2 = Some (ret, j')"
      using 3(4) by auto
    show ?thesis
    proof (cases "ret2 = 0")
      case False
      then show ?thesis using open_next_fail [OF j2(1)] j2(2) inv1 s1 by (auto simp: inv_closed same_core_def)
    next
      case ret2: True
      note n = open_next_inv [OF inv1(2) j2(1) [unfolded ret2]]
      have "journal_after_write env j2 = Some (ret, j')" using j2(2) ret2 by simp
      then show ?thesis using after_write_inv [OF _ _ cb, of j2 ret j'] n s1 3(1,2) by (simp add: same_defs)
    qed
  qed
qed (use inv in \<open>auto simp: inv_closed\<close>)

section \<open>The record of an entry\<close>

lemma entry_set_words:
  assumes "journal_entry_set data e ty bid lvl key n = Some (actual, data')"
  shows "actual = n + 1 \<and> e + actual \<le> length data \<and> length data' = length data \<and> take e data' = take e data \<and>
     entries_ok (drop e (take (e + actual) data'))"
proof -
  let ?h = "jset_entry_word n bid lvl ty" and ?d = "data[e := jset_entry_word n bid lvl ty]"
  have a: "actual = n + 1" "e < length data" "n + 1 < 2 ^ 16" "n \<le> length key" "e + 1 + n \<le> length data"
    "data' = take (e + 1) ?d @ take n key @ drop (e + 1 + n) ?d"
    using assms by (auto simp: journal_entry_set_def journal_entry_init_def write_words_def bind_eq_Some_conv JSET_KEYS_U64s_def)
  have "take (e + 1) ?d = take e data @ [?h]" using a(2) by (simp add: take_Suc_conv_app_nth)
  then have d: "data' = take e data @ (?h # take n key) @ drop (e + 1 + n) ?d" using a(6) by simp
  have "drop e (take (e + actual) data') = ?h # take n key" using a(1,2,4) unfolding d by simp
  moreover have "entries_ok (?h # take n key)" using a(3,4) by (simp add: entry_u64s_word)
  ultimately show ?thesis using a(1,2,4,5) d by simp
qed

lemma roots_entries:
  assumes "roots_to_entries bid roots data e = Some (e', data')" "e \<le> length data"
  shows "e \<le> e' \<and> e' \<le> length data \<and> length data' = length data \<and> take e data' = take e data \<and>
     entries_ok (drop e (take e' data'))"
  using assms
proof (induction roots arbitrary: bid data e)
  case (Cons root roots)
  show ?case
  proof (cases "rt_alive root = 0")
    case False
    then obtain n actual d where d: "journal_entry_set data e BCH_JSET_ENTRY_btree_root bid (rt_level root) (rt_key root) n = Some (actual, d)"
      "roots_to_entries (Suc bid) roots d (e + actual) = Some (e', data')"
      using Cons.prems(1) by (auto simp: bind_eq_Some_conv)
    note s = entry_set_words [OF d(1)]
    have IH: "e + actual \<le> e'" "e' \<le> length data" "length data' = length data" "take (e + actual) data' = take (e + actual) d"
      "entries_ok (drop (e + actual) (take e' data'))"
      using Cons.IH [OF d(2)] s by auto
    have "drop e (take e' data') = drop e (take (e + actual) (take e' data')) @ drop (e + actual) (take e' data')"
      using append_take_drop_id [of actual "drop e (take e' data')"] by (simp add: take_drop add.commute)
    also have "take (e + actual) (take e' data') = take (e + actual) d" using IH(1,4) by (simp add: min_def)
    finally have split: "drop e (take e' data') = drop e (take (e + actual) d) @ drop (e + actual) (take e' data')" .
    have "entries_ok (drop e (take e' data'))" unfolding split using s IH(5) by (blast intro: entries_ok_append)
    moreover have "take e data' = take e d" using arg_cong [OF IH(4), of "take e"] by (simp add: min_def)
    ultimately show ?thesis using IH s by simp
  qed (use Cons in simp)
qed simp

lemma flush_record_words:
  assumes "flush_record env j data used = Some rec" "entries_ok (take used data)"
  shows "\<exists>roots. rec = [0, 0, JSET_MAGIC, of_nat (j_seq j), 0, of_nat (used + length roots), of_nat (j_last_seq j)] @ take used data @ roots \<and>
     entries_ok (take used data @ roots) \<and> used \<le> length data"
proof -
  let ?hdr = "\<lambda>n. [0, 0, JSET_MAGIC, of_nat (j_seq j), 0, of_nat n, of_nat (j_last_seq j)] :: u64 list"
  have used: "used \<le> length data" using assms(1) by (simp add: flush_record_def)
  show ?thesis
  proof (cases "j_disk_sb j = None")
    case True
    then show ?thesis using assms used by (intro exI [of _ "[]"]) (simp add: flush_record_def)
  next
    case False
    define start where "start = JSET_HEADER_U64S + used"
    define d0 where "d0 = ?hdr used @ take used data @ replicate (BTREE_ID_NR * (JSET_KEYS_U64s + BKEY_U64S + BKEY_BTREE_PTR_VAL_U64S_MAX)) 0"
    obtain e d where d: "roots_to_entries 0 (env_roots env) d0 start = Some (e, d)"
      and rec: "rec = (if e - start \<noteq> 0 then (take e d)[5 := of_nat (used + (e - start))] else take start d)"
      using assms(1) False used
      by (auto simp: flush_record_def bch2_btree_roots_to_journal_entries_def bind_eq_Some_conv Let_def start_def d0_def split: if_split_asm)
    have len: "start \<le> length d0" using used by (simp add: d0_def start_def JSET_HEADER_U64S_def)
    note r = roots_entries [OF d len]
    have "length (?hdr used @ take used data) = start" using used by (simp add: start_def JSET_HEADER_U64S_def)
    then have "take start d0 = ?hdr used @ take used data" unfolding d0_def append_assoc [symmetric] by (metis append_eq_conv_conj)
    then have t: "take start d = ?hdr used @ take used data" using r by simp
    define roots where "roots = drop start (take e d)"
    have "take e d = take start d @ roots"
      using append_take_drop_id [of start "take e d"] r by (simp add: roots_def min_def)
    then have te: "take e d = ?hdr used @ take used data @ roots" unfolding t by simp
    have lr: "length roots = e - start" using r by (simp add: roots_def)
    have "rec = ?hdr (used + length roots) @ take used data @ roots"
    proof (cases "e = start")
      case True then show ?thesis using rec t lr by simp
    next
      case False then have "e - start \<noteq> 0" using r by simp
      then show ?thesis using rec unfolding te lr by (simp add: eval_nat_numeral)
    qed
    moreover have "entries_ok roots" using r by (simp add: roots_def)
    ultimately show ?thesis using entries_ok_append [OF assms(2)] used by blast
  qed
qed

section \<open>The system of a journal and its reservations\<close>

text \<open>A journal with a fresh entry, as it is set up or restored.\<close>

definition journal_idle :: "journal \<Rightarrow> bool" where
  "journal_idle j \<longleftrightarrow> 0 < j_seq j \<and> ring_ok j \<and> j_reservations j = journal_state_fresh (open_idx j) \<and>
     j_cur_entry_u64s j \<le> 131065 \<and> small_buckets j"

fun journal_start :: "journal \<times> journal_res list \<Rightarrow> bool" where
  "journal_start (j, rs) = (journal_idle j \<and> rs = [])"

text \<open>The steps: taking a reservation, writing an entry into one, returning one, writing the open entry, and the
  operations on pins and sequence numbers. A step is an operation that returns.\<close>

inductive journal_step :: "journal \<times> journal_res list \<Rightarrow> journal \<times> journal_res list \<Rightarrow> bool" where
  step_get: "r_u64s res < 2 ^ 16 \<Longrightarrow> journal_res_get_fast j res flags = Some (True, res', j') \<Longrightarrow>
     journal_step (j, rs) (j', rs @ [res'])"
| step_add: "i < length rs \<Longrightarrow> length ws + 1 \<le> r_u64s (rs ! i) \<Longrightarrow>
     journal_add_words j (rs ! i) ty btree_id level ws = Some (res', j') \<Longrightarrow> journal_step (j, rs) (j', rs[i := res'])"
| step_put: "i < length rs \<Longrightarrow> bch2_journal_res_put j (rs ! i) = Some (res', j') \<Longrightarrow>
     journal_step (j, rs) (j', take i rs @ drop (Suc i) rs)"
| step_flush: "callbacks_ok env \<Longrightarrow> bch2_journal_flush env j = Some (ret, j') \<Longrightarrow> journal_step (j, rs) (j', rs)"
| step_pin_set: "bch2_journal_pin_set node_level j seq pin f = Some j' \<Longrightarrow> journal_step (j, rs) (j', rs)"
| step_pin_drop: "bch2_journal_pin_drop j pin = Some j' \<Longrightarrow> journal_step (j, rs) (j', rs)"
| step_replay: "bch2_journal_replay_pins_put j seq = Some j' \<Longrightarrow> journal_step (j, rs) (j', rs)"
| step_ondisk: "bch2_journal_update_last_seq_ondisk j seq = Some (ret, j') \<Longrightarrow> journal_step (j, rs) (j', rs)"
| step_reclaim: "callbacks_ok env \<Longrightarrow> bch2_journal_reclaim env j = Some (ret, j') \<Longrightarrow> journal_step (j, rs) (j', rs)"

lemma reclaim_call_same:
  assumes "callbacks_ok env" "bch2_journal_reclaim env j = Some (ret, j')"
  shows "same_res j j'"
  using assms(2) reclaim_same [OF assms(1)]
  by (fastforce simp: bch2_journal_reclaim_def with_reclaim_lock_def bind_eq_Some_conv same_defs)

lemmas same_ops = pin_set_same pin_drop_same replay_pins_put_same update_last_seq_ondisk_same reclaim_call_same

lemma idle_inv: "journal_idle j \<Longrightarrow> journal_inv j []"
  using state_fresh [OF open_idx_less [of j]]
  by (auto simp: journal_idle_def journal_inv_def word_ok_def res_ok_def res_holes_def intro: tiled_end)

interpretation journal_system: invariant_system journal_start journal_step "\<lambda>(j, rs). journal_inv j rs"
proof
  fix s s' :: "journal \<times> journal_res list"
  assume "case s of (j, rs) \<Rightarrow> journal_inv j rs" "journal_step s s'"
  moreover obtain j rs j' rs' where s: "s = (j, rs)" "s' = (j', rs')" by (cases s, cases s') auto
  ultimately have inv: "journal_inv j rs" and step: "journal_step (j, rs) (j', rs')" by auto
  from step have "journal_inv j' rs'"
  proof cases
    case (step_get res flags res')
    then show ?thesis using res_get_fast_ok [OF inv step_get(2), of flags] by (auto split: if_split_asm)
  next
    case (step_add i ws ty bid lvl res')
    then show ?thesis using add_words_ok [OF inv step_add(2,3), of ty bid lvl] by auto
  next
    case (step_put i res')
    then show ?thesis using res_put_ok [OF inv step_put(2)] by auto
  next
    case (step_flush env ret)
    then show ?thesis using flush_inv [OF inv step_flush(2,3)] by simp
  qed (use inv in \<open>auto dest!: same_ops intro: inv_same_res\<close>)
  then show "case s' of (j, rs) \<Rightarrow> journal_inv j rs" using s by simp
qed (auto intro: idle_inv)

lemma holes_disjoint:
  assumes ok: "res_ok j rs" and ik: "i < length rs" "k < length rs" "i \<noteq> k" and pos: "0 < r_u64s (rs ! i)" "0 < r_u64s (rs ! k)"
  shows "r_offset (rs ! i) + r_u64s (rs ! i) \<le> r_offset (rs ! k) \<or> r_offset (rs ! k) + r_u64s (rs ! k) \<le> r_offset (rs ! i)"
proof -
  let ?h = "\<lambda>i. (r_offset (rs ! i), r_u64s (rs ! i))" and ?rest = "take i rs @ drop (Suc i) rs"
  obtain hs where hs: "tiled (open_data j) hs 0 (journal_state_offset (j_reservations j))" "mset (res_holes rs) = mset hs"
    using ok by (auto simp: res_ok_def)
  have "?h i \<in># mset hs" using res_holes_update(1) [OF ik(1) pos(1)] hs(2) by simp
  then obtain hs1 hs2 where s: "hs = hs1 @ ?h i # hs2" by (auto simp: in_set_conv_decomp)
  have "rs ! k \<in> set ?rest"
  proof (cases "k < i")
    case True
    then have "rs ! k = take i rs ! k" "k < length (take i rs)" using ik by simp_all
    then have "rs ! k \<in> set (take i rs)" using nth_mem by metis
    then show ?thesis by simp
  next
    case False
    then have "rs ! k = drop (Suc i) rs ! (k - Suc i)" "k - Suc i < length (drop (Suc i) rs)" using ik by simp_all
    then have "rs ! k \<in> set (drop (Suc i) rs)" using nth_mem by metis
    then show ?thesis by simp
  qed
  then have "?h k \<in> set (res_holes ?rest)" using pos(2) by (force simp: res_holes_def hole_def)
  moreover have "mset (res_holes ?rest) = mset (hs1 @ hs2)"
    using res_holes_update(1) [OF ik(1) pos(1)] hs(2) by (simp add: s)
  ultimately have "?h k \<in> set hs1 \<union> set hs2" by (metis mset_eq_setD set_append)
  then show ?thesis using tiled_disjoint [OF hs(1)] by (auto simp: s sorted_wrt_append)
qed

lemma add_words_too_long:
  assumes "r_u64s res \<le> length ws"
  shows "journal_add_words j res ty b l ws = None"
proof -
  have "bch2_journal_add_entry j res ty b l (length ws) = None"
    using assms by (cases "bch2_journal_add_entry j res ty b l (length ws)")
      (auto simp: bch2_journal_add_entry_def journal_entry_init_def bind_eq_Some_conv JSET_KEYS_U64s_def)
  then show ?thesis by (simp add: journal_add_words_def)
qed

lemma state_dec_inc:
  assumes "i < 4" "journal_state_inc v i = Some (Some v')"
  shows "journal_state_dec v' i = Some v"
proof -
  define x :: u64 where "x = push_bit (24 + i * 10) 1"
  have lt: "journal_state_count v i < 0x3ff" using assms(2) state_count_le [of v i] by (cases "journal_state_count v i = 0x3ff") (auto simp: journal_state_inc_def)
  have v': "v' = v + x" "unat v + unat x < 2 ^ 64"
    using assms(2) lt by (auto simp: journal_state_inc_def checked_add_Some x_def [symmetric] simp del: push_bit_of_1)
  have "x \<le> v'" using v' unat_add_lem [of v x] by (simp add: word_le_nat_alt)
  moreover have "journal_state_count v' i \<noteq> 0" using state_inc_ok [OF assms(1) lt] assms(1,2) by auto
  ultimately show ?thesis using v'(1) by (simp add: journal_state_dec_def checked_sub_def x_def [symmetric] del: push_bit_of_1)
qed

text \<open>An entry with the payload \<open>ws\<close> is written at the front of the reservation and nowhere else, or the write panics
  because the entry is too long.\<close>

definition writes_inside :: "journal \<Rightarrow> journal_res \<Rightarrow> u64 list \<Rightarrow> (journal_res \<times> journal) option \<Rightarrow> bool" where
  "writes_inside j r ws result \<longleftrightarrow>
     (if length ws < r_u64s r
      then \<exists>j'. result = Some (r\<lparr>r_offset := r_offset r + (length ws + 1), r_u64s := r_u64s r - (length ws + 1)\<rparr>, j') \<and>
             take (length ws) (drop (r_offset r + 1) (open_data j')) = ws \<and>
             (\<forall>k. k < r_offset r \<or> r_offset r + length ws < k \<longrightarrow> open_data j' ! k = open_data j ! k)
      else result = None)"

lemma add_words_inside:
  assumes inv: "journal_inv j rs" and a: "a < length rs"
  shows "writes_inside j (rs ! a) ws (journal_add_words j (rs ! a) ty bid lvl ws)"
proof (cases "length ws < r_u64s (rs ! a)")
  case True
  have ring: "ring_ok j" using inv by (simp add: journal_inv_def)
  obtain data where "journal_add_words j (rs ! a) ty bid lvl ws = Some (res_used (rs ! a) (length ws + 1), set_open j data)"
    "take (length ws) (drop (r_offset (rs ! a) + 1) data) = ws"
    "\<forall>k. \<not> in_hole k (r_offset (rs ! a), length ws + 1) \<longrightarrow> data ! k = open_data j ! k"
    using add_words_ok [OF inv a, of ws ty bid lvl] True by auto
  with True show ?thesis
    using set_open_ring(1) [OF ring, of data] by (auto simp: writes_inside_def in_hole_def res_used_def)
qed (simp add: writes_inside_def add_words_too_long)

section \<open>Properties\<close>

text \<open>
  C14: the reservation word is a packed record of an offset of 22 bits, a buffer index of 2 bits and four reference
  counts of 10 bits. Setting the offset or the index reads back and changes no other field; counting up a buffer
  changes that count alone, never carries into a neighbour, refuses exactly at the limit of the field and is undone
  by counting down, which panics exactly at zero.\<close>

theorem journal_state_fields:
  assumes "i < 4" "off < 2 ^ 22"
  shows "(journal_state_offset (journal_state_set_offset v off) = off \<and>
      journal_state_idx (journal_state_set_offset v off) = journal_state_idx v \<and>
      (\<forall>k. journal_state_count (journal_state_set_offset v off) k = journal_state_count v k)) \<and>
    (journal_state_idx (journal_state_set_idx v i) = i \<and>
      journal_state_offset (journal_state_set_idx v i) = journal_state_offset v \<and>
      (\<forall>k. journal_state_count (journal_state_set_idx v i) k = journal_state_count v k)) \<and>
    (if journal_state_count v i = 0x3ff then journal_state_inc v i = Some None
      else \<exists>v'. journal_state_inc v i = Some (Some v') \<and> journal_state_dec v' i = Some v \<and>
             journal_state_offset v' = journal_state_offset v \<and> journal_state_idx v' = journal_state_idx v \<and>
             (\<forall>k<4. journal_state_count v' k = journal_state_count v k + (if k = i then 1 else 0))) \<and>
    (journal_state_dec v i = None \<longleftrightarrow> journal_state_count v i = 0)"
proof (intro conjI)
  show "if journal_state_count v i = 0x3ff then journal_state_inc v i = Some None
      else \<exists>v'. journal_state_inc v i = Some (Some v') \<and> journal_state_dec v' i = Some v \<and>
             journal_state_offset v' = journal_state_offset v \<and> journal_state_idx v' = journal_state_idx v \<and>
             (\<forall>k<4. journal_state_count v' k = journal_state_count v k + (if k = i then 1 else 0))"
  proof (cases "journal_state_count v i = 0x3ff")
    case False
    then have "journal_state_count v i < 0x3ff" using state_count_le [of v i] by simp
    from state_inc_ok [OF assms(1) this] False show ?thesis using state_dec_inc [OF assms(1)] by auto
  qed (simp add: state_inc_full)
  show "journal_state_dec v i = None \<longleftrightarrow> journal_state_count v i = 0"
    using state_dec_ok [OF assms(1), of v] by (cases "journal_state_count v i = 0") (auto simp: journal_state_dec_def)
qed (use assms in \<open>simp_all add: state_set_offset state_set_idx\<close>)

theorem journal_state_fields_witness:
  "journal_state_offset (journal_state_set_offset (journal_state_fresh 1) 100) = 100 \<and>
   journal_state_idx (journal_state_set_idx (journal_state_fresh 1) 2) = 2 \<and>
   (\<exists>v'. journal_state_inc (journal_state_fresh 1) 2 = Some (Some v') \<and> journal_state_count v' 2 = 1)"
  using journal_state_fields [of 2 100 "journal_state_fresh 1"] state_fresh(3) [of 1 2] by auto

text \<open>
  C8: in every state a journal reaches by taking and returning reservations, writing entries into them, writing the
  open entry out, reclaiming and moving pins, the reference count of the open buffer is one more than the number of
  outstanding reservations, the other counts are zero, and the outstanding reservations are disjoint pieces of the
  open entry, which fits its buffer. An entry shorter than what is left of its reservation is written inside that
  piece and changes nothing else, a longer one panics, and returning a reservation never panics.\<close>

theorem journal_reservations_exclusive:
  assumes "reachable journal_start journal_step (j, rs)"
  shows "(\<forall>k<4. journal_state_count (j_reservations j) k = (if k = j_seq j mod 4 then length rs + 1 else 0)) \<and>
    journal_state_offset (j_reservations j) \<le> j_cur_entry_u64s j \<and> j_cur_entry_u64s j + JSET_HEADER_U64S \<le> length (open_data j) \<and>
    (\<forall>r\<in>set rs. r_ref r \<and> r_seq r = j_seq j \<and>
       (0 < r_u64s r \<longrightarrow> r_offset r + r_u64s r \<le> journal_state_offset (j_reservations j))) \<and>
    (\<forall>a<length rs. \<forall>b<length rs. a \<noteq> b \<longrightarrow> 0 < r_u64s (rs ! a) \<longrightarrow> 0 < r_u64s (rs ! b) \<longrightarrow>
       r_offset (rs ! a) + r_u64s (rs ! a) \<le> r_offset (rs ! b) \<or> r_offset (rs ! b) + r_u64s (rs ! b) \<le> r_offset (rs ! a)) \<and>
    (\<forall>a<length rs. \<forall>ty bid lvl ws. writes_inside j (rs ! a) ws (journal_add_words j (rs ! a) ty bid lvl ws)) \<and>
    (\<forall>a<length rs. bch2_journal_res_put j (rs ! a) \<noteq> None)"
proof -
  have inv: "journal_inv j rs" using journal_system.reachable_inv [OF assms] by simp
  then have w: "word_ok j (1 + length rs)" and ok: "res_ok j rs" and ring: "ring_ok j" by (auto simp: journal_inv_def)
  have 1: "\<forall>k<4. journal_state_count (j_reservations j) k = (if k = j_seq j mod 4 then length rs + 1 else 0)"
    using w by (simp add: word_ok_def JOURNAL_STATE_BUF_NR_def)
  have 2: "journal_state_offset (j_reservations j) \<le> j_cur_entry_u64s j" "j_cur_entry_u64s j + JSET_HEADER_U64S \<le> length (open_data j)"
    using w length_open_data [OF ring] by (simp_all add: word_ok_def JSET_HEADER_U64S_def)
  have 3: "\<forall>r\<in>set rs. r_ref r \<and> r_seq r = j_seq j \<and> (0 < r_u64s r \<longrightarrow> r_offset r + r_u64s r \<le> journal_state_offset (j_reservations j))"
  proof
    fix r assume r: "r \<in> set rs"
    then obtain a where a: "a < length rs" "r = rs ! a" by (auto simp: in_set_conv_nth)
    have "r_ref r \<and> r_seq r = j_seq j" using ok r by (simp add: res_ok_def)
    then show "r_ref r \<and> r_seq r = j_seq j \<and> (0 < r_u64s r \<longrightarrow> r_offset r + r_u64s r \<le> journal_state_offset (j_reservations j))"
      using res_bounds [OF ok a(1)] a(2) by simp
  qed
  have 4: "bch2_journal_res_put j (rs ! a) \<noteq> None" if "a < length rs" for a using res_put_ok [OF inv that] by auto
  show ?thesis
    by (intro conjI allI impI 1 2 3 4) (assumption | rule holes_disjoint [OF ok] add_words_inside [OF inv])+
qed

lemma default_idle: "journal_idle journal_default"
  by (auto simp: journal_idle_def journal_default_def ring_ok_def small_buckets_def journal_geometry_def Let_def
      code_consts journal_buf_default_def journal_device_default_def dest!: set_update_subset_insert [THEN subsetD])

lemma default_reachable: "reachable journal_start journal_step (journal_default, [])"
  by (rule reach_start) (simp add: default_idle)

theorem journal_reservations_exclusive_witness:
  "\<exists>j r. reachable journal_start journal_step (j, [r]) \<and> r_u64s r = 10 \<and> r_offset r = 0 \<and>
     journal_state_count (j_reservations j) 1 = 2 \<and> bch2_journal_res_put j r \<noteq> None"
proof -
  define res where "res = \<lparr>r_ref = False, r_has_overwrites = False, r_u64s = 10, r_offset = 0, r_seq = 0\<rparr>"
  have inv: "journal_inv journal_default []" by (rule idle_inv [OF default_idle])
  have word: "journal_state_offset (j_reservations journal_default) = 0" "j_seq journal_default = 1"
    "journal_state_count (j_reservations journal_default) 1 = 1"
    using state_fresh [of 1] by (simp_all add: journal_default_def Let_def code_consts)
  have "res_fits journal_default (r_u64s res) 0"
    using word by (simp add: res_fits_def res_def code_consts) (simp add: journal_default_def Let_def code_consts)
  with res_get_fast_ok [OF inv, of res 0] word obtain r v where
    r: "journal_res_get_fast journal_default res 0 = Some (True, r, journal_default\<lparr>j_reservations := v\<rparr>)"
      "r_u64s r = 10" "r_offset r = 0"
    by (auto simp: res_def)
  have "reachable journal_start journal_step (journal_default\<lparr>j_reservations := v\<rparr>, [] @ [r])"
    by (rule reach_step [OF default_reachable step_get [OF _ r(1)]]) (simp add: res_def)
  then have reach: "reachable journal_start journal_step (journal_default\<lparr>j_reservations := v\<rparr>, [r])" by simp
  show ?thesis using journal_reservations_exclusive [OF reach] reach r(2,3) word(2)
    by (intro exI [of _ "journal_default\<lparr>j_reservations := v\<rparr>"] exI [of _ r]) auto
qed

definition quiet_env :: journal_env where
  "quiet_env = \<lparr>env_flush = (\<lambda>_ j _ _. Some (0, j)), env_roots = [], env_file_len = 0, env_zero_ok = True,
     env_write_ok = True, env_sync_ok = True\<rparr>"

lemma quiet_env_ok: "callbacks_ok quiet_env"
  by (simp add: callbacks_ok_def quiet_env_def pin_drops_def)

end
