(* ===== verification/Journal_Space.thy ===== *)
theory Journal_Space
  imports Journal_Res
begin

text \<open>
  The buckets of the journal on the device. They are used round and round: from the bucket after the one being
  written come first the discarded ones, then those that are clean on disk but not discarded, then those that are
  clean in memory only, then the dirty ones up to the one being written. \<open>bucket_pos\<close> is the distance of a bucket from
  the one after the current; the three indices stay in that order, and a bucket before them holds only sequence
  numbers that are no longer needed. The loops over the buckets end, and the accounting never panics.
\<close>

section \<open>Positions of buckets\<close>

definition bucket_pos :: "journal_device \<Rightarrow> nat \<Rightarrow> nat" where
  "bucket_pos ja i = (if ja_cur_idx ja < i then i - ja_cur_idx ja - 1 else i + ja_nr ja - ja_cur_idx ja - 1)"

lemma bucket_pos_mod:
  assumes "i < ja_nr ja" "ja_cur_idx ja < ja_nr ja"
  shows "(i + ja_nr ja - ja_cur_idx ja - 1) mod ja_nr ja = bucket_pos ja i" "bucket_pos ja i < ja_nr ja"
proof -
  show "(i + ja_nr ja - ja_cur_idx ja - 1) mod ja_nr ja = bucket_pos ja i"
  proof (cases "ja_cur_idx ja < i")
    case True
    then have "i + ja_nr ja - ja_cur_idx ja - 1 = (i - ja_cur_idx ja - 1) + ja_nr ja" by simp
    then show ?thesis using True assms by (simp only: mod_add_self2) (simp add: bucket_pos_def)
  qed (use assms in \<open>simp add: bucket_pos_def\<close>)
  show "bucket_pos ja i < ja_nr ja" using assms by (auto simp: bucket_pos_def)
qed

lemma bucket_pos_inj:
  "i < ja_nr ja \<Longrightarrow> k < ja_nr ja \<Longrightarrow> ja_cur_idx ja < ja_nr ja \<Longrightarrow> bucket_pos ja i = bucket_pos ja k \<Longrightarrow> i = k"
  by (auto simp: bucket_pos_def split: if_split_asm)

lemma bucket_pos_succ:
  assumes "i < ja_nr ja" "ja_cur_idx ja < ja_nr ja" "i \<noteq> ja_cur_idx ja"
  shows "bucket_pos ja ((i + 1) mod ja_nr ja) = bucket_pos ja i + 1"
proof (cases "i + 1 = ja_nr ja")
  case True then show ?thesis using assms by (auto simp: bucket_pos_def)
next
  case False
  then have "(i + 1) mod ja_nr ja = i + 1" using assms(1) by simp
  then show ?thesis using assms by (auto simp: bucket_pos_def)
qed

lemma bucket_pos_cur: "ja_cur_idx ja < ja_nr ja \<Longrightarrow> bucket_pos ja (ja_cur_idx ja) = ja_nr ja - 1"
  by (simp add: bucket_pos_def)

text \<open>Moving the current bucket on.\<close>

lemma bucket_pos_next:
  assumes "ja_cur_idx ja < ja_nr ja" "i < ja_nr ja" "ja_cur_idx ja' = (ja_cur_idx ja + 1) mod ja_nr ja" "ja_nr ja' = ja_nr ja"
  shows "bucket_pos ja' i = (if bucket_pos ja i = 0 then ja_nr ja - 1 else bucket_pos ja i - 1)"
    "bucket_pos ja i = 0 \<longleftrightarrow> i = ja_cur_idx ja'"
proof -
  have "ja_cur_idx ja' = (if ja_cur_idx ja + 1 = ja_nr ja then 0 else ja_cur_idx ja + 1)" using assms by auto
  then show "bucket_pos ja' i = (if bucket_pos ja i = 0 then ja_nr ja - 1 else bucket_pos ja i - 1)"
    "bucket_pos ja i = 0 \<longleftrightarrow> i = ja_cur_idx ja'"
    using assms by (auto simp: bucket_pos_def)
qed

section \<open>The loops over the buckets\<close>

text \<open>The index reaches the limit or a bucket that is still needed; every bucket it passes holds only lower numbers.\<close>

lemma advance_idx_ok:
  assumes "length (ja_bucket_seq ja) = ja_nr ja" "ja_nr ja \<le> 2 ^ 31" "ja_cur_idx ja < ja_nr ja" "limit < ja_nr ja"
    and "i < ja_nr ja" "bucket_pos ja i \<le> bucket_pos ja limit"
  shows "\<exists>i'. advance_idx (ja_bucket_seq ja) (ja_nr ja) limit seq i = Some i' \<and> i' < ja_nr ja \<and>
     bucket_pos ja i \<le> bucket_pos ja i' \<and> bucket_pos ja i' \<le> bucket_pos ja limit \<and>
     (\<forall>k<ja_nr ja. bucket_pos ja i \<le> bucket_pos ja k \<longrightarrow> bucket_pos ja k < bucket_pos ja i' \<longrightarrow> ja_bucket_seq ja ! k < seq) \<and>
     (i' = limit \<or> seq \<le> ja_bucket_seq ja ! i')"
  using assms(5,6)
proof (induction "bucket_pos ja limit - bucket_pos ja i" arbitrary: i)
  case 0
  then have "i = limit" using bucket_pos_inj [OF 0(2) assms(4,3)] by simp
  then show ?case using 0 by (intro exI [of _ i]) (simp add: advance_idx.simps)
next
  case (Suc n)
  let ?i = "(i + 1) mod ja_nr ja"
  have ne: "i \<noteq> limit" using Suc by auto
  have lt: "bucket_pos ja i < bucket_pos ja limit" using Suc by simp
  then have "i \<noteq> ja_cur_idx ja"
    using bucket_pos_cur [OF assms(3)] bucket_pos_mod(2) [OF assms(4,3)] by auto
  note s = bucket_pos_succ [OF Suc.prems(1) assms(3) this]
  have i: "?i < ja_nr ja" using assms(3) by simp
  show ?case
  proof (cases "ja_bucket_seq ja ! i < seq")
    case False
    then show ?thesis using ne Suc.prems assms(1)
      by (intro exI [of _ i]) (simp add: advance_idx.simps nth_opt_in_range)
  next
    case True
    have eq: "advance_idx (ja_bucket_seq ja) (ja_nr ja) limit seq i = advance_idx (ja_bucket_seq ja) (ja_nr ja) limit seq ?i"
      using ne True Suc.prems(1) assms(1,2)
      by (subst advance_idx.simps) (simp add: nth_opt_in_range U32_MAX_def)
    have "n = bucket_pos ja limit - bucket_pos ja ?i" "bucket_pos ja ?i \<le> bucket_pos ja limit" using Suc(2) s lt by simp_all
    from Suc(1) [OF this(1) i this(2)] obtain i' where i': "advance_idx (ja_bucket_seq ja) (ja_nr ja) limit seq ?i = Some i'"
      "i' < ja_nr ja" "bucket_pos ja ?i \<le> bucket_pos ja i'" "bucket_pos ja i' \<le> bucket_pos ja limit"
      "\<forall>k<ja_nr ja. bucket_pos ja ?i \<le> bucket_pos ja k \<longrightarrow> bucket_pos ja k < bucket_pos ja i' \<longrightarrow> ja_bucket_seq ja ! k < seq"
      "i' = limit \<or> seq \<le> ja_bucket_seq ja ! i'" by blast
    have "ja_bucket_seq ja ! k < seq" if "k < ja_nr ja" "bucket_pos ja i \<le> bucket_pos ja k" "bucket_pos ja k < bucket_pos ja i'" for k
    proof (cases "k = i")
      case False
      then have "bucket_pos ja i \<noteq> bucket_pos ja k" using bucket_pos_inj [OF that(1) Suc.prems(1) assms(3)] by auto
      then show ?thesis using i'(5) that s by simp
    qed (simp add: True)
    then show ?thesis using i' s unfolding eq by (intro exI [of _ i']) simp
  qed
qed

lemma discard_loop_ok:
  assumes "ja_nr ja \<le> 2 ^ 31" "ja_cur_idx ja < ja_nr ja" "limit < ja_nr ja" "i < ja_nr ja" "bucket_pos ja i \<le> bucket_pos ja limit"
  shows "discard_loop (ja_nr ja) limit i = Some limit"
  using assms(4,5)
proof (induction "bucket_pos ja limit - bucket_pos ja i" arbitrary: i)
  case 0
  then have "i = limit" using bucket_pos_inj [OF 0(2) assms(3,2)] by simp
  then show ?case by (simp add: discard_loop.simps)
next
  case (Suc n)
  let ?i = "(i + 1) mod ja_nr ja"
  have ne: "i \<noteq> limit" using Suc by auto
  have lt: "bucket_pos ja i < bucket_pos ja limit" using Suc by simp
  then have "i \<noteq> ja_cur_idx ja"
    using bucket_pos_cur [OF assms(2)] bucket_pos_mod(2) [OF assms(3,2)] by auto
  note s = bucket_pos_succ [OF Suc.prems(1) assms(2) this]
  have "discard_loop (ja_nr ja) limit i = discard_loop (ja_nr ja) limit ?i"
    using ne Suc.prems(1) assms(1) by (subst discard_loop.simps) (simp add: U32_MAX_def)
  then show ?case using Suc(1) [of ?i] Suc(2) s lt assms(2) by simp
qed

section \<open>The invariant of the device\<close>

definition clean_before :: "journal_device \<Rightarrow> nat \<Rightarrow> nat \<Rightarrow> bool" where
  "clean_before ja i seq \<longleftrightarrow> (\<forall>k<ja_nr ja. bucket_pos ja k < bucket_pos ja i \<longrightarrow> ja_bucket_seq ja ! k < seq)"

definition device_shape :: "journal_device \<Rightarrow> bool" where
  "device_shape ja \<longleftrightarrow> length (ja_bucket_seq ja) = ja_nr ja \<and> ja_nr ja \<le> 2 ^ 31 \<and> ja_cur_idx ja < ja_nr ja \<and>
     ja_discard_idx ja < ja_nr ja \<and> ja_dirty_idx_ondisk ja < ja_nr ja \<and> ja_dirty_idx ja < ja_nr ja \<and>
     bucket_pos ja (ja_discard_idx ja) \<le> bucket_pos ja (ja_dirty_idx_ondisk ja) \<and>
     bucket_pos ja (ja_dirty_idx_ondisk ja) \<le> bucket_pos ja (ja_dirty_idx ja)"

definition dev_ok :: "journal \<Rightarrow> bool" where
  "dev_ok j \<longleftrightarrow> (let ja = j_device j in
     if ja_nr ja = 0 then ja_discard_idx ja = ja_dirty_idx_ondisk ja
     else device_shape ja \<and> clean_before ja (ja_dirty_idx_ondisk ja) (j_last_seq_ondisk j) \<and>
       clean_before ja (ja_dirty_idx ja) (j_last_seq j))"

lemma clean_before_mono: "clean_before ja i seq \<Longrightarrow> seq \<le> seq' \<Longrightarrow> clean_before ja i seq'"
  unfolding clean_before_def by (meson less_le_trans)

lemma dev_ok_mono:
  "dev_ok j \<Longrightarrow> j_device j' = j_device j \<Longrightarrow> j_last_seq_ondisk j \<le> j_last_seq_ondisk j' \<Longrightarrow> j_last_seq j \<le> j_last_seq j' \<Longrightarrow> dev_ok j'"
  unfolding dev_ok_def Let_def by (auto intro: clean_before_mono)

lemma advance_clean:
  assumes "length (ja_bucket_seq ja) = ja_nr ja" "ja_nr ja \<le> 2 ^ 31" "ja_cur_idx ja < ja_nr ja" "limit < ja_nr ja"
    and "i < ja_nr ja" "bucket_pos ja i \<le> bucket_pos ja limit" "clean_before ja i seq"
  shows "\<exists>i'. advance_idx (ja_bucket_seq ja) (ja_nr ja) limit seq i = Some i' \<and> i' < ja_nr ja \<and>
     bucket_pos ja i \<le> bucket_pos ja i' \<and> bucket_pos ja i' \<le> bucket_pos ja limit \<and> clean_before ja i' seq"
proof -
  obtain i' where i': "advance_idx (ja_bucket_seq ja) (ja_nr ja) limit seq i = Some i'" "i' < ja_nr ja"
    "bucket_pos ja i \<le> bucket_pos ja i'" "bucket_pos ja i' \<le> bucket_pos ja limit"
    "\<forall>k<ja_nr ja. bucket_pos ja i \<le> bucket_pos ja k \<longrightarrow> bucket_pos ja k < bucket_pos ja i' \<longrightarrow> ja_bucket_seq ja ! k < seq"
    using advance_idx_ok [OF assms(1-6)] by blast
  have "clean_before ja i' seq"
    unfolding clean_before_def
  proof (intro allI impI)
    fix k assume k: "k < ja_nr ja" "bucket_pos ja k < bucket_pos ja i'"
    then show "ja_bucket_seq ja ! k < seq"
      using i'(5) assms(7) by (cases "bucket_pos ja i \<le> bucket_pos ja k") (auto simp: clean_before_def)
  qed
  with i' show ?thesis by blast
qed

text \<open>The fields the accounting of space does not touch.\<close>

definition same_pins :: "journal \<Rightarrow> journal \<Rightarrow> bool" where
  "same_pins j j' \<longleftrightarrow> j_pin j' = j_pin j \<and> j_pin_front j' = j_pin_front j \<and> j_pin_mem j' = j_pin_mem j \<and>
     j_last_seq j' = j_last_seq j \<and> j_last_seq_ondisk j' = j_last_seq_ondisk j \<and> j_seq j' = j_seq j \<and>
     j_seq_ondisk j' = j_seq_ondisk j \<and> j_flush_in_progress j' = j_flush_in_progress j \<and>
     j_flush_in_progress_dropped j' = j_flush_in_progress_dropped j \<and> j_reclaim_locked j' = j_reclaim_locked j"

lemma same_pins_trans: "same_pins j j' \<Longrightarrow> same_pins j' j'' \<Longrightarrow> same_pins j j''"
  by (simp add: same_pins_def)

lemma set_watermark_ok:
  assumes "length (j_space j) = 4"
  shows "\<exists>j'. bch2_journal_set_watermark j = Some j' \<and> same_pins j j' \<and> j_device j' = j_device j"
  using assms
  by (simp add: bch2_journal_set_watermark_def nth_opt_in_range Let_def same_pins_def journal_reclaim_kick_def)

lemma buckets_available_eq:
  assumes "ja_nr ja \<noteq> 0" "space_from_idx ja from = Some i" "i < ja_nr ja" "ja_cur_idx ja < ja_nr ja" "ja_nr ja \<le> 2 ^ 31"
  shows "bch2_journal_dev_buckets_available ja from =
    Some (if bucket_pos ja i \<noteq> 0 \<and> ja_dirty_idx_ondisk ja = ja_dirty_idx ja then bucket_pos ja i - 1 else bucket_pos ja i)"
proof -
  have "require (i + ja_nr ja \<le> U32_MAX) = Some ()" "require (ja_cur_idx ja + 1 \<le> i + ja_nr ja) = Some ()"
    using assms by (simp_all add: U32_MAX_def)
  then show ?thesis
    using assms bucket_pos_mod(1) [OF assms(3,4)] by (simp add: bch2_journal_dev_buckets_available_def Let_def del: require_eq_Some)
qed

lemma device_spaces_ok:
  assumes "ja_nr ja \<noteq> 0" "ja_cur_idx ja < ja_nr ja" "ja_nr ja \<le> 2 ^ 31"
    "ja_discard_idx ja < ja_nr ja" "ja_dirty_idx_ondisk ja < ja_nr ja" "ja_dirty_idx ja < ja_nr ja"
  shows "\<exists>spaces. device_spaces ja n m = Some spaces \<and> length spaces = 4"
proof -
  have "\<exists>sp. space_from ja n m from = Some sp" if "space_from_idx ja from = Some i" "i < ja_nr ja" for "from" i
    using buckets_available_eq [OF assms(1) that assms(2,3)] by (auto simp: space_from_def Let_def)
  then obtain a b c where "space_from ja n m journal_space_discarded = Some a" "space_from ja n m journal_space_clean_ondisk = Some b"
    "space_from ja n m journal_space_clean = Some c"
    using assms by (metis space_from_idx.simps(1-3))
  then show ?thesis by (simp add: device_spaces_def Let_def)
qed

lemma space_available_ok:
  assumes "dev_ok j"
  shows "\<exists>j'. bch2_journal_space_available j = Some j' \<and> same_pins j j' \<and> dev_ok j' \<and>
     ja_cur_idx (j_device j') = ja_cur_idx (j_device j)"
proof (cases "ja_nr (j_device j) = 0")
  case True
  obtain j' where "bch2_journal_set_watermark (j\<lparr>j_space := replicate 4 journal_space_default, j_cur_entry_sectors := 0, j_cur_entry_error := 0\<rparr>) = Some j'"
    "same_pins (j\<lparr>j_space := replicate 4 journal_space_default, j_cur_entry_sectors := 0, j_cur_entry_error := 0\<rparr>) j'" "j_device j' = j_device j"
    using set_watermark_ok [of "j\<lparr>j_space := replicate 4 journal_space_default, j_cur_entry_sectors := 0, j_cur_entry_error := 0\<rparr>"] by auto
  then show ?thesis using True assms by (auto simp: bch2_journal_space_available_def same_pins_def dev_ok_def)
next
  case False
  define ja where "ja = j_device j"
  have shape: "device_shape ja" and cl: "clean_before ja (ja_dirty_idx_ondisk ja) (j_last_seq_ondisk j)" "clean_before ja (ja_dirty_idx ja) (j_last_seq j)"
    using assms False by (simp_all add: dev_ok_def Let_def ja_def)
  have ok: "length (ja_bucket_seq ja) = ja_nr ja" "ja_nr ja \<le> 2 ^ 31" "ja_cur_idx ja < ja_nr ja"
    "ja_dirty_idx_ondisk ja < ja_nr ja" "ja_dirty_idx ja < ja_nr ja"
    using shape by (simp_all add: device_shape_def)
  have "bucket_pos ja (ja_dirty_idx ja) \<le> bucket_pos ja (ja_cur_idx ja)"
    using bucket_pos_cur [OF ok(3)] bucket_pos_mod(2) [OF ok(5,3)] by simp
  from advance_clean [OF ok(1-3,3,5) this cl(2)] obtain a where
    a: "advance_idx (ja_bucket_seq ja) (ja_nr ja) (ja_cur_idx ja) (j_last_seq j) (ja_dirty_idx ja) = Some a" "a < ja_nr ja"
      "bucket_pos ja (ja_dirty_idx ja) \<le> bucket_pos ja a" "clean_before ja a (j_last_seq j)"
    by blast
  have "bucket_pos ja (ja_dirty_idx_ondisk ja) \<le> bucket_pos ja a" using a(3) shape by (simp add: device_shape_def)
  from advance_clean [OF ok(1-3) a(2) ok(4) this cl(1)] obtain b where
    b: "advance_idx (ja_bucket_seq ja) (ja_nr ja) a (j_last_seq_ondisk j) (ja_dirty_idx_ondisk ja) = Some b" "b < ja_nr ja"
      "bucket_pos ja (ja_dirty_idx_ondisk ja) \<le> bucket_pos ja b" "bucket_pos ja b \<le> bucket_pos ja a"
      "clean_before ja b (j_last_seq_ondisk j)"
    by blast
  define ja' where "ja' = ja\<lparr>ja_dirty_idx := a, ja_dirty_idx_ondisk := b\<rparr>"
  have pos: "bucket_pos ja' = bucket_pos ja" by (rule ext) (simp add: bucket_pos_def ja'_def)
  have shape': "device_shape ja'"
    using shape a(2) b(2-4) unfolding device_shape_def pos by (simp add: ja'_def)
  have cl': "clean_before ja' b (j_last_seq_ondisk j)" "clean_before ja' a (j_last_seq j)"
    using a(4) b(5) by (simp_all add: clean_before_def pos) (simp_all add: ja'_def)
  have "\<exists>spaces. device_spaces ja' n m = Some spaces \<and> length spaces = 4" for n m
    using shape' by (intro device_spaces_ok) (auto simp: device_shape_def)
  then obtain spaces where sp: "device_spaces ja' (fst (journal_geometry j)) (snd (journal_geometry j)) = Some spaces" "length spaces = 4"
    by blast
  define j1 where "j1 = j\<lparr>j_device := ja', j_flags := put_flag JOURNAL_may_skip_flush (may_skip_flush spaces) (j_flags j),
    j_space := spaces, j_cur_entry_sectors := sp_next_entry (spaces ! 0),
    j_cur_entry_error := (if sp_next_entry (spaces ! 0) \<noteq> 0 then 0 else - 9)\<rparr>"
  have "length (j_space j1) = 4" by (simp add: j1_def sp(2))
  from set_watermark_ok [OF this] obtain j' where j': "bch2_journal_set_watermark j1 = Some j'" "same_pins j1 j'" "j_device j' = j_device j1"
    by blast
  have "bch2_journal_space_available j = Some j'"
    using False a(1) b(1) sp(1) j'(1)
    by (cases "journal_geometry j") (simp add: bch2_journal_space_available_def Let_def ja_def [symmetric] ja'_def j1_def)
  moreover have "dev_ok j1"
    using shape' cl' by (simp add: dev_ok_def j1_def) (simp add: ja'_def device_shape_def)
  ultimately show ?thesis using j'(2,3) dev_ok_mono [of j1 j'] by (auto simp: same_pins_def j1_def ja'_def ja_def)
qed

lemma do_discards_ok:
  assumes "dev_ok j"
  shows "\<exists>j'. bch2_journal_do_discards j = Some j' \<and> same_pins j j' \<and> dev_ok j'"
proof -
  let ?ja = "j_device j" and ?j = "j\<lparr>j_device := (j_device j)\<lparr>ja_discard_idx := ja_dirty_idx_ondisk (j_device j)\<rparr>\<rparr>"
  have "discard_loop (ja_nr ?ja) (ja_dirty_idx_ondisk ?ja) (ja_discard_idx ?ja) = Some (ja_dirty_idx_ondisk ?ja)"
  proof (cases "ja_nr ?ja = 0")
    case True then show ?thesis using assms by (simp add: dev_ok_def Let_def discard_loop.simps)
  next
    case False then show ?thesis using assms by (intro discard_loop_ok) (auto simp: dev_ok_def Let_def device_shape_def)
  qed
  then have "bch2_journal_do_discards j = Some ?j" by (simp add: bch2_journal_do_discards_def)
  moreover have "bucket_pos (?ja\<lparr>ja_discard_idx := n\<rparr>) = bucket_pos ?ja" for n by (rule ext) (simp add: bucket_pos_def)
  then have "dev_ok ?j" using assms
    by (cases "ja_nr ?ja = 0") (simp_all add: dev_ok_def Let_def device_shape_def clean_before_def)
  ultimately show ?thesis by (simp add: same_pins_def)
qed

text \<open>The device moves only to a bucket whose records are all below the oldest sequence number needed on disk.\<close>

lemma next_bucket_ok:
  assumes dev: "dev_ok j" and eq: "journal_next_bucket j sectors n = Some (adv, j')"
  shows "dev_ok j' \<and> same_pins j j' \<and>
     (adv \<longrightarrow> ja_bucket_seq (j_device j) ! ja_cur_idx (j_device j') < j_last_seq_ondisk j \<and> ja_cur_idx (j_device j') < ja_nr (j_device j))"
proof (cases adv)
  case False
  then have "j' = j" using eq by (auto simp: journal_next_bucket_def Let_def bind_eq_Some_conv split: if_split_asm)
  then show ?thesis using dev False by (simp add: same_pins_def)
next
  case True
  let ?ja = "j_device j" and ?ja' = "j_device j'"
  obtain m where m: "bch2_journal_dev_buckets_available ?ja journal_space_discarded = Some m" "m \<noteq> 0"
    and j': "j' = j\<lparr>j_device := ?ja\<lparr>ja_cur_idx := (ja_cur_idx ?ja + 1) mod ja_nr ?ja, ja_sectors_free := n,
      ja_bucket_seq := (ja_bucket_seq ?ja)[(ja_cur_idx ?ja + 1) mod ja_nr ?ja := j_seq j]\<rparr>\<rparr>"
    using eq True by (auto simp: journal_next_bucket_def Let_def bind_eq_Some_conv split: if_split_asm)
  have nr: "ja_nr ?ja \<noteq> 0"
  proof
    assume "ja_nr ?ja = 0"
    then show False using m by (simp add: bch2_journal_dev_buckets_available_def)
  qed
  have shape: "device_shape ?ja" and cl: "clean_before ?ja (ja_dirty_idx_ondisk ?ja) (j_last_seq_ondisk j)" "clean_before ?ja (ja_dirty_idx ?ja) (j_last_seq j)"
    using dev nr by (simp_all add: dev_ok_def Let_def)
  have i: "ja_cur_idx ?ja < ja_nr ?ja" "ja_discard_idx ?ja < ja_nr ?ja" "ja_dirty_idx_ondisk ?ja < ja_nr ?ja" "ja_dirty_idx ?ja < ja_nr ?ja"
    "ja_nr ?ja \<le> 2 ^ 31" using shape by (simp_all add: device_shape_def)
  have d: "0 < bucket_pos ?ja (ja_discard_idx ?ja)"
    using buckets_available_eq [OF nr _ i(2,1,5), of journal_space_discarded] m by (auto split: if_split_asm)
  have c': "ja_cur_idx ?ja' = (ja_cur_idx ?ja + 1) mod ja_nr ?ja" "ja_nr ?ja' = ja_nr ?ja" using j' by simp_all
  note pos = bucket_pos_next [OF i(1) _ c']
  have lt: "ja_cur_idx ?ja' < ja_nr ?ja" using c' nr by simp
  have free: "ja_bucket_seq ?ja ! ja_cur_idx ?ja' < j_last_seq_ondisk j"
    using cl(1) lt pos(2) [OF lt] d shape by (simp add: clean_before_def device_shape_def)
  have cl': "clean_before ?ja' k s" if "clean_before ?ja k s" "k < ja_nr ?ja" "0 < bucket_pos ?ja k" for k s
    unfolding clean_before_def
  proof (intro allI impI)
    fix x assume x: "x < ja_nr ?ja'" "bucket_pos ?ja' x < bucket_pos ?ja' k"
    have "bucket_pos ?ja k < ja_nr ?ja" using bucket_pos_mod(2) [OF that(2) i(1)] .
    then have "bucket_pos ?ja x \<noteq> 0" "bucket_pos ?ja x < bucket_pos ?ja k" using x pos(1) [of x] pos(1) [OF that(2)] c' that(3) by (auto split: if_split_asm)
    moreover from this(1) have "x \<noteq> ja_cur_idx ?ja'" using pos(2) [of x] x c' by simp
    ultimately show "ja_bucket_seq ?ja' ! x < s" using that(1) x j' by (auto simp: clean_before_def)
  qed
  have idx: "ja_discard_idx ?ja' = ja_discard_idx ?ja" "ja_dirty_idx_ondisk ?ja' = ja_dirty_idx_ondisk ?ja" "ja_dirty_idx ?ja' = ja_dirty_idx ?ja"
    "length (ja_bucket_seq ?ja') = length (ja_bucket_seq ?ja)" using j' by simp_all
  have d2: "0 < bucket_pos ?ja (ja_dirty_idx_ondisk ?ja)" "0 < bucket_pos ?ja (ja_dirty_idx ?ja)" using d shape by (auto simp: device_shape_def)
  have "device_shape ?ja'"
    using shape d d2 lt pos(1) [OF i(2)] pos(1) [OF i(3)] pos(1) [OF i(4)]
    unfolding device_shape_def idx c'(2) by (simp add: diff_le_mono)
  then have "dev_ok j'"
    using cl' [OF cl(1) i(3) d2(1)] cl' [OF cl(2) i(4) d2(2)] nr unfolding dev_ok_def Let_def c'(2) idx by (simp add: j')
  then show ?thesis using free lt by (simp add: same_pins_def) (simp add: j')
qed

lemma write_at_dev:
  assumes dev: "dev_ok j" and eq: "journal_write_at env sb j rec wb n bs = Some (ret, j')"
  shows "dev_ok j' \<and> same_pins j j'"
  using eq
proof (cases rule: write_at_cases)
  case (3 w)
  let ?ja = "j_device j" and ?ja' = "j_device j'"
  have pos: "bucket_pos ?ja' = bucket_pos ?ja" by (rule ext) (simp add: bucket_pos_def 3)
  have cl: "clean_before ?ja' i s" if "clean_before ?ja i s" "device_shape ?ja" "i < ja_nr ?ja" for i s
    unfolding clean_before_def pos
  proof (intro allI impI)
    fix k assume k: "k < ja_nr ?ja'" "bucket_pos ?ja k < bucket_pos ?ja i"
    have "k \<noteq> ja_cur_idx ?ja"
      using k(2) bucket_pos_cur [of ?ja] bucket_pos_mod(2) [of i ?ja] that(2,3) by (auto simp: device_shape_def)
    then show "ja_bucket_seq ?ja' ! k < s" using that(1) k by (simp add: clean_before_def 3)
  qed
  have "device_shape ?ja \<Longrightarrow> device_shape ?ja'" unfolding device_shape_def pos by (simp add: 3)
  moreover have "ja_nr ?ja' = ja_nr ?ja" "ja_discard_idx ?ja' = ja_discard_idx ?ja" "ja_dirty_idx_ondisk ?ja' = ja_dirty_idx_ondisk ?ja"
    "ja_dirty_idx ?ja' = ja_dirty_idx ?ja" "j_last_seq_ondisk j' = j_last_seq_ondisk j" "j_last_seq j' = j_last_seq j"
    by (simp_all add: 3)
  ultimately have "dev_ok j'" using dev cl unfolding dev_ok_def Let_def by (auto simp: device_shape_def)
  then show ?thesis by (simp add: same_pins_def 3)
qed (use dev dev_ok_mono [OF dev] in \<open>simp_all add: same_pins_def\<close>)

lemma write_device_dev:
  assumes dev: "dev_ok j" and eq: "journal_write_device env h j rec = Some (ret, j')"
  shows "dev_ok j' \<and> same_pins j j'"
proof -
  have wr: "dev_ok j2 \<and> same_pins j1 j2" if "dev_ok j1" "journal_write_bucket env sb j1 rec wb n adv = Some (ret, j2)" for sb j1 wb n adv j2
  proof -
    have "dev_ok (j1\<lparr>j_writes := w\<rparr>)" for w by (rule dev_ok_mono [OF that(1)]) simp_all
    then show ?thesis
      using that unfolding journal_write_bucket_def Let_def bind_eq_Some_conv [of "nth_opt _ _"]
      by (elim exE conjE) (auto simp: same_pins_def split: if_split_asm dest!: write_at_dev [rotated])
  qed
  have ws: "dev_ok j' \<and> same_pins j j'" if ws: "journal_write_sectors env sb j rec n t wb = Some (ret, j')" for sb n t wb
  proof (cases "j' = j")
    case True then show ?thesis using dev by (simp add: same_pins_def)
  next
    case False
    obtain adv j1 where "journal_next_bucket j (wb div 512) n = Some (adv, j1)"
      "j1 = j' \<or> journal_write_bucket env sb j1 rec wb n adv = Some (ret, j')"
      using ws False by (auto simp: journal_write_sectors_def Let_def bind_eq_Some_conv split: if_split_asm)
    then show ?thesis using next_bucket_ok [OF dev] wr same_pins_trans by blast
  qed
  show ?thesis using eq dev
    by (auto simp: journal_write_device_def split: if_split_asm option.split_asm dest!: ws) (simp_all add: same_pins_def)
qed

end
