(* ===== verification/Journal_Pins.thy ===== *)
theory Journal_Pins
  imports Journal_Space
begin

text \<open>
  The pins of the journal. Each sequence number from the oldest one still needed to the open entry has a list of the
  pins that need it; the count of the list also counts the open entry itself and a replay that is not finished. The
  oldest sequence number the journal reports as needed is exactly the least one that is pinned, still to be replayed
  or open.
\<close>

section \<open>The invariant of the pins\<close>

definition pinned :: "journal \<Rightarrow> nat \<Rightarrow> addr set" where
  "pinned j s = {a. jp_seq (j_pin_mem j a) = s}"

definition list_ok :: "journal \<Rightarrow> nat \<Rightarrow> journal_entry_pin_list \<Rightarrow> bool" where
  "list_ok j s p \<longleftrightarrow> length (pl_unflushed p) = JOURNAL_PIN_TYPE_NR \<and>
     pl_count p = card (pinned j s) + (if s = j_seq j then 1 else 0) + (if pl_unreplayed p then 1 else 0) \<and>
     set (concat (pl_unflushed p)) \<union> set (pl_flushed p) = pinned j s"

definition pins_ok :: "journal \<Rightarrow> bool" where
  "pins_ok j \<longleftrightarrow> 0 < j_pin_front j \<and> j_pin_front j \<le> j_seq j \<and> j_pin_front j + length (j_pin j) = j_seq j + 1 \<and>
     j_last_seq j = j_pin_front j \<and> j_seq_ondisk j + 1 = j_seq j \<and> finite {a. jp_seq (j_pin_mem j a) \<noteq> 0} \<and>
     (\<forall>a. jp_seq (j_pin_mem j a) \<noteq> 0 \<longrightarrow> j_pin_front j \<le> jp_seq (j_pin_mem j a) \<and> jp_seq (j_pin_mem j a) \<le> j_seq j \<and>
        jp_flush (j_pin_mem j a) \<noteq> None) \<and>
     (\<forall>k<length (j_pin j). list_ok j (j_pin_front j + k) (j_pin j ! k))"

definition tight :: "journal \<Rightarrow> bool" where
  "tight j \<longleftrightarrow> pl_count (hd (j_pin j)) \<noteq> 0"

definition pins_inv :: "journal \<Rightarrow> bool" where
  "pins_inv j \<longleftrightarrow> pins_ok j \<and> tight j \<and> dev_ok j"

lemma pins_ok_same: "same_pins j j' \<Longrightarrow> pins_ok j \<Longrightarrow> pins_ok j'"
  unfolding pins_ok_def list_ok_def pinned_def same_pins_def by simp

lemma finite_pinned: "pins_ok j \<Longrightarrow> 0 < s \<Longrightarrow> finite (pinned j s)"
  by (rule finite_subset [of _ "{a. jp_seq (j_pin_mem j a) \<noteq> 0}"]) (auto simp: pins_ok_def pinned_def)

section \<open>The oldest sequence number\<close>

lemma drop_unpinned_split:
  assumes "drop_unpinned so f ps = (f', ps')"
  shows "\<exists>n\<le>length ps. f' = f + n \<and> ps' = drop n ps \<and> (\<forall>k<n. pl_count (ps ! k) = 0 \<and> f + k \<le> so) \<and>
     (ps' = [] \<or> so < f' \<or> pl_count (hd ps') \<noteq> 0)"
  using assms
proof (induction so f ps rule: drop_unpinned.induct)
  case (2 so f p ps)
  show ?case
  proof (cases "f \<le> so \<and> pl_count p = 0")
    case True
    then obtain n where n: "n \<le> length ps" "f' = f + 1 + n" "ps' = drop n ps" "\<forall>k<n. pl_count (ps ! k) = 0 \<and> f + 1 + k \<le> so"
      "ps' = [] \<or> so < f' \<or> pl_count (hd ps') \<noteq> 0"
      using "2.IH" "2.prems" by auto
    have "\<forall>k<Suc n. pl_count ((p # ps) ! k) = 0 \<and> f + k \<le> so" using n(4) True by (auto simp: nth_Cons less_Suc_eq_0_disj split: nat.splits)
    then show ?thesis using n by (intro exI [of _ "Suc n"]) simp
  next
    case False
    then show ?thesis using "2.prems" by (intro exI [of _ 0]) auto
  qed
qed simp

lemma update_last_seq_ok:
  assumes ok: "pins_ok j" and dev: "dev_ok j"
  shows "\<exists>j'. bch2_journal_update_last_seq j = Some j' \<and> pins_inv j' \<and> j_pin_mem j' = j_pin_mem j \<and> j_seq j' = j_seq j \<and>
     j_flush_in_progress j' = j_flush_in_progress j \<and> j_flush_in_progress_dropped j' = j_flush_in_progress_dropped j \<and>
     j_reclaim_locked j' = j_reclaim_locked j \<and> (\<exists>n. j_pin j' = drop n (j_pin j))"
proof -
  obtain f' ps' where d: "drop_unpinned (j_seq_ondisk j) (j_pin_front j) (j_pin j) = (f', ps')" by fastforce
  from drop_unpinned_split [OF d] obtain n where n: "n \<le> length (j_pin j)" "f' = j_pin_front j + n" "ps' = drop n (j_pin j)"
    "\<forall>k<n. pl_count (j_pin j ! k) = 0 \<and> j_pin_front j + k \<le> j_seq_ondisk j" "ps' = [] \<or> j_seq_ondisk j < f' \<or> pl_count (hd ps') \<noteq> 0"
    by blast
  define j1 where "j1 = j\<lparr>j_pin_front := f', j_pin := ps', j_last_seq := f'\<rparr>"
  have f: "0 < j_pin_front j" "j_pin_front j + length (j_pin j) = j_seq j + 1" "j_seq_ondisk j + 1 = j_seq j" "j_pin_front j \<le> j_seq j"
    "j_last_seq j = j_pin_front j"
    and lists: "\<And>k. k < length (j_pin j) \<Longrightarrow> list_ok j (j_pin_front j + k) (j_pin j ! k)"
    using ok by (auto simp: pins_ok_def)
  have "n < length (j_pin j)"
  proof (rule ccontr)
    assume "\<not> n < length (j_pin j)"
    then have "length (j_pin j) - 1 < n" using f(2,4) by simp
    then have "j_pin_front j + (length (j_pin j) - 1) \<le> j_seq_ondisk j" using n(4) by blast
    then show False using f by simp
  qed
  then have ne: "ps' \<noteq> []" "f' \<le> j_seq j" using n(2,3) f by auto
  have gone: "f' \<le> jp_seq (j_pin_mem j a)" if "jp_seq (j_pin_mem j a) \<noteq> 0" for a
  proof (rule ccontr)
    assume lt: "\<not> f' \<le> jp_seq (j_pin_mem j a)"
    define k where "k = jp_seq (j_pin_mem j a) - j_pin_front j"
    have ge: "j_pin_front j \<le> jp_seq (j_pin_mem j a)" using ok that by (simp add: pins_ok_def)
    then have k: "k < n" "j_pin_front j + k = jp_seq (j_pin_mem j a)" using lt n(2) by (auto simp: k_def)
    then have "card (pinned j (jp_seq (j_pin_mem j a))) = 0"
      using n(1,4) lists [of k] by (simp add: list_ok_def split: if_split_asm)
    moreover have "a \<in> pinned j (jp_seq (j_pin_mem j a))" by (simp add: pinned_def)
    ultimately show False using finite_pinned [OF ok, of "jp_seq (j_pin_mem j a)"] that by auto
  qed
  have "list_ok j1 (f' + k) (ps' ! k)" if "k < length ps'" for k
    using lists [of "n + k"] that n(2,3) by (simp add: list_ok_def pinned_def j1_def add.assoc)
  then have ok1: "pins_ok j1" using ok gone n ne f unfolding pins_ok_def j1_def by simp
  have "tight j1"
  proof (cases "j_seq_ondisk j < f'")
    case True
    then have "f' = j_seq j" using ne(2) f(3) by simp
    then show ?thesis using ok1 ne(1) by (cases ps') (auto simp: tight_def pins_ok_def list_ok_def j1_def)
  next
    case False then show ?thesis using n(5) ne(1) by (simp add: tight_def j1_def)
  qed
  have dev1: "dev_ok j1" by (rule dev_ok_mono [OF dev]) (use n(2) f(5) in \<open>simp_all add: j1_def\<close>)
  have eq: "bch2_journal_update_last_seq j = (if f' \<noteq> j_last_seq j then bch2_journal_space_available j1 \<bind> bch2_journal_do_discards else Some j1)"
    by (simp add: bch2_journal_update_last_seq_def d j1_def)
  have "\<exists>j'. bch2_journal_update_last_seq j = Some j' \<and> same_pins j1 j' \<and> dev_ok j'"
  proof (cases "f' = j_last_seq j")
    case True then show ?thesis using eq dev1 by (simp add: same_pins_def)
  next
    case False
    obtain j2 where j2: "bch2_journal_space_available j1 = Some j2" "same_pins j1 j2" "dev_ok j2"
      using space_available_ok [OF dev1] by blast
    obtain j3 where "bch2_journal_do_discards j2 = Some j3" "same_pins j2 j3" "dev_ok j3" using do_discards_ok [OF j2(3)] by blast
    then show ?thesis using eq False j2 same_pins_trans by (auto intro: exI [of _ j3])
  qed
  then obtain j' where j': "bch2_journal_update_last_seq j = Some j'" "same_pins j1 j'" "dev_ok j'" by blast
  have "pins_inv j'"
    using pins_ok_same [OF j'(2) ok1] \<open>tight j1\<close> j'(2,3) by (simp add: pins_inv_def tight_def same_pins_def)
  then show ?thesis using j' n(3) by (auto simp: same_pins_def j1_def)
qed

section \<open>Adding and removing a pin\<close>

text \<open>Changing the list of one sequence number and the pin of one address.\<close>

definition put_list :: "journal \<Rightarrow> nat \<Rightarrow> journal_entry_pin_list \<Rightarrow> addr \<Rightarrow> journal_entry_pin \<Rightarrow> journal" where
  "put_list j s p a pin = j\<lparr>j_pin := (j_pin j)[s - j_pin_front j := p], j_pin_mem := (j_pin_mem j)(a := pin)\<rparr>"

lemma put_list_simps [simp]:
  "j_pin_front (put_list j s p a pin) = j_pin_front j" "j_seq (put_list j s p a pin) = j_seq j"
  "j_last_seq (put_list j s p a pin) = j_last_seq j" "j_seq_ondisk (put_list j s p a pin) = j_seq_ondisk j"
  "j_pin (put_list j s p a pin) = (j_pin j)[s - j_pin_front j := p]" "j_pin_mem (put_list j s p a pin) = (j_pin_mem j)(a := pin)"
  "j_device (put_list j s p a pin) = j_device j" "j_last_seq_ondisk (put_list j s p a pin) = j_last_seq_ondisk j"
  by (simp_all add: put_list_def)

lemma put_list_ok:
  assumes ok: "pins_ok j" and s: "j_pin_front j \<le> s" "s \<le> j_seq j"
    and old: "jp_seq (j_pin_mem j a) = 0 \<or> jp_seq (j_pin_mem j a) = s" and new: "jp_seq pin = 0 \<or> jp_seq pin = s \<and> jp_flush pin \<noteq> None"
    and p: "list_ok (put_list j s p a pin) s p"
  shows "pins_ok (put_list j s p a pin)"
proof -
  let ?j = "put_list j s p a pin"
  have f: "j_pin_front j + length (j_pin j) = j_seq j + 1" "0 < j_pin_front j" using ok by (auto simp: pins_ok_def)
  have "list_ok ?j (j_pin_front j + k) (j_pin ?j ! k)" if k: "k < length (j_pin j)" for k
  proof (cases "k = s - j_pin_front j")
    case True
    then show ?thesis using p k s by simp
  next
    case False
    then have ne: "j_pin_front j + k \<noteq> s" by auto
    then have "pinned ?j (j_pin_front j + k) = pinned j (j_pin_front j + k)"
      using old new f(2) by (auto simp: pinned_def)
    then show ?thesis using ok k False ne by (simp add: pins_ok_def list_ok_def)
  qed
  moreover have "finite {b. jp_seq (((j_pin_mem j)(a := pin)) b) \<noteq> 0}"
    by (rule finite_subset [of _ "insert a {b. jp_seq (j_pin_mem j b) \<noteq> 0}"]) (use ok in \<open>auto simp: pins_ok_def\<close>)
  ultimately show ?thesis using ok s new unfolding pins_ok_def by simp auto
qed

lemma pins_list:
  assumes "pins_ok j" "j_pin_front j \<le> s" "s \<le> j_seq j"
  shows "s - j_pin_front j < length (j_pin j)" "list_ok j s (j_pin j ! (s - j_pin_front j))"
  using assms unfolding pins_ok_def by auto (metis add_diff_inverse_nat not_less Suc_eq_plus1 add_diff_cancel_left' diff_less_mono le_imp_less_Suc)

lemma pin_put_ok:
  assumes ok: "pins_ok j" and act: "jp_seq (j_pin_mem j a) = s" "s \<noteq> 0"
  shows "\<exists>p. pin_put j s a = Some (j\<lparr>j_pin := (j_pin j)[s - j_pin_front j := p]\<rparr>) \<and>
     pins_ok (put_list j s p a ((j_pin_mem j a)\<lparr>jp_seq := 0\<rparr>)) \<and>
     s - j_pin_front j < length (j_pin j) \<and>
     pl_unflushed p = map (filter (\<lambda>b. b \<noteq> a)) (pl_unflushed (j_pin j ! (s - j_pin_front j)))"
proof -
  have s: "j_pin_front j \<le> s" "s \<le> j_seq j" using ok act by (auto simp: pins_ok_def)
  define q where "q = j_pin j ! (s - j_pin_front j)"
  define p where "p = pin_list_remove a (q\<lparr>pl_count := pl_count q - 1\<rparr>)"
  note l = pins_list [OF ok s, folded q_def]
  have a: "a \<in> pinned j s" "finite (pinned j s)" using act finite_pinned [OF ok] by (auto simp: pinned_def)
  then have c: "pl_count q \<noteq> 0" "card (pinned j s) = card (pinned j s - {a}) + 1"
    using l(2) card_Suc_Diff1 [OF a(2,1)] by (auto simp: list_ok_def)
  let ?j = "put_list j s p a ((j_pin_mem j a)\<lparr>jp_seq := 0\<rparr>)"
  have "pinned ?j s = pinned j s - {a}" using act by (auto simp: pinned_def)
  then have "list_ok ?j s p" using l(2) c by (auto simp: list_ok_def p_def pin_list_remove_def)
  then have "pins_ok ?j" using ok s act(1) by (intro put_list_ok) auto
  moreover have "pin_put j s a = Some (j\<lparr>j_pin := (j_pin j)[s - j_pin_front j := p]\<rparr>)"
    using s(1) l(1) c(1) by (simp add: pin_put_def nth_opt_in_range upd_opt_in_range q_def [symmetric] p_def)
  moreover have "pl_unflushed p = map (filter (\<lambda>b. b \<noteq> a)) (pl_unflushed (j_pin j ! (s - j_pin_front j)))"
    by (simp add: p_def q_def pin_list_remove_def)
  ultimately show ?thesis using l(1) by blast
qed

text \<open>The pins that are not written back yet.\<close>

definition unflushed :: "journal \<Rightarrow> addr set" where
  "unflushed j = (\<Union>p\<in>set (j_pin j). set (concat (pl_unflushed p)))"

lemma finite_unflushed [simp]: "finite (unflushed j)"
  by (simp add: unflushed_def)

lemma unflushed_drop: "j_pin j' = drop n (j_pin j) \<Longrightarrow> unflushed j' \<subseteq> unflushed j"
  by (auto simp: unflushed_def dest: in_set_dropD)

lemma unflushed_filter:
  assumes "pl_unflushed p = map (filter P) (pl_unflushed (ps ! i))" "i < length ps"
  shows "(\<Union>p\<in>set (ps[i := p]). set (concat (pl_unflushed p))) \<subseteq> (\<Union>p\<in>set ps. set (concat (pl_unflushed p)))"
proof -
  have "set (concat (pl_unflushed p)) \<subseteq> set (concat (pl_unflushed (ps ! i)))" using assms(1) by auto
  then show ?thesis using set_update_subset_insert [of ps i p] nth_mem [OF assms(2)] by blast
qed

lemma pin_drop_ok:
  assumes inv: "pins_inv j"
  shows "\<exists>j'. bch2_journal_pin_drop j a = Some j' \<and> pins_inv j' \<and> j_seq j' = j_seq j \<and>
     j_pin_mem j' = (j_pin_mem j)(a := (j_pin_mem j a)\<lparr>jp_seq := 0\<rparr>) \<and> j_flush_in_progress j' = j_flush_in_progress j \<and>
     (j_flush_in_progress_dropped j' \<longrightarrow> j_flush_in_progress_dropped j \<or> j_flush_in_progress j = a) \<and>
     j_reclaim_locked j' = j_reclaim_locked j \<and> unflushed j' \<subseteq> unflushed j"
proof (cases "jp_seq (j_pin_mem j a) = 0")
  case True
  then have "(j_pin_mem j a)\<lparr>jp_seq := 0\<rparr> = j_pin_mem j a" by simp
  then show ?thesis using True inv by (simp add: bch2_journal_pin_drop_def fun_upd_idem)
next
  case False
  let ?s = "jp_seq (j_pin_mem j a)" and ?pin = "(j_pin_mem j a)\<lparr>jp_seq := 0\<rparr>"
  have ok: "pins_ok j" and dev: "dev_ok j" using inv by (auto simp: pins_inv_def)
  obtain p where p: "pin_put j ?s a = Some (j\<lparr>j_pin := (j_pin j)[?s - j_pin_front j := p]\<rparr>)" "pins_ok (put_list j ?s p a ?pin)"
    "?s - j_pin_front j < length (j_pin j)" "pl_unflushed p = map (filter (\<lambda>b. b \<noteq> a)) (pl_unflushed (j_pin j ! (?s - j_pin_front j)))"
    using pin_put_ok [OF ok refl False] by blast
  define j1 where "j1 = j\<lparr>j_pin := (j_pin j)[?s - j_pin_front j := p]\<rparr>"
  define j2 where "j2 = (if j_flush_in_progress j1 = a then j1\<lparr>j_flush_in_progress_dropped := True\<rparr> else j1)"
  define j3 where "j3 = j2\<lparr>j_pin_mem := (j_pin_mem j2)(a := (j_pin_mem j2 a)\<lparr>jp_seq := 0\<rparr>)\<rparr>"
  have f: "j_pin_front j3 = j_pin_front j" "j_pin j3 = (j_pin j)[?s - j_pin_front j := p]" "j_pin_mem j3 = (j_pin_mem j)(a := ?pin)"
    "j_last_seq j3 = j_last_seq j" "j_last_seq_ondisk j3 = j_last_seq_ondisk j" "j_seq j3 = j_seq j" "j_seq_ondisk j3 = j_seq_ondisk j"
    "j_device j3 = j_device j" "j_flush_in_progress j3 = j_flush_in_progress j" "j_reclaim_locked j3 = j_reclaim_locked j"
    "j_flush_in_progress_dropped j3 \<longleftrightarrow> j_flush_in_progress_dropped j \<or> j_flush_in_progress j = a"
    by (simp_all add: j3_def j2_def j1_def)
  have sub: "unflushed j3 \<subseteq> unflushed j" unfolding unflushed_def f(2) by (rule unflushed_filter [OF p(4,3)])
  have ok3: "pins_ok j3" using f(1-7) p(2) by (simp add: pins_ok_def list_ok_def pinned_def)
  have dev3: "dev_ok j3" by (rule dev_ok_mono [OF dev]) (simp_all add: f)
  have "bch2_journal_pin_drop j a = bch2_journal_update_last_seq j3"
    using False p(1) by (simp add: bch2_journal_pin_drop_def Let_def j1_def j2_def j3_def)
  moreover obtain j' n where "bch2_journal_update_last_seq j3 = Some j'" "pins_inv j'" "j_pin_mem j' = j_pin_mem j3" "j_seq j' = j_seq j3"
     "j_flush_in_progress j' = j_flush_in_progress j3" "j_flush_in_progress_dropped j' = j_flush_in_progress_dropped j3"
     "j_reclaim_locked j' = j_reclaim_locked j3" "j_pin j' = drop n (j_pin j3)"
    using update_last_seq_ok [OF ok3 dev3] by blast
  ultimately show ?thesis using unflushed_drop [of j' n j3] sub f by auto
qed

lemma set_concat_snoc:
  assumes "t < length qs"
  shows "set (concat (qs[t := qs ! t @ [a]])) = insert a (set (concat qs))"
proof -
  have 1: "set (concat (qs[t := qs ! t @ [a]])) = set (concat (take t qs)) \<union> (set (qs ! t) \<union> {a}) \<union> set (concat (drop (Suc t) qs))"
    unfolding upd_conv_take_nth_drop [OF assms] by (simp only: concat_append concat.simps set_append list.set Un_assoc)
  have 2: "set (concat qs) = set (concat (take t qs)) \<union> set (qs ! t) \<union> set (concat (drop (Suc t) qs))"
    by (subst id_take_nth_drop [OF assms]) (simp only: concat_append concat.simps set_append Un_assoc)
  show ?thesis unfolding 1 2 by blast
qed

lemma pin_add_list:
  assumes ok: "pins_ok j" and s: "j_pin_front j \<le> s" "s \<le> j_seq j" and idle: "jp_seq (j_pin_mem j a) = 0"
    and t: "t < JOURNAL_PIN_TYPE_NR" and q: "q = j_pin j ! (s - j_pin_front j)"
    and p: "p = q\<lparr>pl_count := pl_count q + 1, pl_unflushed := (pl_unflushed q)[t := pl_unflushed q ! t @ [a]]\<rparr>"
  shows "pins_ok (put_list j s p a \<lparr>jp_seq = s, jp_flush = Some f\<rparr>)"
proof -
  note l = pins_list [OF ok s, folded q]
  let ?j = "put_list j s p a \<lparr>jp_seq = s, jp_flush = Some f\<rparr>"
  have pos: "0 < s" using ok s by (simp add: pins_ok_def)
  have pinned: "pinned ?j s = insert a (pinned j s)" "a \<notin> pinned j s" using idle pos by (auto simp: pinned_def)
  have t': "t < length (pl_unflushed q)" using l(2) t by (simp add: list_ok_def)
  then have "set (concat ((pl_unflushed q)[t := pl_unflushed q ! t @ [a]])) = insert a (set (concat (pl_unflushed q)))"
    by (rule set_concat_snoc)
  then have "list_ok ?j s p"
    using l(2) pinned finite_pinned [OF ok pos] by (auto simp: list_ok_def p)
  then show ?thesis using ok s idle by (intro put_list_ok) auto
qed

lemma pin_type_less: "pin_type_index (journal_pin_type_of node_level a f) < JOURNAL_PIN_TYPE_NR"
  by (cases "journal_pin_type_of node_level a f") (simp_all add: code_consts)

lemma pin_set_inv:
  assumes inv: "pins_inv j" and eq: "bch2_journal_pin_set node_level j s a f = Some j'"
  shows "pins_inv j' \<and> j_seq j' = j_seq j \<and> j_pin_mem j' = (j_pin_mem j)(a := \<lparr>jp_seq = s, jp_flush = Some f\<rparr>) \<and>
     j_flush_in_progress j' = j_flush_in_progress j \<and> j_reclaim_locked j' = j_reclaim_locked j"
proof -
  let ?old = "jp_seq (j_pin_mem j a)" and ?t = "pin_type_index (journal_pin_type_of node_level a f)"
  have ok: "pins_ok j" and dev: "dev_ok j" and ti: "tight j" using inv by (auto simp: pins_inv_def)
  define d where "d = (?old \<noteq> 0 \<and> j_flush_in_progress j = a)"
  define j0 where "j0 = (if d then j\<lparr>j_flush_in_progress_dropped := True\<rparr> else j)"
  have j0: "j_pin_mem j0 = j_pin_mem j" "j_pin j0 = j_pin j" "j_pin_front j0 = j_pin_front j" "j_seq j0 = j_seq j"
    "j_last_seq j0 = j_last_seq j" "j_last_seq_ondisk j0 = j_last_seq_ondisk j" "j_seq_ondisk j0 = j_seq_ondisk j" "j_device j0 = j_device j"
    "j_flush_in_progress j0 = j_flush_in_progress j" "j_reclaim_locked j0 = j_reclaim_locked j"
    by (simp_all add: j0_def)
  then have ok0: "pins_ok j0" using ok by (simp add: pins_ok_def list_ok_def pinned_def)
  obtain pins1 where p1: "(if ?old \<noteq> 0 then pin_put j0 ?old a else Some j0) = Some (j0\<lparr>j_pin := pins1\<rparr>)"
    and ok1: "pins_ok (j0\<lparr>j_pin := pins1, j_pin_mem := (j_pin_mem j)(a := (j_pin_mem j a)\<lparr>jp_seq := 0\<rparr>)\<rparr>)"
    and same1: "?old = 0 \<Longrightarrow> pins1 = j_pin j"
  proof (cases "?old = 0")
    case True
    then have "(j_pin_mem j)(a := (j_pin_mem j a)\<lparr>jp_seq := 0\<rparr>) = j_pin_mem j" by (simp add: fun_upd_idem)
    then show ?thesis using that [of "j_pin j"] True ok0 j0 by (simp add: pins_ok_def list_ok_def pinned_def)
  next
    case False
    then show ?thesis using pin_put_ok [OF ok0, of a ?old] j0 that by (auto simp: put_list_def)
  qed
  define j1 where "j1 = j0\<lparr>j_pin := pins1, j_pin_mem := (j_pin_mem j)(a := (j_pin_mem j a)\<lparr>jp_seq := 0\<rparr>)\<rparr>"
  define q where "q = pins1 ! (s - j_pin_front j)"
  define p where "p = q\<lparr>pl_count := pl_count q + 1, pl_unflushed := (pl_unflushed q)[?t := pl_unflushed q ! ?t @ [a]]\<rparr>"
  define j2 where "j2 = j0\<lparr>j_pin := pins1[s - j_pin_front j := p], j_pin_mem := (j_pin_mem j)(a := \<lparr>jp_seq = s, jp_flush = Some f\<rparr>)\<rparr>"
  have put: "(if ?old \<noteq> 0 then pin_put j0 ?old a else Some j0) \<bind> F = F (j0\<lparr>j_pin := pins1\<rparr>)" for F :: "journal \<Rightarrow> journal option"
    by (simp only: p1 bind.bind_lunit)
  have s: "j_pin_front j \<le> s" "s - j_pin_front j < length pins1"
    and res: "(if ?old \<noteq> 0 then bch2_journal_update_last_seq j2 else Some j2) = Some j'"
    using eq unfolding bch2_journal_pin_set_def Let_def d_def [symmetric] j0_def [symmetric] put
    by (auto simp: bind_eq_Some_conv j0 q_def p_def j2_def)
  have "j_pin_front j + length pins1 = j_seq j + 1" using ok1 j0 by (simp add: pins_ok_def)
  then have s': "s \<le> j_seq j" using s by linarith
  have "j2 = put_list j1 s p a \<lparr>jp_seq = s, jp_flush = Some f\<rparr>" by (simp add: j2_def put_list_def j1_def j0)
  moreover have "pins_ok (put_list j1 s p a \<lparr>jp_seq = s, jp_flush = Some f\<rparr>)"
    by (rule pin_add_list [OF ok1 [folded j1_def] _ _ _ pin_type_less, of _ _ q]) (use s s' j0 in \<open>simp_all add: j1_def q_def p_def\<close>)
  ultimately have ok2: "pins_ok j2" by simp
  have dev2: "dev_ok j2" by (rule dev_ok_mono [OF dev]) (simp_all add: j2_def j0)
  show ?thesis
  proof (cases "?old = 0")
    case False
    then show ?thesis using update_last_seq_ok [OF ok2 dev2] res by (auto simp: j2_def j0)
  next
    case True
    have "tight j2"
      using ti same1 [OF True] s ok by (cases "j_pin j"; cases "s - j_pin_front j") (auto simp: tight_def j2_def p_def q_def)
    then show ?thesis using True res ok2 dev2 by (auto simp: pins_inv_def j2_def j0)
  qed
qed

lemma replay_put_lists:
  assumes "\<forall>k<length ps. list_ok j (f + k) (ps ! k)"
  shows "\<exists>ps'. replay_put n ps = Some ps' \<and> length ps' = length ps \<and> (\<forall>k<length ps. list_ok j (f + k) (ps' ! k))"
  using assms
proof (induction n ps arbitrary: f rule: replay_put.induct)
  case (2 n p ps)
  show ?case
  proof (cases "n = 0")
    case False
    have l: "list_ok j f p" "\<forall>k<length ps. list_ok j (Suc f + k) (ps ! k)" using "2.prems" by (force, auto)
    define p' where "p' = (if pl_unreplayed p then p\<lparr>pl_unreplayed := False, pl_count := pl_count p - 1\<rparr> else p)"
    have p': "list_ok j f p'" using l(1) by (auto simp: p'_def list_ok_def)
    have eq: "(if pl_unreplayed p then do { require (pl_count p \<noteq> 0); Some (p\<lparr>pl_unreplayed := False, pl_count := pl_count p - 1\<rparr>) } else Some p) = Some p'"
      using l(1) by (auto simp: p'_def list_ok_def)
    obtain ps' where "replay_put (n - 1) ps = Some ps'" "length ps' = length ps" "\<forall>k<length ps. list_ok j (Suc f + k) (ps' ! k)"
      using "2.IH" [OF False eq l(2)] by blast
    then show ?thesis using False p' by (intro exI [of _ "p' # ps'"]) (auto simp: eq nth_Cons split: nat.splits)
  qed (use 2 in auto)
qed simp

lemma replay_pins_put_ok:
  assumes inv: "pins_inv j"
  shows "\<exists>j'. bch2_journal_replay_pins_put j s = Some j' \<and> pins_inv j' \<and> j_seq j' = j_seq j \<and> j_pin_mem j' = j_pin_mem j \<and>
     j_flush_in_progress j' = j_flush_in_progress j \<and> j_reclaim_locked j' = j_reclaim_locked j"
proof -
  have ok: "pins_ok j" and dev: "dev_ok j" using inv by (auto simp: pins_inv_def)
  obtain ps where ps: "replay_put (min s (j_seq j) - j_pin_front j) (j_pin j) = Some ps" "length ps = length (j_pin j)"
    "\<forall>k<length (j_pin j). list_ok j (j_pin_front j + k) (ps ! k)"
    using replay_put_lists [of "j_pin j" j "j_pin_front j" "min s (j_seq j) - j_pin_front j"] ok by (auto simp: pins_ok_def)
  have ok1: "pins_ok (j\<lparr>j_pin := ps\<rparr>)" using ok ps(2,3) by (simp add: pins_ok_def list_ok_def pinned_def)
  have dev1: "dev_ok (j\<lparr>j_pin := ps\<rparr>)" by (rule dev_ok_mono [OF dev]) simp_all
  show ?thesis using update_last_seq_ok [OF ok1 dev1] ps(1) by (auto simp: bch2_journal_replay_pins_put_def)
qed

lemma update_last_seq_ondisk_ok:
  assumes inv: "pins_inv j"
  shows "\<exists>ret j'. bch2_journal_update_last_seq_ondisk j s = Some (ret, j') \<and> pins_inv j' \<and> j_seq j' = j_seq j \<and> j_pin_mem j' = j_pin_mem j \<and>
     j_flush_in_progress j' = j_flush_in_progress j \<and> j_reclaim_locked j' = j_reclaim_locked j"
proof -
  have ok: "pins_ok j" and dev: "dev_ok j" and ti: "tight j" using inv by (auto simp: pins_inv_def)
  let ?j = "j\<lparr>j_last_seq_ondisk := s\<rparr>"
  have "dev_ok ?j" if "j_last_seq_ondisk j < s" by (rule dev_ok_mono [OF dev]) (use that in simp_all)
  then show ?thesis
  proof (cases "j_last_seq_ondisk j < s \<and> s \<le> j_seq j \<and> s \<le> j_last_seq j")
    case True
    then have "dev_ok ?j" using \<open>j_last_seq_ondisk j < s \<Longrightarrow> dev_ok ?j\<close> by simp
    then obtain j1 where j1: "bch2_journal_space_available ?j = Some j1" "same_pins ?j j1" "dev_ok j1" using space_available_ok by blast
    obtain j2 where j2: "bch2_journal_do_discards j1 = Some j2" "same_pins j1 j2" "dev_ok j2" using do_discards_ok [OF j1(3)] by blast
    have same: "same_pins ?j j2" using same_pins_trans [OF j1(2) j2(2)] .
    have "pins_ok ?j" using ok by (simp add: pins_ok_def list_ok_def pinned_def)
    then have "pins_inv j2" using pins_ok_same [OF same] ti same j2(3) by (simp add: pins_inv_def tight_def same_pins_def)
    then show ?thesis using True j1 j2 same by (auto simp: bch2_journal_update_last_seq_ondisk_def same_pins_def)
  qed (use inv in \<open>auto simp: bch2_journal_update_last_seq_ondisk_def\<close>)
qed

section \<open>Reclaiming and writing\<close>

lemma pins_inv_frame:
  assumes "pins_inv j" "j_pin_front j' = j_pin_front j" "j_pin j' = j_pin j" "j_pin_mem j' = j_pin_mem j" "j_last_seq j' = j_last_seq j"
    "j_last_seq_ondisk j' = j_last_seq_ondisk j" "j_seq j' = j_seq j" "j_seq_ondisk j' = j_seq_ondisk j" "j_device j' = j_device j"
  shows "pins_inv j'"
proof -
  have "pins_ok j'" using assms by (simp add: pins_inv_def pins_ok_def list_ok_def pinned_def)
  moreover have "dev_ok j'" using assms dev_ok_mono [of j j'] by (simp add: pins_inv_def)
  ultimately show ?thesis using assms by (simp add: pins_inv_def tight_def)
qed

lemma pin_drops_inv: "pin_drops j j' \<Longrightarrow> pins_inv j \<Longrightarrow> pins_inv j'"
  unfolding pin_drops_def
proof (induction rule: rtranclp_induct)
  case (step j1 j2)
  then obtain a where "bch2_journal_pin_drop j1 a = Some j2" "pins_inv j1" by blast
  then show ?case using pin_drop_ok [of j1 a] by auto
qed simp

lemma pin_set_flushed_inv:
  assumes inv: "pins_inv j" and act: "jp_seq (j_pin_mem j a) = s"
  shows "pins_inv (pin_set_flushed j a s)"
proof (cases "j_pin_front j \<le> s \<and> s - j_pin_front j < length (j_pin j)")
  case True
  define q where "q = j_pin j ! (s - j_pin_front j)"
  define p where "p = pin_list_flushed a q"
  have ok: "pins_ok j" using inv by (simp add: pins_inv_def)
  have f: "0 < j_pin_front j" "j_pin_front j + length (j_pin j) = j_seq j + 1" using ok by (auto simp: pins_ok_def)
  have s: "j_pin_front j \<le> s" "s \<le> j_seq j" using True f by linarith+
  note l = pins_list [OF ok s, folded q_def]
  have a: "a \<in> pinned j s" using act by (simp add: pinned_def)
  have "put_list j s p a (j_pin_mem j a) = pin_set_flushed j a s"
    using True by (simp add: put_list_def pin_set_flushed_def p_def q_def Let_def)
  moreover have "list_ok (put_list j s p a (j_pin_mem j a)) s p"
    using l(2) a by (auto simp: list_ok_def p_def pin_list_flushed_def pinned_def)
  then have "pins_ok (put_list j s p a (j_pin_mem j a))"
    using ok s act f(1) by (intro put_list_ok) (auto simp: pins_ok_def)
  ultimately have "pins_ok (pin_set_flushed j a s)" by simp
  moreover have "dev_ok (pin_set_flushed j a s)"
    using inv dev_ok_mono [of j "pin_set_flushed j a s"] True by (simp add: pins_inv_def pin_set_flushed_def Let_def)
  moreover have "tight (pin_set_flushed j a s)"
    using inv True by (cases "j_pin j"; cases "s - j_pin_front j") (auto simp: pins_inv_def tight_def pin_set_flushed_def pin_list_flushed_def)
  ultimately show ?thesis by (simp add: pins_inv_def)
next
  case False
  then show ?thesis using inv by (auto simp: pin_set_flushed_def)
qed

lemma open_next_shape:
  assumes "journal_open_next j rec e = Some (0, j')" "n = j_seq j - j_pin_front j" "n < length (j_pin j)"
  shows "pl_count (j_pin j ! n) \<noteq> 0 \<and> j_pin j' = (j_pin j)[n := (j_pin j ! n)\<lparr>pl_count := pl_count (j_pin j ! n) - 1\<rparr>] @ [journal_pin_list_init 1] \<and>
     j_pin_front j' = j_pin_front j \<and> j_pin_mem j' = j_pin_mem j \<and> j_seq j' = j_seq j + 1 \<and> j_seq_ondisk j' = j_seq j \<and>
     j_last_seq j' = j_last_seq j \<and> j_last_seq_ondisk j \<le> j_last_seq_ondisk j' \<and> j_device j' = j_device j \<and> j_writes j' = j_writes j"
proof -
  have "nth_opt (j_pin j @ [journal_pin_list_init 1]) n = Some (j_pin j ! n)" using assms(3) by (simp add: nth_opt_in_range nth_append)
  moreover have "upd_opt (j_pin j @ [journal_pin_list_init 1]) n p = Some ((j_pin j)[n := p] @ [journal_pin_list_init 1])" for p
    using assms(3) by (simp add: upd_opt_in_range list_update_append1)
  ultimately show ?thesis
    using assms(1) unfolding journal_open_next_def Let_def
    by (auto simp: bind_eq_Some_conv assms(2) [symmetric] simp del: nth_opt_Some upd_opt_Some split: if_split_asm)
qed

lemma open_next_pins:
  assumes inv: "pins_inv j" and eq: "journal_open_next j rec e = Some (ret, j')"
  shows "if ret = 0 then pins_ok j' \<and> dev_ok j' else pins_inv j'"
proof (cases "ret = 0")
  case False
  then have "j' = j\<lparr>j_closed := j_closed j @ [rec]\<rparr>" using open_next_fail [OF eq] by simp
  then show ?thesis using False pins_inv_frame [OF inv, of j'] by simp
next
  case True
  have ok: "pins_ok j" and dev: "dev_ok j" using inv by (auto simp: pins_inv_def)
  define n where "n = j_seq j - j_pin_front j"
  have f: "j_pin_front j + length (j_pin j) = j_seq j + 1" "j_pin_front j \<le> j_seq j" using ok by (auto simp: pins_ok_def)
  then have n: "n < length (j_pin j)" "length (j_pin j) = Suc n" by (simp_all add: n_def)
  note j' = open_next_shape [OF eq [unfolded True] n_def n(1)]
  have le: "jp_seq (j_pin_mem j a) \<le> j_seq j" for a
    using ok by (cases "jp_seq (j_pin_mem j a) = 0") (simp_all add: pins_ok_def)
  then have none: "pinned j (j_seq j + 1) = {}" by (auto simp: pinned_def Suc_le_eq [symmetric] dest: le_antisym) (metis le Suc_n_not_le_n)
  have pinned: "pinned j' = pinned j" by (rule ext) (simp add: pinned_def j')
  have old: "list_ok j (j_pin_front j + k) (j_pin j ! k)" if "k < length (j_pin j)" for k using ok that by (simp add: pins_ok_def)
  have "list_ok j' (j_pin_front j + k) (j_pin j' ! k)" if k: "k < Suc (length (j_pin j))" for k
  proof -
    consider "k = Suc n" | "k = n" | "k < n" using k n by linarith
    then show ?thesis
    proof cases
      case 1
      have k: "j_pin j' ! k = journal_pin_list_init 1" "j_pin_front j + k = j_seq j + 1" using 1 n f by (simp_all add: j' nth_append n_def)
      show ?thesis unfolding k list_ok_def pinned none
        by (simp add: j' journal_pin_list_init_def pin_list_default_def)
    next
      case 2
      have k: "j_pin j' ! k = (j_pin j ! n)\<lparr>pl_count := pl_count (j_pin j ! n) - 1\<rparr>" "j_pin_front j + k = j_seq j"
        using 2 n f by (simp_all add: j' nth_append n_def)
      have "list_ok j (j_seq j) (j_pin j ! n)" using old [OF n(1)] 2 k(2) by simp
      then show ?thesis unfolding k list_ok_def pinned by (simp add: j')
    next
      case 3
      have k: "j_pin j' ! k = j_pin j ! k" "j_pin_front j + k \<noteq> j_seq j" "j_pin_front j + k \<noteq> j_seq j + 1"
        using 3 n f by (simp_all add: j' nth_append n_def)
      show ?thesis using old [of k] 3 n k unfolding k list_ok_def pinned by (simp add: j')
    qed
  qed
  moreover have "jp_seq (j_pin_mem j a) \<le> Suc (j_seq j)" for a using le [of a] by simp
  ultimately have "pins_ok j'" using ok f unfolding pins_ok_def by (simp add: j')
  moreover have "dev_ok j'" by (rule dev_ok_mono [OF dev]) (simp_all add: j')
  ultimately show ?thesis using True by simp
qed

end
