(* ===== verification/Journal_System.thy ===== *)
theory Journal_System
  imports Journal_Pins
begin

unbundle bit_operations_syntax

text \<open>
  The journal as a whole. Writing back pins ends, because each round takes one pin off the pins that are not written
  back; the writes of an entry go to the free rest of the current bucket or to a bucket that is no longer needed; and
  the oldest sequence number the journal reports is the least one something still needs.
\<close>

section \<open>Writing back ends\<close>

lemma unflushed_pinned:
  assumes "pins_ok j" "k < length (j_pin j)" "a \<in> set (concat (pl_unflushed (j_pin j ! k)))"
  shows "jp_seq (j_pin_mem j a) = j_pin_front j + k" "0 < j_pin_front j + k"
proof -
  have "list_ok j (j_pin_front j + k) (j_pin j ! k)" "0 < j_pin_front j" using assms(1,2) by (simp_all add: pins_ok_def)
  then show "jp_seq (j_pin_mem j a) = j_pin_front j + k" "0 < j_pin_front j + k" using assms(3) by (auto simp: list_ok_def pinned_def)
qed

lemma unflushed_elim:
  assumes "a \<in> unflushed j"
  obtains k where "k < length (j_pin j)" "a \<in> set (concat (pl_unflushed (j_pin j ! k)))"
proof -
  obtain p where "p \<in> set (j_pin j)" "a \<in> set (concat (pl_unflushed p))" using assms unfolding unflushed_def by blast
  then show thesis using that by (auto simp del: set_concat simp: in_set_conv_nth [of p])
qed

lemma first_pin_type_mem: "first_pin_type lo hi low n qs = Some a \<Longrightarrow> a \<in> set (concat qs)"
  by (induction lo hi low n qs rule: first_pin_type.induct) (auto split: if_split_asm)

lemma find_next_pin_mem:
  "find_next_pin s lo hi f ps = Some (a, q) \<Longrightarrow>
     \<exists>k<length ps. q = f + k \<and> a \<in> set (concat (pl_unflushed (ps ! k)))"
proof (induction s lo hi f ps rule: find_next_pin.induct)
  case (2 s lo hi f p ps)
  show ?case
  proof (cases "first_pin_type lo hi (f \<le> s) 0 (pl_unflushed p)")
    case None
    then obtain k where "k < length ps" "q = f + 1 + k" "a \<in> set (concat (pl_unflushed (ps ! k)))"
      using 2 by (auto split: if_split_asm)
    then show ?thesis by (intro exI [of _ "Suc k"]) simp
  next
    case (Some b)
    then show ?thesis using "2.prems" first_pin_type_mem [OF Some] by (intro exI [of _ 0]) (auto split: if_split_asm)
  qed
qed simp

text \<open>What holds while a callback writes back the pin \<open>a\<close> of the sequence number \<open>s\<close>.\<close>

definition writing_back :: "addr \<Rightarrow> nat \<Rightarrow> journal \<Rightarrow> bool" where
  "writing_back a s j \<longleftrightarrow> pins_inv j \<and> j_flush_in_progress j = a \<and> jp_seq (j_pin_mem j a) \<in> {0, s} \<and>
     (j_flush_in_progress_dropped j \<longrightarrow> jp_seq (j_pin_mem j a) = 0)"

lemma pin_drops_writing_back:
  assumes "pin_drops j j'" "writing_back a s j"
  shows "writing_back a s j' \<and> unflushed j' \<subseteq> unflushed j \<and> j_reclaim_locked j' = j_reclaim_locked j"
  using assms unfolding pin_drops_def
proof (induction rule: rtranclp_induct)
  case (step j1 j2)
  then obtain b where b: "bch2_journal_pin_drop j1 b = Some j2" and w: "writing_back a s j1" "unflushed j1 \<subseteq> unflushed j"
    "j_reclaim_locked j1 = j_reclaim_locked j"
    by blast
  have "pins_inv j1" using w(1) by (simp add: writing_back_def)
  from pin_drop_ok [OF this, of b] b obtain m: "pins_inv j2" "j_pin_mem j2 = (j_pin_mem j1)(b := (j_pin_mem j1 b)\<lparr>jp_seq := 0\<rparr>)"
    "j_flush_in_progress j2 = j_flush_in_progress j1" "unflushed j2 \<subseteq> unflushed j1" "j_reclaim_locked j2 = j_reclaim_locked j1"
    "j_flush_in_progress_dropped j2 \<longrightarrow> j_flush_in_progress_dropped j1 \<or> j_flush_in_progress j1 = b"
    by auto
  then have "writing_back a s j2" using w(1) unfolding writing_back_def by auto
  then show ?case using m w by auto
qed simp

lemma pin_set_flushed_unflushed:
  assumes inv: "pins_inv j" and act: "jp_seq (j_pin_mem j a) = s" "s \<noteq> 0"
  shows "unflushed (pin_set_flushed j a s) \<subseteq> unflushed j - {a}"
proof -
  have ok: "pins_ok j" using inv by (simp add: pins_inv_def)
  have s: "j_pin_front j \<le> s" "s \<le> j_seq j" using ok act by (auto simp: pins_ok_def)
  note l = pins_list(1) [OF ok s]
  let ?j = "pin_set_flushed j a s" and ?p = "pin_list_flushed a (j_pin j ! (s - j_pin_front j))"
  have j: "j_pin ?j = (j_pin j)[s - j_pin_front j := ?p]" "j_pin_front ?j = j_pin_front j" "j_pin_mem ?j = j_pin_mem j"
    using s l by (simp_all add: pin_set_flushed_def Let_def)
  have "unflushed ?j \<subseteq> unflushed j"
    unfolding unflushed_def j(1) by (rule unflushed_filter [OF _ l, where P = "\<lambda>b. b \<noteq> a"]) (simp add: pin_list_flushed_def)
  moreover have "a \<notin> unflushed ?j"
  proof
    assume "a \<in> unflushed ?j"
    then obtain k where k: "k < length (j_pin ?j)" "a \<in> set (concat (pl_unflushed (j_pin ?j ! k)))" by (rule unflushed_elim)
    have "pins_ok ?j" using pin_set_flushed_inv [OF inv act(1)] by (simp add: pins_inv_def)
    from unflushed_pinned [OF this k] have "k = s - j_pin_front j" using act(1) j by simp
    then show False using k(2) l j(1) by (simp add: pin_list_flushed_def)
  qed
  ultimately show ?thesis by blast
qed

lemma not_unflushed:
  assumes "pins_inv j" "jp_seq (j_pin_mem j a) = 0"
  shows "a \<notin> unflushed j"
proof
  assume "a \<in> unflushed j"
  then obtain k where k: "k < length (j_pin j)" "a \<in> set (concat (pl_unflushed (j_pin j ! k)))" by (rule unflushed_elim)
  have "pins_ok j" using assms(1) by (simp add: pins_inv_def)
  from unflushed_pinned [OF this k] assms(2) show False by simp
qed

definition reclaim_idle :: "journal \<Rightarrow> bool" where
  "reclaim_idle j \<longleftrightarrow> pins_inv j \<and> j_flush_in_progress j = 0"

text \<open>One round: a pin is found and its callback returns.\<close>

lemma flush_round:
  assumes idle: "reclaim_idle j" and cb: "callbacks_ok env"
    and found: "find_next_pin s lo hi (j_pin_front j) (j_pin j) = Some (a, q)"
  shows "\<exists>f j1 ret j2. journal_get_next_pin j s lo hi = Some (Some (a, q, f), j1) \<and> env_flush env f j1 a q = Some (ret, j2) \<and>
     (let j3 = (if ret = 0 \<and> \<not> j_flush_in_progress_dropped j2 \<and> jp_seq (j_pin_mem j2 a) = q then pin_set_flushed j2 a q else j2);
          j4 = j3\<lparr>j_flush_in_progress := 0, j_flush_in_progress_dropped := False\<rparr>
      in reclaim_idle j4 \<and> unflushed j4 \<subseteq> unflushed j \<and> (ret = 0 \<longrightarrow> unflushed j4 \<subset> unflushed j) \<and>
         j_reclaim_locked j4 = j_reclaim_locked j)"
proof -
  have inv: "pins_inv j" and ok: "pins_ok j" using idle by (auto simp: reclaim_idle_def pins_inv_def)
  obtain k where k: "k < length (j_pin j)" "q = j_pin_front j + k" "a \<in> set (concat (pl_unflushed (j_pin j ! k)))"
    using find_next_pin_mem [OF found] by blast
  have q: "jp_seq (j_pin_mem j a) = q" "q \<noteq> 0" using unflushed_pinned [OF ok k(1,3)] k(2) by simp_all
  then obtain f where f: "jp_flush (j_pin_mem j a) = Some f" using ok by (auto simp: pins_ok_def)
  define j1 where "j1 = j\<lparr>j_flush_in_progress := a, j_flush_in_progress_dropped := False\<rparr>"
  have get: "journal_get_next_pin j s lo hi = Some (Some (a, q, f), j1)"
    using idle by (simp add: journal_get_next_pin_def found f reclaim_idle_def j1_def)
  have u1: "unflushed j1 = unflushed j" by (simp add: unflushed_def j1_def)
  have w1: "writing_back a q j1" using q(1) pins_inv_frame [OF inv, of j1] by (simp add: writing_back_def j1_def)
  obtain ret j2 where e: "env_flush env f j1 a q = Some (ret, j2)"
    and d: "pin_drops j1 j2"
    using cb unfolding callbacks_ok_def by blast
  from pin_drops_writing_back [OF d w1] have w2: "writing_back a q j2" "unflushed j2 \<subseteq> unflushed j" "j_reclaim_locked j2 = j_reclaim_locked j"
    using u1 by (auto simp: j1_def)
  have inv2: "pins_inv j2" using w2(1) by (simp add: writing_back_def)
  define c where "c \<longleftrightarrow> ret = 0 \<and> \<not> j_flush_in_progress_dropped j2 \<and> jp_seq (j_pin_mem j2 a) = q"
  define j3 where "j3 = (if c then pin_set_flushed j2 a q else j2)"
  define j4 where "j4 = j3\<lparr>j_flush_in_progress := 0, j_flush_in_progress_dropped := False\<rparr>"
  have inv3: "pins_inv j3" using inv2 pin_set_flushed_inv [OF inv2, of a q] by (simp add: j3_def c_def)
  have u3: "unflushed j3 \<subseteq> unflushed j2" "c \<Longrightarrow> a \<notin> unflushed j3"
    using pin_set_flushed_unflushed [OF inv2 _ q(2), of a] by (auto simp: j3_def c_def)
  have "a \<notin> unflushed j3" if "ret = 0"
  proof (cases c)
    case False
    then have "jp_seq (j_pin_mem j2 a) = 0" using w2(1) that by (auto simp: c_def writing_back_def)
    then show ?thesis using not_unflushed [OF inv2] False by (simp add: j3_def)
  qed (rule u3(2))
  moreover have "a \<in> unflushed j" using k(1,3) by (force simp: unflushed_def)
  moreover have u4: "unflushed j4 = unflushed j3" by (simp add: unflushed_def j4_def)
  ultimately have "ret = 0 \<longrightarrow> unflushed j4 \<subset> unflushed j" "unflushed j4 \<subseteq> unflushed j" using u3(1) w2(2) by auto
  moreover have "reclaim_idle j4" using pins_inv_frame [OF inv3, of j4] by (simp add: reclaim_idle_def j4_def)
  moreover have "j_reclaim_locked j4 = j_reclaim_locked j" using w2(3) by (simp add: j4_def j3_def pin_set_flushed_def Let_def)
  ultimately show ?thesis using get e
    by (rule_tac x = f in exI, rule_tac x = j1 in exI, rule_tac x = ret in exI, rule_tac x = j2 in exI)
      (simp only: Let_def c_def [symmetric] j3_def [symmetric] j4_def [symmetric] simp_thms)
qed

lemma flush_pins_total:
  assumes cb: "callbacks_ok env" and idle: "reclaim_idle j"
  shows "\<exists>n' j'. journal_flush_pins env j s lo hi m n = Some (n', j') \<and> reclaim_idle j' \<and> unflushed j' \<subseteq> unflushed j \<and>
     n \<le> n' \<and> (n < n' \<longrightarrow> unflushed j' \<subset> unflushed j) \<and> n' + card (unflushed j') \<le> n + card (unflushed j) \<and>
     j_reclaim_locked j' = j_reclaim_locked j"
  using idle
proof (induction "card (unflushed j)" arbitrary: j m n rule: less_induct)
  case less
  let ?lo = "if m \<noteq> 0 then - 1 else lo" and ?hi = "if m \<noteq> 0 then - 1 else hi"
  show ?case
  proof (cases "find_next_pin s ?lo ?hi (j_pin_front j) (j_pin j)")
    case None
    then have "journal_get_next_pin j s ?lo ?hi = Some (None, j)" by (simp add: journal_get_next_pin_def)
    then have "journal_flush_pins env j s lo hi m n = Some (n, j)"
      by (subst journal_flush_pins.simps) (simp only: bind.bind_lunit prod.case option.case)
    then show ?thesis using less.prems by simp
  next
    case (Some x)
    obtain a q where x: "x = (a, q)" by (cases x) auto
    from flush_round [OF less.prems cb Some [unfolded x]] obtain f j1 ret j2 where
      r: "journal_get_next_pin j s ?lo ?hi = Some (Some (a, q, f), j1)" "env_flush env f j1 a q = Some (ret, j2)"
        "let j3 = (if ret = 0 \<and> \<not> j_flush_in_progress_dropped j2 \<and> jp_seq (j_pin_mem j2 a) = q then pin_set_flushed j2 a q else j2);
             j4 = j3\<lparr>j_flush_in_progress := 0, j_flush_in_progress_dropped := False\<rparr>
         in reclaim_idle j4 \<and> unflushed j4 \<subseteq> unflushed j \<and> (ret = 0 \<longrightarrow> unflushed j4 \<subset> unflushed j) \<and>
            j_reclaim_locked j4 = j_reclaim_locked j"
      by blast
    define j4 where "j4 = (if ret = 0 \<and> \<not> j_flush_in_progress_dropped j2 \<and> jp_seq (j_pin_mem j2 a) = q then pin_set_flushed j2 a q else j2)
      \<lparr>j_flush_in_progress := 0, j_flush_in_progress_dropped := False\<rparr>"
    have j4: "reclaim_idle j4" "unflushed j4 \<subseteq> unflushed j" "ret = 0 \<longrightarrow> unflushed j4 \<subset> unflushed j" "j_reclaim_locked j4 = j_reclaim_locked j"
      using r(3) unfolding Let_def j4_def [symmetric] by auto
    have eq: "journal_flush_pins env j s lo hi m n =
      (if ret \<noteq> 0 then Some (n, j4) else journal_flush_pins env j4 s lo hi (m - 1) (n + 1))"
      by (subst journal_flush_pins.simps) (simp only: r(1,2) bind.bind_lunit prod.case option.case Let_def j4_def [symmetric])
    show ?thesis
    proof (cases "ret = 0")
      case False then show ?thesis using eq j4 card_mono [OF finite_unflushed j4(2)] by simp
    next
      case True
      then have sub: "unflushed j4 \<subset> unflushed j" using j4(3) by blast
      then have lt: "card (unflushed j4) < card (unflushed j)" by (simp add: psubset_card_mono)
      from less.hyps [OF lt j4(1), of "m - 1" "n + 1"] obtain n' j' where
        "journal_flush_pins env j4 s lo hi (m - 1) (n + 1) = Some (n', j')" "reclaim_idle j'" "unflushed j' \<subseteq> unflushed j4"
        "n + 1 \<le> n'" "n' + card (unflushed j') \<le> n + 1 + card (unflushed j4)" "j_reclaim_locked j' = j_reclaim_locked j4" by blast
      then show ?thesis using eq True sub j4(4) lt by auto
    qed
  qed
qed

lemma seq_to_flush_ok: "dev_ok j \<Longrightarrow> journal_seq_to_flush j \<noteq> None"
proof (cases "ja_nr (j_device j) = 0")
  case False
  assume "dev_ok j"
  then have shape: "device_shape (j_device j)" using False by (simp add: dev_ok_def Let_def)
  then have "(ja_cur_idx (j_device j) + ja_nr (j_device j) div 2) mod ja_nr (j_device j) < length (ja_bucket_seq (j_device j))"
    using False by (simp add: device_shape_def)
  moreover have "ja_cur_idx (j_device j) + ja_nr (j_device j) div 2 \<le> U32_MAX"
    using shape unfolding device_shape_def U32_MAX_def by auto
  ultimately show ?thesis by (simp add: journal_seq_to_flush_def Let_def nth_opt_in_range)
qed (simp add: journal_seq_to_flush_def)

lemma reclaim_idle_nr: "reclaim_idle (j\<lparr>j_nr_direct_reclaim := n\<rparr>) = reclaim_idle j" "reclaim_idle (j\<lparr>j_nr_background_reclaim := n\<rparr>) = reclaim_idle j"
  "reclaim_idle (j\<lparr>j_reclaim_locked := b\<rparr>) = reclaim_idle j"
  by (auto simp: reclaim_idle_def elim!: pins_inv_frame)

lemma raw_reclaim_total:
  assumes cb: "callbacks_ok env" and idle: "reclaim_idle j"
  shows "\<exists>j'. raw_bch2_journal_reclaim env direct kicked j = Some (0, j') \<and> reclaim_idle j' \<and> unflushed j' \<subseteq> unflushed j \<and>
     j_reclaim_locked j' = j_reclaim_locked j"
  using idle
proof (induction "card (unflushed j)" arbitrary: j kicked rule: less_induct)
  case less
  define m :: nat where "m = (if kicked \<or> journal_med_on_space j then 1 else 0)"
  obtain s where s: "journal_seq_to_flush j = Some s" using seq_to_flush_ok [of j] less.prems by (auto simp: reclaim_idle_def pins_inv_def)
  obtain nr j1 where j1: "journal_flush_pins env j s (- 1) 0 m 0 = Some (nr, j1)" "reclaim_idle j1" "unflushed j1 \<subseteq> unflushed j"
    "0 < nr \<longrightarrow> unflushed j1 \<subset> unflushed j" "j_reclaim_locked j1 = j_reclaim_locked j"
    using flush_pins_total [OF cb less.prems, of s "- 1" 0 m 0] by blast
  define j2 where "j2 = (if direct then j1\<lparr>j_nr_direct_reclaim := (j_nr_direct_reclaim j1 + nr) mod 2 ^ 64\<rparr>
                         else j1\<lparr>j_nr_background_reclaim := (j_nr_background_reclaim j1 + nr) mod 2 ^ 64\<rparr>)"
  have j2: "reclaim_idle j2" "unflushed j2 = unflushed j1" "j_reclaim_locked j2 = j_reclaim_locked j1"
    using j1(2) by (simp_all add: j2_def reclaim_idle_nr unflushed_def)
  have eq: "raw_bch2_journal_reclaim env direct kicked j =
     (if direct \<or> m = 0 \<or> nr = 0 then Some (0, j2) else raw_bch2_journal_reclaim env direct False j2)"
    by (subst raw_bch2_journal_reclaim.simps) (simp only: s m_def [symmetric] Let_def j1(1) bind.bind_lunit prod.case j2_def)
  show ?case
  proof (cases "direct \<or> m = 0 \<or> nr = 0")
    case True then show ?thesis using eq j1 j2 by simp
  next
    case False
    then have "card (unflushed j2) < card (unflushed j)" using j1(4) j2(2) by (simp add: psubset_card_mono)
    from less.hyps [OF this j2(1), of False] show ?thesis using eq False j1(3,5) j2 by auto
  qed
qed

section \<open>Writing to the device\<close>

lemma disk_image_ok:
  assumes "length rec \<le> n"
  shows "\<exists>disk. disk_image sb rec n = Some disk \<and> length disk = n"
proof -
  define disk where "disk = (rec @ replicate (n - length rec) 0)[0 := 0, 1 := 0, 2 := sb_uuid_lo sb XOR JSET_MAGIC,
    4 := metadata_version_current OR push_bit 32 (ucast BCH_CSUM_xxhash)]"
  obtain c where "bch2_checksum BCH_CSUM_xxhash
      (concat (map (\<lambda>w. map (\<lambda>i. ucast (drop_bit (8 * i) w)) [0..<8]) (take (length rec - 2) (drop 2 disk)))) = Some c"
    using bch2_checksum_returns by blast
  then have "disk_image sb rec n = Some (disk[0 := csum_lo c, 1 := csum_hi c])"
    by (simp only: disk_image_def Let_def disk_def [symmetric] bind.bind_lunit)
  then show ?thesis using assms by (simp add: disk_def)
qed

text \<open>The sectors a write may touch: inside one bucket, which is the current one after the sectors already used, or one
  whose records are all older than the oldest sequence number needed on disk.\<close>

definition write_allowed :: "journal \<Rightarrow> nat \<Rightarrow> nat \<times> u64 list \<Rightarrow> bool" where
  "write_allowed j n w \<longleftrightarrow> (let ja = j_device j in \<exists>k<ja_nr ja. let first = ja_buckets ja ! k * n in
     first \<le> fst w \<and> fst w * 64 + length (snd w) \<le> (first + n) * 64 \<and>
     (if k = ja_cur_idx ja then first + (n - ja_sectors_free ja) \<le> fst w else ja_bucket_seq ja ! k < j_last_seq_ondisk j))"

text \<open>The buckets lie on a device whose size in bytes fits 64 bits, and no more sectors are free than a bucket has,
  none when there is no bucket.\<close>

definition geometry_ok :: "journal \<Rightarrow> bool" where
  "geometry_ok j \<longleftrightarrow> (ja_nr (j_device j) = 0 \<longrightarrow> ja_sectors_free (j_device j) = 0) \<and>
     (let n = fst (journal_geometry j) in n \<noteq> 0 \<longrightarrow>
       ja_sectors_free (j_device j) \<le> n \<and> (\<forall>b\<in>set (ja_buckets (j_device j)). (b + 1) * n * 512 < 2 ^ 64))"

lemma write_at_total:
  assumes "ja_sectors_free (j_device j) \<le> n" "k \<le> ja_sectors_free (j_device j)" "(b + 1) * n * 512 < 2 ^ 64"
    "length rec \<le> k * 64" "ja_cur_idx (j_device j) < length (ja_bucket_seq (j_device j))"
  shows "\<exists>ret j'. journal_write_at env sb j rec (k * 512) n (b * n) = Some (ret, j') \<and> (ret = 0 \<or> ret = - 5) \<and>
     (\<exists>ws. j_writes j' = ws @ j_writes j \<and>
        (\<forall>w\<in>set ws. fst w = b * n + (n - ja_sectors_free (j_device j)) \<and> length (snd w) = k * 64))"
proof -
  let ?ja = "j_device j"
  let ?s = "b * n + (n - ja_sectors_free ?ja)"
  have "?s + k \<le> (b + 1) * n" using assms(1,2) by simp
  then have "?s * 512 + k * 512 \<le> (b + 1) * n * 512" by (metis add_mult_distrib mult_le_mono1)
  then have fits: "?s * 512 + k * 512 < 2 ^ 64" using assms(3) by linarith
  obtain disk where disk: "disk_image sb rec (k * 64) = Some disk" "length disk = k * 64" using disk_image_ok [OF assms(4)] by blast
  have k: "k * 512 div 512 = k" "k * 512 div 8 = k * 64" by simp_all
  let ?w = "j\<lparr>j_writes := (?s, disk) # j_writes j\<rparr>"
  have eq: "journal_write_at env sb j rec (k * 512) n (b * n) =
     (if ?s * 512 + k * 512 > env_file_len env \<or> \<not> env_write_ok env then Some (- 5, j)
      else if \<not> env_sync_ok env then Some (- 5, ?w)
      else Some (0, ?w\<lparr>j_device := ?ja\<lparr>ja_sectors_free := ja_sectors_free ?ja - k,
        ja_bucket_seq := (ja_bucket_seq ?ja)[ja_cur_idx ?ja := j_seq j], ja_highest_seq_found := j_seq j\<rparr>\<rparr>))"
    using assms(1,5) fits disk(1) unfolding journal_write_at_def Let_def k
    by (simp add: upd_opt_in_range)
  show ?thesis unfolding eq using disk(2)
    by (auto intro: exI [of _ "[]"] exI [of _ "[(?s, disk)]"])
qed

lemma next_bucket_total:
  assumes dev: "dev_ok j" and nr: "ja_nr (j_device j) \<noteq> 0"
  shows "\<exists>adv j1. journal_next_bucket j s n = Some (adv, j1) \<and> ja_buckets (j_device j1) = ja_buckets (j_device j) \<and>
     j_writes j1 = j_writes j \<and> ja_sectors_free (j_device j1) = (if adv then n else ja_sectors_free (j_device j)) \<and>
     ja_nr (j_device j1) = ja_nr (j_device j) \<and> (\<not> adv \<longrightarrow> j1 = j) \<and> (adv \<longrightarrow> ja_cur_idx (j_device j1) \<noteq> ja_cur_idx (j_device j))"
proof (cases "s > ja_sectors_free (j_device j) \<and> s \<le> n")
  case False
  then have "journal_next_bucket j s n = Some (False, j)" by (auto simp: journal_next_bucket_def)
  then show ?thesis by (intro exI [of _ False] exI [of _ j]) simp
next
  case True
  let ?ja = "j_device j"
  let ?i = "(ja_cur_idx ?ja + 1) mod ja_nr ?ja"
  have shape: "device_shape ?ja" using dev nr by (simp add: dev_ok_def Let_def)
  have i: "ja_cur_idx ?ja < ja_nr ?ja" "ja_discard_idx ?ja < ja_nr ?ja" "ja_nr ?ja \<le> 2 ^ 31" "length (ja_bucket_seq ?ja) = ja_nr ?ja"
    using shape by (simp_all add: device_shape_def)
  obtain m where m: "bch2_journal_dev_buckets_available ?ja journal_space_discarded = Some m" "m \<noteq> 0 \<Longrightarrow> 0 < bucket_pos ?ja (ja_discard_idx ?ja)"
    using buckets_available_eq [OF nr _ i(2,1,3), of journal_space_discarded] by (auto split: if_split_asm)
  show ?thesis
  proof (cases "m = 0")
    case m0: True
    then show ?thesis using True m(1) by (intro exI [of _ False] exI [of _ j]) (simp add: journal_next_bucket_def Let_def)
  next
    case False
    then have "1 < ja_nr ?ja" using m(2) bucket_pos_mod(2) [OF i(2,1)] by linarith
    then have ne: "?i \<noteq> ja_cur_idx ?ja" using i(1) by (cases "ja_cur_idx ?ja + 1 = ja_nr ?ja") auto
    have up: "upd_opt (ja_bucket_seq ?ja) ?i (j_seq j) = Some ((ja_bucket_seq ?ja)[?i := j_seq j])" using i(4) nr by (simp add: upd_opt_in_range)
    have "ja_cur_idx ?ja + 1 \<le> U32_MAX" using i(1,3) unfolding U32_MAX_def by simp
    then have eq: "journal_next_bucket j s n = Some (True, j\<lparr>j_device := ?ja\<lparr>ja_cur_idx := ?i, ja_sectors_free := n,
        ja_bucket_seq := (ja_bucket_seq ?ja)[?i := j_seq j]\<rparr>\<rparr>)"
      unfolding journal_next_bucket_def Let_def using True m(1) False
      by (simp only: if_True bind.bind_lunit simp_thms up require_True not_False_eq_True)
    show ?thesis unfolding eq by (rule exI [of _ True]) (use ne in simp)
  qed
qed

lemma write_bucket_total:
  assumes i: "ja_cur_idx (j_device j) < length (ja_buckets (j_device j))" "ja_cur_idx (j_device j) < length (ja_bucket_seq (j_device j))"
    and fit: "ja_sectors_free (j_device j) \<le> n" "k \<le> ja_sectors_free (j_device j)" "adv \<Longrightarrow> ja_sectors_free (j_device j) = n"
    and b: "b = ja_buckets (j_device j) ! ja_cur_idx (j_device j)" "(b + 1) * n * 512 < 2 ^ 64" and len: "length rec \<le> k * 64"
  shows "\<exists>ret j'. journal_write_bucket env sb j rec (k * 512) n adv = Some (ret, j') \<and> (ret = 0 \<or> ret = - 5) \<and>
     (\<exists>ws. j_writes j' = ws @ j_writes j \<and>
        (\<forall>w\<in>set ws. b * n + (n - ja_sectors_free (j_device j)) \<le> fst w \<and> fst w * 64 + length (snd w) \<le> (b * n + n) * 64))"
proof -
  have bucket: "nth_opt (ja_buckets (j_device j)) (ja_cur_idx (j_device j)) = Some b" using i(1) b(1) by (simp add: nth_opt_in_range)
  have fits: "(b * n + (n - ja_sectors_free (j_device j))) * 64 + k * 64 \<le> (b * n + n) * 64" using fit(1,2) by (simp add: algebra_simps)
  define j1 where "j1 = (if adv then j\<lparr>j_writes := (b * n, replicate (n * 64) 0) # j_writes j\<rparr> else j)"
  have dev: "j_device j1 = j_device j" by (simp add: j1_def)
  obtain ret j' ws where w: "journal_write_at env sb j1 rec (k * 512) n (b * n) = Some (ret, j')" "ret = 0 \<or> ret = - 5"
    "j_writes j' = ws @ j_writes j1" "\<forall>w\<in>set ws. fst w = b * n + (n - ja_sectors_free (j_device j)) \<and> length (snd w) = k * 64"
    using write_at_total [of j1 n k b rec env sb] fit(1,2) b(2) len i(2) dev by auto
  have eq: "journal_write_bucket env sb j rec (k * 512) n adv = (if adv \<and> \<not> env_zero_ok env then Some (- 5, j) else Some (ret, j'))"
    using w(1) by (simp add: journal_write_bucket_def bucket j1_def split: if_split_asm)
  show ?thesis
  proof (cases "adv \<and> \<not> env_zero_ok env")
    case True
    then have "journal_write_bucket env sb j rec (k * 512) n adv = Some (- 5, j)" using eq by simp
    then show ?thesis by simp
  next
    case False
    define zs where "zs = (if adv then [(b * n, replicate (n * 64) (0 :: u64))] else [])"
    have "j_writes j' = (ws @ zs) @ j_writes j" using w(3) by (simp add: j1_def zs_def)
    moreover have "b * n + (n - ja_sectors_free (j_device j)) \<le> fst x \<and> fst x * 64 + length (snd x) \<le> (b * n + n) * 64" if "x \<in> set (ws @ zs)" for x
    proof (cases "x \<in> set ws")
      case True then show ?thesis using w(4) fits by auto
    next
      case False then have "adv" "x = (b * n, replicate (n * 64) 0)" using that by (auto simp: zs_def split: if_split_asm)
      then show ?thesis using fit(3) by (simp add: algebra_simps)
    qed
    ultimately show ?thesis using False w(2) by (auto simp: eq)
  qed
qed

lemma write_sectors_total:
  assumes dev: "dev_ok j" and none: "ja_nr (j_device j) = 0 \<Longrightarrow> ja_sectors_free (j_device j) = 0"
    and geo: "n \<noteq> 0 \<Longrightarrow> ja_sectors_free (j_device j) \<le> n \<and> (\<forall>b\<in>set (ja_buckets (j_device j)). (b + 1) * n * 512 < 2 ^ 64)"
    and len: "length rec \<le> k * 64" "0 < k"
  shows "\<exists>ret j'. journal_write_sectors env sb j rec n tb (k * 512) = Some (ret, j') \<and> ret \<in> {0, - 4, - 5, - 9} \<and>
     (\<exists>ws. j_writes j' = ws @ j_writes j \<and> (\<forall>w\<in>set ws. write_allowed j n w))"
proof -
  let ?ja = "j_device j"
  define bad where "bad \<longleftrightarrow> n = 0 \<or> tb = 0 \<or> k > n \<or> ja_nr ?ja \<noteq> tb mod 2 ^ 32 \<or> length (ja_buckets ?ja) \<noteq> ja_nr ?ja \<or> length (ja_bucket_seq ?ja) \<noteq> ja_nr ?ja"
  have eq: "journal_write_sectors env sb j rec n tb (k * 512) = (if bad then Some (- 4, j) else
      journal_next_bucket j k n \<bind> (\<lambda>(adv, j1). if k > ja_sectors_free (j_device j1) then Some (- 9, j1)
        else journal_write_bucket env sb j1 rec (k * 512) n adv))"
    by (auto simp: journal_write_sectors_def bad_def Let_def)
  consider "bad" | "\<not> bad" "ja_nr ?ja = 0" | "\<not> bad" "ja_nr ?ja \<noteq> 0" by blast
  then show ?thesis
  proof cases
    case 2
    then have "journal_next_bucket j k n = Some (False, j)" by (simp add: journal_next_bucket_def bch2_journal_dev_buckets_available_def Let_def)
    then show ?thesis using 2 none len(2) by (simp add: eq)
  next
    case 3
    obtain adv j1 where j1: "journal_next_bucket j k n = Some (adv, j1)" "ja_buckets (j_device j1) = ja_buckets ?ja" "j_writes j1 = j_writes j"
      "ja_sectors_free (j_device j1) = (if adv then n else ja_sectors_free ?ja)" "ja_nr (j_device j1) = ja_nr ?ja" "\<not> adv \<longrightarrow> j1 = j"
      "adv \<longrightarrow> ja_cur_idx (j_device j1) \<noteq> ja_cur_idx ?ja"
      using next_bucket_total [OF dev 3(2), of k n] by blast
    have g: "n \<noteq> 0" "ja_sectors_free ?ja \<le> n" "\<forall>b\<in>set (ja_buckets ?ja). (b + 1) * n * 512 < 2 ^ 64" "length (ja_buckets ?ja) = ja_nr ?ja"
      using geo 3(1) by (simp_all add: bad_def)
    note nb = next_bucket_ok [OF dev j1(1)]
    have "device_shape (j_device j1)" using nb 3(2) j1(5) by (simp add: dev_ok_def Let_def)
    then have c: "ja_cur_idx (j_device j1) < ja_nr ?ja" "length (ja_bucket_seq (j_device j1)) = ja_nr ?ja" using j1(5) by (simp_all add: device_shape_def)
    show ?thesis
    proof (cases "k > ja_sectors_free (j_device j1)")
      case True then show ?thesis using 3(1) j1 by (simp add: eq)
    next
      case False
      define b where "b = ja_buckets (j_device j1) ! ja_cur_idx (j_device j1)"
      have bb: "b \<in> set (ja_buckets ?ja)" using c(1) g(4) j1(2) by (simp add: b_def)
      obtain ret j' ws where w: "journal_write_bucket env sb j1 rec (k * 512) n adv = Some (ret, j')" "ret = 0 \<or> ret = - 5"
        "j_writes j' = ws @ j_writes j1"
        "\<forall>w\<in>set ws. b * n + (n - ja_sectors_free (j_device j1)) \<le> fst w \<and> fst w * 64 + length (snd w) \<le> (b * n + n) * 64"
        using write_bucket_total [of j1 n k adv b rec env sb] c g bb False len(1) j1(2,4) by (auto simp: b_def split: if_split_asm)
      have "write_allowed j n x" if "x \<in> set ws" for x
        unfolding write_allowed_def Let_def
        by (rule exI [of _ "ja_cur_idx (j_device j1)"]) (use w(4) that c(1) nb j1 in \<open>auto simp: b_def split: if_split_asm\<close>)
      then show ?thesis using w(1-3) 3(1) j1(1,3) False by (auto simp: eq)
    qed
  qed (simp add: eq)
qed

lemma next_multiple_sectors:
  assumes "0 < m"
  shows "\<exists>k. next_multiple_of x (m * 512) = k * 512 \<and> x \<le> k * 512"
proof -
  have m: "0 < m * 512" using assms by simp
  define q where "q = (x + m * 512 - 1) div (m * 512)"
  have "x + m * 512 - 1 < q * (m * 512) + m * 512" using dividend_less_div_times [OF m, of "x + m * 512 - 1"] by (simp add: q_def)
  then have "x \<le> q * (m * 512)" using m by linarith
  then show ?thesis by (intro exI [of _ "q * m"]) (simp add: next_multiple_of_def q_def)
qed

lemma write_device_total:
  assumes dev: "dev_ok j" and geo: "geometry_ok j" and h: "j_disk_sb j = Some h" and len: "rec \<noteq> []"
  shows "\<exists>ret j'. journal_write_device env h j rec = Some (ret, j') \<and> ret \<in> {0, - 4, - 5, - 9} \<and>
     (\<exists>ws. j_writes j' = ws @ j_writes j \<and> (\<forall>w\<in>set ws. write_allowed j (fst (journal_geometry j)) w))"
proof (cases "\<exists>sb n entries. sbh_file h \<and> sbh_sb h = Some sb \<and> sb_member sb = Some n \<and> sb_journal_v2 sb = Some entries")
  case False
  then have "journal_write_device env h j rec = Some (- 4, j)"
    by (auto simp: journal_write_device_def split: option.split)
  then show ?thesis by simp
next
  case True
  then obtain sb n entries where sb: "sbh_file h" "sbh_sb h = Some sb" "sb_member sb = Some n" "sb_journal_v2 sb = Some entries" by blast
  define m where "m = max (sb_block_size sb) 1"
  have m: "0 < m" by (simp add: m_def)
  obtain k where k: "next_multiple_of (length rec * 8) (m * 512) = k * 512" "length rec * 8 \<le> k * 512" using next_multiple_sectors [OF m] by blast
  have eq: "journal_write_device env h j rec = journal_write_sectors env sb j rec n (min (sum_list entries) (2 ^ 64 - 1)) (k * 512)"
    using k(1) by (simp add: journal_write_device_def sb m_def)
  have k: "length rec \<le> k * 64" "0 < k" using k(2) len by (auto intro: gr0I)
  have n: "fst (journal_geometry j) = n" using h sb by (simp add: journal_geometry_def)
  show ?thesis unfolding eq n using write_sectors_total [OF dev _ _ k, of n env sb "min (sum_list entries) (2 ^ 64 - 1)"] geo n
    by (simp add: geometry_ok_def Let_def)
qed

lemma next_bucket_geometry:
  assumes "geometry_ok j" "journal_next_bucket j s n = Some (adv, j')" "fst (journal_geometry j) = n"
  shows "geometry_ok j' \<and> fst (journal_geometry j') = n"
  using assms
  by (auto simp: journal_next_bucket_def Let_def bind_eq_Some_conv geometry_ok_def journal_geometry_def
      bch2_journal_dev_buckets_available_def split: if_split_asm)

lemma write_device_geometry:
  assumes "geometry_ok j" "journal_write_device env h j rec = Some (ret, j')" "j_disk_sb j = Some h"
  shows "geometry_ok j'"
proof -
  have at: "geometry_ok j2" if "geometry_ok j1" "journal_write_at env sb j1 rec wb n bs = Some (ret, j2)" for sb j1 wb n bs j2
    using that(2) by (cases rule: write_at_cases) (use that(1) in \<open>auto simp: geometry_ok_def Let_def journal_geometry_def\<close>)
  have bk: "geometry_ok j2" if "geometry_ok j1" "journal_write_bucket env sb j1 rec wb n adv = Some (ret, j2)" for sb j1 wb n adv j2
  proof -
    have "geometry_ok (j1\<lparr>j_writes := w\<rparr>)" for w using that(1) by (simp add: geometry_ok_def journal_geometry_def)
    then show ?thesis using that unfolding journal_write_bucket_def Let_def
      by (auto simp: bind_eq_Some_conv split: if_split_asm elim!: at [rotated])
  qed
  have ws: "geometry_ok j'" if wr: "journal_write_sectors env sb j rec n t wb = Some (ret, j')" and n: "fst (journal_geometry j) = n" for sb n t wb
  proof (cases "j' = j")
    case False
    obtain adv j1 where "journal_next_bucket j (wb div 512) n = Some (adv, j1)"
      "j1 = j' \<or> journal_write_bucket env sb j1 rec wb n adv = Some (ret, j')"
      using wr False by (auto simp: journal_write_sectors_def Let_def bind_eq_Some_conv split: if_split_asm)
    then show ?thesis using next_bucket_geometry [OF assms(1) _ n] bk by blast
  qed (use assms(1) in simp)
  show ?thesis using assms(1,2)
    by (auto simp: journal_write_device_def split: if_split_asm option.split_asm elim!: ws)
      (simp add: journal_geometry_def assms(3))
qed

section \<open>Writing an entry returns\<close>

definition journal_calm :: "journal \<Rightarrow> bool" where
  "journal_calm j \<longleftrightarrow> pins_inv j \<and> j_flush_in_progress j = 0 \<and> \<not> j_reclaim_locked j"

lemma calm_frame:
  assumes "journal_calm j" "j_pin_front j' = j_pin_front j" "j_pin j' = j_pin j" "j_pin_mem j' = j_pin_mem j" "j_last_seq j' = j_last_seq j"
    "j_last_seq_ondisk j' = j_last_seq_ondisk j" "j_seq j' = j_seq j" "j_seq_ondisk j' = j_seq_ondisk j" "j_device j' = j_device j"
    "j_flush_in_progress j' = j_flush_in_progress j" "j_reclaim_locked j' = j_reclaim_locked j"
  shows "journal_calm j'"
  using assms pins_inv_frame [of j j'] by (simp add: journal_calm_def)

text \<open>Reclaiming under the lock returns 0 and leaves the lock free.\<close>

lemma locked_reclaim_total:
  assumes cb: "callbacks_ok env" and calm: "journal_calm j"
  shows "\<exists>j'. with_reclaim_lock (raw_bch2_journal_reclaim env direct kicked) j = Some (0, j') \<and> journal_calm j' \<and> unflushed j' \<subseteq> unflushed j"
proof -
  have "reclaim_idle (j\<lparr>j_reclaim_locked := True\<rparr>)" unfolding reclaim_idle_nr using calm by (simp add: journal_calm_def reclaim_idle_def)
  from raw_reclaim_total [OF cb this, of direct kicked] obtain j1 where
    j1: "raw_bch2_journal_reclaim env direct kicked (j\<lparr>j_reclaim_locked := True\<rparr>) = Some (0, j1)" "reclaim_idle j1"
      "unflushed j1 \<subseteq> unflushed (j\<lparr>j_reclaim_locked := True\<rparr>)"
    by blast
  have "reclaim_idle (j1\<lparr>j_reclaim_locked := False\<rparr>)" using j1(2) by (simp add: reclaim_idle_nr)
  then show ?thesis using j1 calm by (auto simp: with_reclaim_lock_def journal_calm_def reclaim_idle_def unflushed_def)
qed

lemma after_write_total:
  assumes ok: "pins_ok j" "dev_ok j" "j_flush_in_progress j = 0" "\<not> j_reclaim_locked j" and cb: "callbacks_ok env"
  shows "\<exists>j'. journal_after_write env j = Some (0, j') \<and> journal_calm j'"
proof -
  obtain j1 where j1: "bch2_journal_update_last_seq j = Some j1" "pins_inv j1" "j_flush_in_progress j1 = 0" "\<not> j_reclaim_locked j1"
    using update_last_seq_ok [OF ok(1,2)] ok(3,4) by auto
  then obtain j2 where j2: "bch2_journal_space_available j1 = Some j2" "same_pins j1 j2" "dev_ok j2"
    using space_available_ok [of j1] by (auto simp: pins_inv_def)
  then obtain j3 where j3: "bch2_journal_do_discards j2 = Some j3" "same_pins j2 j3" "dev_ok j3" using do_discards_ok by blast
  have s: "same_pins j1 j3" using same_pins_trans [OF j2(2) j3(2)] .
  have "pins_ok j3" using pins_ok_same [OF s] j1(2) by (simp add: pins_inv_def)
  then have calm3: "journal_calm j3" using s j1 j3(3) by (simp add: journal_calm_def pins_inv_def tight_def same_pins_def)
  define j4 where "j4 = (if j_cur_entry_sectors j3 \<noteq> 0
     then j3\<lparr>j_cur_entry_u64s := journal_entry_u64s_for_sectors (j_cur_entry_sectors j3)\<rparr> else j3)"
  have calm4: "journal_calm j4" by (rule calm_frame [OF calm3]) (simp_all add: j4_def)
  have eq: "journal_after_write env j = (if j_reclaim_kicked j4 \<and> \<not> j_reclaim_locked j4 then
       with_reclaim_lock (raw_bch2_journal_reclaim env False True) (j4\<lparr>j_reclaim_kicked := False\<rparr>) \<bind> (\<lambda>(_, j). Some (0, j))
     else Some (0, j4))"
    unfolding journal_after_write_def j1(1) j2(1) j3(1) bind.bind_lunit Let_def j4_def ..
  have "journal_calm (j4\<lparr>j_reclaim_kicked := False\<rparr>)" by (rule calm_frame [OF calm4]) simp_all
  from locked_reclaim_total [OF cb this, of False True] show ?thesis using calm4 by (auto simp: eq)
qed

lemma entry_empty_total:
  assumes "entries_ok ws" "rec = pre @ ws"
  shows "entry_empty_loop rec (length pre) (length rec) \<noteq> None"
  using assms
proof (induction ws arbitrary: pre rule: entries_ok.induct)
  case (2 w ws)
  let ?n = "entry_u64s w"
  have n: "?n \<le> length ws" "entries_ok (drop ?n ws)" using "2.prems"(1) by simp_all
  have "rec = (pre @ w # take ?n ws) @ drop ?n ws" "length (pre @ w # take ?n ws) = length pre + jset_u64s ?n"
    using "2.prems"(2) n(1) by (simp_all add: jset_u64s_def JSET_KEYS_U64s_def)
  then have IH: "entry_empty_loop rec (length pre + jset_u64s ?n) (length rec) \<noteq> None" using "2.IH" [OF n(2)] by metis
  have "rec ! length pre = w" "length pre < length rec" using "2.prems"(2) by simp_all
  then show ?case using IH by (subst entry_empty_loop.simps) (auto simp: nth_opt_in_range intro: exI [of _ False])
qed (simp add: entry_empty_loop.simps)

text \<open>There is a root for every btree, and the key of a root that is alive is whole and no longer than a btree pointer.\<close>

definition root_ok :: "btree_root \<Rightarrow> bool" where
  "root_ok r \<longleftrightarrow> (rt_alive r \<noteq> 0 \<longrightarrow> rt_key r \<noteq> [] \<and> unat (hd (rt_key r) AND 0xff) \<le> length (rt_key r) \<and>
     unat (hd (rt_key r) AND 0xff) \<le> BKEY_U64S + BKEY_BTREE_PTR_VAL_U64S_MAX)"

definition roots_ok :: "journal_env \<Rightarrow> bool" where
  "roots_ok env \<longleftrightarrow> length (env_roots env) = BTREE_ID_NR \<and> (\<forall>r\<in>set (env_roots env). root_ok r)"

lemma entry_set_total:
  assumes "n < 2 ^ 15" "n \<le> length key" "e + 1 + n \<le> length data"
  shows "\<exists>d. journal_entry_set data e ty bid lvl key n = Some (n + 1, d) \<and> length d = length data"
  using assms
  by (simp add: journal_entry_set_def journal_entry_init_def write_words_def upd_opt_in_range JSET_KEYS_U64s_def)

lemma roots_total:
  assumes "\<forall>r\<in>set roots. root_ok r" "e + length roots * 21 \<le> length data"
  shows "\<exists>e' d. roots_to_entries bid roots data e = Some (e', d) \<and> e' \<le> e + length roots * 21"
  using assms
proof (induction roots arbitrary: bid data e)
  case (Cons r roots)
  show ?case
  proof (cases "rt_alive r = 0")
    case True
    then show ?thesis using Cons.IH [of e data "Suc bid"] Cons.prems by fastforce
  next
    case False
    define n where "n = unat (hd (rt_key r) AND 0xff)"
    have n: "rt_key r \<noteq> []" "n \<le> length (rt_key r)" "n \<le> 20"
      using Cons.prems(1) False by (auto simp: root_ok_def n_def code_consts)
    have key: "key_u64s (rt_key r) = Some n" using n(1) by (simp add: key_u64s_def nth_opt_in_range n_def hd_conv_nth)
    have "e + 1 + n \<le> length data" using Cons.prems(2) n(3) by simp
    then obtain d where d: "journal_entry_set data e BCH_JSET_ENTRY_btree_root bid (rt_level r) (rt_key r) n = Some (n + 1, d)" "length d = length data"
      using entry_set_total [OF _ n(2)] n(3) by fastforce
    have "e + (n + 1) + length roots * 21 \<le> length d" using Cons.prems(2) n(3) d(2) by simp
    then obtain e' d' where "roots_to_entries (Suc bid) roots d (e + (n + 1)) = Some (e', d')" "e' \<le> e + (n + 1) + length roots * 21"
      using Cons.IH [of "e + (n + 1)" d "Suc bid"] Cons.prems(1) by auto
    then show ?thesis using False key d(1) n(3) by (intro exI [of _ e'] exI [of _ d']) simp
  qed
qed simp

lemma flush_record_total:
  assumes "roots_ok env" "used \<le> length data"
  shows "\<exists>rec. flush_record env j data used = Some rec \<and> length rec \<le> used + 196"
proof (cases "j_disk_sb j = None")
  case True then show ?thesis using assms by (simp add: flush_record_def)
next
  case False
  define d0 where "d0 = ([0, 0, JSET_MAGIC, of_nat (j_seq j), 0, of_nat used, of_nat (j_last_seq j)] @ take used data) @
    replicate (BTREE_ID_NR * (JSET_KEYS_U64s + BKEY_U64S + BKEY_BTREE_PTR_VAL_U64S_MAX)) 0"
  have r: "\<forall>r\<in>set (env_roots env). root_ok r" "length (env_roots env) = BTREE_ID_NR" using assms(1) by (simp_all add: roots_ok_def)
  have "7 + used + length (env_roots env) * 21 \<le> length d0"
    using assms(2) r(2) by (simp add: d0_def code_consts)
  from roots_total [OF r(1) this, of 0] obtain e' d where d: "roots_to_entries 0 (env_roots env) d0 (7 + used) = Some (e', d)"
    "e' \<le> 7 + used + length (env_roots env) * 21" by blast
  then have "bch2_btree_roots_to_journal_entries (env_roots env) d0 (7 + used) = Some (e', d)" using r(2)
    by (simp add: bch2_btree_roots_to_journal_entries_def)
  moreover have "e' - (7 + used) \<le> BTREE_ID_NR * (JSET_KEYS_U64s + BKEY_U64S + BKEY_BTREE_PTR_VAL_U64S_MAX)"
    using d(2) r(2) by (simp add: code_consts)
  moreover have "e' \<le> used + 196" using d(2) r(2) by (simp add: code_consts)
  ultimately show ?thesis using False assms(2)
    unfolding flush_record_def Let_def JSET_HEADER_U64S_def d0_def [symmetric] by (simp add: min.coboundedI2)
qed

lemma open_next_total:
  assumes inv: "journal_inv j []" and pins: "pins_inv j" and len: "7 \<le> length rec"
  shows "\<exists>j'. journal_open_next j rec e = Some (if j_seq j + 1 > JOURNAL_SEQ_MAX then - 2 else 0, j')"
proof -
  let ?seq = "j_seq j + 1" and ?n = "j_seq j - j_pin_front j"
  let ?idx = "?seq mod JOURNAL_STATE_BUF_NR"
  have w: "word_ok j 1" and ring: "ring_ok j" using inv by (auto simp: journal_inv_def)
  have i: "?idx < 4" "?idx < length (j_ring j)" using ring by (simp_all add: ring_ok_def code_consts)
  have ne: "?idx \<noteq> open_idx j" by (simp add: code_consts mod_Suc)
  have c: "journal_state_count (j_reservations j) (open_idx j) \<noteq> 0" "journal_state_count (j_reservations j) ?idx = 0"
    using w open_idx_less [of j] i ne by (simp_all add: word_ok_def)
  obtain v where v: "journal_state_dec (j_reservations j) (open_idx j) = Some v"
    "\<forall>k<4. journal_state_count v k = journal_state_count (j_reservations j) k - (if k = open_idx j then 1 else 0)"
    using state_dec_ok [OF open_idx_less c(1)] by blast
  let ?v = "journal_state_set_offset (journal_state_set_idx v ?idx) 0"
  have "journal_state_count ?v ?idx = 0" using v(2) c(2) i(1) ne by (simp add: state_set_offset state_set_idx)
  then obtain v1 where v1: "journal_state_inc ?v ?idx = Some (Some v1)" using state_inc_ok [OF i(1), of ?v] by auto
  have ok: "j_pin_front j + length (j_pin j) = ?seq" "j_pin_front j \<le> j_seq j" "list_ok j (j_seq j) (j_pin j ! ?n)" "?n < length (j_pin j)"
    using pins pins_list [of j "j_seq j"] by (auto simp: pins_inv_def pins_ok_def)
  then have cnt: "pl_count (j_pin j ! ?n) \<noteq> 0" by (simp add: list_ok_def)
  have idx: "journal_state_idx (j_reservations j) = open_idx j" using w by (simp add: word_ok_def)
  show ?thesis
    unfolding journal_open_next_def Let_def idx v(1)
    using len c(2) i v1 ok cnt by (simp add: nth_opt_in_range upd_opt_in_range nth_append)
qed

lemma record_entry_empty:
  assumes "rec = [0, 0, JSET_MAGIC, s, 0, of_nat (length ws), l] @ ws" "entries_ok ws" "length ws < 2 ^ 32"
  shows "journal_entry_empty rec \<noteq> None"
proof -
  have u: "unat ((of_nat (length ws) :: u64) AND 0xffffffff) = length ws"
  proof -
    have "(0xffffffff :: u64) = mask 32" by (simp add: mask_eq_exp_minus_1)
    then show ?thesis using assms(3)
      by (simp only: take_bit_eq_mask [symmetric] unsigned_take_bit_eq unsigned_of_nat) (simp add: take_bit_nat_eq_self_iff)
  qed
  have "entry_empty_loop rec 7 (7 + length ws) \<noteq> None"
    using entry_empty_total [OF assms(2), of rec "[0, 0, JSET_MAGIC, s, 0, of_nat (length ws), l]"] assms(1) by (simp add: eval_nat_numeral)
  then show ?thesis using assms(1) by (auto simp: journal_entry_empty_def nth_opt_def u JSET_HEADER_U64S_def intro: exI [of _ False])
qed

lemma write_calm:
  assumes calm: "journal_calm j" and geo: "geometry_ok j"
    and eq: "(case j_disk_sb j of None \<Rightarrow> Some (0, j) | Some h \<Rightarrow> journal_write_device env h j rec) = Some (ret, j')"
  shows "journal_calm j' \<and> geometry_ok j'"
proof (cases "j_disk_sb j")
  case None then show ?thesis using assms by simp
next
  case (Some h)
  have ok: "pins_ok j" "tight j" "dev_ok j" using calm by (auto simp: journal_calm_def pins_inv_def)
  have wr: "journal_write_device env h j rec = Some (ret, j')" using eq Some by simp
  from write_device_dev [OF ok(3) wr] have "dev_ok j'" "same_pins j j'" by auto
  then show ?thesis using ok calm pins_ok_same [of j j'] write_device_geometry [OF geo wr Some]
    by (auto simp: journal_calm_def pins_inv_def tight_def same_pins_def)
qed

lemma write_inv:
  assumes inv: "journal_inv j rs" and eq: "(case j_disk_sb j of None \<Rightarrow> Some (0, j) | Some h \<Rightarrow> journal_write_device env h j rec) = Some (ret, j')"
  shows "journal_inv j' rs" "rs = [] \<Longrightarrow> journal_inv j' []"
proof -
  have "small_buckets j" using inv by (simp add: journal_inv_def)
  then have "same_core j j' \<and> small_buckets j'"
    using eq by (auto simp: same_core_def split: option.split_asm dest!: write_device_core)
  then show "journal_inv j' rs" "rs = [] \<Longrightarrow> journal_inv j' []" using inv_same_core [of j j'] inv by auto
qed

lemma same_res_geometry:
  assumes "same_res j j'" "geometry_ok j"
  shows "geometry_ok j'"
  using assms by (simp add: geometry_ok_def journal_geometry_def same_defs)

lemma open_next_frame:
  assumes "journal_open_next j rec e = Some (ret, j')"
  shows "j_flush_in_progress j' = j_flush_in_progress j \<and> j_reclaim_locked j' = j_reclaim_locked j \<and> j_device j' = j_device j \<and>
     j_disk_sb j' = j_disk_sb j \<and> j_writes j' = j_writes j"
  using assms by (auto simp: journal_open_next_def Let_def bind_eq_Some_conv split: if_split_asm)

lemma open_after_calm:
  assumes inv: "journal_inv j []" and calm: "journal_calm j" and geo: "geometry_ok j" and cb: "callbacks_ok env"
    and o: "journal_open_next j rec e = Some (ret2, j2)" and "if ret2 \<noteq> 0 then ret = ret2 \<and> j' = j2 else journal_after_write env j2 = Some (ret, j')"
  shows "journal_calm j' \<and> geometry_ok j' \<and> j_writes j' = j_writes j"
proof -
  have p: "pins_inv j" using calm by (simp add: journal_calm_def)
  note f = open_next_frame [OF o] and p2 = open_next_pins [OF p o]
  have g2: "geometry_ok j2" using geo f by (simp add: geometry_ok_def journal_geometry_def)
  show ?thesis
  proof (cases "ret2 = 0")
    case False
    then have "journal_calm j2" using p2 calm f by (simp add: journal_calm_def)
    then show ?thesis using False assms(6) g2 f by simp
  next
    case True
    then obtain j3 where j3: "journal_after_write env j2 = Some (0, j3)" "journal_calm j3"
      using after_write_total [of j2, OF _ _ _ _ cb] p2 calm f by (auto simp: journal_calm_def)
    then have j': "j' = j3" using assms(6) True by simp
    note n = open_next_inv [OF inv o [unfolded True]]
    have same: "same_res (j2\<lparr>j_cur_entry_u64s := j_cur_entry_u64s j3\<rparr>) j3" using after_write_inv [OF _ _ cb j3(1)] n by simp
    have "geometry_ok (j2\<lparr>j_cur_entry_u64s := j_cur_entry_u64s j3\<rparr>)" using g2 by (simp add: geometry_ok_def journal_geometry_def)
    then have "geometry_ok j3" by (rule same_res_geometry [OF same])
    moreover have "j_writes j3 = j_writes j" using same f by (simp add: same_defs)
    ultimately show ?thesis using j3(2) j' by simp
  qed
qed

lemma flush_calm:
  assumes inv: "journal_inv j rs" and calm: "journal_calm j" and geo: "geometry_ok j" and cb: "callbacks_ok env"
    and eq: "bch2_journal_flush env j = Some (ret, j')"
  shows "journal_calm j' \<and> geometry_ok j'"
  using inv eq
proof (cases rule: flush_split)
  case 1 then show ?thesis using calm geo by simp
next
  case (2 n)
  then have "journal_calm j'" using calm_frame [OF calm, of j'] by simp
  moreover have "geometry_ok j'" using geo 2 by (simp add: geometry_ok_def journal_geometry_def)
  ultimately show ?thesis ..
next
  case (3 rec ret1 j1)
  note w1 = write_calm [OF calm geo 3(3)]
  show ?thesis
  proof (cases "ret1 = 0")
    case False then show ?thesis using w1 3(4) by simp
  next
    case True
    then obtain e ret2 j2 where "journal_open_next j1 rec e = Some (ret2, j2)"
      "if ret2 \<noteq> 0 then ret = ret2 \<and> j' = j2 else journal_after_write env j2 = Some (ret, j')"
      using 3(4) by auto
    then show ?thesis using open_after_calm [OF write_inv(2) [OF inv 3(3,1)] _ _ cb] w1 by blast
  qed
qed

lemma flush_total:
  assumes inv: "journal_inv j rs" and calm: "journal_calm j" and geo: "geometry_ok j" and cb: "callbacks_ok env" and roots: "roots_ok env"
  shows "\<exists>ret j'. bch2_journal_flush env j = Some (ret, j') \<and> ret \<in> {0, - 1, - 2, - 4, - 5, - 9} \<and> (ret = - 1 \<longleftrightarrow> rs \<noteq> []) \<and>
     (rs = [] \<and> j_disk_sb j = None \<and> j_fault_inject_write_error j = 0 \<longrightarrow> ret = (if j_seq j + 1 > JOURNAL_SEQ_MAX then - 2 else 0)) \<and>
     (\<exists>ws. j_writes j' = ws @ j_writes j \<and> (\<forall>w\<in>set ws. write_allowed j (fst (journal_geometry j)) w))"
proof -
  let ?used = "journal_state_offset (j_reservations j)"
  have w: "word_ok j (1 + length rs)" and ring: "ring_ok j" and ok: "res_ok j rs" using inv by (auto simp: journal_inv_def)
  have c: "journal_state_idx (j_reservations j) = open_idx j" "journal_state_count (j_reservations j) (open_idx j) = 1 + length rs"
    using w open_idx_less [of j] by (auto simp: word_ok_def)
  have s: "jb_seq (j_ring j ! open_idx j) = j_seq j" "open_idx j < length (j_ring j)"
    using ring set_open_ring(3) [OF ring] by (simp_all add: ring_ok_def)
  consider "rs \<noteq> []" | "rs = []" "j_fault_inject_write_error j \<noteq> 0" | "rs = []" "j_fault_inject_write_error j = 0" by blast
  then show ?thesis
  proof cases
    case 1
    then have "bch2_journal_flush env j = Some (- 1, j)" using c by (simp add: bch2_journal_flush_def)
    then show ?thesis using 1 by simp
  next
    case 2
    let ?j = "j\<lparr>j_fault_inject_write_error := j_fault_inject_write_error j - 1\<rparr>"
    have "bch2_journal_flush env j = Some (- 5, ?j)" using 2 c s by (simp add: bch2_journal_flush_def nth_opt_in_range)
    then show ?thesis using 2 by simp
  next
    case 3
    have len: "?used \<le> length (open_data j)" "length (open_data j) = 131072"
      using w length_open_data [OF ring] by (simp_all add: word_ok_def)
    obtain rec where rec: "flush_record env j (open_data j) ?used = Some rec" "length rec \<le> ?used + 196"
      using flush_record_total [OF roots len(1)] by blast
    obtain hs where "tiled (open_data j) hs 0 ?used" "mset (res_holes []) = mset hs" using ok 3(1) by (auto simp: res_ok_def)
    then have "entries_ok (take ?used (open_data j))" using tiled_entries [of "open_data j" 0 ?used] len(1) by (simp add: res_holes_def)
    from flush_record_words [OF rec(1) this] obtain ws where ws: "entries_ok (take ?used (open_data j) @ ws)"
      "rec = [0, 0, JSET_MAGIC, of_nat (j_seq j), 0, of_nat (?used + length ws), of_nat (j_last_seq j)] @ take ?used (open_data j) @ ws"
      by blast
    have empty: "journal_entry_empty rec \<noteq> None" and pos: "7 \<le> length rec" "rec \<noteq> []"
      using record_entry_empty [OF _ ws(1), of rec "of_nat (j_seq j)" "of_nat (j_last_seq j)"] ws(2) rec(2) len by auto
    obtain ret1 j1 where j1: "(case j_disk_sb j of None \<Rightarrow> Some (0, j) | Some h \<Rightarrow> journal_write_device env h j rec) = Some (ret1, j1)"
      "ret1 \<in> {0, - 4, - 5, - 9}" "j_disk_sb j = None \<longrightarrow> ret1 = 0 \<and> j1 = j" "\<exists>ws. j_writes j1 = ws @ j_writes j \<and> (\<forall>w\<in>set ws. write_allowed j (fst (journal_geometry j)) w)"
    proof (cases "j_disk_sb j")
      case None then show ?thesis by (intro that [of 0 j]) simp_all
    next
      case (Some h)
      have "dev_ok j" using calm by (simp add: journal_calm_def pins_inv_def)
      from write_device_total [OF this geo Some pos(2), of env] show ?thesis using Some that by auto
    qed
    note w1 = write_calm [OF calm geo j1(1)] and inv1 = write_inv [OF inv j1(1)]
    have eq: "bch2_journal_flush env j = (if ret1 \<noteq> 0 then Some (ret1, j1) else do {
            is_empty \<leftarrow> journal_entry_empty rec;
            (ret, j) \<leftarrow> journal_open_next j1 rec is_empty;
            if ret \<noteq> 0 then Some (ret, j) else journal_after_write env j })"
      using 3 c s rec(1) j1(1) by (simp add: bch2_journal_flush_def nth_opt_in_range open_data_def)
    show ?thesis
    proof (cases "ret1 = 0")
      case False
      then show ?thesis using 3 j1(2-4) unfolding eq by auto
    next
      case True
      obtain e where e: "journal_entry_empty rec = Some e" using empty by auto
      have p1: "pins_inv j1" using w1 by (simp add: journal_calm_def)
      obtain ret2 j2 where j2: "journal_open_next j1 rec e = Some (ret2, j2)" "ret2 = (if j_seq j1 + 1 > JOURNAL_SEQ_MAX then - 2 else 0)"
        using open_next_total [OF inv1(2) [OF 3(1)] p1 pos(1), of e] by blast
      have eq2: "bch2_journal_flush env j = (if ret2 \<noteq> 0 then Some (ret2, j2) else journal_after_write env j2)"
        using True unfolding eq e by (simp add: j2(1))
      obtain ret3 j3 where j3: "bch2_journal_flush env j = Some (ret3, j3)" "ret3 = ret2"
        "if ret2 \<noteq> 0 then ret3 = ret2 \<and> j3 = j2 else journal_after_write env j2 = Some (ret3, j3)"
      proof (cases "ret2 = 0")
        case ret2: True
        then obtain j3 where "journal_after_write env j2 = Some (0, j3)"
          using after_write_total [of j2, OF _ _ _ _ cb] open_next_pins [OF p1 j2(1)] open_next_frame [OF j2(1)] w1 by (auto simp: journal_calm_def)
        then show ?thesis using that [of 0 j3] ret2 eq2 by simp
      qed (use that [of ret2 j2] eq2 j2(2) in simp)
      have wr: "j_writes j3 = j_writes j1" using open_after_calm [OF inv1(2) [OF 3(1)] _ _ cb j2(1) j3(3)] w1 by blast
      show ?thesis by (rule exI [of _ ret3], rule exI [of _ j3]) (use wr j3(1,2) j2(2) j1(3,4) 3(1) in auto)
    qed
  qed
qed

section \<open>The system of a journal, its pins and its device\<close>

text \<open>A journal as it is set up or restored: a fresh entry, the pin lists and the buckets as the invariant describes them.\<close>

fun journal_ready :: "journal \<times> journal_res list \<Rightarrow> bool" where
  "journal_ready (j, rs) = (journal_idle j \<and> journal_calm j \<and> geometry_ok j \<and> rs = [])"

definition journal_ok :: "journal \<Rightarrow> journal_res list \<Rightarrow> bool" where
  "journal_ok j rs \<longleftrightarrow> journal_inv j rs \<and> journal_calm j \<and> geometry_ok j"

lemma put_calm:
  assumes "journal_inv j rs" "a < length rs" "bch2_journal_res_put j (rs ! a) = Some (r, j')" "journal_calm j" "geometry_ok j"
  shows "journal_calm j' \<and> geometry_ok j'"
proof -
  obtain data res' where "res_put_fill j (rs ! a) = Some (res', set_open j data)" using res_put_fill_ok [OF assms(1,2)] by blast
  then consider "j' = j" | v where "j' = (set_open j data)\<lparr>j_reservations := v\<rparr>"
    using assms(3) by (auto simp: bch2_journal_res_put_def bind_eq_Some_conv split: if_split_asm)
  then show ?thesis
  proof cases
    case 2
    then have "journal_calm j'" using calm_frame [OF assms(4), of j'] by (simp add: set_open_def)
    then show ?thesis using assms(5) 2 by (simp add: geometry_ok_def journal_geometry_def set_open_def)
  qed (use assms in simp)
qed

lemma step_ok:
  assumes ok: "journal_ok j rs" and step: "journal_step (j, rs) (j', rs')"
  shows "journal_ok j' rs'"
proof -
  have inv: "journal_inv j rs" and calm: "journal_calm j" and geo: "geometry_ok j" using ok by (auto simp: journal_ok_def)
  have pins: "pins_inv j" using calm by (simp add: journal_calm_def)
  have res: "geometry_ok j'" if "same_res j j'" using same_res_geometry [OF that geo] .
  have "journal_calm j' \<and> geometry_ok j'"
    using step
  proof cases
    case (step_get r flags res')
    then obtain v where "j' = j\<lparr>j_reservations := v\<rparr>" using res_get_fast_ok [OF inv step_get(2), of flags] by (auto split: if_split_asm)
    then show ?thesis using calm_frame [OF calm, of j'] geo by (simp add: geometry_ok_def journal_geometry_def)
  next
    case (step_add i ws ty bid lvl res')
    then obtain data where "j' = set_open j data" using add_words_ok [OF inv step_add(2,3), of ty bid lvl] by auto
    then show ?thesis using calm_frame [OF calm, of j'] geo by (simp add: geometry_ok_def journal_geometry_def set_open_def)
  next
    case (step_put i res')
    then show ?thesis using put_calm [OF inv step_put(2) _ calm geo] by blast
  next
    case (step_flush env ret)
    then show ?thesis using flush_calm [OF inv calm geo step_flush(2,3)] by simp
  next
    case (step_pin_set node_level seq pin f)
    then show ?thesis using pin_set_inv [OF pins] res [OF pin_set_same] calm by (fastforce simp: journal_calm_def)
  next
    case (step_pin_drop pin)
    then show ?thesis using pin_drop_ok [OF pins, of pin] res [OF pin_drop_same] calm by (auto simp: journal_calm_def)
  next
    case (step_replay seq)
    then show ?thesis using replay_pins_put_ok [OF pins, of seq] res [OF replay_pins_put_same] calm by (fastforce simp: journal_calm_def)
  next
    case (step_ondisk seq ret)
    then show ?thesis using update_last_seq_ondisk_ok [OF pins, of seq] res [OF update_last_seq_ondisk_same] calm by (fastforce simp: journal_calm_def)
  next
    case (step_reclaim env ret)
    then show ?thesis using locked_reclaim_total [OF step_reclaim(2) calm, of True True] res [OF reclaim_call_same [OF step_reclaim(2)]]
      by (auto simp: bch2_journal_reclaim_def)
  qed
  moreover have "journal_inv j' rs'" using journal_system.step_inv [of "(j, rs)" "(j', rs')"] inv step by simp
  ultimately show ?thesis by (simp add: journal_ok_def)
qed

interpretation journal_pin_system: invariant_system journal_ready journal_step "\<lambda>(j, rs). journal_ok j rs"
  by unfold_locales (auto simp: journal_ok_def [of _ "[]"] intro: idle_inv step_ok)

section \<open>Properties\<close>

text \<open>A sequence number is needed while a pin holds it, while it is still to be replayed, and while its entry is open.\<close>

definition seq_needed :: "journal \<Rightarrow> nat \<Rightarrow> bool" where
  "seq_needed j s \<longleftrightarrow> s \<noteq> 0 \<and> (\<exists>a. jp_seq (j_pin_mem j a) = s) \<or> s = j_seq j \<or>
     j_pin_front j \<le> s \<and> s - j_pin_front j < length (j_pin j) \<and> pl_unreplayed (j_pin j ! (s - j_pin_front j))"

text \<open>
  C9: in every state a journal reaches, the oldest sequence number it reports as needed, which each record carries and
  recovery starts from, is exactly the least sequence number that a pin holds, that is still to be replayed or that is
  open; every sequence number from it to the open one has its list of pins.\<close>

theorem journal_last_seq_oldest:
  assumes "reachable journal_ready journal_step (j, rs)"
  shows "j_last_seq j = (LEAST s. seq_needed j s) \<and> seq_needed j (j_last_seq j) \<and>
    length (j_pin j) = j_seq j + 1 - j_last_seq j \<and> j_seq_ondisk j + 1 = j_seq j"
proof -
  have "journal_ok j rs" using journal_pin_system.reachable_inv [OF assms] by simp
  then have ok: "pins_ok j" and ti: "tight j" by (auto simp: journal_ok_def journal_calm_def pins_inv_def)
  have f: "0 < j_pin_front j" "j_pin_front j \<le> j_seq j" "j_pin_front j + length (j_pin j) = j_seq j + 1" "j_last_seq j = j_pin_front j"
    "j_seq_ondisk j + 1 = j_seq j" using ok by (auto simp: pins_ok_def)
  then have ne: "j_pin j \<noteq> []" by auto
  then have "list_ok j (j_pin_front j) (j_pin j ! 0)" using ok by (auto simp: pins_ok_def dest: spec [of _ 0])
  moreover have "pl_count (j_pin j ! 0) \<noteq> 0" using ti ne by (simp add: tight_def hd_conv_nth)
  ultimately have "pinned j (j_pin_front j) \<noteq> {} \<or> j_pin_front j = j_seq j \<or> pl_unreplayed (j_pin j ! 0)"
    by (auto simp: list_ok_def split: if_split_asm)
  then have front: "seq_needed j (j_pin_front j)" using f(1) ne by (auto simp: seq_needed_def pinned_def)
  have "j_pin_front j \<le> s" if "seq_needed j s" for s using that ok f(2) by (auto simp: seq_needed_def pins_ok_def)
  then have "j_pin_front j = (LEAST s. seq_needed j s)" by (intro Least_equality [symmetric] front)
  then show ?thesis using front f by simp
qed

lemma default_calm: "journal_calm journal_default"
  by (auto simp: journal_calm_def pins_inv_def pins_ok_def tight_def dev_ok_def list_ok_def pinned_def journal_default_def
      journal_device_default_def journal_pin_list_init_def pin_list_default_def Let_def)

lemma default_ready: "reachable journal_ready journal_step (journal_default, [])"
  by (rule reach_start) (simp add: default_idle default_calm, simp add: geometry_ok_def journal_geometry_def journal_default_def
      journal_device_default_def Let_def)

theorem journal_last_seq_oldest_witness:
  "j_last_seq journal_default = (LEAST s. seq_needed journal_default s) \<and> j_last_seq journal_default = 1"
  using journal_last_seq_oldest [OF default_ready] by (simp add: journal_default_def Let_def)




text \<open>
  C7: writing an entry never overwrites what recovery may need. Every write lies inside one bucket: the sectors of the
  current bucket after those already written, or a bucket all of whose records are older than the oldest sequence number
  needed on disk.\<close>

theorem journal_writes_only_free_sectors:
  assumes "reachable journal_ready journal_step (j, rs)" "callbacks_ok env" "roots_ok env"
  shows "\<exists>ret j' ws. bch2_journal_flush env j = Some (ret, j') \<and> j_writes j' = ws @ j_writes j \<and>
    list_all (\<lambda>(sector, words). \<exists>k<ja_nr (j_device j). let n = fst (journal_geometry j); first = ja_buckets (j_device j) ! k * n in
       first \<le> sector \<and> sector * 64 + length words \<le> (first + n) * 64 \<and>
       (if k = ja_cur_idx (j_device j) then first + (n - ja_sectors_free (j_device j)) \<le> sector
        else ja_bucket_seq (j_device j) ! k < j_last_seq_ondisk j)) ws"
proof -
  have "journal_ok j rs" using journal_pin_system.reachable_inv [OF assms(1)] by simp
  then have ok: "journal_inv j rs" "journal_calm j" "geometry_ok j" by (auto simp: journal_ok_def)
  obtain ret j' ws where "bch2_journal_flush env j = Some (ret, j')" "j_writes j' = ws @ j_writes j"
    "\<forall>w\<in>set ws. write_allowed j (fst (journal_geometry j)) w"
    using flush_total [OF ok assms(2,3)] by blast
  then show ?thesis
    by (intro exI [of _ ret] exI [of _ j'] exI [of _ ws]) (simp add: list_all_iff write_allowed_def Let_def case_prod_beta)
qed

definition device_journal :: journal where
  "device_journal = journal_default
     \<lparr>j_disk_sb := Some \<lparr>sbh_sb = Some \<lparr>sb_block_size = 1, sb_uuid_lo = 0, sb_member = Some 8, sb_journal_v2 = Some [3]\<rparr>, sbh_file = True\<rparr>,
      j_device := journal_device_default\<lparr>ja_bucket_seq := [0, 0, 0], ja_nr := 3, ja_buckets := [1, 2, 3]\<rparr>\<rparr>"

definition dead_roots_env :: journal_env where
  "dead_roots_env = quiet_env\<lparr>env_roots := replicate BTREE_ID_NR \<lparr>rt_key = [], rt_level = 0, rt_alive = 0\<rparr>, env_file_len := 65536\<rparr>"

lemma dead_roots_ok: "callbacks_ok dead_roots_env" "roots_ok dead_roots_env"
  using quiet_env_ok by (auto simp: callbacks_ok_def roots_ok_def root_ok_def dead_roots_env_def)

lemma device_ready: "reachable journal_ready journal_step (device_journal, [])"
proof (rule reach_start)
  have idle: "journal_idle device_journal"
    using default_idle by (simp add: journal_idle_def device_journal_def ring_ok_def small_buckets_def journal_geometry_def journal_device_default_def)
  have "dev_ok device_journal"
    by (auto simp: dev_ok_def device_shape_def clean_before_def bucket_pos_def device_journal_def journal_device_default_def journal_default_def Let_def
        nth_Cons split: nat.splits)
  moreover have "pins_ok device_journal" "tight device_journal"
    using default_calm by (simp_all add: journal_calm_def pins_inv_def pins_ok_def tight_def list_ok_def pinned_def device_journal_def)
  ultimately have "journal_calm device_journal"
    using default_calm by (simp add: journal_calm_def pins_inv_def) (simp add: device_journal_def)
  moreover have "geometry_ok device_journal"
    by (simp add: geometry_ok_def journal_geometry_def device_journal_def journal_device_default_def)
  ultimately show "journal_ready (device_journal, [])" using idle by simp
qed


theorem journal_writes_only_free_sectors_witness:
  "\<exists>ret j' ws. bch2_journal_flush dead_roots_env device_journal = Some (ret, j') \<and> j_writes j' = ws \<and>
     list_all (\<lambda>(sector, words). 8 \<le> sector \<and> sector * 64 + length words \<le> 32 * 64) ws"
proof -
  have d: "fst (journal_geometry device_journal) = 8" "ja_sectors_free (j_device device_journal) = 0" "ja_nr (j_device device_journal) = 3"
    "ja_bucket_seq (j_device device_journal) = [0, 0, 0]" "ja_buckets (j_device device_journal) = [1, 2, 3]" "ja_cur_idx (j_device device_journal) = 0"
    "j_last_seq_ondisk device_journal = 1" "j_writes device_journal = []"
    by (simp_all add: device_journal_def journal_geometry_def journal_device_default_def journal_default_def Let_def)
  obtain ret j' ws where w: "bch2_journal_flush dead_roots_env device_journal = Some (ret, j')" "j_writes j' = ws"
    "list_all (\<lambda>(sector, words). \<exists>k<3. let first = [1, 2, 3] ! k * 8 in
       first \<le> sector \<and> sector * 64 + length words \<le> (first + 8) * 64 \<and>
       (if k = 0 then first + 8 \<le> sector else ([0, 0, 0] :: nat list) ! k < 1)) ws"
    using journal_writes_only_free_sectors [OF device_ready dead_roots_ok] unfolding d Let_def append_Nil2 minus_nat.diff_0 by (elim exE conjE)
  have "list_all (\<lambda>(sector, words). 8 \<le> sector \<and> sector * 64 + length words \<le> 32 * 64) ws"
    unfolding list_all_iff
  proof (rule ballI, rule case_prodI2)
    fix x sector words assume x: "x \<in> set ws" "x = (sector, words)"
    then obtain k where k: "k < 3" "([1, 2, 3] ! k * 8 :: nat) \<le> sector" "sector * 64 + length words \<le> ([1, 2, 3] ! k * 8 + 8) * 64"
      using w(3) unfolding list_all_iff by fastforce
    from k(1) consider "k = 0" | "k = 1" | "k = 2" by linarith
    then show "8 \<le> sector \<and> sector * 64 + length words \<le> 32 * 64" using k(2,3) by cases simp_all
  qed
  with w(1,2) show ?thesis by (intro exI conjI)
qed



section \<open>Restoring\<close>

lemma check_records_run:
  assumes "check_records cur rs f p = Inr (f', p')" "p \<noteq> 0" "cur \<le> JOURNAL_SEQ_MAX" "p < cur"
  shows "f' = f \<and> p' = p + length rs \<and> (\<forall>k<length rs. unat (rs ! k ! 3) = p + 1 + k) \<and> p' < cur"
  using assms
proof (induction rs arbitrary: p)
  case (Cons r rs)
  let ?s = "unat (r ! 3)"
  have lt: "?s < cur" and s: "?s = min (p + 1) (2 ^ 64 - 1)" and r: "check_records cur rs f ?s = Inr (f', p')"
    using Cons.prems(1,2) by (auto simp: Let_def split: if_split_asm)
  have eq: "?s = p + 1" using s lt Cons.prems(3,4) by (simp add: JOURNAL_SEQ_MAX_def min_def split: if_split_asm)
  have "f' = f \<and> p' = ?s + length rs \<and> (\<forall>k<length rs. unat (rs ! k ! 3) = ?s + 1 + k) \<and> p' < cur"
    using Cons.IH [OF r _ Cons.prems(3) lt] eq by simp
  then show ?case using eq by (auto simp: nth_Cons split: nat.splits)
qed simp

lemma check_records_ok:
  assumes "check_records cur rs cur 0 = Inr (f, p)" "0 < cur" "cur \<le> JOURNAL_SEQ_MAX" "p = 0 \<or> p + 1 = cur"
  shows "f + length rs = cur \<and> 0 < f \<and> (\<forall>k<length rs. unat (rs ! k ! 3) = f + k)"
proof (cases rs)
  case (Cons r rest)
  let ?s = "unat (r ! 3)"
  have s: "?s \<noteq> 0" "?s < cur" and r: "check_records cur rest ?s ?s = Inr (f, p)"
    using assms(1) Cons by (auto simp: Let_def unat_eq_0 split: if_split_asm)
  note c = check_records_run [OF r s(1) assms(3) s(2)]
  then have "p + 1 = cur" using assms(4) s(1) by auto
  moreover have "unat (rs ! k ! 3) = f + k" if "k < length rs" for k using that c Cons by (cases k) auto
  ultimately show ?thesis using c s(1) Cons by auto
qed (use assms in auto)

text \<open>A journal before it is restored: its buffers, no pin and nothing being written back.\<close>

definition restorable :: "journal \<Rightarrow> bool" where
  "restorable j \<longleftrightarrow> length (j_ring j) = JOURNAL_STATE_BUF_NR \<and> (\<forall>b\<in>set (j_ring j). length (jb_data b) = 131072) \<and>
     j_cur_entry_u64s j \<le> 131065 \<and> small_buckets j \<and> geometry_ok j \<and> (\<forall>a. jp_seq (j_pin_mem j a) = 0) \<and>
     j_flush_in_progress j = 0 \<and> \<not> j_reclaim_locked j"

lemma restore_shape:
  assumes "bch2_journal_restore_for_replay j records cur = (0, j')"
  shows "\<exists>f p. 0 < cur \<and> cur \<le> JOURNAL_SEQ_MAX \<and> check_records cur records cur 0 = Inr (f, p) \<and> (p = 0 \<or> p + 1 = cur) \<and>
    (let idx = cur mod JOURNAL_STATE_BUF_NR;
         ring = map (\<lambda>buf. buf\<lparr>jb_data := map (\<lambda>_. 0) (jb_data buf), jb_seq := 0, jb_has_overwrites := False\<rparr>) (j_ring j) in
     j' = j\<lparr>j_ring := ring[idx := (ring ! idx)\<lparr>jb_seq := cur\<rparr>], j_seq := cur, j_reservations := journal_state_fresh idx, j_closed := records,
            j_pin_front := f, j_pin := replicate (cur - f) ((journal_pin_list_init 1)\<lparr>pl_unreplayed := True\<rparr>) @ [journal_pin_list_init 1],
            j_seq_ondisk := cur - 1, j_last_seq := f, j_last_seq_ondisk := f, j_flags := put_flag JOURNAL_replay_done False (j_flags j)\<rparr>)"
proof -
  have c: "\<not> (cur = 0 \<or> cur > JOURNAL_SEQ_MAX)"
  proof
    assume "cur = 0 \<or> cur > JOURNAL_SEQ_MAX"
    then have "bch2_journal_restore_for_replay j records cur = (- 1, j)" unfolding bch2_journal_restore_for_replay_def by (simp only: if_True)
    then show False using assms by simp
  qed
  show ?thesis
  proof (cases "check_records cur records cur 0")
    case (Inr fp)
    obtain f p where fp: "fp = (f, p)" by (cases fp)
    define bad where "bad \<longleftrightarrow> p \<noteq> 0 \<and> p + 1 \<noteq> cur"
    have e: "(if bad then (- 8 :: int, j) else
      let idx = cur mod JOURNAL_STATE_BUF_NR;
         ring = map (\<lambda>buf. buf\<lparr>jb_data := map (\<lambda>_. 0) (jb_data buf), jb_seq := 0, jb_has_overwrites := False\<rparr>) (j_ring j);
         ring = ring[idx := (ring ! idx)\<lparr>jb_seq := cur\<rparr>] in
     (0, j\<lparr>j_ring := ring, j_seq := cur, j_reservations := journal_state_fresh idx, j_closed := records,
            j_pin_front := f, j_pin := replicate (cur - f) ((journal_pin_list_init 1)\<lparr>pl_unreplayed := True\<rparr>) @ [journal_pin_list_init 1],
            j_seq_ondisk := cur - 1, j_last_seq := f, j_last_seq_ondisk := f, j_flags := put_flag JOURNAL_replay_done False (j_flags j)\<rparr>)) = (0, j')"
      using assms c unfolding bch2_journal_restore_for_replay_def Inr fp bad_def by (simp only: if_False sum.case prod.case)
    have nb: "\<not> bad" using e by (cases bad) simp_all
    have "p = 0 \<or> p + 1 = cur" using nb by (auto simp: bad_def)
    moreover have "0 < cur" "cur \<le> JOURNAL_SEQ_MAX" using c by auto
    ultimately show ?thesis using e Inr fp by (simp only: nb if_False Let_def prod.inject) blast
  next
    case (Inl err)
    have "err \<noteq> 0" using Inl
    proof -
      have "check_records c rs f p = Inl err \<Longrightarrow> err \<noteq> 0" for c rs f p
        by (induction rs arbitrary: f p) (auto simp: Let_def split: if_split_asm)
      then show ?thesis using Inl by blast
    qed
    then show ?thesis using assms c Inl by (simp add: bch2_journal_restore_for_replay_def)
  qed
qed

lemma replay_put_replicate:
  "replay_put n (replicate n ((journal_pin_list_init 1)\<lparr>pl_unreplayed := True\<rparr>) @ ps) = Some (replicate n (journal_pin_list_init 0) @ ps)"
  by (induction n) (simp_all add: journal_pin_list_init_def pin_list_default_def, cases ps, simp_all)

text \<open>When the replay is finished nothing but the open entry is needed.\<close>

lemma replay_finished:
  assumes calm: "journal_calm j" and pins: "j_pin j = replicate (j_seq j - j_pin_front j) ((journal_pin_list_init 1)\<lparr>pl_unreplayed := True\<rparr>) @ [journal_pin_list_init 1]"
  shows "\<exists>j'. bch2_journal_replay_pins_put j (j_seq j) = Some j' \<and> j_last_seq j' = j_seq j"
proof -
  define n where "n = j_seq j - j_pin_front j"
  define ps where "ps = replicate n (journal_pin_list_init 0) @ [journal_pin_list_init 1]"
  have ok: "pins_ok j" and dev: "dev_ok j" using calm by (auto simp: journal_calm_def pins_inv_def)
  have put: "replay_put n (j_pin j) = Some ps" unfolding pins n_def [symmetric] ps_def by (rule replay_put_replicate)
  have "length ps = length (j_pin j) \<and> (\<forall>k<length (j_pin j). list_ok j (j_pin_front j + k) (ps ! k))"
    using replay_put_lists [of "j_pin j" j "j_pin_front j" n] ok put by (auto simp: pins_ok_def)
  then have ok1: "pins_ok (j\<lparr>j_pin := ps\<rparr>)" using ok by (simp add: pins_ok_def list_ok_def pinned_def)
  have dev1: "dev_ok (j\<lparr>j_pin := ps\<rparr>)" by (rule dev_ok_mono [OF dev]) simp_all
  obtain j' m where j': "bch2_journal_update_last_seq (j\<lparr>j_pin := ps\<rparr>) = Some j'" "pins_inv j'" "j_seq j' = j_seq j" "j_pin j' = drop m ps"
    using update_last_seq_ok [OF ok1 dev1] by auto
  have f: "pins_ok j'" "tight j'" using j'(2) by (auto simp: pins_inv_def)
  have "n \<le> m"
  proof (rule ccontr)
    assume "\<not> n \<le> m"
    then have "hd (j_pin j') = journal_pin_list_init 0" unfolding j'(4) ps_def by (simp add: drop_replicate hd_append)
    then show False using f(2) by (simp add: tight_def journal_pin_list_init_def)
  qed
  then have "length (j_pin j') \<le> 1" unfolding j'(4) ps_def by simp
  then have "j_last_seq j' = j_seq j" using f(1) j'(3) by (simp add: pins_ok_def)
  then show ?thesis using j'(1) put by (simp add: bch2_journal_replay_pins_put_def n_def)
qed



section \<open>A full entry\<close>

lemma roots_grow:
  assumes "roots_to_entries bid roots data e = Some (e', d)" "r \<in> set roots" "rt_alive r \<noteq> 0"
  shows "e < e'"
  using assms
proof (induction roots arbitrary: bid data e)
  case (Cons s roots)
  show ?case
  proof (cases "rt_alive s = 0")
    case True then show ?thesis using Cons by (auto simp: bind_eq_Some_conv)
  next
    case False
    then obtain n actual d1 where 1: "journal_entry_set data e BCH_JSET_ENTRY_btree_root bid (rt_level s) (rt_key s) n = Some (actual, d1)"
      "roots_to_entries (Suc bid) roots d1 (e + actual) = Some (e', d)"
      using Cons.prems(1) by (auto simp: bind_eq_Some_conv)
    have "0 < actual" "e + actual \<le> length d1" using entry_set_words [OF 1(1)] by auto
    moreover from this have "e + actual \<le> e'" using roots_entries [OF 1(2)] by simp
    ultimately show ?thesis by simp
  qed
qed simp

text \<open>
  C15: an entry filled to the capacity computed for the free sectors cannot be written once a btree has a root: the root
  entries that the write appends are not part of the capacity, the record is longer than a bucket, and the write returns
  -4 and changes nothing, so that it fails again each time.\<close>

theorem journal_full_entry_unwritable:
  assumes "journal_state_count (j_reservations j) (journal_state_idx (j_reservations j)) = 1"
    and "nth_opt (j_ring j) (journal_state_idx (j_reservations j)) = Some buf" "jb_seq buf = j_seq j" "j_fault_inject_write_error j = 0"
    and "journal_state_offset (j_reservations j) = journal_entry_u64s_for_sectors n" "0 < n" "n * 64 \<le> length (jb_data buf)" "n \<le> 2048"
    and "j_disk_sb j = Some h" "sbh_sb h = Some sb" "sb_member sb = Some n"
    and "roots_ok env" "\<exists>r\<in>set (env_roots env). rt_alive r \<noteq> 0"
  shows "bch2_journal_flush env j = Some (- 4, j)"
proof -
  define used where "used = journal_state_offset (j_reservations j)"
  have u: "used = n * 64 - 7" "used \<le> length (jb_data buf)"
    using assms(5-8) by (simp_all add: used_def journal_entry_u64s_for_sectors_def code_consts)
  obtain rec where rec: "flush_record env j (jb_data buf) used = Some rec" using flush_record_total [OF assms(12) u(2)] by blast
  have long: "n * 64 < length rec"
  proof -
    define d0 where "d0 = ([0, 0, JSET_MAGIC, of_nat (j_seq j), 0, of_nat used, of_nat (j_last_seq j)] @ take used (jb_data buf)) @
      replicate (BTREE_ID_NR * (JSET_KEYS_U64s + BKEY_U64S + BKEY_BTREE_PTR_VAL_U64S_MAX)) 0"
    obtain e d where d: "roots_to_entries 0 (env_roots env) d0 (7 + used) = Some (e, d)"
      and r: "rec = (if e - (7 + used) \<noteq> 0 then (take e d)[5 := of_nat (used + (e - (7 + used)))] else take (7 + used) d)"
      using rec assms(9) u(2) unfolding flush_record_def bch2_btree_roots_to_journal_entries_def Let_def JSET_HEADER_U64S_def d0_def [symmetric]
      by (auto simp: bind_eq_Some_conv split: if_split_asm)
    have "7 + used \<le> length d0" using u(2) by (simp add: d0_def)
    note re = roots_entries [OF d this]
    have "7 + used < e" using roots_grow [OF d] assms(13) by blast
    then show ?thesis using r re u(1) assms(6) by simp
  qed
  have "journal_write_device env h j rec = Some (- 4, j)"
  proof -
    define m where "m = max (sb_block_size sb) 1"
    have m: "0 < m" by (simp add: m_def)
    obtain k where k: "next_multiple_of (length rec * 8) (m * 512) = k * 512" "length rec * 8 \<le> k * 512" using next_multiple_sectors [OF m] by blast
    have "n < k" using k(2) long by linarith
    then have "journal_write_sectors env sb j rec n tb (k * 512) = Some (- 4, j)" for tb by (simp add: journal_write_sectors_def)
    then show ?thesis using assms(10,11) k(1) by (simp add: journal_write_device_def m_def split: option.split)
  qed
  then show ?thesis using assms(1-4,9) rec by (simp add: bch2_journal_flush_def used_def [symmetric] nth_opt_in_range)
qed

theorem journal_full_entry_unwritable_witness:
  "\<exists>j env. journal_state_offset (j_reservations j) = journal_entry_u64s_for_sectors 8 \<and> j_disk_sb j = j_disk_sb device_journal \<and>
     bch2_journal_flush env j = Some (- 4, j)"
proof -
  define v where "v = journal_state_set_offset (journal_state_fresh 1) 505"
  define j where "j = device_journal\<lparr>j_reservations := v\<rparr>"
  define env where "env = dead_roots_env\<lparr>env_roots := \<lparr>rt_key = [1], rt_level = 0, rt_alive = 1\<rparr> # replicate 8 \<lparr>rt_key = [], rt_level = 0, rt_alive = 0\<rparr>\<rparr>"
  have v: "journal_state_offset v = 505" "journal_state_idx v = 1" "journal_state_count v 1 = 1"
    using state_fresh [of 1] by (simp_all add: v_def state_set_offset)
  define buf where "buf = journal_buf_default\<lparr>jb_seq := 1\<rparr>"
  define sb where "sb = \<lparr>sb_block_size = 1, sb_uuid_lo = 0, sb_member = Some 8, sb_journal_v2 = Some [3]\<rparr>"
  define h where "h = \<lparr>sbh_sb = Some sb, sbh_file = True\<rparr>"
  have cap: "journal_entry_u64s_for_sectors 8 = 505" by (simp add: journal_entry_u64s_for_sectors_def code_consts)
  have j: "j_reservations j = v" "nth_opt (j_ring j) 1 = Some buf" "j_seq j = 1" "j_fault_inject_write_error j = 0" "j_disk_sb j = Some h"
    by (simp_all add: j_def device_journal_def journal_default_def Let_def code_consts nth_opt_def buf_def h_def sb_def)
  have b: "jb_seq buf = 1" "8 * 64 \<le> length (jb_data buf)" by (simp_all add: buf_def journal_buf_default_def code_consts)
  have s: "sbh_sb h = Some sb" "sb_member sb = Some 8" by (simp_all add: h_def sb_def)
  have r: "roots_ok env" "\<exists>r\<in>set (env_roots env). rt_alive r \<noteq> 0" by (auto simp: roots_ok_def env_def root_ok_def code_consts)
  have "bch2_journal_flush env j = Some (- 4, j)"
    by (rule journal_full_entry_unwritable [OF _ _ _ j(4) _ _ b(2) _ j(5) s r]) (simp_all add: j v b cap del: nth_opt_Some One_nat_def)
  moreover have "j_disk_sb j = j_disk_sb device_journal" by (simp add: j_def)
  ultimately show ?thesis using j(1) v(1) cap by (intro exI [of _ j] exI [of _ env]) simp
qed

end
