(* ===== verification/Journal_Keys.thy ===== *)
theory Journal_Keys
  imports Bkey "HOL-Library.Product_Lexorder"
begin

text \<open>
  The overlay of journal keys, the end of \<^verbatim>\<open>journal.rs\<close>: until the journal is replayed into the btrees, a lookup consults
  a sorted vector of the keys read from the journal. A key that has reached its btree is marked as overwritten; runs of
  overwritten keys of one btree and level are recorded as ranges that the iterators jump over.

  A key owns a copy of its words: \<^verbatim>\<open>allocated_k\<close> is the key itself, a pair of its header and its value words. The
  numbers of ranges stay within 32 bits, the width of \<^verbatim>\<open>overwritten_range\<close>, as there are no more of them than keys.
\<close>

section \<open>Data\<close>

type_synonym bkey_i = "bkey \<times> u64 list"

record journal_key =
  jk_btree_id :: u8
  jk_level :: u8
  jk_overwritten :: bool
  jk_overwritten_range :: nat
  jk_k :: bkey_i

record journal_keys =
  jks_nr :: nat
  jks_size :: nat
  jks_data :: "journal_key list"
  jks_overwrites :: "(nat \<times> nat) list"

definition jk_p :: "journal_key \<Rightarrow> bpos" where
  "jk_p k = k_p (fst (jk_k k))"

section \<open>Operations\<close>

definition bch2_journal_keys_clear :: "journal_keys \<Rightarrow> journal_keys" where
  "bch2_journal_keys_clear keys = keys\<lparr>jks_data := [], jks_nr := 0, jks_size := 0, jks_overwrites := []\<rparr>"

text \<open>The runs of overwritten keys from index \<open>i\<close> on.\<close>

function overwrite_ranges :: "nat \<Rightarrow> journal_key list \<Rightarrow> (nat \<times> nat) list \<Rightarrow> journal_key list \<times> (nat \<times> nat) list" where
  "overwrite_ranges i [] overwrites = ([], overwrites)"
| "overwrite_ranges i (k # ks) overwrites =
     (if \<not> jk_overwritten k then
        (let (ks, overwrites) = overwrite_ranges (i + 1) ks overwrites in (k\<lparr>jk_overwritten_range := 0\<rparr> # ks, overwrites))
      else
        (let run = takeWhile (\<lambda>x. jk_overwritten x \<and> jk_btree_id x = jk_btree_id k \<and> jk_level x = jk_level k) ks;
             e = i + 1 + length run;
             overwrites = (if overwrites = [] then [(0, 0)] else overwrites);
             range = length overwrites;
             (rest, overwrites) = overwrite_ranges e (drop (length run) ks) (overwrites @ [(i, e)])
         in (map (\<lambda>x. x\<lparr>jk_overwritten_range := range\<rparr>) (k # run) @ rest, overwrites)))"
  by pat_completeness auto
termination by (relation "measure (\<lambda>(_, ks, _). length ks)") auto

definition journal_key_order :: "journal_key \<Rightarrow> u8 \<times> u8 \<times> bpos" where
  "journal_key_order k = (jk_btree_id k, jk_level k, jk_p k)"

text \<open>\<^verbatim>\<open>sort_by\<close> is a stable sort; it compares the btree, then the level, then the position.\<close>

definition raw_journal_keys_sort :: "journal_keys \<Rightarrow> journal_keys" where
  "raw_journal_keys_sort keys =
     (let (data, overwrites) = overwrite_ranges 0 (sort_key journal_key_order (jks_data keys)) []
      in keys\<lparr>jks_data := data, jks_overwrites := overwrites\<rparr>)"

fun find_index :: "('a \<Rightarrow> bool) \<Rightarrow> 'a list \<Rightarrow> nat option" where
  "find_index P [] = None"
| "find_index P (x # xs) = (if P x then Some 0 else map_option Suc (find_index P xs))"

definition jk_at :: "u8 \<Rightarrow> u8 \<Rightarrow> bpos \<Rightarrow> journal_key \<Rightarrow> bool" where
  "jk_at btree_id level p entry \<longleftrightarrow> jk_btree_id entry = btree_id \<and> jk_level entry = level \<and> jk_p entry = p"

text \<open>\<open>alloc_ok\<close> tells whether the memory for the copy is there.\<close>

definition bch2_journal_key_insert :: "bool \<Rightarrow> journal_keys \<Rightarrow> u8 \<Rightarrow> u8 \<Rightarrow> bkey_i \<Rightarrow> int \<times> journal_keys" where
  "bch2_journal_key_insert alloc_ok keys btree_id level key =
     (if unat (k_u64s (fst key)) < BKEY_U64S then (- 22, keys)
      else if \<not> alloc_ok then (- 12, keys)
      else case find_index (jk_at btree_id level (k_p (fst key))) (jks_data keys) of
        Some i \<Rightarrow>
          (0, raw_journal_keys_sort (keys\<lparr>jks_data := (jks_data keys)[i := (jks_data keys ! i)
                \<lparr>jk_k := key, jk_overwritten := False, jk_overwritten_range := 0\<rparr>]\<rparr>))
      | None \<Rightarrow>
          let data = jks_data keys @ [\<lparr>jk_btree_id = btree_id, jk_level = level, jk_overwritten = False,
                                       jk_overwritten_range = 0, jk_k = key\<rparr>]
          in (0, raw_journal_keys_sort (keys\<lparr>jks_data := data, jks_nr := length data, jks_size := length data\<rparr>)))"

text \<open>The index of the range of an overwritten key, if it has one.\<close>

definition range_of :: "journal_keys \<Rightarrow> journal_key \<Rightarrow> (nat \<times> nat) option" where
  "range_of keys key =
     (let range = jk_overwritten_range key in
      if range \<noteq> 0 \<and> range < length (jks_overwrites keys) then Some (jks_overwrites keys ! range) else None)"

partial_function (option) peek_max_loop :: "journal_keys \<Rightarrow> u8 \<Rightarrow> u8 \<Rightarrow> bpos \<Rightarrow> bpos \<Rightarrow> nat \<Rightarrow> (bkey_i option \<times> nat) option" where
  "peek_max_loop keys btree_id level pos end_pos idx =
     (if idx < length (jks_data keys) then
        (let key = jks_data keys ! idx in
         if jk_btree_id key = btree_id \<and> jk_level key = level \<and> bpos_cmp (jk_p key) pos \<ge> 0 \<and> bpos_cmp (jk_p key) end_pos \<le> 0 then
           (if jk_overwritten key then
              peek_max_loop keys btree_id level pos end_pos (case range_of keys key of Some r \<Rightarrow> snd r | None \<Rightarrow> idx + 1)
            else Some (Some (jk_k key), idx))
         else peek_max_loop keys btree_id level pos end_pos (idx + 1))
      else Some (None, idx))"

declare peek_max_loop.simps [code]

definition bch2_journal_keys_peek_max :: "journal_keys \<Rightarrow> u8 \<Rightarrow> u8 \<Rightarrow> bpos \<Rightarrow> bpos \<Rightarrow> nat \<Rightarrow> (bkey_i option \<times> nat) option" where
  "bch2_journal_keys_peek_max keys btree_id level pos end_pos idx =
     do { require (idx \<le> length (jks_data keys)); peek_max_loop keys btree_id level pos end_pos idx }"

definition bch2_journal_keys_peek_slot :: "journal_keys \<Rightarrow> u8 \<Rightarrow> u8 \<Rightarrow> bpos \<Rightarrow> bkey_i option option" where
  "bch2_journal_keys_peek_slot keys btree_id level pos =
     do { (key, _) \<leftarrow> bch2_journal_keys_peek_max keys btree_id level pos pos 0;
          Some (case key of Some k \<Rightarrow> if k_p (fst k) = pos then Some k else None | None \<Rightarrow> None) }"

partial_function (option) peek_prev_loop :: "journal_keys \<Rightarrow> u8 \<Rightarrow> u8 \<Rightarrow> bpos \<Rightarrow> bpos \<Rightarrow> nat \<Rightarrow> (bkey_i option \<times> nat) option" where
  "peek_prev_loop keys btree_id level pos end_pos cursor =
     (if cursor \<noteq> 0 then
        Option.bind (nth_opt (jks_data keys) (cursor - 1)) (\<lambda>key.
          if jk_btree_id key = btree_id \<and> jk_level key = level \<and> bpos_cmp (jk_p key) pos \<le> 0 \<and> bpos_cmp (jk_p key) end_pos \<ge> 0 then
            (if jk_overwritten key then
               (let cursor = (case range_of keys key of Some r \<Rightarrow> fst r | None \<Rightarrow> cursor - 1) in
                if cursor = 0 then Some (None, 0) else peek_prev_loop keys btree_id level pos end_pos cursor)
             else Some (Some (jk_k key), cursor - 1))
          else peek_prev_loop keys btree_id level pos end_pos (cursor - 1))
      else Some (None, 0))"

declare peek_prev_loop.simps [code]

definition bch2_journal_keys_peek_prev_min :: "journal_keys \<Rightarrow> u8 \<Rightarrow> u8 \<Rightarrow> bpos \<Rightarrow> bpos \<Rightarrow> nat \<Rightarrow> (bkey_i option \<times> nat) option" where
  "bch2_journal_keys_peek_prev_min keys btree_id level pos end_pos idx =
     do { let n = length (jks_data keys);
          require (idx \<le> n);
          peek_prev_loop keys btree_id level pos end_pos (if idx = 0 then n else min (idx + 1) n) }"

definition bch2_key_deleted_in_journal :: "bool \<Rightarrow> journal_keys \<Rightarrow> u8 \<Rightarrow> u8 \<Rightarrow> bpos \<Rightarrow> bool option" where
  "bch2_key_deleted_in_journal journal_replay_not_finished keys btree_id level pos =
     (if \<not> journal_replay_not_finished then Some False
      else do { key \<leftarrow> bch2_journal_keys_peek_slot keys btree_id level pos;
                Some (case key of Some k \<Rightarrow> k_type (fst k) = KEY_TYPE_deleted | None \<Rightarrow> False) })"

text \<open>The neighbour at index \<open>i\<close> that is overwritten too and belongs to the same btree and level.\<close>

definition overwritten_neighbour :: "journal_keys \<Rightarrow> nat \<Rightarrow> nat \<Rightarrow> nat option" where
  "overwritten_neighbour keys idx i =
     (let d = jks_data keys in
      if i < length d \<and> jk_btree_id (d ! i) = jk_btree_id (d ! idx) \<and> jk_level (d ! i) = jk_level (d ! idx) \<and> jk_overwritten (d ! i)
      then Some i else None)"

definition neighbour_range :: "journal_keys \<Rightarrow> nat option \<Rightarrow> nat option" where
  "neighbour_range keys i =
     (case i of None \<Rightarrow> None
      | Some i \<Rightarrow> let r = jk_overwritten_range (jks_data keys ! i) in
                  if r \<noteq> 0 \<and> r < length (jks_overwrites keys) then Some r else None)"

definition set_range :: "nat \<Rightarrow> nat \<Rightarrow> nat \<Rightarrow> journal_key list \<Rightarrow> journal_key list" where
  "set_range r a b d = map (\<lambda>(i, k). if a \<le> i \<and> i < b then k\<lparr>jk_overwritten_range := r\<rparr> else k) (zip [0..<length d] d)"

definition raw_bch2_journal_key_overwritten :: "journal_keys \<Rightarrow> nat \<Rightarrow> journal_keys option" where
  "raw_bch2_journal_key_overwritten keys idx =
     do { key \<leftarrow> nth_opt (jks_data keys) idx;
          let keys = keys\<lparr>jks_data := (jks_data keys)[idx := key\<lparr>jk_overwritten := True\<rparr>]\<rparr>;
          let prev_idx = (if idx > 0 then overwritten_neighbour keys idx (idx - 1) else None);
          let next_idx = overwritten_neighbour keys idx (idx + 1);
          let d = jks_data keys;
          let ovs = jks_overwrites keys;
          Some (case (neighbour_range keys prev_idx, neighbour_range keys next_idx) of
            (Some prev, Some next) \<Rightarrow>
              let next_end = snd (ovs ! next); ovs = ovs[prev := (fst (ovs ! prev), next_end)] in
              keys\<lparr>jks_overwrites := ovs,
                   jks_data := set_range prev (fst (ovs ! next)) next_end (set_range prev idx (idx + 1) d)\<rparr>
          | (Some prev, None) \<Rightarrow>
              keys\<lparr>jks_overwrites := ovs[prev := (fst (ovs ! prev), max (snd (ovs ! prev)) (idx + 1))],
                   jks_data := set_range prev idx (idx + 1) d\<rparr>
          | (None, Some next) \<Rightarrow>
              keys\<lparr>jks_overwrites := ovs[next := (min (fst (ovs ! next)) idx, snd (ovs ! next))],
                   jks_data := set_range next idx (idx + 1) d\<rparr>
          | (None, None) \<Rightarrow>
              let ovs = (if ovs = [] then [(0, 0)] else ovs);
                  range = length ovs;
                  first = (case prev_idx of Some i \<Rightarrow> i | None \<Rightarrow> idx);
                  limit = (case next_idx of Some i \<Rightarrow> i + 1 | None \<Rightarrow> idx + 1)
              in keys\<lparr>jks_overwrites := ovs @ [(first, limit)], jks_data := set_range range first limit d\<rparr>) }"

definition bch2_journal_key_check_or_overwrite :: "journal_keys \<Rightarrow> u8 \<Rightarrow> u8 \<Rightarrow> bpos \<Rightarrow> bool \<Rightarrow> (int \<times> journal_keys) option" where
  "bch2_journal_key_check_or_overwrite keys btree_id level pos check =
     (case find_index (jk_at btree_id level pos) (jks_data keys) of
        None \<Rightarrow> Some (0, keys)
      | Some idx \<Rightarrow>
          if jk_overwritten (jks_data keys ! idx) then Some (0, keys)
          else if check then Some (0, keys)
          else do { keys \<leftarrow> raw_bch2_journal_key_overwritten keys idx; Some (0, keys) })"

section \<open>The invariant\<close>

text \<open>
  The indices from \<open>s\<close> to \<open>e\<close> lie in a part \<open>d\<close> of the vector that starts at index \<open>i\<close> and hold overwritten keys of
  range \<open>r\<close>, all of one btree and level.
\<close>

definition uniform_run :: "nat \<Rightarrow> journal_key list \<Rightarrow> nat \<Rightarrow> nat \<Rightarrow> nat \<Rightarrow> u8 \<Rightarrow> u8 \<Rightarrow> bool" where
  "uniform_run i d r s e b l \<longleftrightarrow> i \<le> s \<and> e \<le> i + length d \<and>
     (\<forall>y. s \<le> i + y \<and> i + y < e \<longrightarrow>
        jk_overwritten (d ! y) \<and> jk_overwritten_range (d ! y) = r \<and> jk_btree_id (d ! y) = b \<and> jk_level (d ! y) = l)"

definition in_segment :: "nat \<Rightarrow> journal_key list \<Rightarrow> (nat \<times> nat) list \<Rightarrow> nat \<Rightarrow> bool" where
  "in_segment i d ovs x \<longleftrightarrow> (let r = jk_overwritten_range (d ! x) in 0 < r \<and> r < length ovs \<and>
     fst (ovs ! r) \<le> i + x \<and> i + x < snd (ovs ! r) \<and>
     uniform_run i d r (fst (ovs ! r)) (snd (ovs ! r)) (jk_btree_id (d ! x)) (jk_level (d ! x)))"

definition segment_ok :: "nat \<Rightarrow> journal_key list \<Rightarrow> (nat \<times> nat) list \<Rightarrow> bool" where
  "segment_ok i d ovs \<longleftrightarrow> (\<forall>x<length d. jk_overwritten (d ! x) \<longrightarrow> in_segment i d ovs x)"

abbreviation ranges_ok :: "journal_key list \<Rightarrow> (nat \<times> nat) list \<Rightarrow> bool" where
  "ranges_ok \<equiv> segment_ok 0"

definition jk_sorted :: "journal_key list \<Rightarrow> bool" where
  "jk_sorted d \<longleftrightarrow> sorted_wrt (\<lambda>l r. journal_key_order l < journal_key_order r) d"

definition overlay_ok :: "journal_keys \<Rightarrow> bool" where
  "overlay_ok keys \<longleftrightarrow> jk_sorted (jks_data keys) \<and> ranges_ok (jks_data keys) (jks_overwrites keys) \<and>
     jks_nr keys = length (jks_data keys) \<and> jks_size keys = length (jks_data keys)"

text \<open>The keys that are visible: those not overwritten, by btree, level and position.\<close>

definition overlay :: "journal_keys \<Rightarrow> u8 \<times> u8 \<times> bpos \<rightharpoonup> bkey_i" where
  "overlay keys = map_of (map (\<lambda>k. (journal_key_order k, jk_k k)) (filter (\<lambda>k. \<not> jk_overwritten k) (jks_data keys)))"

lemma jk_sorted_nth: "jk_sorted d \<Longrightarrow> i < j \<Longrightarrow> j < length d \<Longrightarrow> journal_key_order (d ! i) < journal_key_order (d ! j)"
  by (simp add: jk_sorted_def sorted_wrt_iff_nth_less)

lemma jk_sorted_distinct: "jk_sorted d \<Longrightarrow> distinct (map journal_key_order d)"
  by (auto simp: jk_sorted_def distinct_conv_nth sorted_wrt_iff_nth_less) (metis less_irrefl linorder_neqE_nat)

lemma overlay_eq_Some:
  assumes "distinct (map journal_key_order (jks_data keys))"
  shows "overlay keys x = Some k \<longleftrightarrow> (\<exists>e\<in>set (jks_data keys). \<not> jk_overwritten e \<and> journal_key_order e = x \<and> jk_k e = k)"
proof -
  let ?l = "filter (\<lambda>k. \<not> jk_overwritten k) (jks_data keys)"
  have "distinct (map fst (map (\<lambda>k. (journal_key_order k, jk_k k)) ?l))"
    using assms by (simp add: distinct_map_filter comp_def)
  from map_of_eq_Some_iff [OF this] show ?thesis unfolding overlay_def by auto
qed

lemma overlay_eq_None:
  "overlay keys x = None \<longleftrightarrow> (\<forall>e\<in>set (jks_data keys). journal_key_order e = x \<longrightarrow> jk_overwritten e)"
  by (force simp: overlay_def map_of_eq_None_iff image_iff)

section \<open>Looking up\<close>

lemma scan_up:
  fixes f :: "nat \<Rightarrow> 'a option"
  assumes eq: "\<And>i. i < n \<Longrightarrow> f i = (if P i then Some (g i) else f (nx i))" and fin: "f n = Some z"
    and nx: "\<And>i. i < n \<Longrightarrow> \<not> P i \<Longrightarrow> i < nx i \<and> nx i \<le> n \<and> (\<forall>x. i \<le> x \<and> x < nx i \<longrightarrow> \<not> P x)"
    and i: "i \<le> n"
  shows "\<exists>j. i \<le> j \<and> j \<le> n \<and> (\<forall>x. i \<le> x \<and> x < j \<longrightarrow> \<not> P x) \<and> (j < n \<longrightarrow> P j) \<and> f i = Some (if j < n then g j else z)"
  using i
proof (induction "n - i" arbitrary: i rule: less_induct)
  case less
  consider "i = n" | "i < n" "P i" | "i < n" "\<not> P i" using less.prems by linarith
  then show ?case
  proof cases
    case 1 then show ?thesis using fin by (intro exI [of _ i]) auto
  next
    case 2 then show ?thesis using eq by (intro exI [of _ i]) auto
  next
    case 3
    note s = nx [OF 3]
    have "n - nx i < n - i" "nx i \<le> n" using s 3(1) by linarith+
    from less.hyps [OF this] obtain j where j: "nx i \<le> j" "j \<le> n" "\<forall>x. nx i \<le> x \<and> x < j \<longrightarrow> \<not> P x" "j < n \<longrightarrow> P j"
      "f (nx i) = Some (if j < n then g j else z)" by blast
    have "\<not> P x" if "i \<le> x" "x < j" for x using s j(3) that by (cases "x < nx i") auto
    moreover have "f i = f (nx i)" using eq [OF 3(1)] 3(2) by simp
    ultimately show ?thesis using j s by (intro exI [of _ j]) auto
  qed
qed

lemma scan_down:
  fixes f :: "nat \<Rightarrow> 'a option"
  assumes eq: "\<And>c. c < n \<Longrightarrow> f (Suc c) = (if P c then Some (g c) else f (nx c))" and fin: "f 0 = Some z"
    and nx: "\<And>c. c < n \<Longrightarrow> \<not> P c \<Longrightarrow> nx c \<le> c \<and> (\<forall>x. nx c \<le> x \<and> x \<le> c \<longrightarrow> \<not> P x)"
    and c: "c \<le> n"
  shows "(f c = Some z \<and> (\<forall>x<c. \<not> P x)) \<or> (\<exists>j<c. f c = Some (g j) \<and> P j \<and> (\<forall>x. j < x \<and> x < c \<longrightarrow> \<not> P x))"
  using c
proof (induction c rule: less_induct)
  case (less c)
  show ?case
  proof (cases c)
    case 0 then show ?thesis using fin by simp
  next
    case (Suc d)
    then have d: "d < n" using less.prems by simp
    show ?thesis
    proof (cases "P d")
      case True then show ?thesis using Suc eq [OF d] by auto
    next
      case False
      note s = nx [OF d this]
      have low: "\<not> P x" if "nx d \<le> x" "x < c" for x using s that Suc by auto
      have "f c = f (nx d)" using Suc eq [OF d] False by simp
      moreover have "nx d < c" "nx d \<le> n" using s Suc d by auto
      ultimately show ?thesis using less.IH [of "nx d"] low by (metis less_trans not_le)
    qed
  qed
qed

text \<open>The keys of a btree and level between two positions, and those of them that are visible.\<close>

definition key_within :: "u8 \<Rightarrow> u8 \<Rightarrow> bpos \<Rightarrow> bpos \<Rightarrow> journal_key \<Rightarrow> bool" where
  "key_within b l lo hi k \<longleftrightarrow> jk_btree_id k = b \<and> jk_level k = l \<and> lo \<le> jk_p k \<and> jk_p k \<le> hi"

abbreviation visible_within :: "u8 \<Rightarrow> u8 \<Rightarrow> bpos \<Rightarrow> bpos \<Rightarrow> journal_key \<Rightarrow> bool" where
  "visible_within b l lo hi k \<equiv> key_within b l lo hi k \<and> \<not> jk_overwritten k"

lemma bpos_cmp_ge: "bpos_cmp l r \<ge> 0 \<longleftrightarrow> r \<le> l"
  using bpos_cmp_lt [of l r] by (simp add: not_less [symmetric])

lemma range_of_in_segment:
  assumes "in_segment 0 (jks_data keys) (jks_overwrites keys) i"
  shows "\<exists>r. range_of keys (jks_data keys ! i) = Some r \<and> fst r \<le> i \<and> i < snd r \<and> snd r \<le> length (jks_data keys) \<and>
    (\<forall>x. fst r \<le> x \<and> x < snd r \<longrightarrow> jk_overwritten (jks_data keys ! x))"
proof (rule exI, intro conjI)
  let ?r = "jk_overwritten_range (jks_data keys ! i)"
  have s: "0 < ?r" "?r < length (jks_overwrites keys)" "fst (jks_overwrites keys ! ?r) \<le> i" "i < snd (jks_overwrites keys ! ?r)"
    "uniform_run 0 (jks_data keys) ?r (fst (jks_overwrites keys ! ?r)) (snd (jks_overwrites keys ! ?r)) (jk_btree_id (jks_data keys ! i)) (jk_level (jks_data keys ! i))"
    using assms by (simp_all add: in_segment_def Let_def)
  show "range_of keys (jks_data keys ! i) = Some (jks_overwrites keys ! ?r)" using s(1,2) by (simp add: range_of_def Let_def)
  show "fst (jks_overwrites keys ! ?r) \<le> i" "i < snd (jks_overwrites keys ! ?r)" by (fact s)+
  show "snd (jks_overwrites keys ! ?r) \<le> length (jks_data keys)" using s(5) unfolding uniform_run_def by linarith
  show "\<forall>x. fst (jks_overwrites keys ! ?r) \<le> x \<and> x < snd (jks_overwrites keys ! ?r) \<longrightarrow> jk_overwritten (jks_data keys ! x)"
    using s(5) unfolding uniform_run_def add_0 by blast
qed

lemma peek_max_loop_ok:
  assumes ok: "ranges_ok (jks_data keys) (jks_overwrites keys)" and i: "i \<le> length (jks_data keys)"
  shows "\<exists>j. i \<le> j \<and> j \<le> length (jks_data keys) \<and> (\<forall>x. i \<le> x \<and> x < j \<longrightarrow> \<not> visible_within b l pos e (jks_data keys ! x)) \<and>
     (j < length (jks_data keys) \<longrightarrow> visible_within b l pos e (jks_data keys ! j)) \<and>
     peek_max_loop keys b l pos e i = Some (if j < length (jks_data keys) then (Some (jk_k (jks_data keys ! j)), j) else (None, length (jks_data keys)))"
proof (rule scan_up [OF _ _ _ i])
  let ?d = "jks_data keys"
  let ?nx = "\<lambda>i. if key_within b l pos e (?d ! i) then case range_of keys (?d ! i) of Some r \<Rightarrow> snd r | None \<Rightarrow> i + 1 else i + 1"
  show "peek_max_loop keys b l pos e i =
      (if visible_within b l pos e (?d ! i) then Some (Some (jk_k (?d ! i)), i) else peek_max_loop keys b l pos e (?nx i))"
    if "i < length ?d" for i
    using that by (subst peek_max_loop.simps) (simp add: Let_def key_within_def bpos_cmp_ge bpos_cmp_le conj_assoc)
  show "peek_max_loop keys b l pos e (length ?d) = Some (None, length ?d)"
    by (simp add: peek_max_loop.simps)
  show "i < ?nx i \<and> ?nx i \<le> length ?d \<and> (\<forall>x. i \<le> x \<and> x < ?nx i \<longrightarrow> \<not> visible_within b l pos e (?d ! x))"
    if i: "i < length ?d" and P: "\<not> visible_within b l pos e (?d ! i)" for i
  proof (cases "key_within b l pos e (?d ! i)")
    case True
    then have "in_segment 0 ?d (jks_overwrites keys) i" using ok i P by (simp add: segment_ok_def)
    from range_of_in_segment [OF this] show ?thesis using True by auto
  next
    case False
    then have "\<not> key_within b l pos e (?d ! x)" if "i \<le> x" "x < Suc i" for x
      using that by (metis le_antisym less_Suc_eq_le)
    with False i show ?thesis by simp
  qed
qed

lemma peek_prev_loop_ok:
  assumes ok: "ranges_ok (jks_data keys) (jks_overwrites keys)" and c: "c \<le> length (jks_data keys)"
  shows "(peek_prev_loop keys b l pos e c = Some (None, 0) \<and> (\<forall>x<c. \<not> visible_within b l e pos (jks_data keys ! x))) \<or>
     (\<exists>j<c. peek_prev_loop keys b l pos e c = Some (Some (jk_k (jks_data keys ! j)), j) \<and> visible_within b l e pos (jks_data keys ! j) \<and>
        (\<forall>x. j < x \<and> x < c \<longrightarrow> \<not> visible_within b l e pos (jks_data keys ! x)))"
proof (rule scan_down [OF _ _ _ c])
  let ?d = "jks_data keys"
  let ?nx = "\<lambda>c. if key_within b l e pos (?d ! c) then case range_of keys (?d ! c) of Some r \<Rightarrow> fst r | None \<Rightarrow> c else c"
  have z: "(if n = 0 then Some (None, 0) else peek_prev_loop keys b l pos e n) = peek_prev_loop keys b l pos e n" for n
    by (simp add: peek_prev_loop.simps)
  show "peek_prev_loop keys b l pos e (Suc c) =
      (if visible_within b l e pos (?d ! c) then Some (Some (jk_k (?d ! c)), c) else peek_prev_loop keys b l pos e (?nx c))"
    if "c < length ?d" for c
    using that by (subst peek_prev_loop.simps)
      (simp add: nth_opt_in_range Let_def key_within_def bpos_cmp_ge bpos_cmp_le conj_assoc z conj_commute cong: option.case_cong)
  show "peek_prev_loop keys b l pos e 0 = Some (None, 0)"
    by (simp add: peek_prev_loop.simps)
  show "?nx c \<le> c \<and> (\<forall>x. ?nx c \<le> x \<and> x \<le> c \<longrightarrow> \<not> visible_within b l e pos (?d ! x))"
    if i: "c < length ?d" and P: "\<not> visible_within b l e pos (?d ! c)" for c
  proof (cases "key_within b l e pos (?d ! c)")
    case True
    then have "in_segment 0 ?d (jks_overwrites keys) c" using ok i P by (simp add: segment_ok_def)
    from range_of_in_segment [OF this] show ?thesis using True by auto
  next
    case False
    then show ?thesis using P by (auto dest: le_antisym)
  qed
qed

lemma overlay_nth:
  assumes "jk_sorted (jks_data keys)" "i < length (jks_data keys)" "\<not> jk_overwritten (jks_data keys ! i)"
  shows "overlay keys (jk_btree_id (jks_data keys ! i), jk_level (jks_data keys ! i), jk_p (jks_data keys ! i)) = Some (jk_k (jks_data keys ! i))"
  using assms by (simp add: overlay_eq_Some jk_sorted_distinct journal_key_order_def) (metis nth_mem)

lemma overlay_not_visible:
  assumes "\<And>x. x < length (jks_data keys) \<Longrightarrow> jk_p (jks_data keys ! x) = q \<Longrightarrow> \<not> visible_within b l lo hi (jks_data keys ! x)" "lo \<le> q" "q \<le> hi"
  shows "overlay keys (b, l, q) = None"
  using assms by (auto simp: overlay_eq_None journal_key_order_def key_within_def in_set_conv_nth)

text \<open>
  What the two iterators promise of the visible keys \<open>m\<close>: the key with the least (the greatest) position of a btree and
  level between two positions.
\<close>

definition least_visible :: "(u8 \<times> u8 \<times> bpos \<rightharpoonup> bkey_i) \<Rightarrow> u8 \<Rightarrow> u8 \<Rightarrow> bpos \<Rightarrow> bpos \<Rightarrow> bkey_i option \<Rightarrow> bool" where
  "least_visible m b l lo hi r =
     (case r of None \<Rightarrow> \<forall>q. lo \<le> q \<and> q \<le> hi \<longrightarrow> m (b, l, q) = None
      | Some k \<Rightarrow> let p = k_p (fst k) in
          lo \<le> p \<and> p \<le> hi \<and> m (b, l, p) = Some k \<and> (\<forall>q. lo \<le> q \<and> q < p \<longrightarrow> m (b, l, q) = None))"

definition greatest_visible :: "(u8 \<times> u8 \<times> bpos \<rightharpoonup> bkey_i) \<Rightarrow> u8 \<Rightarrow> u8 \<Rightarrow> bpos \<Rightarrow> bpos \<Rightarrow> bkey_i option \<Rightarrow> bool" where
  "greatest_visible m b l lo hi r =
     (case r of None \<Rightarrow> \<forall>q. lo \<le> q \<and> q \<le> hi \<longrightarrow> m (b, l, q) = None
      | Some k \<Rightarrow> let p = k_p (fst k) in
          lo \<le> p \<and> p \<le> hi \<and> m (b, l, p) = Some k \<and> (\<forall>q. p < q \<and> q \<le> hi \<longrightarrow> m (b, l, q) = None))"

lemma peek_max_least:
  assumes ok: "overlay_ok keys" and i: "i \<le> length (jks_data keys)" and lo: "\<And>x. x < i \<Longrightarrow> journal_key_order (jks_data keys ! x) < (b, l, pos)"
  shows "\<exists>r j. bch2_journal_keys_peek_max keys b l pos e i = Some (r, j) \<and> least_visible (overlay keys) b l pos e r"
proof -
  let ?d = "jks_data keys"
  have s: "jk_sorted ?d" using ok by (simp add: overlay_ok_def)
  obtain j where j: "i \<le> j" "j \<le> length ?d" "\<forall>x. i \<le> x \<and> x < j \<longrightarrow> \<not> visible_within b l pos e (?d ! x)"
     "j < length ?d \<longrightarrow> visible_within b l pos e (?d ! j)"
     "peek_max_loop keys b l pos e i = Some (if j < length ?d then (Some (jk_k (?d ! j)), j) else (None, length ?d))"
    using peek_max_loop_ok [of keys i b l pos e] ok i by (auto simp: overlay_ok_def)
  have before: "\<not> visible_within b l pos e (?d ! x)" if "x < j" for x
    using j(3) lo [of x] that by (cases "x < i") (auto simp: key_within_def journal_key_order_def)
  show ?thesis
  proof (cases "j < length ?d")
    case True
    let ?k = "?d ! j"
    have k: "jk_btree_id ?k = b" "jk_level ?k = l" "pos \<le> jk_p ?k" "jk_p ?k \<le> e" "\<not> jk_overwritten ?k"
      using j(4) True by (auto simp: key_within_def)
    have none: "overlay keys (b, l, q) = None" if q: "pos \<le> q" "q < jk_p ?k" for q
    proof (rule overlay_not_visible [where lo = pos and hi = e])
      fix x assume x: "x < length ?d" "jk_p (?d ! x) = q"
      show "\<not> visible_within b l pos e (?d ! x)"
      proof (cases "x < j")
        case False
        then have "journal_key_order ?k \<le> journal_key_order (?d ! x)"
          using jk_sorted_nth [OF s, of j x] x by (cases "x = j") auto
        then show ?thesis using k q x by (auto simp: key_within_def journal_key_order_def)
      qed (rule before)
    qed (use q k in auto)
    show ?thesis using j(5) i True k none overlay_nth [OF s True k(5)]
      by (intro exI [of _ "Some (jk_k ?k)"] exI [of _ j]) (simp add: bch2_journal_keys_peek_max_def least_visible_def jk_p_def Let_def)
  next
    case False
    then have "overlay keys (b, l, q) = None" if "pos \<le> q" "q \<le> e" for q
      using overlay_not_visible [of keys q b l pos e] before j(2) that by auto
    then show ?thesis using j(5) i False
      by (intro exI [of _ None] exI [of _ "length ?d"]) (simp add: bch2_journal_keys_peek_max_def least_visible_def)
  qed
qed

lemma peek_prev_greatest:
  assumes ok: "overlay_ok keys" and i: "i \<le> length (jks_data keys)"
    and hi: "\<And>x. 0 < i \<Longrightarrow> i < x \<Longrightarrow> x < length (jks_data keys) \<Longrightarrow> (b, l, pos) < journal_key_order (jks_data keys ! x)"
  shows "\<exists>r j. bch2_journal_keys_peek_prev_min keys b l pos e i = Some (r, j) \<and> greatest_visible (overlay keys) b l e pos r"
proof -
  let ?d = "jks_data keys"
  define c where "c = (if i = 0 then length ?d else min (i + 1) (length ?d))"
  have eq: "bch2_journal_keys_peek_prev_min keys b l pos e i = peek_prev_loop keys b l pos e c"
    using i by (simp add: bch2_journal_keys_peek_prev_min_def c_def Let_def)
  have s: "jk_sorted ?d" using ok by (simp add: overlay_ok_def)
  have beyond: "\<not> visible_within b l e pos (?d ! x)" if "c \<le> x" "x < length ?d" for x
    using hi [of x] that by (auto simp: c_def key_within_def journal_key_order_def min_le_iff_disj split: if_splits)
  have c: "c \<le> length ?d" by (simp add: c_def)
  from peek_prev_loop_ok [OF _ c, of b l pos e] ok consider
      "peek_prev_loop keys b l pos e c = Some (None, 0)" "\<forall>x<c. \<not> visible_within b l e pos (?d ! x)"
    | j where "j < c" "peek_prev_loop keys b l pos e c = Some (Some (jk_k (?d ! j)), j)" "visible_within b l e pos (?d ! j)"
        "\<forall>x. j < x \<and> x < c \<longrightarrow> \<not> visible_within b l e pos (?d ! x)"
    unfolding overlay_ok_def by blast
  then show ?thesis
  proof cases
    case 1
    have "overlay keys (b, l, q) = None" if "e \<le> q" "q \<le> pos" for q
      using overlay_not_visible [of keys q b l e pos] beyond 1(2) that by (meson not_less)
    then show ?thesis using 1(1) eq by (intro exI [of _ None] exI [of _ 0]) (simp add: greatest_visible_def)
  next
    case (2 j)
    let ?k = "?d ! j"
    have len: "j < length ?d" using 2(1) c by simp
    have k: "jk_btree_id ?k = b" "jk_level ?k = l" "e \<le> jk_p ?k" "jk_p ?k \<le> pos" "\<not> jk_overwritten ?k"
      using 2(3) by (auto simp: key_within_def)
    have none: "overlay keys (b, l, q) = None" if q: "jk_p ?k < q" "q \<le> pos" for q
    proof (rule overlay_not_visible [where lo = e and hi = pos])
      fix x assume x: "x < length ?d" "jk_p (?d ! x) = q"
      show "\<not> visible_within b l e pos (?d ! x)"
      proof (cases "j < x")
        case True then show ?thesis using 2(4) beyond x(1) by (meson not_less)
      next
        case False
        then have "journal_key_order (?d ! x) \<le> journal_key_order ?k"
          using jk_sorted_nth [OF s, of x j] len by (cases "x = j") auto
        then show ?thesis using k q x by (auto simp: key_within_def journal_key_order_def)
      qed
    qed (use q k in auto)
    show ?thesis using 2(2) eq k none overlay_nth [OF s len k(5)]
      by (intro exI [of _ "Some (jk_k ?k)"] exI [of _ j]) (simp add: greatest_visible_def jk_p_def Let_def)
  qed
qed

lemma peek_slot_overlay:
  assumes "overlay_ok keys"
  shows "bch2_journal_keys_peek_slot keys b l pos = Some (overlay keys (b, l, pos))"
proof -
  obtain r j where r: "bch2_journal_keys_peek_max keys b l pos pos 0 = Some (r, j)" "least_visible (overlay keys) b l pos pos r"
    using peek_max_least [OF assms, of 0 b l pos pos] by auto
  show ?thesis
  proof (cases r)
    case None then show ?thesis using r by (simp add: bch2_journal_keys_peek_slot_def least_visible_def)
  next
    case (Some k)
    then have "k_p (fst k) = pos" "overlay keys (b, l, pos) = Some k" using r(2) by (auto simp: least_visible_def Let_def)
    then show ?thesis using r(1) Some by (simp add: bch2_journal_keys_peek_slot_def)
  qed
qed

section \<open>Rebuilding the ranges\<close>

lemma uniform_run_left:
  "uniform_run i a r s e b l \<Longrightarrow> uniform_run i (a @ a') r s e b l"
  by (auto simp: uniform_run_def nth_append)

lemma uniform_run_right:
  assumes u: "uniform_run (i + length a) a' r s e b l"
  shows "uniform_run i (a @ a') r s e b l"
  unfolding uniform_run_def
proof (intro conjI allI impI)
  note u = u [unfolded uniform_run_def]
  show "i \<le> s" "e \<le> i + length (a @ a')" using u by auto
  fix y assume y: "s \<le> i + y \<and> i + y < e"
  then obtain z where z: "y = length a + z" using u le_Suc_ex [of "length a" y] by auto
  have "jk_overwritten (a' ! z) \<and> jk_overwritten_range (a' ! z) = r \<and> jk_btree_id (a' ! z) = b \<and> jk_level (a' ! z) = l"
    using u y z by (simp add: add.assoc)
  then show "jk_overwritten ((a @ a') ! y)" "jk_overwritten_range ((a @ a') ! y) = r" "jk_btree_id ((a @ a') ! y) = b" "jk_level ((a @ a') ! y) = l"
    unfolding z by simp_all
qed

lemma segment_ok_append:
  assumes "segment_ok i a ovs" "segment_ok (i + length a) b ovs"
  shows "segment_ok i (a @ b) ovs"
  unfolding segment_ok_def
proof (intro allI impI)
  fix x assume x: "x < length (a @ b)" "jk_overwritten ((a @ b) ! x)"
  show "in_segment i (a @ b) ovs x"
  proof (cases "x < length a")
    case True then show ?thesis using assms(1) x by (simp add: segment_ok_def in_segment_def nth_append Let_def uniform_run_left)
  next
    case False
    then obtain y where y: "x = length a + y" using le_Suc_ex not_less by blast
    show ?thesis using assms(2) x unfolding y by (simp add: segment_ok_def in_segment_def Let_def uniform_run_right add.assoc)
  qed
qed

lemma segment_ok_overwrites: "segment_ok i d ovs \<Longrightarrow> segment_ok i d (ovs @ t)"
  by (auto simp: segment_ok_def in_segment_def Let_def nth_append)

lemma segment_ok_run:
  assumes "\<And>k. k \<in> set run \<Longrightarrow> jk_overwritten k \<and> jk_btree_id k = b \<and> jk_level k = l" "ovs \<noteq> []" "e = i + length run"
  shows "segment_ok i (map (\<lambda>k. k\<lparr>jk_overwritten_range := length ovs\<rparr>) run) (ovs @ [(i, e)])"
  using assms by (simp add: segment_ok_def in_segment_def Let_def uniform_run_def)

lemma overwrite_ranges_ok:
  assumes "overwrite_ranges i ks ovs = (d, ovs')"
  shows "map (jk_overwritten_range_update (\<lambda>_. 0)) d = map (jk_overwritten_range_update (\<lambda>_. 0)) ks \<and> (\<exists>t. ovs' = ovs @ t) \<and> segment_ok i d ovs'"
  using assms
proof (induction i ks ovs arbitrary: d ovs' rule: overwrite_ranges.induct)
  case (1 i overwrites)
  then show ?case by (simp add: segment_ok_def)
next
  case (2 i k ks ovs)
  show ?case
  proof (cases "jk_overwritten k")
    case False
    obtain e where e: "overwrite_ranges (i + 1) ks ovs = (e, ovs')" "d = k\<lparr>jk_overwritten_range := 0\<rparr> # e"
      using 2(3) False by (auto split: prod.splits)
    note IH = 2(1) [OF False e(1)]
    have "segment_ok i ([k\<lparr>jk_overwritten_range := 0\<rparr>] @ e) ovs'"
      using IH False by (intro segment_ok_append) (auto simp: segment_ok_def)
    then show ?thesis using IH e by simp
  next
    case True
    define P where "P = (\<lambda>x :: journal_key. jk_overwritten x \<and> jk_btree_id x = jk_btree_id k \<and> jk_level x = jk_level k)"
    define run where "run = takeWhile P ks"
    define e where "e = i + 1 + length run"
    define ov where "ov = (if ovs = [] then [(0, 0)] else ovs)"
    obtain rest os where x: "overwrite_ranges e (drop (length run) ks) (ov @ [(i, e)]) = (rest, os)" by fastforce
    have "overwrite_ranges i (k # ks) ovs = (map (\<lambda>x. x\<lparr>jk_overwritten_range := length ov\<rparr>) (k # run) @ rest, os)"
      using x True unfolding run_def P_def e_def ov_def by (simp only: overwrite_ranges.simps Let_def not_not if_False simp_thms prod.case)
    with 2(3) x have r: "overwrite_ranges e (drop (length run) ks) (ov @ [(i, e)]) = (rest, ovs')"
        "d = map (\<lambda>x. x\<lparr>jk_overwritten_range := length ov\<rparr>) (k # run) @ rest" by simp_all
    from 2(2) [OF _ run_def [unfolded P_def] e_def ov_def refl, of rest ovs'] True r(1)
    have IH: "map (jk_overwritten_range_update (\<lambda>_. 0)) rest = map (jk_overwritten_range_update (\<lambda>_. 0)) (drop (length run) ks)"
      "\<exists>t. ovs' = (ov @ [(i, e)]) @ t" "segment_ok e rest ovs'" by auto
    from IH(2) obtain t where t: "ovs' = (ov @ [(i, e)]) @ t" by blast
    have "segment_ok i (map (\<lambda>x. x\<lparr>jk_overwritten_range := length ov\<rparr>) (k # run)) (ov @ [(i, e)])"
      by (rule segment_ok_run [where b = "jk_btree_id k" and l = "jk_level k"])
        (auto simp: ov_def e_def run_def P_def True dest: set_takeWhileD)
    then have "segment_ok i d ovs'" unfolding r(2)
      using IH(3) by (intro segment_ok_append) (simp_all add: t segment_ok_overwrites e_def add.assoc del: append_assoc)
    moreover have "ks = run @ drop (length run) ks" by (simp add: run_def dropWhile_eq_drop [symmetric])
    then have "map (jk_overwritten_range_update (\<lambda>_. 0)) d = map (jk_overwritten_range_update (\<lambda>_. 0)) (k # ks)"
    proof -
      assume ks: "ks = run @ drop (length run) ks"
      have "map (jk_overwritten_range_update (\<lambda>_. 0)) d = map (jk_overwritten_range_update (\<lambda>_. 0)) (k # (run @ drop (length run) ks))"
        by (simp add: r(2) IH(1))
      then show ?thesis by (simp only: ks [symmetric])
    qed
    moreover have "\<exists>s. ovs' = ovs @ s" using t by (simp add: ov_def split: if_splits)
    ultimately show ?thesis by blast
  qed
qed

section \<open>Inserting\<close>

abbreviation strip_range :: "journal_key \<Rightarrow> journal_key" where
  "strip_range \<equiv> jk_overwritten_range_update (\<lambda>_. 0)"

lemma strip_range_simps [simp]:
  "journal_key_order (k\<lparr>jk_overwritten_range := r\<rparr>) = journal_key_order k"
  by (simp add: journal_key_order_def jk_p_def)

lemma map_strip_range:
  assumes "map strip_range d = map strip_range d'" "\<And>k. f (strip_range k) = f k"
  shows "map f d = map f d'"
  using arg_cong [OF assms(1), of "map f"] assms(2) by (simp add: comp_def)

lemma option_eqI: "(\<And>v. a = Some v \<longleftrightarrow> b = Some v) \<Longrightarrow> a = b"
  by (cases a; cases b) auto

lemma overlay_cong:
  assumes "distinct (map journal_key_order (jks_data a))" "distinct (map journal_key_order (jks_data b))"
    and "(\<lambda>k. (jk_overwritten k, journal_key_order k, jk_k k)) ` set (jks_data a) = (\<lambda>k. (jk_overwritten k, journal_key_order k, jk_k k)) ` set (jks_data b)"
  shows "overlay a = overlay b"
proof (rule ext, rule option_eqI)
  fix x k
  have 1: "overlay c x = Some k \<longleftrightarrow> (False, x, k) \<in> (\<lambda>k. (jk_overwritten k, journal_key_order k, jk_k k)) ` set (jks_data c)"
    if "distinct (map journal_key_order (jks_data c))" for c
    using overlay_eq_Some [OF that, of x k] by (auto simp: image_iff)
  show "overlay a x = Some k \<longleftrightarrow> overlay b x = Some k" unfolding 1 [OF assms(1)] 1 [OF assms(2)] assms(3) ..
qed

lemma sort_ok:
  assumes d: "distinct (map journal_key_order (jks_data keys))" and n: "jks_nr keys = length (jks_data keys)" "jks_size keys = length (jks_data keys)"
  shows "overlay_ok (raw_journal_keys_sort keys) \<and> overlay (raw_journal_keys_sort keys) = overlay keys"
proof -
  let ?s = "sort_key journal_key_order (jks_data keys)"
  obtain e ovs where e: "overwrite_ranges 0 ?s [] = (e, ovs)" by fastforce
  note r = overwrite_ranges_ok [OF e]
  have o: "map journal_key_order e = map journal_key_order ?s" by (rule map_strip_range [OF conjunct1 [OF r]]) simp
  have q: "map (\<lambda>k. (jk_overwritten k, journal_key_order k, jk_k k)) e = map (\<lambda>k. (jk_overwritten k, journal_key_order k, jk_k k)) ?s"
    by (rule map_strip_range [OF conjunct1 [OF r]]) simp
  have ds: "distinct (map journal_key_order ?s)" using d by (simp add: distinct_map)
  have "sorted_wrt (<) (map journal_key_order ?s)" using ds by (simp add: strict_sorted_iff)
  then have "jk_sorted e" unfolding o [symmetric] by (simp add: jk_sorted_def sorted_wrt_map)
  moreover have "length e = length (jks_data keys)" using arg_cong [OF o, of length] by simp
  moreover have "overlay (raw_journal_keys_sort keys) = overlay keys"
  proof (rule overlay_cong)
    show "distinct (map journal_key_order (jks_data (raw_journal_keys_sort keys)))"
      using ds o by (simp add: raw_journal_keys_sort_def e)
    show "(\<lambda>k. (jk_overwritten k, journal_key_order k, jk_k k)) ` set (jks_data (raw_journal_keys_sort keys)) =
        (\<lambda>k. (jk_overwritten k, journal_key_order k, jk_k k)) ` set (jks_data keys)"
      using arg_cong [OF q, of set] by (simp add: raw_journal_keys_sort_def e)
  qed (rule d)
  ultimately show ?thesis using r n by (simp add: raw_journal_keys_sort_def e overlay_ok_def)
qed

lemma find_index_Some:
  "find_index P xs = Some i \<Longrightarrow> i < length xs \<and> P (xs ! i)"
  by (induction P xs arbitrary: i rule: find_index.induct) (auto split: if_splits)

lemma find_index_None: "find_index P xs = None \<longleftrightarrow> (\<forall>x\<in>set xs. \<not> P x)"
  by (induction P xs rule: find_index.induct) auto

lemma jk_at_order: "jk_at b l p e \<longleftrightarrow> journal_key_order e = (b, l, p)"
  by (auto simp: jk_at_def journal_key_order_def)

lemma overlay_update:
  assumes d: "distinct (map journal_key_order (jks_data keys))" and i: "i < length (jks_data keys)"
    and k: "journal_key_order k = journal_key_order (jks_data keys ! i)"
  shows "overlay (keys\<lparr>jks_data := (jks_data keys)[i := k], jks_overwrites := ovs\<rparr>) =
    (overlay keys)(journal_key_order k := if jk_overwritten k then None else Some (jk_k k))"
proof (rule ext, rule option_eqI)
  fix x v
  let ?d = "jks_data keys"
  have m: "map journal_key_order (?d[i := k]) = map journal_key_order ?d"
    using i k by (metis list_update_id map_update)
  have s: "set (?d[i := k]) = insert k (set ?d - {?d ! i})"
    using d i by (simp add: distinct_map set_update_distinct)
  have u: "e = ?d ! i" if "e \<in> set ?d" "journal_key_order e = journal_key_order k" for e
    using that d i k by (metis distinct_map inj_onD nth_mem)
  have "overlay (keys\<lparr>jks_data := ?d[i := k], jks_overwrites := ovs\<rparr>) x = Some v \<longleftrightarrow>
      (\<exists>e\<in>insert k (set ?d - {?d ! i}). \<not> jk_overwritten e \<and> journal_key_order e = x \<and> jk_k e = v)"
    using d by (subst overlay_eq_Some) (simp_all add: m s)
  also have "\<dots> \<longleftrightarrow> ((overlay keys)(journal_key_order k := if jk_overwritten k then None else Some (jk_k k))) x = Some v"
    using overlay_eq_Some [OF d, of x v] u k by auto
  finally show "overlay (keys\<lparr>jks_data := ?d[i := k], jks_overwrites := ovs\<rparr>) x = Some v \<longleftrightarrow>
      ((overlay keys)(journal_key_order k := if jk_overwritten k then None else Some (jk_k k))) x = Some v" .
qed

lemma insert_overlay:
  assumes ok: "overlay_ok keys" and key: "unat (k_u64s (fst key)) \<ge> BKEY_U64S"
  shows "\<exists>keys'. bch2_journal_key_insert True keys b l key = (0, keys') \<and> overlay_ok keys' \<and>
    overlay keys' = (overlay keys)((b, l, k_p (fst key)) \<mapsto> key)"
proof -
  let ?d = "jks_data keys" and ?p = "(b, l, k_p (fst key))"
  have d: "distinct (map journal_key_order ?d)" and n: "jks_nr keys = length ?d" "jks_size keys = length ?d"
    using ok jk_sorted_distinct by (auto simp: overlay_ok_def)
  show ?thesis
  proof (cases "find_index (jk_at b l (k_p (fst key))) ?d")
    case (Some i)
    let ?k = "(?d ! i)\<lparr>jk_k := key, jk_overwritten := False, jk_overwritten_range := 0\<rparr>"
    let ?u = "keys\<lparr>jks_data := ?d[i := ?k]\<rparr>"
    have i: "i < length ?d" "journal_key_order (?d ! i) = ?p" using find_index_Some [OF Some] by (simp_all add: jk_at_order)
    then have k: "journal_key_order ?k = ?p" by (simp add: journal_key_order_def jk_p_def)
    then have "map journal_key_order (?d[i := ?k]) = map journal_key_order ?d" using i by (metis list_update_id map_update)
    then have "overlay_ok (raw_journal_keys_sort ?u) \<and> overlay (raw_journal_keys_sort ?u) = overlay ?u"
      using d n by (intro sort_ok) simp_all
    moreover have "overlay ?u = (overlay keys)(?p \<mapsto> key)"
      using overlay_update [OF d i(1), of ?k "jks_overwrites keys"] k i(2) by (simp add: fun_upd_def)
    moreover have "bch2_journal_key_insert True keys b l key = (0, raw_journal_keys_sort ?u)"
      using key Some by (simp add: bch2_journal_key_insert_def)
    ultimately show ?thesis by simp
  next
    case None
    let ?k = "\<lparr>jk_btree_id = b, jk_level = l, jk_overwritten = False, jk_overwritten_range = 0, jk_k = key\<rparr>"
    let ?e = "?d @ [?k]"
    let ?u = "keys\<lparr>jks_data := ?e, jks_nr := length ?e, jks_size := length ?e\<rparr>"
    have k: "journal_key_order ?k = ?p" by (simp add: journal_key_order_def jk_p_def)
    have new: "journal_key_order x \<noteq> ?p" if "x \<in> set ?d" for x using None that by (simp add: find_index_None jk_at_order)
    have de: "distinct (map journal_key_order (jks_data ?u))" using d new k by (simp add: image_iff) metis
    then have "overlay_ok (raw_journal_keys_sort ?u) \<and> overlay (raw_journal_keys_sort ?u) = overlay ?u" by (intro sort_ok) simp_all
    moreover have "overlay ?u = (overlay keys)(?p \<mapsto> key)"
    proof (rule ext, rule option_eqI)
      fix x v
      show "overlay ?u x = Some v \<longleftrightarrow> ((overlay keys)(?p \<mapsto> key)) x = Some v"
        using overlay_eq_Some [OF de, of x v] overlay_eq_Some [OF d, of x v] new k by auto
    qed
    moreover have "bch2_journal_key_insert True keys b l key = (0, raw_journal_keys_sort ?u)"
      using key None by (simp add: bch2_journal_key_insert_def Let_def)
    ultimately show ?thesis by simp
  qed
qed

section \<open>Marking keys as overwritten\<close>

lemma length_set_range [simp]: "length (set_range r a b d) = length d"
  by (simp add: set_range_def)

lemma nth_set_range: "y < length d \<Longrightarrow> set_range r a b d ! y = (if a \<le> y \<and> y < b then (d ! y)\<lparr>jk_overwritten_range := r\<rparr> else d ! y)"
  by (simp add: set_range_def)

lemma strip_set_range [simp]: "map strip_range (set_range r a b d) = map strip_range d"
  by (rule nth_equalityI) (auto simp: nth_set_range)

lemma in_segmentD:
  assumes "in_segment 0 d ovs x" "r = jk_overwritten_range (d ! x)"
  shows "0 < r" "r < length ovs" "fst (ovs ! r) \<le> x" "x < snd (ovs ! r)" "snd (ovs ! r) \<le> length d"
    "\<And>y. fst (ovs ! r) \<le> y \<Longrightarrow> y < snd (ovs ! r) \<Longrightarrow> jk_overwritten (d ! y) \<and> jk_overwritten_range (d ! y) = r \<and>
       jk_btree_id (d ! y) = jk_btree_id (d ! x) \<and> jk_level (d ! y) = jk_level (d ! x)"
  using assms(1) unfolding in_segment_def uniform_run_def Let_def assms(2) [symmetric] add_0 by blast+

text \<open>
  A new range from \<open>s\<close> to \<open>e\<close> around the key \<open>i\<close> that swallows every range it meets: the other ranges stay as they are.
\<close>

lemma merge_ranges:
  assumes ok: "ranges_ok d ovs" and i: "\<not> jk_overwritten (d ! i)"
    and run: "\<And>y. s \<le> y \<Longrightarrow> y < e \<Longrightarrow> y \<noteq> i \<Longrightarrow> jk_overwritten (d ! y) \<and> jk_btree_id (d ! y) = jk_btree_id (d ! i) \<and> jk_level (d ! y) = jk_level (d ! i) \<and>
        s \<le> fst (ovs ! jk_overwritten_range (d ! y)) \<and> snd (ovs ! jk_overwritten_range (d ! y)) \<le> e"
    and e: "e \<le> length d" and r: "0 < r" "r < length ovs'" "ovs' ! r = (s, e)"
    and own: "\<And>x. x < length d \<Longrightarrow> jk_overwritten (d ! x) \<Longrightarrow> jk_overwritten_range (d ! x) = r \<Longrightarrow> s \<le> x \<and> x < e"
    and others: "\<And>q. q < length ovs \<Longrightarrow> q \<noteq> r \<Longrightarrow> q < length ovs' \<and> ovs' ! q = ovs ! q"
    and d': "length d' = length d"
      "\<And>y. s \<le> y \<Longrightarrow> y < e \<Longrightarrow> jk_overwritten (d' ! y) \<and> jk_overwritten_range (d' ! y) = r \<and>
         jk_btree_id (d' ! y) = jk_btree_id (d ! y) \<and> jk_level (d' ! y) = jk_level (d ! y)"
      "\<And>y. y < length d \<Longrightarrow> \<not> (s \<le> y \<and> y < e) \<Longrightarrow> d' ! y = d ! y"
  shows "ranges_ok d' ovs'"
  unfolding segment_ok_def
proof (intro allI impI)
  fix x assume x: "x < length d'" "jk_overwritten (d' ! x)"
  show "in_segment 0 d' ovs' x"
  proof (cases "s \<le> x \<and> x < e")
    case True
    have same: "jk_btree_id (d' ! y) = jk_btree_id (d ! i) \<and> jk_level (d' ! y) = jk_level (d ! i)" if "s \<le> y" "y < e" for y
      using d'(2) [OF that] run [OF that] by (cases "y = i") auto
    have "uniform_run 0 d' r s e (jk_btree_id (d' ! x)) (jk_level (d' ! x))"
      unfolding uniform_run_def using same True d'(1,2) e by auto
    then show ?thesis using True d'(2) [of x] r by (simp add: in_segment_def Let_def)
  next
    case False
    have dx: "d' ! x = d ! x" using d'(1,3) x(1) False by simp
    let ?q = "jk_overwritten_range (d ! x)"
    have seg: "in_segment 0 d ovs x" using ok x dx d'(1) by (simp add: segment_ok_def)
    note S = in_segmentD [OF seg refl]
    have q: "?q \<noteq> r" using own [of x] x dx d'(1) False by auto
    have apart: "d' ! y = d ! y" if y: "fst (ovs ! ?q) \<le> y" "y < snd (ovs ! ?q)" for y
    proof (rule d'(3))
      show "y < length d" using y S(5) by linarith
      show "\<not> (s \<le> y \<and> y < e)"
      proof
        assume m: "s \<le> y \<and> y < e"
        then have "y \<noteq> i" using S(6) [OF y] i by blast
        then show False using run [of y] m S(3,4) S(6) [OF y] False by auto
      qed
    qed
    have "uniform_run 0 d' ?q (fst (ovs ! ?q)) (snd (ovs ! ?q)) (jk_btree_id (d ! x)) (jk_level (d ! x))"
      unfolding uniform_run_def add_0 using S(5,6) d'(1) apart by simp
    then show ?thesis using S(1-4) others [OF S(2) q] by (simp add: in_segment_def Let_def dx)
  qed
qed

text \<open>The range of a neighbour of a key that is not overwritten ends, or starts, next to that key.\<close>

lemma prev_range_ends:
  assumes "ranges_ok d ovs" "\<not> jk_overwritten (d ! i)" "jk_overwritten (d ! (i - 1))" "0 < i" "i < length d" "r = jk_overwritten_range (d ! (i - 1))"
  shows "in_segment 0 d ovs (i - 1) \<and> snd (ovs ! r) = i"
proof -
  have s: "in_segment 0 d ovs (i - 1)" using assms by (simp add: segment_ok_def)
  note S = in_segmentD [OF s assms(6)]
  have "\<not> i < snd (ovs ! r)" using S(3) S(6) [of i] assms(2) by linarith
  then show ?thesis using s S(4) assms(4) by linarith
qed

lemma next_range_starts:
  assumes "ranges_ok d ovs" "\<not> jk_overwritten (d ! i)" "jk_overwritten (d ! (i + 1))" "i + 1 < length d" "r = jk_overwritten_range (d ! (i + 1))"
  shows "in_segment 0 d ovs (i + 1) \<and> fst (ovs ! r) = i + 1"
proof -
  have s: "in_segment 0 d ovs (i + 1)" using assms by (simp add: segment_ok_def)
  note S = in_segmentD [OF s assms(5)]
  have "\<not> fst (ovs ! r) \<le> i" using S(4) S(6) [of i] assms(2) by linarith
  then show ?thesis using s S(3) by linarith
qed

abbreviation mark :: "journal_key list \<Rightarrow> nat \<Rightarrow> journal_key list" where
  "mark d i \<equiv> d[i := (d ! i)\<lparr>jk_overwritten := True\<rparr>]"

lemma overwritten_alone:
  assumes ok: "ranges_ok d ovs" and i: "i < length d" "\<not> jk_overwritten (d ! i)" and ov: "ov = (if ovs = [] then [(0, 0)] else ovs)"
  shows "ranges_ok (set_range (length ov) i (i + 1) (mark d i)) (ov @ [(i, i + 1)])"
proof (rule merge_ranges [OF ok i(2), where s = i and e = "i + 1" and r = "length ov"])
  fix x assume "x < length d" "jk_overwritten (d ! x)" "jk_overwritten_range (d ! x) = length ov"
  then show "i \<le> x \<and> x < i + 1" using ok in_segmentD(2) [of d ovs x, OF _ refl] ov by (auto simp: segment_ok_def split: if_splits)
qed (use i ov in \<open>auto simp: nth_append nth_set_range less_Suc_eq_le dest: le_antisym\<close>)

lemma overwritten_after:
  assumes ok: "ranges_ok d ovs" and i: "i < length d" "\<not> jk_overwritten (d ! i)" and p: "0 < i" "jk_overwritten (d ! (i - 1))"
      "jk_btree_id (d ! (i - 1)) = jk_btree_id (d ! i)" "jk_level (d ! (i - 1)) = jk_level (d ! i)" "r = jk_overwritten_range (d ! (i - 1))"
  shows "ranges_ok (set_range r i (i + 1) (mark d i)) (ovs[r := (fst (ovs ! r), max (snd (ovs ! r)) (i + 1))])"
proof (rule merge_ranges [OF ok i(2), where s = "fst (ovs ! r)" and e = "i + 1" and r = r])
  have seg: "in_segment 0 d ovs (i - 1)" and snd: "snd (ovs ! r) = i"
    using prev_range_ends [OF ok i(2) p(2,1) i(1) p(5)] by auto
  note S = in_segmentD [OF seg p(5)]
  show "0 < r" "r < length (ovs[r := (fst (ovs ! r), max (snd (ovs ! r)) (i + 1))])" using S by simp_all
  show "ovs[r := (fst (ovs ! r), max (snd (ovs ! r)) (i + 1))] ! r = (fst (ovs ! r), i + 1)" using S(2) snd by simp
  fix y assume y: "fst (ovs ! r) \<le> y" "y < i + 1"
  then have u: "jk_overwritten (d ! y) \<and> jk_overwritten_range (d ! y) = r \<and> jk_btree_id (d ! y) = jk_btree_id (d ! (i - 1)) \<and> jk_level (d ! y) = jk_level (d ! (i - 1))"
    if "y \<noteq> i" using S(6) [of y] that snd by simp
  then show "jk_overwritten (d ! y) \<and> jk_btree_id (d ! y) = jk_btree_id (d ! i) \<and> jk_level (d ! y) = jk_level (d ! i) \<and>
      fst (ovs ! r) \<le> fst (ovs ! jk_overwritten_range (d ! y)) \<and> snd (ovs ! jk_overwritten_range (d ! y)) \<le> i + 1" if "y \<noteq> i"
    using that snd p by simp
  show "jk_overwritten (set_range r i (i + 1) (mark d i) ! y) \<and> jk_overwritten_range (set_range r i (i + 1) (mark d i) ! y) = r \<and>
      jk_btree_id (set_range r i (i + 1) (mark d i) ! y) = jk_btree_id (d ! y) \<and> jk_level (set_range r i (i + 1) (mark d i) ! y) = jk_level (d ! y)"
    using u y i(1) by (cases "y = i") (simp_all add: nth_set_range)
next
  fix x assume x: "x < length d" "jk_overwritten (d ! x)" "jk_overwritten_range (d ! x) = r"
  then have "in_segment 0 d ovs x" using ok by (simp add: segment_ok_def)
  then show "fst (ovs ! r) \<le> x \<and> x < i + 1" using in_segmentD(3,4) [OF _ x(3) [symmetric]] prev_range_ends [OF ok i(2) p(2,1) i(1) p(5)] by force
next
  fix y assume y: "y < length d" "\<not> (fst (ovs ! r) \<le> y \<and> y < i + 1)"
  then have "y \<noteq> i" using in_segmentD(3) [OF conjunct1 [OF prev_range_ends [OF ok i(2) p(2,1) i(1) p(5)]] p(5)] by auto
  then show "set_range r i (i + 1) (mark d i) ! y = d ! y" using y(1) by (auto simp: nth_set_range)
qed (use i in \<open>auto simp: nth_set_range\<close>)

lemma overwritten_before:
  assumes ok: "ranges_ok d ovs" and i: "i < length d" "\<not> jk_overwritten (d ! i)" and n: "i + 1 < length d" "jk_overwritten (d ! (i + 1))"
      "jk_btree_id (d ! (i + 1)) = jk_btree_id (d ! i)" "jk_level (d ! (i + 1)) = jk_level (d ! i)" "r = jk_overwritten_range (d ! (i + 1))"
  shows "ranges_ok (set_range r i (i + 1) (mark d i)) (ovs[r := (min (fst (ovs ! r)) i, snd (ovs ! r))])"
proof (rule merge_ranges [OF ok i(2), where s = i and e = "snd (ovs ! r)" and r = r])
  have seg: "in_segment 0 d ovs (i + 1)" and fst: "fst (ovs ! r) = i + 1"
    using next_range_starts [OF ok i(2) n(2,1,5)] by auto
  note S = in_segmentD [OF seg n(5)]
  show "0 < r" "r < length (ovs[r := (min (fst (ovs ! r)) i, snd (ovs ! r))])" using S by simp_all
  show "ovs[r := (min (fst (ovs ! r)) i, snd (ovs ! r))] ! r = (i, snd (ovs ! r))" using S(2) fst by simp
  show "snd (ovs ! r) \<le> length d" by (rule S(5))
  fix y assume y: "i \<le> y" "y < snd (ovs ! r)"
  then have u: "jk_overwritten (d ! y) \<and> jk_overwritten_range (d ! y) = r \<and> jk_btree_id (d ! y) = jk_btree_id (d ! (i + 1)) \<and> jk_level (d ! y) = jk_level (d ! (i + 1))"
    if "y \<noteq> i" using S(6) [of y] that fst by simp
  then show "jk_overwritten (d ! y) \<and> jk_btree_id (d ! y) = jk_btree_id (d ! i) \<and> jk_level (d ! y) = jk_level (d ! i) \<and>
      i \<le> fst (ovs ! jk_overwritten_range (d ! y)) \<and> snd (ovs ! jk_overwritten_range (d ! y)) \<le> snd (ovs ! r)" if "y \<noteq> i"
    using that fst n by simp
  show "jk_overwritten (set_range r i (i + 1) (mark d i) ! y) \<and> jk_overwritten_range (set_range r i (i + 1) (mark d i) ! y) = r \<and>
      jk_btree_id (set_range r i (i + 1) (mark d i) ! y) = jk_btree_id (d ! y) \<and> jk_level (set_range r i (i + 1) (mark d i) ! y) = jk_level (d ! y)"
    using u y i(1) S(5) by (cases "y = i") (simp_all add: nth_set_range)
next
  have fst: "fst (ovs ! r) = i + 1" and S: "in_segment 0 d ovs (i + 1)" using next_range_starts [OF ok i(2) n(2,1,5)] by auto
  fix y assume y: "y < length d" "\<not> (i \<le> y \<and> y < snd (ovs ! r))"
  then have "y \<noteq> i" using in_segmentD(4) [OF S n(5)] by auto
  then show "set_range r i (i + 1) (mark d i) ! y = d ! y" using y(1) by (auto simp: nth_set_range)
next
  fix x assume x: "x < length d" "jk_overwritten (d ! x)" "jk_overwritten_range (d ! x) = r"
  then have "in_segment 0 d ovs x" using ok by (simp add: segment_ok_def)
  then show "i \<le> x \<and> x < snd (ovs ! r)" using in_segmentD(3,4) [OF _ x(3) [symmetric]] next_range_starts [OF ok i(2) n(2,1,5)] by force
qed (use i in \<open>auto simp: nth_set_range\<close>)

lemma overwritten_between:
  assumes ok: "ranges_ok d ovs" and i: "i < length d" "\<not> jk_overwritten (d ! i)" and p: "0 < i" "jk_overwritten (d ! (i - 1))"
      "jk_btree_id (d ! (i - 1)) = jk_btree_id (d ! i)" "jk_level (d ! (i - 1)) = jk_level (d ! i)" "r = jk_overwritten_range (d ! (i - 1))"
    and n: "i + 1 < length d" "jk_overwritten (d ! (i + 1))" "jk_btree_id (d ! (i + 1)) = jk_btree_id (d ! i)" "jk_level (d ! (i + 1)) = jk_level (d ! i)"
      "q = jk_overwritten_range (d ! (i + 1))"
  shows "ranges_ok (set_range r (fst (ovs ! q)) (snd (ovs ! q)) (set_range r i (i + 1) (mark d i))) (ovs[r := (fst (ovs ! r), snd (ovs ! q))]) \<and> r \<noteq> q"
proof -
  have segp: "in_segment 0 d ovs (i - 1)" and snd: "snd (ovs ! r) = i" using prev_range_ends [OF ok i(2) p(2,1) i(1) p(5)] by auto
  have segn: "in_segment 0 d ovs (i + 1)" and fst: "fst (ovs ! q) = i + 1" using next_range_starts [OF ok i(2) n(2,1,5)] by auto
  note P = in_segmentD [OF segp p(5)] and N = in_segmentD [OF segn n(5)]
  have u: "jk_overwritten (d ! y) \<and> jk_btree_id (d ! y) = jk_btree_id (d ! i) \<and> jk_level (d ! y) = jk_level (d ! i) \<and>
      (y < i \<and> jk_overwritten_range (d ! y) = r \<or> i < y \<and> jk_overwritten_range (d ! y) = q)"
    if "fst (ovs ! r) \<le> y" "y < snd (ovs ! q)" "y \<noteq> i" for y
    using P(6) [of y] N(6) [of y] that snd fst p n by (cases "y < i") auto
  have "ranges_ok (set_range r (fst (ovs ! q)) (snd (ovs ! q)) (set_range r i (i + 1) (mark d i))) (ovs[r := (fst (ovs ! r), snd (ovs ! q))])"
  proof (rule merge_ranges [OF ok i(2), where s = "fst (ovs ! r)" and e = "snd (ovs ! q)" and r = r])
    fix x assume x: "x < length d" "jk_overwritten (d ! x)" "jk_overwritten_range (d ! x) = r"
    then have "in_segment 0 d ovs x" using ok by (simp add: segment_ok_def)
    then show "fst (ovs ! r) \<le> x \<and> x < snd (ovs ! q)" using in_segmentD(3,4) [OF _ x(3) [symmetric]] snd N(4) by force
  next
    fix y assume y: "fst (ovs ! r) \<le> y" "y < snd (ovs ! q)"
    show "jk_overwritten (d ! y) \<and> jk_btree_id (d ! y) = jk_btree_id (d ! i) \<and> jk_level (d ! y) = jk_level (d ! i) \<and>
        fst (ovs ! r) \<le> fst (ovs ! jk_overwritten_range (d ! y)) \<and> snd (ovs ! jk_overwritten_range (d ! y)) \<le> snd (ovs ! q)" if "y \<noteq> i"
      using u [OF y that] snd fst P(3) N(4) by auto
    have yl: "y < length d" using y N(5) by linarith
    show "jk_overwritten (set_range r (fst (ovs ! q)) (snd (ovs ! q)) (set_range r i (i + 1) (mark d i)) ! y) \<and>
        jk_overwritten_range (set_range r (fst (ovs ! q)) (snd (ovs ! q)) (set_range r i (i + 1) (mark d i)) ! y) = r \<and>
        jk_btree_id (set_range r (fst (ovs ! q)) (snd (ovs ! q)) (set_range r i (i + 1) (mark d i)) ! y) = jk_btree_id (d ! y) \<and>
        jk_level (set_range r (fst (ovs ! q)) (snd (ovs ! q)) (set_range r i (i + 1) (mark d i)) ! y) = jk_level (d ! y)"
      using u [OF y] yl y fst by (cases "y = i") (auto simp: nth_set_range)
  next
    fix y assume y: "y < length d" "\<not> (fst (ovs ! r) \<le> y \<and> y < snd (ovs ! q))"
    then have "y < i \<or> snd (ovs ! q) \<le> y" using P(3) by linarith
    then show "set_range r (fst (ovs ! q)) (snd (ovs ! q)) (set_range r i (i + 1) (mark d i)) ! y = d ! y"
      using y(1) fst N(4) by (auto simp: nth_set_range)
  qed (use P N in auto)
  moreover have "r \<noteq> q" using P(3) fst p(1) by auto
  ultimately show ?thesis by blast
qed

lemma neighbour_cases:
  assumes ok: "ranges_ok (jks_data keys) (jks_overwrites keys)" and n: "overwritten_neighbour keys' i j = x" and j: "j \<noteq> i"
    and keys': "keys' = keys\<lparr>jks_data := mark (jks_data keys) i\<rparr>" and i: "i < length (jks_data keys)"
  obtains "x = None" "neighbour_range keys' x = None"
    | "x = Some j" "j < length (jks_data keys)" "jk_overwritten (jks_data keys ! j)" "jk_btree_id (jks_data keys ! j) = jk_btree_id (jks_data keys ! i)"
      "jk_level (jks_data keys ! j) = jk_level (jks_data keys ! i)" "neighbour_range keys' x = Some (jk_overwritten_range (jks_data keys ! j))"
proof (cases "x = None")
  case True then show thesis using that(1) by (simp add: neighbour_range_def)
next
  case False
  then have x: "x = Some j" "j < length (jks_data keys)" "jk_overwritten (jks_data keys ! j)" "jk_btree_id (jks_data keys ! j) = jk_btree_id (jks_data keys ! i)"
      "jk_level (jks_data keys ! j) = jk_level (jks_data keys ! i)"
    using n j i by (auto simp: overwritten_neighbour_def keys' Let_def split: if_splits)
  have "in_segment 0 (jks_data keys) (jks_overwrites keys) j" using ok x by (simp add: segment_ok_def)
  from in_segmentD(1,2) [OF this refl] have "neighbour_range keys' x = Some (jk_overwritten_range (jks_data keys ! j))"
    using x j by (simp add: neighbour_range_def keys' Let_def)
  then show thesis using x that(2) by blast
qed

lemma overwritten_ok:
  assumes ok: "ranges_ok (jks_data keys) (jks_overwrites keys)" and i: "i < length (jks_data keys)" "\<not> jk_overwritten (jks_data keys ! i)"
  shows "\<exists>d ovs. raw_bch2_journal_key_overwritten keys i = Some (keys\<lparr>jks_data := d, jks_overwrites := ovs\<rparr>) \<and> ranges_ok d ovs \<and>
    map strip_range d = map strip_range (mark (jks_data keys) i)"
proof -
  let ?d = "jks_data keys" and ?ovs = "jks_overwrites keys"
  define keys' where "keys' = keys\<lparr>jks_data := mark ?d i\<rparr>"
  define prev where "prev = (if i > 0 then overwritten_neighbour keys' i (i - 1) else None)"
  define nxt where "nxt = overwritten_neighbour keys' i (i + 1)"
  note eq = raw_bch2_journal_key_overwritten_def [of keys i, unfolded Let_def nth_opt_in_range [OF i(1)] Option.bind.bind_lunit,
      folded keys'_def prev_def nxt_def]
  have data: "jks_data keys' = mark ?d i" "jks_overwrites keys' = ?ovs" by (simp_all add: keys'_def)
  have fin: ?thesis if "raw_bch2_journal_key_overwritten keys i = Some (keys'\<lparr>jks_overwrites := ovs, jks_data := d\<rparr>)" "ranges_ok d ovs"
      "map strip_range d = map strip_range (mark ?d i)" for d ovs
    using that by (intro exI [of _ d] exI [of _ ovs]) (simp add: keys'_def)
  consider (none) "prev = None" "neighbour_range keys' prev = None"
    | (some) "prev = Some (i - 1)" "0 < i" "jk_overwritten (?d ! (i - 1))" "jk_btree_id (?d ! (i - 1)) = jk_btree_id (?d ! i)"
        "jk_level (?d ! (i - 1)) = jk_level (?d ! i)" "neighbour_range keys' prev = Some (jk_overwritten_range (?d ! (i - 1)))"
  proof (cases "i = 0")
    case True then show thesis using none by (simp add: prev_def neighbour_range_def)
  next
    case False
    show thesis by (rule neighbour_cases [OF ok _ _ keys'_def i(1), of "i - 1" prev]) (use False none some in \<open>auto simp: prev_def\<close>)
  qed
  then show ?thesis
  proof cases
    case p: none
    show ?thesis
    proof (rule neighbour_cases [OF ok nxt_def [symmetric] _ keys'_def i(1)])
      assume n: "nxt = None" "neighbour_range keys' nxt = None"
      show ?thesis
        by (rule fin [OF _ overwritten_alone [OF ok i refl]])
          (use p(1) n(1) data in \<open>simp_all add: eq p(2) [unfolded p(1)] n(2) [unfolded n(1)]\<close>)
    next
      assume n: "nxt = Some (i + 1)" "i + 1 < length ?d" "jk_overwritten (?d ! (i + 1))" "jk_btree_id (?d ! (i + 1)) = jk_btree_id (?d ! i)"
        "jk_level (?d ! (i + 1)) = jk_level (?d ! i)" "neighbour_range keys' nxt = Some (jk_overwritten_range (?d ! (i + 1)))"
      show ?thesis
        by (rule fin [OF _ overwritten_before [OF ok i n(2-5) refl]])
          (use p(1) n(1) data in \<open>simp_all add: eq p(2) [unfolded p(1)] n(6) [unfolded n(1), simplified]\<close>)
    qed simp
  next
    case p: some
    show ?thesis
    proof (rule neighbour_cases [OF ok nxt_def [symmetric] _ keys'_def i(1)])
      assume n: "nxt = None" "neighbour_range keys' nxt = None"
      show ?thesis
        by (rule fin [OF _ overwritten_after [OF ok i p(2-5) refl]])
          (use p(1) n(1) data in \<open>simp_all add: eq p(6) [unfolded p(1) One_nat_def] n(2) [unfolded n(1)]\<close>)
    next
      assume n: "nxt = Some (i + 1)" "i + 1 < length ?d" "jk_overwritten (?d ! (i + 1))" "jk_btree_id (?d ! (i + 1)) = jk_btree_id (?d ! i)"
        "jk_level (?d ! (i + 1)) = jk_level (?d ! i)" "neighbour_range keys' nxt = Some (jk_overwritten_range (?d ! (i + 1)))"
      show ?thesis
        by (rule fin [OF _ conjunct1 [OF overwritten_between [OF ok i p(2-5) refl n(2-5) refl]]])
          (use p(1) n(1) data overwritten_between [OF ok i p(2-5) refl n(2-5) refl] in \<open>simp_all add: eq p(6) [unfolded p(1) One_nat_def] n(6) [unfolded n(1), simplified]\<close>)
    qed simp
  qed
qed

lemma overwrite_overlay:
  assumes ok: "overlay_ok keys"
  shows "\<exists>keys'. bch2_journal_key_check_or_overwrite keys b l p False = Some (0, keys') \<and> overlay_ok keys' \<and>
    overlay keys' = (overlay keys)((b, l, p) := None)"
proof (cases "find_index (jk_at b l p) (jks_data keys)")
  case None
  then have "overlay keys (b, l, p) = None" by (auto simp: overlay_eq_None find_index_None jk_at_order)
  then show ?thesis using ok None by (auto simp: bch2_journal_key_check_or_overwrite_def fun_upd_idem)
next
  case (Some i)
  let ?d = "jks_data keys"
  have d: "distinct (map journal_key_order ?d)" and r: "ranges_ok ?d (jks_overwrites keys)" using ok jk_sorted_distinct by (auto simp: overlay_ok_def)
  have i: "i < length ?d" "journal_key_order (?d ! i) = (b, l, p)" using find_index_Some [OF Some] by (simp_all add: jk_at_order)
  show ?thesis
  proof (cases "jk_overwritten (?d ! i)")
    case True
    have "overlay keys (b, l, p) = None"
      using True i d by (auto simp: overlay_eq_None) (metis distinct_map inj_onD nth_mem)
    then show ?thesis using ok Some True by (auto simp: bch2_journal_key_check_or_overwrite_def fun_upd_idem)
  next
    case False
    from overwritten_ok [OF r i(1) False] obtain e ovs where e:
      "raw_bch2_journal_key_overwritten keys i = Some (keys\<lparr>jks_data := e, jks_overwrites := ovs\<rparr>)" "ranges_ok e ovs"
      "map strip_range e = map strip_range (mark ?d i)" by blast
    let ?k = "(?d ! i)\<lparr>jk_overwritten := True\<rparr>" and ?keys' = "keys\<lparr>jks_data := e, jks_overwrites := ovs\<rparr>"
    have k: "journal_key_order ?k = journal_key_order (?d ! i)" by (simp add: journal_key_order_def jk_p_def)
    have m: "map journal_key_order (mark ?d i) = map journal_key_order ?d" using k i by (metis list_update_id map_update)
    have o: "map journal_key_order e = map journal_key_order ?d" using map_strip_range [OF e(3), of journal_key_order] m by simp
    have "jk_sorted e" using ok o unfolding overlay_ok_def jk_sorted_def by (metis sorted_wrt_map)
    moreover have "length e = length ?d" using arg_cong [OF o, of length] by simp
    ultimately have "overlay_ok ?keys'" using ok e(2) by (simp add: overlay_ok_def)
    moreover have "overlay ?keys' = overlay (keys\<lparr>jks_data := mark ?d i, jks_overwrites := ovs\<rparr>)"
    proof (rule overlay_cong)
      have "map (\<lambda>k. (jk_overwritten k, journal_key_order k, jk_k k)) e = map (\<lambda>k. (jk_overwritten k, journal_key_order k, jk_k k)) (mark ?d i)"
        by (rule map_strip_range [OF e(3)]) simp
      from arg_cong [OF this, of set]
      show "(\<lambda>k. (jk_overwritten k, journal_key_order k, jk_k k)) ` set (jks_data ?keys') =
          (\<lambda>k. (jk_overwritten k, journal_key_order k, jk_k k)) ` set (jks_data (keys\<lparr>jks_data := mark ?d i, jks_overwrites := ovs\<rparr>))" by simp
    qed (use d o m in simp_all)
    then have "overlay ?keys' = (overlay keys)((b, l, p) := None)"
      using overlay_update [OF d i(1) k, of ovs] k i(2) by simp
    ultimately show ?thesis using e(1) Some False by (simp add: bch2_journal_key_check_or_overwrite_def)
  qed
qed

section \<open>Histories\<close>

text \<open>The calls that change the overlay; \<open>Insert_key\<close> carries whether memory is available.\<close>

datatype overlay_op =
    Insert_key bool u8 u8 bkey_i
  | Overwrite_key u8 u8 bpos
  | Check_key u8 u8 bpos
  | Clear_keys

definition empty_keys :: journal_keys where
  "empty_keys = \<lparr>jks_nr = 0, jks_size = 0, jks_data = [], jks_overwrites = []\<rparr>"

fun run_op :: "overlay_op \<Rightarrow> journal_keys \<Rightarrow> (int \<times> journal_keys) option" where
  "run_op (Insert_key ok b l key) keys = Some (bch2_journal_key_insert ok keys b l key)"
| "run_op (Overwrite_key b l p) keys = bch2_journal_key_check_or_overwrite keys b l p False"
| "run_op (Check_key b l p) keys = bch2_journal_key_check_or_overwrite keys b l p True"
| "run_op Clear_keys keys = Some (0, bch2_journal_keys_clear keys)"

text \<open>What the calls mean for the visible keys.\<close>

fun overlay_spec :: "overlay_op \<Rightarrow> (u8 \<times> u8 \<times> bpos \<rightharpoonup> bkey_i) \<Rightarrow> int \<times> (u8 \<times> u8 \<times> bpos \<rightharpoonup> bkey_i)" where
  "overlay_spec (Insert_key ok b l key) m =
     (if unat (k_u64s (fst key)) < BKEY_U64S then (- 22, m) else if \<not> ok then (- 12, m) else (0, m((b, l, k_p (fst key)) \<mapsto> key)))"
| "overlay_spec (Overwrite_key b l p) m = (0, m((b, l, p) := None))"
| "overlay_spec (Check_key b l p) m = (0, m)"
| "overlay_spec Clear_keys m = (0, Map.empty)"

fun overlay_ops :: "overlay_op list \<Rightarrow> journal_keys \<Rightarrow> (int list \<times> journal_keys) option" where
  "overlay_ops [] keys = Some ([], keys)"
| "overlay_ops (x # xs) keys =
     do { (ret, keys) \<leftarrow> run_op x keys; (rets, keys) \<leftarrow> overlay_ops xs keys; Some (ret # rets, keys) }"

fun overlay_specs :: "overlay_op list \<Rightarrow> (u8 \<times> u8 \<times> bpos \<rightharpoonup> bkey_i) \<Rightarrow> int list \<times> (u8 \<times> u8 \<times> bpos \<rightharpoonup> bkey_i)" where
  "overlay_specs [] m = ([], m)"
| "overlay_specs (x # xs) m = (let (ret, m) = overlay_spec x m; (rets, m) = overlay_specs xs m in (ret # rets, m))"

text \<open>The overlay as an interface: calls on the concrete state simulate calls on the visible keys.\<close>

locale simulation =
  fixes step :: "'o \<Rightarrow> 's \<Rightarrow> ('r \<times> 's) option" and spec :: "'o \<Rightarrow> 'a \<Rightarrow> 'r \<times> 'a"
    and steps :: "'o list \<Rightarrow> 's \<Rightarrow> ('r list \<times> 's) option" and specs :: "'o list \<Rightarrow> 'a \<Rightarrow> 'r list \<times> 'a"
    and inv :: "'s \<Rightarrow> bool" and abs :: "'s \<Rightarrow> 'a"
  assumes step_spec: "inv s \<Longrightarrow> \<exists>ret s'. step x s = Some (ret, s') \<and> inv s' \<and> spec x (abs s) = (ret, abs s')"
    and steps_Nil: "steps [] s = Some ([], s)"
    and steps_Cons: "step x s = Some (ret, s') \<Longrightarrow> steps xs s' = Some (rets, s'') \<Longrightarrow> steps (x # xs) s = Some (ret # rets, s'')"
    and specs_Nil: "specs [] a = ([], a)"
    and specs_Cons: "spec x a = (ret, a') \<Longrightarrow> specs xs a' = (rets, a'') \<Longrightarrow> specs (x # xs) a = (ret # rets, a'')"
begin

lemma steps_specs: "inv s \<Longrightarrow> \<exists>rets s'. steps xs s = Some (rets, s') \<and> inv s' \<and> specs xs (abs s) = (rets, abs s')"
proof (induction xs arbitrary: s)
  case Nil then show ?case by (simp add: steps_Nil specs_Nil)
next
  case (Cons x xs)
  from step_spec [OF Cons.prems, of x] obtain ret s1 where 1: "step x s = Some (ret, s1)" "inv s1" "spec x (abs s) = (ret, abs s1)" by blast
  from Cons.IH [OF 1(2)] obtain rets s2 where 2: "steps xs s1 = Some (rets, s2)" "inv s2" "specs xs (abs s1) = (rets, abs s2)" by blast
  from steps_Cons [OF 1(1) 2(1)] specs_Cons [OF 1(3) 2(3)] 2(2) show ?case by blast
qed

end

interpretation jk: simulation run_op overlay_spec overlay_ops overlay_specs overlay_ok overlay
proof
  fix s :: journal_keys and x assume ok: "overlay_ok s"
  show "\<exists>ret s'. run_op x s = Some (ret, s') \<and> overlay_ok s' \<and> overlay_spec x (overlay s) = (ret, overlay s')"
  proof (cases x)
    case (Insert_key a b l key)
    show ?thesis
    proof (cases "unat (k_u64s (fst key)) < BKEY_U64S \<or> \<not> a")
      case True then show ?thesis using ok Insert_key by (auto simp: bch2_journal_key_insert_def)
    next
      case False then show ?thesis using insert_overlay [OF ok, of key b l] Insert_key by auto
    qed
  next
    case (Overwrite_key b l p) then show ?thesis using overwrite_overlay [OF ok, of b l p] by auto
  next
    case (Check_key b l p) then show ?thesis using ok by (auto simp: bch2_journal_key_check_or_overwrite_def split: option.splits)
  next
    case Clear_keys
    then show ?thesis by (auto simp: bch2_journal_keys_clear_def overlay_ok_def jk_sorted_def segment_ok_def overlay_def)
  qed
qed auto

section \<open>Properties\<close>

text \<open>
  C16: The sorted vector with its overwritten ranges is a map of visible keys. Every history of insertions, overwrites, checks
  and clears of the empty overlay runs without a panic, returns the codes of the specification (-22 for a key shorter than
  its header, -12 without memory) and leaves exactly the keys visible that were inserted and neither overwritten nor
  cleared since; the vector stays sorted and its ranges stay exact.
\<close>

theorem journal_overlay_refines_map:
  "\<exists>rets keys. overlay_ops ops empty_keys = Some (rets, keys) \<and> overlay_ok keys \<and> overlay_specs ops Map.empty = (rets, overlay keys)"
proof -
  have "overlay_ok empty_keys" "overlay empty_keys = Map.empty"
    by (simp_all add: empty_keys_def overlay_ok_def jk_sorted_def segment_ok_def overlay_def)
  then show ?thesis using jk.steps_specs [of empty_keys ops] by simp
qed

text \<open>
  On an overlay in good order the iterators return, and return the right key, although they jump over whole ranges of
  overwritten keys: \<^verbatim>\<open>peek_slot\<close> the visible key at the position, \<^verbatim>\<open>peek_max\<close> the visible key with the least position from
  \<open>pos\<close> up to \<open>e\<close>, \<^verbatim>\<open>peek_prev_min\<close> the one with the greatest from \<open>pos\<close> down to \<open>e\<close>, each from any index hint that skips only keys
  on the far side of \<open>pos\<close>.
\<close>

lemma journal_overlay_peek:
  assumes "overlay_ok keys" "i \<le> length (jks_data keys)" "\<forall>x<i. journal_key_order (jks_data keys ! x) < (b, l, pos)"
    and "j \<le> length (jks_data keys)" "0 < j \<longrightarrow> (\<forall>x. j < x \<and> x < length (jks_data keys) \<longrightarrow> (b, l, pos) < journal_key_order (jks_data keys ! x))"
  shows "bch2_journal_keys_peek_slot keys b l pos = Some (overlay keys (b, l, pos)) \<and>
    (\<exists>r i'. bch2_journal_keys_peek_max keys b l pos e i = Some (r, i') \<and> least_visible (overlay keys) b l pos e r) \<and>
    (\<exists>r j'. bch2_journal_keys_peek_prev_min keys b l pos e j = Some (r, j') \<and> greatest_visible (overlay keys) b l e pos r)"
  using assms by (intro conjI peek_slot_overlay peek_max_least peek_prev_greatest) auto

definition sample_jk :: "u64 \<Rightarrow> bool \<Rightarrow> nat \<Rightarrow> journal_key" where
  "sample_jk off ow r = \<lparr>jk_btree_id = 0, jk_level = 0, jk_overwritten = ow, jk_overwritten_range = r,
     jk_k = (bkey_init\<lparr>k_p := SPOS 0 off 0\<rparr>, [])\<rparr>"

definition sample_jks :: journal_keys where
  "sample_jks = \<lparr>jks_nr = 3, jks_size = 3, jks_data = [sample_jk 1 False 0, sample_jk 2 True 1, sample_jk 3 False 0],
     jks_overwrites = [(0, 0), (1, 2)]\<rparr>"

lemma sample_jks_ok: "overlay_ok sample_jks"
proof -
  have "uniform_run 0 (jks_data sample_jks) 1 1 2 0 0"
    by (auto simp: uniform_run_def sample_jks_def sample_jk_def less_Suc_eq numeral_2_eq_2)
  then have "in_segment 0 (jks_data sample_jks) (jks_overwrites sample_jks) 1"
    by (simp add: in_segment_def Let_def sample_jks_def sample_jk_def)
  then show ?thesis
    by (auto simp: overlay_ok_def jk_sorted_def segment_ok_def sample_jks_def sample_jk_def less_Suc_eq numeral_3_eq_3
        journal_key_order_def jk_p_def less_bpos_def)
qed

end
