(* ===== verification/Bset_Sort.thy ===== *)
theory Bset_Sort
  imports Node_Iter Bset_Update
begin

text \<open>
  Merging the sets of a node into one run of keys, the first half of \<^verbatim>\<open>btree/bset_build.rs\<close>: an iterator over sorted runs,
  kept sorted by the next key of each, and the three passes that drain it: when a node is read, when it is written with
  the whiteouts that are not on disk yet, and when its sets are compacted.

  The keys are word offsets into the data of the node, as in \<open>Btree_Node\<close>; a pass writes to a buffer of its own, here the
  list of the words written. The first \<^verbatim>\<open>used\<close> sets of the iterator are a list.
\<close>

section \<open>The iterator\<close>

record sort_iter_set =
  sis_k :: nat
  sis_end :: nat

record sort_iter =
  si_size :: nat
  si_data :: "sort_iter_set list"

type_synonym sort_cmp_fn = "nat \<Rightarrow> nat \<Rightarrow> int option"

definition sort_iter_init :: "nat \<Rightarrow> sort_iter" where
  "sort_iter_init sz = \<lparr>si_size = sz, si_data = []\<rparr>"

definition sort_iter_stack_init :: sort_iter where
  "sort_iter_stack_init = sort_iter_init (MAX_BSETS + 1)"

definition sort_iter_add :: "sort_iter \<Rightarrow> nat \<Rightarrow> nat \<Rightarrow> sort_iter option" where
  "sort_iter_add it k e =
     do { require (length (si_data it) < si_size it);
          Some (if k \<noteq> e then it\<lparr>si_data := si_data it @ [\<lparr>sis_k = k, sis_end = e\<rparr>]\<rparr> else it) }"

fun sift_front :: "sort_cmp_fn \<Rightarrow> sort_iter_set list \<Rightarrow> sort_iter_set list option" where
  "sift_front cmp (x # y # zs) =
     do { c \<leftarrow> cmp (sis_k x) (sis_k y);
          if c > 0 then do { r \<leftarrow> sift_front cmp (x # zs); Some (y # r) } else Some (x # y # zs) }"
| "sift_front cmp zs = Some zs"

definition sort_iter_sift :: "sort_iter \<Rightarrow> nat \<Rightarrow> sort_cmp_fn \<Rightarrow> sort_iter option" where
  "sort_iter_sift it from cmp =
     do { r \<leftarrow> sift_front cmp (drop from (si_data it)); Some (it\<lparr>si_data := take from (si_data it) @ r\<rparr>) }"

fun sort_loop :: "sort_iter \<Rightarrow> sort_cmp_fn \<Rightarrow> nat \<Rightarrow> sort_iter option" where
  "sort_loop it cmp 0 = Some it"
| "sort_loop it cmp (Suc i) = do { it \<leftarrow> sort_iter_sift it i cmp; sort_loop it cmp i }"

definition sort_iter_sort :: "sort_iter \<Rightarrow> sort_cmp_fn \<Rightarrow> sort_iter option" where
  "sort_iter_sort it cmp = sort_loop it cmp (length (si_data it))"

definition sort_iter_peek :: "sort_iter \<Rightarrow> nat option" where
  "sort_iter_peek it = (if si_data it \<noteq> [] then Some (sis_k (hd (si_data it))) else None)"

definition sort_iter_advance :: "btree \<Rightarrow> sort_iter \<Rightarrow> sort_cmp_fn \<Rightarrow> sort_iter option" where
  "sort_iter_advance b it cmp =
     do { require (si_data it \<noteq> []);
          let s = hd (si_data it);
          k \<leftarrow> bkey_p_next b (sis_k s);
          require (k \<le> sis_end s);
          if k = sis_end s then Some (it\<lparr>si_data := tl (si_data it)\<rparr>)
          else sort_iter_sift (it\<lparr>si_data := s\<lparr>sis_k := k\<rparr> # tl (si_data it)\<rparr>) 0 cmp }"

definition sort_iter_next :: "btree \<Rightarrow> sort_cmp_fn \<Rightarrow> sort_iter \<Rightarrow> (nat option \<times> sort_iter) option" where
  "sort_iter_next b cmp it =
     (case sort_iter_peek it of
        None \<Rightarrow> Some (None, it)
      | Some k \<Rightarrow> do { it \<leftarrow> sort_iter_advance b it cmp; Some (Some k, it) })"

section \<open>The passes\<close>

definition key_sort_fix_overlapping_cmp :: "btree \<Rightarrow> sort_cmp_fn" where
  "key_sort_fix_overlapping_cmp b l r =
     do { ret \<leftarrow> bkey_cmp_packed_at b l r; Some (if ret \<noteq> 0 then ret else addr_cmp l r) }"

definition should_drop_next_key :: "btree \<Rightarrow> sort_iter \<Rightarrow> bool option" where
  "should_drop_next_key b it =
     (if length (si_data it) \<ge> 2
      then do { c \<leftarrow> bkey_cmp_packed_at b (sis_k (si_data it ! 0)) (sis_k (si_data it ! 1)); Some (c = 0) }
      else Some False)"

text \<open>The words of a key, as a copy reads them.\<close>

definition key_copy :: "btree \<Rightarrow> nat \<Rightarrow> u64 list option" where
  "key_copy b k =
     do { ws \<leftarrow> key_at b k; require (unat (pk_u64s ws) \<le> length ws); Some (take (unat (pk_u64s ws)) ws) }"

definition nr_keys_default :: btree_nr_keys where
  "nr_keys_default = \<lparr>nr_live_u64s = 0, nr_bset_u64s = replicate MAX_BSETS 0, nr_packed_keys = 0, nr_unpacked_keys = 0\<rparr>"

partial_function (option) fix_overlapping_loop ::
    "btree \<Rightarrow> u64 list \<Rightarrow> btree_nr_keys \<Rightarrow> sort_iter \<Rightarrow> (u64 list \<times> btree_nr_keys) option" where
  "fix_overlapping_loop b out nr it =
     (case sort_iter_peek it of
        None \<Rightarrow> Some (out, nr)
      | Some k \<Rightarrow>
          Option.bind (key_at b k) (\<lambda>ws.
            Option.bind (if bkey_deleted ws then Some False else map_option Not (should_drop_next_key b it)) (\<lambda>keep.
              Option.bind
                (if keep then Option.bind (key_copy b k) (\<lambda>w. map_option (Pair (out @ w)) (btree_keys_account_key nr 0 w 1))
                 else Some (out, nr)) (\<lambda>(out, nr).
                Option.bind (sort_iter_advance b it (key_sort_fix_overlapping_cmp b)) (fix_overlapping_loop b out nr)))))"

declare fix_overlapping_loop.simps [code]

text \<open>The words written after the header, the \<^verbatim>\<open>u64s\<close> of the header, and the accounting of the keys.\<close>

definition bch2_key_sort_fix_overlapping :: "btree \<Rightarrow> sort_iter \<Rightarrow> (u64 list \<times> u16 \<times> btree_nr_keys) option" where
  "bch2_key_sort_fix_overlapping b it =
     do { it \<leftarrow> sort_iter_sort it (key_sort_fix_overlapping_cmp b);
          (out, nr) \<leftarrow> fix_overlapping_loop b [] nr_keys_default it;
          Some (out, of_nat (length out), nr) }"

definition keep_unwritten_whiteouts_cmp :: "btree \<Rightarrow> sort_cmp_fn" where
  "keep_unwritten_whiteouts_cmp b l r =
     do { ret \<leftarrow> bkey_cmp_packed_at b l r;
          if ret \<noteq> 0 then Some ret
          else do { lw \<leftarrow> key_at b l; rw \<leftarrow> key_at b r;
                    let deleted = bool_int (bkey_deleted rw) - bool_int (bkey_deleted lw);
                    Some (if deleted \<noteq> 0 then deleted else addr_cmp l r) } }"

definition btree_buf_bytes :: "btree \<Rightarrow> nat" where
  "btree_buf_bytes b = 2 ^ b_byte_order b"

definition unwritten_whiteouts_start :: "btree \<Rightarrow> nat option" where
  "unwritten_whiteouts_start b = sub_nat (btree_buf_bytes b div 8) (b_whiteout_u64s b)"

partial_function (option) keep_whiteouts_loop :: "btree \<Rightarrow> u64 list \<Rightarrow> sort_iter \<Rightarrow> u64 list option" where
  "keep_whiteouts_loop b out it =
     Option.bind (sort_iter_next b (keep_unwritten_whiteouts_cmp b) it) (\<lambda>(k, it).
       case k of None \<Rightarrow> Some out
       | Some k \<Rightarrow>
           Option.bind (key_at b k) (\<lambda>ws.
             Option.bind (unwritten_whiteouts_start b) (\<lambda>start.
               if bkey_deleted ws \<and> k < start then keep_whiteouts_loop b out it
               else Option.bind
                 (case sort_iter_peek it of None \<Rightarrow> Some False
                  | Some n \<Rightarrow> map_option (\<lambda>c. c = 0) (bkey_cmp_packed_at b k n)) (\<lambda>same.
                 if same then keep_whiteouts_loop b out it
                 else Option.bind (key_copy b k) (\<lambda>w. keep_whiteouts_loop b (out @ w) it)))))"

declare keep_whiteouts_loop.simps [code]

definition bch2_sort_keys_keep_unwritten_whiteouts :: "btree \<Rightarrow> sort_iter \<Rightarrow> u64 list option" where
  "bch2_sort_keys_keep_unwritten_whiteouts b it =
     do { it \<leftarrow> sort_iter_sort it (keep_unwritten_whiteouts_cmp b); keep_whiteouts_loop b [] it }"

partial_function (option) sort_keys_loop :: "btree \<Rightarrow> u64 list \<Rightarrow> sort_iter \<Rightarrow> u64 list option" where
  "sort_keys_loop b out it =
     Option.bind (sort_iter_next b (bkey_cmp_packed_at b) it) (\<lambda>(k, it).
       case k of None \<Rightarrow> Some out
       | Some k \<Rightarrow>
           Option.bind (key_at b k) (\<lambda>ws.
             if bkey_deleted ws then sort_keys_loop b out it
             else Option.bind (key_copy b k) (\<lambda>w. sort_keys_loop b (out @ w) it)))"

declare sort_keys_loop.simps [code]

definition bch2_sort_keys :: "btree \<Rightarrow> sort_iter \<Rightarrow> u64 list option" where
  "bch2_sort_keys b it =
     do { it \<leftarrow> sort_iter_sort it (bkey_cmp_packed_at b); sort_keys_loop b [] it }"

section \<open>What the iterator promises\<close>

definition sort_run :: "btree \<Rightarrow> sort_iter_set \<Rightarrow> nat list" where
  "sort_run b s = the (set_keys b (sis_k s) (sis_end s))"

text \<open>
  An order of the keys of a node and a comparison that decides it. The iterator is the same for all three passes; the order
  is what they choose.
\<close>

locale key_order =
  fixes b :: btree and cmp :: sort_cmp_fn and key :: "nat \<Rightarrow> 'r::linorder"
  assumes cmp_key: "node_format_ok b \<Longrightarrow> key_valid b l \<Longrightarrow> key_valid b r \<Longrightarrow> \<exists>c. cmp l r = Some c \<and> (0 < c \<longleftrightarrow> key r < key l)"
begin

definition source_ok :: "sort_iter_set \<Rightarrow> bool" where
  "source_ok s \<longleftrightarrow> set_keys b (sis_k s) (sis_end s) = Some (sort_run b s) \<and> sort_run b s \<noteq> [] \<and> (\<forall>k\<in>set (sort_run b s). key_valid b k) \<and>
     sorted (map key (sort_run b s))"

definition iter_has :: "sort_iter \<Rightarrow> nat multiset \<Rightarrow> bool" where
  "iter_has it M \<longleftrightarrow> node_format_ok b \<and> (\<forall>s\<in>set (si_data it). source_ok s) \<and>
     sorted (map (\<lambda>s. key (sis_k s)) (si_data it)) \<and> M = (\<Sum>s\<in>#mset (si_data it). mset (sort_run b s))"

lemma source_ok_head:
  assumes "source_ok s"
  obtains ks where "sort_run b s = sis_k s # ks" "key_valid b (sis_k s)" "\<forall>k\<in>set ks. key (sis_k s) \<le> key k"
proof (cases "sort_run b s")
  case Nil then show thesis using assms by (simp add: source_ok_def)
next
  case (Cons k ks)
  then have "k = sis_k s" using assms by (auto simp: source_ok_def set_keys_Cons)
  then show thesis using that [of ks] Cons assms by (simp add: source_ok_def)
qed

lemma sift_front_ok:
  assumes "node_format_ok b" "\<forall>s\<in>set (x # xs). key_valid b (sis_k s)" "sorted (map (\<lambda>s. key (sis_k s)) xs)"
  shows "\<exists>ys. sift_front cmp (x # xs) = Some ys \<and> mset ys = mset (x # xs) \<and> sorted (map (\<lambda>s. key (sis_k s)) ys)"
  using assms
proof (induction xs)
  case (Cons y zs)
  obtain c where c: "cmp (sis_k x) (sis_k y) = Some c" "0 < c \<longleftrightarrow> key (sis_k y) < key (sis_k x)"
    using cmp_key [of "sis_k x" "sis_k y"] Cons.prems by auto
  obtain ys where ys: "sift_front cmp (x # zs) = Some ys" "mset ys = mset (x # zs)" "sorted (map (\<lambda>s. key (sis_k s)) ys)"
    using Cons.IH Cons.prems by auto
  show ?case
  proof (cases "0 < c")
    case True
    have "set ys = set (x # zs)" using ys(2) by (metis set_mset_mset)
    then show ?thesis using True c ys Cons.prems(3) by (auto simp: add_mset_commute)
  next
    case False then show ?thesis using c Cons.prems(3) by auto
  qed
qed simp

lemma sort_loop_ok:
  assumes fmt: "node_format_ok b"
  shows "\<forall>s\<in>set (si_data it). key_valid b (sis_k s) \<Longrightarrow> i \<le> length (si_data it) \<Longrightarrow>
    sorted (map (\<lambda>s. key (sis_k s)) (drop i (si_data it))) \<Longrightarrow>
    \<exists>it'. sort_loop it cmp i = Some it' \<and> mset (si_data it') = mset (si_data it) \<and> sorted (map (\<lambda>s. key (sis_k s)) (si_data it'))"
proof (induction i arbitrary: it)
  case (Suc i)
  let ?d = "si_data it"
  have d: "drop i ?d = ?d ! i # drop (Suc i) ?d" using Suc.prems by (simp add: Cons_nth_drop_Suc)
  obtain ys where ys: "sift_front cmp (drop i ?d) = Some ys" "mset ys = mset (drop i ?d)" "sorted (map (\<lambda>s. key (sis_k s)) ys)"
    using sift_front_ok [OF fmt, of "?d ! i" "drop (Suc i) ?d"] Suc.prems set_drop_subset [of "Suc i" ?d] unfolding d by auto
  let ?it = "it\<lparr>si_data := take i ?d @ ys\<rparr>"
  have m: "mset (si_data ?it) = mset ?d" using ys(2) by (simp add: union_code [symmetric] del: mset_append) (metis append_take_drop_id mset_append)
  then have "set (si_data ?it) = set ?d" by (metis set_mset_mset)
  moreover have "length (si_data ?it) = length ?d" using m by (metis size_mset)
  ultimately have "\<exists>it'. sort_loop ?it cmp i = Some it' \<and> mset (si_data it') = mset (si_data ?it) \<and> sorted (map (\<lambda>s. key (sis_k s)) (si_data it'))"
    using Suc.prems ys(3) by (intro Suc.IH) (simp_all add: min_def)
  then show ?case using ys(1) m by (simp add: sort_iter_sift_def)
qed auto

lemma sorter_sort_ok:
  assumes "node_format_ok b" "\<forall>s\<in>set (si_data it). source_ok s"
  shows "\<exists>it'. sort_iter_sort it cmp = Some it' \<and> iter_has it' (\<Sum>s\<in>#mset (si_data it). mset (sort_run b s)) \<and>
    set (si_data it') = set (si_data it)"
proof -
  have "key_valid b (sis_k s)" if "s \<in> set (si_data it)" for s using assms(2) that source_ok_head by blast
  then obtain it' where "sort_iter_sort it cmp = Some it'" "mset (si_data it') = mset (si_data it)" "sorted (map (\<lambda>s. key (sis_k s)) (si_data it'))"
    using sort_loop_ok [OF assms(1), of it "length (si_data it)"] by (auto simp: sort_iter_sort_def)
  moreover from this have "set (si_data it') = set (si_data it)" by (metis set_mset_mset)
  ultimately show ?thesis using assms by (auto simp: iter_has_def)
qed

lemma source_step:
  assumes "source_ok s" "sort_run b s = sis_k s # ks"
  shows "\<exists>k'. bkey_p_next b (sis_k s) = Some k' \<and> k' \<le> sis_end s \<and> (k' = sis_end s \<longleftrightarrow> ks = []) \<and>
    (ks \<noteq> [] \<longrightarrow> source_ok (s\<lparr>sis_k := k'\<rparr>) \<and> sort_run b (s\<lparr>sis_k := k'\<rparr>) = ks)"
proof -
  obtain k' where k': "bkey_p_next b (sis_k s) = Some k'" "k' \<le> sis_end s" "set_keys b k' (sis_end s) = Some ks"
    using p_next_set_keys [of b "sis_k s" "sis_end s" "sis_k s" ks] assms by (auto simp: source_ok_def)
  have "sort_run b (s\<lparr>sis_k := k'\<rparr>) = ks" using k'(3) by (simp add: sort_run_def)
  moreover have "k' = sis_end s \<longleftrightarrow> ks = []" using k'(3) set_keys_Nil by (metis option.inject set_keys_refl)
  ultimately show ?thesis using k' assms by (auto simp: source_ok_def)
qed

text \<open>Advancing removes the first key, a least one.\<close>

lemma sorter_advance_ok:
  assumes h: "iter_has it M" and d: "si_data it = s # ss"
  shows "\<exists>it'. sort_iter_advance b it cmp = Some it' \<and> sis_k s \<in># M \<and> (\<forall>y\<in>#M. key (sis_k s) \<le> key y) \<and> iter_has it' (M - {#sis_k s#}) \<and>
    (\<forall>x\<in>set (si_data it'). \<exists>y\<in>set (si_data it). \<exists>us. sort_run b y = us @ sort_run b x)"
proof -
  have fmt: "node_format_ok b" and ok: "source_ok s" "\<forall>x\<in>set ss. source_ok x" and srt: "sorted (map (\<lambda>s. key (sis_k s)) (s # ss))"
    and M: "M = mset (sort_run b s) + (\<Sum>s\<in>#mset ss. mset (sort_run b s))" using h d by (auto simp: iter_has_def)
  obtain ks where ks: "sort_run b s = sis_k s # ks" "key_valid b (sis_k s)" "\<forall>k\<in>set ks. key (sis_k s) \<le> key k" using source_ok_head [OF ok(1)] by blast
  have least: "key (sis_k s) \<le> key y" if "y \<in># M" for y
  proof -
    from that M consider "y \<in> set (sort_run b s)" | x where "x \<in> set ss" "y \<in> set (sort_run b x)" by auto
    then show ?thesis
    proof cases
      case 1 then show ?thesis using ks by auto
    next
      case (2 x)
      then have "key (sis_k x) \<le> key y" using ok(2) source_ok_head [of x] by (metis order.refl set_ConsD)
      then show ?thesis using srt 2(1) by fastforce
    qed
  qed
  have rest: "M - {#sis_k s#} = mset ks + (\<Sum>s\<in>#mset ss. mset (sort_run b s))" using M ks(1) by simp
  obtain k' where k': "bkey_p_next b (sis_k s) = Some k'" "k' \<le> sis_end s" "k' = sis_end s \<longleftrightarrow> ks = []"
      "ks \<noteq> [] \<longrightarrow> source_ok (s\<lparr>sis_k := k'\<rparr>) \<and> sort_run b (s\<lparr>sis_k := k'\<rparr>) = ks" using source_step [OF ok(1) ks(1)] by blast
  have "\<exists>it'. sort_iter_advance b it cmp = Some it' \<and> iter_has it' (M - {#sis_k s#}) \<and>
      (\<forall>x\<in>set (si_data it'). \<exists>y\<in>set (si_data it). \<exists>us. sort_run b y = us @ sort_run b x)"
  proof (cases "ks = []")
    case True
    then have "sort_iter_advance b it cmp = Some (it\<lparr>si_data := ss\<rparr>)" using d k' by (simp add: sort_iter_advance_def)
    moreover have "iter_has (it\<lparr>si_data := ss\<rparr>) (M - {#sis_k s#})" using fmt ok(2) srt rest True by (simp add: iter_has_def)
    ultimately show ?thesis using d by (intro exI [of _ "it\<lparr>si_data := ss\<rparr>"]) force
  next
    case False
    let ?s = "s\<lparr>sis_k := k'\<rparr>"
    have new: "source_ok ?s" "sort_run b ?s = ks" using k'(4) False by auto
    have "\<forall>x\<in>set (?s # ss). key_valid b (sis_k x)" using new(1) ok(2) source_ok_head by (metis set_ConsD)
    then obtain ys where ys: "sift_front cmp (?s # ss) = Some ys" "mset ys = mset (?s # ss)" "sorted (map (\<lambda>s. key (sis_k s)) ys)"
      using sift_front_ok [OF fmt, of ?s ss] srt by auto
    have "set ys = set (?s # ss)" using ys(2) by (metis set_mset_mset)
    moreover have "\<exists>y\<in>set (si_data it). \<exists>us. sort_run b y = us @ sort_run b x" if "x \<in> insert ?s (set ss)" for x
    proof (cases "x = ?s")
      case True then show ?thesis using new(2) ks(1) d by (intro bexI [of _ s] exI [of _ "[sis_k s]"]) auto
    next
      case False then show ?thesis using that d by (intro bexI [of _ x] exI [of _ "[]"]) auto
    qed
    ultimately have "iter_has (it\<lparr>si_data := ys\<rparr>) (M - {#sis_k s#})" "\<forall>x\<in>set ys. \<exists>y\<in>set (si_data it). \<exists>us. sort_run b y = us @ sort_run b x"
      using fmt new ok(2) ys(2,3) rest by (auto simp: iter_has_def)
    moreover have "sort_iter_advance b it cmp = Some (it\<lparr>si_data := ys\<rparr>)"
      using d k' False ys(1) by (simp add: sort_iter_advance_def sort_iter_sift_def)
    ultimately show ?thesis by (intro exI [of _ "it\<lparr>si_data := ys\<rparr>"]) simp
  qed
  then show ?thesis using least M ks(1) by auto
qed

lemma iter_has_empty: "iter_has it {#} \<longleftrightarrow> node_format_ok b \<and> si_data it = []"
  by (auto simp: iter_has_def source_ok_def sum_mset_0_iff)

lemma iter_has_data:
  assumes "iter_has it M" "M \<noteq> {#}"
  obtains s ss where "si_data it = s # ss"
  using assms by (cases "si_data it") (auto simp: iter_has_def)

end

sublocale key_order \<subseteq> ordered_source "sort_iter_next b cmp" iter_has key
proof
  fix it assume "iter_has it {#}"
  then show "\<exists>it'. sort_iter_next b cmp it = Some (None, it')"
    by (simp add: iter_has_empty sort_iter_next_def sort_iter_peek_def)
next
  fix it M assume h: "iter_has it M" "M \<noteq> {#}"
  then obtain s ss where d: "si_data it = s # ss" using iter_has_data by blast
  then show "\<exists>x it'. sort_iter_next b cmp it = Some (Some x, it') \<and> x \<in># M \<and> (\<forall>y\<in>#M. key x \<le> key y) \<and> iter_has it' (M - {#x#})"
    using sorter_advance_ok [OF h(1) d] by (auto simp: sort_iter_next_def sort_iter_peek_def)
qed

section \<open>The three orders\<close>

definition pos_addr :: "btree \<Rightarrow> nat \<Rightarrow> bpos \<times> nat" where
  "pos_addr b k = (key_pos b k, k)"

interpretation fix_order: key_order b "key_sort_fix_overlapping_cmp b" "pos_addr b" for b
proof
  fix l r assume v: "node_format_ok b" "key_valid b l" "key_valid b r"
  define c where "c = bpos_cmp (key_pos b l) (key_pos b r)"
  have "key_sort_fix_overlapping_cmp b l r = Some (if c \<noteq> 0 then c else addr_cmp l r)"
    using v by (simp add: key_sort_fix_overlapping_cmp_def cmp_packed_at c_def)
  moreover have "0 < c \<longleftrightarrow> key_pos b r < key_pos b l" "c = 0 \<longleftrightarrow> key_pos b l = key_pos b r" by (simp_all add: c_def pos_order)
  ultimately show "\<exists>c. key_sort_fix_overlapping_cmp b l r = Some c \<and> (0 < c \<longleftrightarrow> pos_addr b r < pos_addr b l)"
    by (cases "c = 0") (auto simp: pos_addr_def addr_cmp_def)
qed

lemma keep_cmp_iter: "keep_unwritten_whiteouts_cmp b = bkey_iter_cmp b"
  by (intro ext) (simp add: keep_unwritten_whiteouts_cmp_def bkey_iter_cmp_def)

interpretation keep_order: key_order b "keep_unwritten_whiteouts_cmp b" "rank b" for b
  by standard (use iter_cmp_rank keep_cmp_iter in \<open>metis\<close>)

interpretation plain_order: key_order b "bkey_cmp_packed_at b" "key_pos b" for b
  by standard (simp add: cmp_packed_at pos_order)

section \<open>The passes\<close>

lemma key_copy_whole: "key_whole b k \<Longrightarrow> key_copy b k = Some (key_image b k)"
  by (auto simp: key_copy_def key_whole_def key_image_def key_u64s_at_def)

text \<open>The keys of the sorted sequence that a pass keeps: the wanted ones with no later key at the same position.\<close>

fun newest :: "btree \<Rightarrow> (nat \<Rightarrow> bool) \<Rightarrow> nat list \<Rightarrow> nat list" where
  "newest b P [] = []"
| "newest b P (x # xs) = (if P x \<and> (\<forall>y\<in>set xs. key_pos b y \<noteq> key_pos b x) then x # newest b P xs else newest b P xs)"

lemma set_newest:
  assumes "distinct xs" "sorted (map f xs)" "inj f"
  shows "set (newest b P xs) = {x \<in> set xs. P x \<and> (\<forall>y\<in>set xs. key_pos b y = key_pos b x \<longrightarrow> f y \<le> f x)}"
  using assms
proof (induction xs)
  case (Cons x xs)
  have le: "f x \<le> f y" if "y \<in> set xs" for y using Cons.prems that by simp
  have ne: "f y \<noteq> f x" if "y \<in> set xs" for y using Cons.prems that by (auto dest: injD)
  have IH: "set (newest b P xs) = {x \<in> set xs. P x \<and> (\<forall>y\<in>set xs. key_pos b y = key_pos b x \<longrightarrow> f y \<le> f x)}" using Cons by simp
  have old: "(\<forall>y\<in>set (x # xs). key_pos b y = key_pos b z \<longrightarrow> f y \<le> f z) \<longleftrightarrow> (\<forall>y\<in>set xs. key_pos b y = key_pos b z \<longrightarrow> f y \<le> f z)"
    if "z \<in> set xs" for z using le that by auto
  have new: "(\<forall>y\<in>set (x # xs). key_pos b y = key_pos b x \<longrightarrow> f y \<le> f x) \<longleftrightarrow> (\<forall>y\<in>set xs. key_pos b y \<noteq> key_pos b x)"
    using le ne by (auto dest: order.antisym)
  show ?case using old new IH Cons.prems(1) by (auto split: if_splits)
qed simp

lemma newest_subset: "set (newest b P xs) \<subseteq> set xs"
  by (induction xs) auto

lemma newest_sorted:
  "sorted (map (key_pos b) xs) \<Longrightarrow> sorted_wrt (\<lambda>l r. key_pos b l < key_pos b r) (newest b P xs)"
proof (induction xs)
  case (Cons x xs)
  have "key_pos b x < key_pos b y" if "y \<in> set (newest b P xs)" "\<forall>y\<in>set xs. key_pos b y \<noteq> key_pos b x" for y
    using that newest_subset [of b P xs] Cons.prems by (metis (no_types, lifting) image_eqI list.set_map list.simps(9) order.not_eq_order_implies_strict sorted_simps(2) subsetD)
  then show ?case using Cons by simp
qed simp

lemma sorted_pos_addr: "sorted (map (pos_addr b) xs) \<Longrightarrow> sorted (map (key_pos b) xs)"
  by (induction xs) (auto simp: pos_addr_def less_eq_prod_def)

lemma sorted_rank_pos: "sorted (map (rank b) xs) \<Longrightarrow> sorted (map (key_pos b) xs)"
  by (induction xs) (auto simp: rank_def less_eq_prod_def)

lemma drain_Nil: "drain nxt s = Some [] \<longleftrightarrow> (\<exists>s'. nxt s = Some (None, s'))"
  by (subst drain.simps) (auto split: bind_splits option.splits)

lemma drain_Cons: "drain nxt s = Some (x # xs) \<longleftrightarrow> (\<exists>s'. nxt s = Some (Some x, s') \<and> drain nxt s' = Some xs)"
  by (subst drain.simps) (auto split: bind_splits option.splits)

lemma next_peek: "sort_iter_next b cmp it = Some (r, it') \<Longrightarrow> sort_iter_peek it = r"
  by (auto simp: sort_iter_next_def split: option.splits bind_splits)

lemma drain_peek: "drain (sort_iter_next b cmp) it = Some xs \<Longrightarrow> sort_iter_peek it = (case xs of [] \<Rightarrow> None | x # _ \<Rightarrow> Some x)"
  using next_peek by (cases xs) (fastforce simp: drain_Nil drain_Cons)+

abbreviation key_images :: "btree \<Rightarrow> nat list \<Rightarrow> u64 list" where
  "key_images b ks \<equiv> concat (map (key_image b) ks)"

lemma sort_keys_loop_ok:
  assumes "drain (sort_iter_next b (bkey_cmp_packed_at b)) it = Some xs" "\<forall>x\<in>set xs. key_whole b x"
  shows "sort_keys_loop b out it = Some (out @ key_images b (filter (\<lambda>x. \<not> key_deleted b x) xs))"
  using assms
proof (induction xs arbitrary: it out)
  case Nil
  then show ?case by (subst sort_keys_loop.simps) (auto simp: drain_Nil)
next
  case (Cons x xs)
  then obtain it' where it': "sort_iter_next b (bkey_cmp_packed_at b) it = Some (Some x, it')" "drain (sort_iter_next b (bkey_cmp_packed_at b)) it' = Some xs"
    by (auto simp: drain_Cons)
  have "key_at b x = Some (drop x (b_data b))" using Cons.prems(2) by (simp add: key_whole_def)
  then show ?case using it' Cons.IH [OF it'(2)] Cons.prems(2)
    by (subst sort_keys_loop.simps) (simp add: key_copy_whole key_deleted_def)
qed

lemma keep_whiteouts_loop_ok:
  assumes "drain (sort_iter_next b (keep_unwritten_whiteouts_cmp b)) it = Some xs" "\<forall>x\<in>set xs. key_whole b x" "sorted (map (key_pos b) xs)"
    and "node_format_ok b" "unwritten_whiteouts_start b = Some start"
  shows "keep_whiteouts_loop b out it = Some (out @ key_images b (newest b (\<lambda>x. \<not> (key_deleted b x \<and> x < start)) xs))"
  using assms(1-3)
proof (induction xs arbitrary: it out)
  case Nil
  then show ?case by (subst keep_whiteouts_loop.simps) (auto simp: drain_Nil)
next
  case (Cons x xs)
  then obtain it' where it': "sort_iter_next b (keep_unwritten_whiteouts_cmp b) it = Some (Some x, it')"
      "drain (sort_iter_next b (keep_unwritten_whiteouts_cmp b)) it' = Some xs"
    by (auto simp: drain_Cons)
  have k: "key_at b x = Some (drop x (b_data b))" using Cons.prems(2) by (simp add: key_whole_def)
  have same: "(case sort_iter_peek it' of None \<Rightarrow> Some False | Some n \<Rightarrow> map_option (\<lambda>c. c = 0) (bkey_cmp_packed_at b x n)) =
      Some (\<exists>y\<in>set xs. key_pos b y = key_pos b x)"
  proof (cases xs)
    case Nil then show ?thesis using drain_peek [OF it'(2)] by simp
  next
    case (Cons y ys)
    have "bkey_cmp_packed_at b x y = Some (bpos_cmp (key_pos b x) (key_pos b y))"
      using cmp_packed_at assms(4) Cons Cons.prems(2) \<open>\<forall>x\<in>set (x # xs). key_whole b x\<close> by (simp add: key_whole_def)
    moreover have "(\<exists>z\<in>set xs. key_pos b z = key_pos b x) \<longleftrightarrow> key_pos b x = key_pos b y"
      using \<open>sorted (map (key_pos b) (x # xs))\<close> Cons by (auto intro: order.antisym)
    ultimately show ?thesis using drain_peek [OF it'(2)] Cons by (simp add: pos_order)
  qed
  show ?case using it' Cons.IH [OF it'(2)] Cons.prems k same assms(5)
    by (subst keep_whiteouts_loop.simps) (simp add: key_copy_whole key_deleted_def [symmetric])
qed

lemma key_image_u64s:
  assumes "key_whole b k"
  shows "length (key_image b k) = key_u64s_at b k" "unat (pk_u64s (key_image b k)) = key_u64s_at b k"
proof -
  show l: "length (key_image b k) = key_u64s_at b k" using assms by (auto simp: key_whole_def key_image_def)
  have "key_image b k ! 0 = drop k (b_data b) ! 0" using assms by (simp add: key_image_def key_whole_def)
  then show "unat (pk_u64s (key_image b k)) = key_u64s_at b k" by (simp add: key_u64s_at_def pk_u64s_def)
qed

text \<open>The keys of one set: sorted by position, and a live key is the last one of the set at its position.\<close>

definition live_order :: "btree \<Rightarrow> nat list \<Rightarrow> bool" where
  "live_order b ks \<longleftrightarrow> sorted_wrt (\<lambda>l r. key_pos b l < key_pos b r \<or> key_pos b l = key_pos b r \<and> key_deleted b l) ks"

lemma live_order_sorted:
  assumes "set_keys b k e = Some ks" "live_order b ks"
  shows "sorted (map (pos_addr b) ks)" "sorted (map (rank b) ks)" "sorted (map (key_pos b) ks)"
proof -
  let ?P = "\<lambda>l r. (key_pos b l < key_pos b r \<or> key_pos b l = key_pos b r \<and> key_deleted b l) \<and> l < r"
  have "sorted_wrt ?P ks" using set_keys_distinct [OF assms(1)] assms(2) by (auto simp: live_order_def sorted_wrt_iff_nth_less)
  then have s: "\<And>f :: nat \<Rightarrow> 'r::linorder. (\<And>l r. ?P l r \<Longrightarrow> f l \<le> f r) \<Longrightarrow> sorted (map f ks)"
    unfolding sorted_map by (rule sorted_wrt_mono_rel [rotated]) auto
  show "sorted (map (pos_addr b) ks)" "sorted (map (rank b) ks)" "sorted (map (key_pos b) ks)"
    using \<open>sorted_wrt ?P ks\<close> unfolding sorted_map by (auto elim!: sorted_wrt_mono_rel [rotated] simp: pos_addr_def rank_def less_eq_prod_def)
qed

lemma should_drop_ok:
  assumes h: "fix_order.iter_has b it M" and d: "si_data it = s # ss" and l: "live_order b (sort_run b s)" "\<not> key_deleted b (sis_k s)"
  shows "should_drop_next_key b it = Some (\<exists>y\<in>#M - {#sis_k s#}. key_pos b y = key_pos b (sis_k s))"
proof -
  have fmt: "node_format_ok b" and ok: "fix_order.source_ok b s" "\<forall>x\<in>set ss. fix_order.source_ok b x"
    and srt: "sorted (map (\<lambda>s. pos_addr b (sis_k s)) (s # ss))"
    and M: "M = mset (sort_run b s) + (\<Sum>s\<in>#mset ss. mset (sort_run b s))" using h d by (auto simp: fix_order.iter_has_def)
  obtain ks where ks: "sort_run b s = sis_k s # ks" "key_valid b (sis_k s)" using fix_order.source_ok_head [OF ok(1)] by blast
  have own: "key_pos b y \<noteq> key_pos b (sis_k s)" if "y \<in> set ks" for y using l ks(1) that by (auto simp: live_order_def)
  have rest: "M - {#sis_k s#} = mset ks + (\<Sum>s\<in>#mset ss. mset (sort_run b s))" using M ks(1) by simp
  show ?thesis
  proof (cases ss)
    case Nil then show ?thesis using d own rest by (auto simp: should_drop_next_key_def)
  next
    case (Cons t ts)
    obtain us where us: "sort_run b t = sis_k t # us" "key_valid b (sis_k t)" using fix_order.source_ok_head [of b t] ok(2) Cons by (metis list.set_intros(1))
    have first: "key_pos b (sis_k s) \<le> key_pos b (sis_k t)" using srt Cons by (auto simp: pos_addr_def)
    have "key_pos b (sis_k t) \<le> key_pos b y" if x: "x \<in> set ss" "y \<in> set (sort_run b x)" for x y
    proof -
      have "pos_addr b (sis_k t) \<le> pos_addr b (sis_k x)" using srt Cons x(1) by auto
      moreover have "pos_addr b (sis_k x) \<le> pos_addr b y"
        using fix_order.source_ok_head [of b x] ok(2) x by (metis order.refl set_ConsD)
      ultimately have "pos_addr b (sis_k t) \<le> pos_addr b y" by (rule order.trans)
      then show ?thesis by (auto simp: pos_addr_def less_eq_prod_def)
    qed
    note others = this
    have "(\<exists>y\<in>#M - {#sis_k s#}. key_pos b y = key_pos b (sis_k s)) \<longleftrightarrow> key_pos b (sis_k t) = key_pos b (sis_k s)"
    proof
      assume "\<exists>y\<in>#M - {#sis_k s#}. key_pos b y = key_pos b (sis_k s)"
      then obtain y where y: "y \<in># M - {#sis_k s#}" "key_pos b y = key_pos b (sis_k s)" by blast
      then obtain x where "x \<in> set ss" "y \<in> set (sort_run b x)" using own unfolding rest by auto
      then have "key_pos b (sis_k t) \<le> key_pos b y" by (rule others)
      then show "key_pos b (sis_k t) = key_pos b (sis_k s)" using first y(2) by simp
    next
      assume "key_pos b (sis_k t) = key_pos b (sis_k s)"
      moreover have "sis_k t \<in># M - {#sis_k s#}" unfolding rest using us(1) Cons by simp
      ultimately show "\<exists>y\<in>#M - {#sis_k s#}. key_pos b y = key_pos b (sis_k s)" by blast
    qed
    then show ?thesis using d Cons cmp_packed_at [OF fmt ks(2) us(2)] by (auto simp: should_drop_next_key_def pos_order)
  qed
qed

lemma fix_overlapping_loop_ok:
  assumes "fix_order.iter_has b it M" "\<forall>s\<in>set (si_data it). live_order b (sort_run b s)" "\<forall>k\<in>#M. key_whole b k"
    and "length (nr_bset_u64s nr) = MAX_BSETS"
  shows "\<exists>xs nr'. mset xs = M \<and> sorted (map (pos_addr b) xs) \<and>
    fix_overlapping_loop b out nr it = Some (out @ key_images b (newest b (\<lambda>x. \<not> key_deleted b x) xs), nr') \<and>
    nr_live_u64s nr' = nr_live_u64s nr + of_nat (length (key_images b (newest b (\<lambda>x. \<not> key_deleted b x) xs)))"
  using assms
proof (induction "size M" arbitrary: it M out nr)
  case 0
  then have "si_data it = []" by (simp add: fix_order.iter_has_empty)
  then show ?case using 0 by (intro exI [of _ "[]"] exI [of _ nr]) (simp add: fix_overlapping_loop.simps sort_iter_peek_def)
next
  case (Suc n)
  then have "M \<noteq> {#}" by auto
  then obtain s ss where d: "si_data it = s # ss" using fix_order.iter_has_data Suc.prems(1) by blast
  let ?k = "sis_k s"
  obtain it' where it': "sort_iter_advance b it (key_sort_fix_overlapping_cmp b) = Some it'" "?k \<in># M" "\<forall>y\<in>#M. pos_addr b ?k \<le> pos_addr b y"
      "fix_order.iter_has b it' (M - {#?k#})" "\<forall>x\<in>set (si_data it'). \<exists>y\<in>set (si_data it). \<exists>us. sort_run b y = us @ sort_run b x"
    using fix_order.sorter_advance_ok [OF Suc.prems(1) d] by blast
  have k: "key_whole b ?k" "key_at b ?k = Some (drop ?k (b_data b))" using Suc.prems(3) it'(2) by (auto simp: key_whole_def)
  have live: "\<forall>x\<in>set (si_data it'). live_order b (sort_run b x)"
  proof
    fix x assume "x \<in> set (si_data it')"
    then obtain y us where "y \<in> set (si_data it)" "sort_run b y = us @ sort_run b x" using it'(5) by blast
    then have "live_order b (us @ sort_run b x)" using Suc.prems(2) by metis
    then show "live_order b (sort_run b x)" by (simp add: live_order_def sorted_wrt_append)
  qed
  have n: "n = size (M - {#?k#})" using Suc.hyps(2) it'(2) by (simp add: size_Diff_singleton)
  have whole: "\<forall>k\<in>#M - {#?k#}. key_whole b k" using Suc.prems(3) by (auto dest: in_diffD)
  note IH = Suc.hyps(1) [OF n it'(4) live whole]
  define keep where "keep \<longleftrightarrow> \<not> key_deleted b ?k \<and> (\<forall>y\<in>#M - {#?k#}. key_pos b y \<noteq> key_pos b ?k)"
  obtain nr1 where nr1: "btree_keys_account_key nr 0 (key_image b ?k) 1 = Some nr1" "length (nr_bset_u64s nr1) = MAX_BSETS"
      "nr_live_u64s nr1 = nr_live_u64s nr + of_nat (length (key_image b ?k))"
    using account_ok [OF Suc.prems(4), of 0 "key_image b ?k"] key_image_u64s [OF k(1)] by (auto simp: MAX_BSETS_def)
  define out1 where "out1 = (if keep then out @ key_image b ?k else out)"
  define nr2 where "nr2 = (if keep then nr1 else nr)"
  have dec: "(if key_deleted b ?k then Some False else map_option Not (should_drop_next_key b it)) = Some keep"
    using should_drop_ok [OF Suc.prems(1) d] Suc.prems(2) d by (auto simp: keep_def)
  have eq: "fix_overlapping_loop b out nr it = fix_overlapping_loop b out1 nr2 it'"
    using d k dec it'(1) nr1(1) by (subst fix_overlapping_loop.simps)
      (simp add: sort_iter_peek_def key_deleted_def [symmetric] key_copy_whole out1_def nr2_def)
  have "length (nr_bset_u64s nr2) = MAX_BSETS" using nr1(2) Suc.prems(4) by (simp add: nr2_def)
  from IH [OF this, of out1] obtain xs nr' where xs: "mset xs = M - {#?k#}" "sorted (map (pos_addr b) xs)"
      "fix_overlapping_loop b out1 nr2 it' = Some (out1 @ key_images b (newest b (\<lambda>x. \<not> key_deleted b x) xs), nr')"
      "nr_live_u64s nr' = nr_live_u64s nr2 + of_nat (length (key_images b (newest b (\<lambda>x. \<not> key_deleted b x) xs)))" by blast
  have set_xs: "set xs = set_mset (M - {#?k#})" using xs(1) by (metis set_mset_mset)
  have nw: "newest b (\<lambda>x. \<not> key_deleted b x) (?k # xs) = (if keep then [?k] else []) @ newest b (\<lambda>x. \<not> key_deleted b x) xs"
    by (simp add: keep_def set_xs)
  have "sorted (map (pos_addr b) (?k # xs))" using xs(2) it'(3) set_xs by (auto dest: in_diffD)
  moreover have "mset (?k # xs) = M" using xs(1) it'(2) by simp
  moreover have "fix_overlapping_loop b out nr it = Some (out @ key_images b (newest b (\<lambda>x. \<not> key_deleted b x) (?k # xs)), nr')"
    unfolding eq xs(3) nw by (simp add: out1_def)
  moreover have "nr_live_u64s nr' = nr_live_u64s nr + of_nat (length (key_images b (newest b (\<lambda>x. \<not> key_deleted b x) (?k # xs))))"
    unfolding xs(4) nw by (simp add: nr2_def nr1(3))
  ultimately show ?case by blast
qed

section \<open>Properties\<close>

text \<open>A set that is added to the iterator, with its keys.\<close>

definition source_of :: "btree \<Rightarrow> sort_iter_set \<Rightarrow> nat list \<Rightarrow> bool" where
  "source_of b s ks \<longleftrightarrow> set_keys b (sis_k s) (sis_end s) = Some ks \<and> ks \<noteq> [] \<and> (\<forall>k\<in>set ks. key_whole b k) \<and> live_order b ks"

lemma source_of_run: "source_of b s ks \<Longrightarrow> sort_run b s = ks"
  by (simp add: source_of_def sort_run_def)

lemma sources_ok:
  assumes "list_all2 (source_of b) ss kss"
  shows "\<forall>s\<in>set ss. fix_order.source_ok b s" "\<forall>s\<in>set ss. keep_order.source_ok b s" "\<forall>s\<in>set ss. plain_order.source_ok b s"
    "\<forall>s\<in>set ss. live_order b (sort_run b s)" "(\<Sum>s\<in>#mset ss. mset (sort_run b s)) = mset (concat kss)"
    "\<forall>k\<in>set (concat kss). key_whole b k"
  using assms
proof (induction rule: list_all2_induct)
  case (Cons s ss ks kss)
  note r = source_of_run [OF Cons(1)] and o = live_order_sorted [of b "sis_k s" "sis_end s" ks]
  {
    case 1 then show ?case using Cons r o by (auto simp: source_of_def fix_order.source_ok_def key_whole_def)
  next
    case 2 then show ?case using Cons r o by (auto simp: source_of_def keep_order.source_ok_def key_whole_def)
  next
    case 3 then show ?case using Cons r o by (auto simp: source_of_def plain_order.source_ok_def key_whole_def)
  next
    case 4 then show ?case using Cons r by (auto simp: source_of_def)
  next
    case 5 then show ?case using Cons r by simp
  next
    case 6 then show ?case using Cons by (auto simp: source_of_def)
  }
qed auto

lemma inj_pos_addr: "inj (pos_addr b)" "inj (rank b)"
  by (auto simp: inj_def pos_addr_def)

lemma newest_pos_addr:
  assumes "distinct xs" "sorted (map (pos_addr b) xs)"
  shows "set (newest b P xs) = {x \<in> set xs. P x \<and> (\<forall>y\<in>set xs. key_pos b y = key_pos b x \<longrightarrow> y \<le> x)}"
  unfolding set_newest [OF assms inj_pos_addr(1)] by (auto simp: pos_addr_def)

text \<open>
  C17: Reading a node merges its sets into one. The pass returns, and the words it writes are those of the newest key at
  every position, the one at the highest address, unless that key is a deletion; they come in strictly ascending order
  of position. The header counts the words, and so does the accounting of live keys.
\<close>

theorem sort_fix_overlapping_newest:
  assumes "node_format_ok b" "list_all2 (source_of b) (si_data it) kss" "distinct (concat kss)"
  shows "\<exists>outs nr. bch2_key_sort_fix_overlapping b it = Some (key_images b outs, of_nat (length (key_images b outs)), nr) \<and>
    nr_live_u64s nr = of_nat (length (key_images b outs)) \<and> sorted_wrt (\<lambda>l r. key_pos b l < key_pos b r) outs \<and>
    set outs = {k \<in> set (concat kss). \<not> key_deleted b k \<and> (\<forall>k'\<in>set (concat kss). key_pos b k' = key_pos b k \<longrightarrow> k' \<le> k)}"
proof -
  note s = sources_ok [OF assms(2)]
  obtain it' where it': "sort_iter_sort it (key_sort_fix_overlapping_cmp b) = Some it'" "fix_order.iter_has b it' (mset (concat kss))"
    "\<forall>s\<in>set (si_data it'). live_order b (sort_run b s)"
    using fix_order.sorter_sort_ok [OF assms(1) s(1)] s(4,5) by auto
  have w: "\<forall>k\<in>#mset (concat kss). key_whole b k" using s(6) by simp
  obtain xs nr where xs: "mset xs = mset (concat kss)" "sorted (map (pos_addr b) xs)"
    "fix_overlapping_loop b [] nr_keys_default it' = Some (key_images b (newest b (\<lambda>x. \<not> key_deleted b x) xs), nr)"
    "nr_live_u64s nr = of_nat (length (key_images b (newest b (\<lambda>x. \<not> key_deleted b x) xs)))"
    using fix_overlapping_loop_ok [OF it'(2,3) w, of nr_keys_default "[]"] by (auto simp: nr_keys_default_def)
  have "distinct xs" "set xs = set (concat kss)" using xs(1) assms(3) mset_eq_imp_distinct_iff mset_eq_setD by blast+
  then show ?thesis
    using it'(1) xs newest_pos_addr [of xs b] newest_sorted [OF sorted_pos_addr [OF xs(2)]]
    by (intro exI [of _ "newest b (\<lambda>x. \<not> key_deleted b x) xs"] exI [of _ nr]) (simp add: bch2_key_sort_fix_overlapping_def)
qed

text \<open>
  Writing a node merges its sets with the whiteouts that are not on disk. Of the keys at one position the pass keeps the
  newest live key, or the newest whiteout when no key is live, and of the whiteouts only those that still have to be
  written; the keys come in strictly ascending order.
\<close>

lemma sort_keep_unwritten_newest:
  assumes "node_format_ok b" "list_all2 (source_of b) (si_data it) kss" "distinct (concat kss)" "unwritten_whiteouts_start b = Some start"
  shows "\<exists>outs. bch2_sort_keys_keep_unwritten_whiteouts b it = Some (key_images b outs) \<and>
    sorted_wrt (\<lambda>l r. key_pos b l < key_pos b r) outs \<and>
    set outs = {k \<in> set (concat kss). \<not> (key_deleted b k \<and> k < start) \<and>
      (\<forall>k'\<in>set (concat kss). key_pos b k' = key_pos b k \<and> (key_deleted b k' \<longleftrightarrow> key_deleted b k) \<longrightarrow> k' \<le> k) \<and>
      (key_deleted b k \<longrightarrow> (\<forall>k'\<in>set (concat kss). key_pos b k' = key_pos b k \<longrightarrow> key_deleted b k'))}"
proof -
  note s = sources_ok [OF assms(2)]
  obtain it' where it': "sort_iter_sort it (keep_unwritten_whiteouts_cmp b) = Some it'" "keep_order.iter_has b it' (mset (concat kss))"
    using keep_order.sorter_sort_ok [OF assms(1) s(2)] s(5) by auto
  obtain xs where xs: "drain (sort_iter_next b (keep_unwritten_whiteouts_cmp b)) it' = Some xs" "mset xs = mset (concat kss)" "sorted (map (rank b) xs)"
    using keep_order.drain_sorted [OF it'(2)] by blast
  have set_xs: "distinct xs" "set xs = set (concat kss)" using xs(2) assms(3) mset_eq_imp_distinct_iff mset_eq_setD by blast+
  let ?outs = "newest b (\<lambda>x. \<not> (key_deleted b x \<and> x < start)) xs"
  have "keep_whiteouts_loop b [] it' = Some ([] @ key_images b ?outs)"
    using s(6) set_xs sorted_rank_pos [OF xs(3)] by (intro keep_whiteouts_loop_ok [OF xs(1) _ _ assms(1,4)]) auto
  then have "bch2_sort_keys_keep_unwritten_whiteouts b it = Some (key_images b ?outs)"
    using it'(1) by (simp add: bch2_sort_keys_keep_unwritten_whiteouts_def)
  moreover have "(key_pos b k' = key_pos b k \<longrightarrow> rank b k' \<le> rank b k) \<longleftrightarrow>
      (key_pos b k' = key_pos b k \<and> (key_deleted b k' \<longleftrightarrow> key_deleted b k) \<longrightarrow> k' \<le> k) \<and> (key_deleted b k \<longrightarrow> key_pos b k' = key_pos b k \<longrightarrow> key_deleted b k')"
    for k k' by (cases "key_deleted b k"; cases "key_deleted b k'") (simp_all add: rank_def)
  then have "set ?outs = {k \<in> set (concat kss). \<not> (key_deleted b k \<and> k < start) \<and>
      (\<forall>k'\<in>set (concat kss). key_pos b k' = key_pos b k \<and> (key_deleted b k' \<longleftrightarrow> key_deleted b k) \<longrightarrow> k' \<le> k) \<and>
      (key_deleted b k \<longrightarrow> (\<forall>k'\<in>set (concat kss). key_pos b k' = key_pos b k \<longrightarrow> key_deleted b k'))}"
    unfolding set_newest [OF set_xs(1) xs(3) inj_pos_addr(2)] set_xs(2) by (intro Collect_cong) blast
  ultimately show ?thesis using newest_sorted [OF sorted_rank_pos [OF xs(3)]] by blast
qed

text \<open>Compacting sets keeps the live keys, sorted by position.\<close>

lemma sort_keys_live:
  assumes "node_format_ok b" "list_all2 (source_of b) (si_data it) kss"
  shows "\<exists>outs. bch2_sort_keys b it = Some (key_images b outs) \<and> sorted (map (key_pos b) outs) \<and>
    mset outs = {#k \<in># mset (concat kss). \<not> key_deleted b k#}"
proof -
  note s = sources_ok [OF assms(2)]
  obtain it' where it': "sort_iter_sort it (bkey_cmp_packed_at b) = Some it'" "plain_order.iter_has b it' (mset (concat kss))"
    using plain_order.sorter_sort_ok [OF assms(1) s(3)] s(5) by auto
  obtain xs where xs: "drain (sort_iter_next b (bkey_cmp_packed_at b)) it' = Some xs" "mset xs = mset (concat kss)" "sorted (map (key_pos b) xs)"
    using plain_order.drain_sorted [OF it'(2)] by blast
  have "set xs = set (concat kss)" using xs(2) mset_eq_setD by blast
  then have "sort_keys_loop b [] it' = Some ([] @ key_images b (filter (\<lambda>x. \<not> key_deleted b x) xs))"
    using s(6) by (intro sort_keys_loop_ok [OF xs(1)]) auto
  then show ?thesis using it'(1) xs(2,3)
    by (intro exI [of _ "filter (\<lambda>x. \<not> key_deleted b x) xs"]) (auto simp: bch2_sort_keys_def sorted_filter simp flip: xs(2))
qed

definition demo_sort_iter :: sort_iter where
  "demo_sort_iter = \<lparr>si_size = 4, si_data = [\<lparr>sis_k = 3, sis_end = 18\<rparr>, \<lparr>sis_k = 21, sis_end = 31\<rparr>]\<rparr>"

lemma demo_sources: "list_all2 (source_of demo_node) (si_data demo_sort_iter) [[3, 8, 13], [21, 26]]"
proof -
  have "key_u64s_at demo_node 3 = 5" "key_u64s_at demo_node 8 = 5" "key_u64s_at demo_node 13 = 5" "key_u64s_at demo_node 21 = 5"
    "key_u64s_at demo_node 26 = 5" by (simp_all add: key_u64s_at_def demo_node_def pk_u64s_def)
  moreover have "length (b_data demo_node) = 41" by (simp add: demo_node_def)
  ultimately have "key_whole demo_node 3" "key_whole demo_node 8" "key_whole demo_node 13" "key_whole demo_node 21" "key_whole demo_node 26"
    using demo_valid by (simp_all add: key_whole_def code_consts)
  moreover have "live_order demo_node [3, 8, 13]" "live_order demo_node [21, 26]" by (simp_all add: live_order_def less_bpos_def)
  ultimately have "source_of demo_node \<lparr>sis_k = 3, sis_end = 18\<rparr> [3, 8, 13]" "source_of demo_node \<lparr>sis_k = 21, sis_end = 31\<rparr> [21, 26]"
    unfolding source_of_def using demo_keys by (auto simp only: sort_iter_set.simps list.simps set_simps ball_simps empty_iff insert_iff)
  then show ?thesis by (simp add: demo_sort_iter_def)
qed

theorem sort_fix_overlapping_newest_witness:
  "\<exists>nr outs. bch2_key_sort_fix_overlapping demo_node demo_sort_iter = Some (key_images demo_node outs, of_nat (length (key_images demo_node outs)), nr) \<and>
     set outs = {3, 13, 21}"
proof -
  have eq: "{k \<in> set (concat [[3, 8, 13], [21, 26]]). \<not> key_deleted demo_node k \<and>
      (\<forall>k'\<in>set (concat [[3, 8, 13], [21, 26]]). key_pos demo_node k' = key_pos demo_node k \<longrightarrow> k' \<le> k)} = {3, 13, 21}"
    by auto
  have "distinct (concat [[3, 8, 13], [21, 26 :: nat]])" by simp
  from sort_fix_overlapping_newest [OF demo_format(1) demo_sources this] show ?thesis unfolding eq by blast
qed

end
