(* ===== verification/Extent.thy ===== *)
theory Extent
  imports Bkey Checksum
begin

text \<open>
  The value of an extent, the first half of \<^verbatim>\<open>btree/bset.rs\<close>: a run of entries of one to three words, whose type is the
  lowest set bit of the first word. A pointer says where a copy of the data is, a checksum entry describes the data of the
  pointers after it up to the next one, a stripe entry belongs to the next pointer.

  A value is the list of the 64-bit words from its start on; its length is the one the key header gives, the list may be
  longer. A pointer to an entry is its word offset, a null pointer is \<open>None\<close>; reading outside the list is a panic. The
  structures of an entry are views of its words: \<^verbatim>\<open>bch_extent_crc32\<close> is the two halves of one word, \<^verbatim>\<open>bch_extent_crc64\<close> and
  \<^verbatim>\<open>bch_extent_crc128\<close> a word of fields and one or two words of checksum.
\<close>

section \<open>Pointers\<close>

definition BCH_EXTENT_PTR_TYPE :: "u64 \<Rightarrow> u64" where
  "BCH_EXTENT_PTR_TYPE v = v AND 1"

definition SET_BCH_EXTENT_PTR_TYPE :: "u64 \<Rightarrow> u64 \<Rightarrow> u64" where
  "SET_BCH_EXTENT_PTR_TYPE v x = (v AND NOT 1) OR (x AND 1)"

definition BCH_EXTENT_PTR_CACHED :: "u64 \<Rightarrow> u64" where
  "BCH_EXTENT_PTR_CACHED v = drop_bit 1 v AND 1"

definition SET_BCH_EXTENT_PTR_CACHED :: "u64 \<Rightarrow> u64 \<Rightarrow> u64" where
  "SET_BCH_EXTENT_PTR_CACHED v x = (v AND NOT (push_bit 1 1)) OR push_bit 1 (x AND 1)"

definition BCH_EXTENT_PTR_UNUSED :: "u64 \<Rightarrow> u64" where
  "BCH_EXTENT_PTR_UNUSED v = drop_bit 2 v AND 1"

definition SET_BCH_EXTENT_PTR_UNUSED :: "u64 \<Rightarrow> u64 \<Rightarrow> u64" where
  "SET_BCH_EXTENT_PTR_UNUSED v x = (v AND NOT (push_bit 2 1)) OR push_bit 2 (x AND 1)"

definition BCH_EXTENT_PTR_UNWRITTEN :: "u64 \<Rightarrow> u64" where
  "BCH_EXTENT_PTR_UNWRITTEN v = drop_bit 3 v AND 1"

definition SET_BCH_EXTENT_PTR_UNWRITTEN :: "u64 \<Rightarrow> u64 \<Rightarrow> u64" where
  "SET_BCH_EXTENT_PTR_UNWRITTEN v x = (v AND NOT (push_bit 3 1)) OR push_bit 3 (x AND 1)"

definition BCH_EXTENT_PTR_OFFSET :: "u64 \<Rightarrow> u64" where
  "BCH_EXTENT_PTR_OFFSET v = drop_bit 4 v AND mask 44"

definition SET_BCH_EXTENT_PTR_OFFSET :: "u64 \<Rightarrow> u64 \<Rightarrow> u64" where
  "SET_BCH_EXTENT_PTR_OFFSET v x = (let m = push_bit 4 (mask 44) in (v AND NOT m) OR (push_bit 4 x AND m))"

definition BCH_EXTENT_PTR_DEV :: "u64 \<Rightarrow> u64" where
  "BCH_EXTENT_PTR_DEV v = drop_bit 48 v AND 0xff"

definition SET_BCH_EXTENT_PTR_DEV :: "u64 \<Rightarrow> u64 \<Rightarrow> u64" where
  "SET_BCH_EXTENT_PTR_DEV v x = (v AND NOT (push_bit 48 0xff)) OR push_bit 48 (x AND 0xff)"

definition BCH_EXTENT_PTR_GEN :: "u64 \<Rightarrow> u64" where
  "BCH_EXTENT_PTR_GEN v = drop_bit 56 v"

definition SET_BCH_EXTENT_PTR_GEN :: "u64 \<Rightarrow> u64 \<Rightarrow> u64" where
  "SET_BCH_EXTENT_PTR_GEN v x = (v AND NOT (push_bit 56 0xff)) OR push_bit 56 (x AND 0xff)"

section \<open>Entries\<close>

definition BCH_EXTENT_ENTRY_ptr :: nat where [code_consts]: "BCH_EXTENT_ENTRY_ptr = 0"
definition BCH_EXTENT_ENTRY_crc32 :: nat where [code_consts]: "BCH_EXTENT_ENTRY_crc32 = 1"
definition BCH_EXTENT_ENTRY_crc64 :: nat where [code_consts]: "BCH_EXTENT_ENTRY_crc64 = 2"
definition BCH_EXTENT_ENTRY_crc128 :: nat where [code_consts]: "BCH_EXTENT_ENTRY_crc128 = 3"
definition BCH_EXTENT_ENTRY_stripe_ptr :: nat where [code_consts]: "BCH_EXTENT_ENTRY_stripe_ptr = 4"
definition BCH_EXTENT_ENTRY_MAX :: nat where [code_consts]: "BCH_EXTENT_ENTRY_MAX = 9"

definition extent_entry_type :: "u64 \<Rightarrow> nat" where
  "extent_entry_type w = (if w = 0 then 2 ^ 32 - 1 else trailing_zeros w)"

definition extent_entry_is_ptr :: "u64 \<Rightarrow> bool" where
  "extent_entry_is_ptr w \<longleftrightarrow> extent_entry_type w = BCH_EXTENT_ENTRY_ptr"

definition extent_entry_is_stripe_ptr :: "u64 \<Rightarrow> bool" where
  "extent_entry_is_stripe_ptr w \<longleftrightarrow> extent_entry_type w = BCH_EXTENT_ENTRY_stripe_ptr"

definition extent_entry_is_crc :: "u64 \<Rightarrow> bool" where
  "extent_entry_is_crc w \<longleftrightarrow>
     extent_entry_type w = BCH_EXTENT_ENTRY_crc32 \<or> extent_entry_type w = BCH_EXTENT_ENTRY_crc64 \<or>
     extent_entry_type w = BCH_EXTENT_ENTRY_crc128"

definition extent_entry_u64s_known :: "nat \<Rightarrow> nat" where
  "extent_entry_u64s_known ty =
     (if ty = BCH_EXTENT_ENTRY_crc64 then 2 else if ty = BCH_EXTENT_ENTRY_crc128 then 3
      else if ty < BCH_EXTENT_ENTRY_MAX then 1 else 0)"

definition extent_entry_u64s :: "u64 list \<Rightarrow> nat \<Rightarrow> nat option" where
  "extent_entry_u64s v e =
     do { w \<leftarrow> nth_opt v e; let ty = extent_entry_type w; require (ty < BCH_EXTENT_ENTRY_MAX); Some (extent_entry_u64s_known ty) }"

definition extent_entry_next :: "u64 list \<Rightarrow> nat \<Rightarrow> nat option" where
  "extent_entry_next v e = do { n \<leftarrow> extent_entry_u64s v e; Some (e + n) }"

definition extent_entry_next_safe :: "u64 list \<Rightarrow> nat \<Rightarrow> nat \<Rightarrow> nat option" where
  "extent_entry_next_safe v e fin =
     do { w \<leftarrow> nth_opt v e; if extent_entry_type w < BCH_EXTENT_ENTRY_MAX then extent_entry_next v e else Some fin }"

section \<open>Checksum entries\<close>

record bch_extent_crc_unpacked =
  crc_compressed_size :: u32
  crc_uncompressed_size :: u32
  crc_live_size :: u32
  crc_csum_type :: u8
  crc_compression_type :: u8
  crc_offset :: u16
  crc_nonce :: u16
  crc_csum :: bch_csum

definition BCH_COMPRESSION_TYPE_none :: u8 where [code_consts]: "BCH_COMPRESSION_TYPE_none = 0"
definition BCH_COMPRESSION_TYPE_incompressible :: u8 where [code_consts]: "BCH_COMPRESSION_TYPE_incompressible = 5"
definition CRC32_SIZE_MAX :: u32 where [code_consts]: "CRC32_SIZE_MAX = 128"
definition CRC64_SIZE_MAX :: u32 where [code_consts]: "CRC64_SIZE_MAX = 512"
definition CRC128_SIZE_MAX :: u32 where [code_consts]: "CRC128_SIZE_MAX = 8192"
definition CRC32_NONCE_MAX :: u16 where [code_consts]: "CRC32_NONCE_MAX = 0"
definition CRC64_NONCE_MAX :: u16 where [code_consts]: "CRC64_NONCE_MAX = 1023"
definition CRC128_NONCE_MAX :: u16 where [code_consts]: "CRC128_NONCE_MAX = 8191"
definition bch_crc_bytes :: "nat list" where [code_consts]: "bch_crc_bytes = [0, 4, 8, 10, 16, 4, 8, 8]"

definition crc_is_compressed :: "bch_extent_crc_unpacked \<Rightarrow> bool" where
  "crc_is_compressed crc \<longleftrightarrow>
     crc_compression_type crc \<noteq> BCH_COMPRESSION_TYPE_none \<and> crc_compression_type crc \<noteq> BCH_COMPRESSION_TYPE_incompressible"

definition crc_is_encoded :: "bch_extent_crc_unpacked \<Rightarrow> bool" where
  "crc_is_encoded crc \<longleftrightarrow> crc_csum_type crc \<noteq> ucast BCH_CSUM_none \<or> crc_is_compressed crc"

text \<open>The description of a pointer with no checksum entry before it.\<close>

definition extent_crc_none :: "bkey \<Rightarrow> bch_extent_crc_unpacked" where
  "extent_crc_none k =
     \<lparr>crc_compressed_size = k_size k, crc_uncompressed_size = k_size k, crc_live_size = k_size k, crc_csum_type = 0,
      crc_compression_type = 0, crc_offset = 0, crc_nonce = 0, crc_csum = \<lparr>csum_lo = 0, csum_hi = 0\<rparr>\<rparr>"

text \<open>A field of a word: \<open>n\<close> bits from bit \<open>s\<close> on, cut to the type it is stored in.\<close>

definition field :: "u64 \<Rightarrow> nat \<Rightarrow> nat \<Rightarrow> 'a::len word" where
  "field w s n = ucast (drop_bit s w AND mask n)"

definition put_field :: "'a::len word \<Rightarrow> nat \<Rightarrow> nat \<Rightarrow> u64" where
  "put_field x s n = push_bit s (ucast x AND mask n)"

definition type_bit :: "nat \<Rightarrow> u64" where
  "type_bit ty = push_bit ty 1"

definition bch2_extent_crc_unpack :: "bkey \<Rightarrow> u64 list \<Rightarrow> nat option \<Rightarrow> bch_extent_crc_unpacked option" where
  "bch2_extent_crc_unpack k v crc =
     (case crc of None \<Rightarrow> Some (extent_crc_none k)
      | Some e \<Rightarrow>
          do { w \<leftarrow> nth_opt v e;
               let ty = extent_entry_type w;
               if ty = BCH_EXTENT_ENTRY_crc32 then
                 Some \<lparr>crc_compressed_size = field w 2 7 + 1, crc_uncompressed_size = field w 9 7 + 1, crc_live_size = k_size k,
                       crc_csum_type = field w 24 4, crc_compression_type = field w 28 4, crc_offset = field w 16 7, crc_nonce = 0,
                       crc_csum = \<lparr>csum_lo = drop_bit 32 w, csum_hi = 0\<rparr>\<rparr>
               else if ty = BCH_EXTENT_ENTRY_crc64 then
                 do { lo \<leftarrow> nth_opt v (e + 1);
                      Some \<lparr>crc_compressed_size = field w 3 9 + 1, crc_uncompressed_size = field w 12 9 + 1, crc_live_size = k_size k,
                            crc_csum_type = field w 40 4, crc_compression_type = field w 44 4, crc_offset = field w 21 9,
                            crc_nonce = field w 30 10, crc_csum = \<lparr>csum_lo = lo, csum_hi = field w 48 16\<rparr>\<rparr> }
               else if ty = BCH_EXTENT_ENTRY_crc128 then
                 do { lo \<leftarrow> nth_opt v (e + 1); hi \<leftarrow> nth_opt v (e + 2);
                      Some \<lparr>crc_compressed_size = field w 4 13 + 1, crc_uncompressed_size = field w 17 13 + 1, crc_live_size = k_size k,
                            crc_csum_type = field w 56 4, crc_compression_type = field w 60 4, crc_offset = field w 30 13,
                            crc_nonce = field w 43 13, crc_csum = \<lparr>csum_lo = lo, csum_hi = hi\<rparr>\<rparr> }
               else None })"

text \<open>The words that \<^verbatim>\<open>bch2_extent_crc_pack\<close> stores.\<close>

definition crc_words :: "bch_extent_crc_unpacked \<Rightarrow> nat \<Rightarrow> u64 list option" where
  "crc_words src ty =
     do { require (crc_compressed_size src \<noteq> 0 \<and> crc_uncompressed_size src \<noteq> 0);
          let cs = crc_compressed_size src - 1;
          let us = crc_uncompressed_size src - 1;
          if ty = BCH_EXTENT_ENTRY_crc32 then
            Some [type_bit 1 OR put_field cs 2 7 OR put_field us 9 7 OR put_field (crc_offset src) 16 7 OR
                  put_field (crc_csum_type src) 24 4 OR put_field (crc_compression_type src) 28 4 OR
                  push_bit 32 (csum_lo (crc_csum src))]
          else if ty = BCH_EXTENT_ENTRY_crc64 then
            Some [type_bit 2 OR put_field cs 3 9 OR put_field us 12 9 OR put_field (crc_offset src) 21 9 OR
                  put_field (crc_nonce src) 30 10 OR put_field (crc_csum_type src) 40 4 OR
                  put_field (crc_compression_type src) 44 4 OR put_field (csum_hi (crc_csum src)) 48 16,
                  csum_lo (crc_csum src)]
          else if ty = BCH_EXTENT_ENTRY_crc128 then
            Some [type_bit 3 OR put_field cs 4 13 OR put_field us 17 13 OR put_field (crc_offset src) 30 13 OR
                  put_field (crc_nonce src) 43 13 OR put_field (crc_csum_type src) 56 4 OR
                  put_field (crc_compression_type src) 60 4,
                  csum_lo (crc_csum src), csum_hi (crc_csum src)]
          else None }"

definition bch2_extent_crc_pack :: "u64 list \<Rightarrow> nat \<Rightarrow> bch_extent_crc_unpacked \<Rightarrow> nat \<Rightarrow> u64 list option" where
  "bch2_extent_crc_pack v dst src ty =
     do { ws \<leftarrow> crc_words src ty;
          require (dst + length ws \<le> length v);
          Some (take dst v @ ws @ drop (dst + length ws) v) }"

definition bch2_crc_unpacked_cmp :: "bch_extent_crc_unpacked \<Rightarrow> bch_extent_crc_unpacked \<Rightarrow> bool" where
  "bch2_crc_unpacked_cmp l r \<longleftrightarrow>
     crc_csum_type l \<noteq> crc_csum_type r \<or> crc_compression_type l \<noteq> crc_compression_type r \<or>
     crc_compressed_size l \<noteq> crc_compressed_size r \<or> crc_uncompressed_size l \<noteq> crc_uncompressed_size r \<or>
     crc_offset l \<noteq> crc_offset r \<or> crc_live_size l \<noteq> crc_live_size r \<or> crc_nonce l \<noteq> crc_nonce r \<or>
     ((csum_lo (crc_csum l) XOR csum_lo (crc_csum r)) OR (csum_hi (crc_csum l) XOR csum_hi (crc_csum r))) \<noteq> 0"

section \<open>Types and fields\<close>

lemma trailing_zeros_eq:
  fixes w :: "'a::len word"
  assumes "bit w t" "\<forall>i<t. \<not> bit w i"
  shows "trailing_zeros w = t"
proof -
  let ?n = "unat w"
  have b: "bit ?n i \<longleftrightarrow> bit w i" for i by (auto simp: bit_unsigned_iff dest: bit_imp_le_length)
  have "take_bit t ?n = 0" using assms(2) by (auto simp: bit_eq_iff bit_take_bit_iff b)
  then have "?n = ?n div 2 ^ t * 2 ^ t" by (metis add.right_neutral div_mult_mod_eq take_bit_eq_mod)
  moreover have "bit ?n t" using assms(1) b by blast
  then have "odd (?n div 2 ^ t)" unfolding bit_iff_odd .
  ultimately have "low_zeros ?n = t" using low_zeros_mult_power by metis
  moreover have "w \<noteq> 0" using assms(1) by auto
  ultimately show ?thesis by (simp add: trailing_zeros_def)
qed

lemma extent_entry_type_eq: "bit w t \<Longrightarrow> \<forall>i<t. \<not> bit w i \<Longrightarrow> extent_entry_type w = t"
  using trailing_zeros_eq [of w t] by (auto simp: extent_entry_type_def)

lemma bit_field: "bit (field w s n :: 'a::len word) i \<longleftrightarrow> i < LENGTH('a) \<and> i < n \<and> bit w (s + i)"
  by (auto simp: field_def bit_ucast_iff bit_and_iff bit_drop_bit_eq bit_mask_iff dest: bit_imp_le_length)

lemma bit_put_field: "bit (put_field (x :: 'a::len word) s n) j \<longleftrightarrow> s \<le> j \<and> j < 64 \<and> j - s < n \<and> bit x (j - s)"
  by (auto simp: put_field_def bit_push_bit_iff bit_and_iff bit_ucast_iff bit_mask_iff dest: bit_imp_le_length)

lemma bit_small:
  assumes "unat (x :: 'a::len word) < 2 ^ n" "bit x i"
  shows "i < n"
proof -
  have "bit (unat x) i" using assms(2) by (auto simp: bit_unsigned_iff dest: bit_imp_le_length)
  moreover have "take_bit n (unat x) = unat x" using assms(1) by (simp add: take_bit_nat_eq_self_iff)
  ultimately show ?thesis by (metis bit_take_bit_iff)
qed

text \<open>What a checksum entry of each type can hold.\<close>

definition crc_fits :: "bch_extent_crc_unpacked \<Rightarrow> nat \<Rightarrow> bool" where
  "crc_fits src ty \<longleftrightarrow>
     crc_compressed_size src \<noteq> 0 \<and> crc_uncompressed_size src \<noteq> 0 \<and>
     unat (crc_csum_type src) < 2 ^ 4 \<and> unat (crc_compression_type src) < 2 ^ 4 \<and>
     (ty = BCH_EXTENT_ENTRY_crc32 \<and> unat (crc_compressed_size src - 1) < 2 ^ 7 \<and> unat (crc_uncompressed_size src - 1) < 2 ^ 7 \<and>
        unat (crc_offset src) < 2 ^ 7 \<and> crc_nonce src = 0 \<and> unat (csum_lo (crc_csum src)) < 2 ^ 32 \<and> csum_hi (crc_csum src) = 0 \<or>
      ty = BCH_EXTENT_ENTRY_crc64 \<and> unat (crc_compressed_size src - 1) < 2 ^ 9 \<and> unat (crc_uncompressed_size src - 1) < 2 ^ 9 \<and>
        unat (crc_offset src) < 2 ^ 9 \<and> unat (crc_nonce src) < 2 ^ 10 \<and> unat (csum_hi (crc_csum src)) < 2 ^ 16 \<or>
      ty = BCH_EXTENT_ENTRY_crc128 \<and> unat (crc_compressed_size src - 1) < 2 ^ 13 \<and> unat (crc_uncompressed_size src - 1) < 2 ^ 13 \<and>
        unat (crc_offset src) < 2 ^ 13 \<and> unat (crc_nonce src) < 2 ^ 13)"

lemma field_put:
  fixes x :: "'a::len word"
  assumes "unat x < 2 ^ n" "\<And>i. i < n \<Longrightarrow> bit w (s + i) \<longleftrightarrow> bit (put_field x s n) (s + i)" "s + n \<le> 64"
  shows "field w s n = x"
proof (rule bit_word_eqI)
  fix i assume i: "i < LENGTH('a)"
  show "bit (field w s n :: 'a word) i \<longleftrightarrow> bit x i"
    using assms i bit_small [OF assms(1), of i] by (auto simp: bit_field bit_put_field)
qed

lemma bit_type_bit: "bit (type_bit t) j \<longleftrightarrow> j = t \<and> t < 64"
  by (auto simp: type_bit_def bit_exp_iff possible_bit_def)

lemmas crc_word_bits = bit_or_iff bit_put_field bit_push_bit_iff bit_type_bit

lemma crc_words_ok:
  assumes "crc_fits src ty" "v = pre @ ws @ post" "crc_words src ty = Some ws"
  shows "bch2_extent_crc_unpack k v (Some (length pre)) = Some (src\<lparr>crc_live_size := k_size k\<rparr>)"
    "extent_entry_type (hd ws) = ty" "length ws = extent_entry_u64s_known ty"
proof -
  note f = assms(1) [unfolded crc_fits_def]
  let ?cs = "crc_compressed_size src - 1" and ?us = "crc_uncompressed_size src - 1"
  from f consider (c32) "ty = 1" "unat ?cs < 2 ^ 7" "unat ?us < 2 ^ 7" "unat (crc_offset src) < 2 ^ 7" "crc_nonce src = 0"
      "unat (csum_lo (crc_csum src)) < 2 ^ 32" "csum_hi (crc_csum src) = 0"
    | (c64) "ty = 2" "unat ?cs < 2 ^ 9" "unat ?us < 2 ^ 9" "unat (crc_offset src) < 2 ^ 9" "unat (crc_nonce src) < 2 ^ 10"
      "unat (csum_hi (crc_csum src)) < 2 ^ 16"
    | (c128) "ty = 3" "unat ?cs < 2 ^ 13" "unat ?us < 2 ^ 13" "unat (crc_offset src) < 2 ^ 13" "unat (crc_nonce src) < 2 ^ 13"
    by (auto simp: code_consts)
  then have "bch2_extent_crc_unpack k v (Some (length pre)) = Some (src\<lparr>crc_live_size := k_size k\<rparr>) \<and>
    extent_entry_type (hd ws) = ty \<and> length ws = extent_entry_u64s_known ty"
  proof cases
    case c32
    define w where "w = type_bit 1 OR put_field ?cs 2 7 OR put_field ?us 9 7 OR put_field (crc_offset src) 16 7 OR
      put_field (crc_csum_type src) 24 4 OR put_field (crc_compression_type src) 28 4 OR push_bit 32 (csum_lo (crc_csum src))"
    have ws: "ws = [w]" using assms(3) c32 f by (simp add: crc_words_def w_def code_consts Let_def)
    have ty: "extent_entry_type w = 1" by (rule extent_entry_type_eq) (auto simp: w_def crc_word_bits)
    have "field w 2 7 = ?cs" "field w 9 7 = ?us" "field w 16 7 = crc_offset src" "field w 24 4 = crc_csum_type src" "field w 28 4 = crc_compression_type src"
      using c32(2-4) f by (auto intro!: field_put simp: w_def crc_word_bits)
    moreover have "drop_bit 32 w = csum_lo (crc_csum src)"
      using bit_small [OF c32(6)] by (intro bit_word_eqI) (auto simp: w_def crc_word_bits bit_drop_bit_eq)
    ultimately show ?thesis using c32 ty unfolding assms(2) ws
      by (simp add: bch2_extent_crc_unpack_def nth_opt_in_range code_consts extent_entry_u64s_known_def Let_def)
  next
    case c64
    define w where "w = type_bit 2 OR put_field ?cs 3 9 OR put_field ?us 12 9 OR put_field (crc_offset src) 21 9 OR
      put_field (crc_nonce src) 30 10 OR put_field (crc_csum_type src) 40 4 OR put_field (crc_compression_type src) 44 4 OR
      put_field (csum_hi (crc_csum src)) 48 16"
    have ws: "ws = [w, csum_lo (crc_csum src)]" using assms(3) c64 f by (simp add: crc_words_def w_def code_consts Let_def)
    have ty: "extent_entry_type w = 2" by (rule extent_entry_type_eq) (auto simp: w_def crc_word_bits)
    have "field w 3 9 = ?cs" "field w 12 9 = ?us" "field w 21 9 = crc_offset src" "field w 30 10 = crc_nonce src"
      "field w 40 4 = crc_csum_type src" "field w 44 4 = crc_compression_type src" "field w 48 16 = csum_hi (crc_csum src)"
      using c64(2-6) f by (auto intro!: field_put simp: w_def crc_word_bits)
    then show ?thesis using c64 ty unfolding assms(2) ws
      by (simp add: bch2_extent_crc_unpack_def nth_opt_in_range nth_append code_consts extent_entry_u64s_known_def Let_def)
  next
    case c128
    define w where "w = type_bit 3 OR put_field ?cs 4 13 OR put_field ?us 17 13 OR put_field (crc_offset src) 30 13 OR
      put_field (crc_nonce src) 43 13 OR put_field (crc_csum_type src) 56 4 OR put_field (crc_compression_type src) 60 4"
    have ws: "ws = [w, csum_lo (crc_csum src), csum_hi (crc_csum src)]" using assms(3) c128 f by (simp add: crc_words_def w_def code_consts Let_def)
    have ty: "extent_entry_type w = 3" by (rule extent_entry_type_eq) (auto simp: w_def crc_word_bits)
    have "field w 4 13 = ?cs" "field w 17 13 = ?us" "field w 30 13 = crc_offset src" "field w 43 13 = crc_nonce src"
      "field w 56 4 = crc_csum_type src" "field w 60 4 = crc_compression_type src"
      using c128(2-5) f by (auto intro!: field_put simp: w_def crc_word_bits)
    then show ?thesis using c128 ty unfolding assms(2) ws
      by (simp add: bch2_extent_crc_unpack_def nth_opt_in_range nth_append code_consts extent_entry_u64s_known_def Let_def)
  qed
  then show "bch2_extent_crc_unpack k v (Some (length pre)) = Some (src\<lparr>crc_live_size := k_size k\<rparr>)"
    "extent_entry_type (hd ws) = ty" "length ws = extent_entry_u64s_known ty" by blast+
qed

end
