(* ===== verification/Extent_Ops.thy ===== *)
theory Extent_Ops
  imports Extent
begin

text \<open>
  The operations on the entries of an extent, the rest of \<^verbatim>\<open>btree/bset.rs\<close>: finding the entries of a key, decoding its
  pointers, the questions asked of them, and the operations that append, drop, rewrite and cut.

  A key with its value is a header and the words of the value, as in \<open>Extent\<close>. The loops over the entries of a key are
  instances of three: \<open>find_entry\<close> returns from the loop, \<open>fold_entries\<close> carries a state through it, and \<open>next_decode\<close> is the
  inner loop that collects the checksum and stripe entries before a pointer.
\<close>

section \<open>The entries of a key\<close>

definition KEY_TYPE_btree_ptr :: u8 where [code_consts]: "KEY_TYPE_btree_ptr = 5"
definition KEY_TYPE_extent :: u8 where [code_consts]: "KEY_TYPE_extent = 6"
definition KEY_TYPE_reservation :: u8 where [code_consts]: "KEY_TYPE_reservation = 7"
definition KEY_TYPE_stripe :: u8 where [code_consts]: "KEY_TYPE_stripe = 14"
definition KEY_TYPE_reflink_v :: u8 where [code_consts]: "KEY_TYPE_reflink_v = 16"
definition KEY_TYPE_btree_ptr_v2 :: u8 where [code_consts]: "KEY_TYPE_btree_ptr_v2 = 18"
definition BCH_SB_MEMBER_INVALID :: u64 where [code_consts]: "BCH_SB_MEMBER_INVALID = 255"
definition BKEY_EXTENT_VAL_U64S_MAX :: nat where [code_consts]: "BKEY_EXTENT_VAL_U64S_MAX = 41"

definition bch2_bkey_ptrs :: "bkey \<Rightarrow> u64 list \<Rightarrow> (nat \<times> nat) option option" where
  "bch2_bkey_ptrs k v =
     (let ty = k_type k; fin = unat (bkey_val_u64s k) in
      if ty = KEY_TYPE_btree_ptr_v2 then Some (Some (5, fin))
      else if ty = KEY_TYPE_stripe then
        do { w \<leftarrow> nth_opt v 0; Some (Some (1, 1 + unat (field w 24 8 :: u8))) }
      else if ty = KEY_TYPE_btree_ptr \<or> ty = KEY_TYPE_extent \<or> ty = KEY_TYPE_reflink_v then Some (Some (0, fin))
      else Some None)"

partial_function (option) find_entry :: "(nat \<Rightarrow> u64 \<Rightarrow> bool option) \<Rightarrow> u64 list \<Rightarrow> nat \<Rightarrow> nat \<Rightarrow> nat option option" where
  "find_entry P v fin e =
     (if e < fin then
        Option.bind (nth_opt v e) (\<lambda>w.
          Option.bind (P e w) (\<lambda>r.
            if r then Some (Some e) else Option.bind (extent_entry_next_safe v e fin) (find_entry P v fin)))
      else Some None)"

declare find_entry.simps [code]

partial_function (option) fold_entries :: "(nat \<Rightarrow> u64 \<Rightarrow> 's \<Rightarrow> 's option) \<Rightarrow> u64 list \<Rightarrow> nat \<Rightarrow> nat \<Rightarrow> 's \<Rightarrow> 's option" where
  "fold_entries f v fin e s =
     (if e < fin then
        Option.bind (nth_opt v e) (\<lambda>w.
          Option.bind (f e w s) (\<lambda>s. Option.bind (extent_entry_next_safe v e fin) (\<lambda>n. fold_entries f v fin n s)))
      else Some s)"

declare fold_entries.simps [code]

section \<open>Decoded pointers\<close>

record extent_ptr_decoded =
  p_has_ec :: bool
  p_crc :: bch_extent_crc_unpacked
  p_ptr :: u64
  p_ec :: u64

definition decoded_default :: "bch_extent_crc_unpacked \<Rightarrow> extent_ptr_decoded" where
  "decoded_default crc = \<lparr>p_has_ec = False, p_crc = crc, p_ptr = 0, p_ec = 0\<rparr>"

definition decode_entry :: "bkey \<Rightarrow> u64 list \<Rightarrow> nat \<Rightarrow> u64 \<Rightarrow> extent_ptr_decoded \<Rightarrow> extent_ptr_decoded option" where
  "decode_entry k v e w p =
     (if extent_entry_is_crc w then map_option (\<lambda>crc. p\<lparr>p_crc := crc\<rparr>) (bch2_extent_crc_unpack k v (Some e))
      else if extent_entry_is_stripe_ptr w then Some (p\<lparr>p_ec := w, p_has_ec := True\<rparr>)
      else Some p)"

partial_function (option) next_decode ::
    "bkey \<Rightarrow> u64 list \<Rightarrow> nat \<Rightarrow> nat \<Rightarrow> extent_ptr_decoded \<Rightarrow> (extent_ptr_decoded \<times> nat) option option" where
  "next_decode k v fin e p =
     (if e < fin then
        Option.bind (nth_opt v e) (\<lambda>w.
          if extent_entry_is_ptr w then Some (Some (p\<lparr>p_ptr := w\<rparr>, e))
          else Option.bind (decode_entry k v e w p) (\<lambda>p.
            Option.bind (extent_entry_next_safe v e fin) (\<lambda>n. next_decode k v fin n p)))
      else Some None)"

declare next_decode.simps [code]

text \<open>The first decoded pointer with a property, and where its entry is.\<close>

partial_function (option) find_decoded ::
    "(extent_ptr_decoded \<Rightarrow> bool option) \<Rightarrow> bkey \<Rightarrow> u64 list \<Rightarrow> nat \<Rightarrow> nat \<Rightarrow> bch_extent_crc_unpacked \<Rightarrow> (extent_ptr_decoded \<times> nat) option option" where
  "find_decoded P k v fin e crc =
     (if e < fin then
        Option.bind (next_decode k v fin e (decoded_default crc)) (\<lambda>r.
          case r of None \<Rightarrow> Some None
          | Some (p, e) \<Rightarrow>
              Option.bind (P p) (\<lambda>r.
                if r then Some (Some (p, e))
                else Option.bind (extent_entry_next_safe v e fin) (\<lambda>n. find_decoded P k v fin n (p_crc p))))
      else Some None)"

declare find_decoded.simps [code]

partial_function (option) fold_decoded ::
    "(extent_ptr_decoded \<Rightarrow> 's \<Rightarrow> 's option) \<Rightarrow> bkey \<Rightarrow> u64 list \<Rightarrow> nat \<Rightarrow> nat \<Rightarrow> bch_extent_crc_unpacked \<Rightarrow> 's \<Rightarrow> 's option" where
  "fold_decoded f k v fin e crc s =
     (if e < fin then
        Option.bind (next_decode k v fin e (decoded_default crc)) (\<lambda>r.
          case r of None \<Rightarrow> Some s
          | Some (p, e) \<Rightarrow>
              Option.bind (f p s) (\<lambda>s.
                Option.bind (extent_entry_next_safe v e fin) (\<lambda>n. fold_decoded f k v fin n (p_crc p) s)))
      else Some s)"

declare fold_decoded.simps [code]

text \<open>A loop over the entries, or over the decoded pointers, of a key, with the value for a key that has none.\<close>

definition entries_of :: "bkey \<Rightarrow> u64 list \<Rightarrow> 'r \<Rightarrow> (nat \<Rightarrow> nat \<Rightarrow> 'r option) \<Rightarrow> 'r option" where
  "entries_of k v none f = do { ptrs \<leftarrow> bch2_bkey_ptrs k v; case ptrs of None \<Rightarrow> Some none | Some (s, e) \<Rightarrow> f s e }"

section \<open>Questions\<close>

definition bch2_bkey_has_device_c :: "bkey \<Rightarrow> u64 list \<Rightarrow> u32 \<Rightarrow> nat option option" where
  "bch2_bkey_has_device_c k v dev =
     entries_of k v None (\<lambda>s fin. find_entry (\<lambda>_ w. Some (extent_entry_is_ptr w \<and> ucast (BCH_EXTENT_PTR_DEV w) = dev)) v fin s)"

definition bch2_bkey_has_device_decode :: "bkey \<Rightarrow> u64 list \<Rightarrow> u32 \<Rightarrow> extent_ptr_decoded option option" where
  "bch2_bkey_has_device_decode k v dev =
     entries_of k v None (\<lambda>s fin.
       map_option (map_option fst) (find_decoded (\<lambda>p. Some (ucast (BCH_EXTENT_PTR_DEV (p_ptr p)) = dev)) k v fin s (extent_crc_none k)))"

partial_function (option) dev_ptr_bit_loop :: "u64 list \<Rightarrow> u32 \<Rightarrow> nat \<Rightarrow> nat \<Rightarrow> u32 \<Rightarrow> u32 option" where
  "dev_ptr_bit_loop v dev fin e ptr_bit =
     (if e < fin then
        Option.bind (nth_opt v e) (\<lambda>w.
          if extent_entry_is_ptr w \<and> ucast (BCH_EXTENT_PTR_DEV w) = dev then Some ptr_bit
          else Option.bind (extent_entry_next_safe v e fin) (\<lambda>n.
            dev_ptr_bit_loop v dev fin n (if extent_entry_is_ptr w then push_bit 1 ptr_bit else ptr_bit)))
      else Some 0)"

declare dev_ptr_bit_loop.simps [code]

definition bch2_bkey_dev_ptr_bit :: "bkey \<Rightarrow> u64 list \<Rightarrow> u32 \<Rightarrow> u32 option" where
  "bch2_bkey_dev_ptr_bit k v dev = entries_of k v 0 (\<lambda>s fin. dev_ptr_bit_loop v dev fin s 1)"

definition bch2_bkey_devs :: "bkey \<Rightarrow> u64 list \<Rightarrow> u8 list option" where
  "bch2_bkey_devs k v =
     entries_of k v [] (\<lambda>s fin. fold_entries (\<lambda>_ w ret.
       if extent_entry_is_ptr w \<and> BCH_EXTENT_PTR_DEV w \<noteq> BCH_SB_MEMBER_INVALID
       then do { require (length ret < 16); Some (ret @ [ucast (BCH_EXTENT_PTR_DEV w)]) } else Some ret) v fin s [])"

definition disk_offset :: "bkey \<Rightarrow> extent_ptr_decoded \<Rightarrow> int" where
  "disk_offset k p = uint (BCH_EXTENT_PTR_OFFSET (p_ptr p)) + uint (crc_offset (p_crc p)) - uint (bkey_start_offset k)"

definition bch2_bkey_ptrs_match :: "bkey \<Rightarrow> extent_ptr_decoded \<Rightarrow> bkey \<Rightarrow> extent_ptr_decoded \<Rightarrow> bool" where
  "bch2_bkey_ptrs_match k1 p1 k2 p2 =
     (let idx = \<lambda>p. drop_bit 17 (p_ec p) AND mask 47;
          block = \<lambda>p. drop_bit 5 (p_ec p) AND 0xff;
          off = \<lambda>p. unat (BCH_EXTENT_PTR_OFFSET (p_ptr p));
          size = \<lambda>p. unat (crc_compressed_size (p_crc p))
      in (BCH_EXTENT_PTR_DEV (p_ptr p1) = BCH_EXTENT_PTR_DEV (p_ptr p2) \<or>
            p_has_ec p1 \<and> p_has_ec p2 \<and> idx p1 = idx p2 \<and> block p1 = block p2) \<and>
         BCH_EXTENT_PTR_GEN (p_ptr p1) = BCH_EXTENT_PTR_GEN (p_ptr p2) \<and>
         disk_offset k1 p1 = disk_offset k2 p2 \<and>
         (off p1 \<ge> off p2 \<and> off p1 < off p2 + size p2 \<or> off p2 \<ge> off p1 \<and> off p2 < off p1 + size p1))"

definition bkey_extent_is_unwritten :: "bkey \<Rightarrow> u64 list \<Rightarrow> bool option" where
  "bkey_extent_is_unwritten k v =
     entries_of k v False (\<lambda>s fin.
       map_option (\<lambda>r. r \<noteq> None) (find_entry (\<lambda>_ w. Some (extent_entry_is_ptr w \<and> BCH_EXTENT_PTR_UNWRITTEN w \<noteq> 0)) v fin s))"

definition bkey_extent_is_direct_data :: "bkey \<Rightarrow> bool" where
  "bkey_extent_is_direct_data k \<longleftrightarrow>
     k_type k = KEY_TYPE_btree_ptr \<or> k_type k = KEY_TYPE_btree_ptr_v2 \<or> k_type k = KEY_TYPE_extent \<or> k_type k = KEY_TYPE_reflink_v"

text \<open>The two loops of \<^verbatim>\<open>bch2_extents_match\<close>: the outer one over the pointers of the first key, the inner one over the second's.\<close>

definition decoded_match :: "bkey \<Rightarrow> extent_ptr_decoded \<Rightarrow> bkey \<Rightarrow> u64 list \<Rightarrow> bool option" where
  "decoded_match k1 p1 k2 v2 =
     entries_of k2 v2 False (\<lambda>s fin.
       map_option (\<lambda>r. r \<noteq> None) (find_decoded (\<lambda>p2. Some (bch2_bkey_ptrs_match k1 p1 k2 p2)) k2 v2 fin s (extent_crc_none k2)))"

definition bch2_extents_match :: "bkey \<Rightarrow> u64 list \<Rightarrow> bkey \<Rightarrow> u64 list \<Rightarrow> bool option" where
  "bch2_extents_match k1 v1 k2 v2 =
     (if k_type k1 \<noteq> k_type k2 then Some False
      else if bkey_extent_is_direct_data k1 then
        do { u1 \<leftarrow> bkey_extent_is_unwritten k1 v1; u2 \<leftarrow> bkey_extent_is_unwritten k2 v2;
             if u1 \<noteq> u2 then Some False
             else entries_of k1 v1 False (\<lambda>s fin.
               map_option (\<lambda>r. r \<noteq> None) (find_decoded (\<lambda>p1. decoded_match k1 p1 k2 v2) k1 v1 fin s (extent_crc_none k1))) }
      else Some True)"

definition bch2_extent_has_ptr :: "bkey \<Rightarrow> extent_ptr_decoded \<Rightarrow> bkey \<Rightarrow> u64 list \<Rightarrow> nat option option" where
  "bch2_extent_has_ptr k1 p1 k2 v2 =
     entries_of k2 v2 None (\<lambda>s fin.
       map_option (map_option snd) (find_decoded (\<lambda>p2. Some (
         BCH_EXTENT_PTR_DEV (p_ptr p1) = BCH_EXTENT_PTR_DEV (p_ptr p2) \<and>
         BCH_EXTENT_PTR_GEN (p_ptr p1) = BCH_EXTENT_PTR_GEN (p_ptr p2) \<and>
         disk_offset k1 p1 = disk_offset k2 p2)) k2 v2 fin s (extent_crc_none k2)))"

definition bch2_bkey_matches_ptr :: "bkey \<Rightarrow> u64 list \<Rightarrow> u64 \<Rightarrow> u64 \<Rightarrow> bool option" where
  "bch2_bkey_matches_ptr k v m off =
     entries_of k v False (\<lambda>s fin.
       map_option (\<lambda>r. r \<noteq> None) (find_decoded (\<lambda>p. Some (
         BCH_EXTENT_PTR_DEV (p_ptr p) = BCH_EXTENT_PTR_DEV m \<and> BCH_EXTENT_PTR_GEN (p_ptr p) = BCH_EXTENT_PTR_GEN m \<and>
         disk_offset k p = uint (BCH_EXTENT_PTR_OFFSET m) - uint off)) k v fin s (extent_crc_none k)))"

definition bch2_bkey_replicas :: "bkey \<Rightarrow> u64 list \<Rightarrow> u32 option" where
  "bch2_bkey_replicas k v =
     entries_of k v 0 (\<lambda>s fin. fold_decoded (\<lambda>p replicas.
       if BCH_EXTENT_PTR_CACHED (p_ptr p) = 0
       then do { r \<leftarrow> (if p_has_ec p then checked_add replicas (ucast (drop_bit 13 (p_ec p)) AND 0xf) else Some replicas); checked_add r 1 }
       else Some replicas) k v fin s (extent_crc_none k) 0)"

text \<open>The loops that follow the checksum entries without decoding.\<close>

definition crc_step :: "bkey \<Rightarrow> u64 list \<Rightarrow> (bch_extent_crc_unpacked \<Rightarrow> u64 \<Rightarrow> u32 \<Rightarrow> u32 option) \<Rightarrow> nat \<Rightarrow> u64 \<Rightarrow>
    bch_extent_crc_unpacked \<times> u32 \<Rightarrow> (bch_extent_crc_unpacked \<times> u32) option" where
  "crc_step k v f e w s =
     (let (crc, ret) = s in
      if extent_entry_is_crc w then map_option (\<lambda>crc. (crc, ret)) (bch2_extent_crc_unpack k v (Some e))
      else if extent_entry_is_ptr w then map_option (Pair crc) (f crc w ret)
      else Some s)"

definition bch2_bkey_sectors_compressed :: "bkey \<Rightarrow> u64 list \<Rightarrow> u32 option" where
  "bch2_bkey_sectors_compressed k v =
     entries_of k v 0 (\<lambda>s fin. map_option snd (fold_entries (crc_step k v (\<lambda>crc w ret.
       Some (if BCH_EXTENT_PTR_CACHED w = 0 \<and> crc_is_compressed crc then ret + crc_compressed_size crc else ret)))
       v fin s (extent_crc_none k, 0)))"

definition bch2_bkey_nr_dirty_ptrs :: "bkey \<Rightarrow> u64 list \<Rightarrow> u32 option" where
  "bch2_bkey_nr_dirty_ptrs k v =
     entries_of k v 0 (\<lambda>s fin. fold_entries (\<lambda>_ w ret.
       if extent_entry_is_ptr w \<and> BCH_EXTENT_PTR_CACHED w = 0 \<and> BCH_EXTENT_PTR_DEV w \<noteq> BCH_SB_MEMBER_INVALID
       then checked_add ret 1 else Some ret) v fin s 0)"

definition bch2_bkey_nr_ptrs_allocated :: "bkey \<Rightarrow> u64 list \<Rightarrow> u32 option" where
  "bch2_bkey_nr_ptrs_allocated k v =
     (if k_type k = KEY_TYPE_reservation then do { w \<leftarrow> nth_opt v 0; Some (field w 32 8) }
      else entries_of k v 0 (\<lambda>s fin. fold_entries (\<lambda>_ w ret.
        if extent_entry_is_ptr w \<and> BCH_EXTENT_PTR_CACHED w = 0 then checked_add ret 1 else Some ret) v fin s 0))"

definition bch2_bkey_nr_ptrs_fully_allocated :: "bkey \<Rightarrow> u64 list \<Rightarrow> u32 option" where
  "bch2_bkey_nr_ptrs_fully_allocated k v =
     (if k_type k = KEY_TYPE_reservation then do { w \<leftarrow> nth_opt v 0; Some (field w 32 8) }
      else entries_of k v 0 (\<lambda>s fin. map_option snd (fold_entries (crc_step k v (\<lambda>crc w ret.
        if BCH_EXTENT_PTR_CACHED w = 0 \<and> \<not> crc_is_compressed crc then checked_add ret 1 else Some ret))
        v fin s (extent_crc_none k, 0))))"

definition bch2_bkey_is_incompressible :: "bkey \<Rightarrow> u64 list \<Rightarrow> bool option" where
  "bch2_bkey_is_incompressible k v =
     entries_of k v False (\<lambda>s fin. map_option (\<lambda>r. r \<noteq> None) (find_entry (\<lambda>e w.
       if extent_entry_is_crc w then
         do { crc \<leftarrow> bch2_extent_crc_unpack k v (Some e); Some (crc_compression_type crc = BCH_COMPRESSION_TYPE_incompressible) }
       else Some False) v fin s))"

definition bch2_bkey_can_read :: "bkey \<Rightarrow> u64 list \<Rightarrow> bool option" where
  "bch2_bkey_can_read k v =
     entries_of k v False (\<lambda>s fin.
       map_option (\<lambda>r. r \<noteq> None) (find_decoded (\<lambda>p. Some (
         BCH_EXTENT_PTR_CACHED (p_ptr p) = 0 \<and> (ucast (BCH_EXTENT_PTR_DEV (p_ptr p)) \<noteq> (ucast BCH_SB_MEMBER_INVALID :: u32) \<or> p_has_ec p)))
         k v fin s (extent_crc_none k)))"

definition bch2_bkey_extent_ptrs_flags :: "u64 list \<Rightarrow> (nat \<times> nat) option \<Rightarrow> u64 option" where
  "bch2_bkey_extent_ptrs_flags v ptrs =
     (case ptrs of None \<Rightarrow> Some 0
      | Some (s, fin) \<Rightarrow>
          if s \<noteq> fin then do { w \<leftarrow> nth_opt v s; Some (if extent_entry_type w = 6 then drop_bit 7 w else 0) } else Some 0)"

definition bch2_bkey_extent_flags :: "bkey \<Rightarrow> u64 list \<Rightarrow> u64 option" where
  "bch2_bkey_extent_flags k v = do { ptrs \<leftarrow> bch2_bkey_ptrs k v; bch2_bkey_extent_ptrs_flags v ptrs }"

section \<open>Inserting and dropping entries\<close>

text \<open>Moving \<open>n\<close> words within the value.\<close>

definition move_words :: "u64 list \<Rightarrow> nat \<Rightarrow> nat \<Rightarrow> nat \<Rightarrow> u64 list option" where
  "move_words v src dst n =
     do { require (src + n \<le> length v \<and> dst + n \<le> length v);
          Some (take dst v @ take n (drop src v) @ drop (dst + n) v) }"

definition raw_extent_entry_insert :: "bkey \<Rightarrow> u64 list \<Rightarrow> nat \<Rightarrow> u64 list \<Rightarrow> (bkey \<times> u64 list) option" where
  "raw_extent_entry_insert k v dst new =
     do { new_u64s \<leftarrow> extent_entry_u64s new 0;
          let fin = unat (bkey_val_u64s k);
          require (dst \<le> fin);
          v \<leftarrow> move_words v dst (dst + new_u64s) (fin - dst);
          require (new_u64s \<le> length new \<and> dst + new_u64s \<le> length v);
          Some (k\<lparr>k_u64s := k_u64s k + of_nat new_u64s\<rparr>, take dst v @ take new_u64s new @ drop (dst + new_u64s) v) }"

definition extent_entry_drop :: "bkey \<Rightarrow> u64 list \<Rightarrow> nat \<Rightarrow> (bkey \<times> u64 list) option" where
  "extent_entry_drop k v e =
     do { n \<leftarrow> extent_entry_next v e;
          require (k_type k \<noteq> KEY_TYPE_stripe);
          let fin = unat (bkey_val_u64s k);
          require (n \<le> fin);
          v \<leftarrow> move_words v n e (fin - n);
          Some (k\<lparr>k_u64s := k_u64s k - of_nat (n - e)\<rparr>, v) }"

text \<open>This one reads the length of the entry after the words behind it have moved over it.\<close>

definition bch2_bkey_extent_entry_drop :: "bkey \<Rightarrow> u64 list \<Rightarrow> nat \<Rightarrow> (bkey \<times> u64 list) option" where
  "bch2_bkey_extent_entry_drop k v e =
     do { let fin = unat (bkey_val_u64s k);
          n \<leftarrow> extent_entry_next v e;
          require (n \<le> fin);
          v \<leftarrow> move_words v n e (fin - n);
          d \<leftarrow> extent_entry_u64s v e;
          Some (k\<lparr>k_u64s := k_u64s k - of_nat d\<rparr>, v) }"

definition bch2_bkey_append_ptr :: "bkey \<Rightarrow> u64 list \<Rightarrow> u64 \<Rightarrow> (bkey \<times> u64 list) option" where
  "bch2_bkey_append_ptr k v ptr =
     do { require (k_type k = KEY_TYPE_btree_ptr_v2);
          v \<leftarrow> upd_opt v (unat (bkey_val_u64s k)) (SET_BCH_EXTENT_PTR_TYPE ptr 1);
          n \<leftarrow> checked_add (k_u64s k) 1;
          Some (k\<lparr>k_u64s := n\<rparr>, v) }"

definition crc_append_type :: "bch_extent_crc_unpacked \<Rightarrow> nat option" where
  "crc_append_type new =
     do { bytes \<leftarrow> nth_opt bch_crc_bytes (unat (crc_csum_type new));
          if bytes \<le> 4 \<and> crc_uncompressed_size new \<le> CRC32_SIZE_MAX \<and> crc_nonce new \<le> CRC32_NONCE_MAX then Some BCH_EXTENT_ENTRY_crc32
          else if bytes \<le> 10 \<and> crc_uncompressed_size new \<le> CRC64_SIZE_MAX \<and> crc_nonce new \<le> CRC64_NONCE_MAX then Some BCH_EXTENT_ENTRY_crc64
          else if bytes \<le> 16 \<and> crc_uncompressed_size new \<le> CRC128_SIZE_MAX \<and> crc_nonce new \<le> CRC128_NONCE_MAX then Some BCH_EXTENT_ENTRY_crc128
          else None }"

text \<open>The entry is written behind the last one; a key whose type has no entries has no place for it.\<close>

definition bch2_extent_crc_append :: "bkey \<Rightarrow> u64 list \<Rightarrow> bch_extent_crc_unpacked \<Rightarrow> (bkey \<times> u64 list) option" where
  "bch2_extent_crc_append k v new =
     do { ptrs \<leftarrow> bch2_bkey_ptrs k v;
          ty \<leftarrow> crc_append_type new;
          (s, fin) \<leftarrow> ptrs;
          v \<leftarrow> bch2_extent_crc_pack v fin new ty;
          n \<leftarrow> extent_entry_u64s v fin;
          let k = k\<lparr>k_u64s := k_u64s k + of_nat n\<rparr>;
          require (unat (bkey_val_u64s k) \<le> BKEY_EXTENT_VAL_U64S_MAX);
          Some (k, v) }"

definition bkey_find_crc :: "bkey \<Rightarrow> u64 list \<Rightarrow> bch_extent_crc_unpacked \<Rightarrow> nat option option" where
  "bkey_find_crc k v crc =
     entries_of k v None (\<lambda>s fin. find_entry (\<lambda>e w.
       if extent_entry_is_crc w then map_option (\<lambda>c. \<not> bch2_crc_unpacked_cmp crc c) (bch2_extent_crc_unpack k v (Some e))
       else Some False) v fin s)"

text \<open>The pointers of a narrowed checksum entry move by the offset that the entry loses.\<close>

partial_function (option) narrow_ptrs :: "u64 list \<Rightarrow> u16 \<Rightarrow> nat \<Rightarrow> nat \<Rightarrow> u64 list option" where
  "narrow_ptrs v off fin e =
     (if e < fin then
        Option.bind (nth_opt v e) (\<lambda>w.
          if extent_entry_is_crc w then Some v
          else let v = (if extent_entry_is_ptr w then v[e := SET_BCH_EXTENT_PTR_OFFSET w (BCH_EXTENT_PTR_OFFSET w + ucast off)] else v)
               in Option.bind (extent_entry_next_safe v e fin) (narrow_ptrs v off fin))
      else Some v)"

declare narrow_ptrs.simps [code]

definition bch2_bkey_narrow_crc :: "bkey \<Rightarrow> u64 list \<Rightarrow> bch_extent_crc_unpacked \<Rightarrow> bch_extent_crc_unpacked \<Rightarrow> (bool \<times> u64 list) option" where
  "bch2_bkey_narrow_crc k v old new =
     do { require (\<not> crc_is_compressed new);
          require (crc_offset new = 0);
          require (crc_uncompressed_size new = crc_live_size new);
          old_e \<leftarrow> bkey_find_crc k v old;
          case old_e of None \<Rightarrow> Some (False, v)
          | Some e \<Rightarrow>
              do { ptrs \<leftarrow> bch2_bkey_ptrs k v;
                   (s, fin) \<leftarrow> ptrs;
                   n \<leftarrow> extent_entry_next v e;
                   v \<leftarrow> narrow_ptrs v (crc_offset old) fin n;
                   w \<leftarrow> nth_opt v e;
                   v \<leftarrow> bch2_extent_crc_pack v e new (extent_entry_type w);
                   Some (True, v) } }"

text \<open>The generation is the low half of the first word of a reservation, the number of replicas the byte after it.\<close>

definition bch2_reservation_merge :: "bkey \<Rightarrow> u64 list \<Rightarrow> bkey \<Rightarrow> u64 list \<Rightarrow> (bool \<times> bkey) option" where
  "bch2_reservation_merge l lv r rv =
     do { lw \<leftarrow> nth_opt lv 0; rw \<leftarrow> nth_opt rv 0;
          Some (if (field lw 0 32 :: u32) \<noteq> field rw 0 32 \<or> (field lw 32 8 :: u8) \<noteq> field rw 32 8 then (False, l)
                else (True, bch2_key_resize l (k_size l + k_size r))) }"

definition bch2_extent_ptr_decoded_append :: "bkey \<Rightarrow> u64 list \<Rightarrow> extent_ptr_decoded \<Rightarrow> (bkey \<times> u64 list \<times> extent_ptr_decoded) option" where
  "bch2_extent_ptr_decoded_append k v p =
     do { (k, v, pos) \<leftarrow>
            (if \<not> bch2_crc_unpacked_cmp (extent_crc_none k) (p_crc p)
             then do { ptrs \<leftarrow> bch2_bkey_ptrs k v; (s, _) \<leftarrow> ptrs; Some (k, v, s) }
             else do { pos \<leftarrow> bkey_find_crc k v (p_crc p);
                       case pos of Some e \<Rightarrow> do { n \<leftarrow> extent_entry_next v e; Some (k, v, n) }
                       | None \<Rightarrow> do { (k, v) \<leftarrow> bch2_extent_crc_append k v (p_crc p); Some (k, v, unat (bkey_val_u64s k)) } });
          let p = p\<lparr>p_ptr := SET_BCH_EXTENT_PTR_TYPE (p_ptr p) 1\<rparr>;
          (k, v) \<leftarrow> raw_extent_entry_insert k v pos [p_ptr p];
          if p_has_ec p then
            do { let p = p\<lparr>p_ec := push_bit BCH_EXTENT_ENTRY_stripe_ptr 1\<rparr>;
                 (k, v) \<leftarrow> raw_extent_entry_insert k v pos [p_ec p];
                 Some (k, v, p) }
          else Some (k, v, p) }"

partial_function (option) entry_prev_loop :: "u64 list \<Rightarrow> nat \<Rightarrow> nat \<Rightarrow> nat option" where
  "entry_prev_loop v e i =
     Option.bind (extent_entry_next v i) (\<lambda>n. if n \<noteq> e then entry_prev_loop v e n else Some i)"

declare entry_prev_loop.simps [code]

definition extent_entry_prev :: "u64 list \<Rightarrow> nat \<Rightarrow> nat \<Rightarrow> nat option option" where
  "extent_entry_prev v s e = (if s = e then Some None else map_option Some (entry_prev_loop v e s))"

text \<open>Whether no other pointer uses the checksum entry of the dropped one from here on.\<close>

partial_function (option) drop_crc_scan :: "u64 list \<Rightarrow> nat \<Rightarrow> nat \<Rightarrow> bool option" where
  "drop_crc_scan v fin n =
     (if n \<noteq> fin then
        Option.bind (nth_opt v n) (\<lambda>w.
          if extent_entry_is_crc w then Some True
          else if extent_entry_is_ptr w then Some False
          else Option.bind (extent_entry_next v n) (drop_crc_scan v fin))
      else Some True)"

declare drop_crc_scan.simps [code]

partial_function (option) drop_before :: "bkey \<Rightarrow> u64 list \<Rightarrow> nat \<Rightarrow> bool \<Rightarrow> nat option \<Rightarrow> (bkey \<times> u64 list) option" where
  "drop_before k v s drop_crc e =
     (case e of None \<Rightarrow> Some (k, v)
      | Some e \<Rightarrow>
          Option.bind (nth_opt v e) (\<lambda>w.
            if extent_entry_is_ptr w then Some (k, v)
            else Option.bind
              (if extent_entry_is_crc w \<and> drop_crc \<or> extent_entry_is_stripe_ptr w then extent_entry_drop k v e else Some (k, v)) (\<lambda>(k, v).
              Option.bind (extent_entry_prev v s e) (drop_before k v s drop_crc))))"

declare drop_before.simps [code]

definition bch2_bkey_drop_ptr_noerror :: "bkey \<Rightarrow> u64 list \<Rightarrow> nat \<Rightarrow> (bkey \<times> u64 list) option" where
  "bch2_bkey_drop_ptr_noerror k v ptr =
     do { ptrs \<leftarrow> bch2_bkey_ptrs k v;
          w \<leftarrow> nth_opt v ptr;
          if k_type k = KEY_TYPE_stripe then Some (k, v[ptr := SET_BCH_EXTENT_PTR_DEV w BCH_SB_MEMBER_INVALID])
          else do { (s, fin) \<leftarrow> ptrs;
                    require (s \<le> ptr \<and> ptr < fin);
                    require (BCH_EXTENT_PTR_TYPE w = 1);
                    n \<leftarrow> extent_entry_next v ptr;
                    drop_crc \<leftarrow> drop_crc_scan v fin n;
                    (k, v) \<leftarrow> extent_entry_drop k v ptr;
                    e \<leftarrow> extent_entry_prev v s ptr;
                    drop_before k v s drop_crc e } }"

definition bch2_bkey_drop_ptr :: "bkey \<Rightarrow> u64 list \<Rightarrow> nat \<Rightarrow> (bkey \<times> u64 list) option" where
  "bch2_bkey_drop_ptr k v ptr =
     do { w \<leftarrow> nth_opt v ptr;
          d \<leftarrow> (if k_type k \<noteq> KEY_TYPE_stripe then bch2_bkey_has_device_decode k v (ucast (BCH_EXTENT_PTR_DEV w)) else Some None);
          if (case d of Some p \<Rightarrow> p_has_ec p | None \<Rightarrow> False) then Some (k, v[ptr := SET_BCH_EXTENT_PTR_DEV w BCH_SB_MEMBER_INVALID])
          else bch2_bkey_drop_ptr_noerror k v ptr }"

text \<open>The pointer with a given index among the pointers of the key.\<close>

partial_function (option) nth_ptr :: "u64 list \<Rightarrow> nat \<Rightarrow> nat \<Rightarrow> nat \<Rightarrow> nat \<Rightarrow> nat option option" where
  "nth_ptr v fin which e index =
     (if e < fin then
        Option.bind (nth_opt v e) (\<lambda>w.
          if extent_entry_is_ptr w \<and> index = which then Some (Some e)
          else Option.bind (extent_entry_next_safe v e fin) (\<lambda>n.
            nth_ptr v fin which n (if extent_entry_is_ptr w then index + 1 else index)))
      else Some None)"

declare nth_ptr.simps [code]

partial_function (option) bch2_bkey_drop_ptrs_mask :: "bkey \<Rightarrow> u64 list \<Rightarrow> u32 \<Rightarrow> (bkey \<times> u64 list) option" where
  "bch2_bkey_drop_ptrs_mask k v ptrs =
     (if ptrs \<noteq> 0 then
        (let which = 31 - leading_zeros ptrs in
         Option.bind (entries_of k v None (\<lambda>s fin. nth_ptr v fin which s 0)) (\<lambda>e.
           Option.bind (case e of None \<Rightarrow> Some (k, v) | Some e \<Rightarrow> bch2_bkey_drop_ptr_noerror k v e) (\<lambda>(k, v).
             bch2_bkey_drop_ptrs_mask k v (ptrs XOR push_bit which 1))))
      else Some (k, v))"

declare bch2_bkey_drop_ptrs_mask.simps [code]

partial_function (option) bch2_bkey_drop_device_noerror :: "bkey \<Rightarrow> u64 list \<Rightarrow> u32 \<Rightarrow> (bkey \<times> u64 list) option" where
  "bch2_bkey_drop_device_noerror k v dev =
     Option.bind (bch2_bkey_has_device_c k v dev) (\<lambda>e.
       case e of None \<Rightarrow> Some (k, v)
       | Some e \<Rightarrow> Option.bind (bch2_bkey_drop_ptr_noerror k v e) (\<lambda>(k, v). bch2_bkey_drop_device_noerror k v dev))"

declare bch2_bkey_drop_device_noerror.simps [code]

partial_function (option) bch2_bkey_drop_device :: "bkey \<Rightarrow> u64 list \<Rightarrow> u32 \<Rightarrow> (bkey \<times> u64 list) option" where
  "bch2_bkey_drop_device k v dev =
     Option.bind (bch2_bkey_has_device_c k v dev) (\<lambda>e.
       case e of None \<Rightarrow> Some (k, v)
       | Some e \<Rightarrow> Option.bind (bch2_bkey_drop_ptr k v e) (\<lambda>(k, v). bch2_bkey_drop_device k v dev))"

declare bch2_bkey_drop_device.simps [code]

end
