(* ===== verification/Extent_Ptrs.thy ===== *)
theory Extent_Ptrs
  imports Extent_Ops
begin

text \<open>
  The pointers of an extent as a list of decoded pointers, and what the operations that drop pointers do to it: they remove the
  pointers they are told to and leave every other one with its own checksum and stripe entry.
\<close>

section \<open>Values that are a run of entries\<close>

text \<open>The entries of a run of words, \<open>None\<close> for a run that is not a sequence of whole entries of known types.\<close>

function split_entries :: "u64 list \<Rightarrow> u64 list list option" where
  "split_entries ws =
     (case ws of [] \<Rightarrow> Some []
      | w # _ \<Rightarrow>
          let n = extent_entry_u64s_known (extent_entry_type w) in
          if n = 0 \<or> length ws < n then None else map_option (Cons (take n ws)) (split_entries (drop n ws)))"
  by pat_completeness auto
termination by (relation "measure length") auto

declare split_entries.simps [simp del]

definition has_entries :: "bkey \<Rightarrow> bool" where
  "has_entries k \<longleftrightarrow>
     k_type k = KEY_TYPE_btree_ptr \<or> k_type k = KEY_TYPE_btree_ptr_v2 \<or> k_type k = KEY_TYPE_extent \<or> k_type k = KEY_TYPE_reflink_v"

definition ptrs_start :: "bkey \<Rightarrow> nat" where
  "ptrs_start k = (if k_type k = KEY_TYPE_btree_ptr_v2 then 5 else 0)"

definition extent_ok :: "bkey \<Rightarrow> u64 list \<Rightarrow> bool" where
  "extent_ok k v \<longleftrightarrow>
     has_entries k \<and> BKEY_U64S + ptrs_start k \<le> unat (k_u64s k) \<and> unat (k_u64s k) \<le> BKEY_U64S + length v \<and>
     split_entries (drop (ptrs_start k) (take (unat (k_u64s k) - BKEY_U64S) v)) \<noteq> None"

text \<open>The decoded pointers of a key, in order, by the loop of \<^verbatim>\<open>bch2_bkey_replicas\<close>.\<close>

definition decoded_ptrs :: "bkey \<Rightarrow> u64 list \<Rightarrow> extent_ptr_decoded list option" where
  "decoded_ptrs k v =
     entries_of k v [] (\<lambda>s fin. fold_decoded (\<lambda>p ps. Some (ps @ [p])) k v fin s (extent_crc_none k) [])"

definition entry_ok :: "u64 list \<Rightarrow> bool" where
  "entry_ok e \<longleftrightarrow> e \<noteq> [] \<and> extent_entry_type (hd e) < BCH_EXTENT_ENTRY_MAX \<and> length e = extent_entry_u64s_known (extent_entry_type (hd e))"

abbreviation "is_ptr e \<equiv> extent_entry_is_ptr (hd e)"
abbreviation "is_crc e \<equiv> extent_entry_is_crc (hd e)"
abbreviation "is_stripe e \<equiv> extent_entry_is_stripe_ptr (hd e)"

text \<open>The value \<open>v\<close> of the key \<open>k\<close> holds the entries \<open>es\<close> behind the words \<open>pre\<close>.\<close>

definition holds :: "bkey \<Rightarrow> u64 list \<Rightarrow> u64 list \<Rightarrow> u64 list list \<Rightarrow> bool" where
  "holds k v pre es \<longleftrightarrow>
     (\<exists>post. v = pre @ concat es @ post) \<and> list_all entry_ok es \<and> unat (k_u64s k) = BKEY_U64S + length (pre @ concat es)"

lemma u64s_known_pos: "0 < extent_entry_u64s_known ty \<longleftrightarrow> ty < BCH_EXTENT_ENTRY_MAX"
  by (auto simp: extent_entry_u64s_known_def code_consts)

lemma split_entries_Cons:
  "split_entries (w # ws) =
     (let n = extent_entry_u64s_known (extent_entry_type w) in
      if n = 0 \<or> length (w # ws) < n then None else map_option (Cons (take n (w # ws))) (split_entries (drop n (w # ws))))"
  by (subst split_entries.simps) simp

lemma split_entries_Nil [simp]: "split_entries [] = Some []"
  by (subst split_entries.simps) simp

lemma split_entries_sound: "split_entries ws = Some es \<Longrightarrow> ws = concat es \<and> list_all entry_ok es"
proof (induction ws arbitrary: es rule: split_entries.induct)
  case (1 ws)
  show ?case
  proof (cases ws)
    case (Cons w ws')
    let ?n = "extent_entry_u64s_known (extent_entry_type w)"
    from "1.prems" obtain es' where n: "?n \<noteq> 0" "?n \<le> length ws" and es: "es = take ?n ws # es'" "split_entries (drop ?n ws) = Some es'"
      unfolding Cons split_entries_Cons Let_def by (auto split: if_splits)
    have "drop ?n ws = concat es' \<and> list_all entry_ok es'" using "1.IH" [OF Cons refl _ es(2)] n by simp
    moreover have "entry_ok (take ?n ws)" using n Cons u64s_known_pos [of "extent_entry_type w"] by (auto simp: entry_ok_def hd_take)
    ultimately show ?thesis using es(1) by simp (metis append_take_drop_id)
  qed (use "1.prems" in simp)
qed

lemma split_entries_complete: "list_all entry_ok es \<Longrightarrow> split_entries (concat es) = Some es"
proof (induction es)
  case (Cons e es)
  then obtain w ws where w: "e = w # ws" by (cases e) (auto simp: entry_ok_def)
  then have n: "extent_entry_u64s_known (extent_entry_type w) = length e" using Cons.prems by (simp add: entry_ok_def)
  have "split_entries (e @ concat es) = map_option (Cons e) (split_entries (concat es))"
    using n unfolding w append_Cons split_entries_Cons by (simp add: Let_def)
  then show ?case using Cons by simp
qed simp

lemma split_entries_iff: "split_entries ws = Some es \<longleftrightarrow> ws = concat es \<and> list_all entry_ok es"
  using split_entries_sound split_entries_complete by blast

lemma extent_ok_iff: "extent_ok k v \<longleftrightarrow> has_entries k \<and> (\<exists>pre es. length pre = ptrs_start k \<and> holds k v pre es)"
proof
  assume a: "extent_ok k v"
  then obtain es where es: "split_entries (drop (ptrs_start k) (take (unat (k_u64s k) - BKEY_U64S) v)) = Some es"
    by (auto simp: extent_ok_def)
  let ?pre = "take (ptrs_start k) v" and ?n = "unat (k_u64s k) - BKEY_U64S"
  have "take ?n v = ?pre @ concat es" using es a unfolding split_entries_iff extent_ok_def
    by (metis (no_types, lifting) append_take_drop_id le_diff_conv2 add_leD1 add.commute min.absorb1 take_take)
  then have "v = ?pre @ concat es @ drop ?n v" "length ?pre = ptrs_start k" "length (?pre @ concat es) = ?n"
    using a by (metis append_assoc append_take_drop_id, auto simp: extent_ok_def dest: arg_cong [where f = length])
  then show "has_entries k \<and> (\<exists>pre es. length pre = ptrs_start k \<and> holds k v pre es)"
    using a es unfolding extent_ok_def holds_def split_entries_iff by (smt (verit, ccfv_threshold) le_add_diff_inverse add_leD1)
next
  assume "has_entries k \<and> (\<exists>pre es. length pre = ptrs_start k \<and> holds k v pre es)"
  then obtain pre es post where "has_entries k" "length pre = ptrs_start k" "v = pre @ concat es @ post" "list_all entry_ok es"
    "unat (k_u64s k) = BKEY_U64S + length (pre @ concat es)" by (auto simp: holds_def)
  moreover from this have "split_entries (drop (ptrs_start k) (take (unat (k_u64s k) - BKEY_U64S) v)) = Some es"
    by (simp add: split_entries_iff)
  ultimately show "extent_ok k v" by (simp add: extent_ok_def)
qed

section \<open>The loops over a run of entries\<close>

lemma entry_ok_pos: "entry_ok e \<Longrightarrow> 0 < length e"
  unfolding entry_ok_def by blast

lemma entry_okD:
  assumes "entry_ok e"
  shows "extent_entry_type (hd e) < BCH_EXTENT_ENTRY_MAX" "extent_entry_u64s_known (extent_entry_type (hd e)) = length e"
  using assms by (simp_all add: entry_ok_def)

lemma nth_entry: "entry_ok e \<Longrightarrow> nth_opt (pre @ e @ rest) (length pre) = Some (hd e)"
  by (cases e) (auto simp: entry_ok_def nth_append)

lemma next_entry: "entry_ok e \<Longrightarrow> extent_entry_next (pre @ e @ rest) (length pre) = Some (length pre + length e)"
  by (simp add: extent_entry_next_def extent_entry_u64s_def nth_entry entry_okD Let_def)

lemma next_safe_entry: "entry_ok e \<Longrightarrow> extent_entry_next_safe (pre @ e @ rest) (length pre) fin = Some (length pre + length e)"
  by (simp add: extent_entry_next_safe_def nth_entry next_entry entry_okD)

text \<open>What an entry says of the pointers after it.\<close>

definition entry_upd :: "bkey \<Rightarrow> u64 list \<Rightarrow> extent_ptr_decoded \<Rightarrow> extent_ptr_decoded" where
  "entry_upd k e p = the (decode_entry k e 0 (hd e) p)"

lemma unpack_shift:
  assumes "entry_ok e" "is_crc e"
  shows "bch2_extent_crc_unpack k (pre @ e @ rest) (Some (length pre)) = bch2_extent_crc_unpack k e (Some 0)"
    "bch2_extent_crc_unpack k e (Some 0) \<noteq> None"
proof -
  have n: "nth_opt (pre @ e @ rest) (length pre + i) = nth_opt e i" if "i < length e" for i
    using that by (simp add: nth_opt_def nth_append)
  have h: "nth_opt e 0 = Some (hd e)" using nth_entry [OF assms(1), of "[]" "[]"] by simp
  have t: "extent_entry_type (hd e) = 1 \<and> length e = 1 \<or> extent_entry_type (hd e) = 2 \<and> length e = 2 \<or>
      extent_entry_type (hd e) = 3 \<and> length e = 3"
    using assms by (auto simp: entry_ok_def extent_entry_is_crc_def extent_entry_u64s_known_def code_consts)
  show "bch2_extent_crc_unpack k (pre @ e @ rest) (Some (length pre)) = bch2_extent_crc_unpack k e (Some 0)"
    using t n [of 0] n [of 1] n [of 2] unfolding bch2_extent_crc_unpack_def option.case h
    by (elim disjE) (simp_all add: nth_entry [OF assms(1)] h code_consts Let_def numeral_2_eq_2)
  show "bch2_extent_crc_unpack k e (Some 0) \<noteq> None"
    using t unfolding bch2_extent_crc_unpack_def option.case h
    by (elim disjE) (simp_all add: code_consts Let_def nth_opt_in_range)
qed

lemma decode_entry_shift:
  assumes "entry_ok e"
  shows "decode_entry k (pre @ e @ rest) (length pre) (hd e) p = Some (entry_upd k e p)"
  using unpack_shift [OF assms] by (auto simp: decode_entry_def entry_upd_def)

fun decs :: "bkey \<Rightarrow> u64 list list \<Rightarrow> extent_ptr_decoded \<Rightarrow> extent_ptr_decoded list" where
  "decs k [] p = []"
| "decs k (e # es) p = (if is_ptr e then p\<lparr>p_ptr := hd e\<rparr> # decs k es (decoded_default (p_crc p)) else decs k es (entry_upd k e p))"

text \<open>What the loop knows when it has passed the entries.\<close>

fun after :: "bkey \<Rightarrow> u64 list list \<Rightarrow> extent_ptr_decoded \<Rightarrow> extent_ptr_decoded" where
  "after k [] p = p"
| "after k (e # es) p = after k es (if is_ptr e then decoded_default (p_crc p) else entry_upd k e p)"

lemma decs_append: "decs k (es @ es') p = decs k es p @ decs k es' (after k es p)"
  by (induction es arbitrary: p) auto

lemma after_append: "after k (es @ es') p = after k es' (after k es p)"
  by (induction es arbitrary: p) auto

fun foldM :: "('a \<Rightarrow> 's \<Rightarrow> 's option) \<Rightarrow> 'a list \<Rightarrow> 's \<Rightarrow> 's option" where
  "foldM f [] s = Some s"
| "foldM f (x # xs) s = Option.bind (f x s) (foldM f xs)"

lemma fold_decoded_step:
  assumes "list_all entry_ok es" "v = pre @ concat es @ post" "fin = length pre + length (concat es)"
  shows "Option.bind (next_decode k v fin (length pre) p) (\<lambda>r. case r of None \<Rightarrow> Some s
     | Some (p, e) \<Rightarrow> Option.bind (f p s) (\<lambda>s. Option.bind (extent_entry_next_safe v e fin) (\<lambda>n. fold_decoded f k v fin n (p_crc p) s))) =
     foldM f (decs k es p) s"
  using assms
proof (induction es arbitrary: pre p s)
  case Nil
  then show ?case by (simp add: next_decode.simps)
next
  case (Cons e es)
  have ok: "entry_ok e" and v: "v = pre @ e @ (concat es @ post)" using Cons.prems by simp_all
  have lt: "length pre < fin" using Cons.prems entry_ok_pos [OF ok] by simp
  have nx: "extent_entry_next_safe v (length pre) fin = Some (length (pre @ e))" using next_safe_entry [OF ok] v by simp
  note IH = Cons.IH [of "pre @ e"]
  show ?case
  proof (cases "is_ptr e")
    case True
    have "fold_decoded f k v fin (length (pre @ e)) crc s' = foldM f (decs k es (decoded_default crc)) s'" for crc s'
    proof (cases "es = []")
      case True
      then show ?thesis using Cons.prems by (simp add: fold_decoded.simps)
    next
      case False
      then have "length (pre @ e) < fin" using Cons.prems by (cases es) (auto dest: entry_ok_pos)
      then show ?thesis using IH [of "decoded_default crc" s'] Cons.prems by (subst fold_decoded.simps) simp
    qed
    moreover have "next_decode k v fin (length pre) p = Some (Some (p\<lparr>p_ptr := hd e\<rparr>, length pre))"
      using lt True unfolding v by (subst next_decode.simps) (simp add: nth_entry [OF ok])
    ultimately show ?thesis using True nx by simp
  next
    case False
    have "next_decode k v fin (length pre) p = next_decode k v fin (length (pre @ e)) (entry_upd k e p)"
      using lt False nx unfolding v by (subst next_decode.simps) (simp add: nth_entry [OF ok] decode_entry_shift [OF ok])
    moreover have "list_all entry_ok es" "v = (pre @ e) @ concat es @ post" "fin = length (pre @ e) + length (concat es)"
      using Cons.prems by simp_all
    ultimately show ?thesis using IH [of "entry_upd k e p" s] False unfolding decs.simps by (simp only: if_False)
  qed
qed

lemma ptrs_of:
  assumes "has_entries k" "length pre = ptrs_start k" "holds k v pre es"
  shows "bch2_bkey_ptrs k v = Some (Some (length pre, length pre + length (concat es)))"
    "unat (bkey_val_u64s k) = length pre + length (concat es)"
proof -
  let ?n = "length pre + length (concat es)"
  have u: "unat (k_u64s k) = 5 + (length pre + length (concat es))" using assms(3) by (simp add: holds_def BKEY_U64S_def)
  have "ucast (k_u64s k) = (of_nat (5 + (length pre + length (concat es))) :: u32)" by (metis u of_nat_unat)
  then have "bkey_val_u64s k = of_nat (length pre + length (concat es))" by (simp add: bkey_val_u64s_def BKEY_U64S_def)
  moreover have "unat (k_u64s k) < 2 ^ LENGTH(8)" by (rule unsigned_less)
  then have "length pre + length (concat es) < 2 ^ 8" using u by simp
  then have "unat (of_nat ?n :: u32) = ?n" by (intro unat_of_nat_small) simp
  ultimately show f: "unat (bkey_val_u64s k) = ?n" by metis
  show "bch2_bkey_ptrs k v = Some (Some (length pre, length pre + length (concat es)))"
    using assms(1,2) by (auto simp: bch2_bkey_ptrs_def f has_entries_def ptrs_start_def code_consts)
qed

lemma foldM_snoc: "foldM (\<lambda>p ps. Some (ps @ [p])) xs acc = Some (acc @ xs)"
  by (induction xs arbitrary: acc) auto

abbreviation "start_dec k \<equiv> decoded_default (extent_crc_none k)"

lemma fold_decoded_entries:
  assumes "list_all entry_ok es" "v = pre @ concat es @ post" "fin = length pre + length (concat es)"
  shows "fold_decoded f k v fin (length pre) crc s = foldM f (decs k es (decoded_default crc)) s"
proof (cases "es = []")
  case False
  then have "length pre < fin" using assms(1,3) by (cases es) (auto dest: entry_ok_pos)
  then show ?thesis using fold_decoded_step [OF assms, of k "decoded_default crc" s f] by (subst fold_decoded.simps) simp
qed (use assms in \<open>simp add: fold_decoded.simps\<close>)

lemma decoded_ptrs_entries:
  assumes "has_entries k" "length pre = ptrs_start k" "holds k v pre es"
  shows "decoded_ptrs k v = Some (decs k es (start_dec k))"
proof -
  from assms(3) obtain post where "list_all entry_ok es" "v = pre @ concat es @ post" by (auto simp: holds_def)
  from fold_decoded_entries [OF this refl, of "\<lambda>p ps. Some (ps @ [p])" k "extent_crc_none k" "[]"] show ?thesis
    unfolding decoded_ptrs_def entries_of_def ptrs_of(1) [OF assms] by (simp add: foldM_snoc)
qed

section \<open>Dropping an entry\<close>

text \<open>The key after its value has lost \<open>n\<close> words.\<close>

abbreviation "shrink k n \<equiv> k\<lparr>k_u64s := k_u64s k - of_nat n\<rparr>"

lemma unat_u64s_shrink: "n \<le> unat u \<Longrightarrow> unat ((u :: u8) - of_nat n) = unat u - n"
proof -
  assume n: "n \<le> unat u"
  then have "unat (of_nat n :: u8) = n" by (intro unat_of_nat_small) (rule le_less_trans [OF _ unsigned_less])
  then show ?thesis using n by (simp add: unat_sub word_le_nat_alt)
qed

lemma extent_entry_drop_entries:
  assumes "holds k v pre (es @ e # es')" "k_type k \<noteq> KEY_TYPE_stripe" "has_entries k" "length pre = ptrs_start k"
  shows "\<exists>v'. extent_entry_drop k v (length (pre @ concat es)) = Some (shrink k (length e), v') \<and>
     holds (shrink k (length e)) v' pre (es @ es')"
proof -
  from assms(1) obtain post where v: "v = pre @ concat es @ e @ concat es' @ post" and ok: "entry_ok e" "list_all entry_ok (es @ es')"
    and u: "unat (k_u64s k) = BKEY_U64S + length (pre @ concat (es @ e # es'))" by (auto simp: holds_def)
  let ?p = "pre @ concat es" and ?n = "length (pre @ concat es @ e)"
  have fin: "unat (bkey_val_u64s k) = length (?p @ e @ concat es')" using ptrs_of(2) [OF assms(3,4,1)] by simp
  have nx: "extent_entry_next v (length ?p) = Some ?n" using next_entry [OF ok(1), of ?p "concat es' @ post"] by (simp add: v)
  define v' where "v' = ?p @ concat es' @ drop (length (?p @ concat es')) v"
  have mv: "move_words v ?n (length ?p) (length (concat es')) = Some v'" by (simp add: move_words_def v v'_def)
  have "extent_entry_drop k v (length ?p) = Some (shrink k (length e), v')"
    using nx mv fin assms(2) unfolding extent_entry_drop_def by (simp add: Let_def)
  moreover have "unat (k_u64s k - of_nat (length e)) = BKEY_U64S + length (pre @ concat (es @ es'))"
    using u by (subst unat_u64s_shrink) simp_all
  then have "holds (shrink k (length e)) v' pre (es @ es')" using ok by (auto simp: holds_def v'_def)
  ultimately show ?thesis by blast
qed

lemma entry_prev_loop_entries:
  assumes "list_all entry_ok (es @ [x])" "v = pre @ concat (es @ [x]) @ rest"
  shows "entry_prev_loop v (length pre + length (concat (es @ [x]))) (length pre) = Some (length pre + length (concat es))"
  using assms
proof (induction es arbitrary: pre)
  case Nil
  then show ?case using next_entry [of x pre rest] by (subst entry_prev_loop.simps) simp
next
  case (Cons e es)
  let ?t = "length pre + length (concat ((e # es) @ [x]))"
  have ok: "entry_ok e" "0 < length x" using Cons.prems(1) entry_ok_pos by auto
  have "extent_entry_next v (length pre) = Some (length (pre @ e))"
    using next_entry [OF ok(1), of pre "concat (es @ [x]) @ rest"] Cons.prems(2) by simp
  moreover have "length (pre @ e) \<noteq> ?t" using ok(2) by simp
  ultimately have "entry_prev_loop v ?t (length pre) = entry_prev_loop v ?t (length (pre @ e))"
    by (subst entry_prev_loop.simps) (simp del: length_append)
  also have "\<dots> = Some (length (pre @ e) + length (concat es))"
    using Cons.IH [of "pre @ e"] Cons.prems by (simp add: add.assoc)
  finally show ?case by simp
qed

lemma extent_entry_prev_entries:
  assumes "list_all entry_ok es" "v = pre @ concat es @ rest"
  shows "extent_entry_prev v (length pre) (length (pre @ concat es)) =
     Some (if es = [] then None else Some (length (pre @ concat (butlast es))))"
proof (cases es rule: rev_cases)
  case Nil
  then show ?thesis by (simp add: extent_entry_prev_def)
next
  case (snoc es' x)
  then have "0 < length x" using assms(1) entry_ok_pos by auto
  then show ?thesis using entry_prev_loop_entries [of es' x v pre rest] assms unfolding snoc by (simp add: extent_entry_prev_def)
qed

text \<open>The entries that go with a dropped pointer: the stripe entries since the pointer before it, and the checksum entries there
  when no later pointer uses them.\<close>

definition goes :: "bool \<Rightarrow> u64 list \<Rightarrow> bool" where
  "goes drop_crc e \<longleftrightarrow> is_crc e \<and> drop_crc \<or> is_stripe e"

fun trim_rev :: "bool \<Rightarrow> u64 list list \<Rightarrow> u64 list list" where
  "trim_rev dc [] = []"
| "trim_rev dc (e # es) = (if is_ptr e then e # es else if goes dc e then trim_rev dc es else e # trim_rev dc es)"

definition trim :: "bool \<Rightarrow> u64 list list \<Rightarrow> u64 list list" where
  "trim dc es = rev (trim_rev dc (rev es))"

text \<open>A header that has only lost words of its value.\<close>

definition same_key :: "bkey \<Rightarrow> bkey \<Rightarrow> bool" where
  "same_key k k' \<longleftrightarrow> k' = k\<lparr>k_u64s := k_u64s k'\<rparr>"

lemma same_key_shrink [simp]: "same_key k (shrink k n)"
  by (simp add: same_key_def)

lemma same_key_refl [simp]: "same_key k k"
  by (simp add: same_key_def)

lemma same_key_trans: "same_key k k' \<Longrightarrow> same_key k' k'' \<Longrightarrow> same_key k k''"
  unfolding same_key_def by (cases k, cases k', cases k'') simp

lemma drop_before_entries:
  assumes "holds k v pre (es @ es')" "has_entries k" "length pre = ptrs_start k"
  shows "\<exists>k' v'. Option.bind (extent_entry_prev v (length pre) (length (pre @ concat es))) (drop_before k v (length pre) dc) = Some (k', v') \<and>
     same_key k k' \<and> holds k' v' pre (trim dc es @ es')"
  using assms
proof (induction es arbitrary: k v es' rule: rev_induct)
  case Nil
  then show ?case using extent_entry_prev_entries [of "[]" v pre v] by (simp add: drop_before.simps trim_def extent_entry_prev_def)
next
  case (snoc x es)
  from snoc.prems(1) obtain post where v: "v = (pre @ concat es) @ x @ (concat es' @ post)" and ok: "list_all entry_ok (es @ [x])"
    by (auto simp: holds_def)
  let ?e = "length (pre @ concat es)"
  have stripe: "k_type k \<noteq> KEY_TYPE_stripe" using snoc.prems(2) by (auto simp: has_entries_def code_consts)
  have prev: "extent_entry_prev v (length pre) (length (pre @ concat (es @ [x]))) = Some (Some ?e)"
    using extent_entry_prev_entries [OF ok, of v pre "concat es' @ post"] v by simp
  have hd: "nth_opt v ?e = Some (hd x)" unfolding v using ok by (intro nth_entry) simp
  consider (ptr) "is_ptr x" | (goes) "\<not> is_ptr x" "goes dc x" | (stays) "\<not> is_ptr x" "\<not> goes dc x" by blast
  then show ?case
  proof cases
    case ptr
    then have "drop_before k v (length pre) dc (Some ?e) = Some (k, v)" by (subst drop_before.simps) (simp add: hd del: length_append)
    then show ?thesis using prev ptr snoc.prems(1) by (simp add: trim_def del: length_append)
  next
    case goes
    obtain v' where d: "extent_entry_drop k v ?e = Some (shrink k (length x), v')" "holds (shrink k (length x)) v' pre (es @ es')"
      using extent_entry_drop_entries [of k v pre es x es'] snoc.prems stripe by auto
    have "drop_before k v (length pre) dc (Some ?e) =
      Option.bind (extent_entry_prev v' (length pre) ?e) (drop_before (shrink k (length x)) v' (length pre) dc)"
      using goes by (subst drop_before.simps) (simp add: hd d(1) goes_def del: length_append)
    moreover have "has_entries (shrink k (length x))" "length pre = ptrs_start (shrink k (length x))"
      using snoc.prems by (simp_all add: has_entries_def ptrs_start_def)
    ultimately show ?thesis using snoc.IH [OF d(2)] prev goes same_key_trans [OF same_key_shrink]
      by (fastforce simp: trim_def simp del: length_append)
  next
    case stays
    have "drop_before k v (length pre) dc (Some ?e) = Option.bind (extent_entry_prev v (length pre) ?e) (drop_before k v (length pre) dc)"
      using stays by (subst drop_before.simps) (auto simp: hd goes_def simp del: length_append)
    moreover have "holds k v pre (es @ x # es')" using snoc.prems(1) by simp
    ultimately show ?thesis using snoc.IH [of k v "x # es'"] snoc.prems(2,3) prev stays
      by (simp add: trim_def del: length_append)
  qed
qed

section \<open>Dropping a pointer\<close>

text \<open>Whether no pointer of the entries uses a checksum entry before them.\<close>

fun crc_free :: "u64 list list \<Rightarrow> bool" where
  "crc_free [] \<longleftrightarrow> True"
| "crc_free (e # es) \<longleftrightarrow> is_crc e \<or> \<not> is_ptr e \<and> crc_free es"

lemma drop_crc_scan_entries:
  assumes "list_all entry_ok es" "v = pre @ concat es @ post"
  shows "drop_crc_scan v (length pre + length (concat es)) (length pre) = Some (crc_free es)"
  using assms
proof (induction es arbitrary: pre)
  case Nil
  then show ?case by (simp add: drop_crc_scan.simps)
next
  case (Cons e es)
  have ok: "entry_ok e" and v: "v = pre @ e @ (concat es @ post)" using Cons.prems by simp_all
  let ?f = "length pre + length (concat (e # es))"
  have "length pre \<noteq> ?f" "nth_opt v (length pre) = Some (hd e)" "extent_entry_next v (length pre) = Some (length (pre @ e))"
    using entry_ok_pos [OF ok] nth_entry [OF ok] next_entry [OF ok] unfolding v by (simp, blast, simp)
  then have "drop_crc_scan v ?f (length pre) =
    (if is_crc e then Some True else if is_ptr e then Some False else drop_crc_scan v ?f (length (pre @ e)))"
    by (subst drop_crc_scan.simps) (simp del: length_append nth_opt_Some)
  then show ?case using Cons.IH [of "pre @ e"] Cons.prems by (simp add: add.assoc)
qed

lemma ptr_not_other: "is_ptr e \<Longrightarrow> \<not> is_crc e \<and> \<not> is_stripe e" "is_crc e \<Longrightarrow> \<not> is_stripe e"
  by (auto simp: extent_entry_is_ptr_def extent_entry_is_crc_def extent_entry_is_stripe_ptr_def code_consts)

lemma entry_upd_simps:
  "is_crc e \<Longrightarrow> entry_ok e \<Longrightarrow> entry_upd k e p = p\<lparr>p_crc := the (bch2_extent_crc_unpack k e (Some 0))\<rparr>"
  "is_stripe e \<Longrightarrow> entry_upd k e p = p\<lparr>p_ec := hd e, p_has_ec := True\<rparr>"
  "\<not> is_crc e \<Longrightarrow> \<not> is_stripe e \<Longrightarrow> entry_upd k e p = p"
  using unpack_shift(2) [of e k] ptr_not_other(2) [of e] by (auto simp: entry_upd_def decode_entry_def)

text \<open>Pointers that use no checksum entry before them do not depend on it.\<close>

lemma decs_crc_free:
  assumes "crc_free es" "list_all entry_ok es"
  shows "decs k es (p\<lparr>p_crc := c\<rparr>) = decs k es p"
  using assms
proof (induction es arbitrary: p)
  case (Cons e es)
  consider (crc) "is_crc e" | (stripe) "is_stripe e" "\<not> is_crc e" | (other) "\<not> is_crc e" "\<not> is_stripe e" by blast
  then show ?case
  proof cases
    case stripe
    then show ?thesis using Cons.IH [of "p\<lparr>p_ec := hd e, p_has_ec := True\<rparr>"] Cons.prems ptr_not_other(1) [of e]
      by (cases p) (auto simp: entry_upd_simps)
  qed (use Cons ptr_not_other(1) [of e] in \<open>auto simp: entry_upd_simps\<close>)
qed simp

text \<open>Entries that a pointer follows, without the pointer.\<close>

lemma after_unpointed:
  assumes "list_all (\<lambda>e. \<not> is_ptr e) es" "list_all entry_ok es" "p_crc p = c"
  shows "after k (filter (\<lambda>e. \<not> goes False e) es) (decoded_default c) = decoded_default (p_crc (after k es p))"
  using assms
proof (induction es arbitrary: p c)
  case Nil
  then show ?case by simp
next
  case (Cons e es)
  consider (crc) "is_crc e" | (stripe) "is_stripe e" "\<not> is_crc e" | (other) "\<not> is_crc e" "\<not> is_stripe e" by blast
  then show ?case
  proof cases
    case crc
    then have "entry_upd k e (decoded_default c) = decoded_default (p_crc (entry_upd k e p))"
      using Cons.prems by (simp add: entry_upd_simps decoded_default_def)
    then show ?thesis using crc Cons.IH [of "entry_upd k e p"] Cons.prems ptr_not_other by (simp add: goes_def)
  next
    case stripe
    then show ?thesis using Cons.IH [of "entry_upd k e p" c] Cons.prems by (simp add: goes_def entry_upd_simps)
  next
    case other
    then show ?thesis using Cons.IH [of p c] Cons.prems by (simp add: goes_def entry_upd_simps)
  qed
qed

lemma after_uncrc:
  assumes "list_all (\<lambda>e. \<not> is_ptr e \<and> \<not> goes True e) es"
  shows "after k es p = p"
  using assms by (induction es arbitrary: p) (auto simp: goes_def entry_upd_simps)

lemma trim_unpointed: "list_all (\<lambda>e. \<not> is_ptr e) es \<Longrightarrow> trim dc es = filter (\<lambda>e. \<not> goes dc e) es"
  unfolding trim_def by (induction es rule: rev_induct) auto

lemma trim_ptr: "is_ptr x \<Longrightarrow> trim dc (es @ x # es') = es @ x # trim dc es'"
  unfolding trim_def by (induction es' rule: rev_induct) auto

lemma decs_unpointed: "list_all (\<lambda>e. \<not> is_ptr e) es \<Longrightarrow> decs k es p = []"
  by (induction es arbitrary: p) auto

lemma filter_unpointed: "list_all P es \<Longrightarrow> list_all P (filter Q es)"
  by (auto simp: list_all_iff)

text \<open>Of a run of entries with one pointer at its end, dropping the pointer leaves the later pointers as they were.\<close>

lemma decs_drop_run:
  assumes "list_all (\<lambda>e. \<not> is_ptr e) b" "is_ptr x" "list_all entry_ok (b @ x # c)"
  shows "\<exists>p. decs k (b @ x # c) (decoded_default q) = p\<lparr>p_ptr := hd x\<rparr> # decs k (trim (crc_free c) b @ c) (decoded_default q)"
proof -
  let ?a = "after k b (decoded_default q)" and ?b = "filter (\<lambda>e. \<not> goes (crc_free c) e) b"
  have l: "decs k (b @ x # c) (decoded_default q) = ?a\<lparr>p_ptr := hd x\<rparr> # decs k c (decoded_default (p_crc ?a))"
    using assms(1,2) by (simp add: decs_append decs_unpointed)
  have r: "decs k (trim (crc_free c) b @ c) (decoded_default q) = decs k c (after k ?b (decoded_default q))"
    using assms(1) by (simp add: trim_unpointed decs_append decs_unpointed filter_unpointed)
  have "decs k c (after k ?b (decoded_default q)) = decs k c (decoded_default (p_crc ?a))"
  proof (cases "crc_free c")
    case True
    then have "list_all (\<lambda>e. \<not> is_ptr e \<and> \<not> goes True e) ?b" using assms(1) by (auto simp: list_all_iff)
    then have "after k ?b (decoded_default q) = decoded_default q" by (rule after_uncrc)
    moreover have "decoded_default q = (decoded_default (p_crc ?a))\<lparr>p_crc := q\<rparr>" by (simp add: decoded_default_def)
    moreover have "list_all entry_ok c" using assms(3) by simp
    ultimately show ?thesis using decs_crc_free [OF True] by metis
  next
    case False
    have "after k ?b (decoded_default q) = decoded_default (p_crc ?a)"
      using after_unpointed [of b "decoded_default q" q k] assms(1,3) False by (simp add: decoded_default_def)
    then show ?thesis by simp
  qed
  then show ?thesis using l r by metis
qed

lemma split_last_ptr: "\<exists>a b. es = a @ b \<and> list_all (\<lambda>e. \<not> is_ptr e) b \<and> (a = [] \<or> (\<exists>a' y. a = a' @ [y] \<and> is_ptr y))"
proof (induction es rule: rev_induct)
  case (snoc x es)
  then obtain a b where ab: "es = a @ b" "list_all (\<lambda>e. \<not> is_ptr e) b" "a = [] \<or> (\<exists>a' y. a = a' @ [y] \<and> is_ptr y)" by blast
  show ?case
  proof (cases "is_ptr x")
    case True
    then show ?thesis by (intro exI [of _ "es @ [x]"] exI [of _ "[]"]) simp
  next
    case False
    then show ?thesis using ab by (intro exI [of _ a] exI [of _ "b @ [x]"]) simp
  qed
qed simp

lemma decs_drop:
  assumes "is_ptr x" "list_all entry_ok (es @ x # es')"
  shows "\<exists>p ps. decs k (es @ x # es') (decoded_default q) = decs k es (decoded_default q) @ p\<lparr>p_ptr := hd x\<rparr> # ps \<and>
     decs k (trim (crc_free es') es @ es') (decoded_default q) = decs k es (decoded_default q) @ ps"
proof -
  obtain a b where ab: "es = a @ b" "list_all (\<lambda>e. \<not> is_ptr e) b" "a = [] \<or> (\<exists>a' y. a = a' @ [y] \<and> is_ptr y)"
    using split_last_ptr by blast
  obtain q' where q: "after k a (decoded_default q) = decoded_default q'" using ab(3) by (auto simp: after_append)
  obtain p where "decs k (b @ x # es') (decoded_default q') = p\<lparr>p_ptr := hd x\<rparr> # decs k (trim (crc_free es') b @ es') (decoded_default q')"
    using decs_drop_run [OF ab(2) assms(1), of es' k q'] assms(2) ab(1) by auto
  moreover have "trim (crc_free es') (a @ b) = a @ trim (crc_free es') b"
    using ab(3) by (auto simp: trim_ptr)
  ultimately show ?thesis using ab(2) q by (auto simp: ab(1) decs_append decs_unpointed)
qed

lemma is_ptr_type: "extent_entry_is_ptr w \<Longrightarrow> BCH_EXTENT_PTR_TYPE w = 1"
proof -
  assume "extent_entry_is_ptr w"
  then have w: "w \<noteq> 0" "trailing_zeros w = 0" by (auto simp: extent_entry_is_ptr_def extent_entry_type_def code_consts split: if_splits)
  have "odd (unat w)"
  proof (rule ccontr)
    assume "\<not> odd (unat w)"
    then have "unat w \<noteq> 0" "even (unat w)" using w by (auto simp: unsigned_eq_0_iff)
    then show False using w by (simp add: trailing_zeros_def low_zeros.simps [of "unat w"] split: if_splits)
  qed
  then have "odd w" by (metis bit_0 bit_unsigned_iff)
  then show ?thesis by (simp add: BCH_EXTENT_PTR_TYPE_def and_one_eq odd_iff_mod_2_eq_one)
qed

lemma drop_ptr_noerror_entries:
  assumes "holds k v pre (es @ x # es')" "is_ptr x" "has_entries k" "length pre = ptrs_start k"
  shows "\<exists>k' v'. bch2_bkey_drop_ptr_noerror k v (length (pre @ concat es)) = Some (k', v') \<and> same_key k k' \<and>
     holds k' v' pre (trim (crc_free es') es @ es')"
proof -
  from assms(1) obtain post where v: "v = (pre @ concat es) @ x @ (concat es' @ post)" and ok: "entry_ok x" "list_all entry_ok es'"
    by (auto simp: holds_def)
  let ?e = "length (pre @ concat es)" and ?fin = "length pre + length (concat (es @ x # es'))"
  have stripe: "k_type k \<noteq> KEY_TYPE_stripe" using assms(3) by (auto simp: has_entries_def code_consts)
  obtain v1 where d: "extent_entry_drop k v ?e = Some (shrink k (length x), v1)" and h: "holds (shrink k (length x)) v1 pre (es @ es')"
    using extent_entry_drop_entries [OF assms(1) stripe assms(3,4)] by blast
  have "has_entries (shrink k (length x))" "length pre = ptrs_start (shrink k (length x))"
    using assms(3,4) by (simp_all add: has_entries_def ptrs_start_def)
  then obtain k' v' where b: "Option.bind (extent_entry_prev v1 (length pre) ?e) (drop_before (shrink k (length x)) v1 (length pre) (crc_free es')) = Some (k', v')"
      "same_key (shrink k (length x)) k'" "holds k' v' pre (trim (crc_free es') es @ es')"
    using drop_before_entries [OF h] by blast
  have hd: "nth_opt v ?e = Some (hd x)" unfolding v by (rule nth_entry [OF ok(1)])
  have nx: "extent_entry_next v ?e = Some (?e + length x)" unfolding v by (rule next_entry [OF ok(1)])
  have sc: "drop_crc_scan v ?fin (?e + length x) = Some (crc_free es')"
    using drop_crc_scan_entries [OF ok(2), of v "pre @ concat es @ x" post] v by (simp add: add.assoc)
  have "length pre \<le> ?e \<and> ?e < ?fin" using entry_ok_pos [OF ok(1)] by simp
  then have "bch2_bkey_drop_ptr_noerror k v ?e = Some (k', v')"
    using stripe is_ptr_type [OF assms(2)] unfolding bch2_bkey_drop_ptr_noerror_def ptrs_of(1) [OF assms(3,4,1)]
    by (simp add: hd nx sc d b(1) del: length_append concat_append concat.simps)
  then show ?thesis using b(2,3) same_key_trans [OF same_key_shrink] by blast
qed

section \<open>Pointers by index and by device\<close>

lemma same_key_decs:
  assumes "same_key k k'"
  shows "decs k' es p = decs k es p" "extent_crc_none k' = extent_crc_none k" "has_entries k' = has_entries k" "ptrs_start k' = ptrs_start k"
proof -
  have s: "k_size k' = k_size k" "k_type k' = k_type k" using assms unfolding same_key_def by (cases k, cases k', simp)+
  have "bch2_extent_crc_unpack k' = bch2_extent_crc_unpack k"
    by (intro ext) (simp only: bch2_extent_crc_unpack_def extent_crc_none_def s)
  then have "entry_upd k' = entry_upd k" by (intro ext) (simp add: entry_upd_def decode_entry_def)
  then show "decs k' es p = decs k es p" by (induction es arbitrary: p) simp_all
  show "extent_crc_none k' = extent_crc_none k" "has_entries k' = has_entries k" "ptrs_start k' = ptrs_start k"
    by (simp_all add: extent_crc_none_def has_entries_def ptrs_start_def s)
qed

lemma find_entry_entries:
  assumes "list_all entry_ok es" "v = pre @ concat es @ post"
  shows "(\<exists>a x c. es = a @ x # c \<and> list_all (\<lambda>e. \<not> R (hd e)) a \<and> R (hd x) \<and>
            find_entry (\<lambda>_ w. Some (R w)) v (length pre + length (concat es)) (length pre) = Some (Some (length (pre @ concat a)))) \<or>
         list_all (\<lambda>e. \<not> R (hd e)) es \<and> find_entry (\<lambda>_ w. Some (R w)) v (length pre + length (concat es)) (length pre) = Some None"
    (is "?P pre es")
  using assms
proof (induction es arbitrary: pre)
  case Nil
  then show ?case by (simp add: find_entry.simps)
next
  case (Cons e es)
  have ok: "entry_ok e" and v: "v = pre @ e @ (concat es @ post)" using Cons.prems by simp_all
  let ?f = "length pre + length (concat (e # es))"
  have "length pre < ?f" using entry_ok_pos [OF ok] by simp
  moreover have "nth_opt v (length pre) = Some (hd e)" unfolding v by (rule nth_entry [OF ok])
  moreover have "extent_entry_next_safe v (length pre) ?f = Some (length (pre @ e))" using next_safe_entry [OF ok] unfolding v by simp
  ultimately have s: "find_entry (\<lambda>_ w. Some (R w)) v ?f (length pre) =
    (if R (hd e) then Some (Some (length pre)) else find_entry (\<lambda>_ w. Some (R w)) v ?f (length (pre @ e)))"
    by (subst find_entry.simps) (simp del: length_append nth_opt_Some)
  show ?case
  proof (cases "R (hd e)")
    case True
    then show ?thesis using s by (intro disjI1 exI [of _ "[]"] exI [of _ e] exI [of _ es]) simp
  next
    case False
    have "?P (pre @ e) es" using Cons.IH [of "pre @ e"] Cons.prems by simp
    moreover have f: "?f = length (pre @ e) + length (concat es)" by simp
    ultimately consider (some) a x c where "es = a @ x # c" "list_all (\<lambda>e. \<not> R (hd e)) a" "R (hd x)"
        "find_entry (\<lambda>_ w. Some (R w)) v ?f (length (pre @ e)) = Some (Some (length ((pre @ e) @ concat a)))"
      | (none) "list_all (\<lambda>e. \<not> R (hd e)) es" "find_entry (\<lambda>_ w. Some (R w)) v ?f (length (pre @ e)) = Some None"
      by (metis (no_types, lifting))
    then show ?thesis
    proof cases
      case some
      then show ?thesis using s False by (intro disjI1 exI [of _ "e # a"] exI [of _ x] exI [of _ c]) simp
    qed (use s False in simp)
  qed
qed

abbreviation "nr_ptrs es \<equiv> length (filter is_ptr es)"

lemma length_decs: "length (decs k es p) = nr_ptrs es"
  by (induction es arbitrary: p) auto

lemma nth_ptr_entries:
  assumes "list_all entry_ok es" "v = pre @ concat es @ post" "i \<le> which"
  shows "(\<exists>a x c. es = a @ x # c \<and> is_ptr x \<and> i + nr_ptrs a = which \<and>
            nth_ptr v (length pre + length (concat es)) which (length pre) i = Some (Some (length (pre @ concat a)))) \<or>
         i + nr_ptrs es \<le> which \<and> nth_ptr v (length pre + length (concat es)) which (length pre) i = Some None"
    (is "?P pre es i")
  using assms
proof (induction es arbitrary: pre i)
  case Nil
  then show ?case by (simp add: nth_ptr.simps)
next
  case (Cons e es)
  have ok: "entry_ok e" and v: "v = pre @ e @ (concat es @ post)" using Cons.prems by simp_all
  let ?f = "length pre + length (concat (e # es))" and ?i = "if is_ptr e then i + 1 else i"
  have "length pre < ?f" using entry_ok_pos [OF ok] by simp
  moreover have "nth_opt v (length pre) = Some (hd e)" unfolding v by (rule nth_entry [OF ok])
  moreover have "extent_entry_next_safe v (length pre) ?f = Some (length (pre @ e))" using next_safe_entry [OF ok] unfolding v by simp
  ultimately have s: "nth_ptr v ?f which (length pre) i =
    (if is_ptr e \<and> i = which then Some (Some (length pre)) else nth_ptr v ?f which (length (pre @ e)) ?i)"
    by (subst nth_ptr.simps) (simp del: length_append nth_opt_Some)
  show ?case
  proof (cases "is_ptr e \<and> i = which")
    case True
    then show ?thesis using s by (intro disjI1 exI [of _ "[]"] exI [of _ e] exI [of _ es]) simp
  next
    case False
    have "?P (pre @ e) es ?i" using Cons.IH [of "pre @ e" ?i] Cons.prems False by auto
    moreover have f: "?f = length (pre @ e) + length (concat es)" by simp
    ultimately consider (some) a x c where "es = a @ x # c" "is_ptr x" "?i + nr_ptrs a = which"
        "nth_ptr v ?f which (length (pre @ e)) ?i = Some (Some (length ((pre @ e) @ concat a)))"
      | (none) "?i + nr_ptrs es \<le> which" "nth_ptr v ?f which (length (pre @ e)) ?i = Some None"
      by (metis (no_types, lifting))
    then show ?thesis
    proof cases
      case some
      have "nth_ptr v ?f which (length pre) i = Some (Some (length (pre @ concat (e # a))))" using s False some(4) by simp
      then show ?thesis using some(1-3) by (intro disjI1 exI [of _ "e # a"] exI [of _ x] exI [of _ c]) auto
    next
      case none
      have "nth_ptr v ?f which (length pre) i = Some None" using s False none(2) by simp
      then show ?thesis using none(1) by (intro disjI2) (auto split: if_splits)
    qed
  qed
qed

section \<open>What the dropping operations do\<close>

lemma has_device_entries:
  assumes "has_entries k" "length pre = ptrs_start k" "holds k v pre es"
  shows "(\<exists>a x c. es = a @ x # c \<and> is_ptr x \<and> ucast (BCH_EXTENT_PTR_DEV (hd x)) = dev \<and>
            bch2_bkey_has_device_c k v dev = Some (Some (length (pre @ concat a)))) \<or>
         list_all (\<lambda>e. \<not> (is_ptr e \<and> ucast (BCH_EXTENT_PTR_DEV (hd e)) = dev)) es \<and> bch2_bkey_has_device_c k v dev = Some None"
proof -
  from assms(3) obtain post where "list_all entry_ok es" "v = pre @ concat es @ post" by (auto simp: holds_def)
  from find_entry_entries [OF this, of "\<lambda>w. extent_entry_is_ptr w \<and> ucast (BCH_EXTENT_PTR_DEV w) = dev"] show ?thesis
    unfolding bch2_bkey_has_device_c_def entries_of_def ptrs_of(1) [OF assms] by auto
qed

lemma decs_all: "list_all (\<lambda>e. \<not> (is_ptr e \<and> \<not> P (hd e))) es \<Longrightarrow> list_all (\<lambda>p. P (p_ptr p)) (decs k es q)"
  by (induction es arbitrary: q) auto

lemma drop_device_noerror_entries:
  assumes "has_entries k" "length pre = ptrs_start k" "holds k v pre es"
  shows "\<exists>k' v' es'. bch2_bkey_drop_device_noerror k v dev = Some (k', v') \<and> same_key k k' \<and> holds k' v' pre es' \<and>
     decs k es' (start_dec k) = filter (\<lambda>p. ucast (BCH_EXTENT_PTR_DEV (p_ptr p)) \<noteq> dev) (decs k es (start_dec k))"
  using assms
proof (induction "nr_ptrs es" arbitrary: k v es rule: less_induct)
  case less
  from has_device_entries [OF less.prems, of dev] consider
      (some) a x c where "es = a @ x # c" "is_ptr x" "ucast (BCH_EXTENT_PTR_DEV (hd x)) = dev"
        "bch2_bkey_has_device_c k v dev = Some (Some (length (pre @ concat a)))"
    | (none) "list_all (\<lambda>e. \<not> (is_ptr e \<and> ucast (BCH_EXTENT_PTR_DEV (hd e)) = dev)) es" "bch2_bkey_has_device_c k v dev = Some None" by blast
  then show ?case
  proof cases
    case none
    then have "bch2_bkey_drop_device_noerror k v dev = Some (k, v)" by (subst bch2_bkey_drop_device_noerror.simps) simp
    moreover have "list_all (\<lambda>p. ucast (BCH_EXTENT_PTR_DEV (p_ptr p)) \<noteq> dev) (decs k es (start_dec k))"
      using decs_all [of "\<lambda>w. ucast (BCH_EXTENT_PTR_DEV w) \<noteq> dev" es k "start_dec k"] none(1) by simp
    then have "filter (\<lambda>p. ucast (BCH_EXTENT_PTR_DEV (p_ptr p)) \<noteq> dev) (decs k es (start_dec k)) = decs k es (start_dec k)"
      by (simp add: filter_id_conv list_all_iff)
    ultimately show ?thesis using less.prems(3) by auto
  next
    case some
    let ?t = "trim (crc_free c) a @ c"
    obtain k1 v1 where d: "bch2_bkey_drop_ptr_noerror k v (length (pre @ concat a)) = Some (k1, v1)" "same_key k k1" "holds k1 v1 pre ?t"
      using drop_ptr_noerror_entries [of k v pre a x c] less.prems some by auto
    obtain p ps where ps: "decs k es (start_dec k) = decs k a (start_dec k) @ p\<lparr>p_ptr := hd x\<rparr> # ps"
        "decs k ?t (start_dec k) = decs k a (start_dec k) @ ps"
      using decs_drop [OF some(2), of a c k "extent_crc_none k"] less.prems(3) some(1) by (auto simp: holds_def)
    have "nr_ptrs ?t < nr_ptrs es" using arg_cong [OF ps(1), of length] arg_cong [OF ps(2), of length] by (simp add: length_decs)
    from less.hyps [OF this _ _ d(3)] less.prems(1,2) same_key_decs [OF d(2)] obtain k' v' es' where
        r: "bch2_bkey_drop_device_noerror k1 v1 dev = Some (k', v')" "same_key k1 k'" "holds k' v' pre es'"
          "decs k1 es' (start_dec k1) = filter (\<lambda>p. ucast (BCH_EXTENT_PTR_DEV (p_ptr p)) \<noteq> dev) (decs k1 ?t (start_dec k1))"
      by auto
    have "bch2_bkey_drop_device_noerror k v dev = Some (k', v')"
      using some(4) d(1) r(1) by (subst bch2_bkey_drop_device_noerror.simps) (simp del: length_append)
    moreover have "same_key k k'" by (rule same_key_trans [OF d(2) r(2)])
    ultimately show ?thesis using r(3,4) ps some(3) same_key_decs [OF d(2)] by auto
  qed
qed

lemma nths_cong: "(\<And>i. i < length xs \<Longrightarrow> i \<in> A \<longleftrightarrow> i \<in> B) \<Longrightarrow> nths xs A = nths xs B"
proof (induction xs arbitrary: A B)
  case (Cons x xs)
  have "nths xs {j. Suc j \<in> A} = nths xs {j. Suc j \<in> B}" using Cons.prems [of "Suc _"] by (intro Cons.IH) simp
  then show ?case using Cons.prems [of 0] by (simp add: nths_Cons)
qed simp

lemma nths_drop_top:
  fixes m :: "'a::len word"
  assumes "length a = w" "bit m w" "\<And>i. bit m i \<Longrightarrow> i \<le> w" "\<And>i. bit m' i \<longleftrightarrow> bit m i \<and> i \<noteq> w"
  shows "nths (a @ c) {i. \<not> bit m' i} = nths (a @ p # c) {i. \<not> bit m i}"
proof -
  have m': "\<not> bit m' (j + w)" for j using assms(3) [of "j + w"] assms(4) [of "j + w"] by auto
  have m: "\<not> bit m (Suc (j + w))" for j using assms(3) [of "Suc (j + w)"] by auto
  have "nths a {i. \<not> bit m' i} = nths a {i. \<not> bit m i}"
    using assms(1,4) by (intro nths_cong) simp
  then show ?thesis using assms(1,2) m m' by (simp add: nths_append nths_Cons nths_all)
qed

lemma top_bit:
  fixes m :: u32
  assumes "m \<noteq> 0" "w = 31 - leading_zeros m"
  shows "bit m w" "\<And>i. bit m i \<Longrightarrow> i \<le> w" "\<And>i. bit (m XOR push_bit w 1) i \<longleftrightarrow> bit m i \<and> i \<noteq> w"
    "unat (m XOR push_bit w 1) < unat m"
proof -
  have len: "bit_len (unat m) \<noteq> 0" "bit_len (unat m) \<le> 32" using assms(1) bit_len_unat_le [of m] by (simp_all add: unsigned_eq_0_iff)
  then have w: "w = bit_len (unat m) - 1" "w < 32" using assms(2) by (simp_all add: leading_zeros_def)
  have s: "bit_len (unat m) = Suc w" using len(1) w(1) by linarith
  have lt: "unat m < 2 ^ Suc w" using less_power_bit_len [of "unat m"] unfolding s .
  have "0 < unat m" using len(1) by simp
  then have le: "2 ^ w \<le> unat m" using power_bit_len_le [of "unat m"] s by simp
  have "unat m div 2 ^ w = 1" using lt le by (intro div_nat_eqI) simp_all
  then have "bit (unat m) w" by (simp add: bit_iff_odd)
  then show b: "bit m w" by (simp add: bit_unsigned_iff)
  show up: "\<And>i. bit m i \<Longrightarrow> i \<le> w" using bit_small [OF lt] by (simp add: less_Suc_eq_le)
  show x: "\<And>i. bit (m XOR push_bit w 1) i \<longleftrightarrow> bit m i \<and> i \<noteq> w"
    using b w(2) by (auto simp: bit_xor_iff bit_exp_iff)
  have "take_bit w (m XOR push_bit w 1) = m XOR push_bit w 1"
    by (rule bit_word_eqI) (simp only: bit_take_bit_iff x, use up in \<open>auto simp: le_less\<close>)
  then have "unat (m XOR push_bit w 1) < 2 ^ w" by (metis take_bit_nat_less_exp unsigned_take_bit_eq)
  then show "unat (m XOR push_bit w 1) < unat m" using le by simp
qed

lemma drop_ptrs_mask_entries:
  assumes "has_entries k" "length pre = ptrs_start k" "holds k v pre es"
  shows "\<exists>k' v' es'. bch2_bkey_drop_ptrs_mask k v m = Some (k', v') \<and> same_key k k' \<and> holds k' v' pre es' \<and>
     decs k es' (start_dec k) = nths (decs k es (start_dec k)) {i. \<not> bit m i}"
  using assms
proof (induction "unat m" arbitrary: k v es m rule: less_induct)
  case less
  show ?case
  proof (cases "m = 0")
    case True
    then show ?thesis using less.prems(3) by (subst bch2_bkey_drop_ptrs_mask.simps) (auto simp: nths_all)
  next
    case False
    define w where "w = 31 - leading_zeros m"
    let ?m = "m XOR push_bit w 1"
    note t = top_bit [OF False w_def]
    have step: "bch2_bkey_drop_ptrs_mask k v m = Option.bind (entries_of k v None (\<lambda>s fin. nth_ptr v fin w s 0)) (\<lambda>e.
           Option.bind (case e of None \<Rightarrow> Some (k, v) | Some e \<Rightarrow> bch2_bkey_drop_ptr_noerror k v e) (\<lambda>(k, v). bch2_bkey_drop_ptrs_mask k v ?m))"
      using False by (subst bch2_bkey_drop_ptrs_mask.simps) (simp add: w_def Let_def)
    from less.prems(3) obtain post where "list_all entry_ok es" "v = pre @ concat es @ post" by (auto simp: holds_def)
    from nth_ptr_entries [OF this, of 0 w] consider
        (some) a x c where "es = a @ x # c" "is_ptr x" "nr_ptrs a = w"
          "entries_of k v None (\<lambda>s fin. nth_ptr v fin w s 0) = Some (Some (length (pre @ concat a)))"
      | (none) "nr_ptrs es \<le> w" "entries_of k v None (\<lambda>s fin. nth_ptr v fin w s 0) = Some None"
      unfolding entries_of_def ptrs_of(1) [OF less.prems] bind.simps option.case case_prod_conv by (metis add_0 le0)
    then show ?thesis
    proof cases
      case none
      have "nths ps {i. \<not> bit ?m i} = nths ps {i. \<not> bit m i}" if "length ps \<le> w" for ps :: "extent_ptr_decoded list"
        using that t(3) by (intro nths_cong) simp
      then show ?thesis using less.hyps [OF t(4) less.prems] none step by (simp add: length_decs)
    next
      case some
      let ?t = "trim (crc_free c) a @ c"
      obtain k1 v1 where d: "bch2_bkey_drop_ptr_noerror k v (length (pre @ concat a)) = Some (k1, v1)" "same_key k k1" "holds k1 v1 pre ?t"
        using drop_ptr_noerror_entries [of k v pre a x c] less.prems some by auto
      obtain p ps where ps: "decs k es (start_dec k) = decs k a (start_dec k) @ p\<lparr>p_ptr := hd x\<rparr> # ps"
          "decs k ?t (start_dec k) = decs k a (start_dec k) @ ps"
        using decs_drop [OF some(2), of a c k "extent_crc_none k"] less.prems(3) some(1) by (auto simp: holds_def)
      from less.hyps [OF t(4) _ _ d(3)] less.prems(1,2) same_key_decs [OF d(2)] obtain k' v' es' where
          r: "bch2_bkey_drop_ptrs_mask k1 v1 ?m = Some (k', v')" "same_key k1 k'" "holds k' v' pre es'"
            "decs k1 es' (start_dec k1) = nths (decs k1 ?t (start_dec k1)) {i. \<not> bit ?m i}" by auto
      have "bch2_bkey_drop_ptrs_mask k v m = Some (k', v')" using step some(4) d(1) r(1) by (simp del: length_append)
      moreover have "same_key k k'" by (rule same_key_trans [OF d(2) r(2)])
      moreover have "nths (decs k ?t (start_dec k)) {i. \<not> bit ?m i} = nths (decs k es (start_dec k)) {i. \<not> bit m i}"
        unfolding ps by (rule nths_drop_top [OF _ t(1-3)]) (simp add: length_decs some(3))
      ultimately show ?thesis using r(3,4) same_key_decs [OF d(2)] by auto
    qed
  qed
qed

section \<open>Properties\<close>

text \<open>
  Dropping the pointer with a given index from a key whose value is a run of whole entries returns, keeps the rest of the
  header and the shape of the value, and removes exactly that decoded pointer: every other pointer keeps its place in the order,
  its checksum description and its stripe entry.
\<close>

theorem drop_ptr_exact:
  assumes "extent_ok k v" "entries_of k v None (\<lambda>s fin. nth_ptr v fin i s 0) = Some (Some e)"
  shows "\<exists>k' v' ps. bch2_bkey_drop_ptr_noerror k v e = Some (k', v') \<and> k' = k\<lparr>k_u64s := k_u64s k'\<rparr> \<and> extent_ok k' v' \<and>
     decoded_ptrs k v = Some ps \<and> i < length ps \<and> decoded_ptrs k' v' = Some (take i ps @ drop (Suc i) ps)"
proof -
  obtain pre es where h: "has_entries k" "length pre = ptrs_start k" "holds k v pre es" using assms(1) extent_ok_iff by blast
  from h(3) obtain post where "list_all entry_ok es" "v = pre @ concat es @ post" by (auto simp: holds_def)
  from nth_ptr_entries [OF this, of 0 i] assms(2) obtain a x c where
    es: "es = a @ x # c" "is_ptr x" "nr_ptrs a = i" "e = length (pre @ concat a)"
    unfolding entries_of_def ptrs_of(1) [OF h] by auto
  let ?t = "trim (crc_free c) a @ c"
  obtain k' v' where d: "bch2_bkey_drop_ptr_noerror k v e = Some (k', v')" "same_key k k'" "holds k' v' pre ?t"
    using drop_ptr_noerror_entries [of k v pre a x c] h es by auto
  obtain p ps where ps: "decs k es (start_dec k) = decs k a (start_dec k) @ p\<lparr>p_ptr := hd x\<rparr> # ps"
      "decs k ?t (start_dec k) = decs k a (start_dec k) @ ps"
    using decs_drop [OF es(2), of a c k "extent_crc_none k"] h(3) es(1) by (auto simp: holds_def)
  have h': "has_entries k'" "length pre = ptrs_start k'" using same_key_decs [OF d(2)] h by simp_all
  have "decoded_ptrs k' v' = Some (take i (decs k es (start_dec k)) @ drop (Suc i) (decs k es (start_dec k)))"
    unfolding decoded_ptrs_entries [OF h' d(3)] using ps es(3) same_key_decs [OF d(2)] by (simp add: length_decs)
  moreover have "extent_ok k' v'" using h' d(3) extent_ok_iff by blast
  moreover have "i < length (decs k es (start_dec k))" using ps(1) es(3) by (simp add: length_decs)
  ultimately show ?thesis using d(1,2) decoded_ptrs_entries [OF h] unfolding same_key_def by blast
qed

text \<open>
  C18: dropping a device from a key whose value is a run of whole entries returns, and what is left is the decoded pointers on
  other devices, in their order, each with its own checksum description and stripe entry.
\<close>

theorem drop_device_exact:
  assumes "extent_ok k v"
  shows "\<exists>k' v' ps. bch2_bkey_drop_device_noerror k v dev = Some (k', v') \<and> k' = k\<lparr>k_u64s := k_u64s k'\<rparr> \<and> extent_ok k' v' \<and>
     decoded_ptrs k v = Some ps \<and> decoded_ptrs k' v' = Some (filter (\<lambda>p. ucast (BCH_EXTENT_PTR_DEV (p_ptr p)) \<noteq> dev) ps)"
proof -
  obtain pre es where h: "has_entries k" "length pre = ptrs_start k" "holds k v pre es" using assms(1) extent_ok_iff by blast
  obtain k' v' es' where d: "bch2_bkey_drop_device_noerror k v dev = Some (k', v')" "same_key k k'" "holds k' v' pre es'"
      "decs k es' (start_dec k) = filter (\<lambda>p. ucast (BCH_EXTENT_PTR_DEV (p_ptr p)) \<noteq> dev) (decs k es (start_dec k))"
    using drop_device_noerror_entries [OF h] by blast
  have h': "has_entries k'" "length pre = ptrs_start k'" using same_key_decs [OF d(2)] h by simp_all
  have "extent_ok k' v'" using h' d(3) extent_ok_iff by blast
  then show ?thesis using d(1,2,4) decoded_ptrs_entries [OF h] decoded_ptrs_entries [OF h' d(3)] same_key_decs [OF d(2)]
    unfolding same_key_def by auto
qed

text \<open>
  C19: dropping the pointers of a bit mask from a key whose value is a run of whole entries returns, and what is left is the
  decoded pointers whose bit is clear, in their order; bits past the last pointer have no effect.
\<close>

theorem drop_ptrs_mask_exact:
  assumes "extent_ok k v"
  shows "\<exists>k' v' ps. bch2_bkey_drop_ptrs_mask k v m = Some (k', v') \<and> k' = k\<lparr>k_u64s := k_u64s k'\<rparr> \<and> extent_ok k' v' \<and>
     decoded_ptrs k v = Some ps \<and> decoded_ptrs k' v' = Some (nths ps {i. \<not> bit m i})"
proof -
  obtain pre es where h: "has_entries k" "length pre = ptrs_start k" "holds k v pre es" using assms(1) extent_ok_iff by blast
  obtain k' v' es' where d: "bch2_bkey_drop_ptrs_mask k v m = Some (k', v')" "same_key k k'" "holds k' v' pre es'"
      "decs k es' (start_dec k) = nths (decs k es (start_dec k)) {i. \<not> bit m i}"
    using drop_ptrs_mask_entries [OF h] by blast
  have h': "has_entries k'" "length pre = ptrs_start k'" using same_key_decs [OF d(2)] h by simp_all
  have "extent_ok k' v'" using h' d(3) extent_ok_iff by blast
  then show ?thesis using d(1,2,4) decoded_ptrs_entries [OF h] decoded_ptrs_entries [OF h' d(3)] same_key_decs [OF d(2)]
    unfolding same_key_def by auto
qed

section \<open>Witnesses\<close>

text \<open>An extent of 8 sectors: a plain pointer on device 1, then a checksum entry of one word, a pointer on device 2 and a
  striped pointer on device 3.\<close>

definition demo_extent :: bkey where
  "demo_extent = \<lparr>k_u64s = 10, k_format = KEY_FORMAT_CURRENT, k_type = KEY_TYPE_extent, k_pad = 0,
     k_bversion = ZERO_VERSION, k_size = 8, k_p = SPOS 1 16 5\<rparr>"

definition demo_extent_val :: "u64 list" where
  "demo_extent_val = [0x0001000000000101, 0x1234567801000e1e, 0x0002000000000201, 0x50, 0x0003000000000301]"

lemma odd_type: "odd w \<Longrightarrow> extent_entry_type w = 0"
  by (rule extent_entry_type_eq) (simp_all add: bit_0)

lemma demo_types:
  "extent_entry_type 0x0001000000000101 = 0" "extent_entry_type 0x1234567801000e1e = 1" "extent_entry_type 0x0002000000000201 = 0"
  "extent_entry_type 0x50 = 4" "extent_entry_type 0x0003000000000301 = 0"
  by (simp_all add: odd_type) (rule extent_entry_type_eq, simp, simp add: less_Suc_eq numeral_eq_Suc)+

lemma demo_extent_ok: "extent_ok demo_extent demo_extent_val"
  by (simp add: extent_ok_def demo_extent_def demo_extent_val_def has_entries_def ptrs_start_def code_consts split_entries_Cons demo_types
      extent_entry_u64s_known_def Let_def)

lemma demo_extent_ptr: "entries_of demo_extent demo_extent_val None (\<lambda>s fin. nth_ptr demo_extent_val fin 1 s 0) = Some (Some 2)"
  by (simp add: entries_of_def bch2_bkey_ptrs_def bkey_val_u64s_def demo_extent_def demo_extent_val_def code_consts nth_ptr.simps
      nth_opt_def demo_types extent_entry_is_ptr_def extent_entry_next_safe_def extent_entry_next_def extent_entry_u64s_def
      extent_entry_u64s_known_def Let_def)

theorem drop_ptr_exact_witness:
  "extent_ok demo_extent demo_extent_val \<and>
   (\<exists>k' v' ps. bch2_bkey_drop_ptr_noerror demo_extent demo_extent_val 2 = Some (k', v') \<and> extent_ok k' v' \<and>
      decoded_ptrs demo_extent demo_extent_val = Some ps \<and> 1 < length ps \<and> decoded_ptrs k' v' = Some (take 1 ps @ drop 2 ps))"
  using drop_ptr_exact [OF demo_extent_ok demo_extent_ptr] demo_extent_ok by (auto simp: numeral_2_eq_2)

theorem drop_device_exact_witness:
  "extent_ok demo_extent demo_extent_val \<and>
   (\<exists>k' v' ps. bch2_bkey_drop_device_noerror demo_extent demo_extent_val 2 = Some (k', v') \<and> extent_ok k' v' \<and>
      decoded_ptrs demo_extent demo_extent_val = Some ps \<and>
      decoded_ptrs k' v' = Some (filter (\<lambda>p. ucast (BCH_EXTENT_PTR_DEV (p_ptr p)) \<noteq> (2 :: u32)) ps))"
  using drop_device_exact [OF demo_extent_ok, of 2] demo_extent_ok by auto

theorem drop_ptrs_mask_exact_witness:
  "extent_ok demo_extent demo_extent_val \<and>
   (\<exists>k' v' ps. bch2_bkey_drop_ptrs_mask demo_extent demo_extent_val 6 = Some (k', v') \<and> extent_ok k' v' \<and>
      decoded_ptrs demo_extent demo_extent_val = Some ps \<and> decoded_ptrs k' v' = Some (nths ps {i. \<not> bit (6 :: u32) i}))"
  using drop_ptrs_mask_exact [OF demo_extent_ok, of 6] demo_extent_ok by blast

end
