(* ===== verification/Extent_Cut.thy ===== *)
theory Extent_Cut
  imports Extent_Ptrs
begin

text \<open>
  The rest of \<^verbatim>\<open>btree/bset.rs\<close>: cutting an extent at its front or its back, dropping stripe entries, marking data as
  incompressible, changing the byte order, the kinds of keys, the lists of devices and the flag words of sets and nodes.

  Cutting the front of an extent moves its start, so every pointer has to move with it: \<open>cut_front_keeps_data\<close> shows that each
  pointer still gives the same place on disk for the same position of the file.
\<close>

section \<open>Cutting\<close>

text \<open>Adding to the offset field of a checksum entry, \<open>n\<close> bits from bit \<open>s\<close> on. The one-word entry keeps the field in a word of
  32 bits; the bits above stay.\<close>

definition bump_field :: "u64 \<Rightarrow> nat \<Rightarrow> nat \<Rightarrow> u64 \<Rightarrow> u64" where
  "bump_field w s n sub = (w AND NOT (push_bit s (mask n))) OR push_bit s (((drop_bit s w AND mask n) + sub) AND mask n)"

definition cut_front_entry :: "u64 \<Rightarrow> u64 \<Rightarrow> bool \<Rightarrow> u64 \<times> bool" where
  "cut_front_entry sub w seen_crc =
     (let ty = extent_entry_type w in
      if ty = BCH_EXTENT_ENTRY_ptr then
        (if \<not> seen_crc then SET_BCH_EXTENT_PTR_OFFSET w (BCH_EXTENT_PTR_OFFSET w + sub) else w, seen_crc)
      else if ty = BCH_EXTENT_ENTRY_crc32 then (bump_field w 16 7 sub, True)
      else if ty = BCH_EXTENT_ENTRY_crc64 then (bump_field w 21 9 sub, True)
      else if ty = BCH_EXTENT_ENTRY_crc128 then (bump_field w 30 13 sub, True)
      else (w, seen_crc))"

partial_function (option) cut_front_loop :: "u64 \<Rightarrow> u64 list \<Rightarrow> nat \<Rightarrow> nat \<Rightarrow> bool \<Rightarrow> u64 list option" where
  "cut_front_loop sub v fin e seen_crc =
     (if e < fin then
        Option.bind (nth_opt v e) (\<lambda>w.
          let (w, seen_crc) = cut_front_entry sub w seen_crc;
              v = v[e := w];
              u64s = extent_entry_u64s_known (extent_entry_type w)
          in if u64s = 0 then Some v else cut_front_loop sub v fin (e + u64s) seen_crc)
      else Some v)"

declare cut_front_loop.simps [code]

text \<open>The end of both cuts: the value is shortened and the words it loses are cleared. The result is the change of its length.\<close>

definition cut_value :: "bkey \<Rightarrow> u64 list \<Rightarrow> u32 \<Rightarrow> (int \<times> bkey \<times> u64 list) option" where
  "cut_value k v new_val_u64s =
     do { delta \<leftarrow> checked_sub (bkey_val_u64s k) new_val_u64s;
          k \<leftarrow> set_bkey_val_u64s k new_val_u64s;
          let n = unat new_val_u64s;
          let d = unat delta;
          require (n + d \<le> length v);
          Some (- sint delta, k, take n v @ replicate d 0 @ drop (n + d) v) }"

definition bch2_cut_front_s :: "bpos \<Rightarrow> bkey \<Rightarrow> u64 list \<Rightarrow> (int \<times> bkey \<times> u64 list) option" where
  "bch2_cut_front_s pos k v =
     (let start = bkey_start_pos k in
      if bpos_le pos start then Some (0, k, v)
      else do { require (\<not> bpos_gt pos (k_p k));
                sub \<leftarrow> checked_sub (offset pos) (offset start);
                let new_val_u64s = bkey_val_u64s k;
                n \<leftarrow> checked_sub (k_size k) (ucast sub);
                let (k, new_val_u64s) = (if n = 0 then (k\<lparr>k_size := 0, k_type := KEY_TYPE_deleted\<rparr>, 0) else (k\<lparr>k_size := n\<rparr>, new_val_u64s));
                v \<leftarrow> (if k_type k = KEY_TYPE_extent \<or> k_type k = KEY_TYPE_reflink_v
                     then entries_of k v v (\<lambda>s fin. cut_front_loop sub v fin s False) else Some v);
                cut_value k v new_val_u64s })"

definition bch2_cut_back_s :: "bpos \<Rightarrow> bkey \<Rightarrow> u64 list \<Rightarrow> (int \<times> bkey \<times> u64 list) option" where
  "bch2_cut_back_s pos k v =
     (if bpos_ge pos (k_p k) then Some (0, k, v)
      else do { require (bpos_ge pos (bkey_start_pos k));
                len \<leftarrow> checked_sub (offset pos) (bkey_start_offset k);
                let new_val_u64s = (if len = 0 then 0 else bkey_val_u64s k);
                let k = k\<lparr>k_p := SPOS (inode (k_p k)) (offset pos) (snapshot (k_p k)), k_size := ucast len\<rparr>;
                let k = (if len = 0 then k\<lparr>k_type := KEY_TYPE_deleted\<rparr> else k);
                cut_value k v new_val_u64s })"

definition bch2_cut_front :: "bpos \<Rightarrow> bkey \<Rightarrow> u64 list \<Rightarrow> (bkey \<times> u64 list) option" where
  "bch2_cut_front pos k v = map_option snd (bch2_cut_front_s pos k v)"

definition bch2_cut_back :: "bpos \<Rightarrow> bkey \<Rightarrow> u64 list \<Rightarrow> (bkey \<times> u64 list) option" where
  "bch2_cut_back pos k v = map_option snd (bch2_cut_back_s pos k v)"

section \<open>Stripe entries\<close>

partial_function (option) drop_ec_loop :: "bkey \<Rightarrow> u64 list \<Rightarrow> u32 \<Rightarrow> nat \<Rightarrow> nat \<Rightarrow> nat option \<Rightarrow> (bkey \<times> u64 list) option" where
  "drop_ec_loop k v dev fin e ec =
     (if e < fin then
        Option.bind (nth_opt v e) (\<lambda>w.
          if \<not> extent_entry_is_stripe_ptr w \<and> extent_entry_is_ptr w \<and> ucast (BCH_EXTENT_PTR_DEV w) = dev then
            (case ec of Some ec \<Rightarrow> bch2_bkey_extent_entry_drop k v ec | None \<Rightarrow> Some (k, v))
          else Option.bind (extent_entry_next_safe v e fin) (\<lambda>n.
            drop_ec_loop k v dev fin n (if extent_entry_is_stripe_ptr w then Some e else ec)))
      else Some (k, v))"

declare drop_ec_loop.simps [code]

definition bch2_bkey_drop_ec :: "bkey \<Rightarrow> u64 list \<Rightarrow> u32 \<Rightarrow> (bkey \<times> u64 list) option" where
  "bch2_bkey_drop_ec k v dev = entries_of k v (k, v) (\<lambda>s fin. drop_ec_loop k v dev fin s None)"

text \<open>The first pointer whose bit is in the mask, and the bit.\<close>

partial_function (option) mask_ptr :: "u64 list \<Rightarrow> u32 \<Rightarrow> nat \<Rightarrow> nat \<Rightarrow> u32 \<Rightarrow> (nat \<times> u32) option option" where
  "mask_ptr v m fin e ptr_bit =
     (if e < fin then
        Option.bind (nth_opt v e) (\<lambda>w.
          if extent_entry_is_ptr w \<and> m AND ptr_bit \<noteq> 0 then Some (Some (e, ptr_bit))
          else Option.bind (extent_entry_next_safe v e fin) (\<lambda>n.
            mask_ptr v m fin n (if extent_entry_is_ptr w then push_bit 1 ptr_bit else ptr_bit)))
      else Some None)"

declare mask_ptr.simps [code]

text \<open>With a bit past the last pointer in the mask, the loop never ends.\<close>

partial_function (option) bch2_bkey_drop_ec_mask :: "bkey \<Rightarrow> u64 list \<Rightarrow> u32 \<Rightarrow> (bkey \<times> u64 list) option" where
  "bch2_bkey_drop_ec_mask k v m =
     (if m \<noteq> 0 then
        Option.bind (entries_of k v None (\<lambda>s fin. mask_ptr v m fin s 1)) (\<lambda>r.
          case r of None \<Rightarrow> bch2_bkey_drop_ec_mask k v m
          | Some (e, ptr_bit) \<Rightarrow>
              Option.bind (nth_opt v e) (\<lambda>w.
                Option.bind (bch2_bkey_drop_ec k v (ucast (BCH_EXTENT_PTR_DEV w))) (\<lambda>(k, v).
                  bch2_bkey_drop_ec_mask k v (m AND NOT ptr_bit))))
      else Some (k, v))"

declare bch2_bkey_drop_ec_mask.simps [code]

section \<open>Incompressible data and byte order\<close>

partial_function (option) incompressible_loop :: "bkey \<Rightarrow> u64 list \<Rightarrow> nat \<Rightarrow> nat \<Rightarrow> u64 list option" where
  "incompressible_loop k v fin e =
     (if e < fin then
        Option.bind (nth_opt v e) (\<lambda>w.
          Option.bind
            (if extent_entry_is_crc w then
               Option.bind (bch2_extent_crc_unpack k v (Some e)) (\<lambda>crc.
                 if crc_compression_type crc = BCH_COMPRESSION_TYPE_none
                 then bch2_extent_crc_pack v e (crc\<lparr>crc_compression_type := BCH_COMPRESSION_TYPE_incompressible\<rparr>) (extent_entry_type w)
                 else Some v)
             else Some v) (\<lambda>v. Option.bind (extent_entry_next_safe v e fin) (incompressible_loop k v fin)))
      else Some v)"

declare incompressible_loop.simps [code]

definition bch2_bkey_propagate_incompressible :: "bkey \<Rightarrow> u64 list \<Rightarrow> bkey \<Rightarrow> u64 list \<Rightarrow> u64 list option" where
  "bch2_bkey_propagate_incompressible dst dv src sv =
     do { b \<leftarrow> bch2_bkey_is_incompressible src sv;
          if \<not> b then Some dv else entries_of dst dv dv (\<lambda>s fin. incompressible_loop dst dv fin s) }"

definition swap_bytes :: "'a::len word \<Rightarrow> 'a word" where
  "swap_bytes w = fold (\<lambda>i acc. acc OR push_bit (LENGTH('a) - 8 - 8 * i) (drop_bit (8 * i) w AND 0xff)) [0..<LENGTH('a) div 8] 0"

text \<open>The checksum fields are bytes, so they are swapped back; an entry of another type ends the loop.\<close>

definition swab_entry :: "u64 list \<Rightarrow> nat \<Rightarrow> u64 \<Rightarrow> u64 list option option" where
  "swab_entry v e w =
     (let ty = extent_entry_type w in
      if ty = BCH_EXTENT_ENTRY_crc32 then
        Some (Some (v[e := (w AND mask 32) OR push_bit 32 (ucast (swap_bytes (ucast (drop_bit 32 w) :: u32)))]))
      else if ty = BCH_EXTENT_ENTRY_crc64 then
        do { lo \<leftarrow> nth_opt v (e + 1);
             Some (Some (v[e := (w AND mask 48) OR push_bit 48 (ucast (swap_bytes (ucast (drop_bit 48 w) :: u16))), e + 1 := swap_bytes lo])) }
      else if ty = BCH_EXTENT_ENTRY_crc128 then
        do { lo \<leftarrow> nth_opt v (e + 1); hi \<leftarrow> nth_opt v (e + 2); Some (Some (v[e + 1 := swap_bytes lo, e + 2 := swap_bytes hi])) }
      else if ty = BCH_EXTENT_ENTRY_ptr \<or> ty = BCH_EXTENT_ENTRY_stripe_ptr \<or> ty = 5 \<or> ty = 7 then Some (Some v)
      else Some None)"

partial_function (option) swab_loop :: "u64 list \<Rightarrow> nat \<Rightarrow> nat \<Rightarrow> u64 list option" where
  "swab_loop v fin e =
     (if e < fin then
        Option.bind (nth_opt v e) (\<lambda>w.
          Option.bind (swab_entry v e w) (\<lambda>r.
            case r of None \<Rightarrow> Some v | Some v \<Rightarrow> Option.bind (extent_entry_next v e) (swab_loop v fin)))
      else Some v)"

declare swab_loop.simps [code]

definition bch2_ptr_swab :: "bkey \<Rightarrow> u64 list \<Rightarrow> u64 list option" where
  "bch2_ptr_swab k v =
     entries_of k v v (\<lambda>s fin.
       do { require (s \<le> fin \<and> fin \<le> length v);
            swab_loop (take s v @ map swap_bytes (take (fin - s) (drop s v)) @ drop fin v) fin s })"

section \<open>Kinds of keys\<close>

definition KEY_TYPE_whiteout :: u8 where [code_consts]: "KEY_TYPE_whiteout = 1"
definition KEY_TYPE_error :: u8 where [code_consts]: "KEY_TYPE_error = 2"
definition KEY_TYPE_reflink_p :: u8 where [code_consts]: "KEY_TYPE_reflink_p = 15"
definition KEY_TYPE_inline_data :: u8 where [code_consts]: "KEY_TYPE_inline_data = 17"
definition KEY_TYPE_indirect_inline_data :: u8 where [code_consts]: "KEY_TYPE_indirect_inline_data = 19"
definition KEY_TYPE_extent_whiteout :: u8 where [code_consts]: "KEY_TYPE_extent_whiteout = 36"

definition bkey_whiteout :: "bkey_packed \<Rightarrow> bool" where
  "bkey_whiteout k \<longleftrightarrow> pk_type k = KEY_TYPE_deleted \<or> pk_type k = KEY_TYPE_whiteout"

definition bkey_extent_whiteout :: "bkey_packed \<Rightarrow> bool" where
  "bkey_extent_whiteout k \<longleftrightarrow> pk_type k = KEY_TYPE_deleted \<or> pk_type k = KEY_TYPE_whiteout \<or> pk_type k = KEY_TYPE_extent_whiteout"

definition bch2_extent_ptr_eq :: "u64 \<Rightarrow> u64 \<Rightarrow> bool" where
  "bch2_extent_ptr_eq p q \<longleftrightarrow>
     BCH_EXTENT_PTR_CACHED p = BCH_EXTENT_PTR_CACHED q \<and> BCH_EXTENT_PTR_UNWRITTEN p = BCH_EXTENT_PTR_UNWRITTEN q \<and>
     BCH_EXTENT_PTR_OFFSET p = BCH_EXTENT_PTR_OFFSET q \<and> BCH_EXTENT_PTR_DEV p = BCH_EXTENT_PTR_DEV q \<and>
     BCH_EXTENT_PTR_GEN p = BCH_EXTENT_PTR_GEN q"

datatype bch_extent_overlap = BCH_EXTENT_OVERLAP_ALL | BCH_EXTENT_OVERLAP_BACK | BCH_EXTENT_OVERLAP_FRONT | BCH_EXTENT_OVERLAP_MIDDLE

definition bch2_extent_overlap :: "bkey \<Rightarrow> bkey \<Rightarrow> bch_extent_overlap" where
  "bch2_extent_overlap k m =
     (case (bpos_lt (k_p k) (k_p m), bpos_gt (bkey_start_pos k) (bkey_start_pos m)) of
        (False, False) \<Rightarrow> BCH_EXTENT_OVERLAP_ALL
      | (False, True) \<Rightarrow> BCH_EXTENT_OVERLAP_BACK
      | (True, False) \<Rightarrow> BCH_EXTENT_OVERLAP_FRONT
      | (True, True) \<Rightarrow> BCH_EXTENT_OVERLAP_MIDDLE)"

definition bkey_is_btree_ptr :: "bkey \<Rightarrow> bool" where
  "bkey_is_btree_ptr k \<longleftrightarrow> k_type k = KEY_TYPE_btree_ptr \<or> k_type k = KEY_TYPE_btree_ptr_v2"

definition bkey_is_user_data :: "bkey \<Rightarrow> bool" where
  "bkey_is_user_data k \<longleftrightarrow> k_type k = KEY_TYPE_extent \<or> k_type k = KEY_TYPE_inline_data \<or> k_type k = KEY_TYPE_reservation"

definition bkey_extent_is_inline_data :: "bkey \<Rightarrow> bool" where
  "bkey_extent_is_inline_data k \<longleftrightarrow> k_type k = KEY_TYPE_inline_data \<or> k_type k = KEY_TYPE_indirect_inline_data"

text \<open>In bytes; inline data has no header, indirect inline data a reference count before it.\<close>

definition bkey_inline_data_offset :: "bkey \<Rightarrow> nat option" where
  "bkey_inline_data_offset k =
     (if k_type k = KEY_TYPE_inline_data then Some 0 else if k_type k = KEY_TYPE_indirect_inline_data then Some 8 else None)"

definition bkey_inline_data_bytes :: "bkey \<Rightarrow> nat option" where
  "bkey_inline_data_bytes k =
     do { off \<leftarrow> bkey_inline_data_offset k;
          let bytes = unat (bkey_val_bytes k);
          require (off \<le> bytes);
          Some (bytes - off) }"

definition bkey_extent_is_data :: "bkey \<Rightarrow> bool" where
  "bkey_extent_is_data k \<longleftrightarrow> bkey_extent_is_direct_data k \<or> bkey_extent_is_inline_data k \<or> k_type k = KEY_TYPE_reflink_p"

definition bkey_extent_is_allocation :: "bkey \<Rightarrow> bool" where
  "bkey_extent_is_allocation k \<longleftrightarrow>
     k_type k \<in> {KEY_TYPE_extent, KEY_TYPE_reservation, KEY_TYPE_reflink_p, KEY_TYPE_reflink_v, KEY_TYPE_inline_data,
       KEY_TYPE_indirect_inline_data, KEY_TYPE_error}"

definition bkey_extent_is_reservation :: "bkey \<Rightarrow> u64 list \<Rightarrow> bool option" where
  "bkey_extent_is_reservation k v = (if k_type k = KEY_TYPE_reservation then Some True else bkey_extent_is_unwritten k v)"

section \<open>Lists and masks of devices\<close>

text \<open>A list is its number of devices and an array of 16 places. Reading past the array is a panic.\<close>

record bch_devs_list =
  dl_nr :: u8
  dl_data :: "u8 list"

definition dev_mask_nr :: "u64 list \<Rightarrow> nat" where
  "dev_mask_nr d = sum_list (map (\<lambda>w. length (filter (bit w) [0..<64])) d)"

definition bch2_dev_idx_is_online :: "u64 list \<Rightarrow> u32 \<Rightarrow> bool option" where
  "bch2_dev_idx_is_online online dev = do { w \<leftarrow> nth_opt online (unat dev div 64); Some (bit w (unat dev mod 64)) }"

fun dev_index :: "u8 list \<Rightarrow> u8 \<Rightarrow> nat \<Rightarrow> nat \<Rightarrow> nat option option" where
  "dev_index data dev i 0 = Some None"
| "dev_index data dev i (Suc n) = do { x \<leftarrow> nth_opt data i; if x = dev then Some (Some i) else dev_index data dev (i + 1) n }"

definition bch2_dev_list_has_dev :: "bch_devs_list \<Rightarrow> u8 \<Rightarrow> bool option" where
  "bch2_dev_list_has_dev devs dev = map_option (\<lambda>r. r \<noteq> None) (dev_index (dl_data devs) dev 0 (unat (dl_nr devs)))"

fun dev_shift :: "u8 list \<Rightarrow> nat \<Rightarrow> nat \<Rightarrow> u8 list option" where
  "dev_shift data j 0 = Some data"
| "dev_shift data j (Suc n) = do { x \<leftarrow> nth_opt data j; data \<leftarrow> upd_opt data (j - 1) x; dev_shift data (j + 1) n }"

definition bch2_dev_list_drop_dev :: "bch_devs_list \<Rightarrow> u8 \<Rightarrow> bch_devs_list option" where
  "bch2_dev_list_drop_dev devs dev =
     do { r \<leftarrow> dev_index (dl_data devs) dev 0 (unat (dl_nr devs));
          case r of None \<Rightarrow> Some devs
          | Some i \<Rightarrow>
              do { data \<leftarrow> dev_shift (dl_data devs) (i + 1) (unat (dl_nr devs) - (i + 1));
                   Some \<lparr>dl_nr = dl_nr devs - 1, dl_data = data\<rparr> } }"

definition bch2_dev_list_add_dev :: "bch_devs_list \<Rightarrow> u8 \<Rightarrow> bch_devs_list option" where
  "bch2_dev_list_add_dev devs dev =
     do { b \<leftarrow> bch2_dev_list_has_dev devs dev;
          if b then Some devs
          else do { require (unat (dl_nr devs) < length (dl_data devs));
                    data \<leftarrow> upd_opt (dl_data devs) (unat (dl_nr devs)) dev;
                    nr \<leftarrow> checked_add (dl_nr devs) 1;
                    Some \<lparr>dl_nr = nr, dl_data = data\<rparr> } }"

definition bch2_dev_list_single :: "u8 \<Rightarrow> bch_devs_list" where
  "bch2_dev_list_single dev = \<lparr>dl_nr = 1, dl_data = dev # replicate 15 0\<rparr>"

section \<open>Flag words of sets and nodes\<close>

definition BSET_CSUM_TYPE :: "u32 \<Rightarrow> u32" where "BSET_CSUM_TYPE f = f AND 0xf"
definition SET_BSET_CSUM_TYPE :: "u32 \<Rightarrow> u32 \<Rightarrow> u32" where "SET_BSET_CSUM_TYPE f v = (f AND NOT 0xf) OR (v AND 0xf)"
definition BSET_BIG_ENDIAN :: "u32 \<Rightarrow> u32" where "BSET_BIG_ENDIAN f = drop_bit 4 f AND 1"
definition SET_BSET_BIG_ENDIAN :: "u32 \<Rightarrow> u32 \<Rightarrow> u32" where
  "SET_BSET_BIG_ENDIAN f v = (f AND NOT (push_bit 4 1)) OR push_bit 4 (v AND 1)"
definition BSET_SEPARATE_WHITEOUTS :: "u32 \<Rightarrow> u32" where "BSET_SEPARATE_WHITEOUTS f = drop_bit 5 f AND 1"
definition SET_BSET_SEPARATE_WHITEOUTS :: "u32 \<Rightarrow> u32 \<Rightarrow> u32" where
  "SET_BSET_SEPARATE_WHITEOUTS f v = (f AND NOT (push_bit 5 1)) OR push_bit 5 (v AND 1)"
definition BSET_OFFSET :: "u32 \<Rightarrow> u32" where "BSET_OFFSET f = drop_bit 16 f"
definition SET_BSET_OFFSET :: "u32 \<Rightarrow> u32 \<Rightarrow> u32" where
  "SET_BSET_OFFSET f v = (f AND 0xffff) OR push_bit 16 (v AND 0xffff)"

definition BTREE_NODE_ID_LO :: "u64 \<Rightarrow> u64" where "BTREE_NODE_ID_LO f = f AND 0xf"
definition SET_BTREE_NODE_ID_LO :: "u64 \<Rightarrow> u64 \<Rightarrow> u64" where "SET_BTREE_NODE_ID_LO f v = (f AND NOT 0xf) OR (v AND 0xf)"
definition BTREE_NODE_LEVEL :: "u64 \<Rightarrow> u64" where "BTREE_NODE_LEVEL f = drop_bit 4 f AND 0xf"
definition SET_BTREE_NODE_LEVEL :: "u64 \<Rightarrow> u64 \<Rightarrow> u64" where
  "SET_BTREE_NODE_LEVEL f v = (f AND NOT (push_bit 4 0xf)) OR push_bit 4 (v AND 0xf)"
definition BTREE_NODE_NEW_EXTENT_OVERWRITE :: "u64 \<Rightarrow> u64" where
  "BTREE_NODE_NEW_EXTENT_OVERWRITE f = drop_bit 8 f AND 1"
definition SET_BTREE_NODE_NEW_EXTENT_OVERWRITE :: "u64 \<Rightarrow> u64 \<Rightarrow> u64" where
  "SET_BTREE_NODE_NEW_EXTENT_OVERWRITE f v = (f AND NOT (push_bit 8 1)) OR push_bit 8 (v AND 1)"
definition BTREE_NODE_ID_HI :: "u64 \<Rightarrow> u64" where "BTREE_NODE_ID_HI f = drop_bit 9 f AND 0xffff"
definition SET_BTREE_NODE_ID_HI :: "u64 \<Rightarrow> u64 \<Rightarrow> u64" where
  "SET_BTREE_NODE_ID_HI f v = (f AND NOT (push_bit 9 0xffff)) OR push_bit 9 (v AND 0xffff)"
definition BTREE_NODE_SEQ :: "u64 \<Rightarrow> u64" where "BTREE_NODE_SEQ f = drop_bit 32 f"
definition SET_BTREE_NODE_SEQ :: "u64 \<Rightarrow> u64 \<Rightarrow> u64" where
  "SET_BTREE_NODE_SEQ f v = (f AND mask 32) OR push_bit 32 (v AND mask 32)"
definition BTREE_NODE_ID :: "u64 \<Rightarrow> u64" where
  "BTREE_NODE_ID f = BTREE_NODE_ID_LO f OR push_bit 4 (BTREE_NODE_ID_HI f)"
definition SET_BTREE_NODE_ID :: "u64 \<Rightarrow> u64 \<Rightarrow> u64" where
  "SET_BTREE_NODE_ID f v = SET_BTREE_NODE_ID_HI (SET_BTREE_NODE_ID_LO f v) (drop_bit 4 v)"

section \<open>Cutting the front of a run of entries\<close>

lemma extent_entry_type_bits:
  assumes "extent_entry_type w < 64" "\<And>i. i \<le> extent_entry_type w \<Longrightarrow> bit w' i \<longleftrightarrow> bit w i"
  shows "extent_entry_type w' = extent_entry_type w"
proof -
  have "w \<noteq> 0" using assms(1) by (auto simp: extent_entry_type_def)
  then obtain i where i: "bit w i" by (metis bit_eq_iff bit_0_eq bot_apply bot_bool_def)
  define t where "t = (LEAST i. bit w i)"
  have t: "bit w t" "\<forall>i<t. \<not> bit w i" unfolding t_def using i by (auto intro: LeastI dest: not_less_Least)
  then have ty: "extent_entry_type w = t" by (rule extent_entry_type_eq)
  then have "bit w' t" "\<forall>i<t. \<not> bit w' i" using t assms(2) by auto
  then show ?thesis using extent_entry_type_eq ty by simp
qed

lemma bit_bump_field:
  "s + n \<le> 64 \<Longrightarrow> bit (bump_field w s n sub) i \<longleftrightarrow>
     (if s \<le> i \<and> i < s + n then bit ((drop_bit s w AND mask n) + sub) (i - s) else bit w i)"
  by (auto simp: bump_field_def bit_or_iff bit_and_iff bit_not_iff bit_push_bit_iff bit_mask_iff dest: bit_imp_le_length)

lemma field_bump_other:
  assumes "s + n \<le> 64" "s' + n' \<le> s \<or> s + n \<le> s'"
  shows "field (bump_field w s n sub) s' n' = field w s' n'"
  by (rule bit_word_eqI) (use assms in \<open>auto simp: bit_field bit_bump_field\<close>)

lemma field_bump:
  assumes "s + n \<le> 64"
  shows "(field (bump_field w s n sub) s n :: 'a::len word) = ucast ((field w s n + sub) AND mask n)"
  by (rule bit_word_eqI) (use assms in \<open>auto simp: bit_field bit_bump_field bit_ucast_iff bit_and_iff bit_mask_iff field_def bit_drop_bit_eq dest: bit_imp_le_length\<close>)

lemma drop_bump: "s + n \<le> 64 \<Longrightarrow> s + n \<le> j \<Longrightarrow> drop_bit j (bump_field w s n sub) = drop_bit j w"
  by (rule bit_word_eqI) (auto simp: bit_drop_bit_eq bit_bump_field)

lemma bit_set_offset:
  "bit (SET_BCH_EXTENT_PTR_OFFSET w x) i \<longleftrightarrow> (if 4 \<le> i \<and> i < 48 then bit x (i - 4) else bit w i)"
  by (auto simp: SET_BCH_EXTENT_PTR_OFFSET_def Let_def bit_or_iff bit_and_iff bit_not_iff bit_push_bit_iff bit_mask_iff dest: bit_imp_le_length)

lemma set_offset_fields:
  "BCH_EXTENT_PTR_DEV (SET_BCH_EXTENT_PTR_OFFSET w x) = BCH_EXTENT_PTR_DEV w"
  "BCH_EXTENT_PTR_GEN (SET_BCH_EXTENT_PTR_OFFSET w x) = BCH_EXTENT_PTR_GEN w"
  "BCH_EXTENT_PTR_CACHED (SET_BCH_EXTENT_PTR_OFFSET w x) = BCH_EXTENT_PTR_CACHED w"
  "BCH_EXTENT_PTR_UNWRITTEN (SET_BCH_EXTENT_PTR_OFFSET w x) = BCH_EXTENT_PTR_UNWRITTEN w"
  "BCH_EXTENT_PTR_OFFSET (SET_BCH_EXTENT_PTR_OFFSET w x) = x AND mask 44"
  by (rule bit_word_eqI; auto simp: BCH_EXTENT_PTR_DEV_def BCH_EXTENT_PTR_GEN_def BCH_EXTENT_PTR_CACHED_def BCH_EXTENT_PTR_UNWRITTEN_def
      BCH_EXTENT_PTR_OFFSET_def bit_and_iff bit_drop_bit_eq bit_set_offset bit_mask_iff bit_1_iff)+

text \<open>The entries after the cut.\<close>

definition cut_entry :: "u64 \<Rightarrow> bool \<Rightarrow> u64 list \<Rightarrow> u64 list" where
  "cut_entry sub seen e = fst (cut_front_entry sub (hd e) seen) # tl e"

fun cut_entries :: "u64 \<Rightarrow> bool \<Rightarrow> u64 list list \<Rightarrow> u64 list list" where
  "cut_entries sub seen [] = []"
| "cut_entries sub seen (e # es) = cut_entry sub seen e # cut_entries sub (snd (cut_front_entry sub (hd e) seen)) es"

lemma cut_front_entry_type:
  assumes "extent_entry_type w < BCH_EXTENT_ENTRY_MAX"
  shows "extent_entry_type (fst (cut_front_entry sub w seen)) = extent_entry_type w"
  by (rule extent_entry_type_bits)
    (use assms in \<open>auto simp: cut_front_entry_def Let_def code_consts bit_bump_field bit_set_offset\<close>)

lemma cut_entry_ok: "entry_ok e \<Longrightarrow> entry_ok (cut_entry sub seen e) \<and> length (cut_entry sub seen e) = length e \<and>
    extent_entry_type (hd (cut_entry sub seen e)) = extent_entry_type (hd e)"
  using cut_front_entry_type [of "hd e" sub seen] by (cases e) (auto simp: entry_ok_def cut_entry_def)

lemma cut_entries_ok:
  "list_all entry_ok es \<Longrightarrow> list_all entry_ok (cut_entries sub seen es) \<and> length (concat (cut_entries sub seen es)) = length (concat es)"
  by (induction es arbitrary: seen) (auto simp: cut_entry_ok)

lemma cut_front_loop_entries:
  assumes "list_all entry_ok es"
  shows "cut_front_loop sub (pre @ concat es @ post) (length pre + length (concat es)) (length pre) seen =
     Some (pre @ concat (cut_entries sub seen es) @ post)"
  using assms
proof (induction es arbitrary: pre seen)
  case Nil
  then show ?case by (simp add: cut_front_loop.simps)
next
  case (Cons e es)
  have ok: "entry_ok e" using Cons.prems by simp
  let ?f = "length pre + length (concat (e # es))" and ?w = "cut_front_entry sub (hd e) seen" and ?c = "cut_entry sub seen e"
  have n: "extent_entry_u64s_known (extent_entry_type (fst ?w)) = length e"
    using cut_front_entry_type [of "hd e" sub seen] entry_okD [OF ok] by simp
  have u: "(pre @ e @ concat es @ post)[length pre := fst ?w] = pre @ ?c @ concat es @ post"
    using ok by (cases e) (auto simp: entry_ok_def cut_entry_def list_update_append)
  have "length pre < ?f" using entry_ok_pos [OF ok] by simp
  then have "cut_front_loop sub (pre @ concat (e # es) @ post) ?f (length pre) seen =
    cut_front_loop sub (pre @ ?c @ concat es @ post) ?f (length pre + length e) (snd ?w)"
    using ok [unfolded entry_ok_def, THEN conjunct1]
    by (subst cut_front_loop.simps) (simp add: nth_entry [OF ok] n u Let_def case_prod_beta)
  also have "\<dots> = Some (pre @ ?c @ concat (cut_entries sub (snd ?w) es) @ post)"
    using Cons.IH [of "pre @ ?c" "snd ?w"] Cons.prems cut_entry_ok [OF ok, of sub seen] by (simp add: add.assoc)
  finally show ?case by simp
qed

section \<open>The data of the pointers\<close>

lemma unat_field_less: "unat (field w s n :: 'a::len word) < 2 ^ n"
proof -
  have "take_bit n (field w s n :: 'a word) = field w s n"
    by (rule bit_word_eqI) (auto simp: bit_take_bit_iff bit_field)
  then show ?thesis by (metis take_bit_nat_less_exp unsigned_take_bit_eq)
qed

lemma unat_field_Suc: "n < 32 \<Longrightarrow> unat (field w s n + 1 :: u32) \<le> 2 ^ n"
proof -
  assume n: "n < 32"
  have "unat (field w s n :: u32) + 1 < 2 ^ 32"
    using unat_field_less [of w s n, where 'a = 32] n power_strict_increasing [of n 32 "2 :: nat"] by linarith
  then have "unat (field w s n + 1 :: u32) = unat (field w s n :: u32) + 1" by (simp add: unat_word_ariths)
  then show ?thesis using unat_field_less [of w s n, where 'a = 32] by simp
qed

text \<open>What the loop knows before and after the cut, once it has or has not seen a checksum entry.\<close>

definition cut_rel :: "bkey \<Rightarrow> bkey \<Rightarrow> u64 \<Rightarrow> bool \<Rightarrow> extent_ptr_decoded \<Rightarrow> extent_ptr_decoded \<Rightarrow> bool" where
  "cut_rel k k' sub seen p p' \<longleftrightarrow>
     p_has_ec p' = p_has_ec p \<and> p_ec p' = p_ec p \<and>
     (if seen then \<exists>n<16. unat (crc_uncompressed_size (p_crc p)) \<le> 2 ^ n \<and>
        p_crc p' = (p_crc p)\<lparr>crc_offset := ucast ((ucast (crc_offset (p_crc p)) + sub) AND mask n), crc_live_size := k_size k'\<rparr>
      else p_crc p = extent_crc_none k \<and> p_crc p' = extent_crc_none k')"

lemma field_u16: "n \<le> 16 \<Longrightarrow> ucast (field w s n :: u16) = (field w s n :: u64)"
  by (rule bit_word_eqI) (auto simp: bit_field bit_ucast_iff)

lemma cut_crc:
  assumes "entry_ok e" "is_crc e"
  shows "\<exists>n<16. unat (crc_uncompressed_size (the (bch2_extent_crc_unpack k e (Some 0)))) \<le> 2 ^ n \<and>
     the (bch2_extent_crc_unpack k' (cut_entry sub seen e) (Some 0)) = (the (bch2_extent_crc_unpack k e (Some 0)))
       \<lparr>crc_offset := ucast ((ucast (crc_offset (the (bch2_extent_crc_unpack k e (Some 0)))) + sub) AND mask n), crc_live_size := k_size k'\<rparr>"
proof -
  let ?e = "cut_entry sub seen e"
  have h: "nth_opt e 0 = Some (hd e)" "nth_opt ?e 0 = Some (hd ?e)" "extent_entry_type (hd ?e) = extent_entry_type (hd e)"
    using nth_entry [of e "[]" "[]"] nth_entry [of ?e "[]" "[]"] cut_entry_ok [OF assms(1), of sub seen] assms(1) by auto
  have t: "extent_entry_type (hd e) = 1 \<or> extent_entry_type (hd e) = 2 \<and> length e = 2 \<or> extent_entry_type (hd e) = 3 \<and> length e = 3"
    using assms by (auto simp: entry_ok_def extent_entry_is_crc_def extent_entry_u64s_known_def code_consts)
  have r: "nth_opt ?e (Suc i) = nth_opt e (Suc i)" for i
    using assms(1) by (cases e) (auto simp: cut_entry_def nth_opt_def entry_ok_def)
  note u = bch2_extent_crc_unpack_def option.case h
  from t show ?thesis
  proof (elim disjE conjE)
    assume t: "extent_entry_type (hd e) = 1"
    have w: "hd ?e = bump_field (hd e) 16 7 sub" using t by (simp add: cut_entry_def cut_front_entry_def code_consts)
    show ?thesis unfolding u using t unat_field_Suc [of 7 "hd e" 9]
      by (intro exI [of _ 7]) (simp add: h h(3) [unfolded w] code_consts w field_bump_other field_bump drop_bump field_u16)
  next
    assume t: "extent_entry_type (hd e) = 2" "length e = 2"
    have w: "hd ?e = bump_field (hd e) 21 9 sub" using t by (simp add: cut_entry_def cut_front_entry_def code_consts)
    show ?thesis unfolding u using t unat_field_Suc [of 9 "hd e" 12] r [of 0]
      by (intro exI [of _ 9]) (simp add: h h(3) [unfolded w] code_consts w field_bump_other field_bump drop_bump field_u16 nth_opt_in_range)
  next
    assume t: "extent_entry_type (hd e) = 3" "length e = 3"
    have w: "hd ?e = bump_field (hd e) 30 13 sub" using t by (simp add: cut_entry_def cut_front_entry_def code_consts)
    show ?thesis unfolding u using t unat_field_Suc [of 13 "hd e" 17] r [of 0] r [of 1]
      by (intro exI [of _ 13]) (simp add: h h(3) [unfolded w] code_consts w field_bump_other field_bump drop_bump field_u16 nth_opt_in_range numeral_2_eq_2)
  qed
qed

text \<open>The data of a pointer: the same device, generation and flags, the same stripe, the same checksum, and the same place on
  disk for every position of the file.\<close>

definition same_data :: "bkey \<Rightarrow> extent_ptr_decoded \<Rightarrow> bkey \<Rightarrow> extent_ptr_decoded \<Rightarrow> bool" where
  "same_data k p k' p' \<longleftrightarrow>
     BCH_EXTENT_PTR_DEV (p_ptr p') = BCH_EXTENT_PTR_DEV (p_ptr p) \<and> BCH_EXTENT_PTR_GEN (p_ptr p') = BCH_EXTENT_PTR_GEN (p_ptr p) \<and>
     BCH_EXTENT_PTR_CACHED (p_ptr p') = BCH_EXTENT_PTR_CACHED (p_ptr p) \<and>
     BCH_EXTENT_PTR_UNWRITTEN (p_ptr p') = BCH_EXTENT_PTR_UNWRITTEN (p_ptr p) \<and>
     p_has_ec p' = p_has_ec p \<and> p_ec p' = p_ec p \<and> crc_csum_type (p_crc p') = crc_csum_type (p_crc p) \<and>
     crc_compression_type (p_crc p') = crc_compression_type (p_crc p) \<and> crc_nonce (p_crc p') = crc_nonce (p_crc p) \<and>
     crc_csum (p_crc p') = crc_csum (p_crc p) \<and> disk_offset k' p' = disk_offset k p"

text \<open>The extent lies inside the data its checksum entry describes, and that data inside the device.\<close>

definition data_inside :: "bkey \<Rightarrow> extent_ptr_decoded \<Rightarrow> bool" where
  "data_inside k p \<longleftrightarrow>
     unat (crc_offset (p_crc p)) + unat (k_size k) \<le> unat (crc_uncompressed_size (p_crc p)) \<and>
     unat (BCH_EXTENT_PTR_OFFSET (p_ptr p)) + unat (crc_compressed_size (p_crc p)) \<le> 2 ^ 44"

lemma cut_entry_upd:
  assumes "entry_ok e" "\<not> is_ptr e" "cut_rel k k' sub seen p p'"
  shows "cut_rel k k' sub (snd (cut_front_entry sub (hd e) seen)) (entry_upd k e p) (entry_upd k' (cut_entry sub seen e) p')"
proof -
  let ?e = "cut_entry sub seen e"
  have ty: "extent_entry_type (hd ?e) = extent_entry_type (hd e)" "entry_ok ?e" using cut_entry_ok [OF assms(1)] by auto
  then have same: "is_crc ?e = is_crc e" "is_stripe ?e = is_stripe e" by (simp_all add: extent_entry_is_crc_def extent_entry_is_stripe_ptr_def)
  consider (crc) "is_crc e" | (stripe) "is_stripe e" "\<not> is_crc e" | (other) "\<not> is_crc e" "\<not> is_stripe e" by blast
  then show ?thesis
  proof cases
    case crc
    then have "snd (cut_front_entry sub (hd e) seen)"
      by (auto simp: cut_front_entry_def extent_entry_is_crc_def code_consts)
    then show ?thesis using cut_crc [OF assms(1) crc, of k k' sub seen] assms(3) crc same ty(2) assms(1)
      by (simp add: cut_rel_def entry_upd_simps)
  next
    case stripe
    then have c: "cut_front_entry sub (hd e) seen = (hd e, seen)"
      using assms(2) by (auto simp: cut_front_entry_def extent_entry_is_crc_def extent_entry_is_ptr_def)
    then have "hd ?e = hd e" by (simp add: cut_entry_def)
    then show ?thesis using assms(3) stripe by (simp add: cut_rel_def entry_upd_simps c)
  next
    case other
    then have c: "cut_front_entry sub (hd e) seen = (hd e, seen)"
      using assms(2) by (auto simp: cut_front_entry_def extent_entry_is_crc_def extent_entry_is_ptr_def)
    then have "hd ?e = hd e" by (simp add: cut_entry_def)
    then show ?thesis using assms(3) other by (simp add: entry_upd_simps c)
  qed
qed

text \<open>The two keys of a cut: the start moves by \<open>sub\<close> sectors, the size is reduced by as many.\<close>

definition cut_keys :: "bkey \<Rightarrow> bkey \<Rightarrow> u64 \<Rightarrow> bool" where
  "cut_keys k k' sub \<longleftrightarrow>
     0 < unat (k_size k') \<and> unat (k_size k') + unat sub = unat (k_size k) \<and> unat (bkey_start_offset k') = unat (bkey_start_offset k) + unat sub"

lemma disk_offset_nat: "disk_offset k p =
    int (unat (BCH_EXTENT_PTR_OFFSET (p_ptr p))) + int (unat (crc_offset (p_crc p))) - int (unat (bkey_start_offset k))"
  by (simp add: disk_offset_def)

lemma unat_and_mask: "unat ((x :: u64) AND mask n) = unat x mod 2 ^ n"
  by (metis take_bit_eq_mask take_bit_eq_mod unsigned_take_bit_eq)

lemma unat_add_mask:
  "n < 64 \<Longrightarrow> unat a + unat b < 2 ^ n \<Longrightarrow> unat ((a + b :: u64) AND mask n) = unat a + unat b"
proof -
  assume n: "n < 64" "unat a + unat b < 2 ^ n"
  then have "unat a + unat b < 2 ^ 64" using power_strict_increasing [of n 64 "2 :: nat"] by linarith
  then have "unat (a + b) = unat a + unat b" by (simp add: unat_word_ariths)
  then show ?thesis using n by (simp add: unat_and_mask)
qed

lemma cut_ptr:
  assumes "cut_keys k k' sub" "cut_rel k k' sub seen p p'" "is_ptr e" "data_inside k (p\<lparr>p_ptr := hd e\<rparr>)"
  shows "same_data k (p\<lparr>p_ptr := hd e\<rparr>) k' (p'\<lparr>p_ptr := hd (cut_entry sub seen e)\<rparr>)"
    "data_inside k' (p'\<lparr>p_ptr := hd (cut_entry sub seen e)\<rparr>)"
proof -
  let ?w = "hd e" and ?c = "p_crc p"
  have w: "hd (cut_entry sub seen e) = (if seen then ?w else SET_BCH_EXTENT_PTR_OFFSET ?w (BCH_EXTENT_PTR_OFFSET ?w + sub))"
    using assms(3) by (auto simp: cut_entry_def cut_front_entry_def extent_entry_is_ptr_def)
  note k = assms(1) [unfolded cut_keys_def]
  have "same_data k (p\<lparr>p_ptr := hd e\<rparr>) k' (p'\<lparr>p_ptr := hd (cut_entry sub seen e)\<rparr>) \<and> data_inside k' (p'\<lparr>p_ptr := hd (cut_entry sub seen e)\<rparr>)"
  proof (cases seen)
    case True
    then obtain n where n: "n < 16" "unat (crc_uncompressed_size ?c) \<le> 2 ^ n"
        "p_crc p' = ?c\<lparr>crc_offset := ucast ((ucast (crc_offset ?c) + sub) AND mask n), crc_live_size := k_size k'\<rparr>"
      and ec: "p_has_ec p' = p_has_ec p" "p_ec p' = p_ec p" using assms(2) by (auto simp: cut_rel_def)
    let ?o = "(ucast (crc_offset ?c) + sub :: u64) AND mask n"
    have le: "unat (crc_offset ?c) + unat sub < 2 ^ n" using assms(4) k n(2) by (simp add: data_inside_def)
    then have o: "unat ?o = unat (crc_offset ?c) + unat sub" using n(1) unat_add_mask [of n "ucast (crc_offset ?c)" sub] by (simp add: unat_ucast_up)
    moreover have "(2 :: nat) ^ n < 2 ^ 16" using n(1) by (intro power_strict_increasing) simp_all
    ultimately have "unat (ucast ?o :: u16) = unat (crc_offset ?c) + unat sub"
      using le by (simp add: unsigned_ucast_eq unsigned_take_bit_eq take_bit_nat_eq_self)
    then have "unat (crc_offset (p_crc p')) = unat (crc_offset ?c) + unat sub" using n(3) by simp
    then show ?thesis using True w n(3) ec k assms(4) by (simp add: same_data_def data_inside_def disk_offset_nat del: of_nat_unat int_nat_eq)
  next
    case False
    then have c: "?c = extent_crc_none k" "p_crc p' = extent_crc_none k'" and ec: "p_has_ec p' = p_has_ec p" "p_ec p' = p_ec p"
      using assms(2) by (auto simp: cut_rel_def)
    have "unat ((BCH_EXTENT_PTR_OFFSET ?w + sub) AND mask 44) = unat (BCH_EXTENT_PTR_OFFSET ?w) + unat sub"
      using assms(4) k c(1) by (intro unat_add_mask) (simp_all add: data_inside_def extent_crc_none_def)
    then show ?thesis using False w c ec k assms(4)
      by (simp add: same_data_def data_inside_def disk_offset_nat set_offset_fields extent_crc_none_def del: of_nat_unat)
  qed
  then show "same_data k (p\<lparr>p_ptr := hd e\<rparr>) k' (p'\<lparr>p_ptr := hd (cut_entry sub seen e)\<rparr>)"
    "data_inside k' (p'\<lparr>p_ptr := hd (cut_entry sub seen e)\<rparr>)" by blast+
qed

lemma cut_decs:
  assumes "cut_keys k k' sub" "list_all entry_ok es" "cut_rel k k' sub seen p p'" "list_all (data_inside k) (decs k es p)"
  shows "list_all2 (\<lambda>p p'. same_data k p k' p' \<and> data_inside k' p') (decs k es p) (decs k' (cut_entries sub seen es) p')"
  using assms(2-)
proof (induction es arbitrary: seen p p')
  case (Cons e es)
  let ?e = "cut_entry sub seen e" and ?s = "snd (cut_front_entry sub (hd e) seen)"
  have ok: "entry_ok e" using Cons.prems(1) by simp
  have ptr: "is_ptr ?e = is_ptr e" using cut_entry_ok [OF ok, of sub seen] by (simp add: extent_entry_is_ptr_def)
  show ?case
  proof (cases "is_ptr e")
    case True
    have s: "?s = seen" using True by (simp add: cut_front_entry_def extent_entry_is_ptr_def)
    have "cut_rel k k' sub seen (decoded_default (p_crc p)) (decoded_default (p_crc p'))"
      using Cons.prems(2) by (simp add: cut_rel_def decoded_default_def)
    moreover have "data_inside k (p\<lparr>p_ptr := hd e\<rparr>)" "list_all (data_inside k) (decs k es (decoded_default (p_crc p)))"
      using Cons.prems(3) True by simp_all
    ultimately show ?thesis using Cons.IH cut_ptr [OF assms(1) Cons.prems(2) True] Cons.prems(1) True ptr s by simp
  next
    case False
    then show ?thesis using Cons.IH [OF _ cut_entry_upd [OF ok False Cons.prems(2)]] Cons.prems(1,3) ptr by simp
  qed
qed simp

lemma cut_value_same:
  assumes "holds k v pre es"
  shows "cut_value k v (bkey_val_u64s k) = Some (0, k, v)"
proof -
  from assms have n: "5 \<le> unat (k_u64s k)" by (simp add: holds_def BKEY_U64S_def)
  have "unat (bkey_val_u64s k) = unat (k_u64s k) - 5"
    unfolding bkey_val_u64s_def BKEY_U64S_def using n by (subst unat_sub) (simp_all add: word_le_nat_alt unat_ucast_up)
  moreover have lt: "unat (k_u64s k) < 2 ^ LENGTH(8)" by (rule unsigned_less)
  moreover have le: "unat (bkey_val_u64s k) \<le> length v" using assms calculation(1) by (auto simp: holds_def BKEY_U64S_def)
  moreover have "(5 + bkey_val_u64s k :: u32) = ucast (k_u64s k)" by (simp add: bkey_val_u64s_def BKEY_U64S_def)
  moreover have "(ucast (k_u64s k) :: u32) \<le> 255" using lt by (simp add: word_le_nat_alt unat_ucast_up)
  moreover have "(5 :: u32) \<le> ucast (k_u64s k)" using n by (simp add: word_le_nat_alt unat_ucast_up)
  moreover have "(ucast (ucast (k_u64s k) :: u32) :: u8) = k_u64s k" by (rule bit_word_eqI) (simp add: bit_ucast_iff)
  ultimately have "set_bkey_val_u64s k (bkey_val_u64s k) = Some k"
    by (simp add: set_bkey_val_u64s_def checked_add_def BKEY_U64S_def)
  then show ?thesis using le by (simp add: cut_value_def checked_sub_def)
qed

section \<open>Properties\<close>

text \<open>
  C20: cutting the front of an extent at a position inside it returns and moves its start there; the value stays a run of whole
  entries, and each pointer still describes the same data: the same copy, checksum and stripe, and the same sector of the device
  for each position of the file. The data stays inside what its checksum entry describes.
\<close>

theorem cut_front_keeps_data:
  assumes "extent_ok k v" "k_type k = KEY_TYPE_extent \<or> k_type k = KEY_TYPE_reflink_v"
    "decoded_ptrs k v = Some ps" "list_all (data_inside k) ps"
    "inode pos = inode (k_p k)" "unat (k_size k) \<le> unat (offset (k_p k))" "bkey_start_offset k < offset pos" "offset pos < offset (k_p k)"
  shows "\<exists>k' v' ps'. bch2_cut_front pos k v = Some (k', v') \<and>
     k_p k' = k_p k \<and> bkey_start_pos k' = SPOS (inode pos) (offset pos) (snapshot (k_p k)) \<and> extent_ok k' v' \<and>
     decoded_ptrs k' v' = Some ps' \<and> list_all2 (\<lambda>p p'. same_data k p k' p' \<and> data_inside k' p') ps ps'"
proof -
  obtain pre es where h: "has_entries k" "length pre = ptrs_start k" "holds k v pre es" using assms(1) extent_ok_iff by blast
  from h(3) obtain post where es: "list_all entry_ok es" and v: "v = pre @ concat es @ post" by (auto simp: holds_def)
  define sub where "sub = offset pos - bkey_start_offset k"
  define k' where "k' = k\<lparr>k_size := k_size k - ucast sub\<rparr>"
  have so: "unat (bkey_start_offset k) = unat (offset (k_p k)) - unat (k_size k)"
    unfolding bkey_start_offset_def using assms(6) by (subst unat_sub) (simp_all add: word_le_nat_alt unat_ucast_up)
  have su: "unat sub = unat (offset pos) - unat (bkey_start_offset k)"
    unfolding sub_def using assms(7) by (subst unat_sub) (simp_all add: word_le_nat_alt word_less_nat_alt)
  have lt: "0 < unat sub" "unat sub < unat (k_size k)" using so su assms(6-8) by (simp_all add: word_less_nat_alt)
  have ss: "unat (ucast sub :: u32) = unat sub"
    using lt(2) unsigned_less [of "k_size k", where 'a = nat] by (simp add: unsigned_ucast_eq unsigned_take_bit_eq take_bit_nat_eq_self)
  have sz: "unat (k_size k') = unat (k_size k) - unat sub"
    unfolding k'_def using lt(2) ss by (simp add: unat_sub word_le_nat_alt)
  have "unat (bkey_start_offset k') = unat (offset (k_p k)) - unat (k_size k')"
    unfolding bkey_start_offset_def using sz assms(6) by (subst unat_sub) (simp_all add: word_le_nat_alt unat_ucast_up k'_def)
  also have "\<dots> = unat (offset pos)" using so su sz lt assms(6,7) by (simp add: word_less_nat_alt)
  finally have st: "bkey_start_offset k' = offset pos" by (simp add: word_unat_eq_iff)
  have ck: "cut_keys k k' sub" unfolding cut_keys_def st using sz lt su by linarith
  let ?v = "pre @ concat (cut_entries sub False es) @ post"
  have h': "has_entries k'" "length pre = ptrs_start k'" "holds k' ?v pre (cut_entries sub False es)"
    using h cut_entries_ok [OF es] by (auto simp: k'_def has_entries_def ptrs_start_def holds_def)
  have b: "\<not> bpos_le pos (bkey_start_pos k)" "\<not> bpos_gt pos (k_p k)"
    using assms(5,7,8) by (auto simp: bpos_le_def bpos_gt_def bpos_lt_def bkey_start_pos_def)
  have c: "checked_sub (offset pos) (offset (bkey_start_pos k)) = Some sub" "checked_sub (k_size k) (ucast sub) = Some (k_size k')"
    using assms(7) lt ss by (simp_all add: checked_sub_def sub_def bkey_start_pos_def k'_def word_le_nat_alt word_less_nat_alt)
  have n0: "k_size k' \<noteq> 0" using sz lt by auto
  have kk: "k\<lparr>k_size := k_size k'\<rparr> = k'" "k_type k' = k_type k" "bkey_val_u64s k = bkey_val_u64s k'"
    by (simp_all add: k'_def bkey_val_u64s_def)
  have "entries_of k' v v (\<lambda>s fin. cut_front_loop sub v fin s False) = Some ?v"
    using ptrs_of(1) [of k' pre v es] h h'(1,2) cut_front_loop_entries [OF es, of sub pre post False]
    by (simp add: entries_of_def v holds_def k'_def)
  then have "bch2_cut_front_s pos k v = Some (0, k', ?v)"
    using assms(2) b c n0 cut_value_same [OF h'(3)] unfolding bch2_cut_front_s_def Let_def by (simp add: kk)
  then have "bch2_cut_front pos k v = Some (k', ?v)" by (simp add: bch2_cut_front_def)
  moreover have "decoded_ptrs k' ?v = Some (decs k' (cut_entries sub False es) (start_dec k'))" by (rule decoded_ptrs_entries [OF h'])
  moreover have "cut_rel k k' sub False (start_dec k) (start_dec k')" by (simp add: cut_rel_def decoded_default_def)
  from cut_decs [OF ck es this] have "list_all2 (\<lambda>p p'. same_data k p k' p' \<and> data_inside k' p') ps (decs k' (cut_entries sub False es) (start_dec k'))"
    using assms(3,4) decoded_ptrs_entries [OF h] by simp
  moreover have "extent_ok k' ?v" using h' extent_ok_iff by blast
  moreover have "bkey_start_pos k' = SPOS (inode pos) (offset pos) (snapshot (k_p k))"
    by (simp add: bkey_start_pos_def st) (simp add: k'_def assms(5))
  moreover have "k_p k' = k_p k" by (simp add: k'_def)
  ultimately show ?thesis by blast
qed

text \<open>What a checksum of a type can be: its words above the length that the table gives for the type are clear.\<close>

definition csum_in_bytes :: "bch_extent_crc_unpacked \<Rightarrow> bool" where
  "csum_in_bytes crc \<longleftrightarrow>
     unat (crc_csum_type crc) < length bch_crc_bytes \<and>
     (bch_crc_bytes ! unat (crc_csum_type crc) \<le> 4 \<longrightarrow> unat (csum_lo (crc_csum crc)) < 2 ^ 32 \<and> csum_hi (crc_csum crc) = 0) \<and>
     (bch_crc_bytes ! unat (crc_csum_type crc) \<le> 10 \<longrightarrow> unat (csum_hi (crc_csum crc)) < 2 ^ 16)"

definition crc_sane :: "bch_extent_crc_unpacked \<Rightarrow> bool" where
  "crc_sane crc \<longleftrightarrow>
     crc_compressed_size crc \<noteq> 0 \<and> crc_compressed_size crc \<le> crc_uncompressed_size crc \<and>
     unat (crc_offset crc) < unat (crc_uncompressed_size crc) \<and> unat (crc_compression_type crc) < 2 ^ 4 \<and> csum_in_bytes crc"

lemma crc_append_type_fits:
  assumes "crc_sane crc" "crc_append_type crc = Some ty"
  shows "crc_fits crc ty"
proof -
  have z: "crc_uncompressed_size crc \<noteq> 0" "crc_compressed_size crc \<noteq> 0" using assms(1) by (auto simp: crc_sane_def)
  have m: "unat (crc_uncompressed_size crc - 1) < unat (crc_uncompressed_size crc)"
    "unat (crc_compressed_size crc - 1) < unat (crc_compressed_size crc)" using z by (simp_all add: unat_minus_one unat_gt_0)
  have le: "unat (crc_compressed_size crc) \<le> unat (crc_uncompressed_size crc)" "unat (crc_offset crc) < unat (crc_uncompressed_size crc)"
    using assms(1) by (auto simp: crc_sane_def word_le_nat_alt)
  have t: "unat (crc_csum_type crc) < 16" using assms(1) by (simp add: crc_sane_def csum_in_bytes_def bch_crc_bytes_def)
  define bytes where "bytes = bch_crc_bytes ! unat (crc_csum_type crc)"
  have b: "nth_opt bch_crc_bytes (unat (crc_csum_type crc)) = Some bytes"
    "bytes \<le> 4 \<Longrightarrow> unat (csum_lo (crc_csum crc)) < 2 ^ 32 \<and> csum_hi (crc_csum crc) = 0" "bytes \<le> 10 \<Longrightarrow> unat (csum_hi (crc_csum crc)) < 2 ^ 16"
    using assms(1) by (simp_all add: crc_sane_def csum_in_bytes_def bytes_def)
  have c: "unat (crc_compression_type crc) < 2 ^ 4" using assms(1) by (simp add: crc_sane_def)
  from assms(2) consider
      (c32) "ty = 1" "bytes \<le> 4" "unat (crc_uncompressed_size crc) \<le> 128" "unat (crc_nonce crc) = 0"
    | (c64) "ty = 2" "bytes \<le> 10" "unat (crc_uncompressed_size crc) \<le> 512" "unat (crc_nonce crc) \<le> 1023"
    | (c128) "ty = 3" "unat (crc_uncompressed_size crc) \<le> 8192" "unat (crc_nonce crc) \<le> 8191"
    unfolding crc_append_type_def b(1) bind.simps
    by (simp add: BCH_EXTENT_ENTRY_crc32_def BCH_EXTENT_ENTRY_crc64_def BCH_EXTENT_ENTRY_crc128_def CRC32_SIZE_MAX_def CRC64_SIZE_MAX_def
        CRC128_SIZE_MAX_def CRC32_NONCE_MAX_def CRC64_NONCE_MAX_def CRC128_NONCE_MAX_def word_le_nat_alt split: if_splits)
  then show ?thesis
    by cases (use z m le t c b(2,3) in \<open>simp_all add: crc_fits_def BCH_EXTENT_ENTRY_crc32_def BCH_EXTENT_ENTRY_crc64_def BCH_EXTENT_ENTRY_crc128_def unsigned_eq_0_iff\<close>)
qed


section \<open>Witnesses\<close>

definition demo_entries :: "u64 list list" where
  "demo_entries = [[0x0001000000000101], [0x1234567801000e1e], [0x0002000000000201], [0x50], [0x0003000000000301]]"

lemma demo_extent_holds: "holds demo_extent demo_extent_val [] demo_entries" "has_entries demo_extent" "length [] = ptrs_start demo_extent"
  by (simp_all add: holds_def demo_extent_def demo_extent_val_def demo_entries_def entry_ok_def demo_types code_consts has_entries_def
      ptrs_start_def extent_entry_u64s_known_def)

lemma demo_crc:
  "bch2_extent_crc_unpack demo_extent [0x1234567801000e1e] (Some 0) = Some \<lparr>crc_compressed_size = 8, crc_uncompressed_size = 8,
     crc_live_size = 8, crc_csum_type = 1, crc_compression_type = 0, crc_offset = 0, crc_nonce = 0,
     crc_csum = \<lparr>csum_lo = 0x12345678, csum_hi = 0\<rparr>\<rparr>"
  by (simp add: bch2_extent_crc_unpack_def nth_opt_def demo_types code_consts demo_extent_def field_def mask_eq_exp_minus_1)

lemma demo_decoded:
  "\<exists>ps. decoded_ptrs demo_extent demo_extent_val = Some ps \<and> length ps = 3 \<and> list_all (data_inside demo_extent) ps"
  unfolding decoded_ptrs_entries [OF demo_extent_holds(2,3,1)]
  by (simp add: demo_entries_def demo_types extent_entry_is_ptr_def entry_upd_def decode_entry_def extent_entry_is_crc_def
      extent_entry_is_stripe_ptr_def demo_crc data_inside_def BCH_EXTENT_PTR_OFFSET_def decoded_default_def extent_crc_none_def
      code_consts mask_eq_exp_minus_1) (simp add: demo_extent_def)

theorem cut_front_keeps_data_witness:
  "extent_ok demo_extent demo_extent_val \<and>
   (\<exists>ps k' v' ps'. decoded_ptrs demo_extent demo_extent_val = Some ps \<and> length ps = 3 \<and>
      bch2_cut_front (SPOS 1 11 0) demo_extent demo_extent_val = Some (k', v') \<and> bkey_start_pos k' = SPOS 1 11 5 \<and>
      decoded_ptrs k' v' = Some ps' \<and> list_all2 (\<lambda>p p'. same_data demo_extent p k' p' \<and> data_inside k' p') ps ps')"
proof -
  obtain ps where ps: "decoded_ptrs demo_extent demo_extent_val = Some ps" "length ps = 3" "list_all (data_inside demo_extent) ps"
    using demo_decoded by blast
  have "k_type demo_extent = KEY_TYPE_extent \<or> k_type demo_extent = KEY_TYPE_reflink_v" "inode (SPOS 1 11 0) = inode (k_p demo_extent)"
    "unat (k_size demo_extent) \<le> unat (offset (k_p demo_extent))" "bkey_start_offset demo_extent < offset (SPOS 1 11 0)"
    "offset (SPOS 1 11 0) < offset (k_p demo_extent)" by (simp_all add: demo_extent_def bkey_start_offset_def)
  from cut_front_keeps_data [OF demo_extent_ok this(1) ps(1,3) this(2-5)] show ?thesis
    using demo_extent_ok ps(1,2) by (auto simp: demo_extent_def)
qed

definition demo_csum :: bch_extent_crc_unpacked where
  "demo_csum = \<lparr>crc_compressed_size = 4, crc_uncompressed_size = 200, crc_live_size = 8, crc_csum_type = 5, crc_compression_type = 2,
     crc_offset = 16, crc_nonce = 0, crc_csum = \<lparr>csum_lo = 0x12345678, csum_hi = 0\<rparr>\<rparr>"

lemma demo_csum_sane: "crc_sane demo_csum" "crc_append_type demo_csum = Some 2"
  by (simp_all add: demo_csum_def crc_sane_def csum_in_bytes_def crc_append_type_def nth_opt_def code_consts)


section \<open>Two errors\<close>

text \<open>Dropping an entry with \<^verbatim>\<open>bch2_bkey_extent_entry_drop\<close> subtracts the length of the entry that has moved to its place: dropping the
  stripe entry of a pointer that follows a checksum entry of two words shortens the value by two words, and the pointer is lost.\<close>

theorem extent_entry_drop_loses_pointer:
  "bch2_bkey_extent_entry_drop (demo_extent\<lparr>k_u64s := 9\<rparr>) [0x50, 4, 0, 0x0001000000000101] 0 =
     Some (demo_extent\<lparr>k_u64s := 7\<rparr>, [4, 0, 0x0001000000000101, 0x0001000000000101])"
proof -
  have "extent_entry_type 4 = 2" by (rule extent_entry_type_eq) (simp, simp add: less_Suc_eq numeral_eq_Suc)
  then show ?thesis
    by (simp add: bch2_bkey_extent_entry_drop_def bkey_val_u64s_def demo_extent_def extent_entry_next_def extent_entry_u64s_def nth_opt_def
        demo_types extent_entry_u64s_known_def code_consts move_words_def)
qed

text \<open>Appending a decoded pointer replaces its stripe entry by one with no stripe, block or redundancy.\<close>

theorem decoded_append_loses_stripe:
  assumes "bch2_extent_ptr_decoded_append k v p = Some (k', v', p')" "p_has_ec p"
  shows "p_ec p' = 0x10"
  using assms by (auto simp: bch2_extent_ptr_decoded_append_def BCH_EXTENT_ENTRY_stripe_ptr_def push_bit_eq_mult
      split: option.splits Option.bind_splits if_splits prod.splits)

end
