(* ===== verification/Superblock.thy ===== *)
theory Superblock
  imports Extent
begin

text \<open>
  The superblock, \<^verbatim>\<open>sb/mod.rs\<close> and \<^verbatim>\<open>sb/io.rs\<close>: a header of 94 words and a run of fields behind it, each a header word with its
  length and type and as many words as the length says; the buffer that holds it; looking up, adding, resizing and deleting
  fields; the validation of the layout, of the members, of the ranges of the journal and of the whole; and the choice among the
  copies on a device.

  The buffer is the list of its 64-bit words: every field of \<^verbatim>\<open>struct bch_sb\<close> is a piece of one word of it. A pointer to a field is
  its word index in the buffer, \<open>None\<close> the null pointer. The device is an argument: a function from a sector and a number of
  words to the words read, \<open>None\<close> for an error or the end of the file (the loop over short reads is inside it). The allocator is
  an argument too: whether a buffer of so many words can be had.
\<close>

section \<open>The header\<close>

definition BCH_SB_SECTOR :: u64 where [code_consts]: "BCH_SB_SECTOR = 8"
definition BCH_SB_LAYOUT_SECTOR :: u64 where [code_consts]: "BCH_SB_LAYOUT_SECTOR = 7"
definition BCH_SB_LAYOUT_SIZE_BITS_MAX :: u8 where [code_consts]: "BCH_SB_LAYOUT_SIZE_BITS_MAX = 16"
definition BCH_SB_FIELD_journal_v2 :: u32 where [code_consts]: "BCH_SB_FIELD_journal_v2 = 9"
definition BCH_SB_FIELD_members_v2 :: u32 where [code_consts]: "BCH_SB_FIELD_members_v2 = 11"
definition BCHFS_MAGIC :: "u64 \<times> u64" where [code_consts]: "BCHFS_MAGIC = (0xa990ce66f67385c6, 0xeff73d80cf606ad9)"
definition BCH_SB_MEMBER_DELETED_UUID :: "u64 \<times> u64" where
  [code_consts]: "BCH_SB_MEMBER_DELETED_UUID = (0xffffffffffffffff, 0xeff73d80cf606ad9)"
definition BCH_SB_HANDLE_HAVE_LAYOUT :: u32 where [code_consts]: "BCH_SB_HANDLE_HAVE_LAYOUT = 1"
definition BCH_SB_HANDLE_FS_SB :: u32 where [code_consts]: "BCH_SB_HANDLE_FS_SB = 4"

definition BCH_VERSION :: "u16 \<Rightarrow> u16 \<Rightarrow> u16" where
  "BCH_VERSION major minor = push_bit 10 major OR minor"

definition BCH_VERSION_MAJOR :: "u16 \<Rightarrow> u16" where
  "BCH_VERSION_MAJOR version = drop_bit 10 version"

definition BCH_VERSION_MINOR :: "u16 \<Rightarrow> u16" where
  "BCH_VERSION_MINOR version = version AND mask 10"

definition sb_version_current :: u16 where
  "sb_version_current = BCH_VERSION 1 38"

text \<open>The words of \<^verbatim>\<open>struct bch_sb\<close>, 752 bytes.\<close>

definition SB_U64S :: nat where [code_consts]: "SB_U64S = 94"

type_synonym sb_buf = "u64 list"

definition sb_csum :: "sb_buf \<Rightarrow> bch_csum" where "sb_csum sb = \<lparr>csum_lo = sb ! 0, csum_hi = sb ! 1\<rparr>"
definition sb_version :: "sb_buf \<Rightarrow> u16" where "sb_version sb = field (sb ! 2) 0 16"
definition sb_version_min :: "sb_buf \<Rightarrow> u16" where "sb_version_min sb = field (sb ! 2) 16 16"
definition sb_magic :: "sb_buf \<Rightarrow> u64 \<times> u64" where "sb_magic sb = (sb ! 3, sb ! 4)"
definition sb_uuid :: "sb_buf \<Rightarrow> u64 \<times> u64" where "sb_uuid sb = (sb ! 5, sb ! 6)"
definition sb_user_uuid :: "sb_buf \<Rightarrow> u64 \<times> u64" where "sb_user_uuid sb = (sb ! 7, sb ! 8)"
definition sb_offset :: "sb_buf \<Rightarrow> u64" where "sb_offset sb = sb ! 13"
definition sb_seq :: "sb_buf \<Rightarrow> u64" where "sb_seq sb = sb ! 14"
definition sb_block_size :: "sb_buf \<Rightarrow> u16" where "sb_block_size sb = field (sb ! 15) 0 16"
definition sb_dev_idx :: "sb_buf \<Rightarrow> u8" where "sb_dev_idx sb = field (sb ! 15) 16 8"
definition sb_nr_devices :: "sb_buf \<Rightarrow> u8" where "sb_nr_devices sb = field (sb ! 15) 24 8"
definition sb_u64s :: "sb_buf \<Rightarrow> u32" where "sb_u64s sb = field (sb ! 15) 32 32"
definition sb_time_precision :: "sb_buf \<Rightarrow> u32" where "sb_time_precision sb = field (sb ! 17) 32 32"
definition sb_flags :: "sb_buf \<Rightarrow> nat \<Rightarrow> u64" where "sb_flags sb i = sb ! (18 + i)"
definition sb_features :: "sb_buf \<Rightarrow> nat \<Rightarrow> u64" where "sb_features sb i = sb ! (26 + i)"

definition set_sb_u64s :: "sb_buf \<Rightarrow> u32 \<Rightarrow> sb_buf" where
  "set_sb_u64s sb n = sb[15 := (sb ! 15 AND mask 32) OR push_bit 32 (ucast n)]"

definition set_sb_flags :: "sb_buf \<Rightarrow> nat \<Rightarrow> u64 \<Rightarrow> sb_buf" where
  "set_sb_flags sb i w = sb[18 + i := w]"

record bch_sb_layout =
  lay_magic :: "u64 \<times> u64"
  lay_layout_type :: u8
  lay_sb_max_size_bits :: u8
  lay_nr_superblocks :: u8
  lay_sb_offset :: "u64 list"

text \<open>The layout in the superblock, and in a sector of its own.\<close>

definition layout_at :: "u64 list \<Rightarrow> nat \<Rightarrow> bch_sb_layout" where
  "layout_at ws i =
     \<lparr>lay_magic = (ws ! i, ws ! (i + 1)), lay_layout_type = field (ws ! (i + 2)) 0 8, lay_sb_max_size_bits = field (ws ! (i + 2)) 8 8,
      lay_nr_superblocks = field (ws ! (i + 2)) 16 8, lay_sb_offset = take 61 (drop (i + 3) ws)\<rparr>"

definition sb_layout :: "sb_buf \<Rightarrow> bch_sb_layout" where
  "sb_layout sb = layout_at sb 30"

section \<open>The buffer\<close>

record sb_handle =
  h_sb :: "sb_buf option"
  h_file :: bool
  h_flags :: u32
  h_seq :: u64

definition sb_handle_default :: sb_handle where
  "sb_handle_default = \<lparr>h_sb = None, h_file = False, h_flags = 0, h_seq = 0\<rparr>"

definition raw_vstruct_bytes :: "u32 \<Rightarrow> nat" where
  "raw_vstruct_bytes u64s = 752 + 8 * unat u64s"

definition buffer_size :: "sb_handle \<Rightarrow> nat" where
  "buffer_size h = (case h_sb h of None \<Rightarrow> 0 | Some sb \<Rightarrow> 8 * length sb)"

definition next_power_of_two :: "nat \<Rightarrow> nat" where
  "next_power_of_two n = (if n \<le> 1 then 1 else 2 ^ bit_len (n - 1))"

definition BCH_ERR_ENOSPC_sb :: int where [code_consts]: "BCH_ERR_ENOSPC_sb = - 7"
definition BCH_ERR_ENOMEM_sb_buf_realloc :: int where [code_consts]: "BCH_ERR_ENOMEM_sb_buf_realloc = - 8"

text \<open>The size limit of the layout is a shift of a 64-bit size; a shift by 64 or more panics.\<close>

definition bch2_sb_realloc :: "(nat \<Rightarrow> bool) \<Rightarrow> sb_handle \<Rightarrow> u32 \<Rightarrow> (int \<times> sb_handle) option" where
  "bch2_sb_realloc alloc h u64s =
     (let new_bytes = raw_vstruct_bytes u64s;
          new_buffer_size = next_power_of_two new_bytes;
          grown = (\<lambda>old. if alloc (new_buffer_size div 8)
                         then (0, h\<lparr>h_sb := Some (old @ replicate (new_buffer_size div 8 - length old) 0)\<rparr>)
                         else (BCH_ERR_ENOMEM_sb_buf_realloc, h))
      in case h_sb h of
           None \<Rightarrow> Some (grown [])
         | Some sb \<Rightarrow>
             if 8 * length sb \<ge> new_buffer_size then Some (0, h)
             else if h_flags h AND BCH_SB_HANDLE_HAVE_LAYOUT \<noteq> 0 then
               do { let bits = unat (lay_sb_max_size_bits (sb_layout sb));
                    require (bits < 64);
                    if new_bytes > (512 * 2 ^ bits) mod 2 ^ 64 then Some (BCH_ERR_ENOSPC_sb, h) else Some (grown sb) }
             else Some (grown sb))"

section \<open>Fields\<close>

definition f_u64s :: "u64 \<Rightarrow> u32" where "f_u64s w = field w 0 32"
definition f_type :: "u64 \<Rightarrow> u32" where "f_type w = field w 32 32"
definition field_header :: "u32 \<Rightarrow> u32 \<Rightarrow> u64" where "field_header u64s ty = ucast u64s OR push_bit 32 (ucast ty)"

definition vstruct_last :: "sb_buf \<Rightarrow> nat" where
  "vstruct_last sb = SB_U64S + unat (sb_u64s sb)"

text \<open>A field of length 0 makes the search loop for ever.\<close>

partial_function (option) field_scan :: "sb_buf \<Rightarrow> nat \<Rightarrow> u32 \<Rightarrow> nat \<Rightarrow> nat option option" where
  "field_scan sb fin ty i =
     (if i < fin then
        Option.bind (nth_opt sb i) (\<lambda>w. if f_type w = ty then Some (Some i) else field_scan sb fin ty (i + unat (f_u64s w)))
      else Some None)"

declare field_scan.simps [code]

definition bch2_sb_field_get_id :: "sb_buf \<Rightarrow> u32 \<Rightarrow> nat option option" where
  "bch2_sb_field_get_id sb ty = field_scan sb (vstruct_last sb) ty SB_U64S"

definition put_words :: "u64 list \<Rightarrow> nat \<Rightarrow> u64 list \<Rightarrow> u64 list option" where
  "put_words sb i ws = do { require (i + length ws \<le> length sb); Some (take i sb @ ws @ drop (i + length ws) sb) }"

definition raw_bch2_sb_field_resize :: "sb_buf \<Rightarrow> nat option \<Rightarrow> u32 \<Rightarrow> (nat option \<times> sb_buf) option" where
  "raw_bch2_sb_field_resize sb f u64s =
     do { old_u64s \<leftarrow> (case f of None \<Rightarrow> Some 0 | Some i \<Rightarrow> map_option f_u64s (nth_opt sb i));
          n \<leftarrow> checked_add (sb_u64s sb) u64s;
          sb_u64s' \<leftarrow> checked_sub n old_u64s;
          require (raw_vstruct_bytes sb_u64s' \<le> 8 * length sb);
          (f, sb) \<leftarrow>
            (case f of
               None \<Rightarrow>
                 if u64s = 0 then Some (None, sb)
                 else do { let i = vstruct_last sb;
                           sb \<leftarrow> put_words sb i (field_header u64s 0 # replicate (unat u64s - 1) 0);
                           Some (Some i, sb) }
             | Some i \<Rightarrow>
                 do { let src = i + unat old_u64s;
                      let dst = i + unat u64s;
                      let fin = vstruct_last sb;
                      require (src \<le> fin);
                      w \<leftarrow> nth_opt sb i;
                      let sb = (if u64s \<noteq> 0 then sb[i := field_header u64s (f_type w)] else sb);
                      require (fin \<le> length sb);
                      let tail = take (fin - src) (drop src sb);
                      sb \<leftarrow> put_words sb dst tail;
                      sb \<leftarrow> (if dst > src then put_words sb src (replicate (dst - src) 0) else Some sb);
                      Some (Some i, sb) });
          Some (if u64s \<noteq> 0 then f else None, set_sb_u64s sb sb_u64s') }"

text \<open>The length of the superblock is computed with 64 bits and cut to 32.\<close>

definition bch2_sb_field_resize_id :: "(nat \<Rightarrow> bool) \<Rightarrow> sb_handle \<Rightarrow> u32 \<Rightarrow> u32 \<Rightarrow> (nat option \<times> sb_handle) option" where
  "bch2_sb_field_resize_id alloc h ty u64s =
     do { sb \<leftarrow> h_sb h;
          f \<leftarrow> bch2_sb_field_get_id sb ty;
          old_u64s \<leftarrow> (case f of None \<Rightarrow> Some 0 | Some i \<Rightarrow> map_option f_u64s (nth_opt sb i));
          let new_sb_u64s = word_of_int (uint (sb_u64s sb) - uint old_u64s + uint u64s);
          (ret, h) \<leftarrow> bch2_sb_realloc alloc h new_sb_u64s;
          if ret \<noteq> 0 then Some (None, h)
          else if h_flags h AND BCH_SB_HANDLE_FS_SB \<noteq> 0 then Some (None, h)
          else do { sb \<leftarrow> h_sb h;
                    f \<leftarrow> bch2_sb_field_get_id sb ty;
                    (f, sb) \<leftarrow> raw_bch2_sb_field_resize sb f u64s;
                    sb \<leftarrow> (case f of None \<Rightarrow> Some sb
                          | Some i \<Rightarrow> do { w \<leftarrow> nth_opt sb i; Some (sb[i := field_header (f_u64s w) ty]) });
                    Some (f, h\<lparr>h_sb := Some sb\<rparr>) } }"

definition bch2_sb_field_get_minsize_id :: "(nat \<Rightarrow> bool) \<Rightarrow> sb_handle \<Rightarrow> u32 \<Rightarrow> u32 \<Rightarrow> (nat option \<times> sb_handle) option" where
  "bch2_sb_field_get_minsize_id alloc h ty u64s =
     do { sb \<leftarrow> h_sb h;
          f \<leftarrow> bch2_sb_field_get_id sb ty;
          case f of None \<Rightarrow> bch2_sb_field_resize_id alloc h ty u64s
          | Some i \<Rightarrow> do { w \<leftarrow> nth_opt sb i; if f_u64s w < u64s then bch2_sb_field_resize_id alloc h ty u64s else Some (f, h) } }"

definition bch2_sb_field_delete :: "sb_handle \<Rightarrow> u32 \<Rightarrow> sb_handle option" where
  "bch2_sb_field_delete h ty =
     do { sb \<leftarrow> h_sb h;
          f \<leftarrow> bch2_sb_field_get_id sb ty;
          case f of None \<Rightarrow> Some h
          | Some i \<Rightarrow> do { (_, sb) \<leftarrow> raw_bch2_sb_field_resize sb f 0; Some (h\<lparr>h_sb := Some sb\<rparr>) } }"

section \<open>Validation\<close>

definition BCH_ERR_invalid_sb_layout :: int where [code_consts]: "BCH_ERR_invalid_sb_layout = - 1"
definition BCH_ERR_invalid_sb_layout_type :: int where [code_consts]: "BCH_ERR_invalid_sb_layout_type = - 2"
definition BCH_ERR_invalid_sb_layout_nr_superblocks :: int where [code_consts]: "BCH_ERR_invalid_sb_layout_nr_superblocks = - 3"
definition BCH_ERR_invalid_sb_layout_superblocks_overlap :: int where [code_consts]: "BCH_ERR_invalid_sb_layout_superblocks_overlap = - 4"
definition BCH_ERR_invalid_sb_layout_sb_max_size_bits :: int where [code_consts]: "BCH_ERR_invalid_sb_layout_sb_max_size_bits = - 5"
definition BCH_ERR_invalid_sb_version :: int where [code_consts]: "BCH_ERR_invalid_sb_version = - 6"
definition BCH_ERR_invalid_sb_features :: int where [code_consts]: "BCH_ERR_invalid_sb_features = - 15"
definition BCH_ERR_invalid_sb_uuid :: int where [code_consts]: "BCH_ERR_invalid_sb_uuid = - 16"
definition BCH_ERR_invalid_sb_offset :: int where [code_consts]: "BCH_ERR_invalid_sb_offset = - 17"
definition BCH_ERR_invalid_sb_too_many_members :: int where [code_consts]: "BCH_ERR_invalid_sb_too_many_members = - 18"
definition BCH_ERR_invalid_sb_dev_idx :: int where [code_consts]: "BCH_ERR_invalid_sb_dev_idx = - 19"
definition BCH_ERR_invalid_sb_time_precision :: int where [code_consts]: "BCH_ERR_invalid_sb_time_precision = - 20"
definition BCH_ERR_invalid_sb_field_size :: int where [code_consts]: "BCH_ERR_invalid_sb_field_size = - 21"
definition BCH_ERR_invalid_sb_members_missing :: int where [code_consts]: "BCH_ERR_invalid_sb_members_missing = - 22"
definition BCH_ERR_invalid_sb_members :: int where [code_consts]: "BCH_ERR_invalid_sb_members = - 23"
definition BCH_ERR_invalid_sb_journal :: int where [code_consts]: "BCH_ERR_invalid_sb_journal = - 24"
definition BCH_ERR_invalid_sb_field_type :: int where [code_consts]: "BCH_ERR_invalid_sb_field_type = - 25"

fun layout_overlap :: "u64 \<Rightarrow> u64 \<Rightarrow> u64 list \<Rightarrow> int" where
  "layout_overlap max_sectors prev_offset [] = 0"
| "layout_overlap max_sectors prev_offset (off # offs) =
     (if off < prev_offset + max_sectors then BCH_ERR_invalid_sb_layout_superblocks_overlap else layout_overlap max_sectors off offs)"

definition validate_sb_layout :: "bch_sb_layout \<Rightarrow> int" where
  "validate_sb_layout l =
     (if lay_magic l \<noteq> BCHFS_MAGIC then BCH_ERR_invalid_sb_layout
      else if lay_layout_type l \<noteq> 0 then BCH_ERR_invalid_sb_layout_type
      else if lay_nr_superblocks l = 0 then BCH_ERR_invalid_sb_layout_nr_superblocks
      else if unat (lay_nr_superblocks l) > 61 then BCH_ERR_invalid_sb_layout_nr_superblocks
      else if lay_sb_max_size_bits l > BCH_SB_LAYOUT_SIZE_BITS_MAX then BCH_ERR_invalid_sb_layout_sb_max_size_bits
      else layout_overlap (push_bit (unat (lay_sb_max_size_bits l)) 1) (lay_sb_offset l ! 0)
             (drop 1 (take (unat (lay_nr_superblocks l)) (lay_sb_offset l))))"

definition bch2_sb_compatible :: "sb_buf \<Rightarrow> int" where
  "bch2_sb_compatible sb =
     (if sb_version sb \<noteq> sb_version_current \<or> sb_version_min sb \<noteq> sb_version_current then BCH_ERR_invalid_sb_version else 0)"

text \<open>A member is copied byte by byte; what its entry does not hold is zero. The fields below are the ones read.\<close>

record bch_member =
  m_uuid :: "u64 \<times> u64"
  m_nbuckets :: u64
  m_first_bucket :: u16
  m_bucket_size :: u16
  m_btree_bitmap_shift :: u8
  m_flags :: u64
  m_seq :: u64
  m_btree_allocated_bitmap :: u64

definition word_bytes :: "u64 \<Rightarrow> u8 list" where
  "word_bytes w = map (\<lambda>i. field w (8 * i) 8) [0..<8]"

definition member_of_bytes :: "u8 list \<Rightarrow> bch_member" where
  "member_of_bytes bs =
     (let w = (\<lambda>i. from_le_bytes (take 8 (drop i bs))) in
      \<lparr>m_uuid = (w 0, w 8), m_nbuckets = w 16, m_first_bucket = field (w 24) 0 16, m_bucket_size = field (w 24) 16 16,
       m_btree_bitmap_shift = field (w 24) 32 8, m_flags = w 40, m_seq = w 120, m_btree_allocated_bitmap = w 128\<rparr>)"

definition MEMBER_BYTES :: nat where [code_consts]: "MEMBER_BYTES = 296"

definition members_member_bytes :: "sb_buf \<Rightarrow> nat \<Rightarrow> u16 option" where
  "members_member_bytes sb i = map_option (\<lambda>w. field w 0 16) (nth_opt sb (i + 1))"

definition bch2_members_v2_get :: "sb_buf \<Rightarrow> nat option \<Rightarrow> nat \<Rightarrow> bch_member option" where
  "bch2_members_v2_get sb members index =
     (case members of None \<Rightarrow> Some (member_of_bytes (replicate MEMBER_BYTES 0))
      | Some i \<Rightarrow>
          do { mb \<leftarrow> members_member_bytes sb i;
               let start = 8 * i + 16 + index * unat mb;
               let n = min (unat mb) MEMBER_BYTES;
               require (start + n \<le> 8 * length sb);
               Some (member_of_bytes (take n (drop start (concat (map word_bytes sb))) @ replicate (MEMBER_BYTES - n) 0)) })"

definition bch2_sb_member_get :: "sb_buf \<Rightarrow> nat \<Rightarrow> bch_member option" where
  "bch2_sb_member_get sb index = do { f \<leftarrow> bch2_sb_field_get_id sb BCH_SB_FIELD_members_v2; bch2_members_v2_get sb f index }"

definition BCH_SB_BTREE_NODE_SIZE :: "sb_buf \<Rightarrow> u64" where
  "BCH_SB_BTREE_NODE_SIZE sb = drop_bit 12 (sb_flags sb 0) AND 0xffff"

definition BCH_SB_VERSION_INCOMPAT :: "sb_buf \<Rightarrow> u16" where
  "BCH_SB_VERSION_INCOMPAT sb = field (sb_flags sb 5) 32 16"

definition BCH_SB_VERSION_INCOMPAT_ALLOWED :: "sb_buf \<Rightarrow> u16" where
  "BCH_SB_VERSION_INCOMPAT_ALLOWED sb = field (sb_flags sb 5) 48 16"

definition SET_BCH_SB_VERSION_INCOMPAT_ALLOWED :: "sb_buf \<Rightarrow> u16 \<Rightarrow> sb_buf" where
  "SET_BCH_SB_VERSION_INCOMPAT_ALLOWED sb x = set_sb_flags sb 5 ((sb_flags sb 5 AND NOT (push_bit 48 0xffff)) OR push_bit 48 (ucast x))"

definition validate_member :: "bch_member \<Rightarrow> sb_buf \<Rightarrow> int" where
  "validate_member m sb =
     (if m_nbuckets m > 0x7fffffff - 64 \<or>
         m_nbuckets m - ucast (m_first_bucket m) < 512 \<or>
         m_bucket_size m < sb_block_size sb \<or>
         ucast (m_bucket_size m) < BCH_SB_BTREE_NODE_SIZE sb \<or>
         m_btree_bitmap_shift m \<ge> 58 \<or>
         m_flags m AND push_bit 30 1 \<noteq> 0 \<and> sb_features sb 0 AND push_bit 21 1 \<noteq> 0
      then BCH_ERR_invalid_sb_members else 0)"

fun validate_members :: "sb_buf \<Rightarrow> nat \<Rightarrow> nat \<Rightarrow> nat \<Rightarrow> int option" where
  "validate_members sb i index 0 = Some 0"
| "validate_members sb i index (Suc n) =
     do { m \<leftarrow> bch2_members_v2_get sb (Some i) index;
          let ret = validate_member m sb;
          if ret \<noteq> 0 then Some ret else validate_members sb i (index + 1) n }"

definition bch2_sb_members_v2_validate :: "sb_buf \<Rightarrow> nat \<Rightarrow> int option" where
  "bch2_sb_members_v2_validate sb i =
     do { w \<leftarrow> nth_opt sb i;
          mb \<leftarrow> members_member_bytes sb i;
          if 16 + unat (sb_nr_devices sb) * unat mb > 8 * unat (f_u64s w) then Some BCH_ERR_invalid_sb_members
          else validate_members sb i 0 (unat (sb_nr_devices sb)) }"

definition bch2_sb_field_journal_v2_nr_entries :: "u32 \<Rightarrow> nat option" where
  "bch2_sb_field_journal_v2_nr_entries u64s = do { require (1 \<le> unat u64s); Some ((unat u64s - 1) div 2) }"

text \<open>The ranges of the journal, \<open>None\<close> inside for an empty or overflowing one.\<close>

fun journal_ranges :: "sb_buf \<Rightarrow> nat \<Rightarrow> nat \<Rightarrow> (u64 \<times> u64) list option option" where
  "journal_ranges sb i 0 = Some (Some [])"
| "journal_ranges sb i (Suc n) =
     do { start \<leftarrow> nth_opt sb i;
          nr \<leftarrow> nth_opt sb (i + 1);
          if start + nr \<le> start then Some None
          else do { r \<leftarrow> journal_ranges sb (i + 2) n; Some (map_option (Cons (start, start + nr)) r) } }"

fun ranges_overlap :: "(u64 \<times> u64) list \<Rightarrow> bool" where
  "ranges_overlap (a # b # rs) \<longleftrightarrow> snd a > fst b \<or> ranges_overlap (b # rs)"
| "ranges_overlap rs \<longleftrightarrow> False"

definition validate_ranges :: "bch_member \<Rightarrow> (u64 \<times> u64) list \<Rightarrow> int" where
  "validate_ranges m rs =
     (let s = sort_key fst rs in
      if fst (s ! 0) = 0 \<or> fst (s ! 0) < ucast (m_first_bucket m) \<or> snd (s ! (length s - 1)) > m_nbuckets m \<or> ranges_overlap s \<or>
         sum_list (map (\<lambda>r. snd r - fst r) rs) > 0xffffffff
      then BCH_ERR_invalid_sb_journal else 0)"

definition bch2_sb_journal_v2_validate :: "sb_buf \<Rightarrow> nat \<Rightarrow> int option" where
  "bch2_sb_journal_v2_validate sb i =
     do { m \<leftarrow> bch2_sb_member_get sb (unat (sb_dev_idx sb));
          w \<leftarrow> nth_opt sb i;
          nr \<leftarrow> bch2_sb_field_journal_v2_nr_entries (f_u64s w);
          if nr = 0 then Some 0
          else do { rs \<leftarrow> journal_ranges sb (i + 1) nr;
                    Some (case rs of None \<Rightarrow> BCH_ERR_invalid_sb_journal | Some rs \<Rightarrow> validate_ranges m rs) } }"

definition bch2_sb_field_validate :: "sb_buf \<Rightarrow> nat \<Rightarrow> int option" where
  "bch2_sb_field_validate sb i =
     do { w \<leftarrow> nth_opt sb i;
          if f_type w = BCH_SB_FIELD_journal_v2 then bch2_sb_journal_v2_validate sb i
          else if f_type w = BCH_SB_FIELD_members_v2 then bch2_sb_members_v2_validate sb i
          else Some BCH_ERR_invalid_sb_field_type }"

partial_function (option) check_field_sizes :: "sb_buf \<Rightarrow> nat \<Rightarrow> nat \<Rightarrow> int option" where
  "check_field_sizes sb fin i =
     (if i < fin then
        Option.bind (nth_opt sb i) (\<lambda>w.
          if f_u64s w = 0 \<or> i + unat (f_u64s w) > fin then Some BCH_ERR_invalid_sb_field_size
          else check_field_sizes sb fin (i + unat (f_u64s w)))
      else Some 0)"

declare check_field_sizes.simps [code]

partial_function (option) validate_fields :: "sb_buf \<Rightarrow> nat \<Rightarrow> nat \<Rightarrow> int option" where
  "validate_fields sb fin i =
     (if i < fin then
        Option.bind (bch2_sb_field_validate sb i) (\<lambda>ret.
          if ret \<noteq> 0 then Some ret
          else Option.bind (nth_opt sb i) (\<lambda>w. validate_fields sb fin (i + unat (f_u64s w))))
      else Some 0)"

declare validate_fields.simps [code]

text \<open>The checks of the header, in their order; the flags that are corrected; and the fields.\<close>

definition sb_incompat_bit :: "sb_buf \<Rightarrow> nat" where
  "sb_incompat_bit sb =
     (let incompat = sb_features sb 0 AND push_bit 24 (- 1) in
      if incompat \<noteq> 0 then trailing_zeros incompat
      else if sb_features sb 1 \<noteq> 0 then 64 + trailing_zeros (sb_features sb 1) else 0)"

definition validate_sb_header :: "sb_buf \<Rightarrow> bool \<Rightarrow> u64 \<Rightarrow> u32 \<Rightarrow> int" where
  "validate_sb_header sb no_version_check read_offset flags =
     (if bch2_sb_compatible sb \<noteq> 0 then bch2_sb_compatible sb
      else if \<not> no_version_check \<and>
        (sb_incompat_bit sb \<noteq> 0 \<or> BCH_VERSION_MAJOR (sb_version sb) > BCH_VERSION_MAJOR sb_version_current \<or>
         BCH_SB_VERSION_INCOMPAT sb > sb_version_current) then BCH_ERR_invalid_sb_features
      else if sb_user_uuid sb = (0, 0) \<or> sb_uuid sb = (0, 0) then BCH_ERR_invalid_sb_uuid
      else if flags AND 1 = 0 \<and> sb_offset sb \<noteq> read_offset then BCH_ERR_invalid_sb_offset
      else if sb_nr_devices sb = 0 then BCH_ERR_invalid_sb_too_many_members
      else if sb_dev_idx sb \<ge> sb_nr_devices sb then BCH_ERR_invalid_sb_dev_idx
      else if sb_time_precision sb = 0 \<or> sb_time_precision sb > 1000000000 then BCH_ERR_invalid_sb_time_precision
      else 0)"

definition correct_sb_flags :: "sb_buf \<Rightarrow> u32 \<Rightarrow> int \<times> sb_buf" where
  "correct_sb_flags sb flags =
     (let sb = (if BCH_SB_VERSION_INCOMPAT_ALLOWED sb > sb_version sb then SET_BCH_SB_VERSION_INCOMPAT_ALLOWED sb (sb_version sb) else sb) in
      if BCH_SB_VERSION_INCOMPAT sb > BCH_SB_VERSION_INCOMPAT_ALLOWED sb \<and> flags AND 1 \<noteq> 0 then (BCH_ERR_invalid_sb_version, sb)
      else
        let sb = (if BCH_SB_VERSION_INCOMPAT sb > BCH_SB_VERSION_INCOMPAT_ALLOWED sb
                  then SET_BCH_SB_VERSION_INCOMPAT_ALLOWED sb (BCH_SB_VERSION_INCOMPAT sb) else sb)
        in (0, if sb_nr_devices sb > 1 then set_sb_flags sb 3 (sb_flags sb 3 OR push_bit 63 1) else sb))"

definition validate_sb_contents :: "sb_buf \<Rightarrow> u32 \<Rightarrow> int option" where
  "validate_sb_contents sb flags =
     (let ret = validate_sb_layout (sb_layout sb) in
      if ret \<noteq> 0 then Some ret
      else do { ret \<leftarrow> check_field_sizes sb (vstruct_last sb) SB_U64S;
                if ret \<noteq> 0 then Some ret
                else do { members \<leftarrow> bch2_sb_field_get_id sb BCH_SB_FIELD_members_v2;
                          case members of None \<Rightarrow> Some BCH_ERR_invalid_sb_members_missing
                          | Some i \<Rightarrow>
                              do { ret \<leftarrow> bch2_sb_field_validate sb i;
                                   if ret \<noteq> 0 then Some ret
                                   else do { ret \<leftarrow> validate_fields sb (vstruct_last sb) SB_U64S;
                                             if ret \<noteq> 0 then Some ret
                                             else if flags AND 1 \<noteq> 0 then
                                               do { m \<leftarrow> bch2_sb_member_get sb (unat (sb_dev_idx sb));
                                                    Some (if m_seq m \<noteq> sb_seq sb then BCH_ERR_invalid_sb_members_missing else 0) }
                                             else Some 0 } } } })"

definition bch2_sb_validate :: "sb_buf \<Rightarrow> bool \<Rightarrow> u64 \<Rightarrow> u32 \<Rightarrow> (int \<times> sb_buf) option" where
  "bch2_sb_validate sb no_version_check read_offset flags =
     (let ret = validate_sb_header sb no_version_check read_offset flags in
      if ret \<noteq> 0 then Some (ret, sb)
      else let (ret, sb) = correct_sb_flags sb flags in
           if ret \<noteq> 0 then Some (ret, sb)
           else map_option (\<lambda>ret. (ret, sb)) (validate_sb_contents sb flags))"

section \<open>Members in memory\<close>

record bch_member_cpu =
  mc_nbuckets :: u64
  mc_nbuckets_minus_first :: u64
  mc_first_bucket :: u16
  mc_bucket_size :: u16
  mc_group :: u16
  mc_state :: u8
  mc_discard :: u8
  mc_data_allowed :: u8
  mc_durability :: u8
  mc_freespace_initialized :: u8
  mc_initialized :: u8
  mc_resize_on_mount :: u8
  mc_rotational :: u8
  mc_valid :: u8
  mc_btree_bitmap_shift :: u8
  mc_btree_allocated_bitmap :: u64

definition bch2_member_alive :: "bch_member \<Rightarrow> bool" where
  "bch2_member_alive m \<longleftrightarrow> m_uuid m \<noteq> (0, 0) \<and> m_uuid m \<noteq> BCH_SB_MEMBER_DELETED_UUID"

definition bch2_mi_to_cpu :: "bch_member \<Rightarrow> bch_member_cpu" where
  "bch2_mi_to_cpu m =
     (let flags = m_flags m; durability = (field flags 28 2 :: u8) in
      \<lparr>mc_nbuckets = m_nbuckets m, mc_nbuckets_minus_first = m_nbuckets m - ucast (m_first_bucket m),
       mc_first_bucket = m_first_bucket m, mc_bucket_size = m_bucket_size m, mc_group = field flags 20 8, mc_state = field flags 0 4,
       mc_discard = field flags 14 1, mc_data_allowed = field flags 15 5, mc_durability = (if durability \<noteq> 0 then durability - 1 else 1),
       mc_freespace_initialized = field flags 30 1, mc_initialized = field flags 34 4, mc_resize_on_mount = field flags 31 1,
       mc_rotational = field flags 32 1, mc_valid = (if bch2_member_alive m then 1 else 0),
       mc_btree_bitmap_shift = m_btree_bitmap_shift m, mc_btree_allocated_bitmap = m_btree_allocated_bitmap m\<rparr>)"

section \<open>Reading\<close>

text \<open>A device takes a sector and the old contents of a piece of the buffer and gives whether the read succeeded and the new
  contents, of the same length; a read that fails half way has changed a part of it.\<close>

type_synonym sb_dev = "u64 \<Rightarrow> u64 list \<Rightarrow> bool \<times> u64 list"

definition BCH_SB_CSUM_TYPE :: "sb_buf \<Rightarrow> u32" where
  "BCH_SB_CSUM_TYPE sb = field (sb_flags sb 0) 2 6"

definition sb_checksum :: "sb_buf \<Rightarrow> bch_csum option" where
  "sb_checksum sb = bch2_checksum (BCH_SB_CSUM_TYPE sb) (drop 16 (concat (map word_bytes (take (vstruct_last sb) sb))))"

text \<open>The size that the layout of a superblock allows, in bytes.\<close>

definition sb_size_limit :: "sb_buf \<Rightarrow> nat" where
  "sb_size_limit sb = 512 * 2 ^ unat (min BCH_SB_LAYOUT_SIZE_BITS_MAX (lay_sb_max_size_bits (sb_layout sb)))"

partial_function (option) read_one_super :: "sb_dev \<Rightarrow> (nat \<Rightarrow> bool) \<Rightarrow> sb_handle \<Rightarrow> u64 \<Rightarrow> (int \<times> sb_handle) option" where
  "read_one_super dev alloc h off =
     Option.bind (h_sb h) (\<lambda>old.
       Option.bind (require (unat off * 512 < 2 ^ 64)) (\<lambda>_.
         let (ok, sb) = dev off old; h = h\<lparr>h_sb := Some sb\<rparr> in
         if \<not> ok then Some (- 9, h)
         else if sb_magic sb \<noteq> BCHFS_MAGIC then Some (- 10, h)
         else if bch2_sb_compatible sb \<noteq> 0 then Some (bch2_sb_compatible sb, h)
         else if raw_vstruct_bytes (sb_u64s sb) > sb_size_limit sb then Some (- 11, h)
         else if raw_vstruct_bytes (sb_u64s sb) > buffer_size h then
           Option.bind (bch2_sb_realloc alloc h (sb_u64s sb)) (\<lambda>(ret, h). if ret \<noteq> 0 then Some (ret, h) else read_one_super dev alloc h off)
         else if BCH_SB_CSUM_TYPE sb \<ge> 8 \<or> BCH_SB_CSUM_TYPE sb = 3 \<or> BCH_SB_CSUM_TYPE sb = 4 then Some (- 12, h)
         else Option.bind (sb_checksum sb) (\<lambda>csum. Some (if csum \<noteq> sb_csum sb then (- 13, h) else (0, h\<lparr>h_seq := sb_seq sb\<rparr>)))))"

declare read_one_super.simps [code]

definition read_layout_sector :: "sb_dev \<Rightarrow> sb_handle \<Rightarrow> (int \<times> bch_sb_layout option \<times> sb_handle) option" where
  "read_layout_sector dev h =
     do { sb \<leftarrow> h_sb h;
          require (64 \<le> length sb);
          let (ok, ws) = dev BCH_SB_LAYOUT_SECTOR (take 64 sb);
          let h = h\<lparr>h_sb := Some (ws @ drop 64 sb)\<rparr>;
          Some (if \<not> ok then (- 9, None, h) else (validate_sb_layout (layout_at ws 0), Some (layout_at ws 0), h)) }"

record backup_state =
  bk_handle :: sb_handle
  bk_best_seq :: u64
  bk_last_read :: u64
  bk_any_valid :: bool
  bk_best_offset :: u64

fun backup_loop :: "sb_dev \<Rightarrow> (nat \<Rightarrow> bool) \<Rightarrow> u64 list \<Rightarrow> backup_state \<Rightarrow> backup_state option" where
  "backup_loop dev alloc [] s = Some s"
| "backup_loop dev alloc (off # offs) s =
     do { (ret, h) \<leftarrow> read_one_super dev alloc (bk_handle s) off;
          let s = s\<lparr>bk_handle := h, bk_last_read := off\<rparr>;
          backup_loop dev alloc offs
            (if ret \<noteq> 0 then s
             else if h_seq h \<ge> bk_best_seq s then s\<lparr>bk_any_valid := True, bk_best_seq := h_seq h, bk_best_offset := off\<rparr>
             else s\<lparr>bk_any_valid := True\<rparr>) }"

definition read_backup_supers :: "sb_dev \<Rightarrow> (nat \<Rightarrow> bool) \<Rightarrow> sb_handle \<Rightarrow> bch_sb_layout \<Rightarrow> bool \<Rightarrow> (int \<times> u64 \<times> sb_handle) option" where
  "read_backup_supers dev alloc h l primary_valid =
     do { let primary = lay_sb_offset l ! 0;
          seq \<leftarrow> (if primary_valid then map_option sb_seq (h_sb h) else Some 0);
          s \<leftarrow> backup_loop dev alloc (drop 1 (take (unat (lay_nr_superblocks l)) (lay_sb_offset l)))
                 \<lparr>bk_handle = h, bk_best_seq = seq, bk_last_read = (if primary_valid then primary else 0), bk_any_valid = primary_valid,
                  bk_best_offset = primary\<rparr>;
          if \<not> bk_any_valid s then Some (- 14, bk_best_offset s, bk_handle s)
          else if bk_last_read s \<noteq> bk_best_offset s then
            do { (ret, h) \<leftarrow> read_one_super dev alloc (bk_handle s) (bk_best_offset s); Some (ret, bk_best_offset s, h) }
          else Some (0, bk_best_offset s, bk_handle s) }"

text \<open>Whether the file can be opened is an argument; the pointers given are not null. The error path gives the buffer back.\<close>

definition bch2_free_super :: "sb_handle \<Rightarrow> sb_handle" where
  "bch2_free_super h = sb_handle_default"

definition read_super_copies :: "sb_dev \<Rightarrow> (nat \<Rightarrow> bool) \<Rightarrow> sb_handle \<Rightarrow> (int \<times> u64 \<times> sb_handle) option" where
  "read_super_copies dev alloc h =
     do { (ret, h) \<leftarrow> read_one_super dev alloc h BCH_SB_SECTOR;
          if ret = 0 then
            do { sb \<leftarrow> h_sb h;
                 let l = sb_layout sb;
                 let ret = validate_sb_layout l;
                 if ret = 0 then read_backup_supers dev alloc h l True else Some (ret, BCH_SB_SECTOR, h) }
          else
            do { (ret, l, h) \<leftarrow> read_layout_sector dev h;
                 case l of Some l \<Rightarrow> if ret = 0 then read_backup_supers dev alloc h l False else Some (ret, BCH_SB_SECTOR, h)
                 | None \<Rightarrow> Some (ret, BCH_SB_SECTOR, h) } }"

definition bch2_read_super :: "bool \<Rightarrow> sb_dev \<Rightarrow> (nat \<Rightarrow> bool) \<Rightarrow> (int \<times> sb_handle) option" where
  "bch2_read_super opens dev alloc =
     (if \<not> opens then Some (- 9, sb_handle_default)
      else do { (ret, h) \<leftarrow> bch2_sb_realloc alloc (sb_handle_default\<lparr>h_file := True\<rparr>) 0;
                if ret \<noteq> 0 then Some (ret, bch2_free_super h)
                else do { (ret, off, h) \<leftarrow> read_super_copies dev alloc h;
                          (ret, h) \<leftarrow>
                            (if ret = 0 then
                               do { let h = h\<lparr>h_flags := h_flags h OR BCH_SB_HANDLE_HAVE_LAYOUT\<rparr>;
                                    sb \<leftarrow> h_sb h;
                                    (ret, sb) \<leftarrow> bch2_sb_validate sb False off 0;
                                    Some (ret, h\<lparr>h_sb := Some sb\<rparr>) }
                             else Some (ret, h));
                          Some (if ret \<noteq> 0 then (ret, bch2_free_super h) else (ret, h)) } })"

end
