(* ===== verification/Word_Run.thy ===== *)
theory Word_Run
  imports Prelude
begin

text \<open>
  Runs of entries that tell their own length in their first word, as the values of extents and the fields of the superblock are:
  a function \<open>len\<close> reads the length of an entry from its first word, and is 0 for a word no entry starts with.
\<close>

function split_run :: "(u64 \<Rightarrow> nat) \<Rightarrow> u64 list \<Rightarrow> u64 list list option" where
  "split_run len ws =
     (case ws of [] \<Rightarrow> Some []
      | w # _ \<Rightarrow>
          if len w = 0 \<or> length ws < len w then None
          else map_option (Cons (take (len w) ws)) (split_run len (drop (len w) ws)))"
  by pat_completeness auto
termination by (relation "measure (length \<circ> snd)") auto

declare split_run.simps [simp del]

definition run_entry :: "(u64 \<Rightarrow> nat) \<Rightarrow> u64 list \<Rightarrow> bool" where
  "run_entry len e \<longleftrightarrow> e \<noteq> [] \<and> length e = len (hd e)"

lemma split_run_Nil [simp]: "split_run len [] = Some []"
  by (subst split_run.simps) simp

lemma split_run_Cons:
  "split_run len (w # ws) =
     (if len w = 0 \<or> length (w # ws) < len w then None
      else map_option (Cons (take (len w) (w # ws))) (split_run len (drop (len w) (w # ws))))"
  by (subst split_run.simps) simp

lemma split_run_sound: "split_run len ws = Some es \<Longrightarrow> ws = concat es \<and> list_all (run_entry len) es"
proof (induction len ws arbitrary: es rule: split_run.induct)
  case (1 len ws)
  show ?case
  proof (cases ws)
    case (Cons w ws')
    let ?n = "len w"
    from "1.prems" obtain es' where n: "?n \<noteq> 0" "?n \<le> length ws" and es: "es = take ?n ws # es'" "split_run len (drop ?n ws) = Some es'"
      unfolding Cons split_run_Cons by (auto split: if_splits)
    have "drop ?n ws = concat es' \<and> list_all (run_entry len) es'" using "1.IH" [OF Cons _ es(2)] n by simp
    moreover have "run_entry len (take ?n ws)" using n Cons by (auto simp: run_entry_def hd_take)
    ultimately show ?thesis using es(1) by simp (metis append_take_drop_id)
  qed (use "1.prems" in simp)
qed

lemma split_run_complete: "list_all (run_entry len) es \<Longrightarrow> split_run len (concat es) = Some es"
proof (induction es)
  case (Cons e es)
  then obtain w ws where w: "e = w # ws" by (cases e) (auto simp: run_entry_def)
  then have n: "len w = length e" using Cons.prems by (simp add: run_entry_def)
  have "split_run len (e @ concat es) = map_option (Cons e) (split_run len (concat es))"
    using n unfolding w append_Cons split_run_Cons by simp
  then show ?case using Cons by simp
qed simp

lemma split_run_iff: "split_run len ws = Some es \<longleftrightarrow> ws = concat es \<and> list_all (run_entry len) es"
  using split_run_sound split_run_complete by blast

lemma run_entry_pos: "run_entry len e \<Longrightarrow> 0 < length e"
  unfolding run_entry_def by blast

lemma nth_run: "run_entry len e \<Longrightarrow> nth_opt (pre @ e @ rest) (length pre) = Some (hd e)"
  by (cases e) (auto simp: run_entry_def nth_append)

end
