(* ===== verification/Superblock_Fields.thy ===== *)
theory Superblock_Fields
  imports Superblock Word_Run
begin

text \<open>
  The fields of a superblock as a list of types and contents, and what resizing, adding and deleting a field do to it: they
  change the field they are told to and leave every other field and the rest of the header as they are.
\<close>

section \<open>The fields as a list\<close>

abbreviation "field_len w \<equiv> unat (f_u64s w)"

definition sb_fields :: "sb_buf \<Rightarrow> (u32 \<times> u64 list) list option" where
  "sb_fields sb =
     (if vstruct_last sb \<le> length sb
      then map_option (map (\<lambda>f. (f_type (hd f), tl f))) (split_run field_len (drop SB_U64S (take (vstruct_last sb) sb)))
      else None)"

text \<open>A field of a type gets a number of words, one of them its header: it is cut or filled up with zeroes, added when there is
  none, removed when the number is 0.\<close>

fun sb_resize :: "u32 \<Rightarrow> nat \<Rightarrow> (u32 \<times> u64 list) list \<Rightarrow> (u32 \<times> u64 list) list" where
  "sb_resize ty n [] = (if n = 0 then [] else [(ty, replicate (n - 1) 0)])"
| "sb_resize ty n ((t, ws) # fs) =
     (if t = ty then if n = 0 then fs else (ty, take (n - 1) (ws @ replicate (n - 1) 0)) # fs else (t, ws) # sb_resize ty n fs)"

abbreviation "field_ok \<equiv> run_entry field_len"

definition sb_holds :: "sb_buf \<Rightarrow> u64 list \<Rightarrow> u64 list list \<Rightarrow> bool" where
  "sb_holds sb pre fs \<longleftrightarrow>
     (\<exists>post. sb = pre @ concat fs @ post) \<and> length pre = SB_U64S \<and> unat (sb_u64s sb) = length (concat fs) \<and> list_all field_ok fs"

lemma sb_fields_iff:
  "sb_fields sb = Some view \<longleftrightarrow> (\<exists>pre fs. sb_holds sb pre fs \<and> view = map (\<lambda>f. (f_type (hd f), tl f)) fs)"
proof
  assume a: "sb_fields sb = Some view"
  then obtain fs where v: "vstruct_last sb \<le> length sb" and s: "split_run field_len (drop SB_U64S (take (vstruct_last sb) sb)) = Some fs"
    and view: "view = map (\<lambda>f. (f_type (hd f), tl f)) fs" by (auto simp: sb_fields_def split: if_splits)
  have le: "SB_U64S \<le> vstruct_last sb" by (simp add: vstruct_last_def)
  have c: "concat fs = drop SB_U64S (take (vstruct_last sb) sb)" "list_all field_ok fs" using s by (simp_all add: split_run_iff)
  have "take SB_U64S (take (vstruct_last sb) sb) @ concat fs = take (vstruct_last sb) sb" unfolding c(1) by (rule append_take_drop_id)
  then have "take SB_U64S sb @ concat fs = take (vstruct_last sb) sb" using le by (simp add: min_def)
  then have "sb = take SB_U64S sb @ concat fs @ drop (vstruct_last sb) sb" by (metis append_assoc append_take_drop_id)
  moreover have "length (concat fs) = unat (sb_u64s sb)" unfolding c(1) using v by (simp add: vstruct_last_def)
  moreover have "length (take SB_U64S sb) = SB_U64S" using le v by simp
  ultimately have "sb_holds sb (take SB_U64S sb) fs" using c(2) unfolding sb_holds_def by metis
  then show "\<exists>pre fs. sb_holds sb pre fs \<and> view = map (\<lambda>f. (f_type (hd f), tl f)) fs" using view by blast
next
  assume "\<exists>pre fs. sb_holds sb pre fs \<and> view = map (\<lambda>f. (f_type (hd f), tl f)) fs"
  then obtain pre fs post where sb: "sb = pre @ concat fs @ post" "length pre = SB_U64S" "unat (sb_u64s sb) = length (concat fs)"
    "list_all field_ok fs" and view: "view = map (\<lambda>f. (f_type (hd f), tl f)) fs" by (auto simp: sb_holds_def)
  have "vstruct_last sb = length (pre @ concat fs)" using sb(2,3) by (simp add: vstruct_last_def)
  then have "vstruct_last sb \<le> length sb" "drop SB_U64S (take (vstruct_last sb) sb) = concat fs" using sb(1,2) by simp_all
  then show "sb_fields sb = Some view" using view split_run_complete [OF sb(4)] by (simp add: sb_fields_def)
qed

lemma field_scan_fields:
  assumes "list_all field_ok fs" "sb = pre @ concat fs @ post"
  shows "(\<exists>a f c. fs = a @ f # c \<and> list_all (\<lambda>g. f_type (hd g) \<noteq> ty) a \<and> f_type (hd f) = ty \<and>
            field_scan sb (length pre + length (concat fs)) ty (length pre) = Some (Some (length (pre @ concat a)))) \<or>
         list_all (\<lambda>g. f_type (hd g) \<noteq> ty) fs \<and> field_scan sb (length pre + length (concat fs)) ty (length pre) = Some None"
    (is "?P pre fs")
  using assms
proof (induction fs arbitrary: pre)
  case Nil
  then show ?case by (simp add: field_scan.simps)
next
  case (Cons e fs)
  have ok: "field_ok e" and v: "sb = pre @ e @ (concat fs @ post)" using Cons.prems by simp_all
  let ?f = "length pre + length (concat (e # fs))"
  have "length pre < ?f" using run_entry_pos [OF ok] by simp
  moreover have "nth_opt sb (length pre) = Some (hd e)" unfolding v by (rule nth_run [OF ok])
  moreover have "length pre + field_len (hd e) = length (pre @ e)" using ok by (simp add: run_entry_def)
  ultimately have s: "field_scan sb ?f ty (length pre) =
    (if f_type (hd e) = ty then Some (Some (length pre)) else field_scan sb ?f ty (length (pre @ e)))"
    by (subst field_scan.simps) (simp del: length_append nth_opt_Some)
  show ?case
  proof (cases "f_type (hd e) = ty")
    case True
    then show ?thesis using s by (intro disjI1 exI [of _ "[]"] exI [of _ e] exI [of _ fs]) simp
  next
    case False
    have "?P (pre @ e) fs" using Cons.IH [of "pre @ e"] Cons.prems by simp
    moreover have f: "?f = length (pre @ e) + length (concat fs)" by simp
    ultimately consider (some) a x c where "fs = a @ x # c" "list_all (\<lambda>g. f_type (hd g) \<noteq> ty) a" "f_type (hd x) = ty"
        "field_scan sb ?f ty (length (pre @ e)) = Some (Some (length ((pre @ e) @ concat a)))"
      | (none) "list_all (\<lambda>g. f_type (hd g) \<noteq> ty) fs" "field_scan sb ?f ty (length (pre @ e)) = Some None"
      by (metis (no_types, lifting))
    then show ?thesis
    proof cases
      case some
      then show ?thesis using s False by (intro disjI1 exI [of _ "e # a"] exI [of _ x] exI [of _ c]) simp
    qed (use s False in simp)
  qed
qed

lemma field_get_fields:
  assumes "sb_holds sb pre fs"
  obtains (some) a f c where "fs = a @ f # c" "list_all (\<lambda>g. f_type (hd g) \<noteq> ty) a" "f_type (hd f) = ty"
      "bch2_sb_field_get_id sb ty = Some (Some (length (pre @ concat a)))"
    | (none) "list_all (\<lambda>g. f_type (hd g) \<noteq> ty) fs" "bch2_sb_field_get_id sb ty = Some None"
proof -
  from assms obtain post where "list_all field_ok fs" "sb = pre @ concat fs @ post" and l: "vstruct_last sb = length pre + length (concat fs)"
    "length pre = SB_U64S" by (auto simp: sb_holds_def vstruct_last_def)
  from field_scan_fields [OF this(1,2), of ty] show thesis
    using that unfolding bch2_sb_field_get_id_def l(1) l(2) [symmetric] by blast
qed

section \<open>Resizing\<close>

lemma field_header_fields [simp]: "f_u64s (field_header n ty) = n" "f_type (field_header n ty) = ty"
  by (rule bit_word_eqI; auto simp: f_u64s_def f_type_def field_header_def bit_field bit_or_iff bit_push_bit_iff bit_ucast_iff
      dest: bit_imp_le_length)+

lemma field_header_id: "field_header (f_u64s w) (f_type w) = w"
  by (rule bit_word_eqI) (auto simp: f_u64s_def f_type_def field_header_def bit_field bit_or_iff bit_push_bit_iff bit_ucast_iff
      dest: bit_imp_le_length)

lemma set_sb_u64s_get: "15 < length sb \<Longrightarrow> sb_u64s (set_sb_u64s sb n) = n"
  by (rule bit_word_eqI) (auto simp: sb_u64s_def set_sb_u64s_def bit_field bit_or_iff bit_and_iff bit_mask_iff bit_push_bit_iff bit_ucast_iff)

text \<open>The header of the superblock but for its length.\<close>

definition same_header :: "sb_buf \<Rightarrow> sb_buf \<Rightarrow> bool" where
  "same_header sb sb' \<longleftrightarrow>
     (\<forall>i<SB_U64S. i \<noteq> 15 \<longrightarrow> sb' ! i = sb ! i) \<and> (field (sb' ! 15) 0 32 :: u32) = field (sb ! 15) 0 32"

lemma set_sb_u64s_append: "length pre = SB_U64S \<Longrightarrow> set_sb_u64s (pre @ ws) n = set_sb_u64s pre n @ ws"
  by (simp add: set_sb_u64s_def list_update_append nth_append SB_U64S_def)

lemma same_header_set: "length pre = SB_U64S \<Longrightarrow> same_header (pre @ ws) (set_sb_u64s pre n @ ws')"
proof -
  assume l: "length pre = SB_U64S"
  have "(field ((pre ! 15 AND mask 32) OR push_bit 32 (ucast n)) 0 32 :: u32) = field (pre ! 15) 0 32"
    by (rule bit_word_eqI) (auto simp: bit_field bit_or_iff bit_and_iff bit_mask_iff bit_push_bit_iff)
  then show ?thesis using l by (auto simp: same_header_def set_sb_u64s_def nth_append SB_U64S_def)
qed

lemma sb_holds_set:
  assumes "length pre = SB_U64S" "list_all field_ok fs" "unat n = length (concat fs)"
  shows "sb_holds (set_sb_u64s (pre @ concat fs @ post) n) (set_sb_u64s pre n) fs"
proof -
  have "sb_u64s (set_sb_u64s (pre @ concat fs @ post) n) = n" using assms(1) by (intro set_sb_u64s_get) (simp add: SB_U64S_def)
  then show ?thesis using assms unfolding set_sb_u64s_append [OF assms(1)] sb_holds_def by (auto simp: set_sb_u64s_def)
qed

lemma put_words_mid: "length ws' = length ws \<Longrightarrow> n = length a \<Longrightarrow> put_words (a @ ws @ b) n ws' = Some (a @ ws' @ b)"
  by (simp add: put_words_def)

text \<open>The words of the buffer around a field that is resized.\<close>

definition resized :: "u32 \<Rightarrow> u64 list \<Rightarrow> u64 list" where
  "resized n f = (if n = 0 then [] else field_header n (f_type (hd f)) # take (unat n - 1) (tl f @ replicate (unat n - 1) 0))"

lemma resize_words:
  assumes "f \<noteq> []" "length p + unat n + length c \<le> length p + length f + length c + length post"
  shows "\<exists>rest. (let sb = p @ f @ c @ post; i = length p; src = i + length f; dst = i + unat n;
       sb = (if n \<noteq> 0 then sb[i := field_header n (f_type (hd f))] else sb);
       tail = take (length c) (drop src sb) in
     Option.bind (put_words sb dst tail) (\<lambda>sb. if dst > src then put_words sb src (replicate (dst - src) 0) else Some sb)) =
     Some (p @ resized n f @ c @ rest)"
proof -
  obtain w ws where f: "f = w # ws" using assms(1) by (cases f) auto
  define x where "x = (if n \<noteq> 0 then field_header n (f_type w) else w) # ws"
  have lx: "length x = length f" by (simp add: x_def f)
  have u: "(if n \<noteq> 0 then (p @ f @ c @ post)[length p := field_header n (f_type (hd f))] else p @ f @ c @ post) = p @ x @ c @ post"
    by (simp add: f x_def list_update_append)
  have t: "take (length c) (drop (length p + length f) (p @ x @ c @ post)) = c" by (simp add: lx)
  show ?thesis
  proof (cases "unat n \<le> length f")
    case True
    have "put_words (p @ x @ c @ post) (length p + unat n) c = Some (p @ take (unat n) x @ c @ drop (length p + unat n + length c) (p @ x @ c @ post))"
      using assms(2) True lx by (simp add: put_words_def)
    moreover have "take (unat n) x = resized n f"
    proof (cases "n = 0")
      case False
      then obtain m where "unat n = Suc m" using not0_implies_Suc [of "unat n"] by (auto simp: unat_eq_0)
      then show ?thesis using True False by (simp add: x_def resized_def f)
    qed (simp add: resized_def)
    ultimately show ?thesis using True unfolding Let_def u t by simp
  next
    case False
    define r where "r = drop (length p + unat n + length c) (p @ x @ c @ post)"
    define g where "g = take (unat n - length f) (c @ post)"
    have "put_words (p @ x @ c @ post) (length p + unat n) c = Some (p @ x @ g @ c @ r)"
      using assms(2) False lx by (simp add: put_words_def r_def g_def)
    moreover have "length g = unat n - length f" using assms(2) False by (simp add: g_def)
    then have "put_words (p @ x @ g @ c @ r) (length p + length f) (replicate (unat n - length f) 0) = Some (p @ (x @ replicate (unat n - length f) 0) @ c @ r)"
      using put_words_mid [of "replicate (unat n - length f) 0" g "length p + length f" "p @ x" "c @ r"] lx by simp
    moreover have "x @ replicate (unat n - length f) 0 = resized n f"
    proof -
      have "n \<noteq> 0" using False by auto
      moreover have "replicate (unat n - length f) (0 :: u64) = take (unat n - 1 - length ws) (replicate (unat n - 1) 0)" using False by (simp add: f)
      ultimately show ?thesis using False by (simp add: x_def resized_def f)
    qed
    ultimately show ?thesis using False unfolding Let_def u t by (intro exI [of _ r]) simp
  qed
qed

lemma resized_ok:
  assumes "n \<noteq> 0"
  shows "field_ok (resized n f)" "length (resized n f) = unat n" "f_type (hd (resized n f)) = f_type (hd f)"
proof -
  have "0 < unat n" using assms by (simp add: unat_gt_0)
  then show "length (resized n f) = unat n" using assms by (simp add: resized_def)
  then show "field_ok (resized n f)" using assms by (simp add: run_entry_def resized_def)
  show "f_type (hd (resized n f)) = f_type (hd f)" using assms by (simp add: resized_def)
qed

abbreviation "resized_list n f \<equiv> if n = 0 then [] else [resized n f]"

lemma concat_resized: "concat (resized_list n f) = resized n f"
  by (simp add: resized_def)

lemma length_resized: "length (resized n f) = unat n"
  by (cases "n = 0") (simp_all add: resized_ok(2), simp add: resized_def)

lemma raw_resize_field:
  assumes "sb_holds sb pre (a @ f # c)" "unat (sb_u64s sb) + unat n < 2 ^ 32"
    "SB_U64S + (unat (sb_u64s sb) + unat n - length f) \<le> length sb"
  shows "\<exists>sb' pre'. raw_bch2_sb_field_resize sb (Some (length (pre @ concat a))) n =
       Some (if n = 0 then None else Some (length (pre @ concat a)), sb') \<and> same_header sb sb' \<and> sb_holds sb' pre' (a @ resized_list n f @ c)"
proof -
  from assms(1) obtain post where sb: "sb = pre @ concat a @ f @ concat c @ post" and l: "length pre = SB_U64S"
    and u: "unat (sb_u64s sb) = length (concat a) + length f + length (concat c)" and ok: "field_ok f" "list_all field_ok a" "list_all field_ok c"
    by (auto simp: sb_holds_def)
  let ?p = "pre @ concat a"
  have f0: "f \<noteq> []" and fl: "unat (f_u64s (hd f)) = length f" using ok(1) by (auto simp: run_entry_def)
  define m where "m = sb_u64s sb + n - f_u64s (hd f)"
  have add: "unat (sb_u64s sb + n) = unat (sb_u64s sb) + unat n" using assms(2) by (simp add: unat_word_ariths)
  then have sub: "f_u64s (hd f) \<le> sb_u64s sb + n" using u fl by (simp add: word_le_nat_alt)
  then have m: "unat m = length (concat a) + unat n + length (concat c)" unfolding m_def using add u fl by (simp add: unat_sub)
  have ca: "checked_add (sb_u64s sb) n = Some (sb_u64s sb + n)" "checked_sub (sb_u64s sb + n) (f_u64s (hd f)) = Some m"
    using assms(2) sub by (simp_all add: checked_add_Some checked_sub_def m_def)
  have hd: "nth_opt sb (length ?p) = Some (hd f)" using nth_run [OF ok(1), of ?p "concat c @ post"] by (simp add: sb)
  have vl: "vstruct_last sb = length ?p + length f + length (concat c)" using u l by (simp add: vstruct_last_def)
  have "length ?p + unat n + length (concat c) \<le> length sb" using assms(3) l u m by simp
  then obtain rest where r: "(let sb = ?p @ f @ concat c @ post; i = length ?p; src = i + length f; dst = i + unat n;
       sb = (if n \<noteq> 0 then sb[i := field_header n (f_type (hd f))] else sb);
       tail = take (length (concat c)) (drop src sb) in
     Option.bind (put_words sb dst tail) (\<lambda>sb. if dst > src then put_words sb src (replicate (dst - src) 0) else Some sb)) =
     Some (?p @ resized n f @ concat c @ rest)"
    using resize_words [OF f0, of ?p n "concat c" post] sb by auto
  let ?sb = "?p @ resized n f @ concat c @ rest"
  have req: "raw_vstruct_bytes m \<le> 8 * length sb" using assms(3) l u m by (simp add: raw_vstruct_bytes_def SB_U64S_def)
  have "raw_bch2_sb_field_resize sb (Some (length ?p)) n = Some (if n = 0 then None else Some (length ?p), set_sb_u64s ?sb m)"
  proof -
    define sb0 where "sb0 = (if n \<noteq> 0 then sb[length ?p := field_header n (f_type (hd f))] else sb)"
    have sb': "?p @ f @ concat c @ post = sb" by (simp add: sb)
    define t where "t = take (length (concat c)) (drop (length ?p + length f) sb0)"
    from r obtain sb1 where s1: "put_words sb0 (length ?p + unat n) t = Some sb1"
      and s2: "(if length ?p + length f < length ?p + unat n then put_words sb1 (length ?p + length f) (replicate (length ?p + unat n - (length ?p + length f)) 0)
        else Some sb1) = Some ?sb"
      unfolding Let_def sb' sb0_def [symmetric] t_def [symmetric] bind_eq_Some_conv by blast
    have le: "vstruct_last sb \<le> length sb0" using vl by (simp add: sb0_def) (simp add: sb)
    have d: "vstruct_last sb - (length ?p + length f) = length (concat c)" using vl by simp
    show ?thesis unfolding raw_bch2_sb_field_resize_def Let_def option.case hd option.map bind.simps ca sb0_def [symmetric] fl d t_def [symmetric]
      using req le vl s1 s2 by (simp add: fl d sb0_def [symmetric] t_def [symmetric] del: length_append)
  qed
  moreover have "set_sb_u64s ?sb m = set_sb_u64s (pre @ concat (a @ resized_list n f @ c) @ rest) m" by (simp add: resized_def)
  moreover have "sb_holds (set_sb_u64s (pre @ concat (a @ resized_list n f @ c) @ rest) m) (set_sb_u64s pre m) (a @ resized_list n f @ c)"
    using ok m l resized_ok by (intro sb_holds_set) auto
  moreover have "same_header sb (set_sb_u64s ?sb m)"
    using same_header_set [OF l] set_sb_u64s_append [OF l] by (simp add: sb)
  ultimately show ?thesis by metis
qed

lemma raw_resize_new:
  assumes "sb_holds sb pre fs" "unat (sb_u64s sb) + unat n < 2 ^ 32" "SB_U64S + (unat (sb_u64s sb) + unat n) \<le> length sb" "n \<noteq> 0"
  shows "\<exists>sb' pre'. raw_bch2_sb_field_resize sb None n = Some (Some (length (pre @ concat fs)), sb') \<and> same_header sb sb' \<and>
     sb_holds sb' pre' (fs @ [field_header n 0 # replicate (unat n - 1) 0])"
proof -
  from assms(1) obtain post where sb: "sb = pre @ concat fs @ post" and l: "length pre = SB_U64S"
    and u: "unat (sb_u64s sb) = length (concat fs)" and ok: "list_all field_ok fs" by (auto simp: sb_holds_def)
  let ?f = "field_header n 0 # replicate (unat n - 1) 0" and ?m = "sb_u64s sb + n"
  have n: "0 < unat n" using assms(4) by (simp add: unat_gt_0)
  have fok: "field_ok ?f" "length ?f = unat n" using n by (simp_all add: run_entry_def)
  have m: "unat ?m = unat (sb_u64s sb) + unat n" using assms(2) by (simp add: unat_word_ariths)
  have ca: "checked_add (sb_u64s sb) n = Some ?m" "checked_sub ?m 0 = Some ?m"
    using assms(2) by (simp_all add: checked_add_Some checked_sub_def)
  have vl: "vstruct_last sb = length (pre @ concat fs)" using u l by (simp add: vstruct_last_def)
  let ?sb = "pre @ concat (fs @ [?f]) @ drop (unat n) post"
  have "put_words sb (vstruct_last sb) ?f = Some ?sb"
    using assms(3) fok(2) l u unfolding vl put_words_def fok(2) by (simp add: sb)
  then have "raw_bch2_sb_field_resize sb None n = Some (Some (length (pre @ concat fs)), set_sb_u64s ?sb ?m)"
    using ca assms(3,4) m unfolding raw_bch2_sb_field_resize_def by (simp add: Let_def vl raw_vstruct_bytes_def SB_U64S_def)
  moreover have "sb_holds (set_sb_u64s ?sb ?m) (set_sb_u64s pre ?m) (fs @ [?f])"
    using ok fok l m u n by (intro sb_holds_set) auto
  moreover have "same_header sb (set_sb_u64s ?sb ?m)" unfolding set_sb_u64s_append [OF l] by (subst (1) sb) (rule same_header_set [OF l])
  ultimately show ?thesis by blast
qed

abbreviation "fields_view fs \<equiv> map (\<lambda>f. (f_type (hd f), tl f)) fs"

lemma sb_resize_found:
  "list_all (\<lambda>g. f_type (hd g) \<noteq> ty) a \<Longrightarrow> f_type (hd f) = ty \<Longrightarrow>
   sb_resize ty (unat n) (fields_view (a @ f # c)) = fields_view (a @ resized_list n f @ c)"
  by (induction a) (auto simp: resized_def unat_eq_0)

lemma sb_resize_missing:
  "list_all (\<lambda>g. f_type (hd g) \<noteq> ty) fs \<Longrightarrow> n \<noteq> 0 \<Longrightarrow>
   sb_resize ty (unat n) (fields_view fs) = fields_view (fs @ [field_header n ty # replicate (unat n - 1) 0])"
  by (induction fs) (auto simp: unat_eq_0)

lemma sb_resize_none: "list_all (\<lambda>g. f_type (hd g) \<noteq> ty) fs \<Longrightarrow> sb_resize ty 0 (fields_view fs) = fields_view fs"
  by (induction fs) auto

lemma next_power_of_two_ge: "n \<le> next_power_of_two n"
proof -
  have "n - 1 < 2 ^ bit_len (n - 1)" by (rule less_power_bit_len)
  then show ?thesis by (simp add: next_power_of_two_def) linarith
qed

lemma buffer_words: "752 \<le> n \<Longrightarrow> 8 * (next_power_of_two n div 8) = next_power_of_two n"
proof -
  assume n: "752 \<le> n"
  have "3 \<le> bit_len (n - 1)" using n bit_len_le_iff [of "n - 1" 2] by (cases "3 \<le> bit_len (n - 1)") auto
  then have "(2 :: nat) ^ 3 dvd 2 ^ bit_len (n - 1)" by (rule le_imp_power_dvd)
  then show ?thesis using n by (simp add: next_power_of_two_def)
qed

lemma realloc_ok:
  assumes "h_sb h = Some sb" "bch2_sb_realloc alloc h n = Some (0, h')"
  shows "\<exists>z. h' = h\<lparr>h_sb := Some (sb @ z)\<rparr> \<and> SB_U64S + unat n \<le> length (sb @ z)"
proof -
  let ?b = "raw_vstruct_bytes n"
  have b: "?b \<le> next_power_of_two ?b" "8 * (next_power_of_two ?b div 8) = next_power_of_two ?b"
    using next_power_of_two_ge buffer_words by (simp_all add: raw_vstruct_bytes_def)
  show ?thesis
  proof (cases "next_power_of_two ?b \<le> 8 * length sb")
    case True
    then have "h' = h" using assms by (simp add: bch2_sb_realloc_def)
    then show ?thesis using True b assms(1) by (intro exI [of _ "[]"]) (simp add: raw_vstruct_bytes_def SB_U64S_def)
  next
    case False
    let ?z = "replicate (next_power_of_two ?b div 8 - length sb) 0"
    have "h' = h\<lparr>h_sb := Some (sb @ ?z)\<rparr>" using assms False
      by (auto simp: bch2_sb_realloc_def Let_def BCH_ERR_ENOSPC_sb_def BCH_ERR_ENOMEM_sb_buf_realloc_def split: if_splits)
    then show ?thesis using False b by (intro exI [of _ ?z]) (simp add: raw_vstruct_bytes_def SB_U64S_def)
  qed
qed

lemma sb_holds_grow: "sb_holds sb pre fs \<Longrightarrow> sb_holds (sb @ z) pre fs"
proof -
  assume h: "sb_holds sb pre fs"
  have "sb_u64s (sb @ z) = sb_u64s sb" using h by (auto simp: sb_holds_def sb_u64s_def nth_append SB_U64S_def)
  then show ?thesis using h by (auto simp: sb_holds_def)
qed

lemma first_takeWhile: "list_all (\<lambda>x. \<not> P x) a \<Longrightarrow> P f \<Longrightarrow> takeWhile (\<lambda>x. \<not> P x) (a @ f # c) = a"
  by (induction a) auto

lemma get_found:
  assumes "sb_holds sb pre (a @ f # c)" "list_all (\<lambda>g. f_type (hd g) \<noteq> ty) a" "f_type (hd f) = ty"
  shows "bch2_sb_field_get_id sb ty = Some (Some (length (pre @ concat a)))"
  using assms(1)
proof (cases rule: field_get_fields [where ty = ty])
  case (some a' f' c')
  then have "a' = a" using first_takeWhile [of "\<lambda>g. f_type (hd g) = ty" a f c] first_takeWhile [of "\<lambda>g. f_type (hd g) = ty" a' f' c'] assms(2,3) by simp
  then show ?thesis using some(4) by simp
next
  case none
  then show ?thesis using assms(3) by simp
qed

lemma get_missing:
  assumes "sb_holds sb pre fs" "list_all (\<lambda>g. f_type (hd g) \<noteq> ty) fs"
  shows "bch2_sb_field_get_id sb ty = Some None"
  using assms(1) by (cases rule: field_get_fields [where ty = ty]) (use assms(2) in auto)

definition field_words :: "(u32 \<times> u64 list) list \<Rightarrow> nat" where
  "field_words fs = sum_list (map (\<lambda>(t, ws). Suc (length ws)) fs)"

lemma field_words_view: "list_all field_ok fs \<Longrightarrow> field_words (fields_view fs) = length (concat fs)"
proof (induction fs)
  case (Cons f fs)
  then show ?case using run_entry_pos [of field_len f] by (auto simp: field_words_def)
qed (simp add: field_words_def)

text \<open>Setting the type of a field.\<close>

lemma set_type:
  assumes "sb_holds sb pre (a @ f # c)"
  shows "nth_opt sb (length (pre @ concat a)) = Some (hd f)"
    "sb_holds (sb[length (pre @ concat a) := field_header (f_u64s (hd f)) ty]) pre (a @ (field_header (f_u64s (hd f)) ty # tl f) # c)"
    "same_header sb (sb[length (pre @ concat a) := field_header (f_u64s (hd f)) ty])"
proof -
  from assms obtain post where sb: "sb = pre @ concat a @ f @ concat c @ post" and l: "length pre = SB_U64S"
    and u: "unat (sb_u64s sb) = length (concat a) + length f + length (concat c)" and ok: "field_ok f" "list_all field_ok a" "list_all field_ok c"
    by (auto simp: sb_holds_def)
  let ?i = "length (pre @ concat a)" and ?w = "field_header (f_u64s (hd f)) ty"
  show "nth_opt sb ?i = Some (hd f)" using nth_run [OF ok(1), of "pre @ concat a" "concat c @ post"] by (simp add: sb)
  obtain w ws where f: "f = w # ws" using ok(1) by (cases f) (auto simp: run_entry_def)
  have s: "sb[?i := ?w] = pre @ concat a @ (?w # ws) @ concat c @ post" by (simp add: sb f list_update_append)
  have fok: "field_ok (?w # tl f)" using ok(1) by (simp add: run_entry_def f)
  have g: "15 \<noteq> ?i" using l by (simp add: SB_U64S_def)
  have "sb_u64s (sb[?i := ?w]) = sb_u64s sb" using g by (simp add: sb_u64s_def del: length_append)
  then show "sb_holds (sb[?i := ?w]) pre (a @ (?w # tl f) # c)" using s ok l u fok by (auto simp: sb_holds_def f)
  show "same_header sb (sb[?i := ?w])" using l by (auto simp: same_header_def SB_U64S_def)
qed

lemma same_header_trans: "same_header a b \<Longrightarrow> same_header b c \<Longrightarrow> same_header a c"
  by (simp add: same_header_def)

lemma same_header_grow: "sb_holds sb pre fs \<Longrightarrow> same_header sb (sb @ z)"
  by (auto simp: same_header_def sb_holds_def SB_U64S_def nth_append)

text \<open>What resizing to \<open>n\<close> words has to reach, from the handle whose buffer has been made large enough.\<close>

definition resize_reaches :: "(nat \<Rightarrow> bool) \<Rightarrow> sb_handle \<Rightarrow> u32 \<Rightarrow> u32 \<Rightarrow> sb_buf \<Rightarrow> (u32 \<times> u64 list) list \<Rightarrow> sb_handle \<Rightarrow> bool" where
  "resize_reaches alloc h ty n sb fs h1 \<longleftrightarrow>
     (\<exists>r sb'. bch2_sb_field_resize_id alloc h ty n = Some (r, h1\<lparr>h_sb := Some sb'\<rparr>) \<and> sb_fields sb' = Some fs \<and> same_header sb sb' \<and>
       (n \<noteq> 0 \<longrightarrow> r \<noteq> None \<and> bch2_sb_field_get_id sb' ty = Some r))"

lemma word_of_sum: "int t = uint a - uint b + uint c \<Longrightarrow> word_of_int (uint a - uint b + uint c) = (of_nat t :: u32)"
  by (metis of_int_of_nat_eq)

lemma grown_u64s: "sb_holds sb pre fs \<Longrightarrow> sb_u64s (sb @ z) = sb_u64s sb"
  by (auto simp: sb_holds_def sb_u64s_def nth_append SB_U64S_def)

lemma resize_id_found:
  assumes "h_sb h = Some sb" "sb_holds sb pre (a @ f # c)" "list_all (\<lambda>g. f_type (hd g) \<noteq> ty) a" "f_type (hd f) = ty"
    "h_flags h AND BCH_SB_HANDLE_FS_SB = 0" "unat (sb_u64s sb) + unat n < 2 ^ 32"
    "bch2_sb_realloc alloc h (of_nat (length (concat (a @ resized_list n f @ c)))) = Some (0, h1)"
  shows "resize_reaches alloc h ty n sb (fields_view (a @ resized_list n f @ c)) h1"
proof -
  let ?i = "length (pre @ concat a)" and ?t = "length (concat (a @ resized_list n f @ c))"
  have u: "unat (sb_u64s sb) = length (concat a) + length f + length (concat c)" and l: "length pre = SB_U64S" and fl: "unat (f_u64s (hd f)) = length f"
    using assms(2) by (auto simp: sb_holds_def run_entry_def)
  have t: "?t = length (concat a) + unat n + length (concat c)" using length_resized [of n f] by (simp add: concat_resized)
  then have lt: "?t < 2 ^ 32" using assms(6) u by linarith
  have "int ?t = uint (sb_u64s sb) - uint (f_u64s (hd f)) + uint n"
    using arg_cong [OF t, of int] arg_cong [OF u, of int] arg_cong [OF fl, of int] by simp
  note i = word_of_sum [OF this]
  obtain z where z: "h1 = h\<lparr>h_sb := Some (sb @ z)\<rparr>" "SB_U64S + ?t \<le> length (sb @ z)"
    using realloc_ok [OF assms(1,7)] unat_of_nat_small [where 'a = 32, of ?t] lt by auto
  have h1: "sb_holds (sb @ z) pre (a @ f # c)" by (rule sb_holds_grow [OF assms(2)])
  obtain sb' pre' where r: "raw_bch2_sb_field_resize (sb @ z) (Some ?i) n = Some (if n = 0 then None else Some ?i, sb')"
    "same_header (sb @ z) sb'" "sb_holds sb' pre' (a @ resized_list n f @ c)"
    using raw_resize_field [OF h1, of n] assms(6) z(2) u t unfolding grown_u64s [OF assms(2)] by auto
  have l': "length pre' = length pre" using r(3) l by (simp add: sb_holds_def)
  have hd: "nth_opt sb ?i = Some (hd f)" by (rule set_type(1) [OF assms(2)])
  have ty: "nth_opt sb' ?i = Some (hd (resized n f)) \<and> sb'[?i := field_header (f_u64s (hd (resized n f))) ty] = sb'" if n: "n \<noteq> 0"
  proof -
    have "nth_opt sb' ?i = Some (hd (resized n f))" using set_type(1) [of sb' pre' a "resized n f" c] r(3) l' n by simp
    then show ?thesis using resized_ok(3) [OF n, of f] assms(4) field_header_id [of "hd (resized n f)"] by (auto simp: list_update_same_conv)
  qed
  have "bch2_sb_field_resize_id alloc h ty n = Some (if n = 0 then None else Some ?i, h1\<lparr>h_sb := Some sb'\<rparr>)"
    unfolding bch2_sb_field_resize_id_def assms(1) get_found [OF assms(2-4)] bind.simps option.case hd option.map Let_def i assms(7)
    using ty assms(5) get_found [OF h1 assms(3,4)] r(1) by (auto simp: z(1) nth_opt_in_range simp del: length_append)
  moreover have "sb_fields sb' = Some (fields_view (a @ resized_list n f @ c))" unfolding sb_fields_iff using r(3) by blast
  moreover have "same_header sb sb'" by (rule same_header_trans [OF same_header_grow [OF assms(2)] r(2)])
  moreover have "n \<noteq> 0 \<Longrightarrow> bch2_sb_field_get_id sb' ty = Some (Some ?i)"
    using get_found [of sb' pre' a "resized n f" c ty] r(3) assms(3,4) resized_ok(3) l' by simp
  ultimately show ?thesis unfolding resize_reaches_def by auto
qed

lemma resize_id_missing:
  assumes "h_sb h = Some sb" "sb_holds sb pre fs" "list_all (\<lambda>g. f_type (hd g) \<noteq> ty) fs" "n \<noteq> 0"
    "h_flags h AND BCH_SB_HANDLE_FS_SB = 0" "unat (sb_u64s sb) + unat n < 2 ^ 32"
    "bch2_sb_realloc alloc h (of_nat (length (concat fs) + unat n)) = Some (0, h1)"
  shows "resize_reaches alloc h ty n sb (fields_view (fs @ [field_header n ty # replicate (unat n - 1) 0])) h1"
proof -
  let ?i = "length (pre @ concat fs)" and ?t = "length (concat fs) + unat n"
  let ?f = "field_header n 0 # replicate (unat n - 1) 0" and ?g = "field_header n ty # replicate (unat n - 1) 0"
  have u: "unat (sb_u64s sb) = length (concat fs)" and l: "length pre = SB_U64S" using assms(2) by (auto simp: sb_holds_def)
  have "int ?t = uint (sb_u64s sb) - uint (0 :: u32) + uint n" using arg_cong [OF u, of int] by simp
  note i = word_of_sum [OF this]
  obtain z where z: "h1 = h\<lparr>h_sb := Some (sb @ z)\<rparr>" "SB_U64S + ?t \<le> length (sb @ z)"
    using realloc_ok [OF assms(1,7)] unat_of_nat_small [where 'a = 32, of ?t] assms(6) u by auto
  have h1: "sb_holds (sb @ z) pre fs" by (rule sb_holds_grow [OF assms(2)])
  obtain sb' pre' where r: "raw_bch2_sb_field_resize (sb @ z) None n = Some (Some ?i, sb')"
    "same_header (sb @ z) sb'" "sb_holds sb' pre' (fs @ [?f])"
    using raw_resize_new [OF h1, of n] assms(4,6) z(2) u unfolding grown_u64s [OF assms(2)] by auto
  have l': "length (pre' @ concat fs) = ?i" using r(3) l by (simp add: sb_holds_def)
  let ?sb = "sb'[?i := ?g ! 0]"

  have hd: "nth_opt sb' ?i = Some (hd ?f)" using set_type(1) [OF r(3)] unfolding l' by simp
  have "bch2_sb_field_resize_id alloc h ty n = Some (Some ?i, h1\<lparr>h_sb := Some ?sb\<rparr>)"
    unfolding bch2_sb_field_resize_id_def assms(1) get_missing [OF assms(2,3)] bind.simps option.case Let_def i assms(7)
    using assms(5) get_missing [OF h1 assms(3)] r(1) by (simp add: z(1) hd del: length_append nth_opt_Some)
  moreover have h2: "sb_holds ?sb pre' (fs @ [?g])" using set_type(2) [OF r(3), of ty] unfolding l' by simp
  then have "sb_fields ?sb = Some (fields_view (fs @ [?g]))" unfolding sb_fields_iff by blast
  moreover have "same_header sb' ?sb" using set_type(3) [OF r(3), of ty] unfolding l' by simp
  then have "same_header sb ?sb" using same_header_trans same_header_grow [OF assms(2)] r(2) by blast
  moreover have "bch2_sb_field_get_id ?sb ty = Some (Some ?i)"
    using get_found [of ?sb pre' fs ?g "[]" ty] h2 assms(3) l' by simp
  ultimately show ?thesis unfolding resize_reaches_def by blast
qed

lemma set_sb_u64s_same: "15 < length sb \<Longrightarrow> set_sb_u64s sb (sb_u64s sb) = sb"
proof -
  assume l: "15 < length sb"
  have "(sb ! 15 AND mask 32) OR push_bit 32 (ucast (sb_u64s sb)) = sb ! 15"
    by (rule bit_word_eqI) (auto simp: sb_u64s_def bit_field bit_or_iff bit_and_iff bit_mask_iff bit_push_bit_iff bit_ucast_iff)
  then show ?thesis using l by (simp add: set_sb_u64s_def)
qed

lemma resize_id_absent:
  assumes "h_sb h = Some sb" "sb_holds sb pre fs" "list_all (\<lambda>g. f_type (hd g) \<noteq> ty) fs"
    "h_flags h AND BCH_SB_HANDLE_FS_SB = 0" "bch2_sb_realloc alloc h (of_nat (length (concat fs))) = Some (0, h1)"
  shows "resize_reaches alloc h ty 0 sb (fields_view fs) h1"
proof -
  have u: "unat (sb_u64s sb) = length (concat fs)" using assms(2) by (auto simp: sb_holds_def)
  have "int (length (concat fs)) = uint (sb_u64s sb) - uint (0 :: u32) + uint (0 :: u32)" using arg_cong [OF u, of int] by simp
  note i = word_of_sum [OF this]
  have n: "unat (of_nat (length (concat fs)) :: u32) = length (concat fs)" by (metis u of_nat_unat ucast_id unat_of_nat_small unsigned_less)
  obtain z where z: "h1 = h\<lparr>h_sb := Some (sb @ z)\<rparr>" "SB_U64S + unat (sb_u64s sb) \<le> length (sb @ z)"
    using realloc_ok [OF assms(1,5)] u n by auto
  have h1: "sb_holds (sb @ z) pre fs" by (rule sb_holds_grow [OF assms(2)])
  have "raw_bch2_sb_field_resize (sb @ z) None 0 = Some (None, sb @ z)"
    using z(2) set_sb_u64s_same [of "sb @ z"] grown_u64s [OF assms(2)]
    by (simp add: raw_bch2_sb_field_resize_def checked_add_def checked_sub_def raw_vstruct_bytes_def SB_U64S_def)
  then have "bch2_sb_field_resize_id alloc h ty 0 = Some (None, h1\<lparr>h_sb := Some (sb @ z)\<rparr>)"
    unfolding bch2_sb_field_resize_id_def assms(1) get_missing [OF assms(2,3)] bind.simps option.case Let_def i assms(5)
    using assms(4) get_missing [OF h1 assms(3)] by (simp add: z(1))
  then show ?thesis unfolding resize_reaches_def using same_header_grow [OF assms(2), of z] h1 sb_fields_iff by blast
qed

section \<open>Properties\<close>

text \<open>
  C22: resizing a field of the superblock by its type, when the buffer can be made large enough, gives exactly the list of fields in
  which the first field of the type has the new length (its words kept as far as they fit, zeroes behind them), is added at the
  end when there was none and is gone for length 0; every other field, and the header but for its length, stays as it was. A
  lookup then finds the field that the operation returns.
\<close>

theorem sb_field_resize_refines:
  assumes "h_sb h = Some sb" "sb_fields sb = Some fs" "h_flags h AND BCH_SB_HANDLE_FS_SB = 0" "unat (sb_u64s sb) + unat n < 2 ^ 32"
    "bch2_sb_realloc alloc h (of_nat (field_words (sb_resize ty (unat n) fs))) = Some (0, h1)"
  shows "\<exists>r sb'. bch2_sb_field_resize_id alloc h ty n = Some (r, h1\<lparr>h_sb := Some sb'\<rparr>) \<and>
     sb_fields sb' = Some (sb_resize ty (unat n) fs) \<and> same_header sb sb' \<and>
     (n \<noteq> 0 \<longrightarrow> r \<noteq> None \<and> bch2_sb_field_get_id sb' ty = Some r)"
proof -
  obtain pre fl where h: "sb_holds sb pre fl" and fs: "fs = fields_view fl" using assms(2) sb_fields_iff by blast
  have ok: "list_all field_ok fl" using h by (auto simp: sb_holds_def)
  from h have "resize_reaches alloc h ty n sb (sb_resize ty (unat n) fs) h1"
  proof (cases rule: field_get_fields [where ty = ty])
    case (some a f c)
    have v: "sb_resize ty (unat n) fs = fields_view (a @ resized_list n f @ c)" unfolding fs some(1) by (rule sb_resize_found [OF some(2,3)])
    have "field_words (fields_view (a @ resized_list n f @ c)) = length (concat (a @ resized_list n f @ c))"
      using ok some(1) resized_ok by (intro field_words_view) auto
    then show ?thesis using resize_id_found [OF assms(1) _ some(2,3) assms(3,4)] h assms(5) unfolding v some(1) by simp
  next
    case none
    show ?thesis
    proof (cases "n = 0")
      case False
      let ?g = "field_header n ty # replicate (unat n - 1) 0"
      have n: "0 < unat n" using False by (simp add: unat_gt_0)
      have v: "sb_resize ty (unat n) fs = fields_view (fl @ [?g])" unfolding fs by (rule sb_resize_missing [OF none(1) False])
      have "field_words (fields_view (fl @ [?g])) = length (concat (fl @ [?g]))"
        using ok n by (intro field_words_view) (simp add: run_entry_def)
      then have "field_words (sb_resize ty (unat n) fs) = length (concat fl) + unat n" unfolding v using n by simp
      then show ?thesis using resize_id_missing [OF assms(1) h none(1) False assms(3,4)] assms(5) unfolding v by simp
    next
      case True
      have v: "sb_resize ty (unat n) fs = fields_view fl" unfolding fs True using sb_resize_none [OF none(1)] by simp
      show ?thesis using resize_id_absent [OF assms(1) h none(1) assms(3)] assms(5) unfolding v field_words_view [OF ok] by (simp add: True)
    qed
  qed
  then show ?thesis unfolding resize_reaches_def .
qed

definition sample_sb :: sb_buf where
  "sample_sb = (replicate 94 0)[15 := 0x500000000] @ [0x900000003, 7, 8, 0xb00000002, 6] @ replicate 29 0"

lemma sample_sb_fields: "sb_fields sample_sb = Some [(9, [7, 8]), (11, [6])]"
  by code_simp

theorem sb_field_resize_refines_witness:
  "\<exists>r sb'. bch2_sb_field_resize_id (\<lambda>_. True) (sb_handle_default\<lparr>h_sb := Some sample_sb\<rparr>) 9 4 = Some (r, sb_handle_default\<lparr>h_sb := Some sb'\<rparr>) \<and>
     sb_fields sb' = Some [(9, [7, 8, 0]), (11, [6])] \<and> same_header sample_sb sb' \<and> bch2_sb_field_get_id sb' 9 = Some r"
proof -
  let ?h = "sb_handle_default\<lparr>h_sb := Some sample_sb\<rparr>"
  have s: "sb_resize 9 (unat (4 :: u32)) [(9, [7, 8]), (11, [6])] = [(9, [7, 8, 0]), (11, [6])]" by code_simp
  have h: "h_sb ?h = Some sample_sb" "h_flags ?h AND BCH_SB_HANDLE_FS_SB = 0" by (simp_all add: sb_handle_default_def)
  have "sb_u64s sample_sb = 5" by code_simp
  then have u: "unat (sb_u64s sample_sb) + unat (4 :: u32) < 2 ^ 32" by simp
  have r: "bch2_sb_realloc (\<lambda>_. True) ?h (of_nat (field_words [(9, [7, 8, 0]), (11, [6])])) = Some (0, ?h)" by code_simp
  have n: "(4 :: u32) \<noteq> 0" by simp
  from sb_field_resize_refines [where ty = 9 and n = 4, OF h(1) sample_sb_fields h(2) u, unfolded s, OF r] n
  show ?thesis by auto
qed

end
