(* ===== verification/Superblock_Valid.thy ===== *)
theory Superblock_Valid
  imports Superblock_Fields
begin

text \<open>
  What the validation of a superblock accepts: the layout, the ranges of the journal, the run of fields; and which copy of the
  superblock is used.
\<close>

section \<open>Ranges of the journal\<close>

abbreviation disjoint_ranges :: "u64 \<times> u64 \<Rightarrow> u64 \<times> u64 \<Rightarrow> bool" where
  "disjoint_ranges a b \<equiv> snd a \<le> fst b \<or> snd b \<le> fst a"

abbreviation range_before :: "u64 \<times> u64 \<Rightarrow> u64 \<times> u64 \<Rightarrow> bool" where
  "range_before a b \<equiv> snd a \<le> fst b"

abbreviation "nonempty_range r \<equiv> fst r < snd r"

lemma sorted_wrt_insort:
  assumes "\<And>x y. P x y \<longleftrightarrow> P y x"
  shows "sorted_wrt P (insort_key f x xs) \<longleftrightarrow> (\<forall>y\<in>set xs. P x y) \<and> sorted_wrt P xs"
  using assms by (induction xs) (auto simp: set_insort_key)

lemma sorted_wrt_sort_key:
  assumes "\<And>x y. P x y \<longleftrightarrow> P y x"
  shows "sorted_wrt P (sort_key f xs) \<longleftrightarrow> sorted_wrt P xs"
  using sorted_wrt_insort [of P] assms by (induction xs) auto

lemma ranges_overlap_iff:
  assumes "list_all nonempty_range rs"
  shows "\<not> ranges_overlap rs \<longleftrightarrow> sorted_wrt range_before rs"
  using assms
proof (induction rs rule: ranges_overlap.induct)
  case (1 a b rs)
  then show ?case by (auto dest: less_imp_le order_trans)
qed auto

lemma disjoint_sorted:
  assumes "list_all nonempty_range rs" "sorted (map fst rs)"
  shows "sorted_wrt range_before rs \<longleftrightarrow> sorted_wrt disjoint_ranges rs"
  using assms
proof (induction rs)
  case (Cons a rs)
  have "snd a \<le> fst b \<longleftrightarrow> disjoint_ranges a b" if "b \<in> set rs" for b
  proof -
    have "fst a \<le> fst b" "fst b < snd b" using Cons.prems that by (auto simp: list_all_iff)
    then show ?thesis by (meson leD le_less_trans)
  qed
  then show ?case using Cons by auto
qed simp

lemma range_sum_le:
  assumes "list_all nonempty_range rs" "sorted_wrt range_before rs" "rs \<noteq> []"
  shows "sum_list (map (\<lambda>r. unat (snd r) - unat (fst r)) rs) + unat (fst (hd rs)) \<le> unat (snd (last rs))"
  using assms
proof (induction rs)
  case (Cons a rs)
  show ?case
  proof (cases rs)
    case Nil
    then show ?thesis using Cons.prems(1) by (simp add: word_less_nat_alt)
  next
    case (Cons b bs)
    then have "unat (snd a) \<le> unat (fst b)" "unat (fst a) < unat (snd a)" using Cons.prems by (auto simp: word_le_nat_alt word_less_nat_alt)
    then show ?thesis using Cons.IH Cons.prems Cons by simp
  qed
qed simp

lemma last_range_greatest:
  assumes "list_all nonempty_range rs" "sorted_wrt range_before rs" "rs \<noteq> []" "r \<in> set rs"
  shows "snd r \<le> snd (last rs)"
  using assms
proof (induction rs)
  case (Cons a rs)
  show ?case
  proof (cases "rs = []")
    case False
    then have "last rs \<in> set rs" by simp
    then have "snd a \<le> fst (last rs)" "fst (last rs) < snd (last rs)" using Cons.prems(1,2) by (auto simp: list_all_iff)
    then have "snd a \<le> snd (last rs)" by simp
    then show ?thesis using Cons False by auto
  qed (use Cons.prems in simp)
qed simp

lemma unat_sum_list:
  fixes rs :: "(u64 \<times> u64) list"
  assumes "list_all nonempty_range rs" "sum_list (map (\<lambda>r. unat (snd r) - unat (fst r)) rs) < 2 ^ 64"
  shows "unat (sum_list (map (\<lambda>r. snd r - fst r) rs)) = sum_list (map (\<lambda>r. unat (snd r) - unat (fst r)) rs)"
  using assms
proof (induction rs)
  case (Cons a rs)
  have "unat (snd a - fst a) = unat (snd a) - unat (fst a)" using Cons.prems(1) by (simp add: unat_sub less_imp_le)
  then show ?case using Cons by (simp add: unat_word_ariths)
qed simp

lemma sorted_wrt_index: "(\<forall>i<length rs. \<forall>j<i. P (rs ! j) (rs ! i)) \<longleftrightarrow> sorted_wrt P rs"
  unfolding sorted_wrt_iff_nth_less by auto

lemma sum_list_insort_key: "sum_list (map g (insort_key f x xs)) = g x + (sum_list (map g xs) :: 'a::comm_monoid_add)"
  by (induction xs) (auto simp: ac_simps)

lemma sum_list_sort_key: "sum_list (map g (sort_key f rs)) = (sum_list (map g rs) :: 'a::comm_monoid_add)"
  by (induction rs) (auto simp: sum_list_insort_key)

lemma ranges_iff:
  assumes "rs \<noteq> []" "list_all (\<lambda>r. fst r < snd r) rs"
  shows "validate_ranges m rs = 0 \<longleftrightarrow>
     (\<forall>r\<in>set rs. 0 < fst r \<and> ucast (m_first_bucket m) \<le> fst r \<and> snd r \<le> m_nbuckets m) \<and>
     (\<forall>i<length rs. \<forall>j<i. snd (rs ! j) \<le> fst (rs ! i) \<or> snd (rs ! i) \<le> fst (rs ! j)) \<and>
     sum_list (map (\<lambda>r. unat (snd r) - unat (fst r)) rs) \<le> 0xffffffff"
proof -
  define s where "s = sort_key fst rs"
  have s: "s \<noteq> []" "set s = set rs" "sorted (map fst s)" "list_all nonempty_range s" using assms by (auto simp: s_def list_all_iff) (metis set_empty set_sort)
  have "sorted_wrt disjoint_ranges s \<longleftrightarrow> sorted_wrt disjoint_ranges rs" unfolding s_def by (rule sorted_wrt_sort_key) auto
  then have chain: "\<not> ranges_overlap s \<longleftrightarrow> sorted_wrt disjoint_ranges rs"
    unfolding ranges_overlap_iff [OF s(4)] disjoint_sorted [OF s(4,3)] .
  have lo: "fst (s ! 0) \<noteq> 0 \<and> \<not> fst (s ! 0) < x \<longleftrightarrow> (\<forall>r\<in>set rs. 0 < fst r \<and> x \<le> fst r)" for x
    using s(1,3) unfolding s(2) [symmetric] by (cases s) (auto simp: not_less word_gt_0 intro: order_trans)
  have hi: "snd (s ! (length s - 1)) \<le> x \<longleftrightarrow> (\<forall>r\<in>set rs. snd r \<le> x)" if "\<not> ranges_overlap s" for x
    using that last_range_greatest [OF s(4) _ s(1)] s(1) unfolding ranges_overlap_iff [OF s(4)] s(2) [symmetric] last_conv_nth [OF s(1), symmetric]
    by (meson last_in_set order_trans)
  have sum: "\<not> sum_list (map (\<lambda>r. snd r - fst r) rs) > 0xffffffff \<longleftrightarrow> sum_list (map (\<lambda>r. unat (snd r) - unat (fst r)) rs) \<le> 0xffffffff"
    if c: "\<not> ranges_overlap s"
  proof -
    have "sum_list (map (\<lambda>r. unat (snd r) - unat (fst r)) s) \<le> unat (snd (last s))"
      using range_sum_le [OF s(4) _ s(1)] c unfolding ranges_overlap_iff [OF s(4)] by simp
    also have "unat (snd (last s)) < 2 ^ LENGTH(64)" by (rule unsigned_less)
    finally show ?thesis using unat_sum_list [OF assms(2)] by (simp add: s_def sum_list_sort_key not_less word_le_nat_alt)
  qed
  have main: "validate_ranges m rs = 0 \<longleftrightarrow> (fst (s ! 0) \<noteq> 0 \<and> \<not> fst (s ! 0) < ucast (m_first_bucket m)) \<and> snd (s ! (length s - 1)) \<le> m_nbuckets m \<and>
      \<not> ranges_overlap s \<and> \<not> sum_list (map (\<lambda>r. snd r - fst r) rs) > 0xffffffff"
    unfolding validate_ranges_def s_def [symmetric] Let_def by (auto simp: BCH_ERR_invalid_sb_journal_def not_less)
  have all: "(\<forall>r\<in>set rs. 0 < fst r \<and> ucast (m_first_bucket m) \<le> fst r \<and> snd r \<le> m_nbuckets m) \<longleftrightarrow>
      (\<forall>r\<in>set rs. 0 < fst r \<and> ucast (m_first_bucket m) \<le> fst r) \<and> (\<forall>r\<in>set rs. snd r \<le> m_nbuckets m)" by blast
  show ?thesis unfolding main all lo sorted_wrt_index [of rs disjoint_ranges] chain [symmetric] using hi [of "m_nbuckets m"] sum by argo
qed

section \<open>The fields\<close>

lemma check_field_sizes_run:
  assumes "sb = pre @ ws @ post"
  shows "check_field_sizes sb (length pre + length ws) (length pre) =
     Some (if split_run field_len ws = None then BCH_ERR_invalid_sb_field_size else 0)"
  using assms
proof (induction field_len ws arbitrary: pre rule: split_run.induct)
  case (1 ws)
  show ?case
  proof (cases ws)
    case Nil
    then show ?thesis by (simp add: check_field_sizes.simps)
  next
    case (Cons w ws')
    let ?n = "field_len w"
    have hd: "nth_opt sb (length pre) = Some w" using "1.prems" Cons by (simp add: nth_append)
    show ?thesis
    proof (cases "?n = 0 \<or> length ws < ?n")
      case True
      then have "check_field_sizes sb (length pre + length ws) (length pre) = Some BCH_ERR_invalid_sb_field_size"
        using Cons by (subst check_field_sizes.simps) (auto simp: hd unat_eq_0 simp del: nth_opt_Some)
      moreover have "split_run field_len ws = None" using True unfolding Cons split_run_Cons by simp
      ultimately show ?thesis by simp
    next
      case False
      let ?p = "pre @ take ?n ws"
      have "check_field_sizes sb (length pre + length ws) (length pre) = check_field_sizes sb (length pre + length ws) (length pre + ?n)"
        using Cons False by (subst check_field_sizes.simps) (auto simp: hd unat_eq_0 simp del: nth_opt_Some)
      also have "\<dots> = check_field_sizes sb (length ?p + length (drop ?n ws)) (length ?p)" using False by simp
      also have "\<dots> = Some (if split_run field_len (drop ?n ws) = None then BCH_ERR_invalid_sb_field_size else 0)"
        using "1.prems" by (intro "1.hyps" [OF Cons False]) (simp add: append_assoc [symmetric] del: append_assoc, simp)
      finally show ?thesis using False unfolding Cons split_run_Cons by (auto simp: option.map_disc_iff)
    qed
  qed
qed

lemma members_get_total:
  assumes "members_member_bytes sb i = Some mb" "8 * i + 16 + (index + 1) * unat mb \<le> 8 * length sb"
  shows "bch2_members_v2_get sb (Some i) index \<noteq> None"
  using assms by (simp add: bch2_members_v2_get_def Let_def)

lemma validate_members_total:
  assumes "members_member_bytes sb i = Some mb" "8 * i + 16 + (index + n) * unat mb \<le> 8 * length sb"
  shows "\<exists>ret. validate_members sb i index n = Some ret \<and>
     (ret = 0 \<longrightarrow> (\<forall>j. index \<le> j \<and> j < index + n \<longrightarrow> (\<exists>m. bch2_members_v2_get sb (Some i) j = Some m \<and> validate_member m sb = 0)))"
  using assms(2)
proof (induction n arbitrary: index)
  case (Suc n)
  have "8 * i + 16 + (index + 1) * unat mb \<le> 8 * length sb" using Suc.prems by (simp add: algebra_simps)
  then obtain m where m: "bch2_members_v2_get sb (Some i) index = Some m" using members_get_total [OF assms(1)] by blast
  obtain ret where r: "validate_members sb i (index + 1) n = Some ret"
    "ret = 0 \<longrightarrow> (\<forall>j. index + 1 \<le> j \<and> j < index + 1 + n \<longrightarrow> (\<exists>m. bch2_members_v2_get sb (Some i) j = Some m \<and> validate_member m sb = 0))"
    using Suc.IH [of "index + 1"] Suc.prems by auto
  show ?case
  proof (cases "validate_member m sb = 0")
    case True
    have "\<exists>m. bch2_members_v2_get sb (Some i) j = Some m \<and> validate_member m sb = 0" if "ret = 0" "index \<le> j" "j < index + Suc n" for j
      using that r(2) m True by (cases "j = index") auto
    then show ?thesis using m r(1) True by (auto simp: Let_def)
  qed (use m in \<open>auto simp: Let_def\<close>)
qed auto

lemma members_validate_total:
  assumes "nth_opt sb i = Some w" "i + field_len w \<le> length sb" "i + 1 < length sb"
  shows "\<exists>ret. bch2_sb_members_v2_validate sb i = Some ret \<and>
     (ret = 0 \<longrightarrow> (\<forall>j<unat (sb_nr_devices sb). \<exists>m. bch2_members_v2_get sb (Some i) j = Some m \<and> validate_member m sb = 0))"
proof -
  obtain mb where mb: "members_member_bytes sb i = Some mb" using assms(3) by (simp add: members_member_bytes_def nth_opt_def)
  show ?thesis
  proof (cases "16 + unat (sb_nr_devices sb) * unat mb > 8 * field_len w")
    case True
    then show ?thesis using assms(1) mb unfolding bch2_sb_members_v2_validate_def assms(1) mb by (simp add: BCH_ERR_invalid_sb_members_def)
  next
    case False
    then have "8 * i + 16 + (0 + unat (sb_nr_devices sb)) * unat mb \<le> 8 * length sb" using assms(2) by simp
    from validate_members_total [OF mb this] show ?thesis
      unfolding bch2_sb_members_v2_validate_def assms(1) mb using False by auto
  qed
qed

text \<open>The ranges of a field of the journal, from its words behind the header.\<close>

fun word_ranges :: "u64 list \<Rightarrow> (u64 \<times> u64) list" where
  "word_ranges (start # nr # ws) = (start, start + nr) # word_ranges ws"
| "word_ranges ws = []"

lemma length_word_ranges: "length (word_ranges ws) = length ws div 2"
  by (induction ws rule: word_ranges.induct) auto

lemma journal_ranges_words:
  "journal_ranges (pre @ ws @ post) (length pre) (length ws div 2) =
     Some (if list_all nonempty_range (word_ranges ws) then Some (word_ranges ws) else None)"
proof (induction ws arbitrary: pre rule: word_ranges.induct)
  case (1 start nr ws)
  have "journal_ranges (pre @ (start # nr # ws) @ post) (length pre + 2) (length ws div 2) =
      Some (if list_all nonempty_range (word_ranges ws) then Some (word_ranges ws) else None)"
    using "1.IH" [of "pre @ [start, nr]"] by simp
  moreover have "nth_opt (pre @ (start # nr # ws) @ post) (length pre) = Some start"
    "nth_opt (pre @ (start # nr # ws) @ post) (length pre + 1) = Some nr" by (simp_all add: nth_append)
  ultimately show ?case by (auto simp del: nth_opt_Some simp: not_le not_less)
qed simp_all

definition journal_ok :: "bch_member \<Rightarrow> u64 list \<Rightarrow> bool" where
  "journal_ok m ws \<longleftrightarrow>
     (let rs = word_ranges ws in
      list_all (\<lambda>r. fst r < snd r \<and> 0 < fst r \<and> ucast (m_first_bucket m) \<le> fst r \<and> snd r \<le> m_nbuckets m) rs \<and>
      (\<forall>i<length rs. \<forall>j<i. snd (rs ! j) \<le> fst (rs ! i) \<or> snd (rs ! i) \<le> fst (rs ! j)))"

lemma ranges_accepted:
  assumes "rs \<noteq> []" "list_all nonempty_range rs" "validate_ranges m rs = 0"
  shows "(\<forall>r\<in>set rs. 0 < fst r \<and> ucast (m_first_bucket m) \<le> fst r \<and> snd r \<le> m_nbuckets m) \<and>
     (\<forall>i<length rs. \<forall>j<i. snd (rs ! j) \<le> fst (rs ! i) \<or> snd (rs ! i) \<le> fst (rs ! j))"
  using ranges_iff [OF assms(1,2), of m] assms(3) by blast

lemma journal_validate_field:
  assumes "sb = pre @ f @ post" "field_ok f" "bch2_sb_member_get sb (unat (sb_dev_idx sb)) = Some m"
  shows "\<exists>ret. bch2_sb_journal_v2_validate sb (length pre) = Some ret \<and> (ret = 0 \<longrightarrow> journal_ok m (tl f))"
proof -
  obtain w ws where f: "f = w # ws" using assms(2) by (cases f) (auto simp: run_entry_def)
  have n: "bch2_sb_field_journal_v2_nr_entries (f_u64s w) = Some (length ws div 2)"
    using assms(2) by (auto simp: bch2_sb_field_journal_v2_nr_entries_def run_entry_def f)
  have hd: "nth_opt sb (length pre) = Some w" using nth_run [OF assms(2), of pre post] by (simp add: assms(1) f)
  let ?rs = "word_ranges ws"
  have r: "journal_ranges sb (length pre + 1) (length ws div 2) = Some (if list_all nonempty_range ?rs then Some ?rs else None)"
    using journal_ranges_words [of "pre @ [w]" ws post] by (simp add: assms(1) f)
  show ?thesis
  proof (cases "length ws div 2 = 0")
    case True
    then have "?rs = []" using length_word_ranges [of ws] by simp
    then show ?thesis unfolding bch2_sb_journal_v2_validate_def assms(3) hd using n True by (simp add: journal_ok_def f)
  next
    case False
    then have "?rs \<noteq> []" using length_word_ranges [of ws] by auto
    then show ?thesis using ranges_accepted [of ?rs m] unfolding bch2_sb_journal_v2_validate_def assms(3) hd using n False r
      by (auto simp: journal_ok_def f BCH_ERR_invalid_sb_journal_def list_all_iff)
  qed
qed

lemma validate_fields_run:
  assumes "sb = pre @ concat fs @ post" "list_all field_ok fs"
    "\<And>a f c. fs = a @ f # c \<Longrightarrow> bch2_sb_field_validate sb (length (pre @ concat a)) \<noteq> None"
  shows "\<exists>ret. validate_fields sb (length pre + length (concat fs)) (length pre) = Some ret \<and>
     (ret = 0 \<longrightarrow> (\<forall>a f c. fs = a @ f # c \<longrightarrow> bch2_sb_field_validate sb (length (pre @ concat a)) = Some 0))"
  using assms
proof (induction fs arbitrary: pre)
  case Nil
  then show ?case by (simp add: validate_fields.simps)
next
  case (Cons g fs)
  let ?fin = "length pre + length (concat (g # fs))"
  have ok: "field_ok g" using Cons.prems(2) by simp
  obtain ret where v: "bch2_sb_field_validate sb (length pre) = Some ret" using Cons.prems(3) [of "[]" g fs] by auto
  have lt: "length pre < ?fin" using run_entry_pos [OF ok] by simp
  have hd: "nth_opt sb (length pre) = Some (hd g)" using nth_run [OF ok, of pre "concat fs @ post"] Cons.prems(1) by simp
  have n: "length pre + field_len (hd g) = length (pre @ g)" using ok by (simp add: run_entry_def)
  have s: "validate_fields sb ?fin (length pre) = (if ret \<noteq> 0 then Some ret else validate_fields sb ?fin (length (pre @ g)))"
    using lt v n by (subst validate_fields.simps) (simp add: hd del: nth_opt_Some length_append)
  have "bch2_sb_field_validate sb (length ((pre @ g) @ concat a)) \<noteq> None" if "fs = a @ f # c" for a f c
    using Cons.prems(3) [of "g # a" f c] that by simp
  then obtain ret' where r: "validate_fields sb ?fin (length (pre @ g)) = Some ret'"
    "ret' = 0 \<longrightarrow> (\<forall>a f c. fs = a @ f # c \<longrightarrow> bch2_sb_field_validate sb (length ((pre @ g) @ concat a)) = Some 0)"
    using Cons.IH [of "pre @ g"] Cons.prems(1,2) by (auto simp: add.assoc)
  show ?case
  proof (cases "ret = 0")
    case True
    have "bch2_sb_field_validate sb (length (pre @ concat a)) = Some 0" if "ret' = 0" "g # fs = a @ f # c" for a f c
      using that r(2) v True by (cases a) auto
    then show ?thesis using s r(1) True by auto
  qed (use s in auto)
qed

section \<open>The whole superblock\<close>

text \<open>What the rest of the program relies on: the fields are a run of whole fields of known types, the members are there, the
  device the superblock is on has a valid entry, and the ranges of the journal are buckets of that device and do not overlap.\<close>

definition sb_valid :: "sb_buf \<Rightarrow> bool" where
  "sb_valid sb \<longleftrightarrow>
     validate_sb_layout (sb_layout sb) = 0 \<and>
     (case (sb_fields sb, bch2_sb_member_get sb (unat (sb_dev_idx sb))) of
        (Some fs, Some m) \<Rightarrow>
          validate_member m sb = 0 \<and> list_ex (\<lambda>(t, ws). t = BCH_SB_FIELD_members_v2) fs \<and>
          list_all (\<lambda>(t, ws). t = BCH_SB_FIELD_members_v2 \<or> t = BCH_SB_FIELD_journal_v2 \<and> journal_ok m ws) fs
      | _ \<Rightarrow> False)"

lemma field_types_differ: "BCH_SB_FIELD_members_v2 \<noteq> BCH_SB_FIELD_journal_v2"
  by (simp add: code_consts)

lemma field_validate_run:
  assumes "sb_holds sb pre (a @ f # c)" "vstruct_last sb < length sb" "bch2_sb_member_get sb (unat (sb_dev_idx sb)) = Some m"
  shows "\<exists>ret. bch2_sb_field_validate sb (length (pre @ concat a)) = Some ret \<and>
     (ret = 0 \<longrightarrow> f_type (hd f) = BCH_SB_FIELD_members_v2 \<or> f_type (hd f) = BCH_SB_FIELD_journal_v2 \<and> journal_ok m (tl f))"
proof -
  from assms(1) obtain post where sb: "sb = (pre @ concat a) @ f @ (concat c @ post)" and ok: "field_ok f" by (auto simp: sb_holds_def)
  let ?i = "length (pre @ concat a)"
  have hd: "nth_opt sb ?i = Some (hd f)" by (rule set_type(1) [OF assms(1)])
  have vl: "vstruct_last sb = ?i + length f + length (concat c)" using assms(1) by (auto simp: sb_holds_def vstruct_last_def)
  moreover have lf: "0 < length f" "field_len (hd f) = length f" using run_entry_pos [OF ok] ok unfolding run_entry_def by metis+
  ultimately have b: "?i + field_len (hd f) \<le> length sb" "?i + 1 < length sb" using assms(2) by linarith+
  obtain r1 where "bch2_sb_members_v2_validate sb ?i = Some r1" using members_validate_total [OF hd b] by blast
  moreover obtain r2 where "bch2_sb_journal_v2_validate sb ?i = Some r2" "r2 = 0 \<longrightarrow> journal_ok m (tl f)"
    using journal_validate_field [OF sb ok assms(3)] by blast
  ultimately show ?thesis unfolding bch2_sb_field_validate_def hd using field_types_differ
    by (auto simp: BCH_ERR_invalid_sb_field_type_def)
qed

text \<open>With valid members, the rest of the contents is checked to the end.\<close>

lemma validate_contents_members:
  assumes "sb_holds sb pre fs" "vstruct_last sb < length sb" "bch2_sb_member_get sb (unat (sb_dev_idx sb)) = Some m" "validate_member m sb = 0"
    "validate_sb_layout (sb_layout sb) = 0" "f \<in> set fs" "f_type (hd f) = BCH_SB_FIELD_members_v2"
  shows "\<exists>ret. validate_fields sb (vstruct_last sb) SB_U64S = Some ret \<and> (ret = 0 \<longrightarrow> sb_valid sb)"
proof -
  from assms(1) obtain post where sb: "sb = pre @ concat fs @ post" "list_all field_ok fs" and vl: "vstruct_last sb = length pre + length (concat fs)"
    "length pre = SB_U64S" by (auto simp: sb_holds_def vstruct_last_def)
  have ok: "\<exists>ret. bch2_sb_field_validate sb (length (pre @ concat a)) = Some ret \<and>
     (ret = 0 \<longrightarrow> f_type (hd g) = BCH_SB_FIELD_members_v2 \<or> f_type (hd g) = BCH_SB_FIELD_journal_v2 \<and> journal_ok m (tl g))"
    if "fs = a @ g # c" for a g c using field_validate_run [of sb pre a g c m] assms(1-3) that by simp
  obtain ret where r: "validate_fields sb (vstruct_last sb) SB_U64S = Some ret"
    "ret = 0 \<longrightarrow> (\<forall>a g c. fs = a @ g # c \<longrightarrow> bch2_sb_field_validate sb (length (pre @ concat a)) = Some 0)"
    using validate_fields_run [OF sb] ok unfolding vl by (metis (no_types, lifting) not_None_eq)
  have "sb_valid sb" if "ret = 0"
  proof -
    have "\<forall>g\<in>set fs. f_type (hd g) = BCH_SB_FIELD_members_v2 \<or> f_type (hd g) = BCH_SB_FIELD_journal_v2 \<and> journal_ok m (tl g)"
      using r(2) that ok by (metis option.inject split_list)
    moreover have "sb_fields sb = Some (fields_view fs)" using assms(1) sb_fields_iff by blast
    ultimately show ?thesis using assms(3-7) by (auto simp: sb_valid_def list_all_iff list_ex_iff)
  qed
  then show ?thesis using r(1) by blast
qed

lemma validate_contents_ok:
  assumes "vstruct_last sb < length sb" "sb_dev_idx sb < sb_nr_devices sb"
  shows "\<exists>ret. validate_sb_contents sb flags = Some ret \<and> (ret = 0 \<longrightarrow> sb_valid sb)"
proof -
  define ws where "ws = drop SB_U64S (take (vstruct_last sb) sb)"
  define pre where "pre = take SB_U64S sb"
  have l: "length pre = SB_U64S" "length ws = unat (sb_u64s sb)" using assms(1) by (simp_all add: pre_def ws_def vstruct_last_def)
  have "pre @ ws = take (vstruct_last sb) sb" unfolding pre_def ws_def vstruct_last_def by (metis append_take_drop_id le_add1 min.absorb1 take_take)
  then have sb: "sb = pre @ ws @ drop (vstruct_last sb) sb" by (metis append_assoc append_take_drop_id)
  have c: "check_field_sizes sb (vstruct_last sb) SB_U64S = Some (if split_run field_len ws = None then BCH_ERR_invalid_sb_field_size else 0)"
    using check_field_sizes_run [OF sb] l by (simp add: vstruct_last_def)
  show ?thesis
  proof (cases "validate_sb_layout (sb_layout sb) = 0 \<and> split_run field_len ws \<noteq> None")
    case False
    then show ?thesis unfolding validate_sb_contents_def Let_def c by (auto simp: BCH_ERR_invalid_sb_field_size_def)
  next
    case True
    then obtain fs where fs: "split_run field_len ws = Some fs" by blast
    then have h: "sb_holds sb pre fs" using l sb unfolding split_run_iff sb_holds_def by metis
    then have view: "sb_fields sb = Some (fields_view fs)" using sb_fields_iff by blast
    from h show ?thesis
    proof (cases rule: field_get_fields [where ty = BCH_SB_FIELD_members_v2])
      case none
      then show ?thesis using True unfolding validate_sb_contents_def Let_def c by (auto simp: BCH_ERR_invalid_sb_members_missing_def)
    next
      case (some a f d)
      let ?i = "length (pre @ concat a)"
      have hf: "sb_holds sb pre (a @ f # d)" using h some(1) by simp
      have hd: "nth_opt sb ?i = Some (hd f)" by (rule set_type(1) [OF hf])
      have "field_ok f" using hf by (simp add: sb_holds_def)
      then have lf: "0 < length f" "field_len (hd f) = length f" using run_entry_pos [of field_len f] unfolding run_entry_def by metis+
      have "vstruct_last sb = ?i + length f + length (concat d)" using hf by (auto simp: sb_holds_def vstruct_last_def)
      then have b: "?i + field_len (hd f) \<le> length sb" "?i + 1 < length sb" using assms(1) lf by linarith+
      obtain ret where r: "bch2_sb_members_v2_validate sb ?i = Some ret"
        "ret = 0 \<longrightarrow> (\<forall>j<unat (sb_nr_devices sb). \<exists>m. bch2_members_v2_get sb (Some ?i) j = Some m \<and> validate_member m sb = 0)"
        using members_validate_total [OF hd b] by blast
      then have fv: "bch2_sb_field_validate sb ?i = Some ret"
        unfolding bch2_sb_field_validate_def hd using some(3) field_types_differ by simp
      show ?thesis
      proof (cases "ret = 0")
        case False
        then show ?thesis using True fv some(4) unfolding validate_sb_contents_def Let_def c by auto
      next
        case ok: True
        then obtain m where m: "bch2_sb_member_get sb (unat (sb_dev_idx sb)) = Some m" "validate_member m sb = 0"
          using r(2) assms(2) some(4) unfolding bch2_sb_member_get_def by (auto simp: word_less_nat_alt)
        obtain ret' where "validate_fields sb (vstruct_last sb) SB_U64S = Some ret'" "ret' = 0 \<longrightarrow> sb_valid sb"
          using validate_contents_members [OF h assms(1) m conjunct1 [OF True], of f] some(1,3) by auto
        then show ?thesis using True fv some(4) ok m(1) unfolding validate_sb_contents_def Let_def c by auto
      qed
    qed
  qed
qed

section \<open>Properties\<close>

lemma correct_flags_words:
  assumes "correct_sb_flags sb flags = (ret, sb')"
  shows "length sb' = length sb" "i \<noteq> 21 \<Longrightarrow> i \<noteq> 23 \<Longrightarrow> sb' ! i = sb ! i"
  using assms by (auto simp: correct_sb_flags_def Let_def SET_BCH_SB_VERSION_INCOMPAT_ALLOWED_def set_sb_flags_def split: if_splits)

text \<open>
  C23: validating a superblock returns a code for every buffer that is longer than the superblock says, and a superblock it accepts has
  a valid layout, a run of whole fields of known types with the members among them, a valid entry for its own device, and journal
  ranges that are non-empty, disjoint and inside that device; it has the current version and, unless it is to be written, says that it
  lies where it was read.
\<close>

theorem sb_validate_sound:
  assumes "vstruct_last sb < length sb"
  shows "\<exists>ret sb'. bch2_sb_validate sb no_version_check read_offset flags = Some (ret, sb') \<and>
     (ret = 0 \<longrightarrow> sb_valid sb' \<and> sb_dev_idx sb' < sb_nr_devices sb' \<and> sb_version sb' = sb_version_current \<and>
        (flags AND 1 = 0 \<longrightarrow> sb_offset sb' = read_offset))"
proof -
  obtain ret sb' where c: "correct_sb_flags sb flags = (ret, sb')" by (cases "correct_sb_flags sb flags")
  note w = correct_flags_words [OF c]
  have same: "sb_u64s sb' = sb_u64s sb" "sb_dev_idx sb' = sb_dev_idx sb" "sb_nr_devices sb' = sb_nr_devices sb" "sb_version sb' = sb_version sb"
    "sb_offset sb' = sb_offset sb" by (simp_all add: sb_u64s_def sb_dev_idx_def sb_nr_devices_def sb_version_def sb_offset_def w(2))
  show ?thesis
  proof (cases "validate_sb_header sb no_version_check read_offset flags = 0 \<and> ret = 0")
    case False
    then show ?thesis using c by (auto simp: bch2_sb_validate_def Let_def)
  next
    case True
    then have hdr: "bch2_sb_compatible sb = 0" "sb_dev_idx sb < sb_nr_devices sb" "flags AND 1 = 0 \<longrightarrow> sb_offset sb = read_offset"
      by (auto simp: validate_sb_header_def code_consts split: if_splits)
    obtain r where "validate_sb_contents sb' flags = Some r" "r = 0 \<longrightarrow> sb_valid sb'"
      using validate_contents_ok [of sb' flags] assms w(1) same hdr(2) by (auto simp: vstruct_last_def)
    then show ?thesis using True c hdr same by (auto simp: bch2_sb_validate_def Let_def bch2_sb_compatible_def code_consts split: if_splits)
  qed
qed

text \<open>A superblock that is accepted: one device with 600 buckets of 16 sectors, and a journal in its buckets 8 to 15.\<close>

definition sample_valid_sb :: sb_buf where
  "sample_valid_sb =
     (replicate 94 0)[2 := 0x04260426, 3 := fst BCHFS_MAGIC, 4 := snd BCHFS_MAGIC, 5 := 1, 7 := 1, 13 := 8, 15 := 0x1701000008,
        17 := 0x100000000, 30 := fst BCHFS_MAGIC, 31 := snd BCHFS_MAGIC, 32 := 0x010b00, 33 := 8] @
     [0x0b00000014, 144, 1, 0, 600, 0x100001] @ replicate 14 0 @ [0x0900000003, 8, 8] @ replicate 11 0"

lemma length_word_bytes [simp]: "length (word_bytes w) = 8"
  by (simp add: word_bytes_def)

lemma drop_word_bytes: "drop (8 * n) (concat (map word_bytes ws)) = concat (map word_bytes (drop n ws))"
  by (induction ws arbitrary: n) (auto simp: drop_Cons split: nat.splits)

lemma take_word_bytes: "take (8 * n) (concat (map word_bytes ws)) = concat (map word_bytes (take n ws))"
  by (induction ws arbitrary: n) (auto simp: take_Cons split: nat.splits)

definition sample_member :: bch_member where
  "sample_member =
     \<lparr>m_uuid = (1, 0), m_nbuckets = 600, m_first_bucket = 1, m_bucket_size = 16, m_btree_bitmap_shift = 0, m_flags = 0, m_seq = 0,
      m_btree_allocated_bitmap = 0\<rparr>"

lemma sample_member_bytes:
  "take 144 (drop 768 (concat (map word_bytes sample_valid_sb))) = concat (map word_bytes ([1,0,600,0x100001] @ replicate 14 0))"
proof -
  have "take 18 (drop 96 sample_valid_sb) = [1,0,600,0x100001] @ replicate 14 0" by code_simp
  then show ?thesis using drop_word_bytes [of 96 sample_valid_sb] take_word_bytes [of 18 "drop 96 sample_valid_sb"] by simp
qed

lemma sample_member_get: "bch2_members_v2_get sample_valid_sb (Some 94) 0 = Some sample_member"
proof -
  have m: "members_member_bytes sample_valid_sb 94 = Some 144" "length sample_valid_sb = 128" by code_simp+
  have "member_of_bytes (concat (map word_bytes ([1,0,600,0x100001] @ replicate 14 0)) @ replicate 152 0) = sample_member" by code_simp
  then show ?thesis
    unfolding bch2_members_v2_get_def using m by (simp add: MEMBER_BYTES_def sample_member_bytes del: map_append concat_append concat.simps list.map)
qed

lemma sample_field_members: "bch2_sb_field_get_id sample_valid_sb BCH_SB_FIELD_members_v2 = Some (Some 94)"
  by code_simp

lemma sample_members_valid: "bch2_sb_field_validate sample_valid_sb 94 = Some 0"
proof -
  have m: "nth_opt sample_valid_sb 94 = Some 0x0b00000014" "members_member_bytes sample_valid_sb 94 = Some 144"
    "sb_nr_devices sample_valid_sb = 1" "f_u64s 0x0b00000014 = 20" "f_type 0x0b00000014 = 11" by code_simp+
  have v: "validate_member sample_member sample_valid_sb = 0" by code_simp
  show ?thesis
    unfolding bch2_sb_field_validate_def bch2_sb_members_v2_validate_def m bind.simps Let_def
    using sample_member_get v by (simp add: code_consts)
qed

lemma sample_journal_valid: "bch2_sb_field_validate sample_valid_sb 114 = Some 0"
proof -
  have m: "nth_opt sample_valid_sb 114 = Some 0x0900000003" "sb_dev_idx sample_valid_sb = 0" "f_u64s 0x0900000003 = 3"
    "f_type 0x0900000003 = 9" "journal_ranges sample_valid_sb 115 1 = Some (Some [(8, 16)])"
    "validate_ranges sample_member [(8, 16)] = 0" by code_simp+
  have g: "bch2_sb_member_get sample_valid_sb 0 = Some sample_member"
    unfolding bch2_sb_member_get_def sample_field_members using sample_member_get by simp
  show ?thesis
    unfolding bch2_sb_field_validate_def bch2_sb_journal_v2_validate_def m(1) bind.simps
    using m(2-6) g by (simp add: code_consts bch2_sb_field_journal_v2_nr_entries_def del: journal_ranges.simps)
qed

lemma sample_accepted: "bch2_sb_validate sample_valid_sb False 8 0 = Some (0, sample_valid_sb)"
proof -
  have h: "validate_sb_header sample_valid_sb False 8 0 = 0" "correct_sb_flags sample_valid_sb 0 = (0, sample_valid_sb)"
    "validate_sb_layout (sb_layout sample_valid_sb) = 0"
    "check_field_sizes sample_valid_sb 117 94 = Some 0" by code_simp+
  have w: "nth_opt sample_valid_sb 94 = Some 0x0b00000014" "nth_opt sample_valid_sb 114 = Some 0x0900000003"
    "f_u64s 0x0b00000014 = 20" "f_u64s 0x0900000003 = 3" "vstruct_last sample_valid_sb = 117" by code_simp+
  have "validate_fields sample_valid_sb 117 117 = Some 0" by (subst validate_fields.simps) simp
  then have "validate_fields sample_valid_sb 117 114 = Some 0"
    by (subst validate_fields.simps) (simp add: sample_journal_valid w del: nth_opt_Some)
  then have "validate_fields sample_valid_sb 117 94 = Some 0"
    by (subst validate_fields.simps) (simp add: sample_members_valid w del: nth_opt_Some)
  then show ?thesis
    unfolding bch2_sb_validate_def validate_sb_contents_def h Let_def prod.case sample_field_members w(5)
    by (simp add: sample_members_valid SB_U64S_def h(4))
qed

theorem sb_validate_sound_witness:
  "sb_valid sample_valid_sb \<and> sb_dev_idx sample_valid_sb < sb_nr_devices sample_valid_sb \<and> sb_offset sample_valid_sb = 8"
proof -
  have l: "vstruct_last sample_valid_sb < length sample_valid_sb" by code_simp
  show ?thesis using sb_validate_sound [OF l, of False 8 0] sample_accepted by simp
qed

end
