(* ===== verification/Superblock_Read.thy ===== *)
theory Superblock_Read
  imports Superblock_Valid
begin

text \<open>
  Reading a superblock from a device: a copy is read with a buffer that grows to its size, and of the copies on the device the
  newest good one is taken.
\<close>

section \<open>The device\<close>

text \<open>What \<^verbatim>\<open>read_at\<close> promises of a file whose words from sector \<open>off\<close> on are \<open>disk off\<close>: a piece of the buffer keeps its length,
  and it is filled completely when the file is long enough; otherwise the loop over the reads ends at the end of the file.\<close>

definition reads :: "sb_dev \<Rightarrow> (u64 \<Rightarrow> u64 list) \<Rightarrow> bool" where
  "reads dev disk \<longleftrightarrow> (\<forall>off old. length (snd (dev off old)) = length old \<and> (fst (dev off old) \<longleftrightarrow> length old \<le> length (disk off)) \<and>
     (fst (dev off old) \<longrightarrow> snd (dev off old) = take (length old) (disk off)))"

lemma reads_whole: "reads dev disk \<Longrightarrow> length old \<le> length (disk off) \<Longrightarrow> dev off old = (True, take (length old) (disk off))"
  by (simp add: reads_def prod_eq_iff)

text \<open>The words of the largest superblock there can be, 32 megabytes.\<close>

definition SB_MAX_U64S :: nat where "SB_MAX_U64S = 64 * 2 ^ 16"

text \<open>The sectors of a copy that can be read whole, whatever its size.\<close>

definition readable :: "(u64 \<Rightarrow> u64 list) \<Rightarrow> u64 \<Rightarrow> bool" where
  "readable disk off \<longleftrightarrow> unat off * 512 < 2 ^ 64 \<and> SB_MAX_U64S \<le> length (disk off)"

section \<open>A copy\<close>

definition copy_good :: "u64 list \<Rightarrow> bool" where
  "copy_good ws \<longleftrightarrow> sb_magic ws = BCHFS_MAGIC \<and> bch2_sb_compatible ws = 0 \<and> raw_vstruct_bytes (sb_u64s ws) \<le> sb_size_limit ws \<and>
     \<not> (BCH_SB_CSUM_TYPE ws \<ge> 8 \<or> BCH_SB_CSUM_TYPE ws = 3 \<or> BCH_SB_CSUM_TYPE ws = 4) \<and> sb_checksum ws = Some (sb_csum ws)"

text \<open>The header of a superblock only depends on its first 94 words.\<close>

lemma header_take:
  assumes "SB_U64S \<le> n"
  shows "sb_magic (take n ws) = sb_magic ws" "bch2_sb_compatible (take n ws) = bch2_sb_compatible ws" "sb_u64s (take n ws) = sb_u64s ws"
    "sb_size_limit (take n ws) = sb_size_limit ws" "BCH_SB_CSUM_TYPE (take n ws) = BCH_SB_CSUM_TYPE ws" "sb_csum (take n ws) = sb_csum ws"
    "sb_seq (take n ws) = sb_seq ws" "sb_layout (take n ws) = sb_layout ws"
  using assms by (simp_all add: SB_U64S_def sb_magic_def bch2_sb_compatible_def sb_version_def sb_version_min_def sb_u64s_def
      sb_size_limit_def sb_layout_def layout_at_def BCH_SB_CSUM_TYPE_def sb_flags_def sb_csum_def sb_seq_def drop_take min_def)

lemma checksum_take: "SB_U64S \<le> n \<Longrightarrow> vstruct_last ws \<le> n \<Longrightarrow> sb_checksum (take n ws) = sb_checksum ws"
  by (simp add: sb_checksum_def header_take vstruct_last_def min_def)

lemma next_power_of_two_le: "n \<le> 2 ^ k \<Longrightarrow> next_power_of_two n \<le> 2 ^ k"
  using bit_len_le_iff [of "n - 1" k] by (auto simp: next_power_of_two_def)

lemma size_limit_le: "sb_size_limit ws \<le> 8 * SB_MAX_U64S"
proof -
  have "unat (min BCH_SB_LAYOUT_SIZE_BITS_MAX (lay_sb_max_size_bits (sb_layout ws))) \<le> 16"
    by (simp add: min_def BCH_SB_LAYOUT_SIZE_BITS_MAX_def word_le_nat_alt)
  then have "(2 :: nat) ^ unat (min BCH_SB_LAYOUT_SIZE_BITS_MAX (lay_sb_max_size_bits (sb_layout ws))) \<le> 2 ^ 16"
    by (intro power_increasing) simp_all
  then show ?thesis unfolding sb_size_limit_def SB_MAX_U64S_def by linarith
qed

text \<open>The handle while the copies are read.\<close>

definition reading :: "sb_handle \<Rightarrow> bool" where
  "reading h \<longleftrightarrow> h_flags h = 0 \<and> h_file h \<and> (\<exists>sb. h_sb h = Some sb \<and> SB_U64S \<le> length sb \<and> length sb \<le> SB_MAX_U64S)"

definition has_copy :: "sb_handle \<Rightarrow> u64 list \<Rightarrow> bool" where
  "has_copy h ws \<longleftrightarrow> h_seq h = sb_seq ws \<and> (\<exists>n. h_sb h = Some (take n ws) \<and> SB_U64S \<le> n \<and> vstruct_last ws \<le> n \<and> n \<le> length ws)"

lemma realloc_grows:
  assumes "reading h" "h_sb h = Some sb" "\<forall>n. alloc n" "raw_vstruct_bytes u \<le> 8 * SB_MAX_U64S" "8 * length sb < raw_vstruct_bytes u"
  shows "\<exists>z. bch2_sb_realloc alloc h u = Some (0, h\<lparr>h_sb := Some (sb @ z)\<rparr>) \<and> raw_vstruct_bytes u \<le> 8 * length (sb @ z) \<and>
     length (sb @ z) \<le> SB_MAX_U64S"
proof -
  let ?b = "raw_vstruct_bytes u" and ?p = "next_power_of_two (raw_vstruct_bytes u)"
  have b: "?b \<le> ?p" "8 * (?p div 8) = ?p" using next_power_of_two_ge buffer_words by (simp_all add: raw_vstruct_bytes_def)
  have "?p \<le> 2 ^ 25" using assms(4) by (intro next_power_of_two_le) (simp add: SB_MAX_U64S_def)
  then have "?p div 8 \<le> SB_MAX_U64S" using b(2) by (simp add: SB_MAX_U64S_def)
  moreover have "length sb < ?p div 8" "\<not> ?p \<le> 8 * length sb" using assms(5) b by linarith+
  ultimately show ?thesis
    using assms(1-3) b by (intro exI [of _ "replicate (?p div 8 - length sb) 0"]) (simp add: bch2_sb_realloc_def Let_def reading_def)
qed

section \<open>Reading one copy\<close>

lemma read_fitting:
  assumes "reads dev disk" "reading h" "h_sb h = Some sb" "readable disk off" "raw_vstruct_bytes (sb_u64s (disk off)) \<le> 8 * length sb"
  shows "\<exists>ret h'. read_one_super dev alloc h off = Some (ret, h') \<and> reading h' \<and> (ret = 0 \<longleftrightarrow> copy_good (disk off)) \<and>
     (ret = 0 \<longrightarrow> has_copy h' (disk off))"
proof -
  let ?ws = "disk off" and ?sb = "take (length sb) (disk off)"
  have n: "SB_U64S \<le> length sb" "length sb \<le> length ?ws" using assms(2-4) by (auto simp: reading_def readable_def)
  then have d: "dev off sb = (True, ?sb)" using reads_whole [OF assms(1)] by blast
  have v: "vstruct_last ?ws \<le> length sb" using assms(5) by (simp add: vstruct_last_def raw_vstruct_bytes_def SB_U64S_def)
  obtain c where c: "sb_checksum ?ws = Some c" using bch2_checksum_returns by (auto simp: sb_checksum_def)
  let ?h = "h\<lparr>h_sb := Some ?sb\<rparr>"
  have b: "buffer_size ?h = 8 * length sb" using n by (simp add: buffer_size_def)
  have lt: "unat off * 512 < 2 ^ 64" using assms(4) by (simp add: readable_def)
  have eq: "read_one_super dev alloc h off =
     Some (if sb_magic ?ws \<noteq> BCHFS_MAGIC then (- 10, ?h)
           else if bch2_sb_compatible ?ws \<noteq> 0 then (bch2_sb_compatible ?ws, ?h)
           else if raw_vstruct_bytes (sb_u64s ?ws) > sb_size_limit ?ws then (- 11, ?h)
           else if BCH_SB_CSUM_TYPE ?ws \<ge> 8 \<or> BCH_SB_CSUM_TYPE ?ws = 3 \<or> BCH_SB_CSUM_TYPE ?ws = 4 then (- 12, ?h)
           else if c \<noteq> sb_csum ?ws then (- 13, ?h) else (0, ?h\<lparr>h_seq := sb_seq ?ws\<rparr>))"
    unfolding read_one_super.simps [of dev alloc h off] assms(3) bind.simps d Let_def prod.case
      header_take [OF n(1)] checksum_take [OF n(1) v] c b
    using assms(5) lt by (simp only: require_True bind.simps not_less [symmetric] if_False if_True simp_thms) auto
  have r: "reading ?h" "reading (?h\<lparr>h_seq := q\<rparr>)" for q using assms(2,3) n by (auto simp: reading_def)
  have k: "has_copy (?h\<lparr>h_seq := sb_seq ?ws\<rparr>) ?ws" using n v by (auto simp: has_copy_def)
  show ?thesis
  proof (cases "copy_good ?ws")
    case True
    then have "read_one_super dev alloc h off = Some (0, ?h\<lparr>h_seq := sb_seq ?ws\<rparr>)" unfolding eq using c by (auto simp: copy_good_def)
    then show ?thesis using r(2) k True by simp
  next
    case False
    then have "\<exists>ret. ret \<noteq> 0 \<and> read_one_super dev alloc h off = Some (ret, ?h)" unfolding eq using c
      by (simp add: copy_good_def not_less) blast
    then show ?thesis using r(1) False by auto
  qed
qed

lemma read_one_super_ok:
  assumes "reads dev disk" "reading h" "readable disk off" "\<forall>n. alloc n"
  shows "\<exists>ret h'. read_one_super dev alloc h off = Some (ret, h') \<and> reading h' \<and> (ret = 0 \<longleftrightarrow> copy_good (disk off)) \<and>
     (ret = 0 \<longrightarrow> has_copy h' (disk off))"
proof -
  let ?ws = "disk off" and ?bytes = "raw_vstruct_bytes (sb_u64s (disk off))"
  obtain sb where sb: "h_sb h = Some sb" "SB_U64S \<le> length sb" "length sb \<le> length ?ws"
    using assms(2,3) by (auto simp: reading_def readable_def)
  show ?thesis
  proof (cases "?bytes \<le> 8 * length sb")
    case True
    then show ?thesis using read_fitting [OF assms(1,2) sb(1) assms(3)] by blast
  next
    case False
    let ?sb = "take (length sb) ?ws" and ?h = "h\<lparr>h_sb := Some (take (length sb) ?ws)\<rparr>"
    have d: "dev off sb = (True, ?sb)" by (rule reads_whole [OF assms(1) sb(3)])
    have h: "reading ?h" using assms(2) sb by (auto simp: reading_def)
    have lt: "unat off * 512 < 2 ^ 64" using assms(3) by (simp add: readable_def)
    have b: "buffer_size ?h = 8 * length sb" using sb by (simp add: buffer_size_def)
    have eq: "read_one_super dev alloc h off =
       (if sb_magic ?ws \<noteq> BCHFS_MAGIC then Some (- 10, ?h)
        else if bch2_sb_compatible ?ws \<noteq> 0 then Some (bch2_sb_compatible ?ws, ?h)
        else if ?bytes > sb_size_limit ?ws then Some (- 11, ?h)
        else Option.bind (bch2_sb_realloc alloc ?h (sb_u64s ?ws)) (\<lambda>(ret, h). if ret \<noteq> 0 then Some (ret, h) else read_one_super dev alloc h off))"
      unfolding read_one_super.simps [of dev alloc h off] sb(1) bind.simps d Let_def prod.case header_take [OF sb(2)] b
      using False lt by (simp only: require_True bind.simps not_le if_False if_True simp_thms)
    show ?thesis
    proof (cases "sb_magic ?ws = BCHFS_MAGIC \<and> bch2_sb_compatible ?ws = 0 \<and> ?bytes \<le> sb_size_limit ?ws")
      case True
      have "length ?sb = length sb" using sb(3) by simp
      then obtain z where z: "bch2_sb_realloc alloc ?h (sb_u64s ?ws) = Some (0, ?h\<lparr>h_sb := Some (?sb @ z)\<rparr>)"
        "?bytes \<le> 8 * length (?sb @ z)" "length (?sb @ z) \<le> SB_MAX_U64S"
        using realloc_grows [OF h _ assms(4), of ?sb "sb_u64s ?ws"] True size_limit_le [of ?ws] False by (auto simp: not_le)
      let ?h2 = "?h\<lparr>h_sb := Some (?sb @ z)\<rparr>"
      have "reading ?h2" using h z(3) sb by (simp add: reading_def)
      then show ?thesis
        using read_fitting [OF assms(1) _ _ assms(3) z(2), of ?h2 alloc] True z(1) unfolding eq by simp
    next
      case False
      then obtain ret where "ret \<noteq> 0" "read_one_super dev alloc h off = Some (ret, ?h)"
        unfolding eq by (cases "sb_magic ?ws = BCHFS_MAGIC"; cases "bch2_sb_compatible ?ws = 0") simp_all
      moreover have "\<not> copy_good ?ws" using False by (auto simp: copy_good_def)
      ultimately show ?thesis using h by simp
    qed
  qed
qed

section \<open>The newest copy\<close>

text \<open>What the loop over the backups has reached: of the sectors in \<open>S\<close> the best one is a good copy with the greatest sequence
  number, and it is in the buffer when it was the last one read.\<close>

definition newest :: "(u64 \<Rightarrow> u64 list) \<Rightarrow> u64 set \<Rightarrow> u64 \<Rightarrow> bool" where
  "newest disk S off \<longleftrightarrow> off \<in> S \<and> copy_good (disk off) \<and> (\<forall>o'\<in>S. copy_good (disk o') \<longrightarrow> sb_seq (disk o') \<le> sb_seq (disk off))"

definition backup_inv :: "(u64 \<Rightarrow> u64 list) \<Rightarrow> u64 set \<Rightarrow> backup_state \<Rightarrow> bool" where
  "backup_inv disk S s \<longleftrightarrow> reading (bk_handle s) \<and> bk_any_valid s = (\<exists>o'\<in>S. copy_good (disk o')) \<and>
     (if bk_any_valid s
      then newest disk S (bk_best_offset s) \<and> bk_best_seq s = sb_seq (disk (bk_best_offset s)) \<and>
        (bk_last_read s = bk_best_offset s \<longrightarrow> has_copy (bk_handle s) (disk (bk_best_offset s)))
      else bk_best_seq s = 0)"

lemma newest_insert:
  "newest disk S b \<Longrightarrow> \<not> copy_good (disk off) \<or> sb_seq (disk off) \<le> sb_seq (disk b) \<Longrightarrow> newest disk (insert off S) b"
  "copy_good (disk off) \<Longrightarrow> newest disk S b \<Longrightarrow> sb_seq (disk b) \<le> sb_seq (disk off) \<Longrightarrow> newest disk (insert off S) off"
  by (auto simp: newest_def intro: order_trans)

lemma backup_step:
  assumes "backup_inv disk S s" "reading h" "ret = 0 \<longleftrightarrow> copy_good (disk off)" "ret = 0 \<longrightarrow> has_copy h (disk off)"
    "s1 = s\<lparr>bk_handle := h, bk_last_read := off\<rparr>"
  shows "backup_inv disk (insert off S)
     (if ret \<noteq> 0 then s1 else if h_seq h \<ge> bk_best_seq s1 then s1\<lparr>bk_any_valid := True, bk_best_seq := h_seq h, bk_best_offset := off\<rparr>
      else s1\<lparr>bk_any_valid := True\<rparr>)"
proof (cases "copy_good (disk off)")
  case False
  then have "newest disk S b \<Longrightarrow> newest disk (insert off S) b" "\<not> newest disk S off" for b by (auto simp: newest_def)
  then show ?thesis using assms False by (auto simp: backup_inv_def)
next
  case good: True
  then have seq: "h_seq h = sb_seq (disk off)" using assms(3,4) by (simp add: has_copy_def)
  show ?thesis
  proof (cases "bk_best_seq s \<le> h_seq h")
    case True
    have "newest disk (insert off S) off"
      using newest_insert(2) [of disk off S "bk_best_offset s"] assms(1) True seq good
      by (cases "bk_any_valid s") (auto simp: backup_inv_def newest_def)
    then show ?thesis using assms True seq good by (auto simp: backup_inv_def)
  next
    case False
    then have "bk_any_valid s" using assms(1) by (auto simp: backup_inv_def split: if_splits)
    then show ?thesis using assms good False seq newest_insert(1) [of disk S "bk_best_offset s" off] by (auto simp: backup_inv_def)
  qed
qed

lemma backup_loop_newest:
  assumes "reads dev disk" "\<forall>n. alloc n"
  shows "\<forall>off\<in>set offs. readable disk off \<Longrightarrow> backup_inv disk S s \<Longrightarrow>
     \<exists>s'. backup_loop dev alloc offs s = Some s' \<and> backup_inv disk (S \<union> set offs) s'"
proof (induction offs arbitrary: S s)
  case (Cons off offs)
  obtain ret h where r: "read_one_super dev alloc (bk_handle s) off = Some (ret, h)" "reading h" "ret = 0 \<longleftrightarrow> copy_good (disk off)"
    "ret = 0 \<longrightarrow> has_copy h (disk off)"
    using read_one_super_ok [OF assms(1) _ _ assms(2), of "bk_handle s" off] Cons.prems by (auto simp: backup_inv_def)
  let ?s = "s\<lparr>bk_handle := h, bk_last_read := off\<rparr>"
  let ?t = "if ret \<noteq> 0 then ?s else if h_seq h \<ge> bk_best_seq ?s then ?s\<lparr>bk_any_valid := True, bk_best_seq := h_seq h, bk_best_offset := off\<rparr>
     else ?s\<lparr>bk_any_valid := True\<rparr>"
  have "backup_inv disk (insert off S) ?t" by (rule backup_step [OF Cons.prems(2) r(2-4) refl])
  then obtain s' where "backup_loop dev alloc offs ?t = Some s'" "backup_inv disk (insert off S \<union> set offs) s'"
    using Cons.IH [of "insert off S" ?t] Cons.prems(1) by auto
  then show ?case using r(1) by (simp add: Let_def)
qed simp

text \<open>The sectors whose copies are compared, and the layout that names them: that of the first copy when it is good, otherwise the one
  in the layout sector.\<close>

definition found_layout :: "(u64 \<Rightarrow> u64 list) \<Rightarrow> bch_sb_layout" where
  "found_layout disk = (if copy_good (disk BCH_SB_SECTOR) then sb_layout (disk BCH_SB_SECTOR) else layout_at (disk BCH_SB_LAYOUT_SECTOR) 0)"

definition backup_sectors :: "(u64 \<Rightarrow> u64 list) \<Rightarrow> u64 set" where
  "backup_sectors disk = set (drop 1 (take (unat (lay_nr_superblocks (found_layout disk))) (lay_sb_offset (found_layout disk))))"

lemma layout_take: "i + 64 \<le> n \<Longrightarrow> layout_at (take n ws) i = layout_at ws i"
  by (simp add: layout_at_def drop_take min_def)

lemma backup_supers_newest:
  assumes "reads dev disk" "\<forall>n. alloc n" "reading h" "valid \<longrightarrow> readable disk (lay_sb_offset l ! 0)"
    "\<forall>off\<in>set (drop 1 (take (unat (lay_nr_superblocks l)) (lay_sb_offset l))). readable disk off"
    "valid \<longrightarrow> copy_good (disk (lay_sb_offset l ! 0)) \<and> has_copy h (disk (lay_sb_offset l ! 0))"
    "S = (if valid then {lay_sb_offset l ! 0} else {}) \<union> set (drop 1 (take (unat (lay_nr_superblocks l)) (lay_sb_offset l)))"
  shows "\<exists>ret off h'. read_backup_supers dev alloc h l valid = Some (ret, off, h') \<and>
     (if \<exists>o'\<in>S. copy_good (disk o') then ret = 0 \<and> newest disk S off \<and> reading h' \<and> has_copy h' (disk off) else ret = - 14)"
proof -
  let ?p = "lay_sb_offset l ! 0" and ?offs = "drop 1 (take (unat (lay_nr_superblocks l)) (lay_sb_offset l))"
  obtain sb where sb: "h_sb h = Some sb" using assms(3) by (auto simp: reading_def)
  have seq: "valid \<Longrightarrow> sb_seq sb = sb_seq (disk ?p)" using assms(6) sb header_take(7) by (auto simp: has_copy_def)
  let ?s = "\<lparr>bk_handle = h, bk_best_seq = if valid then sb_seq sb else 0, bk_last_read = (if valid then ?p else 0), bk_any_valid = valid,
    bk_best_offset = ?p\<rparr>"
  have "backup_inv disk (if valid then {?p} else {}) ?s" using assms(3,6) seq by (auto simp: backup_inv_def newest_def)
  then obtain s' where l: "backup_loop dev alloc ?offs ?s = Some s'" and i: "backup_inv disk S s'"
    using backup_loop_newest [OF assms(1,2,5)] unfolding assms(7) by blast
  have eq: "read_backup_supers dev alloc h l valid =
     (if \<not> bk_any_valid s' then Some (- 14, bk_best_offset s', bk_handle s')
      else if bk_last_read s' \<noteq> bk_best_offset s' then
        do { (ret, h) \<leftarrow> read_one_super dev alloc (bk_handle s') (bk_best_offset s'); Some (ret, bk_best_offset s', h) }
      else Some (0, bk_best_offset s', bk_handle s'))"
    unfolding read_backup_supers_def using l sb by (cases valid) (simp_all add: Let_def)
  show ?thesis
  proof (cases "bk_any_valid s' \<and> bk_last_read s' \<noteq> bk_best_offset s'")
    case False
    then show ?thesis using i by (auto simp: eq backup_inv_def)
  next
    case True
    then have b: "newest disk S (bk_best_offset s')" "reading (bk_handle s')" using i by (auto simp: backup_inv_def)
    then have "readable disk (bk_best_offset s')" using assms(4,5,7) by (auto simp: newest_def split: if_splits)
    then show ?thesis using read_one_super_ok [OF assms(1) b(2) _ assms(2)] True b(1) i by (fastforce simp: eq newest_def backup_inv_def)
  qed
qed

lemma first_buffer:
  assumes "\<forall>n. alloc n"
  shows "\<exists>h. bch2_sb_realloc alloc (sb_handle_default\<lparr>h_file := True\<rparr>) 0 = Some (0, h) \<and> reading h"
proof -
  have "bit_len 751 = Suc 9" by (rule bit_len_eqI) simp_all
  then have "next_power_of_two 752 = 1024" by (simp add: next_power_of_two_def)
  then show ?thesis
    using assms by (simp add: bch2_sb_realloc_def raw_vstruct_bytes_def sb_handle_default_def Let_def reading_def SB_U64S_def SB_MAX_U64S_def)
qed

section \<open>Properties\<close>

text \<open>The sectors that are compared.\<close>

definition compared_sectors :: "(u64 \<Rightarrow> u64 list) \<Rightarrow> u64 set" where
  "compared_sectors disk = (if copy_good (disk BCH_SB_SECTOR) then {BCH_SB_SECTOR} else {}) \<union> backup_sectors disk"

lemma read_copies_newest:
  assumes "reads dev disk" "\<forall>n. alloc n" "reading h" "readable disk BCH_SB_SECTOR" "64 \<le> length (disk BCH_SB_LAYOUT_SECTOR)"
    "validate_sb_layout (found_layout disk) = 0" "copy_good (disk BCH_SB_SECTOR) \<longrightarrow> lay_sb_offset (found_layout disk) ! 0 = BCH_SB_SECTOR"
    "\<forall>off\<in>backup_sectors disk. readable disk off"
  shows "\<exists>ret off h'. read_super_copies dev alloc h = Some (ret, off, h') \<and>
     (if \<exists>o'\<in>compared_sectors disk. copy_good (disk o')
      then ret = 0 \<and> newest disk (compared_sectors disk) off \<and> reading h' \<and> has_copy h' (disk off) else ret = - 14)"
proof -
  let ?first = "disk BCH_SB_SECTOR" and ?l = "found_layout disk" and ?ws = "take 64 (disk BCH_SB_LAYOUT_SECTOR)"
  obtain ret h1 where r: "read_one_super dev alloc h BCH_SB_SECTOR = Some (ret, h1)" "reading h1" "ret = 0 \<longleftrightarrow> copy_good ?first"
    "ret = 0 \<longrightarrow> has_copy h1 ?first" using read_one_super_ok [OF assms(1,3,4,2)] by blast
  obtain sb where sb: "h_sb h1 = Some sb" "SB_U64S \<le> length sb" using r(2) by (auto simp: reading_def)
  show ?thesis
  proof (cases "copy_good ?first")
    case True
    then have "sb_layout sb = ?l" using r(3,4) sb header_take(8) by (auto simp: found_layout_def has_copy_def)
    then have "read_super_copies dev alloc h = read_backup_supers dev alloc h1 ?l True"
      unfolding read_super_copies_def using r(1,3) True sb(1) assms(6) by (simp add: Let_def)
    then show ?thesis
      using backup_supers_newest [OF assms(1,2) r(2), of True ?l "compared_sectors disk"] assms(4,7,8) r(3,4) True
      by (simp add: compared_sectors_def backup_sectors_def)
  next
    case False
    have "64 \<le> length sb" using sb(2) by (simp add: SB_U64S_def)
    then have d: "dev BCH_SB_LAYOUT_SECTOR (take 64 sb) = (True, ?ws)" "length ?ws = 64"
      using reads_whole [OF assms(1), of "take 64 sb" BCH_SB_LAYOUT_SECTOR] assms(5) by (simp_all add: min_absorb2)
    let ?h = "h1\<lparr>h_sb := Some (?ws @ drop 64 sb)\<rparr>"
    have "layout_at ?ws 0 = ?l" using False layout_take [of 0 64] by (simp add: found_layout_def)
    then have "read_layout_sector dev h1 = Some (0, Some ?l, ?h)"
      unfolding read_layout_sector_def using sb(1) \<open>64 \<le> length sb\<close> assms(6) by (simp add: d(1) Let_def)
    then have eq: "read_super_copies dev alloc h = read_backup_supers dev alloc ?h ?l False"
      unfolding read_super_copies_def using r(1,3) False by simp
    have "reading ?h" using r(2) sb d(2) by (auto simp: reading_def SB_U64S_def)
    then show ?thesis
      using backup_supers_newest [OF assms(1,2), of ?h False ?l "compared_sectors disk"] assms(8) False
      unfolding eq by (simp add: compared_sectors_def backup_sectors_def)
  qed
qed


text \<open>A device with two good copies, of which the second is newer.\<close>

definition sample_copy :: "u64 \<Rightarrow> u64 \<Rightarrow> sb_buf" where
  "sample_copy off seq = sample_valid_sb[13 := off, 14 := seq, 32 := 0x020b00, 34 := 2056]"

definition sample_disk :: "u64 \<Rightarrow> u64 list" where
  "sample_disk off = (if off = 8 then sample_copy 8 1 else if off = 2056 then sample_copy 2056 2 else []) @ replicate SB_MAX_U64S 0"

definition sample_dev :: sb_dev where
  "sample_dev off old = (if length old \<le> length (sample_disk off) then (True, take (length old) (sample_disk off)) else (False, old))"

lemma copy_good_take: "SB_U64S \<le> n \<Longrightarrow> vstruct_last ws \<le> n \<Longrightarrow> copy_good (take n ws) \<longleftrightarrow> copy_good ws"
  by (simp add: copy_good_def header_take checksum_take)

lemma sample_copy_facts:
  "length (sample_copy off seq) = 128" "sb_u64s (sample_copy off seq) = 23" "sb_magic (sample_copy off seq) = BCHFS_MAGIC"
  "bch2_sb_compatible (sample_copy off seq) = 0" "BCH_SB_CSUM_TYPE (sample_copy off seq) = 0"
  "sb_csum (sample_copy off seq) = \<lparr>csum_lo = 0, csum_hi = 0\<rparr>" "lay_sb_max_size_bits (sb_layout (sample_copy off seq)) = 11"
  "take 2 (lay_sb_offset (sb_layout (sample_copy off seq))) = [8, 2056]" "lay_nr_superblocks (sb_layout (sample_copy off seq)) = 2"
  "validate_sb_layout (sb_layout (sample_copy off seq)) = 0" "sb_seq (sample_copy off seq) = seq"
  by code_simp+

lemma sample_copy_good: "copy_good (sample_copy off seq)"
  using sample_copy_facts [of off seq]
  by (simp add: copy_good_def sb_checksum_def bch2_checksum_def raw_vstruct_bytes_def sb_size_limit_def code_consts min_def)

lemma sample_disk_copy:
  assumes "off = 8 \<and> seq = 1 \<or> off = 2056 \<and> seq = 2"
  shows "copy_good (sample_disk off)" "sb_seq (sample_disk off) = seq" "sb_layout (sample_disk off) = sb_layout (sample_copy off seq)"
proof -
  have t: "take 128 (sample_disk off) = sample_copy off seq" using assms sample_copy_facts(1) by (auto simp: sample_disk_def)
  have n: "SB_U64S \<le> 128" by (simp add: SB_U64S_def)
  have "sb_u64s (sample_disk off) = 23" using header_take(3) [OF n, of "sample_disk off"] t sample_copy_facts(2) by simp
  then have "vstruct_last (sample_disk off) \<le> 128" by (simp add: vstruct_last_def SB_U64S_def)
  then show "copy_good (sample_disk off)" using copy_good_take [OF n] t sample_copy_good by metis
  show "sb_seq (sample_disk off) = seq" using header_take(7) [OF n, of "sample_disk off"] t sample_copy_facts(11) by simp
  show "sb_layout (sample_disk off) = sb_layout (sample_copy off seq)" using header_take(8) [OF n, of "sample_disk off"] t by simp
qed

lemma sample_disk_sectors:
  "validate_sb_layout (found_layout sample_disk) = 0" "lay_sb_offset (found_layout sample_disk) ! 0 = 8" "backup_sectors sample_disk = {2056}"
  "compared_sectors sample_disk = {8, 2056}"
proof -
  let ?l = "sb_layout (sample_copy 8 1)"
  have l: "found_layout sample_disk = ?l" using sample_disk_copy [of 8 1] by (simp add: found_layout_def BCH_SB_SECTOR_def)
  have t: "take 2 (lay_sb_offset ?l) = [8, 2056]" by (rule sample_copy_facts(8))
  show v: "validate_sb_layout (found_layout sample_disk) = 0" using l sample_copy_facts(10) by simp
  have "take 2 (lay_sb_offset ?l) ! 0 = lay_sb_offset ?l ! 0" by simp
  then show "lay_sb_offset (found_layout sample_disk) ! 0 = 8" unfolding t using l by simp
  show b: "backup_sectors sample_disk = {2056}" unfolding backup_sectors_def l sample_copy_facts(9) using t by simp
  show "compared_sectors sample_disk = {8, 2056}" using sample_disk_copy(1) [of 8 1] by (auto simp: compared_sectors_def b BCH_SB_SECTOR_def)
qed


end
