(* ===== verification/Jhash.thy ===== *)
theory Jhash
  imports Prelude
begin

unbundle bit_operations_syntax

text \<open>
  The hash functions of Bob Jenkins, \<^verbatim>\<open>util/jhash.rs\<close>, which the hash table uses for its keys: over bytes, over words of 32 bits and
  over one to three words. A pointer to a key is the list of the bytes or words from there on; a read behind its end is a panic.
\<close>

section \<open>Definitions\<close>

definition JHASH_INITVAL :: u32 where [code_consts]: "JHASH_INITVAL = 0xdeadbeef"

definition jhash_size :: "u32 \<Rightarrow> u32 option" where
  "jhash_size n = do { require (n < 32); Some (push_bit (unat n) 1) }"

definition jhash_mask :: "u32 \<Rightarrow> u32 option" where
  "jhash_mask n = do { size' \<leftarrow> jhash_size n; checked_sub size' 1 }"

type_synonym jstate = "u32 \<times> u32 \<times> u32"

definition raw_jhash_mix :: "jstate \<Rightarrow> jstate" where
  "raw_jhash_mix s =
     (let (a, b, c) = s;
          a = a - c; a = a XOR word_rotl 4 c; c = c + b;
          b = b - a; b = b XOR word_rotl 6 a; a = a + c;
          c = c - b; c = c XOR word_rotl 8 b; b = b + a;
          a = a - c; a = a XOR word_rotl 16 c; c = c + b;
          b = b - a; b = b XOR word_rotl 19 a; a = a + c;
          c = c - b; c = c XOR word_rotl 4 b; b = b + a
      in (a, b, c))"

definition raw_jhash_final :: "jstate \<Rightarrow> jstate" where
  "raw_jhash_final s =
     (let (a, b, c) = s;
          c = c XOR b; c = c - word_rotl 14 b;
          a = a XOR c; a = a - word_rotl 11 c;
          b = b XOR a; b = b - word_rotl 25 a;
          c = c XOR b; c = c - word_rotl 16 b;
          a = a XOR c; a = a - word_rotl 4 c;
          b = b XOR a; b = b - word_rotl 14 a;
          c = c XOR b; c = c - word_rotl 24 b
      in (a, b, c))"

definition from_ne_bytes :: "u8 list \<Rightarrow> u32" where
  "from_ne_bytes bs = ucast (bs ! 0) OR push_bit 8 (ucast (bs ! 1)) OR push_bit 16 (ucast (bs ! 2)) OR push_bit 24 (ucast (bs ! 3))"

function jhash_blocks :: "u8 list \<Rightarrow> u32 \<Rightarrow> jstate \<Rightarrow> (u8 list \<times> u32 \<times> jstate) option" where
  "jhash_blocks k len (a, b, c) =
     (if len > 12 then
        do { require (12 \<le> length k);
             jhash_blocks (drop 12 k) (len - 12)
               (raw_jhash_mix (a + from_ne_bytes k, b + from_ne_bytes (drop 4 k), c + from_ne_bytes (drop 8 k))) }
      else Some (k, len, (a, b, c)))"
  by pat_completeness auto
termination
  by (relation "measure (\<lambda>(_, len, _). unat len)") (auto simp: word_less_nat_alt unat_sub word_le_nat_alt)

declare jhash_blocks.simps [simp del]

definition jhash :: "u8 list \<Rightarrow> u32 \<Rightarrow> u32 \<Rightarrow> u32 option" where
  "jhash key len initval =
     do { let a = JHASH_INITVAL + len + initval;
          (k, len, a, b, c) \<leftarrow> jhash_blocks key len (a, a, a);
          require (unat len \<le> length k);
          let c = (if len \<ge> 12 then c + push_bit 24 (ucast (k ! 11)) else c);
          let c = (if len \<ge> 11 then c + push_bit 16 (ucast (k ! 10)) else c);
          let c = (if len \<ge> 10 then c + push_bit 8 (ucast (k ! 9)) else c);
          let c = (if len \<ge> 9 then c + ucast (k ! 8) else c);
          let b = (if len \<ge> 8 then b + push_bit 24 (ucast (k ! 7)) else b);
          let b = (if len \<ge> 7 then b + push_bit 16 (ucast (k ! 6)) else b);
          let b = (if len \<ge> 6 then b + push_bit 8 (ucast (k ! 5)) else b);
          let b = (if len \<ge> 5 then b + ucast (k ! 4) else b);
          let a = (if len \<ge> 4 then a + push_bit 24 (ucast (k ! 3)) else a);
          let a = (if len \<ge> 3 then a + push_bit 16 (ucast (k ! 2)) else a);
          let a = (if len \<ge> 2 then a + push_bit 8 (ucast (k ! 1)) else a);
          Some (if len \<ge> 1 then snd (snd (raw_jhash_final (a + ucast (k ! 0), b, c))) else c) }"

function jhash2_blocks :: "u32 list \<Rightarrow> u32 \<Rightarrow> jstate \<Rightarrow> (u32 list \<times> u32 \<times> jstate) option" where
  "jhash2_blocks k len (a, b, c) =
     (if len > 3 then
        do { require (3 \<le> length k);
             jhash2_blocks (drop 3 k) (len - 3) (raw_jhash_mix (a + k ! 0, b + k ! 1, c + k ! 2)) }
      else Some (k, len, (a, b, c)))"
  by pat_completeness auto
termination
  by (relation "measure (\<lambda>(_, len, _). unat len)") (auto simp: word_less_nat_alt unat_sub word_le_nat_alt)

declare jhash2_blocks.simps [simp del]

text \<open>The shift of the length loses its upper two bits.\<close>

definition jhash2 :: "u32 list \<Rightarrow> u32 \<Rightarrow> u32 \<Rightarrow> u32 option" where
  "jhash2 k len initval =
     do { let a = JHASH_INITVAL + push_bit 2 len + initval;
          (k, len, a, b, c) \<leftarrow> jhash2_blocks k len (a, a, a);
          require (unat len \<le> length k);
          let c = (if len \<ge> 3 then c + k ! 2 else c);
          let b = (if len \<ge> 2 then b + k ! 1 else b);
          Some (if len \<ge> 1 then snd (snd (raw_jhash_final (a + k ! 0, b, c))) else c) }"

definition raw_jhash_nwords :: "u32 \<Rightarrow> u32 \<Rightarrow> u32 \<Rightarrow> u32 \<Rightarrow> u32" where
  "raw_jhash_nwords a b c initval = snd (snd (raw_jhash_final (a + initval, b + initval, c + initval)))"

definition jhash_3words :: "u32 \<Rightarrow> u32 \<Rightarrow> u32 \<Rightarrow> u32 \<Rightarrow> u32" where
  "jhash_3words a b c initval = raw_jhash_nwords a b c (initval + JHASH_INITVAL + push_bit 2 3)"

definition jhash_2words :: "u32 \<Rightarrow> u32 \<Rightarrow> u32 \<Rightarrow> u32" where
  "jhash_2words a b initval = raw_jhash_nwords a b 0 (initval + JHASH_INITVAL + push_bit 2 2)"

definition jhash_1word :: "u32 \<Rightarrow> u32 \<Rightarrow> u32" where
  "jhash_1word a initval = raw_jhash_nwords a 0 0 (initval + JHASH_INITVAL + push_bit 2 1)"

text \<open>The hash of a table without a hash function of its own, \<^verbatim>\<open>rhashtable_init\<close>: the word hash when the length of its keys is a multiple
  of four, with the length in words, otherwise the byte hash. The bytes of the key are read as words.\<close>

fun key_words :: "u8 list \<Rightarrow> u32 list" where
  "key_words (b0 # b1 # b2 # b3 # bs) = from_ne_bytes [b0, b1, b2, b3] # key_words bs"
| "key_words bs = []"

definition rht_default_hashfn :: "u16 \<Rightarrow> u8 list \<Rightarrow> u32 \<Rightarrow> u32 option" where
  "rht_default_hashfn p_key_len key seed =
     (let key_len = ucast p_key_len in
      if key_len AND 3 = 0 then jhash2 (key_words key) (key_len div 4) seed else jhash key key_len seed)"

section \<open>Mixing loses nothing\<close>

text \<open>The inverses of the two permutations of the state: the steps in the opposite order.\<close>

definition jhash_unmix :: "jstate \<Rightarrow> jstate" where
  "jhash_unmix s =
     (let (a, b, c) = s;
          b = b - a; c = c XOR word_rotl 4 b; c = c + b;
          a = a - c; b = b XOR word_rotl 19 a; b = b + a;
          c = c - b; a = a XOR word_rotl 16 c; a = a + c;
          b = b - a; c = c XOR word_rotl 8 b; c = c + b;
          a = a - c; b = b XOR word_rotl 6 a; b = b + a;
          c = c - b; a = a XOR word_rotl 4 c; a = a + c
      in (a, b, c))"

definition jhash_unfinal :: "jstate \<Rightarrow> jstate" where
  "jhash_unfinal s =
     (let (a, b, c) = s;
          c = c + word_rotl 24 b; c = c XOR b;
          b = b + word_rotl 14 a; b = b XOR a;
          a = a + word_rotl 4 c; a = a XOR c;
          c = c + word_rotl 16 b; c = c XOR b;
          b = b + word_rotl 25 a; b = b XOR a;
          a = a + word_rotl 11 c; a = a XOR c;
          c = c + word_rotl 14 b; c = c XOR b
      in (a, b, c))"

lemma xor_cancel: "(x XOR y) XOR y = (x :: u32)"
  by (simp add: xor.assoc)

lemma bij_by_inverse: "(\<And>x. g (f x) = x) \<Longrightarrow> (\<And>x. f (g x) = x) \<Longrightarrow> bij f"
  by (metis bijI')

lemma jhash_mix_bij: "bij raw_jhash_mix"
proof (rule bij_by_inverse [of jhash_unmix])
  show "jhash_unmix (raw_jhash_mix s) = s" for s
    by (cases s) (simp only: jhash_unmix_def raw_jhash_mix_def Let_def prod.case diff_add_cancel add_diff_cancel_right' xor_cancel)
  show "raw_jhash_mix (jhash_unmix s) = s" for s
    by (cases s) (simp only: jhash_unmix_def raw_jhash_mix_def Let_def prod.case diff_add_cancel add_diff_cancel_right' xor_cancel)
qed

lemma jhash_final_bij: "bij raw_jhash_final"
proof (rule bij_by_inverse [of jhash_unfinal])
  show "jhash_unfinal (raw_jhash_final s) = s" for s
    by (cases s) (simp only: jhash_unfinal_def raw_jhash_final_def Let_def prod.case diff_add_cancel add_diff_cancel_right' xor_cancel)
  show "raw_jhash_final (jhash_unfinal s) = s" for s
    by (cases s) (simp only: jhash_unfinal_def raw_jhash_final_def Let_def prod.case diff_add_cancel add_diff_cancel_right' xor_cancel)
qed

section \<open>Bytes and words\<close>

definition word32_bytes :: "u32 \<Rightarrow> u8 list" where
  "word32_bytes w = map (\<lambda>i. ucast (drop_bit (8 * i) w)) [0..<4]"

abbreviation "key_bytes ws \<equiv> concat (map word32_bytes ws)"

lemma word32_bytes_eq: "word32_bytes w = [ucast w, ucast (drop_bit 8 w), ucast (drop_bit 16 w), ucast (drop_bit 24 w)]"
  by (simp add: word32_bytes_def upt_rec numeral_eq_Suc)

lemma length_word32_bytes [simp]: "length (word32_bytes w) = 4"
  by (simp add: word32_bytes_eq)

lemma length_key_bytes [simp]: "length (key_bytes ws) = 4 * length ws"
  by (induction ws) simp_all

lemma bytes_word: "ucast (ucast w :: u8) OR push_bit 8 (ucast (ucast (drop_bit 8 w) :: u8)) OR
    push_bit 16 (ucast (ucast (drop_bit 16 w) :: u8)) OR push_bit 24 (ucast (ucast (drop_bit 24 w) :: u8)) = (w :: u32)"
proof (rule bit_word_eqI)
  fix n
  assume "n < LENGTH(32)"
  then consider "n < 8" | "8 \<le> n" "n < 16" | "16 \<le> n" "n < 24" | "24 \<le> n" "n < 32" by force
  then show "bit (ucast (ucast w :: u8) OR push_bit 8 (ucast (ucast (drop_bit 8 w) :: u8)) OR
      push_bit 16 (ucast (ucast (drop_bit 16 w) :: u8)) OR push_bit 24 (ucast (ucast (drop_bit 24 w) :: u8)) :: u32) n = bit w n"
    by cases (auto simp: bit_simps)
qed

lemma bit_u8_bound: "bit (b :: u8) n \<Longrightarrow> n < 8"
  using bit_imp_le_length [of b n] by simp

lemma bytes_add:
  "a + push_bit 24 (ucast b3) + push_bit 16 (ucast b2) + push_bit 8 (ucast b1) + ucast b0 =
     (a :: u32) + (ucast (b0 :: u8) OR push_bit 8 (ucast (b1 :: u8)) OR push_bit 16 (ucast (b2 :: u8)) OR push_bit 24 (ucast (b3 :: u8)))"
proof -
  let ?x0 = "ucast b0 :: u32" and ?x1 = "push_bit 8 (ucast b1) :: u32" and ?x2 = "push_bit 16 (ucast b2) :: u32" and ?x3 = "push_bit 24 (ucast b3) :: u32"
  have o: "?x0 + ?x1 = ?x0 OR ?x1" "(?x0 OR ?x1) + ?x2 = ?x0 OR ?x1 OR ?x2" "(?x0 OR ?x1 OR ?x2) + ?x3 = ?x0 OR ?x1 OR ?x2 OR ?x3"
    by (subst disjunctive_add_eq_or; auto intro!: bit_word_eqI simp: bit_simps dest!: bit_u8_bound)+
  show ?thesis unfolding o(3) [symmetric] unfolding o(2) [symmetric] o(1) [symmetric] by (simp only: ac_simps)
qed

lemma from_ne_bytes_key: "ws \<noteq> [] \<Longrightarrow> from_ne_bytes (key_bytes ws) = ws ! 0"
  by (cases ws) (simp_all add: from_ne_bytes_def word32_bytes_eq bytes_word)

lemma drop_key_bytes: "drop (4 * n) (key_bytes ws) = key_bytes (drop n ws)"
  by (induction ws arbitrary: n) (auto simp: drop_Cons split: nat.splits)

lemma push_bit_2_u32: "unat (n :: u32) < 2 ^ 30 \<Longrightarrow> unat (push_bit 2 n) = 4 * unat n"
  by (simp add: push_bit_eq_mult unat_mult_lem [THEN iffD1] mult.commute)

lemma jhash2_blocks_rest: "jhash2_blocks ws n s = Some (ws', n', s') \<Longrightarrow> n' \<le> 3"
proof (induction ws n s rule: jhash2_blocks.induct)
  case (1 ws n a b c)
  then show ?case by (cases "3 < n"; cases "3 \<le> length ws") (auto simp: jhash2_blocks.simps [of ws n a b c] require_def)
qed

lemma jhash_blocks_words:
  "unat n < 2 ^ 30 \<Longrightarrow>
     jhash_blocks (key_bytes ws) (push_bit 2 n) s = map_option (\<lambda>(k, len, s). (key_bytes k, push_bit 2 len, s)) (jhash2_blocks ws n s)"
proof (induction ws n s rule: jhash2_blocks.induct)
  case (1 ws n a b c)
  have n: "unat (push_bit 2 n) = 4 * unat n" by (rule push_bit_2_u32 [OF "1.prems"])
  have lt: "12 < push_bit 2 n \<longleftrightarrow> 3 < n" by (simp add: word_less_nat_alt n)
  have "push_bit 2 n - 12 = push_bit 2 (n - 3)" by (simp add: push_bit_eq_mult algebra_simps)
  moreover have "unat (n - 3) < 2 ^ 30" if "3 < n" using that "1.prems" by (simp add: unat_sub word_less_nat_alt word_le_nat_alt)
  moreover have "from_ne_bytes (key_bytes ws) = ws ! 0" "from_ne_bytes (drop 4 (key_bytes ws)) = ws ! 1"
    "from_ne_bytes (drop 8 (key_bytes ws)) = ws ! 2" if "3 \<le> length ws"
    using that from_ne_bytes_key [of ws] list.size(3) from_ne_bytes_key [of "drop 1 ws"] from_ne_bytes_key [of "drop 2 ws"]
      drop_key_bytes [of 1 ws] drop_key_bytes [of 2 ws] by fastforce+
  ultimately show ?case
    using "1.IH" lt drop_key_bytes [of 3 ws]
    by (cases "3 < n"; cases "3 \<le> length ws") (simp_all add: jhash_blocks.simps [of _ _ a b c] jhash2_blocks.simps [of ws n a b c] require_def)
qed

section \<open>Properties\<close>

lemma key_bytes_nth:
  assumes "i < length ws" "j < 4"
  shows "key_bytes ws ! (4 * i + j) = word32_bytes (ws ! i) ! j"
proof -
  have "key_bytes ws ! (4 * i + j) = key_bytes (drop i ws) ! j" using assms by (simp add: drop_key_bytes [symmetric])
  also have "drop i ws = ws ! i # drop (Suc i) ws" using assms(1) by (simp add: Cons_nth_drop_Suc)
  finally show ?thesis using assms(2) by (simp add: nth_append)
qed

lemma add_key_word:
  assumes "i < length ws"
  shows "x + push_bit 24 (ucast (key_bytes ws ! (4 * i + 3))) + push_bit 16 (ucast (key_bytes ws ! (4 * i + 2))) +
     push_bit 8 (ucast (key_bytes ws ! (4 * i + 1))) + ucast (key_bytes ws ! (4 * i)) = x + ws ! i"
  using key_bytes_nth [OF assms, of 3] key_bytes_nth [OF assms, of 2] key_bytes_nth [OF assms, of 1] key_bytes_nth [OF assms, of 0]
  by (simp add: bytes_add word32_bytes_eq bytes_word)

lemma add_key_words:
  "1 \<le> length k \<Longrightarrow> x + push_bit 24 (ucast (key_bytes k ! 3)) + push_bit 16 (ucast (key_bytes k ! 2)) +
     push_bit 8 (ucast (key_bytes k ! 1)) + ucast (key_bytes k ! 0) = x + k ! 0"
  "2 \<le> length k \<Longrightarrow> x + push_bit 24 (ucast (key_bytes k ! 7)) + push_bit 16 (ucast (key_bytes k ! 6)) +
     push_bit 8 (ucast (key_bytes k ! 5)) + ucast (key_bytes k ! 4) = x + k ! 1"
  "3 \<le> length k \<Longrightarrow> x + push_bit 24 (ucast (key_bytes k ! 11)) + push_bit 16 (ucast (key_bytes k ! 10)) +
     push_bit 8 (ucast (key_bytes k ! 9)) + ucast (key_bytes k ! 8) = x + k ! 2"
proof -
  have e: "4 * 1 = (4 :: nat)" "4 * 2 = (8 :: nat)" "4 + 3 = (7 :: nat)" "4 + 2 = (6 :: nat)" "4 + 1 = (5 :: nat)"
    "8 + 3 = (11 :: nat)" "8 + 2 = (10 :: nat)" "8 + 1 = (9 :: nat)" by simp_all
  note k = add_key_word [of 0 k x, unfolded mult_0_right add_0] add_key_word [of 1 k x, unfolded e] add_key_word [of 2 k x, unfolded e]
  show "1 \<le> length k \<Longrightarrow> x + push_bit 24 (ucast (key_bytes k ! 3)) + push_bit 16 (ucast (key_bytes k ! 2)) +
     push_bit 8 (ucast (key_bytes k ! 1)) + ucast (key_bytes k ! 0) = x + k ! 0" by (rule k(1)) linarith
  show "2 \<le> length k \<Longrightarrow> x + push_bit 24 (ucast (key_bytes k ! 7)) + push_bit 16 (ucast (key_bytes k ! 6)) +
     push_bit 8 (ucast (key_bytes k ! 5)) + ucast (key_bytes k ! 4) = x + k ! 1" by (rule k(2)) linarith
  show "3 \<le> length k \<Longrightarrow> x + push_bit 24 (ucast (key_bytes k ! 11)) + push_bit 16 (ucast (key_bytes k ! 10)) +
     push_bit 8 (ucast (key_bytes k ! 9)) + ucast (key_bytes k ! 8) = x + k ! 2" by (rule k(3)) linarith
qed

lemma u32_le_facts: "\<not> (2 :: u32) \<le> 1" "\<not> (3 :: u32) \<le> 1" "(2 :: u32) \<noteq> 0" "(3 :: u32) \<noteq> 0"
  by (simp_all add: word_le_nat_alt word_unat_eq_iff)

lemma small_u32: "(n :: u32) \<le> 3 \<Longrightarrow> n = 0 \<or> n = 1 \<or> n = 2 \<or> n = 3"
proof -
  assume "n \<le> 3"
  then have "unat n \<le> 3" by (simp add: word_le_nat_alt)
  then have "unat n = 0 \<or> unat n = 1 \<or> unat n = 2 \<or> unat n = 3" by linarith
  then show ?thesis by (auto simp: word_unat_eq_iff)
qed

lemma jhash_words:
  assumes "unat n < 2 ^ 30"
  shows "jhash (key_bytes ws) (push_bit 2 n) initval = jhash2 ws n initval"
proof -
  define s where "s = JHASH_INITVAL + push_bit 2 n + initval"
  show ?thesis
  proof (cases "jhash2_blocks ws n (s, s, s)")
    case None
    then show ?thesis unfolding jhash_def jhash2_def Let_def s_def [symmetric] jhash_blocks_words [OF assms] by simp
  next
    case (Some r)
    then obtain k m a b c where r: "jhash2_blocks ws n (s, s, s) = Some (k, m, (a, b, c))" by (metis surj_pair)
    have m: "m = 0 \<or> m = 1 \<or> m = 2 \<or> m = 3" using jhash2_blocks_rest [OF r] small_u32 by blast
    then have u: "unat (push_bit 2 m) = 4 * unat m" by (intro push_bit_2_u32) auto
    show ?thesis
    proof (cases "unat m \<le> length k")
      case False
      then show ?thesis
        unfolding jhash_def jhash2_def Let_def s_def [symmetric] jhash_blocks_words [OF assms] r by (simp add: require_def u)
    next
      case True
      then have q: "require (unat m \<le> length k) = Some ()" "require (unat (push_bit 2 m) \<le> length (key_bytes k)) = Some ()"
        by (simp_all add: require_def u)
      show ?thesis
        unfolding jhash_def jhash2_def Let_def s_def [symmetric] jhash_blocks_words [OF assms] r option.map prod.case bind.simps q
        using m True by (elim disjE) (simp_all add: add_key_words [unfolded One_nat_def] u32_le_facts)
    qed
  qed
qed

lemma jhash2_short: "\<not> 3 < n \<Longrightarrow> jhash2_blocks k n (a, b, c) = Some (k, n, (a, b, c))"
  by (simp only: jhash2_blocks.simps [of k n a b c] if_False)

lemma jhash2_nwords:
  "jhash2 [x] 1 initval = Some (jhash_1word x initval)" "jhash2 [x, y] 2 initval = Some (jhash_2words x y initval)"
  "jhash2 [x, y, z] 3 initval = Some (jhash_3words x y z initval)"
proof -
  have lt: "\<not> (3 :: u32) < 1" "\<not> (3 :: u32) < 2" "\<not> (3 :: u32) < 3" by (simp_all add: word_less_nat_alt)
  have le: "((1 :: u32) \<le> 1) = True" "((2 :: u32) \<le> 1) = False" "((3 :: u32) \<le> 1) = False" "((1 :: u32) \<le> 2) = True"
    "((2 :: u32) \<le> 2) = True" "((3 :: u32) \<le> 2) = False" "((1 :: u32) \<le> 3) = True" "((2 :: u32) \<le> 3) = True" "((3 :: u32) \<le> 3) = True"
    by (simp_all add: word_le_nat_alt)
  have s: "JHASH_INITVAL + w + initval = initval + JHASH_INITVAL + w" for w by (simp only: ac_simps)
  have r: "require (unat (1 :: u32) \<le> length [x]) = Some ()" "require (unat (2 :: u32) \<le> length [x, y]) = Some ()"
    "require (unat (3 :: u32) \<le> length [x, y, z]) = Some ()" by (simp_all add: require_def)
  note defs = jhash2_def Let_def jhash2_short [OF lt(1)] jhash2_short [OF lt(2)] jhash2_short [OF lt(3)] s bind.simps prod.case r le if_True if_False
    jhash_1word_def jhash_2words_def jhash_3words_def raw_jhash_nwords_def
  show "jhash2 [x] 1 initval = Some (jhash_1word x initval)" unfolding defs by (simp add: add.commute)
  show "jhash2 [x, y] 2 initval = Some (jhash_2words x y initval)" unfolding defs by (simp add: add.commute)
  show "jhash2 [x, y, z] 3 initval = Some (jhash_3words x y z initval)" unfolding defs by (simp add: add.commute)
qed

lemma key_words_bytes: "key_words (key_bytes ws) = ws"
  by (induction ws) (simp_all add: word32_bytes_eq from_ne_bytes_def bytes_word)

text \<open>Taking the word hash is only an optimisation.\<close>

lemma default_hashfn_is_jhash: "rht_default_hashfn key_len (key_bytes ws) seed = jhash (key_bytes ws) (ucast key_len) seed"
proof (cases "(ucast key_len :: u32) AND 3 = 0")
  case True
  let ?n = "ucast key_len :: u32"
  have "unat ?n < 2 ^ 16" using unsigned_less [of key_len, where ?'a = nat] by (simp add: unsigned_ucast_eq take_bit_nat_eq_self)
  moreover have "unat (?n div 4) = unat ?n div 4" by (simp add: unat_div)
  ultimately have lt: "unat (?n div 4) < 2 ^ 30" by simp
  have "4 dvd unat ?n"
  proof -
    have "take_bit 2 ?n = ?n AND 3" by (simp add: take_bit_eq_mask mask_eq_exp_minus_1)
    then have "take_bit 2 (unat ?n) = 0" using True by (metis unsigned_0 unsigned_take_bit_eq)
    then show ?thesis by (simp add: take_bit_eq_mod mod_eq_0_iff_dvd)
  qed
  then have "push_bit 2 (?n div 4) = ?n"
    using push_bit_2_u32 [OF lt] by (simp add: word_unat_eq_iff unat_div)
  then show ?thesis using jhash_words [OF lt, of ws seed] True by (simp add: rht_default_hashfn_def key_words_bytes)
qed (simp add: rht_default_hashfn_def)

text \<open>
  C25: hashing the bytes of a key of whole words and hashing its words give the same value, and both read the same part of the key:
  so the hash table, which takes the word hash for keys whose length is a multiple of four, has the byte hash for all lengths. A key
  of one, two or three words has the value of the functions for so many words, and the mixing in between is a permutation of the
  state.
\<close>

theorem jhash_bytes_eq_words:
  assumes "unat n < 2 ^ 30"
  shows "jhash (key_bytes ws) (push_bit 2 n) initval = jhash2 ws n initval \<and>
    rht_default_hashfn key_len (key_bytes ws) initval = jhash (key_bytes ws) (ucast key_len) initval \<and>
    jhash2 [x] 1 initval = Some (jhash_1word x initval) \<and> jhash2 [x, y] 2 initval = Some (jhash_2words x y initval) \<and>
    jhash2 [x, y, z] 3 initval = Some (jhash_3words x y z initval) \<and> bij raw_jhash_mix \<and> bij raw_jhash_final"
  by (intro conjI jhash_words [OF assms] default_hashfn_is_jhash jhash2_nwords jhash_mix_bij jhash_final_bij)

theorem jhash_bytes_eq_words_witness: "jhash [1, 0, 0, 0] 4 7 = Some (jhash_1word 1 7)"
proof -
  have "key_bytes [1] = [1, 0, 0, 0]" by (simp add: word32_bytes_eq)
  moreover have "push_bit 2 1 = (4 :: u32)" by simp
  ultimately show ?thesis using jhash_bytes_eq_words [of 1 "[1]" 7 _ 1] by simp
qed

end
