(* ===== verification/Keylist.thy ===== *)
theory Keylist
  imports Bkey Word_Run
begin

text \<open>
  The list of keys of an interior update, \<^verbatim>\<open>data/keylist.rs\<close>: keys one behind the other in an array of words that the caller
  provides, with the place of the first and the place behind the last. A pointer is an index into the array; the list does not know
  how large the array is, and a write behind its end is a panic.
\<close>

section \<open>Definitions\<close>

record keylist =
  kl_start :: nat
  kl_end :: nat

text \<open>The length of a key is in the first byte of its first word.\<close>

definition bkey_next :: "u64 list \<Rightarrow> nat \<Rightarrow> nat option" where
  "bkey_next mem k = do { w \<leftarrow> nth_opt mem k; Some (k + unat (pk_u64s [w])) }"

definition bkey_copy :: "u64 list \<Rightarrow> nat \<Rightarrow> u64 list \<Rightarrow> u64 list option" where
  "bkey_copy mem dst src =
     do { w \<leftarrow> nth_opt src 0;
          let n = unat (pk_u64s [w]);
          require (n \<le> length src \<and> dst + n \<le> length mem);
          Some (take dst mem @ take n src @ drop (dst + n) mem) }"

definition bch2_keylist_init :: "nat \<Rightarrow> keylist" where
  "bch2_keylist_init inline_keys = \<lparr>kl_start = inline_keys, kl_end = inline_keys\<rparr>"

definition bch2_keylist_push :: "u64 list \<Rightarrow> keylist \<Rightarrow> keylist option" where
  "bch2_keylist_push mem l = do { top \<leftarrow> bkey_next mem (kl_end l); Some (l\<lparr>kl_end := top\<rparr>) }"

definition bch2_keylist_add :: "u64 list \<Rightarrow> keylist \<Rightarrow> u64 list \<Rightarrow> (u64 list \<times> keylist) option" where
  "bch2_keylist_add mem l key = do { mem \<leftarrow> bkey_copy mem (kl_end l) key; l \<leftarrow> bch2_keylist_push mem l; Some (mem, l) }"

definition bch2_keylist_empty :: "keylist \<Rightarrow> bool" where
  "bch2_keylist_empty l \<longleftrightarrow> kl_end l = kl_start l"

definition bch2_keylist_u64s :: "keylist \<Rightarrow> nat" where
  "bch2_keylist_u64s l = kl_end l - kl_start l"

definition bch2_keylist_bytes :: "keylist \<Rightarrow> nat" where
  "bch2_keylist_bytes l = bch2_keylist_u64s l * 8"

definition bch2_keylist_front :: "keylist \<Rightarrow> nat" where
  "bch2_keylist_front l = kl_start l"

section \<open>The keys of a list\<close>

abbreviation "key_len w \<equiv> unat (pk_u64s [w])"

text \<open>What a walk with \<^verbatim>\<open>bkey_next\<close> from the front to the end meets.\<close>

definition keylist_view :: "u64 list \<Rightarrow> keylist \<Rightarrow> u64 list list option" where
  "keylist_view mem l =
     (if kl_start l \<le> kl_end l \<and> kl_end l \<le> length mem then split_run key_len (take (bch2_keylist_u64s l) (drop (kl_start l) mem)) else None)"

lemma keylist_view_iff:
  "keylist_view mem l = Some ks \<longleftrightarrow>
     (\<exists>pre post. mem = pre @ concat ks @ post \<and> kl_start l = length pre \<and> kl_end l = length (pre @ concat ks)) \<and> list_all (run_entry key_len) ks"
proof
  assume a: "keylist_view mem l = Some ks"
  let ?s = "kl_start l" and ?n = "bch2_keylist_u64s l"
  have b: "?s \<le> kl_end l" "kl_end l \<le> length mem" and c: "take ?n (drop ?s mem) = concat ks" "list_all (run_entry key_len) ks"
    using a by (auto simp: keylist_view_def split_run_iff split: if_splits)
  have "mem = take ?s mem @ take ?n (drop ?s mem) @ drop ?n (drop ?s mem)" by (simp only: append_take_drop_id)
  moreover have "length (take ?n (drop ?s mem)) = ?n" "length (take ?s mem) = ?s" using b by (simp_all add: bch2_keylist_u64s_def)
  moreover have "kl_end l = ?s + ?n" using b by (simp add: bch2_keylist_u64s_def)
  ultimately show "(\<exists>pre post. mem = pre @ concat ks @ post \<and> ?s = length pre \<and> kl_end l = length (pre @ concat ks)) \<and>
      list_all (run_entry key_len) ks" using c by (metis length_append)
next
  assume "(\<exists>pre post. mem = pre @ concat ks @ post \<and> kl_start l = length pre \<and> kl_end l = length (pre @ concat ks)) \<and>
      list_all (run_entry key_len) ks"
  then show "keylist_view mem l = Some ks" by (auto simp: keylist_view_def bch2_keylist_u64s_def split_run_complete)
qed

lemma keylist_init_view: "inline_keys \<le> length mem \<Longrightarrow> keylist_view mem (bch2_keylist_init inline_keys) = Some []"
  by (simp add: keylist_view_def bch2_keylist_init_def bch2_keylist_u64s_def)

lemma keylist_empty_iff: "keylist_view mem l = Some ks \<Longrightarrow> bch2_keylist_empty l \<longleftrightarrow> ks = []"
  using run_entry_pos by (cases ks) (fastforce simp: keylist_view_iff bch2_keylist_empty_def)+

text \<open>Adding a key to a list that has room puts it behind the others; neither they nor the words around the list change.\<close>

lemma keylist_add_appends:
  assumes "keylist_view mem l = Some ks" "run_entry key_len key" "kl_end l + length key \<le> length mem"
  shows "\<exists>mem' l'. bch2_keylist_add mem l key = Some (mem', l') \<and> keylist_view mem' l' = Some (ks @ [key]) \<and> kl_start l' = kl_start l \<and>
     bch2_keylist_u64s l' = bch2_keylist_u64s l + length key \<and> length mem' = length mem \<and>
     take (kl_start l) mem' = take (kl_start l) mem \<and> drop (kl_end l') mem' = drop (kl_end l') mem"
proof -
  obtain pre post where m: "mem = pre @ concat ks @ post" "kl_start l = length pre" "kl_end l = length (pre @ concat ks)"
    and ks: "list_all (run_entry key_len) ks" using assms(1) by (auto simp: keylist_view_iff)
  have k: "key \<noteq> []" "key_len (hd key) = length key" using assms(2) unfolding run_entry_def by metis+
  let ?mem = "pre @ concat (ks @ [key]) @ drop (length key) post" and ?l = "l\<lparr>kl_end := kl_end l + length key\<rparr>"
  have n: "nth_opt key 0 = Some (hd key)" using k(1) by (cases key) simp_all
  have post: "length key \<le> length post" using assms(3) m by simp
  have "bkey_copy mem (kl_end l) key = Some ?mem"
    unfolding bkey_copy_def n bind.simps Let_def k(2) using m post by (simp add: require_def)
  moreover have "nth_opt ?mem (kl_end l) = Some (hd key)"
    using nth_run [OF assms(2), of "pre @ concat ks" "drop (length key) post"] m(3) by simp
  ultimately have "bch2_keylist_add mem l key = Some (?mem, ?l)"
    unfolding bch2_keylist_add_def bch2_keylist_push_def bkey_next_def by (simp add: k(2) del: nth_opt_Some)
  moreover have "keylist_view ?mem ?l = Some (ks @ [key])" unfolding keylist_view_iff using m ks assms(2) by auto
  moreover have "drop (kl_end ?l) ?mem = drop (kl_end ?l) mem" "take (kl_start l) ?mem = take (kl_start l) mem" "length ?mem = length mem"
    using m post by simp_all
  moreover have "bch2_keylist_u64s ?l = bch2_keylist_u64s l + length key" using m by (simp add: bch2_keylist_u64s_def)
  ultimately show ?thesis by (intro exI [of _ ?mem] exI [of _ ?l]) simp
qed

end
