(* ===== verification/Spec2Isabelle.thy ===== *)
theory Spec2Isabelle
  imports Node_Iter Bset_Update Bkey_Transform Checksum Six_Protocol Rhashtable Snapshot Journal_System Journal_Keys Bset_Sort Extent_Cut
    Superblock_Read Jhash Keylist
begin

text \<open>
  A verification development of the storage engine under \<^verbatim>\<open>src/crates/subvol/src\<close>, a port of the core of bcachefs
  to Rust: keys ordered in btrees of log-structured nodes, a journal in front of them, snapshots, a checksum library and
  the locks, hash tables and index layouts they rest on. This theory imports the whole development; the other theories
  hold one part of the program each.

  \<^bold>\<open>How the program fits together.\<close> A transaction (\<^verbatim>\<open>btree/update.rs\<close>) looks up nodes in the node cache, a resizable hash
  table, locks them with shared/intent/exclusive locks, reserves room in the open journal entry, writes its keys there and
  into the set of the node that is being written. A node is a few sets of packed keys; each set is sorted, has a table to
  search it, and an iterator merges the sets. The journal is written to buckets on the device that are used round and
  round; pins say which sequence numbers still wait for a node to be written back. Snapshots form a forest whose ancestor
  queries decide which version of a key is visible.

  \<^bold>\<open>Conventions.\<close> Definitions carry the names of the source; \<^verbatim>\<open>__f\<close> is \<open>raw_f\<close>, a loop inside a function \<open>f\<close> is a definition
  of its own whose name starts like \<open>f\<close>'s. A panic (a failed assertion, an index out of range, an arithmetic overflow) is
  \<^const>\<open>None\<close>; an error code is the value the source returns. Machine integers are words where the source relies on their
  width (packed keys, state words, checksums, hashes) and naturals with the bound written out where it only counts. A raw
  pointer into an array of words is an offset. A loop whose end is not evident is a partial function, whose \<^const>\<open>None\<close> also
  stands for not returning; its theorems show that it returns. State is passed explicitly.

  \<^bold>\<open>The theories.\<close>
  \<^item> \<open>Prelude\<close>: the types \<open>u8\<close> to \<open>u64\<close>, checked arithmetic, checked indexing, lemmas on words and lists, and the locale
    of a transition system with an invariant.
  \<^item> \<open>Bkey_Pos\<close>, \<open>Bkey\<close>, \<open>Bkey_Pack\<close>, \<open>Bkey_Format\<close>, \<open>Bkey_Lossy\<close>, \<open>Bkey_Transform\<close> (\<^verbatim>\<open>btree/bkey.rs\<close>): positions and their
    order, keys, formats of packed keys, packing and unpacking, the choice of a format, lossy search positions and
    repacking. Packing and unpacking are inverse, a chosen format packs every key it was chosen for, and the lossy
    position is the greatest representable one below the search position.
  \<^item> \<open>Bkey_Cmp\<close>, \<open>Btree_Node\<close> (\<^verbatim>\<open>btree/node_iter.rs\<close>, \<^verbatim>\<open>btree/types.rs\<close>): comparison of packed keys without unpacking
    them, and the data of a node.
  \<^item> \<open>Eytzinger\<close>, \<open>Bset_Search\<close>, \<open>Node_Iter\<close>, \<open>Bset_Update\<close> (\<^verbatim>\<open>util/eytzinger.rs\<close>, \<^verbatim>\<open>btree/bset_search.rs\<close>,
    \<^verbatim>\<open>btree/node_iter.rs\<close>, \<^verbatim>\<open>btree/bset_update.rs\<close>): the index layout, the search in a set, the iterator over the sets of
    a node, and insertion and deletion. A search finds the first key that is not before the position; the iterator yields
    every key once and in order; an insertion stores exactly the new key among the others and keeps the table right.
  \<^item> \<open>Checksum\<close> (\<^verbatim>\<open>checksum.rs\<close>): the CRC tables and loops equal bit-serial division, \<open>xxh64\<close> equals its reference, and two
    checksums merge into that of the concatenation.
  \<^item> \<open>Six_Lock\<close>, \<open>Six_Protocol\<close> (\<^verbatim>\<open>lock/six.rs\<close>): each operation on the lock as one transition, and a step relation over
    threads that carries who holds and who waits: mutual exclusion, no panic, the oldest waiter is woken.
  \<^item> \<open>Rhashtable\<close> (\<^verbatim>\<open>util/rhashtable.rs\<close>): chains over an explicit heap; the operations and the resizing worker refine those
    of a map.
  \<^item> \<open>Snapshot\<close> (\<^verbatim>\<open>snapshot.rs\<close>): the table, its construction from the keys, ancestor queries with skip pointers and bitmaps,
    and the tree iterator.
  \<^item> \<open>Journal\<close>, \<open>Journal_Res\<close>, \<open>Journal_Space\<close>, \<open>Journal_Pins\<close>, \<open>Journal_System\<close> (\<^verbatim>\<open>journal.rs\<close> up to the write of an entry,
    reclaiming and the set-up for a replay, with the root entries of \<^verbatim>\<open>btree/interior.rs\<close> and the copy of keys of
    \<^verbatim>\<open>btree/update.rs\<close>): the first holds the definitions. Reservations are disjoint and counted; a written record is a
    sequence of complete entries; the oldest needed sequence number is the least one that is pinned, unreplayed or open;
    writes go to free sectors only; writing and reclaiming return. The write-back callbacks, the roots and the results of
    system calls are the argument \<open>journal_env\<close>; the hypotheses \<open>callbacks_ok\<close> and \<open>roots_ok\<close> say what the code relies on.
  \<^item> \<open>Journal_Keys\<close> (\<^verbatim>\<open>journal.rs\<close>): the overlay of the keys of the journal over the btree while it is replayed, with its
    gap, the ranges of overwritten keys and the iterators; the overlay refines a map from positions to keys.
  \<^item> \<open>Bset_Sort\<close> (\<^verbatim>\<open>btree/bset_build.rs\<close>): the sort iterator and the three merges of the sets of a node; of several versions of
    a key the newest survives.
  \<^item> \<open>Extent\<close>, \<open>Extent_Ops\<close>, \<open>Extent_Ptrs\<close>, \<open>Extent_Cut\<close> (\<^verbatim>\<open>btree/bset.rs\<close>): the value of an extent as a run of words: checksum
    entries of three sizes, pointers and stripe pointers; the questions about them and the operations that append, drop, narrow, cut
    and swap. Dropping pointers leaves exactly the others, each with its own checksum and stripe entry; cutting keeps the place of
    every remaining sector.
  \<^item> \<open>Jhash\<close> (\<^verbatim>\<open>util/jhash.rs\<close>): the hashes over bytes and over words, which agree, and the choice the hash table makes between them.
  \<^item> \<open>Keylist\<close> (\<^verbatim>\<open>data/keylist.rs\<close>): the list of keys of an interior update, over an array of words.
  \<^item> \<open>Word_Run\<close>, \<open>Superblock\<close>, \<open>Superblock_Fields\<close>, \<open>Superblock_Valid\<close>, \<open>Superblock_Read\<close> (\<^verbatim>\<open>sb/mod.rs\<close>, \<^verbatim>\<open>sb/io.rs\<close>): runs of entries
    that tell their own length; the definitions; resizing a field by its type as an operation on a list of fields; what a superblock
    that passes validation has; and the choice of the newest good copy on a device. The device and the allocator are arguments.

  \<^bold>\<open>Interfaces.\<close> A locale states each contract that several parts share and is interpreted on the model: \<open>invariant_system\<close>, a
  transition system whose steps keep an invariant (the journal); \<open>linear_checksum\<close>, checksums that are linear in their data;
  \<open>ordered_source\<close>, a source of keys in order (the node and the sort iterator); \<open>slot_store\<close>, the slots of waiting threads; \<open>object_map\<close>,
  the map that a hash table implements; \<open>simulation\<close>, operations that an abstraction function carries over (the overlay of the
  journal); and \<open>key_order\<close>, the order that a merge of sorted sets needs.

  \<^bold>\<open>Not modelled, and why.\<close> Reading the journal from the device and replaying it, the node cache's memory management, node
  I/O, interior updates, paths and iterators over a whole btree, the commit of a transaction and the engine work on raw
  pointers across all the structures above; the operations they are made of are modelled, their composition is
  not. Of \<^verbatim>\<open>btree/bset_build.rs\<close> the heap sort of whiteouts and the building of the read-only tables are left out. The sector
  allocator (\<^verbatim>\<open>btree/alloc.rs\<close>) scans a btree inside transactions. Work queues, the RCU binding (a C library outside the
  repository), the bit spin lock, log output and the command line are threads, foreign code or output.
\<close>

end
